(* ===== verification/Prelude.thy ===== *)
theory Prelude
  imports Complex_Main "HOL-Library.Word"
begin

unbundle bit_operations_syntax

text \<open>
  Shared vocabulary of the development: names for the C integer types, the
  \<open>named_theorems\<close> collections the component theories add to, and the generic
  lemmas that read machine words as integers.  The component proofs move a word
  expression to \<open>int\<close> once, with the rules collected in \<open>word_int\<close>, and reason
  about integers (\<open>div\<close>, \<open>mod\<close>, powers of two) from there on.
\<close>

section \<open>C integer types\<close>

type_synonym u8 = "8 word"
type_synonym u16 = "16 word"
type_synonym u32 = "32 word"
type_synonym u64 = "64 word"

named_theorems word_int \<open>reading words as integers\<close>

text \<open>Real numbers come from words through \<open>uint\<close>; the rule that joins the two casts is off.\<close>

declare of_int_uint [simp del]
declare word_of_int_uint [simp]

section \<open>Words as integers\<close>

lemma uint_take_bit_mod [word_int]:
  "uint (take_bit n (w :: 'a::len word)) = uint w mod 2 ^ n"
  by (simp add: unsigned_take_bit_eq take_bit_eq_mod [of n "uint w"])

lemma uint_drop_bit_div [word_int]:
  "uint (drop_bit n (w :: 'a::len word)) = uint w div 2 ^ n"
proof -
  have "uint (drop_bit n w) = drop_bit n (uint w)"
    by (rule bit_eqI) (auto simp: bit_simps dest: bit_imp_le_length)
  then show ?thesis by (simp add: drop_bit_eq_div)
qed

lemma uint_push_bit_mod [word_int]:
  "uint (push_bit n (w :: 'a::len word)) = (uint w * 2 ^ n) mod 2 ^ LENGTH('a)"
  by transfer (simp add: push_bit_eq_mult take_bit_eq_mod mod_mult_left_eq)

lemma uint_push_bit_small:
  "uint (w :: 'a::len word) * 2 ^ n < 2 ^ LENGTH('a) \<Longrightarrow> uint (push_bit n w) = uint w * 2 ^ n"
  by (simp add: uint_push_bit_mod)

lemma uint_and_mask [word_int]:
  "uint (w AND mask n :: 'a::len word) = uint w mod 2 ^ n"
  by (simp add: uint_take_bit_mod flip: take_bit_eq_mask)

lemma uint_ucast_mod:
  "uint (ucast (w :: 'a::len word) :: 'b::len word) = uint w mod 2 ^ LENGTH('b)"
  by (simp add: unsigned_ucast_eq take_bit_eq_mod)

lemma uint_ucast_32_64 [simp, word_int]: "uint (ucast (w :: u32) :: u64) = uint w"
  using uint_lt2p [of w] by (simp add: uint_ucast_mod)

lemma uint_ucast_64_32 [word_int]: "uint (ucast (w :: u64) :: u32) = uint w mod 2 ^ 32"
  by (simp add: uint_ucast_mod)

lemma uint_of_bool [simp, word_int]: "uint (of_bool b :: 'a::len word) = of_bool b"
  by (cases b) simp_all

lemma uint_or_disjoint:
  "a AND b = 0 \<Longrightarrow> uint (a OR b) = uint a + uint (b :: 'a::len word)"
proof -
  assume "a AND b = 0"
  then have "uint a AND uint b = 0"
    by (metis unsigned_0 unsigned_and_eq)
  then show ?thesis
    by (simp add: unsigned_or_eq disjunctive_add_eq_or)
qed

text \<open>Setting a bit above everything that is set is an addition.\<close>

lemma int_or_high: "0 \<le> x \<Longrightarrow> x < 2 ^ n \<Longrightarrow> x OR 2 ^ n = x + 2 ^ n" for x :: int
proof -
  assume "0 \<le> x" "x < 2 ^ n"
  then have "take_bit n x = x" by (simp add: take_bit_int_eq_self)
  then have "\<not> bit x n" by (metis bit_take_bit_iff less_irrefl)
  then have "x AND 2 ^ n = 0"
    by (intro bit_eqI) (auto simp: bit_and_iff bit_exp_iff)
  then show ?thesis by (simp add: disjunctive_add_eq_or)
qed

text \<open>The jam idiom \<open>x | (cond)\<close> and the clearing idiom \<open>x & ~ (cond)\<close>.\<close>

lemma int_or_one: "x OR 1 = x + of_bool (even x)" for x :: int
  by (simp add: or_one_eq)

lemma uint_or_of_bool [word_int]:
  "uint (x OR of_bool b :: 'a::len word) = uint x + of_bool (b \<and> even (uint x))"
  by (cases b) (simp_all add: unsigned_or_eq int_or_one)

lemma uint_or_one [word_int]:
  "uint (x OR 1 :: 'a::len word) = uint x + of_bool (even (uint x))"
  using uint_or_of_bool [of x True] by simp

lemma uint_and_not_of_bool [word_int]:
  "uint (x AND NOT (of_bool b) :: 'a::len word) = uint x - of_bool (b \<and> odd (uint x))"
proof (cases b)
  case True
  have "uint (x AND NOT 1) = uint x AND NOT 1"
    by (rule bit_eqI) (auto simp: bit_simps dest: bit_imp_le_length)
  also have "\<dots> = 2 * (uint x div 2)"
    using unset_bit_0 [of "uint x"] by (simp add: unset_bit_int_def)
  also have "\<dots> = uint x - of_bool (odd (uint x))"
    by (simp add: minus_mod_eq_mult_div [symmetric] mod_2_eq_odd)
  finally show ?thesis using True by simp
qed simp

lemma uint_minus_mod: "uint (- w :: 'a::len word) = (- uint w) mod 2 ^ LENGTH('a)"
  by (simp add: uint_word_ariths)

text \<open>Every word of a fixed width is below its power of two, with the power evaluated.\<close>

lemma uint_bounds_8: "0 \<le> uint (x :: u8)" "uint (x :: u8) < 256"
  using uint_lt2p [of x] by simp_all

lemma uint_bounds_16: "0 \<le> uint (x :: u16)" "uint (x :: u16) < 65536"
  using uint_lt2p [of x] by simp_all

lemma uint_bounds_32: "0 \<le> uint (x :: u32)" "uint (x :: u32) < 4294967296"
  using uint_lt2p [of x] by simp_all

lemma uint_bounds_64: "0 \<le> uint (x :: u64)" "uint (x :: u64) < 18446744073709551616"
  using uint_lt2p [of x] by simp_all

lemmas uint_bounds = uint_bounds_8 uint_bounds_16 uint_bounds_32 uint_bounds_64

section \<open>Quotients by powers of two\<close>

lemma div_split_pow: "x = x div 2 ^ n * 2 ^ n + x mod 2 ^ n" for x :: int
  by (rule div_mult_mod_eq [symmetric])

lemma pow_split_div: "0 \<le> f \<Longrightarrow> f < 2 ^ n \<Longrightarrow> (e * 2 ^ n + f) div 2 ^ n = e" for e f :: int
  by simp

lemma pow_split_mod: "0 \<le> f \<Longrightarrow> f < 2 ^ n \<Longrightarrow> (e * 2 ^ n + f) mod 2 ^ n = f" for e f :: int
  by simp

lemma int_div_less: "x < m * n \<Longrightarrow> 0 < n \<Longrightarrow> x div n < m" for x :: int
  by (smt (verit) div_mult_mod_eq mult_right_mono pos_mod_sign)

lemma div_less_pow_iff: "x div 2 ^ n < m \<longleftrightarrow> x < m * 2 ^ n" for x m :: int
proof
  assume "x div 2 ^ n < m"
  then have "(x div 2 ^ n + 1) * 2 ^ n \<le> m * 2 ^ n" by (intro mult_right_mono) auto
  moreover have "x mod 2 ^ n < 2 ^ n" by simp
  ultimately show "x < m * 2 ^ n"
    using div_split_pow [of x n] unfolding distrib_right by linarith
next
  assume "x < m * 2 ^ n"
  then show "x div 2 ^ n < m" by (rule int_div_less) simp
qed

end
