(* ===== verification/SF_State.thy ===== *)
theory SF_State
  imports Prelude
begin

text \<open>
  The state and the vocabulary of the SoftFloat library that the instruction-set
  simulator uses for its floating-point instructions
  (\<open>riscv-tools/riscv-isa-sim/softfloat\<close>): the three global variables of
  \<open>softfloat_state.c\<close>, the enumerations of \<open>softfloat.h\<close>, the field macros of
  \<open>internals.h\<close>, the NaN conventions of \<open>specialize.h\<close> and the classification
  functions.  \<open>float32_t\<close> and \<open>float64_t\<close> are structures of one unsigned word, so a
  float is its bit pattern.  \<open>int_fast16_t\<close> exponents are \<open>int\<close>: every exponent
  the code computes stays far inside 16 bits, and C leaves signed overflow undefined.
  \<open>uint_fast32_t\<close> is taken at its guaranteed width of 32 bits, \<open>uint_fast8_t\<close>
  shift counts are \<open>nat\<close>.
\<close>

section \<open>Modes and flags\<close>

definition softfloat_round_near_even :: u8 where "softfloat_round_near_even = 0"
definition softfloat_round_minMag :: u8 where "softfloat_round_minMag = 1"
definition softfloat_round_min :: u8 where "softfloat_round_min = 2"
definition softfloat_round_max :: u8 where "softfloat_round_max = 3"
definition softfloat_round_near_maxMag :: u8 where "softfloat_round_near_maxMag = 4"

definition softfloat_tininess_beforeRounding :: u8 where "softfloat_tininess_beforeRounding = 0"
definition softfloat_tininess_afterRounding :: u8 where "softfloat_tininess_afterRounding = 1"

definition softfloat_flag_inexact :: u8 where "softfloat_flag_inexact = 1"
definition softfloat_flag_underflow :: u8 where "softfloat_flag_underflow = 2"
definition softfloat_flag_overflow :: u8 where "softfloat_flag_overflow = 4"
definition softfloat_flag_infinite :: u8 where "softfloat_flag_infinite = 8"
definition softfloat_flag_invalid :: u8 where "softfloat_flag_invalid = 16"

lemmas sf_modes = softfloat_round_near_even_def softfloat_round_minMag_def
  softfloat_round_min_def softfloat_round_max_def softfloat_round_near_maxMag_def
  softfloat_tininess_beforeRounding_def softfloat_tininess_afterRounding_def

lemmas sf_flags = softfloat_flag_inexact_def softfloat_flag_underflow_def
  softfloat_flag_overflow_def softfloat_flag_infinite_def softfloat_flag_invalid_def

lemma sf_modes_distinct [simp]:
  "softfloat_round_min \<noteq> softfloat_round_max" "softfloat_round_max \<noteq> softfloat_round_min"
  "softfloat_round_near_even \<noteq> softfloat_round_min" "softfloat_round_min \<noteq> softfloat_round_near_even"
  "softfloat_round_near_even \<noteq> softfloat_round_max" "softfloat_round_max \<noteq> softfloat_round_near_even"
  "softfloat_round_near_even \<noteq> softfloat_round_minMag" "softfloat_round_minMag \<noteq> softfloat_round_near_even"
  "softfloat_round_near_even \<noteq> softfloat_round_near_maxMag"
  "softfloat_round_near_maxMag \<noteq> softfloat_round_near_even"
  "softfloat_round_near_maxMag \<noteq> softfloat_round_min" "softfloat_round_min \<noteq> softfloat_round_near_maxMag"
  "softfloat_round_near_maxMag \<noteq> softfloat_round_max" "softfloat_round_max \<noteq> softfloat_round_near_maxMag"
  "softfloat_round_near_maxMag \<noteq> softfloat_round_minMag"
  "softfloat_round_minMag \<noteq> softfloat_round_near_maxMag"
  "softfloat_round_minMag \<noteq> softfloat_round_min" "softfloat_round_min \<noteq> softfloat_round_minMag"
  "softfloat_round_minMag \<noteq> softfloat_round_max" "softfloat_round_max \<noteq> softfloat_round_minMag"
  by (simp_all add: sf_modes)

section \<open>The global state\<close>

record sf_state =
  softfloat_roundingMode :: u8
  softfloat_detectTininess :: u8
  softfloat_exceptionFlags :: u8

definition softfloat_state_init :: sf_state where
  "softfloat_state_init =
     \<lparr>softfloat_roundingMode = softfloat_round_near_even,
      softfloat_detectTininess = softfloat_tininess_afterRounding,
      softfloat_exceptionFlags = 0\<rparr>"

definition softfloat_raiseFlags :: "u8 \<Rightarrow> sf_state \<Rightarrow> sf_state" where
  "softfloat_raiseFlags flags st =
     st\<lparr>softfloat_exceptionFlags := softfloat_exceptionFlags st OR flags\<rparr>"

lemma raiseFlags_simps [simp]:
  "softfloat_roundingMode (softfloat_raiseFlags f st) = softfloat_roundingMode st"
  "softfloat_detectTininess (softfloat_raiseFlags f st) = softfloat_detectTininess st"
  "softfloat_exceptionFlags (softfloat_raiseFlags f st) = softfloat_exceptionFlags st OR f"
  by (simp_all add: softfloat_raiseFlags_def)

lemma raiseFlags_0 [simp]: "softfloat_raiseFlags 0 st = st"
  by (simp add: softfloat_raiseFlags_def)

lemma raiseFlags_raiseFlags [simp]:
  "softfloat_raiseFlags f (softfloat_raiseFlags g st) = softfloat_raiseFlags (g OR f) st"
  by (simp add: softfloat_raiseFlags_def or.assoc)

section \<open>Field macros\<close>

type_synonym float32 = u32
type_synonym float64 = u64

definition signF32UI :: "u32 \<Rightarrow> bool" where "signF32UI a \<longleftrightarrow> drop_bit 31 a \<noteq> 0"
definition expF32UI :: "u32 \<Rightarrow> int" where "expF32UI a = uint (drop_bit 23 a AND 0xFF)"
definition fracF32UI :: "u32 \<Rightarrow> u32" where "fracF32UI a = a AND 0x007FFFFF"
definition packToF32UI :: "bool \<Rightarrow> int \<Rightarrow> u32 \<Rightarrow> u32" where
  "packToF32UI sign expn sig =
     push_bit 31 (of_bool sign) + push_bit 23 (word_of_int expn) + sig"
definition isNaNF32UI :: "u32 \<Rightarrow> bool" where
  "isNaNF32UI a \<longleftrightarrow> a AND 0x7F800000 = 0x7F800000 \<and> a AND 0x007FFFFF \<noteq> 0"

definition signF64UI :: "u64 \<Rightarrow> bool" where "signF64UI a \<longleftrightarrow> drop_bit 63 a \<noteq> 0"
definition expF64UI :: "u64 \<Rightarrow> int" where "expF64UI a = uint (drop_bit 52 a AND 0x7FF)"
definition fracF64UI :: "u64 \<Rightarrow> u64" where "fracF64UI a = a AND 0x000FFFFFFFFFFFFF"
definition packToF64UI :: "bool \<Rightarrow> int \<Rightarrow> u64 \<Rightarrow> u64" where
  "packToF64UI sign expn sig =
     push_bit 63 (of_bool sign) + push_bit 52 (word_of_int expn) + sig"
definition isNaNF64UI :: "u64 \<Rightarrow> bool" where
  "isNaNF64UI a \<longleftrightarrow> a AND 0x7FF0000000000000 = 0x7FF0000000000000 \<and> a AND 0x000FFFFFFFFFFFFF \<noteq> 0"

section \<open>NaN conventions\<close>

text \<open>
  The RISC-V specialisation: every NaN result is the one canonical quiet NaN, and the
  common NaN structure that carries a payload between formats is empty.
\<close>

definition defaultNaNF32UI :: u32 where "defaultNaNF32UI = 0x7FC00000"
definition defaultNaNF64UI :: u64 where "defaultNaNF64UI = 0x7FF8000000000000"

definition softfloat_isSigNaNF32UI :: "u32 \<Rightarrow> bool" where
  "softfloat_isSigNaNF32UI uiA \<longleftrightarrow> uiA AND 0x7FC00000 = 0x7F800000 \<and> uiA AND 0x003FFFFF \<noteq> 0"
definition softfloat_isSigNaNF64UI :: "u64 \<Rightarrow> bool" where
  "softfloat_isSigNaNF64UI uiA \<longleftrightarrow>
     uiA AND 0x7FF8000000000000 = 0x7FF0000000000000 \<and> uiA AND 0x0007FFFFFFFFFFFF \<noteq> 0"

definition softfloat_f32UIToCommonNaN :: "u32 \<Rightarrow> sf_state \<Rightarrow> sf_state" where
  "softfloat_f32UIToCommonNaN uiA st =
     (if uiA AND 0x00400000 = 0 then softfloat_raiseFlags softfloat_flag_invalid st else st)"
definition softfloat_f64UIToCommonNaN :: "u64 \<Rightarrow> sf_state \<Rightarrow> sf_state" where
  "softfloat_f64UIToCommonNaN uiA st =
     (if uiA AND 0x0008000000000000 = 0 then softfloat_raiseFlags softfloat_flag_invalid st else st)"
definition softfloat_commonNaNToF32UI :: u32 where
  "softfloat_commonNaNToF32UI = defaultNaNF32UI"
definition softfloat_commonNaNToF64UI :: u64 where
  "softfloat_commonNaNToF64UI = defaultNaNF64UI"

definition softfloat_propagateNaNF32UI :: "u32 \<Rightarrow> u32 \<Rightarrow> sf_state \<Rightarrow> u32 \<times> sf_state" where
  "softfloat_propagateNaNF32UI uiA uiB st =
     (defaultNaNF32UI,
      if softfloat_isSigNaNF32UI uiA \<or> softfloat_isSigNaNF32UI uiB
      then softfloat_raiseFlags softfloat_flag_invalid st else st)"

definition softfloat_propagateNaNF64UI :: "u64 \<Rightarrow> u64 \<Rightarrow> sf_state \<Rightarrow> u64 \<times> sf_state" where
  "softfloat_propagateNaNF64UI uiA uiB st =
     (defaultNaNF64UI,
      if softfloat_isSigNaNF64UI uiA \<or> softfloat_isSigNaNF64UI uiB
      then softfloat_raiseFlags softfloat_flag_invalid st else st)"

definition f32_isSignalingNaN :: "float32 \<Rightarrow> bool" where
  "f32_isSignalingNaN a = softfloat_isSigNaNF32UI a"

definition f64_isSignalingNaN :: "float64 \<Rightarrow> bool" where
  "f64_isSignalingNaN a = softfloat_isSigNaNF64UI a"

section \<open>Classification\<close>

text \<open>The ten bits of the RISC-V \<open>FCLASS\<close> result.\<close>

definition f32_classify :: "float32 \<Rightarrow> u16" where
  "f32_classify uiA =
    (let infOrNaN = expF32UI uiA = 0xFF;
         subnormalOrZero = expF32UI uiA = 0;
         sign = signF32UI uiA
     in push_bit 0 (of_bool (sign \<and> infOrNaN \<and> fracF32UI uiA = 0))
        OR push_bit 1 (of_bool (sign \<and> \<not> infOrNaN \<and> \<not> subnormalOrZero))
        OR push_bit 2 (of_bool (sign \<and> subnormalOrZero \<and> fracF32UI uiA \<noteq> 0))
        OR push_bit 3 (of_bool (sign \<and> subnormalOrZero \<and> fracF32UI uiA = 0))
        OR push_bit 7 (of_bool (\<not> sign \<and> infOrNaN \<and> fracF32UI uiA = 0))
        OR push_bit 6 (of_bool (\<not> sign \<and> \<not> infOrNaN \<and> \<not> subnormalOrZero))
        OR push_bit 5 (of_bool (\<not> sign \<and> subnormalOrZero \<and> fracF32UI uiA \<noteq> 0))
        OR push_bit 4 (of_bool (\<not> sign \<and> subnormalOrZero \<and> fracF32UI uiA = 0))
        OR push_bit 8 (of_bool (isNaNF32UI uiA \<and> softfloat_isSigNaNF32UI uiA))
        OR push_bit 9 (of_bool (isNaNF32UI uiA \<and> \<not> softfloat_isSigNaNF32UI uiA)))"

definition f64_classify :: "float64 \<Rightarrow> u16" where
  "f64_classify uiA =
    (let infOrNaN = expF64UI uiA = 0x7FF;
         subnormalOrZero = expF64UI uiA = 0;
         sign = signF64UI uiA
     in push_bit 0 (of_bool (sign \<and> infOrNaN \<and> fracF64UI uiA = 0))
        OR push_bit 1 (of_bool (sign \<and> \<not> infOrNaN \<and> \<not> subnormalOrZero))
        OR push_bit 2 (of_bool (sign \<and> subnormalOrZero \<and> fracF64UI uiA \<noteq> 0))
        OR push_bit 3 (of_bool (sign \<and> subnormalOrZero \<and> fracF64UI uiA = 0))
        OR push_bit 7 (of_bool (\<not> sign \<and> infOrNaN \<and> fracF64UI uiA = 0))
        OR push_bit 6 (of_bool (\<not> sign \<and> \<not> infOrNaN \<and> \<not> subnormalOrZero))
        OR push_bit 5 (of_bool (\<not> sign \<and> subnormalOrZero \<and> fracF64UI uiA \<noteq> 0))
        OR push_bit 4 (of_bool (\<not> sign \<and> subnormalOrZero \<and> fracF64UI uiA = 0))
        OR push_bit 8 (of_bool (isNaNF64UI uiA \<and> softfloat_isSigNaNF64UI uiA))
        OR push_bit 9 (of_bool (isNaNF64UI uiA \<and> \<not> softfloat_isSigNaNF64UI uiA)))"

section \<open>Reading the fields as integers\<close>

text \<open>A bit field of a word is a quotient and a remainder by powers of two.\<close>

lemma and_field_eq:
  "w AND push_bit n (mask m) = push_bit n (word_of_int k) \<longleftrightarrow> uint w div 2 ^ n mod 2 ^ m = k"
  if "n + m \<le> LENGTH('a)" "0 \<le> k" "k < 2 ^ m" for w :: "'a::len word"
proof -
  have eq: "w AND push_bit n (mask m) = push_bit n (take_bit m (drop_bit n w))"
    by (intro bit_eqI) (auto simp: bit_simps)
  have small: "uint (push_bit n u) = uint u * 2 ^ n" if "uint u < 2 ^ m" for u :: "'a word"
  proof (rule uint_push_bit_small)
    have "uint u * 2 ^ n < 2 ^ m * 2 ^ n" using that by simp
    also have "\<dots> \<le> 2 ^ LENGTH('a)"
      using \<open>n + m \<le> LENGTH('a)\<close> by (simp flip: power_add add: add.commute)
    finally show "uint u * 2 ^ n < 2 ^ LENGTH('a)" .
  qed
  have "k < 2 ^ LENGTH('a)"
    using that by (meson add_leD2 less_le_trans one_le_numeral power_increasing)
  then have k: "uint (word_of_int k :: 'a word) = k"
    using that by (simp add: uint_word_of_int)
  have "uint (take_bit m (drop_bit n w)) = uint w div 2 ^ n mod 2 ^ m"
    by (simp only: uint_take_bit_mod uint_drop_bit_div)
  then show ?thesis
    unfolding eq word_uint_eq_iff by (subst (1 2) small) (simp_all add: k that)
qed

lemma signF32UI_int: "signF32UI a \<longleftrightarrow> 2 ^ 31 \<le> uint a"
proof -
  have "signF32UI a \<longleftrightarrow> uint a div 2 ^ 31 \<noteq> 0"
    unfolding signF32UI_def by (metis uint_0_iff uint_drop_bit_div)
  then show ?thesis using uint_bounds_32 [of a] by (auto simp: zdiv_eq_0_iff)
qed

lemma signF64UI_int: "signF64UI a \<longleftrightarrow> 2 ^ 63 \<le> uint a"
proof -
  have "signF64UI a \<longleftrightarrow> uint a div 2 ^ 63 \<noteq> 0"
    unfolding signF64UI_def by (metis uint_0_iff uint_drop_bit_div)
  then show ?thesis using uint_bounds_64 [of a] by (auto simp: zdiv_eq_0_iff)
qed

lemma mask_numerals:
  "(0xFF :: u32) = mask 8" "(0x007FFFFF :: u32) = mask 23" "(0x7FFFFFFF :: u32) = mask 31"
  "(0x003FFFFF :: u32) = mask 22"
  "(0x7FF :: u64) = mask 11" "(0x000FFFFFFFFFFFFF :: u64) = mask 52"
  "(0x7FFFFFFFFFFFFFFF :: u64) = mask 63" "(0x0007FFFFFFFFFFFF :: u64) = mask 51"
  by (simp_all add: mask_eq_exp_minus_1)

lemma expF32UI_int: "expF32UI a = uint a div 2 ^ 23 mod 2 ^ 8"
  unfolding expF32UI_def mask_numerals by (simp only: uint_and_mask uint_drop_bit_div)

lemma expF64UI_int: "expF64UI a = uint a div 2 ^ 52 mod 2 ^ 11"
  unfolding expF64UI_def mask_numerals by (simp only: uint_and_mask uint_drop_bit_div)

lemma fracF32UI_int: "uint (fracF32UI a) = uint a mod 2 ^ 23"
  unfolding fracF32UI_def mask_numerals by (simp only: uint_and_mask)

lemma fracF64UI_int: "uint (fracF64UI a) = uint a mod 2 ^ 52"
  unfolding fracF64UI_def mask_numerals by (simp only: uint_and_mask)

lemma packToF32UI_int:
  "uint (packToF32UI s e f) = (of_bool s * 2 ^ 31 + e * 2 ^ 23 + uint f) mod 2 ^ 32"
  unfolding packToF32UI_def
  by (simp add: uint_word_ariths uint_push_bit_mod uint_word_of_int mod_simps)

lemma packToF64UI_int:
  "uint (packToF64UI s e f) = (of_bool s * 2 ^ 63 + e * 2 ^ 52 + uint f) mod 2 ^ 64"
  unfolding packToF64UI_def
  by (simp add: uint_word_ariths uint_push_bit_mod uint_word_of_int mod_simps)

lemma isNaNF32UI_int: "isNaNF32UI a \<longleftrightarrow> expF32UI a = 255 \<and> fracF32UI a \<noteq> 0"
proof -
  have "a AND 0x7F800000 = 0x7F800000 \<longleftrightarrow> uint a div 2 ^ 23 mod 2 ^ 8 = 255"
    using and_field_eq [of 23 8 255 a] by (simp add: mask_eq_exp_minus_1)
  then show ?thesis unfolding isNaNF32UI_def fracF32UI_def expF32UI_int by blast
qed

lemma isNaNF64UI_int: "isNaNF64UI a \<longleftrightarrow> expF64UI a = 2047 \<and> fracF64UI a \<noteq> 0"
proof -
  have "a AND 0x7FF0000000000000 = 0x7FF0000000000000 \<longleftrightarrow> uint a div 2 ^ 52 mod 2 ^ 11 = 2047"
    using and_field_eq [of 52 11 2047 a] by (simp add: mask_eq_exp_minus_1)
  then show ?thesis unfolding isNaNF64UI_def fracF64UI_def expF64UI_int by blast
qed

lemma int_field_split:
  "x = of_bool (2 ^ (n + m) \<le> x) * 2 ^ (n + m) + x div 2 ^ n mod 2 ^ m * 2 ^ n + x mod 2 ^ n"
  if "0 \<le> x" "x < 2 ^ (n + m + 1)" for x :: int
proof (cases "2 ^ (n + m) \<le> x")
  case True
  define y where "y = x - 2 ^ (n + m)"
  have y: "0 \<le> y" "y < 2 ^ m * 2 ^ n" "x = y + 2 ^ m * 2 ^ n"
    using True that by (auto simp: y_def power_add mult.commute)
  have "y div 2 ^ n < 2 ^ m" using y by (simp add: int_div_less)
  then have "(y div 2 ^ n + 2 ^ m) mod 2 ^ m = y div 2 ^ n"
    using y by (simp add: mod_add_self2 pos_imp_zdiv_nonneg_iff)
  then have "x div 2 ^ n mod 2 ^ m * 2 ^ n + x mod 2 ^ n = y"
    unfolding y(3) by (simp add: div_mult_mod_eq)
  then show ?thesis using True y by (simp add: power_add)
next
  case False
  then have "x < 2 ^ m * 2 ^ n" by (simp add: power_add mult.commute)
  then have "x div 2 ^ n < 2 ^ m" by (simp add: int_div_less)
  then have "x div 2 ^ n mod 2 ^ m = x div 2 ^ n" using that by (simp add: pos_imp_zdiv_nonneg_iff)
  then show ?thesis using False div_mult_mod_eq [of x "2 ^ n"] by simp
qed

lemma f32_fields:
  "uint a = of_bool (signF32UI a) * 2 ^ 31 + expF32UI a * 2 ^ 23 + uint (fracF32UI a)"
  using int_field_split [of "uint a" 23 8] uint_bounds_32 [of a]
  unfolding signF32UI_int expF32UI_int fracF32UI_int by simp

lemma f64_fields:
  "uint a = of_bool (signF64UI a) * 2 ^ 63 + expF64UI a * 2 ^ 52 + uint (fracF64UI a)"
  using int_field_split [of "uint a" 52 11] uint_bounds_64 [of a]
  unfolding signF64UI_int expF64UI_int fracF64UI_int by simp

lemma expF32UI_bounds: "0 \<le> expF32UI a" "expF32UI a < 256"
  by (simp_all add: expF32UI_int)
lemma expF64UI_bounds: "0 \<le> expF64UI a" "expF64UI a < 2048"
  by (simp_all add: expF64UI_int)
lemma fracF32UI_bounds: "0 \<le> uint (fracF32UI a)" "uint (fracF32UI a) < 2 ^ 23"
  by (simp_all add: fracF32UI_int del: power_numeral)
lemma fracF64UI_bounds: "0 \<le> uint (fracF64UI a)" "uint (fracF64UI a) < 2 ^ 52"
  by (simp_all add: fracF64UI_int del: power_numeral)

text \<open>A signaling NaN is a NaN whose top fraction bit is clear.\<close>

lemma int_field_top:
  "x div 2 ^ n mod 2 ^ Suc m = 2 * k \<and> x mod 2 ^ n \<noteq> 0 \<longleftrightarrow>
   x div 2 ^ Suc n mod 2 ^ m = k \<and> x mod 2 ^ Suc n \<noteq> 0 \<and> x mod 2 ^ Suc n < 2 ^ n" for x :: int
proof -
  define z where "z = x div 2 ^ n"
  have z2: "x div 2 ^ Suc n = z div 2"
    by (simp add: z_def mult.commute flip: zdiv_zmult2_eq)
  have "z mod 2 ^ Suc m = 2 * (z div 2 mod 2 ^ m) + z mod 2"
    by (simp add: zmod_zmult2_eq)
  moreover have "2 * u + r = 2 * k \<longleftrightarrow> u = k \<and> r = 0" if "0 \<le> r" "r < 2" for u r :: int
    using that by presburger
  ultimately have top: "z mod 2 ^ Suc m = 2 * k \<longleftrightarrow> z div 2 mod 2 ^ m = k \<and> z mod 2 = 0"
    by simp
  have low: "x mod 2 ^ Suc n = (z mod 2) * 2 ^ n + x mod 2 ^ n"
    using zmod_zmult2_eq [of 2 x "2 ^ n"] by (simp add: z_def mult.commute)
  have "(P \<and> r = 0) \<and> w \<noteq> 0 \<longleftrightarrow> P \<and> r * N + w \<noteq> 0 \<and> r * N + w < N"
    if "0 \<le> w" "w < N" "r = 0 \<or> r = 1" for P and r w N :: int
    using that by auto
  moreover have "z mod 2 = 0 \<or> z mod 2 = 1" by presburger
  ultimately show ?thesis
    unfolding z2 low z_def [symmetric] top by simp
qed

lemma softfloat_isSigNaNF32UI_int:
  "softfloat_isSigNaNF32UI a \<longleftrightarrow>
     expF32UI a = 255 \<and> fracF32UI a \<noteq> 0 \<and> uint (fracF32UI a) < 2 ^ 22"
proof -
  have "a AND 0x7FC00000 = 0x7F800000 \<longleftrightarrow> uint a div 2 ^ 22 mod 2 ^ 9 = 510"
    using and_field_eq [of 22 9 510 a] by (simp add: mask_eq_exp_minus_1)
  moreover have "a AND 0x003FFFFF \<noteq> 0 \<longleftrightarrow> uint a mod 2 ^ 22 \<noteq> 0"
    unfolding mask_numerals by (metis uint_0_iff uint_and_mask)
  moreover have "fracF32UI a \<noteq> 0 \<longleftrightarrow> uint a mod 2 ^ 23 \<noteq> 0"
    by (metis uint_0_iff fracF32UI_int)
  ultimately show ?thesis
    unfolding softfloat_isSigNaNF32UI_def expF32UI_int fracF32UI_int
    using int_field_top [of "uint a" 22 8 255] by simp
qed

lemma softfloat_isSigNaNF64UI_int:
  "softfloat_isSigNaNF64UI a \<longleftrightarrow>
     expF64UI a = 2047 \<and> fracF64UI a \<noteq> 0 \<and> uint (fracF64UI a) < 2 ^ 51"
proof -
  have "a AND 0x7FF8000000000000 = 0x7FF0000000000000 \<longleftrightarrow> uint a div 2 ^ 51 mod 2 ^ 12 = 4094"
    using and_field_eq [of 51 12 4094 a] by (simp add: mask_eq_exp_minus_1)
  moreover have "a AND 0x0007FFFFFFFFFFFF \<noteq> 0 \<longleftrightarrow> uint a mod 2 ^ 51 \<noteq> 0"
    unfolding mask_numerals by (metis uint_0_iff uint_and_mask)
  moreover have "fracF64UI a \<noteq> 0 \<longleftrightarrow> uint a mod 2 ^ 52 \<noteq> 0"
    by (metis uint_0_iff fracF64UI_int)
  ultimately show ?thesis
    unfolding softfloat_isSigNaNF64UI_def expF64UI_int fracF64UI_int
    using int_field_top [of "uint a" 51 11 2047] by simp
qed

end
