(* ===== verification/Rounding.thy ===== *)
theory Rounding
  imports SF_State
begin

text \<open>
  The abstract side of the floating-point development: what it means to round a real
  number to a binary format, independently of how the code does it.

  \<open>rnd\<close> rounds a real to an integer under the five rounding modes.  \<open>cell\<close> says that two
  numbers compare in the same way with every multiple of a power of two, which is all that
  rounding can see: SoftFloat keeps a few guard bits and a sticky bit instead of the exact
  result, and \<open>cell\<close> is the relation between the two.  \<open>jam\<close> is the shift with a sticky
  bit on integers.  \<open>fp_mag\<close> reads the magnitude bits of a format as a real and
  \<open>fp_bits\<close> rounds a positive real to magnitude bits.
\<close>

section \<open>Rounding a real to an integer\<close>

definition rne :: "real \<Rightarrow> int" where
  "rne x = (let q = \<lfloor>x\<rfloor>; r = x - of_int q
            in if r < 1 / 2 \<or> (r = 1 / 2 \<and> even q) then q else q + 1)"

definition rnd :: "u8 \<Rightarrow> bool \<Rightarrow> real \<Rightarrow> int" where
  "rnd rm sign x =
     (if rm = softfloat_round_near_even then rne x
      else if rm = softfloat_round_near_maxMag then \<lfloor>x + 1 / 2\<rfloor>
      else if rm = (if sign then softfloat_round_min else softfloat_round_max) then \<lceil>x\<rceil>
      else \<lfloor>x\<rfloor>)"

lemma rnd_of_int [simp]: "rnd rm s (of_int n) = n"
  by (simp add: rnd_def rne_def Let_def floor_eq_iff)

lemma rnd_floor_ceiling: "\<lfloor>x\<rfloor> \<le> rnd rm s x" "rnd rm s x \<le> \<lceil>x\<rceil>"
  unfolding rnd_def rne_def Let_def by (auto, linarith+)

lemma rnd_mono_int: "of_int n \<le> x \<Longrightarrow> n \<le> rnd rm s x" "x \<le> of_int n \<Longrightarrow> rnd rm s x \<le> n"
  using rnd_floor_ceiling [where x = x and rm = rm and s = s] by (linarith)+

lemma rnd_error: "\<bar>of_int (rnd rm s x) - x\<bar> < 1"
  unfolding rnd_def rne_def Let_def by (auto simp: abs_if, linarith+)

lemma rnd_nearest:
  "rm = softfloat_round_near_even \<or> rm = softfloat_round_near_maxMag \<Longrightarrow>
   \<bar>of_int (rnd rm s x) - x\<bar> \<le> 1 / 2"
  unfolding rnd_def rne_def Let_def by (auto simp: abs_if split: if_splits; linarith)

section \<open>Cells: what rounding can see\<close>

definition cell :: "nat \<Rightarrow> real \<Rightarrow> real \<Rightarrow> bool" where
  "cell h n x \<longleftrightarrow> (\<forall>j::int. (n < of_int j * 2 ^ h \<longleftrightarrow> x < of_int j * 2 ^ h) \<and>
                         (n = of_int j * 2 ^ h \<longleftrightarrow> x = of_int j * 2 ^ h))"

lemma cell_refl [simp]: "cell h x x"
  by (simp add: cell_def)

lemma cell_mono: "cell h n x \<Longrightarrow> h \<le> h' \<Longrightarrow> cell h' n x"
proof -
  assume a: "cell h n x" "h \<le> h'"
  have "of_int j * (2::real) ^ h' = of_int (j * 2 ^ (h' - h)) * 2 ^ h" for j
    using a(2) by (simp flip: power_add)
  with a(1) show ?thesis unfolding cell_def by metis
qed

lemma cell_scale: "cell h n x \<Longrightarrow> cell (h + d) (n * 2 ^ d) (x * 2 ^ d)"
proof -
  assume a: "cell h n x"
  have "y * 2 ^ d < of_int j * 2 ^ (h + d) \<longleftrightarrow> y < of_int j * 2 ^ h"
    "y * 2 ^ d = of_int j * 2 ^ (h + d) \<longleftrightarrow> y = of_int j * 2 ^ h" for y :: real and j
    by (simp_all add: power_add flip: mult.assoc)
  with a show ?thesis unfolding cell_def by simp
qed

lemma cell_less: "cell h n x \<Longrightarrow> n < of_int j * 2 ^ h \<longleftrightarrow> x < of_int j * 2 ^ h"
  and cell_eq: "cell h n x \<Longrightarrow> n = of_int j * 2 ^ h \<longleftrightarrow> x = of_int j * 2 ^ h"
  by (simp_all add: cell_def)

lemma cell_le: "cell h n x \<Longrightarrow> n \<le> of_int j * 2 ^ h \<longleftrightarrow> x \<le> of_int j * 2 ^ h"
  unfolding le_less cell_def by blast

lemma cell_ge: "cell h n x \<Longrightarrow> of_int j * 2 ^ h \<le> n \<longleftrightarrow> of_int j * 2 ^ h \<le> x"
  unfolding not_less [symmetric] cell_def by blast

text \<open>Two numbers in the same cell of half a unit round to the same integer.\<close>

lemma rnd_halves:
  assumes "\<And>j::int. n < of_int j / 2 \<longleftrightarrow> x < of_int j / 2"
    and "\<And>j::int. n = of_int j / 2 \<longleftrightarrow> x = of_int j / 2"
  shows "rnd rm s n = rnd rm s x"
proof -
  have le: "of_int j / 2 \<le> n \<longleftrightarrow> of_int j / 2 \<le> x" for j
    using assms(1) [of j] by (simp add: not_less [symmetric])
  have fl: "\<lfloor>n\<rfloor> = \<lfloor>x\<rfloor>"
  proof (rule floor_unique)
    show "of_int \<lfloor>x\<rfloor> \<le> n" using le [of "2 * \<lfloor>x\<rfloor>"] by simp
    show "n < of_int \<lfloor>x\<rfloor> + 1" using assms(1) [of "2 * (\<lfloor>x\<rfloor> + 1)"] by (simp, linarith)
  qed
  have half: "n - of_int q < 1 / 2 \<longleftrightarrow> x - of_int q < 1 / 2"
    "n - of_int q = 1 / 2 \<longleftrightarrow> x - of_int q = 1 / 2" for q :: int
    using assms [of "2 * q + 1"] by (auto simp: field_simps)
  have ce: "\<lceil>n\<rceil> = \<lceil>x\<rceil>"
  proof (rule ceiling_unique)
    show "of_int \<lceil>x\<rceil> - 1 < n"
      using assms [of "2 * (\<lceil>x\<rceil> - 1)"] by (auto simp: not_less le_less, linarith+)
    show "n \<le> of_int \<lceil>x\<rceil>"
      using assms [of "2 * \<lceil>x\<rceil>"] by (auto simp: le_less, linarith+)
  qed
  have mm: "\<lfloor>n + 1 / 2\<rfloor> = \<lfloor>x + 1 / 2\<rfloor>"
  proof (rule floor_unique)
    let ?m = "\<lfloor>x + 1 / 2\<rfloor>"
    have "of_int (2 * ?m - 1) / 2 \<le> x" "x < of_int (2 * ?m + 1) / 2"
      by (simp_all, linarith+)
    then have "of_int (2 * ?m - 1) / 2 \<le> n" "n < of_int (2 * ?m + 1) / 2"
      using le assms(1) by blast+
    then show "of_int ?m \<le> n + 1 / 2" "n + 1 / 2 < of_int ?m + 1"
      by simp_all
  qed
  show ?thesis unfolding rnd_def rne_def Let_def fl ce mm half by simp
qed

lemma rnd_cell: "cell h n x \<Longrightarrow> rnd rm s (n / 2 ^ Suc h) = rnd rm s (x / 2 ^ Suc h)"
proof (rule rnd_halves)
  fix j :: int
  assume c: "cell h n x"
  have "y / 2 ^ Suc h < of_int j / 2 \<longleftrightarrow> y < of_int j * 2 ^ h"
    "y / 2 ^ Suc h = of_int j / 2 \<longleftrightarrow> y = of_int j * 2 ^ h" for y :: real
    by (simp_all add: field_simps)
  then show "n / 2 ^ Suc h < of_int j / 2 \<longleftrightarrow> x / 2 ^ Suc h < of_int j / 2"
    "n / 2 ^ Suc h = of_int j / 2 \<longleftrightarrow> x / 2 ^ Suc h = of_int j / 2"
    using c by (simp_all add: cell_def)
qed

section \<open>The shift with a sticky bit\<close>

definition jam :: "int \<Rightarrow> nat \<Rightarrow> int" where
  "jam n d = n div 2 ^ d + of_bool (even (n div 2 ^ d) \<and> n mod 2 ^ d \<noteq> 0)"

lemma jam_0 [simp]: "jam n 0 = n"
  by (simp add: jam_def)

lemma jam_bounds: "n div 2 ^ d \<le> jam n d" "jam n d \<le> n div 2 ^ d + 1"
  by (simp_all add: jam_def)

lemma jam_exact: "n mod 2 ^ d = 0 \<Longrightarrow> jam n d = n div 2 ^ d"
  by (simp add: jam_def)

lemma jam_even_multiple:
  "jam n d < 2 * j \<longleftrightarrow> n < 2 * j * 2 ^ d" "jam n d = 2 * j \<longleftrightarrow> n = 2 * j * 2 ^ d" for j :: int
proof -
  define q r where "q = n div 2 ^ d" and "r = n mod 2 ^ d"
  have n: "n = q * 2 ^ d + r"
    unfolding q_def r_def by (rule div_mult_mod_eq [symmetric])
  have r: "0 \<le> r" "r < 2 ^ d" by (simp_all add: r_def)
  have lt: "n < k * 2 ^ d \<longleftrightarrow> q < k" for k
  proof
    assume "n < k * 2 ^ d"
    then have "q * 2 ^ d < k * 2 ^ d" using n r by linarith
    then show "q < k" by simp
  next
    assume "q < k"
    then have "(q + 1) * 2 ^ d \<le> k * 2 ^ d" by (intro mult_right_mono) auto
    then show "n < k * 2 ^ d" using n r by (simp add: distrib_right)
  qed
  have eq: "n = k * 2 ^ d \<longleftrightarrow> q = k \<and> r = 0" for k
    by (auto simp: q_def r_def)
  show "jam n d < 2 * j \<longleftrightarrow> n < 2 * j * 2 ^ d"
    unfolding lt jam_def q_def [symmetric] r_def [symmetric] by (auto elim!: evenE; presburger)
  show "jam n d = 2 * j \<longleftrightarrow> n = 2 * j * 2 ^ d"
    unfolding eq jam_def q_def [symmetric] r_def [symmetric] by (auto; presburger)
qed

text \<open>Jamming keeps the cell: nothing rounding can see is lost.\<close>

lemma cell_jam:
  assumes "cell h (of_int n) x" "h \<le> h' + d" "1 \<le> h'"
  shows "cell h' (of_int (jam n d)) (x / 2 ^ d)"
proof -
  have c: "cell (h' + d) (of_int n) x" using assms cell_mono by blast
  obtain k where h': "h' = Suc k" using assms(3) by (cases h') auto
  show ?thesis
    unfolding cell_def
  proof (intro allI)
    fix j :: int
    have jr: "of_int j * 2 ^ h' = real_of_int (2 * (j * 2 ^ k))" by (simp add: h')
    have "real_of_int (jam n d) < of_int j * 2 ^ h' \<longleftrightarrow> jam n d < 2 * (j * 2 ^ k)"
      unfolding jr of_int_less_iff ..
    also have "\<dots> \<longleftrightarrow> n < j * 2 ^ (h' + d)"
      unfolding jam_even_multiple by (simp add: h' power_add mult.assoc mult.left_commute)
    also have "\<dots> \<longleftrightarrow> real_of_int n < of_int j * 2 ^ (h' + d)"
      by (simp flip: of_int_less_iff [where 'a = real])
    also have "\<dots> \<longleftrightarrow> x < of_int j * 2 ^ (h' + d)" using c by (rule cell_less)
    also have "\<dots> \<longleftrightarrow> x / 2 ^ d < of_int j * 2 ^ h'"
      by (simp add: power_add field_simps)
    finally have 1: "real_of_int (jam n d) < of_int j * 2 ^ h' \<longleftrightarrow> x / 2 ^ d < of_int j * 2 ^ h'" .
    have "real_of_int (jam n d) = of_int j * 2 ^ h' \<longleftrightarrow> jam n d = 2 * (j * 2 ^ k)"
      unfolding jr of_int_eq_iff ..
    also have "\<dots> \<longleftrightarrow> n = j * 2 ^ (h' + d)"
      unfolding jam_even_multiple by (simp add: h' power_add mult.assoc mult.left_commute)
    also have "\<dots> \<longleftrightarrow> real_of_int n = of_int j * 2 ^ (h' + d)"
      by (simp flip: of_int_eq_iff [where 'a = real])
    also have "\<dots> \<longleftrightarrow> x = of_int j * 2 ^ (h' + d)" using c by (rule cell_eq)
    also have "\<dots> \<longleftrightarrow> x / 2 ^ d = of_int j * 2 ^ h'"
      by (simp add: power_add field_simps)
    finally have 2: "real_of_int (jam n d) = of_int j * 2 ^ h' \<longleftrightarrow> x / 2 ^ d = of_int j * 2 ^ h'" .
    show "(real_of_int (jam n d) < of_int j * 2 ^ h' \<longleftrightarrow> x / 2 ^ d < of_int j * 2 ^ h') \<and>
          (real_of_int (jam n d) = of_int j * 2 ^ h' \<longleftrightarrow> x / 2 ^ d = of_int j * 2 ^ h')"
      using 1 2 by blast
  qed
qed

lemma cell_jam_int: "1 \<le> h' \<Longrightarrow> cell h' (of_int (jam n d)) (of_int n / 2 ^ d)"
  using cell_jam [of 0 n "of_int n" h' d] by simp

text \<open>A large shift leaves only the sticky bit.\<close>

lemma jam_large: "0 \<le> n \<Longrightarrow> n < 2 ^ d \<Longrightarrow> jam n d = of_bool (n \<noteq> 0)"
  by (simp add: jam_def)

section \<open>Rounding with an increment\<close>

text \<open>
  The code rounds by adding an increment and truncating, and clears the last bit of a tie
  under nearest-even.
\<close>

definition round_incr :: "nat \<Rightarrow> u8 \<Rightarrow> bool \<Rightarrow> int" where
  "round_incr k rm sign =
     (if rm = softfloat_round_near_even \<or> rm = softfloat_round_near_maxMag then 2 ^ (k - 1)
      else if rm = (if sign then softfloat_round_min else softfloat_round_max) then 2 ^ k - 1
      else 0)"

definition round_int :: "nat \<Rightarrow> u8 \<Rightarrow> bool \<Rightarrow> int \<Rightarrow> int" where
  "round_int k rm sign n =
     (let t = (n + round_incr k rm sign) div 2 ^ k
      in t - of_bool (odd t \<and> n mod 2 ^ k = 2 ^ (k - 1) \<and> rm = softfloat_round_near_even))"

lemma floor_half_int: "\<lfloor>real_of_int n / 2 ^ Suc h + 1 / 2\<rfloor> = (n + 2 ^ h) div 2 ^ Suc h"
proof -
  have "real_of_int n / 2 ^ Suc h + 1 / 2 = real_of_int (n + 2 ^ h) / real_of_int (2 ^ Suc h)"
    by (simp add: field_simps)
  then show ?thesis by (simp only: floor_divide_of_int_eq)
qed

lemma ceiling_int: "\<lceil>real_of_int n / 2 ^ k\<rceil> = (n + (2 ^ k - 1)) div 2 ^ k"
proof (rule ceiling_unique)
  let ?q = "(n + (2 ^ k - 1)) div 2 ^ k" and ?r = "(n + (2 ^ k - 1)) mod 2 ^ k"
  have n: "n + (2 ^ k - 1) = ?q * 2 ^ k + ?r" by (rule div_mult_mod_eq [symmetric])
  have r: "0 \<le> ?r" "?r < 2 ^ k" by simp_all
  have "n \<le> ?q * 2 ^ k" "?q * 2 ^ k - 2 ^ k < n" using n r by linarith+
  then have "real_of_int n \<le> real_of_int (?q * 2 ^ k)"
    "real_of_int (?q * 2 ^ k - 2 ^ k) < real_of_int n" by (simp_all only: of_int_le_iff of_int_less_iff)
  then show "real_of_int n / 2 ^ k \<le> of_int ?q" "of_int ?q - 1 < real_of_int n / 2 ^ k"
    by (simp_all add: field_simps)
qed

lemma rne_int:
  "rne (real_of_int n / 2 ^ Suc h) =
     (let q = n div 2 ^ Suc h; r = n mod 2 ^ Suc h
      in if r < 2 ^ h \<or> (r = 2 ^ h \<and> even q) then q else q + 1)"
proof -
  define q r where "q = n div 2 ^ Suc h" and "r = n mod 2 ^ Suc h"
  have n: "n = q * 2 ^ Suc h + r"
    unfolding q_def r_def by (rule div_mult_mod_eq [symmetric])
  have fl: "\<lfloor>real_of_int n / 2 ^ Suc h\<rfloor> = q"
    using floor_divide_of_int_eq [of n "2 ^ Suc h", where 'a = real] by (simp add: q_def)
  have "real_of_int n / 2 ^ Suc h - of_int q = of_int r / 2 ^ Suc h"
    unfolding n by (simp add: field_simps)
  moreover have "real_of_int r / 2 ^ Suc h < 1 / 2 \<longleftrightarrow> r < 2 ^ h"
  proof -
    have "real_of_int r / 2 ^ Suc h < 1 / 2 \<longleftrightarrow> real_of_int r < real_of_int (2 ^ h)"
      by (simp add: field_simps)
    then show ?thesis by (simp only: of_int_less_iff)
  qed
  moreover have "real_of_int r / 2 ^ Suc h = 1 / 2 \<longleftrightarrow> r = 2 ^ h"
  proof -
    have "real_of_int r / 2 ^ Suc h = 1 / 2 \<longleftrightarrow> real_of_int r = real_of_int (2 ^ h)"
      by (auto simp: field_simps)
    then show ?thesis by (simp only: of_int_eq_iff)
  qed
  ultimately show ?thesis
    unfolding rne_def Let_def fl q_def [symmetric] r_def [symmetric] by simp
qed

lemma half_up_int:
  "(n + 2 ^ h) div 2 ^ Suc h = n div 2 ^ Suc h + of_bool (2 ^ h \<le> n mod 2 ^ Suc h)" for n :: int
proof -
  define q r where "q = n div 2 ^ Suc h" and "r = n mod 2 ^ Suc h"
  have n: "n = q * 2 ^ Suc h + r"
    unfolding q_def r_def by (rule div_mult_mod_eq [symmetric])
  have r: "0 \<le> r" "r < 2 ^ Suc h" by (simp_all add: r_def)
  have "(n + 2 ^ h) div 2 ^ Suc h = q + (r + 2 ^ h) div 2 ^ Suc h"
    unfolding n by (simp add: add.assoc)
  moreover have "(r + 2 ^ h) div 2 ^ Suc h = of_bool (2 ^ h \<le> r)"
  proof (cases "2 ^ h \<le> r")
    case True
    then have "(r + 2 ^ h) div 2 ^ Suc h = 1"
      using r by (intro int_div_pos_eq [of _ _ _ "r - 2 ^ h"]) auto
    with True show ?thesis by simp
  qed (use r in simp)
  ultimately show ?thesis by (simp add: q_def r_def)
qed

theorem rnd_round_int: "rnd rm s (of_int n / 2 ^ Suc h) = round_int (Suc h) rm s n"
proof -
  have fl: "\<lfloor>real_of_int n / 2 ^ Suc h\<rfloor> = n div 2 ^ Suc h"
    using floor_divide_of_int_eq [of n "2 ^ Suc h", where 'a = real] by simp
  consider (even) "rm = softfloat_round_near_even" | (maxMag) "rm = softfloat_round_near_maxMag"
    | (away) "rm = (if s then softfloat_round_min else softfloat_round_max)"
    | (other) "rm \<noteq> softfloat_round_near_even" "rm \<noteq> softfloat_round_near_maxMag"
        "rm \<noteq> (if s then softfloat_round_min else softfloat_round_max)" by blast
  then show ?thesis
  proof cases
    case even
    then show ?thesis
      by (simp add: rnd_def round_int_def round_incr_def rne_int Let_def half_up_int
          del: power_Suc) linarith
  next
    case maxMag
    then show ?thesis
      by (simp add: rnd_def round_int_def round_incr_def floor_half_int del: power_Suc)
  next
    case away
    then show ?thesis
      by (simp add: rnd_def round_int_def round_incr_def ceiling_int del: power_Suc)
  next
    case other
    then show ?thesis
      by (simp add: rnd_def round_int_def round_incr_def fl del: power_Suc)
  qed
qed

end
