(* ===== verification/FP_Format.thy ===== *)
theory FP_Format
  imports Rounding
begin

text \<open>
  Binary interchange formats as sets of real numbers: the magnitude bits of a float read
  as an integer \<open>m\<close> (exponent field above fraction field), \<open>fp_mag\<close> its real value,
  \<open>fp_bits\<close> the rounding of a positive real to magnitude bits with an unbounded upper
  exponent.  The locale \<open>binary_format\<close> proves once what both formats share: the value
  is strictly increasing in the magnitude bits, the rounded result is a nearest float (or
  the nearest one below or above, in the directed modes), and the guard-and-sticky form the
  code computes rounds to the same bits.
\<close>

section \<open>Values and rounding of a format\<close>

definition fp_mag :: "nat \<Rightarrow> int \<Rightarrow> int \<Rightarrow> real" where
  "fp_mag fb bias m =
     (let e = m div 2 ^ fb; f = m mod 2 ^ fb
      in if e = 0 then of_int f * 2 powi (1 - bias - int fb)
         else of_int (2 ^ fb + f) * 2 powi (e - bias - int fb))"

definition fp_exp :: "int \<Rightarrow> real \<Rightarrow> int" where
  "fp_exp bias v = max \<lfloor>log 2 v\<rfloor> (1 - bias)"

definition fp_sig :: "nat \<Rightarrow> int \<Rightarrow> u8 \<Rightarrow> bool \<Rightarrow> real \<Rightarrow> int" where
  "fp_sig fb bias rm sign v = rnd rm sign (v * 2 powi (int fb - fp_exp bias v))"

definition fp_bits :: "nat \<Rightarrow> int \<Rightarrow> u8 \<Rightarrow> bool \<Rightarrow> real \<Rightarrow> int" where
  "fp_bits fb bias rm sign v = (fp_exp bias v + bias - 1) * 2 ^ fb + fp_sig fb bias rm sign v"

definition fp_inexact :: "nat \<Rightarrow> int \<Rightarrow> u8 \<Rightarrow> bool \<Rightarrow> real \<Rightarrow> bool" where
  "fp_inexact fb bias rm sign v \<longleftrightarrow> fp_mag fb bias (fp_bits fb bias rm sign v) \<noteq> v"

text \<open>
  Tininess: below the smallest normal number before rounding, or after rounding to the
  full precision with an unbounded exponent.
\<close>

definition fp_tiny :: "nat \<Rightarrow> int \<Rightarrow> bool \<Rightarrow> u8 \<Rightarrow> bool \<Rightarrow> real \<Rightarrow> bool" where
  "fp_tiny fb bias before rm sign v \<longleftrightarrow>
     (if before then v < 2 powi (1 - bias)
      else real_of_int (rnd rm sign (v * 2 powi (int fb - \<lfloor>log 2 v\<rfloor>))) * 2 powi (\<lfloor>log 2 v\<rfloor> - int fb)
           < 2 powi (1 - bias))"

text \<open>
  The real number a guarded significand \<open>x\<close> with biased exponent \<open>e\<close> stands for, with
  \<open>h + 1\<close> guard bits below the fraction of the format.
\<close>

definition fp_scaled :: "nat \<Rightarrow> int \<Rightarrow> nat \<Rightarrow> int \<Rightarrow> real \<Rightarrow> real" where
  "fp_scaled fb bias h e x = x * 2 powi (e - bias - int (fb + h))"

text \<open>
  The magnitude bits and the flags of the rounded result: past the largest finite number
  the result is infinity in the modes that round away and the largest finite number in the
  others.
\<close>

definition fp_rounds_away :: "u8 \<Rightarrow> bool \<Rightarrow> bool" where
  "fp_rounds_away rm sign \<longleftrightarrow>
     rm = softfloat_round_near_even \<or> rm = softfloat_round_near_maxMag \<or>
     rm = (if sign then softfloat_round_min else softfloat_round_max)"

definition fp_round_mag :: "nat \<Rightarrow> int \<Rightarrow> u8 \<Rightarrow> bool \<Rightarrow> real \<Rightarrow> int" where
  "fp_round_mag fb bias rm sign v =
     (let m = fp_bits fb bias rm sign v; ovb = (2 * bias + 1) * 2 ^ fb
      in if m < ovb then m else if fp_rounds_away rm sign then ovb else ovb - 1)"

definition fp_round_flags :: "nat \<Rightarrow> int \<Rightarrow> bool \<Rightarrow> u8 \<Rightarrow> bool \<Rightarrow> real \<Rightarrow> u8" where
  "fp_round_flags fb bias before rm sign v =
     (if (2 * bias + 1) * 2 ^ fb \<le> fp_bits fb bias rm sign v
      then softfloat_flag_overflow OR softfloat_flag_inexact
      else (if fp_tiny fb bias before rm sign v \<and> fp_inexact fb bias rm sign v
            then softfloat_flag_underflow else 0)
           OR (if fp_inexact fb bias rm sign v then softfloat_flag_inexact else 0))"

section \<open>Powers of two\<close>

lemma powi_add: "(2::real) powi (a + b) = 2 powi a * 2 powi b"
  by (simp add: power_int_add)

lemma powi_diff: "(2::real) powi (a - b) = 2 powi a / 2 powi b"
  by (simp add: power_int_diff)

lemma powi_pos [simp]: "(0::real) < 2 powi a"
  by (simp add: zero_less_power_int)

lemma powi_mono: "a \<le> b \<Longrightarrow> (2::real) powi a \<le> 2 powi b"
  by (simp add: power_int_increasing)

lemma powi_strict_mono: "a < b \<Longrightarrow> (2::real) powi a < 2 powi b"
  by (simp add: power_int_strict_increasing)

lemma powi_le_iff [simp]: "(2::real) powi a \<le> 2 powi b \<longleftrightarrow> a \<le> b"
  by (meson linorder_not_less powi_mono powi_strict_mono)

lemma powi_less_iff [simp]: "(2::real) powi a < 2 powi b \<longleftrightarrow> a < b"
  by (meson linorder_not_less powi_le_iff)

lemma powi_neg_nat: "(2::real) powi (- int n) = 1 / 2 ^ n"
  by (simp add: power_int_minus inverse_eq_divide)

lemma floor_log2_iff: "0 < v \<Longrightarrow> \<lfloor>log 2 v\<rfloor> = e \<longleftrightarrow> 2 powi e \<le> v \<and> v < 2 powi (e + 1)"
  using floor_log_eq_powr_iff [of v 2 e] powr_real_of_int' [of 2 e] powr_real_of_int' [of 2 "e + 1"]
  by simp

lemma floor_log2: "2 powi e \<le> v \<Longrightarrow> v < 2 powi (e + 1) \<Longrightarrow> \<lfloor>log 2 v\<rfloor> = e"
  using floor_log2_iff [of v e] powi_pos [of e] by linarith

lemma log2_bounds:
  "0 < v \<Longrightarrow> 2 powi \<lfloor>log 2 v\<rfloor> \<le> v" "0 < v \<Longrightarrow> v < 2 powi (\<lfloor>log 2 v\<rfloor> + 1)"
  using floor_log2_iff [of v "\<lfloor>log 2 v\<rfloor>"] by simp_all

lemma log2_le: "0 < v \<Longrightarrow> v < 2 powi e \<Longrightarrow> \<lfloor>log 2 v\<rfloor> < e"
  using log2_bounds(1) [of v] by (meson le_less_trans powi_less_iff)

section \<open>Formats\<close>

locale binary_format =
  fixes fb :: nat and bias :: int
  assumes fb_pos: "1 \<le> fb" and bias_pos: "1 \<le> bias"
begin

lemma mag_normal:
  assumes "0 \<le> e" "2 ^ fb \<le> s" "s < 2 ^ Suc fb"
  shows "fp_mag fb bias (e * 2 ^ fb + s) = of_int s * 2 powi (e + 1 - bias - int fb)"
proof -
  have s: "s = 2 ^ fb + (s - 2 ^ fb)" "0 \<le> s - 2 ^ fb" "s - 2 ^ fb < 2 ^ fb" using assms by auto
  have "e * 2 ^ fb + s = (e + 1) * 2 ^ fb + (s - 2 ^ fb)" by (simp add: algebra_simps)
  then have "(e * 2 ^ fb + s) div 2 ^ fb = e + 1" "(e * 2 ^ fb + s) mod 2 ^ fb = s - 2 ^ fb"
    using pow_split_div [OF s(2,3), of "e + 1"] pow_split_mod [OF s(2,3), of "e + 1"] by (simp_all only:)
  then show ?thesis using assms(1) by (simp add: fp_mag_def)
qed

lemma mag_subnormal:
  "0 \<le> s \<Longrightarrow> s < 2 ^ fb \<Longrightarrow> fp_mag fb bias s = of_int s * 2 powi (1 - bias - int fb)"
  by (simp add: fp_mag_def)

text \<open>A carry out of the significand moves into the exponent field.\<close>

lemma mag_combine:
  assumes "0 \<le> e" "2 ^ fb \<le> s \<or> e = 0" "0 \<le> s" "s \<le> 2 ^ Suc fb"
  shows "fp_mag fb bias (e * 2 ^ fb + s) = of_int s * 2 powi (e + 1 - bias - int fb)"
proof -
  consider (carry) "s = 2 ^ Suc fb" | (normal) "2 ^ fb \<le> s" "s < 2 ^ Suc fb"
    | (sub) "e = 0" "s < 2 ^ fb" using assms by fastforce
  then show ?thesis
  proof cases
    case carry
    then have "e * 2 ^ fb + s = (e + 1) * 2 ^ fb + 2 ^ fb" by (simp add: algebra_simps)
    then have "fp_mag fb bias (e * 2 ^ fb + s) = of_int (2 ^ fb) * 2 powi (e + 1 + 1 - bias - int fb)"
      using mag_normal [of "e + 1" "2 ^ fb"] assms(1) by simp
    also have "\<dots> = of_int s * 2 powi (e + 1 - bias - int fb)"
      using carry by (simp add: powi_add powi_diff)
    finally show ?thesis .
  next
    case normal
    then show ?thesis using mag_normal assms(1) by simp
  next
    case sub
    then show ?thesis using mag_subnormal assms(3) by simp
  qed
qed

text \<open>Every magnitude has a significand and an exponent; the value increases with the bits.\<close>

lemma mag_split:
  fixes m :: int
  assumes "0 \<le> m"
  obtains e s :: int where "0 \<le> e" "2 ^ fb \<le> s \<or> e = 0" "0 \<le> s" "s < 2 ^ Suc fb" "m = e * 2 ^ fb + s"
proof (cases "m < 2 ^ fb")
  case True
  then show ?thesis using assms that [of 0 m] by simp
next
  case False
  define q r where "q = m div 2 ^ fb" and "r = m mod 2 ^ fb"
  have m: "m = q * 2 ^ fb + r"
    unfolding q_def r_def by (rule div_mult_mod_eq [symmetric])
  have r: "0 \<le> r" "r < 2 ^ fb" by (simp_all add: r_def)
  have "1 * 2 ^ fb \<le> m" using False by simp
  then have "1 \<le> q" unfolding q_def by (metis zdiv_mono1 nonzero_mult_div_cancel_right
      power_not_zero zero_less_numeral zero_less_power zero_neq_numeral)
  with m r show ?thesis by (intro that [of "q - 1" "r + 2 ^ fb"]) (auto simp: algebra_simps)
qed

lemma mag_Suc: "0 \<le> m \<Longrightarrow> fp_mag fb bias m < fp_mag fb bias (m + 1)"
proof -
  assume "0 \<le> m"
  then obtain e s where m: "0 \<le> e" "2 ^ fb \<le> s \<or> e = 0" "0 \<le> s" "s < 2 ^ Suc fb"
    "m = e * 2 ^ fb + s" by (rule mag_split)
  have "fp_mag fb bias m = of_int s * 2 powi (e + 1 - bias - int fb)"
    using m mag_combine by simp
  moreover have "fp_mag fb bias (m + 1) = of_int (s + 1) * 2 powi (e + 1 - bias - int fb)"
    using m mag_combine [of e "s + 1"] by (auto simp: add.assoc)
  ultimately show ?thesis by simp
qed

lemma mag_strict_mono: "0 \<le> m \<Longrightarrow> m < n \<Longrightarrow> fp_mag fb bias m < fp_mag fb bias n"
proof -
  assume a: "0 \<le> m" "m < n"
  have "fp_mag fb bias m < fp_mag fb bias (m + 1 + int k)" for k
  proof (induction k)
    case 0
    then show ?case using a mag_Suc [of m] by simp
  next
    case (Suc k)
    then show ?case using a mag_Suc [of "m + 1 + int k"] by (simp add: add_ac)
  qed
  from this [of "nat (n - m - 1)"] a show ?thesis by simp
qed

lemma mag_less_iff: "0 \<le> m \<Longrightarrow> 0 \<le> n \<Longrightarrow> fp_mag fb bias m < fp_mag fb bias n \<longleftrightarrow> m < n"
  using mag_strict_mono [of m n] mag_strict_mono [of n m] by (cases m n rule: linorder_cases) auto

lemma mag_le_iff: "0 \<le> m \<Longrightarrow> 0 \<le> n \<Longrightarrow> fp_mag fb bias m \<le> fp_mag fb bias n \<longleftrightarrow> m \<le> n"
  by (simp add: mag_less_iff flip: not_less)

lemma mag_eq_iff: "0 \<le> m \<Longrightarrow> 0 \<le> n \<Longrightarrow> fp_mag fb bias m = fp_mag fb bias n \<longleftrightarrow> m = n"
  by (simp add: mag_le_iff eq_iff)

lemma mag_0 [simp]: "fp_mag fb bias 0 = 0"
  by (simp add: fp_mag_def)

lemma mag_nonneg: "0 \<le> m \<Longrightarrow> 0 \<le> fp_mag fb bias m"
  using mag_le_iff [of 0 m] by simp

lemma mag_pos: "0 < m \<Longrightarrow> 0 < fp_mag fb bias m"
  using mag_less_iff [of 0 m] by simp

subsection \<open>The rounded result\<close>

lemma fp_exp_ge: "1 - bias \<le> fp_exp bias v"
  by (simp add: fp_exp_def)

lemma scaled_upper: "0 < v \<Longrightarrow> v * 2 powi (int fb - fp_exp bias v) < 2 ^ Suc fb"
proof -
  assume v: "0 < v"
  have "v < 2 powi (\<lfloor>log 2 v\<rfloor> + 1)" using v by (rule log2_bounds)
  also have "\<dots> \<le> 2 powi (fp_exp bias v + 1)" by (simp add: fp_exp_def)
  finally have "v * 2 powi (int fb - fp_exp bias v) <
      2 powi (fp_exp bias v + 1) * 2 powi (int fb - fp_exp bias v)" by simp
  also have "\<dots> = 2 powi (int (Suc fb))" by (simp flip: powi_add)
  finally show ?thesis by (simp only: power_int_of_nat)
qed

lemma scaled_lower:
  "0 < v \<Longrightarrow> 2 ^ fb \<le> v * 2 powi (int fb - fp_exp bias v) \<or> fp_exp bias v = 1 - bias"
proof -
  assume v: "0 < v"
  consider "fp_exp bias v = \<lfloor>log 2 v\<rfloor>" | "fp_exp bias v = 1 - bias"
    unfolding fp_exp_def by linarith
  then show ?thesis
  proof cases
    case 1
    have "(2::real) powi int fb = 2 powi \<lfloor>log 2 v\<rfloor> * 2 powi (int fb - \<lfloor>log 2 v\<rfloor>)"
      by (simp flip: powi_add)
    also have "\<dots> \<le> v * 2 powi (int fb - \<lfloor>log 2 v\<rfloor>)"
      using log2_bounds(1) [OF v] by simp
    finally show ?thesis using 1 by simp
  qed simp
qed

lemma sig_bounds:
  assumes "0 < v"
  shows "0 \<le> fp_sig fb bias rm s v" "fp_sig fb bias rm s v \<le> 2 ^ Suc fb"
    "2 ^ fb \<le> fp_sig fb bias rm s v \<or> fp_exp bias v = 1 - bias"
proof -
  let ?y = "v * 2 powi (int fb - fp_exp bias v)"
  have "0 \<le> ?y" using assms by simp
  then show "0 \<le> fp_sig fb bias rm s v"
    unfolding fp_sig_def using rnd_mono_int(1) [of 0 ?y] by simp
  have "?y \<le> of_int (2 ^ Suc fb)" using scaled_upper [OF assms] by simp
  then show "fp_sig fb bias rm s v \<le> 2 ^ Suc fb"
    unfolding fp_sig_def by (rule rnd_mono_int(2))
  have "of_int (2 ^ fb) \<le> ?y \<Longrightarrow> 2 ^ fb \<le> fp_sig fb bias rm s v"
    unfolding fp_sig_def by (rule rnd_mono_int(1))
  then show "2 ^ fb \<le> fp_sig fb bias rm s v \<or> fp_exp bias v = 1 - bias"
    using scaled_lower [OF assms] by auto
qed

lemma bits_nonneg: "0 < v \<Longrightarrow> 0 \<le> fp_bits fb bias rm s v"
  using sig_bounds(1) [of v] fp_exp_ge [of v] by (simp add: fp_bits_def)

lemma mag_bits:
  "0 < v \<Longrightarrow> fp_mag fb bias (fp_bits fb bias rm s v) =
     of_int (fp_sig fb bias rm s v) * 2 powi (fp_exp bias v - int fb)"
  unfolding fp_bits_def
  using mag_combine [of "fp_exp bias v + bias - 1" "fp_sig fb bias rm s v"]
    sig_bounds [of v rm s] fp_exp_ge [of v] by (auto simp: algebra_simps)

text \<open>Every float at least as far from zero as the rounding unit allows is a multiple of it.\<close>

lemma mag_multiple:
  assumes "0 < v" "0 \<le> m" "2 powi fp_exp bias v \<le> fp_mag fb bias m \<or> fp_exp bias v = 1 - bias"
  obtains k :: int where "fp_mag fb bias m = of_int k * 2 powi (fp_exp bias v - int fb)"
proof -
  obtain e s where m: "0 \<le> e" "2 ^ fb \<le> s \<or> e = 0" "0 \<le> s" "s < 2 ^ Suc fb"
    "m = e * 2 ^ fb + s" using assms(2) by (rule mag_split)
  have mag: "fp_mag fb bias m = of_int s * 2 powi (e + 1 - bias - int fb)"
    using m mag_combine by simp
  have "fp_exp bias v \<le> e + 1 - bias"
  proof (cases "fp_exp bias v = 1 - bias")
    case False
    have "of_int s < (2::real) ^ Suc fb"
      using m(4) by (metis of_int_less_iff of_int_numeral of_int_power)
    then have "fp_mag fb bias m < 2 ^ Suc fb * 2 powi (e + 1 - bias - int fb)"
      unfolding mag by (rule mult_strict_right_mono) simp
    also have "\<dots> = 2 powi (e + 2 - bias)"
      by (simp add: algebra_simps flip: power_int_of_nat powi_add)
    finally show ?thesis using assms(3) False by (smt (verit) powi_less_iff)
  qed (use m in simp)
  then obtain d where d: "e + 1 - bias = fp_exp bias v + int d"
    by (metis zle_iff_zadd)
  have "fp_mag fb bias m = of_int (s * 2 ^ d) * 2 powi (fp_exp bias v - int fb)"
    unfolding mag d by (simp add: powi_diff powi_add)
  then show ?thesis by (rule that)
qed

theorem bits_nearest:
  assumes "0 < v" "0 \<le> m" "rm = softfloat_round_near_even \<or> rm = softfloat_round_near_maxMag"
  shows "\<bar>fp_mag fb bias (fp_bits fb bias rm s v) - v\<bar> \<le> \<bar>fp_mag fb bias m - v\<bar>"
proof -
  define u where "u = (2::real) powi (fp_exp bias v - int fb)"
  have u: "0 < u" by (simp add: u_def)
  have y: "v * 2 powi (int fb - fp_exp bias v) = v / u"
    by (simp add: u_def powi_diff)
  have sig: "fp_mag fb bias (fp_bits fb bias rm s v) = of_int (rnd rm s (v / u)) * u"
    unfolding mag_bits [OF assms(1)] fp_sig_def y by (simp add: u_def)
  have near: "\<bar>of_int (rnd rm s (v / u)) * u - v\<bar> \<le> \<bar>of_int k * u - v\<bar>" for k
  proof -
    have "\<bar>of_int (rnd rm s (v / u)) - v / u\<bar> \<le> \<bar>of_int k - v / u\<bar>"
    proof (cases "k = rnd rm s (v / u)")
      case False
      then have "1 \<le> \<bar>of_int k - real_of_int (rnd rm s (v / u))\<bar>" by linarith
      then show ?thesis using rnd_nearest [OF assms(3), of s "v / u"] by linarith
    qed simp
    then have "\<bar>of_int (rnd rm s (v / u)) - v / u\<bar> * u \<le> \<bar>of_int k - v / u\<bar> * u"
      using u by simp
    moreover have "\<bar>of_int j - v / u\<bar> * u = \<bar>of_int j * u - v\<bar>" for j
      using u abs_mult_pos [of u "of_int j - v / u"] by (simp add: left_diff_distrib)
    ultimately show ?thesis by simp
  qed
  show ?thesis
  proof (cases "2 powi fp_exp bias v \<le> fp_mag fb bias m \<or> fp_exp bias v = 1 - bias")
    case True
    then obtain k :: int where "fp_mag fb bias m = of_int k * u"
      unfolding u_def using mag_multiple assms by metis
    then show ?thesis unfolding sig using near by simp
  next
    case False
    have pe: "2 powi fp_exp bias v = of_int (2 ^ fb) * u"
      by (simp add: u_def powi_diff)
    have "2 powi fp_exp bias v \<le> v"
      using False log2_bounds(1) [OF assms(1)] unfolding fp_exp_def by (auto simp: max_def split: if_splits)
    then have "\<bar>of_int (2 ^ fb) * u - v\<bar> \<le> \<bar>fp_mag fb bias m - v\<bar>"
      using False unfolding pe by linarith
    then show ?thesis unfolding sig using near [of "2 ^ fb"] by linarith
  qed
qed

text \<open>In every mode the result is one of the two floats around the real number.\<close>

theorem bits_faithful:
  assumes "0 < v" "0 \<le> m"
  shows "fp_mag fb bias m \<le> v \<Longrightarrow> m \<le> fp_bits fb bias rm s v"
    and "v \<le> fp_mag fb bias m \<Longrightarrow> fp_bits fb bias rm s v \<le> m"
proof -
  define u where "u = (2::real) powi (fp_exp bias v - int fb)"
  have u: "0 < u" by (simp add: u_def)
  have y: "v * 2 powi (int fb - fp_exp bias v) = v / u"
    by (simp add: u_def powi_diff)
  have sig: "fp_mag fb bias (fp_bits fb bias rm s v) = of_int (rnd rm s (v / u)) * u"
    unfolding mag_bits [OF assms(1)] fp_sig_def y by (simp add: u_def)
  have pe: "2 powi fp_exp bias v = of_int (2 ^ fb) * u"
    by (simp add: u_def powi_diff)
  have base: "2 powi fp_exp bias v \<le> v \<or> fp_exp bias v = 1 - bias"
    using log2_bounds(1) [OF assms(1)] unfolding fp_exp_def by (auto simp: max_def split: if_splits)
  have lo: "of_int k * u \<le> v \<Longrightarrow> of_int k * u \<le> of_int (rnd rm s (v / u)) * u"
    and hi: "v \<le> of_int k * u \<Longrightarrow> of_int (rnd rm s (v / u)) * u \<le> of_int k * u" for k
    using u rnd_mono_int [where x = "v / u" and n = k and rm = rm and s = s]
    by (simp_all add: field_simps)
  note le = mag_le_iff [OF assms(2) bits_nonneg [OF assms(1)], symmetric]
    mag_le_iff [OF bits_nonneg [OF assms(1)] assms(2), symmetric]
  show "m \<le> fp_bits fb bias rm s v" if "fp_mag fb bias m \<le> v"
  proof (cases "2 powi fp_exp bias v \<le> fp_mag fb bias m \<or> fp_exp bias v = 1 - bias")
    case True
    then obtain k :: int where "fp_mag fb bias m = of_int k * u"
      unfolding u_def using mag_multiple assms by metis
    then show ?thesis unfolding le sig using lo that by simp
  next
    case False
    then show ?thesis using base lo [of "2 ^ fb"] unfolding le sig pe by linarith
  qed
  show "fp_bits fb bias rm s v \<le> m" if "v \<le> fp_mag fb bias m"
  proof -
    have "2 powi fp_exp bias v \<le> fp_mag fb bias m \<or> fp_exp bias v = 1 - bias"
      using base that by linarith
    then obtain k :: int where "fp_mag fb bias m = of_int k * u"
      unfolding u_def using mag_multiple assms by metis
    then show ?thesis unfolding le sig using hi that by simp
  qed
qed

lemma bits_exact: "0 < m \<Longrightarrow> fp_bits fb bias rm s (fp_mag fb bias m) = m"
  using bits_faithful [where v = "fp_mag fb bias m" and m = m and rm = rm and s = s] mag_pos [of m]
  by (simp add: order_antisym)

lemma inexact_exact: "0 < m \<Longrightarrow> \<not> fp_inexact fb bias rm s (fp_mag fb bias m)"
  by (simp add: fp_inexact_def bits_exact)

subsection \<open>Rounding from guard and sticky bits\<close>

text \<open>
  The code holds a significand \<open>n\<close> with \<open>h + 1\<close> bits below the fraction of the format
  and its leading bit at \<open>K = fb + h + 1\<close>; the exact magnitude is \<open>x\<close> in the same scale,
  and \<open>n\<close> is in the cell of \<open>x\<close>.
\<close>

lemma cell_normal:
  assumes "cell h n x" "2 ^ (fb + h + 1) \<le> n" "n < 2 ^ (fb + h + 2)"
  shows "2 ^ (fb + h + 1) \<le> x" "x < 2 ^ (fb + h + 2)"
proof -
  have "of_int (2 ^ (fb + 1)) * 2 ^ h \<le> n" using assms(2) by (simp add: power_add mult_ac)
  then have "of_int (2 ^ (fb + 1)) * 2 ^ h \<le> x" using cell_ge [OF assms(1)] by blast
  then show "2 ^ (fb + h + 1) \<le> x" by (simp add: power_add mult_ac)
  have "n < of_int (2 ^ (fb + 2)) * 2 ^ h" using assms(3) by (simp add: power_add mult_ac)
  then have "x < of_int (2 ^ (fb + 2)) * 2 ^ h" using cell_less [OF assms(1)] by blast
  then show "x < 2 ^ (fb + h + 2)" by (simp add: power_add mult_ac)
qed

lemma scaled_log:
  assumes "2 ^ (fb + h + 1) \<le> x" "x < 2 ^ (fb + h + 2)"
  shows "\<lfloor>log 2 (fp_scaled fb bias h e x)\<rfloor> = e + 1 - bias" "0 < fp_scaled fb bias h e x"
proof -
  have "0 < x" using assms(1) by (meson less_le_trans zero_less_numeral zero_less_power)
  then show "0 < fp_scaled fb bias h e x" by (simp add: fp_scaled_def)
  show "\<lfloor>log 2 (fp_scaled fb bias h e x)\<rfloor> = e + 1 - bias"
  proof (rule floor_log2)
    have "(2::real) powi (e + 1 - bias) = 2 ^ (fb + h + 1) * 2 powi (e - bias - int (fb + h))"
      by (simp add: algebra_simps flip: power_int_of_nat powi_add)
    then show "2 powi (e + 1 - bias) \<le> fp_scaled fb bias h e x"
      unfolding fp_scaled_def using assms(1) by simp
    have "(2::real) powi (e + 1 - bias + 1) = 2 ^ (fb + h + 2) * 2 powi (e - bias - int (fb + h))"
      by (simp add: algebra_simps flip: power_int_of_nat powi_add)
    then show "fp_scaled fb bias h e x < 2 powi (e + 1 - bias + 1)"
      unfolding fp_scaled_def using assms(2) by simp
  qed
qed

lemma scaled_sig:
  "fp_scaled fb bias h e x * 2 powi (int fb - (e + 1 - bias)) = x / 2 ^ Suc h"
  "fp_scaled fb bias h e x * 2 powi (int fb - (1 - bias)) = x * 2 powi e / 2 ^ Suc h"
proof -
  have "fp_scaled fb bias h e x * 2 powi (int fb - (e + 1 - bias)) = x * 2 powi (- int (Suc h))"
    by (simp add: fp_scaled_def mult.assoc algebra_simps flip: powi_add)
  then show "fp_scaled fb bias h e x * 2 powi (int fb - (e + 1 - bias)) = x / 2 ^ Suc h"
    unfolding powi_neg_nat by simp
  have "fp_scaled fb bias h e x * 2 powi (int fb - (1 - bias)) = x * 2 powi (e + - int (Suc h))"
    by (simp add: fp_scaled_def mult.assoc algebra_simps flip: powi_add)
  then show "fp_scaled fb bias h e x * 2 powi (int fb - (1 - bias)) = x * 2 powi e / 2 ^ Suc h"
    unfolding powi_add powi_neg_nat by simp
qed

lemma rnd_eq_self_iff: "of_int (rnd rm s y) = y \<longleftrightarrow> y \<in> \<int>"
  by (metis Ints_cases Ints_of_int rnd_of_int)

lemma cell_Ints: "cell h (of_int n) x \<Longrightarrow> x / 2 ^ Suc h \<in> \<int> \<longleftrightarrow> n mod 2 ^ Suc h = 0"
proof -
  assume c: "cell h (of_int n) x"
  have "x / 2 ^ Suc h \<in> \<int> \<longleftrightarrow> (\<exists>j. x = of_int (2 * j) * 2 ^ h)"
    by (auto simp: Ints_def field_simps)
  also have "\<dots> \<longleftrightarrow> (\<exists>j. real_of_int n = of_int (2 * j) * 2 ^ h)"
    using cell_eq [OF c] by blast
  also have "\<dots> \<longleftrightarrow> (\<exists>j. n = 2 ^ Suc h * j)"
  proof -
    have "real_of_int n = of_int (2 * j) * 2 ^ h \<longleftrightarrow> real_of_int n = real_of_int (2 ^ Suc h * j)" for j
      by (simp add: mult_ac)
    then show ?thesis unfolding of_int_eq_iff by blast
  qed
  also have "\<dots> \<longleftrightarrow> n mod 2 ^ Suc h = 0" by (simp only: mod_eq_0_iff_dvd dvd_def)
  finally show ?thesis .
qed

lemma inexact_sig:
  assumes "0 < v" "v * 2 powi (int fb - fp_exp bias v) = x / 2 ^ Suc h" "cell h (of_int n) x"
  shows "fp_inexact fb bias rm s v \<longleftrightarrow> n mod 2 ^ Suc h \<noteq> 0"
proof -
  let ?y = "v * 2 powi (int fb - fp_exp bias v)"
  have "v = ?y * 2 powi (fp_exp bias v - int fb)"
    by (simp add: mult.assoc flip: powi_add)
  then have "fp_inexact fb bias rm s v \<longleftrightarrow> of_int (fp_sig fb bias rm s v) \<noteq> ?y"
    unfolding fp_inexact_def mag_bits [OF assms(1)]
    by (metis mult_cancel_right order_less_irrefl powi_pos)
  also have "\<dots> \<longleftrightarrow> n mod 2 ^ Suc h \<noteq> 0"
    unfolding fp_sig_def rnd_eq_self_iff assms(2) cell_Ints [OF assms(3)] ..
  finally show ?thesis .
qed

theorem round_normal:
  assumes c: "cell h (of_int n) x" and e: "0 \<le> e"
    and n: "2 ^ (fb + h + 1) \<le> n" "n < 2 ^ (fb + h + 2)"
  defines "v \<equiv> fp_scaled fb bias h e x"
  shows "fp_bits fb bias rm s v = e * 2 ^ fb + round_int (Suc h) rm s n"
    and "fp_inexact fb bias rm s v \<longleftrightarrow> n mod 2 ^ Suc h \<noteq> 0"
    and "\<not> fp_tiny fb bias before rm s v"
proof -
  have "real_of_int (2 ^ (fb + h + 1)) \<le> of_int n" "real_of_int n < of_int (2 ^ (fb + h + 2))"
    using n by (simp_all only: of_int_le_iff of_int_less_iff)
  then have x: "2 ^ (fb + h + 1) \<le> x" "x < 2 ^ (fb + h + 2)"
    using cell_normal [OF c] by simp_all
  note log = scaled_log [OF x, of e, folded v_def]
  have ex: "fp_exp bias v = e + 1 - bias" using e log by (simp add: fp_exp_def)
  have y: "v * 2 powi (int fb - (e + 1 - bias)) = x / 2 ^ Suc h"
    unfolding v_def by (rule scaled_sig)
  have r: "rnd rm s (x / 2 ^ Suc h) = round_int (Suc h) rm s n"
    using rnd_cell [OF c] rnd_round_int by metis
  show "fp_bits fb bias rm s v = e * 2 ^ fb + round_int (Suc h) rm s n"
    unfolding fp_bits_def fp_sig_def ex y r by simp
  show "fp_inexact fb bias rm s v \<longleftrightarrow> n mod 2 ^ Suc h \<noteq> 0"
    by (rule inexact_sig [OF log(2) _ c]) (simp add: ex y)
  have "2 powi (1 - bias) \<le> (2::real) powi (e + 1 - bias)" using e by simp
  also have "\<dots> \<le> v" using log2_bounds(1) [OF log(2)] log(1) by simp
  finally have 1: "\<not> v < 2 powi (1 - bias)" by simp
  have "of_int (2 ^ fb) \<le> x / 2 ^ Suc h" using x(1) by (simp add: power_add field_simps)
  then have "2 ^ fb \<le> rnd rm s (x / 2 ^ Suc h)" by (rule rnd_mono_int)
  then have "real_of_int (2 ^ fb) \<le> of_int (rnd rm s (x / 2 ^ Suc h))"
    by (simp only: of_int_le_iff)
  then have "2 ^ fb * (2::real) powi (e + 1 - bias - int fb) \<le>
      of_int (rnd rm s (x / 2 ^ Suc h)) * 2 powi (e + 1 - bias - int fb)" by simp
  moreover have "2 ^ fb * (2::real) powi (e + 1 - bias - int fb) = 2 powi (e + 1 - bias)"
    by (simp add: algebra_simps flip: power_int_of_nat powi_add)
  moreover have "(2::real) powi (1 - bias) \<le> 2 powi (e + 1 - bias)" using e by simp
  ultimately have "\<not> of_int (rnd rm s (x / 2 ^ Suc h)) * (2::real) powi (e + 1 - bias - int fb) < 2 powi (1 - bias)"
    by linarith
  with 1 show "\<not> fp_tiny fb bias before rm s v"
    unfolding fp_tiny_def log y by simp
qed

lemma round_incr_bounds: "0 \<le> round_incr (Suc h) rm s" "round_incr (Suc h) rm s < 2 ^ Suc h"
  by (simp_all add: round_incr_def)

lemma round_int_top:
  assumes n: "0 \<le> n" "n < 2 ^ (fb + h + 2)"
  shows "round_int (Suc h) rm s n \<le> 2 ^ Suc fb"
    and "round_int (Suc h) rm s n < 2 ^ Suc fb \<longleftrightarrow> n + round_incr (Suc h) rm s < 2 ^ (fb + h + 2)"
proof -
  define t where "t = (n + round_incr (Suc h) rm s) div 2 ^ Suc h"
  have K: "(2::int) ^ (fb + h + 2) = 2 ^ Suc fb * 2 ^ Suc h" by (simp add: power_add)
  have "n + round_incr (Suc h) rm s < (2 ^ Suc fb + 1) * 2 ^ Suc h"
    using n(2) round_incr_bounds [of h rm s] unfolding K distrib_right by linarith
  then have "t < 2 ^ Suc fb + 1" unfolding t_def by (rule int_div_less) simp
  then have t: "t \<le> 2 ^ Suc fb" by simp
  have tK: "t < 2 ^ Suc fb \<longleftrightarrow> n + round_incr (Suc h) rm s < 2 ^ (fb + h + 2)"
    unfolding t_def K by (rule div_less_pow_iff)
  have R: "round_int (Suc h) rm s n =
      t - of_bool (odd t \<and> n mod 2 ^ Suc h = 2 ^ h \<and> rm = softfloat_round_near_even)"
    unfolding round_int_def t_def Let_def by simp
  then show "round_int (Suc h) rm s n \<le> 2 ^ Suc fb" using t by (auto simp: le_less)
  show "round_int (Suc h) rm s n < 2 ^ Suc fb \<longleftrightarrow> n + round_incr (Suc h) rm s < 2 ^ (fb + h + 2)"
    unfolding tK [symmetric] R using t by (auto simp: le_less)
qed

lemma tiny_after:
  assumes n: "0 \<le> n" "n < 2 ^ (fb + h + 2)" and e: "e < 0"
  shows "of_int (round_int (Suc h) rm s n) * (2::real) powi (e + 1 - bias - int fb) < 2 powi (1 - bias) \<longleftrightarrow>
    e < -1 \<or> n + round_incr (Suc h) rm s < 2 ^ (fb + h + 2)"
proof -
  define R where "R = round_int (Suc h) rm s n"
  note R = round_int_top [OF n, of rm s, folded R_def]
  have scale: "of_int R * (2::real) powi (e + 1 - bias - int fb) =
      of_int R * 2 powi (e - int fb) * 2 powi (1 - bias)"
    by (simp add: mult.assoc algebra_simps flip: powi_add)
  have "of_int R * 2 powi (e - int fb) < (1::real) \<longleftrightarrow> e < -1 \<or> R < 2 ^ Suc fb"
  proof (cases "e < -1")
    case True
    have "of_int R * (2::real) powi (e - int fb) \<le> of_int (2 ^ Suc fb) * 2 powi (-2 - int fb)"
      using R(1) True by (intro mult_mono) (auto simp del: of_int_power of_int_mult power_Suc)
    also have "\<dots> = 1 / 2" by (simp add: powi_diff field_simps)
    finally show ?thesis using True by simp
  next
    case False
    then have "e = -1" using e by simp
    then have "of_int R * (2::real) powi (e - int fb) = of_int R / of_int (2 ^ Suc fb)"
      by (simp add: powi_diff field_simps)
    then have "of_int R * 2 powi (e - int fb) < (1::real) \<longleftrightarrow> of_int R < real_of_int (2 ^ Suc fb)"
      by simp
    then show ?thesis using False unfolding of_int_less_iff by simp
  qed
  then show ?thesis unfolding R_def [symmetric] scale R(2) by simp
qed

theorem round_subnormal:
  assumes c: "cell h (of_int n) x" and e: "e < 0" and h: "1 \<le> h"
    and n: "2 ^ (fb + h + 1) \<le> n" "n < 2 ^ (fb + h + 2)"
  defines "v \<equiv> fp_scaled fb bias h e x" and "j \<equiv> jam n (nat (- e))"
  shows "fp_bits fb bias rm s v = round_int (Suc h) rm s j"
    and "fp_inexact fb bias rm s v \<longleftrightarrow> j mod 2 ^ Suc h \<noteq> 0"
    and "fp_tiny fb bias before rm s v \<longleftrightarrow>
           before \<or> e < -1 \<or> n + round_incr (Suc h) rm s < 2 ^ (fb + h + 2)"
proof -
  have "real_of_int (2 ^ (fb + h + 1)) \<le> of_int n" "real_of_int n < of_int (2 ^ (fb + h + 2))"
    using n by (simp_all only: of_int_le_iff of_int_less_iff)
  then have x: "2 ^ (fb + h + 1) \<le> x" "x < 2 ^ (fb + h + 2)"
    using cell_normal [OF c] by simp_all
  note log = scaled_log [OF x, of e, folded v_def]
  have ex: "fp_exp bias v = 1 - bias" using e log by (simp add: fp_exp_def)
  have "(2::real) powi e = 1 / 2 ^ nat (- e)" using powi_neg_nat [of "nat (- e)"] e by simp
  then have y: "v * 2 powi (int fb - (1 - bias)) = x / 2 ^ nat (- e) / 2 ^ Suc h"
    unfolding v_def scaled_sig by simp
  have cj: "cell h (of_int j) (x / 2 ^ nat (- e))"
    unfolding j_def by (rule cell_jam [OF c]) (use h in auto)
  have r: "rnd rm s (x / 2 ^ nat (- e) / 2 ^ Suc h) = round_int (Suc h) rm s j"
    using rnd_cell [OF cj] rnd_round_int by metis
  show "fp_bits fb bias rm s v = round_int (Suc h) rm s j"
    unfolding fp_bits_def fp_sig_def ex y r by simp
  show "fp_inexact fb bias rm s v \<longleftrightarrow> j mod 2 ^ Suc h \<noteq> 0"
    by (rule inexact_sig [OF log(2) _ cj]) (simp add: ex y)
  show "fp_tiny fb bias before rm s v \<longleftrightarrow>
           before \<or> e < -1 \<or> n + round_incr (Suc h) rm s < 2 ^ (fb + h + 2)"
  proof -
    have rn: "rnd rm s (x / 2 ^ Suc h) = round_int (Suc h) rm s n"
      using rnd_cell [OF c] rnd_round_int by metis
    have "v < 2 powi (e + 1 - bias + 1)" using log2_bounds(2) [OF log(2)] log(1) by simp
    also have "\<dots> \<le> 2 powi (1 - bias)" using e by simp
    finally have 1: "v < 2 powi (1 - bias)" .
    have "round_int (Suc h) rm s n * 2 powi (e + 1 - bias - int fb) < 2 powi (1 - bias) \<longleftrightarrow>
        e < -1 \<or> n + round_incr (Suc h) rm s < 2 ^ (fb + h + 2)"
      using tiny_after [of n h e rm s] n e by simp
    with 1 show ?thesis
      unfolding fp_tiny_def log scaled_sig [of h e x, folded v_def] rn by simp
  qed
qed

subsection \<open>Overflow, and the whole of rounding on integers\<close>

lemma round_int_low: "2 ^ (fb + h + 1) \<le> n \<Longrightarrow> 2 ^ fb \<le> round_int (Suc h) rm s n"
proof -
  assume n: "2 ^ (fb + h + 1) \<le> n"
  then have "real_of_int (2 ^ (fb + h + 1)) \<le> of_int n" by (simp only: of_int_le_iff)
  then have "of_int (2 ^ fb) \<le> real_of_int n / 2 ^ Suc h" by (simp add: power_add field_simps)
  then show ?thesis unfolding rnd_round_int [symmetric] by (rule rnd_mono_int)
qed

lemma round_int_nonneg: "0 \<le> n \<Longrightarrow> 0 \<le> round_int (Suc h) rm s n"
  using rnd_mono_int(1) [of 0 "of_int n / 2 ^ Suc h" rm s] unfolding rnd_round_int by simp

lemma rounds_away_incr: "fp_rounds_away rm s \<longleftrightarrow> round_incr (Suc h) rm s \<noteq> 0"
proof -
  have "(2::int) ^ Suc h - 1 \<noteq> 0"
    using one_less_power [of "2::int" "Suc h"] by linarith
  then show ?thesis by (simp add: fp_rounds_away_def round_incr_def del: power_Suc)
qed

text \<open>
  Both packing routines compute this function of the exponent and the guarded significand.
\<close>

theorem round_int_spec:
  fixes e :: int and rm :: u8 and s before :: bool
  assumes c: "cell h (of_int n) x" and h: "1 \<le> h"
    and n: "2 ^ (fb + h + 1) \<le> n" "n < 2 ^ (fb + h + 2)"
  defines "v \<equiv> fp_scaled fb bias h e x" and "j \<equiv> jam n (nat (- e))"
    and "I \<equiv> round_incr (Suc h) rm s" and "ovb \<equiv> (2 * bias + 1) * 2 ^ fb"
  defines "ovf \<equiv> 2 * bias - 1 < e \<or> (e = 2 * bias - 1 \<and> 2 ^ (fb + h + 2) \<le> n + I)"
  shows "fp_round_mag fb bias rm s v =
      (if e < 0 then round_int (Suc h) rm s j
       else if ovf then ovb - of_bool (I = 0) else e * 2 ^ fb + round_int (Suc h) rm s n)"
    and "fp_round_flags fb bias before rm s v =
      (if e < 0 then
         (if (before \<or> e < -1 \<or> n + I < 2 ^ (fb + h + 2)) \<and> j mod 2 ^ Suc h \<noteq> 0
          then softfloat_flag_underflow else 0) OR
         (if j mod 2 ^ Suc h \<noteq> 0 then softfloat_flag_inexact else 0)
       else if ovf then softfloat_flag_overflow OR softfloat_flag_inexact
       else if n mod 2 ^ Suc h \<noteq> 0 then softfloat_flag_inexact else 0)"
proof -
  have inf3: "2 ^ Suc fb < ovb"
    using bias_pos by (simp add: ovb_def algebra_simps add_strict_increasing)
  have n0: "0 \<le> n" using n(1) by (meson order_trans zero_le_numeral zero_le_power)
  note top = round_int_top [OF n0 n(2), of rm s] and low = round_int_low [OF n(1), of rm s]
  consider (sub) "e < 0" | (ovf) "0 \<le> e" "ovf" | (norm) "0 \<le> e" "\<not> ovf" by linarith
  then have "fp_round_mag fb bias rm s v =
      (if e < 0 then round_int (Suc h) rm s j
       else if ovf then ovb - of_bool (I = 0) else e * 2 ^ fb + round_int (Suc h) rm s n) \<and>
    fp_round_flags fb bias before rm s v =
      (if e < 0 then
         (if (before \<or> e < -1 \<or> n + I < 2 ^ (fb + h + 2)) \<and> j mod 2 ^ Suc h \<noteq> 0
          then softfloat_flag_underflow else 0) OR
         (if j mod 2 ^ Suc h \<noteq> 0 then softfloat_flag_inexact else 0)
       else if ovf then softfloat_flag_overflow OR softfloat_flag_inexact
       else if n mod 2 ^ Suc h \<noteq> 0 then softfloat_flag_inexact else 0)"
  proof cases
    case sub
    note r = round_subnormal [OF c sub h n, folded v_def j_def]
    have "n div 2 ^ nat (- e) \<le> n div 2 ^ 1"
      using sub n0 by (intro zdiv_mono2) (auto intro!: power_increasing [of 1 _ "2::int", simplified])
    then have "j \<le> n div 2 + 1" using jam_bounds(2) [of n "nat (- e)"] unfolding j_def by simp
    also have "\<dots> < 2 ^ (fb + h + 2)"
      using n one_less_power [of "2::int" "fb + h + 1"] by simp
    finally have "round_int (Suc h) rm s j \<le> 2 ^ Suc fb"
      using jam_bounds(1) [of n "nat (- e)"] n0
      by (intro round_int_top) (auto simp: j_def intro: order_trans [OF _ jam_bounds(1)] simp: pos_imp_zdiv_nonneg_iff)
    then have "round_int (Suc h) rm s j < ovb" using inf3 by simp
    then show ?thesis
      unfolding fp_round_mag_def fp_round_flags_def Let_def r ovb_def [symmetric] I_def
      using sub by simp
  next
    case ovf
    note r = round_normal [OF c ovf(1) n, folded v_def]
    have "ovb \<le> e * 2 ^ fb + round_int (Suc h) rm s n"
    proof (cases "2 * bias - 1 < e")
      case True
      then have "2 * bias * 2 ^ fb \<le> e * 2 ^ fb" by (intro mult_right_mono) auto
      moreover have "ovb = 2 * bias * 2 ^ fb + 2 ^ fb" by (simp add: ovb_def algebra_simps)
      ultimately show ?thesis using low by linarith
    next
      case False
      then have "2 ^ Suc fb \<le> round_int (Suc h) rm s n"
        using ovf(2) top(2) unfolding ovf_def I_def by auto
      moreover have e: "e = 2 * bias - 1" using False ovf(2) unfolding ovf_def by auto
      have "ovb = e * 2 ^ fb + 2 ^ Suc fb" unfolding e ovb_def by (simp add: algebra_simps)
      ultimately show ?thesis by linarith
    qed
    then show ?thesis
      unfolding fp_round_mag_def fp_round_flags_def Let_def r ovb_def [symmetric] I_def
        rounds_away_incr [of rm s h]
      using ovf by simp
  next
    case norm
    note r = round_normal [OF c norm(1) n, folded v_def]
    have "e * 2 ^ fb + round_int (Suc h) rm s n < ovb"
    proof (cases "e = 2 * bias - 1")
      case True
      then have "round_int (Suc h) rm s n < 2 ^ Suc fb"
        using norm(2) top(2) unfolding ovf_def I_def by auto
      moreover have "ovb = e * 2 ^ fb + 2 ^ Suc fb" unfolding True ovb_def by (simp add: algebra_simps)
      ultimately show ?thesis by linarith
    next
      case False
      then have "e * 2 ^ fb \<le> (2 * bias - 2) * 2 ^ fb"
        using norm(2) unfolding ovf_def by (intro mult_right_mono) auto
      moreover have "ovb = (2 * bias - 2) * 2 ^ fb + 2 ^ Suc fb + 2 ^ fb" by (simp add: ovb_def algebra_simps)
      moreover have "(0::int) < 2 ^ fb" by simp
      ultimately show ?thesis using top(1) by linarith
    qed
    then show ?thesis
      unfolding fp_round_mag_def fp_round_flags_def Let_def r ovb_def [symmetric] I_def
      using norm r(3) by simp
  qed
  then show "fp_round_mag fb bias rm s v =
      (if e < 0 then round_int (Suc h) rm s j
       else if ovf then ovb - of_bool (I = 0) else e * 2 ^ fb + round_int (Suc h) rm s n)"
    "fp_round_flags fb bias before rm s v =
      (if e < 0 then
         (if (before \<or> e < -1 \<or> n + I < 2 ^ (fb + h + 2)) \<and> j mod 2 ^ Suc h \<noteq> 0
          then softfloat_flag_underflow else 0) OR
         (if j mod 2 ^ Suc h \<noteq> 0 then softfloat_flag_inexact else 0)
       else if ovf then softfloat_flag_overflow OR softfloat_flag_inexact
       else if n mod 2 ^ Suc h \<noteq> 0 then softfloat_flag_inexact else 0)"
    by blast+
qed

end

end
