(* ===== verification/SF_Primitives.thy ===== *)
theory SF_Primitives
  imports Rounding
begin

text \<open>
  The primitives of \<open>primitives.h\<close> and of the \<open>s_*.c\<close> files: leading-zero counts, shifts
  with a sticky bit, 128-bit arithmetic on pairs of words and the approximate reciprocals.
  Each is translated as the code writes it; the lemmas below the definitions say what the
  comment of the function promises, over the integers.  \<open>neg_and m count\<close> is the idiom
  \<open>-count & (m - 1)\<close> on an unsigned count, for \<open>m\<close> a power of two.
\<close>

section \<open>Definitions\<close>

definition neg_and :: "nat \<Rightarrow> nat \<Rightarrow> nat" where
  "neg_and m count = nat ((- int count) mod int m)"

definition softfloat_countLeadingZeros8 :: "nat list" where
  "softfloat_countLeadingZeros8 =
     [8, 7, 6, 6, 5, 5, 5, 5, 4, 4, 4, 4, 4, 4, 4, 4,
      3, 3, 3, 3, 3, 3, 3, 3, 3, 3, 3, 3, 3, 3, 3, 3,
      2, 2, 2, 2, 2, 2, 2, 2, 2, 2, 2, 2, 2, 2, 2, 2,
      2, 2, 2, 2, 2, 2, 2, 2, 2, 2, 2, 2, 2, 2, 2, 2,
      1, 1, 1, 1, 1, 1, 1, 1, 1, 1, 1, 1, 1, 1, 1, 1,
      1, 1, 1, 1, 1, 1, 1, 1, 1, 1, 1, 1, 1, 1, 1, 1,
      1, 1, 1, 1, 1, 1, 1, 1, 1, 1, 1, 1, 1, 1, 1, 1,
      1, 1, 1, 1, 1, 1, 1, 1, 1, 1, 1, 1, 1, 1, 1, 1,
      0, 0, 0, 0, 0, 0, 0, 0, 0, 0, 0, 0, 0, 0, 0, 0,
      0, 0, 0, 0, 0, 0, 0, 0, 0, 0, 0, 0, 0, 0, 0, 0,
      0, 0, 0, 0, 0, 0, 0, 0, 0, 0, 0, 0, 0, 0, 0, 0,
      0, 0, 0, 0, 0, 0, 0, 0, 0, 0, 0, 0, 0, 0, 0, 0,
      0, 0, 0, 0, 0, 0, 0, 0, 0, 0, 0, 0, 0, 0, 0, 0,
      0, 0, 0, 0, 0, 0, 0, 0, 0, 0, 0, 0, 0, 0, 0, 0,
      0, 0, 0, 0, 0, 0, 0, 0, 0, 0, 0, 0, 0, 0, 0, 0,
      0, 0, 0, 0, 0, 0, 0, 0, 0, 0, 0, 0, 0, 0, 0, 0]"

definition softfloat_countLeadingZeros32 :: "u32 \<Rightarrow> nat" where
  "softfloat_countLeadingZeros32 a =
     (let (count, a) = (if a < 0x10000 then (16, push_bit 16 a) else (0, a));
          (count, a) = (if a < 0x1000000 then (count + 8, push_bit 8 a) else (count, a))
      in count + softfloat_countLeadingZeros8 ! unat (drop_bit 24 a))"

definition softfloat_countLeadingZeros64 :: "u64 \<Rightarrow> nat" where
  "softfloat_countLeadingZeros64 a =
     (let a32 = (ucast (drop_bit 32 a) :: u32);
          (count, a32) = (if a32 = 0 then (32, ucast a) else (0, a32));
          (count, a32) = (if a32 < 0x10000 then (count + 16, push_bit 16 a32) else (count, a32));
          (count, a32) = (if a32 < 0x1000000 then (count + 8, push_bit 8 a32) else (count, a32))
      in count + softfloat_countLeadingZeros8 ! unat (drop_bit 24 a32))"

definition softfloat_shortShiftRightJam64 :: "u64 \<Rightarrow> nat \<Rightarrow> u64" where
  "softfloat_shortShiftRightJam64 a count =
     drop_bit count a OR of_bool (a AND (push_bit count 1 - 1) \<noteq> 0)"

definition softfloat_shiftRightJam32 :: "u32 \<Rightarrow> nat \<Rightarrow> u32" where
  "softfloat_shiftRightJam32 a count =
     (if count < 31 then drop_bit count a OR of_bool (push_bit (neg_and 32 count) a \<noteq> 0)
      else of_bool (a \<noteq> 0))"

definition softfloat_shiftRightJam64 :: "u64 \<Rightarrow> nat \<Rightarrow> u64" where
  "softfloat_shiftRightJam64 a count =
     (if count < 63 then drop_bit count a OR of_bool (push_bit (neg_and 64 count) a \<noteq> 0)
      else of_bool (a \<noteq> 0))"

record uint64_extra =
  extra_v :: u64
  extra_low :: u64

record uint128 =
  v64 :: u64
  v0 :: u64

record uint128_extra =
  extra_v128 :: uint128
  extra_low128 :: u64

definition softfloat_eq128 :: "u64 \<Rightarrow> u64 \<Rightarrow> u64 \<Rightarrow> u64 \<Rightarrow> bool" where
  "softfloat_eq128 a64 a0 b64 b0 \<longleftrightarrow> a64 = b64 \<and> a0 = b0"

definition softfloat_le128 :: "u64 \<Rightarrow> u64 \<Rightarrow> u64 \<Rightarrow> u64 \<Rightarrow> bool" where
  "softfloat_le128 a64 a0 b64 b0 \<longleftrightarrow> a64 < b64 \<or> (a64 = b64 \<and> a0 \<le> b0)"

definition softfloat_lt128 :: "u64 \<Rightarrow> u64 \<Rightarrow> u64 \<Rightarrow> u64 \<Rightarrow> bool" where
  "softfloat_lt128 a64 a0 b64 b0 \<longleftrightarrow> a64 < b64 \<or> (a64 = b64 \<and> a0 < b0)"

definition softfloat_shortShiftLeft128 :: "u64 \<Rightarrow> u64 \<Rightarrow> nat \<Rightarrow> uint128" where
  "softfloat_shortShiftLeft128 a64 a0 count =
     \<lparr>v64 = push_bit count a64 OR drop_bit (neg_and 64 count) a0, v0 = push_bit count a0\<rparr>"

definition softfloat_shortShiftRight128 :: "u64 \<Rightarrow> u64 \<Rightarrow> nat \<Rightarrow> uint128" where
  "softfloat_shortShiftRight128 a64 a0 count =
     \<lparr>v64 = drop_bit count a64, v0 = push_bit (neg_and 64 count) a64 OR drop_bit count a0\<rparr>"

definition softfloat_shortShiftRightJam64Extra :: "u64 \<Rightarrow> u64 \<Rightarrow> nat \<Rightarrow> uint64_extra" where
  "softfloat_shortShiftRightJam64Extra a ext count =
     \<lparr>extra_v = drop_bit count a,
      extra_low = push_bit (neg_and 64 count) a OR of_bool (ext \<noteq> 0)\<rparr>"

definition softfloat_shortShiftRightJam128 :: "u64 \<Rightarrow> u64 \<Rightarrow> nat \<Rightarrow> uint128" where
  "softfloat_shortShiftRightJam128 a64 a0 count =
     \<lparr>v64 = drop_bit count a64,
      v0 = push_bit (neg_and 64 count) a64 OR drop_bit count a0
             OR of_bool (push_bit (neg_and 64 count) a0 \<noteq> 0)\<rparr>"

definition softfloat_shortShiftRightJam128Extra ::
  "u64 \<Rightarrow> u64 \<Rightarrow> u64 \<Rightarrow> nat \<Rightarrow> uint128_extra" where
  "softfloat_shortShiftRightJam128Extra a64 a0 ext count =
     \<lparr>extra_v128 = \<lparr>v64 = drop_bit count a64,
                    v0 = push_bit (neg_and 64 count) a64 OR drop_bit count a0\<rparr>,
      extra_low128 = push_bit (neg_and 64 count) a0 OR of_bool (ext \<noteq> 0)\<rparr>"

definition softfloat_shiftRightJam64Extra :: "u64 \<Rightarrow> u64 \<Rightarrow> nat \<Rightarrow> uint64_extra" where
  "softfloat_shiftRightJam64Extra a ext count =
     (let z = (if count < 64
               then \<lparr>extra_v = drop_bit count a, extra_low = push_bit (neg_and 64 count) a\<rparr>
               else \<lparr>extra_v = 0, extra_low = (if count = 64 then a else of_bool (a \<noteq> 0))\<rparr>)
      in z\<lparr>extra_low := extra_low z OR of_bool (ext \<noteq> 0)\<rparr>)"

definition softfloat_shiftRightJam128 :: "u64 \<Rightarrow> u64 \<Rightarrow> nat \<Rightarrow> uint128" where
  "softfloat_shiftRightJam128 a64 a0 count =
     (if count < 64
      then \<lparr>v64 = drop_bit count a64,
            v0 = push_bit (neg_and 64 count) a64 OR drop_bit count a0
                   OR of_bool (push_bit (neg_and 64 count) a0 \<noteq> 0)\<rparr>
      else \<lparr>v64 = 0,
            v0 = (if count < 127
                  then drop_bit (count mod 64) a64
                         OR of_bool ((a64 AND (push_bit (count mod 64) 1 - 1)) OR a0 \<noteq> 0)
                  else of_bool (a64 OR a0 \<noteq> 0))\<rparr>)"

definition softfloat_add128 :: "u64 \<Rightarrow> u64 \<Rightarrow> u64 \<Rightarrow> u64 \<Rightarrow> uint128" where
  "softfloat_add128 a64 a0 b64 b0 =
     (let z0 = a0 + b0 in \<lparr>v64 = a64 + b64 + of_bool (z0 < a0), v0 = z0\<rparr>)"

definition softfloat_sub128 :: "u64 \<Rightarrow> u64 \<Rightarrow> u64 \<Rightarrow> u64 \<Rightarrow> uint128" where
  "softfloat_sub128 a64 a0 b64 b0 =
     \<lparr>v64 = a64 - b64 - of_bool (a0 < b0), v0 = a0 - b0\<rparr>"

definition softfloat_mul64ByShifted32To128 :: "u64 \<Rightarrow> u32 \<Rightarrow> uint128" where
  "softfloat_mul64ByShifted32To128 a b =
     (let mid = ucast (ucast a :: u32) * ucast b
      in \<lparr>v64 = ucast (ucast (drop_bit 32 a) :: u32) * ucast b + drop_bit 32 mid,
          v0 = push_bit 32 mid\<rparr>)"

definition softfloat_mul64To128 :: "u64 \<Rightarrow> u64 \<Rightarrow> uint128" where
  "softfloat_mul64To128 a b =
     (let a32 = (ucast (drop_bit 32 a) :: u32);
          a0 = (ucast a :: u32);
          b32 = (ucast (drop_bit 32 b) :: u32);
          b0 = (ucast b :: u32);
          z0 = ucast a0 * ucast b0;
          mid1 = (ucast a32 * ucast b0 :: u64);
          mid = mid1 + ucast a0 * ucast b32;
          z64 = ucast a32 * ucast b32;
          z64 = z64 + (push_bit 32 (of_bool (mid < mid1)) OR drop_bit 32 mid);
          mid = push_bit 32 mid;
          z0 = z0 + mid;
          z64 = z64 + of_bool (z0 < mid)
      in \<lparr>v64 = z64, v0 = z0\<rparr>)"

definition softfloat_mul128By32 :: "u64 \<Rightarrow> u64 \<Rightarrow> u32 \<Rightarrow> uint128" where
  "softfloat_mul128By32 a64 a0 b =
     (let z0 = a0 * ucast b;
          mid = ucast (ucast (drop_bit 32 a0) :: u32) * ucast b;
          carry = (ucast (drop_bit 32 z0) :: u32) - ucast mid
      in \<lparr>v64 = a64 * ucast b + ucast (ucast (drop_bit 32 (mid + ucast carry)) :: u32),
          v0 = z0\<rparr>)"

text \<open>
  \<open>platform.h\<close> defines \<open>SOFTFLOAT_FAST_DIV64TO32\<close>, so the reciprocal is the macro that
  divides; \<open>s_approxRecip32_1.c\<close> holds the table version other platforms use.
\<close>

definition softfloat_approxRecip32_1 :: "u32 \<Rightarrow> u32" where
  "softfloat_approxRecip32_1 a = ucast ((0x7FFFFFFFFFFFFFFF :: u64) div ucast a)"

definition approxRecip_k0s :: "u16 list" where
  "approxRecip_k0s =
     [0xFFC4, 0xF0BE, 0xE363, 0xD76F, 0xCCAD, 0xC2F0, 0xBA16, 0xB201,
      0xAA97, 0xA3C6, 0x9D7A, 0x97A6, 0x923C, 0x8D32, 0x887E, 0x8417]"

definition approxRecip_k1s :: "u16 list" where
  "approxRecip_k1s =
     [0xF0F1, 0xD62C, 0xBFA1, 0xAC77, 0x9C0A, 0x8DDB, 0x8185, 0x76BA,
      0x6D3B, 0x64D4, 0x5D5C, 0x56B1, 0x50B6, 0x4B55, 0x4679, 0x4211]"

definition softfloat_approxRecip32_1_table :: "u32 \<Rightarrow> u32" where
  "softfloat_approxRecip32_1_table a =
     (let index = unat (drop_bit 27 a AND 0xF);
          eps = (ucast (drop_bit 11 a) :: u16);
          r0 = (approxRecip_k0s ! index
                  - ucast (drop_bit 20 (ucast (approxRecip_k1s ! index) * ucast eps :: u32)) :: u16);
          delta0 = NOT (ucast (drop_bit 7 (ucast r0 * ucast a :: u64)) :: u32);
          r = push_bit 16 (ucast r0) + ucast (drop_bit 24 (ucast r0 * ucast delta0 :: u64));
          sqrDelta0 = (ucast (drop_bit 32 (ucast delta0 * ucast delta0 :: u64)) :: u32)
      in r + ucast (drop_bit 48 (ucast r * ucast sqrDelta0 :: u64)))"

definition approxRecipSqrt_k0s :: "u16 list" where
  "approxRecipSqrt_k0s =
     [0xB4C9, 0xFFAB, 0xAA7D, 0xF11C, 0xA1C5, 0xE4C7, 0x9A43, 0xDA29,
      0x93B5, 0xD0E5, 0x8DED, 0xC8B7, 0x88C6, 0xC16D, 0x8424, 0xBAE1]"

definition approxRecipSqrt_k1s :: "u16 list" where
  "approxRecipSqrt_k1s =
     [0xA5A5, 0xEA42, 0x8C21, 0xC62D, 0x788F, 0xAA7F, 0x6928, 0x94B6,
      0x5CC7, 0x8335, 0x52A6, 0x74E2, 0x4A3E, 0x68FE, 0x432B, 0x5EFD]"

definition softfloat_approxRecipSqrt32_1 :: "nat \<Rightarrow> u32 \<Rightarrow> u32" where
  "softfloat_approxRecipSqrt32_1 oddExpA a =
     (let index = unat (drop_bit 27 a AND 0xE) + oddExpA;
          eps = (ucast (drop_bit 12 a) :: u16);
          r0 = (approxRecipSqrt_k0s ! index
                  - ucast (drop_bit 20 (ucast (approxRecipSqrt_k1s ! index) * ucast eps :: u32)) :: u16);
          ESqrR0 = (ucast r0 * ucast r0 :: u32);
          ESqrR0 = (if oddExpA = 0 then push_bit 1 ESqrR0 else ESqrR0);
          delta0 = NOT (ucast (drop_bit 23 (ucast ESqrR0 * ucast a :: u64)) :: u32);
          r = push_bit 16 (ucast r0) + ucast (drop_bit 25 (ucast r0 * ucast delta0 :: u64));
          sqrDelta0 = (ucast (drop_bit 32 (ucast delta0 * ucast delta0 :: u64)) :: u32);
          r = r + ucast (drop_bit 48
                (ucast (drop_bit 1 r + drop_bit 3 r - push_bit 14 (ucast r0) :: u32)
                   * ucast sqrDelta0 :: u64))
      in if r AND 0x80000000 = 0 then 0x80000000 else r)"

section \<open>Counting leading zeros\<close>

lemma countLeadingZeros8_runs:
  "softfloat_countLeadingZeros8 = [8, 7, 6, 6] @ replicate 4 5 @ replicate 8 4 @ replicate 16 3 @
     replicate 32 2 @ replicate 64 1 @ replicate 128 0"
  unfolding softfloat_countLeadingZeros8_def by (simp add: numeral_eq_Suc)

lemma countLeadingZeros8_table:
  assumes "1 \<le> i" "i < 256"
  shows "128 \<le> i * 2 ^ (softfloat_countLeadingZeros8 ! i) \<and>
     (i + 1) * 2 ^ (softfloat_countLeadingZeros8 ! i) \<le> 256"
proof -
  consider "i = 1" | "i = 2 \<or> i = 3" | "4 \<le> i \<and> i < 8" | "8 \<le> i \<and> i < 16" | "16 \<le> i \<and> i < 32"
    | "32 \<le> i \<and> i < 64" | "64 \<le> i \<and> i < 128" | "128 \<le> i \<and> i < 256"
    using assms by linarith
  then show ?thesis
    unfolding countLeadingZeros8_runs by cases (auto simp: nth_append)
qed

lemma countLeadingZeros8_int:
  fixes x :: int
  assumes "2 ^ 24 \<le> x" "x < 2 ^ 32"
  defines "t \<equiv> softfloat_countLeadingZeros8 ! nat (x div 2 ^ 24)"
  shows "2 ^ 31 \<le> x * 2 ^ t" "x * 2 ^ t < 2 ^ 32"
proof -
  define i where "i = nat (x div 2 ^ 24)"
  have i: "1 \<le> x div 2 ^ 24" "x div 2 ^ 24 < 256" using assms(1,2) by (auto simp: div_less_pow_iff)
  then have "1 \<le> i" "i < 256" by (auto simp: i_def)
  then have t: "128 \<le> i * 2 ^ t" "(i + 1) * 2 ^ t \<le> 256"
    using countLeadingZeros8_table unfolding t_def i_def [symmetric] by blast+
  have xi: "int i * 2 ^ 24 \<le> x" "x < (int i + 1) * 2 ^ 24"
    using i div_split_pow [of x 24] by (auto simp: i_def)
  have t': "128 \<le> int i * 2 ^ t" "(int i + 1) * 2 ^ t \<le> 256"
    using t [folded of_nat_le_iff [where 'a = int]] by (simp_all add: distrib_right)
  have "2 ^ 31 = 128 * (2::int) ^ 24" by simp
  also have "\<dots> \<le> int i * 2 ^ t * 2 ^ 24" by (rule mult_right_mono [OF t'(1)]) simp
  also have "\<dots> = int i * 2 ^ 24 * 2 ^ t" by (simp only: mult_ac)
  also have "\<dots> \<le> x * 2 ^ t" by (rule mult_right_mono [OF xi(1)]) simp
  finally show "2 ^ 31 \<le> x * 2 ^ t" .
  have "x * 2 ^ t < (int i + 1) * 2 ^ 24 * 2 ^ t" by (rule mult_strict_right_mono [OF xi(2)]) simp
  also have "\<dots> = (int i + 1) * 2 ^ t * 2 ^ 24" by (simp only: mult_ac)
  also have "\<dots> \<le> 256 * 2 ^ 24" by (rule mult_right_mono [OF t'(2)]) simp
  finally show "x * 2 ^ t < 2 ^ 32" by simp
qed

lemma u32_less_iff: "(a :: u32) < 0x10000 \<longleftrightarrow> uint a < 2 ^ 16" "(a :: u32) < 0x1000000 \<longleftrightarrow> uint a < 2 ^ 24"
  by (simp_all add: word_less_def)

text \<open>Both counts go through the same two halving steps and the table.\<close>

definition clz_from :: "nat \<Rightarrow> u32 \<Rightarrow> nat" where
  "clz_from c a = (let (count, a) = (if a < 0x10000 then (c + 16, push_bit 16 a) else (c, a));
          (count, a) = (if a < 0x1000000 then (count + 8, push_bit 8 a) else (count, a))
      in count + softfloat_countLeadingZeros8 ! unat (drop_bit 24 a))"

lemma countLeadingZeros32_from: "softfloat_countLeadingZeros32 a = clz_from 0 a"
  unfolding softfloat_countLeadingZeros32_def clz_from_def by simp

lemma countLeadingZeros64_from:
  "softfloat_countLeadingZeros64 a =
     (if (ucast (drop_bit 32 a) :: u32) = 0 then clz_from 32 (ucast a)
      else clz_from 0 (ucast (drop_bit 32 a)))"
  unfolding softfloat_countLeadingZeros64_def clz_from_def by simp

lemma clz_steps:
  fixes a :: u32 and c :: nat
  assumes "a \<noteq> 0"
  shows "\<exists>t. clz_from c a = c + t \<and> 2 ^ 31 \<le> uint a * 2 ^ t \<and> uint a * 2 ^ t < 2 ^ 32"
proof -
  have a0: "0 < uint a" using assms(1) by (simp add: uint_0_iff order_le_neq_trans [OF uint_ge_0])
  define a1 k1 where "a1 = (if a < 0x10000 then push_bit 16 a else a)"
    and "k1 = (if a < 0x10000 then 16 else 0 :: nat)"
  define a2 k2 where "a2 = (if a1 < 0x1000000 then push_bit 8 a1 else a1)"
    and "k2 = (if a1 < 0x1000000 then 8 else 0 :: nat)"
  have r: "clz_from c a = c + k1 + k2 + softfloat_countLeadingZeros8 ! unat (drop_bit 24 a2)"
    unfolding clz_from_def a1_def k1_def a2_def k2_def by (simp add: Let_def)
  have u1: "uint a1 = uint a * 2 ^ k1" "2 ^ 16 \<le> uint a1"
    using a0 uint_push_bit_small [of a 16] by (auto simp: a1_def k1_def u32_less_iff)
  have u2: "uint a2 = uint a1 * 2 ^ k2" "2 ^ 24 \<le> uint a2"
    using u1 uint_push_bit_small [of a1 8] by (auto simp: a2_def k2_def u32_less_iff)
  have "unat (drop_bit 24 a2) = nat (uint a2 div 2 ^ 24)"
    unfolding uint_drop_bit_div [symmetric] by simp
  then have "2 ^ 31 \<le> uint a2 * 2 ^ (softfloat_countLeadingZeros8 ! unat (drop_bit 24 a2))"
    "uint a2 * 2 ^ (softfloat_countLeadingZeros8 ! unat (drop_bit 24 a2)) < 2 ^ 32"
    using countLeadingZeros8_int [of "uint a2"] u2(2) uint_bounds_32 [of a2] by simp_all
  then show ?thesis
    unfolding r u2(1) u1(1) by (intro exI [of _ "k1 + k2 + _"]) (simp add: power_add mult.assoc)
qed

theorem countLeadingZeros32_correct:
  assumes "a \<noteq> 0"
  shows "2 ^ 31 \<le> uint a * 2 ^ softfloat_countLeadingZeros32 a \<and>
    uint a * 2 ^ softfloat_countLeadingZeros32 a < 2 ^ 32"
  unfolding countLeadingZeros32_from using clz_steps [OF assms, of 0] by auto

theorem countLeadingZeros64_correct:
  assumes "a \<noteq> 0"
  shows "2 ^ 63 \<le> uint a * 2 ^ softfloat_countLeadingZeros64 a \<and>
    uint a * 2 ^ softfloat_countLeadingZeros64 a < 2 ^ 64"
proof -
  let ?n = "softfloat_countLeadingZeros64 a"
  let ?hi = "ucast (drop_bit 32 a) :: u32"
  have hi: "uint ?hi = uint a div 2 ^ 32"
    using uint_bounds_64 [of a] int_div_less [of "uint a" "2 ^ 32" "2 ^ 32"]
    by (simp add: word_int pos_imp_zdiv_nonneg_iff)
  have n: "?n = (if ?hi = 0 then clz_from 32 (ucast a) else clz_from 0 ?hi)"
    by (rule countLeadingZeros64_from)
  show "2 ^ 63 \<le> uint a * 2 ^ ?n \<and> uint a * 2 ^ ?n < 2 ^ 64"
  proof (cases "?hi = 0")
    case True
    then have a: "uint a < 2 ^ 32" using hi uint_bounds_64 [of a] by (simp add: zdiv_eq_0_iff) linarith
    then have lo: "uint (ucast a :: u32) = uint a" by (simp add: word_int)
    then have "(ucast a :: u32) \<noteq> 0" using assms by (metis uint_0_iff)
    then obtain t where "?n = 32 + t" "2 ^ 31 \<le> uint a * 2 ^ t" "uint a * 2 ^ t < 2 ^ 32"
      using clz_steps [of "ucast a" 32] n True lo by auto
    then show ?thesis by (simp add: power_add)
  next
    case False
    then obtain t where t: "?n = t" "2 ^ 31 \<le> uint ?hi * 2 ^ t" "uint ?hi * 2 ^ t < 2 ^ 32"
      using clz_steps [of ?hi 0] n by auto
    have t32: "t < 32"
    proof (rule ccontr)
      assume "\<not> t < 32"
      then have "(2::int) ^ 32 \<le> 2 ^ t" by (intro power_increasing) auto
      moreover have "1 \<le> uint ?hi" using False by (metis uint_0_iff uint_ge_0 int_one_le_iff_zero_less order_le_less)
      ultimately have "1 * 2 ^ 32 \<le> uint ?hi * 2 ^ t" by (intro mult_mono) auto
      with t(3) show False by simp
    qed
    have p: "(2::int) ^ 32 = 2 ^ (32 - t) * 2 ^ t" using t32 by (simp flip: power_add)
    have lt: "uint ?hi < 2 ^ (32 - t)" using t(3) unfolding p by (simp only: mult_less_cancel_right) auto
    have s: "uint a = uint ?hi * 2 ^ 32 + uint a mod 2 ^ 32"
      unfolding hi by (rule div_split_pow)
    have m: "0 \<le> uint a mod 2 ^ 32" "uint a mod 2 ^ 32 < 2 ^ 32" by simp_all
    have "2 ^ 31 * 2 ^ 32 \<le> uint ?hi * 2 ^ t * 2 ^ 32" using t(2) by (intro mult_right_mono) auto
    also have "\<dots> \<le> uint a * 2 ^ t"
      using s m mult_right_mono [of "uint ?hi * 2 ^ 32" "uint a" "2 ^ t"] by (simp add: mult_ac)
    finally have 1: "2 ^ 63 \<le> uint a * 2 ^ t" by simp
    have "uint a < (uint ?hi + 1) * 2 ^ 32" using s m by (simp add: distrib_right)
    also have "\<dots> \<le> 2 ^ (32 - t) * 2 ^ 32" using lt by (intro mult_right_mono) auto
    finally have "uint a * 2 ^ t < 2 ^ (32 - t) * 2 ^ 32 * 2 ^ t" by simp
    also have "\<dots> = 2 ^ 64" using p by (simp add: mult_ac)
    finally show ?thesis using 1 t(1) by simp
  qed
qed

section \<open>Shifts with a sticky bit\<close>

lemma neg_and_less: "1 \<le> c \<Longrightarrow> c \<le> m \<Longrightarrow> neg_and m c = m - c"
proof -
  assume c: "1 \<le> c" "c \<le> m"
  have "(- int c) mod int m = (int m - int c) mod int m" by (simp add: mod_simps)
  also have "\<dots> = int m - int c" using c by (intro mod_pos_pos_trivial) auto
  finally show ?thesis using c by (simp add: neg_and_def nat_diff_distrib)
qed

lemma uint_push_low:
  "c \<le> LENGTH('a) \<Longrightarrow>
     uint (push_bit (LENGTH('a) - c) (a :: 'a::len word)) = uint a mod 2 ^ c * 2 ^ (LENGTH('a) - c)"
proof -
  assume c: "c \<le> LENGTH('a)"
  have "(2::int) ^ LENGTH('a) = 2 ^ c * 2 ^ (LENGTH('a) - c)" using c by (simp flip: power_add)
  then show ?thesis by (simp add: uint_push_bit_mod mult_mod_left)
qed

lemma push_low_nonzero:
  "c \<le> LENGTH('a) \<Longrightarrow>
     push_bit (LENGTH('a) - c) (a :: 'a::len word) \<noteq> 0 \<longleftrightarrow> uint a mod 2 ^ c \<noteq> 0"
  using uint_push_low [of c a] by (simp add: uint_0_iff [symmetric] del: uint_0_iff)

lemma jam_sticky: "0 \<le> n \<Longrightarrow> n < 2 ^ Suc d \<Longrightarrow> jam n d = of_bool (n \<noteq> 0)"
proof -
  assume n: "0 \<le> n" "n < 2 ^ Suc d"
  have "n div 2 ^ d = 1" if "\<not> n < 2 ^ d"
    using n that by (intro int_div_pos_eq [of _ _ _ "n - 2 ^ d"]) auto
  then consider "n < 2 ^ d" | "n div 2 ^ d = 1" by blast
  then show ?thesis
    by cases (use n jam_large in \<open>auto simp: jam_def\<close>)
qed

lemma uint_jam:
  "uint (drop_bit c a OR of_bool b :: 'a::len word) = jam (uint a) c"
  if "b \<longleftrightarrow> uint a mod 2 ^ c \<noteq> 0"
  unfolding uint_or_of_bool uint_drop_bit_div jam_def using that by (simp add: conj_commute)

theorem shiftRightJam32_correct:
  "1 \<le> count \<Longrightarrow> uint (softfloat_shiftRightJam32 a count) = jam (uint a) count"
proof (cases "count < 31")
  case True
  assume "1 \<le> count"
  then show ?thesis
    using True push_low_nonzero [of count a]
    by (simp add: softfloat_shiftRightJam32_def neg_and_less uint_jam)
next
  case False
  then have "(2::int) ^ 32 \<le> 2 ^ Suc count" by (intro power_increasing) auto
  then have "uint a < 2 ^ Suc count" using uint_bounds_32 [of a] by simp
  with False show ?thesis
    by (simp add: softfloat_shiftRightJam32_def jam_sticky uint_0_iff)
qed

theorem shiftRightJam64_correct:
  "1 \<le> count \<Longrightarrow> uint (softfloat_shiftRightJam64 a count) = jam (uint a) count"
proof (cases "count < 63")
  case True
  assume "1 \<le> count"
  then show ?thesis
    using True push_low_nonzero [of count a]
    by (simp add: softfloat_shiftRightJam64_def neg_and_less uint_jam)
next
  case False
  then have "(2::int) ^ 64 \<le> 2 ^ Suc count" by (intro power_increasing) auto
  then have "uint a < 2 ^ Suc count" using uint_bounds_64 [of a] by simp
  with False show ?thesis
    by (simp add: softfloat_shiftRightJam64_def jam_sticky uint_0_iff)
qed

lemma mask_word_nonzero:
  "a AND (push_bit c 1 - 1) \<noteq> 0 \<longleftrightarrow> uint a mod 2 ^ c \<noteq> 0" for a :: "'a::len word"
proof -
  have "push_bit c 1 - 1 = (mask c :: 'a word)" by (simp add: mask_eq_exp_minus_1 push_bit_eq_mult)
  then show ?thesis using uint_and_mask [of a c] by (metis uint_0_iff)
qed

theorem shortShiftRightJam64_correct:
  "uint (softfloat_shortShiftRightJam64 a count) = jam (uint a) count"
  unfolding softfloat_shortShiftRightJam64_def by (rule uint_jam) (rule mask_word_nonzero)

section \<open>128-bit values\<close>

definition u128 :: "uint128 \<Rightarrow> int" where
  "u128 z = uint (v64 z) * 2 ^ 64 + uint (v0 z)"

definition val128 :: "u64 \<Rightarrow> u64 \<Rightarrow> int" where
  "val128 a64 a0 = uint a64 * 2 ^ 64 + uint a0"

lemma u128_val: "u128 z = val128 (v64 z) (v0 z)"
  by (simp add: u128_def val128_def)

lemma val128_bounds: "0 \<le> val128 a64 a0" "val128 a64 a0 < 2 ^ 128"
  using uint_bounds_64 [of a64] uint_bounds_64 [of a0] by (simp_all add: val128_def)

lemma high_low_order:
  fixes h l h' l' :: int
  assumes "0 \<le> l" "l < 2 ^ 64" "0 \<le> l'" "l' < 2 ^ 64"
  shows "h * 2 ^ 64 + l < h' * 2 ^ 64 + l' \<longleftrightarrow> h < h' \<or> (h = h' \<and> l < l')"
    and "h * 2 ^ 64 + l = h' * 2 ^ 64 + l' \<longleftrightarrow> h = h' \<and> l = l'"
  using assms by (cases h h' rule: linorder_cases; auto)+

lemma val128_eq_0: "val128 a64 a0 = 0 \<longleftrightarrow> a64 = 0 \<and> a0 = 0"
  using high_low_order(2) [of "uint a0" 0 "uint a64" 0] uint_bounds_64 [of a0]
  by (simp add: val128_def uint_0_iff)

lemma compare128:
  "softfloat_eq128 a64 a0 b64 b0 \<longleftrightarrow> val128 a64 a0 = val128 b64 b0"
  "softfloat_le128 a64 a0 b64 b0 \<longleftrightarrow> val128 a64 a0 \<le> val128 b64 b0"
  "softfloat_lt128 a64 a0 b64 b0 \<longleftrightarrow> val128 a64 a0 < val128 b64 b0"
proof -
  note o = high_low_order [of "uint a0" "uint b0" "uint a64" "uint b64"]
    uint_lt2p [of a0] uint_lt2p [of b0]
  show eq: "softfloat_eq128 a64 a0 b64 b0 \<longleftrightarrow> val128 a64 a0 = val128 b64 b0"
    using o unfolding softfloat_eq128_def val128_def word_uint_eq_iff by simp
  show lt: "softfloat_lt128 a64 a0 b64 b0 \<longleftrightarrow> val128 a64 a0 < val128 b64 b0"
    using o unfolding softfloat_lt128_def val128_def word_uint_eq_iff word_less_def by simp
  have "softfloat_le128 a64 a0 b64 b0 \<longleftrightarrow>
      softfloat_lt128 a64 a0 b64 b0 \<or> softfloat_eq128 a64 a0 b64 b0"
    unfolding softfloat_eq128_def softfloat_le128_def softfloat_lt128_def by auto
  then show "softfloat_le128 a64 a0 b64 b0 \<longleftrightarrow> val128 a64 a0 \<le> val128 b64 b0"
    unfolding eq lt by auto
qed

text \<open>A carry out of the low word shows as a sum below an operand, a borrow as a smaller operand.\<close>

lemma plus_carry: "a + b < a \<longleftrightarrow> 2 ^ 64 \<le> uint a + uint b" for a b :: u64
  using uint_bounds_64 [of a] uint_bounds_64 [of b]
  by (auto simp: word_less_def uint_plus_if')

lemma uint_plus_carry: "uint (a + b) = uint a + uint b - 2 ^ 64 * of_bool (a + b < a)" for a b :: u64
  unfolding plus_carry by (simp add: uint_plus_if')

lemma uint_minus_borrow: "uint (a - b) = uint a - uint b + 2 ^ 64 * of_bool (a < b)" for a b :: u64
  by (simp add: uint_sub_if' word_less_def)

lemma high_low_mod: "0 \<le> l \<Longrightarrow> l < 2 ^ 64 \<Longrightarrow> h mod 2 ^ 64 * 2 ^ 64 + l = (h * 2 ^ 64 + l) mod 2 ^ 128" for h l :: int
proof -
  assume l: "0 \<le> l" "l < 2 ^ 64"
  have "(h * 2 ^ 64 + l) mod (2 ^ 64 * 2 ^ 64) = 2 ^ 64 * ((h * 2 ^ 64 + l) div 2 ^ 64 mod 2 ^ 64) + (h * 2 ^ 64 + l) mod 2 ^ 64"
    by (rule zmod_zmult2_eq) simp
  also have "\<dots> = 2 ^ 64 * (h mod 2 ^ 64) + l"
    unfolding pow_split_div [OF l] pow_split_mod [OF l] ..
  finally show ?thesis by simp
qed

theorem add128_correct:
  "u128 (softfloat_add128 a64 a0 b64 b0) = (val128 a64 a0 + val128 b64 b0) mod 2 ^ 128"
proof -
  define c :: int where "c = of_bool (a0 + b0 < a0)"
  have "uint (a64 + b64 + of_bool (a0 + b0 < a0)) = (uint a64 + uint b64 + c) mod 2 ^ 64"
    by (simp add: c_def uint_word_ariths mod_simps)
  moreover have "uint (a0 + b0) = uint a0 + uint b0 - 2 ^ 64 * c"
    unfolding c_def by (rule uint_plus_carry)
  ultimately have "u128 (softfloat_add128 a64 a0 b64 b0) =
      ((uint a64 + uint b64 + c) * 2 ^ 64 + uint (a0 + b0)) mod 2 ^ 128"
    using high_low_mod [of "uint (a0 + b0)" "uint a64 + uint b64 + c"] uint_bounds_64 [of "a0 + b0"]
    by (simp add: u128_def softfloat_add128_def Let_def)
  also have "(uint a64 + uint b64 + c) * 2 ^ 64 + uint (a0 + b0) = val128 a64 a0 + val128 b64 b0"
    unfolding \<open>uint (a0 + b0) = _\<close> val128_def by (simp add: algebra_simps)
  finally show ?thesis .
qed

theorem sub128_correct:
  "u128 (softfloat_sub128 a64 a0 b64 b0) = (val128 a64 a0 - val128 b64 b0) mod 2 ^ 128"
proof -
  define c :: int where "c = of_bool (a0 < b0)"
  have "uint (a64 - b64 - of_bool (a0 < b0)) = (uint a64 - uint b64 - c) mod 2 ^ 64"
    by (simp add: c_def uint_word_ariths mod_simps)
  moreover have "uint (a0 - b0) = uint a0 - uint b0 + 2 ^ 64 * c"
    unfolding c_def by (rule uint_minus_borrow)
  ultimately have "u128 (softfloat_sub128 a64 a0 b64 b0) =
      ((uint a64 - uint b64 - c) * 2 ^ 64 + uint (a0 - b0)) mod 2 ^ 128"
    using high_low_mod [of "uint (a0 - b0)" "uint a64 - uint b64 - c"] uint_bounds_64 [of "a0 - b0"]
    by (simp add: u128_def softfloat_sub128_def Let_def)
  also have "(uint a64 - uint b64 - c) * 2 ^ 64 + uint (a0 - b0) = val128 a64 a0 - val128 b64 b0"
    unfolding \<open>uint (a0 - b0) = _\<close> val128_def by (simp add: algebra_simps)
  finally show ?thesis .
qed

section \<open>128-bit shifts and products\<close>

text \<open>Bits shifted into an empty low part are an addition.\<close>

lemma or_shifted:
  fixes a b :: "'a::len word"
  assumes "c \<le> LENGTH('a)"
  shows "uint (push_bit (LENGTH('a) - c) a OR drop_bit c b) =
    uint a mod 2 ^ c * 2 ^ (LENGTH('a) - c) + uint b div 2 ^ c"
proof -
  have "push_bit (LENGTH('a) - c) a AND drop_bit c b = 0"
    by (rule bit_eqI) (auto simp: bit_simps dest: bit_imp_le_length)
  then show ?thesis using assms by (simp add: uint_or_disjoint uint_push_low uint_drop_bit_div)
qed

lemma shift_pair:
  fixes x y :: int
  assumes "c \<le> 64" "0 \<le> y" "y < 2 ^ 64"
  shows "(x * 2 ^ 64 + y) div 2 ^ c = x div 2 ^ c * 2 ^ 64 + (x mod 2 ^ c * 2 ^ (64 - c) + y div 2 ^ c)"
    and "(x * 2 ^ 64 + y) mod 2 ^ c = y mod 2 ^ c"
proof -
  have p: "(2::int) ^ 64 = 2 ^ (64 - c) * 2 ^ c" using assms(1) by (simp flip: power_add)
  define q r where "q = x div 2 ^ c" and "r = x mod 2 ^ c"
  have x: "x = q * 2 ^ c + r" unfolding q_def r_def by (rule div_split_pow)
  have "(x * 2 ^ 64 + y) div 2 ^ c = x * 2 ^ (64 - c) + y div 2 ^ c"
    unfolding p mult.assoc [symmetric] by (subst div_plus_div_distrib_dvd_left) simp_all
  also have "\<dots> = q * 2 ^ 64 + (r * 2 ^ (64 - c) + y div 2 ^ c)"
    unfolding x p by (simp add: algebra_simps)
  finally show "(x * 2 ^ 64 + y) div 2 ^ c = x div 2 ^ c * 2 ^ 64 + (x mod 2 ^ c * 2 ^ (64 - c) + y div 2 ^ c)"
    by (simp only: q_def r_def)
  show "(x * 2 ^ 64 + y) mod 2 ^ c = y mod 2 ^ c"
    unfolding p mult.assoc [symmetric] by (simp add: mod_simps del: mult.assoc)
qed

lemma or_shifted64:
  "c \<le> 64 \<Longrightarrow> uint (push_bit (64 - c) a OR drop_bit c b) =
     uint a mod 2 ^ c * 2 ^ (64 - c) + uint b div 2 ^ c" for a b :: u64
  using or_shifted [of c a b] by simp

lemma val128_shift:
  assumes "c \<le> 64"
  shows "val128 (drop_bit c a64) (push_bit (64 - c) a64 OR drop_bit c a0) = val128 a64 a0 div 2 ^ c"
    and "val128 a64 a0 mod 2 ^ c = uint a0 mod 2 ^ c"
  unfolding val128_def using shift_pair [of c "uint a0" "uint a64"] assms uint_lt2p [of a0]
  by (simp_all only: or_shifted64 uint_drop_bit_div uint_ge_0 len_of_numeral_defs len_num1)
     (simp_all add: add.assoc)

theorem shortShiftRight128_correct:
  "1 \<le> count \<Longrightarrow> count < 64 \<Longrightarrow>
   u128 (softfloat_shortShiftRight128 a64 a0 count) = val128 a64 a0 div 2 ^ count"
  by (simp add: u128_val softfloat_shortShiftRight128_def neg_and_less val128_shift)

theorem shortShiftLeft128_correct:
  assumes "1 \<le> count" "count < 64"
  shows "u128 (softfloat_shortShiftLeft128 a64 a0 count) = val128 a64 a0 * 2 ^ count mod 2 ^ 128"
proof -
  have p: "(2::int) ^ 64 = 2 ^ count * 2 ^ (64 - count)" using assms by (simp flip: power_add)
  have hi: "uint (push_bit count a64 OR drop_bit (64 - count) a0) =
      (uint a64 * 2 ^ count + uint a0 div 2 ^ (64 - count)) mod 2 ^ 64"
  proof -
    have "uint a0 div 2 ^ (64 - count) < 2 ^ count"
      using p uint_lt2p [of a0] by (intro int_div_less) simp_all
    then have s: "0 \<le> uint a0 div 2 ^ (64 - count)" "uint a0 div 2 ^ (64 - count) < 2 ^ count"
      by (simp_all add: pos_imp_zdiv_nonneg_iff)
    have "uint (push_bit count a64 OR drop_bit (64 - count) a0) =
        uint a64 mod 2 ^ (64 - count) * 2 ^ count + uint a0 div 2 ^ (64 - count)"
      using or_shifted64 [of "64 - count" a64 a0] assms by simp
    also have "\<dots> = (uint a64 * 2 ^ count + uint a0 div 2 ^ (64 - count)) mod (2 ^ count * 2 ^ (64 - count))"
      unfolding zmod_zmult2_eq [OF zero_le_power [OF zero_le_numeral]] pow_split_div [OF s] pow_split_mod [OF s]
      by simp
    finally show ?thesis unfolding p .
  qed
  have "u128 (softfloat_shortShiftLeft128 a64 a0 count) =
      (uint a64 * 2 ^ count + uint a0 div 2 ^ (64 - count)) mod 2 ^ 64 * 2 ^ 64 + uint a0 * 2 ^ count mod 2 ^ 64"
    using hi assms by (simp add: u128_def softfloat_shortShiftLeft128_def neg_and_less uint_push_bit_mod)
  also have "\<dots> = ((uint a64 * 2 ^ count + uint a0 div 2 ^ (64 - count)) * 2 ^ 64 + uint a0 * 2 ^ count mod 2 ^ 64) mod 2 ^ 128"
    by (rule high_low_mod) simp_all
  also have "(uint a64 * 2 ^ count + uint a0 div 2 ^ (64 - count)) * 2 ^ 64 + uint a0 * 2 ^ count mod 2 ^ 64 =
      val128 a64 a0 * 2 ^ count"
  proof -
    define q r where "q = uint a0 div 2 ^ (64 - count)" and "r = uint a0 mod 2 ^ (64 - count)"
    have a0: "uint a0 = q * 2 ^ (64 - count) + r" unfolding q_def r_def by (rule div_split_pow)
    have "uint a0 * 2 ^ count mod 2 ^ 64 = r * 2 ^ count"
      unfolding p r_def by (simp only: mult_mod_left mult.commute [of "2 ^ count" "2 ^ (64 - count)"])
    moreover have "(uint a64 * 2 ^ count + q) * 2 ^ 64 + r * 2 ^ count = (uint a64 * 2 ^ 64 + uint a0) * 2 ^ count"
      unfolding a0 p by (simp add: algebra_simps)
    ultimately show ?thesis unfolding val128_def q_def [symmetric] by simp
  qed
  finally show ?thesis .
qed

lemma even_high: "even (h * 2 ^ 64 + l) \<longleftrightarrow> even l" for h l :: int
  by simp

lemma val128_or_of_bool:
  "val128 h (l OR of_bool b) = val128 h l + of_bool (b \<and> even (val128 h l))"
  by (simp add: val128_def uint_or_of_bool)

theorem shiftRightJam128_correct:
  assumes "1 \<le> count"
  shows "u128 (softfloat_shiftRightJam128 a64 a0 count) = jam (val128 a64 a0) count"
proof -
  consider (short) "count < 64" | (long) "64 \<le> count" "count < 127" | (all) "127 \<le> count" by linarith
  then show ?thesis
  proof cases
    case short
    then have "push_bit (neg_and 64 count) a0 \<noteq> 0 \<longleftrightarrow> val128 a64 a0 mod 2 ^ count \<noteq> 0"
      using push_low_nonzero [of count a0] assms by (simp add: neg_and_less val128_shift)
    with short assms show ?thesis
      unfolding u128_val softfloat_shiftRightJam128_def
      by (simp add: val128_or_of_bool val128_shift neg_and_less jam_def conj_commute
          flip: or.assoc split del: split_of_bool)
  next
    case long
    define d where "d = count - 64"
    have d: "count = 64 + d" "count mod 64 = d" "d < 63" using long by (auto simp: d_def mod_if)
    have div: "val128 a64 a0 div 2 ^ count = uint a64 div 2 ^ d"
      using uint_lt2p [of a0]
      by (simp add: d val128_def power_add zdiv_zmult2_eq)
    have "val128 a64 a0 mod 2 ^ count = 2 ^ 64 * (uint a64 mod 2 ^ d) + uint a0"
      using uint_lt2p [of a0]
      by (simp add: d val128_def power_add zmod_zmult2_eq)
    moreover have "(a64 AND (push_bit d 1 - 1)) OR a0 \<noteq> 0 \<longleftrightarrow> uint a64 mod 2 ^ d \<noteq> 0 \<or> a0 \<noteq> 0"
      using mask_word_nonzero [of a64 d] by (simp add: or_eq_0_iff)
    ultimately have nz: "(a64 AND (push_bit d 1 - 1)) OR a0 \<noteq> 0 \<longleftrightarrow> val128 a64 a0 mod 2 ^ count \<noteq> 0"
      by (auto simp: add_nonneg_eq_0_iff uint_0_iff)
    have "u128 (softfloat_shiftRightJam128 a64 a0 count) =
        uint (drop_bit d a64 OR of_bool ((a64 AND (push_bit d 1 - 1)) OR a0 \<noteq> 0))"
      using long d by (simp add: u128_def softfloat_shiftRightJam128_def)
    also have "\<dots> = jam (val128 a64 a0) count"
      unfolding uint_or_of_bool nz jam_def div uint_drop_bit_div by (simp add: conj_commute)
    finally show ?thesis .
  next
    case all
    then have "(2::int) ^ 128 \<le> 2 ^ Suc count" by (intro power_increasing) auto
    then have "val128 a64 a0 < 2 ^ Suc count" using val128_bounds(2) [of a64 a0] by simp
    with all show ?thesis
      by (auto simp: u128_def softfloat_shiftRightJam128_def jam_sticky val128_bounds val128_eq_0 or_eq_0_iff)
  qed
qed

lemma uint_mul32: "uint (ucast a * ucast b :: u64) = uint a * uint b" for a b :: u32
proof -
  have "uint a * uint b < 2 ^ 32 * 2 ^ 32"
    using uint_lt2p [of a] uint_lt2p [of b] by (intro mult_strict_mono) simp_all
  then show ?thesis by (simp add: uint_word_ariths)
qed

lemma uint_halves:
  "uint (ucast (drop_bit 32 a) :: u32) = uint a div 2 ^ 32" "uint (ucast a :: u32) = uint a mod 2 ^ 32"
  for a :: u64
  using uint_bounds_64 [of a] int_div_less [of "uint a" "2 ^ 32" "2 ^ 32"]
  by (simp_all add: word_int pos_imp_zdiv_nonneg_iff)

lemma uint_push32: "uint (push_bit 32 m) = uint m mod 2 ^ 32 * 2 ^ 32" for m :: u64
  using uint_push_low [of 32 m] by simp

lemma val128_product:
  fixes h m z0 :: int
  assumes "0 \<le> z0" "z0 < 2 ^ 64" "0 \<le> p" "p < 2 ^ 128" "h * 2 ^ 64 + z0 = p"
  shows "h mod 2 ^ 64 * 2 ^ 64 + z0 = p"
  using high_low_mod [OF assms(1,2), of h] assms by simp

lemma product_bound: "uint a * uint b < 2 ^ 128" "0 \<le> uint a * uint b" for a b :: u64
proof -
  have "uint a * uint b < 2 ^ 64 * 2 ^ 64"
    using uint_lt2p [of a] uint_lt2p [of b] by (intro mult_strict_mono) simp_all
  then show "uint a * uint b < 2 ^ 128" by simp
qed simp

lemma weave: "(k + x div 2 ^ 32) * 2 ^ 64 + x mod 2 ^ 32 * 2 ^ 32 = (k * 2 ^ 32 + x) * 2 ^ 32" for k x :: int
proof -
  define q r where "q = x div 2 ^ 32" and "r = x mod 2 ^ 32"
  have x: "x = q * 2 ^ 32 + r" unfolding q_def r_def by (rule div_split_pow)
  show ?thesis unfolding q_def [symmetric] r_def [symmetric] unfolding x by (simp add: algebra_simps)
qed

lemma assemble:
  fixes m z :: int
  assumes m: "m + 2 ^ 64 * c1 = a1 * b0 + a0 * b1" and z: "z + 2 ^ 64 * c2 = m mod 2 ^ 32 * 2 ^ 32 + a0 * b0"
  shows "(a1 * b1 + (2 ^ 32 * c1 + m div 2 ^ 32) + c2) * 2 ^ 64 + z = (a1 * 2 ^ 32 + a0) * (b1 * 2 ^ 32 + b0)"
proof -
  have "(a1 * b1 + (2 ^ 32 * c1 + m div 2 ^ 32) + c2) * 2 ^ 64 + z =
      (a1 * b1 + 2 ^ 32 * c1 + m div 2 ^ 32) * 2 ^ 64 + m mod 2 ^ 32 * 2 ^ 32 + a0 * b0"
    using z by (simp add: algebra_simps)
  also have "\<dots> = (a1 * b1 * 2 ^ 32 + (m + 2 ^ 64 * c1)) * 2 ^ 32 + a0 * b0"
    unfolding weave by (simp add: algebra_simps)
  also have "\<dots> = (a1 * 2 ^ 32 + a0) * (b1 * 2 ^ 32 + b0)"
    unfolding m by (simp add: algebra_simps)
  finally show ?thesis .
qed

theorem mul64ByShifted32To128_correct:
  "u128 (softfloat_mul64ByShifted32To128 a b) = uint a * (uint b * 2 ^ 32)"
proof -
  define h l where "h = uint a div 2 ^ 32" and "l = uint a mod 2 ^ 32"
  have a: "uint a = h * 2 ^ 32 + l"
    unfolding h_def l_def by (rule div_split_pow)
  define mid where "mid = (ucast (ucast a :: u32) * ucast b :: u64)"
  have mid: "uint mid = l * uint b" unfolding mid_def uint_mul32 uint_halves l_def ..
  have "uint (ucast (ucast (drop_bit 32 a) :: u32) * ucast b + drop_bit 32 mid) =
      (h * uint b + uint mid div 2 ^ 32) mod 2 ^ 64"
    by (simp add: uint_word_ariths(1) uint_mul32 uint_halves(1) h_def uint_drop_bit_div)
  then have "u128 (softfloat_mul64ByShifted32To128 a b) =
      (h * uint b + uint mid div 2 ^ 32) mod 2 ^ 64 * 2 ^ 64 + uint mid mod 2 ^ 32 * 2 ^ 32"
    unfolding softfloat_mul64ByShifted32To128_def u128_def Let_def mid_def [symmetric]
    by (simp add: uint_push32)
  also have "\<dots> = uint a * (uint b * 2 ^ 32)"
  proof (rule val128_product)
    have "uint b * 2 ^ 32 < 2 ^ 64" using uint_bounds_32 [of b] by simp
    then have "uint a * (uint b * 2 ^ 32) < 2 ^ 64 * 2 ^ 64"
      using uint_lt2p [of a] by (intro mult_strict_mono) simp_all
    then show "uint a * (uint b * 2 ^ 32) < 2 ^ 128" by simp
    have "uint mid mod 2 ^ 32 < 2 ^ 32" by simp
    then show "uint mid mod 2 ^ 32 * 2 ^ 32 < 2 ^ 64" by simp
    show "(h * uint b + uint mid div 2 ^ 32) * 2 ^ 64 + uint mid mod 2 ^ 32 * 2 ^ 32 =
        uint a * (uint b * 2 ^ 32)"
      unfolding weave a mid by (simp add: algebra_simps)
  qed simp_all
  finally show ?thesis .
qed

theorem mul64To128_correct: "u128 (softfloat_mul64To128 a b) = uint a * uint b"
proof -
  define a1 a0 where "a1 = (ucast (drop_bit 32 a) :: u32)" and "a0 = (ucast a :: u32)"
  define b1 b0 where "b1 = (ucast (drop_bit 32 b) :: u32)" and "b0 = (ucast b :: u32)"
  have a: "uint a = uint a1 * 2 ^ 32 + uint a0" and b: "uint b = uint b1 * 2 ^ 32 + uint b0"
    unfolding a1_def a0_def b1_def b0_def uint_halves(1) unfolding uint_halves(2) by (rule div_split_pow)+
  define mid1 where "mid1 = (ucast a1 * ucast b0 :: u64)"
  define mid where "mid = mid1 + ucast a0 * ucast b1"
  define c1 where "c1 = (mid < mid1)"
  define mlow where "mlow = push_bit 32 mid"
  define z0 where "z0 = ucast a0 * ucast b0 + mlow"
  define c2 where "c2 = (z0 < mlow)"
  have m1: "uint mid1 = uint a1 * uint b0" unfolding mid1_def by (rule uint_mul32)
  have m: "uint mid + 2 ^ 64 * of_bool c1 = uint a1 * uint b0 + uint a0 * uint b1"
    unfolding c1_def mid_def uint_plus_carry m1 uint_mul32 by simp
  have ml: "uint mlow = uint mid mod 2 ^ 32 * 2 ^ 32" unfolding mlow_def by (rule uint_push32)
  have z: "uint z0 + 2 ^ 64 * of_bool c2 = uint mid mod 2 ^ 32 * 2 ^ 32 + uint a0 * uint b0"
    unfolding c2_def z0_def add.commute [of _ mlow] uint_plus_carry ml uint_mul32 by simp
  have carry: "uint (push_bit 32 (of_bool c1) OR drop_bit 32 mid) = 2 ^ 32 * of_bool c1 + uint mid div 2 ^ 32"
    using or_shifted64 [of 32 "of_bool c1" mid] by simp
  have "uint (ucast a1 * ucast b1 + (push_bit 32 (of_bool c1) OR drop_bit 32 mid) + of_bool c2) =
      (uint a1 * uint b1 + (2 ^ 32 * of_bool c1 + uint mid div 2 ^ 32) + of_bool c2) mod 2 ^ 64"
    unfolding uint_word_ariths(1) uint_mul32 carry by (simp add: mod_simps)
  moreover have "softfloat_mul64To128 a b =
      \<lparr>v64 = ucast a1 * ucast b1 + (push_bit 32 (of_bool c1) OR drop_bit 32 mid) + of_bool c2, v0 = z0\<rparr>"
    unfolding softfloat_mul64To128_def Let_def c1_def c2_def z0_def mlow_def mid_def mid1_def
      a1_def a0_def b1_def b0_def ..
  ultimately have "u128 (softfloat_mul64To128 a b) =
      (uint a1 * uint b1 + (2 ^ 32 * of_bool c1 + uint mid div 2 ^ 32) + of_bool c2) mod 2 ^ 64 * 2 ^ 64 + uint z0"
    by (simp only: u128_def uint128.simps)
  also have "\<dots> = uint a * uint b"
  proof (rule val128_product)
    show "(uint a1 * uint b1 + (2 ^ 32 * of_bool c1 + uint mid div 2 ^ 32) + of_bool c2) * 2 ^ 64 +
        uint z0 = uint a * uint b"
      unfolding a b using m z by (rule assemble)
  qed (use uint_lt2p [of z0] product_bound [of a b] in simp_all)
  finally show ?thesis .
qed

end
