(* ===== verification/SF_RoundPack.thy ===== *)
theory SF_RoundPack
  imports FP_Format SF_Primitives
begin

text \<open>
  Normalising, rounding and packing (\<open>s_normSubnormalF*Sig.c\<close>, \<open>s_roundPackToF*.c\<close>,
  \<open>s_normRoundPackToF*.c\<close>), through which every arithmetic result passes.  \<open>f32_round\<close> and
  \<open>f64_round\<close> are the abstract specification: a sign and an exact positive real give the
  packed result and the raised flags; the theorems say that the packing routines refine it.
  The small unsigned types the code uses for the round bits and the increment are taken at
  the width of the significand (their values stay below \<open>2 ^ 10\<close>).
\<close>

section \<open>Definitions\<close>

definition softfloat_normSubnormalF32Sig :: "u32 \<Rightarrow> int \<times> u32" where
  "softfloat_normSubnormalF32Sig sig =
     (let shiftCount = int (softfloat_countLeadingZeros32 sig) - 8
      in (1 - shiftCount, push_bit (nat shiftCount) sig))"

definition softfloat_normSubnormalF64Sig :: "u64 \<Rightarrow> int \<times> u64" where
  "softfloat_normSubnormalF64Sig sig =
     (let shiftCount = int (softfloat_countLeadingZeros64 sig) - 11
      in (1 - shiftCount, push_bit (nat shiftCount) sig))"

definition softfloat_roundPackToF32 :: "bool \<Rightarrow> int \<Rightarrow> u32 \<Rightarrow> sf_state \<Rightarrow> float32 \<times> sf_state" where
  "softfloat_roundPackToF32 sign expn sig st =
     (let roundingMode = softfloat_roundingMode st;
          roundNearEven = (roundingMode = softfloat_round_near_even);
          roundIncrement =
            (if \<not> roundNearEven \<and> roundingMode \<noteq> softfloat_round_near_maxMag
             then (if roundingMode = (if sign then softfloat_round_min else softfloat_round_max)
                   then 0x7F else 0)
             else 0x40);
          finish = (\<lambda>expn sig roundBits st.
            let st = (if roundBits \<noteq> 0 then softfloat_raiseFlags softfloat_flag_inexact st else st);
                sig = drop_bit 7 (sig + roundIncrement);
                sig = sig AND NOT (of_bool (roundBits XOR 0x40 = 0 \<and> roundNearEven))
            in (packToF32UI sign (if sig \<noteq> 0 then expn else 0) sig, st))
      in if 0xFD \<le> (word_of_int expn :: u16)
         then if expn < 0
              then let isTiny = (softfloat_detectTininess st = softfloat_tininess_beforeRounding
                                   \<or> expn < -1 \<or> sig + roundIncrement < 0x80000000);
                       sig = softfloat_shiftRightJam32 sig (nat (- expn));
                       roundBits = sig AND 0x7F;
                       st = (if isTiny \<and> roundBits \<noteq> 0
                             then softfloat_raiseFlags softfloat_flag_underflow st else st)
                   in finish 0 sig roundBits st
              else if 0xFD < expn \<or> 0x80000000 \<le> sig + roundIncrement
              then (packToF32UI sign 0xFF 0 - of_bool (roundIncrement = 0),
                    softfloat_raiseFlags (softfloat_flag_overflow OR softfloat_flag_inexact) st)
              else finish expn sig (sig AND 0x7F) st
         else finish expn sig (sig AND 0x7F) st)"

definition softfloat_roundPackToF64 :: "bool \<Rightarrow> int \<Rightarrow> u64 \<Rightarrow> sf_state \<Rightarrow> float64 \<times> sf_state" where
  "softfloat_roundPackToF64 sign expn sig st =
     (let roundingMode = softfloat_roundingMode st;
          roundNearEven = (roundingMode = softfloat_round_near_even);
          roundIncrement =
            (if \<not> roundNearEven \<and> roundingMode \<noteq> softfloat_round_near_maxMag
             then (if roundingMode = (if sign then softfloat_round_min else softfloat_round_max)
                   then 0x3FF else 0)
             else 0x200);
          finish = (\<lambda>expn sig roundBits st.
            let st = (if roundBits \<noteq> 0 then softfloat_raiseFlags softfloat_flag_inexact st else st);
                sig = drop_bit 10 (sig + roundIncrement);
                sig = sig AND NOT (of_bool (roundBits XOR 0x200 = 0 \<and> roundNearEven))
            in (packToF64UI sign (if sig \<noteq> 0 then expn else 0) sig, st))
      in if 0x7FD \<le> (word_of_int expn :: u16)
         then if expn < 0
              then let isTiny = (softfloat_detectTininess st = softfloat_tininess_beforeRounding
                                   \<or> expn < -1 \<or> sig + roundIncrement < 0x8000000000000000);
                       sig = softfloat_shiftRightJam64 sig (nat (- expn));
                       roundBits = sig AND 0x3FF;
                       st = (if isTiny \<and> roundBits \<noteq> 0
                             then softfloat_raiseFlags softfloat_flag_underflow st else st)
                   in finish 0 sig roundBits st
              else if 0x7FD < expn \<or> 0x8000000000000000 \<le> sig + roundIncrement
              then (packToF64UI sign 0x7FF 0 - of_bool (roundIncrement = 0),
                    softfloat_raiseFlags (softfloat_flag_overflow OR softfloat_flag_inexact) st)
              else finish expn sig (sig AND 0x3FF) st
         else finish expn sig (sig AND 0x3FF) st)"

definition softfloat_normRoundPackToF32 :: "bool \<Rightarrow> int \<Rightarrow> u32 \<Rightarrow> sf_state \<Rightarrow> float32 \<times> sf_state" where
  "softfloat_normRoundPackToF32 sign expn sig st =
     (let shiftCount = int (softfloat_countLeadingZeros32 sig) - 1;
          expn = expn - shiftCount
      in if 7 \<le> shiftCount \<and> (word_of_int expn :: u16) < 0xFD
         then (packToF32UI sign (if sig \<noteq> 0 then expn else 0) (push_bit (nat (shiftCount - 7)) sig), st)
         else softfloat_roundPackToF32 sign expn (push_bit (nat shiftCount) sig) st)"

definition softfloat_normRoundPackToF64 :: "bool \<Rightarrow> int \<Rightarrow> u64 \<Rightarrow> sf_state \<Rightarrow> float64 \<times> sf_state" where
  "softfloat_normRoundPackToF64 sign expn sig st =
     (let shiftCount = int (softfloat_countLeadingZeros64 sig) - 1;
          expn = expn - shiftCount
      in if 10 \<le> shiftCount \<and> (word_of_int expn :: u16) < 0x7FD
         then (packToF64UI sign (if sig \<noteq> 0 then expn else 0) (push_bit (nat (shiftCount - 10)) sig), st)
         else softfloat_roundPackToF64 sign expn (push_bit (nat shiftCount) sig) st)"

section \<open>The abstract specification\<close>

interpretation b32: binary_format 23 127 by unfold_locales simp_all
interpretation b64: binary_format 52 1023 by unfold_locales simp_all

definition f32_round :: "sf_state \<Rightarrow> bool \<Rightarrow> real \<Rightarrow> float32 \<times> sf_state" where
  "f32_round st sign v =
     (word_of_int (of_bool sign * 2 ^ 31 + fp_round_mag 23 127 (softfloat_roundingMode st) sign v),
      softfloat_raiseFlags
        (fp_round_flags 23 127 (softfloat_detectTininess st = softfloat_tininess_beforeRounding)
           (softfloat_roundingMode st) sign v) st)"

definition f64_round :: "sf_state \<Rightarrow> bool \<Rightarrow> real \<Rightarrow> float64 \<times> sf_state" where
  "f64_round st sign v =
     (word_of_int (of_bool sign * 2 ^ 63 + fp_round_mag 52 1023 (softfloat_roundingMode st) sign v),
      softfloat_raiseFlags
        (fp_round_flags 52 1023 (softfloat_detectTininess st = softfloat_tininess_beforeRounding)
           (softfloat_roundingMode st) sign v) st)"

section \<open>Rounding and packing\<close>

lemma u16_range_check:
  assumes "- 32768 \<le> e" "e < 32768" "0 \<le> k" "k < 32768"
  shows "word_of_int k \<le> (word_of_int e :: u16) \<longleftrightarrow> e < 0 \<or> k \<le> e"
proof -
  have "e mod 65536 = (if e < 0 then e + 65536 else e)"
  proof (cases "e < 0")
    case True
    then have "(e + 65536) mod 65536 = e + 65536" using assms by (intro mod_pos_pos_trivial) auto
    then show ?thesis using True by simp
  qed (use assms in simp)
  moreover have "uint (word_of_int e :: u16) = e mod 65536" by (simp add: uint_word_of_int)
  moreover have "uint (word_of_int k :: u16) = k" using assms by (simp add: uint_word_of_int)
  ultimately show ?thesis using assms by (auto simp: word_le_def)
qed

text \<open>The increment of the code is \<open>round_incr\<close> with the guard bits of the format.\<close>

lemma round_incr_word32:
  "(if rm \<noteq> softfloat_round_near_even \<and> rm \<noteq> softfloat_round_near_maxMag
    then (if rm = (if sign then softfloat_round_min else softfloat_round_max) then 0x7F else 0)
    else 0x40) = (word_of_int (round_incr 7 rm sign) :: u32)"
  by (auto simp: round_incr_def)

lemma round_incr_word64:
  "(if rm \<noteq> softfloat_round_near_even \<and> rm \<noteq> softfloat_round_near_maxMag
    then (if rm = (if sign then softfloat_round_min else softfloat_round_max) then 0x3FF else 0)
    else 0x200) = (word_of_int (round_incr 10 rm sign) :: u64)"
  by (auto simp: round_incr_def)

lemma xor_eq_0_iff: "a XOR b = 0 \<longleftrightarrow> a = b" for a b :: "'a::len word"
  by (metis xor_self_eq xor.assoc xor.right_neutral)

text \<open>Adding the increment, dropping the guard bits and clearing the last bit of a tie.\<close>

lemma round_word:
  fixes sig :: "'a::len word"
  assumes "uint sig + round_incr (Suc h) rm s < 2 ^ LENGTH('a)" "Suc h < LENGTH('a)"
    "I = word_of_int (round_incr (Suc h) rm s)" "B = sig AND mask (Suc h)"
  shows "uint (drop_bit (Suc h) (sig + I)
      AND NOT (of_bool (B XOR push_bit h 1 = 0 \<and> rm = softfloat_round_near_even))) =
    round_int (Suc h) rm s (uint sig)"
proof -
  have I0: "0 \<le> round_incr (Suc h) rm s" by (simp add: round_incr_def)
  have I1: "round_incr (Suc h) rm s < 2 ^ LENGTH('a)" using assms(1) uint_ge_0 [of sig] by linarith
  then have "uint (sig + I) = uint sig + round_incr (Suc h) rm s"
    using assms I0 by (simp add: uint_word_ariths uint_word_of_int)
  then have d: "uint (drop_bit (Suc h) (sig + I)) = (uint sig + round_incr (Suc h) rm s) div 2 ^ Suc h"
    by (simp only: uint_drop_bit_div)
  have "uint B = uint sig mod 2 ^ Suc h" unfolding assms(4) by (rule uint_and_mask)
  moreover have "uint (push_bit h 1 :: 'a word) = 2 ^ h"
    using uint_push_bit_small [of "1 :: 'a word" h] assms(2) by simp
  ultimately have "B XOR push_bit h 1 = 0 \<longleftrightarrow> uint sig mod 2 ^ Suc h = 2 ^ h"
    unfolding xor_eq_0_iff using word_uint_eq_iff [of B "push_bit h 1"] by metis
  then show ?thesis
    unfolding uint_and_not_of_bool d round_int_def Let_def by (simp add: conj_ac)
qed

lemma raise_if:
  "(if b then softfloat_raiseFlags f st else st) = softfloat_raiseFlags (if b then f else 0) st"
  by simp

lemma uint_of_int32: "uint (word_of_int k :: u32) = k mod 2 ^ 32"
  and uint_of_int64: "uint (word_of_int k :: u64) = k mod 2 ^ 64"
  by (simp_all add: uint_word_of_int)

lemma packToF32UI_word: "packToF32UI s e f = word_of_int (of_bool s * 2 ^ 31 + e * 2 ^ 23 + uint f)"
  by (simp only: word_uint_eq_iff packToF32UI_int uint_of_int32)

lemma packToF64UI_word: "packToF64UI s e f = word_of_int (of_bool s * 2 ^ 63 + e * 2 ^ 52 + uint f)"
  by (simp only: word_uint_eq_iff packToF64UI_int uint_of_int64)

lemma word_zero_uint: "w = 0 \<longleftrightarrow> uint w = 0" for w :: "'a::len word"
  by (simp add: uint_0_iff)

section \<open>Refinement of the specification\<close>

lemma round_finish32:
  assumes "uint sig < 2 ^ 31" "0 \<le> e"
    "2 ^ 30 \<le> uint sig \<or> e = 0" "I = word_of_int (round_incr 7 rm s)"
  shows "packToF32UI s
      (if drop_bit 7 (sig + I) AND NOT (of_bool ((sig AND 0x7F) XOR 0x40 = 0 \<and> rm = softfloat_round_near_even)) \<noteq> 0
       then e else 0)
      (drop_bit 7 (sig + I) AND NOT (of_bool ((sig AND 0x7F) XOR 0x40 = 0 \<and> rm = softfloat_round_near_even))) =
    word_of_int (of_bool s * 2 ^ 31 + (e * 2 ^ 23 + round_int 7 rm s (uint sig)))"
    (is "packToF32UI s (if ?z \<noteq> 0 then e else 0) ?z = _")
proof -
  have "round_incr 7 rm s < 2 ^ 7" using b32.round_incr_bounds [of 6 rm s] by simp
  then have z: "uint ?z = round_int 7 rm s (uint sig)"
    using round_word [of sig 6 rm s I "sig AND 0x7F"] assms
    by (simp add: mask_eq_exp_minus_1)
  have "?z \<noteq> 0 \<or> e = 0"
  proof (cases "e = 0")
    case False
    then have "2 ^ 23 \<le> uint ?z"
      using b32.round_int_low [of 6 "uint sig" rm s] assms(3) unfolding z by simp
    then show ?thesis by auto
  qed simp
  then have "(if ?z \<noteq> 0 then e else 0) = e" by auto
  then show ?thesis
    by (simp only: packToF32UI_word z add.assoc)
qed

theorem roundPackToF32_refines:
  assumes c: "cell 6 (of_int (uint sig)) x" and sig: "2 ^ 30 \<le> uint sig" "uint sig < 2 ^ 31"
    and e: "- 32768 \<le> e" "e < 32768"
  shows "softfloat_roundPackToF32 s e sig st = f32_round st s (fp_scaled 23 127 6 e x)"
proof -
  define rm where "rm = softfloat_roundingMode st"
  define I where "I = (word_of_int (round_incr 7 rm s) :: u32)"
  define before where "before = (softfloat_detectTininess st = softfloat_tininess_beforeRounding)"
  have incr: "0 \<le> round_incr 7 rm s" "round_incr 7 rm s < 2 ^ 7"
    using b32.round_incr_bounds [of 6 rm s] by simp_all
  then have I: "uint I = round_incr 7 rm s" by (simp add: I_def uint_word_of_int)
  then have sum: "uint (sig + I) = uint sig + round_incr 7 rm s"
    using incr sig by (simp add: uint_word_ariths)
  define j where "j = jam (uint sig) (nat (- e))"
  define sig' where "sig' = softfloat_shiftRightJam32 sig (nat (- e))"
  have n: "2 ^ (23 + 6 + 1) \<le> uint sig" "uint sig < 2 ^ (23 + 6 + 2)" using sig by simp_all
  note spec = b32.round_int_spec(1) [OF c _ n, where e = e and rm = rm and s = s, folded j_def, simplified]
    b32.round_int_spec(2) [OF c _ n, where e = e and rm = rm and s = s and before = before, folded j_def, simplified]
  have rhs: "f32_round st s (fp_scaled 23 127 6 e x) =
      (word_of_int (of_bool s * 2 ^ 31 + fp_round_mag 23 127 rm s (fp_scaled 23 127 6 e x)),
       softfloat_raiseFlags (fp_round_flags 23 127 before rm s (fp_scaled 23 127 6 e x)) st)"
    unfolding f32_round_def rm_def before_def ..
  have chk: "0xFD \<le> (word_of_int e :: u16) \<longleftrightarrow> e < 0 \<or> 253 \<le> e"
    using u16_range_check [of e 253] e by simp
  have big: "0x80000000 \<le> sig + I \<longleftrightarrow> 2 ^ 31 \<le> uint sig + round_incr 7 rm s"
    "sig + I < 0x80000000 \<longleftrightarrow> uint sig + round_incr 7 rm s < 2 ^ 31"
    using sum by (simp_all add: word_le_def word_less_def)
  have I0: "I = 0 \<longleftrightarrow> round_incr 7 rm s = 0" using I by (simp add: word_zero_uint)
  have rb: "w AND 0x7F = 0 \<longleftrightarrow> uint w mod 2 ^ 7 = 0" for w :: u32
    using uint_and_mask [of w 7] by (simp add: word_zero_uint mask_eq_exp_minus_1)
  show ?thesis
  proof (cases "e < 0")
    case True
    have j: "uint sig' = j" unfolding sig'_def j_def using True by (intro shiftRightJam32_correct) simp
    have "j \<le> uint sig div 2 ^ nat (- e) + 1" unfolding j_def by (rule jam_bounds)
    also have "\<dots> \<le> uint sig div 2 ^ 1 + 1"
      using True by (intro add_right_mono zdiv_mono2 power_increasing) simp_all
    also have "\<dots> < 2 ^ 31" using sig by simp
    finally have "uint sig' < 2 ^ 31" unfolding j .
    note fin = round_finish32 [OF this order_refl disjI2 [OF refl] I_def, unfolded j]
    show ?thesis
      unfolding rhs spec softfloat_roundPackToF32_def Let_def rm_def [symmetric] before_def [symmetric]
        round_incr_word32 I_def [symmetric] sig'_def [symmetric]
      by (simp only: True chk fin rb big raise_if raiseFlags_raiseFlags if_True simp_thms) (simp add: j)
  next
    case False
    then have e0: "0 \<le> e" by simp
    note fin = round_finish32 [OF sig(2) e0 disjI1 [OF sig(1)] I_def]
    have top: "packToF32UI s 0xFF 0 - of_bool b =
        word_of_int (of_bool s * 2 ^ 31 + (2139095040 - of_bool b))" for b
      unfolding packToF32UI_word by simp
    show ?thesis
      unfolding rhs spec softfloat_roundPackToF32_def Let_def rm_def [symmetric] before_def [symmetric]
        round_incr_word32 I_def [symmetric]
      by (cases "253 < e \<or> (e = 253 \<and> 2 ^ 31 \<le> uint sig + round_incr 7 rm s)";
          simp only: False chk fin rb big I0 top raise_if raiseFlags_raiseFlags if_False simp_thms)
        auto
  qed
qed

lemma round_finish64:
  assumes "uint sig < 2 ^ 63" "0 \<le> e"
    "2 ^ 62 \<le> uint sig \<or> e = 0" "I = word_of_int (round_incr 10 rm s)"
  shows "packToF64UI s
      (if drop_bit 10 (sig + I) AND NOT (of_bool ((sig AND 0x3FF) XOR 0x200 = 0 \<and> rm = softfloat_round_near_even)) \<noteq> 0
       then e else 0)
      (drop_bit 10 (sig + I) AND NOT (of_bool ((sig AND 0x3FF) XOR 0x200 = 0 \<and> rm = softfloat_round_near_even))) =
    word_of_int (of_bool s * 2 ^ 63 + (e * 2 ^ 52 + round_int 10 rm s (uint sig)))"
    (is "packToF64UI s (if ?z \<noteq> 0 then e else 0) ?z = _")
proof -
  have "round_incr 10 rm s < 2 ^ 10" using b64.round_incr_bounds [of 9 rm s] by simp
  then have z: "uint ?z = round_int 10 rm s (uint sig)"
    using round_word [of sig 9 rm s I "sig AND 0x3FF"] assms
    by (simp add: mask_eq_exp_minus_1)
  have "?z \<noteq> 0 \<or> e = 0"
  proof (cases "e = 0")
    case False
    then have "2 ^ 52 \<le> uint ?z"
      using b64.round_int_low [of 9 "uint sig" rm s] assms(3) unfolding z by simp
    then show ?thesis by auto
  qed simp
  then have "(if ?z \<noteq> 0 then e else 0) = e" by auto
  then show ?thesis
    by (simp only: packToF64UI_word z add.assoc)
qed

theorem roundPackToF64_refines:
  assumes c: "cell 9 (of_int (uint sig)) x" and sig: "2 ^ 62 \<le> uint sig" "uint sig < 2 ^ 63"
    and e: "- 32768 \<le> e" "e < 32768"
  shows "softfloat_roundPackToF64 s e sig st = f64_round st s (fp_scaled 52 1023 9 e x)"
proof -
  define rm where "rm = softfloat_roundingMode st"
  define I where "I = (word_of_int (round_incr 10 rm s) :: u64)"
  define before where "before = (softfloat_detectTininess st = softfloat_tininess_beforeRounding)"
  have incr: "0 \<le> round_incr 10 rm s" "round_incr 10 rm s < 2 ^ 10"
    using b64.round_incr_bounds [of 9 rm s] by simp_all
  then have I: "uint I = round_incr 10 rm s" by (simp add: I_def uint_word_of_int)
  then have sum: "uint (sig + I) = uint sig + round_incr 10 rm s"
    using incr sig by (simp add: uint_word_ariths)
  define j where "j = jam (uint sig) (nat (- e))"
  define sig' where "sig' = softfloat_shiftRightJam64 sig (nat (- e))"
  have n: "2 ^ (52 + 9 + 1) \<le> uint sig" "uint sig < 2 ^ (52 + 9 + 2)" using sig by simp_all
  note spec = b64.round_int_spec(1) [OF c _ n, where e = e and rm = rm and s = s, folded j_def, simplified]
    b64.round_int_spec(2) [OF c _ n, where e = e and rm = rm and s = s and before = before, folded j_def, simplified]
  have rhs: "f64_round st s (fp_scaled 52 1023 9 e x) =
      (word_of_int (of_bool s * 2 ^ 63 + fp_round_mag 52 1023 rm s (fp_scaled 52 1023 9 e x)),
       softfloat_raiseFlags (fp_round_flags 52 1023 before rm s (fp_scaled 52 1023 9 e x)) st)"
    unfolding f64_round_def rm_def before_def ..
  have chk: "0x7FD \<le> (word_of_int e :: u16) \<longleftrightarrow> e < 0 \<or> 2045 \<le> e"
    using u16_range_check [of e 2045] e by simp
  have big: "0x8000000000000000 \<le> sig + I \<longleftrightarrow> 2 ^ 63 \<le> uint sig + round_incr 10 rm s"
    "sig + I < 0x8000000000000000 \<longleftrightarrow> uint sig + round_incr 10 rm s < 2 ^ 63"
    using sum by (simp_all add: word_le_def word_less_def)
  have I0: "I = 0 \<longleftrightarrow> round_incr 10 rm s = 0" using I by (simp add: word_zero_uint)
  have rb: "w AND 0x3FF = 0 \<longleftrightarrow> uint w mod 2 ^ 10 = 0" for w :: u64
    using uint_and_mask [of w 10] by (simp add: word_zero_uint mask_eq_exp_minus_1)
  show ?thesis
  proof (cases "e < 0")
    case True
    have j: "uint sig' = j" unfolding sig'_def j_def using True by (intro shiftRightJam64_correct) simp
    have "j \<le> uint sig div 2 ^ nat (- e) + 1" unfolding j_def by (rule jam_bounds)
    also have "\<dots> \<le> uint sig div 2 ^ 1 + 1"
      using True by (intro add_right_mono zdiv_mono2 power_increasing) simp_all
    also have "\<dots> < 2 ^ 63" using sig by simp
    finally have "uint sig' < 2 ^ 63" unfolding j .
    note fin = round_finish64 [OF this order_refl disjI2 [OF refl] I_def, unfolded j]
    show ?thesis
      unfolding rhs spec softfloat_roundPackToF64_def Let_def rm_def [symmetric] before_def [symmetric]
        round_incr_word64 I_def [symmetric] sig'_def [symmetric]
      by (simp only: True chk fin rb big raise_if raiseFlags_raiseFlags if_True simp_thms) (simp add: j)
  next
    case False
    then have e0: "0 \<le> e" by simp
    note fin = round_finish64 [OF sig(2) e0 disjI1 [OF sig(1)] I_def]
    have top: "packToF64UI s 0x7FF 0 - of_bool b =
        word_of_int (of_bool s * 2 ^ 63 + (9218868437227405312 - of_bool b))" for b
      unfolding packToF64UI_word by simp
    show ?thesis
      unfolding rhs spec softfloat_roundPackToF64_def Let_def rm_def [symmetric] before_def [symmetric]
        round_incr_word64 I_def [symmetric]
      by (cases "2045 < e \<or> (e = 2045 \<and> 2 ^ 63 \<le> uint sig + round_incr 10 rm s)";
          simp only: False chk fin rb big I0 top raise_if raiseFlags_raiseFlags if_False simp_thms)
        auto
  qed
qed

section \<open>Normalising before rounding\<close>

lemma scaled_shift: "fp_scaled fb bias h (e - int d) (x * 2 ^ d) = fp_scaled fb bias h e x"
  by (simp add: fp_scaled_def algebra_simps flip: power_int_of_nat powi_add)

lemma round_int_exact: "round_int (Suc h) rm s (k * 2 ^ Suc h) = k"
proof -
  have "real_of_int (k * 2 ^ Suc h) / 2 ^ Suc h = of_int k" by simp
  then show ?thesis using rnd_round_int [of rm s "k * 2 ^ Suc h" h] by (simp del: power_Suc of_int_mult)
qed

text \<open>The shift that moves the leading bit to its place is unique.\<close>

lemma shift_unique:
  fixes n :: int
  assumes "2 ^ K \<le> n * 2 ^ c" "n * 2 ^ c < 2 ^ Suc K" "2 ^ (K - d) \<le> n" "d \<le> K"
  shows "c \<le> d"
proof (rule ccontr)
  assume "\<not> c \<le> d"
  then have "(2::int) ^ Suc K \<le> 2 ^ (K - d) * 2 ^ c"
    using assms(4) by (simp flip: power_Suc power_add)
  also have "\<dots> \<le> n * 2 ^ c" using assms(3) by (intro mult_right_mono) auto
  finally show False using assms(2) by simp
qed

lemma norm_cell:
  fixes n :: int and x :: real
  assumes c: "(cell h' (of_int n) x \<and> 2 ^ (K - (h - h')) \<le> n \<and> h' \<le> h \<and> h \<le> K) \<or> x = of_int n"
    and n: "2 ^ K \<le> n * 2 ^ d" "n * 2 ^ d < 2 ^ Suc K"
  shows "cell h (of_int (n * 2 ^ d)) (x * 2 ^ d)"
    and "h < d \<Longrightarrow> x = of_int n"
proof -
  have *: "cell h (of_int (n * 2 ^ d)) (x * 2 ^ d) \<and> (h < d \<longrightarrow> x = of_int n)"
  proof (cases "x = of_int n")
    case False
    with c have c': "cell h' (of_int n) x" "2 ^ (K - (h - h')) \<le> n" "h' \<le> h" "h \<le> K" by auto
    then have d: "d \<le> h - h'" by (intro shift_unique [OF n]) auto
    have "cell (h' + d) (of_int (n * 2 ^ d)) (x * 2 ^ d)"
      using cell_scale [OF c'(1), of d] by simp
    then show ?thesis using d c'(3) cell_mono by fastforce
  qed simp
  then show "cell h (of_int (n * 2 ^ d)) (x * 2 ^ d)" "h < d \<Longrightarrow> x = of_int n" by auto
qed

lemma clz32_norm:
  assumes "sig \<noteq> 0" "uint sig < 2 ^ 31"
  obtains d where "int (softfloat_countLeadingZeros32 sig) - 1 = int d"
    "2 ^ 30 \<le> uint sig * 2 ^ d" "uint sig * 2 ^ d < 2 ^ 31"
proof -
  obtain d where "softfloat_countLeadingZeros32 sig = Suc d"
    using countLeadingZeros32_correct [OF assms(1)] assms(2) by (cases "softfloat_countLeadingZeros32 sig") auto
  then show ?thesis using countLeadingZeros32_correct [OF assms(1)] by (intro that [of d]) auto
qed

theorem normRoundPackToF32_refines:
  assumes c: "(cell h (of_int (uint sig)) x \<and> 2 ^ (24 + h) \<le> uint sig \<and> h \<le> 6) \<or> x = of_int (uint sig)"
    and sig: "sig \<noteq> 0" "uint sig < 2 ^ 31" and e: "- 32700 \<le> e" "e < 32768"
  shows "softfloat_normRoundPackToF32 s e sig st = f32_round st s (fp_scaled 23 127 6 e x)"
proof -
  obtain d where d: "int (softfloat_countLeadingZeros32 sig) - 1 = int d"
    "2 ^ 30 \<le> uint sig * 2 ^ d" "uint sig * 2 ^ d < 2 ^ 31"
    using sig by (rule clz32_norm)
  have d31: "d < 31"
  proof (rule ccontr)
    assume "\<not> d < 31"
    then have "(2::int) ^ 31 \<le> 2 ^ d" by (intro power_increasing) auto
    moreover have "1 \<le> uint sig" using sig(1) by (metis word_zero_uint uint_ge_0 int_one_le_iff_zero_less order_le_less)
    ultimately have "1 * 2 ^ 31 \<le> uint sig * 2 ^ d" by (intro mult_mono) auto
    with d(3) show False by simp
  qed
  have K: "(cell h (of_int (uint sig)) x \<and> 2 ^ (30 - (6 - h)) \<le> uint sig \<and> h \<le> 6 \<and> 6 \<le> (30::nat)) \<or> x = of_int (uint sig)"
    using c by (auto simp: add.commute)
  have push: "uint (push_bit d sig) = uint sig * 2 ^ d"
    using d(3) by (intro uint_push_bit_small) simp
  have cell: "cell 6 (of_int (uint (push_bit d sig))) (x * 2 ^ d)"
    unfolding push using norm_cell(1) [OF K d(2)] d(3) by simp
  have n: "2 ^ 30 \<le> uint (push_bit d sig)" "uint (push_bit d sig) < 2 ^ 31"
    unfolding push by (rule d)+
  note v = scaled_shift [of 23 127 6 e d x]
  show ?thesis
  proof (cases "7 \<le> int d \<and> (word_of_int (e - int d) :: u16) < 0xFD")
    case False
    have "softfloat_roundPackToF32 s (e - int d) (push_bit d sig) st = f32_round st s (fp_scaled 23 127 6 e x)"
      using roundPackToF32_refines [OF cell n, of "e - int d" s st] e d31 unfolding v by simp
    then show ?thesis
      unfolding softfloat_normRoundPackToF32_def Let_def d(1) by (simp only: False if_False nat_int)
  next
    case True
    then have e': "0 \<le> e - int d" "e - int d < 253"
      using u16_range_check [of "e - int d" 253] e d31 by (auto simp: not_le [symmetric])
    have sh: "uint sig * 2 ^ d = uint sig * 2 ^ (d - 7) * 2 ^ Suc 6"
    proof -
      have "d = d - 7 + Suc 6" using True by linarith
      then show ?thesis by (metis mult.assoc power_add)
    qed
    have "uint sig * 2 ^ (d - 7) < 2 ^ 24" using d(3) unfolding sh by simp
    then have push': "uint (push_bit (nat (int d - 7)) sig) = uint sig * 2 ^ (d - 7)"
      using True by (subst uint_push_bit_small) (simp_all add: nat_diff_distrib)
    have r: "round_int (Suc 6) rm s (uint (push_bit d sig)) = uint sig * 2 ^ (d - 7)" for rm
      unfolding push sh by (rule round_int_exact)
    have m: "uint (push_bit d sig) mod 2 ^ Suc 6 = 0" unfolding push sh by simp
    have n': "2 ^ (23 + 6 + 1) \<le> uint (push_bit d sig)" "uint (push_bit d sig) < 2 ^ (23 + 6 + 2)"
      using n by simp_all
    have "fp_round_mag 23 127 rm s (fp_scaled 23 127 6 e x) = (e - int d) * 2 ^ 23 + uint sig * 2 ^ (d - 7)"
      "fp_round_flags 23 127 before rm s (fp_scaled 23 127 6 e x) = 0" for rm before
      using b32.round_int_spec [OF cell _ n', where e = "e - int d" and rm = rm and s = s] e'
      unfolding v r m by simp_all
    then show ?thesis
      using True sig(1)
      unfolding softfloat_normRoundPackToF32_def Let_def d(1) f32_round_def packToF32UI_word push'
      by (simp add: add.assoc)
  qed
qed

lemma clz64_norm:
  assumes "sig \<noteq> 0" "uint sig < 2 ^ 63"
  obtains d where "int (softfloat_countLeadingZeros64 sig) - 1 = int d"
    "2 ^ 62 \<le> uint sig * 2 ^ d" "uint sig * 2 ^ d < 2 ^ 63"
proof -
  obtain d where "softfloat_countLeadingZeros64 sig = Suc d"
    using countLeadingZeros64_correct [OF assms(1)] assms(2) by (cases "softfloat_countLeadingZeros64 sig") auto
  then show ?thesis using countLeadingZeros64_correct [OF assms(1)] by (intro that [of d]) auto
qed

theorem normRoundPackToF64_refines:
  assumes c: "(cell h (of_int (uint sig)) x \<and> 2 ^ (53 + h) \<le> uint sig \<and> h \<le> 9) \<or> x = of_int (uint sig)"
    and sig: "sig \<noteq> 0" "uint sig < 2 ^ 63" and e: "- 32700 \<le> e" "e < 32768"
  shows "softfloat_normRoundPackToF64 s e sig st = f64_round st s (fp_scaled 52 1023 9 e x)"
proof -
  obtain d where d: "int (softfloat_countLeadingZeros64 sig) - 1 = int d"
    "2 ^ 62 \<le> uint sig * 2 ^ d" "uint sig * 2 ^ d < 2 ^ 63"
    using sig by (rule clz64_norm)
  have d63: "d < 63"
  proof (rule ccontr)
    assume "\<not> d < 63"
    then have "(2::int) ^ 63 \<le> 2 ^ d" by (intro power_increasing) auto
    moreover have "1 \<le> uint sig" using sig(1) by (metis word_zero_uint uint_ge_0 int_one_le_iff_zero_less order_le_less)
    ultimately have "1 * 2 ^ 63 \<le> uint sig * 2 ^ d" by (intro mult_mono) auto
    with d(3) show False by simp
  qed
  have K: "(cell h (of_int (uint sig)) x \<and> 2 ^ (62 - (9 - h)) \<le> uint sig \<and> h \<le> 9 \<and> 9 \<le> (62::nat)) \<or> x = of_int (uint sig)"
    using c by (auto simp: add.commute)
  have push: "uint (push_bit d sig) = uint sig * 2 ^ d"
    using d(3) by (intro uint_push_bit_small) simp
  have cell: "cell 9 (of_int (uint (push_bit d sig))) (x * 2 ^ d)"
    unfolding push using norm_cell(1) [OF K d(2)] d(3) by simp
  have n: "2 ^ 62 \<le> uint (push_bit d sig)" "uint (push_bit d sig) < 2 ^ 63"
    unfolding push by (rule d)+
  note v = scaled_shift [of 52 1023 9 e d x]
  show ?thesis
  proof (cases "10 \<le> int d \<and> (word_of_int (e - int d) :: u16) < 0x7FD")
    case False
    have "softfloat_roundPackToF64 s (e - int d) (push_bit d sig) st = f64_round st s (fp_scaled 52 1023 9 e x)"
      using roundPackToF64_refines [OF cell n, of "e - int d" s st] e d63 unfolding v by simp
    then show ?thesis
      unfolding softfloat_normRoundPackToF64_def Let_def d(1) by (simp only: False if_False nat_int)
  next
    case True
    then have e': "0 \<le> e - int d" "e - int d < 2045"
      using u16_range_check [of "e - int d" 2045] e d63 by (auto simp: not_le [symmetric])
    have sh: "uint sig * 2 ^ d = uint sig * 2 ^ (d - 10) * 2 ^ Suc 9"
    proof -
      have "d = d - 10 + Suc 9" using True by linarith
      then show ?thesis by (metis mult.assoc power_add)
    qed
    have "uint sig * 2 ^ (d - 10) < 2 ^ 53" using d(3) unfolding sh by simp
    then have push': "uint (push_bit (nat (int d - 10)) sig) = uint sig * 2 ^ (d - 10)"
      using True by (subst uint_push_bit_small) (simp_all add: nat_diff_distrib)
    have r: "round_int (Suc 9) rm s (uint (push_bit d sig)) = uint sig * 2 ^ (d - 10)" for rm
      unfolding push sh by (rule round_int_exact)
    have m: "uint (push_bit d sig) mod 2 ^ Suc 9 = 0" unfolding push sh by simp
    have n': "2 ^ (52 + 9 + 1) \<le> uint (push_bit d sig)" "uint (push_bit d sig) < 2 ^ (52 + 9 + 2)"
      using n by simp_all
    have "fp_round_mag 52 1023 rm s (fp_scaled 52 1023 9 e x) = (e - int d) * 2 ^ 52 + uint sig * 2 ^ (d - 10)"
      "fp_round_flags 52 1023 before rm s (fp_scaled 52 1023 9 e x) = 0" for rm before
      using b64.round_int_spec [OF cell _ n', where e = "e - int d" and rm = rm and s = s] e'
      unfolding v r m by simp_all
    then show ?thesis
      using True sig(1)
      unfolding softfloat_normRoundPackToF64_def Let_def d(1) f64_round_def packToF64UI_word push'
      by (simp add: add.assoc)
  qed
qed

end
