(* ===== verification/SF_Values.thy ===== *)
theory SF_Values
  imports SF_RoundPack
begin

text \<open>
  What a bit pattern stands for.  \<open>f32_val\<close> and \<open>f64_val\<close> read a float that is not a NaN
  as a real number; infinity gets the magnitude its bits would have in a format with one
  more exponent, \<open>2 ^ 128\<close> or \<open>2 ^ 1024\<close>, which is above every finite value.  The locale
  \<open>signed_format\<close> is the interface the comparisons rely on: a sign, magnitude bits and
  their value.  \<open>f32_norm\<close> is the normalised exponent and significand that the arithmetic
  functions compute before they work on an operand.
\<close>

section \<open>Signed values\<close>

locale signed_format = binary_format +
  fixes sgn_of :: "'a \<Rightarrow> bool" and mag_of :: "'a \<Rightarrow> int" and val :: "'a \<Rightarrow> real"
  assumes mag_of_nonneg: "0 \<le> mag_of a"
    and val_mag: "val a = (if sgn_of a then - fp_mag fb bias (mag_of a) else fp_mag fb bias (mag_of a))"
    and bits_eq: "a = b \<longleftrightarrow> sgn_of a = sgn_of b \<and> mag_of a = mag_of b"
begin

lemma val_mag_cases:
  "\<not> sgn_of a \<Longrightarrow> val a = fp_mag fb bias (mag_of a)" "sgn_of a \<Longrightarrow> val a = - fp_mag fb bias (mag_of a)"
  by (simp_all add: val_mag)

lemma abs_val: "\<bar>val a\<bar> = fp_mag fb bias (mag_of a)"
  using mag_nonneg [OF mag_of_nonneg, of a] by (simp add: val_mag)

lemma val_zero_iff: "val a = 0 \<longleftrightarrow> mag_of a = 0"
  using mag_eq_iff [OF mag_of_nonneg order_refl, of a] by (simp add: val_mag)

lemma val_eq_iff: "val a = val b \<longleftrightarrow> a = b \<or> (mag_of a = 0 \<and> mag_of b = 0)"
proof -
  note nn = mag_of_nonneg [of a] mag_of_nonneg [of b]
  have pos: "mag_of c \<noteq> 0 \<Longrightarrow> 0 < fp_mag fb bias (mag_of c)" for c
    using mag_pos mag_of_nonneg [of c] by simp
  show ?thesis
    unfolding bits_eq val_mag
    using mag_eq_iff [OF nn] pos [of a] pos [of b] by (cases "mag_of a = 0"; cases "mag_of b = 0") auto
qed

lemma val_less_iff:
  "val a < val b \<longleftrightarrow>
     (if sgn_of a \<noteq> sgn_of b then sgn_of a \<and> \<not> (mag_of a = 0 \<and> mag_of b = 0)
      else if sgn_of a then mag_of b < mag_of a else mag_of a < mag_of b)"
proof -
  note nn = mag_of_nonneg [of a] mag_of_nonneg [of b]
  have pos: "mag_of c \<noteq> 0 \<Longrightarrow> 0 < fp_mag fb bias (mag_of c)" for c
    using mag_pos mag_of_nonneg [of c] by simp
  show ?thesis
    unfolding val_mag
    using mag_less_iff [OF nn] mag_less_iff [OF nn(2,1)] pos [of a] pos [of b]
    by (cases "mag_of a = 0"; cases "mag_of b = 0") (auto simp: not_less)
qed

lemma val_le_iff:
  "val a \<le> val b \<longleftrightarrow>
     (if sgn_of a \<noteq> sgn_of b then sgn_of a \<or> (mag_of a = 0 \<and> mag_of b = 0)
      else if sgn_of a then mag_of b \<le> mag_of a else mag_of a \<le> mag_of b)"
  unfolding le_less val_less_iff val_eq_iff bits_eq by auto

end

section \<open>The values of the two formats\<close>

definition f32_mag :: "float32 \<Rightarrow> int" where "f32_mag a = uint a mod 2 ^ 31"
definition f64_mag :: "float64 \<Rightarrow> int" where "f64_mag a = uint a mod 2 ^ 63"

definition f32_abs :: "float32 \<Rightarrow> real" where "f32_abs a = fp_mag 23 127 (f32_mag a)"
definition f64_abs :: "float64 \<Rightarrow> real" where "f64_abs a = fp_mag 52 1023 (f64_mag a)"

definition f32_val :: "float32 \<Rightarrow> real" where
  "f32_val a = (if signF32UI a then - f32_abs a else f32_abs a)"
definition f64_val :: "float64 \<Rightarrow> real" where
  "f64_val a = (if signF64UI a then - f64_abs a else f64_abs a)"

definition f32_isInf :: "float32 \<Rightarrow> bool" where "f32_isInf a \<longleftrightarrow> f32_mag a = 0x7F800000"
definition f64_isInf :: "float64 \<Rightarrow> bool" where "f64_isInf a \<longleftrightarrow> f64_mag a = 0x7FF0000000000000"
definition f32_finite :: "float32 \<Rightarrow> bool" where "f32_finite a \<longleftrightarrow> f32_mag a < 0x7F800000"
definition f64_finite :: "float64 \<Rightarrow> bool" where "f64_finite a \<longleftrightarrow> f64_mag a < 0x7FF0000000000000"

lemma f32_mag_fields: "f32_mag a = expF32UI a * 2 ^ 23 + uint (fracF32UI a)"
proof -
  have "0 \<le> expF32UI a * 2 ^ 23 + uint (fracF32UI a)" "expF32UI a * 2 ^ 23 + uint (fracF32UI a) < 2 ^ 31"
    using expF32UI_bounds [of a] fracF32UI_bounds [of a] by simp_all
  then show ?thesis
    unfolding f32_mag_def by (subst f32_fields) (simp add: add.assoc)
qed

lemma f64_mag_fields: "f64_mag a = expF64UI a * 2 ^ 52 + uint (fracF64UI a)"
proof -
  have "0 \<le> expF64UI a * 2 ^ 52 + uint (fracF64UI a)" "expF64UI a * 2 ^ 52 + uint (fracF64UI a) < 2 ^ 63"
    using expF64UI_bounds [of a] fracF64UI_bounds [of a] by simp_all
  then show ?thesis
    unfolding f64_mag_def by (subst f64_fields) (simp add: add.assoc)
qed

lemma f32_sign_mag: "uint a = of_bool (signF32UI a) * 2 ^ 31 + f32_mag a"
  unfolding f32_mag_fields by (subst f32_fields) simp
lemma f64_sign_mag: "uint a = of_bool (signF64UI a) * 2 ^ 63 + f64_mag a"
  unfolding f64_mag_fields by (subst f64_fields) simp

lemma f32_mag_bounds: "0 \<le> f32_mag a" "f32_mag a < 2 ^ 31" by (simp_all add: f32_mag_def)
lemma f64_mag_bounds: "0 \<le> f64_mag a" "f64_mag a < 2 ^ 63" by (simp_all add: f64_mag_def)

lemma f32_bits_eq: "a = b \<longleftrightarrow> signF32UI a = signF32UI b \<and> f32_mag a = f32_mag b"
  using f32_sign_mag [of a] f32_sign_mag [of b] f32_mag_bounds [of a] f32_mag_bounds [of b]
  by (auto simp: word_uint_eq_iff split: if_splits)
lemma f64_bits_eq: "a = b \<longleftrightarrow> signF64UI a = signF64UI b \<and> f64_mag a = f64_mag b"
  using f64_sign_mag [of a] f64_sign_mag [of b] f64_mag_bounds [of a] f64_mag_bounds [of b]
  by (auto simp: word_uint_eq_iff split: if_splits)

interpretation v32: signed_format 23 127 signF32UI f32_mag f32_val
  by unfold_locales (simp_all add: f32_val_def f32_abs_def f32_mag_bounds f32_bits_eq)

interpretation v64: signed_format 52 1023 signF64UI f64_mag f64_val
  by unfold_locales (simp_all add: f64_val_def f64_abs_def f64_mag_bounds f64_bits_eq)

section \<open>Classes in terms of the fields\<close>

lemma field_order:
  fixes e f E N :: int
  assumes "0 \<le> f" "f < N"
  shows "e * N + f < E * N \<longleftrightarrow> e < E" "e * N + f = E * N \<longleftrightarrow> e = E \<and> f = 0"
    "E * N < e * N + f \<longleftrightarrow> E < e \<or> (e = E \<and> 0 < f)"
proof -
  have "e < E \<Longrightarrow> (e + 1) * N \<le> E * N" "E < e \<Longrightarrow> (E + 1) * N \<le> e * N"
    using assms by (intro mult_right_mono; simp)+
  then show "e * N + f < E * N \<longleftrightarrow> e < E" "e * N + f = E * N \<longleftrightarrow> e = E \<and> f = 0"
    "E * N < e * N + f \<longleftrightarrow> E < e \<or> (e = E \<and> 0 < f)"
    using assms by (cases e E rule: linorder_cases; simp add: distrib_right)+
qed

lemma f32_class_fields:
  "f32_isInf a \<longleftrightarrow> expF32UI a = 255 \<and> fracF32UI a = 0"
  "isNaNF32UI a \<longleftrightarrow> 0x7F800000 < f32_mag a"
  "f32_finite a \<longleftrightarrow> expF32UI a \<noteq> 255"
  "f32_mag a = 0 \<longleftrightarrow> expF32UI a = 0 \<and> fracF32UI a = 0"
proof -
  note fo = field_order [OF fracF32UI_bounds [of a], where e = "expF32UI a"]
  note b = expF32UI_bounds [of a] fracF32UI_bounds [of a]
  show "f32_isInf a \<longleftrightarrow> expF32UI a = 255 \<and> fracF32UI a = 0"
    unfolding f32_isInf_def f32_mag_fields word_zero_uint using fo(2) [of 255] by simp
  show "isNaNF32UI a \<longleftrightarrow> 0x7F800000 < f32_mag a"
    unfolding isNaNF32UI_int f32_mag_fields word_zero_uint using fo(3) [of 255] b by (auto simp: order_less_le)
  show "f32_finite a \<longleftrightarrow> expF32UI a \<noteq> 255"
    unfolding f32_finite_def f32_mag_fields using fo(1) [of 255] b by auto
  show "f32_mag a = 0 \<longleftrightarrow> expF32UI a = 0 \<and> fracF32UI a = 0"
    unfolding f32_mag_fields word_zero_uint using fo(2) [of 0] by simp
qed

lemma f64_class_fields:
  "f64_isInf a \<longleftrightarrow> expF64UI a = 2047 \<and> fracF64UI a = 0"
  "isNaNF64UI a \<longleftrightarrow> 0x7FF0000000000000 < f64_mag a"
  "f64_finite a \<longleftrightarrow> expF64UI a \<noteq> 2047"
  "f64_mag a = 0 \<longleftrightarrow> expF64UI a = 0 \<and> fracF64UI a = 0"
proof -
  note fo = field_order [OF fracF64UI_bounds [of a], where e = "expF64UI a"]
  note b = expF64UI_bounds [of a] fracF64UI_bounds [of a]
  show "f64_isInf a \<longleftrightarrow> expF64UI a = 2047 \<and> fracF64UI a = 0"
    unfolding f64_isInf_def f64_mag_fields word_zero_uint using fo(2) [of 2047] by simp
  show "isNaNF64UI a \<longleftrightarrow> 0x7FF0000000000000 < f64_mag a"
    unfolding isNaNF64UI_int f64_mag_fields word_zero_uint using fo(3) [of 2047] b by (auto simp: order_less_le)
  show "f64_finite a \<longleftrightarrow> expF64UI a \<noteq> 2047"
    unfolding f64_finite_def f64_mag_fields using fo(1) [of 2047] b by auto
  show "f64_mag a = 0 \<longleftrightarrow> expF64UI a = 0 \<and> fracF64UI a = 0"
    unfolding f64_mag_fields word_zero_uint using fo(2) [of 0] by simp
qed

section \<open>Normalised operands\<close>

definition f32_norm :: "float32 \<Rightarrow> int \<times> u32" where
  "f32_norm a = (if expF32UI a = 0 then softfloat_normSubnormalF32Sig (fracF32UI a)
                 else (expF32UI a, fracF32UI a))"

lemma f32_abs_fields:
  "f32_abs a = (if expF32UI a = 0 then of_int (uint (fracF32UI a)) * 2 powi (- 149)
                else of_int (2 ^ 23 + uint (fracF32UI a)) * 2 powi (expF32UI a - 150))"
  unfolding f32_abs_def fp_mag_def f32_mag_fields Let_def
  using pow_split_div [OF fracF32UI_bounds, of "expF32UI a" a] pow_split_mod [OF fracF32UI_bounds, of "expF32UI a" a]
  by (simp only:) simp

lemma or_hidden32: "uint s < 2 ^ 23 \<Longrightarrow> uint (s OR 0x00800000) = uint s + 2 ^ 23" for s :: u32
  by (simp add: unsigned_or_eq int_or_high [of _ 23, simplified])

lemma or_hidden_same32:
  fixes s :: u32
  assumes "2 ^ 23 \<le> uint s" "uint s < 2 ^ 24"
  shows "uint (s OR 0x00800000) = uint s"
proof -
  define t where "t = uint s - 2 ^ 23"
  have t: "0 \<le> t" "t < 2 ^ 23" "uint s = t OR 2 ^ 23" using assms int_or_high [of t 23] by (auto simp: t_def)
  have "uint (s OR 0x00800000) = uint s OR 2 ^ 23" by (simp add: unsigned_or_eq)
  also have "\<dots> = uint s" unfolding t(3) by (simp add: or.assoc)
  finally show ?thesis .
qed

lemma normSubnormalF32Sig_value:
  assumes "sig \<noteq> 0" "uint sig < 2 ^ 23"
  obtains k where "softfloat_normSubnormalF32Sig sig = (1 - int k, push_bit k sig)"
    "uint (push_bit k sig) = uint sig * 2 ^ k" "2 ^ 23 \<le> uint sig * 2 ^ k" "uint sig * 2 ^ k < 2 ^ 24" "1 \<le> k" "k \<le> 23"
proof -
  define c where "c = softfloat_countLeadingZeros32 sig"
  note c = countLeadingZeros32_correct [OF assms(1), folded c_def]
  have one: "2 ^ 0 \<le> uint sig" using assms(1) by (metis word_zero_uint uint_ge_0 int_one_le_iff_zero_less order_le_less power_0)
  have c31: "c \<le> 31" using shift_unique [of 31 "uint sig" c 31] c one by simp
  have c9: "9 \<le> c"
  proof (rule ccontr)
    assume "\<not> 9 \<le> c"
    then have "uint sig * 2 ^ c \<le> uint sig * 2 ^ 8" by (intro mult_left_mono power_increasing) auto
    also have "\<dots> < 2 ^ 31" using assms(2) by simp
    finally show False using c by simp
  qed
  define k where "k = c - 8"
  have k: "c = k + 8" "1 \<le> k" "k \<le> 23" using c9 c31 by (auto simp: k_def)
  have "2 ^ 23 \<le> uint sig * 2 ^ k" "uint sig * 2 ^ k < 2 ^ 24" using c unfolding k(1) by (simp_all add: power_add)
  moreover from this have "uint (push_bit k sig) = uint sig * 2 ^ k" by (intro uint_push_bit_small) simp
  moreover have "softfloat_normSubnormalF32Sig sig = (1 - int k, push_bit k sig)"
    unfolding softfloat_normSubnormalF32Sig_def Let_def c_def [symmetric] k(1) by simp
  ultimately show ?thesis using that k by blast
qed

theorem f32_norm_value:
  assumes "f32_finite a" "f32_mag a \<noteq> 0"
  obtains e s m where "f32_norm a = (e, s)" "uint (s OR 0x00800000) = m" "2 ^ 23 \<le> m" "m < 2 ^ 24"
    "- 22 \<le> e" "e \<le> 254" "f32_abs a = of_int m * 2 powi (e - 150)"
proof (cases "expF32UI a = 0")
  case True
  then have "fracF32UI a \<noteq> 0" using assms(2) f32_class_fields(4) [of a] by simp
  then obtain k where k: "softfloat_normSubnormalF32Sig (fracF32UI a) = (1 - int k, push_bit k (fracF32UI a))"
    "uint (push_bit k (fracF32UI a)) = uint (fracF32UI a) * 2 ^ k"
    "2 ^ 23 \<le> uint (fracF32UI a) * 2 ^ k" "uint (fracF32UI a) * 2 ^ k < 2 ^ 24" "1 \<le> k" "k \<le> 23"
    using normSubnormalF32Sig_value fracF32UI_bounds(2) by metis
  have norm: "f32_norm a = (1 - int k, push_bit k (fracF32UI a))"
    using True k(1) by (simp add: f32_norm_def)
  have or: "uint (push_bit k (fracF32UI a) OR 0x00800000) = uint (fracF32UI a) * 2 ^ k"
    using or_hidden_same32 [of "push_bit k (fracF32UI a)"] k(3,4) unfolding k(2) .
  have "f32_abs a = of_int (uint (fracF32UI a) * 2 ^ k) * 2 powi (1 - int k - 150)"
    using True by (simp add: f32_abs_fields powi_diff)
  from that [OF norm or k(3,4) _ _ this] k(5,6) show ?thesis by simp
next
  case False
  have norm: "f32_norm a = (expF32UI a, fracF32UI a)" using False by (simp add: f32_norm_def)
  have or: "uint (fracF32UI a OR 0x00800000) = 2 ^ 23 + uint (fracF32UI a)"
    using or_hidden32 [OF fracF32UI_bounds(2), of a] by simp
  have m: "2 ^ 23 \<le> 2 ^ 23 + uint (fracF32UI a)" "2 ^ 23 + uint (fracF32UI a) < 2 ^ 24"
    using fracF32UI_bounds [of a] by simp_all
  have e: "- 22 \<le> expF32UI a" "expF32UI a \<le> 254"
    using assms(1) expF32UI_bounds [of a] f32_class_fields(3) [of a] by simp_all
  show ?thesis
    by (rule that [OF norm or m e]) (use False in \<open>simp only: f32_abs_fields if_False\<close>)
qed

definition f64_norm :: "float64 \<Rightarrow> int \<times> u64" where
  "f64_norm a = (if expF64UI a = 0 then softfloat_normSubnormalF64Sig (fracF64UI a)
                 else (expF64UI a, fracF64UI a))"

lemma f64_abs_fields:
  "f64_abs a = (if expF64UI a = 0 then of_int (uint (fracF64UI a)) * 2 powi (- 1074)
                else of_int (2 ^ 52 + uint (fracF64UI a)) * 2 powi (expF64UI a - 1075))"
  unfolding f64_abs_def fp_mag_def f64_mag_fields Let_def
  using pow_split_div [OF fracF64UI_bounds, of "expF64UI a" a] pow_split_mod [OF fracF64UI_bounds, of "expF64UI a" a]
  by (simp only:) simp

lemma or_hidden64: "uint s < 2 ^ 52 \<Longrightarrow> uint (s OR 0x0010000000000000) = uint s + 2 ^ 52" for s :: u64
  by (simp add: unsigned_or_eq int_or_high [of _ 52, simplified])

lemma or_hidden_same64:
  fixes s :: u64
  assumes "2 ^ 52 \<le> uint s" "uint s < 2 ^ 53"
  shows "uint (s OR 0x0010000000000000) = uint s"
proof -
  define t where "t = uint s - 2 ^ 52"
  have t: "0 \<le> t" "t < 2 ^ 52" "uint s = t OR 2 ^ 52" using assms int_or_high [of t 52] by (auto simp: t_def)
  have "uint (s OR 0x0010000000000000) = uint s OR 2 ^ 52" by (simp add: unsigned_or_eq)
  also have "\<dots> = uint s" unfolding t(3) by (simp add: or.assoc)
  finally show ?thesis .
qed

lemma normSubnormalF64Sig_value:
  assumes "sig \<noteq> 0" "uint sig < 2 ^ 52"
  obtains k where "softfloat_normSubnormalF64Sig sig = (1 - int k, push_bit k sig)"
    "uint (push_bit k sig) = uint sig * 2 ^ k" "2 ^ 52 \<le> uint sig * 2 ^ k" "uint sig * 2 ^ k < 2 ^ 53" "1 \<le> k" "k \<le> 52"
proof -
  define c where "c = softfloat_countLeadingZeros64 sig"
  note c = countLeadingZeros64_correct [OF assms(1), folded c_def]
  have one: "2 ^ 0 \<le> uint sig" using assms(1) by (metis word_zero_uint uint_ge_0 int_one_le_iff_zero_less order_le_less power_0)
  have c63: "c \<le> 63" using shift_unique [of 63 "uint sig" c 63] c one by simp
  have c12: "12 \<le> c"
  proof (rule ccontr)
    assume "\<not> 12 \<le> c"
    then have "uint sig * 2 ^ c \<le> uint sig * 2 ^ 11" by (intro mult_left_mono power_increasing) auto
    also have "\<dots> < 2 ^ 63" using assms(2) by simp
    finally show False using c by simp
  qed
  define k where "k = c - 11"
  have k: "c = k + 11" "1 \<le> k" "k \<le> 52" using c12 c63 by (auto simp: k_def)
  have "2 ^ 52 \<le> uint sig * 2 ^ k" "uint sig * 2 ^ k < 2 ^ 53" using c unfolding k(1) by (simp_all add: power_add)
  moreover from this have "uint (push_bit k sig) = uint sig * 2 ^ k" by (intro uint_push_bit_small) simp
  moreover have "softfloat_normSubnormalF64Sig sig = (1 - int k, push_bit k sig)"
    unfolding softfloat_normSubnormalF64Sig_def Let_def c_def [symmetric] k(1) by simp
  ultimately show ?thesis using that k by blast
qed

theorem f64_norm_value:
  assumes "f64_finite a" "f64_mag a \<noteq> 0"
  obtains e s m where "f64_norm a = (e, s)" "uint (s OR 0x0010000000000000) = m" "2 ^ 52 \<le> m" "m < 2 ^ 53"
    "- 51 \<le> e" "e \<le> 2046" "f64_abs a = of_int m * 2 powi (e - 1075)"
proof (cases "expF64UI a = 0")
  case True
  then have "fracF64UI a \<noteq> 0" using assms(2) f64_class_fields(4) [of a] by simp
  then obtain k where k: "softfloat_normSubnormalF64Sig (fracF64UI a) = (1 - int k, push_bit k (fracF64UI a))"
    "uint (push_bit k (fracF64UI a)) = uint (fracF64UI a) * 2 ^ k"
    "2 ^ 52 \<le> uint (fracF64UI a) * 2 ^ k" "uint (fracF64UI a) * 2 ^ k < 2 ^ 53" "1 \<le> k" "k \<le> 52"
    using normSubnormalF64Sig_value fracF64UI_bounds(2) by metis
  have norm: "f64_norm a = (1 - int k, push_bit k (fracF64UI a))"
    using True k(1) by (simp add: f64_norm_def)
  have or: "uint (push_bit k (fracF64UI a) OR 0x0010000000000000) = uint (fracF64UI a) * 2 ^ k"
    using or_hidden_same64 [of "push_bit k (fracF64UI a)"] k(3,4) unfolding k(2) .
  have "f64_abs a = of_int (uint (fracF64UI a) * 2 ^ k) * 2 powi (1 - int k - 1075)"
    using True by (simp add: f64_abs_fields powi_diff)
  from that [OF norm or k(3,4) _ _ this] k(5,6) show ?thesis by simp
next
  case False
  have norm: "f64_norm a = (expF64UI a, fracF64UI a)" using False by (simp add: f64_norm_def)
  have or: "uint (fracF64UI a OR 0x0010000000000000) = 2 ^ 52 + uint (fracF64UI a)"
    using or_hidden64 [OF fracF64UI_bounds(2), of a] by simp
  have m: "2 ^ 52 \<le> 2 ^ 52 + uint (fracF64UI a)" "2 ^ 52 + uint (fracF64UI a) < 2 ^ 53"
    using fracF64UI_bounds [of a] by simp_all
  have e: "- 51 \<le> expF64UI a" "expF64UI a \<le> 2046"
    using assms(1) expF64UI_bounds [of a] f64_class_fields(3) [of a] by simp_all
  show ?thesis
    by (rule that [OF norm or m e]) (use False in \<open>simp only: f64_abs_fields if_False\<close>)
qed

section \<open>One normalising shift before packing\<close>

lemma roundPackToF32_norm1:
  assumes c: "cell 5 (of_int (uint sig)) x" and sig: "2 ^ 29 \<le> uint sig" "uint sig < 2 ^ 31"
    and e: "- 32000 \<le> e" "e < 32768"
  shows "(case if sig < 0x40000000 then (e - 1, push_bit 1 sig) else (e, sig) of
      (e, sig) \<Rightarrow> softfloat_roundPackToF32 s e sig st) = f32_round st s (fp_scaled 23 127 6 e x)"
proof (cases "sig < 0x40000000")
  case True
  then have lt: "uint sig < 2 ^ 30" by (simp add: word_less_def)
  have p: "uint (push_bit 1 sig) = uint sig * 2 ^ 1"
    using lt by (intro uint_push_bit_small) simp
  have "cell 6 (of_int (uint (push_bit 1 sig))) (x * 2 ^ 1)"
    unfolding p using cell_scale [OF c, of 1] by simp
  from roundPackToF32_refines [OF this, of "e - 1" s st] show ?thesis
    using True sig lt e scaled_shift [of 23 127 6 e 1 x] p by simp
next
  case False
  then have ge: "2 ^ 30 \<le> uint sig" by (simp add: word_less_def)
  show ?thesis
    using False roundPackToF32_refines [OF cell_mono [OF c] ge sig(2), of e s st] e by simp
qed

lemma roundPackToF64_norm1:
  assumes c: "cell 8 (of_int (uint sig)) x" and sig: "2 ^ 61 \<le> uint sig" "uint sig < 2 ^ 63"
    and e: "- 32000 \<le> e" "e < 32768"
  shows "(case if sig < 0x4000000000000000 then (e - 1, push_bit 1 sig) else (e, sig) of
      (e, sig) \<Rightarrow> softfloat_roundPackToF64 s e sig st) = f64_round st s (fp_scaled 52 1023 9 e x)"
proof (cases "sig < 0x4000000000000000")
  case True
  then have lt: "uint sig < 2 ^ 62" by (simp add: word_less_def)
  have p: "uint (push_bit 1 sig) = uint sig * 2 ^ 1"
    using lt by (intro uint_push_bit_small) simp
  have "cell 9 (of_int (uint (push_bit 1 sig))) (x * 2 ^ 1)"
    unfolding p using cell_scale [OF c, of 1] by simp
  from roundPackToF64_refines [OF this, of "e - 1" s st] show ?thesis
    using True sig lt e scaled_shift [of 52 1023 9 e 1 x] p by simp
next
  case False
  then have ge: "2 ^ 62 \<le> uint sig" by (simp add: word_less_def)
  show ?thesis
    using False roundPackToF64_refines [OF cell_mono [OF c] ge sig(2), of e s st] e by simp
qed

text \<open>The test \<open>exp | sig\<close> of the source is a test for zero.\<close>

lemma word_of_exp_or32: "word_of_int (expF32UI a) OR fracF32UI a = 0 \<longleftrightarrow> f32_mag a = 0"
proof -
  have "uint (word_of_int (expF32UI a) :: u32) = expF32UI a"
    using expF32UI_bounds [of a] by (simp add: uint_word_of_int)
  then show ?thesis unfolding f32_class_fields or_eq_0_iff by (simp add: word_zero_uint)
qed

lemma word_of_exp_or64: "word_of_int (expF64UI a) OR fracF64UI a = 0 \<longleftrightarrow> f64_mag a = 0"
proof -
  have "uint (word_of_int (expF64UI a) :: u64) = expF64UI a"
    using expF64UI_bounds [of a] by (simp add: uint_word_of_int)
  then show ?thesis unfolding f64_class_fields or_eq_0_iff by (simp add: word_zero_uint)
qed

end
