(* ===== verification/SF_IntPack.thy ===== *)
theory SF_IntPack
  imports SF_Values
begin

text \<open>
  Packing a fixed-point magnitude into an integer (\<open>s_roundPackToI32.c\<close>, \<open>s_roundPackToUI32.c\<close>,
  \<open>s_roundPackToI64.c\<close>, \<open>s_roundPackToUI64.c\<close>): the last step of every conversion from a float
  to an integer.  Signed results are words read with \<open>sint\<close>, as the unions of the code do.
  \<open>fp_to_int\<close> is the specification: round the real number, saturate outside the range of
  the type and raise the invalid flag there.
\<close>

section \<open>Definitions\<close>

definition ui32_fromPosOverflow :: u32 where "ui32_fromPosOverflow = 0xFFFFFFFF"
definition ui32_fromNegOverflow :: u32 where "ui32_fromNegOverflow = 0"
definition ui32_fromNaN :: u32 where "ui32_fromNaN = 0xFFFFFFFF"
definition i32_fromPosOverflow :: u32 where "i32_fromPosOverflow = 0x7FFFFFFF"
definition i32_fromNegOverflow :: u32 where "i32_fromNegOverflow = - 0x7FFFFFFF - 1"
definition i32_fromNaN :: u32 where "i32_fromNaN = 0x7FFFFFFF"
definition ui64_fromPosOverflow :: u64 where "ui64_fromPosOverflow = 0xFFFFFFFFFFFFFFFF"
definition ui64_fromNegOverflow :: u64 where "ui64_fromNegOverflow = 0"
definition ui64_fromNaN :: u64 where "ui64_fromNaN = 0xFFFFFFFFFFFFFFFF"
definition i64_fromPosOverflow :: u64 where "i64_fromPosOverflow = 0x7FFFFFFFFFFFFFFF"
definition i64_fromNegOverflow :: u64 where "i64_fromNegOverflow = - 0x7FFFFFFFFFFFFFFF - 1"
definition i64_fromNaN :: u64 where "i64_fromNaN = 0x7FFFFFFFFFFFFFFF"

lemmas int_limits = ui32_fromPosOverflow_def ui32_fromNegOverflow_def ui32_fromNaN_def
  i32_fromPosOverflow_def i32_fromNegOverflow_def i32_fromNaN_def
  ui64_fromPosOverflow_def ui64_fromNegOverflow_def ui64_fromNaN_def
  i64_fromPosOverflow_def i64_fromNegOverflow_def i64_fromNaN_def

definition softfloat_roundPackToI32 :: "bool \<Rightarrow> u64 \<Rightarrow> u8 \<Rightarrow> bool \<Rightarrow> sf_state \<Rightarrow> u32 \<times> sf_state" where
  "softfloat_roundPackToI32 sign sig roundingMode exact st =
     (let roundNearEven = (roundingMode = softfloat_round_near_even);
          roundIncrement =
            (if \<not> roundNearEven \<and> roundingMode \<noteq> softfloat_round_near_maxMag
             then (if roundingMode = (if sign then softfloat_round_min else softfloat_round_max)
                   then 0x7F else 0)
             else 0x40);
          invalid = (if sign then i32_fromNegOverflow else i32_fromPosOverflow,
                     softfloat_raiseFlags softfloat_flag_invalid st);
          roundBits = sig AND 0x7F;
          sig = sig + roundIncrement
      in if sig AND 0xFFFFFF8000000000 \<noteq> 0 then invalid
         else let sig32 = (ucast (drop_bit 7 sig) :: u32);
                  sig32 = sig32 AND NOT (of_bool (roundBits XOR 0x40 = 0 \<and> roundNearEven));
                  z = (if sign then - sig32 else sig32)
              in if z \<noteq> 0 \<and> (sint z < 0) \<noteq> sign then invalid
                 else (z, if exact \<and> roundBits \<noteq> 0
                          then softfloat_raiseFlags softfloat_flag_inexact st else st))"

definition softfloat_roundPackToUI32 :: "bool \<Rightarrow> u64 \<Rightarrow> u8 \<Rightarrow> bool \<Rightarrow> sf_state \<Rightarrow> u32 \<times> sf_state" where
  "softfloat_roundPackToUI32 sign sig roundingMode exact st =
     (let roundNearEven = (roundingMode = softfloat_round_near_even);
          roundIncrement =
            (if \<not> roundNearEven \<and> roundingMode \<noteq> softfloat_round_near_maxMag
             then (if roundingMode = (if sign then softfloat_round_min else softfloat_round_max)
                   then 0x7F else 0)
             else 0x40);
          invalid = (if sign then ui32_fromNegOverflow else ui32_fromPosOverflow,
                     softfloat_raiseFlags softfloat_flag_invalid st);
          roundBits = sig AND 0x7F;
          sig = sig + roundIncrement
      in if sig AND 0xFFFFFF8000000000 \<noteq> 0 then invalid
         else let z = (ucast (drop_bit 7 sig) :: u32);
                  z = z AND NOT (of_bool (roundBits XOR 0x40 = 0 \<and> roundNearEven))
              in if sign \<and> z \<noteq> 0 then invalid
                 else (z, if exact \<and> roundBits \<noteq> 0
                          then softfloat_raiseFlags softfloat_flag_inexact st else st))"

definition softfloat_roundPackToI64 ::
  "bool \<Rightarrow> u64 \<Rightarrow> u64 \<Rightarrow> u8 \<Rightarrow> bool \<Rightarrow> sf_state \<Rightarrow> u64 \<times> sf_state" where
  "softfloat_roundPackToI64 sign sig sigExtra roundingMode exact st =
     (let roundNearEven = (roundingMode = softfloat_round_near_even);
          doIncrement =
            (if \<not> roundNearEven \<and> roundingMode \<noteq> softfloat_round_near_maxMag
             then roundingMode = (if sign then softfloat_round_min else softfloat_round_max) \<and> sigExtra \<noteq> 0
             else 0x8000000000000000 \<le> sigExtra);
          invalid = (if sign then i64_fromNegOverflow else i64_fromPosOverflow,
                     softfloat_raiseFlags softfloat_flag_invalid st);
          finish = (\<lambda>sig.
            let z = (if sign then - sig else sig)
            in if z \<noteq> 0 \<and> (sint z < 0) \<noteq> sign then invalid
               else (z, if exact \<and> sigExtra \<noteq> 0
                        then softfloat_raiseFlags softfloat_flag_inexact st else st))
      in if doIncrement
         then let sig = sig + 1
              in if sig = 0 then invalid
                 else finish (sig AND NOT (of_bool (sigExtra AND 0x7FFFFFFFFFFFFFFF = 0 \<and> roundNearEven)))
         else finish sig)"

definition softfloat_roundPackToUI64 ::
  "bool \<Rightarrow> u64 \<Rightarrow> u64 \<Rightarrow> u8 \<Rightarrow> bool \<Rightarrow> sf_state \<Rightarrow> u64 \<times> sf_state" where
  "softfloat_roundPackToUI64 sign sig sigExtra roundingMode exact st =
     (let roundNearEven = (roundingMode = softfloat_round_near_even);
          doIncrement =
            (if \<not> roundNearEven \<and> roundingMode \<noteq> softfloat_round_near_maxMag
             then roundingMode = (if sign then softfloat_round_min else softfloat_round_max) \<and> sigExtra \<noteq> 0
             else 0x8000000000000000 \<le> sigExtra);
          invalid = (if sign then ui64_fromNegOverflow else ui64_fromPosOverflow,
                     softfloat_raiseFlags softfloat_flag_invalid st);
          finish = (\<lambda>sig.
            if sign \<and> sig \<noteq> 0 then invalid
            else (sig, if exact \<and> sigExtra \<noteq> 0
                       then softfloat_raiseFlags softfloat_flag_inexact st else st))
      in if doIncrement
         then let sig = sig + 1
              in if sig = 0 then invalid
                 else finish (sig AND NOT (of_bool (sigExtra AND 0x7FFFFFFFFFFFFFFF = 0 \<and> roundNearEven)))
         else finish sig)"

section \<open>Specification\<close>

definition fp_to_int ::
  "int \<Rightarrow> int \<Rightarrow> bool \<Rightarrow> real \<Rightarrow> u8 \<Rightarrow> bool \<Rightarrow> sf_state \<Rightarrow> 'w::len word \<times> sf_state" where
  "fp_to_int lo hi sign v rm exact st =
     (let r = rnd rm sign v; z = (if sign then - r else r)
      in if z < lo then (word_of_int lo, softfloat_raiseFlags softfloat_flag_invalid st)
         else if hi < z then (word_of_int hi, softfloat_raiseFlags softfloat_flag_invalid st)
         else (word_of_int z, if exact \<and> of_int r \<noteq> v
                              then softfloat_raiseFlags softfloat_flag_inexact st else st))"

definition fp_to_i32 :: "bool \<Rightarrow> real \<Rightarrow> u8 \<Rightarrow> bool \<Rightarrow> sf_state \<Rightarrow> u32 \<times> sf_state" where
  "fp_to_i32 = fp_to_int (- (2 ^ 31)) (2 ^ 31 - 1)"
definition fp_to_ui32 :: "bool \<Rightarrow> real \<Rightarrow> u8 \<Rightarrow> bool \<Rightarrow> sf_state \<Rightarrow> u32 \<times> sf_state" where
  "fp_to_ui32 = fp_to_int 0 (2 ^ 32 - 1)"
definition fp_to_i64 :: "bool \<Rightarrow> real \<Rightarrow> u8 \<Rightarrow> bool \<Rightarrow> sf_state \<Rightarrow> u64 \<times> sf_state" where
  "fp_to_i64 = fp_to_int (- (2 ^ 63)) (2 ^ 63 - 1)"
definition fp_to_ui64 :: "bool \<Rightarrow> real \<Rightarrow> u8 \<Rightarrow> bool \<Rightarrow> sf_state \<Rightarrow> u64 \<times> sf_state" where
  "fp_to_ui64 = fp_to_int 0 (2 ^ 64 - 1)"

section \<open>Refinement\<close>

text \<open>Rounding in the code's scale, and exactness there.\<close>

lemma rnd_scaled:
  assumes "cell h (of_int n) (v * 2 ^ Suc h)"
  shows "rnd rm s v = round_int (Suc h) rm s n" and "of_int (rnd rm s v) \<noteq> v \<longleftrightarrow> n mod 2 ^ Suc h \<noteq> 0"
proof -
  have "v * 2 ^ Suc h / 2 ^ Suc h = v" by simp
  then show "rnd rm s v = round_int (Suc h) rm s n"
    using rnd_cell [OF assms] rnd_round_int by metis
  show "of_int (rnd rm s v) \<noteq> v \<longleftrightarrow> n mod 2 ^ Suc h \<noteq> 0"
    using b32.cell_Ints [OF assms] \<open>v * 2 ^ Suc h / 2 ^ Suc h = v\<close> b32.rnd_eq_self_iff by metis
qed

text \<open>Two's complement: the sign test of the code decides whether the value is in range.\<close>

lemma signed_take_bit_cases:
  fixes k :: int
  assumes "0 \<le> k" "k < 2 ^ Suc n"
  shows "signed_take_bit n k = (if k < 2 ^ n then k else k - 2 ^ Suc n)"
proof -
  have "bit k n \<longleftrightarrow> \<not> k < 2 ^ n"
  proof (cases "k < 2 ^ n")
    case False
    then have "k div 2 ^ n = 1" using assms by (intro int_div_pos_eq [of _ _ _ "k - 2 ^ n"]) auto
    then show ?thesis using False by (simp add: bit_iff_odd)
  qed (use assms in \<open>simp add: bit_iff_odd\<close>)
  moreover have "take_bit (Suc n) k = k" using assms by (simp add: take_bit_int_eq_self)
  ultimately show ?thesis by (simp add: signed_take_bit_eq_take_bit_minus del: power_Suc)
qed

lemma sint_cases32: "sint (w :: u32) = (if uint w < 2 ^ 31 then uint w else uint w - 2 ^ 32)"
  using signed_take_bit_cases [of "uint w" 31] uint_bounds_32 [of w] by (simp add: sint_uint)

lemma sint_cases64: "sint (w :: u64) = (if uint w < 2 ^ 63 then uint w else uint w - 2 ^ 64)"
  using signed_take_bit_cases [of "uint w" 63] uint_bounds_64 [of w] by (simp add: sint_uint)

lemma negate_range32:
  fixes r :: int and s :: bool
  assumes "0 \<le> r" "r < 2 ^ 32"
  defines "z \<equiv> (if s then - word_of_int r else word_of_int r :: u32)"
  shows "z \<noteq> 0 \<and> (sint z < 0) \<noteq> s \<longleftrightarrow> (if s then - r < - (2 ^ 31) else 2 ^ 31 - 1 < r)"
proof -
  have w: "uint (word_of_int r :: u32) = r" using assms by (simp add: uint_word_of_int)
  show ?thesis
  proof (cases s)
    case True
    have "uint (- word_of_int r :: u32) = (if r = 0 then 0 else 2 ^ 32 - r)"
    proof -
      have "(- r) mod 2 ^ 32 = (2 ^ 32 - r) mod 2 ^ 32" by simp
      also have "\<dots> = 2 ^ 32 - r" if "r \<noteq> 0" using assms that by (intro mod_pos_pos_trivial) auto
      finally show ?thesis using w by (auto simp: uint_minus_mod)
    qed
    then show ?thesis using True assms(1,2) unfolding z_def sint_cases32 word_zero_uint by auto
  next
    case False
    then show ?thesis using assms(1,2) w unfolding z_def sint_cases32 word_zero_uint by auto
  qed
qed

lemma negate_range64:
  fixes r :: int and s :: bool
  assumes "0 \<le> r" "r < 2 ^ 64"
  defines "z \<equiv> (if s then - word_of_int r else word_of_int r :: u64)"
  shows "z \<noteq> 0 \<and> (sint z < 0) \<noteq> s \<longleftrightarrow> (if s then - r < - (2 ^ 63) else 2 ^ 63 - 1 < r)"
proof -
  have w: "uint (word_of_int r :: u64) = r" using assms by (simp add: uint_word_of_int)
  show ?thesis
  proof (cases s)
    case True
    have "uint (- word_of_int r :: u64) = (if r = 0 then 0 else 2 ^ 64 - r)"
    proof -
      have "(- r) mod 2 ^ 64 = (2 ^ 64 - r) mod 2 ^ 64" by simp
      also have "\<dots> = 2 ^ 64 - r" if "r \<noteq> 0" using assms that by (intro mod_pos_pos_trivial) auto
      finally show ?thesis using w by (auto simp: uint_minus_mod)
    qed
    then show ?thesis using True assms(1,2) unfolding z_def sint_cases64 word_zero_uint by auto
  next
    case False
    then show ?thesis using assms(1,2) w unfolding z_def sint_cases64 word_zero_uint by auto
  qed
qed

lemma round_incr_word7:
  "(if rm \<noteq> softfloat_round_near_even \<and> rm \<noteq> softfloat_round_near_maxMag
    then (if rm = (if sign then softfloat_round_min else softfloat_round_max) then 0x7F else 0)
    else 0x40) = (word_of_int (round_incr 7 rm sign) :: u64)"
  by (auto simp: round_incr_def)

lemma high_bits_39: "w AND 0xFFFFFF8000000000 \<noteq> 0 \<longleftrightarrow> 2 ^ 39 \<le> uint w" for w :: u64
proof -
  have "w AND 0xFFFFFF8000000000 = 0 \<longleftrightarrow> uint w div 2 ^ 39 mod 2 ^ 25 = 0"
    using and_field_eq [of 39 25 0 w] by (simp add: mask_eq_exp_minus_1)
  also have "uint w div 2 ^ 39 mod 2 ^ 25 = uint w div 2 ^ 39"
    using uint_bounds_64 [of w] by (intro mod_pos_pos_trivial) (auto simp: div_less_pow_iff pos_imp_zdiv_nonneg_iff)
  finally show ?thesis using uint_bounds_64 [of w] by (auto simp: zdiv_eq_0_iff not_le)
qed

text \<open>What both 32-bit routines compute before they look at the range of their type.\<close>

lemma roundPack32_common:
  fixes sig I :: u64 and rm :: u8 and s :: bool
  assumes sig: "uint sig < 2 ^ 63" and I: "I = word_of_int (round_incr 7 rm s)"
  defines "r \<equiv> round_int 7 rm s (uint sig)"
  shows "(sig + I) AND 0xFFFFFF8000000000 \<noteq> 0 \<longleftrightarrow> 2 ^ 32 \<le> r"
    and "\<not> 2 ^ 32 \<le> r \<Longrightarrow> ucast (drop_bit 7 (sig + I)) AND
          NOT (of_bool ((sig AND 0x7F) XOR 0x40 = 0 \<and> rm = softfloat_round_near_even)) = (word_of_int r :: u32)"
    and "0 \<le> r" and "sig AND 0x7F \<noteq> 0 \<longleftrightarrow> uint sig mod 2 ^ 7 \<noteq> 0"
proof -
  have incr: "0 \<le> round_incr 7 rm s" "round_incr 7 rm s < 2 ^ 7"
    using b32.round_incr_bounds [of 6 rm s] by simp_all
  have sum: "uint (sig + I) = uint sig + round_incr 7 rm s"
    using incr sig I by (simp add: uint_word_ariths uint_word_of_int)
  define t where "t = (uint sig + round_incr 7 rm s) div 2 ^ 7"
  have r: "r = t - of_bool (odd t \<and> uint sig mod 2 ^ 7 = 2 ^ 6 \<and> rm = softfloat_round_near_even)"
    unfolding r_def round_int_def t_def Let_def by simp
  have rb: "r < 2 ^ 32 \<longleftrightarrow> t < 2 ^ 32"
    unfolding r by (cases "t = 2 ^ 32") auto
  have "t < 2 ^ 32 \<longleftrightarrow> uint (sig + I) < 2 ^ 39"
    unfolding t_def sum div_less_pow_iff by simp
  then show "(sig + I) AND 0xFFFFFF8000000000 \<noteq> 0 \<longleftrightarrow> 2 ^ 32 \<le> r"
    unfolding high_bits_39 using rb by linarith
  show r0: "0 \<le> r" unfolding r_def using b32.round_int_nonneg [of "uint sig" 6 rm s] by simp
  have m: "uint (sig AND 0x7F) = uint sig mod 2 ^ 7"
    using uint_and_mask [of sig 7] by (simp add: mask_eq_exp_minus_1)
  then show "sig AND 0x7F \<noteq> 0 \<longleftrightarrow> uint sig mod 2 ^ 7 \<noteq> 0" unfolding word_zero_uint by simp
  have tie: "(sig AND 0x7F) XOR 0x40 = 0 \<longleftrightarrow> uint sig mod 2 ^ 7 = 2 ^ 6"
    unfolding xor_eq_0_iff using word_uint_eq_iff [of "sig AND 0x7F" "0x40"] m by simp
  show "ucast (drop_bit 7 (sig + I)) AND
      NOT (of_bool ((sig AND 0x7F) XOR 0x40 = 0 \<and> rm = softfloat_round_near_even)) = (word_of_int r :: u32)"
    if "\<not> 2 ^ 32 \<le> r"
  proof -
    have t: "0 \<le> t" "t < 2 ^ 32"
      using that rb incr unfolding t_def by (auto simp: pos_imp_zdiv_nonneg_iff)
    have "uint (ucast (drop_bit 7 (sig + I)) :: u32) = t"
      unfolding uint_ucast_64_32 uint_drop_bit_div sum t_def [symmetric] using t by simp
    then have "uint (ucast (drop_bit 7 (sig + I)) AND
        NOT (of_bool ((sig AND 0x7F) XOR 0x40 = 0 \<and> rm = softfloat_round_near_even)) :: u32) = r"
      unfolding uint_and_not_of_bool tie by (simp add: r conj_ac)
    then show ?thesis by (metis word_of_int_uint)
  qed
qed

theorem roundPackToI32_refines:
  assumes c: "cell 6 (of_int (uint sig)) (v * 2 ^ 7)" and sig: "uint sig < 2 ^ 63"
  shows "softfloat_roundPackToI32 s sig rm exact st = fp_to_i32 s v rm exact st"
proof -
  define r where "r = round_int 7 rm s (uint sig)"
  note cm = roundPack32_common(1-3) [OF sig refl, where rm = rm and s = s, folded r_def]
    roundPack32_common(4) [OF sig refl]
  have "cell 6 (of_int (uint sig)) (v * 2 ^ Suc 6)" using c by simp
  note rs = rnd_scaled [OF this, where rm = rm and s = s, simplified, folded r_def]
  note rs2 = rs(2) [unfolded rs(1)]
  show ?thesis
  proof (cases "2 ^ 32 \<le> r")
    case True
    then show ?thesis
      unfolding softfloat_roundPackToI32_def fp_to_i32_def fp_to_int_def Let_def round_incr_word7 cm(1) rs(1)
      by (simp add: int_limits)
  next
    case False
    then show ?thesis
      unfolding softfloat_roundPackToI32_def fp_to_i32_def fp_to_int_def Let_def round_incr_word7 cm(1) rs(1)
        cm(2) [OF False] cm(4) using negate_range32 [of r s] cm(3)
      by (simp add: int_limits rs2)
  qed
qed

theorem roundPackToUI32_refines:
  assumes c: "cell 6 (of_int (uint sig)) (v * 2 ^ 7)" and sig: "uint sig < 2 ^ 63"
  shows "softfloat_roundPackToUI32 s sig rm exact st = fp_to_ui32 s v rm exact st"
proof -
  define r where "r = round_int 7 rm s (uint sig)"
  note cm = roundPack32_common(1-3) [OF sig refl, where rm = rm and s = s, folded r_def]
    roundPack32_common(4) [OF sig refl]
  have "cell 6 (of_int (uint sig)) (v * 2 ^ Suc 6)" using c by simp
  note rs = rnd_scaled [OF this, where rm = rm and s = s, simplified, folded r_def]
  note rs2 = rs(2) [unfolded rs(1)]
  show ?thesis
  proof (cases "2 ^ 32 \<le> r")
    case True
    then show ?thesis
      unfolding softfloat_roundPackToUI32_def fp_to_ui32_def fp_to_int_def Let_def round_incr_word7 cm(1) rs(1)
      by (simp add: int_limits)
  next
    case False
    then have "word_of_int r = (0 :: u32) \<longleftrightarrow> r = 0"
      using cm(3) by (simp add: word_zero_uint uint_word_of_int)
    then show ?thesis
      using False cm(3)
      unfolding softfloat_roundPackToUI32_def fp_to_ui32_def fp_to_int_def Let_def round_incr_word7 cm(1) rs(1)
        cm(2) [OF False] cm(4)
      by (auto simp: int_limits rs2)
  qed
qed

text \<open>The 64-bit routines round a significand with a 64-bit extension.\<close>

lemma roundPack64_common:
  fixes sig ext :: u64 and rm :: u8 and s :: bool
  defines "inc \<equiv> (if rm \<noteq> softfloat_round_near_even \<and> rm \<noteq> softfloat_round_near_maxMag
             then rm = (if s then softfloat_round_min else softfloat_round_max) \<and> ext \<noteq> 0
             else 0x8000000000000000 \<le> ext)"
    and "r \<equiv> round_int 64 rm s (uint sig * 2 ^ 64 + uint ext)"
  shows "inc \<and> sig + 1 = 0 \<longleftrightarrow> 2 ^ 64 \<le> r"
    and "inc \<Longrightarrow> sig + 1 \<noteq> 0 \<Longrightarrow> (sig + 1) AND
          NOT (of_bool (ext AND 0x7FFFFFFFFFFFFFFF = 0 \<and> rm = softfloat_round_near_even)) = word_of_int r"
    and "\<not> inc \<Longrightarrow> sig = word_of_int r" and "0 \<le> r"
    and "ext \<noteq> 0 \<longleftrightarrow> (uint sig * 2 ^ 64 + uint ext) mod 2 ^ 64 \<noteq> 0"
proof -
  note eb = uint_lt2p [of ext, simplified] uint_ge_0 [of ext]
  have e1: "uint ext \<noteq> 0 \<Longrightarrow> 1 \<le> uint ext" using uint_ge_0 [of ext] by linarith
  have n: "(uint sig * 2 ^ 64 + uint ext) mod 2 ^ 64 = uint ext"
    using pow_split_mod [of "uint ext" 64 "uint sig"] uint_lt2p [of ext] by simp
  then show "ext \<noteq> 0 \<longleftrightarrow> (uint sig * 2 ^ 64 + uint ext) mod 2 ^ 64 \<noteq> 0"
    by (simp only: word_zero_uint)
  define t where "t = (uint sig * 2 ^ 64 + uint ext + round_incr 64 rm s) div 2 ^ 64"
  have t: "t = uint sig + of_bool inc"
  proof -
    have "(uint ext + round_incr 64 rm s) div 2 ^ 64 = of_bool inc"
    proof (cases inc)
      case True
      then have "2 ^ 64 \<le> uint ext + round_incr 64 rm s"
        using eb e1 unfolding inc_def round_incr_def word_le_def word_zero_uint by (auto split: if_splits)
      moreover have "uint ext + round_incr 64 rm s < 2 * 2 ^ 64" using eb by (auto simp: round_incr_def)
      ultimately have "(uint ext + round_incr 64 rm s) div 2 ^ 64 = 1"
        by (intro int_div_pos_eq [of _ _ _ "uint ext + round_incr 64 rm s - 2 ^ 64"]) auto
      then show ?thesis using True by simp
    next
      case False
      then have "uint ext + round_incr 64 rm s < 2 ^ 64" "0 \<le> uint ext + round_incr 64 rm s"
        using eb unfolding inc_def round_incr_def word_le_def word_zero_uint by (auto split: if_splits)
      then show ?thesis using False by simp
    qed
    then show ?thesis unfolding t_def by (simp add: add.assoc)
  qed
  have r: "r = t - of_bool (odd t \<and> uint ext = 2 ^ 63 \<and> rm = softfloat_round_near_even)"
    unfolding r_def round_int_def t_def Let_def n by simp
  have "uint (sig + 1) = (if uint sig + 1 < 2 ^ 64 then uint sig + 1 else uint sig + 1 - 2 ^ 64)"
    using uint_plus_if' [of sig 1] by simp
  then have s1: "sig + 1 = 0 \<longleftrightarrow> uint sig + 1 = 2 ^ 64"
    unfolding word_zero_uint [of "sig + 1"] using uint_ge_0 [of sig] uint_lt2p [of sig]
    by (cases "uint sig + 1 < 2 ^ 64"; simp only: if_True if_False; linarith)
  have "t \<le> 2 ^ 64" "0 \<le> t" unfolding t using uint_lt2p [of sig] by (simp_all split: split_of_bool)
  then show "0 \<le> r" unfolding r by (auto simp: le_less)
  have "2 ^ 64 \<le> r \<longleftrightarrow> t = 2 ^ 64" unfolding r using \<open>t \<le> 2 ^ 64\<close> by auto
  also have "\<dots> \<longleftrightarrow> inc \<and> sig + 1 = 0" unfolding t s1 using uint_lt2p [of sig] by (auto split: split_of_bool)
  finally show "inc \<and> sig + 1 = 0 \<longleftrightarrow> 2 ^ 64 \<le> r" by blast
  show "sig = word_of_int r" if "\<not> inc"
  proof -
    have "\<not> (uint ext = 2 ^ 63 \<and> rm = softfloat_round_near_even)"
      using that unfolding inc_def by (auto simp: word_le_def)
    then have "r = uint sig" unfolding r t using that by auto
    then show ?thesis by (simp only: word_of_int_uint)
  qed
  show "(sig + 1) AND NOT (of_bool (ext AND 0x7FFFFFFFFFFFFFFF = 0 \<and> rm = softfloat_round_near_even)) = word_of_int r"
    if "inc" "sig + 1 \<noteq> 0"
  proof -
    have u: "uint (sig + 1) = t" using that uint_lt2p [of sig] unfolding s1 t by (auto simp: uint_plus_if')
    have "ext AND 0x7FFFFFFFFFFFFFFF = 0 \<longleftrightarrow> uint ext mod 2 ^ 63 = 0"
      unfolding mask_numerals word_zero_uint uint_and_mask ..
    moreover have "rm = softfloat_round_near_even \<Longrightarrow> 2 ^ 63 \<le> uint ext"
      using that(1) unfolding inc_def by (simp add: word_le_def)
    moreover have "2 ^ 63 \<le> uint ext \<Longrightarrow> uint ext mod 2 ^ 63 = uint ext - 2 ^ 63"
    proof -
      assume "2 ^ 63 \<le> uint ext"
      then have "uint ext mod 2 ^ 63 = (uint ext - 2 ^ 63) mod 2 ^ 63" by simp
      also have "\<dots> = uint ext - 2 ^ 63" using \<open>2 ^ 63 \<le> uint ext\<close> eb by (intro mod_pos_pos_trivial) auto
      finally show ?thesis .
    qed
    ultimately have "(ext AND 0x7FFFFFFFFFFFFFFF = 0 \<and> rm = softfloat_round_near_even) =
        (uint ext = 2 ^ 63 \<and> rm = softfloat_round_near_even)" by auto
    then have "uint ((sig + 1) AND NOT (of_bool (ext AND 0x7FFFFFFFFFFFFFFF = 0 \<and> rm = softfloat_round_near_even))) = r"
      unfolding uint_and_not_of_bool u by (simp add: r conj_ac)
    then show ?thesis by (metis word_of_int_uint)
  qed
qed

theorem roundPackToI64_refines:
  assumes c: "cell 63 (of_int (uint sig * 2 ^ 64 + uint ext)) (v * 2 ^ 64)"
  shows "softfloat_roundPackToI64 s sig ext rm exact st = fp_to_i64 s v rm exact st"
proof -
  define r where "r = round_int 64 rm s (uint sig * 2 ^ 64 + uint ext)"
  define inc where "inc = (if rm \<noteq> softfloat_round_near_even \<and> rm \<noteq> softfloat_round_near_maxMag
             then rm = (if s then softfloat_round_min else softfloat_round_max) \<and> ext \<noteq> 0
             else 0x8000000000000000 \<le> ext)"
  note cm = roundPack64_common(1-4) [where sig = sig and ext = ext and rm = rm and s = s, folded r_def inc_def]
  note cm5 = roundPack64_common(5) [of ext sig]
  have "cell 63 (of_int (uint sig * 2 ^ 64 + uint ext)) (v * 2 ^ Suc 63)" using c by simp
  note rs0 = rnd_scaled [OF this, where rm = rm and s = s]
  have rs: "rnd rm s v = r" using rs0(1) by (simp add: r_def)
  have rs2: "of_int r \<noteq> v \<longleftrightarrow> (uint sig * 2 ^ 64 + uint ext) mod 2 ^ 64 \<noteq> 0"
    using rs0(2) unfolding rs by simp
  show ?thesis
  proof (cases "2 ^ 64 \<le> r")
    case True
    then have "inc" "sig + 1 = 0" using cm(1) by auto
    then show ?thesis
      unfolding softfloat_roundPackToI64_def fp_to_i64_def fp_to_int_def Let_def inc_def [symmetric] rs
      using True by (simp add: int_limits)
  next
    case False
    then have A: "r < 2 ^ 64" by simp
    have "softfloat_roundPackToI64 s sig ext rm exact st =
        (let sig = word_of_int r;
             invalid = (if s then i64_fromNegOverflow else i64_fromPosOverflow, softfloat_raiseFlags softfloat_flag_invalid st)
         in let z = (if s then - sig else sig) in if z \<noteq> 0 \<and> (sint z < 0) \<noteq> s then invalid else (z, 
            if exact \<and> ext \<noteq> 0 then softfloat_raiseFlags softfloat_flag_inexact st else st))"
    proof (cases inc)
      case True
      then have ne: "sig + 1 \<noteq> 0" using False cm(1) by blast
      show ?thesis
        unfolding softfloat_roundPackToI64_def Let_def inc_def [symmetric] cm(2) [OF True ne]
        using True ne by simp
    next
      case False
      show ?thesis
        unfolding softfloat_roundPackToI64_def Let_def inc_def [symmetric] cm(3) [OF False, symmetric]
        using False by simp
    qed
    moreover have "ext \<noteq> 0 \<longleftrightarrow> of_int r \<noteq> v" by (simp only: rs2 cm5)
    ultimately show ?thesis
      unfolding fp_to_i64_def fp_to_int_def Let_def rs
      using negate_range64 [of r s] cm(4) A rs2 cm5 by (simp add: int_limits)
  qed
qed

theorem roundPackToUI64_refines:
  assumes c: "cell 63 (of_int (uint sig * 2 ^ 64 + uint ext)) (v * 2 ^ 64)"
  shows "softfloat_roundPackToUI64 s sig ext rm exact st = fp_to_ui64 s v rm exact st"
proof -
  define r where "r = round_int 64 rm s (uint sig * 2 ^ 64 + uint ext)"
  define inc where "inc = (if rm \<noteq> softfloat_round_near_even \<and> rm \<noteq> softfloat_round_near_maxMag
             then rm = (if s then softfloat_round_min else softfloat_round_max) \<and> ext \<noteq> 0
             else 0x8000000000000000 \<le> ext)"
  note cm = roundPack64_common(1-4) [where sig = sig and ext = ext and rm = rm and s = s, folded r_def inc_def]
  note cm5 = roundPack64_common(5) [of ext sig]
  have "cell 63 (of_int (uint sig * 2 ^ 64 + uint ext)) (v * 2 ^ Suc 63)" using c by simp
  note rs0 = rnd_scaled [OF this, where rm = rm and s = s]
  have rs: "rnd rm s v = r" using rs0(1) by (simp add: r_def)
  have rs2: "of_int r \<noteq> v \<longleftrightarrow> (uint sig * 2 ^ 64 + uint ext) mod 2 ^ 64 \<noteq> 0"
    using rs0(2) unfolding rs by simp
  show ?thesis
  proof (cases "2 ^ 64 \<le> r")
    case True
    then have "inc" "sig + 1 = 0" using cm(1) by auto
    then show ?thesis
      unfolding softfloat_roundPackToUI64_def fp_to_ui64_def fp_to_int_def Let_def inc_def [symmetric] rs
      using True by (simp add: int_limits)
  next
    case False
    then have A: "r < 2 ^ 64" by simp
    have "softfloat_roundPackToUI64 s sig ext rm exact st =
        (let sig = word_of_int r;
             invalid = (if s then ui64_fromNegOverflow else ui64_fromPosOverflow, softfloat_raiseFlags softfloat_flag_invalid st)
         in if s \<and> sig \<noteq> 0 then invalid else (sig, 
            if exact \<and> ext \<noteq> 0 then softfloat_raiseFlags softfloat_flag_inexact st else st))"
    proof (cases inc)
      case True
      then have ne: "sig + 1 \<noteq> 0" using False cm(1) by blast
      show ?thesis
        unfolding softfloat_roundPackToUI64_def Let_def inc_def [symmetric] cm(2) [OF True ne]
        using True ne by simp
    next
      case False
      show ?thesis
        unfolding softfloat_roundPackToUI64_def Let_def inc_def [symmetric] cm(3) [OF False, symmetric]
        using False by simp
    qed
    moreover have "ext \<noteq> 0 \<longleftrightarrow> of_int r \<noteq> v" by (simp only: rs2 cm5)
    moreover have z: "word_of_int r = (0 :: u64) \<longleftrightarrow> r = 0"
      using A cm(4) by (simp add: word_zero_uint uint_word_of_int)
    ultimately show ?thesis
      unfolding fp_to_ui64_def fp_to_int_def Let_def rs
      using A cm(4) rs2 cm5 z by (auto simp: int_limits)
  qed
qed

end
