(* ===== verification/SF_ToInt.thy ===== *)
theory SF_ToInt
  imports SF_IntPack
begin

text \<open>
  Conversions from floats to integers: the sixteen functions \<open>f32_to_i32.c\<close> to
  \<open>f64_to_ui64_r_minMag.c\<close>.  Signed results are words read with \<open>sint\<close>.  The build takes the
  branch of \<open>specialize.h\<close> in which the NaN result equals the positive overflow, so a NaN
  operand has its sign cleared.
\<close>

section \<open>Definitions\<close>

definition f32_to_i32 :: "float32 \<Rightarrow> u8 \<Rightarrow> bool \<Rightarrow> sf_state \<Rightarrow> u32 \<times> sf_state" where
  "f32_to_i32 uiA roundingMode exact st =
     (let sign = signF32UI uiA;
          expA = expF32UI uiA;
          sig = fracF32UI uiA;
          sign = (if expA = 0xFF \<and> sig \<noteq> 0 then False else sign);
          sig = (if expA \<noteq> 0 then sig OR 0x00800000 else sig);
          sig64 = push_bit 32 (ucast sig :: u64);
          shiftDist = 0xAF - expA;
          sig64 = (if 0 < shiftDist then softfloat_shiftRightJam64 sig64 (nat shiftDist) else sig64)
      in softfloat_roundPackToI32 sign sig64 roundingMode exact st)"

definition f32_to_ui32 :: "float32 \<Rightarrow> u8 \<Rightarrow> bool \<Rightarrow> sf_state \<Rightarrow> u32 \<times> sf_state" where
  "f32_to_ui32 uiA roundingMode exact st =
     (let sign = signF32UI uiA;
          expA = expF32UI uiA;
          sig = fracF32UI uiA;
          sign = (if expA = 0xFF \<and> sig \<noteq> 0 then False else sign);
          sig = (if expA \<noteq> 0 then sig OR 0x00800000 else sig);
          sig64 = push_bit 32 (ucast sig :: u64);
          shiftDist = 0xAF - expA;
          sig64 = (if 0 < shiftDist then softfloat_shiftRightJam64 sig64 (nat shiftDist) else sig64)
      in softfloat_roundPackToUI32 sign sig64 roundingMode exact st)"

definition f32_to_i64 :: "float32 \<Rightarrow> u8 \<Rightarrow> bool \<Rightarrow> sf_state \<Rightarrow> u64 \<times> sf_state" where
  "f32_to_i64 uiA roundingMode exact st =
     (let sign = signF32UI uiA;
          expA = expF32UI uiA;
          sig = fracF32UI uiA;
          shiftDist = 0xBE - expA
      in if shiftDist < 0
         then (if expA = 0xFF \<and> sig \<noteq> 0 then i64_fromNaN
               else if sign then i64_fromNegOverflow else i64_fromPosOverflow,
               softfloat_raiseFlags softfloat_flag_invalid st)
         else let sig = (if expA \<noteq> 0 then sig OR 0x00800000 else sig);
                  sig64 = push_bit 40 (ucast sig :: u64);
                  sig64Extra = (if shiftDist \<noteq> 0 then softfloat_shiftRightJam64Extra sig64 0 (nat shiftDist)
                                else \<lparr>extra_v = sig64, extra_low = 0\<rparr>)
              in softfloat_roundPackToI64 sign (extra_v sig64Extra) (extra_low sig64Extra) roundingMode exact st)"

definition f32_to_ui64 :: "float32 \<Rightarrow> u8 \<Rightarrow> bool \<Rightarrow> sf_state \<Rightarrow> u64 \<times> sf_state" where
  "f32_to_ui64 uiA roundingMode exact st =
     (let sign = signF32UI uiA;
          expA = expF32UI uiA;
          sig = fracF32UI uiA;
          shiftDist = 0xBE - expA
      in if shiftDist < 0
         then (if expA = 0xFF \<and> sig \<noteq> 0 then ui64_fromNaN
               else if sign then ui64_fromNegOverflow else ui64_fromPosOverflow,
               softfloat_raiseFlags softfloat_flag_invalid st)
         else let sig = (if expA \<noteq> 0 then sig OR 0x00800000 else sig);
                  sig64 = push_bit 40 (ucast sig :: u64);
                  sig64Extra = (if shiftDist \<noteq> 0 then softfloat_shiftRightJam64Extra sig64 0 (nat shiftDist)
                                else \<lparr>extra_v = sig64, extra_low = 0\<rparr>)
              in softfloat_roundPackToUI64 sign (extra_v sig64Extra) (extra_low sig64Extra) roundingMode exact st)"

definition f64_to_i32 :: "float64 \<Rightarrow> u8 \<Rightarrow> bool \<Rightarrow> sf_state \<Rightarrow> u32 \<times> sf_state" where
  "f64_to_i32 uiA roundingMode exact st =
     (let sign = signF64UI uiA;
          expA = expF64UI uiA;
          sig = fracF64UI uiA;
          sign = (if expA = 0x7FF \<and> sig \<noteq> 0 then False else sign);
          sig = (if expA \<noteq> 0 then sig OR 0x0010000000000000 else sig);
          shiftDist = 0x42C - expA;
          sig = (if 0 < shiftDist then softfloat_shiftRightJam64 sig (nat shiftDist) else sig)
      in softfloat_roundPackToI32 sign sig roundingMode exact st)"

definition f64_to_ui32 :: "float64 \<Rightarrow> u8 \<Rightarrow> bool \<Rightarrow> sf_state \<Rightarrow> u32 \<times> sf_state" where
  "f64_to_ui32 uiA roundingMode exact st =
     (let sign = signF64UI uiA;
          expA = expF64UI uiA;
          sig = fracF64UI uiA;
          sign = (if expA = 0x7FF \<and> sig \<noteq> 0 then False else sign);
          sig = (if expA \<noteq> 0 then sig OR 0x0010000000000000 else sig);
          shiftDist = 0x42C - expA;
          sig = (if 0 < shiftDist then softfloat_shiftRightJam64 sig (nat shiftDist) else sig)
      in softfloat_roundPackToUI32 sign sig roundingMode exact st)"

definition f64_to_i64 :: "float64 \<Rightarrow> u8 \<Rightarrow> bool \<Rightarrow> sf_state \<Rightarrow> u64 \<times> sf_state" where
  "f64_to_i64 uiA roundingMode exact st =
     (let sign = signF64UI uiA;
          expA = expF64UI uiA;
          sig = fracF64UI uiA;
          sig = (if expA \<noteq> 0 then sig OR 0x0010000000000000 else sig);
          shiftDist = 0x433 - expA;
          finish = (\<lambda>sigExtra.
            softfloat_roundPackToI64 sign (extra_v sigExtra) (extra_low sigExtra) roundingMode exact st)
      in if shiftDist \<le> 0
         then if shiftDist < - 11
              then (if expA = 0x7FF \<and> fracF64UI uiA \<noteq> 0 then i64_fromNaN
                    else if sign then i64_fromNegOverflow else i64_fromPosOverflow,
                    softfloat_raiseFlags softfloat_flag_invalid st)
              else finish \<lparr>extra_v = push_bit (nat (- shiftDist)) sig, extra_low = 0\<rparr>
         else finish (softfloat_shiftRightJam64Extra sig 0 (nat shiftDist)))"

definition f64_to_ui64 :: "float64 \<Rightarrow> u8 \<Rightarrow> bool \<Rightarrow> sf_state \<Rightarrow> u64 \<times> sf_state" where
  "f64_to_ui64 uiA roundingMode exact st =
     (let sign = signF64UI uiA;
          expA = expF64UI uiA;
          sig = fracF64UI uiA;
          sig = (if expA \<noteq> 0 then sig OR 0x0010000000000000 else sig);
          shiftDist = 0x433 - expA;
          finish = (\<lambda>sigExtra.
            softfloat_roundPackToUI64 sign (extra_v sigExtra) (extra_low sigExtra) roundingMode exact st)
      in if shiftDist \<le> 0
         then if shiftDist < - 11
              then (if expA = 0x7FF \<and> fracF64UI uiA \<noteq> 0 then ui64_fromNaN
                    else if sign then ui64_fromNegOverflow else ui64_fromPosOverflow,
                    softfloat_raiseFlags softfloat_flag_invalid st)
              else finish \<lparr>extra_v = push_bit (nat (- shiftDist)) sig, extra_low = 0\<rparr>
         else finish (softfloat_shiftRightJam64Extra sig 0 (nat shiftDist)))"

definition f32_to_i32_r_minMag :: "float32 \<Rightarrow> bool \<Rightarrow> sf_state \<Rightarrow> u32 \<times> sf_state" where
  "f32_to_i32_r_minMag uiA exact st =
     (let expA = expF32UI uiA;
          sig = fracF32UI uiA;
          shiftDist = 0x9E - expA
      in if 32 \<le> shiftDist
         then (0, if exact \<and> word_of_int expA OR sig \<noteq> 0 then softfloat_raiseFlags softfloat_flag_inexact st else st)
         else let sign = signF32UI uiA
              in if shiftDist \<le> 0
                 then if uiA = packToF32UI True 0x9E 0 then (- 0x7FFFFFFF - 1, st)
                      else (if expA = 0xFF \<and> sig \<noteq> 0 then i32_fromNaN
                     else if sign then i32_fromNegOverflow else i32_fromPosOverflow,
                     softfloat_raiseFlags softfloat_flag_invalid st)
                 else let sig = push_bit 8 (sig OR 0x00800000);
                          absZ = drop_bit (nat shiftDist) sig;
                          st = (if exact \<and> push_bit (nat shiftDist) absZ \<noteq> sig then softfloat_raiseFlags softfloat_flag_inexact st else st)
                      in (if sign then - absZ else absZ, st))"

definition f32_to_ui32_r_minMag :: "float32 \<Rightarrow> bool \<Rightarrow> sf_state \<Rightarrow> u32 \<times> sf_state" where
  "f32_to_ui32_r_minMag uiA exact st =
     (let expA = expF32UI uiA;
          sig = fracF32UI uiA;
          shiftDist = 0x9E - expA
      in if 32 \<le> shiftDist
         then (0, if exact \<and> word_of_int expA OR sig \<noteq> 0 then softfloat_raiseFlags softfloat_flag_inexact st else st)
         else let sign = signF32UI uiA
              in if sign \<or> shiftDist < 0
                 then (if expA = 0xFF \<and> sig \<noteq> 0 then ui32_fromNaN
                     else if sign then ui32_fromNegOverflow else ui32_fromPosOverflow,
                     softfloat_raiseFlags softfloat_flag_invalid st)
                 else let sig = push_bit 8 (sig OR 0x00800000);
                          z = drop_bit (nat shiftDist) sig;
                          st = (if exact \<and> push_bit (nat shiftDist) z \<noteq> sig then softfloat_raiseFlags softfloat_flag_inexact st else st)
                      in (z, st))"

definition f32_to_i64_r_minMag :: "float32 \<Rightarrow> bool \<Rightarrow> sf_state \<Rightarrow> u64 \<times> sf_state" where
  "f32_to_i64_r_minMag uiA exact st =
     (let expA = expF32UI uiA;
          sig = fracF32UI uiA;
          shiftDist = 0xBE - expA
      in if 64 \<le> shiftDist
         then (0, if exact \<and> word_of_int expA OR sig \<noteq> 0 then softfloat_raiseFlags softfloat_flag_inexact st else st)
         else let sign = signF32UI uiA
              in if shiftDist \<le> 0
                 then if uiA = packToF32UI True 0xBE 0 then (- 0x7FFFFFFFFFFFFFFF - 1, st)
                      else (if expA = 0xFF \<and> sig \<noteq> 0 then i64_fromNaN
                     else if sign then i64_fromNegOverflow else i64_fromPosOverflow,
                     softfloat_raiseFlags softfloat_flag_invalid st)
                 else let sig = sig OR 0x00800000;
                          sig64 = push_bit 40 (ucast sig :: u64);
                          absZ = drop_bit (nat shiftDist) sig64;
                          shiftDist = 40 - shiftDist;
                          st = (if exact \<and> shiftDist < 0 \<and> push_bit (nat (shiftDist mod 32)) sig \<noteq> 0
                                then softfloat_raiseFlags softfloat_flag_inexact st else st)
                      in (if sign then - absZ else absZ, st))"

definition f32_to_ui64_r_minMag :: "float32 \<Rightarrow> bool \<Rightarrow> sf_state \<Rightarrow> u64 \<times> sf_state" where
  "f32_to_ui64_r_minMag uiA exact st =
     (let expA = expF32UI uiA;
          sig = fracF32UI uiA;
          shiftDist = 0xBE - expA
      in if 64 \<le> shiftDist
         then (0, if exact \<and> word_of_int expA OR sig \<noteq> 0 then softfloat_raiseFlags softfloat_flag_inexact st else st)
         else let sign = signF32UI uiA
              in if sign \<or> shiftDist < 0
                 then (if expA = 0xFF \<and> sig \<noteq> 0 then ui64_fromNaN
                     else if sign then ui64_fromNegOverflow else ui64_fromPosOverflow,
                     softfloat_raiseFlags softfloat_flag_invalid st)
                 else let sig = sig OR 0x00800000;
                          sig64 = push_bit 40 (ucast sig :: u64);
                          z = drop_bit (nat shiftDist) sig64;
                          shiftDist = 40 - shiftDist;
                          st = (if exact \<and> shiftDist < 0 \<and> push_bit (nat (shiftDist mod 32)) sig \<noteq> 0
                                then softfloat_raiseFlags softfloat_flag_inexact st else st)
                      in (z, st))"

definition f64_to_i32_r_minMag :: "float64 \<Rightarrow> bool \<Rightarrow> sf_state \<Rightarrow> u32 \<times> sf_state" where
  "f64_to_i32_r_minMag uiA exact st =
     (let expA = expF64UI uiA;
          sig = fracF64UI uiA;
          shiftDist = 0x433 - expA
      in if 53 \<le> shiftDist
         then (0, if exact \<and> word_of_int expA OR sig \<noteq> 0 then softfloat_raiseFlags softfloat_flag_inexact st else st)
         else let sign = signF64UI uiA
              in if shiftDist < 22
                 then if sign \<and> expA = 0x41E \<and> sig < 0x0000000000200000
                      then (- 0x7FFFFFFF - 1, if exact \<and> sig \<noteq> 0 then softfloat_raiseFlags softfloat_flag_inexact st else st)
                      else (if expA = 0x7FF \<and> sig \<noteq> 0 then i32_fromNaN
                     else if sign then i32_fromNegOverflow else i32_fromPosOverflow,
                     softfloat_raiseFlags softfloat_flag_invalid st)
                 else let sig = sig OR 0x0010000000000000;
                          absZ = (ucast (drop_bit (nat shiftDist) sig) :: u32);
                          st = (if exact \<and> push_bit (nat shiftDist) (ucast absZ) \<noteq> sig then softfloat_raiseFlags softfloat_flag_inexact st else st)
                      in (if sign then - absZ else absZ, st))"

definition f64_to_ui32_r_minMag :: "float64 \<Rightarrow> bool \<Rightarrow> sf_state \<Rightarrow> u32 \<times> sf_state" where
  "f64_to_ui32_r_minMag uiA exact st =
     (let expA = expF64UI uiA;
          sig = fracF64UI uiA;
          shiftDist = 0x433 - expA
      in if 53 \<le> shiftDist
         then (0, if exact \<and> word_of_int expA OR sig \<noteq> 0 then softfloat_raiseFlags softfloat_flag_inexact st else st)
         else let sign = signF64UI uiA
              in if sign \<or> shiftDist < 21
                 then (if expA = 0x7FF \<and> sig \<noteq> 0 then ui32_fromNaN
                     else if sign then ui32_fromNegOverflow else ui32_fromPosOverflow,
                     softfloat_raiseFlags softfloat_flag_invalid st)
                 else let sig = sig OR 0x0010000000000000;
                          z = (ucast (drop_bit (nat shiftDist) sig) :: u32);
                          st = (if exact \<and> push_bit (nat shiftDist) (ucast z) \<noteq> sig then softfloat_raiseFlags softfloat_flag_inexact st else st)
                      in (z, st))"

definition f64_to_i64_r_minMag :: "float64 \<Rightarrow> bool \<Rightarrow> sf_state \<Rightarrow> u64 \<times> sf_state" where
  "f64_to_i64_r_minMag uiA exact st =
     (let sign = signF64UI uiA;
          expA = expF64UI uiA;
          sig = fracF64UI uiA;
          shiftDist = 0x433 - expA
      in if shiftDist \<le> 0
         then if shiftDist < - 10
              then if uiA = packToF64UI True 0x43E 0 then (- 0x7FFFFFFFFFFFFFFF - 1, st)
                   else (if expA = 0x7FF \<and> sig \<noteq> 0 then i64_fromNaN
                     else if sign then i64_fromNegOverflow else i64_fromPosOverflow,
                     softfloat_raiseFlags softfloat_flag_invalid st)
              else let sig = sig OR 0x0010000000000000;
                       absZ = push_bit (nat (- shiftDist)) sig
                   in (if sign then - absZ else absZ, st)
         else if 53 \<le> shiftDist
         then (0, if exact \<and> word_of_int expA OR sig \<noteq> 0 then softfloat_raiseFlags softfloat_flag_inexact st else st)
         else let sig = sig OR 0x0010000000000000;
                  absZ = drop_bit (nat shiftDist) sig;
                  st = (if exact \<and> push_bit (nat shiftDist) absZ \<noteq> sig then softfloat_raiseFlags softfloat_flag_inexact st else st)
              in (if sign then - absZ else absZ, st))"

definition f64_to_ui64_r_minMag :: "float64 \<Rightarrow> bool \<Rightarrow> sf_state \<Rightarrow> u64 \<times> sf_state" where
  "f64_to_ui64_r_minMag uiA exact st =
     (let expA = expF64UI uiA;
          sig = fracF64UI uiA;
          shiftDist = 0x433 - expA
      in if 53 \<le> shiftDist
         then (0, if exact \<and> word_of_int expA OR sig \<noteq> 0 then softfloat_raiseFlags softfloat_flag_inexact st else st)
         else let sign = signF64UI uiA;
                  invalid = (if expA = 0x7FF \<and> sig \<noteq> 0 then ui64_fromNaN
                     else if sign then ui64_fromNegOverflow else ui64_fromPosOverflow,
                     softfloat_raiseFlags softfloat_flag_invalid st)
              in if sign then invalid
                 else if shiftDist \<le> 0
                 then if shiftDist < - 11 then invalid
                      else (push_bit (nat (- shiftDist)) (sig OR 0x0010000000000000), st)
                 else let sig = sig OR 0x0010000000000000;
                          z = drop_bit (nat shiftDist) sig;
                          st = (if exact \<and> push_bit (nat ((- shiftDist) mod 64)) sig \<noteq> 0 then softfloat_raiseFlags softfloat_flag_inexact st else st)
                      in (z, st))"

section \<open>Specification\<close>

definition f32_to_int_spec ::
  "'w::len word \<Rightarrow> (bool \<Rightarrow> real \<Rightarrow> u8 \<Rightarrow> bool \<Rightarrow> sf_state \<Rightarrow> 'w word \<times> sf_state) \<Rightarrow>
   float32 \<Rightarrow> u8 \<Rightarrow> bool \<Rightarrow> sf_state \<Rightarrow> 'w word \<times> sf_state" where
  "f32_to_int_spec fromNaN conv a rm exact st =
     (if isNaNF32UI a then (fromNaN, softfloat_raiseFlags softfloat_flag_invalid st)
      else conv (signF32UI a) (f32_abs a) rm exact st)"

definition f64_to_int_spec ::
  "'w::len word \<Rightarrow> (bool \<Rightarrow> real \<Rightarrow> u8 \<Rightarrow> bool \<Rightarrow> sf_state \<Rightarrow> 'w word \<times> sf_state) \<Rightarrow>
   float64 \<Rightarrow> u8 \<Rightarrow> bool \<Rightarrow> sf_state \<Rightarrow> 'w word \<times> sf_state" where
  "f64_to_int_spec fromNaN conv a rm exact st =
     (if isNaNF64UI a then (fromNaN, softfloat_raiseFlags softfloat_flag_invalid st)
      else conv (signF64UI a) (f64_abs a) rm exact st)"

section \<open>Fixed-point cells\<close>

lemma cell_small:
  assumes "0 < n" "n < 2 ^ h" "0 < x" "x < 2 ^ h"
  shows "cell h n x"
  unfolding cell_def
proof
  fix j :: int
  consider "j \<le> 0" | "1 \<le> j" by linarith
  then show "(n < of_int j * 2 ^ h \<longleftrightarrow> x < of_int j * 2 ^ h) \<and> (n = of_int j * 2 ^ h \<longleftrightarrow> x = of_int j * 2 ^ h)"
  proof cases
    case 1
    then have "real_of_int j * 2 ^ h \<le> 0" by (simp add: mult_nonpos_nonneg)
    then show ?thesis using assms by linarith
  next
    case 2
    then have "1 * 2 ^ h \<le> real_of_int j * 2 ^ h" by (intro mult_right_mono) auto
    then show ?thesis using assms by linarith
  qed
qed

text \<open>Outside the range of the type the result does not depend on the value.\<close>

lemma rnd_big: "of_int k \<le> v \<Longrightarrow> k \<le> rnd rm s v"
  by (rule rnd_mono_int)

lemma fp_to_int_big:
  assumes "2 ^ K \<le> v" "- (2 ^ K) < lo" "hi < 2 ^ K" "lo \<le> 0" "0 \<le> hi"
  shows "fp_to_int lo hi s v rm exact st =
    (word_of_int (if s then lo else hi), softfloat_raiseFlags softfloat_flag_invalid st)"
proof -
  have "of_int (2 ^ K) \<le> v" using assms(1) by simp
  then have "2 ^ K \<le> rnd rm s v" by (rule rnd_big)
  then show ?thesis unfolding fp_to_int_def Let_def using assms(2-) by auto
qed

lemma fp_to_big:
  "2 ^ 33 \<le> v \<Longrightarrow> fp_to_i32 s v rm exact st =
     (if s then i32_fromNegOverflow else i32_fromPosOverflow, softfloat_raiseFlags softfloat_flag_invalid st)"
  "2 ^ 33 \<le> v \<Longrightarrow> fp_to_ui32 s v rm exact st =
     (if s then ui32_fromNegOverflow else ui32_fromPosOverflow, softfloat_raiseFlags softfloat_flag_invalid st)"
  "2 ^ 64 \<le> v \<Longrightarrow> fp_to_i64 s v rm exact st =
     (if s then i64_fromNegOverflow else i64_fromPosOverflow, softfloat_raiseFlags softfloat_flag_invalid st)"
  "2 ^ 64 \<le> v \<Longrightarrow> fp_to_ui64 s v rm exact st =
     (if s then ui64_fromNegOverflow else ui64_fromPosOverflow, softfloat_raiseFlags softfloat_flag_invalid st)"
  unfolding fp_to_i32_def fp_to_ui32_def fp_to_i64_def fp_to_ui64_def
  by (subst fp_to_int_big [where K = 33]; simp add: int_limits; fail
    | subst fp_to_int_big [where K = 64]; simp add: int_limits; fail)+

theorem shiftRightJam64Extra_cell:
  fixes a :: u64
  assumes "1 \<le> count"
  defines "z \<equiv> softfloat_shiftRightJam64Extra a 0 count"
  shows "cell 63 (of_int (uint (extra_v z) * 2 ^ 64 + uint (extra_low z))) (of_int (uint a) * 2 ^ 64 / 2 ^ count)"
proof -
  consider (short) "count < 64" | (eq) "count = 64" | (long) "64 < count" by linarith
  then show ?thesis
  proof cases
    case short
    have "uint (extra_v z) * 2 ^ 64 + uint (extra_low z) = uint a * 2 ^ (64 - count)"
    proof -
      have p: "(2::int) ^ 64 = 2 ^ count * 2 ^ (64 - count)" using short by (simp flip: power_add)
      define q r where "q = uint a div 2 ^ count" and "r = uint a mod 2 ^ count"
      have a: "uint a = q * 2 ^ count + r" unfolding q_def r_def by (rule div_split_pow)
      have "uint (extra_v z) = q" "uint (extra_low z) = r * 2 ^ (64 - count)" unfolding q_def r_def
        using short assms(1) uint_push_low [of count a]
        by (simp_all add: z_def softfloat_shiftRightJam64Extra_def neg_and_less uint_drop_bit_div)
      then show ?thesis unfolding a p by (simp add: algebra_simps)
    qed
    moreover have "real_of_int (uint a * 2 ^ (64 - count)) = of_int (uint a) * 2 ^ 64 / 2 ^ count"
    proof -
      have p: "(2::real) ^ 64 = 2 ^ count * 2 ^ (64 - count)" using short by (simp flip: power_add)
      show ?thesis unfolding p by simp
    qed
    ultimately show ?thesis by simp
  next
    case eq
    then show ?thesis by (simp add: z_def softfloat_shiftRightJam64Extra_def)
  next
    case long
    then have z: "uint (extra_v z) * 2 ^ 64 + uint (extra_low z) = of_bool (a \<noteq> 0)"
      by (simp add: z_def softfloat_shiftRightJam64Extra_def)
    show ?thesis
    proof (cases "a = 0")
      case True
      then show ?thesis unfolding z by simp
    next
      case False
      have "real_of_int (uint a) < of_int (2 ^ 64)" unfolding of_int_less_iff using uint_lt2p [of a] by simp
      then have "real_of_int (uint a) * 2 ^ 64 / 2 ^ count < 2 ^ 64 * 2 ^ 64 / 2 ^ count"
        by (simp add: divide_strict_right_mono)
      also have "\<dots> \<le> 2 ^ 64 * 2 ^ 64 / 2 ^ 65"
        using long by (intro divide_left_mono power_increasing) auto
      also have "\<dots> = 2 ^ 63" by simp
      finally have "real_of_int (uint a) * 2 ^ 64 / 2 ^ count < 2 ^ 63" .
      moreover have "0 < real_of_int (uint a)" using False by (simp add: word_zero_uint order_less_le)
      ultimately show ?thesis using False unfolding z by (intro cell_small) auto
    qed
  qed
qed

text \<open>The significand with its hidden bit, and the value in the scale of the code.\<close>

definition f32_sig :: "float32 \<Rightarrow> u32" where
  "f32_sig a = (if expF32UI a \<noteq> 0 then fracF32UI a OR 0x00800000 else fracF32UI a)"

lemma f32_sig_bounds:
  "uint (f32_sig a) < 2 ^ 24" "expF32UI a \<noteq> 0 \<Longrightarrow> 2 ^ 23 \<le> uint (f32_sig a)"
  "expF32UI a \<noteq> 0 \<Longrightarrow> f32_abs a = of_int (uint (f32_sig a)) * 2 powi (expF32UI a - 150)"
  "expF32UI a = 0 \<Longrightarrow> f32_abs a = of_int (uint (f32_sig a)) * 2 powi (- 149)"
proof -
  have s: "uint (f32_sig a) = (if expF32UI a \<noteq> 0 then 2 ^ 23 + uint (fracF32UI a) else uint (fracF32UI a))"
    using or_hidden32 [OF fracF32UI_bounds(2), of a] by (simp add: f32_sig_def)
  show "uint (f32_sig a) < 2 ^ 24" "expF32UI a \<noteq> 0 \<Longrightarrow> 2 ^ 23 \<le> uint (f32_sig a)"
    using fracF32UI_bounds [of a] unfolding s by simp_all
  show "expF32UI a \<noteq> 0 \<Longrightarrow> f32_abs a = of_int (uint (f32_sig a)) * 2 powi (expF32UI a - 150)"
    "expF32UI a = 0 \<Longrightarrow> f32_abs a = of_int (uint (f32_sig a)) * 2 powi (- 149)"
    unfolding s f32_abs_fields by simp_all
qed

lemma f32_big: "150 + K - 23 \<le> expF32UI a \<Longrightarrow> 0 \<le> K \<Longrightarrow> 2 ^ nat K \<le> f32_abs a"
proof -
  assume e: "150 + K - 23 \<le> expF32UI a" "0 \<le> K"
  then have nz: "expF32UI a \<noteq> 0" by linarith
  have "(2::real) ^ nat K = 2 powi K" using e(2) by (simp flip: power_int_of_nat)
  also have "\<dots> \<le> 2 powi (23 + (expF32UI a - 150))" using e by simp
  also have "\<dots> = 2 ^ 23 * 2 powi (expF32UI a - 150)" unfolding powi_add by simp
  also have "\<dots> \<le> of_int (uint (f32_sig a)) * 2 powi (expF32UI a - 150)"
  proof (rule mult_right_mono)
    have "real_of_int (2 ^ 23) \<le> of_int (uint (f32_sig a))"
      unfolding of_int_le_iff by (rule f32_sig_bounds(2) [OF nz])
    then show "2 ^ 23 \<le> real_of_int (uint (f32_sig a))" by simp
  qed simp
  finally show ?thesis unfolding f32_sig_bounds(3) [OF nz] .
qed

lemma f32_tiny: "expF32UI a = 0 \<Longrightarrow> f32_abs a < 2 powi (- 100)"
proof -
  assume e: "expF32UI a = 0"
  have "real_of_int (uint (f32_sig a)) < of_int (2 ^ 24)" unfolding of_int_less_iff by (rule f32_sig_bounds)
  then have "f32_abs a < 2 ^ 24 * 2 powi (- 149)" unfolding f32_sig_bounds(4) [OF e] by simp
  also have "\<dots> = 2 powi (int 24 + - 149)" unfolding powi_add power_int_of_nat ..
  also have "\<dots> < 2 powi (- 100)" by simp
  finally show ?thesis .
qed

subsection \<open>Single precision to 32-bit integers\<close>

lemma f32_to_int32_cell:
  assumes "expF32UI a < 175"
  defines "S \<equiv> push_bit 32 (ucast (f32_sig a) :: u64)"
  shows "cell 6 (of_int (uint (softfloat_shiftRightJam64 S (nat (175 - expF32UI a))))) (f32_abs a * 2 ^ 7)"
    and "uint (softfloat_shiftRightJam64 S (nat (175 - expF32UI a))) < 2 ^ 63"
proof -
  define d where "d = nat (175 - expF32UI a)"
  have d: "1 \<le> d" "expF32UI a = 175 - int d" using assms(1) by (auto simp: d_def)
  have S: "uint S = uint (f32_sig a) * 2 ^ 32"
    using f32_sig_bounds(1) [of a] unfolding S_def by (subst uint_push_bit_small) simp_all
  have j: "uint (softfloat_shiftRightJam64 S d) = jam (uint S) d" by (rule shiftRightJam64_correct [OF d(1)])
  have "jam (uint S) d \<le> uint S div 2 ^ d + 1" by (rule jam_bounds)
  also have "\<dots> \<le> uint S div 2 ^ 1 + 1"
    using d(1) by (intro add_right_mono zdiv_mono2 power_increasing) simp_all
  also have "\<dots> < 2 ^ 63" unfolding S using f32_sig_bounds(1) [of a] by simp
  finally show "uint (softfloat_shiftRightJam64 S d) < 2 ^ 63" unfolding j .
  show "cell 6 (of_int (uint (softfloat_shiftRightJam64 S d))) (f32_abs a * 2 ^ 7)"
  proof (cases "expF32UI a = 0")
    case False
    have "f32_abs a * 2 ^ 7 = of_int (uint (f32_sig a)) * 2 powi (25 - int d + int 7)"
      unfolding f32_sig_bounds(3) [OF False] powi_add by (simp add: d(2))
    also have "\<dots> = of_int (uint S) / 2 ^ d" unfolding S by (simp add: powi_diff)
    finally show ?thesis unfolding j using cell_jam_int [of 6 "uint S" d] by simp
  next
    case True
    then have d175: "d = 175" by (simp add: d_def)
    have "uint S < 2 ^ d" unfolding S d175 using f32_sig_bounds(1) [of a] by simp
    then have jz: "jam (uint S) d = of_bool (f32_sig a \<noteq> 0)"
      by (subst jam_large) (auto simp: S word_zero_uint)
    show ?thesis
    proof (cases "f32_sig a = 0")
      case True
      then show ?thesis unfolding j jz f32_sig_bounds(4) [OF \<open>expF32UI a = 0\<close>] by simp
    next
      case False
      then have "0 < f32_abs a"
        unfolding f32_sig_bounds(4) [OF True] by (simp add: word_zero_uint order_less_le)
      moreover have "f32_abs a * 2 ^ 7 < 2 powi (- 100) * 2 ^ 7" using f32_tiny [OF True] by simp
      moreover have "(2::real) powi (- 100) * 2 ^ 7 < 2 ^ 6" by simp
      ultimately show ?thesis unfolding j jz using False by (intro cell_small) auto
    qed
  qed
qed

lemma f32_to_int32_big:
  assumes "175 \<le> expF32UI a"
  shows "uint (push_bit 32 (ucast (f32_sig a) :: u64)) < 2 ^ 63"
    and "2 ^ 33 \<le> real_of_int (uint (push_bit 32 (ucast (f32_sig a) :: u64))) / 2 ^ 7"
    and "2 ^ 33 \<le> f32_abs a"
proof -
  have nz: "expF32UI a \<noteq> 0" using assms by simp
  have S: "uint (push_bit 32 (ucast (f32_sig a) :: u64)) = uint (f32_sig a) * 2 ^ 32"
    using f32_sig_bounds(1) [of a] by (subst uint_push_bit_small) simp_all
  then show "uint (push_bit 32 (ucast (f32_sig a) :: u64)) < 2 ^ 63" using f32_sig_bounds(1) [of a] by simp
  have "real_of_int (2 ^ 23 * 2 ^ 32) \<le> of_int (uint (f32_sig a) * 2 ^ 32)"
    using f32_sig_bounds(2) [OF nz] unfolding of_int_le_iff by simp
  then show "2 ^ 33 \<le> real_of_int (uint (push_bit 32 (ucast (f32_sig a) :: u64))) / 2 ^ 7"
    unfolding S by simp
  show "2 ^ 33 \<le> f32_abs a" using f32_big [of 33 a] assms by simp
qed

theorem f32_to_i32_refines:
  "f32_to_i32 a rm exact st = f32_to_int_spec i32_fromNaN fp_to_i32 a rm exact st"
proof -
  define S where "S = push_bit 32 (ucast (f32_sig a) :: u64)"
  have code: "f32_to_i32 a rm exact st = softfloat_roundPackToI32
      (if isNaNF32UI a then False else signF32UI a)
      (if expF32UI a < 175 then softfloat_shiftRightJam64 S (nat (175 - expF32UI a)) else S) rm exact st"
    unfolding f32_to_i32_def Let_def S_def isNaNF32UI_int f32_sig_def by simp
  show ?thesis
  proof (cases "expF32UI a < 175")
    case True
    then have "\<not> isNaNF32UI a" by (simp add: isNaNF32UI_int)
    then show ?thesis
      unfolding code f32_to_int_spec_def S_def
      using roundPackToI32_refines [OF f32_to_int32_cell [OF True]] True by simp
  next
    case False
    then have e: "175 \<le> expF32UI a" by simp
    note b = f32_to_int32_big [OF e, folded S_def]
    have "cell 6 (of_int (uint S)) (of_int (uint S) / 2 ^ 7 * 2 ^ 7)" by simp
    note r = roundPackToI32_refines [OF this b(1)]
    show ?thesis
      unfolding code f32_to_int_spec_def
      by (simp only: False if_False r fp_to_big(1) [OF b(2)] fp_to_big(1) [OF b(3)]) (simp add: int_limits)
  qed
qed

theorem f32_to_ui32_refines:
  "f32_to_ui32 a rm exact st = f32_to_int_spec ui32_fromNaN fp_to_ui32 a rm exact st"
proof -
  define S where "S = push_bit 32 (ucast (f32_sig a) :: u64)"
  have code: "f32_to_ui32 a rm exact st = softfloat_roundPackToUI32
      (if isNaNF32UI a then False else signF32UI a)
      (if expF32UI a < 175 then softfloat_shiftRightJam64 S (nat (175 - expF32UI a)) else S) rm exact st"
    unfolding f32_to_ui32_def Let_def S_def isNaNF32UI_int f32_sig_def by simp
  show ?thesis
  proof (cases "expF32UI a < 175")
    case True
    then have "\<not> isNaNF32UI a" by (simp add: isNaNF32UI_int)
    then show ?thesis
      unfolding code f32_to_int_spec_def S_def
      using roundPackToUI32_refines [OF f32_to_int32_cell [OF True]] True by simp
  next
    case False
    then have e: "175 \<le> expF32UI a" by simp
    note b = f32_to_int32_big [OF e, folded S_def]
    have "cell 6 (of_int (uint S)) (of_int (uint S) / 2 ^ 7 * 2 ^ 7)" by simp
    note r = roundPackToUI32_refines [OF this b(1)]
    show ?thesis
      unfolding code f32_to_int_spec_def
      by (simp only: False if_False r fp_to_big(2) [OF b(2)] fp_to_big(2) [OF b(3)]) (simp add: int_limits)
  qed
qed

subsection \<open>Single precision to 64-bit integers\<close>

lemma f32_to_int64_cell:
  assumes "expF32UI a \<le> 190"
  defines "S \<equiv> push_bit 40 (ucast (f32_sig a) :: u64)"
  defines "z \<equiv> (if 190 - expF32UI a \<noteq> 0 then softfloat_shiftRightJam64Extra S 0 (nat (190 - expF32UI a))
                 else \<lparr>extra_v = S, extra_low = 0\<rparr>)"
  shows "cell 63 (of_int (uint (extra_v z) * 2 ^ 64 + uint (extra_low z))) (f32_abs a * 2 ^ 64)"
proof -
  define d where "d = nat (190 - expF32UI a)"
  have d: "expF32UI a = 190 - int d" using assms(1) by (auto simp: d_def)
  have S: "uint S = uint (f32_sig a) * 2 ^ 40"
    using f32_sig_bounds(1) [of a] unfolding S_def by (subst uint_push_bit_small) simp_all
  have c: "cell 63 (of_int (uint (extra_v z) * 2 ^ 64 + uint (extra_low z))) (of_int (uint S) * 2 ^ 64 / 2 ^ d)"
    using shiftRightJam64Extra_cell [of d S] assms(1) unfolding z_def d_def by (cases "expF32UI a = 190") auto
  show ?thesis
  proof (cases "expF32UI a = 0")
    case False
    have "f32_abs a * 2 ^ 64 = of_int (uint (f32_sig a)) * 2 powi (40 - int d + int 64)"
      unfolding f32_sig_bounds(3) [OF False] powi_add by (simp add: d)
    also have "\<dots> = of_int (uint S) * 2 ^ 64 / 2 ^ d" unfolding S by (simp add: powi_diff powi_add)
    finally show ?thesis using c by simp
  next
    case True
    then have d190: "d = 190" by (simp add: d_def)
    then have z: "uint (extra_v z) * 2 ^ 64 + uint (extra_low z) = of_bool (S \<noteq> 0)"
      unfolding z_def d_def using True by (simp add: softfloat_shiftRightJam64Extra_def)
    show ?thesis
    proof (cases "f32_sig a = 0")
      case True
      then show ?thesis unfolding z f32_sig_bounds(4) [OF \<open>expF32UI a = 0\<close>] by (simp add: S_def)
    next
      case False
      then have "0 < f32_abs a"
        unfolding f32_sig_bounds(4) [OF True] by (simp add: word_zero_uint order_less_le)
      moreover have "f32_abs a * 2 ^ 64 < 2 powi (- 100) * 2 ^ 64" using f32_tiny [OF True] by simp
      moreover have "(2::real) powi (- 100) * 2 ^ 64 < 2 ^ 63" by simp
      moreover have "S \<noteq> 0" using False S by (auto simp: word_zero_uint)
      ultimately show ?thesis unfolding z by (intro cell_small) auto
    qed
  qed
qed

theorem f32_to_i64_refines:
  "f32_to_i64 a rm exact st = f32_to_int_spec i64_fromNaN fp_to_i64 a rm exact st"
proof (cases "expF32UI a \<le> 190")
  case True
  then have "\<not> isNaNF32UI a" by (simp add: isNaNF32UI_int)
  moreover have "(190 - expF32UI a < 0) = False" using True by simp
  ultimately show ?thesis
    unfolding f32_to_i64_def Let_def f32_to_int_spec_def f32_sig_def [symmetric]
    using roundPackToI64_refines [OF f32_to_int64_cell [OF True]] by simp
next
  case False
  then have "2 ^ 64 \<le> f32_abs a" using f32_big [of 64 a] by simp
  then show ?thesis
    unfolding f32_to_i64_def Let_def f32_to_int_spec_def fp_to_big(3) [OF \<open>2 ^ 64 \<le> f32_abs a\<close>]
    using False by (simp add: isNaNF32UI_int int_limits)
qed

theorem f32_to_ui64_refines:
  "f32_to_ui64 a rm exact st = f32_to_int_spec ui64_fromNaN fp_to_ui64 a rm exact st"
proof (cases "expF32UI a \<le> 190")
  case True
  then have "\<not> isNaNF32UI a" by (simp add: isNaNF32UI_int)
  moreover have "(190 - expF32UI a < 0) = False" using True by simp
  ultimately show ?thesis
    unfolding f32_to_ui64_def Let_def f32_to_int_spec_def f32_sig_def [symmetric]
    using roundPackToUI64_refines [OF f32_to_int64_cell [OF True]] by simp
next
  case False
  then have "2 ^ 64 \<le> f32_abs a" using f32_big [of 64 a] by simp
  then show ?thesis
    unfolding f32_to_ui64_def Let_def f32_to_int_spec_def fp_to_big(4) [OF \<open>2 ^ 64 \<le> f32_abs a\<close>]
    using False by (simp add: isNaNF32UI_int int_limits)
qed

definition f64_sig :: "float64 \<Rightarrow> u64" where
  "f64_sig a = (if expF64UI a \<noteq> 0 then fracF64UI a OR 0x0010000000000000 else fracF64UI a)"

lemma f64_sig_bounds:
  "uint (f64_sig a) < 2 ^ 53" "expF64UI a \<noteq> 0 \<Longrightarrow> 2 ^ 52 \<le> uint (f64_sig a)"
  "expF64UI a \<noteq> 0 \<Longrightarrow> f64_abs a = of_int (uint (f64_sig a)) * 2 powi (expF64UI a - 1075)"
  "expF64UI a = 0 \<Longrightarrow> f64_abs a = of_int (uint (f64_sig a)) * 2 powi (- 1074)"
proof -
  have s: "uint (f64_sig a) = (if expF64UI a \<noteq> 0 then 2 ^ 52 + uint (fracF64UI a) else uint (fracF64UI a))"
    using or_hidden64 [OF fracF64UI_bounds(2), of a] by (simp add: f64_sig_def)
  show "uint (f64_sig a) < 2 ^ 53" "expF64UI a \<noteq> 0 \<Longrightarrow> 2 ^ 52 \<le> uint (f64_sig a)"
    using fracF64UI_bounds [of a] unfolding s by simp_all
  show "expF64UI a \<noteq> 0 \<Longrightarrow> f64_abs a = of_int (uint (f64_sig a)) * 2 powi (expF64UI a - 1075)"
    "expF64UI a = 0 \<Longrightarrow> f64_abs a = of_int (uint (f64_sig a)) * 2 powi (- 1074)"
    unfolding s f64_abs_fields by simp_all
qed

lemma f64_big: "1075 + K - 52 \<le> expF64UI a \<Longrightarrow> 0 \<le> K \<Longrightarrow> 2 ^ nat K \<le> f64_abs a"
proof -
  assume e: "1075 + K - 52 \<le> expF64UI a" "0 \<le> K"
  then have nz: "expF64UI a \<noteq> 0" by linarith
  have "(2::real) ^ nat K = 2 powi K" using e(2) by (simp flip: power_int_of_nat)
  also have "\<dots> \<le> 2 powi (52 + (expF64UI a - 1075))" using e by simp
  also have "\<dots> = 2 ^ 52 * 2 powi (expF64UI a - 1075)" unfolding powi_add by simp
  also have "\<dots> \<le> of_int (uint (f64_sig a)) * 2 powi (expF64UI a - 1075)"
  proof (rule mult_right_mono)
    have "real_of_int (2 ^ 52) \<le> of_int (uint (f64_sig a))"
      unfolding of_int_le_iff by (rule f64_sig_bounds(2) [OF nz])
    then show "2 ^ 52 \<le> real_of_int (uint (f64_sig a))" by simp
  qed simp
  finally show ?thesis unfolding f64_sig_bounds(3) [OF nz] .
qed

lemma f64_tiny: "expF64UI a = 0 \<Longrightarrow> f64_abs a < 2 powi (- 900)"
proof -
  assume e: "expF64UI a = 0"
  have "real_of_int (uint (f64_sig a)) < of_int (2 ^ 53)" unfolding of_int_less_iff by (rule f64_sig_bounds)
  then have "f64_abs a < 2 ^ 53 * 2 powi (- 1074)" unfolding f64_sig_bounds(4) [OF e] by simp
  also have "\<dots> = 2 powi (int 53 + - 1074)" unfolding powi_add power_int_of_nat ..
  also have "\<dots> < 2 powi (- 900)" by simp
  finally show ?thesis .
qed

subsection \<open>Double precision to 32-bit integers\<close>

lemma f64_to_int32_cell:
  assumes "expF64UI a < 1068"
  defines "S \<equiv> f64_sig a"
  shows "cell 6 (of_int (uint (softfloat_shiftRightJam64 S (nat (1068 - expF64UI a))))) (f64_abs a * 2 ^ 7)"
    and "uint (softfloat_shiftRightJam64 S (nat (1068 - expF64UI a))) < 2 ^ 63"
proof -
  define d where "d = nat (1068 - expF64UI a)"
  have d: "1 \<le> d" "expF64UI a = 1068 - int d" using assms(1) by (auto simp: d_def)
  have j: "uint (softfloat_shiftRightJam64 S d) = jam (uint S) d" by (rule shiftRightJam64_correct [OF d(1)])
  have "jam (uint S) d \<le> uint S div 2 ^ d + 1" by (rule jam_bounds)
  also have "\<dots> \<le> uint S div 2 ^ 1 + 1"
    using d(1) by (intro add_right_mono zdiv_mono2 power_increasing) simp_all
  also have "\<dots> < 2 ^ 63" unfolding S_def using f64_sig_bounds(1) [of a] by simp
  finally show "uint (softfloat_shiftRightJam64 S d) < 2 ^ 63" unfolding j .
  show "cell 6 (of_int (uint (softfloat_shiftRightJam64 S d))) (f64_abs a * 2 ^ 7)"
  proof (cases "expF64UI a = 0")
    case False
    have "f64_abs a * 2 ^ 7 = of_int (uint (f64_sig a)) * 2 powi (- 7 - int d + int 7)"
      unfolding f64_sig_bounds(3) [OF False] powi_add by (simp add: d(2))
    also have "\<dots> = of_int (uint S) / 2 ^ d" unfolding S_def by (simp add: power_int_minus inverse_eq_divide)
    finally show ?thesis unfolding j using cell_jam_int [of 6 "uint S" d] by simp
  next
    case True
    then have d1068: "d = 1068" by (simp add: d_def)
    have "(2::int) ^ 53 \<le> 2 ^ 1068" by (intro power_increasing) simp_all
    then have "uint S < 2 ^ d" unfolding S_def d1068 using f64_sig_bounds(1) [of a] by linarith
    then have jz: "jam (uint S) d = of_bool (f64_sig a \<noteq> 0)"
      by (subst jam_large) (auto simp: S_def word_zero_uint)
    show ?thesis
    proof (cases "f64_sig a = 0")
      case True
      then show ?thesis unfolding j jz f64_sig_bounds(4) [OF \<open>expF64UI a = 0\<close>] by simp
    next
      case False
      then have "0 < f64_abs a"
        unfolding f64_sig_bounds(4) [OF True] by (simp add: word_zero_uint order_less_le)
      moreover have "f64_abs a < 2 powi (- 1)"
        using f64_tiny [OF True] powi_mono [of "- 900" "- 1"] by linarith
      ultimately show ?thesis unfolding j jz using False by (intro cell_small) auto
    qed
  qed
qed

lemma f64_to_int32_big:
  assumes "1068 \<le> expF64UI a"
  shows "uint (f64_sig a) < 2 ^ 63"
    and "2 ^ 33 \<le> real_of_int (uint (f64_sig a)) / 2 ^ 7"
    and "2 ^ 33 \<le> f64_abs a"
proof -
  have nz: "expF64UI a \<noteq> 0" using assms by simp
  show "uint (f64_sig a) < 2 ^ 63" using f64_sig_bounds(1) [of a] by simp
  have "real_of_int (2 ^ 52) \<le> of_int (uint (f64_sig a))"
    using f64_sig_bounds(2) [OF nz] unfolding of_int_le_iff by simp
  then show "2 ^ 33 \<le> real_of_int (uint (f64_sig a)) / 2 ^ 7" by simp
  show "2 ^ 33 \<le> f64_abs a" using f64_big [of 33 a] assms by simp
qed

theorem f64_to_i32_refines:
  "f64_to_i32 a rm exact st = f64_to_int_spec i32_fromNaN fp_to_i32 a rm exact st"
proof -
  define S where "S = f64_sig a"
  have code: "f64_to_i32 a rm exact st = softfloat_roundPackToI32
      (if isNaNF64UI a then False else signF64UI a)
      (if expF64UI a < 1068 then softfloat_shiftRightJam64 S (nat (1068 - expF64UI a)) else S) rm exact st"
    unfolding f64_to_i32_def Let_def S_def isNaNF64UI_int f64_sig_def by simp
  show ?thesis
  proof (cases "expF64UI a < 1068")
    case True
    then have "\<not> isNaNF64UI a" by (simp add: isNaNF64UI_int)
    then show ?thesis
      unfolding code f64_to_int_spec_def S_def
      using roundPackToI32_refines [OF f64_to_int32_cell [OF True]] True by simp
  next
    case False
    then have e: "1068 \<le> expF64UI a" by simp
    note b = f64_to_int32_big [OF e, folded S_def]
    have "cell 6 (of_int (uint S)) (of_int (uint S) / 2 ^ 7 * 2 ^ 7)" by simp
    note r = roundPackToI32_refines [OF this b(1)]
    show ?thesis
      unfolding code f64_to_int_spec_def
      by (simp only: False if_False r fp_to_big(1) [OF b(2)] fp_to_big(1) [OF b(3)]) (simp add: int_limits)
  qed
qed

theorem f64_to_ui32_refines:
  "f64_to_ui32 a rm exact st = f64_to_int_spec ui32_fromNaN fp_to_ui32 a rm exact st"
proof -
  define S where "S = f64_sig a"
  have code: "f64_to_ui32 a rm exact st = softfloat_roundPackToUI32
      (if isNaNF64UI a then False else signF64UI a)
      (if expF64UI a < 1068 then softfloat_shiftRightJam64 S (nat (1068 - expF64UI a)) else S) rm exact st"
    unfolding f64_to_ui32_def Let_def S_def isNaNF64UI_int f64_sig_def by simp
  show ?thesis
  proof (cases "expF64UI a < 1068")
    case True
    then have "\<not> isNaNF64UI a" by (simp add: isNaNF64UI_int)
    then show ?thesis
      unfolding code f64_to_int_spec_def S_def
      using roundPackToUI32_refines [OF f64_to_int32_cell [OF True]] True by simp
  next
    case False
    then have e: "1068 \<le> expF64UI a" by simp
    note b = f64_to_int32_big [OF e, folded S_def]
    have "cell 6 (of_int (uint S)) (of_int (uint S) / 2 ^ 7 * 2 ^ 7)" by simp
    note r = roundPackToUI32_refines [OF this b(1)]
    show ?thesis
      unfolding code f64_to_int_spec_def
      by (simp only: False if_False r fp_to_big(2) [OF b(2)] fp_to_big(2) [OF b(3)]) (simp add: int_limits)
  qed
qed

subsection \<open>Double precision to 64-bit integers\<close>

lemma f64_to_int64_cell:
  assumes "expF64UI a \<le> 1086"
  defines "z \<equiv> (if 1075 - expF64UI a \<le> 0 then \<lparr>extra_v = push_bit (nat (expF64UI a - 1075)) (f64_sig a), extra_low = 0\<rparr>
                 else softfloat_shiftRightJam64Extra (f64_sig a) 0 (nat (1075 - expF64UI a)))"
  shows "cell 63 (of_int (uint (extra_v z) * 2 ^ 64 + uint (extra_low z))) (f64_abs a * 2 ^ 64)"
proof (cases "1075 \<le> expF64UI a")
  case True
  define d where "d = nat (expF64UI a - 1075)"
  have d: "expF64UI a = 1075 + int d" "d \<le> 11" using True assms(1) by (auto simp: d_def)
  have nz: "expF64UI a \<noteq> 0" using True by simp
  have "uint (f64_sig a) * 2 ^ d < 2 ^ 53 * 2 ^ d" using f64_sig_bounds(1) [of a] by simp
  also have "\<dots> \<le> 2 ^ 53 * 2 ^ 11" using d(2) by (intro mult_left_mono power_increasing) simp_all
  finally have p: "uint (push_bit d (f64_sig a)) = uint (f64_sig a) * 2 ^ d"
    by (intro uint_push_bit_small) simp
  have "f64_abs a = of_int (uint (f64_sig a) * 2 ^ d)"
    unfolding f64_sig_bounds(3) [OF nz] by (simp add: d(1))
  moreover have "uint (extra_v z) * 2 ^ 64 + uint (extra_low z) = uint (f64_sig a) * 2 ^ d * 2 ^ 64"
    using True unfolding z_def d_def [symmetric] by (simp add: p)
  ultimately show ?thesis by simp
next
  case False
  define d where "d = nat (1075 - expF64UI a)"
  have d: "1 \<le> d" "expF64UI a = 1075 - int d" using False by (auto simp: d_def)
  have z: "z = softfloat_shiftRightJam64Extra (f64_sig a) 0 d" using False by (simp add: z_def d_def)
  show ?thesis
  proof (cases "expF64UI a = 0")
    case False
    have "f64_abs a * 2 ^ 64 = of_int (uint (f64_sig a)) * 2 powi (- int d + int 64)"
      unfolding f64_sig_bounds(3) [OF False] powi_add by (simp add: d(2))
    also have "\<dots> = of_int (uint (f64_sig a)) * 2 ^ 64 / 2 ^ d"
      unfolding powi_add powi_neg_nat power_int_of_nat by simp
    finally show ?thesis using shiftRightJam64Extra_cell [OF d(1), of "f64_sig a"] unfolding z by simp
  next
    case True
    then have d1075: "d = 1075" by (simp add: d_def)
    have zb: "uint (extra_v z) * 2 ^ 64 + uint (extra_low z) = of_bool (f64_sig a \<noteq> 0)"
      unfolding z d1075 by (simp add: softfloat_shiftRightJam64Extra_def)
    show ?thesis
    proof (cases "f64_sig a = 0")
      case True
      then show ?thesis unfolding zb f64_sig_bounds(4) [OF \<open>expF64UI a = 0\<close>] by simp
    next
      case False
      then have "0 < f64_abs a"
        unfolding f64_sig_bounds(4) [OF True] by (simp add: word_zero_uint order_less_le)
      moreover have "f64_abs a < 2 powi (- 2)"
        using f64_tiny [OF True] powi_mono [of "- 900" "- 2"] by linarith
      ultimately show ?thesis unfolding zb using False by (intro cell_small) (auto simp: power_int_minus)
    qed
  qed
qed

theorem f64_to_i64_refines:
  "f64_to_i64 a rm exact st = f64_to_int_spec i64_fromNaN fp_to_i64 a rm exact st"
proof (cases "expF64UI a \<le> 1086")
  case True
  then have "\<not> isNaNF64UI a" by (simp add: isNaNF64UI_int)
  moreover have "(1075 - expF64UI a < - 11) = False" using True by simp
  ultimately show ?thesis
    unfolding f64_to_i64_def Let_def f64_to_int_spec_def f64_sig_def [symmetric]
    using roundPackToI64_refines [OF f64_to_int64_cell [OF True]]
    by (cases "1075 - expF64UI a \<le> 0") simp_all
next
  case False
  then have "2 ^ 64 \<le> f64_abs a" using f64_big [of 64 a] by simp
  then show ?thesis
    unfolding f64_to_i64_def Let_def f64_to_int_spec_def fp_to_big(3) [OF \<open>2 ^ 64 \<le> f64_abs a\<close>]
    using False by (simp add: isNaNF64UI_int int_limits)
qed

theorem f64_to_ui64_refines:
  "f64_to_ui64 a rm exact st = f64_to_int_spec ui64_fromNaN fp_to_ui64 a rm exact st"
proof (cases "expF64UI a \<le> 1086")
  case True
  then have "\<not> isNaNF64UI a" by (simp add: isNaNF64UI_int)
  moreover have "(1075 - expF64UI a < - 11) = False" using True by simp
  ultimately show ?thesis
    unfolding f64_to_ui64_def Let_def f64_to_int_spec_def f64_sig_def [symmetric]
    using roundPackToUI64_refines [OF f64_to_int64_cell [OF True]]
    by (cases "1075 - expF64UI a \<le> 0") simp_all
next
  case False
  then have "2 ^ 64 \<le> f64_abs a" using f64_big [of 64 a] by simp
  then show ?thesis
    unfolding f64_to_ui64_def Let_def f64_to_int_spec_def fp_to_big(4) [OF \<open>2 ^ 64 \<le> f64_abs a\<close>]
    using False by (simp add: isNaNF64UI_int int_limits)
qed


end
