(* ===== verification/SF_Trunc.thy ===== *)
theory SF_Trunc
imports SF_ToInt
begin

text \<open>
  The truncating conversions of \<open>f32_to_i32_r_minMag.c\<close> to \<open>f64_to_ui64_r_minMag.c\<close> (the C
  casts) do not round: they shift the significand and test the bits that fall out.  This theory
  shows that each of them is the rounding conversion of its specification in the mode
  \<open>softfloat_round_minMag\<close>, flags included.
\<close>

section \<open>Truncation of a quotient\<close>

lemma rnd_minMag: "rnd softfloat_round_minMag s v = \<lfloor>v\<rfloor>"
  by (simp add: rnd_def)

lemma floor_quotient:
  fixes n :: int
  shows "\<lfloor>real_of_int n / 2 ^ d\<rfloor> = n div 2 ^ d"
    and "of_int (n div 2 ^ d) = real_of_int n / 2 ^ d \<longleftrightarrow> n mod 2 ^ d = 0"
proof -
  show fl: "\<lfloor>real_of_int n / 2 ^ d\<rfloor> = n div 2 ^ d"
    using floor_divide_of_int_eq [of n "2 ^ d", where 'a = real] by simp
  have "of_int (n div 2 ^ d) = real_of_int n / 2 ^ d \<longleftrightarrow> real_of_int (n div 2 ^ d * 2 ^ d) = of_int n"
    by (simp add: field_simps)
  also have "\<dots> \<longleftrightarrow> n mod 2 ^ d = 0"
    unfolding of_int_eq_iff using div_mult_mod_eq [of n "2 ^ d"] by auto
  finally show "of_int (n div 2 ^ d) = real_of_int n / 2 ^ d \<longleftrightarrow> n mod 2 ^ d = 0" .
qed

lemma fp_to_int_floor:
  assumes "v = real_of_int n / 2 ^ d" "lo \<le> (if s then - (n div 2 ^ d) else n div 2 ^ d)"
    "(if s then - (n div 2 ^ d) else n div 2 ^ d) \<le> hi"
  shows "fp_to_int lo hi s v softfloat_round_minMag exact st =
    (word_of_int (if s then - (n div 2 ^ d) else n div 2 ^ d),
     if exact \<and> n mod 2 ^ d \<noteq> 0 then softfloat_raiseFlags softfloat_flag_inexact st else st)"
proof -
  have r: "rnd softfloat_round_minMag s v = n div 2 ^ d"
    unfolding rnd_minMag assms(1) by (rule floor_quotient)
  have "of_int (n div 2 ^ d) \<noteq> v \<longleftrightarrow> n mod 2 ^ d \<noteq> 0" unfolding assms(1) floor_quotient(2) ..
  then show ?thesis unfolding fp_to_int_def Let_def r using assms(2,3) by auto
qed

lemma fp_to_int_over:
  assumes "of_int k \<le> v" "if s then - k < lo else hi < k" "lo \<le> 0" "0 \<le> hi" "0 \<le> k"
  shows "fp_to_int lo hi s v softfloat_round_minMag exact st =
    (word_of_int (if s then lo else hi), softfloat_raiseFlags softfloat_flag_invalid st)"
proof -
  have "k \<le> rnd softfloat_round_minMag s v" using assms(1) by (rule rnd_big)
  then show ?thesis unfolding fp_to_int_def Let_def using assms(2-5) by auto
qed

lemma fp_to_int_zero:
  assumes "0 \<le> v" "v < 1" "lo \<le> 0" "0 \<le> hi"
  shows "fp_to_int lo hi s v softfloat_round_minMag exact st =
    (0, if exact \<and> v \<noteq> 0 then softfloat_raiseFlags softfloat_flag_inexact st else st)"
proof -
  have r: "rnd softfloat_round_minMag s v = 0" unfolding rnd_minMag using assms(1,2) by (simp add: floor_eq_iff)
  show ?thesis unfolding fp_to_int_def Let_def r using assms by auto
qed

lemma uint_push_drop: "uint (push_bit d (drop_bit d w)) = uint w div 2 ^ d * 2 ^ d" for w :: "'a::len word"
proof -
  have "uint w div 2 ^ d * 2 ^ d + uint w mod 2 ^ d = uint w" by (rule div_mult_mod_eq)
  moreover have "0 \<le> uint w mod 2 ^ d" by simp
  ultimately have "uint w div 2 ^ d * 2 ^ d < 2 ^ LENGTH('a)" using uint_lt2p [of w] by linarith
  then show ?thesis by (subst uint_push_bit_small) (simp_all add: uint_drop_bit_div)
qed

lemma push_drop_lossless:
  "push_bit d (drop_bit d w) \<noteq> w \<longleftrightarrow> uint w mod 2 ^ d \<noteq> 0" for w :: "'a::len word"
  using div_mult_mod_eq [of "uint w" "2 ^ d"] unfolding word_uint_eq_iff uint_push_drop by linarith

section \<open>Single precision\<close>

lemma f32_less_one: "expF32UI a \<le> 126 \<Longrightarrow> f32_abs a < 1" "0 \<le> f32_abs a" "f32_abs a = 0 \<longleftrightarrow> f32_mag a = 0"
proof -
  show "f32_abs a = 0 \<longleftrightarrow> f32_mag a = 0" "0 \<le> f32_abs a"
    using b32.mag_eq_iff [of "f32_mag a" 0] b32.mag_nonneg [of "f32_mag a"] f32_mag_bounds [of a]
    by (simp_all add: f32_abs_def)
  assume e: "expF32UI a \<le> 126"
  show "f32_abs a < 1"
  proof (cases "expF32UI a = 0")
    case True
    then show ?thesis using f32_tiny [OF True] powi_mono [of "- 100" 0] by simp
  next
    case False
    have "real_of_int (uint (f32_sig a)) < of_int (2 ^ 24)" unfolding of_int_less_iff by (rule f32_sig_bounds)
    then have "f32_abs a < 2 ^ 24 * 2 powi (expF32UI a - 150)" unfolding f32_sig_bounds(3) [OF False] by simp
    also have "\<dots> = 2 powi (int 24 + (expF32UI a - 150))" unfolding powi_add power_int_of_nat ..
    also have "\<dots> \<le> 2 powi 0" unfolding powi_le_iff using e by simp
    finally show ?thesis by simp
  qed
qed

lemma f32_fixed_value:
  assumes "expF32UI a = 150 + int k - int d" "expF32UI a \<noteq> 0"
  shows "f32_abs a = real_of_int (uint (f32_sig a) * 2 ^ k) / 2 ^ d"
  unfolding f32_sig_bounds(3) [OF assms(2)] assms(1)
  by (simp add: powi_add powi_diff algebra_simps)

lemma f32_over_limit:
  assumes e: "127 + int n \<le> expF32UI a" and n: "23 \<le> n"
  shows "of_int (2 ^ n) \<le> f32_abs a"
    and "\<not> (expF32UI a = 127 + int n \<and> fracF32UI a = 0) \<Longrightarrow> of_int (2 ^ n + 1) \<le> f32_abs a"
    and "expF32UI a = 127 + int n \<Longrightarrow> fracF32UI a = 0 \<Longrightarrow> f32_abs a = of_int (2 ^ n)"
proof -
  define k m where "k = nat (expF32UI a - 150)" and "m = n - 23"
  have k: "expF32UI a = 150 + int k" "n = 23 + m" "m \<le> k" using e n by (auto simp: k_def m_def)
  have nz: "expF32UI a \<noteq> 0" using k by simp
  have v: "f32_abs a = of_int (uint (f32_sig a) * 2 ^ k)"
    using f32_sig_bounds(3) [OF nz] k(1) by simp
  have sig: "uint (f32_sig a) = 2 ^ 23 + uint (fracF32UI a)"
    using nz or_hidden32 [OF fracF32UI_bounds(2), of a] by (simp add: f32_sig_def)
  define M where "M = (2::int) ^ m"
  have p: "(2::int) ^ n = 2 ^ 23 * M" "M \<le> 2 ^ k" "1 \<le> M"
    using k(2,3) by (simp_all add: power_add M_def)
  have "2 ^ 23 * M \<le> uint (f32_sig a) * 2 ^ k"
    unfolding sig using p(2,3) by (intro mult_mono) simp_all
  then show "of_int (2 ^ n) \<le> f32_abs a" unfolding v p(1) of_int_le_iff .
  show "of_int (2 ^ n + 1) \<le> f32_abs a" if ne: "\<not> (expF32UI a = 127 + int n \<and> fracF32UI a = 0)"
  proof (cases "k = m")
    case True
    then have "fracF32UI a \<noteq> 0" using ne k by auto
    then have "1 \<le> uint (fracF32UI a)" using word_zero_uint [of "fracF32UI a"] uint_ge_0 [of "fracF32UI a"] by linarith
    then have "(2 ^ 23 + 1) * M \<le> uint (f32_sig a) * 2 ^ k"
      unfolding sig using p(2,3) by (intro mult_mono) simp_all
    moreover have "2 ^ n + 1 \<le> (2 ^ 23 + 1) * M"
      using p(1,3) by simp
    ultimately show ?thesis unfolding v of_int_le_iff by linarith
  next
    case False
    then have "(2::int) ^ Suc m \<le> 2 ^ k" using k(3) by (intro power_increasing) simp_all
    then have "2 ^ 23 * (2 * M) \<le> uint (f32_sig a) * 2 ^ k"
      unfolding sig by (intro mult_mono) (simp_all add: M_def)
    moreover have "2 ^ n + 1 \<le> 2 ^ 23 * (2 * M)"
      using p(1,3) by simp
    ultimately show ?thesis unfolding v of_int_le_iff by linarith
  qed
  show "f32_abs a = of_int (2 ^ n)" if "expF32UI a = 127 + int n" "fracF32UI a = 0"
    using that k p(1) unfolding v sig by (simp add: M_def)
qed

lemma f32_fields_eq:
  "a = b \<longleftrightarrow> signF32UI a = signF32UI b \<and> expF32UI a = expF32UI b \<and> fracF32UI a = fracF32UI b"
  using f32_bits_eq [of a b] by (auto simp: f32_mag_fields)

lemma int_min32: "uiA = packToF32UI True 0x9E 0 \<longleftrightarrow> signF32UI uiA \<and> expF32UI uiA = 158 \<and> fracF32UI uiA = 0"
proof -
  have p: "signF32UI (packToF32UI True 0x9E 0)" "expF32UI (packToF32UI True 0x9E 0) = 158" "fracF32UI (packToF32UI True 0x9E 0) = 0"
    by code_simp+
  show ?thesis unfolding f32_fields_eq [of uiA] by (simp only: p simp_thms)
qed

theorem f32_to_i32_r_minMag_refines:
  "f32_to_i32_r_minMag a exact st = f32_to_int_spec i32_fromNaN fp_to_i32 a softfloat_round_minMag exact st"
proof -
  consider (zero) "expF32UI a \<le> 126" | (in_range) "126 < expF32UI a" "expF32UI a < 158" | (over) "158 \<le> expF32UI a" by linarith
  then show ?thesis
  proof cases
    case zero
    then show ?thesis
      unfolding f32_to_i32_r_minMag_def Let_def f32_to_int_spec_def fp_to_i32_def word_of_exp_or32
      by (subst fp_to_int_zero) (simp_all add: f32_less_one isNaNF32UI_int)
  next
    case in_range
    define d where "d = nat (158 - expF32UI a)"
    have d: "expF32UI a = 150 + int 8 - int d" "1 \<le> d" using in_range by (auto simp: d_def)
    define n where "n = uint (f32_sig a) * 2 ^ 8"
    have n: "uint (push_bit 8 (f32_sig a)) = n"
      using f32_sig_bounds(1) [of a] unfolding n_def by (subst uint_push_bit_small) simp_all
    have v: "f32_abs a = real_of_int n / 2 ^ d"
      unfolding n_def using f32_fixed_value [OF d(1)] in_range by simp
    have n_bounds: "0 \<le> n" "n < 2 ^ 32"
      using f32_sig_bounds(1) [of a] unfolding n_def by simp_all
    then have "n div 2 ^ d \<le> n div 2 ^ 1"
      using d(2) by (intro zdiv_mono2 power_increasing) simp_all
    with n_bounds have q: "0 \<le> n div 2 ^ d" "n div 2 ^ d < 2 ^ 31" by (simp_all add: pos_imp_zdiv_nonneg_iff)
    have w: "drop_bit d (push_bit 8 (f32_sig a)) = word_of_int (n div 2 ^ d)"
      using q by (simp add: word_uint_eq_iff uint_drop_bit_div n uint_word_of_int)
    have sig: "fracF32UI a OR 0x00800000 = f32_sig a" using in_range by (simp add: f32_sig_def)
    have "f32_to_i32_r_minMag a exact st =
      (if signF32UI a then - word_of_int (n div 2 ^ d) else word_of_int (n div 2 ^ d),
       if exact \<and> n mod 2 ^ d \<noteq> 0 then softfloat_raiseFlags softfloat_flag_inexact st else st)"
      unfolding f32_to_i32_r_minMag_def Let_def sig d_def [symmetric] push_drop_lossless n w
      using in_range by simp
    moreover have "fp_to_i32 (signF32UI a) (f32_abs a) softfloat_round_minMag exact st =
      (word_of_int (if signF32UI a then - (n div 2 ^ d) else n div 2 ^ d),
       if exact \<and> n mod 2 ^ d \<noteq> 0 then softfloat_raiseFlags softfloat_flag_inexact st else st)"
      unfolding fp_to_i32_def by (rule fp_to_int_floor [OF v]) (use q in \<open>simp_all only: split: if_splits\<close>, linarith+)
    ultimately show ?thesis
      using in_range by (simp add: f32_to_int_spec_def isNaNF32UI_int)
  next
    case over
    note lim = f32_over_limit [of 31 a, simplified]
    show ?thesis
    proof (cases "signF32UI a \<and> expF32UI a = 158 \<and> fracF32UI a = 0")
      case True
      then have v: "f32_abs a = real_of_int (2 ^ 31) / 2 ^ 0" using lim(3) by simp
      show ?thesis
        using True fp_to_int_floor [where 'a = 32, OF v, of "- (2 ^ 31)" "signF32UI a" "2 ^ 31 - 1" exact st]
        by (simp add: f32_to_i32_r_minMag_def int_min32 f32_to_int_spec_def fp_to_i32_def isNaNF32UI_int)
    next
      case False
      then have "of_int (if signF32UI a then 2 ^ 31 + 1 else 2 ^ 31) \<le> f32_abs a" using lim(1,2) over by auto
      note o = fp_to_int_over [where 'a = 32, OF this, of "signF32UI a" "- (2 ^ 31)" "2 ^ 31 - 1" exact st]
      have "f32_to_i32_r_minMag a exact st =
        (if isNaNF32UI a then i32_fromNaN else if signF32UI a then i32_fromNegOverflow else i32_fromPosOverflow,
         softfloat_raiseFlags softfloat_flag_invalid st)"
        using over unfolding f32_to_i32_r_minMag_def Let_def int_min32 isNaNF32UI_int if_not_P [OF False] by simp
      then show ?thesis
        using o by (simp add: f32_to_int_spec_def fp_to_i32_def int_limits)
    qed
  qed
qed
lemma f32_ge_one: "127 \<le> expF32UI a \<Longrightarrow> 1 \<le> f32_abs a"
proof -
  assume e: "127 \<le> expF32UI a"
  have "(1::real) = 2 ^ 23 * 2 powi (- 23)" by (simp add: power_int_minus)
  also have "\<dots> \<le> 2 ^ 23 * 2 powi (expF32UI a - 150)"
    using e by (intro mult_left_mono powi_mono) simp_all
  also have "\<dots> \<le> of_int (uint (f32_sig a)) * 2 powi (expF32UI a - 150)"
  proof (intro mult_right_mono)
    have "real_of_int (2 ^ 23) \<le> of_int (uint (f32_sig a))"
      unfolding of_int_le_iff by (rule f32_sig_bounds(2)) (use e in simp)
    then show "2 ^ 23 \<le> real_of_int (uint (f32_sig a))" by simp
  qed simp
  also have "\<dots> = f32_abs a" using f32_sig_bounds(3) e by simp
  finally show ?thesis .
qed

theorem f32_to_ui32_r_minMag_refines:
  "f32_to_ui32_r_minMag a exact st = f32_to_int_spec ui32_fromNaN fp_to_ui32 a softfloat_round_minMag exact st"
proof -
  consider (zero) "expF32UI a \<le> 126" | (in_range) "126 < expF32UI a" "expF32UI a < 159" "\<not> signF32UI a"
    | (bad) "127 \<le> expF32UI a" "signF32UI a \<or> 159 \<le> expF32UI a" by linarith
  then show ?thesis
  proof cases
    case zero
    then show ?thesis
      unfolding f32_to_ui32_r_minMag_def Let_def f32_to_int_spec_def fp_to_ui32_def word_of_exp_or32
      by (subst fp_to_int_zero) (simp_all add: f32_less_one isNaNF32UI_int)
  next
    case in_range
    define d where "d = nat (158 - expF32UI a)"
    have d: "expF32UI a = 150 + int 8 - int d" using in_range by (auto simp: d_def)
    define n where "n = uint (f32_sig a) * 2 ^ 8"
    have n: "uint (push_bit 8 (f32_sig a)) = n"
      using f32_sig_bounds(1) [of a] unfolding n_def by (subst uint_push_bit_small) simp_all
    have v: "f32_abs a = real_of_int n / 2 ^ d"
      unfolding n_def using f32_fixed_value [OF d] in_range by simp
    have n_bounds: "0 \<le> n" "n < 2 ^ 32"
      using f32_sig_bounds(1) [of a] unfolding n_def by simp_all
    then have "n div 2 ^ d \<le> n div 1" by (intro zdiv_mono2) simp_all
    with n_bounds have q: "0 \<le> n div 2 ^ d" "n div 2 ^ d < 2 ^ 32" by (simp_all add: pos_imp_zdiv_nonneg_iff)
    have w: "drop_bit d (push_bit 8 (f32_sig a)) = word_of_int (n div 2 ^ d)"
      using q by (simp add: word_uint_eq_iff uint_drop_bit_div n uint_word_of_int)
    have sig: "fracF32UI a OR 0x00800000 = f32_sig a" using in_range by (simp add: f32_sig_def)
    have "f32_to_ui32_r_minMag a exact st =
      (word_of_int (n div 2 ^ d), if exact \<and> n mod 2 ^ d \<noteq> 0 then softfloat_raiseFlags softfloat_flag_inexact st else st)"
      unfolding f32_to_ui32_r_minMag_def Let_def sig d_def [symmetric] push_drop_lossless n w
      using in_range by simp
    moreover have "fp_to_ui32 (signF32UI a) (f32_abs a) softfloat_round_minMag exact st =
      (word_of_int (if signF32UI a then - (n div 2 ^ d) else n div 2 ^ d),
       if exact \<and> n mod 2 ^ d \<noteq> 0 then softfloat_raiseFlags softfloat_flag_inexact st else st)"
      unfolding fp_to_ui32_def by (rule fp_to_int_floor [OF v]) (use q in_range in simp_all)
    ultimately show ?thesis
      using in_range by (simp add: f32_to_int_spec_def isNaNF32UI_int)
  next
    case bad
    have "of_int (if signF32UI a then 1 else 2 ^ 32) \<le> f32_abs a"
      using bad f32_ge_one f32_over_limit(1) [of 32 a] by auto
    note o = fp_to_int_over [where 'a = 32, OF this, of "signF32UI a" 0 "2 ^ 32 - 1" exact st]
    have "f32_to_ui32_r_minMag a exact st =
      (if isNaNF32UI a then ui32_fromNaN else if signF32UI a then ui32_fromNegOverflow else ui32_fromPosOverflow,
       softfloat_raiseFlags softfloat_flag_invalid st)"
      using bad unfolding f32_to_ui32_r_minMag_def Let_def isNaNF32UI_int by auto
    then show ?thesis
      using o by (simp add: f32_to_int_spec_def fp_to_ui32_def int_limits)
  qed
qed

lemma lossy_shift:
  fixes sig :: u32
  assumes "1 \<le> d" "d \<le> 63"
  shows "40 - int d < 0 \<and> push_bit (nat ((40 - int d) mod 32)) sig \<noteq> 0 \<longleftrightarrow> uint sig * 2 ^ 40 mod 2 ^ d \<noteq> 0"
proof (cases "d \<le> 40")
  case True
  then have "(2::int) ^ 40 = 2 ^ (40 - d) * 2 ^ d" by (simp flip: power_add)
  then have "uint sig * 2 ^ 40 mod 2 ^ d = 0" by (metis mod_mult_self2_is_0 mult.assoc)
  with True show ?thesis by simp
next
  case False
  define e where "e = d - 40"
  have e: "d = 40 + e" "1 \<le> e" "e \<le> 23" using False assms by (auto simp: e_def)
  have "(40 - int d) mod 32 = (- int e + 32) mod 32" unfolding mod_add_self2 using e by simp
  also have "\<dots> = - int e + 32" by (rule mod_pos_pos_trivial) (use e in auto)
  finally have m: "nat ((40 - int d) mod 32) = 32 - e" using e by simp
  have "uint sig * 2 ^ 40 mod 2 ^ d = uint sig mod 2 ^ e * 2 ^ 40"
    unfolding e(1) power_add mult.commute [of "2 ^ 40" "2 ^ e"] by (rule mult_mod_left [symmetric])
  then show ?thesis using push_low_nonzero [of e sig] e unfolding m by simp
qed

lemma int_min64: "uiA = packToF32UI True 0xBE 0 \<longleftrightarrow> signF32UI uiA \<and> expF32UI uiA = 190 \<and> fracF32UI uiA = 0"
proof -
  have p: "signF32UI (packToF32UI True 0xBE 0)" "expF32UI (packToF32UI True 0xBE 0) = 190" "fracF32UI (packToF32UI True 0xBE 0) = 0"
    by code_simp+
  show ?thesis unfolding f32_fields_eq [of uiA] by (simp only: p simp_thms)
qed

lemma f32_wide_fixed:
  assumes e: "126 < expF32UI a" "expF32UI a \<le> 190"
  defines "d \<equiv> nat (190 - expF32UI a)" and "n \<equiv> uint (f32_sig a) * 2 ^ 40"
  shows "f32_abs a = real_of_int n / 2 ^ d" "0 \<le> n div 2 ^ d" "n div 2 ^ d < 2 ^ 64" "1 \<le> d \<Longrightarrow> n div 2 ^ d < 2 ^ 63"
    "drop_bit d (push_bit 40 (ucast (f32_sig a) :: u64)) = word_of_int (n div 2 ^ d)"
    "40 - (190 - expF32UI a) < 0 \<and> push_bit (nat ((40 - (190 - expF32UI a)) mod 32)) (f32_sig a) \<noteq> 0 \<longleftrightarrow> n mod 2 ^ d \<noteq> 0"
    "fracF32UI a OR 0x00800000 = f32_sig a"
proof -
  have d: "expF32UI a = 150 + int 40 - int d" using e by (auto simp: d_def)
  have n: "uint (push_bit 40 (ucast (f32_sig a) :: u64)) = n"
    using f32_sig_bounds(1) [of a] unfolding n_def by (subst uint_push_bit_small) simp_all
  show "f32_abs a = real_of_int n / 2 ^ d"
    unfolding n_def using f32_fixed_value [OF d] e by simp
  have n_bounds: "0 \<le> n" "n < 2 ^ 64"
    using f32_sig_bounds(1) [of a] unfolding n_def by simp_all
  then have "n div 2 ^ d \<le> n div 1" by (intro zdiv_mono2) simp_all
  with n_bounds show q: "0 \<le> n div 2 ^ d" "n div 2 ^ d < 2 ^ 64" by (simp_all add: pos_imp_zdiv_nonneg_iff)
  show "n div 2 ^ d < 2 ^ 63" if "1 \<le> d"
  proof -
    have "n div 2 ^ d \<le> n div 2 ^ 1" using n_bounds that by (intro zdiv_mono2 power_increasing) simp_all
    then show ?thesis using n_bounds by simp
  qed
  show "drop_bit d (push_bit 40 (ucast (f32_sig a) :: u64)) = word_of_int (n div 2 ^ d)"
    using q by (simp add: word_uint_eq_iff uint_drop_bit_div n uint_word_of_int)
  have "190 - expF32UI a = int d" using d by simp
  then show "40 - (190 - expF32UI a) < 0 \<and> push_bit (nat ((40 - (190 - expF32UI a)) mod 32)) (f32_sig a) \<noteq> 0 \<longleftrightarrow> n mod 2 ^ d \<noteq> 0"
    unfolding n_def using lossy_shift [of d "f32_sig a"] e by (cases "d = 0") simp_all
  show "fracF32UI a OR 0x00800000 = f32_sig a" using e by (simp add: f32_sig_def)
qed

theorem f32_to_i64_r_minMag_refines:
  "f32_to_i64_r_minMag a exact st = f32_to_int_spec i64_fromNaN fp_to_i64 a softfloat_round_minMag exact st"
proof -
  consider (zero) "expF32UI a \<le> 126" | (in_range) "126 < expF32UI a" "expF32UI a < 190" | (over) "190 \<le> expF32UI a" by linarith
  then show ?thesis
  proof cases
    case zero
    then show ?thesis
      unfolding f32_to_i64_r_minMag_def Let_def f32_to_int_spec_def fp_to_i64_def word_of_exp_or32
      by (subst fp_to_int_zero) (simp_all add: f32_less_one isNaNF32UI_int)
  next
    case in_range
    define d n where "d = nat (190 - expF32UI a)" and "n = uint (f32_sig a) * 2 ^ 40"
    have d: "1 \<le> d" using in_range by (simp add: d_def)
    note w = f32_wide_fixed [OF in_range(1) less_imp_le [OF in_range(2)], folded d_def n_def]
    have "f32_to_i64_r_minMag a exact st =
      (if signF32UI a then - word_of_int (n div 2 ^ d) else word_of_int (n div 2 ^ d),
       if exact \<and> n mod 2 ^ d \<noteq> 0 then softfloat_raiseFlags softfloat_flag_inexact st else st)"
      unfolding f32_to_i64_r_minMag_def Let_def w(5-7) d_def [symmetric]
      using in_range by simp
    moreover have "fp_to_i64 (signF32UI a) (f32_abs a) softfloat_round_minMag exact st =
      (word_of_int (if signF32UI a then - (n div 2 ^ d) else n div 2 ^ d),
       if exact \<and> n mod 2 ^ d \<noteq> 0 then softfloat_raiseFlags softfloat_flag_inexact st else st)"
      unfolding fp_to_i64_def by (rule fp_to_int_floor [OF w(1)]) (use w(2) w(4) [OF d] in \<open>simp_all only: split: if_splits\<close>, linarith+)
    ultimately show ?thesis
      using in_range by (simp add: f32_to_int_spec_def isNaNF32UI_int)
  next
    case over
    note lim = f32_over_limit [of 63 a, simplified]
    show ?thesis
    proof (cases "signF32UI a \<and> expF32UI a = 190 \<and> fracF32UI a = 0")
      case True
      then have v: "f32_abs a = real_of_int (2 ^ 63) / 2 ^ 0" using lim(3) by simp
      show ?thesis
        using True fp_to_int_floor [where 'a = 64, OF v, of "- (2 ^ 63)" "signF32UI a" "2 ^ 63 - 1" exact st]
        by (simp add: f32_to_i64_r_minMag_def int_min64 f32_to_int_spec_def fp_to_i64_def isNaNF32UI_int)
    next
      case False
      then have "of_int (if signF32UI a then 2 ^ 63 + 1 else 2 ^ 63) \<le> f32_abs a" using lim(1,2) over by auto
      note o = fp_to_int_over [where 'a = 64, OF this, of "signF32UI a" "- (2 ^ 63)" "2 ^ 63 - 1" exact st]
      have "f32_to_i64_r_minMag a exact st =
        (if isNaNF32UI a then i64_fromNaN else if signF32UI a then i64_fromNegOverflow else i64_fromPosOverflow,
         softfloat_raiseFlags softfloat_flag_invalid st)"
        using over unfolding f32_to_i64_r_minMag_def Let_def int_min64 isNaNF32UI_int if_not_P [OF False] by simp
      then show ?thesis
        using o by (simp add: f32_to_int_spec_def fp_to_i64_def int_limits)
    qed
  qed
qed

theorem f32_to_ui64_r_minMag_refines:
  "f32_to_ui64_r_minMag a exact st = f32_to_int_spec ui64_fromNaN fp_to_ui64 a softfloat_round_minMag exact st"
proof -
  consider (zero) "expF32UI a \<le> 126" | (in_range) "126 < expF32UI a" "expF32UI a \<le> 190" "\<not> signF32UI a"
    | (bad) "127 \<le> expF32UI a" "signF32UI a \<or> 191 \<le> expF32UI a" by linarith
  then show ?thesis
  proof cases
    case zero
    then show ?thesis
      unfolding f32_to_ui64_r_minMag_def Let_def f32_to_int_spec_def fp_to_ui64_def word_of_exp_or32
      by (subst fp_to_int_zero) (simp_all add: f32_less_one isNaNF32UI_int)
  next
    case in_range
    define d n where "d = nat (190 - expF32UI a)" and "n = uint (f32_sig a) * 2 ^ 40"
    note w = f32_wide_fixed [OF in_range(1,2), folded d_def n_def]
    have "f32_to_ui64_r_minMag a exact st =
      (word_of_int (n div 2 ^ d), if exact \<and> n mod 2 ^ d \<noteq> 0 then softfloat_raiseFlags softfloat_flag_inexact st else st)"
      unfolding f32_to_ui64_r_minMag_def Let_def w(5-7) d_def [symmetric]
      using in_range by simp
    moreover have "fp_to_ui64 (signF32UI a) (f32_abs a) softfloat_round_minMag exact st =
      (word_of_int (if signF32UI a then - (n div 2 ^ d) else n div 2 ^ d),
       if exact \<and> n mod 2 ^ d \<noteq> 0 then softfloat_raiseFlags softfloat_flag_inexact st else st)"
      unfolding fp_to_ui64_def by (rule fp_to_int_floor [OF w(1)]) (use w(2,3) in_range in simp_all)
    ultimately show ?thesis
      using in_range by (simp add: f32_to_int_spec_def isNaNF32UI_int)
  next
    case bad
    have "of_int (if signF32UI a then 1 else 2 ^ 64) \<le> f32_abs a"
      using bad f32_ge_one f32_over_limit(1) [of 64 a] by auto
    note o = fp_to_int_over [where 'a = 64, OF this, of "signF32UI a" 0 "2 ^ 64 - 1" exact st]
    have "f32_to_ui64_r_minMag a exact st =
      (if isNaNF32UI a then ui64_fromNaN else if signF32UI a then ui64_fromNegOverflow else ui64_fromPosOverflow,
       softfloat_raiseFlags softfloat_flag_invalid st)"
      using bad unfolding f32_to_ui64_r_minMag_def Let_def isNaNF32UI_int by auto
    then show ?thesis
      using o by (simp add: f32_to_int_spec_def fp_to_ui64_def int_limits)
  qed
qed
section \<open>Double precision\<close>

lemma f64_less_one: "expF64UI a \<le> 1022 \<Longrightarrow> f64_abs a < 1" "0 \<le> f64_abs a" "f64_abs a = 0 \<longleftrightarrow> f64_mag a = 0"
proof -
  show "f64_abs a = 0 \<longleftrightarrow> f64_mag a = 0" "0 \<le> f64_abs a"
    using b64.mag_eq_iff [of "f64_mag a" 0] b64.mag_nonneg [of "f64_mag a"] f64_mag_bounds [of a]
    by (simp_all add: f64_abs_def)
  assume e: "expF64UI a \<le> 1022"
  show "f64_abs a < 1"
  proof (cases "expF64UI a = 0")
    case True
    then show ?thesis using f64_tiny [OF True] powi_mono [of "- 900" 0] by simp
  next
    case False
    have "real_of_int (uint (f64_sig a)) < of_int (2 ^ 53)" unfolding of_int_less_iff by (rule f64_sig_bounds)
    then have "f64_abs a < 2 ^ 53 * 2 powi (expF64UI a - 1075)" unfolding f64_sig_bounds(3) [OF False] by simp
    also have "\<dots> = 2 powi (int 53 + (expF64UI a - 1075))" unfolding powi_add power_int_of_nat ..
    also have "\<dots> \<le> 2 powi 0" unfolding powi_le_iff using e by simp
    finally show ?thesis by simp
  qed
qed

lemma f64_fixed_value:
  assumes "expF64UI a = 1075 + int k - int d" "expF64UI a \<noteq> 0"
  shows "f64_abs a = real_of_int (uint (f64_sig a) * 2 ^ k) / 2 ^ d"
  unfolding f64_sig_bounds(3) [OF assms(2)] assms(1)
  by (simp add: powi_add powi_diff algebra_simps)

lemma f64_over_limit:
  assumes e: "1023 + int n \<le> expF64UI a" and n: "52 \<le> n"
  shows "of_int (2 ^ n) \<le> f64_abs a"
    and "\<not> (expF64UI a = 1023 + int n \<and> fracF64UI a = 0) \<Longrightarrow> of_int (2 ^ n + 1) \<le> f64_abs a"
    and "expF64UI a = 1023 + int n \<Longrightarrow> fracF64UI a = 0 \<Longrightarrow> f64_abs a = of_int (2 ^ n)"
proof -
  define k m where "k = nat (expF64UI a - 1075)" and "m = n - 52"
  have k: "expF64UI a = 1075 + int k" "n = 52 + m" "m \<le> k" using e n by (auto simp: k_def m_def)
  have nz: "expF64UI a \<noteq> 0" using k by simp
  have v: "f64_abs a = of_int (uint (f64_sig a) * 2 ^ k)"
    using f64_sig_bounds(3) [OF nz] k(1) by simp
  have sig: "uint (f64_sig a) = 2 ^ 52 + uint (fracF64UI a)"
    using nz or_hidden64 [OF fracF64UI_bounds(2), of a] by (simp add: f64_sig_def)
  define M where "M = (2::int) ^ m"
  have p: "(2::int) ^ n = 2 ^ 52 * M" "M \<le> 2 ^ k" "1 \<le> M"
    using k(2,3) by (simp_all add: power_add M_def)
  have "2 ^ 52 * M \<le> uint (f64_sig a) * 2 ^ k"
    unfolding sig using p(2,3) by (intro mult_mono) simp_all
  then show "of_int (2 ^ n) \<le> f64_abs a" unfolding v p(1) of_int_le_iff .
  show "of_int (2 ^ n + 1) \<le> f64_abs a" if ne: "\<not> (expF64UI a = 1023 + int n \<and> fracF64UI a = 0)"
  proof (cases "k = m")
    case True
    then have "fracF64UI a \<noteq> 0" using ne k by auto
    then have "1 \<le> uint (fracF64UI a)" using word_zero_uint [of "fracF64UI a"] uint_ge_0 [of "fracF64UI a"] by linarith
    then have "(2 ^ 52 + 1) * M \<le> uint (f64_sig a) * 2 ^ k"
      unfolding sig using p(2,3) by (intro mult_mono) simp_all
    moreover have "2 ^ n + 1 \<le> (2 ^ 52 + 1) * M"
      using p(1,3) by simp
    ultimately show ?thesis unfolding v of_int_le_iff by linarith
  next
    case False
    then have "(2::int) ^ Suc m \<le> 2 ^ k" using k(3) by (intro power_increasing) simp_all
    then have "2 ^ 52 * (2 * M) \<le> uint (f64_sig a) * 2 ^ k"
      unfolding sig by (intro mult_mono) (simp_all add: M_def)
    moreover have "2 ^ n + 1 \<le> 2 ^ 52 * (2 * M)"
      using p(1,3) by simp
    ultimately show ?thesis unfolding v of_int_le_iff by linarith
  qed
  show "f64_abs a = of_int (2 ^ n)" if "expF64UI a = 1023 + int n" "fracF64UI a = 0"
    using that k p(1) unfolding v sig by (simp add: M_def)
qed

lemma f64_fields_eq:
  "a = b \<longleftrightarrow> signF64UI a = signF64UI b \<and> expF64UI a = expF64UI b \<and> fracF64UI a = fracF64UI b"
  using f64_bits_eq [of a b] by (auto simp: f64_mag_fields)

lemma f64_ge_one: "1023 \<le> expF64UI a \<Longrightarrow> 1 \<le> f64_abs a"
proof -
  assume e: "1023 \<le> expF64UI a"
  have "(1::real) = 2 ^ 52 * 2 powi (- 52)" by (simp add: power_int_minus)
  also have "\<dots> \<le> 2 ^ 52 * 2 powi (expF64UI a - 1075)"
    using e by (intro mult_left_mono powi_mono) simp_all
  also have "\<dots> \<le> of_int (uint (f64_sig a)) * 2 powi (expF64UI a - 1075)"
  proof (intro mult_right_mono)
    have "real_of_int (2 ^ 52) \<le> of_int (uint (f64_sig a))"
      unfolding of_int_le_iff by (rule f64_sig_bounds(2)) (use e in simp)
    then show "2 ^ 52 \<le> real_of_int (uint (f64_sig a))" by simp
  qed simp
  also have "\<dots> = f64_abs a" using f64_sig_bounds(3) e by simp
  finally show ?thesis .
qed


lemma f64_narrow_fixed:
  assumes e: "1022 < expF64UI a" "expF64UI a < 1075 + 1"
  defines "d \<equiv> nat (1075 - expF64UI a)" and "n \<equiv> uint (f64_sig a)"
  shows "f64_abs a = real_of_int n / 2 ^ d" "0 \<le> n div 2 ^ d" "h \<le> d \<Longrightarrow> n div 2 ^ d < 2 ^ (53 - h)"
    "drop_bit d (f64_sig a) = word_of_int (n div 2 ^ d)"
    "fracF64UI a OR 0x0010000000000000 = f64_sig a"
proof -
  have d: "expF64UI a = 1075 + int 0 - int d" "d \<le> 52" using e by (auto simp: d_def)
  show "f64_abs a = real_of_int n / 2 ^ d"
    unfolding n_def using f64_fixed_value [OF d(1)] e by simp
  have n_bounds: "0 \<le> n" "n < 2 ^ 53"
    using f64_sig_bounds(1) [of a] unfolding n_def by simp_all
  then show q: "0 \<le> n div 2 ^ d" by (simp_all add: pos_imp_zdiv_nonneg_iff)
  show "n div 2 ^ d < 2 ^ (53 - h)" if "h \<le> d"
  proof -
    have "n < 2 ^ (53 - h) * 2 ^ h" using n_bounds(2) that d(2) by (simp flip: power_add)
    moreover have "n div 2 ^ h * 2 ^ h \<le> n" 
    proof -
      have "0 \<le> n mod 2 ^ h" by simp
      then show ?thesis using div_mult_mod_eq [of n "2 ^ h"] by linarith
    qed
    ultimately have "n div 2 ^ h * 2 ^ h < 2 ^ (53 - h) * 2 ^ h" by linarith
    then have "n div 2 ^ h < 2 ^ (53 - h)" by simp
    moreover have "n div 2 ^ d \<le> n div 2 ^ h" using n_bounds that by (intro zdiv_mono2 power_increasing) simp_all
    ultimately show ?thesis by linarith
  qed
  have "n div 2 ^ d \<le> n div 1" using n_bounds by (intro zdiv_mono2) simp_all
  then show "drop_bit d (f64_sig a) = word_of_int (n div 2 ^ d)"
    using q n_bounds by (simp add: word_uint_eq_iff uint_drop_bit_div n_def uint_word_of_int)
  show "fracF64UI a OR 0x0010000000000000 = f64_sig a" using e by (simp add: f64_sig_def)
qed

lemma f64_ge_pow: "1023 + int n \<le> expF64UI a \<Longrightarrow> of_int (2 ^ n) \<le> f64_abs a"
proof -
  assume e: "1023 + int n \<le> expF64UI a"
  have "real_of_int (2 ^ n) = 2 powi (int 52 + (int n - 52))" by simp
  also have "\<dots> = 2 ^ 52 * 2 powi (int n - 52)" unfolding powi_add power_int_of_nat ..
  also have "\<dots> \<le> 2 ^ 52 * 2 powi (expF64UI a - 1075)"
    using e by (intro mult_left_mono powi_mono) simp_all
  also have "\<dots> \<le> of_int (uint (f64_sig a)) * 2 powi (expF64UI a - 1075)"
  proof (intro mult_right_mono)
    have "real_of_int (2 ^ 52) \<le> of_int (uint (f64_sig a))"
      unfolding of_int_le_iff by (rule f64_sig_bounds(2)) (use e in simp)
    then show "2 ^ 52 \<le> real_of_int (uint (f64_sig a))" by simp
  qed simp
  also have "\<dots> = f64_abs a" using f64_sig_bounds(3) e by simp
  finally show ?thesis .
qed

lemma ucast_drop32:
  fixes w :: u64
  assumes "uint w div 2 ^ d < 2 ^ 32"
  shows "ucast (ucast (drop_bit d w) :: u32) = drop_bit d w"
    "(ucast (drop_bit d w) :: u32) = word_of_int (uint w div 2 ^ d)"
proof -
  have "uint (drop_bit d w) < 2 ^ 32" using assms by (simp add: uint_drop_bit_div)
  then show "ucast (ucast (drop_bit d w) :: u32) = drop_bit d w"
    by (simp add: word_uint_eq_iff unsigned_ucast_eq unsigned_take_bit_eq take_bit_int_eq_self)
  show "(ucast (drop_bit d w) :: u32) = word_of_int (uint w div 2 ^ d)"
    by (simp add: word_uint_eq_iff uint_drop_bit_div unsigned_ucast_eq uint_word_of_int take_bit_eq_mod)
qed

theorem f64_to_ui32_r_minMag_refines:
  "f64_to_ui32_r_minMag a exact st = f64_to_int_spec ui32_fromNaN fp_to_ui32 a softfloat_round_minMag exact st"
proof -
  consider (zero) "expF64UI a \<le> 1022" | (in_range) "1022 < expF64UI a" "expF64UI a < 1055" "\<not> signF64UI a"
    | (bad) "1023 \<le> expF64UI a" "signF64UI a \<or> 1055 \<le> expF64UI a" by linarith
  then show ?thesis
  proof cases
    case zero
    then show ?thesis
      unfolding f64_to_ui32_r_minMag_def Let_def f64_to_int_spec_def fp_to_ui32_def word_of_exp_or64
      by (subst fp_to_int_zero) (simp_all add: f64_less_one isNaNF64UI_int)
  next
    case in_range
    define d n where "d = nat (1075 - expF64UI a)" and "n = uint (f64_sig a)"
    have e: "expF64UI a < 1075 + 1" "21 \<le> d" using in_range by (simp_all add: d_def)
    note w = f64_narrow_fixed [OF in_range(1) e(1), folded d_def n_def]
    have q: "n div 2 ^ d < 2 ^ 32" using w(3) [of 21, OF e(2)] by simp
    note u = ucast_drop32 [of "f64_sig a" d, folded n_def, OF q]
    have "f64_to_ui32_r_minMag a exact st =
      (word_of_int (n div 2 ^ d), if exact \<and> n mod 2 ^ d \<noteq> 0 then softfloat_raiseFlags softfloat_flag_inexact st else st)"
      unfolding f64_to_ui32_r_minMag_def Let_def w(5) d_def [symmetric] u(1) push_drop_lossless n_def [symmetric]
      using in_range u(2) by simp
    moreover have "fp_to_ui32 (signF64UI a) (f64_abs a) softfloat_round_minMag exact st =
      (word_of_int (if signF64UI a then - (n div 2 ^ d) else n div 2 ^ d),
       if exact \<and> n mod 2 ^ d \<noteq> 0 then softfloat_raiseFlags softfloat_flag_inexact st else st)"
      unfolding fp_to_ui32_def by (rule fp_to_int_floor [OF w(1)]) (use q w(2) in_range in simp_all)
    ultimately show ?thesis
      using in_range by (simp add: f64_to_int_spec_def isNaNF64UI_int)
  next
    case bad
    have "of_int (if signF64UI a then 1 else 2 ^ 32) \<le> f64_abs a" using bad f64_ge_one f64_ge_pow [of 32 a] by auto
    note o = fp_to_int_over [where 'a = 32, OF this, of "signF64UI a" 0 "2 ^ 32 - 1" exact st]
    have "f64_to_ui32_r_minMag a exact st =
      (if isNaNF64UI a then ui32_fromNaN else if signF64UI a then ui32_fromNegOverflow else ui32_fromPosOverflow,
       softfloat_raiseFlags softfloat_flag_invalid st)"
      using bad unfolding f64_to_ui32_r_minMag_def Let_def isNaNF64UI_int by auto
    then show ?thesis
      using o by (simp add: f64_to_int_spec_def fp_to_ui32_def int_limits)
  qed
qed

lemma f64_int_min: "uiA = packToF64UI True 0x43E 0 \<longleftrightarrow> signF64UI uiA \<and> expF64UI uiA = 1086 \<and> fracF64UI uiA = 0"
proof -
  have p: "signF64UI (packToF64UI True 0x43E 0)" "expF64UI (packToF64UI True 0x43E 0) = 1086" "fracF64UI (packToF64UI True 0x43E 0) = 0"
    by code_simp+
  show ?thesis unfolding f64_fields_eq [of uiA] by (simp only: p simp_thms)
qed

lemma i32_edge: "signF64UI a \<and> expF64UI a = 0x41E \<and> fracF64UI a < 0x0000000000200000 \<Longrightarrow>
    uint (f64_sig a) div 2 ^ 21 = 2 ^ 31 \<and> uint (f64_sig a) mod 2 ^ 21 = uint (fracF64UI a)"
proof -
  assume a: "signF64UI a \<and> expF64UI a = 0x41E \<and> fracF64UI a < 0x0000000000200000"
  have s: "uint (f64_sig a) = uint (fracF64UI a) + 2 ^ 31 * 2 ^ 21"
    using a or_hidden64 [OF fracF64UI_bounds(2), of a] by (simp add: f64_sig_def)
  have f: "0 \<le> uint (fracF64UI a)" "uint (fracF64UI a) < 2 ^ 21" using a by (simp_all add: word_less_def)
  have "(uint (fracF64UI a) + 2 ^ 31 * 2 ^ 21) div 2 ^ 21 = 2 ^ 31 + uint (fracF64UI a) div 2 ^ 21"
    by (rule div_mult_self1) simp
  then show ?thesis unfolding s mod_mult_self1 using f by simp
qed

lemma f64_over_i32:
  assumes e: "1054 \<le> expF64UI a" and ne: "\<not> (expF64UI a = 0x41E \<and> fracF64UI a < 0x0000000000200000)"
  shows "of_int (2 ^ 31 + 1) \<le> f64_abs a"
proof (cases "expF64UI a = 0x41E")
  case True
  have "2 ^ 52 + 2 ^ 21 \<le> uint (f64_sig a)"
    using True ne or_hidden64 [OF fracF64UI_bounds(2), of a] by (simp add: f64_sig_def word_less_def)
  then have "real_of_int (2 ^ 52 + 2 ^ 21) \<le> of_int (uint (f64_sig a))" unfolding of_int_le_iff .
  moreover have "f64_abs a = of_int (uint (f64_sig a)) / 2 ^ 21"
    using True f64_sig_bounds(3) [of a] by (simp add: power_int_minus field_simps)
  ultimately show ?thesis by simp
next
  case False
  then have "of_int (2 ^ 32) \<le> f64_abs a" using e by (intro f64_ge_pow) simp
  then show ?thesis by simp
qed

theorem f64_to_i32_r_minMag_refines:
  "f64_to_i32_r_minMag a exact st = f64_to_int_spec i32_fromNaN fp_to_i32 a softfloat_round_minMag exact st"
proof -
  consider (zero) "expF64UI a \<le> 1022" | (in_range) "1022 < expF64UI a" "expF64UI a < 1054" | (over) "1054 \<le> expF64UI a" by linarith
  then show ?thesis
  proof cases
    case zero
    then show ?thesis
      unfolding f64_to_i32_r_minMag_def Let_def f64_to_int_spec_def fp_to_i32_def word_of_exp_or64
      by (subst fp_to_int_zero) (simp_all add: f64_less_one isNaNF64UI_int)
  next
    case in_range
    define d n where "d = nat (1075 - expF64UI a)" and "n = uint (f64_sig a)"
    have e: "expF64UI a < 1075 + 1" "22 \<le> d" using in_range by (simp_all add: d_def)
    note w = f64_narrow_fixed [OF in_range(1) e(1), folded d_def n_def]
    have q: "n div 2 ^ d < 2 ^ 31" "n div 2 ^ d < 2 ^ 32" using w(3) [of 22, OF e(2)] by simp_all
    note u = ucast_drop32 [of "f64_sig a" d, folded n_def, OF q(2)]
    have "f64_to_i32_r_minMag a exact st =
      (if signF64UI a then - word_of_int (n div 2 ^ d) else word_of_int (n div 2 ^ d),
       if exact \<and> n mod 2 ^ d \<noteq> 0 then softfloat_raiseFlags softfloat_flag_inexact st else st)"
      unfolding f64_to_i32_r_minMag_def Let_def w(5) d_def [symmetric] u(1) push_drop_lossless n_def [symmetric]
      using in_range u(2) by simp
    moreover have "fp_to_i32 (signF64UI a) (f64_abs a) softfloat_round_minMag exact st =
      (word_of_int (if signF64UI a then - (n div 2 ^ d) else n div 2 ^ d),
       if exact \<and> n mod 2 ^ d \<noteq> 0 then softfloat_raiseFlags softfloat_flag_inexact st else st)"
      unfolding fp_to_i32_def by (rule fp_to_int_floor [OF w(1)]) (use q(1) w(2) in simp_all)
    ultimately show ?thesis
      using in_range by (simp add: f64_to_int_spec_def isNaNF64UI_int)
  next
    case over
    show ?thesis
    proof (cases "signF64UI a \<and> expF64UI a = 0x41E \<and> fracF64UI a < 0x0000000000200000")
      case True
      note i = i32_edge [OF True]
      have v: "f64_abs a = real_of_int (uint (f64_sig a)) / 2 ^ 21"
        using True f64_sig_bounds(3) [of a] by (simp add: power_int_minus field_simps)
      have "fp_to_i32 True (f64_abs a) softfloat_round_minMag exact st =
          (- 0x80000000, if exact \<and> fracF64UI a \<noteq> 0 then softfloat_raiseFlags softfloat_flag_inexact st else st)"
        unfolding fp_to_i32_def
        using fp_to_int_floor [where 'a = 32, OF v, of "- (2 ^ 31)" True "2 ^ 31 - 1" exact st] i
        by (simp add: word_zero_uint)
      then show ?thesis
        using True by (simp add: f64_to_i32_r_minMag_def f64_to_int_spec_def isNaNF64UI_int)
    next
      case False
      then have "of_int (if signF64UI a then 2 ^ 31 + 1 else 2 ^ 31) \<le> f64_abs a"
        using f64_over_i32 [OF over] f64_ge_pow [of 31 a] over by auto
      note o = fp_to_int_over [where 'a = 32, OF this, of "signF64UI a" "- (2 ^ 31)" "2 ^ 31 - 1" exact st]
      have "f64_to_i32_r_minMag a exact st =
        (if isNaNF64UI a then i32_fromNaN else if signF64UI a then i32_fromNegOverflow else i32_fromPosOverflow,
         softfloat_raiseFlags softfloat_flag_invalid st)"
        using over unfolding f64_to_i32_r_minMag_def Let_def isNaNF64UI_int if_not_P [OF False] by simp
      then show ?thesis
        using o by (simp add: f64_to_int_spec_def fp_to_i32_def int_limits)
    qed
  qed
qed

lemma f64_wide_fixed:
  assumes e: "1075 \<le> expF64UI a" "expF64UI a \<le> 1075 + int h" "h \<le> 11"
  defines "k \<equiv> nat (expF64UI a - 1075)"
  shows "f64_abs a = real_of_int (uint (f64_sig a) * 2 ^ k) / 2 ^ 0"
    "uint (f64_sig a) * 2 ^ k < 2 ^ (53 + h)" "0 \<le> uint (f64_sig a) * 2 ^ k"
    "push_bit k (f64_sig a) = word_of_int (uint (f64_sig a) * 2 ^ k)"
    "fracF64UI a OR 0x0010000000000000 = f64_sig a"
proof -
  have k: "expF64UI a = 1075 + int k - int 0" "k \<le> h" using e by (auto simp: k_def)
  show "f64_abs a = real_of_int (uint (f64_sig a) * 2 ^ k) / 2 ^ 0"
    using f64_fixed_value [OF k(1)] e by simp
  have "uint (f64_sig a) * 2 ^ k < 2 ^ 53 * 2 ^ k"
    using f64_sig_bounds(1) [of a] by simp
  also have "\<dots> \<le> 2 ^ 53 * (2::int) ^ h" using k(2) by simp
  finally show b: "uint (f64_sig a) * 2 ^ k < 2 ^ (53 + h)" unfolding power_add .
  also have "(2::int) ^ (53 + h) \<le> 2 ^ 64" using e(3) by (intro power_increasing) simp_all
  finally have "uint (push_bit k (f64_sig a)) = uint (f64_sig a) * 2 ^ k" by (intro uint_push_bit_small) simp
  then show "push_bit k (f64_sig a) = word_of_int (uint (f64_sig a) * 2 ^ k)" by (metis word_of_int_uint)
  show "0 \<le> uint (f64_sig a) * 2 ^ k" by simp
  show "fracF64UI a OR 0x0010000000000000 = f64_sig a" using e by (simp add: f64_sig_def)
qed

theorem f64_to_i64_r_minMag_refines:
  "f64_to_i64_r_minMag a exact st = f64_to_int_spec i64_fromNaN fp_to_i64 a softfloat_round_minMag exact st"
proof -
  consider (zero) "expF64UI a \<le> 1022" | (frac) "1022 < expF64UI a" "expF64UI a < 1075"
    | (whole) "1075 \<le> expF64UI a" "expF64UI a \<le> 1085" | (over) "1086 \<le> expF64UI a" by linarith
  then show ?thesis
  proof cases
    case zero
    then show ?thesis
      unfolding f64_to_i64_r_minMag_def Let_def f64_to_int_spec_def fp_to_i64_def word_of_exp_or64
      by (subst fp_to_int_zero) (simp_all add: f64_less_one isNaNF64UI_int)
  next
    case frac
    define d n where "d = nat (1075 - expF64UI a)" and "n = uint (f64_sig a)"
    have e: "expF64UI a < 1075 + 1" using frac by simp
    note w = f64_narrow_fixed [OF frac(1) e, folded d_def n_def]
    have q: "n div 2 ^ d < 2 ^ 63" using w(3) [of 0] by simp
    have "f64_to_i64_r_minMag a exact st =
      (if signF64UI a then - word_of_int (n div 2 ^ d) else word_of_int (n div 2 ^ d),
       if exact \<and> n mod 2 ^ d \<noteq> 0 then softfloat_raiseFlags softfloat_flag_inexact st else st)"
      unfolding f64_to_i64_r_minMag_def Let_def w(5) d_def [symmetric] push_drop_lossless n_def [symmetric] w(4)
      using frac by simp
    moreover have "fp_to_i64 (signF64UI a) (f64_abs a) softfloat_round_minMag exact st =
      (word_of_int (if signF64UI a then - (n div 2 ^ d) else n div 2 ^ d),
       if exact \<and> n mod 2 ^ d \<noteq> 0 then softfloat_raiseFlags softfloat_flag_inexact st else st)"
      unfolding fp_to_i64_def by (rule fp_to_int_floor [OF w(1)]) (use q w(2) in simp_all)
    ultimately show ?thesis
      using frac by (simp add: f64_to_int_spec_def isNaNF64UI_int)
  next
    case whole
    define k n where "k = nat (expF64UI a - 1075)" and "n = uint (f64_sig a) * 2 ^ k"
    note w = f64_wide_fixed [of a 10, OF whole(1), folded k_def, folded n_def, simplified, OF whole(2)]
    have "f64_to_i64_r_minMag a exact st = (if signF64UI a then - word_of_int n else word_of_int n, st)"
      unfolding f64_to_i64_r_minMag_def Let_def
      using whole w(4,5) by (simp add: k_def [symmetric])
    moreover have "fp_to_i64 (signF64UI a) (f64_abs a) softfloat_round_minMag exact st =
      (word_of_int (if signF64UI a then - n else n), st)"
      using fp_to_int_floor [where 'a = 64, of "f64_abs a" n 0 "- (2 ^ 63)" "signF64UI a" "2 ^ 63 - 1" exact st] w(1-3)
      unfolding fp_to_i64_def by simp
    ultimately show ?thesis
      using whole by (simp add: f64_to_int_spec_def isNaNF64UI_int)
  next
    case over
    note lim = f64_over_limit [of 63 a, simplified]
    show ?thesis
    proof (cases "signF64UI a \<and> expF64UI a = 1086 \<and> fracF64UI a = 0")
      case True
      then have v: "f64_abs a = real_of_int (2 ^ 63) / 2 ^ 0" using lim(3) by simp
      show ?thesis
        using True fp_to_int_floor [where 'a = 64, OF v, of "- (2 ^ 63)" "signF64UI a" "2 ^ 63 - 1" exact st]
        by (simp add: f64_to_i64_r_minMag_def f64_int_min f64_to_int_spec_def fp_to_i64_def isNaNF64UI_int)
    next
      case False
      then have "of_int (if signF64UI a then 2 ^ 63 + 1 else 2 ^ 63) \<le> f64_abs a" using lim(1,2) over by auto
      note o = fp_to_int_over [where 'a = 64, OF this, of "signF64UI a" "- (2 ^ 63)" "2 ^ 63 - 1" exact st]
      have "f64_to_i64_r_minMag a exact st =
        (if isNaNF64UI a then i64_fromNaN else if signF64UI a then i64_fromNegOverflow else i64_fromPosOverflow,
         softfloat_raiseFlags softfloat_flag_invalid st)"
        using over unfolding f64_to_i64_r_minMag_def Let_def f64_int_min isNaNF64UI_int if_not_P [OF False] by simp
      then show ?thesis
        using o by (simp add: f64_to_int_spec_def fp_to_i64_def int_limits)
    qed
  qed
qed

theorem f64_to_ui64_r_minMag_refines:
  "f64_to_ui64_r_minMag a exact st = f64_to_int_spec ui64_fromNaN fp_to_ui64 a softfloat_round_minMag exact st"
proof -
  consider (zero) "expF64UI a \<le> 1022" | (frac) "1022 < expF64UI a" "expF64UI a < 1075" "\<not> signF64UI a"
    | (whole) "1075 \<le> expF64UI a" "expF64UI a \<le> 1086" "\<not> signF64UI a"
    | (bad) "1023 \<le> expF64UI a" "signF64UI a \<or> 1087 \<le> expF64UI a" by linarith
  then show ?thesis
  proof cases
    case zero
    then show ?thesis
      unfolding f64_to_ui64_r_minMag_def Let_def f64_to_int_spec_def fp_to_ui64_def word_of_exp_or64
      by (subst fp_to_int_zero) (simp_all add: f64_less_one isNaNF64UI_int)
  next
    case frac
    define d n where "d = nat (1075 - expF64UI a)" and "n = uint (f64_sig a)"
    have e: "expF64UI a < 1075 + 1" "d \<le> 52" "1 \<le> d" "expF64UI a - 1075 = - int d" using frac by (simp_all add: d_def)
    note w = f64_narrow_fixed [OF frac(1) e(1), folded d_def n_def]
    have q: "n div 2 ^ d < 2 ^ 64" using w(3) [of 0] by simp
    have "(- int d) mod 64 = (- int d + 64) mod 64" by simp
    also have "\<dots> = - int d + 64" by (rule mod_pos_pos_trivial) (use e in auto)
    finally have m: "nat ((expF64UI a - 1075) mod 64) = 64 - d" using e(2-4) by simp
    have "f64_to_ui64_r_minMag a exact st =
      (word_of_int (n div 2 ^ d), if exact \<and> n mod 2 ^ d \<noteq> 0 then softfloat_raiseFlags softfloat_flag_inexact st else st)"
      unfolding f64_to_ui64_r_minMag_def Let_def w(5) d_def [symmetric] w(4)
      using frac m push_low_nonzero [of d "f64_sig a"] e(2) by (simp add: n_def [symmetric])
    moreover have "fp_to_ui64 (signF64UI a) (f64_abs a) softfloat_round_minMag exact st =
      (word_of_int (if signF64UI a then - (n div 2 ^ d) else n div 2 ^ d),
       if exact \<and> n mod 2 ^ d \<noteq> 0 then softfloat_raiseFlags softfloat_flag_inexact st else st)"
      unfolding fp_to_ui64_def by (rule fp_to_int_floor [OF w(1)]) (use q w(2) frac(3) in simp_all)
    ultimately show ?thesis
      using frac by (simp add: f64_to_int_spec_def isNaNF64UI_int)
  next
    case whole
    define k n where "k = nat (expF64UI a - 1075)" and "n = uint (f64_sig a) * 2 ^ k"
    note w = f64_wide_fixed [of a 11, OF whole(1), folded k_def, folded n_def, simplified, OF whole(2)]
    have "f64_to_ui64_r_minMag a exact st = (word_of_int n, st)"
      unfolding f64_to_ui64_r_minMag_def Let_def
      using whole w(4,5) by (simp add: k_def [symmetric])
    moreover have "fp_to_ui64 (signF64UI a) (f64_abs a) softfloat_round_minMag exact st = (word_of_int n, st)"
      using fp_to_int_floor [where 'a = 64, of "f64_abs a" n 0 0 "signF64UI a" "2 ^ 64 - 1" exact st] w(1-3) whole(3)
      unfolding fp_to_ui64_def by simp
    ultimately show ?thesis
      using whole by (simp add: f64_to_int_spec_def isNaNF64UI_int)
  next
    case bad
    have "of_int (if signF64UI a then 1 else 2 ^ 64) \<le> f64_abs a"
      using bad f64_ge_one f64_ge_pow [of 64 a] by auto
    note o = fp_to_int_over [where 'a = 64, OF this, of "signF64UI a" 0 "2 ^ 64 - 1" exact st]
    have "f64_to_ui64_r_minMag a exact st =
      (if isNaNF64UI a then ui64_fromNaN else if signF64UI a then ui64_fromNegOverflow else ui64_fromPosOverflow,
       softfloat_raiseFlags softfloat_flag_invalid st)"
      using bad unfolding f64_to_ui64_r_minMag_def Let_def isNaNF64UI_int by auto
    then show ?thesis
      using o by (simp add: f64_to_int_spec_def fp_to_ui64_def int_limits)
  qed
qed

end
