(* ===== verification/SF_Mul.thy ===== *)
theory SF_Mul
  imports SF_Values
begin

text \<open>
  Multiplication (\<open>f32_mul.c\<close>, \<open>f64_mul.c\<close>).  The labels \<open>propagateNaN\<close>, \<open>infArg\<close> and
  \<open>zero\<close> of the code are local definitions of the same names.  The specification is over
  real numbers and has no exponents or significands in it; the refinement theorems have no
  hypotheses, so they hold for every pair of bit patterns and every state.
\<close>

section \<open>Definitions\<close>

definition f32_mul :: "float32 \<Rightarrow> float32 \<Rightarrow> sf_state \<Rightarrow> float32 \<times> sf_state" where
  "f32_mul uiA uiB st =
     (let signA = signF32UI uiA;
          expA = expF32UI uiA;
          sigA = fracF32UI uiA;
          signB = signF32UI uiB;
          expB = expF32UI uiB;
          sigB = fracF32UI uiB;
          signZ = (signA \<noteq> signB);
          propagateNaN = softfloat_propagateNaNF32UI uiA uiB st;
          infArg = (\<lambda>magBits.
            if magBits = 0
            then (defaultNaNF32UI, softfloat_raiseFlags softfloat_flag_invalid st)
            else (packToF32UI signZ 0xFF 0, st));
          zero = (packToF32UI signZ 0 0, st)
      in if expA = 0xFF
         then if sigA \<noteq> 0 \<or> (expB = 0xFF \<and> sigB \<noteq> 0) then propagateNaN
              else infArg (word_of_int expB OR sigB)
         else if expB = 0xFF
         then if sigB \<noteq> 0 then propagateNaN else infArg (word_of_int expA OR sigA)
         else if expA = 0 \<and> sigA = 0 then zero
         else let (expA, sigA) = (if expA = 0 then softfloat_normSubnormalF32Sig sigA else (expA, sigA))
              in if expB = 0 \<and> sigB = 0 then zero
                 else let (expB, sigB) = (if expB = 0 then softfloat_normSubnormalF32Sig sigB else (expB, sigB));
                          expZ = expA + expB - 0x7F;
                          sigA = push_bit 7 (sigA OR 0x00800000);
                          sigB = push_bit 8 (sigB OR 0x00800000);
                          sigZ = (ucast (softfloat_shortShiftRightJam64 (ucast sigA * ucast sigB) 32) :: u32);
                          (expZ, sigZ) = (if sigZ < 0x40000000 then (expZ - 1, push_bit 1 sigZ) else (expZ, sigZ))
                      in softfloat_roundPackToF32 signZ expZ sigZ st)"

definition f64_mul :: "float64 \<Rightarrow> float64 \<Rightarrow> sf_state \<Rightarrow> float64 \<times> sf_state" where
  "f64_mul uiA uiB st =
     (let signA = signF64UI uiA;
          expA = expF64UI uiA;
          sigA = fracF64UI uiA;
          signB = signF64UI uiB;
          expB = expF64UI uiB;
          sigB = fracF64UI uiB;
          signZ = (signA \<noteq> signB);
          propagateNaN = softfloat_propagateNaNF64UI uiA uiB st;
          infArg = (\<lambda>magBits.
            if magBits = 0
            then (defaultNaNF64UI, softfloat_raiseFlags softfloat_flag_invalid st)
            else (packToF64UI signZ 0x7FF 0, st));
          zero = (packToF64UI signZ 0 0, st)
      in if expA = 0x7FF
         then if sigA \<noteq> 0 \<or> (expB = 0x7FF \<and> sigB \<noteq> 0) then propagateNaN
              else infArg (word_of_int expB OR sigB)
         else if expB = 0x7FF
         then if sigB \<noteq> 0 then propagateNaN else infArg (word_of_int expA OR sigA)
         else if expA = 0 \<and> sigA = 0 then zero
         else let (expA, sigA) = (if expA = 0 then softfloat_normSubnormalF64Sig sigA else (expA, sigA))
              in if expB = 0 \<and> sigB = 0 then zero
                 else let (expB, sigB) = (if expB = 0 then softfloat_normSubnormalF64Sig sigB else (expB, sigB));
                          expZ = expA + expB - 0x3FF;
                          sigA = push_bit 10 (sigA OR 0x0010000000000000);
                          sigB = push_bit 11 (sigB OR 0x0010000000000000);
                          sig128Z = softfloat_mul64To128 sigA sigB;
                          sigZ = v64 sig128Z OR of_bool (v0 sig128Z \<noteq> 0);
                          (expZ, sigZ) = (if sigZ < 0x4000000000000000 then (expZ - 1, push_bit 1 sigZ) else (expZ, sigZ))
                      in softfloat_roundPackToF64 signZ expZ sigZ st)"

section \<open>Specification\<close>

definition f32_mul_spec :: "float32 \<Rightarrow> float32 \<Rightarrow> sf_state \<Rightarrow> float32 \<times> sf_state" where
  "f32_mul_spec a b st =
     (let s = (signF32UI a \<noteq> signF32UI b); v = \<bar>f32_val a * f32_val b\<bar>
      in if isNaNF32UI a \<or> isNaNF32UI b then softfloat_propagateNaNF32UI a b st
         else if (f32_isInf a \<and> f32_val b = 0) \<or> (f32_isInf b \<and> f32_val a = 0)
         then (defaultNaNF32UI, softfloat_raiseFlags softfloat_flag_invalid st)
         else if f32_isInf a \<or> f32_isInf b then (packToF32UI s 0xFF 0, st)
         else if v = 0 then (packToF32UI s 0 0, st)
         else f32_round st s v)"

definition f64_mul_spec :: "float64 \<Rightarrow> float64 \<Rightarrow> sf_state \<Rightarrow> float64 \<times> sf_state" where
  "f64_mul_spec a b st =
     (let s = (signF64UI a \<noteq> signF64UI b); v = \<bar>f64_val a * f64_val b\<bar>
      in if isNaNF64UI a \<or> isNaNF64UI b then softfloat_propagateNaNF64UI a b st
         else if (f64_isInf a \<and> f64_val b = 0) \<or> (f64_isInf b \<and> f64_val a = 0)
         then (defaultNaNF64UI, softfloat_raiseFlags softfloat_flag_invalid st)
         else if f64_isInf a \<or> f64_isInf b then (packToF64UI s 0x7FF 0, st)
         else if v = 0 then (packToF64UI s 0 0, st)
         else f64_round st s v)"

section \<open>Refinement\<close>

lemma product_range:
  fixes m n :: int
  assumes "2 ^ p \<le> m" "m < 2 ^ Suc p" "2 ^ q \<le> n" "n < 2 ^ Suc q"
  shows "2 ^ (p + q) \<le> m * n" "m * n < 2 ^ (p + q + 2)"
proof -
  have "2 ^ p * 2 ^ q \<le> m * n" using assms by (intro mult_mono) (auto intro: order_trans [rotated])
  then show "2 ^ (p + q) \<le> m * n" by (simp add: power_add)
  have "0 \<le> n" using assms(3) by (meson order_trans zero_le_numeral zero_le_power)
  then have "m * n < 2 ^ Suc p * 2 ^ Suc q" using assms by (intro mult_strict_mono') (auto intro: order_trans [rotated])
  then show "m * n < 2 ^ (p + q + 2)" by (simp add: power_add)
qed

lemma jam_range:
  fixes n :: int
  assumes "2 ^ (k + d) \<le> n" "n < 2 ^ (l + d)" "1 \<le> l"
  shows "2 ^ k \<le> jam n d" "jam n d < 2 ^ l"
proof -
  have "2 ^ k * 2 ^ d \<le> n" using assms by (simp add: power_add)
  then have "2 ^ k \<le> n div 2 ^ d"
    by (metis zdiv_mono1 nonzero_mult_div_cancel_right power_not_zero zero_less_numeral zero_less_power zero_neq_numeral)
  then show "2 ^ k \<le> jam n d" using jam_bounds(1) [of n d] by simp
  have "2 ^ l = 2 * (2::int) ^ (l - 1)" using assms(3) by (metis Suc_diff_1 less_eq_Suc_le One_nat_def power_Suc)
  then show "jam n d < 2 ^ l" using jam_even_multiple(1) [of n d "2 ^ (l - 1)"] assms(2)
    by (simp add: power_add)
qed

lemma f32_mul_finite:
  assumes a: "f32_finite a" "f32_mag a \<noteq> 0" and b: "f32_finite b" "f32_mag b \<noteq> 0"
  shows "f32_mul a b st = f32_round st (signF32UI a \<noteq> signF32UI b) (f32_abs a * f32_abs b)"
proof -
  obtain eA sA mA where A: "f32_norm a = (eA, sA)" "uint (sA OR 0x00800000) = mA" "2 ^ 23 \<le> mA" "mA < 2 ^ 24"
    "- 22 \<le> eA" "eA \<le> 254" "f32_abs a = of_int mA * 2 powi (eA - 150)" using a by (rule f32_norm_value)
  obtain eB sB mB where B: "f32_norm b = (eB, sB)" "uint (sB OR 0x00800000) = mB" "2 ^ 23 \<le> mB" "mB < 2 ^ 24"
    "- 22 \<le> eB" "eB \<le> 254" "f32_abs b = of_int mB * 2 powi (eB - 150)" using b by (rule f32_norm_value)
  define P where "P = mA * mB * 2 ^ 15"
  have P: "2 ^ (29 + 32) \<le> P" "P < 2 ^ (31 + 32)"
    using product_range [of 23 mA 23 mB] A B unfolding P_def by simp_all
  define sig where "sig = (ucast (softfloat_shortShiftRightJam64
     (ucast (push_bit 7 (sA OR 0x00800000)) * ucast (push_bit 8 (sB OR 0x00800000))) 32) :: u32)"
  have sig: "uint sig = jam P 32"
  proof -
    have "uint (push_bit 7 (sA OR 0x00800000)) = mA * 2 ^ 7" "uint (push_bit 8 (sB OR 0x00800000)) = mB * 2 ^ 8"
      by (subst uint_push_bit_small; use A B in simp)+
    then have p: "uint (ucast (push_bit 7 (sA OR 0x00800000)) * ucast (push_bit 8 (sB OR 0x00800000)) :: u64) = P"
      unfolding uint_mul32 P_def by simp
    have "jam P 32 < 2 ^ 32" "0 \<le> jam P 32" using jam_range [OF P] by simp_all
    then show ?thesis
      unfolding sig_def uint_ucast_64_32 shortShiftRightJam64_correct p by simp
  qed
  have c: "cell 5 (of_int (uint sig)) (of_int P / 2 ^ 32)"
    unfolding sig by (rule cell_jam_int) simp
  have "f32_mul a b st = (case if sig < 0x40000000 then (eA + eB - 0x7F - 1, push_bit 1 sig) else (eA + eB - 0x7F, sig) of
      (e, sig) \<Rightarrow> softfloat_roundPackToF32 (signF32UI a \<noteq> signF32UI b) e sig st)"
  proof -
    have "(expF32UI a = 255) = False" "(expF32UI a = 0 \<and> fracF32UI a = 0) = False"
      "(expF32UI b = 255) = False" "(expF32UI b = 0 \<and> fracF32UI b = 0) = False"
      using a b unfolding f32_class_fields by simp_all
    then show ?thesis
      unfolding f32_mul_def Let_def f32_norm_def [symmetric] A(1) B(1) sig_def [symmetric] prod.case
      by (simp only: if_False prod.case sig_def [symmetric])
  qed
  also have "\<dots> = f32_round st (signF32UI a \<noteq> signF32UI b) (fp_scaled 23 127 6 (eA + eB - 0x7F) (of_int P / 2 ^ 32))"
    by (rule roundPackToF32_norm1 [OF c]) (use jam_range [OF P] A B in \<open>simp_all add: sig\<close>)
  also have "fp_scaled 23 127 6 (eA + eB - 0x7F) (of_int P / 2 ^ 32) = f32_abs a * f32_abs b"
  proof -
    have "(2::real) powi (eA + eB - 0x7F - 127 - int (23 + 6)) = 2 powi (eA - 150) * 2 powi (eB - 150) * 2 powi 17"
      unfolding powi_add [symmetric] by simp
    then show ?thesis unfolding fp_scaled_def A(7) B(7) P_def by simp
  qed
  finally show ?thesis .
qed

theorem f32_mul_refines: "f32_mul a b st = f32_mul_spec a b st"
proof -
  note cf = f32_class_fields
  have abs: "\<bar>f32_val a * f32_val b\<bar> = f32_abs a * f32_abs b"
    by (simp add: abs_mult v32.abs_val f32_abs_def)
  have pz: "f32_abs a * f32_abs b = 0 \<longleftrightarrow> f32_mag a = 0 \<or> f32_mag b = 0"
    unfolding abs [symmetric] by (simp add: v32.val_zero_iff)
  have nn: "\<not> isNaNF32UI c" "\<not> f32_isInf c" if "f32_finite c" for c
    using that by (auto simp: cf(1,3) isNaNF32UI_int)
  consider (nan) "isNaNF32UI a \<or> isNaNF32UI b" | (inf) "\<not> isNaNF32UI a" "\<not> isNaNF32UI b" "f32_isInf a \<or> f32_isInf b"
    | (zero) "f32_finite a" "f32_finite b" "f32_mag a = 0 \<or> f32_mag b = 0"
    | (finite) "f32_finite a" "f32_finite b" "f32_mag a \<noteq> 0" "f32_mag b \<noteq> 0"
    unfolding cf(1,3) isNaNF32UI_int by blast
  then show ?thesis
  proof cases
    case nan
    then have "f32_mul a b st = softfloat_propagateNaNF32UI a b st"
      unfolding isNaNF32UI_int f32_mul_def Let_def
      by (cases "expF32UI a = 255"; cases "fracF32UI a = 0"; simp)
    then show ?thesis using nan unfolding f32_mul_spec_def Let_def by simp
  next
    case inf
    have i: "f32_isInf c \<Longrightarrow> f32_mag c \<noteq> 0" for c by (auto simp: cf)
    show ?thesis
    proof (cases "f32_isInf a")
      case True
      then have "expF32UI a = 255" "fracF32UI a = 0" by (simp_all add: cf)
      moreover have "\<not> (expF32UI b = 255 \<and> fracF32UI b \<noteq> 0)" using inf(2) by (simp add: isNaNF32UI_int)
      ultimately have "f32_mul a b st = (if f32_mag b = 0
          then (defaultNaNF32UI, softfloat_raiseFlags softfloat_flag_invalid st)
          else (packToF32UI (signF32UI a \<noteq> signF32UI b) 0xFF 0, st))"
        unfolding f32_mul_def Let_def word_of_exp_or32 by (cases "expF32UI b = 255") simp_all
      then show ?thesis
        unfolding f32_mul_spec_def Let_def v32.val_zero_iff using inf True i by simp
    next
      case False
      then have "f32_isInf b" using inf(3) by simp
      then have "expF32UI b = 255" "fracF32UI b = 0" by (simp_all add: cf)
      moreover have "expF32UI a \<noteq> 255" using False inf(1) by (auto simp: cf(1) isNaNF32UI_int)
      ultimately have "f32_mul a b st = (if f32_mag a = 0
          then (defaultNaNF32UI, softfloat_raiseFlags softfloat_flag_invalid st)
          else (packToF32UI (signF32UI a \<noteq> signF32UI b) 0xFF 0, st))"
        unfolding f32_mul_def Let_def word_of_exp_or32 by simp
      then show ?thesis
        unfolding f32_mul_spec_def Let_def v32.val_zero_iff using inf False i by simp
    qed
  next
    case zero
    then have s: "f32_mul_spec a b st = (packToF32UI (signF32UI a \<noteq> signF32UI b) 0 0, st)"
      unfolding f32_mul_spec_def Let_def abs pz by (simp add: nn)
    have e: "(expF32UI a = 255) = False" "(expF32UI b = 255) = False" using zero by (simp_all add: cf)
    show ?thesis
    proof (cases "f32_mag a = 0")
      case True
      then have "(expF32UI a = 0 \<and> fracF32UI a = 0) = True" by (simp add: cf)
      then show ?thesis unfolding s f32_mul_def Let_def by (simp only: e if_False if_True)
    next
      case False
      then have "(expF32UI b = 0 \<and> fracF32UI b = 0) = True" using zero(3) False unfolding cf by blast
      moreover have "(expF32UI a = 0 \<and> fracF32UI a = 0) = False" using False by (simp add: cf)
      moreover obtain ea sa where "f32_norm a = (ea, sa)" by (cases "f32_norm a")
      ultimately show ?thesis
        unfolding s f32_mul_def Let_def f32_norm_def [symmetric] by (simp only: e if_False if_True prod.case)
    qed
  next
    case finite
    then have "f32_mul_spec a b st = f32_round st (signF32UI a \<noteq> signF32UI b) (f32_abs a * f32_abs b)"
      unfolding f32_mul_spec_def Let_def abs pz by (simp add: nn)
    then show ?thesis using f32_mul_finite finite by simp
  qed
qed
lemma f64_mul_finite:
  assumes a: "f64_finite a" "f64_mag a \<noteq> 0" and b: "f64_finite b" "f64_mag b \<noteq> 0"
  shows "f64_mul a b st = f64_round st (signF64UI a \<noteq> signF64UI b) (f64_abs a * f64_abs b)"
proof -
  obtain eA sA mA where A: "f64_norm a = (eA, sA)" "uint (sA OR 0x0010000000000000) = mA" "2 ^ 52 \<le> mA" "mA < 2 ^ 53"
    "- 51 \<le> eA" "eA \<le> 2046" "f64_abs a = of_int mA * 2 powi (eA - 1075)" using a by (rule f64_norm_value)
  obtain eB sB mB where B: "f64_norm b = (eB, sB)" "uint (sB OR 0x0010000000000000) = mB" "2 ^ 52 \<le> mB" "mB < 2 ^ 53"
    "- 51 \<le> eB" "eB \<le> 2046" "f64_abs b = of_int mB * 2 powi (eB - 1075)" using b by (rule f64_norm_value)
  define P where "P = mA * mB * 2 ^ 21"
  have P: "2 ^ (61 + 64) \<le> P" "P < 2 ^ (63 + 64)"
    using product_range [of 52 mA 52 mB] A B unfolding P_def by simp_all
  define z where "z = softfloat_mul64To128
     (push_bit 10 (sA OR 0x0010000000000000)) (push_bit 11 (sB OR 0x0010000000000000))"
  define sig where "sig = v64 z OR of_bool (v0 z \<noteq> 0)"
  have sig: "uint sig = jam P 64"
  proof -
    have "uint (push_bit 10 (sA OR 0x0010000000000000)) = mA * 2 ^ 10"
      "uint (push_bit 11 (sB OR 0x0010000000000000)) = mB * 2 ^ 11"
      by (subst uint_push_bit_small; use A B in simp)+
    then have p: "u128 z = P"
      unfolding z_def mul64To128_correct P_def by simp
    have "u128 z div 2 ^ 64 = uint (v64 z)" "u128 z mod 2 ^ 64 = uint (v0 z)"
      using pow_split_div [of "uint (v0 z)" 64 "uint (v64 z)"] pow_split_mod [of "uint (v0 z)" 64 "uint (v64 z)"]
        uint_lt2p [of "v0 z"] by (simp_all add: u128_def)
    then show ?thesis
      unfolding sig_def uint_or_of_bool jam_def p [symmetric] word_zero_uint by (simp add: conj_commute)
  qed
  have c: "cell 8 (of_int (uint sig)) (of_int P / 2 ^ 64)"
    unfolding sig by (rule cell_jam_int) simp
  have "f64_mul a b st = (case if sig < 0x4000000000000000 then (eA + eB - 0x3FF - 1, push_bit 1 sig) else (eA + eB - 0x3FF, sig) of
      (e, sig) \<Rightarrow> softfloat_roundPackToF64 (signF64UI a \<noteq> signF64UI b) e sig st)"
  proof -
    have "(expF64UI a = 2047) = False" "(expF64UI a = 0 \<and> fracF64UI a = 0) = False"
      "(expF64UI b = 2047) = False" "(expF64UI b = 0 \<and> fracF64UI b = 0) = False"
      using a b unfolding f64_class_fields by simp_all
    then show ?thesis
      unfolding f64_mul_def Let_def f64_norm_def [symmetric] A(1) B(1) prod.case
      by (simp only: if_False prod.case z_def [symmetric] sig_def [symmetric])
  qed
  also have "\<dots> = f64_round st (signF64UI a \<noteq> signF64UI b) (fp_scaled 52 1023 9 (eA + eB - 0x3FF) (of_int P / 2 ^ 64))"
    by (rule roundPackToF64_norm1 [OF c]) (use jam_range [OF P] A B in \<open>simp_all add: sig\<close>)
  also have "fp_scaled 52 1023 9 (eA + eB - 0x3FF) (of_int P / 2 ^ 64) = f64_abs a * f64_abs b"
  proof -
    have "(2::real) powi (eA + eB - 0x3FF - 1023 - int (52 + 9)) = 2 powi (eA - 1075) * 2 powi (eB - 1075) * 2 powi 43"
      unfolding powi_add [symmetric] by simp
    then show ?thesis unfolding fp_scaled_def A(7) B(7) P_def by simp
  qed
  finally show ?thesis .
qed

theorem f64_mul_refines: "f64_mul a b st = f64_mul_spec a b st"
proof -
  note cf = f64_class_fields
  have abs: "\<bar>f64_val a * f64_val b\<bar> = f64_abs a * f64_abs b"
    by (simp add: abs_mult v64.abs_val f64_abs_def)
  have pz: "f64_abs a * f64_abs b = 0 \<longleftrightarrow> f64_mag a = 0 \<or> f64_mag b = 0"
    unfolding abs [symmetric] by (simp add: v64.val_zero_iff)
  have nn: "\<not> isNaNF64UI c" "\<not> f64_isInf c" if "f64_finite c" for c
    using that by (auto simp: cf(1,3) isNaNF64UI_int)
  consider (nan) "isNaNF64UI a \<or> isNaNF64UI b" | (inf) "\<not> isNaNF64UI a" "\<not> isNaNF64UI b" "f64_isInf a \<or> f64_isInf b"
    | (zero) "f64_finite a" "f64_finite b" "f64_mag a = 0 \<or> f64_mag b = 0"
    | (finite) "f64_finite a" "f64_finite b" "f64_mag a \<noteq> 0" "f64_mag b \<noteq> 0"
    unfolding cf(1,3) isNaNF64UI_int by blast
  then show ?thesis
  proof cases
    case nan
    then have "f64_mul a b st = softfloat_propagateNaNF64UI a b st"
      unfolding isNaNF64UI_int f64_mul_def Let_def
      by (cases "expF64UI a = 2047"; cases "fracF64UI a = 0"; simp)
    then show ?thesis using nan unfolding f64_mul_spec_def Let_def by simp
  next
    case inf
    have i: "f64_isInf c \<Longrightarrow> f64_mag c \<noteq> 0" for c by (auto simp: cf)
    show ?thesis
    proof (cases "f64_isInf a")
      case True
      then have "expF64UI a = 2047" "fracF64UI a = 0" by (simp_all add: cf)
      moreover have "\<not> (expF64UI b = 2047 \<and> fracF64UI b \<noteq> 0)" using inf(2) by (simp add: isNaNF64UI_int)
      ultimately have "f64_mul a b st = (if f64_mag b = 0
          then (defaultNaNF64UI, softfloat_raiseFlags softfloat_flag_invalid st)
          else (packToF64UI (signF64UI a \<noteq> signF64UI b) 0x7FF 0, st))"
        unfolding f64_mul_def Let_def word_of_exp_or64 by (cases "expF64UI b = 2047") simp_all
      then show ?thesis
        unfolding f64_mul_spec_def Let_def v64.val_zero_iff using inf True i by simp
    next
      case False
      then have "f64_isInf b" using inf(3) by simp
      then have "expF64UI b = 2047" "fracF64UI b = 0" by (simp_all add: cf)
      moreover have "expF64UI a \<noteq> 2047" using False inf(1) by (auto simp: cf(1) isNaNF64UI_int)
      ultimately have "f64_mul a b st = (if f64_mag a = 0
          then (defaultNaNF64UI, softfloat_raiseFlags softfloat_flag_invalid st)
          else (packToF64UI (signF64UI a \<noteq> signF64UI b) 0x7FF 0, st))"
        unfolding f64_mul_def Let_def word_of_exp_or64 by simp
      then show ?thesis
        unfolding f64_mul_spec_def Let_def v64.val_zero_iff using inf False i by simp
    qed
  next
    case zero
    then have s: "f64_mul_spec a b st = (packToF64UI (signF64UI a \<noteq> signF64UI b) 0 0, st)"
      unfolding f64_mul_spec_def Let_def abs pz by (simp add: nn)
    have e: "(expF64UI a = 2047) = False" "(expF64UI b = 2047) = False" using zero by (simp_all add: cf)
    show ?thesis
    proof (cases "f64_mag a = 0")
      case True
      then have "(expF64UI a = 0 \<and> fracF64UI a = 0) = True" by (simp add: cf)
      then show ?thesis unfolding s f64_mul_def Let_def by (simp only: e if_False if_True)
    next
      case False
      then have "(expF64UI b = 0 \<and> fracF64UI b = 0) = True" using zero(3) False unfolding cf by blast
      moreover have "(expF64UI a = 0 \<and> fracF64UI a = 0) = False" using False by (simp add: cf)
      moreover obtain ea sa where "f64_norm a = (ea, sa)" by (cases "f64_norm a")
      ultimately show ?thesis
        unfolding s f64_mul_def Let_def f64_norm_def [symmetric] by (simp only: e if_False if_True prod.case)
    qed
  next
    case finite
    then have "f64_mul_spec a b st = f64_round st (signF64UI a \<noteq> signF64UI b) (f64_abs a * f64_abs b)"
      unfolding f64_mul_spec_def Let_def abs pz by (simp add: nn)
    then show ?thesis using f64_mul_finite finite by simp
  qed
qed

end
