(* ===== verification/SF_AddSub.thy ===== *)
theory SF_AddSub
  imports SF_Mul
begin

text \<open>
  Addition and subtraction (\<open>f32_add.c\<close>, \<open>f32_sub.c\<close>, \<open>s_addMagsF32.c\<close>, \<open>s_subMagsF32.c\<close> and
  their 64-bit versions).  The labels of the code are local definitions of the same names.
  The specifications are the real sum and difference, rounded once.
\<close>

section \<open>Definitions\<close>

definition softfloat_addMagsF32 :: "u32 \<Rightarrow> u32 \<Rightarrow> bool \<Rightarrow> sf_state \<Rightarrow> float32 \<times> sf_state" where
  "softfloat_addMagsF32 uiA uiB signZ st =
     (let expA = expF32UI uiA;
          sigA = fracF32UI uiA;
          expB = expF32UI uiB;
          sigB = fracF32UI uiB;
          expDiff = expA - expB;
          sigA = push_bit 6 sigA;
          sigB = push_bit 6 sigB;
          propagateNaN = softfloat_propagateNaNF32UI uiA uiB st;
          finish = (\<lambda>expZ sigA sigB.
            let sigZ = 0x20000000 + sigA + sigB;
                (expZ, sigZ) = (if sigZ < 0x40000000 then (expZ - 1, push_bit 1 sigZ) else (expZ, sigZ))
            in softfloat_roundPackToF32 signZ expZ sigZ st)
      in if expDiff = 0
         then if expA = 0xFF
              then if sigA OR sigB \<noteq> 0 then propagateNaN else (uiA, st)
              else if expA = 0 then (packToF32UI signZ 0 ((uiA + uiB) AND 0x7FFFFFFF), st)
              else softfloat_roundPackToF32 signZ expA (0x40000000 + sigA + sigB) st
         else if expDiff < 0
         then if expB = 0xFF
              then if sigB \<noteq> 0 then propagateNaN else (packToF32UI signZ 0xFF 0, st)
              else let sigA = sigA + (if expA \<noteq> 0 then 0x20000000 else sigA);
                       sigA = softfloat_shiftRightJam32 sigA (nat (- expDiff))
                   in finish expB sigA sigB
         else if expA = 0xFF
              then if sigA \<noteq> 0 then propagateNaN else (uiA, st)
              else let sigB = sigB + (if expB \<noteq> 0 then 0x20000000 else sigB);
                       sigB = softfloat_shiftRightJam32 sigB (nat expDiff)
                   in finish expA sigA sigB)"

definition softfloat_subMagsF32 :: "u32 \<Rightarrow> u32 \<Rightarrow> bool \<Rightarrow> sf_state \<Rightarrow> float32 \<times> sf_state" where
  "softfloat_subMagsF32 uiA uiB signZ st =
     (let expA = expF32UI uiA;
          sigA = fracF32UI uiA;
          expB = expF32UI uiB;
          sigB = fracF32UI uiB;
          expDiff = expA - expB;
          sigA = push_bit 7 sigA;
          sigB = push_bit 7 sigB;
          propagateNaN = softfloat_propagateNaNF32UI uiA uiB st;
          normRoundPack = (\<lambda>signZ expZ sigZ. softfloat_normRoundPackToF32 signZ (expZ - 1) sigZ st);
          aBigger = (\<lambda>expA sigA sigB. normRoundPack signZ expA (sigA - sigB));
          bBigger = (\<lambda>expB sigA sigB. normRoundPack (\<not> signZ) expB (sigB - sigA))
      in if 0 < expDiff
         then if expA = 0xFF
              then if sigA \<noteq> 0 then propagateNaN else (uiA, st)
              else let sigB = sigB + (if expB \<noteq> 0 then 0x40000000 else sigB);
                       sigB = softfloat_shiftRightJam32 sigB (nat expDiff);
                       sigA = sigA OR 0x40000000
                   in aBigger expA sigA sigB
         else if expDiff < 0
         then if expB = 0xFF
              then if sigB \<noteq> 0 then propagateNaN else (packToF32UI (\<not> signZ) 0xFF 0, st)
              else let sigA = sigA + (if expA \<noteq> 0 then 0x40000000 else sigA);
                       sigA = softfloat_shiftRightJam32 sigA (nat (- expDiff));
                       sigB = sigB OR 0x40000000
                   in bBigger expB sigA sigB
         else if expA = 0xFF
         then if sigA OR sigB \<noteq> 0 then propagateNaN
              else (defaultNaNF32UI, softfloat_raiseFlags softfloat_flag_invalid st)
         else let (expA, expB) = (if expA = 0 then (1, 1) else (expA, expB))
              in if sigB < sigA then aBigger expA sigA sigB
                 else if sigA < sigB then bBigger expB sigA sigB
                 else (packToF32UI (softfloat_roundingMode st = softfloat_round_min) 0 0, st))"

definition f32_add :: "float32 \<Rightarrow> float32 \<Rightarrow> sf_state \<Rightarrow> float32 \<times> sf_state" where
  "f32_add uiA uiB st =
     (let signA = signF32UI uiA; signB = signF32UI uiB
      in if signA = signB then softfloat_addMagsF32 uiA uiB signA st
         else softfloat_subMagsF32 uiA uiB signA st)"

definition f32_sub :: "float32 \<Rightarrow> float32 \<Rightarrow> sf_state \<Rightarrow> float32 \<times> sf_state" where
  "f32_sub uiA uiB st =
     (let signA = signF32UI uiA; signB = signF32UI uiB
      in if signA = signB then softfloat_subMagsF32 uiA uiB signA st
         else softfloat_addMagsF32 uiA uiB signA st)"

definition softfloat_addMagsF64 :: "u64 \<Rightarrow> u64 \<Rightarrow> bool \<Rightarrow> sf_state \<Rightarrow> float64 \<times> sf_state" where
  "softfloat_addMagsF64 uiA uiB signZ st =
     (let expA = expF64UI uiA;
          sigA = fracF64UI uiA;
          expB = expF64UI uiB;
          sigB = fracF64UI uiB;
          expDiff = expA - expB;
          sigA = push_bit 9 sigA;
          sigB = push_bit 9 sigB;
          propagateNaN = softfloat_propagateNaNF64UI uiA uiB st;
          finish = (\<lambda>expZ sigA sigB.
            let sigZ = 0x2000000000000000 + sigA + sigB;
                (expZ, sigZ) = (if sigZ < 0x4000000000000000 then (expZ - 1, push_bit 1 sigZ) else (expZ, sigZ))
            in softfloat_roundPackToF64 signZ expZ sigZ st)
      in if expDiff = 0
         then if expA = 0x7FF
              then if sigA OR sigB \<noteq> 0 then propagateNaN else (uiA, st)
              else if expA = 0 then (packToF64UI signZ 0 ((uiA + uiB) AND 0x7FFFFFFFFFFFFFFF), st)
              else softfloat_roundPackToF64 signZ expA (0x4000000000000000 + sigA + sigB) st
         else if expDiff < 0
         then if expB = 0x7FF
              then if sigB \<noteq> 0 then propagateNaN else (packToF64UI signZ 0x7FF 0, st)
              else let sigA = sigA + (if expA \<noteq> 0 then 0x2000000000000000 else sigA);
                       sigA = softfloat_shiftRightJam64 sigA (nat (- expDiff))
                   in finish expB sigA sigB
         else if expA = 0x7FF
              then if sigA \<noteq> 0 then propagateNaN else (uiA, st)
              else let sigB = sigB + (if expB \<noteq> 0 then 0x2000000000000000 else sigB);
                       sigB = softfloat_shiftRightJam64 sigB (nat expDiff)
                   in finish expA sigA sigB)"

definition softfloat_subMagsF64 :: "u64 \<Rightarrow> u64 \<Rightarrow> bool \<Rightarrow> sf_state \<Rightarrow> float64 \<times> sf_state" where
  "softfloat_subMagsF64 uiA uiB signZ st =
     (let expA = expF64UI uiA;
          sigA = fracF64UI uiA;
          expB = expF64UI uiB;
          sigB = fracF64UI uiB;
          expDiff = expA - expB;
          sigA = push_bit 10 sigA;
          sigB = push_bit 10 sigB;
          propagateNaN = softfloat_propagateNaNF64UI uiA uiB st;
          normRoundPack = (\<lambda>signZ expZ sigZ. softfloat_normRoundPackToF64 signZ (expZ - 1) sigZ st);
          aBigger = (\<lambda>expA sigA sigB. normRoundPack signZ expA (sigA - sigB));
          bBigger = (\<lambda>expB sigA sigB. normRoundPack (\<not> signZ) expB (sigB - sigA))
      in if 0 < expDiff
         then if expA = 0x7FF
              then if sigA \<noteq> 0 then propagateNaN else (uiA, st)
              else let sigB = sigB + (if expB \<noteq> 0 then 0x4000000000000000 else sigB);
                       sigB = softfloat_shiftRightJam64 sigB (nat expDiff);
                       sigA = sigA OR 0x4000000000000000
                   in aBigger expA sigA sigB
         else if expDiff < 0
         then if expB = 0x7FF
              then if sigB \<noteq> 0 then propagateNaN else (packToF64UI (\<not> signZ) 0x7FF 0, st)
              else let sigA = sigA + (if expA \<noteq> 0 then 0x4000000000000000 else sigA);
                       sigA = softfloat_shiftRightJam64 sigA (nat (- expDiff));
                       sigB = sigB OR 0x4000000000000000
                   in bBigger expB sigA sigB
         else if expA = 0x7FF
         then if sigA OR sigB \<noteq> 0 then propagateNaN
              else (defaultNaNF64UI, softfloat_raiseFlags softfloat_flag_invalid st)
         else let (expA, expB) = (if expA = 0 then (1, 1) else (expA, expB))
              in if sigB < sigA then aBigger expA sigA sigB
                 else if sigA < sigB then bBigger expB sigA sigB
                 else (packToF64UI (softfloat_roundingMode st = softfloat_round_min) 0 0, st))"

definition f64_add :: "float64 \<Rightarrow> float64 \<Rightarrow> sf_state \<Rightarrow> float64 \<times> sf_state" where
  "f64_add uiA uiB st =
     (let signA = signF64UI uiA; signB = signF64UI uiB
      in if signA = signB then softfloat_addMagsF64 uiA uiB signA st
         else softfloat_subMagsF64 uiA uiB signA st)"

definition f64_sub :: "float64 \<Rightarrow> float64 \<Rightarrow> sf_state \<Rightarrow> float64 \<times> sf_state" where
  "f64_sub uiA uiB st =
     (let signA = signF64UI uiA; signB = signF64UI uiB
      in if signA = signB then softfloat_subMagsF64 uiA uiB signA st
         else softfloat_addMagsF64 uiA uiB signA st)"

section \<open>Specification\<close>

definition f32_add_spec :: "float32 \<Rightarrow> float32 \<Rightarrow> sf_state \<Rightarrow> float32 \<times> sf_state" where
  "f32_add_spec a b st =
     (let sA = signF32UI a; sB = signF32UI b; v = f32_val a + f32_val b
      in if isNaNF32UI a \<or> isNaNF32UI b then softfloat_propagateNaNF32UI a b st
         else if f32_isInf a \<and> f32_isInf b \<and> sA \<noteq> sB
         then (defaultNaNF32UI, softfloat_raiseFlags softfloat_flag_invalid st)
         else if f32_isInf a then (a, st)
         else if f32_isInf b then (b, st)
         else if v = 0
         then (packToF32UI (if sA = sB then sA else softfloat_roundingMode st = softfloat_round_min) 0 0, st)
         else f32_round st (v < 0) \<bar>v\<bar>)"

definition f32_neg :: "float32 \<Rightarrow> float32" where
  "f32_neg a = packToF32UI (\<not> signF32UI a) (expF32UI a) (fracF32UI a)"

definition f32_sub_spec :: "float32 \<Rightarrow> float32 \<Rightarrow> sf_state \<Rightarrow> float32 \<times> sf_state" where
  "f32_sub_spec a b st =
     (let sA = signF32UI a; sB = signF32UI b; v = f32_val a - f32_val b
      in if isNaNF32UI a \<or> isNaNF32UI b then softfloat_propagateNaNF32UI a b st
         else if f32_isInf a \<and> f32_isInf b \<and> sA = sB
         then (defaultNaNF32UI, softfloat_raiseFlags softfloat_flag_invalid st)
         else if f32_isInf a then (a, st)
         else if f32_isInf b then (f32_neg b, st)
         else if v = 0
         then (packToF32UI (if sA \<noteq> sB then sA else softfloat_roundingMode st = softfloat_round_min) 0 0, st)
         else f32_round st (v < 0) \<bar>v\<bar>)"

definition f64_add_spec :: "float64 \<Rightarrow> float64 \<Rightarrow> sf_state \<Rightarrow> float64 \<times> sf_state" where
  "f64_add_spec a b st =
     (let sA = signF64UI a; sB = signF64UI b; v = f64_val a + f64_val b
      in if isNaNF64UI a \<or> isNaNF64UI b then softfloat_propagateNaNF64UI a b st
         else if f64_isInf a \<and> f64_isInf b \<and> sA \<noteq> sB
         then (defaultNaNF64UI, softfloat_raiseFlags softfloat_flag_invalid st)
         else if f64_isInf a then (a, st)
         else if f64_isInf b then (b, st)
         else if v = 0
         then (packToF64UI (if sA = sB then sA else softfloat_roundingMode st = softfloat_round_min) 0 0, st)
         else f64_round st (v < 0) \<bar>v\<bar>)"

definition f64_neg :: "float64 \<Rightarrow> float64" where
  "f64_neg a = packToF64UI (\<not> signF64UI a) (expF64UI a) (fracF64UI a)"

definition f64_sub_spec :: "float64 \<Rightarrow> float64 \<Rightarrow> sf_state \<Rightarrow> float64 \<times> sf_state" where
  "f64_sub_spec a b st =
     (let sA = signF64UI a; sB = signF64UI b; v = f64_val a - f64_val b
      in if isNaNF64UI a \<or> isNaNF64UI b then softfloat_propagateNaNF64UI a b st
         else if f64_isInf a \<and> f64_isInf b \<and> sA = sB
         then (defaultNaNF64UI, softfloat_raiseFlags softfloat_flag_invalid st)
         else if f64_isInf a then (a, st)
         else if f64_isInf b then (f64_neg b, st)
         else if v = 0
         then (packToF64UI (if sA \<noteq> sB then sA else softfloat_roundingMode st = softfloat_round_min) 0 0, st)
         else f64_round st (v < 0) \<bar>v\<bar>)"

section \<open>Alignment\<close>

lemma cell_plus: "cell h n x \<Longrightarrow> cell h (of_int k * 2 ^ h + n) (of_int k * 2 ^ h + x)"
proof -
  assume c: "cell h n x"
  have 1: "of_int k * 2 ^ h + y < of_int j * 2 ^ h \<longleftrightarrow> y < of_int (j - k) * 2 ^ h"
    "of_int k * 2 ^ h + y = of_int j * 2 ^ h \<longleftrightarrow> y = of_int (j - k) * 2 ^ h" for y :: real and j
    by (auto simp: algebra_simps)
  show ?thesis unfolding cell_def 1 using c unfolding cell_def by blast
qed

lemma cell_minus: "cell h n x \<Longrightarrow> cell h (of_int k * 2 ^ h - n) (of_int k * 2 ^ h - x)"
proof -
  assume c: "cell h n x"
  have 1: "of_int k * 2 ^ h - y < of_int j * 2 ^ h \<longleftrightarrow> \<not> y < of_int (k - j) * 2 ^ h \<and> y \<noteq> of_int (k - j) * 2 ^ h"
    "of_int k * 2 ^ h - y = of_int j * 2 ^ h \<longleftrightarrow> y = of_int (k - j) * 2 ^ h" for y :: real and j
    by (auto simp: algebra_simps)
  show ?thesis unfolding cell_def 1 using c unfolding cell_def by blast
qed

subsection \<open>Aligned significands\<close>

text \<open>
  A subnormal operand has exponent field 0 but the scale of exponent 1; the code doubles its
  significand instead.  In both cases the shifted significand \<open>w\<close> has the value of the
  operand at the scale of its exponent field.
\<close>

lemma f32_aligned:
  fixes a :: float32 and k :: nat
  assumes k: "k = 6 \<or> k = 7"
  defines "w \<equiv> push_bit k (fracF32UI a) + (if expF32UI a \<noteq> 0 then push_bit (k + 23) 1 else push_bit k (fracF32UI a))"
  shows "f32_abs a = of_int (uint w) * 2 powi (expF32UI a - 150 - int k)"
    and "uint w < 2 ^ (24 + k)" and "2 ^ k dvd uint w" and "expF32UI a \<noteq> 0 \<Longrightarrow> 2 ^ (23 + k) \<le> uint w"
    and "expF32UI a \<noteq> 0 \<Longrightarrow> uint w = (2 ^ 23 + uint (fracF32UI a)) * 2 ^ k"
proof -
  let ?f = "uint (fracF32UI a)"
  note fb = fracF32UI_bounds [of a]
  have p: "uint (push_bit k (fracF32UI a)) = ?f * 2 ^ k"
    using k fb by (intro uint_push_bit_small) auto
  have h: "uint (push_bit (k + 23) 1 :: u32) = 2 ^ 23 * 2 ^ k" using k by (auto simp: uint_push_bit_mod)
  have w: "uint w = (if expF32UI a \<noteq> 0 then 2 ^ 23 + ?f else 2 * ?f) * 2 ^ k"
    using k fb unfolding w_def by (auto simp: uint_word_ariths p h)
  have q: "(2::real) powi (e - 150) = 2 ^ k * 2 powi (e - 150 - int k)" for e
    by (simp flip: power_int_of_nat powi_add)
  show "f32_abs a = of_int (uint w) * 2 powi (expF32UI a - 150 - int k)"
  proof (cases "expF32UI a = 0")
    case True
    have "(2::real) powi (- 149) = 2 * 2 powi (0 - 150)" by (simp flip: power_int_add_1')
    then have "(2::real) powi (- 149) = 2 * 2 ^ k * 2 powi (0 - 150 - int k)" unfolding q by simp
    with True show ?thesis unfolding f32_abs_fields w by (simp only: if_True simp_thms) simp
  next
    case False
    then show ?thesis unfolding f32_abs_fields w q by (simp only: if_False if_True simp_thms) simp
  qed
  show "2 ^ k dvd uint w" unfolding w by simp
  have "(if expF32UI a \<noteq> 0 then 2 ^ 23 + ?f else 2 * ?f) < 2 ^ 24" using fb by simp
  then show "uint w < 2 ^ (24 + k)" unfolding w power_add by simp
  show "2 ^ (23 + k) \<le> uint w" if "expF32UI a \<noteq> 0" using that fb unfolding w power_add by simp
  show "uint w = (2 ^ 23 + ?f) * 2 ^ k" if "expF32UI a \<noteq> 0" using that unfolding w by simp
qed

lemma f64_aligned:
  fixes a :: float64 and k :: nat
  assumes k: "k = 9 \<or> k = 10"
  defines "w \<equiv> push_bit k (fracF64UI a) + (if expF64UI a \<noteq> 0 then push_bit (k + 52) 1 else push_bit k (fracF64UI a))"
  shows "f64_abs a = of_int (uint w) * 2 powi (expF64UI a - 1075 - int k)"
    and "uint w < 2 ^ (53 + k)" and "2 ^ k dvd uint w" and "expF64UI a \<noteq> 0 \<Longrightarrow> 2 ^ (52 + k) \<le> uint w"
    and "expF64UI a \<noteq> 0 \<Longrightarrow> uint w = (2 ^ 52 + uint (fracF64UI a)) * 2 ^ k"
proof -
  let ?f = "uint (fracF64UI a)"
  note fb = fracF64UI_bounds [of a]
  have p: "uint (push_bit k (fracF64UI a)) = ?f * 2 ^ k"
    using k fb by (intro uint_push_bit_small) auto
  have h: "uint (push_bit (k + 52) 1 :: u64) = 2 ^ 52 * 2 ^ k" using k by (auto simp: uint_push_bit_mod)
  have w: "uint w = (if expF64UI a \<noteq> 0 then 2 ^ 52 + ?f else 2 * ?f) * 2 ^ k"
    using k fb unfolding w_def by (auto simp: uint_word_ariths p h)
  have q: "(2::real) powi (e - 1075) = 2 ^ k * 2 powi (e - 1075 - int k)" for e
    by (simp flip: power_int_of_nat powi_add)
  show "f64_abs a = of_int (uint w) * 2 powi (expF64UI a - 1075 - int k)"
  proof (cases "expF64UI a = 0")
    case True
    have "(2::real) powi (- 1074) = 2 * 2 powi (0 - 1075)" by (simp flip: power_int_add_1')
    then have "(2::real) powi (- 1074) = 2 * 2 ^ k * 2 powi (0 - 1075 - int k)" unfolding q by simp
    with True show ?thesis unfolding f64_abs_fields w by (simp only: if_True simp_thms) simp
  next
    case False
    then show ?thesis unfolding f64_abs_fields w q by (simp only: if_False if_True simp_thms) simp
  qed
  show "2 ^ k dvd uint w" unfolding w by simp
  have "(if expF64UI a \<noteq> 0 then 2 ^ 52 + ?f else 2 * ?f) < 2 ^ 53" using fb by simp
  then show "uint w < 2 ^ (53 + k)" unfolding w power_add by simp
  show "2 ^ (52 + k) \<le> uint w" if "expF64UI a \<noteq> 0" using that fb unfolding w power_add by simp
  show "uint w = (2 ^ 52 + ?f) * 2 ^ k" if "expF64UI a \<noteq> 0" using that unfolding w by simp
qed

subsection \<open>Sums of magnitudes\<close>

lemma f32_round_exact:
  "0 < m \<Longrightarrow> m < 0x7F800000 \<Longrightarrow> f32_round st s (fp_mag 23 127 m) = (word_of_int (of_bool s * 2 ^ 31 + m), st)"
  unfolding f32_round_def fp_round_mag_def fp_round_flags_def
  using b32.bits_exact [of m] b32.inexact_exact [of m] by (simp add: Let_def)

lemma push_hidden32: "push_bit (6 + 23) 1 = (0x20000000 :: u32)" "push_bit (7 + 23) 1 = (0x40000000 :: u32)"
  by (simp_all add: push_bit_eq_mult)

lemma uint_plus_mod32: "uint (x + y) = (uint x + uint y) mod 2 ^ 32" for x y :: u32
  by (simp add: uint_word_ariths)

lemma f32_abs_scaled:
  assumes "expF32UI a \<noteq> 0"
  shows "f32_abs a = of_int ((2 ^ 23 + uint (fracF32UI a)) * 2 ^ 6) * 2 powi (expF32UI a - 156)"
    and "f32_abs a = of_int ((2 ^ 23 + uint (fracF32UI a)) * 2 ^ 7) * 2 powi (expF32UI a - 157)"
  using f32_aligned(1) [of 6 a, OF disjI1 [OF refl], unfolded f32_aligned(5) [of 6 a, OF disjI1 [OF refl] assms]]
    f32_aligned(1) [of 7 a, OF disjI2 [OF refl], unfolded f32_aligned(5) [of 7 a, OF disjI2 [OF refl] assms]]
  by simp_all

text \<open>The smaller operand, shifted right with a sticky bit, joins the larger one.\<close>

lemma f32_aligned_add:
  assumes b: "expF32UI b \<noteq> 0" "f32_finite b" and le: "expF32UI a < expF32UI b"
  defines "w \<equiv> softfloat_shiftRightJam32
     (push_bit 6 (fracF32UI a) + (if expF32UI a \<noteq> 0 then 0x20000000 else push_bit 6 (fracF32UI a)))
     (nat (expF32UI b - expF32UI a))"
  defines "sigZ \<equiv> 0x20000000 + w + push_bit 6 (fracF32UI b)"
  shows "(case if sigZ < 0x40000000 then (expF32UI b - 1, push_bit 1 sigZ) else (expF32UI b, sigZ) of
      (e, sig) \<Rightarrow> softfloat_roundPackToF32 s e sig st) = f32_round st s (f32_abs a + f32_abs b)"
proof -
  define d where "d = nat (expF32UI b - expF32UI a)"
  have d: "1 \<le> d" "expF32UI a = expF32UI b - int d" using le by (simp_all add: d_def)
  define n where "n = uint (push_bit 6 (fracF32UI a) +
      (if expF32UI a \<noteq> 0 then 0x20000000 else push_bit 6 (fracF32UI a)))"
  note al = f32_aligned [of 6 a, unfolded push_hidden32, folded n_def]
  define k where "k = 2 ^ 23 + uint (fracF32UI b)"
  have k: "2 ^ 23 \<le> k" "k < 2 ^ 24" using fracF32UI_bounds [of b] by (simp_all add: k_def)
  have wj: "uint w = jam n d" unfolding w_def n_def d_def using le by (intro shiftRightJam32_correct) simp
  have "n div 2 ^ d \<le> n div 2 ^ 1"
    using d by (intro zdiv_mono2 power_increasing) (simp_all add: n_def)
  also have "\<dots> < 2 ^ 29" using al(2) by simp
  finally have wb: "0 \<le> jam n d" "jam n d \<le> 2 ^ 29"
    using jam_bounds [of n d] wj uint_ge_0 [of w] by simp_all
  have sk: "uint (0x20000000 + push_bit 6 (fracF32UI b)) = k * 2 ^ 6"
    using f32_aligned(5) [of 6 b] b unfolding k_def push_hidden32 by (simp add: add.commute)
  have "sigZ = 0x20000000 + push_bit 6 (fracF32UI b) + w" unfolding sigZ_def by simp
  then have sig: "uint sigZ = k * 2 ^ 6 + jam n d"
    using k wb uint_plus_mod32 [of "0x20000000 + push_bit 6 (fracF32UI b)" w] by (simp add: sk wj del: plus_word_def)
  have "cell 5 (of_int (jam n d)) (of_int n / 2 ^ d)" by (rule cell_jam_int) simp
  from cell_plus [OF this, of "k * 2"]
  have c: "cell 5 (of_int (uint sigZ)) (of_int k * 2 ^ 6 + of_int n / 2 ^ d)"
    unfolding sig by (simp add: mult.commute)
  have "(case if sigZ < 0x40000000 then (expF32UI b - 1, push_bit 1 sigZ) else (expF32UI b, sigZ) of
      (e, sig) \<Rightarrow> softfloat_roundPackToF32 s e sig st) =
    f32_round st s (fp_scaled 23 127 6 (expF32UI b) (of_int k * 2 ^ 6 + of_int n / 2 ^ d))"
    by (rule roundPackToF32_norm1 [OF c]) (use k wb expF32UI_bounds [of b] in \<open>simp_all add: sig\<close>)
  also have "fp_scaled 23 127 6 (expF32UI b) (of_int k * 2 ^ 6 + of_int n / 2 ^ d) = f32_abs a + f32_abs b"
  proof -
    have "f32_abs b = of_int k * 2 ^ 6 * 2 powi (expF32UI b - 156)"
      using f32_abs_scaled(1) [OF b(1)] unfolding k_def by simp
    moreover have "f32_abs a = of_int n / 2 ^ d * 2 powi (expF32UI b - 156)"
      using al(1) unfolding d(2) by (simp add: powi_diff)
    ultimately show ?thesis unfolding fp_scaled_def by (simp add: distrib_right)
  qed
  finally show ?thesis .
qed

theorem addMagsF32_finite:
  assumes "f32_finite a" "f32_finite b"
  shows "softfloat_addMagsF32 a b s st =
     (if f32_abs a + f32_abs b = 0 then (packToF32UI s 0 0, st) else f32_round st s (f32_abs a + f32_abs b))"
proof -
  have fin: "(expF32UI a = 255) = False" "(expF32UI b = 255) = False"
    using assms by (simp_all add: f32_class_fields)
  have pos: "expF32UI c \<noteq> 0 \<Longrightarrow> 0 < f32_abs c" "0 \<le> f32_abs c" for c
    unfolding f32_abs_def using b32.mag_pos [of "f32_mag c"] b32.mag_nonneg [of "f32_mag c"]
      f32_mag_bounds [of c] f32_class_fields(4) [of c] by (auto simp: order_less_le)
  note bnd = expF32UI_bounds [of a] expF32UI_bounds [of b]
  consider (lt) "expF32UI a < expF32UI b" | (gt) "expF32UI b < expF32UI a"
    | (norm) "expF32UI a = expF32UI b" "expF32UI a \<noteq> 0" | (sub) "expF32UI a = 0" "expF32UI b = 0" by linarith
  then show ?thesis
  proof cases
    case lt
    then have nz: "f32_abs a + f32_abs b \<noteq> 0" "expF32UI b \<noteq> 0"
      using pos(1) [of b] pos(2) [of a] bnd by auto
    have "softfloat_addMagsF32 a b s st = f32_round st s (f32_abs a + f32_abs b)"
      unfolding f32_aligned_add [OF nz(2) assms(2) lt, symmetric] softfloat_addMagsF32_def Let_def
      using lt fin by simp
    then show ?thesis using nz by simp
  next
    case gt
    then have nz: "f32_abs a + f32_abs b \<noteq> 0" "expF32UI a \<noteq> 0"
      using pos(1) [of a] pos(2) [of b] bnd by auto
    have "softfloat_addMagsF32 a b s st = f32_round st s (f32_abs b + f32_abs a)"
      unfolding f32_aligned_add [OF nz(2) assms(1) gt, symmetric] softfloat_addMagsF32_def Let_def
      using gt fin by (simp add: add_ac)
    then show ?thesis using nz by (simp add: add.commute)
  next
    case norm
    define k where "k = 2 ^ 24 + uint (fracF32UI a) + uint (fracF32UI b)"
    note fb = fracF32UI_bounds [of a] fracF32UI_bounds [of b]
    have sig: "uint (0x40000000 + push_bit 6 (fracF32UI a) + push_bit 6 (fracF32UI b)) = k * 2 ^ 6"
    proof -
      have "uint (push_bit 6 (fracF32UI c)) = uint (fracF32UI c) * 2 ^ 6" for c
        using fracF32UI_bounds [of c] by (intro uint_push_bit_small) simp
      then show ?thesis using fb by (simp add: uint_word_ariths k_def)
    qed
    have "softfloat_addMagsF32 a b s st =
        softfloat_roundPackToF32 s (expF32UI a) (0x40000000 + push_bit 6 (fracF32UI a) + push_bit 6 (fracF32UI b)) st"
      unfolding softfloat_addMagsF32_def Let_def using norm fin by simp
    also have "\<dots> = f32_round st s (fp_scaled 23 127 6 (expF32UI a) (of_int (k * 2 ^ 6)))"
      using fb bnd by (intro roundPackToF32_refines) (simp_all add: sig k_def)
    also have "fp_scaled 23 127 6 (expF32UI a) (of_int (k * 2 ^ 6)) = f32_abs a + f32_abs b"
      using f32_abs_scaled(1) [of a] f32_abs_scaled(1) [of b] norm
      unfolding fp_scaled_def k_def by (simp add: algebra_simps)
    finally show ?thesis using pos(1) [of a] pos(2) [of b] norm by simp
  next
    case sub
    note fb = fracF32UI_bounds [of a] fracF32UI_bounds [of b]
    define m where "m = uint (fracF32UI a) + uint (fracF32UI b)"
    have m: "0 \<le> m" "m < 2 ^ 24" using fb by (simp_all add: m_def)
    have abs: "f32_abs a + f32_abs b = fp_mag 23 127 m"
      using b32.mag_combine [of 0 m] m sub unfolding f32_abs_fields m_def by (simp add: algebra_simps)
    have "uint ((a + b) AND 0x7FFFFFFF) = (uint a + uint b) mod 2 ^ 32 mod 2 ^ 31"
      unfolding mask_numerals by (simp only: uint_and_mask uint_word_ariths len_of_numeral_defs) simp
    also have "\<dots> = (uint a + uint b) mod 2 ^ 31" by (rule mod_mod_cancel) simp
    also have "\<dots> = (f32_mag a + f32_mag b) mod 2 ^ 31" unfolding f32_mag_def by (simp add: mod_simps)
    also have "\<dots> = m" using m sub unfolding f32_mag_fields by (simp add: m_def)
    finally have "softfloat_addMagsF32 a b s st = (word_of_int (of_bool s * 2 ^ 31 + m), st)"
      unfolding softfloat_addMagsF32_def Let_def using sub by (simp add: packToF32UI_word)
    then show ?thesis
      using f32_round_exact [of m st s] m b32.mag_eq_iff [of m 0] unfolding abs by (auto simp: packToF32UI_word)
  qed
qed

lemma f64_round_exact:
  "0 < m \<Longrightarrow> m < 0x7FF0000000000000 \<Longrightarrow> f64_round st s (fp_mag 52 1023 m) = (word_of_int (of_bool s * 2 ^ 63 + m), st)"
  unfolding f64_round_def fp_round_mag_def fp_round_flags_def
  using b64.bits_exact [of m] b64.inexact_exact [of m] by (simp add: Let_def)

lemma push_hidden64: "push_bit (9 + 52) 1 = (0x2000000000000000 :: u64)" "push_bit (10 + 52) 1 = (0x4000000000000000 :: u64)"
  by (simp_all add: push_bit_eq_mult)

lemma uint_plus_mod64: "uint (x + y) = (uint x + uint y) mod 2 ^ 64" for x y :: u64
  by (simp add: uint_word_ariths)

lemma f64_abs_scaled:
  assumes "expF64UI a \<noteq> 0"
  shows "f64_abs a = of_int ((2 ^ 52 + uint (fracF64UI a)) * 2 ^ 9) * 2 powi (expF64UI a - 1084)"
    and "f64_abs a = of_int ((2 ^ 52 + uint (fracF64UI a)) * 2 ^ 10) * 2 powi (expF64UI a - 1085)"
  using f64_aligned(1) [of 9 a, OF disjI1 [OF refl], unfolded f64_aligned(5) [of 9 a, OF disjI1 [OF refl] assms]]
    f64_aligned(1) [of 10 a, OF disjI2 [OF refl], unfolded f64_aligned(5) [of 10 a, OF disjI2 [OF refl] assms]]
  by simp_all

lemma f64_aligned_add:
  assumes b: "expF64UI b \<noteq> 0" "f64_finite b" and le: "expF64UI a < expF64UI b"
  defines "w \<equiv> softfloat_shiftRightJam64
     (push_bit 9 (fracF64UI a) + (if expF64UI a \<noteq> 0 then 0x2000000000000000 else push_bit 9 (fracF64UI a)))
     (nat (expF64UI b - expF64UI a))"
  defines "sigZ \<equiv> 0x2000000000000000 + w + push_bit 9 (fracF64UI b)"
  shows "(case if sigZ < 0x4000000000000000 then (expF64UI b - 1, push_bit 1 sigZ) else (expF64UI b, sigZ) of
      (e, sig) \<Rightarrow> softfloat_roundPackToF64 s e sig st) = f64_round st s (f64_abs a + f64_abs b)"
proof -
  define d where "d = nat (expF64UI b - expF64UI a)"
  have d: "1 \<le> d" "expF64UI a = expF64UI b - int d" using le by (simp_all add: d_def)
  define n where "n = uint (push_bit 9 (fracF64UI a) +
      (if expF64UI a \<noteq> 0 then 0x2000000000000000 else push_bit 9 (fracF64UI a)))"
  note al = f64_aligned [of 9 a, unfolded push_hidden64, folded n_def]
  define k where "k = 2 ^ 52 + uint (fracF64UI b)"
  have k: "2 ^ 52 \<le> k" "k < 2 ^ 53" using fracF64UI_bounds [of b] by (simp_all add: k_def)
  have wj: "uint w = jam n d" unfolding w_def n_def d_def using le by (intro shiftRightJam64_correct) simp
  have "n div 2 ^ d \<le> n div 2 ^ 1"
    using d by (intro zdiv_mono2 power_increasing) (simp_all add: n_def)
  also have "\<dots> < 2 ^ 61" using al(2) by simp
  finally have wb: "0 \<le> jam n d" "jam n d \<le> 2 ^ 61"
    using jam_bounds [of n d] wj uint_ge_0 [of w] by simp_all
  have sk: "uint (0x2000000000000000 + push_bit 9 (fracF64UI b)) = k * 2 ^ 9"
    using f64_aligned(5) [of 9 b] b unfolding k_def push_hidden64 by (simp add: add.commute)
  have "sigZ = 0x2000000000000000 + push_bit 9 (fracF64UI b) + w" unfolding sigZ_def by simp
  then have sig: "uint sigZ = k * 2 ^ 9 + jam n d"
    using k wb uint_plus_mod64 [of "0x2000000000000000 + push_bit 9 (fracF64UI b)" w] by (simp add: sk wj del: plus_word_def)
  have "cell 8 (of_int (jam n d)) (of_int n / 2 ^ d)" by (rule cell_jam_int) simp
  from cell_plus [OF this, of "k * 2"]
  have c: "cell 8 (of_int (uint sigZ)) (of_int k * 2 ^ 9 + of_int n / 2 ^ d)"
    unfolding sig by (simp add: mult.commute)
  have "(case if sigZ < 0x4000000000000000 then (expF64UI b - 1, push_bit 1 sigZ) else (expF64UI b, sigZ) of
      (e, sig) \<Rightarrow> softfloat_roundPackToF64 s e sig st) =
    f64_round st s (fp_scaled 52 1023 9 (expF64UI b) (of_int k * 2 ^ 9 + of_int n / 2 ^ d))"
    by (rule roundPackToF64_norm1 [OF c]) (use k wb expF64UI_bounds [of b] in \<open>simp_all add: sig\<close>)
  also have "fp_scaled 52 1023 9 (expF64UI b) (of_int k * 2 ^ 9 + of_int n / 2 ^ d) = f64_abs a + f64_abs b"
  proof -
    have "f64_abs b = of_int k * 2 ^ 9 * 2 powi (expF64UI b - 1084)"
      using f64_abs_scaled(1) [OF b(1)] unfolding k_def by simp
    moreover have "f64_abs a = of_int n / 2 ^ d * 2 powi (expF64UI b - 1084)"
      using al(1) unfolding d(2) by (simp add: powi_diff)
    ultimately show ?thesis unfolding fp_scaled_def by (simp add: distrib_right)
  qed
  finally show ?thesis .
qed

theorem addMagsF64_finite:
  assumes "f64_finite a" "f64_finite b"
  shows "softfloat_addMagsF64 a b s st =
     (if f64_abs a + f64_abs b = 0 then (packToF64UI s 0 0, st) else f64_round st s (f64_abs a + f64_abs b))"
proof -
  have fin: "(expF64UI a = 2047) = False" "(expF64UI b = 2047) = False"
    using assms by (simp_all add: f64_class_fields)
  have pos: "expF64UI c \<noteq> 0 \<Longrightarrow> 0 < f64_abs c" "0 \<le> f64_abs c" for c
    unfolding f64_abs_def using b64.mag_pos [of "f64_mag c"] b64.mag_nonneg [of "f64_mag c"]
      f64_mag_bounds [of c] f64_class_fields(4) [of c] by (auto simp: order_less_le)
  note bnd = expF64UI_bounds [of a] expF64UI_bounds [of b]
  consider (lt) "expF64UI a < expF64UI b" | (gt) "expF64UI b < expF64UI a"
    | (norm) "expF64UI a = expF64UI b" "expF64UI a \<noteq> 0" | (sub) "expF64UI a = 0" "expF64UI b = 0" by linarith
  then show ?thesis
  proof cases
    case lt
    then have nz: "f64_abs a + f64_abs b \<noteq> 0" "expF64UI b \<noteq> 0"
      using pos(1) [of b] pos(2) [of a] bnd by auto
    have "softfloat_addMagsF64 a b s st = f64_round st s (f64_abs a + f64_abs b)"
      unfolding f64_aligned_add [OF nz(2) assms(2) lt, symmetric] softfloat_addMagsF64_def Let_def
      using lt fin by simp
    then show ?thesis using nz by simp
  next
    case gt
    then have nz: "f64_abs a + f64_abs b \<noteq> 0" "expF64UI a \<noteq> 0"
      using pos(1) [of a] pos(2) [of b] bnd by auto
    have "softfloat_addMagsF64 a b s st = f64_round st s (f64_abs b + f64_abs a)"
      unfolding f64_aligned_add [OF nz(2) assms(1) gt, symmetric] softfloat_addMagsF64_def Let_def
      using gt fin by (simp add: add_ac)
    then show ?thesis using nz by (simp add: add.commute)
  next
    case norm
    define k where "k = 2 ^ 53 + uint (fracF64UI a) + uint (fracF64UI b)"
    note fb = fracF64UI_bounds [of a] fracF64UI_bounds [of b]
    have sig: "uint (0x4000000000000000 + push_bit 9 (fracF64UI a) + push_bit 9 (fracF64UI b)) = k * 2 ^ 9"
    proof -
      have "uint (push_bit 9 (fracF64UI c)) = uint (fracF64UI c) * 2 ^ 9" for c
        using fracF64UI_bounds [of c] by (intro uint_push_bit_small) simp
      then show ?thesis using fb by (simp add: uint_word_ariths k_def)
    qed
    have "softfloat_addMagsF64 a b s st =
        softfloat_roundPackToF64 s (expF64UI a) (0x4000000000000000 + push_bit 9 (fracF64UI a) + push_bit 9 (fracF64UI b)) st"
      unfolding softfloat_addMagsF64_def Let_def using norm fin by simp
    also have "\<dots> = f64_round st s (fp_scaled 52 1023 9 (expF64UI a) (of_int (k * 2 ^ 9)))"
      using fb bnd by (intro roundPackToF64_refines) (simp_all add: sig k_def)
    also have "fp_scaled 52 1023 9 (expF64UI a) (of_int (k * 2 ^ 9)) = f64_abs a + f64_abs b"
      using f64_abs_scaled(1) [of a] f64_abs_scaled(1) [of b] norm
      unfolding fp_scaled_def k_def by (simp add: algebra_simps)
    finally show ?thesis using pos(1) [of a] pos(2) [of b] norm by simp
  next
    case sub
    note fb = fracF64UI_bounds [of a] fracF64UI_bounds [of b]
    define m where "m = uint (fracF64UI a) + uint (fracF64UI b)"
    have m: "0 \<le> m" "m < 2 ^ 53" using fb by (simp_all add: m_def)
    have abs: "f64_abs a + f64_abs b = fp_mag 52 1023 m"
      using b64.mag_combine [of 0 m] m sub unfolding f64_abs_fields m_def by (simp add: algebra_simps)
    have "uint ((a + b) AND 0x7FFFFFFFFFFFFFFF) = (uint a + uint b) mod 2 ^ 64 mod 2 ^ 63"
      unfolding mask_numerals by (simp only: uint_and_mask uint_word_ariths len_of_numeral_defs) simp
    also have "\<dots> = (uint a + uint b) mod 2 ^ 63" by (rule mod_mod_cancel) simp
    also have "\<dots> = (f64_mag a + f64_mag b) mod 2 ^ 63" unfolding f64_mag_def by (simp add: mod_simps)
    also have "\<dots> = m" using m sub unfolding f64_mag_fields by (simp add: m_def)
    finally have "softfloat_addMagsF64 a b s st = (word_of_int (of_bool s * 2 ^ 63 + m), st)"
      unfolding softfloat_addMagsF64_def Let_def using sub by (simp add: packToF64UI_word)
    then show ?thesis
      using f64_round_exact [of m st s] m b64.mag_eq_iff [of m 0] unfolding abs by (auto simp: packToF64UI_word)
  qed
qed

subsection \<open>Differences of magnitudes\<close>

lemma uint_minus_small32: "uint y \<le> uint x \<Longrightarrow> uint (x - y) = uint x - uint y" for x y :: u32
  by (simp add: uint_sub_if')

text \<open>
  One place of alignment loses nothing; with two or more the difference keeps its leading
  bit at 29 or 30, so the sticky bit stays below the guard bits of the result.
\<close>

lemma f32_aligned_sub:
  assumes b: "expF32UI b \<noteq> 0" "f32_finite b" and le: "expF32UI a < expF32UI b"
  defines "w \<equiv> softfloat_shiftRightJam32
     (push_bit 7 (fracF32UI a) + (if expF32UI a \<noteq> 0 then 0x40000000 else push_bit 7 (fracF32UI a)))
     (nat (expF32UI b - expF32UI a))"
  shows "softfloat_normRoundPackToF32 s (expF32UI b - 1) ((push_bit 7 (fracF32UI b) OR 0x40000000) - w) st =
      f32_round st s (f32_abs b - f32_abs a)" (is "softfloat_normRoundPackToF32 s _ ?sigZ st = _")
    and "f32_abs a < f32_abs b"
proof -
  define d where "d = nat (expF32UI b - expF32UI a)"
  have d: "1 \<le> d" "expF32UI a = expF32UI b - int d" using le by (simp_all add: d_def)
  define n where "n = uint (push_bit 7 (fracF32UI a) +
      (if expF32UI a \<noteq> 0 then 0x40000000 else push_bit 7 (fracF32UI a)))"
  note al = f32_aligned [of 7 a, unfolded push_hidden32, folded n_def, simplified]
  define k where "k = 2 ^ 23 + uint (fracF32UI b)"
  have k: "2 ^ 23 \<le> k" "k < 2 ^ 24" using fracF32UI_bounds [of b] by (simp_all add: k_def)
  have wj: "uint w = jam n d" unfolding w_def n_def d_def using le by (intro shiftRightJam32_correct) simp
  have sb: "uint (push_bit 7 (fracF32UI b) OR 0x40000000) = k * 2 ^ 7"
  proof -
    have "uint (push_bit 7 (fracF32UI b)) = uint (fracF32UI b) * 2 ^ 7"
      using fracF32UI_bounds [of b] by (intro uint_push_bit_small) simp
    then have "uint (push_bit 7 (fracF32UI b) OR 0x40000000) = (uint (fracF32UI b) * 2 ^ 7) OR 2 ^ 30"
      by (simp add: unsigned_or_eq)
    also have "\<dots> = uint (fracF32UI b) * 2 ^ 7 + 2 ^ 30"
      using fracF32UI_bounds [of b] by (intro int_or_high) simp_all
    finally show ?thesis by (simp add: k_def)
  qed
  obtain q where q: "n = 2 ^ 7 * q" using al(3) by (auto elim: dvdE)
  have "0 \<le> n" unfolding n_def by (rule uint_ge_0)
  then have q24: "0 \<le> q" "q < 2 ^ 24" using al(2) unfolding q by simp_all
  define x where "x = of_int k * 2 ^ 7 - real_of_int n / 2 ^ d"
  have main: "uint ?sigZ = k * 2 ^ 7 - jam n d \<and> jam n d < k * 2 ^ 7 \<and>
      (cell 5 (of_int (uint ?sigZ)) x \<and> 2 ^ (24 + 5) \<le> uint ?sigZ \<or> x = of_int (uint ?sigZ))"
  proof (cases "d = 1")
    case True
    have "jam n d = q * 2 ^ 6" unfolding True by (subst jam_exact) (simp_all add: q)
    moreover have "uint ?sigZ = k * 2 ^ 7 - jam n d"
      using k q24 calculation by (subst uint_minus_small32) (simp_all add: sb wj)
    ultimately show ?thesis
      using k q24 unfolding x_def True by (simp add: q)
  next
    case False
    then have "2 \<le> d" using d by simp
    then have "n div 2 ^ d \<le> n div 2 ^ 2"
      using q24 by (intro zdiv_mono2 power_increasing) (simp_all add: q)
    also have "\<dots> = q * 2 ^ 5" by (simp add: q)
    finally have j: "jam n d \<le> 2 ^ 29" using jam_bounds(2) [of n d] q24 by simp
    then have s: "uint ?sigZ = k * 2 ^ 7 - jam n d"
      using k by (subst uint_minus_small32) (simp_all add: sb wj)
    have "cell 5 (of_int (jam n d)) (of_int n / 2 ^ d)" by (rule cell_jam_int) simp
    from cell_minus [OF this, of "k * 4"]
    have "cell 5 (of_int (uint ?sigZ)) x" unfolding s x_def by (simp add: mult.commute)
    then show ?thesis using s k j by simp
  qed
  have nz: "?sigZ \<noteq> 0" using main by (simp add: word_zero_uint)
  have lt: "uint ?sigZ < 2 ^ 31" using main k wj uint_ge_0 [of w] by simp
  have "softfloat_normRoundPackToF32 s (expF32UI b - 1) ?sigZ st =
      f32_round st s (fp_scaled 23 127 6 (expF32UI b - 1) x)"
    using main expF32UI_bounds [of b] by (intro normRoundPackToF32_refines [OF _ nz lt, of 5]) auto
  also have eq: "fp_scaled 23 127 6 (expF32UI b - 1) x = f32_abs b - f32_abs a"
  proof -
    have "f32_abs b = of_int k * 2 ^ 7 * 2 powi (expF32UI b - 157)"
      using f32_abs_scaled(2) [OF b(1)] unfolding k_def by simp
    moreover have "f32_abs a = of_int n / 2 ^ d * 2 powi (expF32UI b - 157)"
      using al(1) unfolding d(2) by (simp add: powi_diff)
    ultimately show ?thesis unfolding fp_scaled_def x_def by (simp add: left_diff_distrib)
  qed
  finally show "softfloat_normRoundPackToF32 s (expF32UI b - 1) ?sigZ st = f32_round st s (f32_abs b - f32_abs a)" .
  have "0 < x"
  proof (rule ccontr)
    assume "\<not> 0 < x"
    moreover have "0 < real_of_int (uint ?sigZ)" using nz by (simp add: word_zero_uint order_less_le)
    ultimately have "cell 5 (of_int (uint ?sigZ)) x" using main by auto
    from cell_le [OF this, of 0] show False using \<open>\<not> 0 < x\<close> \<open>0 < real_of_int (uint ?sigZ)\<close> by simp
  qed
  then have "0 < fp_scaled 23 127 6 (expF32UI b - 1) x" by (simp add: fp_scaled_def)
  then show "f32_abs a < f32_abs b" unfolding eq by simp
qed

theorem subMagsF32_finite:
  assumes "f32_finite a" "f32_finite b"
  shows "softfloat_subMagsF32 a b s st =
     (if f32_abs a = f32_abs b then (packToF32UI (softfloat_roundingMode st = softfloat_round_min) 0 0, st)
      else if f32_abs b < f32_abs a then f32_round st s (f32_abs a - f32_abs b)
      else f32_round st (\<not> s) (f32_abs b - f32_abs a))"
proof -
  have fin: "(expF32UI a = 255) = False" "(expF32UI b = 255) = False"
    using assms by (simp_all add: f32_class_fields)
  note bnd = expF32UI_bounds [of a] expF32UI_bounds [of b]
  consider (lt) "expF32UI a < expF32UI b" | (gt) "expF32UI b < expF32UI a"
    | (eq) "expF32UI a = expF32UI b" by linarith
  then show ?thesis
  proof cases
    case lt
    then have nz: "expF32UI b \<noteq> 0" using bnd by auto
    have "softfloat_subMagsF32 a b s st = f32_round st (\<not> s) (f32_abs b - f32_abs a)"
      unfolding f32_aligned_sub(1) [OF nz assms(2) lt, symmetric] softfloat_subMagsF32_def Let_def
      using lt fin by simp
    then show ?thesis using f32_aligned_sub(2) [OF nz assms(2) lt] by simp
  next
    case gt
    then have nz: "expF32UI a \<noteq> 0" using bnd by auto
    have "softfloat_subMagsF32 a b s st = f32_round st s (f32_abs a - f32_abs b)"
      unfolding f32_aligned_sub(1) [OF nz assms(1) gt, symmetric] softfloat_subMagsF32_def Let_def
      using gt fin by simp
    then show ?thesis using f32_aligned_sub(2) [OF nz assms(1) gt] by simp
  next
    case eq
    define e where "e = (if expF32UI a = 0 then 1 else expF32UI a)"
    have e: "1 \<le> e" "e < 256" using bnd by (auto simp: e_def)
    have p: "uint (push_bit 7 (fracF32UI c)) = uint (fracF32UI c) * 2 ^ 7" for c
      using fracF32UI_bounds [of c] by (intro uint_push_bit_small) simp
    have less: "push_bit 7 (fracF32UI c) < push_bit 7 (fracF32UI c') \<longleftrightarrow> uint (fracF32UI c) < uint (fracF32UI c')" for c c'
      unfolding word_less_def p by simp
    have diff: "f32_abs a - f32_abs b = of_int ((uint (fracF32UI a) - uint (fracF32UI b)) * 2 ^ 7) * 2 powi (e - 157)"
    proof -
      have "f32_abs a - f32_abs b = of_int (uint (fracF32UI a) - uint (fracF32UI b)) * 2 powi (e - 150)"
        unfolding f32_abs_fields using eq by (simp add: e_def left_diff_distrib distrib_right)
      also have "(2::real) powi (e - 150) = 2 powi (e - 157 + int 7)" by simp
      also have "\<dots> = 2 powi (e - 157) * 2 ^ 7" unfolding powi_add power_int_of_nat ..
      finally show ?thesis by simp
    qed
    have round: "softfloat_normRoundPackToF32 t (e - 1) (push_bit 7 (fracF32UI c) - push_bit 7 (fracF32UI c')) st =
        f32_round st t (of_int ((uint (fracF32UI c) - uint (fracF32UI c')) * 2 ^ 7) * 2 powi (e - 157))"
      if "uint (fracF32UI c') < uint (fracF32UI c)" for t c c'
    proof -
      have s: "uint (push_bit 7 (fracF32UI c) - push_bit 7 (fracF32UI c')) = (uint (fracF32UI c) - uint (fracF32UI c')) * 2 ^ 7"
        using that by (subst uint_minus_small32) (simp_all add: p algebra_simps)
      moreover have "(uint (fracF32UI c) - uint (fracF32UI c')) * 2 ^ 7 < 2 ^ 23 * 2 ^ 7"
        using fracF32UI_bounds(2) [of c] uint_ge_0 [of "fracF32UI c'"] by (intro mult_strict_right_mono) (linarith, simp)
      ultimately have "softfloat_normRoundPackToF32 t (e - 1) (push_bit 7 (fracF32UI c) - push_bit 7 (fracF32UI c')) st =
        f32_round st t (fp_scaled 23 127 6 (e - 1) (of_int ((uint (fracF32UI c) - uint (fracF32UI c')) * 2 ^ 7)))"
        using that e by (intro normRoundPackToF32_refines) (simp_all add: word_zero_uint)
      then show ?thesis by (simp add: fp_scaled_def)
    qed
    have code: "softfloat_subMagsF32 a b s st =
      (if uint (fracF32UI b) < uint (fracF32UI a)
       then softfloat_normRoundPackToF32 s (e - 1) (push_bit 7 (fracF32UI a) - push_bit 7 (fracF32UI b)) st
       else if uint (fracF32UI a) < uint (fracF32UI b)
       then softfloat_normRoundPackToF32 (\<not> s) (e - 1) (push_bit 7 (fracF32UI b) - push_bit 7 (fracF32UI a)) st
       else (packToF32UI (softfloat_roundingMode st = softfloat_round_min) 0 0, st))"
      unfolding softfloat_subMagsF32_def Let_def less using eq fin by (simp add: e_def less)
    have abs: "f32_abs b < f32_abs a \<longleftrightarrow> uint (fracF32UI b) < uint (fracF32UI a)"
      "f32_abs a = f32_abs b \<longleftrightarrow> uint (fracF32UI a) = uint (fracF32UI b)"
      unfolding f32_abs_fields using eq by auto
    have diff': "f32_abs b - f32_abs a = of_int ((uint (fracF32UI b) - uint (fracF32UI a)) * 2 ^ 7) * 2 powi (e - 157)"
      using diff by (simp add: algebra_simps)
    show ?thesis
      unfolding code abs diff diff' using round [of b a s] round [of a b "\<not> s"] by simp
  qed
qed

lemma uint_minus_small64: "uint y \<le> uint x \<Longrightarrow> uint (x - y) = uint x - uint y" for x y :: u64
  by (simp add: uint_sub_if')

lemma f64_aligned_sub:
  assumes b: "expF64UI b \<noteq> 0" "f64_finite b" and le: "expF64UI a < expF64UI b"
  defines "w \<equiv> softfloat_shiftRightJam64
     (push_bit 10 (fracF64UI a) + (if expF64UI a \<noteq> 0 then 0x4000000000000000 else push_bit 10 (fracF64UI a)))
     (nat (expF64UI b - expF64UI a))"
  shows "softfloat_normRoundPackToF64 s (expF64UI b - 1) ((push_bit 10 (fracF64UI b) OR 0x4000000000000000) - w) st =
      f64_round st s (f64_abs b - f64_abs a)" (is "softfloat_normRoundPackToF64 s _ ?sigZ st = _")
    and "f64_abs a < f64_abs b"
proof -
  define d where "d = nat (expF64UI b - expF64UI a)"
  have d: "1 \<le> d" "expF64UI a = expF64UI b - int d" using le by (simp_all add: d_def)
  define n where "n = uint (push_bit 10 (fracF64UI a) +
      (if expF64UI a \<noteq> 0 then 0x4000000000000000 else push_bit 10 (fracF64UI a)))"
  note al = f64_aligned [of 10 a, unfolded push_hidden64, folded n_def, simplified]
  define k where "k = 2 ^ 52 + uint (fracF64UI b)"
  have k: "2 ^ 52 \<le> k" "k < 2 ^ 53" using fracF64UI_bounds [of b] by (simp_all add: k_def)
  have wj: "uint w = jam n d" unfolding w_def n_def d_def using le by (intro shiftRightJam64_correct) simp
  have sb: "uint (push_bit 10 (fracF64UI b) OR 0x4000000000000000) = k * 2 ^ 10"
  proof -
    have "uint (push_bit 10 (fracF64UI b)) = uint (fracF64UI b) * 2 ^ 10"
      using fracF64UI_bounds [of b] by (intro uint_push_bit_small) simp
    then have "uint (push_bit 10 (fracF64UI b) OR 0x4000000000000000) = (uint (fracF64UI b) * 2 ^ 10) OR 2 ^ 62"
      by (simp add: unsigned_or_eq)
    also have "\<dots> = uint (fracF64UI b) * 2 ^ 10 + 2 ^ 62"
      using fracF64UI_bounds [of b] by (intro int_or_high) simp_all
    finally show ?thesis by (simp add: k_def)
  qed
  obtain q where q: "n = 2 ^ 10 * q" using al(3) by (auto elim: dvdE)
  have "0 \<le> n" unfolding n_def by (rule uint_ge_0)
  then have q24: "0 \<le> q" "q < 2 ^ 53" using al(2) unfolding q by simp_all
  define x where "x = of_int k * 2 ^ 10 - real_of_int n / 2 ^ d"
  have main: "uint ?sigZ = k * 2 ^ 10 - jam n d \<and> jam n d < k * 2 ^ 10 \<and>
      (cell 8 (of_int (uint ?sigZ)) x \<and> 2 ^ (53 + 8) \<le> uint ?sigZ \<or> x = of_int (uint ?sigZ))"
  proof (cases "d = 1")
    case True
    have "jam n d = q * 2 ^ 9" unfolding True by (subst jam_exact) (simp_all add: q)
    moreover have "uint ?sigZ = k * 2 ^ 10 - jam n d"
      using k q24 calculation by (subst uint_minus_small64) (simp_all add: sb wj)
    ultimately show ?thesis
      using k q24 unfolding x_def True by (simp add: q)
  next
    case False
    then have "2 \<le> d" using d by simp
    then have "n div 2 ^ d \<le> n div 2 ^ 2"
      using q24 by (intro zdiv_mono2 power_increasing) (simp_all add: q)
    also have "\<dots> = q * 2 ^ 8" by (simp add: q)
    finally have j: "jam n d \<le> 2 ^ 61" using jam_bounds(2) [of n d] q24 by simp
    then have s: "uint ?sigZ = k * 2 ^ 10 - jam n d"
      using k by (subst uint_minus_small64) (simp_all add: sb wj)
    have "cell 8 (of_int (jam n d)) (of_int n / 2 ^ d)" by (rule cell_jam_int) simp
    from cell_minus [OF this, of "k * 4"]
    have "cell 8 (of_int (uint ?sigZ)) x" unfolding s x_def by (simp add: mult.commute)
    then show ?thesis using s k j by simp
  qed
  have nz: "?sigZ \<noteq> 0" using main by (simp add: word_zero_uint)
  have lt: "uint ?sigZ < 2 ^ 63" using main k wj uint_ge_0 [of w] by simp
  have "softfloat_normRoundPackToF64 s (expF64UI b - 1) ?sigZ st =
      f64_round st s (fp_scaled 52 1023 9 (expF64UI b - 1) x)"
    using main expF64UI_bounds [of b] by (intro normRoundPackToF64_refines [OF _ nz lt, of 8]) auto
  also have eq: "fp_scaled 52 1023 9 (expF64UI b - 1) x = f64_abs b - f64_abs a"
  proof -
    have "f64_abs b = of_int k * 2 ^ 10 * 2 powi (expF64UI b - 1085)"
      using f64_abs_scaled(2) [OF b(1)] unfolding k_def by simp
    moreover have "f64_abs a = of_int n / 2 ^ d * 2 powi (expF64UI b - 1085)"
      using al(1) unfolding d(2) by (simp add: powi_diff)
    ultimately show ?thesis unfolding fp_scaled_def x_def by (simp add: left_diff_distrib)
  qed
  finally show "softfloat_normRoundPackToF64 s (expF64UI b - 1) ?sigZ st = f64_round st s (f64_abs b - f64_abs a)" .
  have "0 < x"
  proof (rule ccontr)
    assume "\<not> 0 < x"
    moreover have "0 < real_of_int (uint ?sigZ)" using nz by (simp add: word_zero_uint order_less_le)
    ultimately have "cell 8 (of_int (uint ?sigZ)) x" using main by auto
    from cell_le [OF this, of 0] show False using \<open>\<not> 0 < x\<close> \<open>0 < real_of_int (uint ?sigZ)\<close> by simp
  qed
  then have "0 < fp_scaled 52 1023 9 (expF64UI b - 1) x" by (simp add: fp_scaled_def)
  then show "f64_abs a < f64_abs b" unfolding eq by simp
qed

theorem subMagsF64_finite:
  assumes "f64_finite a" "f64_finite b"
  shows "softfloat_subMagsF64 a b s st =
     (if f64_abs a = f64_abs b then (packToF64UI (softfloat_roundingMode st = softfloat_round_min) 0 0, st)
      else if f64_abs b < f64_abs a then f64_round st s (f64_abs a - f64_abs b)
      else f64_round st (\<not> s) (f64_abs b - f64_abs a))"
proof -
  have fin: "(expF64UI a = 2047) = False" "(expF64UI b = 2047) = False"
    using assms by (simp_all add: f64_class_fields)
  note bnd = expF64UI_bounds [of a] expF64UI_bounds [of b]
  consider (lt) "expF64UI a < expF64UI b" | (gt) "expF64UI b < expF64UI a"
    | (eq) "expF64UI a = expF64UI b" by linarith
  then show ?thesis
  proof cases
    case lt
    then have nz: "expF64UI b \<noteq> 0" using bnd by auto
    have "softfloat_subMagsF64 a b s st = f64_round st (\<not> s) (f64_abs b - f64_abs a)"
      unfolding f64_aligned_sub(1) [OF nz assms(2) lt, symmetric] softfloat_subMagsF64_def Let_def
      using lt fin by simp
    then show ?thesis using f64_aligned_sub(2) [OF nz assms(2) lt] by simp
  next
    case gt
    then have nz: "expF64UI a \<noteq> 0" using bnd by auto
    have "softfloat_subMagsF64 a b s st = f64_round st s (f64_abs a - f64_abs b)"
      unfolding f64_aligned_sub(1) [OF nz assms(1) gt, symmetric] softfloat_subMagsF64_def Let_def
      using gt fin by simp
    then show ?thesis using f64_aligned_sub(2) [OF nz assms(1) gt] by simp
  next
    case eq
    define e where "e = (if expF64UI a = 0 then 1 else expF64UI a)"
    have e: "1 \<le> e" "e < 2048" using bnd by (auto simp: e_def)
    have p: "uint (push_bit 10 (fracF64UI c)) = uint (fracF64UI c) * 2 ^ 10" for c
      using fracF64UI_bounds [of c] by (intro uint_push_bit_small) simp
    have less: "push_bit 10 (fracF64UI c) < push_bit 10 (fracF64UI c') \<longleftrightarrow> uint (fracF64UI c) < uint (fracF64UI c')" for c c'
      unfolding word_less_def p by simp
    have diff: "f64_abs a - f64_abs b = of_int ((uint (fracF64UI a) - uint (fracF64UI b)) * 2 ^ 10) * 2 powi (e - 1085)"
    proof -
      have "f64_abs a - f64_abs b = of_int (uint (fracF64UI a) - uint (fracF64UI b)) * 2 powi (e - 1075)"
        unfolding f64_abs_fields using eq by (simp add: e_def left_diff_distrib distrib_right)
      also have "(2::real) powi (e - 1075) = 2 powi (e - 1085 + int 10)" by simp
      also have "\<dots> = 2 powi (e - 1085) * 2 ^ 10" unfolding powi_add power_int_of_nat ..
      finally show ?thesis by simp
    qed
    have round: "softfloat_normRoundPackToF64 t (e - 1) (push_bit 10 (fracF64UI c) - push_bit 10 (fracF64UI c')) st =
        f64_round st t (of_int ((uint (fracF64UI c) - uint (fracF64UI c')) * 2 ^ 10) * 2 powi (e - 1085))"
      if "uint (fracF64UI c') < uint (fracF64UI c)" for t c c'
    proof -
      have s: "uint (push_bit 10 (fracF64UI c) - push_bit 10 (fracF64UI c')) = (uint (fracF64UI c) - uint (fracF64UI c')) * 2 ^ 10"
        using that by (subst uint_minus_small64) (simp_all add: p algebra_simps)
      moreover have "(uint (fracF64UI c) - uint (fracF64UI c')) * 2 ^ 10 < 2 ^ 52 * 2 ^ 10"
        using fracF64UI_bounds(2) [of c] uint_ge_0 [of "fracF64UI c'"] by (intro mult_strict_right_mono) (linarith, simp)
      ultimately have "softfloat_normRoundPackToF64 t (e - 1) (push_bit 10 (fracF64UI c) - push_bit 10 (fracF64UI c')) st =
        f64_round st t (fp_scaled 52 1023 9 (e - 1) (of_int ((uint (fracF64UI c) - uint (fracF64UI c')) * 2 ^ 10)))"
        using that e by (intro normRoundPackToF64_refines) (simp_all add: word_zero_uint)
      then show ?thesis by (simp add: fp_scaled_def)
    qed
    have code: "softfloat_subMagsF64 a b s st =
      (if uint (fracF64UI b) < uint (fracF64UI a)
       then softfloat_normRoundPackToF64 s (e - 1) (push_bit 10 (fracF64UI a) - push_bit 10 (fracF64UI b)) st
       else if uint (fracF64UI a) < uint (fracF64UI b)
       then softfloat_normRoundPackToF64 (\<not> s) (e - 1) (push_bit 10 (fracF64UI b) - push_bit 10 (fracF64UI a)) st
       else (packToF64UI (softfloat_roundingMode st = softfloat_round_min) 0 0, st))"
      unfolding softfloat_subMagsF64_def Let_def less using eq fin by (simp add: e_def less)
    have abs: "f64_abs b < f64_abs a \<longleftrightarrow> uint (fracF64UI b) < uint (fracF64UI a)"
      "f64_abs a = f64_abs b \<longleftrightarrow> uint (fracF64UI a) = uint (fracF64UI b)"
      unfolding f64_abs_fields using eq by auto
    have diff': "f64_abs b - f64_abs a = of_int ((uint (fracF64UI b) - uint (fracF64UI a)) * 2 ^ 10) * 2 powi (e - 1085)"
      using diff by (simp add: algebra_simps)
    show ?thesis
      unfolding code abs diff diff' using round [of b a s] round [of a b "\<not> s"] by simp
  qed
qed

lemma signed_sum:
  fixes A B v :: real
  assumes "0 \<le> A" "0 \<le> B" "v = (if s then - (A + B) else A + B)"
  shows "v = 0 \<longleftrightarrow> A + B = 0" "\<bar>v\<bar> = A + B" "v < 0 \<longleftrightarrow> s \<and> A + B \<noteq> 0"
  using assms by auto

lemma signed_diff:
  fixes A B v :: real
  assumes "v = (if s then B - A else A - B)"
  shows "v = 0 \<longleftrightarrow> A = B" "\<bar>v\<bar> = (if B < A then A - B else B - A)"
    "v < 0 \<longleftrightarrow> A \<noteq> B \<and> s = (B < A)"
  using assms by auto

section \<open>Refinement\<close>

lemma f32_finite_not: "f32_finite a \<Longrightarrow> \<not> isNaNF32UI a" "f32_finite a \<Longrightarrow> \<not> f32_isInf a"
  by (auto simp: f32_class_fields(1,3) isNaNF32UI_int)

lemma f32_class_cases:
  obtains (nan) "isNaNF32UI a \<or> isNaNF32UI b"
    | (inf) "\<not> isNaNF32UI a" "\<not> isNaNF32UI b" "f32_isInf a \<or> f32_isInf b"
    | (finite) "f32_finite a" "f32_finite b"
  unfolding f32_class_fields(1,3) isNaNF32UI_int by blast

lemma push_zero32: "k \<le> 9 \<Longrightarrow> push_bit k (fracF32UI a) = 0 \<longleftrightarrow> fracF32UI a = 0"
proof -
  assume k: "k \<le> 9"
  have "uint (fracF32UI a) * 2 ^ k < 2 ^ 23 * 2 ^ k" using fracF32UI_bounds [of a] by simp
  also have "\<dots> \<le> 2 ^ 23 * 2 ^ 9" using k by (intro mult_left_mono power_increasing) simp_all
  finally have "uint (push_bit k (fracF32UI a)) = uint (fracF32UI a) * 2 ^ k"
    by (intro uint_push_bit_small) simp
  then show ?thesis by (simp add: word_zero_uint)
qed

lemma addMagsF32_special:
  shows "isNaNF32UI a \<or> isNaNF32UI b \<Longrightarrow> softfloat_addMagsF32 a b s st = softfloat_propagateNaNF32UI a b st"
    and "\<not> isNaNF32UI a \<Longrightarrow> \<not> isNaNF32UI b \<Longrightarrow> f32_isInf a \<or> f32_isInf b \<Longrightarrow>
      softfloat_addMagsF32 a b s st = ((if f32_isInf a then a else packToF32UI s 0xFF 0), st)"
  unfolding isNaNF32UI_int f32_class_fields(1) softfloat_addMagsF32_def Let_def or_eq_0_iff
  using expF32UI_bounds [of a] expF32UI_bounds [of b]
  by (cases "expF32UI a = 255"; cases "expF32UI b = 255"; simp add: push_zero32; fail)+

lemma subMagsF32_special:
  shows "isNaNF32UI a \<or> isNaNF32UI b \<Longrightarrow> softfloat_subMagsF32 a b s st = softfloat_propagateNaNF32UI a b st"
    and "\<not> isNaNF32UI a \<Longrightarrow> \<not> isNaNF32UI b \<Longrightarrow> f32_isInf a \<or> f32_isInf b \<Longrightarrow>
      softfloat_subMagsF32 a b s st =
        (if f32_isInf a \<and> f32_isInf b then (defaultNaNF32UI, softfloat_raiseFlags softfloat_flag_invalid st)
         else (if f32_isInf a then a else packToF32UI (\<not> s) 0xFF 0, st))"
  unfolding isNaNF32UI_int f32_class_fields(1) softfloat_subMagsF32_def Let_def or_eq_0_iff
  using expF32UI_bounds [of a] expF32UI_bounds [of b]
  by (cases "expF32UI a = 255"; cases "expF32UI b = 255"; simp add: push_zero32; fail)+

lemma f32_inf_bits: "f32_isInf a \<Longrightarrow> a = packToF32UI (signF32UI a) 0xFF 0"
  unfolding packToF32UI_word word_uint_eq_iff uint_of_int32
  using f32_sign_mag [of a] by (simp add: f32_isInf_def)

lemma f32_neg_inf: "f32_isInf a \<Longrightarrow> f32_neg a = packToF32UI (\<not> signF32UI a) 0xFF 0"
  unfolding f32_neg_def by (simp add: f32_class_fields)

lemma f32_val_sign: "f32_val a = (if signF32UI a then - f32_abs a else f32_abs a)" "0 \<le> f32_abs a"
  using b32.mag_nonneg [of "f32_mag a"] f32_mag_bounds [of a] by (simp_all add: f32_val_def f32_abs_def)

theorem f32_add_refines: "f32_add a b st = f32_add_spec a b st"
proof (cases a b rule: f32_class_cases)
  case nan
  then show ?thesis
    unfolding f32_add_def f32_add_spec_def Let_def by (simp add: addMagsF32_special subMagsF32_special)
next
  case inf
  then show ?thesis
    unfolding f32_add_def f32_add_spec_def Let_def
    using f32_inf_bits [of b] by (auto simp: addMagsF32_special subMagsF32_special)
next
  case finite
  note nn = f32_finite_not [OF finite(1)] f32_finite_not [OF finite(2)]
  define v where "v = f32_val a + f32_val b"
  note pos = f32_val_sign(2) [of a] f32_val_sign(2) [of b]
  show ?thesis
  proof (cases "signF32UI a = signF32UI b")
    case True
    then have "v = (if signF32UI a then - (f32_abs a + f32_abs b) else f32_abs a + f32_abs b)"
      unfolding v_def by (simp add: f32_val_sign(1))
    note v = signed_sum [OF pos this]
    show ?thesis
      unfolding f32_add_def f32_add_spec_def Let_def v_def [symmetric] v addMagsF32_finite [OF finite]
      using nn True by simp
  next
    case False
    then have "v = (if signF32UI a then f32_abs b - f32_abs a else f32_abs a - f32_abs b)"
      unfolding v_def by (simp add: f32_val_sign(1))
    note v = signed_diff [OF this]
    show ?thesis
      unfolding f32_add_def f32_add_spec_def Let_def v_def [symmetric] v subMagsF32_finite [OF finite]
      using nn False by (cases "f32_abs a" "f32_abs b" rule: linorder_cases) simp_all
  qed
qed

theorem f32_sub_refines: "f32_sub a b st = f32_sub_spec a b st"
proof (cases a b rule: f32_class_cases)
  case nan
  then show ?thesis
    unfolding f32_sub_def f32_sub_spec_def Let_def by (simp add: addMagsF32_special subMagsF32_special)
next
  case inf
  then show ?thesis
    unfolding f32_sub_def f32_sub_spec_def Let_def
    using f32_neg_inf [of b] by (auto simp: addMagsF32_special subMagsF32_special)
next
  case finite
  note nn = f32_finite_not [OF finite(1)] f32_finite_not [OF finite(2)]
  define v where "v = f32_val a - f32_val b"
  note pos = f32_val_sign(2) [of a] f32_val_sign(2) [of b]
  show ?thesis
  proof (cases "signF32UI a \<noteq> signF32UI b")
    case True
    then have "v = (if signF32UI a then - (f32_abs a + f32_abs b) else f32_abs a + f32_abs b)"
      unfolding v_def by (simp add: f32_val_sign(1))
    note v = signed_sum [OF pos this]
    show ?thesis
      unfolding f32_sub_def f32_sub_spec_def Let_def v_def [symmetric] v addMagsF32_finite [OF finite]
      using nn True by simp
  next
    case False
    then have "v = (if signF32UI a then f32_abs b - f32_abs a else f32_abs a - f32_abs b)"
      unfolding v_def by (simp add: f32_val_sign(1))
    note v = signed_diff [OF this]
    show ?thesis
      unfolding f32_sub_def f32_sub_spec_def Let_def v_def [symmetric] v subMagsF32_finite [OF finite]
      using nn False by (cases "f32_abs a" "f32_abs b" rule: linorder_cases) simp_all
  qed
qed

lemma f64_finite_not: "f64_finite a \<Longrightarrow> \<not> isNaNF64UI a" "f64_finite a \<Longrightarrow> \<not> f64_isInf a"
  by (auto simp: f64_class_fields(1,3) isNaNF64UI_int)

lemma f64_class_cases:
  obtains (nan) "isNaNF64UI a \<or> isNaNF64UI b"
    | (inf) "\<not> isNaNF64UI a" "\<not> isNaNF64UI b" "f64_isInf a \<or> f64_isInf b"
    | (finite) "f64_finite a" "f64_finite b"
  unfolding f64_class_fields(1,3) isNaNF64UI_int by blast

lemma push_zero64: "k \<le> 11 \<Longrightarrow> push_bit k (fracF64UI a) = 0 \<longleftrightarrow> fracF64UI a = 0"
proof -
  assume k: "k \<le> 11"
  have "uint (fracF64UI a) * 2 ^ k < 2 ^ 52 * 2 ^ k" using fracF64UI_bounds [of a] by simp
  also have "\<dots> \<le> 2 ^ 52 * 2 ^ 11" using k by (intro mult_left_mono power_increasing) simp_all
  finally have "uint (push_bit k (fracF64UI a)) = uint (fracF64UI a) * 2 ^ k"
    by (intro uint_push_bit_small) simp
  then show ?thesis by (simp add: word_zero_uint)
qed

lemma addMagsF64_special:
  shows "isNaNF64UI a \<or> isNaNF64UI b \<Longrightarrow> softfloat_addMagsF64 a b s st = softfloat_propagateNaNF64UI a b st"
    and "\<not> isNaNF64UI a \<Longrightarrow> \<not> isNaNF64UI b \<Longrightarrow> f64_isInf a \<or> f64_isInf b \<Longrightarrow>
      softfloat_addMagsF64 a b s st = ((if f64_isInf a then a else packToF64UI s 0x7FF 0), st)"
  unfolding isNaNF64UI_int f64_class_fields(1) softfloat_addMagsF64_def Let_def or_eq_0_iff
  using expF64UI_bounds [of a] expF64UI_bounds [of b]
  by (cases "expF64UI a = 2047"; cases "expF64UI b = 2047"; simp add: push_zero64; fail)+

lemma subMagsF64_special:
  shows "isNaNF64UI a \<or> isNaNF64UI b \<Longrightarrow> softfloat_subMagsF64 a b s st = softfloat_propagateNaNF64UI a b st"
    and "\<not> isNaNF64UI a \<Longrightarrow> \<not> isNaNF64UI b \<Longrightarrow> f64_isInf a \<or> f64_isInf b \<Longrightarrow>
      softfloat_subMagsF64 a b s st =
        (if f64_isInf a \<and> f64_isInf b then (defaultNaNF64UI, softfloat_raiseFlags softfloat_flag_invalid st)
         else (if f64_isInf a then a else packToF64UI (\<not> s) 0x7FF 0, st))"
  unfolding isNaNF64UI_int f64_class_fields(1) softfloat_subMagsF64_def Let_def or_eq_0_iff
  using expF64UI_bounds [of a] expF64UI_bounds [of b]
  by (cases "expF64UI a = 2047"; cases "expF64UI b = 2047"; simp add: push_zero64; fail)+

lemma f64_inf_bits: "f64_isInf a \<Longrightarrow> a = packToF64UI (signF64UI a) 0x7FF 0"
  unfolding packToF64UI_word word_uint_eq_iff uint_of_int64
  using f64_sign_mag [of a] by (simp add: f64_isInf_def)

lemma f64_neg_inf: "f64_isInf a \<Longrightarrow> f64_neg a = packToF64UI (\<not> signF64UI a) 0x7FF 0"
  unfolding f64_neg_def by (simp add: f64_class_fields)

lemma f64_val_sign: "f64_val a = (if signF64UI a then - f64_abs a else f64_abs a)" "0 \<le> f64_abs a"
  using b64.mag_nonneg [of "f64_mag a"] f64_mag_bounds [of a] by (simp_all add: f64_val_def f64_abs_def)

theorem f64_add_refines: "f64_add a b st = f64_add_spec a b st"
proof (cases a b rule: f64_class_cases)
  case nan
  then show ?thesis
    unfolding f64_add_def f64_add_spec_def Let_def by (simp add: addMagsF64_special subMagsF64_special)
next
  case inf
  then show ?thesis
    unfolding f64_add_def f64_add_spec_def Let_def
    using f64_inf_bits [of b] by (auto simp: addMagsF64_special subMagsF64_special)
next
  case finite
  note nn = f64_finite_not [OF finite(1)] f64_finite_not [OF finite(2)]
  define v where "v = f64_val a + f64_val b"
  note pos = f64_val_sign(2) [of a] f64_val_sign(2) [of b]
  show ?thesis
  proof (cases "signF64UI a = signF64UI b")
    case True
    then have "v = (if signF64UI a then - (f64_abs a + f64_abs b) else f64_abs a + f64_abs b)"
      unfolding v_def by (simp add: f64_val_sign(1))
    note v = signed_sum [OF pos this]
    show ?thesis
      unfolding f64_add_def f64_add_spec_def Let_def v_def [symmetric] v addMagsF64_finite [OF finite]
      using nn True by simp
  next
    case False
    then have "v = (if signF64UI a then f64_abs b - f64_abs a else f64_abs a - f64_abs b)"
      unfolding v_def by (simp add: f64_val_sign(1))
    note v = signed_diff [OF this]
    show ?thesis
      unfolding f64_add_def f64_add_spec_def Let_def v_def [symmetric] v subMagsF64_finite [OF finite]
      using nn False by (cases "f64_abs a" "f64_abs b" rule: linorder_cases) simp_all
  qed
qed

theorem f64_sub_refines: "f64_sub a b st = f64_sub_spec a b st"
proof (cases a b rule: f64_class_cases)
  case nan
  then show ?thesis
    unfolding f64_sub_def f64_sub_spec_def Let_def by (simp add: addMagsF64_special subMagsF64_special)
next
  case inf
  then show ?thesis
    unfolding f64_sub_def f64_sub_spec_def Let_def
    using f64_neg_inf [of b] by (auto simp: addMagsF64_special subMagsF64_special)
next
  case finite
  note nn = f64_finite_not [OF finite(1)] f64_finite_not [OF finite(2)]
  define v where "v = f64_val a - f64_val b"
  note pos = f64_val_sign(2) [of a] f64_val_sign(2) [of b]
  show ?thesis
  proof (cases "signF64UI a \<noteq> signF64UI b")
    case True
    then have "v = (if signF64UI a then - (f64_abs a + f64_abs b) else f64_abs a + f64_abs b)"
      unfolding v_def by (simp add: f64_val_sign(1))
    note v = signed_sum [OF pos this]
    show ?thesis
      unfolding f64_sub_def f64_sub_spec_def Let_def v_def [symmetric] v addMagsF64_finite [OF finite]
      using nn True by simp
  next
    case False
    then have "v = (if signF64UI a then f64_abs b - f64_abs a else f64_abs a - f64_abs b)"
      unfolding v_def by (simp add: f64_val_sign(1))
    note v = signed_diff [OF this]
    show ?thesis
      unfolding f64_sub_def f64_sub_spec_def Let_def v_def [symmetric] v subMagsF64_finite [OF finite]
      using nn False by (cases "f64_abs a" "f64_abs b" rule: linorder_cases) simp_all
  qed
qed

end
