(* ===== verification/SF_ToFloat.thy ===== *)
theory SF_ToFloat
imports SF_Trunc SF_AddSub
begin

text \<open>
  Conversions from integers to floating point: \<open>i32_to_f32.c\<close>, \<open>ui32_to_f32.c\<close>,
  \<open>i64_to_f32.c\<close>, \<open>ui64_to_f32.c\<close> and their double-precision companions.  A signed argument
  is a word read with \<open>sint\<close>, a shift count of type \<open>int_fast8_t\<close> is an integer.  Each
  conversion refines the correct rounding of the integer.
\<close>

section \<open>Definitions\<close>

definition i32_to_f32 :: "u32 \<Rightarrow> sf_state \<Rightarrow> float32 \<times> sf_state" where
  "i32_to_f32 a st =
     (let sign = sint a < 0
      in if a AND 0x7FFFFFFF = 0
         then (if sign then packToF32UI True 0x9E 0 else 0, st)
         else let absA = (if sign then - a else a)
              in softfloat_normRoundPackToF32 sign 0x9C absA st)"

definition ui32_to_f32 :: "u32 \<Rightarrow> sf_state \<Rightarrow> float32 \<times> sf_state" where
  "ui32_to_f32 a st =
     (if a = 0 then (0, st)
      else if a AND 0x80000000 \<noteq> 0
      then softfloat_roundPackToF32 False 0x9D (drop_bit 1 a OR (a AND 1)) st
      else softfloat_normRoundPackToF32 False 0x9C a st)"

definition i64_to_f32 :: "u64 \<Rightarrow> sf_state \<Rightarrow> float32 \<times> sf_state" where
  "i64_to_f32 a st =
     (let sign = sint a < 0;
          absA = (if sign then - a else a);
          shiftCount = int (softfloat_countLeadingZeros64 absA) - 40
      in if 0 \<le> shiftCount
         then (if a \<noteq> 0 then packToF32UI sign (0x95 - shiftCount) (push_bit (nat shiftCount) (ucast absA)) else 0, st)
         else let shiftCount = shiftCount + 7;
                  sig = (if shiftCount < 0
                         then ucast (softfloat_shortShiftRightJam64 absA (nat (- shiftCount)))
                         else push_bit (nat shiftCount) (ucast absA))
              in softfloat_roundPackToF32 sign (0x9C - shiftCount) sig st)"

definition ui64_to_f32 :: "u64 \<Rightarrow> sf_state \<Rightarrow> float32 \<times> sf_state" where
  "ui64_to_f32 a st =
     (let shiftCount = int (softfloat_countLeadingZeros64 a) - 40
      in if 0 \<le> shiftCount
         then (if a \<noteq> 0 then packToF32UI False (0x95 - shiftCount) (push_bit (nat shiftCount) (ucast a)) else 0, st)
         else let shiftCount = shiftCount + 7;
                  sig = (if shiftCount < 0
                         then ucast (softfloat_shortShiftRightJam64 a (nat (- shiftCount)))
                         else push_bit (nat shiftCount) (ucast a))
              in softfloat_roundPackToF32 False (0x9C - shiftCount) sig st)"

definition i32_to_f64 :: "u32 \<Rightarrow> float64" where
  "i32_to_f64 a =
     (if a = 0 then 0
      else let sign = sint a < 0;
               absA = (if sign then - a else a);
               shiftCount = int (softfloat_countLeadingZeros32 absA) + 21
           in packToF64UI sign (0x432 - shiftCount) (push_bit (nat shiftCount) (ucast absA)))"

definition ui32_to_f64 :: "u32 \<Rightarrow> float64" where
  "ui32_to_f64 a =
     (if a = 0 then 0
      else let shiftCount = int (softfloat_countLeadingZeros32 a) + 21
           in packToF64UI False (0x432 - shiftCount) (push_bit (nat shiftCount) (ucast a)))"

definition i64_to_f64 :: "u64 \<Rightarrow> sf_state \<Rightarrow> float64 \<times> sf_state" where
  "i64_to_f64 a st =
     (let sign = sint a < 0
      in if a AND 0x7FFFFFFFFFFFFFFF = 0
         then (if sign then packToF64UI True 0x43E 0 else 0, st)
         else let absA = (if sign then - a else a)
              in softfloat_normRoundPackToF64 sign 0x43C absA st)"

definition ui64_to_f64 :: "u64 \<Rightarrow> sf_state \<Rightarrow> float64 \<times> sf_state" where
  "ui64_to_f64 a st =
     (if a = 0 then (0, st)
      else if a AND 0x8000000000000000 \<noteq> 0
      then softfloat_roundPackToF64 False 0x43D (softfloat_shortShiftRightJam64 a 1) st
      else softfloat_normRoundPackToF64 False 0x43C a st)"

section \<open>Specification\<close>

text \<open>An integer converts to the nearest floating-point number the rounding mode selects; zero is positive.\<close>

definition int_to_f32 :: "int \<Rightarrow> sf_state \<Rightarrow> float32 \<times> sf_state" where
  "int_to_f32 n st = (if n = 0 then (0, st) else f32_round st (n < 0) (of_int \<bar>n\<bar>))"

definition int_to_f64 :: "int \<Rightarrow> sf_state \<Rightarrow> float64 \<times> sf_state" where
  "int_to_f64 n st = (if n = 0 then (0, st) else f64_round st (n < 0) (of_int \<bar>n\<bar>))"

section \<open>Magnitudes\<close>

lemma uint_not_neg [simp]: "uint w = - numeral k \<longleftrightarrow> False"
  using uint_ge_0 [of w] by (metis neg_numeral_le_zero order_antisym zero_neq_neg_numeral)


lemma uint_abs32: "uint (if sint a < 0 then - a else a) = \<bar>sint a\<bar>" for a :: u32
proof -
  have "uint (- a) = (- uint a) mod 2 ^ 32" by (simp add: uint_word_ariths)
  also have "\<dots> = (- uint a + 2 ^ 32) mod 2 ^ 32" by simp
  finally have "uint a \<noteq> 0 \<Longrightarrow> uint (- a) = 2 ^ 32 - uint a"
    using uint_bounds_32 [of a] by (subst (asm) mod_pos_pos_trivial) (auto simp: order_less_le)
  then show ?thesis using uint_bounds_32 [of a] by (auto simp: sint_cases32)
qed

lemma uint_abs64: "uint (if sint a < 0 then - a else a) = \<bar>sint a\<bar>" for a :: u64
proof -
  have "uint (- a) = (- uint a) mod 2 ^ 64" by (simp add: uint_word_ariths)
  also have "\<dots> = (- uint a + 2 ^ 64) mod 2 ^ 64" by simp
  finally have "uint a \<noteq> 0 \<Longrightarrow> uint (- a) = 2 ^ 64 - uint a"
    using uint_bounds_64 [of a] by (subst (asm) mod_pos_pos_trivial) (auto simp: order_less_le)
  then show ?thesis using uint_bounds_64 [of a] by (auto simp: sint_cases64)
qed

lemma mod_zero_cases:
  fixes n :: int
  assumes "0 \<le> n" "n < 2 * m"
  shows "n mod m = 0 \<longleftrightarrow> n = 0 \<or> n = m"
proof
  assume z: "n mod m = 0"
  have "0 < m" using assms by linarith
  moreover have "0 \<le> n mod m" using \<open>0 < m\<close> by simp
  ultimately have "n div m * m < 2 * m" "0 \<le> n div m"
    using assms div_mult_mod_eq [of n m] by (linarith, simp add: pos_imp_zdiv_nonneg_iff)
  then have "n div m < 2" "0 \<le> n div m" using \<open>0 < m\<close> by simp_all
  then have "n div m = 0 \<or> n div m = 1" by linarith
  then show "n = 0 \<or> n = m" using z div_mult_mod_eq [of n m] by auto
qed auto

lemma low_bits_zero32: "a AND 0x7FFFFFFF = 0 \<longleftrightarrow> a = 0 \<or> a = 0x80000000" for a :: u32
proof -
  have "a AND 0x7FFFFFFF = 0 \<longleftrightarrow> uint a mod 2 ^ 31 = 0"
    unfolding mask_numerals word_zero_uint uint_and_mask ..
  also have "\<dots> \<longleftrightarrow> uint a = 0 \<or> uint a = 2 ^ 31"
    by (rule mod_zero_cases) (simp_all add: uint_bounds_32)
  also have "\<dots> \<longleftrightarrow> a = 0 \<or> a = 0x80000000" by (simp add: word_uint_eq_iff)
  finally show ?thesis .
qed

lemma low_bits_zero64: "a AND 0x7FFFFFFFFFFFFFFF = 0 \<longleftrightarrow> a = 0 \<or> a = 0x8000000000000000" for a :: u64
proof -
  have "a AND 0x7FFFFFFFFFFFFFFF = 0 \<longleftrightarrow> uint a mod 2 ^ 63 = 0"
    unfolding mask_numerals word_zero_uint uint_and_mask ..
  also have "\<dots> \<longleftrightarrow> uint a = 0 \<or> uint a = 2 ^ 63"
    by (rule mod_zero_cases) (simp_all add: uint_bounds_64)
  also have "\<dots> \<longleftrightarrow> a = 0 \<or> a = 0x8000000000000000" by (simp add: word_uint_eq_iff)
  finally show ?thesis .
qed

lemma high_bit32: "a AND 0x80000000 = 0 \<longleftrightarrow> uint a < 2 ^ 31" for a :: u32
proof -
  have "a AND 0x80000000 = 0 \<longleftrightarrow> uint a AND 2 ^ 31 = 0"
    by (simp add: word_zero_uint unsigned_and_eq)
  also have "\<dots> \<longleftrightarrow> even (uint a div 2 ^ 31)"
    by (simp only: and_exp_eq_0_iff_not_bit bit_iff_odd not_not)
  also have "\<dots> \<longleftrightarrow> uint a div 2 ^ 31 = 0"
  proof
    assume "even (uint a div 2 ^ 31)"
    moreover have "0 \<le> uint a div 2 ^ 31" "uint a div 2 ^ 31 < 2"
      using uint_bounds_32 [of a] by (simp_all add: pos_imp_zdiv_nonneg_iff div_less_iff_less_mult)
    ultimately show "uint a div 2 ^ 31 = 0" by (auto elim!: evenE)
  qed simp
  also have "\<dots> \<longleftrightarrow> uint a < 2 ^ 31" using uint_bounds_32 [of a] by (auto simp: zdiv_eq_0_iff)
  finally show ?thesis .
qed

lemma high_bit64: "a AND 0x8000000000000000 = 0 \<longleftrightarrow> uint a < 2 ^ 63" for a :: u64
proof -
  have "a AND 0x8000000000000000 = 0 \<longleftrightarrow> uint a AND 2 ^ 63 = 0"
    by (simp add: word_zero_uint unsigned_and_eq)
  also have "\<dots> \<longleftrightarrow> even (uint a div 2 ^ 63)"
    by (simp only: and_exp_eq_0_iff_not_bit bit_iff_odd not_not)
  also have "\<dots> \<longleftrightarrow> uint a div 2 ^ 63 = 0"
  proof
    assume "even (uint a div 2 ^ 63)"
    moreover have "0 \<le> uint a div 2 ^ 63" "uint a div 2 ^ 63 < 2"
      using uint_bounds_64 [of a] by (simp_all add: pos_imp_zdiv_nonneg_iff div_less_iff_less_mult)
    ultimately show "uint a div 2 ^ 63 = 0" by (auto elim!: evenE)
  qed simp
  also have "\<dots> \<longleftrightarrow> uint a < 2 ^ 63" using uint_bounds_64 [of a] by (auto simp: zdiv_eq_0_iff)
  finally show ?thesis .
qed

text \<open>A significand that fits is packed without rounding.\<close>

lemma f32_pack_exact:
  assumes "2 ^ 23 \<le> uint sig" "uint sig < 2 ^ 24" "0 \<le> e" "e < 254"
  shows "(packToF32UI s e sig, st) = f32_round st s (of_int (uint sig) * 2 powi (e - 149))"
proof -
  have "e * 2 ^ 23 \<le> 253 * 2 ^ 23" using assms(4) by simp
  then have "e * 2 ^ 23 + uint sig < 0x7F800000" using assms(2) by simp
  moreover have "0 < e * 2 ^ 23 + uint sig" using assms(1,3) by simp
  ultimately show ?thesis
    using f32_round_exact [of "e * 2 ^ 23 + uint sig" st s] b32.mag_combine [of e "uint sig"] assms
    by (simp add: packToF32UI_word add.assoc)
qed

lemma f64_pack_exact:
  assumes "2 ^ 52 \<le> uint sig" "uint sig < 2 ^ 53" "0 \<le> e" "e < 2046"
  shows "(packToF64UI s e sig, st) = f64_round st s (of_int (uint sig) * 2 powi (e - 1074))"
proof -
  have "e * 2 ^ 52 \<le> 2045 * 2 ^ 52" using assms(4) by simp
  then have "e * 2 ^ 52 + uint sig < 0x7FF0000000000000" using assms(2) by simp
  moreover have "0 < e * 2 ^ 52 + uint sig" using assms(1,3) by simp
  ultimately show ?thesis
    using f64_round_exact [of "e * 2 ^ 52 + uint sig" st s] b64.mag_combine [of e "uint sig"] assms
    by (simp add: packToF64UI_word add.assoc)
qed


section \<open>Refinement\<close>

theorem i32_to_f32_refines: "i32_to_f32 a st = int_to_f32 (sint a) st"
proof -
  consider "a = 0" | (min) "a = 0x80000000" | (other) "a AND 0x7FFFFFFF \<noteq> 0" unfolding low_bits_zero32 by blast
  then show ?thesis
  proof cases
    case min
    have "(packToF32UI True 0x9D 0x800000, st) = f32_round st True (of_int (uint (0x800000 :: u32)) * 2 powi (0x9D - 149))"
      by (rule f32_pack_exact) simp_all
    then show ?thesis
      using min by (simp add: i32_to_f32_def int_to_f32_def packToF32UI_word sint_cases32)
  next
    case other
    define absA where "absA = (if sint a < 0 then - a else a)"
    have u: "uint absA = \<bar>sint a\<bar>" unfolding absA_def by (rule uint_abs32)
    have nz: "a \<noteq> 0" "a \<noteq> 0x80000000" using other unfolding low_bits_zero32 by auto
    have ne: "sint a \<noteq> 0" "sint a \<noteq> - (2 ^ 31)"
      using nz uint_bounds_32 [of a] by (auto simp: sint_cases32 word_uint_eq_iff)
    then have b: "uint absA < 2 ^ 31" "absA \<noteq> 0"
      using u uint_bounds_32 [of a] unfolding word_zero_uint by (auto simp: sint_cases32)
    have "softfloat_normRoundPackToF32 (sint a < 0) 156 absA st =
      f32_round st (sint a < 0) (fp_scaled 23 127 6 156 (of_int (uint absA)))"
      using b by (intro normRoundPackToF32_refines) simp_all
    then show ?thesis
      using other ne u by (simp add: i32_to_f32_def int_to_f32_def Let_def absA_def [symmetric] fp_scaled_def)
  qed (simp add: i32_to_f32_def int_to_f32_def)
qed

theorem ui32_to_f32_refines: "ui32_to_f32 a st = int_to_f32 (uint a) st"
proof -
  consider "a = 0" | (high) "2 ^ 31 \<le> uint a" | (other) "a \<noteq> 0" "uint a < 2 ^ 31" by linarith
  then show ?thesis
  proof cases
    case high
    then have nz: "a \<noteq> 0" "\<not> uint a < 2 ^ 31" by auto
    define sig where "sig = drop_bit 1 a OR (a AND 1)"
    have j: "uint sig = jam (uint a) 1"
    proof -
      have "a AND 1 = of_bool (uint a mod 2 ^ 1 \<noteq> 0)"
        by (simp add: and_one_eq word_uint_eq_iff uint_mod odd_iff_mod_2_eq_one [symmetric])
      then show ?thesis unfolding sig_def by (simp only: uint_jam)
    qed
    have "cell 6 (of_int (jam (uint a) 1)) (of_int (uint a) / 2 ^ 1)" by (rule cell_jam_int) simp
    moreover have "2 ^ 30 \<le> jam (uint a) 1" "jam (uint a) 1 < 2 ^ 31"
      using jam_range [of 30 1 "uint a" 31] high uint_bounds_32 [of a] by simp_all
    ultimately have "softfloat_roundPackToF32 False 157 sig st =
      f32_round st False (fp_scaled 23 127 6 157 (of_int (uint a) / 2 ^ 1))"
      by (intro roundPackToF32_refines) (simp_all add: j)
    then show ?thesis
      using nz high_bit32 [of a] unfolding ui32_to_f32_def sig_def [symmetric] by (simp add: int_to_f32_def fp_scaled_def word_zero_uint)
  next
    case other
    have "softfloat_normRoundPackToF32 False 156 a st = f32_round st False (fp_scaled 23 127 6 156 (of_int (uint a)))"
      using other by (intro normRoundPackToF32_refines) simp_all
    then show ?thesis
      using other high_bit32 [of a] by (simp add: ui32_to_f32_def int_to_f32_def fp_scaled_def word_zero_uint)
  qed (simp add: ui32_to_f32_def int_to_f32_def)
qed

lemma shift_small: "n * 2 ^ k < 2 ^ K \<Longrightarrow> 0 \<le> n \<Longrightarrow> n < 2 ^ K" for n :: int
proof -
  assume n: "n * 2 ^ k < 2 ^ K" "0 \<le> n"
  have "n * 1 \<le> n * 2 ^ k" using n(2) by (intro mult_left_mono) simp_all
  then show ?thesis using n(1) by simp
qed

lemma ucast_small:
  fixes w :: u64
  assumes "uint w * 2 ^ k < 2 ^ K" "K \<le> 32"
  shows "uint (ucast w :: u32) = uint w"
proof -
  have "uint w < 2 ^ K" using shift_small [OF assms(1)] by simp
  also have "(2::int) ^ K \<le> 2 ^ 32" using assms(2) by (intro power_increasing) simp_all
  finally show ?thesis by (simp add: unsigned_ucast_eq unsigned_take_bit_eq take_bit_int_eq_self)
qed

lemma f32_from64:
  assumes "absA \<noteq> 0"
  shows "(let shiftCount = int (softfloat_countLeadingZeros64 absA) - 40
      in if 0 \<le> shiftCount
         then (packToF32UI s (0x95 - shiftCount) (push_bit (nat shiftCount) (ucast absA)), st)
         else let shiftCount = shiftCount + 7;
                  sig = (if shiftCount < 0
                         then ucast (softfloat_shortShiftRightJam64 absA (nat (- shiftCount)))
                         else push_bit (nat shiftCount) (ucast absA))
              in softfloat_roundPackToF32 s (0x9C - shiftCount) sig st) = f32_round st s (of_int (uint absA))"
proof -
  define c where "c = softfloat_countLeadingZeros64 absA"
  have c: "2 ^ 63 \<le> uint absA * 2 ^ c" "uint absA * 2 ^ c < 2 ^ 64" using countLeadingZeros64_correct [OF assms] by (auto simp: c_def)
  have one: "2 ^ 0 \<le> uint absA" using assms by (metis word_zero_uint uint_ge_0 int_one_le_iff_zero_less order_le_less power_0)
  have c63: "c \<le> 63" using shift_unique [of 63 "uint absA" c 63] c one by simp
  have div: "uint absA * 2 ^ c div 2 ^ (c - d) = uint absA * 2 ^ d" if "d \<le> c" for d
  proof -
    have "(2::int) ^ c = 2 ^ d * 2 ^ (c - d)" using that by (simp flip: power_add)
    then show ?thesis by (simp flip: mult.assoc)
  qed
  consider (exact) "40 \<le> c" | (up) "c < 40" "33 \<le> c" | (down) "c < 33" by linarith
  then show ?thesis
  proof cases
    case exact
    define k where "k = c - 40"
    have k: "c = k + 40" using exact by (simp add: k_def)
    have n: "2 ^ 23 \<le> uint absA * 2 ^ k" "uint absA * 2 ^ k < 2 ^ 24" using c unfolding k by (simp_all add: power_add)
    have p: "uint (push_bit k (ucast absA :: u32)) = uint absA * 2 ^ k"
      using ucast_small [OF n(2)] n(2) by (subst uint_push_bit_small) simp_all
    have "(packToF32UI s (0x95 - int k) (push_bit k (ucast absA)), st) =
      f32_round st s (of_int (uint (push_bit k (ucast absA :: u32))) * 2 powi (0x95 - int k - 149))"
      using n c63 unfolding k by (intro f32_pack_exact) (simp_all add: p)
    also have "of_int (uint (push_bit k (ucast absA :: u32))) * 2 powi (0x95 - int k - 149) = real_of_int (uint absA)"
      unfolding p by (simp add: power_int_minus)
    finally show ?thesis using k unfolding c_def [symmetric] by simp
  next
    case up
    define k where "k = c - 33"
    have k: "c = k + 33" "k < 7" using up by (auto simp: k_def)
    have n: "2 ^ 30 \<le> uint absA * 2 ^ k" "uint absA * 2 ^ k < 2 ^ 31" using c unfolding k by (simp_all add: power_add)
    have p: "uint (push_bit k (ucast absA :: u32)) = uint absA * 2 ^ k"
      using ucast_small [OF n(2)] n(2) by (subst uint_push_bit_small) simp_all
    have "softfloat_roundPackToF32 s (0x9C - int k) (push_bit k (ucast absA)) st =
      f32_round st s (fp_scaled 23 127 6 (0x9C - int k) (of_int (uint absA) * 2 ^ k))"
      using n by (intro roundPackToF32_refines) (simp_all only: p, use k in simp_all)
    then show ?thesis using k unfolding c_def [symmetric] scaled_shift by (simp add: fp_scaled_def)
  next
    case down
    define d where "d = 33 - c"
    have d: "int c - 40 + 7 = - int d" "d + c = 33" "1 \<le> d" using down by (auto simp: d_def)
    have n: "2 ^ (30 + d) \<le> uint absA" "uint absA < 2 ^ (31 + d)"
    proof -
      have "30 + d + c = 63" "31 + d + c = 64" using d(2) by simp_all
      then have "(2::int) ^ 63 = 2 ^ (30 + d) * 2 ^ c" "(2::int) ^ 64 = 2 ^ (31 + d) * 2 ^ c"
        by (metis power_add)+
      then show "2 ^ (30 + d) \<le> uint absA" "uint absA < 2 ^ (31 + d)" using c by (simp_all only: mult_le_cancel_right mult_less_cancel_right) auto
    qed
    define sig where "sig = (ucast (softfloat_shortShiftRightJam64 absA d) :: u32)"
    have j: "uint sig = jam (uint absA) d"
      using jam_range [OF n] unfolding sig_def uint_ucast_64_32 shortShiftRightJam64_correct by simp
    have "cell 6 (of_int (jam (uint absA) d)) (of_int (uint absA) / 2 ^ d)" by (rule cell_jam_int) simp
    then have "softfloat_roundPackToF32 s (0x9C + int d) sig st =
      f32_round st s (fp_scaled 23 127 6 (0x9C + int d) (of_int (uint absA) / 2 ^ d))"
      using jam_range [OF n] d by (intro roundPackToF32_refines) (simp_all add: j)
    also have "fp_scaled 23 127 6 (0x9C + int d) (of_int (uint absA) / 2 ^ d) = of_int (uint absA)"
      by (simp add: fp_scaled_def)
    finally have "softfloat_roundPackToF32 s (0x9C + int d) sig st = f32_round st s (of_int (uint absA))" .
    moreover have "int c = 33 - int d" using d by simp
    ultimately show ?thesis using d(3) unfolding c_def [symmetric] by (simp add: sig_def)
  qed
qed

lemma clz64_zero: "softfloat_countLeadingZeros64 0 = 64"
  by code_simp

lemma sint_nonzero: "a \<noteq> 0 \<Longrightarrow> sint a \<noteq> 0" for a :: "'a::len word"
  by (metis signed_word_eqI sint_0)

theorem ui64_to_f32_refines: "ui64_to_f32 a st = int_to_f32 (uint a) st"
proof (cases "a = 0")
  case True
  then show ?thesis by (simp add: ui64_to_f32_def int_to_f32_def clz64_zero)
next
  case False
  then show ?thesis 
    unfolding ui64_to_f32_def int_to_f32_def if_P [OF False] f32_from64 [OF False]
    using False by (simp add: uint_0_iff)
qed

theorem i64_to_f32_refines: "i64_to_f32 a st = int_to_f32 (sint a) st"
proof (cases "a = 0")
  case True
  then show ?thesis by (simp add: i64_to_f32_def int_to_f32_def clz64_zero)
next
  case False
  define absA where "absA = (if sint a < 0 then - a else a)"
  have u: "uint absA = \<bar>sint a\<bar>" unfolding absA_def by (rule uint_abs64)
  have nz: "sint a \<noteq> 0" using False by (rule sint_nonzero)
  then have "absA \<noteq> 0" using u by auto
  from f32_from64 [OF this, of "sint a < 0" st]
  have "i64_to_f32 a st = f32_round st (sint a < 0) (of_int (uint absA))"
    unfolding i64_to_f32_def Let_def absA_def [symmetric] if_P [OF False] .
  then show ?thesis using nz unfolding u by (simp add: int_to_f32_def del: of_int_sint)
qed

theorem i64_to_f64_refines: "i64_to_f64 a st = int_to_f64 (sint a) st"
proof -
  consider "a = 0" | (min) "a = 0x8000000000000000" | (other) "a AND 0x7FFFFFFFFFFFFFFF \<noteq> 0" unfolding low_bits_zero64 by blast
  then show ?thesis
  proof cases
    case min
    have "(packToF64UI True 0x43D 0x10000000000000, st) = f64_round st True (of_int (uint (0x10000000000000 :: u64)) * 2 powi (0x43D - 1074))"
      by (rule f64_pack_exact) simp_all
    then show ?thesis
      using min by (simp add: i64_to_f64_def int_to_f64_def packToF64UI_word sint_cases64)
  next
    case other
    define absA where "absA = (if sint a < 0 then - a else a)"
    have u: "uint absA = \<bar>sint a\<bar>" unfolding absA_def by (rule uint_abs64)
    have nz: "a \<noteq> 0" "a \<noteq> 0x8000000000000000" using other unfolding low_bits_zero64 by auto
    have ne: "sint a \<noteq> 0" "sint a \<noteq> - (2 ^ 63)"
      using nz uint_bounds_64 [of a] by (auto simp: sint_cases64 word_uint_eq_iff)
    then have b: "uint absA < 2 ^ 63" "absA \<noteq> 0"
      using u uint_bounds_64 [of a] unfolding word_zero_uint by (auto simp: sint_cases64)
    have "softfloat_normRoundPackToF64 (sint a < 0) 1084 absA st =
      f64_round st (sint a < 0) (fp_scaled 52 1023 9 1084 (of_int (uint absA)))"
      using b by (intro normRoundPackToF64_refines) simp_all
    then show ?thesis
      using other ne u by (simp add: i64_to_f64_def int_to_f64_def Let_def absA_def [symmetric] fp_scaled_def)
  qed (simp add: i64_to_f64_def int_to_f64_def)
qed

theorem ui64_to_f64_refines: "ui64_to_f64 a st = int_to_f64 (uint a) st"
proof -
  consider "a = 0" | (high) "2 ^ 63 \<le> uint a" | (other) "a \<noteq> 0" "uint a < 2 ^ 63" by linarith
  then show ?thesis
  proof cases
    case high
    then have nz: "a \<noteq> 0" "\<not> uint a < 2 ^ 63" by auto
    have "cell 9 (of_int (jam (uint a) 1)) (of_int (uint a) / 2 ^ 1)" by (rule cell_jam_int) simp
    moreover have "2 ^ 62 \<le> jam (uint a) 1" "jam (uint a) 1 < 2 ^ 63"
      using jam_range [of 62 1 "uint a" 63] high uint_bounds_64 [of a] by simp_all
    ultimately have "softfloat_roundPackToF64 False 1085 (softfloat_shortShiftRightJam64 a 1) st =
      f64_round st False (fp_scaled 52 1023 9 1085 (of_int (uint a) / 2 ^ 1))"
      by (intro roundPackToF64_refines) (simp_all add: shortShiftRightJam64_correct)
    then show ?thesis
      using nz high_bit64 [of a] by (simp add: ui64_to_f64_def int_to_f64_def fp_scaled_def word_zero_uint)
  next
    case other
    have "softfloat_normRoundPackToF64 False 1084 a st = f64_round st False (fp_scaled 52 1023 9 1084 (of_int (uint a)))"
      using other by (intro normRoundPackToF64_refines) simp_all
    then show ?thesis
      using other high_bit64 [of a] by (simp add: ui64_to_f64_def int_to_f64_def fp_scaled_def word_zero_uint)
  qed (simp add: ui64_to_f64_def int_to_f64_def)
qed

lemma f64_from32:
  assumes "absA \<noteq> 0"
  shows "(let shiftCount = int (softfloat_countLeadingZeros32 absA) + 21
      in (packToF64UI s (0x432 - shiftCount) (push_bit (nat shiftCount) (ucast absA)), st)) = f64_round st s (of_int (uint absA))"
proof -
  define c where "c = softfloat_countLeadingZeros32 absA"
  have c: "2 ^ 31 \<le> uint absA * 2 ^ c" "uint absA * 2 ^ c < 2 ^ 32" using countLeadingZeros32_correct [OF assms] by (auto simp: c_def)
  have one: "2 ^ 0 \<le> uint absA" using assms by (metis word_zero_uint uint_ge_0 int_one_le_iff_zero_less order_le_less power_0)
  have c31: "c \<le> 31" using shift_unique [of 31 "uint absA" c 31] c one by simp
  define k where "k = c + 21"
  have k: "nat (int c + 21) = k" "int c + 21 = int k" "k \<le> 52" using c31 by (auto simp: k_def)
  have n: "2 ^ 52 \<le> uint absA * 2 ^ k" "uint absA * 2 ^ k < 2 ^ 53" using c unfolding k_def by (simp_all add: power_add)
  have p: "uint (push_bit k (ucast absA :: u64)) = uint absA * 2 ^ k"
    using n by (subst uint_push_bit_small) simp_all
  have "(packToF64UI s (0x432 - int k) (push_bit k (ucast absA)), st) =
    f64_round st s (of_int (uint (push_bit k (ucast absA :: u64))) * 2 powi (0x432 - int k - 1074))"
    using n k(3) by (intro f64_pack_exact) (simp_all add: p)
  also have "of_int (uint (push_bit k (ucast absA :: u64))) * 2 powi (0x432 - int k - 1074) = real_of_int (uint absA)"
    unfolding p by (simp add: power_int_minus)
  finally show ?thesis unfolding c_def [symmetric] Let_def k(2) by simp
qed

theorem ui32_to_f64_refines: "(ui32_to_f64 a, st) = int_to_f64 (uint a) st"
proof (cases "a = 0")
  case False
  then show ?thesis using f64_from32 [OF False, of False st] by (simp add: ui32_to_f64_def int_to_f64_def word_zero_uint Let_def)
qed (simp add: ui32_to_f64_def int_to_f64_def)

theorem i32_to_f64_refines: "(i32_to_f64 a, st) = int_to_f64 (sint a) st"
proof (cases "a = 0")
  case False
  define absA where "absA = (if sint a < 0 then - a else a)"
  have u: "uint absA = \<bar>sint a\<bar>" unfolding absA_def by (rule uint_abs32)
  have nz: "sint a \<noteq> 0" using False by (rule sint_nonzero)
  then have "absA \<noteq> 0" using u by auto
  from f64_from32 [OF this, of "sint a < 0" st] show ?thesis
    using False nz u by (simp add: i32_to_f64_def int_to_f64_def Let_def absA_def [symmetric])
qed (simp add: i32_to_f64_def int_to_f64_def)

end
