(* ===== verification/SF_FConv.thy ===== *)
theory SF_FConv
imports SF_ToFloat
begin

text \<open>
  Conversions between the two formats (\<open>f32_to_f64.c\<close>, \<open>f64_to_f32.c\<close>) and rounding to an
  integral value in the same format (\<open>f32_roundToInt.c\<close>, \<open>f64_roundToInt.c\<close>).  The fall-through
  from the first case of the \<open>switch\<close> to the next is the shared result \<open>near_maxMag\<close>.
\<close>

section \<open>Definitions\<close>

definition f32_to_f64 :: "float32 \<Rightarrow> sf_state \<Rightarrow> float64 \<times> sf_state" where
  "f32_to_f64 uiA st =
     (let sign = signF32UI uiA;
          expA = expF32UI uiA;
          sig = fracF32UI uiA
      in if expA = 0xFF
         then if sig \<noteq> 0 then (softfloat_commonNaNToF64UI, softfloat_f32UIToCommonNaN uiA st)
              else (packToF64UI sign 0x7FF 0, st)
         else if expA = 0 \<and> sig = 0 then (packToF64UI sign 0 0, st)
         else let (expA, sig) = (if expA = 0
                                 then let (e, s) = softfloat_normSubnormalF32Sig sig in (e - 1, s)
                                 else (expA, sig))
              in (packToF64UI sign (expA + 0x380) (push_bit 29 (ucast sig)), st))"

definition f64_to_f32 :: "float64 \<Rightarrow> sf_state \<Rightarrow> float32 \<times> sf_state" where
  "f64_to_f32 uiA st =
     (let sign = signF64UI uiA;
          expA = expF64UI uiA;
          sig = fracF64UI uiA
      in if expA = 0x7FF
         then if sig \<noteq> 0 then (softfloat_commonNaNToF32UI, softfloat_f64UIToCommonNaN uiA st)
              else (packToF32UI sign 0xFF 0, st)
         else let sig32 = (ucast (softfloat_shortShiftRightJam64 sig 22) :: u32)
              in if word_of_int expA OR sig32 = 0 then (packToF32UI sign 0 0, st)
                 else softfloat_roundPackToF32 sign (expA - 0x381) (sig32 OR 0x40000000) st)"

definition f32_roundToInt :: "float32 \<Rightarrow> u8 \<Rightarrow> bool \<Rightarrow> sf_state \<Rightarrow> float32 \<times> sf_state" where
  "f32_roundToInt uiA roundingMode exact st =
     (let expA = expF32UI uiA
      in if expA \<le> 0x7E
         then if push_bit 1 uiA = 0 then (uiA, st)
              else let st = (if exact then softfloat_raiseFlags softfloat_flag_inexact st else st);
                       uiZ = uiA AND packToF32UI True 0 0;
                       near_maxMag = (if expA = 0x7E then uiZ OR packToF32UI False 0x7F 0 else uiZ)
                   in (if roundingMode = softfloat_round_near_even
                       then if fracF32UI uiA = 0 then uiZ else near_maxMag
                       else if roundingMode = softfloat_round_near_maxMag then near_maxMag
                       else if roundingMode = softfloat_round_min
                       then if uiZ \<noteq> 0 then packToF32UI True 0x7F 0 else uiZ
                       else if roundingMode = softfloat_round_max
                       then if uiZ = 0 then packToF32UI False 0x7F 0 else uiZ
                       else uiZ, st)
         else if 0x96 \<le> expA
         then if expA = 0xFF \<and> fracF32UI uiA \<noteq> 0 then softfloat_propagateNaNF32UI uiA 0 st
              else (uiA, st)
         else let lastBitMask = push_bit (nat (0x96 - expA)) 1;
                  roundBitsMask = lastBitMask - 1;
                  uiZ = (if roundingMode = softfloat_round_near_maxMag then uiA + drop_bit 1 lastBitMask
                         else if roundingMode = softfloat_round_near_even
                         then let uiZ = uiA + drop_bit 1 lastBitMask
                              in if uiZ AND roundBitsMask = 0 then uiZ AND NOT lastBitMask else uiZ
                         else if roundingMode \<noteq> softfloat_round_minMag
                         then if signF32UI uiA \<noteq> (roundingMode = softfloat_round_max)
                              then uiA + roundBitsMask else uiA
                         else uiA);
                  uiZ = uiZ AND NOT roundBitsMask
              in (uiZ, if exact \<and> uiZ \<noteq> uiA then softfloat_raiseFlags softfloat_flag_inexact st else st))"

definition f64_roundToInt :: "float64 \<Rightarrow> u8 \<Rightarrow> bool \<Rightarrow> sf_state \<Rightarrow> float64 \<times> sf_state" where
  "f64_roundToInt uiA roundingMode exact st =
     (let expA = expF64UI uiA
      in if expA \<le> 0x3FE
         then if uiA AND 0x7FFFFFFFFFFFFFFF = 0 then (uiA, st)
              else let st = (if exact then softfloat_raiseFlags softfloat_flag_inexact st else st);
                       uiZ = uiA AND packToF64UI True 0 0;
                       near_maxMag = (if expA = 0x3FE then uiZ OR packToF64UI False 0x3FF 0 else uiZ)
                   in (if roundingMode = softfloat_round_near_even
                       then if fracF64UI uiA = 0 then uiZ else near_maxMag
                       else if roundingMode = softfloat_round_near_maxMag then near_maxMag
                       else if roundingMode = softfloat_round_min
                       then if uiZ \<noteq> 0 then packToF64UI True 0x3FF 0 else uiZ
                       else if roundingMode = softfloat_round_max
                       then if uiZ = 0 then packToF64UI False 0x3FF 0 else uiZ
                       else uiZ, st)
         else if 0x433 \<le> expA
         then if expA = 0x7FF \<and> fracF64UI uiA \<noteq> 0 then softfloat_propagateNaNF64UI uiA 0 st
              else (uiA, st)
         else let lastBitMask = push_bit (nat (0x433 - expA)) 1;
                  roundBitsMask = lastBitMask - 1;
                  uiZ = (if roundingMode = softfloat_round_near_maxMag then uiA + drop_bit 1 lastBitMask
                         else if roundingMode = softfloat_round_near_even
                         then let uiZ = uiA + drop_bit 1 lastBitMask
                              in if uiZ AND roundBitsMask = 0 then uiZ AND NOT lastBitMask else uiZ
                         else if roundingMode \<noteq> softfloat_round_minMag
                         then if signF64UI uiA \<noteq> (roundingMode = softfloat_round_max)
                              then uiA + roundBitsMask else uiA
                         else uiA);
                  uiZ = uiZ AND NOT roundBitsMask
              in (uiZ, if exact \<and> uiZ \<noteq> uiA then softfloat_raiseFlags softfloat_flag_inexact st else st))"

section \<open>Specification\<close>

text \<open>A conversion between formats rounds the value; a NaN becomes the default NaN of the target.\<close>

definition f32_to_f64_spec :: "float32 \<Rightarrow> sf_state \<Rightarrow> float64 \<times> sf_state" where
  "f32_to_f64_spec a st =
     (if isNaNF32UI a
      then (defaultNaNF64UI, if softfloat_isSigNaNF32UI a then softfloat_raiseFlags softfloat_flag_invalid st else st)
      else if f32_isInf a then (packToF64UI (signF32UI a) 0x7FF 0, st)
      else if f32_val a = 0 then (packToF64UI (signF32UI a) 0 0, st)
      else f64_round st (signF32UI a) \<bar>f32_val a\<bar>)"

definition f64_to_f32_spec :: "float64 \<Rightarrow> sf_state \<Rightarrow> float32 \<times> sf_state" where
  "f64_to_f32_spec a st =
     (if isNaNF64UI a
      then (defaultNaNF32UI, if softfloat_isSigNaNF64UI a then softfloat_raiseFlags softfloat_flag_invalid st else st)
      else if f64_isInf a then (packToF32UI (signF64UI a) 0xFF 0, st)
      else if f64_val a = 0 then (packToF32UI (signF64UI a) 0 0, st)
      else f32_round st (signF64UI a) \<bar>f64_val a\<bar>)"

text \<open>Rounding to an integral value keeps the sign, also of a zero result.\<close>

definition f32_roundToInt_spec :: "float32 \<Rightarrow> u8 \<Rightarrow> bool \<Rightarrow> sf_state \<Rightarrow> float32 \<times> sf_state" where
  "f32_roundToInt_spec a rm exact st =
     (if isNaNF32UI a
      then (defaultNaNF32UI, if softfloat_isSigNaNF32UI a then softfloat_raiseFlags softfloat_flag_invalid st else st)
      else if f32_isInf a then (a, st)
      else let n = rnd rm (signF32UI a) \<bar>f32_val a\<bar>
           in (if n = 0 then packToF32UI (signF32UI a) 0 0 else fst (f32_round st (signF32UI a) (of_int n)),
               if exact \<and> of_int n \<noteq> \<bar>f32_val a\<bar> then softfloat_raiseFlags softfloat_flag_inexact st else st))"

definition f64_roundToInt_spec :: "float64 \<Rightarrow> u8 \<Rightarrow> bool \<Rightarrow> sf_state \<Rightarrow> float64 \<times> sf_state" where
  "f64_roundToInt_spec a rm exact st =
     (if isNaNF64UI a
      then (defaultNaNF64UI, if softfloat_isSigNaNF64UI a then softfloat_raiseFlags softfloat_flag_invalid st else st)
      else if f64_isInf a then (a, st)
      else let n = rnd rm (signF64UI a) \<bar>f64_val a\<bar>
           in (if n = 0 then packToF64UI (signF64UI a) 0 0 else fst (f64_round st (signF64UI a) (of_int n)),
               if exact \<and> of_int n \<noteq> \<bar>f64_val a\<bar> then softfloat_raiseFlags softfloat_flag_inexact st else st))"

section \<open>Between the formats\<close>

lemma uint_2p_small: "k < LENGTH('a) \<Longrightarrow> uint (2 ^ k :: 'a::len word) = 2 ^ k"
  unfolding word_of_int_2p [symmetric] uint_word_of_int by (intro mod_pos_pos_trivial) simp_all

lemma and_bit_zero: "w AND 2 ^ k = 0 \<longleftrightarrow> uint w mod 2 ^ Suc k < 2 ^ k" if "k < LENGTH('a)" for w :: "'a::len word"
proof -
  have "w AND 2 ^ k = 0 \<longleftrightarrow> uint w AND 2 ^ k = 0"
    using that by (simp add: word_zero_uint unsigned_and_eq uint_2p_small)
  also have "\<dots> \<longleftrightarrow> even (uint w div 2 ^ k)"
    by (simp only: and_exp_eq_0_iff_not_bit bit_iff_odd not_not)
  also have "\<dots> \<longleftrightarrow> uint w mod 2 ^ Suc k < 2 ^ k"
  proof -
    have r: "uint w mod 2 ^ Suc k = 2 ^ k * (uint w div 2 ^ k mod 2) + uint w mod 2 ^ k"
      using mod_mult2_eq' [of "uint w" "2 ^ k" 2] by (simp add: mult.commute)
    show ?thesis
      unfolding r by (cases "even (uint w div 2 ^ k)") (simp_all add: even_iff_mod_2_eq_zero odd_iff_mod_2_eq_one not_less)
  qed
  finally show ?thesis .
qed

lemma quiet_bit32: "isNaNF32UI a \<Longrightarrow> softfloat_f32UIToCommonNaN a st =
    (if softfloat_isSigNaNF32UI a then softfloat_raiseFlags softfloat_flag_invalid st else st)"
  using and_bit_zero [of 22 a]
  by (simp add: softfloat_f32UIToCommonNaN_def softfloat_isSigNaNF32UI_int isNaNF32UI_int fracF32UI_int)

lemma quiet_bit64: "isNaNF64UI a \<Longrightarrow> softfloat_f64UIToCommonNaN a st =
    (if softfloat_isSigNaNF64UI a then softfloat_raiseFlags softfloat_flag_invalid st else st)"
  using and_bit_zero [of 51 a]
  by (simp add: softfloat_f64UIToCommonNaN_def softfloat_isSigNaNF64UI_int isNaNF64UI_int fracF64UI_int)

lemma f64_pack_normal:
  assumes "uint f < 2 ^ 52" "0 < e" "e < 2047"
  shows "(packToF64UI s e f, st) = f64_round st s (of_int (2 ^ 52 + uint f) * 2 powi (e - 1075))"
proof -
  have "e * 2 ^ 52 \<le> 2046 * 2 ^ 52" using assms(3) by simp
  then have "e * 2 ^ 52 + uint f < 0x7FF0000000000000" using assms(1) by simp
  moreover have "0 < e * 2 ^ 52" using assms(2) by simp
  then have "0 < e * 2 ^ 52 + uint f" using uint_ge_0 [of f] by linarith
  ultimately show ?thesis
    using f64_round_exact [of "e * 2 ^ 52 + uint f" st s] b64.mag_combine [of "e - 1" "2 ^ 52 + uint f"] assms
    by (simp add: packToF64UI_word add.assoc left_diff_distrib)
qed

lemma f32_class_cases1:
  obtains (nan) "isNaNF32UI a" | (inf) "\<not> isNaNF32UI a" "f32_isInf a" | (zero) "f32_mag a = 0"
    | (main) "f32_finite a" "f32_mag a \<noteq> 0"
  unfolding f32_class_fields(1,3) isNaNF32UI_int by blast

lemma f64_class_cases1:
  obtains (nan) "isNaNF64UI a" | (inf) "\<not> isNaNF64UI a" "f64_isInf a" | (zero) "f64_mag a = 0"
    | (main) "f64_finite a" "f64_mag a \<noteq> 0"
  unfolding f64_class_fields(1,3) isNaNF64UI_int by blast

theorem f32_to_f64_refines: "f32_to_f64 a st = f32_to_f64_spec a st"
proof (cases a rule: f32_class_cases1)
  case nan
  then have "expF32UI a = 255" "fracF32UI a \<noteq> 0" by (simp_all add: isNaNF32UI_int)
  with nan quiet_bit32 [OF nan] show ?thesis
    by (simp add: f32_to_f64_def f32_to_f64_spec_def softfloat_commonNaNToF64UI_def)
next
  case inf
  then have "expF32UI a = 255" "fracF32UI a = 0" by (simp_all add: f32_class_fields(1))
  with inf show ?thesis by (simp add: f32_to_f64_def f32_to_f64_spec_def)
next
  case zero
  then have "expF32UI a = 0" "fracF32UI a = 0" by (simp_all add: f32_class_fields(4))
  moreover from this have "\<not> isNaNF32UI a" "\<not> f32_isInf a" by (simp_all add: f32_class_fields(1) isNaNF32UI_int)
  ultimately show ?thesis using zero by (simp add: f32_to_f64_def f32_to_f64_spec_def v32.val_zero_iff)
next
  case main
  have fin: "expF32UI a \<noteq> 255" "\<not> (expF32UI a = 0 \<and> fracF32UI a = 0)" using main by (simp_all add: f32_class_fields)
  have spec: "f32_to_f64_spec a st = f64_round st (signF32UI a) (f32_abs a)"
    using main f32_finite_not [OF main(1)]
    by (simp add: f32_to_f64_spec_def v32.val_zero_iff v32.abs_val f32_abs_def)
  show ?thesis
  proof (cases "expF32UI a = 0")
    case True
    then obtain k where k: "softfloat_normSubnormalF32Sig (fracF32UI a) = (1 - int k, push_bit k (fracF32UI a))"
      "uint (push_bit k (fracF32UI a)) = uint (fracF32UI a) * 2 ^ k"
      "2 ^ 23 \<le> uint (fracF32UI a) * 2 ^ k" "uint (fracF32UI a) * 2 ^ k < 2 ^ 24" "1 \<le> k" "k \<le> 23"
      using normSubnormalF32Sig_value fracF32UI_bounds(2) fin by metis
    define sig where "sig = push_bit 29 (ucast (push_bit k (fracF32UI a)) :: u64)"
    have sig: "uint sig = uint (fracF32UI a) * 2 ^ k * 2 ^ 29"
      unfolding sig_def using k(2,4) by (subst uint_push_bit_small) simp_all
    have "f32_to_f64 a st = (packToF64UI (signF32UI a) (896 - int k) sig, st)"
      using True fin k(1) by (simp add: f32_to_f64_def sig_def)
    also have "\<dots> = f64_round st (signF32UI a) (of_int (uint sig) * 2 powi (896 - int k - 1074))"
      by (rule f64_pack_exact) (use k in \<open>simp_all add: sig\<close>)
    also have "of_int (uint sig) * 2 powi (896 - int k - 1074) = f32_abs a"
      using True unfolding sig by (simp add: f32_abs_fields powi_diff power_int_minus)
    finally show ?thesis unfolding spec .
  next
    case False
    define sig where "sig = push_bit 29 (ucast (fracF32UI a) :: u64)"
    have sig: "uint sig = uint (fracF32UI a) * 2 ^ 29"
      unfolding sig_def using fracF32UI_bounds [of a] by (subst uint_push_bit_small) simp_all
    have "f32_to_f64 a st = (packToF64UI (signF32UI a) (expF32UI a + 0x380) sig, st)"
      using False fin by (simp add: f32_to_f64_def sig_def)
    also have "\<dots> = f64_round st (signF32UI a) (of_int (2 ^ 52 + uint sig) * 2 powi (expF32UI a + 0x380 - 1075))"
      using fracF32UI_bounds [of a] expF32UI_bounds [of a] by (intro f64_pack_normal) (simp_all add: sig)
    also have "of_int (2 ^ 52 + uint sig) * 2 powi (expF32UI a + 0x380 - 1075) = f32_abs a"
    proof -
      have "real_of_int (2 ^ 52 + uint sig) = of_int (2 ^ 23 + uint (fracF32UI a)) * 2 ^ 29" unfolding sig by simp
      then show ?thesis using False by (simp add: f32_abs_fields powi_diff powi_add)
    qed
    finally show ?thesis unfolding spec .
  qed
qed

text \<open>Below half the smallest subnormal number all values round alike.\<close>

lemma rnd_small:
  assumes "0 < x" "x < 1 / 2"
  shows "rnd rm s x = of_bool (rm = (if s then softfloat_round_min else softfloat_round_max))"
proof -
  have "\<lfloor>x\<rfloor> = 0" "\<lfloor>x + 1 / 2\<rfloor> = 0" "\<lceil>x\<rceil> = 1"
    using assms by (auto simp: floor_eq_iff ceiling_eq_iff)
  then show ?thesis
    using assms unfolding rnd_def rne_def Let_def
    by (auto simp: softfloat_round_near_even_def softfloat_round_near_maxMag_def softfloat_round_min_def softfloat_round_max_def)
qed

lemma f32_round_tiny:
  assumes "0 < v" "v < 2 powi (- 150)"
  shows "f32_round st s v =
    (word_of_int (of_bool s * 2 ^ 31 + of_bool (softfloat_roundingMode st = (if s then softfloat_round_min else softfloat_round_max))),
     softfloat_raiseFlags (softfloat_flag_underflow OR softfloat_flag_inexact) st)"
proof -
  define rm where "rm = softfloat_roundingMode st"
  define away where "away = (rm = (if s then softfloat_round_min else softfloat_round_max))"
  have lg: "\<lfloor>log 2 v\<rfloor> < - 150" by (rule log2_le [OF assms])
  then have ex: "fp_exp 127 v = - 126" by (simp add: fp_exp_def)
  have "v * 2 powi 149 < 2 powi (- 150) * 2 powi 149" using assms(2) by simp
  then have x: "0 < v * 2 powi 149" "v * 2 powi 149 < 1 / 2"
    using assms(1) unfolding powi_add [symmetric] by (simp_all add: power_int_minus)
  have r: "rnd rm s (v * 2 powi 149) = of_bool away"
    unfolding away_def by (rule rnd_small [OF x])
  have bits: "fp_bits 23 127 rm s v = of_bool away"
    unfolding fp_bits_def fp_sig_def ex using r by simp
  have mag: "fp_mag 23 127 (of_bool away) \<noteq> v"
    using assms powi_mono [of "- 150" "- 149"] by (auto simp: fp_mag_def of_bool_def)
  have tiny: "fp_tiny 23 127 before rm s v" for before
  proof -
    let ?r = "rnd rm s (v * 2 powi (int 23 - \<lfloor>log 2 v\<rfloor>))"
    have "v * 2 powi (int 23 - \<lfloor>log 2 v\<rfloor>) < 2 powi (\<lfloor>log 2 v\<rfloor> + 1) * 2 powi (int 23 - \<lfloor>log 2 v\<rfloor>)"
      using log2_bounds(2) [OF assms(1)] by simp
    also have "\<dots> = of_int (2 ^ 24)" unfolding powi_add [symmetric] by simp
    finally have "?r \<le> 2 ^ 24" using rnd_floor_ceiling(2) [of rm s "v * 2 powi (int 23 - \<lfloor>log 2 v\<rfloor>)"]
      by (meson ceiling_le_iff less_imp_le order_trans)
    then have "real_of_int ?r \<le> of_int (2 ^ 24)" unfolding of_int_le_iff .
    then have "real_of_int ?r * 2 powi (\<lfloor>log 2 v\<rfloor> - int 23) \<le> of_int (2 ^ 24) * 2 powi (\<lfloor>log 2 v\<rfloor> - int 23)"
      by (intro mult_right_mono) (simp_all add: less_imp_le)
    also have "\<dots> = 2 powi (int 24 + (\<lfloor>log 2 v\<rfloor> - int 23))" unfolding powi_add power_int_of_nat by simp
    also have "\<dots> < 2 powi (1 - 127)" unfolding powi_less_iff using lg by linarith
    finally show ?thesis using assms(2) powi_strict_mono [of "- 150" "1 - 127"] unfolding fp_tiny_def by auto
  qed
  have "(of_bool away :: int) \<le> 1" by simp
  then show ?thesis
    unfolding f32_round_def fp_round_mag_def fp_round_flags_def Let_def rm_def [symmetric] bits fp_inexact_def
    using mag tiny by (simp add: away_def)
qed

theorem f64_to_f32_refines: "f64_to_f32 a st = f64_to_f32_spec a st"
proof (cases a rule: f64_class_cases1)
  case nan
  then have "expF64UI a = 2047" "fracF64UI a \<noteq> 0" by (simp_all add: isNaNF64UI_int)
  with nan quiet_bit64 [OF nan] show ?thesis
    by (simp add: f64_to_f32_def f64_to_f32_spec_def softfloat_commonNaNToF32UI_def)
next
  case inf
  then have "expF64UI a = 2047" "fracF64UI a = 0" by (simp_all add: f64_class_fields(1))
  with inf show ?thesis by (simp add: f64_to_f32_def f64_to_f32_spec_def)
next
  case zero
  then have z: "expF64UI a = 0" "fracF64UI a = 0" by (simp_all add: f64_class_fields(4))
  moreover from this have "\<not> isNaNF64UI a" "\<not> f64_isInf a" by (simp_all add: f64_class_fields(1) isNaNF64UI_int)
  moreover have "softfloat_shortShiftRightJam64 0 22 = 0" by code_simp
  ultimately show ?thesis using zero by (simp add: f64_to_f32_def f64_to_f32_spec_def v64.val_zero_iff)
next
  case main
  have fin: "expF64UI a \<noteq> 2047" "\<not> (expF64UI a = 0 \<and> fracF64UI a = 0)" using main by (simp_all add: f64_class_fields)
  have spec: "f64_to_f32_spec a st = f32_round st (signF64UI a) (f64_abs a)"
    using main f64_finite_not [OF main(1)]
    by (simp add: f64_to_f32_spec_def v64.val_zero_iff v64.abs_val f64_abs_def)
  define n where "n = uint (fracF64UI a)"
  define sig32 where "sig32 = (ucast (softfloat_shortShiftRightJam64 (fracF64UI a) 22) :: u32)"
  have n: "0 \<le> n" "n < 2 ^ 52" using fracF64UI_bounds [of a] by (simp_all add: n_def)
  have j: "0 \<le> jam n 22" "jam n 22 < 2 ^ 30"
    using jam_even_multiple(1) [of n 22 "2 ^ 29"] n by (simp_all add: jam_def)
  have u: "uint sig32 = jam n 22"
    using j unfolding sig32_def uint_ucast_64_32 shortShiftRightJam64_correct n_def by simp
  have o: "uint (sig32 OR 0x40000000) = jam (n + 2 ^ 52) 22"
  proof -
    have "uint (sig32 OR 0x40000000) = jam n 22 + 2 ^ 30"
      using int_or_high [of "jam n 22" 30] j by (simp add: unsigned_or_eq u)
    also have "\<dots> = jam (n + 2 ^ 30 * 2 ^ 22) 22"
      unfolding jam_def mod_mult_self1 by (subst div_mult_self1) simp_all
    finally show ?thesis by simp
  qed
  have nz: "word_of_int (expF64UI a) OR sig32 \<noteq> 0"
  proof (cases "expF64UI a = 0")
    case True
    then have "n \<noteq> 0" using fin by (simp add: n_def uint_0_iff)
    then have "jam n 22 \<noteq> 0" using jam_even_multiple(2) [of n 22 0] by simp
    then show ?thesis using True u by auto
  next
    case False
    have "uint (word_of_int (expF64UI a) :: u32) = expF64UI a"
      using expF64UI_bounds [of a] by (simp add: uint_word_of_int)
    then show ?thesis using False by (auto simp: or_eq_0_iff)
  qed
  have code: "f64_to_f32 a st = softfloat_roundPackToF32 (signF64UI a) (expF64UI a - 0x381) (sig32 OR 0x40000000) st"
    using fin nz unfolding f64_to_f32_def Let_def sig32_def [symmetric] by simp
  have "cell 6 (of_int (jam (n + 2 ^ 52) 22)) (of_int (n + 2 ^ 52) / 2 ^ 22)" by (rule cell_jam_int) simp
  then have "softfloat_roundPackToF32 (signF64UI a) (expF64UI a - 0x381) (sig32 OR 0x40000000) st =
    f32_round st (signF64UI a) (fp_scaled 23 127 6 (expF64UI a - 0x381) (of_int (n + 2 ^ 52) / 2 ^ 22))"
    using jam_range [of 30 22 "n + 2 ^ 52" 31] n expF64UI_bounds [of a]
    by (intro roundPackToF32_refines) (simp_all add: o)
  also have "fp_scaled 23 127 6 (expF64UI a - 0x381) (of_int (n + 2 ^ 52) / 2 ^ 22) =
      of_int (2 ^ 52 + n) * 2 powi (expF64UI a - 1075)"
    by (simp add: fp_scaled_def powi_diff add.commute)
  also have "f32_round st (signF64UI a) (of_int (2 ^ 52 + n) * 2 powi (expF64UI a - 1075)) = f32_round st (signF64UI a) (f64_abs a)"
  proof (cases "expF64UI a = 0")
    case True
    have z: "fracF64UI a \<noteq> 0" using True fin by simp
    then have "0 < n" unfolding n_def using word_zero_uint [of "fracF64UI a"] n(1) by (simp add: n_def order_less_le)
    then have "0 < f64_abs a" using True by (simp add: f64_abs_fields n_def)
    moreover have "f64_abs a < 2 powi (- 150)"
      using f64_tiny [OF True] powi_mono [of "- 900" "- 150"] by linarith
    moreover have "0 < real_of_int (2 ^ 52 + n) * 2 powi (- 1075)" using n(1) by simp
    moreover have "real_of_int (2 ^ 52 + n) * 2 powi (- 1075) < 2 powi (- 150)"
    proof -
      have "real_of_int (2 ^ 52 + n) < of_int (2 ^ 53)" unfolding of_int_less_iff using n(2) by simp
      then have "real_of_int (2 ^ 52 + n) * 2 powi (- 1075) < 2 ^ 53 * 2 powi (- 1075)" by simp
      also have "\<dots> = 2 powi (int 53 + - 1075)" unfolding powi_add power_int_of_nat ..
      also have "\<dots> < 2 powi (- 150)" by simp
      finally show ?thesis .
    qed
    ultimately show ?thesis using True by (simp add: f32_round_tiny)
  next
    case False
    then show ?thesis by (simp add: f64_abs_fields n_def)
  qed
  finally show ?thesis unfolding spec code .
qed

section \<open>Rounding to an integral value\<close>

lemma f32_round_state: "fst (f32_round st s v) = fst (f32_round st' s v)" if "softfloat_roundingMode st = softfloat_roundingMode st'"
  using that by (simp add: f32_round_def)

text \<open>The magnitude bits above the last integral bit carry over into the exponent.\<close>

lemma f32_integral_bits:
  assumes e: "127 \<le> expF32UI a" "expF32UI a < 150"
  defines "d \<equiv> nat (150 - expF32UI a)" and "n \<equiv> uint (f32_sig a)"
  shows "f32_abs a = of_int n / 2 ^ d" "1 \<le> d" "d \<le> 23" "2 ^ 23 \<le> n" "n < 2 ^ 24"
    "uint a = of_bool (signF32UI a) * 2 ^ 31 + (expF32UI a - 1) * 2 ^ 23 + n"
    "0 \<le> q \<Longrightarrow> 2 ^ 23 \<le> q * 2 ^ d \<Longrightarrow> q * 2 ^ d \<le> 2 ^ 24 \<Longrightarrow>
       f32_round st s (of_int q) = (word_of_int (of_bool s * 2 ^ 31 + (expF32UI a - 1) * 2 ^ 23 + q * 2 ^ d), st)"
proof -
  have d: "expF32UI a = 150 - int d" using e by (simp add: d_def)
  show "1 \<le> d" "d \<le> 23" using e by (simp_all add: d_def)
  show "f32_abs a = of_int n / 2 ^ d"
    using f32_fixed_value [of a 0 d] d e by (simp add: n_def)
  show n: "2 ^ 23 \<le> n" "n < 2 ^ 24" using f32_sig_bounds(1,2) [of a] e by (simp_all add: n_def)
  have "n = 2 ^ 23 + uint (fracF32UI a)"
    using e or_hidden32 [OF fracF32UI_bounds(2), of a] by (simp add: f32_sig_def n_def)
  then show "uint a = of_bool (signF32UI a) * 2 ^ 31 + (expF32UI a - 1) * 2 ^ 23 + n"
    using f32_sign_mag [of a] by (simp add: f32_mag_fields)
  assume q: "0 \<le> q" "2 ^ 23 \<le> q * 2 ^ d" "q * 2 ^ d \<le> 2 ^ 24"
  let ?m = "(expF32UI a - 1) * 2 ^ 23 + q * 2 ^ d"
  have "(expF32UI a - 1) * 2 ^ 23 \<le> 148 * 2 ^ 23" "0 \<le> (expF32UI a - 1) * 2 ^ 23" using e by simp_all
  moreover have "8388608 \<le> q * 2 ^ d" "q * 2 ^ d \<le> 16777216" using q(2,3) by simp_all
  ultimately have "0 < ?m" "?m < 0x7F800000" by simp_all
  moreover have "fp_mag 23 127 ?m = of_int q"
    using b32.mag_combine [of "expF32UI a - 1" "q * 2 ^ d"] q e d by (simp add: power_int_minus)
  ultimately show "f32_round st s (of_int q) = (word_of_int (of_bool s * 2 ^ 31 + (expF32UI a - 1) * 2 ^ 23 + q * 2 ^ d), st)"
    using f32_round_exact [of ?m st s] by (simp add: add.assoc)
qed

lemma uint_clear_low:
  fixes w :: "'a::len word"
  assumes "d < LENGTH('a)"
  shows "uint (w AND NOT (push_bit d 1 - 1)) = uint w div 2 ^ d * 2 ^ d"
proof -
  have "(push_bit d 1 - 1 :: 'a word) = mask d" by (simp add: mask_eq_exp_minus_1 push_bit_eq_mult)
  then have "w AND NOT (push_bit d 1 - 1) = push_bit d (drop_bit d w)"
    by (auto simp: bit_eq_iff bit_push_bit_iff bit_drop_bit_eq bit_and_iff bit_not_iff bit_mask_iff)
  then show ?thesis by (simp add: uint_push_drop)
qed

lemma uint_clear_bit:
  fixes w :: "'a::len word"
  assumes "d < LENGTH('a)"
  shows "uint (w AND NOT (push_bit d 1)) = uint w - of_bool (odd (uint w div 2 ^ d)) * 2 ^ d"
proof -
  have b: "bit w d \<longleftrightarrow> odd (uint w div 2 ^ d)"
    unfolding bit_iff_odd [symmetric] bit_uint_iff using assms by simp
  have "w AND NOT (push_bit d 1) = unset_bit d w" by (simp add: unset_bit_eq_and_not)
  then have w: "w AND NOT (push_bit d 1) = w - of_bool (odd (uint w div 2 ^ d)) * 2 ^ d"
    by (simp add: unset_bit_eq b)
  show ?thesis
  proof (cases "odd (uint w div 2 ^ d)")
    case True
    then have "uint w div 2 ^ d \<noteq> 0" by (metis even_zero)
    moreover have "0 \<le> uint w div 2 ^ d" by (simp add: pos_imp_zdiv_nonneg_iff)
    ultimately have "1 \<le> uint w div 2 ^ d" by linarith
    then have "1 * 2 ^ d \<le> uint w div 2 ^ d * 2 ^ d" by (intro mult_right_mono) simp_all
    moreover have "uint w div 2 ^ d * 2 ^ d + uint w mod 2 ^ d = uint w" "0 \<le> uint w mod 2 ^ d"
      by (rule div_mult_mod_eq, simp)
    ultimately have "uint (2 ^ d :: 'a word) \<le> uint w" unfolding uint_2p_small [OF assms] by linarith
    then have "uint (w - 2 ^ d) = uint w - uint (2 ^ d :: 'a word)" by (rule uint_sub_lem [THEN iffD1])
    then show ?thesis using True assms unfolding w by (simp add: uint_2p_small)
  qed (unfold w, simp)
qed

text \<open>Adding the rounding increment and clearing the low bits rounds to a multiple of \<open>2 ^ d\<close>.\<close>

lemma rm_cases:
  assumes "uint (rm :: u8) < 5"
  obtains "rm = softfloat_round_near_even" | "rm = softfloat_round_minMag" | "rm = softfloat_round_min"
    | "rm = softfloat_round_max" | "rm = softfloat_round_near_maxMag"
proof -
  have "uint rm = 0 \<or> uint rm = 1 \<or> uint rm = 2 \<or> uint rm = 3 \<or> uint rm = 4"
    using assms uint_ge_0 [of rm] by linarith
  then show ?thesis
    using that unfolding softfloat_round_near_even_def softfloat_round_near_maxMag_def softfloat_round_min_def
      softfloat_round_max_def softfloat_round_minMag_def word_uint_eq_iff by auto
qed

definition integral_word :: "nat \<Rightarrow> u8 \<Rightarrow> bool \<Rightarrow> 'w::len word \<Rightarrow> 'w word" where
  "integral_word d rm s a =
    (let lb = push_bit d 1; mask = lb - 1
     in (if rm = softfloat_round_near_maxMag then a + drop_bit 1 lb
         else if rm = softfloat_round_near_even
         then let z = a + drop_bit 1 lb in if z AND mask = 0 then z AND NOT lb else z
         else if rm \<noteq> softfloat_round_minMag
         then if s \<noteq> (rm = softfloat_round_max) then a + mask else a
         else a) AND NOT mask)"

lemma uint_integral_word:
  fixes a :: "'w::len word"
  assumes d: "d = Suc h" "d < LENGTH('w)" and a: "uint a = G * 2 ^ d + n" "even G" "0 \<le> n" "G * 2 ^ d + n + 2 ^ d \<le> 2 ^ LENGTH('w)"
    and rm: "uint rm < 5"
  shows "uint (integral_word d rm s a) = (G + round_int d rm s n) * 2 ^ d"
proof -
  let ?lb = "push_bit d 1 :: 'w word"
  have pd: "(2::int) ^ d = 2 * 2 ^ h" using d(1) by simp
  have h: "(2::int) ^ h < 2 ^ d" using d(1) by simp
  have p1: "push_bit d 1 = (2 ^ d :: 'w word)" by (simp add: push_bit_eq_mult)
  have p2: "drop_bit 1 (2 ^ d :: 'w word) = 2 ^ h"
  proof -
    have "uint (drop_bit 1 (2 ^ d :: 'w word)) = 2 ^ d div 2"
      unfolding uint_drop_bit_div uint_2p_small [OF d(2)] by simp
    also have "\<dots> = uint (2 ^ h :: 'w word)" using d by (simp add: uint_2p_small)
    finally show ?thesis unfolding word_uint_eq_iff .
  qed
  have p3: "uint (2 ^ d - 1 :: 'w word) = 2 ^ d - 1"
    using d(2) by (subst uint_sub_lem [THEN iffD1]) (simp_all add: uint_2p_small)
  have lb: "uint ?lb = 2 ^ d" "uint (drop_bit 1 ?lb) = 2 ^ h" "uint (?lb - 1) = 2 ^ d - 1"
    unfolding p1 p2 p3 by (rule uint_2p_small [OF d(2)], rule uint_2p_small, use d in simp, rule refl)
  have plus: "uint (a + w) = G * 2 ^ d + (n + uint w)" if "uint w < 2 ^ d" for w
    using that a(1,4) by (subst uint_add_lem [THEN iffD1]) auto
  have half: "uint (a + drop_bit 1 ?lb) = G * 2 ^ d + (n + 2 ^ h)" and away: "uint (a + (?lb - 1)) = G * 2 ^ d + (n + (2 ^ d - 1))"
    using plus [of "drop_bit 1 ?lb"] plus [of "?lb - 1"] h unfolding lb by simp_all
  have fl: "(G * 2 ^ d + m) div 2 ^ d = G + m div 2 ^ d" "(G * 2 ^ d + m) mod 2 ^ d = m mod 2 ^ d" for m
    by (simp_all add: add.commute)
  note cl = uint_clear_low [OF d(2)]
  note modes = softfloat_round_near_even_def softfloat_round_near_maxMag_def softfloat_round_min_def
      softfloat_round_max_def softfloat_round_minMag_def
  show ?thesis using rm
  proof (cases rule: rm_cases)
    case 1
    define t where "t = (n + 2 ^ h) div 2 ^ d"
    let ?z = "a + drop_bit 1 ?lb"
    have z: "uint ?z = G * 2 ^ d + (n + 2 ^ h)" by (rule half)
    have zm: "?z AND (?lb - 1) = 0 \<longleftrightarrow> n mod 2 ^ d = 2 ^ h"
    proof -
      have "(?lb - 1) = mask d" by (simp add: mask_eq_exp_minus_1 push_bit_eq_mult)
      then have "?z AND (?lb - 1) = 0 \<longleftrightarrow> (n + 2 ^ h) mod 2 ^ d = 0"
        by (simp only: word_zero_uint uint_and_mask z fl)
      also have "\<dots> \<longleftrightarrow> (n mod 2 ^ d + 2 ^ h) mod 2 ^ d = 0" by (simp only: mod_add_left_eq)
      also have "\<dots> \<longleftrightarrow> n mod 2 ^ d + 2 ^ h = 0 \<or> n mod 2 ^ d + 2 ^ h = 2 ^ d"
      proof (rule mod_zero_cases)
        have "0 \<le> n mod 2 ^ d" "n mod 2 ^ d < 2 ^ d" by simp_all
        then show "0 \<le> n mod 2 ^ d + 2 ^ h" "n mod 2 ^ d + 2 ^ h < 2 * 2 ^ d" using h zero_less_power [of "2::int" h] by linarith+
      qed
      also have "\<dots> \<longleftrightarrow> n mod 2 ^ d = 2 ^ h"
      proof -
        define m where "m = n mod 2 ^ d"
        have "0 \<le> m" by (simp add: m_def)
        then show ?thesis unfolding m_def [symmetric] unfolding pd using zero_less_power [of "2::int" h] by (auto simp: add_nonneg_eq_0_iff)
      qed
      finally show ?thesis .
    qed
    have r: "round_int d rm s n = t - of_bool (odd t \<and> n mod 2 ^ d = 2 ^ h)"
      using 1 d(1) by (simp add: round_int_def round_incr_def Let_def t_def)
    have od: "odd (uint ?z div 2 ^ d) \<longleftrightarrow> odd t" unfolding z fl(1) t_def using a(2) by simp
    show ?thesis
    proof (cases "n mod 2 ^ d = 2 ^ h")
      case True
      have "integral_word d rm s a = (?z AND NOT ?lb) AND NOT (?lb - 1)"
        using 1 True zm by (simp add: integral_word_def Let_def modes)
      then have "uint (integral_word d rm s a) = (uint ?z - of_bool (odd t) * 2 ^ d) div 2 ^ d * 2 ^ d"
        by (simp only: cl uint_clear_bit [OF d(2)] od)
      also have "uint ?z - of_bool (odd t) * 2 ^ d = G * 2 ^ d + (n + 2 ^ h + (- of_bool (odd t)) * 2 ^ d)"
        unfolding z by simp
      also have "\<dots> div 2 ^ d = G + (t - of_bool (odd t))"
        unfolding fl(1) t_def by (subst div_mult_self1) simp_all
      finally show ?thesis using r True by simp
    next
      case False
      have "integral_word d rm s a = ?z AND NOT (?lb - 1)"
        using 1 False zm by (simp add: integral_word_def Let_def modes)
      then show ?thesis using False by (simp only: cl z fl(1) r t_def [symmetric]) simp
    qed
  next
    case 2
    then have "integral_word d rm s a = a AND NOT (?lb - 1)" by (simp add: integral_word_def Let_def modes)
    then show ?thesis using 2 by (simp only: cl a(1) fl(1)) (simp add: round_int_def round_incr_def modes)
  next
    case 3
    then have "integral_word d rm s a = (if s then a + (?lb - 1) else a) AND NOT (?lb - 1)"
      by (simp add: integral_word_def Let_def modes)
    then show ?thesis using 3 by (cases s) (simp_all only: if_True if_False away cl a(1) fl(1), simp_all add: round_int_def round_incr_def modes)
  next
    case 4
    then have "integral_word d rm s a = (if s then a else a + (?lb - 1)) AND NOT (?lb - 1)"
      by (simp add: integral_word_def Let_def modes)
    then show ?thesis using 4 by (cases s) (simp_all only: if_True if_False away cl a(1) fl(1), simp_all add: round_int_def round_incr_def modes)
  next
    case 5
    then have e: "integral_word d rm s a = (a + drop_bit 1 ?lb) AND NOT (?lb - 1)"
      by (simp add: integral_word_def Let_def modes)
    show ?thesis unfolding e cl half fl(1) using 5 d(1) by (simp add: round_int_def round_incr_def modes)
  qed
qed

lemma round_int_cover:
  assumes "1 \<le> d" "d \<le> K" "2 ^ K \<le> n" "n \<le> 2 ^ Suc K"
  shows "2 ^ K \<le> round_int d rm s n * 2 ^ d" "round_int d rm s n * 2 ^ d \<le> 2 ^ Suc K"
proof -
  obtain h where h: "d = Suc h" using assms(1) by (cases d) auto
  have p: "(2::int) ^ K = 2 ^ (K - d) * 2 ^ d" "(2::int) ^ Suc K = 2 ^ (Suc K - d) * 2 ^ d"
    using assms(2) by (simp_all flip: power_add)
  have "real_of_int (2 ^ (K - d)) \<le> of_int n / 2 ^ d"
  proof -
    have "real_of_int (2 ^ (K - d) * 2 ^ d) \<le> of_int n" unfolding of_int_le_iff p(1) [symmetric] by (rule assms(3))
    then show ?thesis by (simp add: field_simps)
  qed
  then have "2 ^ (K - d) \<le> rnd rm s (of_int n / 2 ^ d)" by (rule rnd_mono_int)
  then show "2 ^ K \<le> round_int d rm s n * 2 ^ d" unfolding p h rnd_round_int by simp
  have "of_int n / 2 ^ d \<le> real_of_int (2 ^ (Suc K - d))"
  proof -
    have "of_int n \<le> real_of_int (2 ^ (Suc K - d) * 2 ^ d)" unfolding of_int_le_iff p(2) [symmetric] by (rule assms(4))
    then show ?thesis by (simp add: field_simps)
  qed
  then have "rnd rm s (of_int n / 2 ^ d) \<le> 2 ^ (Suc K - d)"
    using rnd_floor_ceiling(2) [of rm s "of_int n / 2 ^ d"] by (meson ceiling_le_iff order_trans)
  then show "round_int d rm s n * 2 ^ d \<le> 2 ^ Suc K" unfolding p h rnd_round_int by simp
qed

lemma f32_self:
  assumes "f32_finite a" "f32_mag a \<noteq> 0"
  shows "f32_round st (signF32UI a) (f32_abs a) = (a, st)"
proof -
  have "0 < f32_mag a" "f32_mag a < 0x7F800000"
    using assms f32_mag_bounds [of a] by (simp_all add: f32_finite_def)
  from f32_round_exact [OF this, of st "signF32UI a"] show ?thesis
    unfolding f32_abs_def f32_sign_mag [symmetric] by simp
qed

lemma f32_zero_bits: "f32_mag a = 0 \<Longrightarrow> packToF32UI (signF32UI a) 0 0 = a"
  using f32_sign_mag [of a] unfolding word_uint_eq_iff packToF32UI_int by (cases "signF32UI a") simp_all

lemma f32_sign_only: "a AND packToF32UI True 0 0 = packToF32UI (signF32UI a) 0 0"
proof -
  have p: "packToF32UI True 0 0 = (2 ^ 31 :: u32)" "packToF32UI False 0 0 = 0" by (simp_all add: packToF32UI_def)
  have "a AND 2 ^ 31 = (if signF32UI a then 2 ^ 31 else 0)"
  proof (cases "signF32UI a")
    case True
    then have "bit a 31"
      using high_bit32 [of a] and_exp_eq_0_iff_not_bit [of a 31] by (simp add: signF32UI_int)
    then show ?thesis using True by (intro bit_eqI) (auto simp only: bit_and_iff bit_exp_iff if_True)
  qed (use high_bit32 [of a] in \<open>simp add: signF32UI_int\<close>)
  then show ?thesis unfolding p(1) using p by simp
qed

lemma f32_or_one: "packToF32UI s 0 0 OR packToF32UI False 0x7F 0 = packToF32UI s 0x7F 0"
  by (cases s) (simp_all add: packToF32UI_def)

lemma f32_push_zero: "push_bit 1 a = 0 \<longleftrightarrow> f32_mag a = 0"
proof -
  have "uint (push_bit 1 a) = uint a mod 2 ^ 31 * 2 ^ 1" using uint_push_low [of 31 a] by simp
  then show ?thesis unfolding word_zero_uint f32_mag_def by simp
qed

lemma f32_round_one: "fst (f32_round st s 1) = packToF32UI s 0x7F 0"
proof -
  have "fp_mag 23 127 (127 * 2 ^ 23) = 1" by (simp add: fp_mag_def power_int_minus)
  then show ?thesis using f32_round_exact [of "127 * 2 ^ 23" st s] by (simp add: packToF32UI_word)
qed

text \<open>Between zero and one only the comparison with one half matters.\<close>

lemma rnd_unit:
  assumes "0 < x" "x < 1" "uint rm < 5"
  shows "rnd rm s x = of_bool (if rm = softfloat_round_near_even then 1 / 2 < x
    else if rm = softfloat_round_near_maxMag then 1 / 2 \<le> x
    else if rm = softfloat_round_min then s else if rm = softfloat_round_max then \<not> s else False)"
proof -
  have fl: "\<lfloor>x\<rfloor> = 0" "\<lfloor>x + 1 / 2\<rfloor> = of_bool (1 / 2 \<le> x)" "\<lceil>x\<rceil> = 1"
    using assms(1,2) by (auto simp: floor_eq_iff ceiling_eq_iff)
  from assms(3) show ?thesis
    by (cases rule: rm_cases)
      (use assms(1,2) in \<open>auto simp: rnd_def rne_def Let_def fl softfloat_round_near_even_def softfloat_round_near_maxMag_def
        softfloat_round_min_def softfloat_round_max_def softfloat_round_minMag_def\<close>)
qed

lemma f32_half:
  assumes "expF32UI a \<le> 126"
  shows "1 / 2 \<le> f32_abs a \<longleftrightarrow> expF32UI a = 126" "1 / 2 < f32_abs a \<longleftrightarrow> expF32UI a = 126 \<and> fracF32UI a \<noteq> 0"
proof -
  have *: "(1 / 2 \<le> f32_abs a \<longleftrightarrow> expF32UI a = 126) \<and> (1 / 2 < f32_abs a \<longleftrightarrow> expF32UI a = 126 \<and> fracF32UI a \<noteq> 0)"
  proof (cases "expF32UI a = 126")
    case True
    have "f32_abs a = 1 / 2 + of_int (uint (fracF32UI a)) / 2 ^ 24"
      using True by (simp add: f32_abs_fields power_int_minus field_simps)
    then show ?thesis using True by (simp add: word_zero_uint order_less_le)
  next
    case False
    have "f32_abs a < 1 / 2"
    proof (cases "expF32UI a = 0")
      case True
      then show ?thesis using f32_tiny [OF True] powi_mono [of "- 100" "- 1"] by (simp add: power_int_minus)
    next
      case nz: False
      have "real_of_int (uint (f32_sig a)) < of_int (2 ^ 24)" unfolding of_int_less_iff by (rule f32_sig_bounds)
      then have "f32_abs a < 2 ^ 24 * 2 powi (expF32UI a - 150)" unfolding f32_sig_bounds(3) [OF nz] by simp
      also have "\<dots> = 2 powi (int 24 + (expF32UI a - 150))" unfolding powi_add power_int_of_nat ..
      also have "\<dots> \<le> 2 powi (- 1)" unfolding powi_le_iff using assms False by simp
      finally show ?thesis by (simp add: power_int_minus)
    qed
    then show ?thesis using False by simp
  qed
  then show "1 / 2 \<le> f32_abs a \<longleftrightarrow> expF32UI a = 126" "1 / 2 < f32_abs a \<longleftrightarrow> expF32UI a = 126 \<and> fracF32UI a \<noteq> 0"
    by blast+
qed

theorem f32_roundToInt_refines:
  assumes rm: "uint rm < 5"
  shows "f32_roundToInt a rm exact st = f32_roundToInt_spec a rm exact st"
proof -
  have abs: "\<bar>f32_val a\<bar> = f32_abs a" by (simp add: v32.abs_val f32_abs_def)
  consider (zero) "f32_mag a = 0" | (small) "expF32UI a \<le> 126" "f32_mag a \<noteq> 0"
    | (middle) "127 \<le> expF32UI a" "expF32UI a < 150" | (large) "150 \<le> expF32UI a" by linarith
  then show ?thesis
  proof cases
    case zero
    then have "expF32UI a = 0" "f32_abs a = 0" by (simp_all add: f32_class_fields(4) f32_less_one(3))
    moreover from this have "\<not> isNaNF32UI a" "\<not> f32_isInf a" by (simp_all add: isNaNF32UI_int f32_class_fields)
    ultimately show ?thesis
      using zero rnd_of_int [of rm "signF32UI a" 0] f32_zero_bits [OF zero]
      unfolding f32_roundToInt_def f32_push_zero Let_def by (simp add: f32_roundToInt_spec_def abs)
  next
    case small
    have "0 < f32_abs a" "f32_abs a < 1"
      using f32_less_one(1) [OF small(1)] f32_less_one(2,3) [of a] small(2) by (auto simp: order_less_le)
    note r = rnd_unit [OF this rm, of "signF32UI a", unfolded f32_half [OF small(1)]]
    have nn: "\<not> isNaNF32UI a" "\<not> f32_isInf a" using small by (simp_all add: isNaNF32UI_int f32_class_fields)
    have ne: "f32_abs a \<noteq> 0" "f32_abs a \<noteq> 1"
      using f32_less_one(1) [OF small(1)] f32_less_one(3) [of a] small(2) by auto
    have z: "packToF32UI True 0 0 \<noteq> 0" "packToF32UI False 0 0 = 0"
      by (simp_all add: packToF32UI_def)
    show ?thesis
      using rm
      unfolding f32_roundToInt_def f32_push_zero Let_def f32_sign_only f32_or_one
        f32_roundToInt_spec_def abs r if_not_P [OF nn(1)] if_not_P [OF nn(2)]
      by (cases rule: rm_cases) (use small in \<open>auto simp: f32_round_one ne z softfloat_round_near_even_def
        softfloat_round_near_maxMag_def softfloat_round_min_def softfloat_round_max_def softfloat_round_minMag_def\<close>)
  next
    case middle
    define d n H where "d = nat (150 - expF32UI a)" and "n = uint (f32_sig a)"
      and "H = of_bool (signF32UI a) * 2 ^ 31 + (expF32UI a - 1) * 2 ^ 23"
    note b = f32_integral_bits [OF middle, folded d_def n_def]
    define q where "q = round_int d rm (signF32UI a) n"
    obtain h where h: "d = Suc h" using b(2) by (cases d) auto
    have r: "rnd rm (signF32UI a) (f32_abs a) = q" unfolding b(1) q_def h by (rule rnd_round_int)
    have cov: "2 ^ 23 \<le> q * 2 ^ d" "q * 2 ^ d \<le> 2 ^ 24"
      using round_int_cover [of d 23 n rm "signF32UI a"] b(2-5) by (simp_all add: q_def)
    then have q: "0 < q" using zero_less_mult_pos2 [of q "2 ^ d"] by simp
    define G where "G = of_bool (signF32UI a) * 2 ^ (31 - d) + (expF32UI a - 1) * 2 ^ (23 - d)"
    have "(2::int) ^ 31 = 2 ^ (31 - d) * 2 ^ d" "(2::int) ^ 23 = 2 ^ (23 - d) * 2 ^ d"
      using b(3) by (simp_all flip: power_add)
    then have H: "H = G * 2 ^ d" unfolding H_def G_def by (simp only: distrib_right mult.assoc)
    have "even G"
    proof (cases "d = 23")
      case True
      then have "expF32UI a = 127" using middle by (simp add: d_def)
      then show ?thesis using True by (simp add: G_def)
    qed (use b(3) in \<open>simp add: G_def\<close>)
    have "(2::int) ^ d \<le> 2 ^ 23" using b(3) by (intro power_increasing) simp_all
    moreover have "(expF32UI a - 1) * 2 ^ 23 \<le> 148 * 2 ^ 23" "of_bool (signF32UI a) \<le> (1::int)"
      using middle by simp_all
    ultimately have bd: "H + n + 2 ^ d \<le> 2 ^ 32" unfolding H_def using b(5) by simp
    have int: "uint (integral_word d rm (signF32UI a) a) = H + q * 2 ^ d"
      unfolding q_def H distrib_right [symmetric]
      by (rule uint_integral_word [OF h _ _ \<open>even G\<close> _ _ rm])
        (use b(3-6) bd in \<open>simp_all only: H [symmetric] H_def\<close>, simp_all)
    have code: "f32_roundToInt a rm exact st = (integral_word d rm (signF32UI a) a,
        if exact \<and> integral_word d rm (signF32UI a) a \<noteq> a then softfloat_raiseFlags softfloat_flag_inexact st else st)"
      using middle unfolding f32_roundToInt_def integral_word_def Let_def d_def by simp
    have ne: "integral_word d rm (signF32UI a) a \<noteq> a \<longleftrightarrow> of_int q \<noteq> f32_abs a"
    proof -
      have "integral_word d rm (signF32UI a) a \<noteq> a \<longleftrightarrow> q * 2 ^ d \<noteq> n"
        unfolding word_uint_eq_iff int b(6) H_def by simp
      also have "\<dots> \<longleftrightarrow> real_of_int (q * 2 ^ d) \<noteq> of_int n" unfolding of_int_eq_iff ..
      also have "\<dots> \<longleftrightarrow> of_int q \<noteq> f32_abs a" unfolding b(1) by (simp add: field_simps)
      finally show ?thesis .
    qed
    have "fst (f32_round st (signF32UI a) (of_int q)) = integral_word d rm (signF32UI a) a"
      using b(7) [where q = q and s = "signF32UI a" and st = st] q cov int unfolding H_def by (metis fst_conv less_imp_le word_of_int_uint)
    moreover have "\<not> isNaNF32UI a" "\<not> f32_isInf a" using middle by (simp_all add: isNaNF32UI_int f32_class_fields)
    ultimately show ?thesis
      using q unfolding code f32_roundToInt_spec_def Let_def abs r ne by simp
  next
    case large
    show ?thesis
    proof (cases "expF32UI a = 255")
      case True
      have "\<not> softfloat_isSigNaNF32UI 0" by (simp add: softfloat_isSigNaNF32UI_def)
      then show ?thesis
        using True by (simp add: f32_roundToInt_def f32_roundToInt_spec_def isNaNF32UI_int f32_class_fields(1) softfloat_propagateNaNF32UI_def)
    next
      case False
      have fin: "f32_finite a" "f32_mag a \<noteq> 0" using False large by (simp_all add: f32_class_fields)
      define k n where "k = nat (expF32UI a - 150)" and "n = uint (f32_sig a) * 2 ^ k"
      have k: "expF32UI a = 150 + int k" using large by (simp add: k_def)
      have v: "f32_abs a = of_int n" using f32_fixed_value [of a k 0] k by (simp add: n_def)
      then have "rnd rm (signF32UI a) (f32_abs a) = n" by simp
      moreover have "n \<noteq> 0" using v fin(2) f32_less_one(3) [of a] by auto
      ultimately show ?thesis
        using False large f32_finite_not [OF fin(1)] f32_self [OF fin, of st]
        by (simp add: f32_roundToInt_def f32_roundToInt_spec_def abs v)
    qed
  qed
qed

lemma f64_integral_bits:
  assumes e: "1023 \<le> expF64UI a" "expF64UI a < 1075"
  defines "d \<equiv> nat (1075 - expF64UI a)" and "n \<equiv> uint (f64_sig a)"
  shows "f64_abs a = of_int n / 2 ^ d" "1 \<le> d" "d \<le> 52" "2 ^ 52 \<le> n" "n < 2 ^ 53"
    "uint a = of_bool (signF64UI a) * 2 ^ 63 + (expF64UI a - 1) * 2 ^ 52 + n"
    "0 \<le> q \<Longrightarrow> 2 ^ 52 \<le> q * 2 ^ d \<Longrightarrow> q * 2 ^ d \<le> 2 ^ 53 \<Longrightarrow>
       f64_round st s (of_int q) = (word_of_int (of_bool s * 2 ^ 63 + (expF64UI a - 1) * 2 ^ 52 + q * 2 ^ d), st)"
proof -
  have d: "expF64UI a = 1075 - int d" using e by (simp add: d_def)
  show "1 \<le> d" "d \<le> 52" using e by (simp_all add: d_def)
  show "f64_abs a = of_int n / 2 ^ d"
    using f64_fixed_value [of a 0 d] d e by (simp add: n_def)
  show n: "2 ^ 52 \<le> n" "n < 2 ^ 53" using f64_sig_bounds(1,2) [of a] e by (simp_all add: n_def)
  have "n = 2 ^ 52 + uint (fracF64UI a)"
    using e or_hidden64 [OF fracF64UI_bounds(2), of a] by (simp add: f64_sig_def n_def)
  then show "uint a = of_bool (signF64UI a) * 2 ^ 63 + (expF64UI a - 1) * 2 ^ 52 + n"
    using f64_sign_mag [of a] by (simp add: f64_mag_fields)
  assume q: "0 \<le> q" "2 ^ 52 \<le> q * 2 ^ d" "q * 2 ^ d \<le> 2 ^ 53"
  let ?m = "(expF64UI a - 1) * 2 ^ 52 + q * 2 ^ d"
  have "(expF64UI a - 1) * 2 ^ 52 \<le> 1073 * 2 ^ 52" "0 \<le> (expF64UI a - 1) * 2 ^ 52" using e by simp_all
  moreover have "4503599627370496 \<le> q * 2 ^ d" "q * 2 ^ d \<le> 9007199254740992" using q(2,3) by simp_all
  ultimately have "0 < ?m" "?m < 0x7FF0000000000000" by simp_all
  moreover have "fp_mag 52 1023 ?m = of_int q"
    using b64.mag_combine [of "expF64UI a - 1" "q * 2 ^ d"] q e d by (simp add: power_int_minus)
  ultimately show "f64_round st s (of_int q) = (word_of_int (of_bool s * 2 ^ 63 + (expF64UI a - 1) * 2 ^ 52 + q * 2 ^ d), st)"
    using f64_round_exact [of ?m st s] by (simp add: add.assoc)
qed

lemma f64_self:
  assumes "f64_finite a" "f64_mag a \<noteq> 0"
  shows "f64_round st (signF64UI a) (f64_abs a) = (a, st)"
proof -
  have "0 < f64_mag a" "f64_mag a < 0x7FF0000000000000"
    using assms f64_mag_bounds [of a] by (simp_all add: f64_finite_def)
  from f64_round_exact [OF this, of st "signF64UI a"] show ?thesis
    unfolding f64_abs_def f64_sign_mag [symmetric] by simp
qed

lemma f64_zero_bits: "f64_mag a = 0 \<Longrightarrow> packToF64UI (signF64UI a) 0 0 = a"
  using f64_sign_mag [of a] unfolding word_uint_eq_iff packToF64UI_int by (cases "signF64UI a") simp_all

lemma f64_sign_only: "a AND packToF64UI True 0 0 = packToF64UI (signF64UI a) 0 0"
proof -
  have p: "packToF64UI True 0 0 = (2 ^ 63 :: u64)" "packToF64UI False 0 0 = 0" by (simp_all add: packToF64UI_def)
  have "a AND 2 ^ 63 = (if signF64UI a then 2 ^ 63 else 0)"
  proof (cases "signF64UI a")
    case True
    then have "bit a 63"
      using high_bit64 [of a] and_exp_eq_0_iff_not_bit [of a 63] by (simp add: signF64UI_int)
    then show ?thesis using True by (intro bit_eqI) (auto simp only: bit_and_iff bit_exp_iff if_True)
  qed (use high_bit64 [of a] in \<open>simp add: signF64UI_int\<close>)
  then show ?thesis unfolding p(1) using p by simp
qed

lemma f64_or_one: "packToF64UI s 0 0 OR packToF64UI False 0x3FF 0 = packToF64UI s 0x3FF 0"
  by (cases s) (simp_all add: packToF64UI_def)

lemma f64_round_one: "fst (f64_round st s 1) = packToF64UI s 0x3FF 0"
proof -
  have "fp_mag 52 1023 (1023 * 2 ^ 52) = 1" by (simp add: fp_mag_def power_int_minus)
  then show ?thesis using f64_round_exact [of "1023 * 2 ^ 52" st s] by (simp add: packToF64UI_word)
qed

lemma f64_half:
  assumes "expF64UI a \<le> 1022"
  shows "1 / 2 \<le> f64_abs a \<longleftrightarrow> expF64UI a = 1022" "1 / 2 < f64_abs a \<longleftrightarrow> expF64UI a = 1022 \<and> fracF64UI a \<noteq> 0"
proof -
  have *: "(1 / 2 \<le> f64_abs a \<longleftrightarrow> expF64UI a = 1022) \<and> (1 / 2 < f64_abs a \<longleftrightarrow> expF64UI a = 1022 \<and> fracF64UI a \<noteq> 0)"
  proof (cases "expF64UI a = 1022")
    case True
    have "f64_abs a = 1 / 2 + of_int (uint (fracF64UI a)) / 2 ^ 53"
      using True by (simp add: f64_abs_fields power_int_minus field_simps)
    then show ?thesis using True by (simp add: word_zero_uint order_less_le)
  next
    case False
    have "f64_abs a < 1 / 2"
    proof (cases "expF64UI a = 0")
      case True
      then show ?thesis using f64_tiny [OF True] powi_mono [of "- 900" "- 1"] by (simp add: power_int_minus)
    next
      case nz: False
      have "real_of_int (uint (f64_sig a)) < of_int (2 ^ 53)" unfolding of_int_less_iff by (rule f64_sig_bounds)
      then have "f64_abs a < 2 ^ 53 * 2 powi (expF64UI a - 1075)" unfolding f64_sig_bounds(3) [OF nz] by simp
      also have "\<dots> = 2 powi (int 53 + (expF64UI a - 1075))" unfolding powi_add power_int_of_nat ..
      also have "\<dots> \<le> 2 powi (- 1)" unfolding powi_le_iff using assms False by simp
      finally show ?thesis by (simp add: power_int_minus)
    qed
    then show ?thesis using False by simp
  qed
  then show "1 / 2 \<le> f64_abs a \<longleftrightarrow> expF64UI a = 1022" "1 / 2 < f64_abs a \<longleftrightarrow> expF64UI a = 1022 \<and> fracF64UI a \<noteq> 0"
    by blast+
qed

lemma f64_low_zero: "a AND 0x7FFFFFFFFFFFFFFF = 0 \<longleftrightarrow> f64_mag a = 0"
  unfolding mask_numerals word_zero_uint uint_and_mask f64_mag_def ..

theorem f64_roundToInt_refines:
  assumes rm: "uint rm < 5"
  shows "f64_roundToInt a rm exact st = f64_roundToInt_spec a rm exact st"
proof -
  have abs: "\<bar>f64_val a\<bar> = f64_abs a" by (simp add: v64.abs_val f64_abs_def)
  consider (zero) "f64_mag a = 0" | (small) "expF64UI a \<le> 1022" "f64_mag a \<noteq> 0"
    | (middle) "1023 \<le> expF64UI a" "expF64UI a < 1075" | (large) "1075 \<le> expF64UI a" by linarith
  then show ?thesis
  proof cases
    case zero
    then have "expF64UI a = 0" "f64_abs a = 0" by (simp_all add: f64_class_fields(4) f64_less_one(3))
    moreover from this have "\<not> isNaNF64UI a" "\<not> f64_isInf a" by (simp_all add: isNaNF64UI_int f64_class_fields)
    ultimately show ?thesis
      using zero rnd_of_int [of rm "signF64UI a" 0] f64_zero_bits [OF zero]
      unfolding f64_roundToInt_def f64_low_zero Let_def by (simp add: f64_roundToInt_spec_def abs)
  next
    case small
    have "0 < f64_abs a" "f64_abs a < 1"
      using f64_less_one(1) [OF small(1)] f64_less_one(2,3) [of a] small(2) by (auto simp: order_less_le)
    note r = rnd_unit [OF this rm, of "signF64UI a", unfolded f64_half [OF small(1)]]
    have nn: "\<not> isNaNF64UI a" "\<not> f64_isInf a" using small by (simp_all add: isNaNF64UI_int f64_class_fields)
    have ne: "f64_abs a \<noteq> 0" "f64_abs a \<noteq> 1"
      using f64_less_one(1) [OF small(1)] f64_less_one(3) [of a] small(2) by auto
    have z: "packToF64UI True 0 0 \<noteq> 0" "packToF64UI False 0 0 = 0"
      by (simp_all add: packToF64UI_def)
    show ?thesis
      using rm
      unfolding f64_roundToInt_def f64_low_zero Let_def f64_sign_only f64_or_one
        f64_roundToInt_spec_def abs r if_not_P [OF nn(1)] if_not_P [OF nn(2)]
      by (cases rule: rm_cases) (use small in \<open>auto simp: f64_round_one ne z softfloat_round_near_even_def
        softfloat_round_near_maxMag_def softfloat_round_min_def softfloat_round_max_def softfloat_round_minMag_def\<close>)
  next
    case middle
    define d n H where "d = nat (1075 - expF64UI a)" and "n = uint (f64_sig a)"
      and "H = of_bool (signF64UI a) * 2 ^ 63 + (expF64UI a - 1) * 2 ^ 52"
    note b = f64_integral_bits [OF middle, folded d_def n_def]
    define q where "q = round_int d rm (signF64UI a) n"
    obtain h where h: "d = Suc h" using b(2) by (cases d) auto
    have r: "rnd rm (signF64UI a) (f64_abs a) = q" unfolding b(1) q_def h by (rule rnd_round_int)
    have cov: "2 ^ 52 \<le> q * 2 ^ d" "q * 2 ^ d \<le> 2 ^ 53"
      using round_int_cover [of d 52 n rm "signF64UI a"] b(2-5) by (simp_all add: q_def)
    then have q: "0 < q" using zero_less_mult_pos2 [of q "2 ^ d"] by simp
    define G where "G = of_bool (signF64UI a) * 2 ^ (63 - d) + (expF64UI a - 1) * 2 ^ (52 - d)"
    have "(2::int) ^ 63 = 2 ^ (63 - d) * 2 ^ d" "(2::int) ^ 52 = 2 ^ (52 - d) * 2 ^ d"
      using b(3) by (simp_all flip: power_add)
    then have H: "H = G * 2 ^ d" unfolding H_def G_def by (simp only: distrib_right mult.assoc)
    have "even G"
    proof (cases "d = 52")
      case True
      then have "expF64UI a = 1023" using middle by (simp add: d_def)
      then show ?thesis using True by (simp add: G_def)
    qed (use b(3) in \<open>simp add: G_def\<close>)
    have "(2::int) ^ d \<le> 2 ^ 52" using b(3) by (intro power_increasing) simp_all
    moreover have "(expF64UI a - 1) * 2 ^ 52 \<le> 1073 * 2 ^ 52" "of_bool (signF64UI a) \<le> (1::int)"
      using middle by simp_all
    ultimately have bd: "H + n + 2 ^ d \<le> 2 ^ 64" unfolding H_def using b(5) by simp
    have int: "uint (integral_word d rm (signF64UI a) a) = H + q * 2 ^ d"
      unfolding q_def H distrib_right [symmetric]
      by (rule uint_integral_word [OF h _ _ \<open>even G\<close> _ _ rm])
        (use b(3-6) bd in \<open>simp_all only: H [symmetric] H_def\<close>, simp_all)
    have code: "f64_roundToInt a rm exact st = (integral_word d rm (signF64UI a) a,
        if exact \<and> integral_word d rm (signF64UI a) a \<noteq> a then softfloat_raiseFlags softfloat_flag_inexact st else st)"
      using middle unfolding f64_roundToInt_def integral_word_def Let_def d_def by simp
    have ne: "integral_word d rm (signF64UI a) a \<noteq> a \<longleftrightarrow> of_int q \<noteq> f64_abs a"
    proof -
      have "integral_word d rm (signF64UI a) a \<noteq> a \<longleftrightarrow> q * 2 ^ d \<noteq> n"
        unfolding word_uint_eq_iff int b(6) H_def by simp
      also have "\<dots> \<longleftrightarrow> real_of_int (q * 2 ^ d) \<noteq> of_int n" unfolding of_int_eq_iff ..
      also have "\<dots> \<longleftrightarrow> of_int q \<noteq> f64_abs a" unfolding b(1) by (simp add: field_simps)
      finally show ?thesis .
    qed
    have "fst (f64_round st (signF64UI a) (of_int q)) = integral_word d rm (signF64UI a) a"
      using b(7) [where q = q and s = "signF64UI a" and st = st] q cov int unfolding H_def by (metis fst_conv less_imp_le word_of_int_uint)
    moreover have "\<not> isNaNF64UI a" "\<not> f64_isInf a" using middle by (simp_all add: isNaNF64UI_int f64_class_fields)
    ultimately show ?thesis
      using q unfolding code f64_roundToInt_spec_def Let_def abs r ne by simp
  next
    case large
    show ?thesis
    proof (cases "expF64UI a = 2047")
      case True
      have "\<not> softfloat_isSigNaNF64UI 0" by (simp add: softfloat_isSigNaNF64UI_def)
      then show ?thesis
        using True by (simp add: f64_roundToInt_def f64_roundToInt_spec_def isNaNF64UI_int f64_class_fields(1) softfloat_propagateNaNF64UI_def)
    next
      case False
      have fin: "f64_finite a" "f64_mag a \<noteq> 0" using False large by (simp_all add: f64_class_fields)
      define k n where "k = nat (expF64UI a - 1075)" and "n = uint (f64_sig a) * 2 ^ k"
      have k: "expF64UI a = 1075 + int k" using large by (simp add: k_def)
      have v: "f64_abs a = of_int n" using f64_fixed_value [of a k 0] k by (simp add: n_def)
      then have "rnd rm (signF64UI a) (f64_abs a) = n" by simp
      moreover have "n \<noteq> 0" using v fin(2) f64_less_one(3) [of a] by auto
      ultimately show ?thesis
        using False large f64_finite_not [OF fin(1)] f64_self [OF fin, of st]
        by (simp add: f64_roundToInt_def f64_roundToInt_spec_def abs v)
    qed
  qed
qed

end
