(* ===== verification/SF_Div.thy ===== *)
theory SF_Div
imports SF_FConv
begin

text \<open>
  Division (\<open>f32_div.c\<close>, \<open>f64_div.c\<close>).  The build has \<open>SOFTFLOAT_FAST_DIV64TO32\<close>, so the single
  precision quotient is one 64-by-32-bit division; the double precision quotient is assembled from
  two products with an approximate reciprocal and, where the guard bits need it, corrected by the
  remainder.  Both refine the correctly rounded quotient.
\<close>

section \<open>Definitions\<close>

definition f32_div :: "float32 \<Rightarrow> float32 \<Rightarrow> sf_state \<Rightarrow> float32 \<times> sf_state" where
  "f32_div uiA uiB st =
     (let signA = signF32UI uiA;
          expA = expF32UI uiA;
          sigA = fracF32UI uiA;
          signB = signF32UI uiB;
          expB = expF32UI uiB;
          sigB = fracF32UI uiB;
          signZ = (signA \<noteq> signB);
          propagateNaN = softfloat_propagateNaNF32UI uiA uiB st;
          invalid = (defaultNaNF32UI, softfloat_raiseFlags softfloat_flag_invalid st);
          infinity = (\<lambda>st. (packToF32UI signZ 0xFF 0, st));
          zero = (packToF32UI signZ 0 0, st)
      in if expA = 0xFF
         then if sigA \<noteq> 0 then propagateNaN
              else if expB = 0xFF then if sigB \<noteq> 0 then propagateNaN else invalid
              else infinity st
         else if expB = 0xFF then if sigB \<noteq> 0 then propagateNaN else zero
         else if expB = 0 \<and> sigB = 0
         then if word_of_int expA OR sigA = 0 then invalid
              else infinity (softfloat_raiseFlags softfloat_flag_infinite st)
         else let (expB, sigB) = (if expB = 0 then softfloat_normSubnormalF32Sig sigB else (expB, sigB))
         in if expA = 0 \<and> sigA = 0 then zero
         else let (expA, sigA) = (if expA = 0 then softfloat_normSubnormalF32Sig sigA else (expA, sigA));
                  expZ = expA - expB + 0x7E;
                  sigA = sigA OR 0x00800000;
                  sigB = sigB OR 0x00800000;
                  (expZ, sig64A) = (if sigA < sigB then (expZ - 1, push_bit 31 (ucast sigA :: u64))
                                    else (expZ, push_bit 30 (ucast sigA)));
                  sigZ = (ucast (sig64A div ucast sigB) :: u32);
                  sigZ = (if sigZ AND 0x3F = 0
                          then sigZ OR of_bool (ucast sigB * ucast sigZ \<noteq> sig64A) else sigZ)
              in softfloat_roundPackToF32 signZ expZ sigZ st)"

definition f64_div :: "float64 \<Rightarrow> float64 \<Rightarrow> sf_state \<Rightarrow> float64 \<times> sf_state" where
  "f64_div uiA uiB st =
     (let signA = signF64UI uiA;
          expA = expF64UI uiA;
          sigA = fracF64UI uiA;
          signB = signF64UI uiB;
          expB = expF64UI uiB;
          sigB = fracF64UI uiB;
          signZ = (signA \<noteq> signB);
          propagateNaN = softfloat_propagateNaNF64UI uiA uiB st;
          invalid = (defaultNaNF64UI, softfloat_raiseFlags softfloat_flag_invalid st);
          infinity = (\<lambda>st. (packToF64UI signZ 0x7FF 0, st));
          zero = (packToF64UI signZ 0 0, st)
      in if expA = 0x7FF
         then if sigA \<noteq> 0 then propagateNaN
              else if expB = 0x7FF then if sigB \<noteq> 0 then propagateNaN else invalid
              else infinity st
         else if expB = 0x7FF then if sigB \<noteq> 0 then propagateNaN else zero
         else if expB = 0 \<and> sigB = 0
         then if word_of_int expA OR sigA = 0 then invalid
              else infinity (softfloat_raiseFlags softfloat_flag_infinite st)
         else let (expB, sigB) = (if expB = 0 then softfloat_normSubnormalF64Sig sigB else (expB, sigB))
         in if expA = 0 \<and> sigA = 0 then zero
         else let (expA, sigA) = (if expA = 0 then softfloat_normSubnormalF64Sig sigA else (expA, sigA));
                  expZ = expA - expB + 0x3FE;
                  sigA = sigA OR 0x0010000000000000;
                  sigB = sigB OR 0x0010000000000000;
                  (expZ, sigA) = (if sigA < sigB then (expZ - 1, push_bit 11 sigA) else (expZ, push_bit 10 sigA));
                  sigB = push_bit 11 sigB;
                  sigB32 = (ucast (drop_bit 32 sigB) :: u32);
                  sigB0 = drop_bit 4 (ucast sigB :: u32);
                  recip32 = softfloat_approxRecip32_1 sigB32 - 2;
                  sig32Z = (ucast (drop_bit 32 (ucast (ucast (drop_bit 32 sigA) :: u32) * ucast recip32 :: u64)) :: u32);
                  doubleTerm = push_bit 1 sig32Z;
                  rem = push_bit 28 (sigA - ucast doubleTerm * ucast sigB32) - ucast doubleTerm * ucast sigB0;
                  q = (ucast (drop_bit 32 (ucast (ucast (drop_bit 32 rem) :: u32) * ucast recip32 :: u64)) :: u32) + 4;
                  sigZ = push_bit 32 (ucast sig32Z) + push_bit 4 (ucast q);
                  sigZ = (if sigZ AND 0x1FF < 0x40
                          then let q = q AND NOT 7;
                                   sigZ = sigZ AND NOT 0x7F;
                                   doubleTerm = push_bit 1 q;
                                   rem = push_bit 28 (rem - ucast doubleTerm * ucast sigB32) - ucast doubleTerm * ucast sigB0
                               in if rem AND 0x8000000000000000 \<noteq> 0 then sigZ - 0x80
                                  else if rem \<noteq> 0 then sigZ OR 1 else sigZ
                          else sigZ)
              in softfloat_roundPackToF64 signZ expZ sigZ st)"

section \<open>Specification\<close>

text \<open>
  Division: zero over zero and infinity over infinity are invalid, a finite number over zero
  is infinite and raises its own flag, the rest is the correctly rounded quotient.
\<close>

definition f32_div_spec :: "float32 \<Rightarrow> float32 \<Rightarrow> sf_state \<Rightarrow> float32 \<times> sf_state" where
  "f32_div_spec a b st =
     (let s = (signF32UI a \<noteq> signF32UI b); v = \<bar>f32_val a / f32_val b\<bar>
      in if isNaNF32UI a \<or> isNaNF32UI b then softfloat_propagateNaNF32UI a b st
         else if f32_isInf a
         then if f32_isInf b then (defaultNaNF32UI, softfloat_raiseFlags softfloat_flag_invalid st)
              else (packToF32UI s 0xFF 0, st)
         else if f32_isInf b then (packToF32UI s 0 0, st)
         else if f32_val b = 0
         then if f32_val a = 0 then (defaultNaNF32UI, softfloat_raiseFlags softfloat_flag_invalid st)
              else (packToF32UI s 0xFF 0, softfloat_raiseFlags softfloat_flag_infinite st)
         else if v = 0 then (packToF32UI s 0 0, st)
         else f32_round st s v)"

definition f64_div_spec :: "float64 \<Rightarrow> float64 \<Rightarrow> sf_state \<Rightarrow> float64 \<times> sf_state" where
  "f64_div_spec a b st =
     (let s = (signF64UI a \<noteq> signF64UI b); v = \<bar>f64_val a / f64_val b\<bar>
      in if isNaNF64UI a \<or> isNaNF64UI b then softfloat_propagateNaNF64UI a b st
         else if f64_isInf a
         then if f64_isInf b then (defaultNaNF64UI, softfloat_raiseFlags softfloat_flag_invalid st)
              else (packToF64UI s 0x7FF 0, st)
         else if f64_isInf b then (packToF64UI s 0 0, st)
         else if f64_val b = 0
         then if f64_val a = 0 then (defaultNaNF64UI, softfloat_raiseFlags softfloat_flag_invalid st)
              else (packToF64UI s 0x7FF 0, softfloat_raiseFlags softfloat_flag_infinite st)
         else if v = 0 then (packToF64UI s 0 0, st)
         else f64_round st s v)"

section \<open>Single precision\<close>

lemma cell_between:
  assumes "of_int j * 2 ^ h < n" "n < of_int (j + 1) * 2 ^ h" "of_int j * 2 ^ h < x" "x < of_int (j + 1) * 2 ^ h"
  shows "cell h n x"
  unfolding cell_def
proof
  fix i :: int
  consider "i \<le> j" | "j + 1 \<le> i" by linarith
  then show "(n < of_int i * 2 ^ h \<longleftrightarrow> x < of_int i * 2 ^ h) \<and> (n = of_int i * 2 ^ h \<longleftrightarrow> x = of_int i * 2 ^ h)"
  proof cases
    case 1
    then have "real_of_int i * 2 ^ h \<le> of_int j * 2 ^ h" by (intro mult_right_mono) auto
    then show ?thesis using assms by linarith
  next
    case 2
    then have "real_of_int (j + 1) * 2 ^ h \<le> of_int i * 2 ^ h" by (intro mult_right_mono) auto
    then show ?thesis using assms by linarith
  qed
qed

text \<open>A quotient with a sticky bit where the guard bits are all zero.\<close>

lemma cell_quotient:
  fixes n m :: int
  assumes "0 < m" "1 \<le> h"
  defines "q \<equiv> n div m"
  shows "cell h (of_int (if q mod 2 ^ h = 0 then q + of_bool (m * q \<noteq> n) else q)) (of_int n / of_int m)"
proof -
  define x where "x = real_of_int n / of_int m"
  define j where "j = q div 2 ^ h"
  have fl: "of_int q \<le> x" "x < of_int q + 1"
    using floor_divide_of_int_eq [of n m, where 'a = real] by (auto simp: x_def q_def floor_eq_iff)
  have ex: "m * q = n \<longleftrightarrow> x = of_int q"
  proof -
    have "x = of_int q \<longleftrightarrow> real_of_int n = of_int (m * q)" using assms(1) by (auto simp: x_def field_simps)
    then show ?thesis by (metis of_int_eq_iff)
  qed
  define r where "r = q mod 2 ^ h"
  have dm: "j * 2 ^ h + r = q" unfolding j_def r_def by (rule div_mult_mod_eq)
  have mb: "0 \<le> r" "r < 2 ^ h" by (simp_all add: r_def)
  show ?thesis
    unfolding x_def [symmetric] r_def [symmetric]
  proof (cases "x = of_int q")
    case True
    then show "cell h (of_int (if r = 0 then q + of_bool (m * q \<noteq> n) else q)) x" using ex by simp
  next
    case False
    define q' where "q' = (if r = 0 then q + of_bool (m * q \<noteq> n) else q)"
    have "(2::int) ^ 1 \<le> 2 ^ h" using assms(2) by (intro power_increasing) simp_all
    then have q': "j * 2 ^ h < q'" "q' < (j + 1) * 2 ^ h"
      using dm mb False ex unfolding q'_def by (auto simp: distrib_right)
    have "real_of_int (j * 2 ^ h) < of_int q'" "real_of_int q' < of_int ((j + 1) * 2 ^ h)"
      unfolding of_int_less_iff using q' by simp_all
    moreover have "real_of_int (j * 2 ^ h) \<le> of_int q" "real_of_int q + 1 \<le> of_int ((j + 1) * 2 ^ h)"
    proof -
      have "j * 2 ^ h \<le> q" "q + 1 \<le> (j + 1) * 2 ^ h" using dm mb by (auto simp: distrib_right)
      then have "real_of_int (j * 2 ^ h) \<le> of_int q" "real_of_int (q + 1) \<le> of_int ((j + 1) * 2 ^ h)"
        unfolding of_int_le_iff .
      then show "real_of_int (j * 2 ^ h) \<le> of_int q" "real_of_int q + 1 \<le> of_int ((j + 1) * 2 ^ h)" by simp_all
    qed
    ultimately show "cell h (of_int (if r = 0 then q + of_bool (m * q \<noteq> n) else q)) x"
      unfolding q'_def [symmetric] using fl False by (intro cell_between [of j]) simp_all
  qed
qed

lemma div_sig_range:
  fixes mA mB :: int and K m :: nat
  assumes "2 ^ K \<le> mA" "mA < 2 ^ Suc K" "2 ^ K \<le> mB" "mB < 2 ^ Suc K"
  defines "n \<equiv> (if mA < mB then mA * 2 ^ Suc m else mA * 2 ^ m)"
  shows "2 ^ m \<le> n div mB" "n div mB < 2 ^ Suc m"
proof -
  have pos: "0 < mB" using assms(3) zero_less_power [of "2::int" K] by linarith
  have "mB * 2 ^ m \<le> n" "n < mB * 2 ^ Suc m"
  proof -
    have "mB * 2 ^ m \<le> (mA * 2) * 2 ^ m" using assms(1,4) by (intro mult_right_mono) simp_all
    moreover have "mA * 2 ^ m < (mB * 2) * 2 ^ m" using assms(2,3) by (intro mult_strict_right_mono) simp_all
    ultimately show "mB * 2 ^ m \<le> n" "n < mB * 2 ^ Suc m" by (auto simp: n_def)
  qed
  note n = this
  have "mB * 2 ^ m div mB \<le> n div mB" by (rule zdiv_mono1 [OF n(1) pos])
  moreover have "n < 2 ^ Suc m * mB" using n(2) by (simp only: mult.commute)
  ultimately show "2 ^ m \<le> n div mB" "n div mB < 2 ^ Suc m"
    using pos by (simp_all del: power_Suc add: int_div_less)
qed

lemma f32_div_finite:
  assumes a: "f32_finite a" "f32_mag a \<noteq> 0" and b: "f32_finite b" "f32_mag b \<noteq> 0"
  shows "f32_div a b st = f32_round st (signF32UI a \<noteq> signF32UI b) (f32_abs a / f32_abs b)"
proof -
  obtain eA sA mA where A: "f32_norm a = (eA, sA)" "uint (sA OR 0x00800000) = mA" "2 ^ 23 \<le> mA" "mA < 2 ^ 24"
    "- 22 \<le> eA" "eA \<le> 254" "f32_abs a = of_int mA * 2 powi (eA - 150)" using a by (rule f32_norm_value)
  obtain eB sB mB where B: "f32_norm b = (eB, sB)" "uint (sB OR 0x00800000) = mB" "2 ^ 23 \<le> mB" "mB < 2 ^ 24"
    "- 22 \<le> eB" "eB \<le> 254" "f32_abs b = of_int mB * 2 powi (eB - 150)" using b by (rule f32_norm_value)
  define lt where "lt = (mA < mB)"
  define n where "n = (if lt then mA * 2 ^ 31 else mA * 2 ^ 30)"
  define e where "e = (if lt then eA - eB + 0x7E - 1 else eA - eB + 0x7E)"
  define sig64A where "sig64A = (if lt then push_bit 31 (ucast (sA OR 0x00800000) :: u64) else push_bit 30 (ucast (sA OR 0x00800000)))"
  have n: "uint sig64A = n"
    unfolding sig64A_def n_def by (cases lt; simp only: if_True if_False; subst uint_push_bit_small) (use A in simp_all)
  have q: "2 ^ 30 \<le> n div mB" "n div mB < 2 ^ 31"
    using div_sig_range [of 23 mA mB 30] A(3,4) B(3,4) by (cases "mA < mB"; simp add: n_def lt_def)+
  define sigZ where "sigZ = (ucast (sig64A div ucast (sB OR 0x00800000)) :: u32)"
  have z: "uint sigZ = n div mB"
  proof -
    have "uint (sig64A div ucast (sB OR 0x00800000)) = n div mB" by (simp add: uint_div n B(2))
    then show ?thesis unfolding sigZ_def uint_ucast_64_32 using q by simp
  qed
  define sig where "sig = (if sigZ AND 0x3F = 0 then sigZ OR of_bool (ucast (sB OR 0x00800000) * ucast sigZ \<noteq> sig64A) else sigZ)"
  have sig: "uint sig = (if (n div mB) mod 2 ^ 6 = 0 then n div mB + of_bool (mB * (n div mB) \<noteq> n) else n div mB)"
  proof -
    have "uint (ucast (sB OR 0x00800000) * ucast sigZ :: u64) = mB * (n div mB)" unfolding uint_mul32 B(2) z ..
    then have m: "ucast (sB OR 0x00800000) * ucast sigZ \<noteq> sig64A \<longleftrightarrow> mB * (n div mB) \<noteq> n"
      unfolding word_uint_eq_iff n by simp
    have l: "sigZ AND 0x3F = 0 \<longleftrightarrow> (n div mB) mod 2 ^ 6 = 0"
    proof -
      have "(0x3F :: u32) = mask 6" by (simp add: mask_eq_exp_minus_1)
      then show ?thesis unfolding word_zero_uint by (simp only: uint_and_mask z)
    qed
    have "even (n div mB)" if "(n div mB) mod 2 ^ 6 = 0"
    proof -
      have "2 ^ 6 dvd n div mB" using that by (rule mod_0_imp_dvd)
      then show ?thesis by (meson dvd_power dvd_trans zero_less_numeral)
    qed
    then show ?thesis unfolding sig_def m l uint_or_of_bool z if_distrib [of uint] by auto
  qed
  have c: "cell 6 (of_int (uint sig)) (of_int n / of_int mB)"
    unfolding sig using B(3) by (intro cell_quotient) simp_all
  have bounds: "2 ^ 30 \<le> uint sig" "uint sig < 2 ^ 31"
  proof -
    have "Q < 2147483648 \<Longrightarrow> Q mod 64 = 0 \<Longrightarrow> Q + 1 < 2147483648" for Q :: int by presburger
    then have "n div mB mod 2 ^ 6 = 0 \<Longrightarrow> n div mB + 1 < 2 ^ 31" using q(2) by simp
    then show "2 ^ 30 \<le> uint sig" "uint sig < 2 ^ 31" unfolding sig using q by auto
  qed
  have "f32_div a b st = softfloat_roundPackToF32 (signF32UI a \<noteq> signF32UI b) e sig st"
  proof -
    have l: "sA OR 0x00800000 < sB OR 0x00800000 \<longleftrightarrow> lt" by (simp only: word_less_def A(2) B(2) lt_def)
    have "(expF32UI a = 255) = False" "(expF32UI a = 0 \<and> fracF32UI a = 0) = False"
      "(expF32UI b = 255) = False" "(expF32UI b = 0 \<and> fracF32UI b = 0) = False"
      using a b unfolding f32_class_fields by simp_all
    then show ?thesis
      unfolding f32_div_def Let_def f32_norm_def [symmetric] A(1) B(1) prod.case l
      by (cases lt) (simp_all only: if_False if_True prod.case sig_def sigZ_def sig64A_def e_def)
  qed
  also have "\<dots> = f32_round st (signF32UI a \<noteq> signF32UI b) (fp_scaled 23 127 6 e (of_int n / of_int mB))"
    by (rule roundPackToF32_refines [OF c bounds]) (use A B in \<open>simp_all add: e_def\<close>)
  also have "fp_scaled 23 127 6 e (of_int n / of_int mB) = f32_abs a / f32_abs b"
    unfolding fp_scaled_def A(7) B(7) n_def e_def
    by (cases lt) (simp_all add: powi_diff powi_add power_int_minus field_simps)
  finally show ?thesis .
qed

theorem f32_div_refines: "f32_div a b st = f32_div_spec a b st"
proof -
  note cf = f32_class_fields
  have abs: "\<bar>f32_val a / f32_val b\<bar> = f32_abs a / f32_abs b"
    by (simp add: v32.abs_val f32_abs_def)
  have az: "f32_abs a / f32_abs b = 0 \<longleftrightarrow> f32_mag a = 0 \<or> f32_mag b = 0"
    by (simp add: f32_less_one(3))
  show ?thesis
  proof (cases a b rule: f32_class_cases)
    case nan
    then have "f32_div a b st = softfloat_propagateNaNF32UI a b st"
      unfolding isNaNF32UI_int f32_div_def Let_def
      by (cases "expF32UI a = 255"; cases "fracF32UI a = 0"; simp)
    then show ?thesis using nan unfolding f32_div_spec_def Let_def by simp
  next
    case inf
    show ?thesis
    proof (cases "f32_isInf a")
      case True
      then show ?thesis
        using inf by (cases "expF32UI b = 255") (simp_all add: f32_div_def f32_div_spec_def Let_def cf(1) isNaNF32UI_int)
    next
      case False
      then have "f32_isInf b" "expF32UI a \<noteq> 255" using inf by (auto simp: cf(1) isNaNF32UI_int)
      then show ?thesis
        using inf False by (simp add: f32_div_def f32_div_spec_def Let_def cf(1))
    qed
  next
    case finite
    note nn = f32_finite_not [OF finite(1)] f32_finite_not [OF finite(2)]
    have e: "(expF32UI a = 255) = False" "(expF32UI b = 255) = False" using finite by (simp_all add: cf)
    consider (bzero) "f32_mag b = 0" | (azero) "f32_mag b \<noteq> 0" "f32_mag a = 0" | (main) "f32_mag a \<noteq> 0" "f32_mag b \<noteq> 0" by blast
    then show ?thesis
    proof cases
      case bzero
      then have "(expF32UI b = 0 \<and> fracF32UI b = 0) = True" by (simp add: cf)
      then show ?thesis
        unfolding f32_div_def Let_def word_of_exp_or32 e if_False if_True
        using nn bzero by (simp add: f32_div_spec_def v32.val_zero_iff)
    next
      case azero
      then have "(expF32UI b = 0 \<and> fracF32UI b = 0) = False" "(expF32UI a = 0 \<and> fracF32UI a = 0) = True" by (simp_all add: cf)
      moreover obtain eb sb where "f32_norm b = (eb, sb)" by (cases "f32_norm b")
      ultimately have "f32_div a b st = (packToF32UI (signF32UI a \<noteq> signF32UI b) 0 0, st)"
        unfolding f32_div_def Let_def f32_norm_def [symmetric] by (simp only: e if_False if_True prod.case)
      then show ?thesis
        using nn azero unfolding f32_div_spec_def Let_def abs az by (simp add: v32.val_zero_iff)
    next
      case main
      then show ?thesis
        using nn f32_div_finite [OF finite(1) main(1) finite(2) main(2)]
        unfolding f32_div_spec_def Let_def abs az by (simp add: v32.val_zero_iff)
    qed
  qed
qed


section \<open>Double precision\<close>

text \<open>
  One step of the division: the high half of a dividend \<open>N\<close> times the approximate reciprocal
  underestimates the quotient \<open>N * 2 ^ 31 / B\<close> by a few units.
\<close>

lemma recip_step:
  fixes N Bh Bl :: int
  assumes Bh: "2 ^ 31 \<le> Bh" "Bh < 2 ^ 32" and Bl: "0 \<le> Bl" "Bl < 2 ^ 32" and N: "0 < N" "N < 2 ^ 64"
  defines "B \<equiv> Bh * 2 ^ 32 + Bl" and "r \<equiv> (2 ^ 63 - 1) div Bh - 2"
  defines "s \<equiv> N div 2 ^ 32 * r div 2 ^ 32"
  shows "0 < N * 2 ^ 31 - s * B" "(N * 2 ^ 31 - s * B) * 2 ^ 64 < 2 ^ 127 + 3 * (N * B) + 2 ^ 64 * B" "0 \<le> s" "0 < r" "r < 2 ^ 32"
proof -
  define P where "P = (2 ^ 63 - 1) div Bh"
  define Nh where "Nh = N div 2 ^ 32"
  define Nl where "Nl = N mod 2 ^ 32"
  define rb where "rb = r * Bh"
  have "P * Bh + (2 ^ 63 - 1) mod Bh = 2 ^ 63 - 1" unfolding P_def by (rule div_mult_mod_eq)
  moreover have "0 \<le> (2 ^ 63 - 1) mod Bh" "(2 ^ 63 - 1) mod Bh < Bh" using Bh by simp_all
  moreover have "rb = P * Bh - 2 * Bh" unfolding rb_def r_def P_def by (simp add: left_diff_distrib)
  ultimately have rb: "rb \<le> 2 ^ 63 - 1 - 2 * Bh" "2 ^ 63 - 3 * Bh \<le> rb" by linarith+
  have "0 < rb" using rb(2) Bh by simp
  then show r0: "0 < r" unfolding rb_def using Bh by (simp add: zero_less_mult_iff)
  have "r * 2 ^ 31 \<le> rb" unfolding rb_def using Bh r0 by (intro mult_left_mono) simp_all
  then show r1: "r < 2 ^ 32" using rb(1) Bh by simp
  define rB where "rB = r * B"
  have rBe: "rB = rb * 2 ^ 32 + r * Bl" unfolding rB_def rb_def B_def by (simp add: algebra_simps)
  have rl: "0 \<le> r * Bl" "r * Bl \<le> 2 ^ 32 * 2 ^ 32"
    using r0 r1 Bl by (simp, intro mult_mono, simp_all)
  have rB: "rB \<le> 2 ^ 95 - 1" "2 ^ 95 - 3 * B \<le> rB"
    using rBe rl rb Bh Bl by (simp_all add: B_def)
  have Ne: "N = Nh * 2 ^ 32 + Nl" unfolding Nh_def Nl_def by simp
  have Nb: "0 \<le> Nh" "Nh < 2 ^ 32" "0 \<le> Nl" "Nl < 2 ^ 32"
    using N unfolding Nh_def Nl_def by (simp_all add: pos_imp_zdiv_nonneg_iff int_div_less)
  define t where "t = Nh * r"
  have st: "s * 2 ^ 32 \<le> t" "t < s * 2 ^ 32 + 2 ^ 32"
  proof -
    have "s * 2 ^ 32 + t mod 2 ^ 32 = t" unfolding s_def t_def Nh_def by (rule div_mult_mod_eq)
    moreover have "0 \<le> t mod 2 ^ 32" "t mod 2 ^ 32 < 2 ^ 32" by simp_all
    ultimately show "s * 2 ^ 32 \<le> t" "t < s * 2 ^ 32 + 2 ^ 32" by linarith+
  qed
  have "0 \<le> Nh * r" using Nb(1) r0 by simp
  then show s0: "0 \<le> s" unfolding s_def Nh_def [symmetric] by (simp add: pos_imp_zdiv_nonneg_iff)
  have B0: "2 ^ 63 \<le> B" using Bh Bl by (simp add: B_def)
  have tB: "t * B = Nh * rB" by (simp add: t_def rB_def)
  have lo: "s * B * 2 ^ 32 \<le> Nh * rB"
  proof -
    have "s * 2 ^ 32 * B \<le> t * B" using st(1) B0 by (intro mult_right_mono) simp_all
    then show ?thesis unfolding tB by (simp add: ac_simps)
  qed
  have hi: "Nh * rB < s * B * 2 ^ 32 + 2 ^ 32 * B"
  proof -
    have "t * B < (s * 2 ^ 32 + 2 ^ 32) * B" using st(2) B0 by (intro mult_strict_right_mono) simp_all
    then show ?thesis unfolding tB by (simp add: algebra_simps)
  qed
  show "0 < N * 2 ^ 31 - s * B"
  proof (cases "Nh = 0")
    case True
    then have "s = 0" unfolding s_def Nh_def [symmetric] by simp
    then show ?thesis using N by simp
  next
    case False
    note lo
    also have "Nh * rB \<le> Nh * (2 ^ 95 - 1)" using rB(1) Nb(1) by (intro mult_left_mono)
    also have "\<dots> < Nh * 2 ^ 95" using False Nb(1) by simp
    finally have "s * B * 2 ^ 32 < Nh * 2 ^ 95" .
    then show ?thesis using Ne Nb(3) by (simp add: mult.commute)
  qed
  show "(N * 2 ^ 31 - s * B) * 2 ^ 64 < 2 ^ 127 + 3 * (N * B) + 2 ^ 64 * B"
  proof -
    have "Nh * (2 ^ 95 - 3 * B) \<le> Nh * rB" using rB(2) Nb(1) by (rule mult_left_mono)
    then have "Nh * 2 ^ 95 - 3 * (Nh * B) < s * B * 2 ^ 32 + 2 ^ 32 * B" using hi by (simp add: algebra_simps)
    moreover have "Nh * 2 ^ 32 * B \<le> N * B" using Ne Nb(3) B0 by (intro mult_right_mono) simp_all
    then have "Nh * B * 2 ^ 32 \<le> N * B" by (simp add: ac_simps)
    moreover have "k * 2 ^ 95 - 3 * x < y * 2 ^ 32 + 2 ^ 32 * B \<Longrightarrow> x * 2 ^ 32 \<le> z \<Longrightarrow>
        N = k * 2 ^ 32 + Nl \<Longrightarrow> (N * 2 ^ 31 - y) * 2 ^ 64 < 2 ^ 127 + 3 * z + 2 ^ 64 * B" for k x y z :: int
      using Nb(4) by simp
    ultimately show ?thesis using Ne by blast
  qed
qed

lemma quot_word:
  fixes X :: u64 and r :: u32
  shows "uint (ucast (drop_bit 32 (ucast (ucast (drop_bit 32 X) :: u32) * ucast r :: u64)) :: u32) =
     uint X div 2 ^ 32 * uint r div 2 ^ 32"
  by (simp only: uint_halves(1) uint_mul32)

lemma rem_word:
  fixes X :: u64 and d b32 b0 :: u32
  assumes "uint d < 2 ^ 31"
  shows "push_bit 28 (X - ucast (push_bit 1 d) * ucast b32) - ucast (push_bit 1 d) * ucast b0 =
    word_of_int ((uint X * 2 ^ 31 - uint d * (uint b32 * 2 ^ 32 + 16 * uint b0)) div 8)"
proof -
  define D where "D = (ucast (push_bit 1 d) :: u64)"
  have d: "uint D = 2 * uint d"
    using assms uint_push_bit_small [of d 1] by (simp add: D_def)
  have e: "(uint X * 2 ^ 31 - uint d * (uint b32 * 2 ^ 32 + 16 * uint b0)) div 8 =
    (uint X - 2 * uint d * uint b32) * 2 ^ 28 - 2 * uint d * uint b0"
  proof -
    have "uint X * 2 ^ 31 - uint d * (uint b32 * 2 ^ 32 + 16 * uint b0) =
      ((uint X - 2 * uint d * uint b32) * 2 ^ 28 - 2 * uint d * uint b0) * 8"
      by (simp add: algebra_simps)
    then show ?thesis by simp
  qed
  have "uint (push_bit 28 (X - D * ucast b32) - D * ucast b0) =
     ((uint X - 2 * uint d * uint b32) * 2 ^ 28 - 2 * uint d * uint b0) mod 2 ^ LENGTH(64)"
    by (simp only: uint_word_ariths uint_push_bit_mod d uint_ucast_32_64 mod_simps)
  then show ?thesis unfolding e word_uint_eq_iff D_def uint_word_of_int .
qed

text \<open>
  The correction: where the low nine bits are below 64 the code clears them and compares the exact
  quotient with what is left.
\<close>

definition div_fixup :: "int \<Rightarrow> real \<Rightarrow> int" where
  "div_fixup Z x =
     (if Z mod 512 < 64
      then let Y = Z - Z mod 512 in if x < of_int Y then Y - 128 else if x = of_int Y then Y else Y + 1
      else Z)"

lemma div_fixup_cell:
  assumes x: "of_int (Z - 64) < x" "x < of_int Z"
  shows "cell 9 (of_int (div_fixup Z x)) x"
proof -
  define j where "j = Z div 512"
  define m where "m = Z mod 512"
  have Z: "Z = j * 512 + m" "0 \<le> m" "m < 512" by (simp_all add: j_def m_def)
  have cb: "cell 9 (of_int n) x" if "i * 512 < n" "n < (i + 1) * 512" "of_int (i * 512) < x" "x < of_int ((i + 1) * 512)" for n i
  proof -
    have "real_of_int (i * 512) < of_int n" "real_of_int n < of_int ((i + 1) * 512)"
      unfolding of_int_less_iff using that by simp_all
    then show ?thesis using that(3,4) by (intro cell_between [of i]) simp_all
  qed
  show ?thesis
  proof (cases "m < 64")
    case False
    then have "real_of_int (j * 512) \<le> of_int (Z - 64)" "real_of_int Z \<le> of_int ((j + 1) * 512)"
      unfolding of_int_le_iff using Z by simp_all
    then have "of_int (j * 512) < x" "x < of_int ((j + 1) * 512)" using x by linarith+
    moreover have "j * 512 < Z" "Z < (j + 1) * 512" using False Z by simp_all
    ultimately have "cell 9 (of_int Z) x" by (intro cb)
    moreover have "div_fixup Z x = Z" using False unfolding div_fixup_def m_def [symmetric] by simp
    ultimately show ?thesis by simp
  next
    case True
    define Y where "Y = j * 512"
    have Y: "Z - Z mod 512 = Y" using Z(1) by (simp add: Y_def m_def)
    have "real_of_int (Y - 64) \<le> of_int (Z - 64)" "real_of_int Z \<le> of_int (Y + 64)"
      unfolding of_int_le_iff using Z True by (simp_all add: Y_def)
    then have xY: "of_int (Y - 64) < x" "x < of_int (Y + 64)" using x by linarith+
    consider (below) "x < of_int Y" | (eq) "x = of_int Y" | (above) "of_int Y < x" by linarith
    then show ?thesis
    proof cases
      case below
      then have "div_fixup Z x = Y - 128" using True by (simp add: div_fixup_def Let_def Y m_def)
      then show ?thesis using below xY(1) cb [of "j - 1" "Y - 128"] by (simp add: Y_def)
    next
      case eq
      then have "div_fixup Z x = Y" using True by (simp add: div_fixup_def Let_def Y m_def)
      then show ?thesis using eq by simp
    next
      case above
      then have "div_fixup Z x = Y + 1" using True by (simp add: div_fixup_def Let_def Y m_def)
      then show ?thesis using above xY(2) cb [of j "Y + 1"] by (simp add: Y_def)
    qed
  qed
qed

definition f64_div_core :: "u64 \<Rightarrow> u64 \<Rightarrow> u64" where
  "f64_div_core sigA sigB =
    (let sigB32 = (ucast (drop_bit 32 sigB) :: u32);
         sigB0 = drop_bit 4 (ucast sigB :: u32);
         recip32 = softfloat_approxRecip32_1 sigB32 - 2;
         sig32Z = (ucast (drop_bit 32 (ucast (ucast (drop_bit 32 sigA) :: u32) * ucast recip32 :: u64)) :: u32);
         doubleTerm = push_bit 1 sig32Z;
         rem = push_bit 28 (sigA - ucast doubleTerm * ucast sigB32) - ucast doubleTerm * ucast sigB0;
         q = (ucast (drop_bit 32 (ucast (ucast (drop_bit 32 rem) :: u32) * ucast recip32 :: u64)) :: u32) + 4;
         sigZ = push_bit 32 (ucast sig32Z) + push_bit 4 (ucast q)
     in if sigZ AND 0x1FF < 0x40
        then let q = q AND NOT 7;
                 sigZ = sigZ AND NOT 0x7F;
                 doubleTerm = push_bit 1 q;
                 rem = push_bit 28 (rem - ucast doubleTerm * ucast sigB32) - ucast doubleTerm * ucast sigB0
             in if rem AND 0x8000000000000000 \<noteq> 0 then sigZ - 0x80
                else if rem \<noteq> 0 then sigZ OR 1 else sigZ
        else sigZ)"

text \<open>The significand the code hands to the rounding is in the same cell as the quotient.\<close>

lemma f64_div_sig:
  fixes sigA sigB :: u64
  defines "sigB32 \<equiv> (ucast (drop_bit 32 sigB) :: u32)" and "sigB0 \<equiv> (drop_bit 4 (ucast sigB) :: u32)"
  defines "recip32 \<equiv> softfloat_approxRecip32_1 sigB32 - 2"
  defines "sig32Z \<equiv> (ucast (drop_bit 32 (ucast (ucast (drop_bit 32 sigA) :: u32) * ucast recip32 :: u64)) :: u32)"
  defines "rm \<equiv> push_bit 28 (sigA - ucast (push_bit 1 sig32Z) * ucast sigB32) - ucast (push_bit 1 sig32Z) * ucast sigB0"
  defines "q \<equiv> (ucast (drop_bit 32 (ucast (ucast (drop_bit 32 rm) :: u32) * ucast recip32 :: u64)) :: u32) + 4"
  defines "sigZ \<equiv> push_bit 32 (ucast sig32Z) + push_bit 4 (ucast q) :: u64"
  defines "q' \<equiv> q AND NOT 7"
  defines "rem' \<equiv> push_bit 28 (rm - ucast (push_bit 1 q') * ucast sigB32) - ucast (push_bit 1 q') * ucast sigB0"
  assumes A: "uint sigB \<le> 2 * uint sigA" "uint sigA < uint sigB" and B: "2 ^ 63 \<le> uint sigB" "uint sigB mod 2 ^ 11 = 0"
  shows "\<exists>Z. uint (f64_div_core sigA sigB) = div_fixup Z (of_int (uint sigA) * 2 ^ 63 / of_int (uint sigB)) \<and>
      of_int (Z - 64) < real_of_int (uint sigA) * 2 ^ 63 / of_int (uint sigB) \<and>
      real_of_int (uint sigA) * 2 ^ 63 / of_int (uint sigB) < of_int Z"
proof -
  define W where W_orig: "W = f64_div_core sigA sigB"
  have W_def: "W = (if sigZ AND 0x1FF < 0x40
     then if rem' AND 0x8000000000000000 \<noteq> 0 then (sigZ AND NOT 0x7F) - 0x80
          else if rem' \<noteq> 0 then (sigZ AND NOT 0x7F) OR 1 else sigZ AND NOT 0x7F
     else sigZ)"
    unfolding W_orig f64_div_core_def Let_def rem'_def q'_def sigZ_def q_def rm_def sig32Z_def recip32_def
      sigB32_def sigB0_def ..
  define A where "A = uint sigA"
  define B where "B = uint sigB"
  define Bh where "Bh = B div 2 ^ 32"
  define Bl where "Bl = B mod 2 ^ 32"
  define r where "r = (2 ^ 63 - 1) div Bh - 2"
  define S where "S = A div 2 ^ 32 * r div 2 ^ 32"
  define R where "R = (A * 2 ^ 31 - S * B) div 8"
  define q0 where "q0 = R div 2 ^ 32 * r div 2 ^ 32"
  have Be: "B = Bh * 2 ^ 32 + Bl" unfolding Bh_def Bl_def by simp
  have Bb: "2 ^ 31 \<le> Bh" "Bh < 2 ^ 32" "0 \<le> Bl" "Bl < 2 ^ 32"
    using B(1) uint_bounds_64 [of sigB] unfolding Bh_def Bl_def B_def[symmetric]
    by (simp_all add: int_div_less zdiv_mono1 [of "2 ^ 63" _ "2 ^ 32", simplified])
  have b32: "uint sigB32 = Bh" "uint sigB0 = Bl div 16"
  proof -
    show "uint sigB32 = Bh" unfolding sigB32_def Bh_def B_def by (rule uint_halves(1))
    show "uint sigB0 = Bl div 16" unfolding sigB0_def Bl_def B_def uint_drop_bit_div uint_ucast_64_32 by simp
  qed
  have Bl16: "16 * (Bl div 16) = Bl"
  proof -
    have "Bl mod 16 = B mod 16" unfolding Bl_def by (rule mod_mod_cancel) simp
    also have "\<dots> = B mod 2 ^ 11 mod 16" by (rule mod_mod_cancel [symmetric]) simp
    also have "\<dots> = 0" using B(2) by (simp add: B_def)
    finally show ?thesis using div_mult_mod_eq [of Bl 16] by simp
  qed
  have Bw: "uint sigB32 * 2 ^ 32 + 16 * uint sigB0 = B" unfolding b32 Bl16 Be ..
  have rw: "uint recip32 = r"
  proof -
    have P: "2 \<le> (2 ^ 63 - 1) div Bh" "(2 ^ 63 - 1) div Bh < 2 ^ 32"
    proof -
      have "(2 ^ 63 - 1) div (2 ^ 32 - 1) \<le> (2 ^ 63 - 1) div Bh" using Bb by (intro zdiv_mono2) simp_all
      then show "2 \<le> (2 ^ 63 - 1) div Bh" by simp
      have "(2 ^ 63 - 1) div Bh \<le> (2 ^ 63 - 1) div 2 ^ 31" using Bb by (intro zdiv_mono2) simp_all
      then show "(2 ^ 63 - 1) div Bh < 2 ^ 32" by simp
    qed
    have "uint ((0x7FFFFFFFFFFFFFFF :: u64) div ucast sigB32) = (2 ^ 63 - 1) div Bh"
      by (simp add: uint_div b32)
    then have "uint (softfloat_approxRecip32_1 sigB32) = (2 ^ 63 - 1) div Bh"
      unfolding softfloat_approxRecip32_1_def uint_ucast_64_32 using P by simp
    then show ?thesis unfolding recip32_def r_def using P(1)
      by (subst uint_sub_lem [THEN iffD1]) simp_all
  qed
  have AN: "0 < A" "A < 2 ^ 64" "A < B" "B \<le> 2 * A" using A B(1) uint_bounds_64 [of sigA] by (simp_all add: A_def B_def)
  note s1 = recip_step [OF Bb AN(1,2), folded Be r_def, folded S_def]
  have SB: "S * B < A * 2 ^ 31" using s1(1) by simp
  have "S * B < 2 ^ 31 * B" using SB AN(3) by simp
  then have S: "0 \<le> S" "S < 2 ^ 31" using s1(3) AN by simp_all
  have Sw: "uint sig32Z = S" unfolding sig32Z_def quot_word rw S_def A_def ..
  have rmw: "rm = word_of_int R"
    unfolding rm_def R_def A_def B_def by (subst rem_word) (simp_all only: Sw S Bw B_def)
  have B8: "8 dvd B" using B(2) by (intro dvd_trans [of 8 "2 ^ 11" B]) (simp_all add: B_def mod_0_imp_dvd)
  have R8: "8 * R = A * 2 ^ 31 - S * B"
  proof -
    have "8 dvd A * 2 ^ 31" by (simp add: dvd_mult)
    then have "8 dvd A * 2 ^ 31 - S * B" using dvd_mult [OF B8] by (rule dvd_diff)
    then show ?thesis by (simp add: R_def)
  qed
  have B64: "B < 2 ^ 64" using uint_bounds_64 [of sigB] by (simp add: B_def)
  have BB: "B * B \<le> 3 * 2 ^ 63 * B - 2 ^ 127"
  proof -
    have "0 \<le> (B - 2 ^ 63) * (2 ^ 64 - B)" using B(1) B64 by (simp add: B_def)
    then show ?thesis by (simp add: algebra_simps)
  qed
  have "A * B \<le> B * B" using AN by (intro mult_right_mono) simp_all
  then have R5: "8 * R < 5 * B" using R8 s1(2) BB B64 by simp
  then have R: "0 < R" "R < 2 ^ 64" using R8 s1(1) B64 by simp_all
  then have Rw: "uint rm = R" unfolding rmw by (simp add: uint_word_of_int)
  note s2 = recip_step [OF Bb R, folded Be r_def, folded q0_def]
  have "q0 * B < R * 2 ^ 31" using s2(1) by simp
  then have "q0 * B < 5 * 2 ^ 28 * B" using R5 by simp
  then have q0: "0 \<le> q0" "q0 < 5 * 2 ^ 28" using s2(3) AN by simp_all
  have E2: "R * 2 ^ 31 - q0 * B < 4 * B"
  proof -
    have "8 * R * B \<le> 5 * B * B" using R5 AN by (intro mult_right_mono) simp_all
    then have "8 * (R * B) \<le> 5 * (B * B)" by (simp only: mult.assoc)
    moreover have "8 * z \<le> 5 * w \<Longrightarrow> w \<le> 3 * 2 ^ 63 * B - 2 ^ 127 \<Longrightarrow>
        (R * 2 ^ 31 - y) * 2 ^ 64 < 2 ^ 127 + 3 * z + 2 ^ 64 * B \<Longrightarrow> R * 2 ^ 31 - y < 4 * B" for w y z :: int
      using AN by simp
    ultimately show ?thesis using s2(2) BB by blast
  qed
  define Q where "Q = q0 + 4"
  have Qw: "uint q = Q" "0 \<le> Q" "Q < 2 ^ 31"
  proof -
    show "0 \<le> Q" "Q < 2 ^ 31" using q0 by (simp_all add: Q_def)
    have "uint (ucast (drop_bit 32 (ucast (ucast (drop_bit 32 rm) :: u32) * ucast recip32 :: u64)) :: u32) = q0"
      unfolding quot_word rw Rw q0_def ..
    then show "uint q = Q" unfolding q_def Q_def using q0 by (subst uint_add_lem [THEN iffD1]) simp_all
  qed
  define Z where "Z = S * 2 ^ 32 + Q * 2 ^ 4"
  have Zb: "0 \<le> Z" "Z < 2 ^ 64" using S Qw by (simp_all add: Z_def)
  have Zw: "uint sigZ = Z"
  proof -
    have "uint (push_bit 32 (ucast sig32Z) :: u64) = S * 2 ^ 32" "uint (push_bit 4 (ucast q) :: u64) = Q * 2 ^ 4"
      using S Qw by (simp_all add: uint_push_bit_mod Sw del: push_bit_Suc)
    then show ?thesis unfolding sigZ_def Z_def using Zb by (subst uint_add_lem [THEN iffD1]) (simp_all add: Z_def)
  qed
  define x where "x = real_of_int A * 2 ^ 63 / of_int B"
  have B0: "0 < real_of_int B" using AN by simp
  have exact: "x = of_int (S * 2 ^ 32 + T * 2 ^ 4) + 16 * (of_int (R * 2 ^ 31 - T * B) / of_int B)" for T
  proof -
    have "real_of_int (8 * R) = of_int (A * 2 ^ 31 - S * B)" using R8 by (simp only:)
    then have "real_of_int A * 2 ^ 31 = 8 * of_int R + of_int S * of_int B" by simp
    then have "real_of_int A * 2 ^ 63 = (8 * of_int R + of_int S * of_int B) * 2 ^ 32" by simp
    then show ?thesis using B0 unfolding x_def by (simp add: field_simps)
  qed
  have x: "of_int (Z - 64) < x" "x < of_int Z"
  proof -
    have "real_of_int 0 < of_int (R * 2 ^ 31 - q0 * B)" "real_of_int (R * 2 ^ 31 - q0 * B) < of_int (4 * B)"
      unfolding of_int_less_iff using s2(1) E2 by simp_all
    then have "0 < of_int (R * 2 ^ 31 - q0 * B) / real_of_int B" "of_int (R * 2 ^ 31 - q0 * B) / real_of_int B < 4"
      using B0 by (simp_all add: divide_less_eq)
    then show "of_int (Z - 64) < x" "x < of_int Z"
      unfolding exact [of q0] Z_def Q_def by (simp_all del: of_int_diff)
  qed
  have Zm: "uint (sigZ AND 0x1FF) = Z mod 512"
  proof -
    have "(0x1FF :: u64) = mask 9" by (simp add: mask_eq_exp_minus_1)
    then show ?thesis by (simp only: uint_and_mask Zw) simp
  qed
  have Wx: "uint W = div_fixup Z x"
  proof (cases "Z mod 512 < 64")
    case False
    then have "W = sigZ" unfolding W_def by (simp add: word_less_def Zm)
    then show ?thesis using False Zw by (simp add: div_fixup_def)
  next
    case True
    define T where "T = Q - Q mod 8"
    define Y where "Y = S * 2 ^ 32 + T * 2 ^ 4"
    have "Z mod 512 = 16 * (Q mod 32)"
    proof -
      have "Z mod 512 = (Q * 16 + S * 2 ^ 23 * 512) mod 512" by (simp add: Z_def algebra_simps)
      also have "\<dots> = (16 * Q) mod (16 * 32)" unfolding mod_mult_self1 by (simp add: mult.commute)
      finally show ?thesis unfolding mod_mult_mult1 .
    qed
    moreover have "Q mod 8 = Q mod 32 mod 8" by (rule mod_mod_cancel [symmetric]) simp
    ultimately have m: "Q mod 8 = Q mod 32" "Z mod 512 = 16 * (Q mod 8)" using True by simp_all
    then have Y: "Z - Z mod 512 = Y" by (simp add: Y_def T_def Z_def)
    have T: "T = Q div 8 * 8" "0 \<le> T" "T < 2 ^ 31"
    proof -
      show T8: "T = Q div 8 * 8" unfolding T_def by (rule minus_mod_eq_div_mult)
      show "0 \<le> T" unfolding T8 using Qw(2) by (simp add: pos_imp_zdiv_nonneg_iff)
      have "0 \<le> Q mod 8" by simp
      then have "T \<le> Q" unfolding T_def by (simp only: diff_le_eq le_add_same_cancel1)
      then show "T < 2 ^ 31" using Qw(3) by linarith
    qed
    have q'w: "uint q' = T"
    proof -
      have "uint q' = uint q div 2 ^ 3 * 2 ^ 3"
        unfolding q'_def using uint_clear_low [of 3 q] by (simp add: push_bit_eq_mult)
      then show ?thesis using Qw(1) T(1) by simp
    qed
    have Yw: "uint (sigZ AND NOT 0x7F) = Y"
    proof -
      have "uint (sigZ AND NOT 0x7F) = Z div 2 ^ 7 * 2 ^ 7"
        using uint_clear_low [of 7 sigZ] by (simp add: push_bit_eq_mult Zw)
      moreover have "Z mod 128 = Z mod 512"
      proof -
        have "Z mod 512 mod 128 = Z mod 128" by (rule mod_mod_cancel) simp
        then show ?thesis using True by simp
      qed
      ultimately show ?thesis using Y div_mult_mod_eq [of Z 128] by simp
    qed
    define F where "F = (R * 2 ^ 31 - T * B) div 8"
    have remw: "rem' = word_of_int F"
      unfolding rem'_def F_def by (subst rem_word) (simp_all only: q'w T(3) Bw Rw)
    have F8: "8 * F = R * 2 ^ 31 - T * B"
    proof -
      have "8 dvd R * 2 ^ 31 - T * B" by (rule dvd_diff [OF _ dvd_mult [OF B8]]) simp
      then show ?thesis by (simp add: F_def)
    qed
    have xT: "x = of_int Y + 128 * (of_int F / of_int B)"
      using exact [of T] unfolding F8 [symmetric] Y_def by simp
    have "real_of_int (Y - 64) \<le> of_int (Z - 64)" "real_of_int Z \<le> of_int (Y + 64)"
      unfolding of_int_le_iff using Y True by simp_all
    then have "- 64 < 128 * (real_of_int F / of_int B)" "128 * (real_of_int F / of_int B) < 64"
      using x unfolding xT by simp_all
    then have "- real_of_int B < of_int (2 * F)" "of_int (2 * F) < real_of_int B"
      using B0 by (simp_all add: field_simps)
    then have "- B < 2 * F" "2 * F < B" by linarith+
    then have F: "- (2 ^ 63) < F" "F < 2 ^ 63" using B64 by simp_all
    have sgn: "x < of_int Y \<longleftrightarrow> F < 0" "x = of_int Y \<longleftrightarrow> F = 0"
      unfolding xT using B0 by (simp_all add: divide_less_0_iff)
    have mod: "uint rem' = (if F < 0 then F + 2 ^ 64 else F)"
    proof -
      have "F mod 2 ^ 64 = (F + 2 ^ 64) mod 2 ^ 64" by simp
      also have "\<dots> = F + 2 ^ 64" if "F < 0" by (rule mod_pos_pos_trivial) (use F that in simp_all)
      finally show ?thesis unfolding remw uint_word_of_int using F by (cases "F < 0") simp_all
    qed
    then have neg: "rem' AND 0x8000000000000000 \<noteq> 0 \<longleftrightarrow> F < 0" "rem' \<noteq> 0 \<longleftrightarrow> F \<noteq> 0"
      unfolding high_bit64 using F by (auto simp: word_zero_uint)
    have ev: "even Y" unfolding Y_def by simp
    define sY where "sY = sigZ AND NOT 0x7F"
    have W: "W = (if F < 0 then sY - 0x80 else if F \<noteq> 0 then sY OR 1 else sY)"
      unfolding W_def neg sY_def [symmetric] using True by (simp add: word_less_def Zm)
    have Yw': "uint sY = Y" unfolding sY_def by (rule Yw)
    have "uint (sY - 0x80) = Y - 128" if "F < 0"
    proof -
      have "2 ^ 62 \<le> x" using AN(4) B0 unfolding x_def by (simp add: field_simps)
      then have "real_of_int 128 < of_int Y" using that sgn(1) by simp
      then have "128 < Y" unfolding of_int_less_iff .
      then show ?thesis by (subst uint_sub_lem [THEN iffD1]) (simp_all add: Yw')
    qed
    then show ?thesis
      using True ev unfolding W div_fixup_def Let_def Y sgn by (auto simp: uint_or_one Yw')
  qed
  show ?thesis
    using Wx x unfolding A_def [symmetric] B_def [symmetric] x_def [symmetric] W_orig [symmetric] by blast
qed

lemma f64_div_finite:
  assumes a: "f64_finite a" "f64_mag a \<noteq> 0" and b: "f64_finite b" "f64_mag b \<noteq> 0"
  shows "f64_div a b st = f64_round st (signF64UI a \<noteq> signF64UI b) (f64_abs a / f64_abs b)"
proof -
  obtain eA sA mA where A: "f64_norm a = (eA, sA)" "uint (sA OR 0x0010000000000000) = mA" "2 ^ 52 \<le> mA" "mA < 2 ^ 53"
    "- 51 \<le> eA" "eA \<le> 2046" "f64_abs a = of_int mA * 2 powi (eA - 1075)" using a by (rule f64_norm_value)
  obtain eB sB mB where B: "f64_norm b = (eB, sB)" "uint (sB OR 0x0010000000000000) = mB" "2 ^ 52 \<le> mB" "mB < 2 ^ 53"
    "- 51 \<le> eB" "eB \<le> 2046" "f64_abs b = of_int mB * 2 powi (eB - 1075)" using b by (rule f64_norm_value)
  define lt where "lt = (mA < mB)"
  define k :: nat where "k = (if lt then 11 else 10)"
  define e where "e = (if lt then eA - eB + 0x3FE - 1 else eA - eB + 0x3FE)"
  define sigA where "sigA = push_bit k (sA OR 0x0010000000000000)"
  define sigB where "sigB = push_bit 11 (sB OR 0x0010000000000000)"
  have w: "uint sigA = mA * 2 ^ k" "uint sigB = mB * 2 ^ 11"
  proof -
    show "uint sigB = mB * 2 ^ 11" unfolding sigB_def using B by (subst uint_push_bit_small) simp_all
    show "uint sigA = mA * 2 ^ k"
      unfolding sigA_def k_def using A by (cases lt; subst uint_push_bit_small) simp_all
  qed
  have range: "uint sigB \<le> 2 * uint sigA" "uint sigA < uint sigB" "2 ^ 63 \<le> uint sigB" "uint sigB mod 2 ^ 11 = 0"
    unfolding w k_def lt_def using A(3,4) B(3,4) by (simp_all add: split: if_splits)
  obtain sig where sig: "cell 9 (of_int (uint sig)) (of_int (uint sigA) * 2 ^ 63 / of_int (uint sigB))"
    "f64_div a b st = softfloat_roundPackToF64 (signF64UI a \<noteq> signF64UI b) e sig st"
  proof -
    have l: "sA OR 0x0010000000000000 < sB OR 0x0010000000000000 \<longleftrightarrow> lt" by (simp only: word_less_def A(2) B(2) lt_def)
    have "(expF64UI a = 2047) = False" "(expF64UI a = 0 \<and> fracF64UI a = 0) = False"
      "(expF64UI b = 2047) = False" "(expF64UI b = 0 \<and> fracF64UI b = 0) = False"
      using a b unfolding f64_class_fields by simp_all
    then have code: "f64_div a b st = softfloat_roundPackToF64 (signF64UI a \<noteq> signF64UI b) e (f64_div_core sigA sigB) st"
      unfolding f64_div_def Let_def f64_norm_def [symmetric] A(1) B(1) prod.case l sigA_def sigB_def k_def e_def f64_div_core_def
      by (cases lt) (simp_all only: if_False if_True prod.case)
    obtain Z where "uint (f64_div_core sigA sigB) = div_fixup Z (of_int (uint sigA) * 2 ^ 63 / of_int (uint sigB))"
      "of_int (Z - 64) < real_of_int (uint sigA) * 2 ^ 63 / of_int (uint sigB)"
      "real_of_int (uint sigA) * 2 ^ 63 / of_int (uint sigB) < of_int Z"
      using f64_div_sig [OF range] by blast
    then have "cell 9 (of_int (uint (f64_div_core sigA sigB))) (of_int (uint sigA) * 2 ^ 63 / of_int (uint sigB))"
      using div_fixup_cell by metis
    from that [OF this code] show ?thesis .
  qed
  define x where "x = real_of_int (uint sigA) * 2 ^ 63 / of_int (uint sigB)"
  have x: "2 ^ 62 \<le> x" "x < 2 ^ 63"
  proof -
    have "real_of_int (uint sigB) \<le> of_int (2 * uint sigA)" "real_of_int (uint sigA) < of_int (uint sigB)"
      unfolding of_int_le_iff of_int_less_iff using range by simp_all
    moreover have "0 < real_of_int (uint sigB)" using range(3) by simp
    ultimately show "2 ^ 62 \<le> x" "x < 2 ^ 63" unfolding x_def by (simp_all add: field_simps)
  qed
  have bounds: "2 ^ 62 \<le> uint sig" "uint sig < 2 ^ 63"
    using cell_ge [OF sig(1), of "2 ^ 53"] cell_less [OF sig(1), of "2 ^ 54"] x unfolding x_def [symmetric]
    by simp_all
  have "f64_div a b st = f64_round st (signF64UI a \<noteq> signF64UI b) (fp_scaled 52 1023 9 e x)"
    unfolding sig(2) using sig(1) bounds A(5,6) B(5,6)
    by (intro roundPackToF64_refines) (simp_all add: x_def e_def)
  also have "fp_scaled 52 1023 9 e x = f64_abs a / f64_abs b"
    unfolding fp_scaled_def x_def w A(7) B(7) e_def k_def
    by (cases lt) (simp_all add: powi_diff powi_add power_int_minus field_simps)
  finally show ?thesis .
qed

theorem f64_div_refines: "f64_div a b st = f64_div_spec a b st"
proof -
  note cf = f64_class_fields
  have abs: "\<bar>f64_val a / f64_val b\<bar> = f64_abs a / f64_abs b"
    by (simp add: v64.abs_val f64_abs_def)
  have az: "f64_abs a / f64_abs b = 0 \<longleftrightarrow> f64_mag a = 0 \<or> f64_mag b = 0"
    by (simp add: f64_less_one(3))
  show ?thesis
  proof (cases a b rule: f64_class_cases)
    case nan
    then have "f64_div a b st = softfloat_propagateNaNF64UI a b st"
      unfolding isNaNF64UI_int f64_div_def Let_def
      by (cases "expF64UI a = 2047"; cases "fracF64UI a = 0"; simp)
    then show ?thesis using nan unfolding f64_div_spec_def Let_def by simp
  next
    case inf
    show ?thesis
    proof (cases "f64_isInf a")
      case True
      then show ?thesis
        using inf by (cases "expF64UI b = 2047") (simp_all add: f64_div_def f64_div_spec_def Let_def cf(1) isNaNF64UI_int)
    next
      case False
      then have "f64_isInf b" "expF64UI a \<noteq> 2047" using inf by (auto simp: cf(1) isNaNF64UI_int)
      then show ?thesis
        using inf False by (simp add: f64_div_def f64_div_spec_def Let_def cf(1))
    qed
  next
    case finite
    note nn = f64_finite_not [OF finite(1)] f64_finite_not [OF finite(2)]
    have e: "(expF64UI a = 2047) = False" "(expF64UI b = 2047) = False" using finite by (simp_all add: cf)
    consider (bzero) "f64_mag b = 0" | (azero) "f64_mag b \<noteq> 0" "f64_mag a = 0" | (main) "f64_mag a \<noteq> 0" "f64_mag b \<noteq> 0" by blast
    then show ?thesis
    proof cases
      case bzero
      then have "(expF64UI b = 0 \<and> fracF64UI b = 0) = True" by (simp add: cf)
      then show ?thesis
        unfolding f64_div_def Let_def word_of_exp_or64 e if_False if_True
        using nn bzero by (simp add: f64_div_spec_def v64.val_zero_iff)
    next
      case azero
      then have "(expF64UI b = 0 \<and> fracF64UI b = 0) = False" "(expF64UI a = 0 \<and> fracF64UI a = 0) = True" by (simp_all add: cf)
      moreover obtain eb sb where "f64_norm b = (eb, sb)" by (cases "f64_norm b")
      ultimately have "f64_div a b st = (packToF64UI (signF64UI a \<noteq> signF64UI b) 0 0, st)"
        unfolding f64_div_def Let_def f64_norm_def [symmetric] by (simp only: e if_False if_True prod.case)
      then show ?thesis
        using nn azero unfolding f64_div_spec_def Let_def abs az by (simp add: v64.val_zero_iff)
    next
      case main
      then show ?thesis
        using nn f64_div_finite [OF finite(1) main(1) finite(2) main(2)]
        unfolding f64_div_spec_def Let_def abs az by (simp add: v64.val_zero_iff)
    qed
  qed
qed

end
