(* ===== verification/SF_Compare.thy ===== *)
theory SF_Compare
  imports SF_Values
begin

text \<open>
  The comparisons (\<open>f32_eq.c\<close>, \<open>f32_le.c\<close>, \<open>f32_lt.c\<close>, their quiet and signaling variants and
  the 64-bit versions).  Each is the real relation on the values of the operands; a NaN
  operand makes it false and raises the invalid flag, always in the signaling variants and
  only for a signaling NaN in the quiet ones.
\<close>

section \<open>Definitions\<close>

definition f32_eq :: "float32 \<Rightarrow> float32 \<Rightarrow> sf_state \<Rightarrow> bool \<times> sf_state" where
  "f32_eq uiA uiB st =
     (if isNaNF32UI uiA \<or> isNaNF32UI uiB
      then (False, if softfloat_isSigNaNF32UI uiA \<or> softfloat_isSigNaNF32UI uiB
                   then softfloat_raiseFlags softfloat_flag_invalid st else st)
      else (uiA = uiB \<or> push_bit 1 (uiA OR uiB) = 0, st))"

definition f32_eq_signaling :: "float32 \<Rightarrow> float32 \<Rightarrow> sf_state \<Rightarrow> bool \<times> sf_state" where
  "f32_eq_signaling uiA uiB st =
     (if isNaNF32UI uiA \<or> isNaNF32UI uiB then (False, softfloat_raiseFlags softfloat_flag_invalid st)
      else (uiA = uiB \<or> push_bit 1 (uiA OR uiB) = 0, st))"

definition f32_le :: "float32 \<Rightarrow> float32 \<Rightarrow> sf_state \<Rightarrow> bool \<times> sf_state" where
  "f32_le uiA uiB st =
     (if isNaNF32UI uiA \<or> isNaNF32UI uiB then (False, softfloat_raiseFlags softfloat_flag_invalid st)
      else let signA = signF32UI uiA; signB = signF32UI uiB
           in (if signA \<noteq> signB then signA \<or> push_bit 1 (uiA OR uiB) = 0
               else uiA = uiB \<or> signA \<noteq> (uiA < uiB), st))"

definition f32_le_quiet :: "float32 \<Rightarrow> float32 \<Rightarrow> sf_state \<Rightarrow> bool \<times> sf_state" where
  "f32_le_quiet uiA uiB st =
     (if isNaNF32UI uiA \<or> isNaNF32UI uiB
      then (False, if softfloat_isSigNaNF32UI uiA \<or> softfloat_isSigNaNF32UI uiB
                   then softfloat_raiseFlags softfloat_flag_invalid st else st)
      else let signA = signF32UI uiA; signB = signF32UI uiB
           in (if signA \<noteq> signB then signA \<or> push_bit 1 (uiA OR uiB) = 0
               else uiA = uiB \<or> signA \<noteq> (uiA < uiB), st))"

definition f32_lt :: "float32 \<Rightarrow> float32 \<Rightarrow> sf_state \<Rightarrow> bool \<times> sf_state" where
  "f32_lt uiA uiB st =
     (if isNaNF32UI uiA \<or> isNaNF32UI uiB then (False, softfloat_raiseFlags softfloat_flag_invalid st)
      else let signA = signF32UI uiA; signB = signF32UI uiB
           in (if signA \<noteq> signB then signA \<and> push_bit 1 (uiA OR uiB) \<noteq> 0
               else uiA \<noteq> uiB \<and> signA \<noteq> (uiA < uiB), st))"

definition f32_lt_quiet :: "float32 \<Rightarrow> float32 \<Rightarrow> sf_state \<Rightarrow> bool \<times> sf_state" where
  "f32_lt_quiet uiA uiB st =
     (if isNaNF32UI uiA \<or> isNaNF32UI uiB
      then (False, if softfloat_isSigNaNF32UI uiA \<or> softfloat_isSigNaNF32UI uiB
                   then softfloat_raiseFlags softfloat_flag_invalid st else st)
      else let signA = signF32UI uiA; signB = signF32UI uiB
           in (if signA \<noteq> signB then signA \<and> push_bit 1 (uiA OR uiB) \<noteq> 0
               else uiA \<noteq> uiB \<and> signA \<noteq> (uiA < uiB), st))"

definition f64_eq :: "float64 \<Rightarrow> float64 \<Rightarrow> sf_state \<Rightarrow> bool \<times> sf_state" where
  "f64_eq uiA uiB st =
     (if isNaNF64UI uiA \<or> isNaNF64UI uiB
      then (False, if softfloat_isSigNaNF64UI uiA \<or> softfloat_isSigNaNF64UI uiB
                   then softfloat_raiseFlags softfloat_flag_invalid st else st)
      else (uiA = uiB \<or> (uiA OR uiB) AND 0x7FFFFFFFFFFFFFFF = 0, st))"

definition f64_eq_signaling :: "float64 \<Rightarrow> float64 \<Rightarrow> sf_state \<Rightarrow> bool \<times> sf_state" where
  "f64_eq_signaling uiA uiB st =
     (if isNaNF64UI uiA \<or> isNaNF64UI uiB then (False, softfloat_raiseFlags softfloat_flag_invalid st)
      else (uiA = uiB \<or> (uiA OR uiB) AND 0x7FFFFFFFFFFFFFFF = 0, st))"

definition f64_le :: "float64 \<Rightarrow> float64 \<Rightarrow> sf_state \<Rightarrow> bool \<times> sf_state" where
  "f64_le uiA uiB st =
     (if isNaNF64UI uiA \<or> isNaNF64UI uiB then (False, softfloat_raiseFlags softfloat_flag_invalid st)
      else let signA = signF64UI uiA; signB = signF64UI uiB
           in (if signA \<noteq> signB then signA \<or> (uiA OR uiB) AND 0x7FFFFFFFFFFFFFFF = 0
               else uiA = uiB \<or> signA \<noteq> (uiA < uiB), st))"

definition f64_le_quiet :: "float64 \<Rightarrow> float64 \<Rightarrow> sf_state \<Rightarrow> bool \<times> sf_state" where
  "f64_le_quiet uiA uiB st =
     (if isNaNF64UI uiA \<or> isNaNF64UI uiB
      then (False, if softfloat_isSigNaNF64UI uiA \<or> softfloat_isSigNaNF64UI uiB
                   then softfloat_raiseFlags softfloat_flag_invalid st else st)
      else let signA = signF64UI uiA; signB = signF64UI uiB
           in (if signA \<noteq> signB then signA \<or> (uiA OR uiB) AND 0x7FFFFFFFFFFFFFFF = 0
               else uiA = uiB \<or> signA \<noteq> (uiA < uiB), st))"

definition f64_lt :: "float64 \<Rightarrow> float64 \<Rightarrow> sf_state \<Rightarrow> bool \<times> sf_state" where
  "f64_lt uiA uiB st =
     (if isNaNF64UI uiA \<or> isNaNF64UI uiB then (False, softfloat_raiseFlags softfloat_flag_invalid st)
      else let signA = signF64UI uiA; signB = signF64UI uiB
           in (if signA \<noteq> signB then signA \<and> (uiA OR uiB) AND 0x7FFFFFFFFFFFFFFF \<noteq> 0
               else uiA \<noteq> uiB \<and> signA \<noteq> (uiA < uiB), st))"

definition f64_lt_quiet :: "float64 \<Rightarrow> float64 \<Rightarrow> sf_state \<Rightarrow> bool \<times> sf_state" where
  "f64_lt_quiet uiA uiB st =
     (if isNaNF64UI uiA \<or> isNaNF64UI uiB
      then (False, if softfloat_isSigNaNF64UI uiA \<or> softfloat_isSigNaNF64UI uiB
                   then softfloat_raiseFlags softfloat_flag_invalid st else st)
      else let signA = signF64UI uiA; signB = signF64UI uiB
           in (if signA \<noteq> signB then signA \<and> (uiA OR uiB) AND 0x7FFFFFFFFFFFFFFF \<noteq> 0
               else uiA \<noteq> uiB \<and> signA \<noteq> (uiA < uiB), st))"

section \<open>Refinement\<close>

definition f32_compare_spec ::
  "(real \<Rightarrow> real \<Rightarrow> bool) \<Rightarrow> bool \<Rightarrow> float32 \<Rightarrow> float32 \<Rightarrow> sf_state \<Rightarrow> bool \<times> sf_state" where
  "f32_compare_spec R quiet a b st =
     (if isNaNF32UI a \<or> isNaNF32UI b
      then (False, if \<not> quiet \<or> softfloat_isSigNaNF32UI a \<or> softfloat_isSigNaNF32UI b
                   then softfloat_raiseFlags softfloat_flag_invalid st else st)
      else (R (f32_val a) (f32_val b), st))"

definition f64_compare_spec ::
  "(real \<Rightarrow> real \<Rightarrow> bool) \<Rightarrow> bool \<Rightarrow> float64 \<Rightarrow> float64 \<Rightarrow> sf_state \<Rightarrow> bool \<times> sf_state" where
  "f64_compare_spec R quiet a b st =
     (if isNaNF64UI a \<or> isNaNF64UI b
      then (False, if \<not> quiet \<or> softfloat_isSigNaNF64UI a \<or> softfloat_isSigNaNF64UI b
                   then softfloat_raiseFlags softfloat_flag_invalid st else st)
      else (R (f64_val a) (f64_val b), st))"

lemma f32_both_zero: "push_bit 1 (a OR b) = 0 \<longleftrightarrow> f32_mag a = 0 \<and> f32_mag b = 0" for a b :: float32
proof -
  have "push_bit 1 (a OR b) = push_bit 1 a OR push_bit 1 b" by (simp add: push_bit_or)
  moreover have "push_bit 1 c = 0 \<longleftrightarrow> f32_mag c = 0" for c :: float32
    using push_low_nonzero [of 31 c] by (simp add: f32_mag_def)
  ultimately show ?thesis by (simp add: or_eq_0_iff)
qed

lemma f32_word_less: "signF32UI a = signF32UI b \<Longrightarrow> a < b \<longleftrightarrow> f32_mag a < f32_mag b"
  unfolding word_less_def using f32_sign_mag [of a] f32_sign_mag [of b] by simp

theorem f32_compare_refines:
  "f32_eq a b st = f32_compare_spec (=) True a b st"
  "f32_eq_signaling a b st = f32_compare_spec (=) False a b st"
  "f32_le a b st = f32_compare_spec (\<le>) False a b st"
  "f32_le_quiet a b st = f32_compare_spec (\<le>) True a b st"
  "f32_lt a b st = f32_compare_spec (<) False a b st"
  "f32_lt_quiet a b st = f32_compare_spec (<) True a b st"
proof -
  note defs = f32_compare_spec_def f32_eq_def f32_eq_signaling_def f32_le_def f32_le_quiet_def
    f32_lt_def f32_lt_quiet_def Let_def f32_both_zero
  have eq: "a = b \<or> (f32_mag a = 0 \<and> f32_mag b = 0) \<longleftrightarrow> f32_val a = f32_val b"
    unfolding v32.val_eq_iff ..
  have le: "(if signF32UI a \<noteq> signF32UI b then signF32UI a \<or> (f32_mag a = 0 \<and> f32_mag b = 0)
      else a = b \<or> signF32UI a \<noteq> (a < b)) \<longleftrightarrow> f32_val a \<le> f32_val b"
    unfolding v32.val_le_iff f32_bits_eq using f32_word_less [of a b] by auto
  have lt: "(if signF32UI a \<noteq> signF32UI b then signF32UI a \<and> \<not> (f32_mag a = 0 \<and> f32_mag b = 0)
      else a \<noteq> b \<and> signF32UI a \<noteq> (a < b)) \<longleftrightarrow> f32_val a < f32_val b"
    unfolding v32.val_less_iff f32_bits_eq using f32_word_less [of a b] by auto
  show "f32_eq a b st = f32_compare_spec (=) True a b st"
    "f32_eq_signaling a b st = f32_compare_spec (=) False a b st"
    "f32_le a b st = f32_compare_spec (\<le>) False a b st"
    "f32_le_quiet a b st = f32_compare_spec (\<le>) True a b st"
    "f32_lt a b st = f32_compare_spec (<) False a b st"
    "f32_lt_quiet a b st = f32_compare_spec (<) True a b st"
    unfolding defs eq le lt by simp_all
qed

lemma f64_both_zero: "(a OR b) AND 0x7FFFFFFFFFFFFFFF = 0 \<longleftrightarrow> f64_mag a = 0 \<and> f64_mag b = 0" for a b :: float64
proof -
  have "(a OR b) AND 0x7FFFFFFFFFFFFFFF = (a AND mask 63) OR (b AND mask 63)"
    unfolding mask_numerals by (simp add: and.commute [of _ "mask 63"] bit.conj_disj_distrib)
  moreover have "c AND mask 63 = 0 \<longleftrightarrow> f64_mag c = 0" for c :: float64
    unfolding word_zero_uint uint_and_mask f64_mag_def ..
  ultimately show ?thesis by (simp add: or_eq_0_iff)
qed

lemma f64_word_less: "signF64UI a = signF64UI b \<Longrightarrow> a < b \<longleftrightarrow> f64_mag a < f64_mag b"
  unfolding word_less_def using f64_sign_mag [of a] f64_sign_mag [of b] by simp

theorem f64_compare_refines:
  "f64_eq a b st = f64_compare_spec (=) True a b st"
  "f64_eq_signaling a b st = f64_compare_spec (=) False a b st"
  "f64_le a b st = f64_compare_spec (\<le>) False a b st"
  "f64_le_quiet a b st = f64_compare_spec (\<le>) True a b st"
  "f64_lt a b st = f64_compare_spec (<) False a b st"
  "f64_lt_quiet a b st = f64_compare_spec (<) True a b st"
proof -
  note defs = f64_compare_spec_def f64_eq_def f64_eq_signaling_def f64_le_def f64_le_quiet_def
    f64_lt_def f64_lt_quiet_def Let_def f64_both_zero
  have eq: "a = b \<or> (f64_mag a = 0 \<and> f64_mag b = 0) \<longleftrightarrow> f64_val a = f64_val b"
    unfolding v64.val_eq_iff ..
  have le: "(if signF64UI a \<noteq> signF64UI b then signF64UI a \<or> (f64_mag a = 0 \<and> f64_mag b = 0)
      else a = b \<or> signF64UI a \<noteq> (a < b)) \<longleftrightarrow> f64_val a \<le> f64_val b"
    unfolding v64.val_le_iff f64_bits_eq using f64_word_less [of a b] by auto
  have lt: "(if signF64UI a \<noteq> signF64UI b then signF64UI a \<and> \<not> (f64_mag a = 0 \<and> f64_mag b = 0)
      else a \<noteq> b \<and> signF64UI a \<noteq> (a < b)) \<longleftrightarrow> f64_val a < f64_val b"
    unfolding v64.val_less_iff f64_bits_eq using f64_word_less [of a b] by auto
  show "f64_eq a b st = f64_compare_spec (=) True a b st"
    "f64_eq_signaling a b st = f64_compare_spec (=) False a b st"
    "f64_le a b st = f64_compare_spec (\<le>) False a b st"
    "f64_le_quiet a b st = f64_compare_spec (\<le>) True a b st"
    "f64_lt a b st = f64_compare_spec (<) False a b st"
    "f64_lt_quiet a b st = f64_compare_spec (<) True a b st"
    unfolding defs eq le lt by simp_all
qed

end
