(* ===== verification/SF_MulAddF32.thy ===== *)
theory SF_MulAddF32
  imports SF_ToFloat
begin

text \<open>
  Fused multiply-add in single precision (\<open>s_mulAddF32.c\<close>, \<open>f32_mulAdd.c\<close>).  The exact product
  has 48 bits and is kept in a 64-bit word; the third operand is aligned with it and the sum
  is rounded once.  \<open>mulAddF32_sum\<close> is the part of the function after the operands have been
  normalised.
\<close>

section \<open>Definitions\<close>

definition softfloat_mulAdd_subC :: u8 where "softfloat_mulAdd_subC = 1"
definition softfloat_mulAdd_subProd :: u8 where "softfloat_mulAdd_subProd = 2"

definition mulAddF32_norm :: "bool \<Rightarrow> int \<Rightarrow> u64 \<Rightarrow> sf_state \<Rightarrow> float32 \<times> sf_state" where
  "mulAddF32_norm signZ expZ sig64Z st =
     (let shiftCount = int (softfloat_countLeadingZeros64 sig64Z) - 1;
          expZ = expZ - shiftCount;
          shiftCount = shiftCount - 32;
          sigZ = (if shiftCount < 0
                  then (ucast (softfloat_shortShiftRightJam64 sig64Z (nat (- shiftCount))) :: u32)
                  else push_bit (nat shiftCount) (ucast sig64Z))
      in softfloat_roundPackToF32 signZ expZ sigZ st)"

definition mulAddF32_sum ::
  "bool \<Rightarrow> int \<Rightarrow> u64 \<Rightarrow> bool \<Rightarrow> int \<Rightarrow> u32 \<Rightarrow> sf_state \<Rightarrow> float32 \<times> sf_state" where
  "mulAddF32_sum signProd expProd sigProd signC expC sigC st =
     (let expDiff = expProd - expC
      in if signProd = signC
         then let (expZ, sigZ) =
                (if expDiff \<le> 0
                 then (expC, (ucast (ucast sigC + softfloat_shiftRightJam64 sigProd (nat (32 - expDiff))) :: u32))
                 else let sig64Z = sigProd + softfloat_shiftRightJam64 (push_bit 32 (ucast sigC)) (nat expDiff)
                      in (expProd, ucast (softfloat_shortShiftRightJam64 sig64Z 32)));
                (expZ, sigZ) = (if sigZ < 0x40000000 then (expZ - 1, push_bit 1 sigZ) else (expZ, sigZ))
              in softfloat_roundPackToF32 signProd expZ sigZ st
         else let sig64C = push_bit 32 (ucast sigC)
              in if expDiff < 0
                 then mulAddF32_norm signC expC (sig64C - softfloat_shiftRightJam64 sigProd (nat (- expDiff))) st
                 else if expDiff = 0
                 then let sig64Z = sigProd - sig64C
                      in if sig64Z = 0
                         then (packToF32UI (softfloat_roundingMode st = softfloat_round_min) 0 0, st)
                         else if sig64Z AND 0x8000000000000000 \<noteq> 0
                         then mulAddF32_norm (\<not> signProd) expProd (- sig64Z) st
                         else mulAddF32_norm signProd expProd sig64Z st
                 else mulAddF32_norm signProd expProd (sigProd - softfloat_shiftRightJam64 sig64C (nat expDiff)) st)"

definition softfloat_mulAddF32 :: "u32 \<Rightarrow> u32 \<Rightarrow> u32 \<Rightarrow> u8 \<Rightarrow> sf_state \<Rightarrow> float32 \<times> sf_state" where
  "softfloat_mulAddF32 uiA uiB uiC op st =
     (let signA = signF32UI uiA;
          expA = expF32UI uiA;
          sigA = fracF32UI uiA;
          signB = signF32UI uiB;
          expB = expF32UI uiB;
          sigB = fracF32UI uiB;
          signC = (signF32UI uiC \<noteq> (op = softfloat_mulAdd_subC));
          expC = expF32UI uiC;
          sigC = fracF32UI uiC;
          signProd = ((signA \<noteq> signB) \<noteq> (op = softfloat_mulAdd_subProd));
          propagateNaN_ZC = (\<lambda>(uiZ, st). softfloat_propagateNaNF32UI uiZ uiC st);
          propagateNaN_ABC = propagateNaN_ZC (softfloat_propagateNaNF32UI uiA uiB st);
          invalid = propagateNaN_ZC (defaultNaNF32UI, softfloat_raiseFlags softfloat_flag_invalid st);
          infProdArg = (\<lambda>magBits.
            if magBits \<noteq> 0
            then let uiZ = packToF32UI signProd 0xFF 0
                 in if expC \<noteq> 0xFF then (uiZ, st)
                    else if sigC \<noteq> 0 then propagateNaN_ZC (uiZ, st)
                    else if signProd = signC then (uiZ, st) else invalid
            else invalid);
          completeCancellation = (packToF32UI (softfloat_roundingMode st = softfloat_round_min) 0 0, st);
          zeroProd = (if expC = 0 \<and> sigC = 0 \<and> signProd \<noteq> signC then completeCancellation else (uiC, st))
      in if expA = 0xFF
         then if sigA \<noteq> 0 \<or> (expB = 0xFF \<and> sigB \<noteq> 0) then propagateNaN_ABC
              else infProdArg (word_of_int expB OR sigB)
         else if expB = 0xFF
         then if sigB \<noteq> 0 then propagateNaN_ABC else infProdArg (word_of_int expA OR sigA)
         else if expC = 0xFF
         then if sigC \<noteq> 0 then propagateNaN_ZC (0, st) else (uiC, st)
         else if expA = 0 \<and> sigA = 0 then zeroProd
         else let (expA, sigA) = (if expA = 0 then softfloat_normSubnormalF32Sig sigA else (expA, sigA))
              in if expB = 0 \<and> sigB = 0 then zeroProd
                 else let (expB, sigB) = (if expB = 0 then softfloat_normSubnormalF32Sig sigB else (expB, sigB));
                          expProd = expA + expB - 0x7E;
                          sigA = push_bit 7 (sigA OR 0x00800000);
                          sigB = push_bit 7 (sigB OR 0x00800000);
                          sigProd = (ucast sigA * ucast sigB :: u64);
                          (expProd, sigProd) =
                            (if sigProd < 0x2000000000000000 then (expProd - 1, push_bit 1 sigProd)
                             else (expProd, sigProd))
                      in if expC = 0 \<and> sigC = 0
                         then softfloat_roundPackToF32 signProd (expProd - 1)
                                (ucast (softfloat_shortShiftRightJam64 sigProd 31)) st
                         else let (expC, sigC) = (if expC = 0 then softfloat_normSubnormalF32Sig sigC else (expC, sigC));
                                  sigC = push_bit 6 (sigC OR 0x00800000)
                              in mulAddF32_sum signProd expProd sigProd signC expC sigC st)"

definition f32_mulAdd :: "float32 \<Rightarrow> float32 \<Rightarrow> float32 \<Rightarrow> sf_state \<Rightarrow> float32 \<times> sf_state" where
  "f32_mulAdd a b c st = softfloat_mulAddF32 a b c 0 st"

section \<open>Specification\<close>

text \<open>
  The invalid operations are infinity times zero and infinity minus infinity; the first is
  invalid even when the third operand is a NaN.
\<close>

definition f32_mulAdd_spec :: "float32 \<Rightarrow> float32 \<Rightarrow> float32 \<Rightarrow> sf_state \<Rightarrow> float32 \<times> sf_state" where
  "f32_mulAdd_spec a b c st =
     (let sP = (signF32UI a \<noteq> signF32UI b); sC = signF32UI c;
          p = f32_val a * f32_val b; v = p + f32_val c;
          nan = (isNaNF32UI a \<or> isNaNF32UI b);
          infP = (f32_isInf a \<or> f32_isInf b);
          inf0 = (f32_isInf a \<and> f32_val b = 0 \<or> f32_isInf b \<and> f32_val a = 0);
          sig = (softfloat_isSigNaNF32UI a \<or> softfloat_isSigNaNF32UI b \<or> softfloat_isSigNaNF32UI c);
          inv = (\<not> nan \<and> (inf0 \<or> infP \<and> f32_isInf c \<and> sP \<noteq> sC))
      in if nan \<or> isNaNF32UI c \<or> inv
         then (defaultNaNF32UI, if sig \<or> inv then softfloat_raiseFlags softfloat_flag_invalid st else st)
         else if infP then (packToF32UI sP 0xFF 0, st)
         else if f32_isInf c then (c, st)
         else if v = 0
         then (packToF32UI (if p = 0 \<and> sP = sC then sP else softfloat_roundingMode st = softfloat_round_min) 0 0, st)
         else f32_round st (v < 0) \<bar>v\<bar>)"

section \<open>Aligned sums\<close>

lemma mulAddF32_norm_round:
  assumes N: "sig64 \<noteq> 0" "uint sig64 < 2 ^ 63"
    and c: "X = of_int (uint sig64) \<or> cell 1 (of_int (uint sig64)) X \<and> 2 ^ 60 \<le> uint sig64"
    and e: "- 30000 \<le> e" "e < 30000"
  shows "mulAddF32_norm s e sig64 st = f32_round st s (fp_scaled 23 127 6 e (X / 2 ^ 32))"
proof -
  obtain d where d: "int (softfloat_countLeadingZeros64 sig64) - 1 = int d"
    "2 ^ 62 \<le> uint sig64 * 2 ^ d" "uint sig64 * 2 ^ d < 2 ^ 63"
    using N by (rule clz64_norm)
  define n where "n = uint sig64"
  have one: "2 ^ 0 \<le> n" using N(1) unfolding n_def
    by (metis word_zero_uint uint_ge_0 int_one_le_iff_zero_less order_le_less power_0)
  have d62: "d \<le> 62" using shift_unique [of 62 n d 62] d one by (simp add: n_def)
  define sigZ where "sigZ = (if int d - 32 < 0
      then (ucast (softfloat_shortShiftRightJam64 sig64 (nat (- (int d - 32)))) :: u32)
      else push_bit (nat (int d - 32)) (ucast sig64))"
  have "cell 6 (of_int (uint sigZ)) (X / 2 ^ 32 * 2 ^ d) \<and> 2 ^ 30 \<le> uint sigZ \<and> uint sigZ < 2 ^ 31"
  proof (cases "d < 32")
    case True
    define k where "k = 32 - d"
    have k: "d + k = 32" "1 \<le> k" using True by (simp_all add: k_def)
    have p: "(2::int) ^ 62 = 2 ^ (30 + k) * 2 ^ d" "(2::int) ^ 63 = 2 ^ (31 + k) * 2 ^ d"
      using k by (simp_all flip: power_add add: add.assoc) (simp_all add: add.commute)
    have r: "2 ^ (30 + k) \<le> n" "n < 2 ^ (31 + k)" using d(2,3) unfolding n_def p by simp_all
    note j = jam_range [OF r]
    have z: "uint sigZ = jam n k"
      using True j unfolding sigZ_def k_def n_def
      by (simp add: uint_ucast_64_32 shortShiftRightJam64_correct nat_diff_distrib)
    obtain h where "cell h (of_int n) X" "h \<le> 1" using c unfolding n_def by (metis cell_refl le_numeral_extra(4) zero_le_one)
    then have "cell 6 (of_int (uint sigZ)) (X / 2 ^ k)" unfolding z by (intro cell_jam [of h]) (simp_all add: trans_le_add1)
    moreover have "X / 2 ^ 32 * 2 ^ d = X / 2 ^ k" by (simp add: k(1) [symmetric] power_add)
    ultimately show ?thesis using j z by simp
  next
    case False
    define k where "k = d - 32"
    have k: "d = k + 32" using False by (simp add: k_def)
    have n31: "n * 2 ^ k < 2 ^ 31" "2 ^ 30 \<le> n * 2 ^ k" using d(2,3) unfolding n_def k power_add by simp_all
    have small: "n < 2 ^ 31" using n31(1) one
      by (smt (verit) mult_le_cancel_left1 one_le_power)
    have z: "uint sigZ = n * 2 ^ k"
      using n31 small False unfolding sigZ_def n_def k_def
      by (simp add: uint_push_bit_mod uint_ucast_64_32 nat_diff_distrib)
    moreover have "X = of_int n" using c small unfolding n_def by auto
    ultimately show ?thesis using n31 by (simp add: k power_add)
  qed
  then have "softfloat_roundPackToF32 s (e - int d) sigZ st =
      f32_round st s (fp_scaled 23 127 6 (e - int d) (X / 2 ^ 32 * 2 ^ d))"
    using e d62 by (intro roundPackToF32_refines) simp_all
  then show ?thesis
    unfolding mulAddF32_norm_def Let_def d(1) sigZ_def [symmetric] scaled_shift .
qed

text \<open>The two terms at the scale of their exponents, and what the alignment makes of them.\<close>

lemma scaled_align: "fp_scaled fb bias h (e - int d) x = fp_scaled fb bias h e (x / 2 ^ d)"
  using scaled_shift [of fb bias h e d "x / 2 ^ d"] by simp

lemma scaled_add: "fp_scaled fb bias h e x + fp_scaled fb bias h e y = fp_scaled fb bias h e (x + y)"
  and scaled_diff: "fp_scaled fb bias h e x - fp_scaled fb bias h e y = fp_scaled fb bias h e (x - y)"
  by (simp_all add: fp_scaled_def algebra_simps)

lemma scaled_pos: "0 < fp_scaled fb bias h e x \<longleftrightarrow> 0 < x"
proof -
  have "(0::real) < 2 powi (e - bias - int (fb + h))" by simp
  then show ?thesis unfolding fp_scaled_def by (metis mult_pos_pos zero_less_mult_pos2)
qed

lemma cell_plus_even: "cell 1 n x \<Longrightarrow> even k \<Longrightarrow> cell 1 (of_int k + n) (of_int k + x)"
  and cell_minus_even: "cell 1 n x \<Longrightarrow> even k \<Longrightarrow> cell 1 (of_int k - n) (of_int k - x)"
  using cell_plus [of 1 n x "k div 2"] cell_minus [of 1 n x "k div 2"] by (auto elim!: evenE simp: mult.commute)

lemma jam_small: "0 \<le> n \<Longrightarrow> n < 2 ^ (l + k) \<Longrightarrow> 1 \<le> l \<Longrightarrow> k \<le> d \<Longrightarrow> jam n d < 2 ^ l \<and> 0 \<le> jam n d"
proof -
  assume a: "0 \<le> n" "n < 2 ^ (l + k)" "1 \<le> l" "k \<le> d"
  have "(2::int) ^ (l + k) \<le> 2 ^ (l + d)" using a(4) by (intro power_increasing) simp_all
  then have "n < 2 ^ (l + d)" using a(2) by linarith
  then have "n < 2 * 2 ^ (l - 1) * 2 ^ d" using a(3) by (cases l) (simp_all add: power_add)
  then have "jam n d < 2 * 2 ^ (l - 1)" using jam_even_multiple(1) [of n d "2 ^ (l - 1)"] by simp
  moreover have "0 \<le> jam n d" using jam_bounds(1) [of n d] a(1) by (smt (verit) pos_imp_zdiv_nonneg_iff zero_less_power)
  ultimately show ?thesis using a(3) by (cases l) simp_all
qed

lemma mulAddF32_add:
  assumes P: "2 ^ 61 \<le> uint sigProd" "uint sigProd < 2 ^ 62" "2 ^ 14 dvd uint sigProd"
    and C: "2 ^ 29 \<le> uint sigC" "uint sigC < 2 ^ 30" "2 ^ 6 dvd uint sigC"
    and e: "- 10000 \<le> expProd" "expProd < 10000" "- 10000 \<le> expC" "expC < 10000"
  shows "mulAddF32_sum s expProd sigProd s expC sigC st = f32_round st s
     (fp_scaled 23 127 6 expProd (of_int (uint sigProd) / 2 ^ 32) + fp_scaled 23 127 6 expC (of_int (uint sigC)))"
proof (cases "expProd \<le> expC")
  case True
  define d where "d = nat (expC - expProd)"
  have d: "expProd = expC - int d" "nat (32 - (expProd - expC)) = 32 + d" using True by (simp_all add: d_def)
  define j where "j = jam (uint sigProd) (32 + d)"
  have j: "0 \<le> j" "j < 2 ^ 30"
    using jam_small [of "uint sigProd" 30 32 "32 + d"] P(2) by (simp_all add: j_def)
  have z: "uint (ucast (ucast sigC + softfloat_shiftRightJam64 sigProd (32 + d)) :: u32) = uint sigC + j"
    using j C by (simp add: uint_ucast_64_32 uint_word_ariths shiftRightJam64_correct j_def)
  have c: "cell 5 (of_int (uint sigC + j)) (of_int (uint sigC) + of_int (uint sigProd) / 2 ^ (32 + d))"
    using cell_mono [OF cell_plus_even [OF cell_jam_int [of 1 "uint sigProd" "32 + d"]], of "uint sigC" 5] C(3)
    unfolding j_def by (auto elim: dvd_trans [rotated])
  have "mulAddF32_sum s expProd sigProd s expC sigC st =
      f32_round st s (fp_scaled 23 127 6 expC (of_int (uint sigC) + of_int (uint sigProd) / 2 ^ (32 + d)))"
    unfolding mulAddF32_sum_def Let_def d(2)
    using roundPackToF32_norm1 [OF c [folded z], of expC s st] True j C e unfolding z by simp
  then show ?thesis by (simp add: d(1) scaled_align scaled_add power_add add.commute mult.commute)
next
  case False
  define d where "d = nat (expProd - expC)"
  have d: "expC = expProd - int d" "1 \<le> d" using False by (simp_all add: d_def)
  define j where "j = jam (uint sigC * 2 ^ 32) d"
  have j: "0 \<le> j" "j < 2 ^ 61"
    using jam_small [of "uint sigC * 2 ^ 32" 61 1 d] C d(2) by (simp_all add: j_def)
  have pb: "uint (push_bit 32 (ucast sigC) :: u64) = uint sigC * 2 ^ 32"
    using C by (subst uint_push_bit_small) simp_all
  define sum where "sum = sigProd + softfloat_shiftRightJam64 (push_bit 32 (ucast sigC)) d"
  have s: "uint sum = uint sigProd + j"
    using j P d(2) by (simp add: sum_def uint_word_ariths shiftRightJam64_correct pb j_def)
  have c1: "cell 1 (of_int (uint sum)) (of_int (uint sigProd) + of_int (uint sigC * 2 ^ 32) / 2 ^ d)"
    using cell_plus_even [OF cell_jam_int [of 1 "uint sigC * 2 ^ 32" d], of "uint sigProd"] P(3)
    unfolding s j_def by (auto elim: dvd_trans [rotated])
  have r: "2 ^ (29 + 32) \<le> uint sum" "uint sum < 2 ^ (31 + 32)" using P j by (simp_all add: s)
  note jr = jam_range [OF r]
  have z: "uint (ucast (softfloat_shortShiftRightJam64 sum 32) :: u32) = jam (uint sum) 32"
    using jr by (simp add: uint_ucast_64_32 shortShiftRightJam64_correct)
  have c: "cell 5 (of_int (jam (uint sum) 32)) ((of_int (uint sigProd) + of_int (uint sigC * 2 ^ 32) / 2 ^ d) / 2 ^ 32)"
    by (rule cell_jam [OF c1]) simp_all
  have "mulAddF32_sum s expProd sigProd s expC sigC st = f32_round st s
      (fp_scaled 23 127 6 expProd ((of_int (uint sigProd) + of_int (uint sigC * 2 ^ 32) / 2 ^ d) / 2 ^ 32))"
    unfolding mulAddF32_sum_def Let_def d_def [symmetric] sum_def [symmetric]
    using roundPackToF32_norm1 [OF c [folded z], of expProd s st] False jr e unfolding z by simp
  then show ?thesis by (simp add: d(1) scaled_align scaled_add add_divide_distrib)
qed

lemma signed_mod64: "- (2 ^ 63) \<le> n \<Longrightarrow> n < 2 ^ 63 \<Longrightarrow> n mod 2 ^ 64 = (if n < 0 then n + 2 ^ 64 else n)" for n :: int
proof (cases "n < 0")
  case True
  assume "- (2 ^ 63) \<le> n" "n < 2 ^ 63"
  then have "(n + 2 ^ 64) mod 2 ^ 64 = n + 2 ^ 64" using True by (intro mod_pos_pos_trivial) simp_all
  then show ?thesis using True by simp
qed simp

lemma mulAddF32_sub:
  assumes P: "2 ^ 61 \<le> uint sigProd" "uint sigProd < 2 ^ 62" "2 ^ 14 dvd uint sigProd"
    and C: "2 ^ 29 \<le> uint sigC" "uint sigC < 2 ^ 30" "2 ^ 6 dvd uint sigC"
    and e: "- 10000 \<le> expProd" "expProd < 10000" "- 10000 \<le> expC" "expC < 10000"
  defines "x \<equiv> fp_scaled 23 127 6 expProd (of_int (uint sigProd) / 2 ^ 32)"
    and "y \<equiv> fp_scaled 23 127 6 expC (of_int (uint sigC))"
  shows "mulAddF32_sum s expProd sigProd (\<not> s) expC sigC st =
     (if x = y then (packToF32UI (softfloat_roundingMode st = softfloat_round_min) 0 0, st)
      else f32_round st (if x < y then \<not> s else s) \<bar>x - y\<bar>)"
proof -
  define K where "K = uint sigC * 2 ^ 32"
  have pb: "uint (push_bit 32 (ucast sigC) :: u64) = K"
    using C by (subst uint_push_bit_small) (simp_all add: K_def)
  have K: "2 ^ 61 \<le> K" "K < 2 ^ 62" "even K" "real_of_int (uint sigC) = of_int K / 2 ^ 32" using C by (simp_all add: K_def)
  have even: "even (uint sigProd)" using P(3) by (auto elim: dvd_trans [rotated])
  have align: "X = of_int (M - jam L d) \<or> cell 1 (of_int (M - jam L d)) X \<and> 2 ^ 60 \<le> M - jam L d"
    "0 < M - jam L d" "M - jam L d < 2 ^ 63" "0 < X" "0 \<le> jam L d"
    if "2 ^ 61 \<le> M" "M < 2 ^ 62" "even M" "2 ^ 61 \<le> L" "L < 2 ^ 62" "even L" "1 \<le> d" "X = of_int M - of_int L / 2 ^ d"
    for M L d X
  proof -
    have j: "jam L d < 2 ^ 61" "0 \<le> jam L d" using jam_small [of L 61 1 d] that by simp_all
    show "0 < M - jam L d" "M - jam L d < 2 ^ 63" "0 \<le> jam L d" using j that by simp_all
    have "(2::real) ^ 1 \<le> 2 ^ d" using that(7) by (intro power_increasing) simp_all
    then have "of_int L / 2 ^ d \<le> real_of_int L / 2" using that by (intro divide_left_mono) simp_all
    then show "0 < X" using that by simp
    show "X = of_int (M - jam L d) \<or> cell 1 (of_int (M - jam L d)) X \<and> 2 ^ 60 \<le> M - jam L d"
    proof (cases "d = 1")
      case True
      have "L mod 2 = 0" using \<open>even L\<close> by presburger
      then have "jam L 1 = L div 2" by (simp add: jam_exact)
      moreover have "real_of_int (L div 2) = of_int L / 2" using \<open>even L\<close> by (simp add: real_of_int_div)
      ultimately show ?thesis using True that(8) by simp
    next
      case False
      then have "jam L d < 2 ^ 60" using jam_small [of L 60 2 d] that by simp
      moreover have "cell 1 (of_int (M - jam L d)) X"
        unfolding that(8) of_int_diff by (intro cell_minus_even cell_jam_int) (use that in simp_all)
      ultimately show ?thesis using that by simp
    qed
  qed
  consider (lt) "expProd < expC" | (eq) "expProd = expC" | (gt) "expC < expProd" by linarith
  then show ?thesis
  proof cases
    case lt
    define d where "d = nat (expC - expProd)"
    have d: "expProd = expC - int d" "1 \<le> d" "nat (- (expProd - expC)) = d" using lt by (simp_all add: d_def)
    define X :: real where "X = of_int K - of_int (uint sigProd) / 2 ^ d"
    note al = align [OF K(1-3) P(1,2) even d(2) X_def]
    define w where "w = push_bit 32 (ucast sigC) - softfloat_shiftRightJam64 sigProd d"
    have w: "uint w = K - jam (uint sigProd) d"
      using al(2,3,5) K unfolding w_def by (simp add: uint_word_ariths pb shiftRightJam64_correct [OF d(2)])
    have diff: "y - x = fp_scaled 23 127 6 expC (X / 2 ^ 32)"
      unfolding x_def y_def d(1) scaled_align scaled_diff X_def K(4) by (simp add: diff_divide_distrib mult.commute)
    have "0 < y - x" unfolding diff scaled_pos using al(4) by simp
    moreover have "mulAddF32_sum s expProd sigProd (\<not> s) expC sigC st = mulAddF32_norm (\<not> s) expC w st"
      using lt by (simp add: mulAddF32_sum_def Let_def w_def d_def)
    moreover have "mulAddF32_norm (\<not> s) expC w st = f32_round st (\<not> s) (y - x)"
      unfolding diff by (rule mulAddF32_norm_round) (use al(1-3) e w in \<open>auto simp: word_zero_uint\<close>)
    ultimately show ?thesis by simp
  next
    case gt
    define d where "d = nat (expProd - expC)"
    have d: "expC = expProd - int d" "1 \<le> d" "nat (expProd - expC) = d" using gt by (simp_all add: d_def)
    define X :: real where "X = of_int (uint sigProd) - of_int K / 2 ^ d"
    note al = align [OF P(1,2) even K(1-3) d(2) X_def]
    define w where "w = sigProd - softfloat_shiftRightJam64 (push_bit 32 (ucast sigC)) d"
    have w: "uint w = uint sigProd - jam K d"
      using al(2,3,5) P unfolding w_def by (simp add: uint_word_ariths pb shiftRightJam64_correct [OF d(2)])
    have diff: "x - y = fp_scaled 23 127 6 expProd (X / 2 ^ 32)"
      unfolding x_def y_def d(1) scaled_align scaled_diff X_def K(4) by (simp add: diff_divide_distrib mult.commute)
    have "0 < x - y" unfolding diff scaled_pos using al(4) by simp
    moreover have "mulAddF32_sum s expProd sigProd (\<not> s) expC sigC st = mulAddF32_norm s expProd w st"
      using gt by (simp add: mulAddF32_sum_def Let_def w_def d_def)
    moreover have "mulAddF32_norm s expProd w st = f32_round st s (x - y)"
      unfolding diff by (rule mulAddF32_norm_round) (use al(1-3) e w in \<open>auto simp: word_zero_uint\<close>)
    ultimately show ?thesis by simp
  next
    case eq
    define D where "D = uint sigProd - K"
    define w where "w = sigProd - push_bit 32 (ucast sigC)"
    have D: "- (2 ^ 62) < D" "D < 2 ^ 62" using P K by (simp_all add: D_def)
    have "uint w = D mod 2 ^ 64" by (simp add: w_def D_def uint_word_ariths pb)
    then have w: "uint w = (if D < 0 then D + 2 ^ 64 else D)" using signed_mod64 [of D] D by simp
    have diff: "x - y = fp_scaled 23 127 6 expProd (of_int D / 2 ^ 32)" "y - x = fp_scaled 23 127 6 expProd (of_int (- D) / 2 ^ 32)"
      unfolding x_def y_def eq scaled_diff D_def K(4) by (simp_all add: diff_divide_distrib)
    have sgn: "0 < x - y \<longleftrightarrow> 0 < D" "0 < y - x \<longleftrightarrow> D < 0" unfolding diff scaled_pos by simp_all
    have "w = 0 \<longleftrightarrow> D = 0" using w D by (auto simp: word_zero_uint)
    moreover have "w AND 0x8000000000000000 \<noteq> 0 \<longleftrightarrow> D < 0"
      using w D unfolding high_bit64 by simp
    moreover have "mulAddF32_norm s expProd w st = f32_round st s (x - y)" if "0 < D"
      unfolding diff by (rule mulAddF32_norm_round) (use that D e w in \<open>auto simp: word_zero_uint\<close>)
    moreover have "mulAddF32_norm (\<not> s) expProd (- w) st = f32_round st (\<not> s) (y - x)" if "D < 0"
      unfolding diff
    proof (rule mulAddF32_norm_round)
      have "uint (- w) = - D" using that D w by (simp add: uint_minus_mod)
      then show "- w \<noteq> 0" "uint (- w) < 2 ^ 63" "of_int (- D) = real_of_int (uint (- w)) \<or>
          cell 1 (real_of_int (uint (- w))) (of_int (- D)) \<and> 2 ^ 60 \<le> uint (- w)"
        using that D by (auto simp: word_zero_uint)
    qed (use e in simp_all)
    ultimately show ?thesis
      using eq sgn by (auto simp: mulAddF32_sum_def Let_def w_def [symmetric])
  qed
qed

section \<open>Refinement\<close>

lemma f32_product:
  assumes a: "f32_finite a" "f32_mag a \<noteq> 0" and b: "f32_finite b" "f32_mag b \<noteq> 0"
  obtains eA sA eB sB expProd sigProd where "f32_norm a = (eA, sA)" "f32_norm b = (eB, sB)"
    "(let sigProd = (ucast (push_bit 7 (sA OR 0x00800000)) * ucast (push_bit 7 (sB OR 0x00800000)) :: u64)
      in if sigProd < 0x2000000000000000 then (eA + eB - 0x7E - 1, push_bit 1 sigProd)
         else (eA + eB - 0x7E, sigProd)) = (expProd, sigProd)"
    "2 ^ 61 \<le> uint sigProd" "uint sigProd < 2 ^ 62" "2 ^ 14 dvd uint sigProd"
    "- 1000 \<le> expProd" "expProd < 1000"
    "f32_abs a * f32_abs b = fp_scaled 23 127 6 expProd (of_int (uint sigProd) / 2 ^ 32)"
proof -
  obtain eA sA mA where A: "f32_norm a = (eA, sA)" "uint (sA OR 0x00800000) = mA" "2 ^ 23 \<le> mA" "mA < 2 ^ 24"
    "- 22 \<le> eA" "eA \<le> 254" "f32_abs a = of_int mA * 2 powi (eA - 150)" using a by (rule f32_norm_value)
  obtain eB sB mB where B: "f32_norm b = (eB, sB)" "uint (sB OR 0x00800000) = mB" "2 ^ 23 \<le> mB" "mB < 2 ^ 24"
    "- 22 \<le> eB" "eB \<le> 254" "f32_abs b = of_int mB * 2 powi (eB - 150)" using b by (rule f32_norm_value)
  define w where "w = (ucast (push_bit 7 (sA OR 0x00800000)) * ucast (push_bit 7 (sB OR 0x00800000)) :: u64)"
  define P where "P = mA * mB * 2 ^ 14"
  have P: "2 ^ 60 \<le> P" "P < 2 ^ 62" "2 ^ 14 dvd P"
    using product_range [of 23 mA 23 mB] A B unfolding P_def by simp_all
  have "uint (push_bit 7 (sA OR 0x00800000)) = mA * 2 ^ 7" "uint (push_bit 7 (sB OR 0x00800000)) = mB * 2 ^ 7"
    by (subst uint_push_bit_small; use A B in simp)+
  then have w: "uint w = P" unfolding w_def uint_mul32 P_def by simp
  have "(2::real) powi (eA + eB - 0x7E - 127 - int (23 + 6)) = 2 powi (eA - 150) * 2 powi (eB - 150) * 2 powi 18"
    unfolding powi_add [symmetric] by simp
  then have v: "f32_abs a * f32_abs b = fp_scaled 23 127 6 (eA + eB - 0x7E) (of_int P / 2 ^ 32)"
    unfolding fp_scaled_def A(7) B(7) P_def by simp
  show thesis
  proof (cases "w < 0x2000000000000000")
    case True
    then have lt: "P < 2 ^ 61" using w by (simp add: word_less_def)
    then have p: "uint (push_bit 1 w) = P * 2" using w by (subst uint_push_bit_small) simp_all
    have "f32_abs a * f32_abs b = fp_scaled 23 127 6 (eA + eB - 0x7E - 1) (of_int (P * 2) / 2 ^ 32)"
      unfolding v using scaled_shift [of 23 127 6 "eA + eB - 0x7E" 1 "of_int P / 2 ^ 32"] by simp
    then show thesis
      by (intro that [of eA sA eB sB "eA + eB - 0x7E - 1" "push_bit 1 w", OF A(1) B(1)], unfold Let_def w_def [symmetric] p)
        (use A B P lt True in simp_all)
  next
    case False
    then have "2 ^ 61 \<le> P" using w by (simp add: word_less_def)
    then show thesis
      by (intro that [of eA sA eB sB "eA + eB - 0x7E" w, OF A(1) B(1)], unfold Let_def w_def [symmetric] w)
        (use A B P False v in simp_all)
  qed
qed

lemma f32_addend:
  assumes "f32_finite c" "f32_mag c \<noteq> 0"
  obtains eC sC where "f32_norm c = (eC, sC)" "2 ^ 29 \<le> uint (push_bit 6 (sC OR 0x00800000))"
    "uint (push_bit 6 (sC OR 0x00800000)) < 2 ^ 30" "2 ^ 6 dvd uint (push_bit 6 (sC OR 0x00800000))"
    "- 22 \<le> eC" "eC \<le> 254" "f32_abs c = fp_scaled 23 127 6 eC (of_int (uint (push_bit 6 (sC OR 0x00800000))))"
proof -
  obtain eC sC mC where C: "f32_norm c = (eC, sC)" "uint (sC OR 0x00800000) = mC" "2 ^ 23 \<le> mC" "mC < 2 ^ 24"
    "- 22 \<le> eC" "eC \<le> 254" "f32_abs c = of_int mC * 2 powi (eC - 150)" using assms by (rule f32_norm_value)
  have "uint (push_bit 6 (sC OR 0x00800000)) = mC * 2 ^ 6" by (subst uint_push_bit_small; use C in simp)
  moreover have "(2::real) powi (eC - 150) = 2 powi (eC - 156) * 2 powi 6" unfolding powi_add [symmetric] by simp
  ultimately show thesis using that [of eC sC] C by (simp add: fp_scaled_def)
qed

lemma f32_mulAdd_nonzero:
  assumes a: "f32_finite a" "f32_mag a \<noteq> 0" and b: "f32_finite b" "f32_mag b \<noteq> 0" and c: "f32_finite c"
  defines "v \<equiv> f32_val a * f32_val b + f32_val c"
  shows "f32_mulAdd a b c st =
     (if v = 0 then (packToF32UI (softfloat_roundingMode st = softfloat_round_min) 0 0, st)
      else f32_round st (v < 0) \<bar>v\<bar>)"
proof -
  obtain eA sA eB sB expProd sigProd where P: "f32_norm a = (eA, sA)" "f32_norm b = (eB, sB)"
    "(let sigProd = (ucast (push_bit 7 (sA OR 0x00800000)) * ucast (push_bit 7 (sB OR 0x00800000)) :: u64)
      in if sigProd < 0x2000000000000000 then (eA + eB - 0x7E - 1, push_bit 1 sigProd)
         else (eA + eB - 0x7E, sigProd)) = (expProd, sigProd)"
    "2 ^ 61 \<le> uint sigProd" "uint sigProd < 2 ^ 62" "2 ^ 14 dvd uint sigProd"
    "- 1000 \<le> expProd" "expProd < 1000"
    "f32_abs a * f32_abs b = fp_scaled 23 127 6 expProd (of_int (uint sigProd) / 2 ^ 32)"
    using a b by (rule f32_product)
  define sP where "sP = (signF32UI a \<noteq> signF32UI b)"
  define x where "x = f32_abs a * f32_abs b"
  define y where "y = f32_abs c"
  have x: "0 < x" unfolding x_def P(9) scaled_pos using P(4) by simp
  have y: "0 \<le> y" by (simp add: y_def v32.abs_val [symmetric] f32_abs_def)
  have v: "v = (if sP then - x else x) + (if signF32UI c then - y else y)"
    by (simp add: v_def sP_def x_def y_def f32_val_def)
  have flags: "(expF32UI a = 255) = False" "(expF32UI a = 0 \<and> fracF32UI a = 0) = False"
    "(expF32UI b = 255) = False" "(expF32UI b = 0 \<and> fracF32UI b = 0) = False" "(expF32UI c = 255) = False"
    using a b c unfolding f32_class_fields by simp_all
  have "f32_mulAdd a b c st = (if expF32UI c = 0 \<and> fracF32UI c = 0
       then softfloat_roundPackToF32 sP (expProd - 1) (ucast (softfloat_shortShiftRightJam64 sigProd 31)) st
       else case f32_norm c of (expC, sigC) \<Rightarrow>
         mulAddF32_sum sP expProd sigProd (signF32UI c) expC (push_bit 6 (sigC OR 0x00800000)) st)"
    unfolding f32_mulAdd_def softfloat_mulAddF32_def Let_def flags if_False f32_norm_def [symmetric] P(1,2) prod.case
      P(3) [unfolded Let_def] sP_def
    by (simp add: softfloat_mulAdd_subC_def softfloat_mulAdd_subProd_def)
  also have "\<dots> = (if v = 0 then (packToF32UI (softfloat_roundingMode st = softfloat_round_min) 0 0, st)
      else f32_round st (v < 0) \<bar>v\<bar>)"
  proof (cases "f32_mag c = 0")
    case True
    then have "y = 0" by (simp add: y_def v32.abs_val [symmetric] f32_abs_def v32.val_zero_iff)
    then have v: "v \<noteq> 0" "v < 0 \<longleftrightarrow> sP" "\<bar>v\<bar> = x" using v x by auto
    have r: "2 ^ (30 + 31) \<le> uint sigProd" "uint sigProd < 2 ^ (31 + 31)" using P(4,5) by simp_all
    note jr = jam_range [OF r]
    define w where "w = (ucast (softfloat_shortShiftRightJam64 sigProd 31) :: u32)"
    have w: "uint w = jam (uint sigProd) 31"
      using jr by (simp add: w_def uint_ucast_64_32 shortShiftRightJam64_correct)
    have "x = fp_scaled 23 127 6 (expProd - int 1) (of_int (uint sigProd) / 2 ^ 32 * 2 ^ 1)"
      unfolding scaled_shift x_def P(9) ..
    then have "x = fp_scaled 23 127 6 (expProd - 1) (of_int (uint sigProd) / 2 ^ 31)" by simp
    moreover have "softfloat_roundPackToF32 sP (expProd - 1) w st =
        f32_round st sP (fp_scaled 23 127 6 (expProd - 1) (of_int (uint sigProd) / 2 ^ 31))"
      by (rule roundPackToF32_refines) (use jr P(7,8) cell_jam_int [of 6 "uint sigProd" 31] in \<open>simp_all add: w\<close>)
    ultimately show ?thesis using True v by (simp add: f32_class_fields(4) w_def [symmetric])
  next
    case False
    obtain eC sC where C: "f32_norm c = (eC, sC)" "2 ^ 29 \<le> uint (push_bit 6 (sC OR 0x00800000))"
      "uint (push_bit 6 (sC OR 0x00800000)) < 2 ^ 30" "2 ^ 6 dvd uint (push_bit 6 (sC OR 0x00800000))"
      "- 22 \<le> eC" "eC \<le> 254" "f32_abs c = fp_scaled 23 127 6 eC (of_int (uint (push_bit 6 (sC OR 0x00800000))))"
      using c False by (rule f32_addend)
    have e: "- 10000 \<le> expProd" "expProd < 10000" "- 10000 \<le> eC" "eC < 10000" using P(7,8) C(5,6) by simp_all
    note sums = mulAddF32_add [OF P(4-6) C(2-4) e, folded C(7) P(9), folded x_def y_def]
      mulAddF32_sub [OF P(4-6) C(2-4) e, folded C(7) P(9), folded x_def y_def]
    have z: "(expF32UI c = 0 \<and> fracF32UI c = 0) = False" using False by (simp add: f32_class_fields(4))
    have pos: "0 < y" using y False by (simp add: y_def v32.abs_val [symmetric] f32_abs_def v32.val_zero_iff)
    show ?thesis
    proof (cases "signF32UI c = sP")
      case True
      then have "v \<noteq> 0" "v < 0 \<longleftrightarrow> sP" "\<bar>v\<bar> = x + y" using v x pos by auto
      then show ?thesis unfolding z if_False C(1) prod.case True sums(1) by simp
    next
      case False
      then have d: "signF32UI c = (\<not> sP)" "v = 0 \<longleftrightarrow> x = y" "x \<noteq> y \<Longrightarrow> (v < 0) = (if x < y then \<not> sP else sP)"
        "\<bar>v\<bar> = \<bar>x - y\<bar>"
        using v by auto
      show ?thesis unfolding z if_False C(1) prod.case d(1) sums(2) using d(2-4) by simp
    qed
  qed
  finally show ?thesis .
qed

lemma sigNaN_isNaN32: "softfloat_isSigNaNF32UI a \<Longrightarrow> isNaNF32UI a"
proof -
  assume s: "softfloat_isSigNaNF32UI a"
  have "a AND 0x7F800000 = (a AND 0x7FC00000) AND 0x7F800000" by (simp add: and.assoc)
  moreover have "a AND 0x3FFFFF = (a AND 0x7FFFFF) AND 0x3FFFFF" by (simp add: and.assoc)
  ultimately show ?thesis using s by (auto simp: softfloat_isSigNaNF32UI_def isNaNF32UI_def)
qed

lemma f32_round_val:
  assumes "f32_finite c" "f32_mag c \<noteq> 0"
  shows "f32_round st (f32_val c < 0) \<bar>f32_val c\<bar> = (c, st)"
proof -
  have m: "0 < f32_mag c" "f32_mag c < 0x7F800000" using assms f32_mag_bounds(1) [of c] by (simp_all add: f32_finite_def)
  then have "0 < f32_abs c" unfolding f32_abs_def by (intro b32.mag_pos)
  then have "f32_val c < 0 \<longleftrightarrow> signF32UI c" "\<bar>f32_val c\<bar> = fp_mag 23 127 (f32_mag c)"
    by (auto simp: f32_val_def v32.abs_val) (simp_all add: f32_abs_def)
  moreover have "word_of_int (of_bool (signF32UI c) * 2 ^ 31 + f32_mag c) = c"
    unfolding f32_sign_mag [symmetric] by simp
  ultimately show ?thesis using f32_round_exact [OF m] by simp
qed

lemma raiseFlags_idem [simp]: "softfloat_raiseFlags f (softfloat_raiseFlags f st) = softfloat_raiseFlags f st"
  by (simp add: softfloat_raiseFlags_def or.assoc)

lemma not_sigNaN32 [simp]: "\<not> softfloat_isSigNaNF32UI defaultNaNF32UI" "\<not> softfloat_isSigNaNF32UI 0"
  "\<not> softfloat_isSigNaNF32UI (packToF32UI s 0xFF 0)"
  by (cases s; simp add: softfloat_isSigNaNF32UI_def defaultNaNF32UI_def packToF32UI_def)+

text \<open>An infinite factor.\<close>

lemma f32_mulAdd_inf:
  assumes ab: "\<not> isNaNF32UI a" "\<not> isNaNF32UI b" "f32_isInf a \<or> f32_isInf b"
  shows "f32_mulAdd a b c st = f32_mulAdd_spec a b c st"
proof -
  define sP where "sP = (signF32UI a \<noteq> signF32UI b)"
  define inf0 where "inf0 \<longleftrightarrow> f32_isInf a \<and> f32_val b = 0 \<or> f32_isInf b \<and> f32_val a = 0"
  have sig: "\<not> softfloat_isSigNaNF32UI a" "\<not> softfloat_isSigNaNF32UI b"
    using ab(1,2) sigNaN_isNaN32 by blast+
  have c: "expF32UI c \<noteq> 255 \<longleftrightarrow> \<not> isNaNF32UI c \<and> \<not> f32_isInf c"
    "expF32UI c = 255 \<Longrightarrow> fracF32UI c \<noteq> 0 \<longleftrightarrow> isNaNF32UI c" "f32_isInf c \<Longrightarrow> \<not> isNaNF32UI c"
    by (auto simp: f32_class_fields(1) isNaNF32UI_int)
  have "f32_mulAdd a b c st = (if inf0 then softfloat_propagateNaNF32UI defaultNaNF32UI c (softfloat_raiseFlags softfloat_flag_invalid st)
      else if expF32UI c \<noteq> 255 then (packToF32UI sP 0xFF 0, st)
      else if fracF32UI c \<noteq> 0 then softfloat_propagateNaNF32UI (packToF32UI sP 0xFF 0) c st
      else if sP = signF32UI c then (packToF32UI sP 0xFF 0, st)
      else softfloat_propagateNaNF32UI defaultNaNF32UI c (softfloat_raiseFlags softfloat_flag_invalid st))"
  proof (cases "f32_isInf a")
    case True
    then have "expF32UI a = 255" "fracF32UI a = 0" by (simp_all add: f32_class_fields)
    moreover have "(expF32UI b = 255 \<and> fracF32UI b \<noteq> 0) = False" using ab(2) by (simp add: isNaNF32UI_int)
    moreover have "(f32_mag a = 0) = False" using True by (simp add: f32_isInf_def)
    ultimately show ?thesis
      using True unfolding f32_mulAdd_def softfloat_mulAddF32_def Let_def word_of_exp_or32 inf0_def v32.val_zero_iff sP_def
      by (cases "expF32UI b = 255") (simp_all add: softfloat_mulAdd_subC_def softfloat_mulAdd_subProd_def)
  next
    case False
    then have "f32_isInf b" using ab(3) by simp
    then have "expF32UI b = 255" "fracF32UI b = 0" by (simp_all add: f32_class_fields)
    moreover have "expF32UI a \<noteq> 255" using False ab(1) by (auto simp: f32_class_fields(1) isNaNF32UI_int)
    ultimately show ?thesis
      using False \<open>f32_isInf b\<close> unfolding f32_mulAdd_def softfloat_mulAddF32_def Let_def word_of_exp_or32 inf0_def v32.val_zero_iff sP_def
      by (simp add: softfloat_mulAdd_subC_def softfloat_mulAdd_subProd_def)
  qed
  also have "\<dots> = f32_mulAdd_spec a b c st"
    unfolding f32_mulAdd_spec_def Let_def sP_def [symmetric] inf0_def [symmetric]
    using ab c sig sigNaN_isNaN32 [of c] by (auto simp: softfloat_propagateNaNF32UI_def)
  finally show ?thesis .
qed

theorem f32_mulAdd_refines: "f32_mulAdd a b c st = f32_mulAdd_spec a b c st"
proof -
  have nn: "\<not> isNaNF32UI d" "\<not> f32_isInf d" "\<not> softfloat_isSigNaNF32UI d" if "f32_finite d" for d
    using that sigNaN_isNaN32 [of d] by (auto simp: f32_class_fields(1,3) isNaNF32UI_int)
  have fields: "(expF32UI d = 255) = False" if "f32_finite d" for d using that by (simp add: f32_class_fields)
  consider (nan) "isNaNF32UI a \<or> isNaNF32UI b" | (inf) "\<not> isNaNF32UI a" "\<not> isNaNF32UI b" "f32_isInf a \<or> f32_isInf b"
    | (cbig) "f32_finite a" "f32_finite b" "\<not> f32_finite c"
    | (zero) "f32_finite a" "f32_finite b" "f32_finite c" "f32_mag a = 0 \<or> f32_mag b = 0"
    | (finite) "f32_finite a" "f32_finite b" "f32_finite c" "f32_mag a \<noteq> 0" "f32_mag b \<noteq> 0"
    unfolding f32_class_fields(1,3) isNaNF32UI_int by blast
  then show ?thesis
  proof cases
    case nan
    have "f32_mulAdd a b c st = (case softfloat_propagateNaNF32UI a b st of (z, st) \<Rightarrow> softfloat_propagateNaNF32UI z c st)"
      using nan unfolding isNaNF32UI_int f32_mulAdd_def softfloat_mulAddF32_def Let_def
      by (cases "expF32UI a = 255"; cases "fracF32UI a = 0"; simp)
    then show ?thesis using nan unfolding f32_mulAdd_spec_def Let_def by (auto simp: softfloat_propagateNaNF32UI_def)
  next
    case inf
    then show ?thesis by (rule f32_mulAdd_inf)
  next
    case cbig
    then have c: "expF32UI c = 255" "fracF32UI c \<noteq> 0 \<longleftrightarrow> isNaNF32UI c" "f32_isInf c \<longleftrightarrow> \<not> isNaNF32UI c"
      by (auto simp: f32_class_fields(1,3) isNaNF32UI_int)
    have "f32_mulAdd a b c st = (if isNaNF32UI c then softfloat_propagateNaNF32UI 0 c st else (c, st))"
      unfolding f32_mulAdd_def softfloat_mulAddF32_def Let_def c(2) [symmetric] using c(1) fields cbig by simp
    then show ?thesis
      unfolding f32_mulAdd_spec_def Let_def using nn cbig c by (auto simp: softfloat_propagateNaNF32UI_def)
  next
    case zero
    have p: "f32_val a * f32_val b = 0" using zero(4) by (simp add: v32.val_zero_iff)
    define sP where "sP = (signF32UI a \<noteq> signF32UI b)"
    have "f32_mulAdd a b c st = (if f32_mag c = 0 \<and> sP \<noteq> signF32UI c
        then (packToF32UI (softfloat_roundingMode st = softfloat_round_min) 0 0, st) else (c, st))"
    proof (cases "f32_mag a = 0")
      case True
      then have "(expF32UI a = 0 \<and> fracF32UI a = 0) = True" by (simp add: f32_class_fields)
      then show ?thesis
        unfolding f32_mulAdd_def softfloat_mulAddF32_def Let_def sP_def f32_class_fields(4) fields [OF zero(1)] fields [OF zero(2)]
          fields [OF zero(3)] if_False
        by (simp add: softfloat_mulAdd_subC_def softfloat_mulAdd_subProd_def)
    next
      case False
      then have "(expF32UI b = 0 \<and> fracF32UI b = 0) = True" using zero(4) unfolding f32_class_fields by blast
      moreover have "(expF32UI a = 0 \<and> fracF32UI a = 0) = False" using False by (simp add: f32_class_fields)
      moreover obtain ea sa where "f32_norm a = (ea, sa)" by (cases "f32_norm a")
      ultimately show ?thesis
        unfolding f32_mulAdd_def softfloat_mulAddF32_def Let_def sP_def f32_class_fields(4) fields [OF zero(1)] fields [OF zero(2)]
          fields [OF zero(3)] if_False f32_norm_def [symmetric]
        by (simp add: softfloat_mulAdd_subC_def softfloat_mulAdd_subProd_def)
    qed
    moreover have "f32_round st (f32_val c < 0) \<bar>f32_val c\<bar> = (c, st)" if "f32_mag c \<noteq> 0"
      using f32_round_val [OF zero(3) that] .
    moreover have "c = packToF32UI (signF32UI c) 0 0" if "f32_mag c = 0"
      using f32_sign_mag [of c] that by (simp add: packToF32UI_word word_uint_eq_iff uint_of_int32)
    ultimately show ?thesis
      unfolding f32_mulAdd_spec_def Let_def p sP_def [symmetric] add_0 v32.val_zero_iff using nn zero by auto
  next
    case finite
    have "f32_val a * f32_val b \<noteq> 0" using finite(4,5) by (simp add: v32.val_zero_iff)
    then show ?thesis
      unfolding f32_mulAdd_nonzero [OF finite(1,4,2,5,3)] f32_mulAdd_spec_def Let_def using nn finite by simp
  qed
qed

text \<open>
  The operand \<open>op\<close> negates the third operand or the product.  On the early exit for a zero
  product the code returns \<open>uiC\<close> itself, so that \<open>0 * 0 - 1\<close> gives \<open>1\<close>; \<open>f32_mulAdd\<close> passes
  \<open>op = 0\<close> and is not affected.
\<close>

lemma mulAdd_subC_zero_product: "softfloat_mulAddF32 0 0 0x3F800000 softfloat_mulAdd_subC st = (0x3F800000, st)"
  by (simp add: softfloat_mulAddF32_def softfloat_mulAdd_subC_def softfloat_mulAdd_subProd_def signF32UI_def expF32UI_def
      fracF32UI_def Let_def)

end
