(* ===== verification/SF_MulAddF64.thy ===== *)
theory SF_MulAddF64
  imports SF_MulAddF32
begin

text \<open>
  Fused multiply-add in double precision (\<open>s_mulAddF64.c\<close>, \<open>f64_mulAdd.c\<close>): the exact product
  has 106 bits and is kept in a pair of 64-bit words.  When the product is the smaller term
  and is shifted by more than one place, the code shifts only its upper word; the lower word
  stays as it is and acts as a sticky bit.
\<close>

section \<open>Definitions\<close>

definition mulAddF64_norm :: "bool \<Rightarrow> int \<Rightarrow> uint128 \<Rightarrow> sf_state \<Rightarrow> float64 \<times> sf_state" where
  "mulAddF64_norm signZ expZ sig128Z st =
     (let (expZ, sig128Z) =
            (if v64 sig128Z = 0 then (expZ - 64, \<lparr>v64 = v0 sig128Z, v0 = 0\<rparr>) else (expZ, sig128Z));
          shiftCount = int (softfloat_countLeadingZeros64 (v64 sig128Z)) - 1;
          expZ = expZ - shiftCount;
          (sigZ, sig128Z) =
            (if shiftCount < 0
             then (softfloat_shortShiftRightJam64 (v64 sig128Z) (nat (- shiftCount)), sig128Z)
             else let sig128Z = softfloat_shortShiftLeft128 (v64 sig128Z) (v0 sig128Z) (nat shiftCount)
                  in (v64 sig128Z, sig128Z))
      in softfloat_roundPackToF64 signZ expZ (sigZ OR of_bool (v0 sig128Z \<noteq> 0)) st)"

definition mulAddF64_sum ::
  "bool \<Rightarrow> int \<Rightarrow> uint128 \<Rightarrow> bool \<Rightarrow> int \<Rightarrow> u64 \<Rightarrow> sf_state \<Rightarrow> float64 \<times> sf_state" where
  "mulAddF64_sum signZ expZ sig128Z signC expC sigC st =
     (let expDiff = expZ - expC;
          (expZ, sig128Z) =
            (if expDiff < 0
             then (expC,
                   if signZ = signC \<or> expDiff < - 1
                   then sig128Z\<lparr>v64 := softfloat_shiftRightJam64 (v64 sig128Z) (nat (- expDiff))\<rparr>
                   else softfloat_shortShiftRightJam128 (v64 sig128Z) (v0 sig128Z) 1)
             else (expZ, sig128Z));
          sig128C = softfloat_shiftRightJam128 sigC 0 (nat expDiff)
      in if signZ = signC
         then let sigZ =
                (if expDiff \<le> 0 then (sigC + v64 sig128Z) OR of_bool (v0 sig128Z \<noteq> 0)
                 else let sig128Z = softfloat_add128 (v64 sig128Z) (v0 sig128Z) (v64 sig128C) (v0 sig128C)
                      in v64 sig128Z OR of_bool (v0 sig128Z \<noteq> 0));
                (expZ, sigZ) = (if sigZ < 0x4000000000000000 then (expZ - 1, push_bit 1 sigZ) else (expZ, sigZ))
              in softfloat_roundPackToF64 signZ expZ sigZ st
         else if expDiff < 0
         then mulAddF64_norm signC expZ (softfloat_sub128 sigC 0 (v64 sig128Z) (v0 sig128Z)) st
         else if expDiff = 0
         then let sig128Z = sig128Z\<lparr>v64 := v64 sig128Z - sigC\<rparr>
              in if v64 sig128Z OR v0 sig128Z = 0
                 then (packToF64UI (softfloat_roundingMode st = softfloat_round_min) 0 0, st)
                 else if v64 sig128Z AND 0x8000000000000000 \<noteq> 0
                 then mulAddF64_norm (\<not> signZ) expZ (softfloat_sub128 0 0 (v64 sig128Z) (v0 sig128Z)) st
                 else mulAddF64_norm signZ expZ sig128Z st
         else mulAddF64_norm signZ expZ
                (softfloat_sub128 (v64 sig128Z) (v0 sig128Z) (v64 sig128C) (v0 sig128C)) st)"

definition softfloat_mulAddF64 :: "u64 \<Rightarrow> u64 \<Rightarrow> u64 \<Rightarrow> u8 \<Rightarrow> sf_state \<Rightarrow> float64 \<times> sf_state" where
  "softfloat_mulAddF64 uiA uiB uiC op st =
     (let signA = signF64UI uiA;
          expA = expF64UI uiA;
          sigA = fracF64UI uiA;
          signB = signF64UI uiB;
          expB = expF64UI uiB;
          sigB = fracF64UI uiB;
          signC = (signF64UI uiC \<noteq> (op = softfloat_mulAdd_subC));
          expC = expF64UI uiC;
          sigC = fracF64UI uiC;
          signZ = ((signA \<noteq> signB) \<noteq> (op = softfloat_mulAdd_subProd));
          propagateNaN_ZC = (\<lambda>(uiZ, st). softfloat_propagateNaNF64UI uiZ uiC st);
          propagateNaN_ABC = propagateNaN_ZC (softfloat_propagateNaNF64UI uiA uiB st);
          invalid = propagateNaN_ZC (defaultNaNF64UI, softfloat_raiseFlags softfloat_flag_invalid st);
          infProdArg = (\<lambda>magBits.
            if magBits \<noteq> 0
            then let uiZ = packToF64UI signZ 0x7FF 0
                 in if expC \<noteq> 0x7FF then (uiZ, st)
                    else if sigC \<noteq> 0 then propagateNaN_ZC (uiZ, st)
                    else if signZ = signC then (uiZ, st) else invalid
            else invalid);
          completeCancellation = (packToF64UI (softfloat_roundingMode st = softfloat_round_min) 0 0, st);
          zeroProd = (if expC = 0 \<and> sigC = 0 \<and> signZ \<noteq> signC then completeCancellation else (uiC, st))
      in if expA = 0x7FF
         then if sigA \<noteq> 0 \<or> (expB = 0x7FF \<and> sigB \<noteq> 0) then propagateNaN_ABC
              else infProdArg (word_of_int expB OR sigB)
         else if expB = 0x7FF
         then if sigB \<noteq> 0 then propagateNaN_ABC else infProdArg (word_of_int expA OR sigA)
         else if expC = 0x7FF
         then if sigC \<noteq> 0 then propagateNaN_ZC (0, st) else (uiC, st)
         else if expA = 0 \<and> sigA = 0 then zeroProd
         else let (expA, sigA) = (if expA = 0 then softfloat_normSubnormalF64Sig sigA else (expA, sigA))
              in if expB = 0 \<and> sigB = 0 then zeroProd
                 else let (expB, sigB) = (if expB = 0 then softfloat_normSubnormalF64Sig sigB else (expB, sigB));
                          expZ = expA + expB - 0x3FE;
                          sigA = push_bit 10 (sigA OR 0x0010000000000000);
                          sigB = push_bit 10 (sigB OR 0x0010000000000000);
                          sig128Z = softfloat_mul64To128 sigA sigB;
                          (expZ, sig128Z) =
                            (if v64 sig128Z < 0x2000000000000000
                             then (expZ - 1, softfloat_add128 (v64 sig128Z) (v0 sig128Z) (v64 sig128Z) (v0 sig128Z))
                             else (expZ, sig128Z))
                      in if expC = 0 \<and> sigC = 0
                         then softfloat_roundPackToF64 signZ (expZ - 1)
                                (push_bit 1 (v64 sig128Z) OR of_bool (v0 sig128Z \<noteq> 0)) st
                         else let (expC, sigC) = (if expC = 0 then softfloat_normSubnormalF64Sig sigC else (expC, sigC));
                                  sigC = push_bit 9 (sigC OR 0x0010000000000000)
                              in mulAddF64_sum signZ expZ sig128Z signC expC sigC st)"

definition f64_mulAdd :: "float64 \<Rightarrow> float64 \<Rightarrow> float64 \<Rightarrow> sf_state \<Rightarrow> float64 \<times> sf_state" where
  "f64_mulAdd a b c st = softfloat_mulAddF64 a b c 0 st"

section \<open>Specification\<close>

definition f64_mulAdd_spec :: "float64 \<Rightarrow> float64 \<Rightarrow> float64 \<Rightarrow> sf_state \<Rightarrow> float64 \<times> sf_state" where
  "f64_mulAdd_spec a b c st =
     (let sP = (signF64UI a \<noteq> signF64UI b); sC = signF64UI c;
          p = f64_val a * f64_val b; v = p + f64_val c;
          nan = (isNaNF64UI a \<or> isNaNF64UI b);
          infP = (f64_isInf a \<or> f64_isInf b);
          inf0 = (f64_isInf a \<and> f64_val b = 0 \<or> f64_isInf b \<and> f64_val a = 0);
          sig = (softfloat_isSigNaNF64UI a \<or> softfloat_isSigNaNF64UI b \<or> softfloat_isSigNaNF64UI c);
          inv = (\<not> nan \<and> (inf0 \<or> infP \<and> f64_isInf c \<and> sP \<noteq> sC))
      in if nan \<or> isNaNF64UI c \<or> inv
         then (defaultNaNF64UI, if sig \<or> inv then softfloat_raiseFlags softfloat_flag_invalid st else st)
         else if infP then (packToF64UI sP 0x7FF 0, st)
         else if f64_isInf c then (c, st)
         else if v = 0
         then (packToF64UI (if p = 0 \<and> sP = sC then sP else softfloat_roundingMode st = softfloat_round_min) 0 0, st)
         else f64_round st (v < 0) \<bar>v\<bar>)"

section \<open>Aligned sums\<close>

lemma uint_sticky128: "uint (v64 z OR of_bool (v0 z \<noteq> 0)) = jam (u128 z) 64"
proof -
  have "u128 z div 2 ^ 64 = uint (v64 z)" "u128 z mod 2 ^ 64 = uint (v0 z)"
    using pow_split_div [of "uint (v0 z)" 64 "uint (v64 z)"] pow_split_mod [of "uint (v0 z)" 64 "uint (v64 z)"]
      uint_lt2p [of "v0 z"] by (simp_all add: u128_def)
  then show ?thesis
    unfolding uint_or_of_bool jam_def word_zero_uint by (simp add: conj_commute)
qed

lemma u128_parts: "u128 z = uint (v64 z) * 2 ^ 64 + uint (v0 z)" "0 \<le> uint (v0 z)" "uint (v0 z) < 2 ^ 64"
  using uint_bounds_64 [of "v0 z"] by (simp_all add: u128_def)

lemma mulAddF64_norm_round:
  assumes N: "0 < u128 z" "u128 z < 2 ^ 126"
    and c: "X = of_int (u128 z) \<or> cell 65 (of_int (u128 z)) X \<and> 2 ^ 124 \<le> u128 z"
    and e: "- 30000 \<le> e" "e < 30000"
  shows "mulAddF64_norm s e z st = f64_round st s (fp_scaled 52 1023 9 e (X / 2 ^ 64))"
proof (cases "v64 z = 0")
  case False
  note p = u128_parts [of z]
  define hi where "hi = uint (v64 z)"
  have "hi * 2 ^ 64 < 2 ^ 126" using N(2) p unfolding hi_def by linarith
  then have hi62: "hi < 2 ^ 62" by simp
  obtain d where d: "int (softfloat_countLeadingZeros64 (v64 z)) - 1 = int d" "2 ^ 62 \<le> hi * 2 ^ d" "hi * 2 ^ d < 2 ^ 63"
    using clz64_norm [OF False] hi62 unfolding hi_def by auto
  have hi1: "2 ^ 0 \<le> hi" using False uint_ge_0 [of "v64 z"] unfolding hi_def word_zero_uint by (metis int_one_le_iff_zero_less order_le_less power_0)
  have d62: "1 \<le> d" "d \<le> 62"
    using shift_unique [of 62 hi d 62] d hi1 hi62 by (cases "d = 0"; simp)+
  define n where "n = u128 z * 2 ^ d"
  have n: "2 ^ (62 + 64) \<le> n" "n < 2 ^ (63 + 64)"
  proof -
    define T L U where "T = hi * 2 ^ d" and "L = uint (v0 z) * 2 ^ d" and "U = (2::int) ^ d"
    have eq: "(2::int) ^ 63 = 2 ^ (63 - d) * 2 ^ d" using d62 by (simp flip: power_add)
    have "hi < 2 ^ (63 - d)" using d(3) unfolding eq by simp
    then have "(hi + 1) * 2 ^ d \<le> 2 ^ (63 - d) * 2 ^ d" by (intro mult_right_mono) simp_all
    then have "T + U \<le> 2 ^ 63" unfolding eq T_def U_def by (simp add: distrib_right)
    moreover have "n = T * 2 ^ 64 + L" unfolding n_def p(1) hi_def T_def L_def by (simp add: algebra_simps)
    moreover have "0 \<le> L" "L < 2 ^ 64 * U" unfolding L_def U_def using p(2,3) by simp_all
    ultimately show "2 ^ (62 + 64) \<le> n" "n < 2 ^ (63 + 64)" using d(2) unfolding T_def [symmetric] by simp_all
  qed
  note j = jam_range [OF n]
  define z' where "z' = softfloat_shortShiftLeft128 (v64 z) (v0 z) d"
  have "u128 z' = n"
    using shortShiftLeft128_correct [of d "v64 z" "v0 z"] d62 n unfolding z'_def n_def u128_val [symmetric] by simp
  then have sig: "uint (v64 z' OR of_bool (v0 z' \<noteq> 0)) = jam n 64" by (simp add: uint_sticky128)
  have "cell 9 (of_int (jam n 64)) (X * 2 ^ d / 2 ^ 64)"
  proof (cases "X = of_int (u128 z)")
    case True
    then show ?thesis using cell_jam_int [of 9 n 64] by (simp add: n_def)
  next
    case False
    then have X: "cell 65 (of_int (u128 z)) X" "2 ^ 124 \<le> u128 z" using c by simp_all
    have "2 ^ (62 - 2) \<le> hi" using X(2) p unfolding hi_def by simp
    then have "d \<le> 2" using shift_unique [of 62 hi d 2] d by simp
    moreover have "cell (65 + d) (of_int n) (X * 2 ^ d)" using cell_scale [OF X(1), of d] by (simp add: n_def)
    ultimately show ?thesis by (intro cell_jam [of "65 + d"]) simp_all
  qed
  then have "softfloat_roundPackToF64 s (e - int d) (v64 z' OR of_bool (v0 z' \<noteq> 0)) st =
      f64_round st s (fp_scaled 52 1023 9 (e - int d) (X * 2 ^ d / 2 ^ 64))"
    using e d62 j by (intro roundPackToF64_refines) (simp_all add: sig)
  moreover have "fp_scaled 52 1023 9 (e - int d) (X * 2 ^ d / 2 ^ 64) = fp_scaled 52 1023 9 e (X / 2 ^ 64)"
    using scaled_shift [of 52 1023 9 e d "X / 2 ^ 64"] by simp
  ultimately show ?thesis
    using False d(1) unfolding mulAddF64_norm_def Let_def z'_def by (cases "softfloat_countLeadingZeros64 (v64 z)") simp_all
next
  case True
  define lo where "lo = uint (v0 z)"
  have lo: "u128 z = lo" "0 < lo" "lo < 2 ^ 64" using N True uint_bounds_64 [of "v0 z"] by (simp_all add: u128_def lo_def)
  then have X: "X = of_int lo" using c by auto
  have nz: "v0 z \<noteq> 0" using lo(2) by (auto simp: lo_def)
  show ?thesis
  proof (cases "2 ^ 63 \<le> lo")
    case True
    have "softfloat_countLeadingZeros64 (v0 z) = 0"
    proof (rule ccontr)
      assume "softfloat_countLeadingZeros64 (v0 z) \<noteq> 0"
      then have "(2::int) ^ 1 \<le> 2 ^ softfloat_countLeadingZeros64 (v0 z)" by (intro power_increasing) simp_all
      then have "lo * 2 ^ 1 \<le> lo * 2 ^ softfloat_countLeadingZeros64 (v0 z)" using lo by (intro mult_left_mono) simp_all
      then show False using countLeadingZeros64_correct [OF nz] True by (simp add: lo_def)
    qed
    moreover have r: "2 ^ (62 + 1) \<le> lo" "lo < 2 ^ (63 + 1)" using True lo by simp_all
    note jr = jam_range [OF r]
    have "softfloat_roundPackToF64 s (e - 63) (softfloat_shortShiftRightJam64 (v0 z) 1) st =
        f64_round st s (fp_scaled 52 1023 9 (e - 63) (of_int lo / 2 ^ 1))"
      using e jr cell_jam_int [of 9 lo 1]
      by (intro roundPackToF64_refines) (simp_all add: shortShiftRightJam64_correct lo_def)
    moreover have "fp_scaled 52 1023 9 (e - 63) (of_int lo / 2 ^ 1) = fp_scaled 52 1023 9 e (X / 2 ^ 64)"
      using scaled_shift [of 52 1023 9 e 63 "X / 2 ^ 64"] X by simp
    ultimately show ?thesis using \<open>v64 z = 0\<close> unfolding mulAddF64_norm_def Let_def by simp
  next
    case False
    then obtain d where d: "int (softfloat_countLeadingZeros64 (v0 z)) - 1 = int d" "2 ^ 62 \<le> lo * 2 ^ d" "lo * 2 ^ d < 2 ^ 63"
      using clz64_norm [OF nz] unfolding lo_def by auto
    have d62: "d \<le> 62" using shift_unique [of 62 lo d 62] d lo by simp
    have sig: "uint (push_bit d (v0 z)) = lo * 2 ^ d" using d(3) by (subst uint_push_bit_small) (simp_all add: lo_def)
    have "softfloat_roundPackToF64 s (e - 64 - int d) (push_bit d (v0 z)) st =
        f64_round st s (fp_scaled 52 1023 9 (e - 64 - int d) (of_int lo * 2 ^ d))"
      using e d d62 by (intro roundPackToF64_refines) (simp_all add: sig)
    moreover have "fp_scaled 52 1023 9 (e - 64 - int d) (of_int lo * 2 ^ d) = fp_scaled 52 1023 9 e (X / 2 ^ 64)"
      unfolding scaled_shift using scaled_shift [of 52 1023 9 e 64 "X / 2 ^ 64"] X by simp
    ultimately show ?thesis
      using \<open>v64 z = 0\<close> d(1) unfolding mulAddF64_norm_def Let_def
      by (cases "softfloat_countLeadingZeros64 (v0 z)") (simp_all add: softfloat_shortShiftLeft128_def diff_right_commute [of e 64])
  qed
qed

lemma jam_split:
  fixes h l :: int
  assumes "0 \<le> h" "0 \<le> l" "l < 2 ^ 64"
  shows "jam (h * 2 ^ 64 + l) (64 + d) = jam h d + of_bool (l \<noteq> 0 \<and> even (jam h d))"
proof -
  have div: "(h * 2 ^ 64 + l) div 2 ^ (64 + d) = h div 2 ^ d"
    unfolding power_add zdiv_zmult2_eq [OF zero_le_power [OF zero_le_numeral]] pow_split_div [OF assms(2,3)] ..
  have "(h * 2 ^ 64 + l) mod 2 ^ (64 + d) = 2 ^ 64 * (h mod 2 ^ d) + l"
    unfolding power_add zmod_zmult2_eq [OF zero_le_power [OF zero_le_numeral]] pow_split_div [OF assms(2,3)]
      pow_split_mod [OF assms(2,3)] ..
  then have mod: "(h * 2 ^ 64 + l) mod 2 ^ (64 + d) \<noteq> 0 \<longleftrightarrow> h mod 2 ^ d \<noteq> 0 \<or> l \<noteq> 0"
    using assms(2) pos_mod_sign [of "2 ^ d" h] by (auto simp: add_nonneg_eq_0_iff)
  show ?thesis unfolding jam_def div mod by auto
qed

lemma u128_upd: "u128 (z\<lparr>v64 := h\<rparr>) = uint h * 2 ^ 64 + uint (v0 z)"
  by (simp add: u128_def)

lemma val128_zero: "val128 0 0 = 0" by (simp add: val128_def)

lemma val128_upper: "val128 h 0 = uint h * 2 ^ 64" by (simp add: val128_def)

lemma mulAddF64_add:
  assumes P: "2 ^ 125 \<le> u128 z" "u128 z < 2 ^ 126" "even (u128 z)"
    and C: "2 ^ 61 \<le> uint sigC" "uint sigC < 2 ^ 62" "even (uint sigC)"
    and e: "- 10000 \<le> expZ" "expZ < 10000" "- 10000 \<le> expC" "expC < 10000"
  shows "mulAddF64_sum s expZ z s expC sigC st = f64_round st s
     (fp_scaled 52 1023 9 expZ (of_int (u128 z) / 2 ^ 64) + fp_scaled 52 1023 9 expC (of_int (uint sigC)))"
proof (cases "expZ \<le> expC")
  case True
  define d where "d = nat (expC - expZ)"
  have d: "expZ = expC - int d" using True by (simp add: d_def)
  define h where "h = (if d = 0 then v64 z else softfloat_shiftRightJam64 (v64 z) d)"
  have h: "uint h = jam (uint (v64 z)) d" by (simp add: h_def shiftRightJam64_correct)
  define j where "j = jam (u128 z) (64 + d)"
  have j: "0 \<le> j" "j < 2 ^ 62"
    using jam_small [of "u128 z" 62 64 "64 + d"] P by (simp_all add: j_def)
  have js: "j = uint h + of_bool (v0 z \<noteq> 0 \<and> even (uint h))"
    unfolding j_def h using u128_parts [of z] jam_split [of "uint (v64 z)" "uint (v0 z)" d] by (simp add: word_zero_uint)
  define w where "w = (sigC + h) OR of_bool (v0 z \<noteq> 0)"
  have "uint h \<le> j" by (simp add: js)
  then have "uint h < 2 ^ 62" using j(2) by simp
  then have "uint (sigC + h) = uint sigC + uint h" using C by (simp add: uint_word_ariths)
  then have z: "uint w = uint sigC + j" using C(3) unfolding w_def uint_or_of_bool js by simp
  have c: "cell 8 (of_int (uint sigC + j)) (of_int (uint sigC) + of_int (u128 z) / 2 ^ (64 + d))"
    using cell_mono [OF cell_plus_even [OF cell_jam_int [of 1 "u128 z" "64 + d"]], of "uint sigC" 8] C(3)
    unfolding j_def by simp
  have "mulAddF64_sum s expZ z s expC sigC st =
      (case if w < 0x4000000000000000 then (expC - 1, push_bit 1 w) else (expC, w) of (e, sig) \<Rightarrow> softfloat_roundPackToF64 s e sig st)"
    using True unfolding mulAddF64_sum_def Let_def w_def h_def d_def by (cases "expZ = expC") simp_all
  also have "\<dots> = f64_round st s (fp_scaled 52 1023 9 expC (of_int (uint sigC) + of_int (u128 z) / 2 ^ (64 + d)))"
    by (rule roundPackToF64_norm1 [OF c [folded z]]) (use j C e in \<open>simp_all add: z\<close>)
  finally show ?thesis by (simp add: d scaled_align scaled_add power_add add.commute mult.commute)
next
  case False
  define d where "d = nat (expZ - expC)"
  have d: "expC = expZ - int d" "1 \<le> d" using False by (simp_all add: d_def)
  define j where "j = jam (uint sigC * 2 ^ 64) d"
  have j: "0 \<le> j" "j < 2 ^ 125"
    using jam_small [of "uint sigC * 2 ^ 64" 125 1 d] C d(2) by (simp_all add: j_def)
  define sC where "sC = softfloat_shiftRightJam128 sigC 0 d"
  have sC: "u128 sC = j" unfolding sC_def j_def by (simp add: shiftRightJam128_correct [OF d(2)] val128_upper)
  define sum where "sum = softfloat_add128 (v64 z) (v0 z) (v64 sC) (v0 sC)"
  have s: "u128 sum = u128 z + j"
    using j P by (simp add: sum_def add128_correct u128_val [symmetric] sC)
  have c1: "cell 1 (of_int (u128 sum)) (of_int (u128 z) + of_int (uint sigC * 2 ^ 64) / 2 ^ d)"
    using cell_plus_even [OF cell_jam_int [of 1 "uint sigC * 2 ^ 64" d], of "u128 z"] P(3)
    unfolding s j_def by simp
  have r: "2 ^ (61 + 64) \<le> u128 sum" "u128 sum < 2 ^ (63 + 64)" using P j by (simp_all add: s)
  note jr = jam_range [OF r]
  define w where "w = v64 sum OR of_bool (v0 sum \<noteq> 0)"
  have z: "uint w = jam (u128 sum) 64" unfolding w_def by (rule uint_sticky128)
  have c: "cell 8 (of_int (uint w)) ((of_int (u128 z) + of_int (uint sigC * 2 ^ 64) / 2 ^ d) / 2 ^ 64)"
    unfolding z by (rule cell_jam [OF c1]) simp_all
  have "mulAddF64_sum s expZ z s expC sigC st =
      (case if w < 0x4000000000000000 then (expZ - 1, push_bit 1 w) else (expZ, w) of (e, sig) \<Rightarrow> softfloat_roundPackToF64 s e sig st)"
    using False unfolding mulAddF64_sum_def Let_def d_def [symmetric] sC_def [symmetric] by (simp add: sum_def w_def)
  also have "\<dots> = f64_round st s
      (fp_scaled 52 1023 9 expZ ((of_int (u128 z) + of_int (uint sigC * 2 ^ 64) / 2 ^ d) / 2 ^ 64))"
    by (rule roundPackToF64_norm1 [OF c]) (use jr e in \<open>simp_all add: z\<close>)
  finally show ?thesis by (simp add: d(1) scaled_align scaled_add add_divide_distrib)
qed

lemma cell_trans: "cell h x y \<Longrightarrow> cell h x z \<Longrightarrow> cell h y z"
  by (simp add: cell_def)

lemma shortShiftRightJam128_one:
  "even (val128 a64 a0) \<Longrightarrow> u128 (softfloat_shortShiftRightJam128 a64 a0 1) = val128 a64 a0 div 2"
proof -
  have eq: "softfloat_shortShiftRightJam128 a64 a0 1 = softfloat_shiftRightJam128 a64 a0 1"
    by (simp add: softfloat_shortShiftRightJam128_def softfloat_shiftRightJam128_def)
  assume "even (val128 a64 a0)"
  then have "val128 a64 a0 mod 2 ^ 1 = 0" by (simp add: even_iff_mod_2_eq_zero)
  then show ?thesis unfolding eq by (simp add: shiftRightJam128_correct jam_exact)
qed

text \<open>Shifting the upper word only: the lower word keeps the result out of the multiples of \<open>2 ^ 65\<close>.\<close>

lemma cell_upper_jam:
  fixes h l :: int
  assumes "0 \<le> h" "0 \<le> l" "l < 2 ^ 64"
  shows "cell 65 (of_int (jam h d * 2 ^ 64 + l)) (of_int (h * 2 ^ 64 + l) / 2 ^ d)"
proof -
  define J where "J = jam h d + of_bool (l \<noteq> 0 \<and> even (jam h d))"
  have "0 \<le> jam h d" using jam_bounds(1) [of h d] assms(1) by (smt (verit) pos_imp_zdiv_nonneg_iff zero_less_power)
  then have "jam (jam h d * 2 ^ 64 + l) 64 = J" using jam_split [of "jam h d" l 0] assms by (simp add: J_def)
  then have 1: "cell (1 + 64) (of_int J * 2 ^ 64) (of_int (jam h d * 2 ^ 64 + l) / 2 ^ 64 * 2 ^ 64)"
    using cell_scale [OF cell_jam_int [OF order_refl, of "jam h d * 2 ^ 64 + l" 64], of 64] by (simp only:)
  have "jam (h * 2 ^ 64 + l) (64 + d) = J" using jam_split [of h l d] assms by (simp add: J_def)
  then have 2: "cell (1 + 64) (of_int J * 2 ^ 64) (of_int (h * 2 ^ 64 + l) / 2 ^ (64 + d) * 2 ^ 64)"
    using cell_scale [OF cell_jam_int [OF order_refl, of "h * 2 ^ 64 + l" "64 + d"], of 64] by (simp only:)
  have "x / 2 ^ 64 * 2 ^ 64 = x" "x / 2 ^ (64 + d) * 2 ^ 64 = x / 2 ^ d" for x :: real by (simp_all add: power_add)
  with cell_trans [OF 1 2] show ?thesis by (simp only:) simp
qed

lemma mulAddF64_sub:
  assumes P: "2 ^ 125 \<le> u128 z" "u128 z < 2 ^ 126" "even (u128 z)"
    and C: "2 ^ 61 \<le> uint sigC" "uint sigC < 2 ^ 62" "even (uint sigC)"
    and e: "- 10000 \<le> expZ" "expZ < 10000" "- 10000 \<le> expC" "expC < 10000"
  defines "x \<equiv> fp_scaled 52 1023 9 expZ (of_int (u128 z) / 2 ^ 64)"
    and "y \<equiv> fp_scaled 52 1023 9 expC (of_int (uint sigC))"
  shows "mulAddF64_sum s expZ z (\<not> s) expC sigC st =
     (if x = y then (packToF64UI (softfloat_roundingMode st = softfloat_round_min) 0 0, st)
      else f64_round st (if x < y then \<not> s else s) \<bar>x - y\<bar>)"
proof -
  define K where "K = uint sigC * 2 ^ 64"
  have K: "2 ^ 125 \<le> K" "K < 2 ^ 126" "even K" "real_of_int (uint sigC) = of_int K / 2 ^ 64" using C by (simp_all add: K_def)
  have align: "X = of_int (M - T) \<or> cell 65 (of_int (M - T)) X \<and> 2 ^ 124 \<le> M - T"
    "0 < M - T" "M - T < 2 ^ 126" "0 < X"
    if "2 ^ 125 \<le> M" "M < 2 ^ 126" "2 ^ 65 dvd M \<or> cell 1 (of_int T) (of_int L / 2 ^ d :: real)" "even M" "L < 2 ^ 126" "0 \<le> L" "1 \<le> d"
      "of_int T = (of_int L / 2 ^ d :: real) \<or> 2 \<le> d \<and> cell 65 (of_int T) (of_int L / 2 ^ d :: real) \<and> T < 2 ^ 124" "0 \<le> T"
      "X = of_int M - of_int L / 2 ^ d"
    for M L T d X
  proof -
    have "(2::real) ^ 1 \<le> 2 ^ d" using that(7) by (intro power_increasing) simp_all
    then have half: "of_int L / 2 ^ d \<le> real_of_int L / 2" using that by (intro divide_left_mono) simp_all
    then show "0 < X" using that by simp
    have T: "T < 2 ^ 125"
      using that(8)
    proof
      assume "of_int T = (of_int L / 2 ^ d :: real)"
      then have "real_of_int T \<le> real_of_int L / 2" using half by simp
      then show ?thesis using that(5) by simp
    qed simp
    then show "0 < M - T" "M - T < 2 ^ 126" using that by simp_all
    show "X = of_int (M - T) \<or> cell 65 (of_int (M - T)) X \<and> 2 ^ 124 \<le> M - T"
      using that(8)
    proof
      assume "of_int T = (of_int L / 2 ^ d :: real)"
      then show ?thesis using that by simp
    next
      assume big: "2 \<le> d \<and> cell 65 (of_int T) (of_int L / 2 ^ d :: real) \<and> T < 2 ^ 124"
      have "cell 65 (of_int (M - T)) X"
        using that(3)
      proof
        assume "2 ^ 65 dvd M"
        then obtain k where "M = k * 2 ^ 65" by (metis dvdE mult.commute)
        then show ?thesis using cell_minus [of 65 "of_int T" "of_int L / 2 ^ d" k] big that(10) by simp
      next
        assume "cell 1 (of_int T) (of_int L / 2 ^ d :: real)"
        from cell_minus_even [OF this that(4)] show ?thesis unfolding that(10) by (auto intro: cell_mono)
      qed
      then show ?thesis using that big by simp
    qed
  qed
  have exact: "of_int (L div 2) = (of_int L / 2 ^ 1 :: real)" if "even L" for L using that by (simp add: real_of_int_div)
  consider (lt) "expZ < expC" | (eq) "expZ = expC" | (gt) "expC < expZ" by linarith
  then show ?thesis
  proof cases
    case lt
    define d where "d = nat (expC - expZ)"
    have d: "expZ = expC - int d" "1 \<le> d" using lt by (simp_all add: d_def)
    define X :: real where "X = of_int K - of_int (u128 z) / 2 ^ d"
    define z' where "z' = (if d = 1 then softfloat_shortShiftRightJam128 (v64 z) (v0 z) 1
        else z\<lparr>v64 := softfloat_shiftRightJam64 (v64 z) d\<rparr>)"
    note p = u128_parts [of z]
    have T: "of_int (u128 z') = (of_int (u128 z) / 2 ^ d :: real) \<or>
        2 \<le> d \<and> cell 65 (of_int (u128 z')) (of_int (u128 z) / 2 ^ d :: real) \<and> u128 z' < 2 ^ 124" "0 \<le> u128 z'"
    proof -
      show "0 \<le> u128 z'" by (simp add: u128_def)
      show "of_int (u128 z') = (of_int (u128 z) / 2 ^ d :: real) \<or>
        2 \<le> d \<and> cell 65 (of_int (u128 z')) (of_int (u128 z) / 2 ^ d :: real) \<and> u128 z' < 2 ^ 124"
      proof (cases "d = 1")
        case True
        then show ?thesis using shortShiftRightJam128_one [of "v64 z" "v0 z"] exact [OF P(3)] P(3)
          by (simp add: z'_def u128_val [symmetric])
      next
        case False
        then have z': "u128 z' = jam (uint (v64 z)) d * 2 ^ 64 + uint (v0 z)"
          using d(2) by (simp add: z'_def u128_upd shiftRightJam64_correct)
        have "uint (v64 z) * 2 ^ 64 < 2 ^ 126" using P(2) p by linarith
        then have "uint (v64 z) < 2 ^ (60 + 2)" by simp
        then have "jam (uint (v64 z)) d < 2 ^ 60" using jam_small [of "uint (v64 z)" 60 2 d] d False by simp
        then have "jam (uint (v64 z)) d * 2 ^ 64 + 2 ^ 64 \<le> 2 ^ 124" by simp
        then have "u128 z' < 2 ^ 124" unfolding z' using p(3) by linarith
        moreover have "cell 65 (of_int (u128 z')) (of_int (u128 z) / 2 ^ d)"
          unfolding z' p(1) by (rule cell_upper_jam) (use p in simp_all)
        ultimately show ?thesis using False d(2) by simp
      qed
    qed
    have K65: "2 ^ 65 dvd K"
    proof -
      obtain k where "uint sigC = 2 * k" using C(3) by (rule evenE)
      then show ?thesis by (simp add: K_def)
    qed
    have T0: "0 \<le> u128 z" using P(1) by simp
    note al = align [OF K(1,2) disjI1 [OF K65] K(3) P(2) T0 d(2) T X_def]
    define w where "w = softfloat_sub128 sigC 0 (v64 z') (v0 z')"
    have w: "u128 w = K - u128 z'"
      using al(2,3) by (simp add: w_def sub128_correct val128_upper K_def u128_val [symmetric])
    have diff: "y - x = fp_scaled 52 1023 9 expC (X / 2 ^ 64)"
      unfolding x_def y_def d(1) scaled_align scaled_diff X_def K(4) by (simp add: diff_divide_distrib mult.commute)
    have "0 < y - x" unfolding diff scaled_pos using al(4) by simp
    moreover have "mulAddF64_sum s expZ z (\<not> s) expC sigC st = mulAddF64_norm (\<not> s) expC w st"
    proof -
      have "expZ - expC < - 1 \<longleftrightarrow> d \<noteq> 1" "nat (- (expZ - expC)) = d" using lt by (auto simp: d_def)
      then show ?thesis using lt unfolding mulAddF64_sum_def Let_def w_def z'_def by (simp only: if_True prod.case) simp
    qed
    moreover have "mulAddF64_norm (\<not> s) expC w st = f64_round st (\<not> s) (y - x)"
      unfolding diff by (rule mulAddF64_norm_round) (use al(1-3) e w in simp_all)
    ultimately show ?thesis by simp
  next
    case gt
    define d where "d = nat (expZ - expC)"
    have d: "expC = expZ - int d" "1 \<le> d" using gt by (simp_all add: d_def)
    define X :: real where "X = of_int (u128 z) - of_int K / 2 ^ d"
    define sC where "sC = softfloat_shiftRightJam128 sigC 0 d"
    have sC: "u128 sC = jam K d" unfolding sC_def K_def by (simp add: shiftRightJam128_correct [OF d(2)] val128_upper)
    have c1: "cell 1 (of_int (u128 sC)) (of_int K / 2 ^ d :: real)" unfolding sC by (rule cell_jam_int) simp
    have T: "of_int (u128 sC) = (of_int K / 2 ^ d :: real) \<or>
        2 \<le> d \<and> cell 65 (of_int (u128 sC)) (of_int K / 2 ^ d :: real) \<and> u128 sC < 2 ^ 124" "0 \<le> u128 sC"
    proof -
      show "0 \<le> u128 sC" by (simp add: u128_def)
      show "of_int (u128 sC) = (of_int K / 2 ^ d :: real) \<or>
        2 \<le> d \<and> cell 65 (of_int (u128 sC)) (of_int K / 2 ^ d :: real) \<and> u128 sC < 2 ^ 124"
      proof (cases "d = 1")
        case True
        have "K mod 2 ^ 1 = 0" using K(3) by (simp add: even_iff_mod_2_eq_zero)
        then show ?thesis using True exact [OF K(3)] by (simp add: sC jam_exact)
      next
        case False
        then have "u128 sC < 2 ^ 124" using jam_small [of K 124 2 d] d K unfolding sC by simp
        then show ?thesis using False d(2) c1 by (auto intro: cell_mono)
      qed
    qed
    have K0: "0 \<le> K" using K(1) by simp
    note al = align [OF P(1,2) disjI2 [OF c1] P(3) K(2) K0 d(2) T X_def]
    define w where "w = softfloat_sub128 (v64 z) (v0 z) (v64 sC) (v0 sC)"
    have w: "u128 w = u128 z - u128 sC"
      using al(2,3) by (simp add: w_def sub128_correct u128_val [symmetric])
    have diff: "x - y = fp_scaled 52 1023 9 expZ (X / 2 ^ 64)"
      unfolding x_def y_def d(1) scaled_align scaled_diff X_def K(4) by (simp add: diff_divide_distrib mult.commute)
    have "0 < x - y" unfolding diff scaled_pos using al(4) by simp
    moreover have "mulAddF64_sum s expZ z (\<not> s) expC sigC st = mulAddF64_norm s expZ w st"
      using gt by (simp add: mulAddF64_sum_def Let_def w_def sC_def d_def)
    moreover have "mulAddF64_norm s expZ w st = f64_round st s (x - y)"
      unfolding diff by (rule mulAddF64_norm_round) (use al(1-3) e w in simp_all)
    ultimately show ?thesis by simp
  next
    case eq
    define D where "D = u128 z - K"
    define w where "w = z\<lparr>v64 := v64 z - sigC\<rparr>"
    note p = u128_parts [of z]
    have D: "- (2 ^ 126) < D" "D < 2 ^ 126" using P K by (simp_all add: D_def)
    define H where "H = uint (v64 z) - uint sigC"
    define lo where "lo = uint (v0 z)"
    have lo: "0 \<le> lo" "lo < 2 ^ 64" using p(2,3) by (simp_all add: lo_def)
    have DH: "D = H * 2 ^ 64 + lo" by (simp add: D_def H_def K_def lo_def p(1) algebra_simps)
    have H: "- (2 ^ 63) \<le> H" "H < 2 ^ 63" using D lo unfolding DH by simp_all
    have "uint (v64 w) = H mod 2 ^ 64" by (simp add: w_def H_def uint_word_ariths)
    then have hw: "uint (v64 w) = (if H < 0 then H + 2 ^ 64 else H)" using signed_mod64 [of H] H by simp
    have neg: "H < 0 \<longleftrightarrow> D < 0" using lo unfolding DH by (intro iffI) simp_all
    have "u128 w = (if H < 0 then H + 2 ^ 64 else H) * 2 ^ 64 + lo"
      unfolding u128_def hw by (simp add: w_def lo_def)
    also have "\<dots> = (if H < 0 then D + 2 ^ 128 else D)" by (simp add: DH algebra_simps)
    finally have w: "u128 w = (if D < 0 then D + 2 ^ 128 else D)" unfolding neg .
    have diff: "x - y = fp_scaled 52 1023 9 expZ (of_int D / 2 ^ 64)" "y - x = fp_scaled 52 1023 9 expZ (of_int (- D) / 2 ^ 64)"
      unfolding x_def y_def eq scaled_diff D_def K(4) by (simp_all add: diff_divide_distrib)
    have sgn: "0 < x - y \<longleftrightarrow> 0 < D" "0 < y - x \<longleftrightarrow> D < 0" unfolding diff scaled_pos by simp_all
    have "v64 w OR v0 w = 0 \<longleftrightarrow> D = 0"
      using val128_eq_0 [of "v64 w" "v0 w"] D unfolding or_eq_0_iff u128_val [symmetric] w by (cases "D < 0") auto
    moreover have "v64 w AND 0x8000000000000000 \<noteq> 0 \<longleftrightarrow> D < 0"
      using hw H neg unfolding high_bit64 by simp
    moreover have "mulAddF64_norm s expZ w st = f64_round st s (x - y)" if "0 < D"
      unfolding diff by (rule mulAddF64_norm_round) (use that D e w in simp_all)
    moreover have "mulAddF64_norm (\<not> s) expZ (softfloat_sub128 0 0 (v64 w) (v0 w)) st = f64_round st (\<not> s) (y - x)" if "D < 0"
    proof -
      have "u128 (softfloat_sub128 0 0 (v64 w) (v0 w)) = (- D - 2 ^ 128) mod 2 ^ 128"
        unfolding sub128_correct u128_val [symmetric] w if_P [OF that] val128_zero by (simp add: algebra_simps)
      also have "\<dots> = - D" using that D by (simp add: minus_mod_self2)
      finally show ?thesis
        unfolding diff by (intro mulAddF64_norm_round) (use that D e in simp_all)
    qed
    moreover have "mulAddF64_sum s expZ z (\<not> s) expC sigC st =
        (if v64 w OR v0 w = 0 then (packToF64UI (softfloat_roundingMode st = softfloat_round_min) 0 0, st)
         else if v64 w AND 0x8000000000000000 \<noteq> 0 then mulAddF64_norm (\<not> s) expZ (softfloat_sub128 0 0 (v64 w) (v0 w)) st
         else mulAddF64_norm s expZ w st)"
      unfolding mulAddF64_sum_def Let_def eq w_def by simp
    ultimately show ?thesis
      using sgn by auto
  qed
qed

lemma u128_less: "u128 z < k * 2 ^ 64 \<longleftrightarrow> uint (v64 z) < k"
proof -
  define h l where "h = uint (v64 z)" and "l = uint (v0 z)"
  have "u128 z = h * 2 ^ 64 + l" "0 \<le> l" "l < 2 ^ 64" using u128_parts [of z] by (simp_all add: h_def l_def)
  then show ?thesis unfolding h_def [symmetric] by (intro iffI) simp_all
qed

lemma uint_sticky127:
  assumes "u128 z < 2 ^ 127"
  shows "uint (push_bit 1 (v64 z) OR of_bool (v0 z \<noteq> 0)) = jam (u128 z) 63"
proof -
  define h l where "h = uint (v64 z)" and "l = uint (v0 z)"
  have u: "u128 z = h * 2 ^ 64 + l" "0 \<le> l" "l < 2 ^ 64" using u128_parts [of z] by (simp_all add: h_def l_def)
  have "h < 2 ^ 63" using u128_less [of z "2 ^ 63"] assms by (simp add: h_def)
  then have s: "uint (push_bit 1 (v64 z)) = 2 * h" by (subst uint_push_bit_small) (simp_all add: h_def)
  have d: "u128 z div 2 ^ 63 = 2 * h + of_bool (2 ^ 63 \<le> l)"
  proof (cases "2 ^ 63 \<le> l")
    case True
    then have "u128 z = (2 * h + 1) * 2 ^ 63 + (l - 2 ^ 63)" by (simp add: u(1) algebra_simps)
    then show ?thesis using pow_split_div [of "l - 2 ^ 63" 63 "2 * h + 1"] True u(3) by simp
  next
    case False
    then have "u128 z = (2 * h) * 2 ^ 63 + l" by (simp add: u(1) algebra_simps)
    then show ?thesis using pow_split_div [of l 63 "2 * h"] False u(2) by simp
  qed
  have m: "u128 z mod 2 ^ 63 = l - (if 2 ^ 63 \<le> l then 2 ^ 63 else 0)"
    using d u(1) by (simp add: minus_div_mult_eq_mod [symmetric] algebra_simps)
  show ?thesis
    unfolding uint_or_of_bool s jam_def d m word_zero_uint l_def [symmetric] using u(2) by auto
qed

section \<open>Refinement\<close>

lemma f64_product:
  assumes a: "f64_finite a" "f64_mag a \<noteq> 0" and b: "f64_finite b" "f64_mag b \<noteq> 0"
  obtains eA sA eB sB expZ z where "f64_norm a = (eA, sA)" "f64_norm b = (eB, sB)"
    "(let z = softfloat_mul64To128 (push_bit 10 (sA OR 0x0010000000000000)) (push_bit 10 (sB OR 0x0010000000000000))
      in if v64 z < 0x2000000000000000 then (eA + eB - 0x3FE - 1, softfloat_add128 (v64 z) (v0 z) (v64 z) (v0 z))
         else (eA + eB - 0x3FE, z)) = (expZ, z)"
    "2 ^ 125 \<le> u128 z" "u128 z < 2 ^ 126" "even (u128 z)"
    "- 4000 \<le> expZ" "expZ < 4000"
    "f64_abs a * f64_abs b = fp_scaled 52 1023 9 expZ (of_int (u128 z) / 2 ^ 64)"
proof -
  obtain eA sA mA where A: "f64_norm a = (eA, sA)" "uint (sA OR 0x0010000000000000) = mA" "2 ^ 52 \<le> mA" "mA < 2 ^ 53"
    "- 51 \<le> eA" "eA \<le> 2046" "f64_abs a = of_int mA * 2 powi (eA - 1075)" using a by (rule f64_norm_value)
  obtain eB sB mB where B: "f64_norm b = (eB, sB)" "uint (sB OR 0x0010000000000000) = mB" "2 ^ 52 \<le> mB" "mB < 2 ^ 53"
    "- 51 \<le> eB" "eB \<le> 2046" "f64_abs b = of_int mB * 2 powi (eB - 1075)" using b by (rule f64_norm_value)
  define w where "w = softfloat_mul64To128 (push_bit 10 (sA OR 0x0010000000000000)) (push_bit 10 (sB OR 0x0010000000000000))"
  define P where "P = mA * mB * 2 ^ 20"
  have P: "2 ^ 124 \<le> P" "P < 2 ^ 126" "even P"
    using product_range [of 52 mA 52 mB] A B unfolding P_def by simp_all
  have "uint (push_bit 10 (sA OR 0x0010000000000000)) = mA * 2 ^ 10" "uint (push_bit 10 (sB OR 0x0010000000000000)) = mB * 2 ^ 10"
    by (subst uint_push_bit_small; use A B in simp)+
  then have w: "u128 w = P" unfolding w_def mul64To128_correct P_def by simp
  have "(2::real) powi (eA + eB - 0x3FE - 1023 - int (52 + 9)) = 2 powi (eA - 1075) * 2 powi (eB - 1075) * 2 powi 44"
    unfolding powi_add [symmetric] by simp
  then have v: "f64_abs a * f64_abs b = fp_scaled 52 1023 9 (eA + eB - 0x3FE) (of_int P / 2 ^ 64)"
    unfolding fp_scaled_def A(7) B(7) P_def by simp
  have less: "v64 w < 0x2000000000000000 \<longleftrightarrow> P < 2 ^ 125"
    using u128_less [of w "2 ^ 61"] by (simp add: w word_less_def)
  show thesis
  proof (cases "v64 w < 0x2000000000000000")
    case True
    then have lt: "P < 2 ^ 125" using less by simp
    define d where "d = softfloat_add128 (v64 w) (v0 w) (v64 w) (v0 w)"
    have p: "u128 d = P * 2" using lt P w by (simp add: d_def add128_correct u128_val [symmetric])
    have "f64_abs a * f64_abs b = fp_scaled 52 1023 9 (eA + eB - 0x3FE - 1) (of_int (P * 2) / 2 ^ 64)"
      unfolding v using scaled_shift [of 52 1023 9 "eA + eB - 0x3FE" 1 "of_int P / 2 ^ 64"] by simp
    then show thesis
      by (intro that [of eA sA eB sB "eA + eB - 0x3FE - 1" d, OF A(1) B(1)], unfold Let_def w_def [symmetric] d_def [symmetric] p)
        (use A B P lt True in simp_all)
  next
    case False
    then have "2 ^ 125 \<le> P" using less by simp
    then show thesis
      by (intro that [of eA sA eB sB "eA + eB - 0x3FE" w, OF A(1) B(1)], unfold Let_def w_def [symmetric] w)
        (use A B P False v in simp_all)
  qed
qed

lemma f64_addend:
  assumes "f64_finite c" "f64_mag c \<noteq> 0"
  obtains eC sC where "f64_norm c = (eC, sC)" "2 ^ 61 \<le> uint (push_bit 9 (sC OR 0x0010000000000000))"
    "uint (push_bit 9 (sC OR 0x0010000000000000)) < 2 ^ 62" "even (uint (push_bit 9 (sC OR 0x0010000000000000)))"
    "- 51 \<le> eC" "eC \<le> 2046" "f64_abs c = fp_scaled 52 1023 9 eC (of_int (uint (push_bit 9 (sC OR 0x0010000000000000))))"
proof -
  obtain eC sC mC where C: "f64_norm c = (eC, sC)" "uint (sC OR 0x0010000000000000) = mC" "2 ^ 52 \<le> mC" "mC < 2 ^ 53"
    "- 51 \<le> eC" "eC \<le> 2046" "f64_abs c = of_int mC * 2 powi (eC - 1075)" using assms by (rule f64_norm_value)
  have "uint (push_bit 9 (sC OR 0x0010000000000000)) = mC * 2 ^ 9" by (subst uint_push_bit_small; use C in simp)
  moreover have "(2::real) powi (eC - 1075) = 2 powi (eC - 1084) * 2 powi 9" unfolding powi_add [symmetric] by simp
  ultimately show thesis using that [of eC sC] C by (simp add: fp_scaled_def)
qed

lemma f64_mulAdd_nonzero:
  assumes a: "f64_finite a" "f64_mag a \<noteq> 0" and b: "f64_finite b" "f64_mag b \<noteq> 0" and c: "f64_finite c"
  defines "v \<equiv> f64_val a * f64_val b + f64_val c"
  shows "f64_mulAdd a b c st =
     (if v = 0 then (packToF64UI (softfloat_roundingMode st = softfloat_round_min) 0 0, st)
      else f64_round st (v < 0) \<bar>v\<bar>)"
proof -
  obtain eA sA eB sB expZ z where P: "f64_norm a = (eA, sA)" "f64_norm b = (eB, sB)"
    "(let z = softfloat_mul64To128 (push_bit 10 (sA OR 0x0010000000000000)) (push_bit 10 (sB OR 0x0010000000000000))
      in if v64 z < 0x2000000000000000 then (eA + eB - 0x3FE - 1, softfloat_add128 (v64 z) (v0 z) (v64 z) (v0 z))
         else (eA + eB - 0x3FE, z)) = (expZ, z)"
    "2 ^ 125 \<le> u128 z" "u128 z < 2 ^ 126" "even (u128 z)"
    "- 4000 \<le> expZ" "expZ < 4000"
    "f64_abs a * f64_abs b = fp_scaled 52 1023 9 expZ (of_int (u128 z) / 2 ^ 64)"
    using a b by (rule f64_product)
  define sP where "sP = (signF64UI a \<noteq> signF64UI b)"
  define x where "x = f64_abs a * f64_abs b"
  define y where "y = f64_abs c"
  have x: "0 < x" unfolding x_def P(9) scaled_pos using P(4) by simp
  have y: "0 \<le> y" by (simp add: y_def v64.abs_val [symmetric] f64_abs_def)
  have v: "v = (if sP then - x else x) + (if signF64UI c then - y else y)"
    by (simp add: v_def sP_def x_def y_def f64_val_def)
  have flags: "(expF64UI a = 2047) = False" "(expF64UI a = 0 \<and> fracF64UI a = 0) = False"
    "(expF64UI b = 2047) = False" "(expF64UI b = 0 \<and> fracF64UI b = 0) = False" "(expF64UI c = 2047) = False"
    using a b c unfolding f64_class_fields by simp_all
  have "f64_mulAdd a b c st = (if expF64UI c = 0 \<and> fracF64UI c = 0
       then softfloat_roundPackToF64 sP (expZ - 1) (push_bit 1 (v64 z) OR of_bool (v0 z \<noteq> 0)) st
       else case f64_norm c of (expC, sigC) \<Rightarrow>
         mulAddF64_sum sP expZ z (signF64UI c) expC (push_bit 9 (sigC OR 0x0010000000000000)) st)"
    unfolding f64_mulAdd_def softfloat_mulAddF64_def Let_def flags if_False f64_norm_def [symmetric] P(1,2) prod.case
      P(3) [unfolded Let_def] sP_def
    by (simp add: softfloat_mulAdd_subC_def softfloat_mulAdd_subProd_def)
  also have "\<dots> = (if v = 0 then (packToF64UI (softfloat_roundingMode st = softfloat_round_min) 0 0, st)
      else f64_round st (v < 0) \<bar>v\<bar>)"
  proof (cases "f64_mag c = 0")
    case True
    then have "y = 0" by (simp add: y_def v64.abs_val [symmetric] f64_abs_def v64.val_zero_iff)
    then have v: "v \<noteq> 0" "v < 0 \<longleftrightarrow> sP" "\<bar>v\<bar> = x" using v x by auto
    define w where "w = (push_bit 1 (v64 z) OR of_bool (v0 z \<noteq> 0))"
    have w: "uint w = jam (u128 z) 63" unfolding w_def by (rule uint_sticky127) (use P(5) in simp)
    have r: "2 ^ (62 + 63) \<le> u128 z" "u128 z < 2 ^ (63 + 63)" using P(4,5) by simp_all
    note jr = jam_range [OF r]
    have "x = fp_scaled 52 1023 9 (expZ - int 1) (of_int (u128 z) / 2 ^ 64 * 2 ^ 1)"
      unfolding scaled_shift x_def P(9) ..
    then have "x = fp_scaled 52 1023 9 (expZ - 1) (of_int (u128 z) / 2 ^ 63)" by simp
    moreover have "softfloat_roundPackToF64 sP (expZ - 1) w st =
        f64_round st sP (fp_scaled 52 1023 9 (expZ - 1) (of_int (u128 z) / 2 ^ 63))"
      by (rule roundPackToF64_refines) (use jr P(7,8) cell_jam_int [of 9 "u128 z" 63] in \<open>simp_all add: w\<close>)
    ultimately show ?thesis using True v unfolding w_def [symmetric] f64_class_fields(4) by simp
  next
    case False
    obtain eC sC where C: "f64_norm c = (eC, sC)" "2 ^ 61 \<le> uint (push_bit 9 (sC OR 0x0010000000000000))"
      "uint (push_bit 9 (sC OR 0x0010000000000000)) < 2 ^ 62" "even (uint (push_bit 9 (sC OR 0x0010000000000000)))"
      "- 51 \<le> eC" "eC \<le> 2046" "f64_abs c = fp_scaled 52 1023 9 eC (of_int (uint (push_bit 9 (sC OR 0x0010000000000000))))"
      using c False by (rule f64_addend)
    have e: "- 10000 \<le> expZ" "expZ < 10000" "- 10000 \<le> eC" "eC < 10000" using P(7,8) C(5,6) by simp_all
    note sums = mulAddF64_add [OF P(4-6) C(2-4) e, folded C(7) P(9), folded x_def y_def]
      mulAddF64_sub [OF P(4-6) C(2-4) e, folded C(7) P(9), folded x_def y_def]
    have z: "(expF64UI c = 0 \<and> fracF64UI c = 0) = False" using False by (simp add: f64_class_fields(4))
    have pos: "0 < y" using y False by (simp add: y_def v64.abs_val [symmetric] f64_abs_def v64.val_zero_iff)
    show ?thesis
    proof (cases "signF64UI c = sP")
      case True
      then have "v \<noteq> 0" "v < 0 \<longleftrightarrow> sP" "\<bar>v\<bar> = x + y" using v x pos by auto
      then show ?thesis unfolding z if_False C(1) prod.case True sums(1) by simp
    next
      case False
      then have d: "signF64UI c = (\<not> sP)" "v = 0 \<longleftrightarrow> x = y" "x \<noteq> y \<Longrightarrow> (v < 0) = (if x < y then \<not> sP else sP)"
        "\<bar>v\<bar> = \<bar>x - y\<bar>"
        using v by auto
      show ?thesis unfolding z if_False C(1) prod.case d(1) sums(2) using d(2-4) by simp
    qed
  qed
  finally show ?thesis .
qed

lemma sigNaN_isNaN64: "softfloat_isSigNaNF64UI a \<Longrightarrow> isNaNF64UI a"
proof -
  assume s: "softfloat_isSigNaNF64UI a"
  have "a AND 0x7FF0000000000000 = (a AND 0x7FF8000000000000) AND 0x7FF0000000000000" by (simp add: and.assoc)
  moreover have "a AND 0x7FFFFFFFFFFFF = (a AND 0xFFFFFFFFFFFFF) AND 0x7FFFFFFFFFFFF" by (simp add: and.assoc)
  ultimately show ?thesis using s by (auto simp: softfloat_isSigNaNF64UI_def isNaNF64UI_def)
qed

lemma f64_round_val:
  assumes "f64_finite c" "f64_mag c \<noteq> 0"
  shows "f64_round st (f64_val c < 0) \<bar>f64_val c\<bar> = (c, st)"
proof -
  have m: "0 < f64_mag c" "f64_mag c < 0x7FF0000000000000" using assms f64_mag_bounds(1) [of c] by (simp_all add: f64_finite_def)
  then have "0 < f64_abs c" unfolding f64_abs_def by (intro b64.mag_pos)
  then have "f64_val c < 0 \<longleftrightarrow> signF64UI c" "\<bar>f64_val c\<bar> = fp_mag 52 1023 (f64_mag c)"
    by (auto simp: f64_val_def v64.abs_val) (simp_all add: f64_abs_def)
  moreover have "word_of_int (of_bool (signF64UI c) * 2 ^ 63 + f64_mag c) = c"
    unfolding f64_sign_mag [symmetric] by simp
  ultimately show ?thesis using f64_round_exact [OF m] by simp
qed

lemma not_sigNaN64 [simp]: "\<not> softfloat_isSigNaNF64UI defaultNaNF64UI" "\<not> softfloat_isSigNaNF64UI 0"
  "\<not> softfloat_isSigNaNF64UI (packToF64UI s 0x7FF 0)"
  by (cases s; simp add: softfloat_isSigNaNF64UI_def defaultNaNF64UI_def packToF64UI_def)+

text \<open>An infinite factor.\<close>

lemma f64_mulAdd_inf:
  assumes ab: "\<not> isNaNF64UI a" "\<not> isNaNF64UI b" "f64_isInf a \<or> f64_isInf b"
  shows "f64_mulAdd a b c st = f64_mulAdd_spec a b c st"
proof -
  define sP where "sP = (signF64UI a \<noteq> signF64UI b)"
  define inf0 where "inf0 \<longleftrightarrow> f64_isInf a \<and> f64_val b = 0 \<or> f64_isInf b \<and> f64_val a = 0"
  have sig: "\<not> softfloat_isSigNaNF64UI a" "\<not> softfloat_isSigNaNF64UI b"
    using ab(1,2) sigNaN_isNaN64 by blast+
  have c: "expF64UI c \<noteq> 2047 \<longleftrightarrow> \<not> isNaNF64UI c \<and> \<not> f64_isInf c"
    "expF64UI c = 2047 \<Longrightarrow> fracF64UI c \<noteq> 0 \<longleftrightarrow> isNaNF64UI c" "f64_isInf c \<Longrightarrow> \<not> isNaNF64UI c"
    by (auto simp: f64_class_fields(1) isNaNF64UI_int)
  have "f64_mulAdd a b c st = (if inf0 then softfloat_propagateNaNF64UI defaultNaNF64UI c (softfloat_raiseFlags softfloat_flag_invalid st)
      else if expF64UI c \<noteq> 2047 then (packToF64UI sP 0x7FF 0, st)
      else if fracF64UI c \<noteq> 0 then softfloat_propagateNaNF64UI (packToF64UI sP 0x7FF 0) c st
      else if sP = signF64UI c then (packToF64UI sP 0x7FF 0, st)
      else softfloat_propagateNaNF64UI defaultNaNF64UI c (softfloat_raiseFlags softfloat_flag_invalid st))"
  proof (cases "f64_isInf a")
    case True
    then have "expF64UI a = 2047" "fracF64UI a = 0" by (simp_all add: f64_class_fields)
    moreover have "(expF64UI b = 2047 \<and> fracF64UI b \<noteq> 0) = False" using ab(2) by (simp add: isNaNF64UI_int)
    moreover have "(f64_mag a = 0) = False" using True by (simp add: f64_isInf_def)
    ultimately show ?thesis
      using True unfolding f64_mulAdd_def softfloat_mulAddF64_def Let_def word_of_exp_or64 inf0_def v64.val_zero_iff sP_def
      by (cases "expF64UI b = 2047") (simp_all add: softfloat_mulAdd_subC_def softfloat_mulAdd_subProd_def)
  next
    case False
    then have "f64_isInf b" using ab(3) by simp
    then have "expF64UI b = 2047" "fracF64UI b = 0" by (simp_all add: f64_class_fields)
    moreover have "expF64UI a \<noteq> 2047" using False ab(1) by (auto simp: f64_class_fields(1) isNaNF64UI_int)
    ultimately show ?thesis
      using False \<open>f64_isInf b\<close> unfolding f64_mulAdd_def softfloat_mulAddF64_def Let_def word_of_exp_or64 inf0_def v64.val_zero_iff sP_def
      by (simp add: softfloat_mulAdd_subC_def softfloat_mulAdd_subProd_def)
  qed
  also have "\<dots> = f64_mulAdd_spec a b c st"
    unfolding f64_mulAdd_spec_def Let_def sP_def [symmetric] inf0_def [symmetric]
    using ab c sig sigNaN_isNaN64 [of c] by (auto simp: softfloat_propagateNaNF64UI_def)
  finally show ?thesis .
qed

theorem f64_mulAdd_refines: "f64_mulAdd a b c st = f64_mulAdd_spec a b c st"
proof -
  have nn: "\<not> isNaNF64UI d" "\<not> f64_isInf d" "\<not> softfloat_isSigNaNF64UI d" if "f64_finite d" for d
    using that sigNaN_isNaN64 [of d] by (auto simp: f64_class_fields(1,3) isNaNF64UI_int)
  have fields: "(expF64UI d = 2047) = False" if "f64_finite d" for d using that by (simp add: f64_class_fields)
  consider (nan) "isNaNF64UI a \<or> isNaNF64UI b" | (inf) "\<not> isNaNF64UI a" "\<not> isNaNF64UI b" "f64_isInf a \<or> f64_isInf b"
    | (cbig) "f64_finite a" "f64_finite b" "\<not> f64_finite c"
    | (zero) "f64_finite a" "f64_finite b" "f64_finite c" "f64_mag a = 0 \<or> f64_mag b = 0"
    | (finite) "f64_finite a" "f64_finite b" "f64_finite c" "f64_mag a \<noteq> 0" "f64_mag b \<noteq> 0"
    unfolding f64_class_fields(1,3) isNaNF64UI_int by blast
  then show ?thesis
  proof cases
    case nan
    have "f64_mulAdd a b c st = (case softfloat_propagateNaNF64UI a b st of (z, st) \<Rightarrow> softfloat_propagateNaNF64UI z c st)"
      using nan unfolding isNaNF64UI_int f64_mulAdd_def softfloat_mulAddF64_def Let_def
      by (cases "expF64UI a = 2047"; cases "fracF64UI a = 0"; simp)
    then show ?thesis using nan unfolding f64_mulAdd_spec_def Let_def by (auto simp: softfloat_propagateNaNF64UI_def)
  next
    case inf
    then show ?thesis by (rule f64_mulAdd_inf)
  next
    case cbig
    then have c: "expF64UI c = 2047" "fracF64UI c \<noteq> 0 \<longleftrightarrow> isNaNF64UI c" "f64_isInf c \<longleftrightarrow> \<not> isNaNF64UI c"
      by (auto simp: f64_class_fields(1,3) isNaNF64UI_int)
    have "f64_mulAdd a b c st = (if isNaNF64UI c then softfloat_propagateNaNF64UI 0 c st else (c, st))"
      unfolding f64_mulAdd_def softfloat_mulAddF64_def Let_def c(2) [symmetric] using c(1) fields cbig by simp
    then show ?thesis
      unfolding f64_mulAdd_spec_def Let_def using nn cbig c by (auto simp: softfloat_propagateNaNF64UI_def)
  next
    case zero
    have p: "f64_val a * f64_val b = 0" using zero(4) by (simp add: v64.val_zero_iff)
    define sP where "sP = (signF64UI a \<noteq> signF64UI b)"
    have "f64_mulAdd a b c st = (if f64_mag c = 0 \<and> sP \<noteq> signF64UI c
        then (packToF64UI (softfloat_roundingMode st = softfloat_round_min) 0 0, st) else (c, st))"
    proof (cases "f64_mag a = 0")
      case True
      then have "(expF64UI a = 0 \<and> fracF64UI a = 0) = True" by (simp add: f64_class_fields)
      then show ?thesis
        unfolding f64_mulAdd_def softfloat_mulAddF64_def Let_def sP_def f64_class_fields(4) fields [OF zero(1)] fields [OF zero(2)]
          fields [OF zero(3)] if_False
        by (simp add: softfloat_mulAdd_subC_def softfloat_mulAdd_subProd_def)
    next
      case False
      then have "(expF64UI b = 0 \<and> fracF64UI b = 0) = True" using zero(4) unfolding f64_class_fields by blast
      moreover have "(expF64UI a = 0 \<and> fracF64UI a = 0) = False" using False by (simp add: f64_class_fields)
      moreover obtain ea sa where "f64_norm a = (ea, sa)" by (cases "f64_norm a")
      ultimately show ?thesis
        unfolding f64_mulAdd_def softfloat_mulAddF64_def Let_def sP_def f64_class_fields(4) fields [OF zero(1)] fields [OF zero(2)]
          fields [OF zero(3)] if_False f64_norm_def [symmetric]
        by (simp add: softfloat_mulAdd_subC_def softfloat_mulAdd_subProd_def)
    qed
    moreover have "f64_round st (f64_val c < 0) \<bar>f64_val c\<bar> = (c, st)" if "f64_mag c \<noteq> 0"
      using f64_round_val [OF zero(3) that] .
    moreover have "c = packToF64UI (signF64UI c) 0 0" if "f64_mag c = 0"
      using f64_sign_mag [of c] that by (simp add: packToF64UI_word word_uint_eq_iff uint_of_int64)
    ultimately show ?thesis
      unfolding f64_mulAdd_spec_def Let_def p sP_def [symmetric] add_0 v64.val_zero_iff using nn zero by auto
  next
    case finite
    have "f64_val a * f64_val b \<noteq> 0" using finite(4,5) by (simp add: v64.val_zero_iff)
    then show ?thesis
      unfolding f64_mulAdd_nonzero [OF finite(1,4,2,5,3)] f64_mulAdd_spec_def Let_def using nn finite by simp
  qed
qed

end
