(* ===== verification/SF_RemF32.thy ===== *)
theory SF_RemF32
  imports SF_FConv
begin

text \<open>
  The IEEE remainder in single precision (\<open>f32_rem.c\<close>): \<open>a - b * n\<close>, where \<open>n\<close> is the integer
  nearest to \<open>a / b\<close>, ties to even.  The code gets 29 bits of the quotient per turn of its loop
  from an approximate reciprocal, and only the lowest of them matters.  The final subtraction
  loop could run forever for other operands, so its result is an option.
\<close>

section \<open>Definitions\<close>

function f32_rem_loop :: "u32 \<Rightarrow> u32 \<Rightarrow> u32 \<Rightarrow> int \<Rightarrow> u32 \<times> u32 \<times> int" where
  "f32_rem_loop recip32 sigB rem expDiff =
     (let q = ucast (drop_bit 32 (ucast rem * ucast recip32 :: u64))
      in if expDiff < 0 then (q, rem, expDiff)
         else f32_rem_loop recip32 sigB (- (q * sigB)) (expDiff - 29))"
  by pat_completeness auto
termination by (relation "measure (\<lambda>(r, s, m, e). nat (e + 1))") auto

declare f32_rem_loop.simps [simp del]

partial_function (option) f32_rem_reduce :: "u32 \<Rightarrow> u32 \<Rightarrow> u32 \<Rightarrow> (u32 \<times> u32 \<times> u32) option" where
  "f32_rem_reduce sigB rem q =
     (let altRem = rem; q = q + 1; rem = rem - sigB
      in if rem AND 0x80000000 = 0 then f32_rem_reduce sigB rem q else Some (altRem, q, rem))"

definition f32_rem_finite ::
  "float32 \<Rightarrow> bool \<Rightarrow> int \<Rightarrow> u32 \<Rightarrow> int \<Rightarrow> u32 \<Rightarrow> sf_state \<Rightarrow> (float32 \<times> sf_state) option" where
  "f32_rem_finite a signA expA sigA expB sigB st =
     (let rem = sigA OR 0x00800000;
          sigB = sigB OR 0x00800000;
          expDiff = expA - expB
      in if expDiff < - 1 then Some (a, st)
         else let (q, rem, sigB) =
                (if expDiff < 1
                 then let sigB = push_bit 6 sigB
                      in if expDiff \<noteq> 0 then (0, push_bit 5 rem, sigB)
                         else let rem = push_bit 6 rem; q = of_bool (sigB \<le> rem)
                              in (q, if q \<noteq> 0 then rem - sigB else rem, sigB)
                 else let recip32 = softfloat_approxRecip32_1 (push_bit 8 sigB);
                          rem = push_bit 7 rem;
                          sigB = push_bit 6 sigB;
                          (q, rem, expDiff) = f32_rem_loop recip32 sigB rem (expDiff - 31);
                          q = drop_bit (nat (NOT expDiff AND 31)) q
                      in (q, push_bit (nat (expDiff + 30)) rem - q * sigB, sigB))
              in case f32_rem_reduce sigB rem q of
                   None \<Rightarrow> None
                 | Some (altRem, q, rem) \<Rightarrow>
                     let meanRem = rem + altRem;
                         rem = (if meanRem AND 0x80000000 \<noteq> 0 \<or> (meanRem = 0 \<and> q AND 1 \<noteq> 0) then altRem else rem);
                         (signRem, rem) = (if 0x80000000 \<le> rem then (\<not> signA, - rem) else (signA, rem))
                     in Some (softfloat_normRoundPackToF32 signRem expB rem st))"

definition f32_rem :: "float32 \<Rightarrow> float32 \<Rightarrow> sf_state \<Rightarrow> (float32 \<times> sf_state) option" where
  "f32_rem a b st =
     (let signA = signF32UI a;
          expA = expF32UI a;
          sigA = fracF32UI a;
          expB = expF32UI b;
          sigB = fracF32UI b;
          propagateNaN = Some (softfloat_propagateNaNF32UI a b st);
          invalid = Some (defaultNaNF32UI, softfloat_raiseFlags softfloat_flag_invalid st)
      in if expA = 0xFF
         then if sigA \<noteq> 0 \<or> (expB = 0xFF \<and> sigB \<noteq> 0) then propagateNaN else invalid
         else if expB = 0xFF
         then if sigB \<noteq> 0 then propagateNaN else Some (a, st)
         else if expB = 0 \<and> sigB = 0 then invalid
         else let (expB, sigB) = (if expB = 0 then softfloat_normSubnormalF32Sig sigB else (expB, sigB))
              in if expA = 0 \<and> sigA = 0 then Some (a, st)
                 else let (expA, sigA) = (if expA = 0 then softfloat_normSubnormalF32Sig sigA else (expA, sigA))
                      in f32_rem_finite a signA expA sigA expB sigB st)"

section \<open>Specification\<close>

definition real_rem :: "real \<Rightarrow> real \<Rightarrow> real" where
  "real_rem x y = x - y * of_int (rne (x / y))"

definition f32_rem_spec :: "float32 \<Rightarrow> float32 \<Rightarrow> sf_state \<Rightarrow> float32 \<times> sf_state" where
  "f32_rem_spec a b st =
     (if isNaNF32UI a \<or> isNaNF32UI b then softfloat_propagateNaNF32UI a b st
      else if f32_isInf a \<or> f32_val b = 0
      then (defaultNaNF32UI, softfloat_raiseFlags softfloat_flag_invalid st)
      else if f32_isInf b then (a, st)
      else let r = real_rem (f32_val a) (f32_val b)
           in if r = 0 then (packToF32UI (signF32UI a) 0 0, st) else f32_round st (r < 0) \<bar>r\<bar>)"

section \<open>The integer remainder\<close>

lemma div_bounds: "0 < c \<Longrightarrow> x div c * c \<le> x" "0 < c \<Longrightarrow> x < (x div c + 1) * c" for x c :: int
  using div_mult_mod_eq [of x c] pos_mod_bound [of c x] pos_mod_sign [of c x] unfolding distrib_right mult_1 by linarith+

text \<open>One turn of the loop, or its last part: the estimate is at most one below the quotient.\<close>

lemma rem_estimate32:
  fixes \<rho> B :: int
  assumes B: "0 < B" and r: "0 \<le> \<rho>" "\<rho> < 2 ^ 31" and i: "i \<le> 29"
  defines "R \<equiv> (2 ^ 63 - 1) div (4 * B)"
  defines "Q \<equiv> \<rho> * R div 2 ^ 32 div 2 ^ i"
  shows "0 \<le> \<rho> * 2 ^ (29 - i) - Q * B" "\<rho> * 2 ^ (29 - i) - Q * B < 2 * B"
proof -
  define U :: int where "U = 2 ^ (34 + i)"
  have U: "0 < U" "2 ^ 33 \<le> U" "\<rho> * 2 ^ 63 = \<rho> * 2 ^ (29 - i) * U" "2 ^ (32 + i) * 4 = U"
  proof -
    have "(2::int) ^ 33 \<le> 2 ^ (34 + i)" by (intro power_increasing) simp_all
    then show "2 ^ 33 \<le> U" "0 < U" "2 ^ (32 + i) * 4 = U" by (simp_all add: U_def power_add)
    have "(2::int) ^ 63 = 2 ^ (29 - i) * 2 ^ (34 + i)" using i by (simp flip: power_add)
    then show "\<rho> * 2 ^ 63 = \<rho> * 2 ^ (29 - i) * U" by (simp add: U_def)
  qed
  have Q: "Q = \<rho> * R div 2 ^ (32 + i)" by (simp add: Q_def power_add zdiv_zmult2_eq)
  have q1: "Q * 2 ^ (32 + i) \<le> \<rho> * R" "\<rho> * R < (Q + 1) * 2 ^ (32 + i)"
    unfolding Q by (intro div_bounds; simp)+
  have "R * (4 * B) \<le> 2 ^ 63 - 1" "2 ^ 63 - 1 < (R + 1) * (4 * B)"
    unfolding R_def by (intro div_bounds; use B in simp)+
  then have r1: "R * (4 * B) \<le> 2 ^ 63" "2 ^ 63 \<le> (R + 1) * (4 * B)" by linarith+
  have "Q * B * U = Q * 2 ^ (32 + i) * (4 * B)" by (simp add: U(4) [symmetric])
  also have "\<dots> \<le> \<rho> * R * (4 * B)" using q1(1) B by (intro mult_right_mono) simp_all
  also have "\<dots> \<le> \<rho> * 2 ^ 63" using mult_left_mono [OF r1(1) r(1)] by (simp add: ac_simps)
  finally have "Q * B * U \<le> \<rho> * 2 ^ (29 - i) * U" unfolding U(3) .
  then show "0 \<le> \<rho> * 2 ^ (29 - i) - Q * B" using U(1) by simp
  have "\<rho> * 2 ^ 63 \<le> \<rho> * ((R + 1) * (4 * B))" using r1(2) r(1) by (intro mult_left_mono)
  also have "\<dots> = \<rho> * R * (4 * B) + \<rho> * 4 * B" by (simp add: algebra_simps)
  also have "\<rho> * R * (4 * B) < (Q + 1) * 2 ^ (32 + i) * (4 * B)" using q1(2) B by (intro mult_strict_right_mono) simp_all
  also have "\<rho> * 4 * B \<le> U * B" using r(2) U(2) B by (intro mult_right_mono) simp_all
  finally have "\<rho> * 2 ^ (29 - i) * U < (Q + 2) * B * U" unfolding U(3) by (simp add: U(4) [symmetric] algebra_simps)
  then have "\<rho> * 2 ^ (29 - i) < (Q + 2) * B" using U(1) by simp
  then show "\<rho> * 2 ^ (29 - i) - Q * B < 2 * B" by (simp add: distrib_right)
qed

text \<open>The choice between the two candidates of least magnitude.\<close>

lemma rne_quotient:
  fixes N B n alt :: int
  assumes B: "0 < B" and N: "N = n * B + alt" "0 \<le> alt" "alt < B"
  shows "N - B * rne (of_int N / of_int B) =
     (if 2 * alt - B < 0 \<or> (2 * alt - B = 0 \<and> odd (n + 1)) then alt else alt - B)"
proof -
  have x: "real_of_int N / of_int B = of_int n + of_int alt / of_int B" using B by (simp add: N(1) add_divide_distrib)
  have fl: "\<lfloor>real_of_int N / of_int B\<rfloor> = n"
    unfolding x using B N(2,3) by (intro floor_unique) simp_all
  have h: "real_of_int alt / of_int B < 1 / 2 \<longleftrightarrow> 2 * alt < B" "real_of_int alt / of_int B = 1 / 2 \<longleftrightarrow> 2 * alt = B"
    using B of_int_less_iff [of "2 * alt" B, where 'a = real] of_int_eq_iff [of "2 * alt" B, where 'a = real]
    by (simp_all add: divide_less_eq divide_eq_eq mult.commute)
  have "rne (real_of_int N / of_int B) = (if 2 * alt < B \<or> (2 * alt = B \<and> even n) then n else n + 1)"
    unfolding rne_def fl Let_def unfolding x add_diff_cancel_left' h ..
  then show ?thesis by (simp add: N(1) algebra_simps)
qed

section \<open>The loops\<close>

lemma rem_q32: "uint (ucast (drop_bit 32 (ucast r * ucast c :: u64)) :: u32) = uint r * uint c div 2 ^ 32" for r c :: u32
proof -
  have "uint r * uint c < 2 ^ 32 * 2 ^ 32"
    using uint_lt2p [of r] uint_lt2p [of c] by (intro mult_strict_mono) simp_all
  then have "uint r * uint c div 2 ^ 32 < 2 ^ 32" by (intro int_div_less) simp_all
  moreover have "0 \<le> uint r * uint c div 2 ^ 32" by (simp add: pos_imp_zdiv_nonneg_iff)
  ultimately have "uint r * uint c div 2 ^ 32 mod 2 ^ 32 = uint r * uint c div 2 ^ 32" by (intro mod_pos_pos_trivial)
  then show ?thesis by (simp only: uint_ucast_64_32 uint_drop_bit_div uint_mul32)
qed

lemma f32_rem_loop_correct:
  assumes B: "2 ^ 29 \<le> uint sigB" "uint sigB < 2 ^ 30" "64 dvd uint sigB"
    and R: "uint recip32 = (2 ^ 63 - 1) div (4 * uint sigB)"
    and r: "uint rem < 2 ^ 31" "64 dvd uint rem" and e: "- 30 \<le> e"
  obtains q rem' e' K where "f32_rem_loop recip32 sigB rem e = (q, rem', e')" "- 30 \<le> e'" "e' < 0"
    "uint q = uint rem' * uint recip32 div 2 ^ 32" "uint rem' < 2 ^ 31" "64 dvd uint rem'"
    "uint rem * 2 ^ nat (e + 30) = 2 * K * uint sigB + uint rem' * 2 ^ nat (e' + 30)"
  using B R r e
proof (induction recip32 sigB rem e arbitrary: thesis rule: f32_rem_loop.induct)
  case (1 recip32 sigB rem e)
  define q where "q = (ucast (drop_bit 32 (ucast rem * ucast recip32 :: u64)) :: u32)"
  define \<rho> B where "\<rho> = uint rem" and "B = uint sigB"
  note B = 1(3-5) [folded B_def] and R = 1(6) [folded B_def] and r = 1(7,8) [folded \<rho>_def]
  have q: "uint q = \<rho> * uint recip32 div 2 ^ 32" by (simp add: q_def \<rho>_def rem_q32)
  show ?case
  proof (cases "e < 0")
    case True
    have "f32_rem_loop recip32 sigB rem e = (q, rem, e)"
      using True by (subst f32_rem_loop.simps) (simp add: q_def)
    then show ?thesis using 1(2) [of q rem e 0] True 1(9) r q by (simp add: \<rho>_def)
  next
    case False
    define rem' where "rem' = - (q * sigB)"
    have est: "0 \<le> \<rho> * 2 ^ 29 - uint q * B" "\<rho> * 2 ^ 29 - uint q * B < 2 * B"
      using rem_estimate32 [of B \<rho> 0] B r by (simp_all add: q R \<rho>_def)
    obtain k where k: "\<rho> = 64 * k" using r(2) by (rule dvdE)
    have "uint rem' = (- (uint q * B)) mod 2 ^ 32" by (simp add: rem'_def uint_word_ariths B_def mod_minus_eq)
    also have "\<dots> = (\<rho> * 2 ^ 29 - uint q * B) mod 2 ^ 32"
    proof -
      have "\<rho> * 2 ^ 29 - uint q * B = - (uint q * B) + 8 * k * 2 ^ 32" by (simp add: k)
      then show ?thesis by (simp only: mod_mult_self1)
    qed
    also have "\<dots> = \<rho> * 2 ^ 29 - uint q * B" using est B by (intro mod_pos_pos_trivial) simp_all
    finally have rem': "uint rem' = \<rho> * 2 ^ 29 - uint q * B" .
    have r': "uint rem' < 2 ^ 31" "64 dvd uint rem'" "- 30 \<le> e - 29"
      unfolding rem' using est B r False by (auto intro: dvd_diff)
    obtain q' rem'' e' K where I: "f32_rem_loop recip32 sigB rem' (e - 29) = (q', rem'', e')" "- 30 \<le> e'" "e' < 0"
      "uint q' = uint rem'' * uint recip32 div 2 ^ 32" "uint rem'' < 2 ^ 31" "64 dvd uint rem''"
      "uint rem' * 2 ^ nat (e - 29 + 30) = 2 * K * uint sigB + uint rem'' * 2 ^ nat (e' + 30)"
      by (rule 1(1) [OF q_def False _ 1(3-6) r' [unfolded rem'_def], folded rem'_def])
    have "f32_rem_loop recip32 sigB rem e = f32_rem_loop recip32 sigB rem' (e - 29)"
      using False by (subst f32_rem_loop.simps) (simp add: q_def rem'_def)
    moreover have "\<rho> * 2 ^ nat (e + 30) = 2 * (uint q * 2 ^ nat e + K) * B + uint rem'' * 2 ^ nat (e' + 30)"
    proof -
      have "nat (e + 30) = 29 + Suc (nat e)" "nat (e - 29 + 30) = Suc (nat e)" using False by simp_all
      then show ?thesis using I(7) unfolding rem' B_def by (simp add: power_add algebra_simps)
    qed
    ultimately show ?thesis using I 1(2) [of q' rem'' e' "uint q * 2 ^ nat e + K"] by (simp add: \<rho>_def B_def)
  qed
qed

lemma f32_rem_reduce_correct:
  assumes B: "2 ^ 29 \<le> uint sigB" "uint sigB < 2 ^ 30" and r: "uint rem < 2 ^ 31"
  obtains n alt q' where "f32_rem_reduce sigB rem q = Some (alt, q', alt - sigB)" "uint rem = int n * uint sigB + uint alt"
    "uint alt < uint sigB" "q' = q + word_of_nat n + 1"
  using r
proof (induction "nat (uint rem)" arbitrary: rem q thesis rule: less_induct)
  case less
  have step: "f32_rem_reduce sigB rem q =
      (if (rem - sigB) AND 0x80000000 = 0 then f32_rem_reduce sigB (rem - sigB) (q + 1) else Some (rem, q + 1, rem - sigB))"
    by (subst f32_rem_reduce.simps) (simp add: Let_def)
  define D where "D = uint rem - uint sigB"
  have D: "- (2 ^ 31) < D" "D < 2 ^ 31"
  proof -
    define r s where "r = uint rem" and "s = uint sigB"
    have "0 \<le> r" "r < 2 ^ 31" "0 < s" "s < 2 ^ 30" using B less(3) by (simp_all add: r_def s_def)
    then show "- (2 ^ 31) < D" "D < 2 ^ 31" unfolding D_def r_def [symmetric] s_def [symmetric] by simp_all
  qed
  have d: "uint (rem - sigB) = (if D < 0 then D + 2 ^ 32 else D)"
  proof (cases "D < 0")
    case True
    have "D mod 2 ^ 32 = (D + 2 ^ 32) mod 2 ^ 32" by simp
    also have "\<dots> = D + 2 ^ 32" using D True by (intro mod_pos_pos_trivial) simp_all
    finally show ?thesis using True by (simp add: uint_word_ariths D_def)
  next
    case False
    then have "D mod 2 ^ 32 = D" using D by (intro mod_pos_pos_trivial) simp_all
    then show ?thesis using False by (simp add: uint_word_ariths D_def)
  qed
  show ?case
  proof (cases "D < 0")
    case True
    then have "\<not> uint (rem - sigB) < 2 ^ 31" using D by (simp add: d)
    then have "f32_rem_reduce sigB rem q = Some (rem, q + 1, rem - sigB)" unfolding step high_bit32 by (rule if_not_P)
    moreover have "uint rem = int 0 * uint sigB + uint rem" "q + 1 = q + word_of_nat 0 + 1" by simp_all
    moreover have "uint rem < uint sigB" using True by (simp add: D_def)
    ultimately show ?thesis by (intro less(2))
  next
    case False
    then have "uint (rem - sigB) < 2 ^ 31" using D by (simp add: d)
    then have s: "f32_rem_reduce sigB rem q = f32_rem_reduce sigB (rem - sigB) (q + 1)" unfolding step high_bit32 by (rule if_P)
    have "uint (rem - sigB) < uint rem" using False B unfolding d by (simp add: D_def)
    then have lt: "nat (uint (rem - sigB)) < nat (uint rem)" "uint (rem - sigB) < 2 ^ 31"
      using D False by (simp_all only: nat_less_eq_zless uint_ge_0 d if_False)
    obtain n alt q' where I: "f32_rem_reduce sigB (rem - sigB) (q + 1) = Some (alt, q', alt - sigB)"
      "uint (rem - sigB) = int n * uint sigB + uint alt" "uint alt < uint sigB" "q' = q + 1 + word_of_nat n + 1"
      by (rule less(1) [OF lt(1) _ lt(2)])
    have "uint rem = int (Suc n) * uint sigB + uint alt" using I(2) False unfolding d D_def by (simp add: distrib_right)
    moreover have "q' = q + word_of_nat (Suc n) + 1" unfolding I(4) by simp
    ultimately show ?thesis using less(2) [of alt q' "Suc n"] I(1,3) s by simp
  qed
qed

lemma signed_mod32: "- (2 ^ 31) \<le> n \<Longrightarrow> n < 2 ^ 31 \<Longrightarrow> n mod 2 ^ 32 = (if n < 0 then n + 2 ^ 32 else n)" for n :: int
proof (cases "n < 0")
  case True
  assume "- (2 ^ 31) \<le> n" "n < 2 ^ 31"
  then have "(n + 2 ^ 32) mod 2 ^ 32 = n + 2 ^ 32" using True by (intro mod_pos_pos_trivial) simp_all
  then show ?thesis using True by simp
qed simp

lemma even_uint_word: "even (uint w) \<longleftrightarrow> even w" for w :: "'a::len word"
  using bit_0 [of w] bit_0 [of "uint w"] by (simp add: bit_uint_iff)

lemma f32_rem_pick:
  assumes B: "2 ^ 29 \<le> uint sigB" "uint sigB < 2 ^ 30" and r: "uint rem < 2 ^ 31"
    and N: "N = (2 * K + uint q) * uint sigB + uint rem"
  defines "R \<equiv> N - uint sigB * rne (of_int N / of_int (uint sigB))"
  shows "(case f32_rem_reduce sigB rem q of
       None \<Rightarrow> None
     | Some (altRem, q, rem) \<Rightarrow>
         let meanRem = rem + altRem;
             rem = (if meanRem AND 0x80000000 \<noteq> 0 \<or> (meanRem = 0 \<and> q AND 1 \<noteq> 0) then altRem else rem);
             (signRem, rem) = (if 0x80000000 \<le> rem then (\<not> signA, - rem) else (signA, rem))
         in Some (softfloat_normRoundPackToF32 signRem expB rem st)) =
     Some (softfloat_normRoundPackToF32 (signA \<noteq> (R < 0)) expB (word_of_int \<bar>R\<bar>) st)" "2 * \<bar>R\<bar> \<le> uint sigB"
proof -
  obtain n alt q' where red: "f32_rem_reduce sigB rem q = Some (alt, q', alt - sigB)" "uint rem = int n * uint sigB + uint alt"
    "uint alt < uint sigB" "q' = q + word_of_nat n + 1"
    using B r by (rule f32_rem_reduce_correct)
  define b l where "b = uint sigB" and "l = uint alt"
  have bl: "2 ^ 29 \<le> b" "b < 2 ^ 30" "0 \<le> l" "l < b" using B red(3) by (simp_all add: b_def l_def)
  have "N = (2 * K + uint q + int n) * b + l" unfolding N red(2) b_def l_def by (simp add: algebra_simps)
  then have R: "R = (if 2 * l - b < 0 \<or> (2 * l - b = 0 \<and> odd (2 * K + uint q + int n + 1)) then l else l - b)"
    unfolding R_def b_def [symmetric] using bl by (intro rne_quotient) simp_all
  have odd: "odd (2 * K + uint q + int n + 1) \<longleftrightarrow> q' AND 1 \<noteq> 0"
    unfolding red(4) by (simp add: and_one_eq mod_2_eq_odd even_uint_word)
  have lb: "uint (alt - sigB) = l - b + 2 ^ 32"
  proof -
    have "- (2 ^ 31) \<le> l - b" "l - b < 2 ^ 31" "l - b < 0" using bl by simp_all
    then have "(l - b) mod 2 ^ 32 = l - b + 2 ^ 32" using signed_mod32 [of "l - b"] by simp
    then show ?thesis by (simp add: uint_word_ariths l_def b_def)
  qed
  have "uint (alt - sigB + alt) = (2 * l - b) mod 2 ^ 32"
  proof -
    have "alt - sigB + alt = 2 * alt - sigB" by simp
    then show ?thesis by (simp only:) (simp add: uint_word_ariths mod_diff_left_eq l_def b_def)
  qed
  then have mean: "uint (alt - sigB + alt) = (if 2 * l - b < 0 then 2 * l - b + 2 ^ 32 else 2 * l - b)"
    using signed_mod32 [of "2 * l - b"] bl by simp
  have m1: "alt - sigB + alt AND 0x80000000 \<noteq> 0 \<longleftrightarrow> 2 * l - b < 0" unfolding high_bit32 mean using bl by simp
  have m2: "alt - sigB + alt = 0 \<longleftrightarrow> 2 * l - b = 0" unfolding word_zero_uint mean using bl by simp
  show "2 * \<bar>R\<bar> \<le> uint sigB" unfolding R b_def [symmetric] using bl by auto
  have neg: "- (alt - sigB) = word_of_int (b - l)" by (simp add: b_def l_def)
  have big: "0x80000000 \<le> alt - sigB" "\<not> 0x80000000 \<le> alt" unfolding word_le_def lb l_def [symmetric] using bl by simp_all
  show "(case f32_rem_reduce sigB rem q of
       None \<Rightarrow> None
     | Some (altRem, q, rem) \<Rightarrow>
         let meanRem = rem + altRem;
             rem = (if meanRem AND 0x80000000 \<noteq> 0 \<or> (meanRem = 0 \<and> q AND 1 \<noteq> 0) then altRem else rem);
             (signRem, rem) = (if 0x80000000 \<le> rem then (\<not> signA, - rem) else (signA, rem))
         in Some (softfloat_normRoundPackToF32 signRem expB rem st)) =
     Some (softfloat_normRoundPackToF32 (signA \<noteq> (R < 0)) expB (word_of_int \<bar>R\<bar>) st)"
    unfolding red(1) option.case prod.case Let_def m1 m2 odd [symmetric] R
    using big neg bl by (simp add: l_def)
qed

section \<open>Refinement\<close>

lemma approxRecip32_1_value:
  assumes "2 ^ 31 \<le> uint a"
  shows "uint (softfloat_approxRecip32_1 a) = (2 ^ 63 - 1) div uint a"
proof -
  have "(2 ^ 63 - 1) div uint a \<le> (2 ^ 63 - 1) div 2 ^ 31" using assms by (intro zdiv_mono2) simp_all
  then have "(2 ^ 63 - 1) div uint a < 2 ^ 32" "0 \<le> (2 ^ 63 - 1) div uint a"
    using assms by (simp_all add: pos_imp_zdiv_nonneg_iff)
  moreover have "uint ((0x7FFFFFFFFFFFFFFF :: u64) div ucast a) = (2 ^ 63 - 1) div uint a"
    by (simp add: uint_div)
  ultimately show ?thesis unfolding softfloat_approxRecip32_1_def uint_ucast_64_32 by simp
qed

lemma rem_shift: "- 30 \<le> e \<Longrightarrow> e < 0 \<Longrightarrow> nat (NOT e AND 31) = 29 - nat (e + 30)" for e :: int
proof -
  assume e: "- 30 \<le> e" "e < 0"
  have "NOT e = - e - 1" by (simp add: not_int_def)
  moreover have "(- e - 1) AND 31 = - e - 1"
  proof -
    have "(31 :: int) = mask 5" by (simp add: mask_eq_exp_minus_1)
    then show ?thesis using e by (simp only: take_bit_eq_mask [symmetric]) (simp add: take_bit_int_eq_self)
  qed
  ultimately show ?thesis using e by simp
qed

lemma f32_rem_core:
  assumes A: "uint (sigA OR 0x00800000) = mA" "2 ^ 23 \<le> mA" "mA < 2 ^ 24"
    and B: "uint (sigB OR 0x00800000) = mB" "2 ^ 23 \<le> mB" "mB < 2 ^ 24"
    and e: "- 1 \<le> expA - expB"
  defines "N \<equiv> mA * 2 ^ nat (expA - expB + 6)"
  defines "R \<equiv> N - mB * 64 * rne (of_int N / of_int (mB * 64))"
  shows "f32_rem_finite a signA expA sigA expB sigB st =
     Some (softfloat_normRoundPackToF32 (signA \<noteq> (R < 0)) expB (word_of_int \<bar>R\<bar>) st)"
    "2 * \<bar>R\<bar> \<le> mB * 64"
proof -
  define d where "d = expA - expB"
  define sA sB where "sA = sigA OR 0x00800000" and "sB = push_bit 6 (sigB OR 0x00800000)"
  have uB: "uint sB = mB * 64" unfolding sB_def using B by (subst uint_push_bit_small) simp_all
  have uA: "uint (push_bit k sA) = mA * 2 ^ k" if "k \<le> 7" for k
  proof -
    have "mA * 2 ^ k < 2 ^ 24 * 2 ^ 7" using A that by (intro mult_less_le_imp_less power_increasing) simp_all
    then show ?thesis using A(1) by (subst uint_push_bit_small) (simp_all add: sA_def)
  qed
  define start where "start =
      (if d < 1
       then if d \<noteq> 0 then (0, push_bit 5 sA)
            else let q = of_bool (sB \<le> push_bit 6 sA) in (q, if q \<noteq> 0 then push_bit 6 sA - sB else push_bit 6 sA)
       else let (q, rem, expDiff) = f32_rem_loop (softfloat_approxRecip32_1 (push_bit 8 (sigB OR 0x00800000))) sB (push_bit 7 sA) (d - 31);
                q = drop_bit (nat (NOT expDiff AND 31)) q
            in (q, push_bit (nat (expDiff + 30)) rem - q * sB))"
  have "\<exists>K. N = (2 * K + uint (fst start)) * uint sB + uint (snd start) \<and> uint (snd start) < 2 ^ 31"
  proof -
    consider (neg) "d = - 1" | (zero) "d = 0" | (pos) "1 \<le> d" using e by (fastforce simp: d_def)
    then show ?thesis
    proof cases
      case neg
      then show ?thesis using uA [of 5] A by (intro exI [of _ 0]) (simp add: start_def N_def d_def [symmetric])
    next
      case zero
      have r: "uint (push_bit 6 sA) = mA * 64" "N = mA * 64" using uA [of 6] zero by (simp_all add: N_def d_def)
      show ?thesis
      proof (cases "mB \<le> mA")
        case True
        then have le: "sB \<le> push_bit 6 sA" by (simp add: word_le_def uB r)
        then have "uint (push_bit 6 sA - sB) = mA * 64 - mB * 64" using uint_sub_lem [of sB "push_bit 6 sA"] by (simp add: word_le_def uB r)
        then show ?thesis using zero le A B by (intro exI [of _ 0]) (simp add: start_def uB r)
      next
        case False
        then have "\<not> sB \<le> push_bit 6 sA" by (simp add: word_le_def uB r)
        then show ?thesis using zero r A by (intro exI [of _ 0]) (simp add: start_def)
      qed
    next
      case pos
      define recip where "recip = softfloat_approxRecip32_1 (push_bit 8 (sigB OR 0x00800000))"
      have "uint (push_bit 8 (sigB OR 0x00800000)) = 4 * uint sB" unfolding uB using B by (subst uint_push_bit_small) simp_all
      then have R: "uint recip = (2 ^ 63 - 1) div (4 * uint sB)"
        unfolding recip_def using B uB approxRecip32_1_value [of "push_bit 8 (sigB OR 0x00800000)"] by simp
      have sB: "2 ^ 29 \<le> uint sB" "uint sB < 2 ^ 30" "64 dvd uint sB" using B by (simp_all add: uB)
      have r: "uint (push_bit 7 sA) < 2 ^ 31" "64 dvd uint (push_bit 7 sA)" "- 30 \<le> d - 31"
        using uA [of 7] A pos by simp_all
      obtain q rem e' K where L: "f32_rem_loop recip sB (push_bit 7 sA) (d - 31) = (q, rem, e')" "- 30 \<le> e'" "e' < 0"
        "uint q = uint rem * uint recip div 2 ^ 32" "uint rem < 2 ^ 31" "64 dvd uint rem"
        "uint (push_bit 7 sA) * 2 ^ nat (d - 31 + 30) = 2 * K * uint sB + uint rem * 2 ^ nat (e' + 30)"
        using sB R r by (rule f32_rem_loop_correct)
      define j where "j = nat (e' + 30)"
      have j: "j \<le> 29" "nat (NOT e' AND 31) = 29 - j" using rem_shift [OF L(2,3)] L(2,3) by (simp_all add: j_def)
      define q' where "q' = drop_bit (29 - j) q"
      have q': "uint q' = uint rem * uint recip div 2 ^ 32 div 2 ^ (29 - j)" by (simp add: q'_def uint_drop_bit_div L(4))
      have est: "0 \<le> uint rem * 2 ^ j - uint q' * uint sB" "uint rem * 2 ^ j - uint q' * uint sB < 2 * uint sB"
        using rem_estimate32 [of "uint sB" "uint rem" "29 - j"] sB(1) L(5) j(1) by (simp_all add: q' R)
      have "uint (push_bit j rem - q' * sB) = (uint rem * 2 ^ j - uint q' * uint sB) mod 2 ^ 32"
        by (simp add: uint_word_ariths uint_push_bit_mod mod_diff_eq)
      also have "\<dots> = uint rem * 2 ^ j - uint q' * uint sB" using est sB(2) by (intro mod_pos_pos_trivial) simp_all
      finally have f: "uint (push_bit j rem - q' * sB) = uint rem * 2 ^ j - uint q' * uint sB" .
      have "start = (q', push_bit j rem - q' * sB)"
        using pos unfolding start_def recip_def [symmetric] L(1) by (simp add: Let_def q'_def j j_def [symmetric])
      moreover have "N = mA * 2 ^ 7 * 2 ^ nat (d - 31 + 30)"
      proof -
        have "nat (expA - expB + 6) = 7 + nat (d - 31 + 30)" using pos by (simp add: d_def)
        then show ?thesis by (simp add: N_def power_add)
      qed
      ultimately show ?thesis
        using L(7) uA [of 7] est sB(2) by (intro exI [of _ K]) (simp add: f j_def [symmetric] distrib_right)
    qed
  qed
  then obtain K where K: "N = (2 * K + uint (fst start)) * uint sB + uint (snd start)" "uint (snd start) < 2 ^ 31" by blast
  have "f32_rem_finite a signA expA sigA expB sigB st = (case f32_rem_reduce sB (snd start) (fst start) of
       None \<Rightarrow> None
     | Some (altRem, q, rem) \<Rightarrow>
         let meanRem = rem + altRem;
             rem = (if meanRem AND 0x80000000 \<noteq> 0 \<or> (meanRem = 0 \<and> q AND 1 \<noteq> 0) then altRem else rem);
             (signRem, rem) = (if 0x80000000 \<le> rem then (\<not> signA, - rem) else (signA, rem))
         in Some (softfloat_normRoundPackToF32 signRem expB rem st))"
    using e unfolding f32_rem_finite_def start_def sA_def sB_def d_def by (simp add: Let_def split: prod.split)
  then show "f32_rem_finite a signA expA sigA expB sigB st =
     Some (softfloat_normRoundPackToF32 (signA \<noteq> (R < 0)) expB (word_of_int \<bar>R\<bar>) st)"
    "2 * \<bar>R\<bar> \<le> mB * 64"
    using f32_rem_pick [of sB "snd start" N K "fst start"] K B by (simp_all add: uB R_def)
qed

lemma rne_uminus: "rne (- x) = - rne x"
proof (cases "x = of_int \<lfloor>x\<rfloor>")
  case True
  then obtain n where n: "x = of_int n" by blast
  have "rne (of_int m) = m" for m by (simp add: rne_def)
  from this [of n] this [of "- n"] show ?thesis by (simp add: n)
next
  case False
  define q f where "q = \<lfloor>x\<rfloor>" and "f = x - of_int q"
  have f: "0 < f" "f < 1" "x = of_int q + f" using False unfolding f_def q_def by linarith+
  have "\<lfloor>- x\<rfloor> = - q - 1" using f by (intro floor_unique) simp_all
  moreover have "\<lfloor>x\<rfloor> = q" by (simp add: q_def)
  ultimately show ?thesis unfolding rne_def Let_def using f by auto
qed

lemma rne_small: "0 \<le> x \<Longrightarrow> x < 1 / 2 \<Longrightarrow> rne x = 0"
proof -
  assume "0 \<le> x" "x < 1 / 2"
  moreover from this have "\<lfloor>x\<rfloor> = 0" by (intro floor_unique) simp_all
  ultimately show ?thesis by (simp add: rne_def)
qed

lemma real_rem_signs:
  "real_rem (- x) y = - real_rem x y" "real_rem x (- y) = real_rem x y"
  by (simp_all add: real_rem_def rne_uminus)

text \<open>The remainder of two scaled integers.\<close>

lemma real_rem_scaled:
  assumes "0 < s" "0 < B"
  shows "real_rem (s * of_int N) (s * of_int B) = s * of_int (N - B * rne (of_int N / of_int B))"
  using assms by (simp add: real_rem_def right_diff_distrib)

lemma normRoundPackToF32_zero:
  assumes "- 1000 \<le> e" "e \<le> 254"
  shows "softfloat_normRoundPackToF32 s e 0 st = (packToF32UI s 0 0, st)"
proof -
  have c: "softfloat_countLeadingZeros32 0 = 32" by (simp add: softfloat_countLeadingZeros32_def softfloat_countLeadingZeros8_def)
  have j: "softfloat_shiftRightJam32 0 n = 0" for n by (simp add: softfloat_shiftRightJam32_def)
  have d: "drop_bit 7 i = (0 :: u32)" if "i = 0x7F \<or> i = 0 \<or> i = 0x40" for i using that by (elim disjE) simp_all
  show ?thesis
  proof (cases "0xFD \<le> (word_of_int (e - 31) :: u16)")
    case False
    then have "(word_of_int (e - 31) :: u16) < 0xFD" by (rule not_le_imp_less)
    then show ?thesis unfolding softfloat_normRoundPackToF32_def Let_def c by (simp del: of_int_diff)
  next
    case True
    have "e - 31 < 0"
    proof (rule ccontr)
      define k where "k = e - 31"
      assume "\<not> e - 31 < 0"
      then have k: "0 \<le> k" "k < 0xFD" using assms by (simp_all add: k_def)
      then have "uint (word_of_int k :: u16) = k" by (simp add: uint_word_of_int)
      then show False using True k unfolding k_def [symmetric] by (simp add: word_le_def)
    qed
    then show ?thesis using True
      by (simp add: softfloat_normRoundPackToF32_def softfloat_roundPackToF32_def Let_def c j d)
  qed
qed

lemma f32_rem_main:
  assumes a: "f32_finite a" "f32_mag a \<noteq> 0" and b: "f32_finite b" "f32_mag b \<noteq> 0"
  shows "f32_rem a b st = Some (let r = real_rem (f32_val a) (f32_val b)
           in if r = 0 then (packToF32UI (signF32UI a) 0 0, st) else f32_round st (r < 0) \<bar>r\<bar>)"
proof -
  obtain eA sA mA where A: "f32_norm a = (eA, sA)" "uint (sA OR 0x00800000) = mA" "2 ^ 23 \<le> mA" "mA < 2 ^ 24"
    "- 22 \<le> eA" "eA \<le> 254" "f32_abs a = of_int mA * 2 powi (eA - 150)" using a by (rule f32_norm_value)
  obtain eB sB mB where B: "f32_norm b = (eB, sB)" "uint (sB OR 0x00800000) = mB" "2 ^ 23 \<le> mB" "mB < 2 ^ 24"
    "- 22 \<le> eB" "eB \<le> 254" "f32_abs b = of_int mB * 2 powi (eB - 150)" using b by (rule f32_norm_value)
  have flags: "(expF32UI a = 255) = False" "(expF32UI a = 0 \<and> fracF32UI a = 0) = False"
    "(expF32UI b = 255) = False" "(expF32UI b = 0 \<and> fracF32UI b = 0) = False"
    using a b unfolding f32_class_fields by simp_all
  have code: "f32_rem a b st = f32_rem_finite a (signF32UI a) eA sA eB sB st"
    unfolding f32_rem_def Let_def flags if_False f32_norm_def [symmetric] A(1) B(1) prod.case ..
  define r where "r = real_rem (f32_abs a) (f32_abs b)"
  have rr: "real_rem (f32_val a) (f32_val b) = (if signF32UI a then - r else r)"
    by (simp add: f32_val_def real_rem_signs r_def)
  show ?thesis
  proof (cases "eA - eB < - 1")
    case True
    then have "f32_rem a b st = Some (a, st)" unfolding code f32_rem_finite_def Let_def by simp
    moreover have r: "r = f32_abs a" "0 < f32_abs a"
    proof -
      show pos: "0 < f32_abs a" unfolding A(7) using A(3) by simp
      have "(2::real) powi (eA - 150) \<le> 2 powi (eB - 152)" using True by (intro power_int_increasing) simp_all
      also have "(2::real) powi (eB - 152) = 2 powi (eB - 150) / 4" using powi_add [of "eB - 152" 2] by simp
      finally have "f32_abs a \<le> of_int mA * (2 powi (eB - 150) / 4)" unfolding A(7) using A(3) by (intro mult_left_mono) simp_all
      also have "\<dots> < of_int (2 * mB) * (2 powi (eB - 150) / 4)" proof (rule mult_strict_right_mono)
        have "mA < 2 * mB" using A(4) B(3) by simp
        then show "real_of_int mA < of_int (2 * mB)" by (simp only: of_int_less_iff)
      qed simp
      finally have "f32_abs a < f32_abs b / 2" by (simp add: B(7))
      moreover have "0 < f32_abs b" unfolding B(7) using B(3) by simp
      ultimately show "r = f32_abs a" using pos by (simp add: r_def real_rem_def rne_small divide_less_eq)
    qed
    moreover have "f32_round st (f32_val a < 0) \<bar>f32_val a\<bar> = (a, st)"
    proof -
      have "f32_val a < 0 \<longleftrightarrow> signF32UI a" "\<bar>f32_val a\<bar> = f32_abs a" using r(2) by (simp_all add: f32_val_def)
      then show ?thesis using f32_self [OF a] by simp
    qed
    moreover have "real_rem (f32_val a) (f32_val b) = f32_val a" unfolding rr r(1) by (simp add: f32_val_def)
    moreover have "f32_val a \<noteq> 0" using r(2) by (simp add: f32_val_def)
    ultimately show ?thesis by (simp add: Let_def)
  next
    case False
    define N where "N = mA * 2 ^ nat (eA - eB + 6)"
    define R where "R = N - mB * 64 * rne (of_int N / of_int (mB * 64))"
    define s :: real where "s = 2 powi (eB - 156)"
    have s: "0 < s" by (simp add: s_def)
    have core: "f32_rem_finite a (signF32UI a) eA sA eB sB st =
        Some (softfloat_normRoundPackToF32 (signF32UI a \<noteq> (R < 0)) eB (word_of_int \<bar>R\<bar>) st)" "2 * \<bar>R\<bar> \<le> mB * 64"
      using f32_rem_core(1) [OF A(2-4) B(2-4), of eA eB a "signF32UI a" st] f32_rem_core(2) [OF A(2-4) B(2-4), of eA eB] False
      unfolding N_def R_def by simp_all
    have "(2::real) powi (eA - 150) = s * 2 ^ nat (eA - eB + 6)"
      using False unfolding s_def power_int_of_nat [symmetric] by (simp flip: powi_add)
    then have aN: "f32_abs a = s * of_int N" unfolding A(7) N_def by simp
    have "(2::real) powi (eB - 150) = s * 64" unfolding s_def using powi_add [of "eB - 156" 6] by simp
    then have bB: "f32_abs b = s * of_int (mB * 64)" unfolding B(7) by simp
    have r: "r = s * of_int R"
      unfolding r_def aN bB R_def using s B(3) by (intro real_rem_scaled) simp_all
    have u: "uint (word_of_int \<bar>R\<bar> :: u32) = \<bar>R\<bar>" using core(2) B(4) by (simp add: uint_of_int32)
    have round: "softfloat_normRoundPackToF32 (signF32UI a \<noteq> (R < 0)) eB (word_of_int \<bar>R\<bar>) st =
        f32_round st (signF32UI a \<noteq> (R < 0)) \<bar>r\<bar>" if "R \<noteq> 0"
    proof -
      have "softfloat_normRoundPackToF32 (signF32UI a \<noteq> (R < 0)) eB (word_of_int \<bar>R\<bar>) st =
          f32_round st (signF32UI a \<noteq> (R < 0)) (fp_scaled 23 127 6 eB (of_int \<bar>R\<bar>))"
        by (rule normRoundPackToF32_refines) (use u that core(2) B(4-6) in \<open>simp_all add: word_zero_uint\<close>)
      moreover have "fp_scaled 23 127 6 eB (of_int \<bar>R\<bar>) = \<bar>r\<bar>" using s by (simp add: fp_scaled_def r s_def abs_mult mult.commute)
      ultimately show ?thesis by simp
    qed
    show ?thesis
    proof (cases "R = 0")
      case True
      then show ?thesis using normRoundPackToF32_zero [of eB] B(5,6) unfolding code core(1) rr r by simp
    next
      case False
      moreover have "r < 0 \<longleftrightarrow> R < 0" using s by (simp add: r mult_less_0_iff)
      moreover have "r \<noteq> 0" using s False by (simp add: r)
      ultimately show ?thesis unfolding code core(1) rr round [OF False] Let_def by (cases "signF32UI a") auto
    qed
  qed
qed

theorem f32_rem_refines: "f32_rem a b st = Some (f32_rem_spec a b st)"
proof (cases a b rule: f32_class_cases)
  case nan
  then have "f32_rem a b st = Some (softfloat_propagateNaNF32UI a b st)"
    unfolding isNaNF32UI_int f32_rem_def Let_def
    by (cases "expF32UI a = 255"; cases "fracF32UI a = 0"; simp)
  then show ?thesis using nan unfolding f32_rem_spec_def by simp
next
  case inf
  show ?thesis
  proof (cases "f32_isInf a")
    case True
    then show ?thesis
      using inf by (cases "expF32UI b = 255") (simp_all add: f32_rem_def f32_rem_spec_def Let_def f32_class_fields(1) isNaNF32UI_int)
  next
    case False
    then have "f32_isInf b" "expF32UI a \<noteq> 255" using inf by (auto simp: f32_class_fields(1) isNaNF32UI_int)
    moreover have "f32_val b \<noteq> 0" using \<open>f32_isInf b\<close> by (simp add: v32.val_zero_iff f32_isInf_def)
    ultimately show ?thesis
      using inf False by (simp add: f32_rem_def f32_rem_spec_def Let_def f32_class_fields(1))
  qed
next
  case finite
  have nn: "\<not> isNaNF32UI d" "\<not> f32_isInf d" if "f32_finite d" for d
    using that by (auto simp: f32_class_fields(1,3) isNaNF32UI_int)
  have e: "(expF32UI a = 255) = False" "(expF32UI b = 255) = False" using finite by (simp_all add: f32_class_fields)
  consider (bzero) "f32_mag b = 0" | (azero) "f32_mag b \<noteq> 0" "f32_mag a = 0" | (main) "f32_mag a \<noteq> 0" "f32_mag b \<noteq> 0" by blast
  then show ?thesis
  proof cases
    case bzero
    then have "(expF32UI b = 0 \<and> fracF32UI b = 0) = True" by (simp add: f32_class_fields)
    then have "f32_rem a b st = Some (defaultNaNF32UI, softfloat_raiseFlags softfloat_flag_invalid st)"
      unfolding f32_rem_def Let_def e if_False if_True by simp
    then show ?thesis using nn finite bzero by (simp add: f32_rem_spec_def v32.val_zero_iff)
  next
    case azero
    then have "(expF32UI b = 0 \<and> fracF32UI b = 0) = False" "(expF32UI a = 0 \<and> fracF32UI a = 0) = True"
      by (simp_all add: f32_class_fields)
    moreover obtain eb sb where "f32_norm b = (eb, sb)" by (cases "f32_norm b")
    ultimately have "f32_rem a b st = Some (a, st)"
      unfolding f32_rem_def Let_def f32_norm_def [symmetric] by (simp only: e if_False if_True prod.case)
    moreover have "f32_val a = 0" "f32_val b \<noteq> 0" using azero by (simp_all add: v32.val_zero_iff)
    ultimately show ?thesis
      using nn finite azero by (simp add: f32_rem_spec_def real_rem_def rne_small f32_zero_bits)
  next
    case main
    then have "f32_val b \<noteq> 0" by (simp add: v32.val_zero_iff)
    then show ?thesis using nn finite f32_rem_main [OF finite(1) main(1) finite(2) main(2)] by (simp add: f32_rem_spec_def)
  qed
qed

end
