(* ===== verification/SF_RemF64.thy ===== *)
theory SF_RemF64
  imports SF_RemF32
begin

text \<open>
  The IEEE remainder in double precision (\<open>f64_rem.c\<close>).  The reciprocal is that of the upper 32
  bits of the divisor, so that an estimate may also be too large by one; the loop then adds the
  divisor back.
\<close>

section \<open>Definitions\<close>

function f64_rem_loop :: "u32 \<Rightarrow> u64 \<Rightarrow> u64 \<Rightarrow> int \<Rightarrow> u64 \<times> u64 \<times> int" where
  "f64_rem_loop recip32 sigB rem expDiff =
     (let q64 = ucast (ucast (drop_bit 32 rem) :: u32) * ucast recip32
      in if expDiff < 0 then (q64, rem, expDiff)
         else let q = (ucast (drop_bit 32 (q64 + 0x80000000)) :: u32);
                  rem = push_bit 29 rem;
                  rem = rem - ucast q * sigB;
                  rem = (if rem AND 0x8000000000000000 \<noteq> 0 then rem + sigB else rem)
              in f64_rem_loop recip32 sigB rem (expDiff - 29))"
  by pat_completeness auto
termination by (relation "measure (\<lambda>(r, s, m, e). nat (e + 1))") auto

declare f64_rem_loop.simps [simp del]

partial_function (option) f64_rem_reduce :: "u64 \<Rightarrow> u64 \<Rightarrow> u32 \<Rightarrow> (u64 \<times> u32 \<times> u64) option" where
  "f64_rem_reduce sigB rem q =
     (let altRem = rem; q = q + 1; rem = rem - sigB
      in if rem AND 0x8000000000000000 = 0 then f64_rem_reduce sigB rem q else Some (altRem, q, rem))"

definition f64_rem_select :: "bool \<Rightarrow> int \<Rightarrow> sf_state \<Rightarrow> u64 \<times> u32 \<times> u64 \<Rightarrow> float64 \<times> sf_state" where
  "f64_rem_select signA expB st = (\<lambda>(altRem, q, rem).
     let meanRem = rem + altRem;
         rem = (if meanRem AND 0x8000000000000000 \<noteq> 0 \<or> (meanRem = 0 \<and> q AND 1 \<noteq> 0) then altRem else rem);
         (signRem, rem) = (if rem AND 0x8000000000000000 \<noteq> 0 then (\<not> signA, - rem) else (signA, rem))
     in softfloat_normRoundPackToF64 signRem expB rem st)"

definition f64_rem_finite ::
  "float64 \<Rightarrow> bool \<Rightarrow> int \<Rightarrow> u64 \<Rightarrow> int \<Rightarrow> u64 \<Rightarrow> sf_state \<Rightarrow> (float64 \<times> sf_state) option" where
  "f64_rem_finite a signA expA sigA expB sigB st =
     (let rem = sigA OR 0x0010000000000000;
          sigB = sigB OR 0x0010000000000000;
          expDiff = expA - expB;
          reduce = (\<lambda>sigB rem q. map_option (f64_rem_select signA expB st) (f64_rem_reduce sigB rem q))
      in if expDiff < - 1 then Some (a, st)
         else if expDiff < 1
         then let sigB = push_bit 9 sigB
              in if expDiff \<noteq> 0 then reduce sigB (push_bit 8 rem) 0
                 else let rem = push_bit 9 rem; q = of_bool (sigB \<le> rem)
                      in reduce sigB (if q \<noteq> 0 then rem - sigB else rem) q
         else let recip32 = softfloat_approxRecip32_1 (ucast (drop_bit 21 sigB));
                  rem = push_bit 9 rem;
                  sigB = push_bit 9 sigB;
                  (q64, rem, expDiff) = f64_rem_loop recip32 sigB rem (expDiff - 30);
                  q = drop_bit (nat (NOT expDiff AND 31)) (ucast (drop_bit 32 q64) :: u32);
                  rem = push_bit (nat (expDiff + 30)) rem - ucast q * sigB
              in if rem AND 0x8000000000000000 \<noteq> 0
                 then Some (f64_rem_select signA expB st (rem + sigB, q, rem))
                 else reduce sigB rem q)"

definition f64_rem :: "float64 \<Rightarrow> float64 \<Rightarrow> sf_state \<Rightarrow> (float64 \<times> sf_state) option" where
  "f64_rem a b st =
     (let signA = signF64UI a;
          expA = expF64UI a;
          sigA = fracF64UI a;
          expB = expF64UI b;
          sigB = fracF64UI b;
          propagateNaN = Some (softfloat_propagateNaNF64UI a b st);
          invalid = Some (defaultNaNF64UI, softfloat_raiseFlags softfloat_flag_invalid st)
      in if expA = 0x7FF
         then if sigA \<noteq> 0 \<or> (expB = 0x7FF \<and> sigB \<noteq> 0) then propagateNaN else invalid
         else if expB = 0x7FF
         then if sigB \<noteq> 0 then propagateNaN else Some (a, st)
         else if expA < expB - 1 then Some (a, st)
         else if expB = 0 \<and> sigB = 0 then invalid
         else let (expB, sigB) = (if expB = 0 then softfloat_normSubnormalF64Sig sigB else (expB, sigB))
              in if expA = 0 \<and> sigA = 0 then Some (a, st)
                 else let (expA, sigA) = (if expA = 0 then softfloat_normSubnormalF64Sig sigA else (expA, sigA))
                      in f64_rem_finite a signA expA sigA expB sigB st)"

section \<open>Specification\<close>

definition f64_rem_spec :: "float64 \<Rightarrow> float64 \<Rightarrow> sf_state \<Rightarrow> float64 \<times> sf_state" where
  "f64_rem_spec a b st =
     (if isNaNF64UI a \<or> isNaNF64UI b then softfloat_propagateNaNF64UI a b st
      else if f64_isInf a \<or> f64_val b = 0
      then (defaultNaNF64UI, softfloat_raiseFlags softfloat_flag_invalid st)
      else if f64_isInf b then (a, st)
      else let r = real_rem (f64_val a) (f64_val b)
           in if r = 0 then (packToF64UI (signF64UI a) 0 0, st) else f64_round st (r < 0) \<bar>r\<bar>)"

section \<open>The estimate of the quotient\<close>


text \<open>With \<open>h\<close> the upper half of the divisor and \<open>P\<close> the product the code computes.\<close>

lemma rem_product64:
  fixes \<rho> B :: int
  assumes B: "2 ^ 61 \<le> B" "B < 2 ^ 62" and r: "0 \<le> \<rho>" "\<rho> < 2 ^ 62 \<or> 4 * \<rho> < 7 * B"
  defines "P \<equiv> \<rho> div 2 ^ 32 * ((2 ^ 63 - 1) div (B div 2 ^ 30))"
  shows "P * B \<le> \<rho> * 2 ^ 61 + 2 ^ 31 * B" "\<rho> * 2 ^ 61 < P * B + 2 ^ 93 + \<rho> div 2 ^ 32 * B"
proof -
  define h l where "h = B div 2 ^ 30" and "l = B mod 2 ^ 30"
  have Bhl: "B = h * 2 ^ 30 + l" unfolding h_def l_def by (rule div_split_pow)
  have l: "0 \<le> l" "l < 2 ^ 30" by (simp_all add: l_def)
  have h: "2 ^ 31 \<le> h" "h < 2 ^ 32" using B l unfolding Bhl by simp_all
  define R where "R = (2 ^ 63 - 1) div h"
  define \<rho>h \<rho>l where "\<rho>h = \<rho> div 2 ^ 32" and "\<rho>l = \<rho> mod 2 ^ 32"
  have \<rho>hl: "\<rho> = \<rho>h * 2 ^ 32 + \<rho>l" unfolding \<rho>h_def \<rho>l_def by (rule div_split_pow)
  have \<rho>l: "0 \<le> \<rho>l" "\<rho>l < 2 ^ 32" by (simp_all add: \<rho>l_def)
  have \<rho>h: "0 \<le> \<rho>h" using r(1) by (simp add: \<rho>h_def pos_imp_zdiv_nonneg_iff)
  have P: "P = \<rho>h * R" by (simp add: P_def R_def h_def \<rho>h_def)
  have Rh: "R * h \<le> 2 ^ 63" "2 ^ 63 \<le> (R + 1) * h"
  proof -
    have "0 < h" using h by simp
    from div_bounds [OF this, of "2 ^ 63 - 1"] show "R * h \<le> 2 ^ 63" "2 ^ 63 \<le> (R + 1) * h"
      unfolding R_def [symmetric] by linarith+
  qed
  have R0: "0 \<le> R" using h by (simp add: R_def pos_imp_zdiv_nonneg_iff)
  have rl: "\<rho> * l \<le> B * h"
    using r(2)
  proof
    assume "\<rho> < 2 ^ 62"
    then have "\<rho> * l \<le> 2 ^ 62 * 2 ^ 30" using r(1) l by (intro mult_mono) simp_all
    also have "\<dots> = 2 ^ 61 * 2 ^ 31" by simp
    also have "\<dots> \<le> B * h" using B h by (intro mult_mono) simp_all
    finally show ?thesis .
  next
    assume "4 * \<rho> < 7 * B"
    define x y z where "x = \<rho> * l" and "y = B * l" and "z = B * h"
    have "4 * x \<le> 7 * y" using \<open>4 * \<rho> < 7 * B\<close> l mult_right_mono [of "4 * \<rho>" "7 * B" l] by (simp add: x_def y_def)
    moreover have "y \<le> B * 2 ^ 30" unfolding y_def using l B by (intro mult_left_mono) simp_all
    moreover have "B * 2 ^ 31 \<le> z" unfolding z_def using B h by (intro mult_left_mono) simp_all
    ultimately show ?thesis unfolding x_def [symmetric] z_def [symmetric] using B by simp
  qed
  have "\<rho>h * R * l \<le> 2 ^ 31 * B"
  proof -
    have "\<rho>h * R * l * (h * 2 ^ 32) = \<rho>h * 2 ^ 32 * l * (R * h)" by simp
    also have "\<dots> \<le> \<rho> * l * 2 ^ 63"
      using \<rho>hl \<rho>l \<rho>h l Rh(1) R0 h by (intro mult_mono) simp_all
    also have "\<dots> \<le> B * h * 2 ^ 63" using rl by simp
    also have "\<dots> = 2 ^ 31 * B * (h * 2 ^ 32)" by simp
    finally have "\<rho>h * R * l * (h * 2 ^ 32) \<le> 2 ^ 31 * B * (h * 2 ^ 32)" .
    moreover have "0 < h * 2 ^ 32" using h by simp
    ultimately show ?thesis by (simp only: mult_le_cancel_right_pos)
  qed
  moreover define X Y where "X = \<rho>h * (R * h)" and "Y = \<rho>h * R * l"
  moreover have "P * B = X * 2 ^ 30 + Y" unfolding P X_def Y_def by (subst Bhl) (simp add: algebra_simps)
  moreover have "X \<le> \<rho>h * 2 ^ 63" unfolding X_def using \<rho>h Rh(1) by (rule mult_left_mono [rotated])
  moreover have "\<rho> * 2 ^ 61 = \<rho>h * 2 ^ 63 * 2 ^ 30 + \<rho>l * 2 ^ 61" by (subst \<rho>hl) (simp add: algebra_simps)
  ultimately show "P * B \<le> \<rho> * 2 ^ 61 + 2 ^ 31 * B" using \<rho>l unfolding Y_def [symmetric] by simp
  have "2 ^ 63 * 2 ^ 30 \<le> (R + 1) * h * 2 ^ 30" using Rh(2) by (rule mult_right_mono) simp
  also have "\<dots> \<le> (R + 1) * B" using R0 l by (subst Bhl) (simp add: algebra_simps)
  finally have "\<rho>h * (2 ^ 63 * 2 ^ 30) \<le> \<rho>h * ((R + 1) * B)" using \<rho>h by (rule mult_left_mono)
  then have "\<rho>h * (2 ^ 63 * 2 ^ 30) \<le> P * B + \<rho>h * B" unfolding P by (simp add: algebra_simps)
  moreover have "\<rho> * 2 ^ 61 = \<rho>h * (2 ^ 63 * 2 ^ 30) + \<rho>l * 2 ^ 61" by (subst \<rho>hl) (simp add: algebra_simps)
  ultimately show "\<rho> * 2 ^ 61 < P * B + 2 ^ 93 + \<rho> div 2 ^ 32 * B" unfolding \<rho>h_def [symmetric] using \<rho>l by simp
qed

text \<open>One turn of the loop.\<close>

lemma rem_turn64:
  fixes \<rho> B :: int
  assumes B: "2 ^ 61 \<le> B" "B < 2 ^ 62" and r: "0 \<le> \<rho>" "\<rho> < 2 ^ 62 \<or> 4 * \<rho> < 7 * B"
  defines "P \<equiv> \<rho> div 2 ^ 32 * ((2 ^ 63 - 1) div (B div 2 ^ 30))"
  defines "V \<equiv> \<rho> * 2 ^ 29 - (P + 2 ^ 31) div 2 ^ 32 * B"
  shows "- B \<le> V" "4 * V < 7 * B"
proof -
  note p = rem_product64 [OF B r, folded P_def]
  define q where "q = (P + 2 ^ 31) div 2 ^ 32"
  have q: "q * 2 ^ 32 \<le> P + 2 ^ 31" "P + 2 ^ 31 < (q + 1) * 2 ^ 32" unfolding q_def by (intro div_bounds; simp)+
  have V: "V * 2 ^ 32 = \<rho> * 2 ^ 61 - q * 2 ^ 32 * B" by (simp add: V_def q_def algebra_simps)
  have "q * 2 ^ 32 * B \<le> (P + 2 ^ 31) * B" using q(1) B by (intro mult_right_mono) simp_all
  then have "- B * 2 ^ 32 \<le> V * 2 ^ 32" unfolding V using p(1) by (simp add: distrib_right)
  then show "- B \<le> V" by simp
  have "(P + 2 ^ 31) * B < (q + 1) * 2 ^ 32 * B" using q(2) B by (intro mult_strict_right_mono) simp_all
  then have "V * 2 ^ 32 < 2 ^ 93 + \<rho> div 2 ^ 32 * B + 2 ^ 31 * B" unfolding V using p(2) by (simp add: distrib_right)
  moreover have "2 ^ 93 + \<rho> div 2 ^ 32 * B \<le> 5 * 2 ^ 30 * B"
    using r(2)
  proof
    assume "\<rho> < 2 ^ 62"
    then have "\<rho> div 2 ^ 32 \<le> 2 ^ 30" by (intro int_div_less [THEN less_imp_le]) simp_all
    then have "\<rho> div 2 ^ 32 * B \<le> 2 ^ 30 * B" using B by (intro mult_right_mono) simp_all
    moreover have "2 ^ 93 \<le> 4 * 2 ^ 30 * B" using B by simp
    ultimately show ?thesis by linarith
  next
    assume "4 * \<rho> < 7 * B"
    then have le: "\<rho> div 2 ^ 32 * 2 ^ 34 \<le> 7 * B" using div_bounds(1) [of "2 ^ 32" \<rho>] by simp
    define x y where "x = \<rho> div 2 ^ 32 * B" and "y = B * B"
    have "2 ^ 34 * x \<le> 7 * y"
      using mult_right_mono [of "\<rho> div 2 ^ 32 * 2 ^ 34" "7 * B" B] B le by (simp add: x_def y_def)
    moreover have "(B - 2 ^ 61) * (B - 2 ^ 62) \<le> 0" using B by (intro mult_nonneg_nonpos) simp_all
    then have "y \<le> (2 ^ 61 + 2 ^ 62) * B - 2 ^ 61 * 2 ^ 62" by (simp add: y_def algebra_simps)
    ultimately show ?thesis unfolding x_def [symmetric] using B by simp
  qed
  ultimately have "V * 2 ^ 32 < 7 * 2 ^ 30 * B" by simp
  then show "4 * V < 7 * B" by simp
qed

text \<open>The last part of the quotient.\<close>

lemma rem_last64:
  fixes \<rho> B :: int
  assumes B: "2 ^ 61 \<le> B" "B < 2 ^ 62" and r: "0 \<le> \<rho>" "\<rho> < 2 ^ 62 \<or> 4 * \<rho> < 7 * B" and i: "i \<le> 29"
  defines "P \<equiv> \<rho> div 2 ^ 32 * ((2 ^ 63 - 1) div (B div 2 ^ 30))"
  defines "V \<equiv> \<rho> * 2 ^ (29 - i) - P div 2 ^ 32 div 2 ^ i * B"
  shows "- B \<le> V" "V < 2 ^ 63"
proof -
  note p = rem_product64 [OF B r, folded P_def]
  define U :: int where "U = 2 ^ (32 + i)"
  have U: "2 ^ 32 \<le> U" "0 < U"
  proof -
    have "(2::int) ^ 32 \<le> 2 ^ (32 + i)" by (intro power_increasing) simp_all
    then show "2 ^ 32 \<le> U" "0 < U" by (simp_all add: U_def)
  qed
  define q where "q = P div U"
  have q: "q * U \<le> P" "P < (q + 1) * U" unfolding q_def using U by (intro div_bounds; simp)+
  have "(2::int) ^ 61 = 2 ^ (29 - i) * 2 ^ (32 + i)" using i by (simp flip: power_add)
  moreover have "P div 2 ^ 32 div 2 ^ i = q" by (simp add: q_def U_def power_add zdiv_zmult2_eq)
  ultimately have V: "V * U = \<rho> * 2 ^ 61 - q * U * B" by (simp add: V_def U_def algebra_simps)
  have "q * U * B \<le> P * B" using q(1) B by (intro mult_right_mono) simp_all
  moreover have "2 ^ 31 * B \<le> U * B" using U B by (intro mult_right_mono) simp_all
  ultimately have "- B * U \<le> V * U" unfolding V using p(1) by (simp add: algebra_simps)
  then show "- B \<le> V" using U(2) by (simp only: mult_le_cancel_right_pos)
  have "P * B < (q + 1) * U * B" using q(2) B by (intro mult_strict_right_mono) simp_all
  then have 1: "V * U < 2 ^ 93 + \<rho> div 2 ^ 32 * B + U * B" unfolding V using p(2) by (simp add: algebra_simps)
  have 2: "2 ^ 93 + \<rho> div 2 ^ 32 * B \<le> 2 ^ 32 * (15 * 2 ^ 58)"
    using r(2)
  proof
    assume "\<rho> < 2 ^ 62"
    then have "\<rho> div 2 ^ 32 \<le> 2 ^ 30" by (intro int_div_less [THEN less_imp_le]) simp_all
    then have "\<rho> div 2 ^ 32 * B \<le> 2 ^ 30 * 2 ^ 62" using B r(1) by (intro mult_mono) simp_all
    then show ?thesis by simp
  next
    assume "4 * \<rho> < 7 * B"
    then have "\<rho> div 2 ^ 32 * 2 ^ 34 \<le> 7 * B" using div_bounds(1) [of "2 ^ 32" \<rho>] by simp
    then have "\<rho> div 2 ^ 32 \<le> 7 * 2 ^ 28" using B by simp
    then have "\<rho> div 2 ^ 32 * B \<le> 7 * 2 ^ 28 * 2 ^ 62" using B r(1) by (intro mult_mono) simp_all
    then show ?thesis by simp
  qed
  have "2 ^ 32 * (15 * 2 ^ 58) \<le> U * (15 * 2 ^ 58)" using U by (intro mult_right_mono) simp_all
  moreover have "U * B \<le> U * 2 ^ 62" using U B by (intro mult_left_mono) simp_all
  ultimately have "V * U < U * (15 * 2 ^ 58) + U * 2 ^ 62" using 1 2 by linarith
  also have "\<dots> = (2 ^ 62 + 15 * 2 ^ 58) * U" by (simp add: algebra_simps)
  finally have "V < 2 ^ 62 + 15 * 2 ^ 58" using U(2) by (simp only: mult_less_cancel_right_pos)
  then show "V < 2 ^ 63" by simp
qed

section \<open>The loops\<close>

lemma f64_rem_reduce_correct:
  assumes B: "2 ^ 61 \<le> uint sigB" "uint sigB < 2 ^ 62" and r: "uint rem < 2 ^ 63"
  obtains n alt q' where "f64_rem_reduce sigB rem q = Some (alt, q', alt - sigB)" "uint rem = int n * uint sigB + uint alt"
    "uint alt < uint sigB" "q' = q + word_of_nat n + 1"
  using r
proof (induction "nat (uint rem)" arbitrary: rem q thesis rule: less_induct)
  case less
  have step: "f64_rem_reduce sigB rem q =
      (if (rem - sigB) AND 0x8000000000000000 = 0 then f64_rem_reduce sigB (rem - sigB) (q + 1) else Some (rem, q + 1, rem - sigB))"
    by (subst f64_rem_reduce.simps) (simp add: Let_def)
  define D where "D = uint rem - uint sigB"
  have D: "- (2 ^ 63) < D" "D < 2 ^ 63"
  proof -
    define r s where "r = uint rem" and "s = uint sigB"
    have "0 \<le> r" "r < 2 ^ 63" "0 < s" "s < 2 ^ 62" using B less(3) by (simp_all add: r_def s_def)
    then show "- (2 ^ 63) < D" "D < 2 ^ 63" unfolding D_def r_def [symmetric] s_def [symmetric] by simp_all
  qed
  have d: "uint (rem - sigB) = (if D < 0 then D + 2 ^ 64 else D)"
  proof (cases "D < 0")
    case True
    have "D mod 2 ^ 64 = (D + 2 ^ 64) mod 2 ^ 64" by simp
    also have "\<dots> = D + 2 ^ 64" using D True by (intro mod_pos_pos_trivial) simp_all
    finally show ?thesis using True by (simp add: uint_word_ariths D_def)
  next
    case False
    then have "D mod 2 ^ 64 = D" using D by (intro mod_pos_pos_trivial) simp_all
    then show ?thesis using False by (simp add: uint_word_ariths D_def)
  qed
  show ?case
  proof (cases "D < 0")
    case True
    then have "\<not> uint (rem - sigB) < 2 ^ 63" using D by (simp add: d)
    then have "f64_rem_reduce sigB rem q = Some (rem, q + 1, rem - sigB)" unfolding step high_bit64 by (rule if_not_P)
    moreover have "uint rem = int 0 * uint sigB + uint rem" "q + 1 = q + word_of_nat 0 + 1" by simp_all
    moreover have "uint rem < uint sigB" using True by (simp add: D_def)
    ultimately show ?thesis by (intro less(2))
  next
    case False
    then have "uint (rem - sigB) < 2 ^ 63" using D by (simp add: d)
    then have s: "f64_rem_reduce sigB rem q = f64_rem_reduce sigB (rem - sigB) (q + 1)" unfolding step high_bit64 by (rule if_P)
    have "uint (rem - sigB) < uint rem" using False B unfolding d by (simp add: D_def)
    then have lt: "nat (uint (rem - sigB)) < nat (uint rem)" "uint (rem - sigB) < 2 ^ 63"
      using D False by (simp_all only: nat_less_eq_zless uint_ge_0 d if_False)
    obtain n alt q' where I: "f64_rem_reduce sigB (rem - sigB) (q + 1) = Some (alt, q', alt - sigB)"
      "uint (rem - sigB) = int n * uint sigB + uint alt" "uint alt < uint sigB" "q' = q + 1 + word_of_nat n + 1"
      by (rule less(1) [OF lt(1) _ lt(2)])
    have "uint rem = int (Suc n) * uint sigB + uint alt" using I(2) False unfolding d D_def by (simp add: distrib_right)
    moreover have "q' = q + word_of_nat (Suc n) + 1" unfolding I(4) by simp
    ultimately show ?thesis using less(2) [of alt q' "Suc n"] I(1,3) s by simp
  qed
qed

lemma signed_word64:
  fixes w :: u64
  assumes "uint w = V mod 2 ^ 64" "- (2 ^ 63) \<le> V" "V < 2 ^ 63"
  shows "uint w = (if V < 0 then V + 2 ^ 64 else V)" "w AND 0x8000000000000000 \<noteq> 0 \<longleftrightarrow> V < 0"
proof -
  show w: "uint w = (if V < 0 then V + 2 ^ 64 else V)"
  proof (cases "V < 0")
    case True
    have "V mod 2 ^ 64 = (V + 2 ^ 64) mod 2 ^ 64" by simp
    also have "\<dots> = V + 2 ^ 64" using assms True by (intro mod_pos_pos_trivial) simp_all
    finally show ?thesis using True assms(1) by simp
  next
    case False
    then have "V mod 2 ^ 64 = V" using assms by (intro mod_pos_pos_trivial) simp_all
    then show ?thesis using False assms(1) by simp
  qed
  show "w AND 0x8000000000000000 \<noteq> 0 \<longleftrightarrow> V < 0" unfolding high_bit64 w using assms by simp
qed

lemma rem_q64: "uint (ucast (ucast (drop_bit 32 r) :: u32) * ucast c :: u64) = uint r div 2 ^ 32 * uint c" for r :: u64 and c :: u32
proof -
  have "uint r div 2 ^ 32 < 2 ^ 32" "0 \<le> uint r div 2 ^ 32"
    using uint_lt2p [of r] by (auto intro: int_div_less simp: pos_imp_zdiv_nonneg_iff)
  then have "uint (ucast (drop_bit 32 r) :: u32) = uint r div 2 ^ 32" by (simp add: uint_ucast_64_32 uint_drop_bit_div)
  then show ?thesis by (simp add: uint_mul32)
qed

lemma f64_rem_loop_correct:
  assumes B: "2 ^ 61 \<le> uint sigB" "uint sigB < 2 ^ 62"
    and R: "uint recip32 = (2 ^ 63 - 1) div (uint sigB div 2 ^ 30)"
    and r: "uint rem < 2 ^ 62 \<or> 4 * uint rem < 7 * uint sigB" and e: "- 29 \<le> e"
  obtains q64 rem' e' K where "f64_rem_loop recip32 sigB rem e = (q64, rem', e')" "- 29 \<le> e'" "e' < 0"
    "uint q64 = uint rem' div 2 ^ 32 * uint recip32" "uint rem' < 2 ^ 62 \<or> 4 * uint rem' < 7 * uint sigB"
    "uint rem * 2 ^ nat (e + 30) = 2 * K * uint sigB + uint rem' * 2 ^ nat (e' + 30)"
  using B R r e
proof (induction recip32 sigB rem e arbitrary: thesis rule: f64_rem_loop.induct)
  case (1 recip32 sigB rem e)
  define q64 where "q64 = (ucast (ucast (drop_bit 32 rem) :: u32) * ucast recip32 :: u64)"
  define \<rho> B where "\<rho> = uint rem" and "B = uint sigB"
  note B = 1(3,4) [folded B_def] and R = 1(5) [folded B_def] and r = 1(6) [folded \<rho>_def B_def]
  have q64: "uint q64 = \<rho> div 2 ^ 32 * uint recip32" by (simp add: q64_def \<rho>_def rem_q64)
  show ?case
  proof (cases "e < 0")
    case True
    have "f64_rem_loop recip32 sigB rem e = (q64, rem, e)"
      using True by (subst f64_rem_loop.simps) (simp add: q64_def)
    then show ?thesis using 1(2) [of q64 rem e 0] True 1(7) r q64 by (simp add: \<rho>_def B_def)
  next
    case False
    define q where "q = (ucast (drop_bit 32 (q64 + 0x80000000)) :: u32)"
    define rem1 where "rem1 = push_bit 29 rem - ucast q * sigB"
    define rem2 where "rem2 = (if rem1 AND 0x8000000000000000 \<noteq> 0 then rem1 + sigB else rem1)"
    have q: "uint q = (uint q64 + 2 ^ 31) div 2 ^ 32"
    proof -
      have "0 \<le> \<rho> div 2 ^ 32" "\<rho> div 2 ^ 32 < 2 ^ 32"
        using uint_lt2p [of rem] by (auto intro: int_div_less simp: \<rho>_def pos_imp_zdiv_nonneg_iff)
      moreover have "0 \<le> uint recip32" "uint recip32 \<le> 2 ^ 32 - 1" using uint_bounds_32 [of recip32] by simp_all
      ultimately have "\<rho> div 2 ^ 32 * uint recip32 \<le> (2 ^ 32 - 1) * (2 ^ 32 - 1)" by (intro mult_mono) simp_all
      then have "uint q64 + 2 ^ 31 < 2 ^ 64" unfolding q64 by simp
      then have s: "uint (q64 + 0x80000000) = uint q64 + 2 ^ 31" by (simp add: uint_word_ariths)
      have "(uint q64 + 2 ^ 31) div 2 ^ 32 < 2 ^ 32" "0 \<le> (uint q64 + 2 ^ 31) div 2 ^ 32"
        using \<open>uint q64 + 2 ^ 31 < 2 ^ 64\<close> by (auto intro: int_div_less simp: pos_imp_zdiv_nonneg_iff)
      then show ?thesis unfolding q_def uint_ucast_64_32 uint_drop_bit_div s by (intro mod_pos_pos_trivial)
    qed
    define V where "V = \<rho> * 2 ^ 29 - uint q * B"
    have V: "- B \<le> V" "4 * V < 7 * B"
      using rem_turn64 [OF B _ r] by (simp_all add: V_def q q64 R \<rho>_def)
    have "uint rem1 = V mod 2 ^ 64"
      by (simp add: rem1_def V_def \<rho>_def B_def uint_word_ariths uint_push_bit_mod mod_diff_eq)
    then have rem1: "uint rem1 = (if V < 0 then V + 2 ^ 64 else V)" "rem1 AND 0x8000000000000000 \<noteq> 0 \<longleftrightarrow> V < 0"
      using signed_word64 [of rem1 V] V B by simp_all
    define q' where "q' = (if V < 0 then uint q - 1 else uint q)"
    have rem2: "uint rem2 = \<rho> * 2 ^ 29 - q' * B" "4 * uint rem2 < 7 * B"
    proof -
      have u: "uint rem2 = (if V < 0 then V + B else V)"
      proof (cases "V < 0")
        case True
        have "uint (rem1 + sigB) = (V + B + 1 * 2 ^ 64) mod 2 ^ 64" using True by (simp add: uint_word_ariths rem1 B_def algebra_simps)
        also have "\<dots> = (V + B) mod 2 ^ 64" by (simp only: mod_mult_self1)
        also have "\<dots> = V + B" using V B True by (intro mod_pos_pos_trivial) simp_all
        finally show ?thesis using True rem1(2) by (simp add: rem2_def)
      next
        case False
        then show ?thesis using rem1 by (simp add: rem2_def)
      qed
      show "uint rem2 = \<rho> * 2 ^ 29 - q' * B" unfolding u by (simp add: V_def q'_def algebra_simps)
      show "4 * uint rem2 < 7 * B" unfolding u using V B by simp
    qed
    have r': "uint rem2 < 2 ^ 62 \<or> 4 * uint rem2 < 7 * uint sigB" "- 29 \<le> e - 29"
      using rem2(2) False by (simp_all add: B_def)
    obtain q64' rem'' e' K where I: "f64_rem_loop recip32 sigB rem2 (e - 29) = (q64', rem'', e')" "- 29 \<le> e'" "e' < 0"
      "uint q64' = uint rem'' div 2 ^ 32 * uint recip32" "uint rem'' < 2 ^ 62 \<or> 4 * uint rem'' < 7 * uint sigB"
      "uint rem2 * 2 ^ nat (e - 29 + 30) = 2 * K * uint sigB + uint rem'' * 2 ^ nat (e' + 30)"
      by (rule 1(1) [OF q64_def False q_def refl refl refl, folded rem1_def, folded rem2_def, OF _ 1(3-5) r'])
    have "f64_rem_loop recip32 sigB rem e = f64_rem_loop recip32 sigB rem2 (e - 29)"
      using False by (subst f64_rem_loop.simps) (simp add: Let_def q64_def q_def rem1_def rem2_def)
    moreover have "\<rho> * 2 ^ nat (e + 30) = 2 * (q' * 2 ^ nat e + K) * B + uint rem'' * 2 ^ nat (e' + 30)"
    proof -
      have "nat (e + 30) = 29 + Suc (nat e)" "nat (e - 29 + 30) = Suc (nat e)" using False by simp_all
      then show ?thesis using I(6) unfolding rem2(1) B_def by (simp add: power_add algebra_simps)
    qed
    ultimately show ?thesis using I 1(2) [of q64' rem'' e' "q' * 2 ^ nat e + K"] by (simp add: \<rho>_def B_def)
  qed
qed

section \<open>Refinement\<close>

lemma f64_rem_select_correct:
  assumes B: "2 ^ 61 \<le> uint sigB" "uint sigB < 2 ^ 62" and alt: "uint alt < uint sigB"
    and N: "N = n * uint sigB + uint alt" and q: "q AND 1 \<noteq> 0 \<longleftrightarrow> odd (n + 1)"
  defines "R \<equiv> N - uint sigB * rne (of_int N / of_int (uint sigB))"
  shows "f64_rem_select signA expB st (alt, q, alt - sigB) =
      softfloat_normRoundPackToF64 (signA \<noteq> (R < 0)) expB (word_of_int \<bar>R\<bar>) st" "2 * \<bar>R\<bar> \<le> uint sigB"
proof -
  define b l where "b = uint sigB" and "l = uint alt"
  have bl: "2 ^ 61 \<le> b" "b < 2 ^ 62" "0 \<le> l" "l < b" using B alt by (simp_all add: b_def l_def)
  have R: "R = (if 2 * l - b < 0 \<or> (2 * l - b = 0 \<and> odd (n + 1)) then l else l - b)"
    unfolding R_def b_def [symmetric] using bl N by (intro rne_quotient) (simp_all add: b_def l_def)
  have "uint (alt - sigB) = (l - b) mod 2 ^ 64" by (simp add: uint_word_ariths l_def b_def)
  then have lb: "uint (alt - sigB) = l - b + 2 ^ 64" "alt - sigB AND 0x8000000000000000 \<noteq> 0"
    using signed_word64 [of "alt - sigB" "l - b"] bl by simp_all
  have "uint (alt - sigB + alt) = (2 * l - b) mod 2 ^ 64"
  proof -
    have "alt - sigB + alt = 2 * alt - sigB" by simp
    then show ?thesis by (simp only:) (simp add: uint_word_ariths mod_diff_left_eq l_def b_def)
  qed
  then have mean: "uint (alt - sigB + alt) = (if 2 * l - b < 0 then 2 * l - b + 2 ^ 64 else 2 * l - b)"
    "alt - sigB + alt AND 0x8000000000000000 \<noteq> 0 \<longleftrightarrow> 2 * l - b < 0"
    using signed_word64 [of "alt - sigB + alt" "2 * l - b"] bl by simp_all
  have m2: "alt - sigB + alt = 0 \<longleftrightarrow> 2 * l - b = 0" unfolding word_zero_uint mean using bl by simp
  show "2 * \<bar>R\<bar> \<le> uint sigB" unfolding R b_def [symmetric] using bl by auto
  have neg: "- (alt - sigB) = word_of_int (b - l)" by (simp add: b_def l_def)
  have "l < 2 ^ 63" using bl by simp
  then have "alt AND 0x8000000000000000 = 0" unfolding high_bit64 l_def .
  then show "f64_rem_select signA expB st (alt, q, alt - sigB) =
      softfloat_normRoundPackToF64 (signA \<noteq> (R < 0)) expB (word_of_int \<bar>R\<bar>) st"
    unfolding f64_rem_select_def prod.case Let_def mean(2) m2 q R
    using lb(2) neg bl by (simp add: l_def)
qed

lemma f64_rem_reduced:
  assumes B: "2 ^ 61 \<le> uint sigB" "uint sigB < 2 ^ 62" and r: "uint rem < 2 ^ 63"
    and N: "N = (2 * K + uint q) * uint sigB + uint rem"
  defines "R \<equiv> N - uint sigB * rne (of_int N / of_int (uint sigB))"
  shows "map_option (f64_rem_select signA expB st) (f64_rem_reduce sigB rem q) =
      Some (softfloat_normRoundPackToF64 (signA \<noteq> (R < 0)) expB (word_of_int \<bar>R\<bar>) st)" "2 * \<bar>R\<bar> \<le> uint sigB"
proof -
  obtain n alt q' where red: "f64_rem_reduce sigB rem q = Some (alt, q', alt - sigB)" "uint rem = int n * uint sigB + uint alt"
    "uint alt < uint sigB" "q' = q + word_of_nat n + 1"
    using B r by (rule f64_rem_reduce_correct)
  have N': "N = (2 * K + uint q + int n) * uint sigB + uint alt" unfolding N red(2) by (simp add: algebra_simps)
  have odd: "q' AND 1 \<noteq> 0 \<longleftrightarrow> odd (2 * K + uint q + int n + 1)"
    unfolding red(4) by (simp add: and_one_eq mod_2_eq_odd even_uint_word)
  show "map_option (f64_rem_select signA expB st) (f64_rem_reduce sigB rem q) =
      Some (softfloat_normRoundPackToF64 (signA \<noteq> (R < 0)) expB (word_of_int \<bar>R\<bar>) st)" "2 * \<bar>R\<bar> \<le> uint sigB"
    using f64_rem_select_correct(1) [OF B red(3) N' odd, of signA expB st] f64_rem_select_correct(2) [OF B red(3) N' odd]
    by (simp_all add: red(1) R_def)
qed

lemma f64_rem_core:
  assumes A: "uint (sigA OR 0x0010000000000000) = mA" "2 ^ 52 \<le> mA" "mA < 2 ^ 53"
    and B: "uint (sigB OR 0x0010000000000000) = mB" "2 ^ 52 \<le> mB" "mB < 2 ^ 53"
    and e: "- 1 \<le> expA - expB"
  defines "N \<equiv> mA * 2 ^ nat (expA - expB + 9)"
  defines "R \<equiv> N - mB * 512 * rne (of_int N / of_int (mB * 512))"
  shows "f64_rem_finite a signA expA sigA expB sigB st =
     Some (softfloat_normRoundPackToF64 (signA \<noteq> (R < 0)) expB (word_of_int \<bar>R\<bar>) st)"
    "2 * \<bar>R\<bar> \<le> mB * 512"
proof -
  define d where "d = expA - expB"
  define sA sB where "sA = sigA OR 0x0010000000000000" and "sB = push_bit 9 (sigB OR 0x0010000000000000)"
  have uB: "uint sB = mB * 512" unfolding sB_def using B by (subst uint_push_bit_small) simp_all
  have sB: "2 ^ 61 \<le> uint sB" "uint sB < 2 ^ 62" using B by (simp_all add: uB)
  have uA: "uint (push_bit k sA) = mA * 2 ^ k" if "k \<le> 9" for k
  proof -
    have "mA * 2 ^ k < 2 ^ 53 * 2 ^ 9" using A that by (intro mult_less_le_imp_less power_increasing) simp_all
    then show ?thesis using A(1) by (subst uint_push_bit_small) (simp_all add: sA_def)
  qed
  define res where "res = Some (softfloat_normRoundPackToF64 (signA \<noteq> (R < 0)) expB (word_of_int \<bar>R\<bar>) st)"
  define reduce where "reduce = (\<lambda>rem q. map_option (f64_rem_select signA expB st) (f64_rem_reduce sB rem q))"
  have reduced: "reduce rem q = res" "2 * \<bar>R\<bar> \<le> mB * 512"
    if "uint rem < 2 ^ 63" "N = (2 * K + uint q) * uint sB + uint rem" for rem q K
    using f64_rem_reduced(1) [OF sB that, of signA expB st] f64_rem_reduced(2) [OF sB that]
    by (simp_all add: reduce_def res_def R_def uB)
  have "f64_rem_finite a signA expA sigA expB sigB st = res \<and> 2 * \<bar>R\<bar> \<le> mB * 512"
  proof -
    consider (neg) "d = - 1" | (zero) "d = 0" | (pos) "1 \<le> d" using e by (fastforce simp: d_def)
    then show ?thesis
    proof cases
      case neg
      have "uint (push_bit 8 sA) < 2 ^ 63" "N = (2 * 0 + uint (0 :: u32)) * uint sB + uint (push_bit 8 sA)"
        using uA [of 8] A neg by (simp_all add: N_def d_def [symmetric])
      note r = reduced [OF this]
      have "f64_rem_finite a signA expA sigA expB sigB st = reduce (push_bit 8 sA) 0"
        using neg unfolding f64_rem_finite_def sA_def sB_def d_def reduce_def Let_def by simp
      then show ?thesis using r by simp
    next
      case zero
      define rem where "rem = push_bit 9 sA"
      define q :: u32 where "q = of_bool (sB \<le> rem)"
      define rem1 where "rem1 = (if q \<noteq> 0 then rem - sB else rem)"
      have r: "uint rem = mA * 512" "N = mA * 512" using uA [of 9] zero by (simp_all add: rem_def N_def d_def)
      have "uint rem1 < 2 ^ 63 \<and> N = (2 * 0 + uint q) * uint sB + uint rem1"
      proof (cases "mB \<le> mA")
        case True
        then have le: "sB \<le> rem" by (simp add: word_le_def uB r)
        then have "uint (rem - sB) = mA * 512 - mB * 512" using uint_sub_lem [of sB rem] by (simp add: word_le_def uB r)
        then show ?thesis using le A B by (simp add: rem1_def q_def uB r)
      next
        case False
        then have "\<not> sB \<le> rem" by (simp add: word_le_def uB r)
        then show ?thesis using r A by (simp add: rem1_def q_def)
      qed
      then have r: "reduce rem1 q = res" "2 * \<bar>R\<bar> \<le> mB * 512" using reduced by blast+
      have "f64_rem_finite a signA expA sigA expB sigB st = reduce rem1 q"
        using zero unfolding f64_rem_finite_def rem1_def q_def rem_def sA_def sB_def d_def reduce_def Let_def by simp
      then show ?thesis using r by simp
    next
      case pos
      define recip where "recip = softfloat_approxRecip32_1 (ucast (drop_bit 21 (sigB OR 0x0010000000000000)))"
      have h: "uint (ucast (drop_bit 21 (sigB OR 0x0010000000000000)) :: u32) = uint sB div 2 ^ 30" "2 ^ 31 \<le> uint sB div 2 ^ 30"
      proof -
        have "mB * 512 div 2 ^ 30 = mB div 2 ^ 21" using div_mult_mult1_if [of 512 mB "2 ^ 21"] by (simp add: mult.commute)
        moreover have "mB div 2 ^ 21 < 2 ^ 32" using B by (intro int_div_less) simp_all
        moreover have "2 ^ 52 div 2 ^ 21 \<le> mB div 2 ^ 21" using B by (intro zdiv_mono1) simp_all
        ultimately show "uint (ucast (drop_bit 21 (sigB OR 0x0010000000000000)) :: u32) = uint sB div 2 ^ 30" "2 ^ 31 \<le> uint sB div 2 ^ 30"
          unfolding uint_ucast_64_32 uint_drop_bit_div B(1) uB by simp_all
      qed
      have Rc: "uint recip = (2 ^ 63 - 1) div (uint sB div 2 ^ 30)"
        unfolding recip_def using h approxRecip32_1_value [of "ucast (drop_bit 21 (sigB OR 0x0010000000000000))"] by simp
      have r: "uint (push_bit 9 sA) < 2 ^ 62 \<or> 4 * uint (push_bit 9 sA) < 7 * uint sB" "- 29 \<le> d - 30"
        using uA [of 9] A pos by simp_all
      obtain q64 rem e' K where L: "f64_rem_loop recip sB (push_bit 9 sA) (d - 30) = (q64, rem, e')" "- 29 \<le> e'" "e' < 0"
        "uint q64 = uint rem div 2 ^ 32 * uint recip" "uint rem < 2 ^ 62 \<or> 4 * uint rem < 7 * uint sB"
        "uint (push_bit 9 sA) * 2 ^ nat (d - 30 + 30) = 2 * K * uint sB + uint rem * 2 ^ nat (e' + 30)"
        using sB Rc r by (rule f64_rem_loop_correct)
      define j where "j = nat (e' + 30)"
      have j: "j \<le> 29" "nat (NOT e' AND 31) = 29 - j" "29 - (29 - j) = j" using rem_shift [of e'] L(2,3) by (simp_all add: j_def)
      define q where "q = drop_bit (29 - j) (ucast (drop_bit 32 q64) :: u32)"
      define rem1 where "rem1 = push_bit j rem - ucast q * sB"
      have q: "uint q = uint q64 div 2 ^ 32 div 2 ^ (29 - j)"
      proof -
        have "uint q64 div 2 ^ 32 < 2 ^ 32" "0 \<le> uint q64 div 2 ^ 32"
          using uint_lt2p [of q64] by (auto intro: int_div_less simp: pos_imp_zdiv_nonneg_iff)
        then show ?thesis by (simp add: q_def uint_ucast_64_32 uint_drop_bit_div)
      qed
      define V where "V = uint rem * 2 ^ j - uint q * uint sB"
      have V: "- uint sB \<le> V" "V < 2 ^ 63"
        using rem_last64 [OF sB uint_ge_0 L(5), of "29 - j"] j(3) by (simp_all add: V_def q L(4) Rc)
      have "uint rem1 = V mod 2 ^ 64" by (simp add: rem1_def V_def uint_word_ariths uint_push_bit_mod mod_diff_eq)
      then have rem1: "uint rem1 = (if V < 0 then V + 2 ^ 64 else V)" "rem1 AND 0x8000000000000000 \<noteq> 0 \<longleftrightarrow> V < 0"
        using signed_word64 [of rem1 V] V sB by simp_all
      have N': "N = (2 * K + uint q) * uint sB + V"
      proof -
        have "nat (expA - expB + 9) = 9 + nat (d - 30 + 30)" using pos by (simp add: d_def)
        then have "N = mA * 2 ^ 9 * 2 ^ nat (d - 30 + 30)" by (simp add: N_def power_add)
        then show ?thesis using L(6) uA [of 9] by (simp add: V_def j_def [symmetric] distrib_right)
      qed
      have code: "f64_rem_finite a signA expA sigA expB sigB st =
          (if rem1 AND 0x8000000000000000 \<noteq> 0 then Some (f64_rem_select signA expB st (rem1 + sB, q, rem1)) else reduce rem1 q)"
        using pos L(1) unfolding f64_rem_finite_def Let_def d_def recip_def sA_def sB_def
        by (simp add: reduce_def sB_def rem1_def q_def j(2) j_def [symmetric])
      show ?thesis
      proof (cases "V < 0")
        case False
        then have r: "reduce rem1 q = res" "2 * \<bar>R\<bar> \<le> mB * 512" using reduced [of rem1 K q] rem1 V N' by simp_all
        then show ?thesis using False rem1(2) code by simp
      next
        case True
        define alt where "alt = rem1 + sB"
        have rem1_alt: "rem1 = alt - sB" by (simp add: alt_def)
        have "uint alt = (V + uint sB + 1 * 2 ^ 64) mod 2 ^ 64" using True by (simp add: alt_def uint_word_ariths rem1 algebra_simps)
        also have "\<dots> = (V + uint sB) mod 2 ^ 64" by (simp only: mod_mult_self1)
        also have "\<dots> = V + uint sB" using V True sB by (intro mod_pos_pos_trivial) simp_all
        finally have alt: "uint alt = V + uint sB" .
        have lt: "uint alt < uint sB" using True alt by simp
        have N2: "N = (2 * K + uint q - 1) * uint sB + uint alt" unfolding N' alt by (simp add: algebra_simps)
        have odd: "q AND 1 \<noteq> 0 \<longleftrightarrow> odd (2 * K + uint q - 1 + 1)" by (simp add: and_one_eq mod_2_eq_odd even_uint_word)
        have "f64_rem_select signA expB st (alt, q, rem1) = softfloat_normRoundPackToF64 (signA \<noteq> (R < 0)) expB (word_of_int \<bar>R\<bar>) st"
          "2 * \<bar>R\<bar> \<le> mB * 512"
          unfolding rem1_alt using f64_rem_select_correct(1) [OF sB lt N2 odd, of signA expB st] f64_rem_select_correct(2) [OF sB lt N2 odd]
          by (simp_all add: R_def uB)
        then show ?thesis using True rem1(2) code by (simp add: alt_def res_def)
      qed
    qed
  qed
  then show "f64_rem_finite a signA expA sigA expB sigB st =
     Some (softfloat_normRoundPackToF64 (signA \<noteq> (R < 0)) expB (word_of_int \<bar>R\<bar>) st)"
    "2 * \<bar>R\<bar> \<le> mB * 512"
    by (simp_all add: res_def)
qed

lemma normRoundPackToF64_zero:
  assumes "- 4000 \<le> e" "e \<le> 2046"
  shows "softfloat_normRoundPackToF64 s e 0 st = (packToF64UI s 0 0, st)"
proof -
  have c: "softfloat_countLeadingZeros64 0 = 64" by (simp add: softfloat_countLeadingZeros64_def softfloat_countLeadingZeros8_def)
  have j: "softfloat_shiftRightJam64 0 n = 0" for n by (simp add: softfloat_shiftRightJam64_def)
  have d: "drop_bit 10 i = (0 :: u64)" if "i = 0x3FF \<or> i = 0 \<or> i = 0x200" for i using that by (elim disjE) simp_all
  show ?thesis
  proof (cases "0x7FD \<le> (word_of_int (e - 63) :: u16)")
    case False
    then have "(word_of_int (e - 63) :: u16) < 0x7FD" by (rule not_le_imp_less)
    then show ?thesis unfolding softfloat_normRoundPackToF64_def Let_def c by (simp del: of_int_diff)
  next
    case True
    have "e - 63 < 0"
    proof (rule ccontr)
      define k where "k = e - 63"
      assume "\<not> e - 63 < 0"
      then have k: "0 \<le> k" "k < 0x7FD" using assms by (simp_all add: k_def)
      then have "uint (word_of_int k :: u16) = k" by (simp add: uint_word_of_int)
      then show False using True k unfolding k_def [symmetric] by (simp add: word_le_def)
    qed
    then show ?thesis using True
      by (simp add: softfloat_normRoundPackToF64_def softfloat_roundPackToF64_def Let_def c j d)
  qed
qed

lemma f64_norm_exp_le:
  assumes "f64_finite a" "f64_mag a \<noteq> 0" "f64_norm a = (e, s)"
  shows "e \<le> expF64UI a"
proof (cases "expF64UI a = 0")
  case True
  then have "fracF64UI a \<noteq> 0" using assms(2) f64_class_fields(4) [of a] by simp
  then obtain k where "softfloat_normSubnormalF64Sig (fracF64UI a) = (1 - int k, push_bit k (fracF64UI a))" "1 \<le> k"
    using normSubnormalF64Sig_value fracF64UI_bounds(2) by metis
  then show ?thesis using True assms(3) by (simp add: f64_norm_def)
next
  case False
  then show ?thesis using assms(3) by (simp add: f64_norm_def)
qed

lemma f64_rem_main:
  assumes a: "f64_finite a" "f64_mag a \<noteq> 0" and b: "f64_finite b" "f64_mag b \<noteq> 0"
  shows "f64_rem a b st = Some (let r = real_rem (f64_val a) (f64_val b)
           in if r = 0 then (packToF64UI (signF64UI a) 0 0, st) else f64_round st (r < 0) \<bar>r\<bar>)"
proof -
  obtain eA sA mA where A: "f64_norm a = (eA, sA)" "uint (sA OR 0x0010000000000000) = mA" "2 ^ 52 \<le> mA" "mA < 2 ^ 53"
    "- 51 \<le> eA" "eA \<le> 2046" "f64_abs a = of_int mA * 2 powi (eA - 1075)" using a by (rule f64_norm_value)
  obtain eB sB mB where B: "f64_norm b = (eB, sB)" "uint (sB OR 0x0010000000000000) = mB" "2 ^ 52 \<le> mB" "mB < 2 ^ 53"
    "- 51 \<le> eB" "eB \<le> 2046" "f64_abs b = of_int mB * 2 powi (eB - 1075)" using b by (rule f64_norm_value)
  have flags: "(expF64UI a = 2047) = False" "(expF64UI a = 0 \<and> fracF64UI a = 0) = False"
    "(expF64UI b = 2047) = False" "(expF64UI b = 0 \<and> fracF64UI b = 0) = False"
    using a b unfolding f64_class_fields by simp_all
  have code: "f64_rem a b st = f64_rem_finite a (signF64UI a) eA sA eB sB st"
  proof (cases "expF64UI a < expF64UI b - 1")
    case True
    then have "eB = expF64UI b" using B(1) expF64UI_bounds [of a] by (simp add: f64_norm_def)
    then have "eA - eB < - 1" using f64_norm_exp_le [OF a A(1)] True by simp
    then show ?thesis unfolding f64_rem_def f64_rem_finite_def Let_def flags if_False using True by simp
  next
    case False
    then show ?thesis unfolding f64_rem_def Let_def flags if_False f64_norm_def [symmetric] A(1) B(1) prod.case by simp
  qed
  define r where "r = real_rem (f64_abs a) (f64_abs b)"
  have rr: "real_rem (f64_val a) (f64_val b) = (if signF64UI a then - r else r)"
    by (simp add: f64_val_def real_rem_signs r_def)
  show ?thesis
  proof (cases "eA - eB < - 1")
    case True
    then have "f64_rem a b st = Some (a, st)" unfolding code f64_rem_finite_def Let_def by simp
    moreover have r: "r = f64_abs a" "0 < f64_abs a"
    proof -
      show pos: "0 < f64_abs a" unfolding A(7) using A(3) by simp
      have "(2::real) powi (eA - 1075) \<le> 2 powi (eB - 1077)" using True by (intro power_int_increasing) simp_all
      also have "(2::real) powi (eB - 1077) = 2 powi (eB - 1075) / 4" using powi_add [of "eB - 1077" 2] by simp
      finally have "f64_abs a \<le> of_int mA * (2 powi (eB - 1075) / 4)" unfolding A(7) using A(3) by (intro mult_left_mono) simp_all
      also have "\<dots> < of_int (2 * mB) * (2 powi (eB - 1075) / 4)" proof (rule mult_strict_right_mono)
        have "mA < 2 * mB" using A(4) B(3) by simp
        then show "real_of_int mA < of_int (2 * mB)" by (simp only: of_int_less_iff)
      qed simp
      finally have "f64_abs a < f64_abs b / 2" by (simp add: B(7))
      moreover have "0 < f64_abs b" unfolding B(7) using B(3) by simp
      ultimately show "r = f64_abs a" using pos by (simp add: r_def real_rem_def rne_small divide_less_eq)
    qed
    moreover have "f64_round st (f64_val a < 0) \<bar>f64_val a\<bar> = (a, st)"
    proof -
      have "f64_val a < 0 \<longleftrightarrow> signF64UI a" "\<bar>f64_val a\<bar> = f64_abs a" using r(2) by (simp_all add: f64_val_def)
      then show ?thesis using f64_self [OF a] by simp
    qed
    moreover have "real_rem (f64_val a) (f64_val b) = f64_val a" unfolding rr r(1) by (simp add: f64_val_def)
    moreover have "f64_val a \<noteq> 0" using r(2) by (simp add: f64_val_def)
    ultimately show ?thesis by (simp add: Let_def)
  next
    case False
    define N where "N = mA * 2 ^ nat (eA - eB + 9)"
    define R where "R = N - mB * 512 * rne (of_int N / of_int (mB * 512))"
    define s :: real where "s = 2 powi (eB - 1084)"
    have s: "0 < s" by (simp add: s_def)
    have core: "f64_rem_finite a (signF64UI a) eA sA eB sB st =
        Some (softfloat_normRoundPackToF64 (signF64UI a \<noteq> (R < 0)) eB (word_of_int \<bar>R\<bar>) st)" "2 * \<bar>R\<bar> \<le> mB * 512"
      using f64_rem_core(1) [OF A(2-4) B(2-4), of eA eB a "signF64UI a" st] f64_rem_core(2) [OF A(2-4) B(2-4), of eA eB] False
      unfolding N_def R_def by simp_all
    have "(2::real) powi (eA - 1075) = s * 2 ^ nat (eA - eB + 9)"
      using False unfolding s_def power_int_of_nat [symmetric] by (simp flip: powi_add)
    then have aN: "f64_abs a = s * of_int N" unfolding A(7) N_def by simp
    have "(2::real) powi (eB - 1075) = s * 512" unfolding s_def using powi_add [of "eB - 1084" 9] by simp
    then have bB: "f64_abs b = s * of_int (mB * 512)" unfolding B(7) by simp
    have r: "r = s * of_int R"
      unfolding r_def aN bB R_def using s B(3) by (intro real_rem_scaled) simp_all
    have u: "uint (word_of_int \<bar>R\<bar> :: u64) = \<bar>R\<bar>" using core(2) B(4) by (simp add: uint_of_int64)
    have round: "softfloat_normRoundPackToF64 (signF64UI a \<noteq> (R < 0)) eB (word_of_int \<bar>R\<bar>) st =
        f64_round st (signF64UI a \<noteq> (R < 0)) \<bar>r\<bar>" if "R \<noteq> 0"
    proof -
      have "softfloat_normRoundPackToF64 (signF64UI a \<noteq> (R < 0)) eB (word_of_int \<bar>R\<bar>) st =
          f64_round st (signF64UI a \<noteq> (R < 0)) (fp_scaled 52 1023 9 eB (of_int \<bar>R\<bar>))"
        by (rule normRoundPackToF64_refines) (use u that core(2) B(4-6) in \<open>simp_all add: word_zero_uint\<close>)
      moreover have "fp_scaled 52 1023 9 eB (of_int \<bar>R\<bar>) = \<bar>r\<bar>" using s by (simp add: fp_scaled_def r s_def abs_mult mult.commute)
      ultimately show ?thesis by simp
    qed
    show ?thesis
    proof (cases "R = 0")
      case True
      then show ?thesis using normRoundPackToF64_zero [of eB] B(5,6) unfolding code core(1) rr r by simp
    next
      case False
      moreover have "r < 0 \<longleftrightarrow> R < 0" using s by (simp add: r mult_less_0_iff)
      moreover have "r \<noteq> 0" using s False by (simp add: r)
      ultimately show ?thesis unfolding code core(1) rr round [OF False] Let_def by (cases "signF64UI a") auto
    qed
  qed
qed

theorem f64_rem_refines: "f64_rem a b st = Some (f64_rem_spec a b st)"
proof (cases a b rule: f64_class_cases)
  case nan
  then have "f64_rem a b st = Some (softfloat_propagateNaNF64UI a b st)"
    unfolding isNaNF64UI_int f64_rem_def Let_def
    by (cases "expF64UI a = 2047"; cases "fracF64UI a = 0"; simp)
  then show ?thesis using nan unfolding f64_rem_spec_def by simp
next
  case inf
  show ?thesis
  proof (cases "f64_isInf a")
    case True
    then show ?thesis
      using inf by (cases "expF64UI b = 2047") (simp_all add: f64_rem_def f64_rem_spec_def Let_def f64_class_fields(1) isNaNF64UI_int)
  next
    case False
    then have "f64_isInf b" "expF64UI a \<noteq> 2047" using inf by (auto simp: f64_class_fields(1) isNaNF64UI_int)
    moreover have "f64_val b \<noteq> 0" using \<open>f64_isInf b\<close> by (simp add: v64.val_zero_iff f64_isInf_def)
    ultimately show ?thesis
      using inf False by (simp add: f64_rem_def f64_rem_spec_def Let_def f64_class_fields(1))
  qed
next
  case finite
  have nn: "\<not> isNaNF64UI d" "\<not> f64_isInf d" if "f64_finite d" for d
    using that by (auto simp: f64_class_fields(1,3) isNaNF64UI_int)
  have e: "(expF64UI a = 2047) = False" "(expF64UI b = 2047) = False" using finite by (simp_all add: f64_class_fields)
  consider (bzero) "f64_mag b = 0" | (azero) "f64_mag b \<noteq> 0" "f64_mag a = 0" | (main) "f64_mag a \<noteq> 0" "f64_mag b \<noteq> 0" by blast
  then show ?thesis
  proof cases
    case bzero
    then have "(expF64UI b = 0 \<and> fracF64UI b = 0) = True" by (simp add: f64_class_fields)
    then have "f64_rem a b st = Some (defaultNaNF64UI, softfloat_raiseFlags softfloat_flag_invalid st)"
      using bzero expF64UI_bounds [of a] unfolding f64_rem_def Let_def e if_False if_True f64_class_fields by simp
    then show ?thesis using nn finite bzero by (simp add: f64_rem_spec_def v64.val_zero_iff)
  next
    case azero
    then have "(expF64UI b = 0 \<and> fracF64UI b = 0) = False" "(expF64UI a = 0 \<and> fracF64UI a = 0) = True"
      by (simp_all add: f64_class_fields)
    moreover obtain eb sb where "f64_norm b = (eb, sb)" by (cases "f64_norm b")
    ultimately have "f64_rem a b st = Some (a, st)"
      unfolding f64_rem_def Let_def f64_norm_def [symmetric] by (simp only: e if_False if_True prod.case if_cancel)
    moreover have "f64_val a = 0" "f64_val b \<noteq> 0" using azero by (simp_all add: v64.val_zero_iff)
    ultimately show ?thesis
      using nn finite azero by (simp add: f64_rem_spec_def real_rem_def rne_small f64_zero_bits)
  next
    case main
    then have "f64_val b \<noteq> 0" by (simp add: v64.val_zero_iff)
    then show ?thesis using nn finite f64_rem_main [OF finite(1) main(1) finite(2) main(2)] by (simp add: f64_rem_spec_def)
  qed
qed

end
