(* ===== verification/SF_RecipSqrt.thy ===== *)
theory SF_RecipSqrt
  imports SF_RemF64
begin

text \<open>
  The approximate reciprocal square root (\<open>s_approxRecipSqrt32_1.c\<close>): for a word \<open>a\<close> with its top
  bit set and the parity of an exponent it returns a lower bound of \<open>2 ^ 32 / sqrt x\<close>, where \<open>x\<close>
  is \<open>a / 2 ^ 31\<close> for an odd and twice that for an even exponent, with an error below 2.1.  The
  tables give a line in each of sixteen intervals; one refinement step adds the first terms of
  the power series of \<open>1 / sqrt (1 - \<delta>)\<close>.
\<close>

section \<open>The tables\<close>

text \<open>
  On an interval, \<open>u\<close> is the line, scaled, and \<open>S - u\<close> is proportional to the argument, so the
  squared relative error is a cubic in \<open>u\<close> with its maximum at \<open>2 * S / 3\<close>.
\<close>

lemma cubic_upper: "27 * (u ^ 2 * (S - u)) \<le> 4 * S ^ 3" if "0 \<le> u" "0 \<le> S" for u S :: int
proof -
  have "4 * S ^ 3 - 27 * (u ^ 2 * (S - u)) = (3 * u - 2 * S) ^ 2 * (3 * u + S)"
    by (simp add: power2_eq_square power3_eq_cube algebra_simps)
  moreover have "0 \<le> (3 * u - 2 * S) ^ 2 * (3 * u + S)" using that by (intro mult_nonneg_nonneg) simp_all
  ultimately show ?thesis by linarith
qed

lemma cubic_lower:
  fixes u u0 u1 S L c :: int
  assumes u: "u1 \<le> u" "u \<le> u0" and S: "S \<le> u0 + 2 * u1"
    and L: "L \<le> u0 ^ 2 * (S - u0) * c" "L \<le> u1 ^ 2 * (S - u1) * c" and c: "0 \<le> c"
  shows "L \<le> u ^ 2 * (S - u) * c"
proof (cases "u1 = u0")
  case True
  then show ?thesis using u L by simp
next
  case False
  define g where "g = (\<lambda>u. u ^ 2 * (S - u) * c)"
  have "(u0 - u1) * g u = (u0 - u) * g u1 + (u - u1) * g u0 + (u0 - u1) * ((u - u1) * (u0 - u) * (u + u0 + u1 - S) * c)"
    unfolding g_def by (simp add: power2_eq_square algebra_simps)
  moreover have "0 \<le> (u0 - u1) * ((u - u1) * (u0 - u) * (u + u0 + u1 - S) * c)"
    using u S c by (intro mult_nonneg_nonneg) simp_all
  moreover have "(u0 - u) * L \<le> (u0 - u) * g u1" "(u - u1) * L \<le> (u - u1) * g u0"
    using u L by (simp_all add: g_def mult_left_mono)
  ultimately have "(u0 - u) * L + (u - u1) * L \<le> (u0 - u1) * g u" by linarith
  then have "(u0 - u1) * L \<le> (u0 - u1) * g u" by (simp add: algebra_simps)
  then show ?thesis using u False by (simp add: g_def)
qed

text \<open>The test of a line from \<open>e0\<close> on, with \<open>c\<close> the error allowed.\<close>

definition sqrt_line_ok :: "int \<Rightarrow> int \<Rightarrow> int \<Rightarrow> int \<Rightarrow> int \<Rightarrow> int \<Rightarrow> bool" where
  "sqrt_line_ok k0 k1 t sc e0 c \<longleftrightarrow>
     (let S = k1 * (t * 2 ^ 16 + 1) + (k0 + 1) * 2 ^ 20;
          S' = k1 * (t * 2 ^ 16) + k0 * 2 ^ 20;
          u0 = k0 * 2 ^ 20 - k1 * e0; u1 = k0 * 2 ^ 20 - k1 * (2 ^ 16 - 1);
          L = 2 ^ 63 - c * 2 ^ 50
      in 0 < k1 \<and> 0 < u1 \<and> 4 * S ^ 3 * sc \<le> 27 * k1 * 2 ^ 91 \<and> S' \<le> u0 + 2 * u1 \<and>
         k1 * 2 ^ 28 * L \<le> u0 ^ 2 * (S' - u0) * sc \<and> k1 * 2 ^ 28 * L \<le> u1 ^ 2 * (S' - u1) * sc)"

lemma sqrt_line:
  fixes k0 k1 t sc A e e0 c :: int
  assumes ok: "sqrt_line_ok k0 k1 t sc e0 c" and sc: "0 < sc" and t: "0 \<le> t" and e: "0 \<le> e0" "e0 \<le> e" "e < 2 ^ 16"
    and A: "(t * 2 ^ 16 + e) * 2 ^ 12 \<le> A" "A < (t * 2 ^ 16 + e + 1) * 2 ^ 12"
  defines "r0 \<equiv> k0 - k1 * e div 2 ^ 20"
  shows "r0 ^ 2 * sc * A < 2 ^ 63" "2 ^ 63 - c * 2 ^ 50 \<le> r0 ^ 2 * sc * A" "0 < r0"
proof -
  define S S' u0 u1 L where "S = k1 * (t * 2 ^ 16 + 1) + (k0 + 1) * 2 ^ 20" and "S' = k1 * (t * 2 ^ 16) + k0 * 2 ^ 20"
    and "u0 = k0 * 2 ^ 20 - k1 * e0" and "u1 = k0 * 2 ^ 20 - k1 * (2 ^ 16 - 1)" and "L = (2::int) ^ 63 - c * 2 ^ 50"
  have ok: "0 < k1" "0 < u1" "4 * S ^ 3 * sc \<le> 27 * k1 * 2 ^ 91" "S' \<le> u0 + 2 * u1"
    "k1 * 2 ^ 28 * L \<le> u0 ^ 2 * (S' - u0) * sc" "k1 * 2 ^ 28 * L \<le> u1 ^ 2 * (S' - u1) * sc"
    using ok unfolding sqrt_line_ok_def Let_def S_def S'_def u0_def u1_def L_def by blast+
  have d: "k1 * e div 2 ^ 20 * 2 ^ 20 \<le> k1 * e" "k1 * e < (k1 * e div 2 ^ 20 + 1) * 2 ^ 20" by (intro div_bounds; simp)+
  define u where "u = k0 * 2 ^ 20 - k1 * e"
  define v where "v = (k0 + 1) * 2 ^ 20 - k1 * e"
  have r: "u \<le> r0 * 2 ^ 20" "r0 * 2 ^ 20 < v" using d by (simp_all add: r0_def u_def v_def algebra_simps)
  have "k1 * e \<le> k1 * (2 ^ 16 - 1)" "k1 * e0 \<le> k1 * e" using e ok(1) by (intro mult_left_mono; simp)+
  then have u: "u1 \<le> u" "u \<le> u0" by (simp_all add: u_def u1_def u0_def)
  then have r0': "0 < r0 * 2 ^ 20" using ok(2) r(1) by linarith
  then show r0: "0 < r0" by simp
  have Sv: "S - v = k1 * (t * 2 ^ 16 + e + 1)" and Su: "S' - u = k1 * (t * 2 ^ 16 + e)"
    by (simp_all add: S_def S'_def u_def v_def algebra_simps)
  have v0: "0 \<le> v" using r(2) r0' by linarith
  have w0: "0 \<le> t * 2 ^ 16 + e" using t e by simp
  have "0 \<le> S - v" unfolding Sv using ok(1) w0 by (intro mult_nonneg_nonneg) simp_all
  then have S0: "0 \<le> S" using v0 by linarith
  have "(r0 * 2 ^ 20) ^ 2 \<le> v ^ 2" using r r0 by (intro power_mono) simp_all
  moreover have "k1 * A < (S - v) * 2 ^ 12" unfolding Sv using A(2) ok(1) by (simp add: mult.assoc mult_strict_left_mono)
  moreover have "0 < (r0 * 2 ^ 20) ^ 2" using r0' by (simp only: zero_less_power)
  moreover have "0 \<le> k1 * A" using A(1) w0 ok(1) by (intro mult_nonneg_nonneg) simp_all
  ultimately have "(r0 * 2 ^ 20) ^ 2 * (k1 * A) < v ^ 2 * ((S - v) * 2 ^ 12)"
    by (rule mult_le_less_imp_less)
  then have "27 * sc * ((r0 * 2 ^ 20) ^ 2 * (k1 * A)) < 27 * sc * (v ^ 2 * ((S - v) * 2 ^ 12))"
    using sc by (intro mult_strict_left_mono) simp_all
  also have "\<dots> = 27 * (v ^ 2 * (S - v)) * (sc * 2 ^ 12)" by simp
  also have "\<dots> \<le> 4 * S ^ 3 * (sc * 2 ^ 12)" using cubic_upper [OF v0 S0] sc by (intro mult_right_mono) simp_all
  also have "\<dots> \<le> 27 * k1 * 2 ^ 91 * 2 ^ 12" using ok(3) by simp
  finally have "(27 * k1 * 2 ^ 40) * (r0 ^ 2 * sc * A) < (27 * k1 * 2 ^ 40) * 2 ^ 63" by (simp add: power_mult_distrib algebra_simps)
  moreover have "0 < 27 * k1 * 2 ^ 40" using ok(1) by simp
  ultimately show "r0 ^ 2 * sc * A < 2 ^ 63" using mult_less_cancel_left_pos by blast
  have "0 \<le> u" using u ok(2) by linarith
  then have "u ^ 2 \<le> (r0 * 2 ^ 20) ^ 2" using r by (intro power_mono) simp_all
  moreover have "(S' - u) * 2 ^ 12 \<le> k1 * A" unfolding Su using A(1) ok(1) by (simp add: mult.assoc mult_left_mono)
  moreover have "0 \<le> (r0 * 2 ^ 20) ^ 2" by simp
  moreover have "0 \<le> (S' - u) * 2 ^ 12" unfolding Su using ok(1) w0 by (intro mult_nonneg_nonneg) simp_all
  ultimately have "u ^ 2 * ((S' - u) * 2 ^ 12) \<le> (r0 * 2 ^ 20) ^ 2 * (k1 * A)" by (rule mult_mono)
  then have "sc * (u ^ 2 * ((S' - u) * 2 ^ 12)) \<le> sc * ((r0 * 2 ^ 20) ^ 2 * (k1 * A))" using sc by simp
  moreover have "k1 * 2 ^ 28 * L \<le> u ^ 2 * (S' - u) * sc"
    using cubic_lower [OF u ok(4-6)] sc by simp
  ultimately have "(k1 * 2 ^ 40) * L \<le> (k1 * 2 ^ 40) * (r0 ^ 2 * sc * A)" by (simp add: power_mult_distrib algebra_simps)
  moreover have "0 < k1 * 2 ^ 40" using ok(1) by simp
  ultimately show "2 ^ 63 - c * 2 ^ 50 \<le> r0 ^ 2 * sc * A" unfolding L_def [symmetric] using mult_le_cancel_left_pos by blast
qed

lemma sqrt_tables_all:
  "list_all (\<lambda>i. sqrt_line_ok (uint (approxRecipSqrt_k0s ! i)) (uint (approxRecipSqrt_k1s ! i))
       (8 + int (i div 2)) (2 - int (i mod 2)) 0 23) [0..<16]"
  by (simp add: upt_conv_Cons approxRecipSqrt_k0s_def approxRecipSqrt_k1s_def) (simp add: sqrt_line_ok_def)

lemma sqrt_tables:
  "i < 16 \<Longrightarrow> sqrt_line_ok (uint (approxRecipSqrt_k0s ! i)) (uint (approxRecipSqrt_k1s ! i)) (8 + int (i div 2)) (2 - int (i mod 2)) 0 23"
  using sqrt_tables_all unfolding list_all_iff by simp

lemma sqrt_table_top: "sqrt_line_ok (uint (approxRecipSqrt_k0s ! 14)) (uint (approxRecipSqrt_k1s ! 14)) 15 2 0x3C00 8"
  by (simp add: approxRecipSqrt_k0s_def approxRecipSqrt_k1s_def sqrt_line_ok_def Let_def)

section \<open>The power series\<close>

lemma sqrt_series:
  fixes x :: real
  assumes x: "0 < x" "x \<le> 1 / 300"
  defines "p \<equiv> 1 + x / 2 + 3 * x ^ 2 / 8 + 5 * x ^ 3 / 16"
  shows "p * sqrt (1 - x) < 1" "1 \<le> (p + 7 / 25 * x ^ 4) * sqrt (1 - x)"
proof -
  have p0: "0 < p" "1 + x / 2 \<le> p" using x by (simp_all add: p_def add_pos_pos)
  have e: "p ^ 2 * (1 - x) = 1 - x ^ 4 * (35 / 64 + 14 / 64 * x + 35 / 256 * x ^ 2 + 25 / 256 * x ^ 3)"
    unfolding p_def by (simp add: power2_eq_square power3_eq_cube power4_eq_xxxx field_simps)
  have "p ^ 2 * (1 - x) < 1" unfolding e using x by (simp add: add_pos_pos)
  then have "sqrt (p ^ 2 * (1 - x)) < 1" by simp
  then show "p * sqrt (1 - x) < 1" using p0 by (simp add: real_sqrt_mult)
  define q where "q = p + 7 / 25 * x ^ 4"
  have "1 \<le> q ^ 2 * (1 - x)"
  proof -
    have "q ^ 2 * (1 - x) = p ^ 2 * (1 - x) + 14 / 25 * x ^ 4 * (p * (1 - x)) + 49 / 625 * x ^ 8 * (1 - x)"
      unfolding q_def by (simp add: power2_eq_square power4_eq_xxxx field_simps flip: power_add) (simp add: power4_eq_xxxx algebra_simps numeral_eq_Suc)
    moreover have "0 \<le> 49 / 625 * x ^ 8 * (1 - x)" using x by simp
    moreover have "x ^ 4 * (35 / 64 + 14 / 64 * x + 35 / 256 * x ^ 2 + 25 / 256 * x ^ 3) \<le> x ^ 4 * (14 / 25 * (p * (1 - x)))"
    proof (rule mult_left_mono)
      have sq: "x ^ 2 \<le> x / 300" using x mult_left_mono [of x "1 / 300" x] by (simp add: power2_eq_square)
      have "x ^ 3 \<le> x ^ 2" using x by (intro power_decreasing) simp_all
      moreover have "(1 + x / 2) * (1 - x) \<le> p * (1 - x)" using p0 x by (intro mult_right_mono) simp_all
      moreover have "(1 + x / 2) * (1 - x) = 1 - x / 2 - x ^ 2 / 2" by (simp add: power2_eq_square field_simps)
      ultimately show "35 / 64 + 14 / 64 * x + 35 / 256 * x ^ 2 + 25 / 256 * x ^ 3 \<le> 14 / 25 * (p * (1 - x))"
        using x sq by linarith
    qed simp
    ultimately show ?thesis unfolding e by linarith
  qed
  then have "1 \<le> sqrt (q ^ 2 * (1 - x))" by simp
  moreover have "0 < q" using p0 x by (simp add: q_def add_pos_nonneg)
  ultimately show "1 \<le> (p + 7 / 25 * x ^ 4) * sqrt (1 - x)" unfolding q_def [symmetric] by (simp add: real_sqrt_mult)
qed

section \<open>The refinement step\<close>

text \<open>The code on integers: \<open>D\<close> is \<open>delta0\<close>, \<open>Y\<close> the squared estimate times the argument.\<close>

definition sqrt_refine :: "int \<Rightarrow> int \<Rightarrow> int" where
  "sqrt_refine r0 D =
     (let r = r0 * 2 ^ 16 + r0 * D div 2 ^ 25
      in r + (r div 2 + r div 8 - r0 * 2 ^ 14) * (D ^ 2 div 2 ^ 32) div 2 ^ 48)"

lemma floor_real_bounds: "real_of_int (x div 2 ^ k) \<le> real_of_int x / 2 ^ k" "real_of_int x / 2 ^ k - 1 < real_of_int (x div 2 ^ k)"
proof -
  have "real_of_int (x div 2 ^ k) = of_int \<lfloor>real_of_int x / 2 ^ k\<rfloor>"
    using floor_divide_of_int_eq [of x "2 ^ k", where 'a = real] by simp
  then show "real_of_int (x div 2 ^ k) \<le> real_of_int x / 2 ^ k" "real_of_int x / 2 ^ k - 1 < real_of_int (x div 2 ^ k)" by linarith+
qed

lemma sqrt_refine_error:
  fixes r0 D :: int
  assumes r0: "0 < r0" "r0 < 2 ^ 16" and D: "0 \<le> D" "D \<le> 23 * 2 ^ 27"
  defines "d \<equiv> real_of_int D / 2 ^ 40"
  defines "P \<equiv> of_int r0 * 2 ^ 16 * (1 + d / 2 + 3 * d ^ 2 / 8 + 5 * d ^ 3 / 16)"
  shows "of_int (sqrt_refine r0 D) \<le> P" "P < of_int (sqrt_refine r0 D) + 2 + 1 / 1000"
proof -
  define R :: real where "R = of_int r0 * 2 ^ 16"
  have R: "0 < R" "R < 2 ^ 32" using r0 by (simp_all add: R_def)
  have d: "0 \<le> d" "d \<le> 1 / 300" using D by (simp_all add: d_def)
  define r where "r = r0 * 2 ^ 16 + r0 * D div 2 ^ 25"
  define G where "G = r div 2 + r div 8 - r0 * 2 ^ 14"
  define s where "s = D ^ 2 div 2 ^ 32"
  have r: "real_of_int r \<le> R * (1 + d / 2)" "R * (1 + d / 2) - 1 < real_of_int r"
    using floor_real_bounds [of "r0 * D" 25] by (simp_all add: r_def R_def d_def field_simps)
  have s: "real_of_int s \<le> 2 ^ 48 * d ^ 2" "2 ^ 48 * d ^ 2 - 1 < real_of_int s" "0 \<le> s"
    using floor_real_bounds [of "D ^ 2" 32] by (simp_all add: s_def d_def power_divide pos_imp_zdiv_nonneg_iff)
  have G: "real_of_int G \<le> R * (3 / 8 + 5 / 16 * d)" "R * (3 / 8 + 5 / 16 * d) - 21 / 8 < real_of_int G"
    using r floor_real_bounds [of r 1] floor_real_bounds [of r 3] by (simp_all add: G_def R_def field_simps)
  define g where "g = R * (3 / 8 + 5 / 16 * d)"
  have g: "0 \<le> g" "g \<le> 2 ^ 32"
  proof -
    show "0 \<le> g" using R d by (simp add: g_def)
    have "g \<le> 2 ^ 32 * 1" unfolding g_def using R d by (intro mult_mono) simp_all
    then show "g \<le> 2 ^ 32" by simp
  qed
  define S where "S = 2 ^ 48 * d ^ 2"
  have S: "0 \<le> S" "S \<le> 2 ^ 48 / 90000"
  proof -
    have "d ^ 2 \<le> (1 / 300) ^ 2" using d by (intro power_mono) simp_all
    then show "S \<le> 2 ^ 48 / 90000" by (simp add: S_def power2_eq_square)
  qed (simp add: S_def)
  have P: "P = R * (1 + d / 2) + g * S / 2 ^ 48"
    by (simp add: P_def R_def g_def S_def power2_eq_square power3_eq_cube field_simps)
  have eq: "sqrt_refine r0 D = r + G * s div 2 ^ 48" by (simp add: sqrt_refine_def Let_def r_def G_def s_def)
  have "real_of_int G * of_int s \<le> g * of_int s" using G(1) s(3) unfolding g_def by (intro mult_right_mono) simp_all
  also have "\<dots> \<le> g * S" using g s(1) unfolding S_def by (intro mult_left_mono)
  finally show "of_int (sqrt_refine r0 D) \<le> P"
    using floor_real_bounds(1) [of "G * s" 48] r(1) unfolding eq P by simp
  have "g * (S - 1) \<le> g * of_int s" using g s(2) unfolding S_def by (intro mult_left_mono) simp_all
  moreover have "21 / 8 * real_of_int s \<le> 21 / 8 * S" using s(1) by (simp add: S_def)
  moreover have "(g - 21 / 8) * of_int s \<le> real_of_int G * of_int s"
    using G(2) s(3) unfolding g_def by (intro mult_right_mono) simp_all
  ultimately have "g * S - g - 21 / 8 * S \<le> real_of_int G * of_int s" by (simp add: algebra_simps)
  then have "g * S - 2 ^ 32 - 21 / 8 * (2 ^ 48 / 90000) \<le> real_of_int (G * s)" using g S by simp
  then have "g * S / 2 ^ 48 - 1 / 2000 \<le> real_of_int (G * s) / 2 ^ 48" by (simp add: field_simps)
  then show "P < of_int (sqrt_refine r0 D) + 2 + 1 / 1000"
    using floor_real_bounds(2) [of "G * s" 48] r(2) unfolding eq P by simp
qed

section \<open>The bound\<close>

text \<open>The value approximated, for \<open>x = a / 2 ^ 31\<close> doubled for an even exponent.\<close>

definition recip_sqrt :: "nat \<Rightarrow> u32 \<Rightarrow> real" where
  "recip_sqrt oddExpA a = 2 ^ 32 / sqrt ((2 - of_nat oddExpA) * of_int (uint a) / 2 ^ 31)"

text \<open>The line of the table, for the upper bits \<open>A div 2 ^ 28\<close> and the sixteen bits below bit 28.\<close>

definition sqrt_line_value :: "nat \<Rightarrow> int \<Rightarrow> int" where
  "sqrt_line_value oddExpA A =
     (let i = 2 * nat (A div 2 ^ 28 - 8) + oddExpA
      in uint (approxRecipSqrt_k0s ! i) - uint (approxRecipSqrt_k1s ! i) * (A div 2 ^ 12 mod 2 ^ 16) div 2 ^ 20)"

lemma sqrt_index: "unat (w AND 0xE) = nat (2 * (uint w div 2 - 8))" if "16 \<le> uint w" "uint w < 32" for w :: u32
proof -
  define n where "n = uint w"
  have "w = word_of_int n" by (simp add: n_def)
  moreover have "n \<in> {16, 17, 18, 19, 20, 21, 22, 23, 24, 25, 26, 27, 28, 29, 30, 31}"
    using that unfolding n_def [symmetric] by (simp only: insert_iff empty_iff) arith
  ultimately show ?thesis unfolding n_def [symmetric] by (auto simp: unsigned_and_eq)
qed

lemma approxRecipSqrt32_1_int:
  assumes a: "2 ^ 31 \<le> uint a" and "oddExpA < 2"
  obtains r0 D Y where "r0 = sqrt_line_value oddExpA (uint a)" "0 < r0" "r0 < 2 ^ 16" "Y = r0 ^ 2 * (2 - int oddExpA) * uint a" "Y < 2 ^ 63" "2 ^ 63 - 23 * 2 ^ 50 \<le> Y"
    "D = 2 ^ 40 - 1 - Y div 2 ^ 23"
    "2 ^ 32 \<le> sqrt_refine r0 D \<or> uint (softfloat_approxRecipSqrt32_1 oddExpA a) = max (2 ^ 31) (sqrt_refine r0 D)"
proof -
  define A where "A = uint a"
  have A: "2 ^ 31 \<le> A" "A < 2 ^ 32" using a uint_bounds_32 [of a] by (simp_all add: A_def)
  define index where "index = unat (drop_bit 27 a AND 0xE) + oddExpA"
  define i where "i = nat (A div 2 ^ 28 - 8)"
  have q: "8 \<le> A div 2 ^ 28" "A div 2 ^ 28 < 16"
    using zdiv_mono1 [of "2 ^ 31" A "2 ^ 28"] A by (auto intro: int_div_less)
  have t: "8 + int i = A div 2 ^ 28" "i < 8" using q by (simp_all add: i_def)
  have index: "index = 2 * i + oddExpA"
  proof -
    have "16 \<le> A div 2 ^ 27" "A div 2 ^ 27 < 32"
      using zdiv_mono1 [of "2 ^ 31" A "2 ^ 27"] A by (auto intro: int_div_less)
    moreover have "A div 2 ^ 27 div 2 = A div 2 ^ 28" by (simp add: zdiv_zmult2_eq [symmetric])
    ultimately have "unat (drop_bit 27 a AND 0xE) = nat (2 * (A div 2 ^ 28 - 8))"
      using sqrt_index [of "drop_bit 27 a"] by (simp add: uint_drop_bit_div A_def [symmetric])
    also have "\<dots> = 2 * i" unfolding i_def by (subst nat_mult_distrib) simp_all
    finally show ?thesis by (simp add: index_def)
  qed
  have i16: "index < 16" "index div 2 = i" "index mod 2 = oddExpA" using t(2) assms(2) by (simp_all add: index)
  define k0 k1 e where "k0 = uint (approxRecipSqrt_k0s ! index)" and "k1 = uint (approxRecipSqrt_k1s ! index)"
    and "e = A div 2 ^ 12 mod 2 ^ 16"
  define r0 where "r0 = k0 - k1 * e div 2 ^ 20"
  have ok: "sqrt_line_ok k0 k1 (8 + int i) (2 - int oddExpA) 0 23"
    using sqrt_tables [OF i16(1)] by (simp only: i16 k0_def k1_def)
  have e: "0 \<le> e" "e < 2 ^ 16" by (simp_all add: e_def)
  have Ae: "((8 + int i) * 2 ^ 16 + e) * 2 ^ 12 \<le> A" "A < ((8 + int i) * 2 ^ 16 + e + 1) * 2 ^ 12"
  proof -
    have "(8 + int i) * 2 ^ 16 + e = A div 2 ^ 12"
      unfolding t(1) e_def using div_mult_mod_eq [of "A div 2 ^ 12" "2 ^ 16"] by (simp add: zdiv_zmult2_eq [symmetric])
    then show "((8 + int i) * 2 ^ 16 + e) * 2 ^ 12 \<le> A" "A < ((8 + int i) * 2 ^ 16 + e + 1) * 2 ^ 12"
      using div_bounds [of "2 ^ 12" A] by simp_all
  qed
  define Y where "Y = r0 ^ 2 * (2 - int oddExpA) * A"
  have Y: "Y < 2 ^ 63" "2 ^ 63 - 23 * 2 ^ 50 \<le> Y" "0 < r0"
    using sqrt_line [OF ok _ _ _ e Ae, folded r0_def] assms(2) by (simp_all add: Y_def)
  define D where "D = 2 ^ 40 - 1 - Y div 2 ^ 23"
  have k0: "0 \<le> k0" "k0 < 2 ^ 16" and k1: "0 \<le> k1" "k1 < 2 ^ 16" using uint_bounds_16 by (simp_all add: k0_def k1_def)
  have ke: "0 \<le> k1 * e div 2 ^ 20" "k1 * e div 2 ^ 20 < 2 ^ 12" "0 \<le> k1 * e" "k1 * e < 2 ^ 32"
  proof -
    have "k1 * e < 2 ^ 16 * 2 ^ 16" using k1 e by (intro mult_strict_mono) simp_all
    then show "k1 * e < 2 ^ 32" by simp
    then show "k1 * e div 2 ^ 20 < 2 ^ 12" by (intro int_div_less) simp_all
    show "0 \<le> k1 * e" using k1 e by simp
    then show "0 \<le> k1 * e div 2 ^ 20" by (simp add: pos_imp_zdiv_nonneg_iff)
  qed
  have r16: "r0 < 2 ^ 16" using k0 ke by (simp add: r0_def)
  have D: "0 \<le> D" "D < 2 ^ 32" "Y div 2 ^ 23 < 2 ^ 40" "2 ^ 40 - 2 ^ 32 \<le> Y div 2 ^ 23"
  proof -
    show "Y div 2 ^ 23 < 2 ^ 40" using Y(1) by (intro int_div_less) simp_all
    moreover have "(2 ^ 63 - 23 * 2 ^ 50) div 2 ^ 23 \<le> Y div 2 ^ 23" using Y(2) by (intro zdiv_mono1) simp_all
    ultimately show "0 \<le> D" "D < 2 ^ 32" "2 ^ 40 - 2 ^ 32 \<le> Y div 2 ^ 23" by (simp_all add: D_def)
  qed
  have "uint (softfloat_approxRecipSqrt32_1 oddExpA a) = max (2 ^ 31) (sqrt_refine r0 D)" if small: "sqrt_refine r0 D < 2 ^ 32"
  proof -
    define eps where "eps = (ucast (drop_bit 12 a) :: u16)"
    define rw where "rw = (approxRecipSqrt_k0s ! index - ucast (drop_bit 20 (ucast (approxRecipSqrt_k1s ! index) * ucast eps :: u32)) :: u16)"
    define E where "E = (if oddExpA = 0 then push_bit 1 (ucast rw * ucast rw :: u32) else ucast rw * ucast rw)"
    define dw where "dw = NOT (ucast (drop_bit 23 (ucast E * ucast a :: u64)) :: u32)"
    define r1 where "r1 = push_bit 16 (ucast rw) + (ucast (drop_bit 25 (ucast rw * ucast dw :: u64)) :: u32)"
    define sw where "sw = (ucast (drop_bit 32 (ucast dw * ucast dw :: u64)) :: u32)"
    define gw where "gw = (drop_bit 1 r1 + drop_bit 3 r1 - push_bit 14 (ucast rw) :: u32)"
    define r2 where "r2 = r1 + ucast (drop_bit 48 (ucast gw * ucast sw :: u64))"
    have code: "softfloat_approxRecipSqrt32_1 oddExpA a = (if r2 AND 0x80000000 = 0 then 0x80000000 else r2)"
      unfolding softfloat_approxRecipSqrt32_1_def Let_def r2_def gw_def sw_def r1_def dw_def E_def rw_def eps_def index_def by simp
    have eps: "uint eps = e" by (simp add: eps_def e_def uint_ucast_mod uint_drop_bit_div A_def)
    have up: "uint (ucast x :: u32) = uint x" "uint (ucast x :: u64) = uint x" for x :: u16
      using uint_bounds_16 [of x] by (simp_all add: uint_ucast_mod)
    have rw: "uint rw = r0"
    proof -
      have "uint (ucast (approxRecipSqrt_k1s ! index) * ucast eps :: u32) = k1 * e"
        using ke by (simp add: uint_word_ariths up eps k1_def [symmetric])
      then have "uint (ucast (drop_bit 20 (ucast (approxRecipSqrt_k1s ! index) * ucast eps :: u32)) :: u16) = k1 * e div 2 ^ 20"
        using ke by (simp add: uint_ucast_mod uint_drop_bit_div)
      then have "uint rw = r0 mod 2 ^ 16" by (simp add: rw_def uint_word_ariths r0_def k0_def)
      then show ?thesis using Y(3) r16 by simp
    qed
    have E2: "r0 ^ 2 * (2 - int oddExpA) < 2 ^ 32" "0 \<le> r0 ^ 2 * (2 - int oddExpA)"
    proof -
      show pos: "0 \<le> r0 ^ 2 * (2 - int oddExpA)" using assms(2) by simp
      have "r0 ^ 2 * (2 - int oddExpA) * 2 ^ 31 \<le> Y" unfolding Y_def using A(1) pos by (rule mult_left_mono)
      then have "r0 ^ 2 * (2 - int oddExpA) * 2 ^ 31 < 2 ^ 32 * 2 ^ 31" using Y(1) by simp
      then show "r0 ^ 2 * (2 - int oddExpA) < 2 ^ 32" by simp
    qed
    have E: "uint E = r0 ^ 2 * (2 - int oddExpA)"
    proof -
      have "r0 ^ 2 \<le> r0 ^ 2 * (2 - int oddExpA)" using assms(2) mult_left_mono [of 1 "2 - int oddExpA" "r0 ^ 2"] by simp
      then have "r0 ^ 2 < 2 ^ 32" using E2 by linarith
      then have "uint (ucast rw * ucast rw :: u32) = r0 ^ 2"
        using Y(3) by (simp add: uint_word_ariths up rw power2_eq_square)
      then have sq: "uint (ucast rw * ucast rw :: u32) = r0 ^ 2" .
      show ?thesis
      proof (cases "oddExpA = 0")
        case True
        then have "uint E = uint (push_bit 1 (ucast rw * ucast rw :: u32))" by (simp add: E_def)
        also have "\<dots> = r0 ^ 2 * 2 ^ 1" using E2 True by (subst uint_push_bit_small) (simp_all only: sq, simp_all)
        finally show ?thesis using True by simp
      next
        case False
        then show ?thesis using assms(2) sq by (simp add: E_def)
      qed
    qed
    have dw: "uint dw = D"
    proof -
      have "uint (ucast (drop_bit 23 (ucast E * ucast a :: u64)) :: u32) = Y div 2 ^ 23 mod 2 ^ 32"
        by (simp add: uint_ucast_64_32 uint_drop_bit_div uint_mul32 E Y_def A_def)
      also have "\<dots> = (Y div 2 ^ 23 - (2 ^ 40 - 2 ^ 32) + 255 * 2 ^ 32) mod 2 ^ 32" by simp
      also have "\<dots> = (Y div 2 ^ 23 - (2 ^ 40 - 2 ^ 32)) mod 2 ^ 32" by (simp only: mod_mult_self1)
      also have "\<dots> = Y div 2 ^ 23 - (2 ^ 40 - 2 ^ 32)" using D by (intro mod_pos_pos_trivial) simp_all
      finally have c: "uint (ucast (drop_bit 23 (ucast E * ucast a :: u64)) :: u32) = 2 ^ 32 - 1 - D" by (simp add: D_def)
      have "uint (NOT w) = 2 ^ 32 - 1 - uint w" for w :: u32
      proof -
        define n where "n = uint w"
        have n: "0 \<le> n" "n < 2 ^ 32" using uint_bounds_32 [of w] by (simp_all add: n_def)
        have "uint (NOT w) = (- n - 1) mod 2 ^ 32" by (simp add: unsigned_not_eq take_bit_eq_mod not_int_def n_def)
        also have "\<dots> = (2 ^ 32 - 1 - n) mod 2 ^ 32" using mod_mult_self1 [of "- n - 1" 1 "2 ^ 32"] by (simp add: algebra_simps)
        also have "\<dots> = 2 ^ 32 - 1 - n" using n by (intro mod_pos_pos_trivial) simp_all
        finally show ?thesis by (simp add: n_def)
      qed
      then have "uint dw = 2 ^ 32 - 1 - uint (ucast (drop_bit 23 (ucast E * ucast a :: u64)) :: u32)" unfolding dw_def .
      then show ?thesis unfolding c by simp
    qed
    define c1 where "c1 = r0 * D div 2 ^ 25"
    have c1: "0 \<le> c1" using Y(3) D(1) by (simp add: c1_def pos_imp_zdiv_nonneg_iff)
    define s where "s = D ^ 2 div 2 ^ 32"
    have s: "0 \<le> s" "s < 2 ^ 32"
    proof -
      have "D ^ 2 \<le> (2 ^ 32 - 1) ^ 2" using D(1,2) by (intro power_mono) simp_all
      then show "s < 2 ^ 32" unfolding s_def by (intro int_div_less) simp_all
    qed (simp add: s_def pos_imp_zdiv_nonneg_iff)
    define r where "r = r0 * 2 ^ 16 + c1"
    define g where "g = r div 2 + r div 8 - r0 * 2 ^ 14"
    define c2 where "c2 = g * s div 2 ^ 48"
    have g: "0 \<le> g"
    proof -
      have "r0 * 2 ^ 16 div 2 \<le> r div 2" "0 \<le> r div 8" using c1 Y(3) by (auto simp: r_def pos_imp_zdiv_nonneg_iff intro!: zdiv_mono1)
      then show ?thesis using Y(3) by (simp add: g_def)
    qed
    have c2: "0 \<le> c2" using g s by (simp add: c2_def pos_imp_zdiv_nonneg_iff)
    have ref: "sqrt_refine r0 D = r + c2" by (simp add: sqrt_refine_def Let_def r_def c1_def g_def s_def c2_def)
    have r: "0 \<le> r" "r < 2 ^ 32" "c2 < 2 ^ 32" "c1 < 2 ^ 32" using small c2 c1 Y(3) unfolding ref by (simp_all add: r_def)
    have r1: "uint r1 = r"
    proof -
      have "uint (ucast rw * ucast dw :: u64) = r0 * D"
      proof -
        have "r0 * D < 2 ^ 16 * 2 ^ 32" using r16 D(1,2) Y(3) by (intro mult_strict_mono) simp_all
        then show ?thesis using Y(3) D(1) by (simp add: uint_word_ariths up rw dw)
      qed
      then have "uint (ucast (drop_bit 25 (ucast rw * ucast dw :: u64)) :: u32) = c1"
        using r(4) c1 by (simp add: uint_ucast_64_32 uint_drop_bit_div c1_def)
      moreover have "uint (push_bit 16 (ucast rw) :: u32) = r0 * 2 ^ 16" using r16 by (subst uint_push_bit_small) (simp_all add: up rw)
      ultimately show ?thesis using r(1,2) unfolding r1_def by (simp add: uint_word_ariths r_def)
    qed
    have sw: "uint sw = s"
      using s by (simp add: sw_def uint_ucast_64_32 uint_drop_bit_div uint_mul32 dw s_def power2_eq_square)
    have gw: "uint gw = g"
    proof -
      have "uint (push_bit 14 (ucast rw) :: u32) = r0 * 2 ^ 14" using r16 by (subst uint_push_bit_small) (simp_all add: up rw)
      then have "uint gw = (r div 2 + r div 8 - r0 * 2 ^ 14) mod 2 ^ 32"
        by (simp add: gw_def uint_word_ariths uint_drop_bit_div r1 mod_diff_left_eq)
      also have "\<dots> = g" unfolding g_def [symmetric] using g r(1,2) Y(3) by (intro mod_pos_pos_trivial) (simp_all add: g_def)
      finally show ?thesis .
    qed
    have r2: "uint r2 = sqrt_refine r0 D"
    proof -
      have "uint (ucast (drop_bit 48 (ucast gw * ucast sw :: u64)) :: u32) = c2"
        using r(3) c2 by (simp add: uint_ucast_64_32 uint_drop_bit_div uint_mul32 gw sw c2_def)
      then show ?thesis using small r(1) c2 unfolding r2_def ref by (simp add: uint_word_ariths r1)
    qed
    show ?thesis unfolding code high_bit32 r2 by (simp add: r2)
  qed
  then have "2 ^ 32 \<le> sqrt_refine r0 D \<or> uint (softfloat_approxRecipSqrt32_1 oddExpA a) = max (2 ^ 31) (sqrt_refine r0 D)"
    by linarith
  moreover have "r0 = sqrt_line_value oddExpA A"
    by (simp add: sqrt_line_value_def Let_def r0_def k0_def k1_def e_def index i_def)
  ultimately show thesis using Y r16 that [of r0 Y D] unfolding Y_def D_def A_def by blast
qed

text \<open>
  The error in terms of the error \<open>c / 2 ^ 13\<close> of the line: the last term is the first one of the
  series that is dropped.
\<close>

lemma approxRecipSqrt32_1_error:
  assumes a: "2 ^ 31 \<le> uint a" and "oddExpA < 2"
    and c: "2 ^ 63 - c * 2 ^ 50 \<le> sqrt_line_value oddExpA (uint a) ^ 2 * (2 - int oddExpA) * uint a"
  shows "of_int (uint (softfloat_approxRecipSqrt32_1 oddExpA a)) < recip_sqrt oddExpA a"
    "recip_sqrt oddExpA a < of_int (uint (softfloat_approxRecipSqrt32_1 oddExpA a)) + 2 + 1 / 200 + 2 ^ 32 * (7 / 25 * (of_int c / 2 ^ 13) ^ 4)"
proof -
  obtain r0 D Y where r0: "r0 = sqrt_line_value oddExpA (uint a)" and Y: "0 < r0" "r0 < 2 ^ 16" "Y = r0 ^ 2 * (2 - int oddExpA) * uint a" "Y < 2 ^ 63" "2 ^ 63 - 23 * 2 ^ 50 \<le> Y"
    "D = 2 ^ 40 - 1 - Y div 2 ^ 23"
    "2 ^ 32 \<le> sqrt_refine r0 D \<or> uint (softfloat_approxRecipSqrt32_1 oddExpA a) = max (2 ^ 31) (sqrt_refine r0 D)"
    using a assms(2) by (rule approxRecipSqrt32_1_int)
  define x where "x = 1 - real_of_int Y / 2 ^ 63"
  define d where "d = real_of_int D / 2 ^ 40"
  have D: "0 \<le> D" "D \<le> 23 * 2 ^ 27"
  proof -
    have "Y div 2 ^ 23 < 2 ^ 40" using Y(4) by (intro int_div_less) simp_all
    moreover have "(2 ^ 63 - 23 * 2 ^ 50) div 2 ^ 23 \<le> Y div 2 ^ 23" using Y(5) by (intro zdiv_mono1) simp_all
    ultimately show "0 \<le> D" "D \<le> 23 * 2 ^ 27" by (simp_all add: Y(6))
  qed
  have dx: "d < x" "x - 1 / 2 ^ 40 \<le> d"
    using floor_real_bounds [of Y 23] by (simp_all add: Y(6) x_def d_def field_simps)
  have x: "0 < x" "x \<le> 1 / 356" using dx D Y(5) by (simp_all add: d_def)
  have xc: "x \<le> of_int c / 2 ^ 13"
  proof -
    have "real_of_int (2 ^ 63 - c * 2 ^ 50) \<le> of_int Y" using c by (simp only: Y(3) r0 of_int_le_iff)
    then show ?thesis by (simp add: x_def)
  qed
  define w where "w = (2 - of_nat oddExpA) * of_int (uint a) / (2 ^ 31 :: real)"
  define T where "T = recip_sqrt oddExpA a"
  have w: "1 \<le> w" "w < 4"
    using a uint_bounds_32 [of a] assms(2) by (cases oddExpA; simp add: w_def)+
  have T: "of_int r0 * 2 ^ 16 = T * sqrt (1 - x)" "2 ^ 31 < T" "T \<le> 2 ^ 32"
  proof -
    have Tw: "T = 2 ^ 32 / sqrt w" by (simp add: T_def recip_sqrt_def w_def)
    have "1 - x = (of_int r0 / 2 ^ 16) ^ 2 * w" using assms(2) by (simp add: x_def Y(3) w_def power2_eq_square)
    then have "sqrt (1 - x) = of_int r0 / 2 ^ 16 * sqrt w" using Y(1) by (simp add: real_sqrt_mult)
    then have "T * sqrt (1 - x) = 2 ^ 32 / sqrt w * (of_int r0 / 2 ^ 16 * sqrt w)" by (simp only: Tw)
    also have "\<dots> = of_int r0 * 2 ^ 16" using w by simp
    finally show "of_int r0 * 2 ^ 16 = T * sqrt (1 - x)" ..
    have "1 \<le> sqrt w" "sqrt w < 2" using w real_sqrt_less_mono [of w 4] by simp_all
    then show "2 ^ 31 < T" "T \<le> 2 ^ 32" by (simp_all add: Tw field_simps)
  qed
  define p where "p = (\<lambda>x :: real. 1 + x / 2 + 3 * x ^ 2 / 8 + 5 * x ^ 3 / 16)"
  have d0: "0 \<le> d" "d \<le> x" using D dx by (simp_all add: d_def)
  have p: "p d \<le> p x" "p x \<le> p d + 1 / 2 ^ 40"
  proof -
    have m: "d ^ 2 \<le> x ^ 2" "d ^ 3 \<le> x ^ 3" using d0 by (simp_all add: power_mono)
    then show "p d \<le> p x" using d0 unfolding p_def by linarith
    have "x ^ 2 - d ^ 2 = (x - d) * (x + d)" by (simp add: power2_eq_square algebra_simps)
    also have "\<dots> \<le> (x - d) * (1 / 2)" using d0 x by (intro mult_left_mono) simp_all
    finally have q2: "x ^ 2 - d ^ 2 \<le> (x - d) / 2" by simp
    have "x ^ 2 \<le> 1 / 10" "x * d \<le> 1 / 10" "d ^ 2 \<le> 1 / 10"
      using mult_mono [of x "1 / 356" x "1 / 356"] mult_mono [of x "1 / 356" d "1 / 356"] mult_mono [of d "1 / 356" d "1 / 356"] d0 x
      by (simp_all add: power2_eq_square)
    then have "(x - d) * (x ^ 2 + x * d + d ^ 2) \<le> (x - d) * (1 / 2)" using d0 by (intro mult_left_mono) simp_all
    moreover have "x ^ 3 - d ^ 3 = (x - d) * (x ^ 2 + x * d + d ^ 2)" by (simp add: power2_eq_square power3_eq_cube algebra_simps)
    ultimately have q3: "x ^ 3 - d ^ 3 \<le> (x - d) / 2" by simp
    have "p x - p d = (x - d) / 2 + 3 / 8 * (x ^ 2 - d ^ 2) + 5 / 16 * (x ^ 3 - d ^ 3)" by (simp add: p_def field_simps)
    also have "\<dots> \<le> (x - d) / 2 + 3 / 8 * ((x - d) / 2) + 5 / 16 * ((x - d) / 2)"
      using q2 q3 by (intro add_mono mult_left_mono) simp_all
    also have "\<dots> \<le> x - d" using d0(2) by (simp add: field_simps)
    finally show "p x \<le> p d + 1 / 2 ^ 40" using dx by simp
  qed
  have x300: "x \<le> 1 / 300" using x by simp
  note series = sqrt_series [OF x(1) x300, folded p_def]
  define R where "R = real_of_int r0 * 2 ^ 16"
  have R: "0 \<le> R" "R \<le> 2 ^ 32" using Y(1,2) by (simp_all add: R_def)
  have e: "of_int (sqrt_refine r0 D) \<le> R * p d" "R * p d < of_int (sqrt_refine r0 D) + 2 + 1 / 1000"
    using sqrt_refine_error [OF Y(1,2) D] by (simp_all add: p_def d_def R_def)
  have "R * p d \<le> R * p x" using p(1) R(1) by (rule mult_left_mono)
  also have "\<dots> = T * (sqrt (1 - x) * p x)" using T(1) by (simp add: R_def)
  also have "\<dots> < T * 1" using series(1) T(2) by (intro mult_strict_left_mono) (simp_all add: p_def mult.commute)
  finally have up: "of_int (sqrt_refine r0 D) < T" using e(1) by simp
  then have "sqrt_refine r0 D < 2 ^ 32" using T(3) by simp
  then have res: "uint (softfloat_approxRecipSqrt32_1 oddExpA a) = max (2 ^ 31) (sqrt_refine r0 D)" using Y(7) by linarith
  show "of_int (uint (softfloat_approxRecipSqrt32_1 oddExpA a)) < recip_sqrt oddExpA a"
    using up T(2) unfolding res T_def [symmetric] by simp
  have "T * 1 \<le> T * ((p x + 7 / 25 * x ^ 4) * sqrt (1 - x))"
    using series(2) T(2) by (intro mult_left_mono) (simp_all add: p_def)
  also have "\<dots> = R * p x + R * (7 / 25 * x ^ 4)" using T(1) by (simp add: R_def algebra_simps)
  also have "R * p x \<le> R * p d + 2 ^ 32 / 2 ^ 40"
    using mult_left_mono [OF p(2) R(1)] R(2) by (simp add: distrib_left)
  also have "R * (7 / 25 * x ^ 4) \<le> 2 ^ 32 * (7 / 25 * (of_int c / 2 ^ 13) ^ 4)"
    using R x xc by (intro mult_mono power_mono) simp_all
  finally have "T \<le> R * p d + 2 ^ 32 / 2 ^ 40 + 2 ^ 32 * (7 / 25 * (of_int c / 2 ^ 13) ^ 4)" by simp
  also have "\<dots> < of_int (sqrt_refine r0 D) + 2 + 1 / 200 + 2 ^ 32 * (7 / 25 * (of_int c / 2 ^ 13) ^ 4)" using e(2) by simp
  finally show "recip_sqrt oddExpA a < of_int (uint (softfloat_approxRecipSqrt32_1 oddExpA a)) + 2 + 1 / 200 + 2 ^ 32 * (7 / 25 * (of_int c / 2 ^ 13) ^ 4)"
    unfolding res T_def [symmetric] by linarith
qed

theorem approxRecipSqrt32_1_bound:
  assumes a: "2 ^ 31 \<le> uint a" and o: "oddExpA < 2"
  shows "of_int (uint (softfloat_approxRecipSqrt32_1 oddExpA a)) < recip_sqrt oddExpA a"
    "recip_sqrt oddExpA a < of_int (uint (softfloat_approxRecipSqrt32_1 oddExpA a)) + 21 / 10"
proof -
  have "2 ^ 63 - 23 * 2 ^ 50 \<le> sqrt_line_value oddExpA (uint a) ^ 2 * (2 - int oddExpA) * uint a"
    using a o by (rule approxRecipSqrt32_1_int) simp
  note e = approxRecipSqrt32_1_error [OF a o this]
  show "of_int (uint (softfloat_approxRecipSqrt32_1 oddExpA a)) < recip_sqrt oddExpA a" by (rule e)
  show "recip_sqrt oddExpA a < of_int (uint (softfloat_approxRecipSqrt32_1 oddExpA a)) + 21 / 10"
    using e(2) by (simp add: power_divide)
qed

text \<open>At the upper end of the even exponents the line is closer.\<close>

lemma approxRecipSqrt32_1_top:
  assumes a: "0xF3C00000 \<le> uint a"
  shows "recip_sqrt 0 a < of_int (uint (softfloat_approxRecipSqrt32_1 0 a)) + 201 / 100"
proof -
  define A where "A = uint a"
  define e where "e = A div 2 ^ 12 mod 2 ^ 16"
  have A: "0xF3C00000 \<le> A" "A < 2 ^ 32" using a uint_bounds_32 [of a] by (simp_all add: A_def)
  have "0xF3C00 \<le> A div 2 ^ 12" "A div 2 ^ 12 < 2 ^ 20" "A div 2 ^ 28 = 15"
    using A zdiv_mono1 [of "0xF3C00000" A "2 ^ 12"] by (simp_all add: int_div_less)
  moreover have "A div 2 ^ 12 = A div 2 ^ 28 * 2 ^ 16 + e"
    unfolding e_def using div_mult_mod_eq [of "A div 2 ^ 12" "2 ^ 16"] by (simp add: zdiv_zmult2_eq [symmetric])
  ultimately have e: "0x3C00 \<le> e" "e < 2 ^ 16" "A div 2 ^ 12 = 15 * 2 ^ 16 + e" by simp_all
  have "sqrt_line_value 0 A = uint (approxRecipSqrt_k0s ! 14) - uint (approxRecipSqrt_k1s ! 14) * e div 2 ^ 20"
    using \<open>A div 2 ^ 28 = 15\<close> by (simp add: sqrt_line_value_def e_def)
  moreover have "(15 * 2 ^ 16 + e) * 2 ^ 12 \<le> A" "A < (15 * 2 ^ 16 + e + 1) * 2 ^ 12"
    using div_bounds [of "2 ^ 12" A] e(3) by simp_all
  ultimately have "2 ^ 63 - 8 * 2 ^ 50 \<le> sqrt_line_value 0 (uint a) ^ 2 * (2 - int 0) * uint a"
    using sqrt_line(2) [OF sqrt_table_top _ _ _ e(1,2), of A] unfolding A_def [symmetric] by simp
  from approxRecipSqrt32_1_error(2) [OF _ _ this] a show ?thesis by (simp add: power_divide)
qed

end
