(* ===== verification/SF_Sqrt.thy ===== *)
theory SF_Sqrt
  imports SF_RecipSqrt SF_Div
begin

text \<open>
  Square roots (\<open>f32_sqrt.c\<close>, \<open>f64_sqrt.c\<close>): a first estimate from
  \<open>softfloat_approxRecipSqrt32_1\<close>, then one correction when the estimate is close to a boundary
  of the rounding.  The single root is correctly rounded; for the double one the theory says which
  operands are not and what is returned for them.
\<close>

section \<open>Definitions\<close>

definition f32_sqrt_sig :: "int \<Rightarrow> u32 \<Rightarrow> u32" where
  "f32_sqrt_sig expA sigA =
     (let expA = expA AND 1;
          sigA = push_bit 8 (sigA OR 0x00800000);
          sigZ = (ucast (drop_bit 32 (ucast sigA * ucast (softfloat_approxRecipSqrt32_1 (nat expA) sigA) :: u64)) :: u32);
          sigZ = (if expA \<noteq> 0 then drop_bit 1 sigZ else sigZ);
          sigZ = sigZ + 2
      in if sigZ AND 0x3F < 2
         then let shiftedSigZ = drop_bit 2 sigZ;
                  negRem = shiftedSigZ * shiftedSigZ;
                  sigZ = push_bit 2 shiftedSigZ
              in if negRem AND 0x80000000 \<noteq> 0 then sigZ OR 1
                 else if negRem \<noteq> 0 then sigZ - 1 else sigZ
         else sigZ)"

definition f32_sqrt :: "float32 \<Rightarrow> sf_state \<Rightarrow> float32 \<times> sf_state" where
  "f32_sqrt a st =
     (let signA = signF32UI a;
          expA = expF32UI a;
          sigA = fracF32UI a;
          invalid = (defaultNaNF32UI, softfloat_raiseFlags softfloat_flag_invalid st)
      in if expA = 0xFF
         then if sigA \<noteq> 0 then softfloat_propagateNaNF32UI a 0 st
              else if \<not> signA then (a, st) else invalid
         else if signA
         then if expA = 0 \<and> sigA = 0 then (a, st) else invalid
         else if expA = 0 \<and> sigA = 0 then (a, st)
         else let (expA, sigA) = (if expA = 0 then softfloat_normSubnormalF32Sig sigA else (expA, sigA));
                  expZ = drop_bit 1 (expA - 0x7F) + 0x7E
              in softfloat_roundPackToF32 False expZ (f32_sqrt_sig expA sigA) st)"

text \<open>The shifted operand and the estimate, before it is corrected.\<close>

definition f64_sqrt_estimate :: "int \<Rightarrow> u64 \<Rightarrow> u64 \<times> u64" where
  "f64_sqrt_estimate expA sigA =
     (let expA = expA AND 1;
          sigA = sigA OR 0x0010000000000000;
          sig32A = (ucast (drop_bit 21 sigA) :: u32);
          recipSqrt32 = softfloat_approxRecipSqrt32_1 (nat expA) sig32A;
          sig32Z = (ucast (drop_bit 32 (ucast sig32A * ucast recipSqrt32 :: u64)) :: u32);
          (sigA, sig32Z) = (if expA \<noteq> 0 then (push_bit 8 sigA, drop_bit 1 sig32Z) else (push_bit 9 sigA, sig32Z));
          rem = sigA - ucast sig32Z * ucast sig32Z;
          q = (ucast (drop_bit 32 (ucast (ucast (drop_bit 2 rem) :: u32) * ucast recipSqrt32 :: u64)) :: u32)
      in (sigA, (push_bit 32 (ucast sig32Z) OR push_bit 5 1) + push_bit 3 (ucast q)))"

definition f64_sqrt_sig :: "int \<Rightarrow> u64 \<Rightarrow> u64" where
  "f64_sqrt_sig expA sigA =
     (let (sigA, sigZ) = f64_sqrt_estimate expA sigA
      in if sigZ AND 0x1FF < push_bit 5 1
         then let sigZ = sigZ AND NOT 0x3F;
                  shiftedSigZ = drop_bit 6 sigZ;
                  rem = push_bit 52 sigA - shiftedSigZ * shiftedSigZ
              in if rem AND 0x8000000000000000 \<noteq> 0 then sigZ - 1
                 else if rem \<noteq> 0 then sigZ OR 1 else sigZ
         else sigZ)"

definition f64_sqrt :: "float64 \<Rightarrow> sf_state \<Rightarrow> float64 \<times> sf_state" where
  "f64_sqrt a st =
     (let signA = signF64UI a;
          expA = expF64UI a;
          sigA = fracF64UI a;
          invalid = (defaultNaNF64UI, softfloat_raiseFlags softfloat_flag_invalid st)
      in if expA = 0x7FF
         then if sigA \<noteq> 0 then softfloat_propagateNaNF64UI a 0 st
              else if \<not> signA then (a, st) else invalid
         else if signA
         then if expA = 0 \<and> sigA = 0 then (a, st) else invalid
         else if expA = 0 \<and> sigA = 0 then (a, st)
         else let (expA, sigA) = (if expA = 0 then softfloat_normSubnormalF64Sig sigA else (expA, sigA));
                  expZ = drop_bit 1 (expA - 0x3FF) + 0x3FE
              in softfloat_roundPackToF64 False expZ (f64_sqrt_sig expA sigA) st)"

section \<open>A double whose root is rounded wrongly\<close>

lemma sqrt_example_estimate:
  "softfloat_approxRecipSqrt32_1 1 0x936845C9 = 0xEE8DA535"
  by (simp add: softfloat_approxRecipSqrt32_1_def approxRecipSqrt_k0s_def approxRecipSqrt_k1s_def Let_def)

lemma sqrt_example_sig: "f64_sqrt_sig 0x3FF 0x26D08B93E38A6 = 0x44AE40383F574A20"
  by (simp add: f64_sqrt_sig_def f64_sqrt_estimate_def sqrt_example_estimate [unfolded One_nat_def] Let_def)

lemma sqrt_example_round:
  "softfloat_roundPackToF64 False 0x3FE 0x44AE40383F574A20 softfloat_state_init =
     (0x3FF12B900E0FD5D3, softfloat_raiseFlags softfloat_flag_inexact softfloat_state_init)"
  "softfloat_roundPackToF64 False 0x3FE 0x44AE40383F5749FF softfloat_state_init =
     (0x3FF12B900E0FD5D2, softfloat_raiseFlags softfloat_flag_inexact softfloat_state_init)"
  unfolding softfloat_roundPackToF64_def Let_def
  by (simp_all add: softfloat_state_init_def softfloat_round_near_even_def softfloat_round_near_maxMag_def packToF64UI_def)

lemma sqrt_example_code:
  "f64_sqrt 0x3FF26D08B93E38A6 softfloat_state_init =
     (0x3FF12B900E0FD5D3, softfloat_raiseFlags softfloat_flag_inexact softfloat_state_init)"
  using sqrt_example_round(1) unfolding f64_sqrt_def Let_def
  by (simp add: signF64UI_def expF64UI_def fracF64UI_def sqrt_example_sig)

lemma sqrt_example_root:
  "f64_round softfloat_state_init False (sqrt (f64_val 0x3FF26D08B93E38A6)) =
     (0x3FF12B900E0FD5D2, softfloat_raiseFlags softfloat_flag_inexact softfloat_state_init)"
proof -
  define m :: real where "m = of_int 0x126D08B93E38A6"
  define x where "x = sqrt (m * 2 ^ 72)"
  have v: "f64_val 0x3FF26D08B93E38A6 = m / 2 ^ 52"
    by (simp add: f64_val_def f64_abs_fields signF64UI_def expF64UI_def fracF64UI_def m_def)
  have "fp_scaled 52 1023 9 0x3FE x = x / 2 ^ 62"
    using powi_diff [of 0 62] by (simp add: fp_scaled_def)
  also have "\<dots> = sqrt (f64_val 0x3FF26D08B93E38A6)"
  proof -
    have "x / 2 ^ 62 = sqrt (m * 2 ^ 72 / (2 ^ 62) ^ 2)" unfolding x_def real_sqrt_divide by (simp only: real_sqrt_abs) simp
    then show ?thesis by (simp add: v)
  qed
  finally have s: "fp_scaled 52 1023 9 0x3FE x = sqrt (f64_val 0x3FF26D08B93E38A6)" .
  have "cell 9 (of_int (uint (0x44AE40383F5749FF :: u64))) x"
  proof (rule cell_between)
    show "real_of_int 0x2257201C1FABA4 * 2 ^ 9 < x" unfolding x_def by (intro real_less_rsqrt) (simp add: m_def)
    show "x < real_of_int (0x2257201C1FABA4 + 1) * 2 ^ 9" unfolding x_def by (intro real_less_lsqrt) (simp_all add: m_def)
  qed simp_all
  then have "softfloat_roundPackToF64 False 0x3FE 0x44AE40383F5749FF softfloat_state_init =
      f64_round softfloat_state_init False (fp_scaled 52 1023 9 0x3FE x)"
    by (intro roundPackToF64_refines) simp_all
  then show ?thesis unfolding s sqrt_example_round(2) by simp
qed

section \<open>The estimate\<close>

text \<open>
  Both formats start from an approximation \<open>r\<close> of \<open>T = 2 ^ 62 / Q\<close>, where \<open>Q\<close> is the root
  of the upper part of the operand, scaled to lie between \<open>2 ^ 30\<close> and \<open>2 ^ 31\<close>.
\<close>

definition sqrt_scaled :: "nat \<Rightarrow> real \<Rightarrow> real" where
  "sqrt_scaled oddExpA x = sqrt (x * 2 ^ (30 - oddExpA))"

lemma sqrt_first:
  assumes a: "2 ^ 31 \<le> uint a" and o: "oddExpA < 2"
    and l: "recip_sqrt oddExpA a < of_int (uint (softfloat_approxRecipSqrt32_1 oddExpA a)) + l"
  defines "r \<equiv> uint (softfloat_approxRecipSqrt32_1 oddExpA a)" and "Q \<equiv> sqrt_scaled oddExpA (of_int (uint a))"
  defines "Z \<equiv> uint a * r div 2 ^ 32 div 2 ^ oddExpA"
  shows "of_int r < 2 ^ 62 / Q" "2 ^ 62 / Q < of_int r + l" "2 ^ 30 \<le> Q" "Q < 2 ^ 31"
    "of_int Z < Q" "Q < of_int Z + 1 + l * (Q / 2 ^ 31) ^ 2" "oddExpA = 0 \<Longrightarrow> 2 ^ 61 \<le> Q ^ 2"
proof -
  define A where "A = real_of_int (uint a)"
  have A: "2 ^ 31 \<le> A" "A < 2 ^ 32"
    using a uint_bounds_32 [of a] of_int_le_iff [of "2 ^ 31" "uint a", where 'a = real] of_int_less_iff [of "uint a" "2 ^ 32", where 'a = real]
    by (simp_all add: A_def)
  have Q2: "Q ^ 2 = A * 2 ^ (30 - oddExpA)" using A by (simp add: Q_def sqrt_scaled_def A_def)
  have Q0: "0 < Q" using A by (simp add: Q_def sqrt_scaled_def A_def)
  have Qb: "2 ^ 30 \<le> Q \<and> Q < 2 ^ 31 \<and> (oddExpA = 0 \<longrightarrow> 2 ^ 61 \<le> Q ^ 2)"
  proof -
    have "(2 ^ 30) ^ 2 \<le> Q ^ 2" "Q ^ 2 < (2 ^ 31) ^ 2" "oddExpA = 0 \<Longrightarrow> 2 ^ 61 \<le> Q ^ 2"
      unfolding Q2 using A o by (cases oddExpA; simp)+
    then show ?thesis using Q0 by (auto intro: power2_le_imp_le power2_less_imp_less)
  qed
  then show Qb: "2 ^ 30 \<le> Q" "Q < 2 ^ 31" "oddExpA = 0 \<Longrightarrow> 2 ^ 61 \<le> Q ^ 2" by blast+
  have T: "recip_sqrt oddExpA a = 2 ^ 62 / Q"
  proof -
    define w where "w = (2 - of_nat oddExpA) * A / 2 ^ 31"
    have "w = (Q / 2 ^ 30) ^ 2" using o by (cases oddExpA) (simp_all add: w_def Q2 power_divide)
    then have "sqrt w = Q / 2 ^ 30" using Q0 by simp
    then have "2 ^ 32 / sqrt w = 2 ^ 62 / Q" by (simp only: divide_divide_eq_right) simp
    moreover have "recip_sqrt oddExpA a = 2 ^ 32 / sqrt w" by (simp add: recip_sqrt_def w_def A_def)
    ultimately show ?thesis by simp
  qed
  show r: "of_int r < 2 ^ 62 / Q" "2 ^ 62 / Q < of_int r + l"
    using approxRecipSqrt32_1_bound(1) [OF a o] l unfolding T r_def by simp_all
  define p :: real where "p = 2 ^ (32 + oddExpA)"
  have QA: "A * (2 ^ 62 / Q) / p = Q"
  proof -
    have "A * 2 ^ 62 = Q ^ 2 * p" unfolding Q2 p_def using o by (cases oddExpA) simp_all
    then show ?thesis using Q0 by (simp add: p_def power2_eq_square)
  qed
  have p0: "0 < p" by (simp add: p_def)
  have Z: "real_of_int Z \<le> A * of_int r / p" "A * of_int r / p - 1 < real_of_int Z"
    using floor_real_bounds [of "uint a * r" "32 + oddExpA"] by (simp_all add: Z_def A_def p_def power_add zdiv_zmult2_eq)
  have "A * of_int r / p < A * (2 ^ 62 / Q) / p" using r(1) A p0 by (intro divide_strict_right_mono mult_strict_left_mono) simp_all
  then show "of_int Z < Q" using Z(1) unfolding QA by linarith
  have "A * (2 ^ 62 / Q) / p \<le> A * (of_int r + l) / p" using r(2) A p0 by (intro divide_right_mono mult_left_mono) simp_all
  then have "Q \<le> A * of_int r / p + l * (A / p)" unfolding QA by (simp add: distrib_left add_divide_distrib mult.commute)
  moreover have "A / p = (Q / 2 ^ 31) ^ 2" unfolding power_divide Q2 p_def using o by (cases oddExpA) simp_all
  ultimately show "Q < of_int Z + 1 + l * (Q / 2 ^ 31) ^ 2" using Z(2) by simp
qed

text \<open>The estimate of the double: one Newton step from the root of the upper half.\<close>

lemma sqrt_first_close:
  fixes u c :: real
  assumes u: "1 / 2 \<le> u" "u \<le> 1" and c: "c \<le> 1 / 8 \<or> c \<le> 1 / 4 \<and> 7 / 10 \<le> u"
  shows "1 + 21 / 10 * u ^ 2 + c / u < 356 / 100 * u"
proof -
  have "21 / 10 * u ^ 3 - 356 / 100 * u ^ 2 + u + c < 0"
    using c
  proof
    assume c: "c \<le> 1 / 8"
    have "(u - 1 / 2) * (21 / 10 * (u * (1 - u)) + 41 / 100 * u + 255 / 1000) \<ge> 0"
      using u by (intro mult_nonneg_nonneg add_nonneg_nonneg) simp_all
    moreover have "(u - 1 / 2) * (21 / 10 * (u * (1 - u)) + 41 / 100 * u + 255 / 1000) =
      - (21 / 10 * u ^ 3 - 356 / 100 * u ^ 2 + u) - 1275 / 10000"
      by (simp add: power2_eq_square power3_eq_cube field_simps)
    ultimately show ?thesis using c by linarith
  next
    assume c: "c \<le> 1 / 4 \<and> 7 / 10 \<le> u"
    have "(u - 7 / 10) * (21 / 10 * (u * (1 - u)) + (463 / 1000 - u / 100)) \<ge> 0"
      using u c by (intro mult_nonneg_nonneg add_nonneg_nonneg) simp_all
    moreover have "(u - 7 / 10) * (21 / 10 * (u * (1 - u)) + (463 / 1000 - u / 100)) =
      - (21 / 10 * u ^ 3 - 356 / 100 * u ^ 2 + u) - 3241 / 10000"
      by (simp add: power2_eq_square power3_eq_cube field_simps)
    ultimately show ?thesis using c by linarith
  qed
  then show ?thesis using u by (simp add: field_simps power2_eq_square power3_eq_cube)
qed

text \<open>The real arithmetic of the step, with \<open>u\<close> the root over \<open>2 ^ 31\<close> and \<open>e\<close> the error of the first root.\<close>

lemma sqrt_newton_upper:
  fixes Q Q0 e :: real
  assumes Q: "2 ^ 30 \<le> Q0" "Q0 \<le> Q" "Q - Q0 \<le> 1 / 2"
  shows "2 ^ 31 * (e * (2 * Q - e)) / Q0 < 2 ^ 32 * e + 1"
proof -
  define g where "g = Q - Q0"
  have g: "0 \<le> g" "g \<le> 1 / 2" using Q by (simp_all add: g_def)
  have "g * g \<le> 1 / 2 * (1 / 2)" using g by (intro mult_mono) simp_all
  moreover have "0 \<le> (g - e) * (g - e)" by simp
  then have "e * (2 * g - e) \<le> g * g" by (simp add: algebra_simps)
  ultimately have "e * (2 * g - e) \<le> 1 / 4" by simp
  then have "2 ^ 31 * (e * (2 * g - e)) \<le> 2 ^ 31 * (1 / 4)" by (rule mult_left_mono) simp
  then have "2 ^ 31 * (e * (2 * g - e)) < Q0" using Q(1) by simp
  moreover have "2 ^ 31 * (e * (2 * Q - e)) = 2 ^ 32 * e * Q0 + 2 ^ 31 * (e * (2 * g - e))"
    by (simp add: g_def algebra_simps)
  ultimately show ?thesis using Q(1) by (simp add: field_simps)
qed

lemma sqrt_newton_lower:
  fixes Q Q0 e :: real
  assumes Q: "2 ^ 30 \<le> Q0" "Q0 \<le> Q" "Q < 2 ^ 31" and e: "0 < e" "e < 356 / 100 * (Q0 / 2 ^ 31)" "e \<le> Q"
  defines "R \<equiv> e * (2 * Q - e)"
  shows "2 ^ 32 * e < 2 ^ 31 * R / Q0 - 42 / 10 * R / 2 ^ 32 - 6 * (2 ^ 62 / Q0) / 2 ^ 32 - 8 + 40"
proof -
  define u where "u = Q0 / 2 ^ 31"
  have u: "1 / 2 \<le> u" "u \<le> 1" "Q0 = u * 2 ^ 31" using Q by (simp_all add: u_def)
  have R: "0 \<le> R" unfolding R_def using e Q by (intro mult_nonneg_nonneg) simp_all
  have "2 ^ 32 * e - e ^ 2 / u \<le> 2 ^ 31 * R / Q0"
  proof -
    have "e * Q0 \<le> e * Q" using e Q by (intro mult_left_mono) simp_all
    then have "2 ^ 32 * e * Q0 - 2 ^ 31 * e ^ 2 \<le> 2 ^ 31 * R" by (simp add: R_def power2_eq_square algebra_simps)
    then have "2 ^ 32 * e * u \<le> R + e ^ 2" using u(3) by simp
    then have "2 ^ 32 * e \<le> (R + e ^ 2) / u" using u by (simp add: pos_le_divide_eq)
    also have "\<dots> = 2 ^ 31 * R / Q0 + e ^ 2 / u" using u by (simp add: add_divide_distrib)
    finally show ?thesis by simp
  qed
  moreover have "e ^ 2 / u \<le> (356 / 100) ^ 2 * u"
  proof -
    have "e ^ 2 \<le> (356 / 100 * u) ^ 2" using e by (intro power_mono) (simp_all add: u_def)
    then show ?thesis using u by (simp add: field_simps power2_eq_square)
  qed
  moreover have "42 / 10 * R / 2 ^ 32 \<le> 42 / 10 * (356 / 100 * u)"
  proof -
    have "R \<le> e * (2 * 2 ^ 31)" unfolding R_def using e Q by (intro mult_left_mono) simp_all
    then show ?thesis using e(2) unfolding u_def [symmetric] by simp
  qed
  moreover have "6 * (2 ^ 62 / Q0) / 2 ^ 32 \<le> 9 - 6 * u"
  proof -
    have "0 \<le> (2 * u - 1) * (1 - u)" using u by simp
    then show ?thesis using u by (simp add: field_simps)
  qed
  ultimately show ?thesis using u(2) by (simp add: power2_eq_square)
qed

lemma sqrt_estimate:
  fixes S :: int
  assumes a: "2 ^ 31 \<le> uint a" and o: "oddExpA < 2"
    and S: "uint a * 2 ^ (30 - oddExpA) \<le> S" "S < (uint a + 1) * 2 ^ (30 - oddExpA)"
  defines "r \<equiv> uint (softfloat_approxRecipSqrt32_1 oddExpA a)"
  defines "Z \<equiv> uint a * r div 2 ^ 32 div 2 ^ oddExpA"
  defines "n \<equiv> (S - Z ^ 2) div 4 * r div 2 ^ 32"
  shows "0 \<le> Z" "Z < 2 ^ 31" "0 \<le> S - Z ^ 2" "S - Z ^ 2 < 2 ^ 34" "0 \<le> n" "n < 2 ^ 32"
    "2 ^ 30 \<le> sqrt (of_int S)" "sqrt (of_int S) < 2 ^ 31"
    "of_int (2 ^ 32 * Z + 8 * n) < 2 ^ 32 * sqrt (of_int S) + 1" "2 ^ 32 * sqrt (of_int S) < of_int (2 ^ 32 * Z + 8 * n) + 40"
    "2 ^ 32 * sqrt (of_int S) \<noteq> of_int (2 ^ 32 * Z + 8 * n)"
proof -
  define A where "A = real_of_int (uint a)"
  have A: "2 ^ 31 \<le> A" "A < 2 ^ 32"
    using a uint_bounds_32 [of a] of_int_le_iff [of "2 ^ 31" "uint a", where 'a = real] of_int_less_iff [of "uint a" "2 ^ 32", where 'a = real]
    by (simp_all add: A_def)
  define Q0 Q where "Q0 = sqrt_scaled oddExpA (of_int (uint a))" and "Q = sqrt (real_of_int S)"
  note first = sqrt_first [OF a o approxRecipSqrt32_1_bound(2) [OF a o], folded r_def, folded Z_def, folded Q0_def]
  have sq: "Q0 ^ 2 = A * 2 ^ (30 - oddExpA)" "Q0 ^ 2 \<le> of_int S" "of_int S < Q0 ^ 2 + 2 ^ (30 - oddExpA)"
  proof -
    show q: "Q0 ^ 2 = A * 2 ^ (30 - oddExpA)" using A by (simp add: Q0_def sqrt_scaled_def A_def)
    have "real_of_int (uint a * 2 ^ (30 - oddExpA)) \<le> of_int S" "real_of_int S < of_int ((uint a + 1) * 2 ^ (30 - oddExpA))"
      unfolding of_int_le_iff of_int_less_iff using S by blast+
    then show "Q0 ^ 2 \<le> of_int S" "of_int S < Q0 ^ 2 + 2 ^ (30 - oddExpA)" unfolding q A_def by (simp_all add: algebra_simps)
  qed
  have S0: "0 \<le> real_of_int S" using sq(2) zero_le_power2 [of Q0] by linarith
  then have Q2: "Q ^ 2 = of_int S" by (simp add: Q_def)
  have Q0Q: "Q0 \<le> Q" unfolding Q_def using sq(2) by (rule real_le_rsqrt)
  show Q: "2 ^ 30 \<le> sqrt (of_int S)" "sqrt (of_int S) < 2 ^ 31"
  proof -
    show "2 ^ 30 \<le> sqrt (of_int S)" using first(3) Q0Q by (simp add: Q_def)
    have "uint a + 1 \<le> 2 ^ 32" "(2::int) ^ (30 - oddExpA) \<le> 2 ^ 30" using uint_bounds_32 [of a] by (simp_all only: power_increasing_iff) simp_all
    then have "(uint a + 1) * 2 ^ (30 - oddExpA) \<le> 2 ^ 32 * 2 ^ 30" using a by (intro mult_mono) simp_all
    then have "S < 2 ^ 62" using S(2) by simp
    then have "real_of_int S < (2 ^ 31) ^ 2" by simp
    then show "sqrt (of_int S) < 2 ^ 31" by (intro real_less_lsqrt) simp_all
  qed
  define g c where "g = Q - Q0" and "c = (2::real) ^ (30 - oddExpA) / 2 ^ 32"
  have g: "0 \<le> g" "g \<le> 1 / 2" "g < c / (Q0 / 2 ^ 31)"
  proof -
    show "0 \<le> g" using Q0Q by (simp add: g_def)
    then have "g * (2 * Q0) \<le> g * (Q + Q0)" using Q0Q by (intro mult_left_mono) simp_all
    also have "\<dots> = of_int S - Q0 ^ 2" by (simp add: g_def power2_eq_square algebra_simps flip: Q2)
    also have "\<dots> < 2 ^ (30 - oddExpA)" using sq(3) by simp
    finally have h: "g * (2 * Q0) < 2 ^ (30 - oddExpA)" .
    then show "g < c / (Q0 / 2 ^ 31)" using first(3) by (simp add: c_def field_simps)
    have "(2::real) ^ (30 - oddExpA) \<le> 2 ^ 30" by (rule power_increasing) simp_all
    moreover have "g * (2 * 2 ^ 30) \<le> g * (2 * Q0)" using \<open>0 \<le> g\<close> first(3) by (intro mult_left_mono) simp_all
    ultimately have "g * (2 * 2 ^ 30) < 2 ^ 30" using h by linarith
    then show "g \<le> 1 / 2" by simp
  qed
  define e where "e = Q - of_int Z"
  have e: "0 < e" "e < 356 / 100 * (Q0 / 2 ^ 31)"
  proof -
    show "0 < e" using first(5) Q0Q by (simp add: e_def)
    have "c \<le> 1 / 8 \<or> c \<le> 1 / 4 \<and> 7 / 10 \<le> Q0 / 2 ^ 31"
    proof (cases "oddExpA = 0")
      case True
      have "(7 / 10 * 2 ^ 31) ^ 2 \<le> Q0 ^ 2" using first(7) [OF True] by (simp add: power_mult_distrib power_divide)
      then have "7 / 10 * 2 ^ 31 \<le> Q0" by (rule power2_le_imp_le) (use first(3) in simp)
      then show ?thesis using True by (simp add: c_def)
    next
      case False
      then have "oddExpA = 1" using o by simp
      then show ?thesis by (simp add: c_def)
    qed
    from sqrt_first_close [OF _ _ this] first(3,4) have "1 + 21 / 10 * (Q0 / 2 ^ 31) ^ 2 + c / (Q0 / 2 ^ 31) < 356 / 100 * (Q0 / 2 ^ 31)"
      by simp
    then show "e < 356 / 100 * (Q0 / 2 ^ 31)" using first(6) g(3) unfolding e_def g_def by linarith
  qed
  show "0 \<le> Z"
  proof -
    have "0 \<le> r" "0 \<le> uint a" by (simp_all add: r_def)
    then show ?thesis unfolding Z_def by (simp add: pos_imp_zdiv_nonneg_iff)
  qed
  then have eQ: "e \<le> Q" by (simp add: e_def)
  show "Z < 2 ^ 31"
    using first(4,5) of_int_less_iff [of Z "2 ^ 31", where 'a = real] by simp
  define R where "R = e * (2 * Q - e)"
  have R: "of_int (S - Z ^ 2) = R" by (simp add: R_def e_def power2_eq_square algebra_simps flip: Q2)
  have R0: "0 \<le> R" unfolding R_def using e(1) eQ by (intro mult_nonneg_nonneg) simp_all
  then show rem0: "0 \<le> S - Z ^ 2" unfolding R [symmetric] by simp
  show rem: "S - Z ^ 2 < 2 ^ 34"
  proof -
    have "R \<le> e * (2 * 2 ^ 31)" unfolding R_def using e(1) Q by (intro mult_left_mono) (simp_all add: Q_def)
    also have "\<dots> < 4 * (2 * 2 ^ 31)" using e(2) first(4) by simp
    finally have "real_of_int (S - Z ^ 2) < of_int (2 ^ 34)" unfolding R by simp
    then show ?thesis by (simp only: of_int_less_iff)
  qed
  define m where "m = (S - Z ^ 2) div 4"
  have m: "0 \<le> m" "m < 2 ^ 32" using rem0 rem by (simp_all add: m_def pos_imp_zdiv_nonneg_iff int_div_less)
  have r0: "0 \<le> r" "r < 2 ^ 32" using uint_bounds_32 by (simp_all add: r_def)
  show "0 \<le> n" using m r0 by (simp add: n_def m_def [symmetric] pos_imp_zdiv_nonneg_iff)
  have "m * r \<le> 2 ^ 32 * r" using m r0 by (intro mult_right_mono) simp_all
  then have "m * r < 2 ^ 32 * 2 ^ 32" using r0 by simp
  then show "n < 2 ^ 32" unfolding n_def m_def [symmetric] by (intro int_div_less) simp_all
  have nr: "of_int n \<le> of_int m * real_of_int r / 2 ^ 32" "of_int m * real_of_int r / 2 ^ 32 - 1 < of_int n"
    using floor_real_bounds [of "m * r" 32] by (simp_all add: n_def m_def)
  have mr: "of_int m \<le> R / 4" "(R - 3) / 4 \<le> of_int m"
  proof -
    have "4 * m \<le> S - Z ^ 2" "S - Z ^ 2 - 3 \<le> 4 * m" unfolding m_def by linarith+
    then have "real_of_int (4 * m) \<le> of_int (S - Z ^ 2)" "real_of_int (S - Z ^ 2 - 3) \<le> of_int (4 * m)" by (simp_all only: of_int_le_iff)
    moreover have "real_of_int (S - Z ^ 2 - 3) = R - 3" using R by simp
    ultimately show "of_int m \<le> R / 4" "(R - 3) / 4 \<le> of_int m" unfolding R by simp_all
  qed
  define T where "T = 2 ^ 62 / Q0"
  have T: "of_int r < T" "T < of_int r + 21 / 10" "0 \<le> real_of_int r" using first(1,2) r0 by (simp_all add: T_def)
  have TR: "2 * R * T / 2 ^ 32 = 2 ^ 31 * R / Q0" by (simp add: T_def)
  show "of_int (2 ^ 32 * Z + 8 * n) < 2 ^ 32 * sqrt (of_int S) + 1"
  proof -
    have "of_int m * real_of_int r \<le> R / 4 * T" using mr(1) T R0 by (intro mult_mono) simp_all
    then have "of_int (8 * n) \<le> 2 * R * T / 2 ^ 32" using nr(1) by simp
    also have "\<dots> < 2 ^ 32 * e + 1" unfolding TR unfolding R_def using first(3) Q0Q g(2) by (intro sqrt_newton_upper) (simp_all add: g_def)
    finally show ?thesis by (simp add: e_def Q_def)
  qed
  show "2 ^ 32 * sqrt (of_int S) \<noteq> of_int (2 ^ 32 * Z + 8 * n)"
  proof
    assume x: "2 ^ 32 * sqrt (of_int S) = of_int (2 ^ 32 * Z + 8 * n)"
    then have n8: "of_int (8 * n) = 2 ^ 32 * e" by (simp add: e_def Q_def)
    have RT: "0 < R" "0 < T" using e(1) eQ first(3) Q0Q by (simp_all add: R_def T_def)
    have "of_int m * real_of_int r \<le> R / 4 * r" using mr(1) T(3) by (intro mult_right_mono) simp_all
    also have "\<dots> < R / 4 * T" using RT T(1) by simp
    finally have "of_int (8 * n) < 2 * R * T / 2 ^ 32" using nr(1) by simp
    then have "2 ^ 32 * e < 2 ^ 31 * R / Q0" unfolding TR n8 .
    then have "e * (2 * Q0) < e * (2 * Q - e)" using first(3) by (simp add: R_def field_simps)
    then have "2 * Q0 < 2 * Q - e" using e(1) by (simp only: mult_less_cancel_left_pos)
    then have "e < 1" using g(2) by (simp add: g_def)
    moreover have "(2 ^ 32 * Z + 8 * n) ^ 2 = S * (2 ^ 32) ^ 2"
    proof -
      have "real_of_int ((2 ^ 32 * Z + 8 * n) ^ 2) = of_int (S * (2 ^ 32) ^ 2)"
        unfolding of_int_power x [symmetric] by (simp add: power_mult_distrib Q2 [unfolded Q_def])
      then show ?thesis by (simp only: of_int_eq_iff)
    qed
    then have "(2 ^ 32) ^ 2 dvd (2 ^ 32 * Z + 8 * n) ^ 2" by simp
    then have "2 ^ 32 dvd 2 ^ 32 * Z + 8 * n" by (simp only: pow_divides_pow_iff)
    then have "2 ^ 32 dvd 8 * n" by (simp only: dvd_add_right_iff dvd_triv_left)
    then obtain k where k: "8 * n = 2 ^ 32 * k" ..
    then have "of_int k = e" using n8 by simp
    ultimately show False using e(1) by (metis of_int_0_less_iff of_int_less_1_iff zless_imp_add1_zle int_one_le_iff_zero_less not_less)
  qed
  show "2 ^ 32 * sqrt (of_int S) < of_int (2 ^ 32 * Z + 8 * n) + 40"
  proof -
    have "(R - 3) / 4 * of_int r \<le> of_int m * of_int r" using mr(2) T(3) by (intro mult_right_mono) simp_all
    moreover have "R * (T - 21 / 10) \<le> R * of_int r" using T R0 by (intro mult_left_mono) simp_all
    moreover have "3 * real_of_int r \<le> 3 * T" using T by simp
    ultimately have "R * T - 21 / 10 * R - 3 * T \<le> 4 * (of_int m * of_int r)" by (simp add: algebra_simps)
    then have "2 * R * T / 2 ^ 32 - 42 / 10 * R / 2 ^ 32 - 6 * T / 2 ^ 32 - 8 < of_int (8 * n)" using nr(2) by simp
    moreover have "2 ^ 32 * e < 2 * R * T / 2 ^ 32 - 42 / 10 * R / 2 ^ 32 - 6 * T / 2 ^ 32 - 8 + 40"
      unfolding TR unfolding T_def R_def using first(3) Q0Q Q e eQ by (intro sqrt_newton_lower) (simp_all add: Q_def)
    ultimately show ?thesis by (simp add: e_def Q_def)
  qed
qed

section \<open>Double precision\<close>

text \<open>
  The correction: where the low nine bits are below 32 the code clears them and compares the exact
  root with what is left.  It misses the estimates whose low nine bits are exactly 32.
\<close>

definition sqrt_fixup :: "int \<Rightarrow> real \<Rightarrow> int" where
  "sqrt_fixup Z x =
     (if Z mod 512 < 32
      then let Y = Z - Z mod 512 in if x < of_int Y then Y - 1 else if x = of_int Y then Y else Y + 1
      else Z)"

lemma sqrt_fixup_cell:
  assumes x: "of_int (Z - 33) < x" "x < of_int (Z + 8)" and Z: "Z mod 8 = 0" "Z mod 512 \<noteq> 32"
  shows "cell 9 (of_int (sqrt_fixup Z x)) x"
proof -
  define j m where "j = Z div 512" and "m = Z mod 512"
  have Zm: "Z = j * 512 + m" "0 \<le> m" "m < 512" "m \<noteq> 32" "m mod 8 = 0"
    using Z mod_mod_cancel [of 8 512 Z] by (simp_all add: j_def m_def)
  have cb: "cell 9 (of_int n) x" if "i * 512 < n" "n < (i + 1) * 512" "of_int (i * 512) < x" "x < of_int ((i + 1) * 512)" for n i
  proof -
    have "real_of_int (i * 512) < of_int n" "real_of_int n < of_int ((i + 1) * 512)"
      unfolding of_int_less_iff using that by simp_all
    then show ?thesis using that(3,4) by (intro cell_between [of i]) simp_all
  qed
  have between: "of_int i < x" if "i \<le> Z - 33" for i
  proof -
    have "real_of_int i \<le> of_int (Z - 33)" unfolding of_int_le_iff by (rule that)
    then show ?thesis using x(1) by linarith
  qed
  have below: "x < of_int i" if "Z + 8 \<le> i" for i
  proof -
    have "real_of_int (Z + 8) \<le> of_int i" unfolding of_int_le_iff by (rule that)
    then show ?thesis using x(2) by linarith
  qed
  show ?thesis
  proof (cases "m < 32")
    case False
    then have m: "40 \<le> m" "m \<le> 504" using Zm(3-5) by presburger+
    have "of_int (j * 512) < x" "x < of_int ((j + 1) * 512)" by (rule between below; use m Zm(1) in simp)+
    then have "cell 9 (of_int Z) x" using m Zm(1) by (intro cb [of j]) simp_all
    then show ?thesis using False by (simp add: sqrt_fixup_def m_def)
  next
    case True
    define Y where "Y = j * 512"
    have "Z - Z mod 512 = Y" by (simp only: Y_def j_def minus_mod_eq_div_mult)
    then have Y: "Z - Z mod 512 = Y" "Y \<le> Z" "Z < Y + 32" using True Zm(1,2) by (simp_all add: Y_def)
    have b: "of_int (Y - 512) < x" "x < of_int (Y + 512)" by (rule between below; use Y(2,3) in linarith)+
    consider "x < of_int Y" | "x = of_int Y" | "of_int Y < x" by linarith
    then have "cell 9 (of_int (if x < of_int Y then Y - 1 else if x = of_int Y then Y else Y + 1)) x"
    proof cases
      case 1
      then show ?thesis using b by (simp del: of_int_diff of_int_add, intro cb [of "j - 1"]) (simp_all add: Y_def algebra_simps)
    next
      case 2
      then show ?thesis by simp
    next
      case 3
      then have "\<not> x < of_int Y" "x \<noteq> of_int Y" by simp_all
      then show ?thesis using 3 b by (simp del: of_int_diff of_int_add, intro cb [of j]) (simp_all add: Y_def algebra_simps)
    qed
    then show ?thesis using True unfolding sqrt_fixup_def Let_def Y(1) by (simp add: m_def)
  qed
qed

text \<open>The sign bit of a difference read back from a word.\<close>

lemma sign_test64:
  assumes "- (2 ^ 63) < F" "F < 2 ^ 63"
  shows "(word_of_int F :: u64) AND 0x8000000000000000 \<noteq> 0 \<longleftrightarrow> F < 0" "(word_of_int F :: u64) \<noteq> 0 \<longleftrightarrow> F \<noteq> 0"
proof -
  have "F mod 2 ^ 64 = (F + 2 ^ 64) mod 2 ^ 64" by simp
  also have "\<dots> = F + 2 ^ 64" if "F < 0" by (rule mod_pos_pos_trivial) (use assms that in simp_all)
  finally have "uint (word_of_int F :: u64) = (if F < 0 then F + 2 ^ 64 else F)"
    unfolding uint_word_of_int using assms by (cases "F < 0") simp_all
  then show "(word_of_int F :: u64) AND 0x8000000000000000 \<noteq> 0 \<longleftrightarrow> F < 0" "(word_of_int F :: u64) \<noteq> 0 \<longleftrightarrow> F \<noteq> 0"
    unfolding high_bit64 using assms by (auto simp: word_zero_uint)
qed

text \<open>The code's estimate is \<open>Z\<close> and the Newton step of \<open>sqrt_estimate\<close>.\<close>

lemma f64_sqrt_estimate_value:
  fixes expA mA :: int and sigA :: u64
  assumes m: "uint (sigA OR 0x0010000000000000) = mA" "2 ^ 52 \<le> mA" "mA < 2 ^ 53"
  defines "S \<equiv> mA * 2 ^ (9 - nat (expA mod 2))"
  obtains w z where "f64_sqrt_estimate expA sigA = (w, z)" "uint w = S" "uint z mod 8 = 0"
    "2 ^ 30 \<le> sqrt (of_int S)" "sqrt (of_int S) < 2 ^ 31"
    "of_int (uint z - 33) < 2 ^ 32 * sqrt (of_int S)" "2 ^ 32 * sqrt (of_int S) < of_int (uint z + 8)"
    "2 ^ 32 * sqrt (of_int S) \<noteq> of_int (uint z - 32)"
proof -
  define d where "d = nat (expA mod 2)"
  have d: "d < 2" "expA AND 1 = int d" by (simp_all add: d_def and_one_eq)
  define sig where "sig = sigA OR 0x0010000000000000"
  define a where "a = (ucast (drop_bit 21 sig) :: u32)"
  define rs where "rs = softfloat_approxRecipSqrt32_1 d a"
  define zz where "zz = (ucast (drop_bit 32 (ucast a * ucast rs :: u64)) :: u32)"
  define w where "w = (if d \<noteq> 0 then push_bit 8 sig else push_bit 9 sig)"
  define z32 where "z32 = (if d \<noteq> 0 then drop_bit 1 zz else zz)"
  define rm where "rm = w - ucast z32 * ucast z32"
  define q where "q = (ucast (drop_bit 32 (ucast (ucast (drop_bit 2 rm) :: u32) * ucast rs :: u64)) :: u32)"
  define z where "z = (push_bit 32 (ucast z32) OR push_bit 5 1) + (push_bit 3 (ucast q) :: u64)"
  have code: "f64_sqrt_estimate expA sigA = (w, z)"
    unfolding f64_sqrt_estimate_def Let_def d(2) nat_int of_nat_eq_0_iff sig_def [symmetric] a_def [symmetric] rs_def [symmetric]
      zz_def [symmetric]
    by (cases "d = 0") (simp_all add: z_def q_def rm_def z32_def w_def del: push_bit_of_1)
  have a: "uint a = mA div 2 ^ 21"
  proof -
    have "mA div 2 ^ 21 < 2 ^ 32" using m(3) by (intro int_div_less) simp_all
    moreover have "0 \<le> mA div 2 ^ 21" using m(2) by (simp add: pos_imp_zdiv_nonneg_iff)
    ultimately show ?thesis
      unfolding a_def uint_ucast_64_32 uint_drop_bit_div sig_def m(1) by (intro mod_pos_pos_trivial)
  qed
  have "(2::int) ^ 52 div 2 ^ 21 \<le> mA div 2 ^ 21" using m(2) by (intro zdiv_mono1) simp_all
  then have a31: "2 ^ 31 \<le> uint a" unfolding a by simp
  have S: "S = mA * 2 ^ (9 - d)" by (simp add: S_def d_def)
  have Sa: "uint a * 2 ^ (30 - d) \<le> S" "S < (uint a + 1) * 2 ^ (30 - d)"
  proof -
    have p: "(2::int) ^ (30 - d) = 2 ^ 21 * 2 ^ (9 - d)" using d(1) by (cases d) simp_all
    have "mA div 2 ^ 21 * 2 ^ 21 \<le> mA" "mA < (mA div 2 ^ 21 + 1) * 2 ^ 21" by (intro div_bounds; simp)+
    then show "uint a * 2 ^ (30 - d) \<le> S" "S < (uint a + 1) * 2 ^ (30 - d)"
      unfolding a S p mult.assoc [symmetric] by (simp_all only: mult_right_mono mult_strict_right_mono zero_less_power zero_le_power zero_less_numeral zero_le_numeral)
  qed
  define Z n where "Z = uint a * uint rs div 2 ^ 32 div 2 ^ d" and "n = (S - Z ^ 2) div 4 * uint rs div 2 ^ 32"
  note est = sqrt_estimate [OF a31 d(1) Sa, folded rs_def, folded Z_def, folded n_def]
  have w: "uint w = S"
  proof -
    have w': "w = push_bit (9 - d) sig" using d(1) by (cases d) (simp_all add: w_def)
    have "mA * 2 ^ (9 - d) \<le> mA * 2 ^ 9" using m(2) by (intro mult_left_mono power_increasing) simp_all
    also have "\<dots> < 2 ^ LENGTH(64)" using m(3) by simp
    finally show ?thesis unfolding w' S using d(1) by (subst uint_push_bit_small) (simp_all add: sig_def m(1))
  qed
  have zz: "uint zz = uint a * uint rs div 2 ^ 32" unfolding zz_def by (simp only: uint_halves(1) uint_mul32)
  have z32: "uint z32 = Z"
    unfolding z32_def Z_def zz [symmetric] using d(1) by (cases d) (simp_all add: uint_drop_bit_div)
  have "uint (ucast z32 * ucast z32 :: u64) = Z ^ 2" by (simp only: uint_mul32 z32 power2_eq_square)
  then have rm: "uint rm = S - Z ^ 2"
    unfolding rm_def using est(3) w by (subst uint_sub_lem [THEN iffD1]) simp_all
  have q: "uint q = n"
  proof -
    have "(S - Z ^ 2) div 4 < 2 ^ 32" "0 \<le> (S - Z ^ 2) div 4" using est(3,4) by (auto intro: int_div_less simp: pos_imp_zdiv_nonneg_iff)
    then have "uint (ucast (drop_bit 2 rm) :: u32) = (S - Z ^ 2) div 4" by (simp add: uint_ucast_64_32 uint_drop_bit_div rm)
    then show ?thesis unfolding q_def n_def by (simp only: uint_halves(1) uint_mul32)
  qed
  have z: "uint z = 2 ^ 32 * Z + 32 + 8 * n"
  proof -
    have "push_bit 32 (ucast z32) AND push_bit 5 1 = (0 :: u64)"
      by (rule bit_eqI) (auto simp only: bit_and_iff bit_push_bit_iff bit_1_iff bit_0_eq)
    then have "uint (push_bit 32 (ucast z32) OR push_bit 5 1 :: u64) = uint (push_bit 32 (ucast z32) :: u64) + 32"
      by (simp add: uint_or_disjoint)
    moreover have "uint (push_bit 32 (ucast z32) :: u64) = Z * 2 ^ 32" using est(1,2) by (subst uint_push_bit_small) (simp_all add: z32)
    moreover have "uint (push_bit 3 (ucast q) :: u64) = n * 2 ^ 3" using est(5,6) by (subst uint_push_bit_small) (simp_all add: q)
    ultimately show ?thesis unfolding z_def using est(1,2,5,6) by (subst uint_add_lem [THEN iffD1]) simp_all
  qed
  have "uint z = 8 * (2 ^ 29 * Z + 4 + n)" unfolding z by simp
  then have "uint z mod 8 = 0" by simp
  note z8 = this
  have "of_int (uint z - 33) < 2 ^ 32 * sqrt (of_int S)" "2 ^ 32 * sqrt (of_int S) < of_int (uint z + 8)"
    "2 ^ 32 * sqrt (of_int S) \<noteq> of_int (uint z - 32)"
    unfolding z using est(9-11) by simp_all
  from that [OF code w z8 est(7,8) this] show thesis .
qed

text \<open>The correction compares squares: the sign of the word \<open>rem\<close> is that of \<open>x - Y\<close>.\<close>

lemma f64_sqrt_rem:
  fixes S k :: int and w c :: u64 and x :: real
  assumes w: "uint w = S" "uint c = k" and x: "0 < x" "x < 2 ^ 63" "x ^ 2 = of_int S * 2 ^ 64"
    and Y: "\<bar>x - of_int (64 * k)\<bar> < 40"
  defines "rem \<equiv> push_bit 52 w - c * c"
  shows "rem AND 0x8000000000000000 \<noteq> 0 \<longleftrightarrow> x < of_int (64 * k)" "rem \<noteq> 0 \<longleftrightarrow> x \<noteq> of_int (64 * k)"
proof -
  define F where "F = S * 2 ^ 52 - k * k"
  define y where "y = real_of_int (64 * k)"
  have k: "0 \<le> k" using w(2) by auto
  then have y: "0 \<le> y" "y < 2 ^ 64" using Y x(2) by (simp_all add: y_def)
  have d: "(x - y) * (x + y) = 2 ^ 12 * of_int F"
    using x(3) by (simp add: F_def y_def power2_eq_square algebra_simps)
  have "\<bar>(x - y) * (x + y)\<bar> \<le> 40 * 2 ^ 65"
    unfolding abs_mult using x y Y [folded y_def] by (intro mult_mono) simp_all
  then have "\<bar>real_of_int F\<bar> < of_int (2 ^ 63)" unfolding d by (simp add: abs_mult)
  then have F: "- (2 ^ 63) < F" "F < 2 ^ 63" by linarith+
  have "rem = word_of_int F"
    unfolding rem_def F_def word_uint_eq_iff uint_word_of_int
    by (simp only: uint_word_ariths uint_push_bit_mod w mod_simps)
  then have t: "rem AND 0x8000000000000000 \<noteq> 0 \<longleftrightarrow> F < 0" "rem \<noteq> 0 \<longleftrightarrow> F \<noteq> 0" using sign_test64 [OF F] by simp_all
  have p: "0 < x + y" using x y by simp
  have "F < 0 \<longleftrightarrow> (x - y) * (x + y) < 0" "F \<noteq> 0 \<longleftrightarrow> (x - y) * (x + y) \<noteq> 0" unfolding d by simp_all
  then have "F < 0 \<longleftrightarrow> x < y" "F \<noteq> 0 \<longleftrightarrow> x \<noteq> y" using p by (simp_all add: mult_less_0_iff)
  then show "rem AND 0x8000000000000000 \<noteq> 0 \<longleftrightarrow> x < of_int (64 * k)" "rem \<noteq> 0 \<longleftrightarrow> x \<noteq> of_int (64 * k)"
    unfolding t y_def by simp_all
qed

lemma f64_sqrt_sig_cell:
  fixes expA mA :: int and sigA :: u64
  assumes m: "uint (sigA OR 0x0010000000000000) = mA" "2 ^ 52 \<le> mA" "mA < 2 ^ 53"
    and n: "snd (f64_sqrt_estimate expA sigA) AND 0x1FF \<noteq> 0x20"
  defines "x \<equiv> 2 ^ 32 * sqrt (of_int (mA * 2 ^ (9 - nat (expA mod 2))))"
  shows "cell 9 (of_int (uint (f64_sqrt_sig expA sigA))) x" "2 ^ 62 \<le> x" "x < 2 ^ 63"
proof -
  obtain w z where e: "f64_sqrt_estimate expA sigA = (w, z)" and w: "uint w = mA * 2 ^ (9 - nat (expA mod 2))" and z8: "uint z mod 8 = 0"
    and x1: "2 ^ 30 \<le> sqrt (of_int (mA * 2 ^ (9 - nat (expA mod 2))))" "sqrt (of_int (mA * 2 ^ (9 - nat (expA mod 2)))) < 2 ^ 31"
    and x2: "of_int (uint z - 33) < x" "x < of_int (uint z + 8)"
    using m unfolding x_def by (rule f64_sqrt_estimate_value)
  define S where "S = mA * 2 ^ (9 - nat (expA mod 2))"
  show x: "2 ^ 62 \<le> x" "x < 2 ^ 63" using x1 by (simp_all add: x_def)
  have "0 \<le> real_of_int S" using m(2) by (simp add: S_def)
  then have xx: "x ^ 2 = of_int S * 2 ^ 64" unfolding x_def S_def [symmetric] by (simp add: power_mult_distrib)
  have zm: "uint (z AND 0x1FF) = uint z mod 512"
  proof -
    have "(0x1FF :: u64) = mask 9" by (simp add: mask_eq_exp_minus_1)
    then show ?thesis by (simp only: uint_and_mask) simp
  qed
  define W where "W = f64_sqrt_sig expA sigA"
  define sY where "sY = z AND NOT 0x3F"
  define rm where "rm = push_bit 52 w - drop_bit 6 sY * drop_bit 6 sY"
  have code: "W = (if uint z mod 512 < 32 then if rm AND 0x8000000000000000 \<noteq> 0 then sY - 1 else if rm \<noteq> 0 then sY OR 1 else sY else z)"
  proof -
    have "z AND 0x1FF < push_bit 5 1 \<longleftrightarrow> uint z mod 512 < 32" unfolding word_less_def zm by simp
    then show ?thesis unfolding W_def f64_sqrt_sig_def e prod.case Let_def sY_def rm_def by (simp only:)
  qed
  have "uint W = sqrt_fixup (uint z) x"
  proof (cases "uint z mod 512 < 32")
    case False
    then show ?thesis by (simp add: code sqrt_fixup_def)
  next
    case True
    define k where "k = uint z div 64"
    have Yk: "uint z - uint z mod 512 = 64 * k" "uint z mod 512 = uint z mod 64"
    proof -
      have "uint z mod 512 mod 64 = uint z mod 64" by (rule mod_mod_cancel) simp
      then show "uint z mod 512 = uint z mod 64" using True by simp
      then show "uint z - uint z mod 512 = 64 * k" unfolding k_def by (simp add: minus_mod_eq_mult_div)
    qed
    have sY: "uint sY = 64 * k" unfolding sY_def k_def using uint_clear_low [of 6 z] by (simp add: push_bit_eq_mult)
    have "uint (drop_bit 6 sY) = k" by (simp add: uint_drop_bit_div sY)
    moreover have z: "64 * k \<le> uint z" "uint z < 64 * k + 32" using Yk True pos_mod_sign [of 512 "uint z"] by linarith+
    have "real_of_int (64 * k - 33) < x" "x < of_int (64 * k + 40)"
    proof -
      have "real_of_int (64 * k - 33) \<le> of_int (uint z - 33)" "real_of_int (uint z + 8) \<le> of_int (64 * k + 40)"
        unfolding of_int_le_iff using z by simp_all
      then show "real_of_int (64 * k - 33) < x" "x < of_int (64 * k + 40)" using x2 by linarith+
    qed
    then have b: "\<bar>x - of_int (64 * k)\<bar> < 40" by auto
    ultimately have t: "rm AND 0x8000000000000000 \<noteq> 0 \<longleftrightarrow> x < of_int (64 * k)" "rm \<noteq> 0 \<longleftrightarrow> x \<noteq> of_int (64 * k)"
      using f64_sqrt_rem [OF w, folded S_def, of "drop_bit 6 sY" k x] x xx unfolding rm_def by simp_all
    have "uint (sY - 1) = 64 * k - 1"
    proof -
      have "real_of_int 1 \<le> of_int (64 * k)" using b x(1) by simp
      then have "1 \<le> 64 * k" unfolding of_int_le_iff .
      then show ?thesis by (subst uint_sub_lem [THEN iffD1]) (simp_all add: sY)
    qed
    moreover have "uint (sY OR 1) = 64 * k + 1" by (simp add: uint_or_one sY)
    ultimately show ?thesis unfolding code sqrt_fixup_def Let_def t Yk(1) using True sY by simp
  qed
  moreover have "uint z mod 512 \<noteq> 32"
  proof
    assume "uint z mod 512 = 32"
    then have "z AND 0x1FF = 0x20" unfolding word_uint_eq_iff zm by simp
    then show False using n unfolding e by simp
  qed
  ultimately show "cell 9 (of_int (uint (f64_sqrt_sig expA sigA))) x"
    using sqrt_fixup_cell [OF x2 z8] unfolding W_def by simp
qed

text \<open>
  The operands whose estimate lands on the boundary the correction misses; for the others the
  result is the correctly rounded root.
\<close>

definition f64_sqrt_boundary :: "float64 \<Rightarrow> bool" where
  "f64_sqrt_boundary a \<longleftrightarrow> (let (expA, sigA) = f64_norm a in snd (f64_sqrt_estimate expA sigA) AND 0x1FF = 0x20)"

definition f64_sqrt_spec :: "float64 \<Rightarrow> sf_state \<Rightarrow> float64 \<times> sf_state" where
  "f64_sqrt_spec a st =
     (if isNaNF64UI a then softfloat_propagateNaNF64UI a 0 st
      else if f64_mag a = 0 then (a, st)
      else if signF64UI a then (defaultNaNF64UI, softfloat_raiseFlags softfloat_flag_invalid st)
      else if f64_isInf a then (a, st)
      else f64_round st False (sqrt (f64_val a)))"

lemma sqrt_exponent:
  fixes e bias :: int
  assumes "odd bias"
  shows "2 * ((e - bias) div 2) = e - bias - 1 + e mod 2"
  using assms by presburger

lemma sqrt_power:
  fixes m k :: int and d :: nat
  assumes "0 \<le> m"
  shows "sqrt (of_int (m * 2 ^ d)) * 2 powi k = sqrt (of_int m * 2 powi (2 * k + int d))"
proof -
  have "(sqrt (of_int (m * 2 ^ d)) * 2 powi k) ^ 2 = of_int m * 2 ^ d * (2 powi k * 2 powi k)"
    using assms by (simp add: power_mult_distrib power2_eq_square)
  also have "2 powi k * 2 powi k = (2 :: real) powi (2 * k)"
    unfolding powi_add [symmetric] by simp
  also have "of_int m * 2 ^ d * 2 powi (2 * k) = (of_int m :: real) * 2 powi (2 * k + int d)"
    by (simp add: powi_add)
  finally have "sqrt (of_int m * 2 powi (2 * k + int d)) = \<bar>sqrt (of_int (m * 2 ^ d)) * 2 powi k\<bar>"
    by (metis real_sqrt_abs)
  also have "\<dots> = sqrt (of_int (m * 2 ^ d)) * 2 powi k" using assms by simp
  finally show ?thesis ..
qed

lemma f64_sqrt_code:
  assumes "f64_finite a" "f64_mag a \<noteq> 0" "\<not> signF64UI a" "f64_norm a = (eA, sA)"
  shows "f64_sqrt a st = softfloat_roundPackToF64 False (drop_bit 1 (eA - 0x3FF) + 0x3FE) (f64_sqrt_sig eA sA) st"
proof -
  have "(expF64UI a = 2047) = False" "(expF64UI a = 0 \<and> fracF64UI a = 0) = False" "signF64UI a = False"
    using assms(1-3) unfolding f64_class_fields by simp_all
  then show ?thesis unfolding f64_sqrt_def Let_def f64_norm_def [symmetric] assms(4) prod.case by (simp only: if_False)
qed

text \<open>The root of the operand, read at the scale of the significand.\<close>

lemma f64_sqrt_scaled:
  assumes "\<not> signF64UI a" "f64_abs a = of_int mA * 2 powi (eA - 1075)" "0 \<le> mA"
  shows "fp_scaled 52 1023 9 (drop_bit 1 (eA - 0x3FF) + 0x3FE) (2 ^ 32 * sqrt (of_int (mA * 2 ^ (9 - nat (eA mod 2))))) = sqrt (f64_val a)"
proof -
  define e where "e = drop_bit 1 (eA - 0x3FF) + 0x3FE"
  have e: "2 * e = eA + 1020 + eA mod 2"
    using sqrt_exponent [of 1023 eA] by (simp add: e_def drop_bit_int_def)
  define d where "d = nat (eA mod 2)"
  have d: "int d = eA mod 2" "d < 2" by (simp_all add: d_def)
  have "fp_scaled 52 1023 9 e (2 ^ 32 * sqrt (of_int (mA * 2 ^ (9 - d)))) = sqrt (of_int (mA * 2 ^ (9 - d))) * (2 ^ 32 * 2 powi (e - 1084))"
    by (simp add: fp_scaled_def)
  also have "2 ^ 32 * 2 powi (e - 1084) = (2 :: real) powi (e - 1052)"
    using powi_add [of 32 "e - 1084"] by simp
  also have "sqrt (of_int (mA * 2 ^ (9 - d))) * 2 powi (e - 1052) = sqrt (of_int mA * 2 powi (2 * (e - 1052) + int (9 - d)))"
    using assms(3) by (intro sqrt_power) simp
  also have "2 * (e - 1052) + int (9 - d) = eA - 1075" using e d by simp
  also have "of_int mA * 2 powi (eA - 1075) = f64_val a" using assms(1) by (simp add: f64_val_def assms(2))
  finally show ?thesis by (simp only: e_def d_def)
qed

lemma f64_sqrt_finite:
  assumes a: "f64_finite a" "f64_mag a \<noteq> 0" "\<not> signF64UI a" and n: "\<not> f64_sqrt_boundary a"
  shows "f64_sqrt a st = f64_round st False (sqrt (f64_val a))"
proof -
  obtain eA sA mA where A: "f64_norm a = (eA, sA)" "uint (sA OR 0x0010000000000000) = mA" "2 ^ 52 \<le> mA" "mA < 2 ^ 53"
    "- 51 \<le> eA" "eA \<le> 2046" "f64_abs a = of_int mA * 2 powi (eA - 1075)" using a(1,2) by (rule f64_norm_value)
  define e where "e = drop_bit 1 (eA - 0x3FF) + 0x3FE"
  have e: "2 * e = eA + 1020 + eA mod 2"
    using sqrt_exponent [of 1023 eA] by (simp add: e_def drop_bit_int_def)
  define x where "x = 2 ^ 32 * sqrt (of_int (mA * 2 ^ (9 - nat (eA mod 2))))"
  have "snd (f64_sqrt_estimate eA sA) AND 0x1FF \<noteq> 0x20" using n by (simp add: f64_sqrt_boundary_def A(1))
  note cell = f64_sqrt_sig_cell [OF A(2-4) this, folded x_def]
  have b: "2 ^ 62 \<le> uint (f64_sqrt_sig eA sA)" "uint (f64_sqrt_sig eA sA) < 2 ^ 63"
    using cell_ge [OF cell(1), of "2 ^ 53"] cell_less [OF cell(1), of "2 ^ 54"] cell(2,3) by simp_all
  have "f64_sqrt a st = softfloat_roundPackToF64 False e (f64_sqrt_sig eA sA) st"
    unfolding e_def using a A(1) by (rule f64_sqrt_code)
  also have "\<dots> = f64_round st False (fp_scaled 52 1023 9 e x)"
    using cell(1) b A(5,6) e by (intro roundPackToF64_refines) simp_all
  also have "fp_scaled 52 1023 9 e x = sqrt (f64_val a)"
    unfolding e_def x_def using a(3) A(3,7) by (intro f64_sqrt_scaled) simp_all
  finally show ?thesis .
qed

lemma f64_sqrt_special:
  assumes "\<not> (f64_finite a \<and> f64_mag a \<noteq> 0 \<and> \<not> signF64UI a)"
  shows "f64_sqrt a st = f64_sqrt_spec a st"
proof (cases a rule: f64_class_cases1)
  case main
  then show ?thesis using assms by (auto simp: f64_sqrt_def f64_sqrt_spec_def Let_def f64_class_fields(1,3,4) isNaNF64UI_int)
qed (simp_all add: f64_sqrt_def f64_sqrt_spec_def Let_def f64_class_fields(1,3,4) isNaNF64UI_int)

lemma f64_sqrt_spec_finite:
  "f64_finite a \<Longrightarrow> f64_mag a \<noteq> 0 \<Longrightarrow> \<not> signF64UI a \<Longrightarrow> f64_sqrt_spec a st = f64_round st False (sqrt (f64_val a))"
  using f64_finite_not [of a] by (simp add: f64_sqrt_spec_def)

theorem f64_sqrt_refines:
  assumes "\<not> f64_sqrt_boundary a"
  shows "f64_sqrt a st = f64_sqrt_spec a st"
  using f64_sqrt_special f64_sqrt_finite [OF _ _ _ assms] f64_sqrt_spec_finite by metis

lemma sqrt_example_spec:
  "f64_sqrt_spec 0x3FF26D08B93E38A6 softfloat_state_init =
     (0x3FF12B900E0FD5D2, softfloat_raiseFlags softfloat_flag_inexact softfloat_state_init)"
  unfolding f64_sqrt_spec_def sqrt_example_root
  by (simp add: f64_class_fields(1,4) isNaNF64UI_def expF64UI_def fracF64UI_def signF64UI_def)

lemma two_off_boundary: "\<not> f64_sqrt_boundary 0x4000000000000000"
proof -
  have "softfloat_approxRecipSqrt32_1 0 0x80000000 = 0xB504F333"
    by (simp add: softfloat_approxRecipSqrt32_1_def approxRecipSqrt_k0s_def approxRecipSqrt_k1s_def Let_def)
  then show ?thesis
    by (simp add: f64_sqrt_boundary_def f64_norm_def expF64UI_def fracF64UI_def f64_sqrt_estimate_def Let_def)
qed

section \<open>The operands that are rounded wrongly\<close>

text \<open>
  For an estimate whose low nine bits are 32 the boundary is \<open>512 * j\<close>, and the code never learns
  whether the root is below it.  With \<open>S\<close> the shifted operand the root is \<open>2 ^ 32 * sqrt S\<close>, so
  that it is below the boundary when \<open>S * 2 ^ 46 < j ^ 2\<close>.  An odd \<open>j\<close> is a tie of the modes to
  nearest, an even \<open>j\<close> a double.
\<close>

definition f64_sqrt_missed :: "u8 \<Rightarrow> float64 \<Rightarrow> bool" where
  "f64_sqrt_missed rm a \<longleftrightarrow> f64_finite a \<and> f64_mag a \<noteq> 0 \<and> \<not> signF64UI a \<and>
     (let (expA, sigA) = f64_norm a; (S, z) = f64_sqrt_estimate expA sigA; j = uint z div 512
      in uint z mod 512 = 32 \<and> uint S * 2 ^ 46 < j ^ 2 \<and>
         (if rm = softfloat_round_near_even \<or> rm = softfloat_round_near_maxMag then odd j else even j))"

lemma f64_sqrt_missed_boundary: "f64_sqrt_missed rm a \<Longrightarrow> f64_sqrt_boundary a"
proof -
  assume "f64_sqrt_missed rm a"
  then obtain eA sA w z where z: "f64_norm a = (eA, sA)" "f64_sqrt_estimate eA sA = (w, z)" "uint z mod 512 = 32"
    by (auto simp: f64_sqrt_missed_def Let_def split: prod.splits)
  have "uint (z AND mask 9) = 32" using z(3) by (simp only: uint_and_mask) simp
  then have "z AND 0x1FF = 0x20" by (simp add: word_uint_eq_iff mask_eq_exp_minus_1)
  then show ?thesis by (simp add: f64_sqrt_boundary_def z)
qed

lemma round_int_step:
  "round_int 10 rm False (512 * j + 32) = round_int 10 rm False (512 * j - 1) +
     of_bool (if rm = softfloat_round_near_even \<or> rm = softfloat_round_near_maxMag then odd j else even j)"
proof -
  define c :: "int \<Rightarrow> int" where "c k = (if even j then k else 512 + k)" for k
  define i where "i = j div 2"
  have j: "512 * j + k = 1024 * i + c k" for k by (cases "even j") (auto simp: i_def c_def elim!: evenE oddE)
  have d: "(1024 * i + k) div 1024 = i + k div 1024" "(1024 * i + k) mod 1024 = k mod 1024" for k
    by (simp_all add: add.commute)
  have m: "(1024 * i - 1) div 1024 = i - 1" "(1024 * i - 1) mod 1024 = 1023" using d [of "- 1"] by simp_all
  have "512 * j - 1 = 1024 * i + c (- 1)" using j [of "- 1"] by simp
  then show ?thesis
    unfolding round_int_def round_incr_def Let_def j [of 32] add.assoc
    by (cases "even j") (simp_all add: d m c_def add.assoc)
qed

text \<open>A significand between multiples of 512 rounds as its cell, with the inexact flag.\<close>

lemma f64_round_inexact:
  assumes "cell 9 (of_int n) x" "0 \<le> e" "e < 2045" "2 ^ 62 \<le> n" "n < 2 ^ 63" "n mod 1024 \<noteq> 0"
  shows "f64_round st False (fp_scaled 52 1023 9 e x) =
    (word_of_int (e * 2 ^ 52 + round_int 10 (softfloat_roundingMode st) False n), softfloat_raiseFlags softfloat_flag_inexact st)"
proof -
  have n: "2 ^ (52 + 9 + 1) \<le> n" "n < 2 ^ (52 + 9 + 2)" using assms(4,5) by simp_all
  have r: "round_int 10 rm False n \<le> 2 ^ 53" for rm
  proof -
    have "real_of_int n / 2 ^ Suc 9 \<le> of_int (2 ^ 53)" using assms(5) by simp
    then have "rnd rm False (real_of_int n / 2 ^ Suc 9) \<le> 2 ^ 53" by (rule rnd_mono_int(2))
    then show ?thesis unfolding rnd_round_int by simp
  qed
  have "e * 2 ^ 52 + round_int 10 (softfloat_roundingMode st) False n < 2047 * 2 ^ 52"
    using r [of "softfloat_roundingMode st"] assms(3) by simp
  then show ?thesis
    using b64.round_normal [OF assms(1,2) n] assms(6)
    by (simp add: f64_round_def fp_round_mag_def fp_round_flags_def Let_def)
qed

lemma f64_sqrt_exact_finite:
  assumes a: "f64_finite a" "f64_mag a \<noteq> 0" "\<not> signF64UI a" and b: "f64_sqrt_boundary a"
  shows "f64_sqrt a st = (let (r, st') = f64_round st False (sqrt (f64_val a))
    in (if f64_sqrt_missed (softfloat_roundingMode st) a then r + 1 else r, st'))"
proof -
  obtain eA sA mA where A: "f64_norm a = (eA, sA)" "uint (sA OR 0x0010000000000000) = mA" "2 ^ 52 \<le> mA" "mA < 2 ^ 53"
    "- 51 \<le> eA" "eA \<le> 2046" "f64_abs a = of_int mA * 2 powi (eA - 1075)" using a(1,2) by (rule f64_norm_value)
  define e where "e = drop_bit 1 (eA - 0x3FF) + 0x3FE"
  have e: "2 * e = eA + 1020 + eA mod 2"
    using sqrt_exponent [of 1023 eA] by (simp add: e_def drop_bit_int_def)
  define S where "S = mA * 2 ^ (9 - nat (eA mod 2))"
  define x where "x = 2 ^ 32 * sqrt (of_int S)"
  obtain w z where z: "f64_sqrt_estimate eA sA = (w, z)" "uint w = S"
    and x1: "2 ^ 30 \<le> sqrt (of_int S)" "sqrt (of_int S) < 2 ^ 31"
    and x2: "of_int (uint z - 33) < x" "x < of_int (uint z + 8)" "x \<noteq> of_int (uint z - 32)"
    using A(2-4) unfolding x_def S_def by (rule f64_sqrt_estimate_value)
  have z32: "uint z mod 512 = 32"
  proof -
    have "z AND 0x1FF = 0x20" using b by (simp add: f64_sqrt_boundary_def A(1) z(1))
    then have "uint (z AND mask 9) = 32" by (simp add: mask_eq_exp_minus_1)
    then show ?thesis by (simp only: uint_and_mask) simp
  qed
  define j where "j = uint z div 512"
  have zj: "uint z = 512 * j + 32" using z32 unfolding j_def by (metis mult_div_mod_eq)
  have xB: "512 * of_int j - 1 < x" "x < 512 * of_int j + 40" "x \<noteq> 512 * of_int j" using x2 by (simp_all add: zj)
  have xb: "2 ^ 62 \<le> x" "x < 2 ^ 63" using x1 by (simp_all add: x_def)
  have S62: "real_of_int S \<le> 2 ^ 62 - 2 ^ 9"
  proof -
    have "S \<le> (2 ^ 53 - 1) * 2 ^ 9" unfolding S_def using A(3,4) by (intro mult_mono power_increasing) simp_all
    then have "real_of_int S \<le> of_int ((2 ^ 53 - 1) * 2 ^ 9)" by (simp only: of_int_le_iff)
    then show ?thesis by simp
  qed
  have S0: "0 \<le> real_of_int S" using A(3) by (simp add: S_def)
  then have xx: "x ^ 2 = of_int S * 2 ^ 64" by (simp add: x_def power_mult_distrib)
  have x63: "x \<le> 2 ^ 63 - 512"
  proof (rule power2_le_imp_le)
    show "x ^ 2 \<le> (2 ^ 63 - 512) ^ 2" unfolding xx using S62 by simp
  qed simp
  have j0: "0 \<le> j" unfolding j_def by (simp add: pos_imp_zdiv_nonneg_iff)
  have below: "uint w * 2 ^ 46 < j ^ 2 \<longleftrightarrow> x < 512 * of_int j"
  proof -
    have "uint w * 2 ^ 46 < j ^ 2 \<longleftrightarrow> real_of_int (uint w * 2 ^ 46) < of_int (j ^ 2)" by (simp only: of_int_less_iff)
    also have "\<dots> \<longleftrightarrow> x ^ 2 < (512 * of_int j) ^ 2" unfolding xx z(2) by (simp add: power_mult_distrib mult.commute)
    also have "\<dots> \<longleftrightarrow> x < 512 * of_int j"
      using power_strict_mono [of x "512 * of_int j" 2] power2_less_imp_less [of x "512 * of_int j"] j0 xb(1) by auto
    finally show ?thesis .
  qed
  have missed: "f64_sqrt_missed rm a \<longleftrightarrow> x < 512 * of_int j \<and>
      (if rm = softfloat_round_near_even \<or> rm = softfloat_round_near_maxMag then odd j else even j)" for rm
    using a below by (simp add: f64_sqrt_missed_def A(1) z(1) z32 Let_def flip: j_def)
  have sig: "f64_sqrt_sig eA sA = z"
  proof -
    have "z AND 0x1FF = 0x20" using b by (simp add: f64_sqrt_boundary_def A(1) z(1))
    then show ?thesis by (simp add: f64_sqrt_sig_def z(1))
  qed
  have code: "f64_sqrt a st = f64_round st False (fp_scaled 52 1023 9 e y)"
    if "cell 9 (of_int (uint z)) y" "2 ^ 62 \<le> uint z" "uint z < 2 ^ 63" for y
    unfolding f64_sqrt_code [OF a A(1)] sig e_def [symmetric] using that A(5,6) e by (intro roundPackToF64_refines) simp_all
  have val: "fp_scaled 52 1023 9 e x = sqrt (f64_val a)"
    unfolding e_def x_def S_def using a(3) A(3,7) by (intro f64_sqrt_scaled) simp_all
  show ?thesis
  proof (cases "x < 512 * of_int j")
    case False
    then have c: "cell 9 (of_int (uint z)) x" using xB by (intro cell_between [of j]) (simp_all add: zj)
    have "2 ^ 62 \<le> uint z" "uint z < 2 ^ 63"
      using cell_ge [OF c, of "2 ^ 53"] cell_less [OF c, of "2 ^ 54"] xb by simp_all
    then show ?thesis using code [OF c] val missed False by (simp add: case_prod_unfold Let_def)
  next
    case True
    then have c: "cell 9 (of_int (512 * j - 1)) x" using xB by (intro cell_between [of "j - 1"]) (simp_all add: algebra_simps)
    have "real_of_int (2 ^ 62) < of_int (512 * j)" "real_of_int (512 * j) < of_int (2 ^ 63 - 511)" using True xb x63 xB by simp_all
    then have jb: "2 ^ 62 < 512 * j" "512 * j < 2 ^ 63 - 511" by (simp_all only: of_int_less_iff)
    have e': "0 \<le> e" "e < 2045" using e A(5,6) by simp_all
    have m: "n mod 1024 \<noteq> 0" if "n mod 512 \<noteq> 0" for n :: int using that mod_mod_cancel [of 512 1024 n] by auto
    have "(512 * j - 1) mod 512 = (- 1 + 512 * j) mod 512" by (simp add: algebra_simps)
    also have "\<dots> = 511" by (simp only: mod_mult_self2) simp
    finally have m1: "(512 * j - 1) mod 1024 \<noteq> 0" by (intro m) simp
    have m2: "uint z mod 1024 \<noteq> 0" by (intro m) (simp add: zj)
    note r = f64_round_inexact [OF c e' _ _ m1, of st] f64_round_inexact [OF cell_refl e' _ _ m2, of st]
    show ?thesis
      using code [OF cell_refl] r jb unfolding val by (simp add: zj round_int_step missed True Let_def of_bool_def add.assoc)
  qed
qed

text \<open>The result on every operand in every mode.\<close>

theorem f64_sqrt_exact:
  "f64_sqrt a st = (let (r, st') = f64_sqrt_spec a st
     in (if f64_sqrt_missed (softfloat_roundingMode st) a then r + 1 else r, st'))"
proof (cases "f64_sqrt_boundary a \<and> f64_finite a \<and> f64_mag a \<noteq> 0 \<and> \<not> signF64UI a")
  case True
  then show ?thesis using f64_sqrt_exact_finite [of a st] f64_sqrt_spec_finite [of a st] by simp
next
  case False
  then have "f64_sqrt a st = f64_sqrt_spec a st" using f64_sqrt_special f64_sqrt_refines by blast
  moreover have "\<not> f64_sqrt_missed (softfloat_roundingMode st) a" using False f64_sqrt_missed_boundary by (auto simp: f64_sqrt_missed_def)
  ultimately show ?thesis by (simp add: case_prod_unfold Let_def)
qed

lemma sqrt_example_missed: "f64_sqrt_missed softfloat_round_near_even 0x3FF26D08B93E38A6"
proof -
  have "f64_norm 0x3FF26D08B93E38A6 = (0x3FF, 0x26D08B93E38A6)" by (simp add: f64_norm_def expF64UI_def fracF64UI_def)
  moreover have "f64_sqrt_estimate 0x3FF 0x26D08B93E38A6 = (0x126D08B93E38A600, 0x44AE40383F574A20)"
    by (simp add: f64_sqrt_estimate_def sqrt_example_estimate [unfolded One_nat_def] Let_def)
  moreover have "f64_finite 0x3FF26D08B93E38A6" "f64_mag 0x3FF26D08B93E38A6 \<noteq> 0" "\<not> signF64UI 0x3FF26D08B93E38A6"
    by (simp_all add: f64_class_fields(1,3,4) isNaNF64UI_def expF64UI_def fracF64UI_def signF64UI_def)
  ultimately show ?thesis by (simp add: f64_sqrt_missed_def)
qed

section \<open>Single precision\<close>

text \<open>
  The estimate plus two is past the root by at most two and below it by less than 0.1, so it can
  only be on the wrong side of a boundary when the root reaches a multiple of 64 and the estimate
  falls three short of it.  That needs a significand near the top of the even exponents, where the
  approximation is better, and leaves the few significands that are checked one by one.
\<close>

lemma f32_sqrt_near_squares:
  "softfloat_approxRecipSqrt32_1 0 0xFFE00100 = 0x8008007F"
  "softfloat_approxRecipSqrt32_1 0 0xFFD2C100 = 0x800B513F"
  "softfloat_approxRecipSqrt32_1 0 0xFFC00400 = 0x801001FF"
  "softfloat_approxRecipSqrt32_1 0 0xFFB1A400 = 0x80139B80"
  "softfloat_approxRecipSqrt32_1 0 0xFFA00900 = 0x8018047F"
  "softfloat_approxRecipSqrt32_1 0 0xFF801000 = 0x80200801"
  "softfloat_approxRecipSqrt32_1 0 0xFF749700 = 0x8022E882"
  "softfloat_approxRecipSqrt32_1 0 0xFF601900 = 0x80280C82"
  "softfloat_approxRecipSqrt32_1 0 0xFF402400 = 0x80301206"
  "softfloat_approxRecipSqrt32_1 0 0xFF385000 = 0x80320946"
  "softfloat_approxRecipSqrt32_1 0 0xFF203100 = 0x8038188A"
  "softfloat_approxRecipSqrt32_1 0 0xFF004000 = 0x8040200F"
  "softfloat_approxRecipSqrt32_1 0 0xFEFE4300 = 0x8040A00F"
  "softfloat_approxRecipSqrt32_1 0 0xFEF2A400 = 0x80438C52"
  "softfloat_approxRecipSqrt32_1 0 0xFEE05100 = 0x80482896"
  "softfloat_approxRecipSqrt32_1 0 0xFEC06400 = 0x8050321F"
  "softfloat_approxRecipSqrt32_1 0 0xFEB88200 = 0x80522E61"
  by (simp_all add: softfloat_approxRecipSqrt32_1_def approxRecipSqrt_k0s_def approxRecipSqrt_k1s_def Let_def)

text \<open>The squares just below a multiple of \<open>2 ^ 26\<close>: the roots of the first multiples, and the close ones.\<close>

definition root_table :: "(int \<times> int) list" where
  "root_table = [(1, 8192), (2, 11585), (3, 14188), (4, 16384), (5, 18317), (6, 20066), (7, 21673), (8, 23170), (9, 24576),
     (10, 25905), (11, 27169), (12, 28377), (13, 29536), (14, 30651), (15, 31727), (16, 32768), (17, 33776),
     (18, 34755), (19, 35708), (20, 36635), (21, 37540), (22, 38423), (23, 39287), (24, 40132), (25, 40960),
     (26, 41771), (27, 42566), (28, 43347), (29, 44115), (30, 44869), (31, 45611), (32, 46340), (33, 47059),
     (34, 47767), (35, 48464), (36, 49152), (37, 49829), (38, 50498), (39, 51159), (40, 51810), (41, 52454),
     (42, 53090), (43, 53718), (44, 54339), (45, 54953), (46, 55560), (47, 56161), (48, 56755), (49, 57344),
     (50, 57926), (51, 58502), (52, 59073), (53, 59638), (54, 60198), (55, 60753), (56, 61303), (57, 61848),
     (58, 62388), (59, 62923), (60, 63454), (61, 63981), (62, 64503), (63, 65021), (64, 65536), (65, 66046),
     (66, 66552), (67, 67054), (68, 67552), (69, 68047), (70, 68539), (71, 69027), (72, 69511), (73, 69992),
     (74, 70470), (75, 70944), (76, 71416), (77, 71884), (78, 72349), (79, 72812), (80, 73271), (81, 73728),
     (82, 74181), (83, 74632), (84, 75080), (85, 75526), (86, 75969), (87, 76409), (88, 76847), (89, 77283),
     (90, 77716), (91, 78146), (92, 78574), (93, 79000), (94, 79424), (95, 79845), (96, 80264), (97, 80681),
     (98, 81096), (99, 81509), (100, 81920), (101, 82328), (102, 82735), (103, 83139), (104, 83542), (105,
     83943)]"

definition near_squares :: "(int \<times> int) list" where
  "near_squares = [(1, 8192), (2, 11585), (4, 16384), (6, 20066), (9, 24576), (16, 32768), (19, 35708), (25, 40960), (36, 49152),
     (39, 51159), (49, 57344), (64, 65536), (65, 66046), (71, 69027), (81, 73728), (100, 81920), (105, 83943)]"

lemma root_table_ok:
  "list_all (\<lambda>(c, j). j ^ 2 \<le> c * 2 ^ 26 \<and> c * 2 ^ 26 < (j + 1) ^ 2 \<and> 8192 \<le> j) root_table"
  "map fst root_table = [1..105]" "filter (\<lambda>(c, j). c * 2 ^ 26 - j ^ 2 < 10486) root_table = near_squares"
  by (simp_all add: root_table_def near_squares_def upto_rec1)

lemma near_square_cases:
  fixes m k :: int
  assumes d: "k ^ 2 \<le> m * 2 ^ 26" "m * 2 ^ 26 < k ^ 2 + 10486" and m: "16693330 \<le> m" "m < 2 ^ 24" and k: "0 < k"
  obtains c j where "(c, j) \<in> set near_squares" "m = 2 ^ 24 - (j - c)" "k = 2 ^ 25 - j"
proof -
  define j where "j = 2 ^ 25 - k"
  define c where "c = m - 2 ^ 24 + j"
  have mk: "m = 2 ^ 24 - (j - c)" "k = 2 ^ 25 - j" by (simp_all add: j_def c_def)
  have "m * 2 ^ 26 - k ^ 2 = c * 2 ^ 26 - j ^ 2" unfolding mk by (simp add: power2_eq_square algebra_simps)
  then have cj: "j ^ 2 \<le> c * 2 ^ 26" "c * 2 ^ 26 < j ^ 2 + 10486" using d by linarith+
  have "k ^ 2 < (2 ^ 25) ^ 2" using d(1) m(2) by simp
  then have "k < 2 ^ 25" by (rule power2_less_imp_less) simp
  then have j: "0 < j" by (simp add: j_def)
  have "(33470400 :: int) ^ 2 < k ^ 2" using d(2) m(1) by simp
  then have "33470400 < k" by (rule power2_less_imp_less) (use k in simp)
  then have j2: "j < 84032" by (simp add: j_def)
  have "j ^ 2 \<le> 84032 ^ 2" using j j2 by (intro power_mono) simp_all
  then have "c \<le> 105" using cj(2) by simp
  moreover have "0 < j ^ 2" using j by simp
  then have "0 < c * 2 ^ 26" using cj(1) by linarith
  ultimately have "0 < c" "c \<le> 105" by simp_all
  then have "c \<in> set (map fst root_table)" unfolding root_table_ok(2) by simp
  then obtain J where J: "(c, J) \<in> set root_table" by auto
  then have ok: "J ^ 2 \<le> c * 2 ^ 26" "c * 2 ^ 26 < (J + 1) ^ 2" "8192 \<le> J"
    using root_table_ok(1) unfolding list_all_iff by auto
  have "j ^ 2 < (J + 1) ^ 2" using cj(1) ok(2) by linarith
  then have "j < J + 1" by (rule power2_less_imp_less) (use ok(3) in simp)
  moreover have "\<not> j \<le> J - 1"
  proof
    assume "j \<le> J - 1"
    then have "j ^ 2 \<le> (J - 1) ^ 2" using j by (intro power_mono) simp_all
    moreover have "(J - 1) ^ 2 = J ^ 2 - 2 * J + 1" by (simp add: power2_eq_square algebra_simps)
    ultimately show False using cj(2) ok(1,3) by linarith
  qed
  ultimately have "j = J" by simp
  then have "(c, j) \<in> set near_squares" using J cj(2) unfolding root_table_ok(3) [symmetric] by simp
  then show thesis using mk by (rule that)
qed

lemma near_square_estimate:
  assumes "(c, j) \<in> set near_squares" "uint a = 2 ^ 8 * (2 ^ 24 - (j - c))"
  shows "uint a * uint (softfloat_approxRecipSqrt32_1 0 a) div 2 ^ 32 + 3 \<noteq> 64 * (2 ^ 25 - j)"
proof -
  have a: "a = word_of_int (2 ^ 8 * (2 ^ 24 - (j - c)))" unfolding assms(2) [symmetric] by simp
  show ?thesis using assms(1) unfolding assms(2) a near_squares_def
    by (simp only: set_simps) (elim insertE emptyE; simp add: f32_sqrt_near_squares)
qed

lemma f32_sqrt_no_overtake:
  assumes m: "uint a = mA * 2 ^ 8" "2 ^ 23 \<le> mA" "mA < 2 ^ 24" and d: "d < 2"
  defines "x \<equiv> sqrt (of_int (mA * 2 ^ (38 - d)))"
  defines "Z \<equiv> uint a * uint (softfloat_approxRecipSqrt32_1 d a) div 2 ^ 32 div 2 ^ d"
  assumes k: "Z + 3 = 64 * k"
  shows "x < of_int (64 * k)"
proof (rule ccontr)
  assume "\<not> x < of_int (64 * k)"
  then have xk: "of_int (64 * k) \<le> x" by simp
  have a31: "2 ^ 31 \<le> uint a" using m by simp
  have x: "x = sqrt_scaled d (of_int (uint a))"
    using d by (cases d) (simp_all add: x_def sqrt_scaled_def m(1))
  note first = sqrt_first [OF a31 d, folded x, folded Z_def]
  have x0: "2 ^ 30 \<le> x" "x < 2 ^ 31" using first(3,4) [OF approxRecipSqrt32_1_bound(2) [OF a31 d]] by blast+
  have xx: "x ^ 2 = of_int (mA * 2 ^ (38 - d))" using m(2) by (simp add: x_def)
  have Z3: "real_of_int Z + 3 = of_int (64 * k)" unfolding k [symmetric] by simp
  have "2 < 21 / 10 * (x / 2 ^ 31) ^ 2"
    using first(6) [OF approxRecipSqrt32_1_bound(2) [OF a31 d]] xk Z3 by linarith
  then have u: "2 * 2 ^ 62 < 21 / 10 * real_of_int (mA * 2 ^ (38 - d))" unfolding power_divide xx by simp
  have "d = 0"
  proof (rule ccontr)
    assume "d \<noteq> 0"
    then have "d = 1" using d by simp
    then show False using u m(3) by simp
  qed
  have top: "0xF3C00000 \<le> uint a" using u unfolding m(1) \<open>d = 0\<close> by simp
  have s: "x < of_int Z + 1 + 201 / 100 * (x / 2 ^ 31) ^ 2"
    using first(6) [of "201 / 100"] approxRecipSqrt32_1_top [OF top] \<open>d = 0\<close> by simp
  have "2 < 201 / 100 * (x / 2 ^ 31) ^ 2" using s xk Z3 by linarith
  then have "2 * 2 ^ 62 < 201 / 100 * real_of_int (mA * 2 ^ 38)" unfolding power_divide xx \<open>d = 0\<close> by simp
  then have mA: "16693330 \<le> mA" by simp
  have "(x / 2 ^ 31) ^ 2 \<le> 1 ^ 2" using x0 by (intro power_mono) simp_all
  then have "x < of_int (64 * k) + 1 / 100" using s Z3 by simp
  have k0: "0 < k"
  proof -
    have "0 < real_of_int (64 * k)" using \<open>x < of_int (64 * k) + 1 / 100\<close> x0(1) by simp
    then show ?thesis by simp
  qed
  have "real_of_int (64 * k) < of_int (2 ^ 31)" using xk x0(2) by simp
  then have k25: "k < 2 ^ 25" unfolding of_int_less_iff by simp
  have "of_int (64 * k) ^ 2 \<le> x ^ 2" using xk k0 by (intro power_mono) simp_all
  then have "real_of_int ((64 * k) ^ 2) \<le> of_int (mA * 2 ^ 38)" unfolding xx \<open>d = 0\<close> by simp
  then have l: "k ^ 2 \<le> mA * 2 ^ 26" unfolding of_int_le_iff by (simp add: power_mult_distrib)
  have "x ^ 2 < (of_int (64 * k) + 1 / 100) ^ 2"
    using \<open>x < of_int (64 * k) + 1 / 100\<close> x0(1) by (intro power_strict_mono) simp_all
  also have "\<dots> = of_int ((64 * k) ^ 2) + 128 / 100 * of_int k + 1 / 10000" by (simp add: power2_eq_square field_simps)
  also have "\<dots> < of_int (4096 * (k ^ 2 + 10486))" using k25 by (simp add: power_mult_distrib)
  finally have "real_of_int (mA * 2 ^ 38) < of_int (4096 * (k ^ 2 + 10486))" unfolding xx \<open>d = 0\<close> by simp
  then have "mA * 2 ^ 26 < k ^ 2 + 10486" unfolding of_int_less_iff by simp
  from near_square_cases [OF l this mA m(3) k0] obtain c j
    where cj: "(c, j) \<in> set near_squares" "mA = 2 ^ 24 - (j - c)" "k = 2 ^ 25 - j" by blast
  have "uint a = 2 ^ 8 * (2 ^ 24 - (j - c))" unfolding m(1) cj(2) by simp
  from near_square_estimate [OF cj(1) this] k show False unfolding Z_def \<open>d = 0\<close> cj(3) by simp
qed

text \<open>The correction: \<open>negRem\<close> is the low word of the square, whose negative is the remainder.\<close>

lemma sign_test32:
  assumes "- (2 ^ 31) < F" "F < 2 ^ 31"
  shows "(word_of_int F :: u32) AND 0x80000000 \<noteq> 0 \<longleftrightarrow> F < 0" "(word_of_int F :: u32) \<noteq> 0 \<longleftrightarrow> F \<noteq> 0"
proof -
  have "F mod 2 ^ 32 = (F + 2 ^ 32) mod 2 ^ 32" by simp
  also have "\<dots> = F + 2 ^ 32" if "F < 0" by (rule mod_pos_pos_trivial) (use assms that in simp_all)
  finally have "uint (word_of_int F :: u32) = (if F < 0 then F + 2 ^ 32 else F)"
    unfolding uint_word_of_int using assms by (cases "F < 0") simp_all
  then show "(word_of_int F :: u32) AND 0x80000000 \<noteq> 0 \<longleftrightarrow> F < 0" "(word_of_int F :: u32) \<noteq> 0 \<longleftrightarrow> F \<noteq> 0"
    unfolding high_bit32 using assms by (auto simp: word_zero_uint)
qed

lemma f32_sqrt_rem:
  fixes M k :: int and c :: u32 and x :: real
  assumes c: "uint c = 16 * k" and x: "0 < x" "x < 2 ^ 31" "x ^ 2 = of_int M * 2 ^ 36"
    and Y: "\<bar>x - of_int (64 * k)\<bar> < 4"
  shows "c * c AND 0x80000000 \<noteq> 0 \<longleftrightarrow> of_int (64 * k) < x" "c * c \<noteq> 0 \<longleftrightarrow> x \<noteq> of_int (64 * k)"
proof -
  define F where "F = 256 * k ^ 2 - M * 2 ^ 32"
  define y where "y = real_of_int (64 * k)"
  note Y = Y [folded y_def]
  have "0 \<le> 16 * k" unfolding c [symmetric] by simp
  then have y: "0 \<le> y" "y < 2 ^ 31 + 4" using Y x(2) by (simp_all add: y_def)
  have d: "(y - x) * (y + x) = 16 * of_int F"
    using x(3) by (simp add: F_def y_def power2_eq_square algebra_simps)
  have "\<bar>(y - x) * (y + x)\<bar> \<le> 4 * (2 ^ 32 + 4)"
    unfolding abs_mult using x y Y by (intro mult_mono) simp_all
  then have "\<bar>real_of_int F\<bar> < of_int (2 ^ 31)" unfolding d by (simp add: abs_mult)
  then have F: "- (2 ^ 31) < F" "F < 2 ^ 31" by linarith+
  have "c * c = word_of_int F"
  proof -
    have "uint (c * c) = (256 * k ^ 2) mod 2 ^ 32" by (simp add: uint_word_ariths c power2_eq_square)
    also have "\<dots> = F mod 2 ^ 32" unfolding F_def by (simp add: mod_diff_right_eq [symmetric])
    finally show ?thesis unfolding word_uint_eq_iff uint_word_of_int by simp
  qed
  then have t: "c * c AND 0x80000000 \<noteq> 0 \<longleftrightarrow> F < 0" "c * c \<noteq> 0 \<longleftrightarrow> F \<noteq> 0" using sign_test32 [OF F] by simp_all
  have p: "0 < y + x" using x y by simp
  have "F < 0 \<longleftrightarrow> (y - x) * (y + x) < 0" "F \<noteq> 0 \<longleftrightarrow> (y - x) * (y + x) \<noteq> 0" unfolding d by simp_all
  then have "F < 0 \<longleftrightarrow> y < x" "F \<noteq> 0 \<longleftrightarrow> x \<noteq> y" using p by (auto simp: mult_less_0_iff)
  then show "c * c AND 0x80000000 \<noteq> 0 \<longleftrightarrow> of_int (64 * k) < x" "c * c \<noteq> 0 \<longleftrightarrow> x \<noteq> of_int (64 * k)"
    unfolding t y_def by simp_all
qed

text \<open>The value handed to the rounding, for an estimate \<open>Z\<close> that is two past the code's lower bound.\<close>

definition sqrt_fixup32 :: "int \<Rightarrow> real \<Rightarrow> int" where
  "sqrt_fixup32 Z x =
     (if Z mod 64 < 2
      then let Y = Z - Z mod 64 in if of_int Y < x then Y + 1 else if x \<noteq> of_int Y then Y - 1 else Y
      else Z)"

lemma sqrt_fixup32_cell:
  assumes x: "of_int (Z - 2) < x" "x < of_int Z + 11 / 10" and t: "Z mod 64 = 63 \<Longrightarrow> x < of_int (Z + 1)"
  shows "cell 6 (of_int (sqrt_fixup32 Z x)) x"
proof -
  define j m where "j = Z div 64" and "m = Z mod 64"
  have Z: "Z = 64 * j + m" "0 \<le> m" "m < 64" by (simp_all add: j_def m_def)
  have Zr: "real_of_int Z = 64 * of_int j + of_int m" unfolding Z(1) by simp
  have cb: "cell 6 (of_int n) x" if "i * 64 < n" "n < (i + 1) * 64" "of_int (i * 64) < x" "x < of_int ((i + 1) * 64)" for n i
  proof -
    have "real_of_int (i * 64) < of_int n" "real_of_int n < of_int ((i + 1) * 64)"
      unfolding of_int_less_iff using that by simp_all
    then show ?thesis using that(3,4) by (intro cell_between [of i]) simp_all
  qed
  show ?thesis
  proof (cases "m < 2")
    case False
    have "x < of_int ((j + 1) * 64)"
    proof (cases "m = 63")
      case True
      then show ?thesis using t unfolding m_def [symmetric] Z(1) by simp
    next
      case False
      then have "real_of_int m \<le> 62" using Z(3) by simp
      then show ?thesis using x(2) Zr by simp
    qed
    moreover have "of_int (j * 64) < x"
    proof -
      have "2 \<le> real_of_int m" using False by simp
      then show ?thesis using x(1) Zr by simp
    qed
    ultimately have "cell 6 (of_int Z) x" using False Z by (intro cb [of j]) simp_all
    then show ?thesis using False by (simp add: sqrt_fixup32_def m_def)
  next
    case True
    define Y where "Y = 64 * j"
    have Y: "Z - Z mod 64 = Y" by (simp only: Y_def j_def minus_mod_eq_mult_div)
    have "real_of_int m < 2" "0 \<le> real_of_int m" using True Z(2) by simp_all
    then have b: "of_int Y - 64 < x" "x < of_int Y + 64" using x Zr by (simp_all add: Y_def)
    consider "x < of_int Y" | "x = of_int Y" | "of_int Y < x" by linarith
    then have "cell 6 (of_int (if of_int Y < x then Y + 1 else if x \<noteq> of_int Y then Y - 1 else Y)) x"
    proof cases
      case 1
      then have i: "(if of_int Y < x then Y + 1 else if x \<noteq> of_int Y then Y - 1 else Y) = Y - 1" by simp
      show ?thesis unfolding i using 1 b by (intro cb [of "j - 1"]) (simp_all add: Y_def algebra_simps)
    next
      case 2
      then show ?thesis by simp
    next
      case 3
      then have i: "(if of_int Y < x then Y + 1 else if x \<noteq> of_int Y then Y - 1 else Y) = Y + 1" by simp
      show ?thesis unfolding i using 3 b by (intro cb [of j]) (simp_all add: Y_def algebra_simps)
    qed
    then show ?thesis using True unfolding sqrt_fixup32_def Let_def Y by (simp add: m_def)
  qed
qed

lemma f32_sqrt_sig_cell:
  fixes expA mA :: int and sigA :: u32
  assumes m: "uint (sigA OR 0x00800000) = mA" "2 ^ 23 \<le> mA" "mA < 2 ^ 24"
  defines "x \<equiv> sqrt (of_int (mA * 2 ^ (38 - nat (expA mod 2))))"
  shows "cell 6 (of_int (uint (f32_sqrt_sig expA sigA))) x" "2 ^ 30 \<le> x" "x < 2 ^ 31"
proof -
  define d where "d = nat (expA mod 2)"
  have d: "d < 2" "expA AND 1 = int d" by (simp_all add: d_def and_one_eq)
  define a where "a = push_bit 8 (sigA OR 0x00800000)"
  define rs where "rs = softfloat_approxRecipSqrt32_1 d a"
  define zz where "zz = (ucast (drop_bit 32 (ucast a * ucast rs :: u64)) :: u32)"
  define z where "z = (if d \<noteq> 0 then drop_bit 1 zz else zz) + 2"
  define c where "c = drop_bit 2 z"
  define W where "W = f32_sqrt_sig expA sigA"
  have code: "W = (if z AND 0x3F < 2 then if c * c AND 0x80000000 \<noteq> 0 then push_bit 2 c OR 1
      else if c * c \<noteq> 0 then push_bit 2 c - 1 else push_bit 2 c else z)"
    unfolding W_def f32_sqrt_sig_def Let_def d(2) nat_int of_nat_eq_0_iff a_def [symmetric] rs_def [symmetric] zz_def [symmetric]
      z_def [symmetric] c_def [symmetric] ..
  have a: "uint a = mA * 2 ^ 8" unfolding a_def using m by (subst uint_push_bit_small) simp_all
  have a31: "2 ^ 31 \<le> uint a" using m by (simp add: a)
  have x: "x = sqrt_scaled d (of_int (uint a))"
    using d by (cases d) (simp_all add: x_def d_def [symmetric] sqrt_scaled_def a)
  define Z where "Z = uint a * uint rs div 2 ^ 32 div 2 ^ d"
  note first = sqrt_first [OF a31 d(1) approxRecipSqrt32_1_bound(2) [OF a31 d(1)], folded x, folded rs_def, folded Z_def]
  show b: "2 ^ 30 \<le> x" "x < 2 ^ 31" by (rule first)+
  have "(x / 2 ^ 31) ^ 2 \<le> 1 ^ 2" using b by (intro power_mono) simp_all
  then have Zx: "of_int Z < x" "x < of_int Z + 31 / 10" using first(5,6) by simp_all
  have Z31: "0 \<le> Z" "Z < 2 ^ 31"
  proof -
    have "real_of_int (- 4) < of_int Z" "real_of_int Z < of_int (2 ^ 31)" using Zx b by simp_all
    then show "0 \<le> Z" "Z < 2 ^ 31" by (simp_all add: Z_def pos_imp_zdiv_nonneg_iff)
  qed
  have zz: "uint zz = uint a * uint rs div 2 ^ 32" unfolding zz_def by (simp only: uint_halves(1) uint_mul32)
  have "uint (if d \<noteq> 0 then drop_bit 1 zz else zz) = Z"
    unfolding Z_def zz [symmetric] using d(1) by (cases d) (simp_all add: uint_drop_bit_div)
  then have z: "uint z = Z + 2" unfolding z_def using Z31 by (subst uint_add_lem [THEN iffD1]) simp_all
  have zm: "z AND 0x3F < 2 \<longleftrightarrow> uint z mod 64 < 2"
  proof -
    have "(0x3F :: u32) = mask 6" by (simp add: mask_eq_exp_minus_1)
    then have "uint (z AND 0x3F) = uint z mod 64" by (simp only: uint_and_mask) simp
    then show ?thesis by (simp add: word_less_def)
  qed
  have xx: "x ^ 2 = of_int (mA * 2 ^ (38 - d))" using m(2) by (simp add: x_def d_def)
  have "uint W = sqrt_fixup32 (Z + 2) x"
  proof (cases "(Z + 2) mod 64 < 2")
    case False
    then show ?thesis by (simp add: code zm z sqrt_fixup32_def)
  next
    case True
    define k where "k = (Z + 2) div 64"
    have Y: "(Z + 2) - (Z + 2) mod 64 = 64 * k" unfolding k_def by (rule minus_mod_eq_mult_div)
    have c: "uint c = 16 * k"
    proof -
      have "(Z + 2) div 4 = 16 * k"
      proof -
        have "Z + 2 = 64 * k + (Z + 2) mod 64" using Y by simp
        moreover have "0 \<le> (Z + 2) mod 64" by simp
        ultimately show ?thesis using True by linarith
      qed
      then show ?thesis by (simp add: c_def uint_drop_bit_div z)
    qed
    have k: "64 * k \<le> Z + 2" "Z + 2 < 64 * k + 2" using Y True pos_mod_sign [of 64 "Z + 2"] by linarith+
    have "real_of_int (64 * k) \<le> of_int (Z + 2)" "real_of_int (Z + 2) < of_int (64 * k + 2)"
      unfolding of_int_less_iff of_int_le_iff by (rule k)+
    then have near: "\<bar>x - of_int (64 * k)\<bar> < 4" using Zx by (simp add: abs_less_iff)
    have M: "x ^ 2 = of_int (mA * 2 ^ (2 - d)) * 2 ^ 36"
    proof -
      have "38 - d = 2 - d + 36" using d(1) by simp
      then show ?thesis unfolding xx by (simp only: power_add) simp
    qed
    note t = f32_sqrt_rem [OF c _ b(2) M near]
    have x0: "0 < x" using b by simp
    have p: "uint (push_bit 2 c) = 64 * k"
      using c k(1) Z31 by (subst uint_push_bit_small) simp_all
    have k0: "1 \<le> 64 * k"
    proof -
      have "real_of_int 0 < of_int (64 * k)" using near b(1) by (simp add: abs_less_iff)
      then have "0 < 64 * k" unfolding of_int_less_iff .
      then show ?thesis by linarith
    qed
    have "uint (push_bit 2 c - 1) = 64 * k - 1" using k0 by (subst uint_sub_lem [THEN iffD1]) (simp_all add: p)
    moreover have "uint (push_bit 2 c OR 1) = 64 * k + 1" by (simp add: uint_or_one p)
    ultimately show ?thesis
      unfolding code zm z sqrt_fixup32_def Let_def t(1) [OF x0] t(2) [OF x0] Y using True p by simp
  qed
  moreover have "cell 6 (of_int (sqrt_fixup32 (Z + 2) x)) x"
  proof (rule sqrt_fixup32_cell)
    assume "(Z + 2) mod 64 = 63"
    then have "Z + 3 = 64 * ((Z + 2) div 64 + 1)" by presburger
    moreover have "uint a * uint (softfloat_approxRecipSqrt32_1 d a) div 2 ^ 32 div 2 ^ d = Z" by (simp add: Z_def rs_def)
    ultimately show "x < of_int (Z + 2 + 1)"
      using f32_sqrt_no_overtake [OF a m(2,3) d(1), of "(Z + 2) div 64 + 1"] by (simp add: x_def d_def)
  qed (use Zx in simp_all)
  ultimately show "cell 6 (of_int (uint (f32_sqrt_sig expA sigA))) x" by (simp add: W_def)
qed

definition f32_sqrt_spec :: "float32 \<Rightarrow> sf_state \<Rightarrow> float32 \<times> sf_state" where
  "f32_sqrt_spec a st =
     (if isNaNF32UI a then softfloat_propagateNaNF32UI a 0 st
      else if f32_mag a = 0 then (a, st)
      else if signF32UI a then (defaultNaNF32UI, softfloat_raiseFlags softfloat_flag_invalid st)
      else if f32_isInf a then (a, st)
      else f32_round st False (sqrt (f32_val a)))"

lemma f32_sqrt_finite:
  assumes a: "f32_finite a" "f32_mag a \<noteq> 0" "\<not> signF32UI a"
  shows "f32_sqrt a st = f32_round st False (sqrt (f32_val a))"
proof -
  obtain eA sA mA where A: "f32_norm a = (eA, sA)" "uint (sA OR 0x00800000) = mA" "2 ^ 23 \<le> mA" "mA < 2 ^ 24"
    "- 22 \<le> eA" "eA \<le> 254" "f32_abs a = of_int mA * 2 powi (eA - 150)" using a(1,2) by (rule f32_norm_value)
  define e where "e = drop_bit 1 (eA - 0x7F) + 0x7E"
  have e: "2 * e = eA + 124 + eA mod 2"
    using sqrt_exponent [of 127 eA] by (simp add: e_def drop_bit_int_def)
  define d where "d = nat (eA mod 2)"
  have d: "int d = eA mod 2" "d < 2" by (simp_all add: d_def)
  define x where "x = sqrt (of_int (mA * 2 ^ (38 - d)))"
  note cell = f32_sqrt_sig_cell [OF A(2-4), of eA, folded d_def, folded x_def]
  have b: "2 ^ 30 \<le> uint (f32_sqrt_sig eA sA)" "uint (f32_sqrt_sig eA sA) < 2 ^ 31"
    using cell_ge [OF cell(1), of "2 ^ 24"] cell_less [OF cell(1), of "2 ^ 25"] cell(2,3) by simp_all
  have "f32_sqrt a st = softfloat_roundPackToF32 False e (f32_sqrt_sig eA sA) st"
  proof -
    have "(expF32UI a = 255) = False" "(expF32UI a = 0 \<and> fracF32UI a = 0) = False" "signF32UI a = False"
      using a unfolding f32_class_fields by simp_all
    then show ?thesis unfolding f32_sqrt_def Let_def f32_norm_def [symmetric] A(1) prod.case e_def by (simp only: if_False)
  qed
  also have "\<dots> = f32_round st False (fp_scaled 23 127 6 e x)"
    using cell(1) b A(5,6) e by (intro roundPackToF32_refines) simp_all
  also have "fp_scaled 23 127 6 e x = sqrt (of_int mA * 2 powi (eA - 150))"
  proof -
    have "fp_scaled 23 127 6 e x = sqrt (of_int (mA * 2 ^ (38 - d))) * 2 powi (e - 156)"
      by (simp add: fp_scaled_def x_def)
    also have "\<dots> = sqrt (of_int mA * 2 powi (2 * (e - 156) + int (38 - d)))"
      using A(3) by (intro sqrt_power) simp
    also have "2 * (e - 156) + int (38 - d) = eA - 150" using e d by simp
    finally show ?thesis .
  qed
  also have "of_int mA * 2 powi (eA - 150) = f32_val a" using a(3) by (simp add: f32_val_def A(7))
  finally show ?thesis .
qed

theorem f32_sqrt_refines: "f32_sqrt a st = f32_sqrt_spec a st"
proof (cases a rule: f32_class_cases1)
  case nan
  then show ?thesis by (simp add: f32_sqrt_def f32_sqrt_spec_def Let_def isNaNF32UI_int)
next
  case inf
  then show ?thesis by (simp add: f32_sqrt_def f32_sqrt_spec_def Let_def f32_class_fields(1,3,4) isNaNF32UI_int)
next
  case zero
  then show ?thesis by (simp add: f32_sqrt_def f32_sqrt_spec_def Let_def f32_class_fields(1,3,4) isNaNF32UI_int)
next
  case main
  show ?thesis
  proof (cases "signF32UI a")
    case True
    then show ?thesis using main by (auto simp: f32_sqrt_def f32_sqrt_spec_def Let_def f32_class_fields(1,3,4) isNaNF32UI_int)
  next
    case False
    then show ?thesis
      using f32_sqrt_finite [OF main False] main f32_finite_not [OF main(1)] by (simp add: f32_sqrt_spec_def)
  qed
qed

end
