(* ===== verification/Sim_MulHi.thy ===== *)
theory Sim_MulHi
  imports SF_RemF64
begin

text \<open>
  The upper halves of products in the instruction-set simulator (\<open>mulhi.h\<close>): \<open>mulhu\<close> builds the
  128-bit product from 32-bit halves, \<open>mulh\<close> and \<open>mulhsu\<close> negate its upper half by hand when the
  signs ask for it.  Signed words are read with \<open>sint\<close>; the negation of the smallest number wraps.
\<close>

section \<open>Definitions\<close>

definition mulhu :: "u64 \<Rightarrow> u64 \<Rightarrow> u64" where
  "mulhu a b =
     (let a0 = ucast (ucast a :: u32); a1 = drop_bit 32 a;
          b0 = ucast (ucast b :: u32); b1 = drop_bit 32 b;
          t = a1 * b0 + drop_bit 32 (a0 * b0);
          y1 = (ucast t :: u32);
          y2 = (ucast (drop_bit 32 t) :: u32);
          t = a0 * b1 + ucast y1;
          y1 = (ucast t :: u32);
          t = a1 * b1 + ucast y2 + drop_bit 32 t;
          y2 = (ucast t :: u32);
          y3 = (ucast (drop_bit 32 t) :: u32)
      in push_bit 32 (ucast y3) OR ucast y2)"

definition mulh :: "u64 \<Rightarrow> u64 \<Rightarrow> u64" where
  "mulh a b =
     (let negate = ((a <s 0) \<noteq> (b <s 0));
          res = mulhu (if a <s 0 then - a else a) (if b <s 0 then - b else b)
      in if negate then NOT res + of_bool (a * b = 0) else res)"

definition mulhsu :: "u64 \<Rightarrow> u64 \<Rightarrow> u64" where
  "mulhsu a b =
     (let negate = (a <s 0);
          res = mulhu (if a <s 0 then - a else a) b
      in if negate then NOT res + of_bool (a * b = 0) else res)"

section \<open>The unsigned product\<close>

lemma half_product: "0 \<le> x \<Longrightarrow> x < 2 ^ 32 \<Longrightarrow> 0 \<le> y \<Longrightarrow> y < 2 ^ 32 \<Longrightarrow> 0 \<le> x * y \<and> x * y \<le> (2 ^ 32 - 1) * (2 ^ 32 - 1)" for x y :: int
  using mult_mono [of x "2 ^ 32 - 1" y "2 ^ 32 - 1"] by simp

lemma halves_high:
  fixes a0 a1 b0 b1 :: int
  assumes "0 \<le> a0" "a0 < 2 ^ 32" "0 \<le> b0" "b0 < 2 ^ 32"
  defines "t1 \<equiv> a1 * b0 + a0 * b0 div 2 ^ 32"
  defines "t2 \<equiv> a0 * b1 + t1 mod 2 ^ 32"
  shows "a1 * b1 + t1 div 2 ^ 32 + t2 div 2 ^ 32 = (a1 * 2 ^ 32 + a0) * (b1 * 2 ^ 32 + b0) div 2 ^ 64"
proof -
  define l where "l = a0 * b0"
  have "(a1 * 2 ^ 32 + a0) * (b1 * 2 ^ 32 + b0) = (a1 * b1 * 2 ^ 32 + a1 * b0 + a0 * b1) * 2 ^ 32 + l"
    by (simp add: l_def algebra_simps)
  then have "(a1 * 2 ^ 32 + a0) * (b1 * 2 ^ 32 + b0) div 2 ^ 32 = a1 * b1 * 2 ^ 32 + a1 * b0 + a0 * b1 + l div 2 ^ 32" by simp
  also have "\<dots> = (a1 * b1 + t1 div 2 ^ 32) * 2 ^ 32 + t2"
    using div_mult_mod_eq [of t1 "2 ^ 32"] unfolding t2_def l_def [symmetric] by (simp add: t1_def l_def [symmetric] algebra_simps)
  finally have "(a1 * 2 ^ 32 + a0) * (b1 * 2 ^ 32 + b0) div 2 ^ 32 div 2 ^ 32 = a1 * b1 + t1 div 2 ^ 32 + t2 div 2 ^ 32" by simp
  then show ?thesis by (simp add: zdiv_zmult2_eq [symmetric])
qed

theorem uint_mulhu: "uint (mulhu a b) = uint a * uint b div 2 ^ 64"
proof -
  define a0 a1 b0 b1 where "a0 = uint a mod 2 ^ 32" and "a1 = uint a div 2 ^ 32" and "b0 = uint b mod 2 ^ 32" and "b1 = uint b div 2 ^ 32"
  have ab: "0 \<le> a0" "a0 < 2 ^ 32" "0 \<le> a1" "a1 < 2 ^ 32" "0 \<le> b0" "b0 < 2 ^ 32" "0 \<le> b1" "b1 < 2 ^ 32"
    using uint_bounds_64 [of a] uint_bounds_64 [of b] by (auto simp: a0_def a1_def b0_def b1_def pos_imp_zdiv_nonneg_iff intro!: int_div_less)
  note p = half_product [OF ab(1,2,5,6)] half_product [OF ab(3,4,5,6)] half_product [OF ab(1,2,7,8)] half_product [OF ab(3,4,7,8)]
  define t1 where "t1 = a1 * b0 + a0 * b0 div 2 ^ 32"
  define t2 where "t2 = a0 * b1 + t1 mod 2 ^ 32"
  define t3 where "t3 = a1 * b1 + t1 div 2 ^ 32 + t2 div 2 ^ 32"
  have w: "uint (ucast (ucast a :: u32) :: u64) = a0" "uint (drop_bit 32 a) = a1"
    "uint (ucast (ucast b :: u32) :: u64) = b0" "uint (drop_bit 32 b) = b1"
    by (simp_all add: a0_def a1_def b0_def b1_def uint_ucast_64_32 uint_drop_bit_div)
  have l: "0 \<le> a0 * b0 div 2 ^ 32" "a0 * b0 div 2 ^ 32 < 2 ^ 32 - 1"
    using p(1) by (auto simp: pos_imp_zdiv_nonneg_iff intro!: int_div_less)
  have t1: "0 \<le> t1" "t1 < 2 ^ 64 - 2 ^ 32" using p(2) l by (simp_all add: t1_def)
  have h1: "0 \<le> t1 div 2 ^ 32" "t1 div 2 ^ 32 < 2 ^ 32 - 1" "0 \<le> t1 mod 2 ^ 32" "t1 mod 2 ^ 32 < 2 ^ 32"
    using t1 by (auto simp: pos_imp_zdiv_nonneg_iff intro!: int_div_less)
  have "0 \<le> a0 * b1" "a0 * b1 \<le> (2 ^ 32 - 1) * (2 ^ 32 - 1)" "t1 mod 2 ^ 32 \<le> 2 ^ 32 - 1" using p(3) h1(4) by simp_all
  then have "a0 * b1 + t1 mod 2 ^ 32 \<le> (2 ^ 32 - 1) * (2 ^ 32 - 1) + (2 ^ 32 - 1)" "0 \<le> a0 * b1 + t1 mod 2 ^ 32" using h1(3) by linarith+
  then have t2: "0 \<le> t2" "t2 \<le> 2 ^ 64 - 2 ^ 32" unfolding t2_def by simp_all
  have h2: "0 \<le> t2 div 2 ^ 32" "t2 div 2 ^ 32 < 2 ^ 32"
    using t2 by (auto simp: pos_imp_zdiv_nonneg_iff intro!: int_div_less)
  have t3: "0 \<le> t3" "t3 < 2 ^ 64" using p(4) h1(1,2) h2 by (simp_all add: t3_def)
  define T1 T2 T3 where "T1 = drop_bit 32 a * ucast (ucast b :: u32) + drop_bit 32 (ucast (ucast a :: u32) * ucast (ucast b :: u32))"
    and "T2 = ucast (ucast a :: u32) * drop_bit 32 b + ucast (ucast T1 :: u32)"
    and "T3 = drop_bit 32 a * drop_bit 32 b + ucast (ucast (drop_bit 32 T1) :: u32) + drop_bit 32 T2"
  have mul: "uint (x * y) = uint x * uint y" if "uint x < 2 ^ 32" "uint y < 2 ^ 32" for x y :: u64
    using half_product [of "uint x" "uint y"] that by (simp add: uint_word_ariths)
  have T1: "uint T1 = t1"
    using t1 l p(2) ab w unfolding T1_def t1_def
    by (subst uint_add_lem [THEN iffD1]) (simp_all add: mul uint_drop_bit_div w)
  have T2: "uint T2 = t2"
    using t2 p(3) ab w h1 unfolding T2_def t2_def
    by (subst uint_add_lem [THEN iffD1]) (simp_all add: mul uint_ucast_64_32 T1 w)
  have T1h: "uint (ucast (ucast (drop_bit 32 T1) :: u32) :: u64) = t1 div 2 ^ 32" by (simp add: uint_halves(1) T1)
  have T3: "uint T3 = t3"
  proof -
    define y2 where "y2 = (ucast (ucast (drop_bit 32 T1) :: u32) :: u64)"
    have y2: "uint y2 = t1 div 2 ^ 32" unfolding y2_def by (rule T1h)
    have "uint (drop_bit 32 a * drop_bit 32 b + y2) = a1 * b1 + t1 div 2 ^ 32"
      using t3(2) h2(1) p(4) h1(1) ab unfolding t3_def by (subst uint_add_lem [THEN iffD1]) (simp_all add: mul y2 w)
    then have "uint (drop_bit 32 a * drop_bit 32 b + ucast (ucast (drop_bit 32 T1) :: u32)) = a1 * b1 + t1 div 2 ^ 32"
      unfolding y2_def .
    then show ?thesis using t3 unfolding T3_def t3_def by (subst uint_add_lem [THEN iffD1]) (simp_all add: uint_drop_bit_div T2)
  qed
  have "mulhu a b = push_bit 32 (ucast (ucast (drop_bit 32 T3) :: u32)) OR ucast (ucast T3 :: u32)"
    unfolding mulhu_def Let_def T3_def T2_def T1_def ..
  also have "uint \<dots> = t3 div 2 ^ 32 mod 2 ^ 32 * 2 ^ 32 + t3 mod 2 ^ 32"
  proof -
    define y3 y2 where "y3 = (ucast (drop_bit 32 T3) :: u32)" and "y2 = (ucast T3 :: u32)"
    have y: "uint y3 = t3 div 2 ^ 32" "uint y2 = t3 mod 2 ^ 32"
      unfolding y3_def y2_def by (simp_all only: uint_halves(1) T3, simp only: uint_halves(2) T3)
    have "push_bit 32 (ucast y3) AND ucast y2 = (0 :: u64)"
      by (rule bit_eqI) (auto simp: bit_simps dest: bit_imp_le_length)
    then show ?thesis unfolding y3_def [symmetric] y2_def [symmetric] by (simp add: uint_or_disjoint uint_push32 y)
  qed
  also have "\<dots> = t3"
  proof -
    have "t3 div 2 ^ 32 < 2 ^ 32" "0 \<le> t3 div 2 ^ 32" using t3 by (auto simp: pos_imp_zdiv_nonneg_iff intro!: int_div_less)
    then show ?thesis by simp
  qed
  finally have "uint (mulhu a b) = t3" .
  also have "t3 = (a1 * 2 ^ 32 + a0) * (b1 * 2 ^ 32 + b0) div 2 ^ 64"
    using halves_high [of a0 b0 a1 b1] ab unfolding t3_def t2_def t1_def by simp
  finally show ?thesis unfolding a0_def a1_def b0_def b1_def by (simp only: div_mult_mod_eq)
qed

section \<open>The signed products\<close>

text \<open>The upper half of the negative of a product with upper half \<open>h\<close> and lower half \<open>l\<close>.\<close>

lemma high_uminus:
  fixes h l :: int
  assumes "0 \<le> l" "l < 2 ^ 64"
  shows "(- (h * 2 ^ 64 + l)) div 2 ^ 64 = - h - 1 + of_bool (l = 0)"
proof (cases "l = 0")
  case True
  have "(- (h * 2 ^ 64 + l)) div 2 ^ 64 = - h * 2 ^ 64 div 2 ^ 64" using True by simp
  then show ?thesis using True by (simp only: nonzero_mult_div_cancel_right [of "2 ^ 64"]) simp
next
  case False
  have "- (h * 2 ^ 64 + l) = (- h - 1) * 2 ^ 64 + (2 ^ 64 - l)" by (simp add: algebra_simps)
  then show ?thesis using False assms pow_split_div [of "2 ^ 64 - l" 64 "- h - 1"] by simp
qed

lemma high_negated:
  fixes r lo :: u64 and P :: int
  assumes r: "uint r = P div 2 ^ 64" and P: "0 \<le> P" "P \<le> 2 ^ 127" and lo: "lo = 0 \<longleftrightarrow> P mod 2 ^ 64 = 0"
  shows "sint (NOT r + of_bool (lo = 0)) = (- P) div 2 ^ 64"
proof -
  define h where "h = P div 2 ^ 64"
  have h: "0 \<le> h" "h \<le> 2 ^ 63" using P zdiv_mono1 [of P "2 ^ 127" "2 ^ 64"] by (simp_all add: h_def pos_imp_zdiv_nonneg_iff)
  have "(- (h * 2 ^ 64 + P mod 2 ^ 64)) div 2 ^ 64 = - h - 1 + of_bool (P mod 2 ^ 64 = 0)" by (rule high_uminus) simp_all
  then have g: "(- P) div 2 ^ 64 = - h - 1 + of_bool (lo = 0)" unfolding h_def lo by (simp only: div_mult_mod_eq)
  have e: "h = 2 ^ 63 \<Longrightarrow> lo = 0"
  proof -
    assume "h = 2 ^ 63"
    then have "2 ^ 127 \<le> P" using div_bounds(1) [of "2 ^ 64" P] by (simp add: h_def)
    then show "lo = 0" unfolding lo using P(2) by simp
  qed
  have n: "NOT r + of_bool (lo = 0) = word_of_int (- h - 1 + of_bool (lo = 0))"
    unfolding not_eq_complement using r h_def by (cases "lo = 0") (simp_all add: word_uint_eq_iff uint_word_ariths uint_word_of_int mod_simps)
  have s: "sint (word_of_int v :: u64) = v" if "- (2 ^ 63) \<le> v" "v < 2 ^ 63" for v
    using that by (simp add: int_word_sint)
  have "- (2 ^ 63) \<le> - h - 1 + of_bool (lo = 0)" "- h - 1 + of_bool (lo = 0) < 2 ^ 63"
    using h e by (cases "lo = 0"; force)+
  then show ?thesis unfolding g n by (rule s)
qed

lemma product_low: "a * b = 0 \<longleftrightarrow> \<bar>sint a * sint b\<bar> mod 2 ^ 64 = 0" "a * b = 0 \<longleftrightarrow> \<bar>sint a\<bar> * uint b mod 2 ^ 64 = 0" for a b :: u64
proof -
  have s: "2 ^ 64 dvd uint a - sint a" for a :: u64 by (simp add: sint_cases64)
  have d: "2 ^ 64 dvd uint a * uint b - sint a * uint b" "2 ^ 64 dvd sint a * uint b - sint a * sint b"
    using dvd_mult2 [OF s [of a], of "uint b"] dvd_mult [OF s [of b], of "sint a"] by (simp_all add: algebra_simps)
  have "a * b = 0 \<longleftrightarrow> 2 ^ 64 dvd uint a * uint b" by (simp add: word_zero_uint uint_word_ariths dvd_eq_mod_eq_0)
  moreover have "2 ^ 64 dvd uint a * uint b \<longleftrightarrow> 2 ^ 64 dvd sint a * uint b" using d(1) by (metis dvd_diff_right_iff dvd_diff_left_iff)
  moreover have "2 ^ 64 dvd sint a * uint b \<longleftrightarrow> 2 ^ 64 dvd sint a * sint b" using d(2) by (metis dvd_diff_right_iff dvd_diff_left_iff)
  moreover have "2 ^ 64 dvd \<bar>sint a\<bar> * uint b \<longleftrightarrow> 2 ^ 64 dvd sint a * uint b"
    by (cases "sint a < 0") simp_all
  ultimately show "a * b = 0 \<longleftrightarrow> \<bar>sint a * sint b\<bar> mod 2 ^ 64 = 0" "a * b = 0 \<longleftrightarrow> \<bar>sint a\<bar> * uint b mod 2 ^ 64 = 0"
    unfolding dvd_eq_mod_eq_0 [symmetric] dvd_abs_iff by blast+
qed

lemma sint_nonneg: "0 \<le> sint w \<Longrightarrow> uint w = sint w" "sint w < 2 ^ 63" "- (2 ^ 63) \<le> sint w" for w :: u64
  using sint_ge [of w] sint_lt [of w] uint_bounds_64 [of w] by (simp_all add: sint_cases64 split: if_splits)

theorem sint_mulh: "sint (mulh a b) = sint a * sint b div 2 ^ 64"
proof -
  define r where "r = mulhu (if sint a < 0 then - a else a) (if sint b < 0 then - b else b)"
  define P where "P = \<bar>sint a\<bar> * \<bar>sint b\<bar>"
  have r: "uint r = P div 2 ^ 64" unfolding r_def uint_mulhu uint_abs64 P_def ..
  have "\<bar>sint a\<bar> * \<bar>sint b\<bar> \<le> 2 ^ 63 * 2 ^ 63"
    using sint_nonneg(2,3) [of a] sint_nonneg(2,3) [of b] by (intro mult_mono) simp_all
  then have P: "0 \<le> P" "P \<le> 2 ^ 126" by (simp_all add: P_def)
  have code: "mulh a b = (if (sint a < 0) \<noteq> (sint b < 0) then NOT r + of_bool (a * b = 0) else r)"
    by (simp add: mulh_def Let_def r_def word_sless_alt)
  show ?thesis
  proof (cases "(sint a < 0) \<noteq> (sint b < 0)")
    case True
    then have "sint a * sint b = - P" by (auto simp: P_def)
    moreover have "a * b = 0 \<longleftrightarrow> P mod 2 ^ 64 = 0" using product_low(1) [of a b] by (simp only: P_def abs_mult)
    ultimately show ?thesis unfolding code using True high_negated [OF r P(1), of "a * b"] P(2) by simp
  next
    case False
    then have "sint a * sint b = P" by (auto simp: P_def mult_neg_neg)
    moreover have "P div 2 ^ 64 \<le> 2 ^ 126 div 2 ^ 64" using P(2) by (rule zdiv_mono1) simp
    then have "sint r = uint r" using r by (simp add: sint_cases64)
    ultimately show ?thesis unfolding code using False r by simp
  qed
qed

theorem sint_mulhsu: "sint (mulhsu a b) = sint a * uint b div 2 ^ 64"
proof -
  define r where "r = mulhu (if sint a < 0 then - a else a) b"
  define P where "P = \<bar>sint a\<bar> * uint b"
  have r: "uint r = P div 2 ^ 64" unfolding r_def uint_mulhu uint_abs64 P_def ..
  have "\<bar>sint a\<bar> * uint b \<le> 2 ^ 63 * 2 ^ 64"
    using sint_nonneg(2,3) [of a] uint_bounds_64 [of b] by (intro mult_mono) simp_all
  then have P: "0 \<le> P" "P \<le> 2 ^ 127" by (simp_all add: P_def)
  have code: "mulhsu a b = (if sint a < 0 then NOT r + of_bool (a * b = 0) else r)"
    by (simp add: mulhsu_def Let_def r_def word_sless_alt)
  show ?thesis
  proof (cases "sint a < 0")
    case True
    then have "sint a * uint b = - P" by (simp add: P_def)
    moreover have "a * b = 0 \<longleftrightarrow> P mod 2 ^ 64 = 0" using product_low(2) [of a b] by (simp only: P_def)
    ultimately show ?thesis unfolding code using True high_negated [OF r P, of "a * b"] by simp
  next
    case False
    then have m: "sint a * uint b = P" by (simp add: P_def)
    have "sint a * uint b \<le> (2 ^ 63 - 1) * (2 ^ 64 - 1)"
      using sint_nonneg(2) [of a] uint_bounds_64 [of b] False by (intro mult_mono) simp_all
    then have "P div 2 ^ 64 < 2 ^ 63" unfolding m by (intro int_div_less) simp_all
    then have "sint r = uint r" using r by (simp add: sint_cases64)
    then show ?thesis unfolding code m using False r by simp
  qed
qed

end
