(* ===== verification/VM_Pager.thy ===== *)
theory VM_Pager
  imports Prelude
begin

text \<open>
  The kernel of the virtual-memory test environment (\<open>riscv-tests/env/v/vm.c\<close>, 64-bit): it runs a
  user program whose pages are mapped on the first fault, from a list of free frames in a random
  order, and whose accessed and dirty bits are set by further faults.  The content of a page is a
  value of any type, so a \<open>memcpy\<close> of a page is one assignment and a store of the user program any
  function on pages.  Addresses of list nodes are pointers into one of the two arrays; the output of
  a failed assertion is left out, its exit code kept.
\<close>

section \<open>State\<close>

datatype node = User_mapping nat | Freelist_node nat

record freelist_t =
  fl_addr :: u64
  fl_next :: "node option"

record 'p vm =
  user_l3pt :: "nat \<Rightarrow> u64"
  user_mapping :: "nat \<Rightarrow> freelist_t"
  freelist_nodes :: "nat \<Rightarrow> freelist_t"
  freelist_head :: "node option"
  freelist_tail :: "node option"
  pages :: "u64 \<Rightarrow> 'p"

text \<open>
  \<open>Halted\<close> is \<open>terminate\<close> with its code; \<open>Nested\<close> a page fault of the kernel's own access to a user
  page, from which it would not recover.
\<close>

datatype 'a outcome = Running 'a | Halted int | Nested

fun outcome_bind :: "'a outcome \<Rightarrow> ('a \<Rightarrow> 'b outcome) \<Rightarrow> 'b outcome" where
  "outcome_bind (Running x) f = f x"
| "outcome_bind (Halted c) f = Halted c"
| "outcome_bind Nested f = Nested"

definition vm_assert :: "bool \<Rightarrow> 'a outcome \<Rightarrow> 'a outcome" where
  "vm_assert b r = (if b then r else Halted 3)"

definition PGSIZE :: u64 where "PGSIZE = push_bit 12 1"
definition MAX_TEST_PAGES :: nat where "MAX_TEST_PAGES = 63"
definition MEGAPAGE_SIZE :: u64 where "MEGAPAGE_SIZE = 512 * PGSIZE"
definition DRAM_BASE :: u64 where "DRAM_BASE = 0x80000000"

definition PTE_V :: u64 where "PTE_V = 0x001"
definition PTE_R :: u64 where "PTE_R = 0x002"
definition PTE_W :: u64 where "PTE_W = 0x004"
definition PTE_X :: u64 where "PTE_X = 0x008"
definition PTE_U :: u64 where "PTE_U = 0x010"
definition PTE_A :: u64 where "PTE_A = 0x040"
definition PTE_D :: u64 where "PTE_D = 0x080"

lemmas pte_defs = PTE_V_def PTE_R_def PTE_W_def PTE_X_def PTE_U_def PTE_A_def PTE_D_def

definition CAUSE_ILLEGAL_INSTRUCTION :: u64 where "CAUSE_ILLEGAL_INSTRUCTION = 0x2"
definition CAUSE_USER_ECALL :: u64 where "CAUSE_USER_ECALL = 0x8"
definition CAUSE_FETCH_PAGE_FAULT :: u64 where "CAUSE_FETCH_PAGE_FAULT = 0xc"
definition CAUSE_LOAD_PAGE_FAULT :: u64 where "CAUSE_LOAD_PAGE_FAULT = 0xd"
definition CAUSE_STORE_PAGE_FAULT :: u64 where "CAUSE_STORE_PAGE_FAULT = 0xf"

lemmas cause_defs = CAUSE_ILLEGAL_INSTRUCTION_def CAUSE_USER_ECALL_def CAUSE_FETCH_PAGE_FAULT_def
  CAUSE_LOAD_PAGE_FAULT_def CAUSE_STORE_PAGE_FAULT_def

section \<open>Translation\<close>

text \<open>
  The last level of the simulator's page walk (\<open>mmu_t::walk\<close>), without the extension that sets the
  bits in hardware: the physical page of an access, or a page fault.
\<close>

datatype access_type = LOAD | STORE | FETCH

definition walk_leaf :: "bool \<Rightarrow> bool \<Rightarrow> access_type \<Rightarrow> u64 \<Rightarrow> u64 option" where
  "walk_leaf s_mode sum_set type pte =
     (if pte AND (PTE_V OR PTE_R OR PTE_W OR PTE_X) = PTE_V then None
      else if (if pte AND PTE_U \<noteq> 0 then s_mode \<and> (type = FETCH \<or> \<not> sum_set) else \<not> s_mode) then None
      else if pte AND PTE_V = 0 \<or> pte AND PTE_R = 0 \<and> pte AND PTE_W \<noteq> 0 then None
      else if (case type of FETCH \<Rightarrow> pte AND PTE_X = 0 | LOAD \<Rightarrow> pte AND PTE_R = 0
               | STORE \<Rightarrow> \<not> (pte AND PTE_R \<noteq> 0 \<and> pte AND PTE_W \<noteq> 0)) then None
      else let ad = PTE_A OR (if type = STORE then PTE_D else 0)
           in if pte AND ad \<noteq> ad then None else Some (drop_bit 10 pte))"

text \<open>The page of a user address; the kernel sees the same page of the program image through its own map.\<close>

definition home_page :: "u64 \<Rightarrow> u64" where
  "home_page addr = drop_bit 12 (DRAM_BASE + addr)"

definition user_translate :: "access_type \<Rightarrow> u64 \<Rightarrow> 'p vm \<Rightarrow> u64 option" where
  "user_translate type addr s =
     (if addr < MEGAPAGE_SIZE then walk_leaf False False type (user_l3pt s (unat (addr div PGSIZE))) else None)"

section \<open>The kernel\<close>

definition node_at :: "'p vm \<Rightarrow> node \<Rightarrow> freelist_t" where
  "node_at s p = (case p of User_mapping i \<Rightarrow> user_mapping s i | Freelist_node i \<Rightarrow> freelist_nodes s i)"

definition set_node :: "node \<Rightarrow> freelist_t \<Rightarrow> 'p vm \<Rightarrow> 'p vm" where
  "set_node p v s =
     (case p of User_mapping i \<Rightarrow> s\<lparr>user_mapping := (user_mapping s)(i := v)\<rparr>
      | Freelist_node i \<Rightarrow> s\<lparr>freelist_nodes := (freelist_nodes s)(i := v)\<rparr>)"

definition set_pte :: "nat \<Rightarrow> u64 \<Rightarrow> 'p vm \<Rightarrow> 'p vm" where
  "set_pte i pte s = s\<lparr>user_l3pt := (user_l3pt s)(i := pte)\<rparr>"

text \<open>\<open>memcpy((void*)addr, uva2kva(addr), PGSIZE)\<close>, with \<open>SSTATUS_SUM\<close> set.\<close>

definition copy_page :: "u64 \<Rightarrow> 'p vm \<Rightarrow> 'p vm outcome" where
  "copy_page addr s =
     (case walk_leaf True True STORE (user_l3pt s (unat (addr div PGSIZE))) of
        None \<Rightarrow> Nested
      | Some page \<Rightarrow> Running (s\<lparr>pages := (pages s)(page := pages s (home_page addr))\<rparr>))"

definition test_range :: "u64 \<Rightarrow> bool" where
  "test_range addr \<longleftrightarrow> PGSIZE \<le> addr \<and> addr < of_nat MAX_TEST_PAGES * PGSIZE"

definition evict :: "u64 \<Rightarrow> 'p vm \<Rightarrow> 'p vm outcome" where
  "evict addr s =
     vm_assert (test_range addr)
      (let addr = addr div PGSIZE * PGSIZE;
           i = unat (addr div PGSIZE);
           node = User_mapping i
       in if fl_addr (node_at s node) \<noteq> 0
          then vm_assert (user_l3pt s i AND PTE_A \<noteq> 0)
            (outcome_bind
              (case walk_leaf True True LOAD (user_l3pt s i) of
                 None \<Rightarrow> Nested
               | Some page \<Rightarrow>
                   if pages s page \<noteq> pages s (home_page addr)
                   then vm_assert (user_l3pt s i AND PTE_D \<noteq> 0) (copy_page addr s)
                   else Running s)
              (\<lambda>s. let s = s\<lparr>user_mapping := (user_mapping s)(i := (user_mapping s i)\<lparr>fl_addr := 0\<rparr>)\<rparr>
                   in Running
                     (case freelist_tail s of
                        None \<Rightarrow> s\<lparr>freelist_head := Some node, freelist_tail := Some node\<rparr>
                      | Some tail \<Rightarrow>
                          (set_node tail ((node_at s tail)\<lparr>fl_next := Some node\<rparr>) s)\<lparr>freelist_tail := Some node\<rparr>)))
          else Running s)"

definition handle_fault :: "u64 \<Rightarrow> u64 \<Rightarrow> 'p vm \<Rightarrow> 'p vm outcome" where
  "handle_fault addr cause s =
     vm_assert (test_range addr)
      (let addr = addr div PGSIZE * PGSIZE;
           i = unat (addr div PGSIZE)
       in if user_l3pt s i \<noteq> 0
          then if user_l3pt s i AND PTE_A = 0 then Running (set_pte i (user_l3pt s i OR PTE_A) s)
               else vm_assert (user_l3pt s i AND PTE_D = 0 \<and> cause = CAUSE_STORE_PAGE_FAULT)
                      (Running (set_pte i (user_l3pt s i OR PTE_D) s))
          else case freelist_head s of
            None \<Rightarrow> Halted 3
          | Some node \<Rightarrow>
              let s = s\<lparr>freelist_head := fl_next (node_at s node)\<rparr>;
                  s = (if freelist_head s = freelist_tail s then s\<lparr>freelist_tail := None\<rparr> else s);
                  new_pte = push_bit 10 (drop_bit 12 (fl_addr (node_at s node))) OR PTE_V OR PTE_U OR PTE_R OR PTE_W OR PTE_X;
                  s = set_pte i (new_pte OR PTE_A OR PTE_D) s
              in vm_assert (fl_addr (user_mapping s i) = 0)
                   (outcome_bind (copy_page addr (set_node (User_mapping i) (node_at s node) s))
                     (\<lambda>s. Running (set_pte i new_pte s))))"

record trapframe_t =
  tf_a0 :: u64
  tf_epc :: u64
  tf_badvaddr :: u64
  tf_cause :: u64

text \<open>\<open>insn\<close> is the instruction at the address of the trap; \<open>fssr x0\<close> is its encoding.\<close>

definition handle_trap :: "u32 \<Rightarrow> trapframe_t \<Rightarrow> 'p vm \<Rightarrow> 'p vm outcome" where
  "handle_trap insn tf s =
     (if tf_cause tf = CAUSE_USER_ECALL
      then outcome_bind (fold (\<lambda>i r. outcome_bind r (evict (of_nat i * PGSIZE))) [1..<MAX_TEST_PAGES] (Running s))
             (\<lambda>s. Halted (sint (ucast (tf_a0 tf) :: u32)))
      else if tf_cause tf = CAUSE_ILLEGAL_INSTRUCTION
      then vm_assert (tf_epc tf mod 4 = 0) (if insn = 0x00301073 then Halted 1 else Halted 3)
      else if tf_cause tf = CAUSE_FETCH_PAGE_FAULT \<or> tf_cause tf = CAUSE_LOAD_PAGE_FAULT \<or> tf_cause tf = CAUSE_STORE_PAGE_FAULT
      then handle_fault (tf_badvaddr tf) (tf_cause tf) s
      else Halted 3)"

text \<open>The free list that \<open>vm_boot\<close> builds; the page table and the mappings start out zero.\<close>

definition LFSR_NEXT :: "u32 \<Rightarrow> u32" where
  "LFSR_NEXT x = push_bit 5 ((x XOR drop_bit 1 x) AND 1) OR drop_bit 1 x"

definition boot_freelist :: "u32 \<Rightarrow> nat \<Rightarrow> freelist_t" where
  "boot_freelist random =
     (let random = 1 + random mod of_nat MAX_TEST_PAGES;
          (nodes, random) = fold (\<lambda>i (nodes, random).
              (nodes(i := \<lparr>fl_addr = DRAM_BASE + ucast (of_nat MAX_TEST_PAGES + random) * PGSIZE, fl_next = Some (Freelist_node (i + 1))\<rparr>),
               LFSR_NEXT random))
            [0..<MAX_TEST_PAGES] (\<lambda>_. \<lparr>fl_addr = 0, fl_next = None\<rparr>, random)
      in nodes(MAX_TEST_PAGES - 1 := (nodes (MAX_TEST_PAGES - 1))\<lparr>fl_next := None\<rparr>))"

definition vm_boot :: "u32 \<Rightarrow> (u64 \<Rightarrow> 'p) \<Rightarrow> 'p vm" where
  "vm_boot entropy mem =
     \<lparr>user_l3pt = (\<lambda>_. 0), user_mapping = (\<lambda>_. \<lparr>fl_addr = 0, fl_next = None\<rparr>), freelist_nodes = boot_freelist entropy,
      freelist_head = Some (Freelist_node 0), freelist_tail = Some (Freelist_node (MAX_TEST_PAGES - 1)), pages = mem\<rparr>"

section \<open>The user program\<close>

text \<open>
  An access that faults enters the kernel and is tried again.  A user program is a list of accesses;
  a load delivers the content of its page, a store changes it.
\<close>

definition fault_cause :: "access_type \<Rightarrow> u64" where
  "fault_cause type = (case type of FETCH \<Rightarrow> CAUSE_FETCH_PAGE_FAULT | LOAD \<Rightarrow> CAUSE_LOAD_PAGE_FAULT | STORE \<Rightarrow> CAUSE_STORE_PAGE_FAULT)"

definition fault_frame :: "access_type \<Rightarrow> u64 \<Rightarrow> trapframe_t" where
  "fault_frame type addr = \<lparr>tf_a0 = 0, tf_epc = 0, tf_badvaddr = addr, tf_cause = fault_cause type\<rparr>"

partial_function (option) user_access :: "access_type \<Rightarrow> u64 \<Rightarrow> 'p vm \<Rightarrow> ('p vm \<times> u64) outcome option" where
  "user_access type addr s =
     (case user_translate type addr s of
        Some page \<Rightarrow> Some (Running (s, page))
      | None \<Rightarrow>
          (case handle_trap 0 (fault_frame type addr) s of
             Running s' \<Rightarrow> user_access type addr s'
           | Halted c \<Rightarrow> Some (Halted c)
           | Nested \<Rightarrow> Some Nested))"

datatype 'p user_op = Load u64 | Store u64 "'p \<Rightarrow> 'p" | Fetch u64

fun op_addr :: "'p user_op \<Rightarrow> u64" where
  "op_addr (Load a) = a" | "op_addr (Store a f) = a" | "op_addr (Fetch a) = a"

fun op_type :: "'p user_op \<Rightarrow> access_type" where
  "op_type (Load a) = LOAD" | "op_type (Store a f) = STORE" | "op_type (Fetch a) = FETCH"

fun op_effect :: "'p user_op \<Rightarrow> 'p \<Rightarrow> 'p" where
  "op_effect (Store a f) p = f p" | "op_effect (Load a) p = p" | "op_effect (Fetch a) p = p"

fun run_user :: "'p user_op list \<Rightarrow> 'p vm \<Rightarrow> ('p list \<times> 'p vm) outcome option" where
  "run_user [] s = Some (Running ([], s))"
| "run_user (x # xs) s =
     Option.bind (user_access (op_type x) (op_addr x) s)
       (\<lambda>r. case r of
          Running (s, page) \<Rightarrow>
            map_option (\<lambda>r. outcome_bind r (\<lambda>(ps, s'). Running (pages s page # ps, s')))
              (run_user xs (s\<lparr>pages := (pages s)(page := op_effect x (pages s page))\<rparr>))
        | Halted c \<Rightarrow> Some (Halted c)
        | Nested \<Rightarrow> Some Nested)"

text \<open>The specification: the same accesses to a flat memory of pages.\<close>

fun run_flat :: "'p user_op list \<Rightarrow> (u64 \<Rightarrow> 'p) \<Rightarrow> 'p list \<times> (u64 \<Rightarrow> 'p)" where
  "run_flat [] m = ([], m)"
| "run_flat (x # xs) m =
     (let v = op_addr x div PGSIZE;
          (ps, m') = run_flat xs (m(v := op_effect x (m v)))
      in (m v # ps, m'))"

section \<open>Page table entries\<close>

lemma push_or_fields:
  fixes p f c :: u64
  assumes p: "uint p < 2 ^ 54" and f: "uint f < 2 ^ 10"
  shows "drop_bit 10 (push_bit 10 p OR f) = p" "uint c < 2 ^ 10 \<Longrightarrow> (push_bit 10 p OR f) AND c = f AND c"
proof -
  have high: "\<not> bit w n" if "uint w < 2 ^ m" "m \<le> n" for w :: u64 and m n
  proof -
    have "take_bit m (uint w) = uint w" using that(1) by (simp add: take_bit_int_eq_self)
    then have "\<not> bit (uint w) n" using that(2) by (metis bit_take_bit_iff not_le)
    then show ?thesis by (auto simp: bit_uint_iff dest: bit_imp_le_length)
  qed
  show "drop_bit 10 (push_bit 10 p OR f) = p"
  proof (rule bit_eqI)
    fix n assume "possible_bit TYPE(64 word) n"
    then have n: "n < 64" by simp
    show "bit (drop_bit 10 (push_bit 10 p OR f)) n = bit p n"
      using high [OF f, of "n + 10"] high [OF p, of n] n by (cases "n < 54") (auto simp: bit_simps add.commute)
  qed
  show "(push_bit 10 p OR f) AND c = f AND c" if c: "uint c < 2 ^ 10"
  proof (rule bit_eqI)
    fix n
    show "bit ((push_bit 10 p OR f) AND c) n = bit (f AND c) n"
      using high [OF c, of n] by (auto simp: bit_simps)
  qed
qed

text \<open>The three states of a mapped page: not accessed, accessed, written.\<close>

definition leaf_flags :: "u64 set" where "leaf_flags = {0x1F, 0x5F, 0xDF}"

definition leaf_pte :: "u64 \<Rightarrow> u64 \<Rightarrow> u64" where
  "leaf_pte page f = push_bit 10 page OR f"

lemma leaf_pte:
  assumes "uint page < 2 ^ 54" "f \<in> leaf_flags"
  shows "drop_bit 10 (leaf_pte page f) = page" "uint c < 2 ^ 10 \<Longrightarrow> leaf_pte page f AND c = f AND c"
    "leaf_pte page f \<noteq> 0" "leaf_pte page f OR PTE_A = leaf_pte page (f OR PTE_A)" "leaf_pte page f OR PTE_D = leaf_pte page (f OR PTE_D)"
proof -
  have f: "uint f < 2 ^ 10" using assms(2) by (auto simp: leaf_flags_def)
  show "drop_bit 10 (leaf_pte page f) = page" "uint c < 2 ^ 10 \<Longrightarrow> leaf_pte page f AND c = f AND c"
    unfolding leaf_pte_def using push_or_fields [OF assms(1) f] by blast+
  have "leaf_pte page f AND 1 = f AND 1" unfolding leaf_pte_def by (rule push_or_fields(2) [OF assms(1) f]) simp
  moreover have "f AND 1 \<noteq> 0" using assms(2) by (auto simp: leaf_flags_def)
  ultimately show "leaf_pte page f \<noteq> 0" by auto
  show "leaf_pte page f OR PTE_A = leaf_pte page (f OR PTE_A)" "leaf_pte page f OR PTE_D = leaf_pte page (f OR PTE_D)"
    by (simp_all add: leaf_pte_def or.assoc)
qed

lemma walk_leaf_page:
  assumes "uint page < 2 ^ 54" "f \<in> leaf_flags" "s_mode \<Longrightarrow> type \<noteq> FETCH"
  shows "walk_leaf s_mode s_mode type (leaf_pte page f) =
    (if f AND PTE_A = 0 \<or> type = STORE \<and> f AND PTE_D = 0 then None else Some page)"
proof -
  have a: "leaf_pte page f AND c = f AND c" if "uint c < 2 ^ 10" for c
    using leaf_pte(2) [OF assms(1,2)] that .
  have "leaf_pte page f AND (PTE_V OR PTE_R OR PTE_W OR PTE_X) = f AND (PTE_V OR PTE_R OR PTE_W OR PTE_X)"
    "leaf_pte page f AND PTE_U = f AND PTE_U" "leaf_pte page f AND PTE_V = f AND PTE_V" "leaf_pte page f AND PTE_R = f AND PTE_R"
    "leaf_pte page f AND PTE_W = f AND PTE_W" "leaf_pte page f AND PTE_X = f AND PTE_X"
    "leaf_pte page f AND (PTE_A OR (if type = STORE then PTE_D else 0)) = f AND (PTE_A OR (if type = STORE then PTE_D else 0))"
    by (rule a; simp add: pte_defs)+
  note e = this leaf_pte(1) [OF assms(1,2)]
  show ?thesis unfolding walk_leaf_def Let_def e
    using assms(2,3) by (cases type; auto simp: leaf_flags_def pte_defs)
qed

section \<open>The free list\<close>

definition lfsr_orbit :: "u32 list" where
  "lfsr_orbit = [1, 32, 16, 8, 4, 2, 33, 48, 24, 12, 6, 35, 17, 40, 20, 10, 37, 50, 57, 60, 30, 47, 23, 11, 5, 34, 49, 56, 28,
     14, 39, 19, 9, 36, 18, 41, 52, 26, 45, 54, 59, 29, 46, 55, 27, 13, 38, 51, 25, 44, 22, 43, 21, 42, 53, 58, 61, 62, 63, 31,
     15, 7, 3]"

lemma lfsr_orbit_step: "map LFSR_NEXT lfsr_orbit = rotate1 lfsr_orbit"
  by (simp add: lfsr_orbit_def LFSR_NEXT_def)

lemma lfsr_orbit_sorted: "sort (map unat lfsr_orbit) = [1..<64]"
  by (simp add: lfsr_orbit_def upt_rec)

lemma lfsr_orbit_set: "distinct lfsr_orbit" "length lfsr_orbit = 63" "unat ` set lfsr_orbit = {1..<64}"
proof -
  have "distinct (sort (map unat lfsr_orbit))" unfolding lfsr_orbit_sorted by simp
  then have "distinct (map unat lfsr_orbit)" by (simp only: distinct_sort)
  then show "distinct lfsr_orbit" by (simp only: distinct_map)
  have "length (sort (map unat lfsr_orbit)) = 63" unfolding lfsr_orbit_sorted by simp
  then show "length lfsr_orbit = 63" by (simp only: length_sort length_map)
  have "set (sort (map unat lfsr_orbit)) = {1..<64}" unfolding lfsr_orbit_sorted by simp
  then show "unat ` set lfsr_orbit = {1..<64}" by (simp only: set_sort set_map)
qed

lemma lfsr_orbit_nth: "j < 63 \<Longrightarrow> (LFSR_NEXT ^^ i) (lfsr_orbit ! j) = lfsr_orbit ! ((j + i) mod 63)"
proof (induction i)
  case (Suc i)
  have "LFSR_NEXT (lfsr_orbit ! m) = lfsr_orbit ! (Suc m mod 63)" if "m < 63" for m
  proof -
    have "LFSR_NEXT (lfsr_orbit ! m) = map LFSR_NEXT lfsr_orbit ! m" using that by (simp add: lfsr_orbit_set)
    also have "\<dots> = lfsr_orbit ! (Suc m mod 63)"
      unfolding lfsr_orbit_step using nth_rotate1 [of m lfsr_orbit] that by (simp add: lfsr_orbit_set)
    finally show ?thesis .
  qed
  from this [of "(j + i) mod 63"] show ?case using Suc by (simp add: mod_Suc_eq)
qed simp

lemma lfsr_cycle:
  fixes e :: u32
  obtains j where "j < 63" "1 + e mod 63 = lfsr_orbit ! j"
proof -
  define n where "n = unat (1 + e mod 63)"
  have "unat (e mod 63) < 63" by (simp add: unat_mod)
  then have n: "n = 1 + unat (e mod 63)" unfolding n_def by (subst unat_add_lem [THEN iffD1]) simp_all
  then have "n \<in> unat ` set lfsr_orbit" unfolding lfsr_orbit_set(3) using \<open>unat (e mod 63) < 63\<close> by simp
  then have "1 + e mod 63 \<in> set lfsr_orbit" unfolding n_def by (auto simp only: word_unat_eq_iff [symmetric])
  then show thesis using that unfolding in_set_conv_nth lfsr_orbit_set(2) by metis
qed

lemma boot_freelist_loop:
  "fold (\<lambda>i (nodes, random). (nodes(i := f i random), LFSR_NEXT random)) [0..<n] (nodes, random) =
     (\<lambda>i. if i < n then f i ((LFSR_NEXT ^^ i) random) else nodes i, (LFSR_NEXT ^^ n) random)"
  by (induction n) (auto simp: fun_eq_iff less_Suc_eq)

text \<open>The physical page of the node \<open>i\<close>: the test pages are 1 to 62, the frames 64 to 126.\<close>

definition frame_page :: "u32 \<Rightarrow> nat \<Rightarrow> u64" where
  "frame_page entropy i = drop_bit 12 (fl_addr (boot_freelist entropy i))"

lemma boot_freelist_nodes:
  assumes "i < 63"
  shows "fl_next (boot_freelist e i) = (if i = 62 then None else Some (Freelist_node (Suc i)))"
    "fl_addr (boot_freelist e i) \<noteq> 0" "uint (frame_page e i) = 0x8003F + uint ((LFSR_NEXT ^^ i) (1 + e mod 63))"
    "1 \<le> uint ((LFSR_NEXT ^^ i) (1 + e mod 63))" "uint ((LFSR_NEXT ^^ i) (1 + e mod 63)) \<le> 63"
proof -
  define r where "r = (LFSR_NEXT ^^ i) (1 + e mod 63)"
  obtain j where "j < 63" "1 + e mod 63 = lfsr_orbit ! j" by (rule lfsr_cycle)
  then have "r \<in> set lfsr_orbit" by (simp add: r_def lfsr_orbit_nth lfsr_orbit_set)
  then have "unat r \<in> {1..<64}" unfolding lfsr_orbit_set(3) [symmetric] by (rule imageI)
  then have "1 \<le> unat r" "unat r \<le> 63" unfolding atLeastLessThan_iff by linarith+
  moreover have "uint r = int (unat r)" by simp
  ultimately have r: "1 \<le> uint r" "uint r \<le> 63" by linarith+
  show "1 \<le> uint ((LFSR_NEXT ^^ i) (1 + e mod 63))" "uint ((LFSR_NEXT ^^ i) (1 + e mod 63)) \<le> 63" using r by (simp_all add: r_def)
  define a where "a = DRAM_BASE + ucast (of_nat MAX_TEST_PAGES + r) * PGSIZE"
  have node: "fl_addr (boot_freelist e i) = a" "fl_next (boot_freelist e i) = (if i = 62 then None else Some (Freelist_node (Suc i)))"
    using assms by (auto simp: boot_freelist_def Let_def boot_freelist_loop MAX_TEST_PAGES_def r_def a_def)
  define b where "b = (ucast (of_nat MAX_TEST_PAGES + r) :: u64)"
  have "uint b = 63 + uint r" using r by (simp add: b_def MAX_TEST_PAGES_def uint_up_ucast is_up uint_word_ariths)
  then have "uint (b * PGSIZE) = (63 + uint r) * 4096" using r by (simp add: PGSIZE_def uint_word_ariths)
  then have "uint (ucast (of_nat MAX_TEST_PAGES + r) * PGSIZE) = (63 + uint r) * 4096" by (simp only: b_def)
  then have a: "uint a = 0x80000000 + (63 + uint r) * 4096"
    using r by (simp add: a_def DRAM_BASE_def uint_word_ariths)
  have "uint a \<noteq> 0" using a r by simp
  then show "fl_addr (boot_freelist e i) \<noteq> 0" unfolding node(1) by auto
  show "fl_next (boot_freelist e i) = (if i = 62 then None else Some (Freelist_node (Suc i)))" by (rule node)
  have "uint (frame_page e i) = (0x80000000 + (63 + uint r) * 4096) div 2 ^ 12" unfolding frame_page_def node(1) uint_drop_bit_div a ..
  also have "0x80000000 + (63 + uint r) * 4096 = (0x8003F + uint r) * 2 ^ 12" by simp
  finally show "uint (frame_page e i) = 0x8003F + uint ((LFSR_NEXT ^^ i) (1 + e mod 63))" unfolding r_def by simp
qed

lemma frame_page_inj:
  assumes "i < 63" "k < 63" "frame_page e i = frame_page e k"
  shows "i = k"
proof -
  obtain j where j: "j < 63" "1 + e mod 63 = lfsr_orbit ! j" by (rule lfsr_cycle)
  have "uint ((LFSR_NEXT ^^ i) (1 + e mod 63)) = uint ((LFSR_NEXT ^^ k) (1 + e mod 63))"
    using assms boot_freelist_nodes(3) [of i e] boot_freelist_nodes(3) [of k e] by simp
  then have "lfsr_orbit ! ((j + i) mod 63) = lfsr_orbit ! ((j + k) mod 63)"
    unfolding j(2) lfsr_orbit_nth [OF j(1)] by (simp only: word_uint_eq_iff)
  then have "(j + i) mod 63 = (j + k) mod 63" by (simp add: nth_eq_iff_index_eq lfsr_orbit_set)
  moreover have "n mod 63 = (if n < 63 then n else n - 63)" if "n < 126" for n :: nat using that by (simp add: mod_if)
  ultimately show "i = k" using assms(1,2) j(1) by (simp split: if_splits)
qed

section \<open>Pages of the test\<close>

definition home :: "nat \<Rightarrow> u64" where
  "home i = word_of_nat (0x80000 + i)"

lemma uint_home: "i \<le> 62 \<Longrightarrow> uint (home i) = 0x80000 + int i"
  by (simp only: home_def uint_nat unat_of_nat) simp

lemma page_words: "uint PGSIZE = 4096" "uint DRAM_BASE = 0x80000000" "uint MEGAPAGE_SIZE = 512 * 4096"
  "uint (of_nat MAX_TEST_PAGES * PGSIZE :: u64) = 63 * 4096"
  by (simp_all add: PGSIZE_def DRAM_BASE_def MEGAPAGE_SIZE_def MAX_TEST_PAGES_def)

lemma test_range_int: "test_range addr \<longleftrightarrow> 4096 \<le> uint addr \<and> uint addr < 63 * 4096"
  unfolding test_range_def word_le_def word_less_def page_words ..

lemma home_page_int: "uint addr < 64 * 4096 \<Longrightarrow> uint (home_page addr) = 0x80000 + uint addr div 4096"
proof -
  assume a: "uint addr < 64 * 4096"
  then have "uint (DRAM_BASE + addr) = 0x80000000 + uint addr"
    by (subst uint_add_lem [THEN iffD1]) (simp_all add: page_words)
  then have "uint (home_page addr) = (0x80000000 + uint addr) div 4096" by (simp add: home_page_def uint_drop_bit_div)
  also have "0x80000000 + uint addr = uint addr + 0x80000 * 4096" by simp
  finally show ?thesis by simp
qed

lemma test_range_index:
  assumes "test_range addr"
  defines "i \<equiv> unat (addr div PGSIZE)"
  shows "1 \<le> i" "i \<le> 62" "addr div PGSIZE * PGSIZE div PGSIZE = addr div PGSIZE" "home_page addr = home i"
    "home_page (addr div PGSIZE * PGSIZE) = home i" "addr < MEGAPAGE_SIZE" "addr div PGSIZE = word_of_nat i"
proof -
  have A: "4096 \<le> uint addr" "uint addr < 63 * 4096" using assms(1) unfolding test_range_int by blast+
  define d where "d = uint addr div 4096"
  have d: "1 \<le> d" "d \<le> 62" "d * 4096 \<le> uint addr" using A unfolding d_def by linarith+
  have u: "uint (addr div PGSIZE) = d" by (simp add: uint_div page_words d_def)
  have i: "int i = d" by (simp add: i_def u flip: uint_nat)
  show "1 \<le> i" "i \<le> 62" using d i by linarith+
  have m: "uint (addr div PGSIZE * PGSIZE) = d * 4096"
    using d by (simp add: uint_word_ariths u page_words)
  then show "addr div PGSIZE * PGSIZE div PGSIZE = addr div PGSIZE"
    unfolding word_uint_eq_iff by (simp add: uint_div page_words d_def)
  have h: "uint (home i) = 0x80000 + d" using uint_home [OF \<open>i \<le> 62\<close>] i by simp
  show "home_page addr = home i" unfolding word_uint_eq_iff h using home_page_int [of addr] A by (simp add: d_def)
  show "home_page (addr div PGSIZE * PGSIZE) = home i"
    unfolding word_uint_eq_iff h using home_page_int [of "addr div PGSIZE * PGSIZE"] d unfolding m by simp
  show "addr < MEGAPAGE_SIZE" unfolding word_less_def page_words using A by simp
  show "addr div PGSIZE = word_of_nat i" by (simp add: i_def)
qed

lemma test_range_page:
  assumes "1 \<le> i" "i \<le> 62"
  shows "test_range (of_nat i * PGSIZE)" "unat (of_nat i * PGSIZE div PGSIZE :: u64) = i"
proof -
  have u: "uint (of_nat i * PGSIZE :: u64) = int i * 4096"
  proof -
    define w where "w = (of_nat i :: u64)"
    have "uint w = int i" unfolding w_def using assms by (simp only: uint_nat unat_of_nat) simp
    then have "uint (w * PGSIZE) = int i * 4096" using assms by (subst uint_mult_lem [THEN iffD1]) (simp_all add: page_words)
    then show ?thesis unfolding w_def .
  qed
  then show "test_range (of_nat i * PGSIZE)" unfolding test_range_int using assms by simp
  have "uint (of_nat i * PGSIZE div PGSIZE :: u64) = int i" by (simp add: uint_div u page_words)
  then show "unat (of_nat i * PGSIZE div PGSIZE :: u64) = i" by (simp add: unat_eq_nat_uint)
qed

lemma frame_not_home: "k < 63 \<Longrightarrow> i \<le> 62 \<Longrightarrow> frame_page e k \<noteq> home i"
  using boot_freelist_nodes(3,4) [of k e] uint_home [of i] by fastforce

lemma home_inj: "i \<le> 62 \<Longrightarrow> j \<le> 62 \<Longrightarrow> home i = home j \<Longrightarrow> i = j"
  using uint_home [of i] uint_home [of j] by (metis add_left_cancel of_nat_eq_iff)

lemma frame_page_small: "k < 63 \<Longrightarrow> uint (frame_page e k) < 2 ^ 54"
  using boot_freelist_nodes(3,5) [of k e] by simp

section \<open>The invariant\<close>

definition mapped :: "'p vm \<Rightarrow> nat set" where
  "mapped s = {i. user_l3pt s i \<noteq> 0}"

text \<open>
  The frames used so far are the first nodes of the list, \<open>slot\<close> says which page has which; a page
  that was not written agrees with its home.
\<close>

definition page_inv :: "u32 \<Rightarrow> (u64 \<Rightarrow> 'p) \<Rightarrow> (nat \<Rightarrow> nat) \<Rightarrow> 'p vm \<Rightarrow> nat \<Rightarrow> bool" where
  "page_inv e mem slot s i \<longleftrightarrow>
     fl_addr (user_mapping s i) = fl_addr (boot_freelist e (slot i)) \<and>
     (\<exists>f\<in>leaf_flags. user_l3pt s i = leaf_pte (frame_page e (slot i)) f \<and>
        (f AND PTE_D = 0 \<longrightarrow> pages s (frame_page e (slot i)) = mem (home i)))"

definition vm_inv :: "u32 \<Rightarrow> (u64 \<Rightarrow> 'p) \<Rightarrow> (nat \<Rightarrow> nat) \<Rightarrow> 'p vm \<Rightarrow> bool" where
  "vm_inv e mem slot s \<longleftrightarrow>
     mapped s \<subseteq> {1..62} \<and> bij_betw slot (mapped s) {0..<card (mapped s)} \<and>
     freelist_nodes s = boot_freelist e \<and> freelist_head s = Some (Freelist_node (card (mapped s))) \<and>
     (\<forall>i\<in>{1..62}. pages s (home i) = mem (home i)) \<and>
     (\<forall>i. if i \<in> mapped s then page_inv e mem slot s i else fl_addr (user_mapping s i) = 0)"

definition accessed :: "'p vm \<Rightarrow> bool" where
  "accessed s \<longleftrightarrow> (\<forall>i\<in>mapped s. user_l3pt s i AND PTE_A \<noteq> 0)"

definition flat :: "'p vm \<Rightarrow> nat \<Rightarrow> 'p" where
  "flat s i = (if user_l3pt s i = 0 then pages s (home i) else pages s (drop_bit 10 (user_l3pt s i)))"

lemma vm_inv_slot:
  assumes "vm_inv e mem slot s" "i \<in> mapped s"
  shows "slot i < card (mapped s)" "slot i < 63" "1 \<le> i" "i \<le> 62" "page_inv e mem slot s i"
proof -
  show i: "slot i < card (mapped s)" "1 \<le> i" "i \<le> 62" "page_inv e mem slot s i"
    using assms by (auto simp: vm_inv_def bij_betw_def)
  have "card (mapped s) \<le> card {1..62 :: nat}" using assms(1) unfolding vm_inv_def by (intro card_mono) auto
  then show "slot i < 63" using i(1) by simp
qed

lemma vm_inv_pte:
  assumes "vm_inv e mem slot s" "i \<in> mapped s"
  obtains f where "f \<in> leaf_flags" "user_l3pt s i = leaf_pte (frame_page e (slot i)) f"
    "f AND PTE_D \<noteq> 0 \<or> pages s (frame_page e (slot i)) = mem (home i)"
    "drop_bit 10 (user_l3pt s i) = frame_page e (slot i)"
  using vm_inv_slot(2,5) [OF assms] leaf_pte(1) [OF frame_page_small] unfolding page_inv_def by metis

lemma vm_inv_distinct:
  assumes "vm_inv e mem slot s" "i \<in> mapped s" "j \<in> mapped s" "frame_page e (slot i) = frame_page e (slot j)"
  shows "i = j"
proof -
  have "slot i = slot j" using frame_page_inj assms(4) vm_inv_slot(2) [OF assms(1)] assms(2,3) by blast
  moreover have "inj_on slot (mapped s)" using assms(1) by (simp add: vm_inv_def bij_betw_def)
  ultimately show ?thesis using assms(2,3) by (simp add: inj_on_def)
qed

section \<open>Faults\<close>

lemma leaf_flag_cases:
  assumes "f \<in> leaf_flags"
  obtains (fresh) "f = 0x1F" "f AND PTE_A = 0" "f AND PTE_D = 0" | (clean) "f = 0x5F" "f AND PTE_A \<noteq> 0" "f AND PTE_D = 0"
    | (dirty) "f = 0xDF" "f AND PTE_A \<noteq> 0" "f AND PTE_D \<noteq> 0"
  using assms by (auto simp: leaf_flags_def pte_defs)

lemma flat_mapped:
  assumes "vm_inv e mem slot s" "i \<in> mapped s"
  shows "flat s i = pages s (frame_page e (slot i))"
  by (rule vm_inv_pte [OF assms]) (use assms(2) in \<open>simp add: flat_def mapped_def\<close>)

text \<open>Setting a bit of an entry.\<close>

lemma set_flags:
  assumes inv: "vm_inv e mem slot s" "i \<in> mapped s" and pte: "user_l3pt s i = leaf_pte (frame_page e (slot i)) f" "f \<in> leaf_flags"
    and f': "f' \<in> leaf_flags" "f' AND PTE_D = 0 \<Longrightarrow> f AND PTE_D = 0"
  defines "s' \<equiv> set_pte i (leaf_pte (frame_page e (slot i)) f') s"
  shows "vm_inv e mem slot s'" "flat s' = flat s" "mapped s' = mapped s"
proof -
  note small = frame_page_small [OF vm_inv_slot(2) [OF inv], of e]
  have nz: "leaf_pte (frame_page e (slot i)) f' \<noteq> 0" "leaf_pte (frame_page e (slot i)) f \<noteq> 0"
    using leaf_pte(3) [OF small] f'(1) pte(2) by blast+
  show m: "mapped s' = mapped s" using inv(2) nz by (auto simp: mapped_def s'_def set_pte_def)
  show "flat s' = flat s"
    using nz leaf_pte(1) [OF small] f'(1) pte by (auto simp: flat_def s'_def set_pte_def fun_eq_iff)
  have "f AND PTE_D = 0 \<Longrightarrow> pages s (frame_page e (slot i)) = mem (home i)"
  proof -
    assume d: "f AND PTE_D = 0"
    obtain g where g: "g \<in> leaf_flags" "user_l3pt s i = leaf_pte (frame_page e (slot i)) g"
      "g AND PTE_D \<noteq> 0 \<or> pages s (frame_page e (slot i)) = mem (home i)" using inv by (rule vm_inv_pte)
    have "g AND PTE_D = f AND PTE_D"
      using leaf_pte(2) [OF small g(1), of PTE_D] leaf_pte(2) [OF small pte(2), of PTE_D] g(2) pte(1) by (simp add: PTE_D_def)
    then show ?thesis using g(3) d by simp
  qed
  then have "page_inv e mem slot s' i"
    using vm_inv_slot(5) [OF inv] f' unfolding page_inv_def by (auto simp: s'_def set_pte_def)
  moreover have "page_inv e mem slot s' j \<longleftrightarrow> page_inv e mem slot s j" if "j \<noteq> i" for j
    using that by (simp add: page_inv_def s'_def set_pte_def)
  ultimately have "if j \<in> mapped s then page_inv e mem slot s' j else fl_addr (user_mapping s j) = 0" for j
    using inv unfolding vm_inv_def by metis
  moreover have "user_mapping s' = user_mapping s" "freelist_nodes s' = freelist_nodes s" "freelist_head s' = freelist_head s" "pages s' = pages s"
    by (simp_all add: s'_def set_pte_def)
  ultimately show "vm_inv e mem slot s'" using inv(1) unfolding vm_inv_def m by simp
qed

text \<open>The first fault on a page takes the next frame and copies the page into it.\<close>

lemma new_pte:
  assumes "k < 63"
  shows "push_bit 10 (drop_bit 12 (fl_addr (boot_freelist e k))) OR PTE_V OR PTE_U OR PTE_R OR PTE_W OR PTE_X = leaf_pte (frame_page e k) 0x1F"
    "leaf_pte (frame_page e k) 0x1F OR PTE_A OR PTE_D = leaf_pte (frame_page e k) 0xDF"
proof -
  show "push_bit 10 (drop_bit 12 (fl_addr (boot_freelist e k))) OR PTE_V OR PTE_U OR PTE_R OR PTE_W OR PTE_X = leaf_pte (frame_page e k) 0x1F"
    unfolding frame_page_def [symmetric] leaf_pte_def by (simp add: or.assoc pte_defs)
  show "leaf_pte (frame_page e k) 0x1F OR PTE_A OR PTE_D = leaf_pte (frame_page e k) 0xDF"
    unfolding leaf_pte_def by (simp add: or.assoc pte_defs)
qed

lemma fault_maps:
  assumes inv: "vm_inv e mem slot s" and r: "test_range addr" and i: "i = unat (addr div PGSIZE)" "user_l3pt s i = 0"
  defines "k \<equiv> card (mapped s)"
  shows "\<exists>s'. handle_fault addr cause s = Running s' \<and> vm_inv e mem (slot(i := k)) s' \<and> mapped s' = insert i (mapped s) \<and>
    user_l3pt s' = (user_l3pt s)(i := leaf_pte (frame_page e k) 0x1F) \<and> (\<forall>j\<in>{1..62}. flat s' j = flat s j)"
proof -
  note ri = test_range_index [OF r, folded i(1)]
  have new: "i \<notin> mapped s" using i(2) by (simp add: mapped_def)
  have fin: "finite (mapped s)" "mapped s \<subseteq> {1..62}" using inv by (auto simp: vm_inv_def intro: finite_subset)
  have "card (insert i (mapped s)) \<le> card {1..62 :: nat}" using fin(2) ri(1,2) by (intro card_mono) auto
  then have k: "k < 62" using new fin by (simp add: k_def)
  then have k63: "k < 63" by simp
  have head: "freelist_head s = Some (Freelist_node k)" "freelist_nodes s = boot_freelist e"
    using inv by (simp_all add: vm_inv_def k_def)
  define s1 where "s1 = s\<lparr>freelist_head := Some (Freelist_node (Suc k))\<rparr>"
  define t where "t = (if freelist_head s1 = freelist_tail s1 then s1\<lparr>freelist_tail := None\<rparr> else s1)"
  have t: "freelist_head t = Some (Freelist_node (Suc k))" "freelist_nodes t = boot_freelist e" "user_l3pt t = user_l3pt s"
    "user_mapping t = user_mapping s" "pages t = pages s"
    using head(2) by (simp_all add: t_def s1_def)
  define s' where "s' = t\<lparr>user_l3pt := (user_l3pt s)(i := leaf_pte (frame_page e k) 0x1F),
     user_mapping := (user_mapping s)(i := boot_freelist e k), pages := (pages s)(frame_page e k := pages s (home i))\<rparr>"
  have unused: "fl_addr (user_mapping s i) = 0" using inv new by (simp add: vm_inv_def)
  have code: "handle_fault addr cause s = Running s'"
  proof -
    have nx: "fl_next (node_at s (Freelist_node k)) = Some (Freelist_node (Suc k))"
      using boot_freelist_nodes(1) [OF k63, of e] k by (simp add: node_at_def head(2))
    have w: "walk_leaf True True STORE (leaf_pte (frame_page e k) 0xDF) = Some (frame_page e k)"
      using walk_leaf_page [OF frame_page_small [OF k63], of "0xDF" True STORE e] by (simp add: leaf_flags_def pte_defs)
    have a: "fl_addr (node_at t (Freelist_node k)) = fl_addr (boot_freelist e k)" by (simp add: node_at_def t)
    have "handle_fault addr cause s =
      (let s2 = set_pte i (leaf_pte (frame_page e k) 0xDF) t
       in vm_assert (fl_addr (user_mapping s2 i) = 0)
            (outcome_bind (copy_page (addr div PGSIZE * PGSIZE) (set_node (User_mapping i) (node_at s2 (Freelist_node k)) s2))
              (\<lambda>s. Running (set_pte i (leaf_pte (frame_page e k) 0x1F) s))))"
      unfolding handle_fault_def Let_def
      by (simp only: vm_assert_def r if_True if_False simp_thms ri(3) i(1) [symmetric] i(2) head(1) option.case nx s1_def [symmetric]
          t_def [symmetric] a new_pte [OF k63])
    also have "\<dots> = Running s'"
      by (simp add: vm_assert_def set_pte_def set_node_def node_at_def copy_page_def t unused ri(3,5) i(1) [symmetric] w s'_def)
    finally show ?thesis .
  qed
  have nz: "leaf_pte (frame_page e k) 0x1F \<noteq> 0" using leaf_pte(3) [OF frame_page_small [OF k63]] by (simp add: leaf_flags_def)
  have m: "mapped s' = insert i (mapped s)" using nz by (auto simp: mapped_def s'_def)
  have fresh: "slot j < k" if "j \<in> mapped s" for j using vm_inv_slot(1) [OF inv that] by (simp add: k_def)
  have frames: "frame_page e k \<noteq> frame_page e (slot j)" if "j \<in> mapped s" for j
    using frame_page_inj [OF k63, of "slot j" e] fresh [OF that] k63 by auto
  have homes: "pages s' (home j) = pages s (home j)" if "j \<le> 62" for j
    using frame_not_home [OF k63 that, of e] by (simp add: s'_def)
  have bij: "bij_betw (slot(i := k)) (mapped s') {0..<card (mapped s')}"
  proof -
    have "bij_betw slot (mapped s) {0..<k}" using inv by (simp add: vm_inv_def k_def)
    then have "bij_betw (slot(i := k)) (mapped s) {0..<k}" using new by (subst bij_betw_cong [of _ _ slot]) auto
    then have "bij_betw (slot(i := k)) (mapped s \<union> {i}) ({0..<k} \<union> {k})" by (rule bij_betw_combine) auto
    moreover have "{0..<k} \<union> {k} = {0..<Suc k}" by auto
    ultimately show ?thesis using m new fin by (simp add: k_def)
  qed
  have "page_inv e mem (slot(i := k)) s' i"
    using homes [OF ri(2)] inv ri(1,2) leaf_pte(2) unfolding page_inv_def
    by (auto simp: s'_def vm_inv_def leaf_flags_def intro!: bexI [of _ "0x1F"])
  moreover have "page_inv e mem (slot(i := k)) s' j" if "j \<in> mapped s" for j
    using vm_inv_slot(5) [OF inv that] frames [OF that] that new unfolding page_inv_def by (auto simp: s'_def)
  moreover have "fl_addr (user_mapping s' j) = 0" if "j \<notin> insert i (mapped s)" for j
    using inv that by (simp add: s'_def vm_inv_def)
  ultimately have P: "\<forall>j. if j \<in> mapped s' then page_inv e mem (slot(i := k)) s' j else fl_addr (user_mapping s' j) = 0"
    unfolding m by auto
  have "vm_inv e mem (slot(i := k)) s'"
    unfolding vm_inv_def
  proof (intro conjI)
    show "mapped s' \<subseteq> {1..62}" unfolding m using fin(2) ri(1,2) by simp
    have "card (mapped s') = Suc k" unfolding m k_def using new fin(1) by simp
    then show "freelist_head s' = Some (Freelist_node (card (mapped s')))" by (simp add: s'_def t)
    show "freelist_nodes s' = boot_freelist e" by (simp add: s'_def t)
    show "\<forall>i\<in>{1..62}. pages s' (home i) = mem (home i)" using homes inv by (simp add: vm_inv_def)
  qed (fact bij, fact P)
  moreover have "\<forall>j\<in>{1..62}. flat s' j = flat s j"
  proof
    fix j assume j62: "j \<in> {1..62 :: nat}"
    consider "j = i" | "j \<noteq> i" "j \<in> mapped s" | "j \<noteq> i" "j \<notin> mapped s" by blast
    then show "flat s' j = flat s j"
    proof cases
      case 1
      then show ?thesis using i(2) nz leaf_pte(1) [OF frame_page_small [OF k63]]
        by (simp add: flat_def s'_def leaf_flags_def)
    next
      case 2
      have "drop_bit 10 (user_l3pt s j) = frame_page e (slot j)" using inv 2(2) by (rule vm_inv_pte)
      moreover have "user_l3pt s j \<noteq> 0" using 2(2) by (simp add: mapped_def)
      ultimately show ?thesis using 2 frames [OF 2(2)] by (simp add: flat_def s'_def)
    next
      case 3
      then have "user_l3pt s j = 0" by (simp add: mapped_def)
      then show ?thesis using 3 homes [of j] j62 by (simp add: flat_def s'_def)
    qed
  qed
  ultimately show ?thesis using code m by (intro exI [of _ s']) (simp add: s'_def)
qed

section \<open>Accesses of the user program\<close>

lemma handle_trap_fault: "handle_trap n (fault_frame type addr) s = handle_fault addr (fault_cause type) s"
  by (cases type) (simp_all add: handle_trap_def fault_frame_def fault_cause_def cause_defs)

text \<open>A page whose entry allows the access, or lacks a bit for it.\<close>

lemma user_access_leaf:
  assumes r: "test_range addr" and i: "i = unat (addr div PGSIZE)" and pte: "user_l3pt s i = leaf_pte page f" "f \<in> leaf_flags" "uint page < 2 ^ 54"
  shows "\<not> (f AND PTE_A = 0 \<or> type = STORE \<and> f AND PTE_D = 0) \<Longrightarrow> user_access type addr s = Some (Running (s, page))"
    "f AND PTE_A = 0 \<Longrightarrow> user_access type addr s = user_access type addr (set_pte i (leaf_pte page 0x5F) s)"
    "f AND PTE_A \<noteq> 0 \<Longrightarrow> f AND PTE_D = 0 \<Longrightarrow>
      user_access STORE addr s = user_access STORE addr (set_pte i (leaf_pte page 0xDF) s)"
proof -
  note ri = test_range_index [OF r, folded i]
  have t: "user_translate type addr s = (if f AND PTE_A = 0 \<or> type = STORE \<and> f AND PTE_D = 0 then None else Some page)" for type
    using walk_leaf_page [OF pte(3,2), of False type] by (simp add: user_translate_def ri(6) pte(1) i [symmetric])
  have bits: "leaf_pte page f AND PTE_A = f AND PTE_A" "leaf_pte page f AND PTE_D = f AND PTE_D" "leaf_pte page f \<noteq> 0"
    using leaf_pte(2,3) [OF pte(3,2)] by (simp_all add: pte_defs)
  have h: "handle_fault addr c s = (if f AND PTE_A = 0 then Running (set_pte i (leaf_pte page (f OR PTE_A)) s)
      else vm_assert (f AND PTE_D = 0 \<and> c = CAUSE_STORE_PAGE_FAULT) (Running (set_pte i (leaf_pte page (f OR PTE_D)) s)))" for c
    using leaf_pte(4,5) [OF pte(3,2)]
    by (simp add: handle_fault_def Let_def vm_assert_def r ri(3) i [symmetric] pte(1) bits)
  show "user_access type addr s = Some (Running (s, page))" if "\<not> (f AND PTE_A = 0 \<or> type = STORE \<and> f AND PTE_D = 0)"
    by (subst user_access.simps) (use that in \<open>auto simp: t\<close>)
  show "user_access type addr s = user_access type addr (set_pte i (leaf_pte page 0x5F) s)" if a: "f AND PTE_A = 0"
  proof -
    have "f OR PTE_A = 0x5F" using pte(2) a by (cases rule: leaf_flag_cases) (simp_all add: pte_defs)
    then show ?thesis by (subst user_access.simps) (use a in \<open>simp add: t handle_trap_fault h\<close>)
  qed
  show "user_access STORE addr s = user_access STORE addr (set_pte i (leaf_pte page 0xDF) s)" if a: "f AND PTE_A \<noteq> 0" "f AND PTE_D = 0"
  proof -
    have "f OR PTE_D = 0xDF" using pte(2) a by (cases rule: leaf_flag_cases) (simp_all add: pte_defs)
    then show ?thesis by (subst user_access.simps) (use a in \<open>simp add: t handle_trap_fault h vm_assert_def fault_cause_def\<close>)
  qed
qed

text \<open>Every access to a test page succeeds, after at most three faults.\<close>

lemma user_access_mapped:
  assumes inv: "vm_inv e mem slot s" and r: "test_range addr" and i: "i = unat (addr div PGSIZE)" "i \<in> mapped s"
  shows "\<exists>s' f. user_access type addr s = Some (Running (s', frame_page e (slot i))) \<and> vm_inv e mem slot s' \<and> flat s' = flat s \<and>
    mapped s' = mapped s \<and> (\<forall>j. j \<noteq> i \<longrightarrow> user_l3pt s' j = user_l3pt s j) \<and> f \<in> leaf_flags \<and>
    user_l3pt s' i = leaf_pte (frame_page e (slot i)) f \<and> f AND PTE_A \<noteq> 0 \<and> (type = STORE \<longrightarrow> f AND PTE_D \<noteq> 0)"
proof -
  define p where "p = frame_page e (slot i)"
  have small: "uint p < 2 ^ 54" unfolding p_def using frame_page_small vm_inv_slot(2) [OF inv i(2)] by blast
  define good where "good = (\<lambda>s t f. user_access type addr s = user_access type addr t \<and> vm_inv e mem slot t \<and> flat t = flat s \<and>
    mapped t = mapped s \<and> (\<forall>j. j \<noteq> i \<longrightarrow> user_l3pt t j = user_l3pt s j) \<and> f \<in> leaf_flags \<and> user_l3pt t i = leaf_pte p f)"
  have trans: "good s1 s3 g" if "good s1 s2 f" "good s2 s3 g" for s1 s2 s3 f g using that unfolding good_def by metis
  have flags: "good t (set_pte i (leaf_pte p f') t) f'" if "vm_inv e mem slot t" "i \<in> mapped t" "user_l3pt t i = leaf_pte p f" "f \<in> leaf_flags"
    "f' \<in> leaf_flags" "f' AND PTE_D = 0 \<Longrightarrow> f AND PTE_D = 0"
    "user_access type addr t = user_access type addr (set_pte i (leaf_pte p f') t)" for t f f'
    using set_flags [OF that(1,2) that(3) [unfolded p_def] that(4-6), folded p_def] that(5,7) by (simp add: good_def set_pte_def)
  obtain f where f: "f \<in> leaf_flags" "user_l3pt s i = leaf_pte p f" using inv i(2) unfolding p_def by (rule vm_inv_pte)
  have start: "good s s f" using inv f by (simp add: good_def)
  have A: "\<exists>t g. good s t g \<and> g AND PTE_A \<noteq> 0"
  proof (cases "f AND PTE_A = 0")
    case True
    have "good s (set_pte i (leaf_pte p 0x5F) s) 0x5F"
      using user_access_leaf(2) [OF r i(1) f(2,1) small True] f True inv i(2)
      by (intro flags [of s f]) (auto simp: leaf_flags_def pte_defs)
    moreover have "0x5F AND PTE_A \<noteq> 0" by (simp add: pte_defs)
    ultimately show ?thesis by blast
  qed (use start in blast)
  have "\<exists>t g. good s t g \<and> g AND PTE_A \<noteq> 0 \<and> (type = STORE \<longrightarrow> g AND PTE_D \<noteq> 0)"
  proof -
    obtain t g where t: "good s t g" "g AND PTE_A \<noteq> 0" using A by blast
    show ?thesis
    proof (cases "type = STORE \<and> g AND PTE_D = 0")
      case True
      have g: "user_l3pt t i = leaf_pte p g" "g \<in> leaf_flags" "vm_inv e mem slot t" "i \<in> mapped t" using t(1) i(2) by (simp_all add: good_def)
      have "good t (set_pte i (leaf_pte p 0xDF) t) 0xDF"
        using user_access_leaf(3) [OF r i(1) g(1,2) small t(2)] g True
        by (intro flags [of t g]) (auto simp: leaf_flags_def pte_defs)
      moreover have "(0xDF :: u64) AND PTE_A \<noteq> 0" "(0xDF :: u64) AND PTE_D \<noteq> 0" by (simp_all add: pte_defs)
      ultimately show ?thesis using trans [OF t(1)] by blast
    qed (use t in blast)
  qed
  then obtain t g where t: "good s t g" "g AND PTE_A \<noteq> 0" "type = STORE \<longrightarrow> g AND PTE_D \<noteq> 0" by blast
  have "user_access type addr t = Some (Running (t, p))"
    using user_access_leaf(1) [OF r i(1) _ _ small] t by (auto simp: good_def)
  then show ?thesis using t unfolding good_def p_def [symmetric] by (intro exI [of _ t] exI [of _ g]) auto
qed

lemma mapped_accessed:
  assumes "vm_inv e mem slot s" "i \<in> mapped s" "user_l3pt s i = leaf_pte (frame_page e (slot i)) f" "f \<in> leaf_flags"
  shows "user_l3pt s i AND PTE_A = f AND PTE_A" "user_l3pt s i AND PTE_D = f AND PTE_D"
  using leaf_pte(2) [OF frame_page_small [OF vm_inv_slot(2) [OF assms(1,2)]] assms(4)] unfolding assms(3) by (simp_all add: pte_defs)

lemma user_access_page:
  assumes inv: "vm_inv e mem slot s" "accessed s" and r: "test_range addr" and i: "i = unat (addr div PGSIZE)"
  shows "\<exists>s' slot' f. user_access type addr s = Some (Running (s', frame_page e (slot' i))) \<and> vm_inv e mem slot' s' \<and> accessed s' \<and>
    (\<forall>j\<in>{1..62}. flat s' j = flat s j) \<and> i \<in> mapped s' \<and> f \<in> leaf_flags \<and>
    user_l3pt s' i = leaf_pte (frame_page e (slot' i)) f \<and> (type = STORE \<longrightarrow> f AND PTE_D \<noteq> 0)"
proof -
  have main: ?thesis if t: "vm_inv e mem slot' t" "i \<in> mapped t" "user_access type addr s = user_access type addr t"
    "\<forall>j\<in>mapped t. j \<noteq> i \<longrightarrow> user_l3pt t j AND PTE_A \<noteq> 0" "\<forall>j\<in>{1..62}. flat t j = flat s j" for t slot'
  proof -
    obtain s' f where u: "user_access type addr t = Some (Running (s', frame_page e (slot' i)))" "vm_inv e mem slot' s'" "flat s' = flat t"
      "mapped s' = mapped t" "\<forall>j. j \<noteq> i \<longrightarrow> user_l3pt s' j = user_l3pt t j" "f \<in> leaf_flags"
      "user_l3pt s' i = leaf_pte (frame_page e (slot' i)) f" "f AND PTE_A \<noteq> 0" "type = STORE \<longrightarrow> f AND PTE_D \<noteq> 0"
      using user_access_mapped [OF t(1) r i t(2), of type] by blast
    have im: "i \<in> mapped s'" using u(4) t(2) by simp
    have "user_l3pt s' i AND PTE_A \<noteq> 0" using mapped_accessed(1) [OF u(2) im u(7,6)] u(8) by simp
    then have "accessed s'" unfolding accessed_def u(4) using t(4) u(5) by metis
    then show ?thesis using u t(3,5) im by (intro exI [of _ s'] exI [of _ slot'] exI [of _ f]) simp
  qed
  show ?thesis
  proof (cases "user_l3pt s i = 0")
    case True
    define k where "k = card (mapped s)"
    obtain t where t: "handle_fault addr (fault_cause type) s = Running t" "vm_inv e mem (slot(i := k)) t" "mapped t = insert i (mapped s)"
      "user_l3pt t = (user_l3pt s)(i := leaf_pte (frame_page e k) 0x1F)" "\<forall>j\<in>{1..62}. flat t j = flat s j"
      using fault_maps [OF inv(1) r i True, folded k_def, of "fault_cause type"] by blast
    have "user_translate type addr s = None"
      using True by (simp add: user_translate_def i [symmetric] walk_leaf_def pte_defs)
    then have u: "user_access type addr s = user_access type addr t"
      by (subst user_access.simps) (simp add: handle_trap_fault t(1))
    have a: "\<forall>j\<in>mapped t. j \<noteq> i \<longrightarrow> user_l3pt t j AND PTE_A \<noteq> 0"
      using inv(2) by (simp add: t(3,4) accessed_def)
    have "i \<in> mapped t" unfolding t(3) by (rule insertI1)
    from main [OF t(2) this u a t(5)] show ?thesis .
  next
    case False
    then have im: "i \<in> mapped s" by (simp add: mapped_def)
    have a: "\<forall>j\<in>mapped s. j \<noteq> i \<longrightarrow> user_l3pt s j AND PTE_A \<noteq> 0" using inv(2) by (simp add: accessed_def)
    show ?thesis by (rule main [OF inv(1) im refl a]) simp
  qed
qed

lemma page_store:
  assumes inv: "vm_inv e mem slot s" "accessed s" and i: "i \<in> mapped s"
    and pte: "user_l3pt s i = leaf_pte (frame_page e (slot i)) f" "f \<in> leaf_flags" "f AND PTE_D \<noteq> 0 \<or> v = pages s (frame_page e (slot i))"
  defines "s' \<equiv> s\<lparr>pages := (pages s)(frame_page e (slot i) := v)\<rparr>"
  shows "vm_inv e mem slot s'" "accessed s'" "j \<in> {1..62} \<Longrightarrow> flat s' j = (if j = i then v else flat s j)"
proof -
  note slot = vm_inv_slot [OF inv(1) i]
  have m: "mapped s' = mapped s" "user_l3pt s' = user_l3pt s" "user_mapping s' = user_mapping s" by (simp_all add: s'_def mapped_def)
  show "accessed s'" using inv(2) by (simp add: accessed_def m)
  have homes: "pages s' (home j) = pages s (home j)" if "j \<le> 62" for j
    using frame_not_home [OF slot(2) that, of e] by (auto simp: s'_def)
  have frames: "pages s' (frame_page e (slot j)) = pages s (frame_page e (slot j))" if "j \<in> mapped s" "j \<noteq> i" for j
    using vm_inv_distinct [OF inv(1) that(1) i] that(2) by (auto simp: s'_def)
  have "page_inv e mem slot s' j" if j: "j \<in> mapped s" for j
  proof (cases "j = i")
    case True
    obtain g where g: "g \<in> leaf_flags" "user_l3pt s i = leaf_pte (frame_page e (slot i)) g"
      "g AND PTE_D \<noteq> 0 \<or> pages s (frame_page e (slot i)) = mem (home i)" using inv(1) i by (rule vm_inv_pte)
    have "g AND PTE_D = f AND PTE_D"
      using mapped_accessed(2) [OF inv(1) i g(2,1)] mapped_accessed(2) [OF inv(1) i pte(1,2)] by simp
    then have "g AND PTE_D = 0 \<longrightarrow> pages s' (frame_page e (slot i)) = mem (home i)"
      using g(3) pte(3) by (auto simp: s'_def)
    then show ?thesis using slot(5) g(1,2) True unfolding page_inv_def m by blast
  next
    case False
    then show ?thesis using vm_inv_slot(5) [OF inv(1) j] frames [OF j False] unfolding page_inv_def m by simp
  qed
  then have "\<forall>j. if j \<in> mapped s' then page_inv e mem slot s' j else fl_addr (user_mapping s' j) = 0"
    using inv(1) unfolding vm_inv_def m by metis
  moreover have "freelist_nodes s' = freelist_nodes s" "freelist_head s' = freelist_head s" by (simp_all add: s'_def)
  ultimately show "vm_inv e mem slot s'" using inv(1) homes unfolding vm_inv_def m by simp
  show "flat s' j = (if j = i then v else flat s j)" if "j \<in> {1..62}"
  proof (cases "j \<in> mapped s")
    case True
    then have d: "drop_bit 10 (user_l3pt s j) = frame_page e (slot j)" "user_l3pt s j \<noteq> 0"
      using vm_inv_pte [OF inv(1)] by (metis, simp add: mapped_def)
    then show ?thesis using frames [OF True] by (auto simp: flat_def m) (simp_all add: s'_def)
  next
    case False
    then show ?thesis using i homes [of j] that by (auto simp: flat_def m mapped_def)
  qed
qed

section \<open>Runs\<close>

definition ops_in_range :: "'p user_op list \<Rightarrow> bool" where
  "ops_in_range xs \<longleftrightarrow> (\<forall>x\<in>set xs. test_range (op_addr x))"

lemma page_numbers: "i \<in> {1..62} \<Longrightarrow> j \<in> {1..62} \<Longrightarrow> (word_of_nat i :: u64) = word_of_nat j \<longleftrightarrow> i = j"
  by (auto simp: word_unat_eq_iff unat_of_nat)

lemma run_user_flat:
  assumes "vm_inv e mem slot s" "accessed s" "ops_in_range xs" "\<forall>i\<in>{1..62}. m (word_of_nat i) = flat s i"
  shows "\<exists>s' slot'. run_user xs s = Some (Running (fst (run_flat xs m), s')) \<and> vm_inv e mem slot' s' \<and> accessed s' \<and>
    (\<forall>i\<in>{1..62}. snd (run_flat xs m) (word_of_nat i) = flat s' i)"
  using assms
proof (induction xs arbitrary: s slot m)
  case Nil
  then show ?case by auto
next
  case (Cons x xs)
  define i where "i = unat (op_addr x div PGSIZE)"
  have r: "test_range (op_addr x)" "ops_in_range xs" using Cons.prems(3) by (simp_all add: ops_in_range_def)
  note ri = test_range_index [OF r(1), folded i_def]
  have i62: "i \<in> {1..62}" using ri(1,2) by simp
  obtain t slot' f where t: "user_access (op_type x) (op_addr x) s = Some (Running (t, frame_page e (slot' i)))" "vm_inv e mem slot' t"
    "accessed t" "\<forall>j\<in>{1..62}. flat t j = flat s j" "i \<in> mapped t" "f \<in> leaf_flags" "user_l3pt t i = leaf_pte (frame_page e (slot' i)) f"
    "op_type x = STORE \<longrightarrow> f AND PTE_D \<noteq> 0"
    using user_access_page [OF Cons.prems(1,2) r(1) i_def, of "op_type x"] by blast
  define v where "v = pages t (frame_page e (slot' i))"
  have v: "v = m (op_addr x div PGSIZE)"
    unfolding v_def flat_mapped [OF t(2,5), symmetric] ri(7) using t(4) Cons.prems(4) i62 by simp
  define u where "u = t\<lparr>pages := (pages t)(frame_page e (slot' i) := op_effect x v)\<rparr>"
  have "f AND PTE_D \<noteq> 0 \<or> op_effect x v = v" using t(8) by (cases x) auto
  then have u: "vm_inv e mem slot' u" "accessed u" "\<And>j. j \<in> {1..62} \<Longrightarrow> flat u j = (if j = i then op_effect x v else flat t j)"
    using page_store [OF t(2,3,5,7,6), of "op_effect x v"] unfolding u_def v_def by blast+
  define m' where "m' = m(op_addr x div PGSIZE := op_effect x v)"
  have "\<forall>j\<in>{1..62}. m' (word_of_nat j) = flat u j"
  proof
    fix j assume j: "j \<in> {1..62 :: nat}"
    then show "m' (word_of_nat j) = flat u j"
      using u(3) [OF j] t(4) Cons.prems(4) page_numbers [OF j i62] by (simp add: m'_def ri(7))
  qed
  from Cons.IH [OF u(1,2) r(2) this] obtain s' slot'' where s': "run_user xs u = Some (Running (fst (run_flat xs m'), s'))"
    "vm_inv e mem slot'' s'" "accessed s'" "\<forall>i\<in>{1..62}. snd (run_flat xs m') (word_of_nat i) = flat s' i" by blast
  have flat: "run_flat (x # xs) m = (v # fst (run_flat xs m'), snd (run_flat xs m'))"
    by (simp add: Let_def m'_def v case_prod_beta)
  have "run_user (x # xs) s = Some (Running (v # fst (run_flat xs m'), s'))"
    using s'(1) by (simp add: t(1) v_def [symmetric] u_def [symmetric])
  then show ?case unfolding flat using s'(2-4) by auto
qed

section \<open>The exit\<close>

text \<open>What the loop of evictions needs: pages not yet evicted are accessed, and written if they differ.\<close>

definition evict_inv :: "u32 \<Rightarrow> (nat \<Rightarrow> nat) \<Rightarrow> 'p vm \<Rightarrow> bool" where
  "evict_inv e slot s \<longleftrightarrow>
     (\<forall>i\<in>{1..62}. \<forall>j\<in>{1..62}. fl_addr (user_mapping s i) \<noteq> 0 \<longrightarrow> fl_addr (user_mapping s j) \<noteq> 0 \<longrightarrow> slot i = slot j \<longrightarrow> i = j) \<and>
     (\<forall>i\<in>{1..62}. fl_addr (user_mapping s i) \<noteq> 0 \<longrightarrow> slot i < 63 \<and>
        (\<exists>f\<in>{0x5F, 0xDF}. user_l3pt s i = leaf_pte (frame_page e (slot i)) f \<and>
           (f = 0x5F \<longrightarrow> pages s (frame_page e (slot i)) = pages s (home i))))"

lemma evict_inv_start:
  assumes "vm_inv e mem slot s" "accessed s"
  shows "evict_inv e slot s"
proof -
  have m: "fl_addr (user_mapping s i) \<noteq> 0 \<Longrightarrow> i \<in> mapped s" for i using assms(1) unfolding vm_inv_def by metis
  have "\<exists>f\<in>{0x5F, 0xDF}. user_l3pt s i = leaf_pte (frame_page e (slot i)) f \<and>
      (f = 0x5F \<longrightarrow> pages s (frame_page e (slot i)) = pages s (home i))" if i: "i \<in> mapped s" for i
  proof -
    obtain f where f: "f \<in> leaf_flags" "user_l3pt s i = leaf_pte (frame_page e (slot i)) f"
      "f AND PTE_D \<noteq> 0 \<or> pages s (frame_page e (slot i)) = mem (home i)" using assms(1) i by (rule vm_inv_pte)
    have "user_l3pt s i AND PTE_A \<noteq> 0" using assms(2) i by (simp add: accessed_def)
    then have a: "f AND PTE_A \<noteq> 0" unfolding mapped_accessed(1) [OF assms(1) i f(2,1)] .
    have h: "pages s (home i) = mem (home i)" using assms(1) vm_inv_slot(3,4) [OF assms(1) i] by (simp add: vm_inv_def)
    show ?thesis using f(1)
    proof (cases rule: leaf_flag_cases)
      case clean
      then show ?thesis using f h by auto
    next
      case dirty
      then show ?thesis using f by auto
    qed (use a in simp)
  qed
  moreover have "slot i < 63" if "i \<in> mapped s" for i using vm_inv_slot(2) [OF assms(1) that] .
  moreover have "i = j" if "i \<in> mapped s" "j \<in> mapped s" "slot i = slot j" for i j
    using vm_inv_distinct [OF assms(1) that(1,2)] that(3) by simp
  ultimately show ?thesis using m unfolding evict_inv_def by blast
qed

lemma vm_assert_True: "vm_assert True r = r" by (simp add: vm_assert_def)

lemma evict_step:
  assumes inv: "evict_inv e slot s" and i: "i \<in> {1..62}"
  shows "\<exists>s'. evict (of_nat i * PGSIZE) s = Running s' \<and> evict_inv e slot s'"
proof (cases "fl_addr (user_mapping s i) = 0")
  case True
  then have "evict (of_nat i * PGSIZE) s = Running s"
    using test_range_page [of i] test_range_index(3) [of "of_nat i * PGSIZE"] i by (simp add: evict_def vm_assert_def node_at_def)
  then show ?thesis using inv by blast
next
  case False
  have r: "test_range (of_nat i * PGSIZE)" "unat (of_nat i * PGSIZE div PGSIZE :: u64) = i" using test_range_page [of i] i by simp_all
  note ri = test_range_index [OF r(1), unfolded r(2)]
  obtain f where f: "f = 0x5F \<or> f = 0xDF" "user_l3pt s i = leaf_pte (frame_page e (slot i)) f" "slot i < 63"
    "f = 0x5F \<longrightarrow> pages s (frame_page e (slot i)) = pages s (home i)"
    using inv i False unfolding evict_inv_def by blast
  have fl: "f \<in> leaf_flags" "f AND PTE_A \<noteq> 0" "f = 0xDF \<Longrightarrow> f AND PTE_D \<noteq> 0" using f(1) by (auto simp: leaf_flags_def pte_defs)
  note small = frame_page_small [OF f(3), of e]
  have bits: "leaf_pte (frame_page e (slot i)) f AND PTE_A \<noteq> 0" "f = 0xDF \<Longrightarrow> leaf_pte (frame_page e (slot i)) f AND PTE_D \<noteq> 0"
    using leaf_pte(2) [OF small fl(1)] fl(2,3) by (simp_all add: pte_defs)
  define p where "p = frame_page e (slot i)"
  define al where "al = of_nat i * PGSIZE div PGSIZE * PGSIZE"
  define s1 where "s1 = s\<lparr>pages := (pages s)(p := pages s (home i))\<rparr>"
  define G where "G = (\<lambda>s :: 'a vm. let s = s\<lparr>user_mapping := (user_mapping s)(i := (user_mapping s i)\<lparr>fl_addr := 0\<rparr>)\<rparr>
      in Running (case freelist_tail s of
          None \<Rightarrow> s\<lparr>freelist_head := Some (User_mapping i), freelist_tail := Some (User_mapping i)\<rparr>
        | Some tail \<Rightarrow> (set_node tail ((node_at s tail)\<lparr>fl_next := Some (User_mapping i)\<rparr>) s)\<lparr>freelist_tail := Some (User_mapping i)\<rparr>))"
  have load: "walk_leaf True True LOAD (user_l3pt s i) = Some p"
    using walk_leaf_page [OF small fl(1), of True LOAD] fl(2) by (simp add: p_def f(2))
  have copied: "(if pages s p \<noteq> pages s (home i) then vm_assert (user_l3pt s i AND PTE_D \<noteq> 0) (copy_page al s) else Running s) = Running s1"
  proof (cases "pages s p = pages s (home i)")
    case True
    then have "s1 = s" by (simp add: s1_def fun_upd_idem)
    then show ?thesis using True by simp
  next
    case False
    then have d: "f = 0xDF" using f(1,4) by (auto simp: p_def)
    have "walk_leaf True True STORE (user_l3pt s i) = Some p"
      using walk_leaf_page [OF small fl(1), of True STORE] fl(2) fl(3) [OF d] by (simp add: p_def f(2))
    then have "copy_page al s = Running s1"
      by (simp add: copy_page_def al_def ri(3,5) r(2) s1_def)
    then show ?thesis using False bits(2) [OF d] by (simp add: vm_assert_def f(2))
  qed
  have bitA: "user_l3pt s i AND PTE_A \<noteq> 0" using bits(1) by (simp add: f(2))
  have node: "node_at s (User_mapping i) = user_mapping s i" by (simp add: node_at_def)
  have "evict (of_nat i * PGSIZE) s = outcome_bind (Running s1) G"
    unfolding copied [symmetric] G_def evict_def Let_def
    by (simp only: vm_assert_True r ri(3) ri(5) al_def node False bitA load option.case if_True not_False_eq_True)
  also have "\<dots> = G s1" by simp
  finally have code: "evict (of_nat i * PGSIZE) s = G s1" .
  obtain s3 where s3: "G s1 = Running s3" "user_l3pt s3 = user_l3pt s" "pages s3 = pages s1"
    "\<And>j. fl_addr (user_mapping s3 j) = (if j = i then 0 else fl_addr (user_mapping s j))"
  proof -
    have t: "freelist_tail s1 = freelist_tail s" "user_mapping s1 = user_mapping s" "user_l3pt s1 = user_l3pt s"
      by (simp_all add: s1_def)
    show thesis
    proof (cases "freelist_tail s")
      case None
      show thesis by (rule that, simp add: G_def Let_def t None) (simp_all add: t)
    next
      case (Some tail)
      show thesis
        by (rule that, simp add: G_def Let_def t Some) (cases tail; simp add: set_node_def node_at_def t)+
    qed
  qed
  have "evict_inv e slot s3"
    unfolding evict_inv_def
  proof (intro conjI ballI impI)
    fix j assume j: "j \<in> {1..62}" "fl_addr (user_mapping s3 j) \<noteq> 0"
    then have ji: "j \<noteq> i" "fl_addr (user_mapping s j) \<noteq> 0" by (auto simp: s3(4) split: if_splits)
    then have sj: "slot j < 63" "slot j \<noteq> slot i" using inv i j(1) False unfolding evict_inv_def by blast+
    then have "frame_page e (slot j) \<noteq> p" using frame_page_inj [OF sj(1) f(3)] by (auto simp: p_def)
    moreover have "home j \<noteq> p" using frame_not_home [OF f(3), of j e] j(1) by (auto simp: p_def)
    ultimately have eq: "pages s3 (frame_page e (slot j)) = pages s (frame_page e (slot j))" "pages s3 (home j) = pages s (home j)"
      by (simp_all add: s3(3) s1_def)
    show "slot j < 63" by (rule sj)
    show "\<exists>f\<in>{0x5F, 0xDF}. user_l3pt s3 j = leaf_pte (frame_page e (slot j)) f \<and>
        (f = 0x5F \<longrightarrow> pages s3 (frame_page e (slot j)) = pages s3 (home j))"
      unfolding eq s3(2) using inv j(1) ji(2) unfolding evict_inv_def by blast
  next
    fix j k assume "j \<in> {1..62 :: nat}" "k \<in> {1..62 :: nat}" "fl_addr (user_mapping s3 j) \<noteq> 0" "fl_addr (user_mapping s3 k) \<noteq> 0" "slot j = slot k"
    then show "j = k" using inv unfolding evict_inv_def s3(4) by (metis (full_types))
  qed
  then show ?thesis using code s3(1) by auto
qed

lemma evict_all:
  assumes "evict_inv e slot s" "set is \<subseteq> {1..62}"
  shows "\<exists>s'. fold (\<lambda>i r. outcome_bind r (evict (of_nat i * PGSIZE))) is (Running s) = Running s'"
  using assms
proof (induction "is" arbitrary: s)
  case (Cons i "is")
  then obtain s' where "evict (of_nat i * PGSIZE) s = Running s'" "evict_inv e slot s'" using evict_step [of e slot s i] by auto
  then show ?case using Cons.IH [of s'] Cons.prems(2) by simp
qed simp

section \<open>Demand paging is transparent\<close>

lemma vm_boot_inv: "vm_inv e mem slot (vm_boot e mem)" "accessed (vm_boot e mem)" "flat (vm_boot e mem) i = mem (home i)"
  by (simp_all add: vm_inv_def mapped_def vm_boot_def accessed_def flat_def bij_betw_def)

lemma run_user_boot:
  assumes "ops_in_range xs"
  obtains s slot where "run_user xs (vm_boot e mem) = Some (Running (fst (run_flat xs (\<lambda>v. mem (0x80000 + v))), s))"
    "vm_inv e mem slot s" "accessed s"
proof -
  have "\<forall>i\<in>{1..62}. mem (0x80000 + word_of_nat i) = flat (vm_boot e mem) i" by (simp add: vm_boot_inv home_def)
  from run_user_flat [OF vm_boot_inv(1) [of e mem id] vm_boot_inv(2) assms this] show thesis using that by blast
qed

theorem paging_refines:
  assumes "ops_in_range xs"
  shows "\<exists>s. run_user xs (vm_boot e mem) = Some (Running (fst (run_flat xs (\<lambda>v. mem (0x80000 + v))), s)) \<and>
    (\<forall>n tf. tf_cause tf = CAUSE_USER_ECALL \<longrightarrow> handle_trap n tf s = Halted (sint (ucast (tf_a0 tf) :: u32)))"
proof -
  obtain s slot where
    s: "run_user xs (vm_boot e mem) = Some (Running (fst (run_flat xs (\<lambda>v. mem (0x80000 + v))), s))" "vm_inv e mem slot s" "accessed s"
    using assms by (rule run_user_boot)
  have "set [1..<MAX_TEST_PAGES] \<subseteq> {1..62}" by (auto simp: MAX_TEST_PAGES_def)
  from evict_all [OF evict_inv_start [OF s(2,3)] this] obtain s' where
    "fold (\<lambda>i r. outcome_bind r (evict (of_nat i * PGSIZE))) [1..<MAX_TEST_PAGES] (Running s) = Running s'" by blast
  then have "tf_cause tf = CAUSE_USER_ECALL \<longrightarrow> handle_trap n tf s = Halted (sint (ucast (tf_a0 tf) :: u32))" for n tf
    by (simp add: handle_trap_def)
  then show ?thesis using s(1) by blast
qed

text \<open>An access outside the test pages stops the program with the code of a failed assertion.\<close>

theorem wild_access_halts:
  assumes "vm_inv e mem slot s" "\<not> test_range addr"
  shows "user_access type addr s = Some (Halted 3)"
proof -
  have "user_translate type addr s = None"
  proof (cases "addr < MEGAPAGE_SIZE")
    case True
    define i where "i = unat (addr div PGSIZE)"
    have "i = 0 \<or> 62 < i"
    proof (rule ccontr)
      assume "\<not> (i = 0 \<or> 62 < i)"
      then have "1 \<le> int i" "int i \<le> 62" by simp_all
      moreover have "int i = uint addr div 4096" by (simp add: i_def uint_div page_words flip: uint_nat)
      ultimately show False using assms(2) unfolding test_range_int by linarith
    qed
    then have "i \<notin> mapped s" using assms(1) by (auto simp: vm_inv_def)
    then show ?thesis by (simp add: user_translate_def i_def [symmetric] mapped_def walk_leaf_def pte_defs)
  qed (simp add: user_translate_def)
  moreover have "handle_trap 0 (fault_frame type addr) s = Halted 3"
    using assms(2) by (simp add: handle_trap_fault handle_fault_def vm_assert_def)
  ultimately show ?thesis by (subst user_access.simps) simp
qed

lemma run_user_halts:
  "run_user xs s = Some (Running (ps, s')) \<Longrightarrow> run_user ys s' = Some (Halted c) \<Longrightarrow> run_user (xs @ ys) s = Some (Halted c)"
proof (induction xs arbitrary: s ps)
  case (Cons x xs)
  then obtain s1 page r where
    a: "user_access (op_type x) (op_addr x) s = Some (Running (s1, page))"
    and r: "run_user xs (s1\<lparr>pages := (pages s1)(page := op_effect x (pages s1 page))\<rparr>) = Some r"
    and b: "outcome_bind r (\<lambda>(ps, s'). Running (pages s1 page # ps, s')) = Running (ps, s')"
    by (auto split: outcome.splits prod.splits bind_splits)
  from b obtain ps' where "r = Running (ps', s')" by (cases r) (auto split: prod.splits)
  then show ?case using Cons.IH [OF _ Cons.prems(2)] a r by simp
qed simp

theorem wild_program_halts:
  assumes "ops_in_range xs" "\<not> test_range (op_addr x)"
  shows "run_user (xs @ x # ys) (vm_boot e mem) = Some (Halted 3)"
proof -
  obtain ps s slot where s: "run_user xs (vm_boot e mem) = Some (Running (ps, s))" "vm_inv e mem slot s"
    using assms(1) by (rule run_user_boot)
  show ?thesis by (rule run_user_halts [OF s(1)]) (simp add: wild_access_halts [OF s(2) assms(2)])
qed

end
