(* ===== verification/MA_Malloc.thy ===== *)
theory MA_Malloc
  imports Prelude
begin

text \<open>
  The allocator of the debugger tests (\<open>riscv-tests/debug/programs/tiny-malloc.c\<close>), as compiled for a
  64-bit target with an upward heap.  Memory is a function from addresses to bytes, so that the
  headers of the blocks, the links of the free list and the data of the program share it; a block
  begins with its size, and a free one continues with the address of the next.
\<close>

section \<open>Memory\<close>

type_synonym memory = "u64 \<Rightarrow> u8"

definition load64 :: "memory \<Rightarrow> u64 \<Rightarrow> u64" where
  "load64 m p = foldr (\<lambda>i w. push_bit 8 w OR ucast (m (p + of_nat i))) [0..<8] 0"

definition store64 :: "u64 \<Rightarrow> u64 \<Rightarrow> memory \<Rightarrow> memory" where
  "store64 p v m = (\<lambda>q. let i = unat (q - p) in if i < 8 then ucast (drop_bit (8 * i) v) else m q)"

text \<open>The library functions that \<open>realloc\<close> and \<open>calloc\<close> call.\<close>

definition memcpy :: "u64 \<Rightarrow> u64 \<Rightarrow> u64 \<Rightarrow> memory \<Rightarrow> memory" where
  "memcpy dest src n m = (\<lambda>q. if q - dest < n then m (src + (q - dest)) else m q)"

definition memset :: "u64 \<Rightarrow> u8 \<Rightarrow> u64 \<Rightarrow> memory \<Rightarrow> memory" where
  "memset dest c n m = (\<lambda>q. if q - dest < n then c else m q)"

section \<open>The allocator\<close>

record heap =
  malloc_end :: u64
  malloc_freelist :: u64
  heap_mem :: memory

definition blk_size :: "heap \<Rightarrow> u64 \<Rightarrow> u64" where "blk_size s b = load64 (heap_mem s) b"
definition blk_next :: "heap \<Rightarrow> u64 \<Rightarrow> u64" where "blk_next s b = load64 (heap_mem s) (b + 8)"

definition set_size :: "u64 \<Rightarrow> u64 \<Rightarrow> heap \<Rightarrow> heap" where
  "set_size b v s = s\<lparr>heap_mem := store64 b v (heap_mem s)\<rparr>"

definition set_nxt :: "u64 \<Rightarrow> u64 \<Rightarrow> heap \<Rightarrow> heap" where
  "set_nxt b v s = s\<lparr>heap_mem := store64 (b + 8) v (heap_mem s)\<rparr>"

text \<open>What the pointer \<open>nextfree\<close> can point to.\<close>

datatype link = Freelist | Next_of u64

fun get_link :: "heap \<Rightarrow> link \<Rightarrow> u64" where
  "get_link s Freelist = malloc_freelist s"
| "get_link s (Next_of b) = blk_next s b"

fun set_link :: "link \<Rightarrow> u64 \<Rightarrow> heap \<Rightarrow> heap" where
  "set_link Freelist v s = s\<lparr>malloc_freelist := v\<rparr>"
| "set_link (Next_of b) v s = set_nxt b v s"

definition M_ALIGN :: "u64 \<Rightarrow> u64 \<Rightarrow> u64" where
  "M_ALIGN x align = (- x) AND (align - 1)"

definition REAL_SIZE :: "u64 \<Rightarrow> u64" where
  "REAL_SIZE sz = (if sz < 16 - 8 then 16 else sz + 8 + M_ALIGN sz 8)"

definition CAN_ALLOC_P :: "u64 \<Rightarrow> u64 \<Rightarrow> heap \<Rightarrow> bool" where
  "CAN_ALLOC_P limit required s \<longleftrightarrow> required \<le> limit - malloc_end s - 32"

definition malloc_done :: "u64 \<Rightarrow> u64 \<Rightarrow> heap \<Rightarrow> u64 \<times> heap" where
  "malloc_done real_size block s = (block + 8, set_size block real_size s)"

definition malloc_new :: "u64 \<Rightarrow> u64 \<Rightarrow> heap \<Rightarrow> u64 \<times> heap" where
  "malloc_new limit real_size s =
     (if \<not> CAN_ALLOC_P limit real_size s then (0, s)
      else let block = malloc_end s;
               s = s\<lparr>malloc_end := malloc_end s + real_size\<rparr>
           in malloc_done real_size block s)"

partial_function (option) malloc_loop :: "u64 \<Rightarrow> u64 \<Rightarrow> link \<Rightarrow> heap \<Rightarrow> (u64 \<times> heap) option" where
  "malloc_loop limit real_size nextfree s =
     (if get_link s nextfree = 0 then Some (malloc_new limit real_size s)
      else let block = get_link s nextfree in
        if real_size \<le> blk_size s block
        then if blk_size s block < real_size + 16
             then Some (block + 8, set_link nextfree (blk_next s block) s)
             else let newsize = blk_size s block - real_size;
                      newnext = blk_next s block;
                      s = set_link nextfree (block + real_size) s;
                      s = set_size (get_link s nextfree) newsize s;
                      s = set_nxt (get_link s nextfree) newnext s
                  in Some (malloc_done real_size block s)
        else if blk_next s block = 0 \<and> malloc_end s = block + blk_size s block
        then let moresize = real_size - blk_size s block in
             if \<not> CAN_ALLOC_P limit moresize s then Some (0, s)
             else let s = set_link nextfree 0 s;
                      s = s\<lparr>malloc_end := block + real_size\<rparr>
                  in Some (malloc_done real_size block s)
        else malloc_loop limit real_size (Next_of block) s)"

text \<open>\<open>limit\<close> is the address of the stack frame.\<close>

definition malloc :: "u64 \<Rightarrow> u64 \<Rightarrow> heap \<Rightarrow> (u64 \<times> heap) option" where
  "malloc limit sz s = malloc_loop limit (REAL_SIZE sz) Freelist s"

definition free_insert :: "u64 \<Rightarrow> link \<Rightarrow> heap \<Rightarrow> heap" where
  "free_insert block nextfree s =
     (let s = set_nxt block (get_link s nextfree) s
      in set_link nextfree block s)"

partial_function (option) free_loop :: "u64 \<Rightarrow> link \<Rightarrow> heap \<Rightarrow> heap option" where
  "free_loop block nextfree s =
     (if get_link s nextfree = 0 then Some (free_insert block nextfree s)
      else let thisblock = get_link s nextfree in
        if thisblock + blk_size s thisblock = block
        then let s = set_size thisblock (blk_size s thisblock + blk_size s block) s in
             if blk_next s thisblock \<noteq> 0 \<and> block + blk_size s block = blk_next s thisblock
             then let s = set_size thisblock (blk_size s thisblock + blk_size s (blk_next s thisblock)) s;
                      s = set_nxt thisblock (blk_next s (blk_next s thisblock)) s
                  in Some s
             else Some s
        else if thisblock = block + blk_size s block
        then let s = set_size block (blk_size s block + blk_size s thisblock) s;
                 s = set_nxt block (blk_next s thisblock) s
             in Some (set_link nextfree block s)
        else if thisblock > block then Some (free_insert block nextfree s)
        else free_loop block (Next_of thisblock) s)"

definition free :: "u64 \<Rightarrow> heap \<Rightarrow> heap option" where
  "free block_p s = (if block_p = 0 then Some s else free_loop (block_p - 8) Freelist s)"

definition realloc :: "u64 \<Rightarrow> u64 \<Rightarrow> u64 \<Rightarrow> heap \<Rightarrow> (u64 \<times> heap) option" where
  "realloc limit block_p sz s =
     (let block = block_p - 8;
          real_size = REAL_SIZE sz
      in if block_p = 0 then malloc limit sz s
         else let old_real_size = blk_size s block in
           if old_real_size < real_size
           then let old_size = old_real_size - 8 in
                Option.bind (malloc limit sz s) (\<lambda>(result, s).
                  if result = 0 then Some (0, s)
                  else let s = s\<lparr>heap_mem := memcpy result block_p (if old_size < sz then old_size else sz) (heap_mem s)\<rparr>
                       in map_option (\<lambda>s. (result, s)) (free block_p s))
           else if 16 \<le> old_real_size - real_size
           then let newblock = block + real_size;
                    s = set_size block real_size s;
                    s = set_size newblock (old_real_size - real_size) s
                in map_option (\<lambda>s. (block_p, s)) (free (newblock + 8) s)
           else Some (block_p, s))"

definition calloc :: "u64 \<Rightarrow> u64 \<Rightarrow> u64 \<Rightarrow> heap \<Rightarrow> (u64 \<times> heap) option" where
  "calloc limit n elem_size s =
     (let sz = n * elem_size in
      Option.bind (malloc limit sz s) (\<lambda>(result, s).
        Some (result, if result \<noteq> 0 then s\<lparr>heap_mem := memset result 0 sz (heap_mem s)\<rparr> else s)))"

definition malloc_usable_size :: "u64 \<Rightarrow> heap \<Rightarrow> u64" where
  "malloc_usable_size block_p s = blk_size s (block_p - 8) - 8"

section \<open>Words in memory\<close>

lemma bit_load_fold:
  "bit (foldr (\<lambda>i w. push_bit 8 w OR ucast (f i :: u8)) [k..<k + l] (0 :: u64)) n \<longleftrightarrow>
     n < 64 \<and> n < 8 * l \<and> bit (f (k + n div 8)) (n mod 8)"
proof (induction l arbitrary: k n)
  case (Suc l)
  have u: "[k..<k + Suc l] = k # [Suc k..<Suc k + l]" by (simp add: upt_conv_Cons)
  show ?case
  proof (cases "n < 8")
    case True
    then show ?thesis unfolding u by (simp add: bit_simps del: upt_Suc)
  next
    case False
    then have "n div 8 = Suc ((n - 8) div 8)" "n mod 8 = (n - 8) mod 8" by (simp_all add: div_if [of n] mod_if [of n])
    moreover have "bit (f k) n \<Longrightarrow> n < 8" by (drule bit_imp_le_length) simp
    ultimately show ?thesis unfolding u using False Suc.IH [of "Suc k" "n - 8"]
      by (auto simp add: bit_simps simp del: upt_Suc)
  qed
qed simp

lemma bit_load64: "bit (load64 m p) n \<longleftrightarrow> n < 64 \<and> bit (m (p + of_nat (n div 8))) (n mod 8)"
  using bit_load_fold [of "\<lambda>i. m (p + of_nat i)" 0 8 n] by (auto simp: load64_def)

lemma load64_cong: "(\<And>i. i < 8 \<Longrightarrow> m (p + of_nat i) = m' (q + of_nat i)) \<Longrightarrow> load64 m p = load64 m' q"
  by (rule bit_eqI) (auto simp: bit_load64)

lemma load_store_same [simp]: "load64 (store64 p v m) p = v"
proof (rule bit_eqI)
  fix n assume "possible_bit TYPE(64 word) n"
  then have n: "n < 64" by simp
  then have "unat (of_nat (n div 8) :: u64) = n div 8" "n div 8 < 8" by (simp_all add: unat_of_nat)
  then show "bit (load64 (store64 p v m) p) n = bit v n"
    using n by (simp add: bit_load64 store64_def Let_def bit_simps)
qed

lemma uint_plus_small: "uint p + uint d < 2 ^ 64 \<Longrightarrow> uint (p + d) = uint p + uint d" for p d :: u64
  by (simp add: uint_word_ariths)

lemma aligned_apart:
  fixes p q :: u64
  assumes "8 dvd uint p" "8 dvd uint q" "p \<noteq> q" "i < 8"
  shows "8 \<le> unat (q + of_nat i - p)"
proof -
  define d where "d = q - p"
  have "uint d = (uint q - uint p) mod 2 ^ 64" by (simp add: d_def uint_word_ariths)
  moreover have "8 dvd (uint q - uint p) mod 2 ^ 64" using assms(1,2) by (simp add: dvd_mod)
  ultimately have d8: "8 dvd uint d" by simp
  moreover have "d \<noteq> 0" using assms(3) by (simp add: d_def)
  then have "uint d \<noteq> 0" by (metis uint_0_iff)
  ultimately have d: "8 \<le> uint d" "uint d \<le> 18446744073709551608" using uint_bounds_64 [of d] by presburger+
  define w where "w = (of_nat i :: u64)"
  have w: "uint w = int i" using assms(4) unfolding w_def by (simp only: uint_nat unat_of_nat) simp
  have "uint (d + w) = uint d + int i" using d assms(4) by (simp add: uint_plus_small w)
  then have "8 \<le> uint (d + w)" using d by simp
  moreover have "q + of_nat i - p = d + w" by (simp add: d_def w_def)
  ultimately have "8 \<le> uint (q + of_nat i - p)" by simp
  then show ?thesis unfolding unat_eq_nat_uint by linarith
qed

lemma load_store_other:
  assumes "8 dvd uint p" "8 dvd uint q" "p \<noteq> q"
  shows "load64 (store64 p v m) q = load64 m q"
  by (rule load64_cong) (use aligned_apart [OF assms] in \<open>auto simp: store64_def Let_def not_less [symmetric]\<close>)

lemma store64_frame:
  assumes "\<not> (uint p \<le> uint x \<and> uint x < uint p + 8)" "uint p \<le> 2 ^ 64 - 8"
  shows "store64 p v m x = m x"
proof -
  define d where "d = x - p"
  have "\<not> uint d < 8"
  proof
    assume d: "uint d < 8"
    then have "uint (p + d) = uint p + uint d" using assms(2) by (simp add: uint_plus_small)
    then have "uint x = uint p + uint d" by (simp only: d_def add_diff_cancel_left' diff_add_cancel add_diff_eq)
    then show False using assms(1) d uint_bounds_64(1) [of d] by linarith
  qed
  then have "\<not> unat d < 8" unfolding unat_eq_nat_uint by linarith
  then show ?thesis by (simp add: store64_def Let_def d_def)
qed

section \<open>Fields\<close>

definition nodes :: "u64 set \<Rightarrow> bool" where
  "nodes B \<longleftrightarrow> (\<forall>b\<in>B. 8 dvd uint b \<and> (\<forall>c\<in>B. b \<noteq> c + 8))"

lemma aligned_plus8: "8 dvd uint b \<Longrightarrow> 8 dvd uint (b + 8)" for b :: u64
  by (simp add: uint_word_ariths dvd_mod)

lemma nodes_upd:
  assumes "nodes B" "b \<in> B" "c \<in> B"
  shows "blk_size (set_size b v s) c = (if c = b then v else blk_size s c)"
    "blk_next (set_size b v s) c = blk_next s c"
    "blk_size (set_nxt b v s) c = blk_size s c"
    "blk_next (set_nxt b v s) c = (if c = b then v else blk_next s c)"
proof -
  have a: "8 dvd uint b" "8 dvd uint c" "b \<noteq> c + 8" "c \<noteq> b + 8" using assms by (auto simp: nodes_def)
  note a8 = a(1,2) [THEN aligned_plus8]
  show "blk_size (set_size b v s) c = (if c = b then v else blk_size s c)"
    using load_store_other [OF a(1,2)] by (simp add: blk_size_def set_size_def)
  show "blk_next (set_size b v s) c = blk_next s c"
    using load_store_other [OF a(1) a8(2) a(3)] by (simp add: blk_next_def set_size_def)
  show "blk_size (set_nxt b v s) c = blk_size s c"
    using load_store_other [OF a8(1) a(2)] a(4) by (simp add: blk_size_def set_nxt_def)
  show "blk_next (set_nxt b v s) c = (if c = b then v else blk_next s c)"
    using load_store_other [OF a8] by (simp add: blk_next_def set_nxt_def)
qed

lemma field_sel [simp]:
  "malloc_end (set_size b v s) = malloc_end s" "malloc_freelist (set_size b v s) = malloc_freelist s"
  "malloc_end (set_nxt b v s) = malloc_end s" "malloc_freelist (set_nxt b v s) = malloc_freelist s"
  "malloc_end (set_link l v s) = malloc_end s"
  "blk_size (s\<lparr>malloc_end := e\<rparr>) = blk_size s" "blk_next (s\<lparr>malloc_end := e\<rparr>) = blk_next s"
  by (simp_all add: set_size_def set_nxt_def blk_size_def [abs_def] blk_next_def [abs_def]) (cases l; simp add: set_nxt_def)

section \<open>Blocks one after the other\<close>

text \<open>The blocks that fill the addresses from \<open>a\<close> to \<open>e\<close>, their sizes given by \<open>Z\<close>.\<close>

fun tiled :: "(u64 \<Rightarrow> u64) \<Rightarrow> int \<Rightarrow> u64 list \<Rightarrow> int \<Rightarrow> bool" where
  "tiled Z a [] e \<longleftrightarrow> a = e"
| "tiled Z a (b # bs) e \<longleftrightarrow> uint b = a \<and> 16 \<le> uint (Z b) \<and> 8 dvd uint (Z b) \<and> tiled Z (a + uint (Z b)) bs e"

lemma tiled_cong: "(\<And>b. b \<in> set bs \<Longrightarrow> Z' b = Z b) \<Longrightarrow> tiled Z' a bs e = tiled Z a bs e"
  by (induction bs arbitrary: a) auto

lemma tiled_append: "tiled Z a (xs @ ys) e \<longleftrightarrow> (\<exists>c. tiled Z a xs c \<and> tiled Z c ys e)"
  by (induction xs arbitrary: a) auto

lemma tiled_le: "tiled Z a bs e \<Longrightarrow> a \<le> e"
  by (induction bs arbitrary: a) force+

lemma tiled_in:
  "tiled Z a bs e \<Longrightarrow> b \<in> set bs \<Longrightarrow> a \<le> uint b \<and> uint b + uint (Z b) \<le> e \<and> 16 \<le> uint (Z b) \<and> 8 dvd uint (Z b)"
  by (induction bs arbitrary: a) (force dest: tiled_le)+

lemma tiled_aligned: "tiled Z a bs e \<Longrightarrow> 8 dvd a \<Longrightarrow> b \<in> set bs \<Longrightarrow> 8 dvd uint b"
  by (induction bs arbitrary: a) auto

lemma tiled_end_aligned: "tiled Z a bs e \<Longrightarrow> 8 dvd a \<Longrightarrow> 8 dvd e"
  by (induction bs arbitrary: a) auto

lemma tiled_mid:
  assumes "tiled Z a (xs @ b # ys) e"
  shows "tiled Z a xs (uint b)" "tiled Z (uint b + uint (Z b)) ys e"
    "x \<in> set xs \<Longrightarrow> uint x + uint (Z x) \<le> uint b" "y \<in> set ys \<Longrightarrow> uint b + uint (Z b) \<le> uint y"
  using assms tiled_in by (fastforce simp: tiled_append)+

lemma last_touch:
  assumes "tiled Z a (xs @ b # ys) e" "xs \<noteq> []"
  shows "uint (last xs) + uint (Z (last xs)) = uint b"
proof -
  have "tiled Z a ((butlast xs @ [last xs]) @ b # ys) e" using assms by simp
  then show ?thesis by (auto simp: tiled_append)
qed

lemma tiled_distinct: "tiled Z a bs e \<Longrightarrow> distinct bs"
  by (induction bs arbitrary: a) (use tiled_in in force)+

lemma tiled_apart:
  assumes "tiled Z a bs e" "b \<in> set bs" "c \<in> set bs" "b \<noteq> c"
  shows "uint b + uint (Z b) \<le> uint c \<or> uint c + uint (Z c) \<le> uint b"
proof -
  obtain xs ys where "bs = xs @ b # ys" using assms(2) by (auto simp: in_set_conv_decomp)
  then show ?thesis using assms(1,3,4) tiled_mid [of Z a xs b ys e] by auto
qed

lemma tiled_nodes:
  assumes "tiled Z a bs e" "8 dvd a" "0 \<le> a" "e < 2 ^ 64"
  shows "nodes (set bs)"
  unfolding nodes_def
proof (intro ballI conjI notI)
  fix b c assume b: "b \<in> set bs" "c \<in> set bs"
  show "8 dvd uint b" using assms b(1) by (rule_tac tiled_aligned)
  note i = tiled_in [OF assms(1) b(1)] tiled_in [OF assms(1) b(2)]
  assume e: "b = c + 8"
  then have "uint b = uint c + 8" using i(2) assms(4) by (simp add: uint_word_ariths)
  then show False using tiled_apart [OF assms(1) b] i e by fastforce
qed

lemma tiled_split:
  assumes t: "tiled Z a (xs @ b # ys) e" and "0 \<le> a" "e < 2 ^ 64"
    and r: "16 \<le> uint r" "8 dvd uint r" "uint r + 16 \<le> uint (Z b)"
  shows "tiled (Z(b := r, b + r := Z b - r)) a (xs @ b # (b + r) # ys) e"
proof -
  note m = tiled_mid [OF t]
  note i = tiled_in [OF t, of b, simplified]
  have c: "uint (b + r) = uint b + uint r" using i r assms(3) by (intro uint_plus_small) linarith
  have s: "uint (Z b - r) = uint (Z b) - uint r" using r by (simp add: uint_minus_simple_alt [THEN iffD1] word_le_def)
  have "tiled (Z(b := r, b + r := Z b - r)) a xs (uint b)"
    using m(1) by (rule tiled_cong [THEN iffD2, rotated]) (use m(3) c r i tiled_in [OF m(1)] in force)
  moreover have "tiled (Z(b := r, b + r := Z b - r)) (uint b + uint (Z b)) ys e"
    using m(2) by (rule tiled_cong [THEN iffD2, rotated]) (use m(4) c r i in force)
  moreover have "b + r \<noteq> b" using c r by force
  moreover have "8 dvd uint (Z b) - uint r" using i r(2) by (simp add: dvd_diff)
  ultimately show ?thesis using r c s i by (simp add: tiled_append)
qed

lemma tiled_merge:
  assumes t: "tiled Z a (xs @ b # c # ys) e" and "e < 2 ^ 64"
  shows "tiled (Z(b := Z b + Z c)) a (xs @ b # ys) e"
proof -
  note m = tiled_mid [OF t]
  note i = tiled_in [OF t, of b, simplified] tiled_in [OF t, of c, simplified]
  have c: "uint c = uint b + uint (Z b)" using m(2) by simp
  have s: "uint (Z b + Z c) = uint (Z b) + uint (Z c)" using i c assms(2) uint_bounds_64(1) [of b] by (intro uint_plus_small) linarith
  have "tiled (Z(b := Z b + Z c)) a xs (uint b)"
    using m(1) by (rule tiled_cong [THEN iffD2, rotated]) (use m(3) tiled_in [OF m(1)] in force)
  moreover have "tiled (Z(b := Z b + Z c)) (uint b + uint (Z b) + uint (Z c)) ys e"
  proof -
    have y: "y \<noteq> b" if "y \<in> set ys" for y using m(4) [of y] that i by auto
    have "tiled Z (uint b + uint (Z b) + uint (Z c)) ys e" using tiled_mid(2) [of Z a "xs @ [b]" c ys e] t c by simp
    then show ?thesis by (rule tiled_cong [THEN iffD2, rotated]) (simp add: y)
  qed
  ultimately show ?thesis using s i by (simp add: tiled_append add.assoc)
qed

lemma tiled_resize_last:
  assumes "tiled Z a (xs @ [b]) e" "16 \<le> uint r" "8 dvd uint r"
  shows "tiled (Z(b := r)) a (xs @ [b]) (uint b + uint r)"
proof -
  note m = tiled_mid [OF assms(1)]
  have "tiled (Z(b := r)) a xs (uint b)"
    using m(1) by (rule tiled_cong [THEN iffD2, rotated]) (use m(3) tiled_in [OF m(1)] in force)
  then show ?thesis using assms(2,3) by (simp add: tiled_append)
qed

lemma tiled_snoc:
  assumes "tiled Z a bs (uint b)" "16 \<le> uint r" "8 dvd uint r"
  shows "tiled (Z(b := r)) a (bs @ [b]) (uint b + uint r)"
proof -
  have "tiled (Z(b := r)) a bs (uint b)"
    using assms(1) by (rule tiled_cong [THEN iffD2, rotated]) (use tiled_in [OF assms(1)] in force)
  then show ?thesis using assms(2,3) by (simp add: tiled_append)
qed

section \<open>The free list\<close>

fun flseg :: "(u64 \<Rightarrow> u64) \<Rightarrow> u64 \<Rightarrow> u64 list \<Rightarrow> u64 \<Rightarrow> bool" where
  "flseg N p [] q \<longleftrightarrow> p = q"
| "flseg N p (b # bs) q \<longleftrightarrow> p = b \<and> flseg N (N b) bs q"

fun first :: "u64 list \<Rightarrow> u64" where
  "first [] = 0" | "first (b # bs) = b"

definition link_of :: "u64 list \<Rightarrow> link" where
  "link_of ps = (if ps = [] then Freelist else Next_of (last ps))"

lemma flseg_cong: "(\<And>b. b \<in> set bs \<Longrightarrow> N' b = N b) \<Longrightarrow> flseg N' p bs q = flseg N p bs q"
  by (induction bs arbitrary: p) auto

lemma flseg_append: "flseg N p (xs @ ys) q \<longleftrightarrow> (\<exists>r. flseg N p xs r \<and> flseg N r ys q)"
  by (induction xs arbitrary: p) auto

lemma flseg_first: "flseg N p bs 0 \<Longrightarrow> p = first bs"
  by (cases bs) auto

lemma flseg_link:
  assumes "flseg (blk_next s) (malloc_freelist s) (ps @ qs) 0"
  shows "flseg (blk_next s) (malloc_freelist s) ps (first qs)" "flseg (blk_next s) (first qs) qs 0" "get_link s (link_of ps) = first qs"
proof -
  obtain r where r: "flseg (blk_next s) (malloc_freelist s) ps r" "flseg (blk_next s) r qs 0" using assms by (auto simp: flseg_append)
  have "r = first qs" using r(2) by (rule flseg_first)
  then show "flseg (blk_next s) (malloc_freelist s) ps (first qs)" "flseg (blk_next s) (first qs) qs 0" using r by simp_all
  then show "get_link s (link_of ps) = first qs"
    by (cases ps rule: rev_cases) (auto simp: link_of_def flseg_append)
qed

text \<open>An assignment through \<open>nextfree\<close>.\<close>

lemma set_link_upd:
  assumes "nodes B" "set ps \<subseteq> B" "distinct ps" "flseg (blk_next s) (malloc_freelist s) ps q"
  shows "flseg (blk_next (set_link (link_of ps) v s)) (malloc_freelist (set_link (link_of ps) v s)) ps v"
    "c \<in> B \<Longrightarrow> blk_size (set_link (link_of ps) v s) c = blk_size s c"
    "c \<in> B \<Longrightarrow> c \<notin> set ps \<Longrightarrow> blk_next (set_link (link_of ps) v s) c = blk_next s c"
    "get_link (set_link (link_of ps) v s) (link_of ps) = v"
proof -
  show "flseg (blk_next (set_link (link_of ps) v s)) (malloc_freelist (set_link (link_of ps) v s)) ps v"
  proof (cases ps rule: rev_cases)
    case Nil
    then show ?thesis by (simp add: link_of_def)
  next
    case (snoc ps' b)
    have B: "b \<in> B" "c \<in> set ps' \<Longrightarrow> c \<in> B \<and> c \<noteq> b" for c using assms(2,3) snoc by auto
    have "flseg (blk_next s) (malloc_freelist s) ps' b" using assms(4) snoc by (auto simp: flseg_append)
    then have "flseg (blk_next (set_nxt b v s)) (malloc_freelist s) ps' b"
      by (rule flseg_cong [THEN iffD2, rotated]) (use nodes_upd(4) [OF assms(1) B(1)] B(2) in auto)
    then show ?thesis using snoc nodes_upd(4) [OF assms(1) B(1) B(1)] by (simp add: link_of_def flseg_append)
  qed
  have last: "ps \<noteq> [] \<Longrightarrow> last ps \<in> B \<and> last ps \<in> set ps" using assms(2) by auto
  show "c \<in> B \<Longrightarrow> blk_size (set_link (link_of ps) v s) c = blk_size s c"
    using last nodes_upd(3) [OF assms(1), of "last ps" c] by (simp add: link_of_def blk_size_def)
  show "c \<in> B \<Longrightarrow> c \<notin> set ps \<Longrightarrow> blk_next (set_link (link_of ps) v s) c = blk_next s c"
    using last nodes_upd(4) [OF assms(1), of "last ps" c] by (auto simp add: link_of_def blk_next_def)
  show "get_link (set_link (link_of ps) v s) (link_of ps) = v"
    using last nodes_upd(4) [OF assms(1), of "last ps" "last ps"] by (simp add: link_of_def)
qed

section \<open>The heap\<close>

text \<open>
  \<open>L\<close> are the blocks in use.  All blocks together fill the heap, the free list holds the others in
  the order of their addresses, and no two of them are neighbours.
\<close>

definition layout :: "u64 \<Rightarrow> u64 set \<Rightarrow> u64 list \<Rightarrow> heap \<Rightarrow> bool" where
  "layout start L bs s \<longleftrightarrow> 0 < uint start \<and> 8 dvd uint start \<and>
     tiled (blk_size s) (uint start) bs (uint (malloc_end s)) \<and>
     flseg (blk_next s) (malloc_freelist s) (filter (\<lambda>b. b \<notin> L) bs) 0 \<and>
     L \<subseteq> set bs \<and> successively (\<lambda>b c. b \<in> L \<or> c \<in> L) bs"

definition live :: "u64 set \<Rightarrow> heap \<Rightarrow> u64 set" where
  "live L s = {x. \<exists>b\<in>L. uint b \<le> uint x \<and> uint x < uint b + uint (blk_size s b)}"

definition frame :: "u64 set \<Rightarrow> heap \<Rightarrow> heap \<Rightarrow> bool" where
  "frame R s s' \<longleftrightarrow> (\<forall>x\<in>R. heap_mem s' x = heap_mem s x)"

lemma frame_refl [simp]: "frame R s s" by (simp add: frame_def)

lemma frame_trans: "frame R s s' \<Longrightarrow> frame R s' s'' \<Longrightarrow> frame R s s''" by (simp add: frame_def)

lemma layout_facts:
  assumes "layout start L bs s"
  shows "nodes (set bs)" "distinct bs" "b \<in> set bs \<Longrightarrow> b \<noteq> 0"
    "b \<in> set bs \<Longrightarrow> uint start \<le> uint b \<and> uint b + uint (blk_size s b) \<le> uint (malloc_end s) \<and> 16 \<le> uint (blk_size s b) \<and>
      8 dvd uint (blk_size s b) \<and> 8 dvd uint b"
    "tiled (blk_size s) (uint start) bs (uint (malloc_end s))" "8 dvd uint (malloc_end s)"
proof -
  have s: "0 < uint start" "8 dvd uint start" and t: "tiled (blk_size s) (uint start) bs (uint (malloc_end s))"
    using assms by (simp_all add: layout_def)
  show "nodes (set bs)" using t s uint_bounds_64(2) [of "malloc_end s"] by (intro tiled_nodes) auto
  show "distinct bs" using t by (rule tiled_distinct)
  show "b \<in> set bs \<Longrightarrow> uint start \<le> uint b \<and> uint b + uint (blk_size s b) \<le> uint (malloc_end s) \<and> 16 \<le> uint (blk_size s b) \<and>
      8 dvd uint (blk_size s b) \<and> 8 dvd uint b"
    using tiled_in [OF t] tiled_aligned [OF t s(2)] by blast
  then show "b \<in> set bs \<Longrightarrow> b \<noteq> 0" using s(1) by fastforce
  show "tiled (blk_size s) (uint start) bs (uint (malloc_end s))" by (rule t)
  show "8 dvd uint (malloc_end s)" using t s(2) by (rule tiled_end_aligned)
qed

text \<open>Words that no block in use holds.\<close>

lemma store_frame:
  assumes "\<And>b. b \<in> L \<Longrightarrow> uint p + 8 \<le> uint b \<or> uint b + uint (blk_size s b) \<le> uint p" "uint p \<le> 2 ^ 64 - 8"
    and "frame (live L s) s s'"
  shows "frame (live L s) s (s'\<lparr>heap_mem := store64 p v (heap_mem s')\<rparr>)"
proof -
  have "store64 p v (heap_mem s') x = heap_mem s' x" if "x \<in> live L s" for x
    using that assms(1,2) by (intro store64_frame) (fastforce simp: live_def)+
  then show ?thesis using assms(3) by (simp add: frame_def)
qed

lemma free_word:
  assumes "layout start L bs s" "K \<subseteq> L" "f \<in> set bs" "f \<notin> K" "uint f \<le> uint p" "uint p + 8 \<le> uint f + uint (blk_size s f)"
  shows "b \<in> K \<Longrightarrow> uint p + 8 \<le> uint b \<or> uint b + uint (blk_size s b) \<le> uint p" "uint p \<le> 2 ^ 64 - 8"
proof -
  have t: "tiled (blk_size s) (uint start) bs (uint (malloc_end s))" and L: "L \<subseteq> set bs" using assms(1) by (simp_all add: layout_def)
  have "b \<in> K \<Longrightarrow> uint b + uint (blk_size s b) \<le> uint f \<or> uint f + uint (blk_size s f) \<le> uint b"
    by (rule tiled_apart [OF t]) (use L assms(2-4) in auto)
  then show "b \<in> K \<Longrightarrow> uint p + 8 \<le> uint b \<or> uint b + uint (blk_size s b) \<le> uint p" using assms(5,6) by linarith
  show "uint p \<le> 2 ^ 64 - 8"
    using tiled_in [OF t assms(3)] assms(6) uint_bounds_64(2) [of "malloc_end s"] by simp
qed

lemma free_field_frame:
  assumes "layout start L bs s" "K \<subseteq> L" "f \<in> set bs" "f \<notin> K" "frame (live K s) s s'"
  shows "frame (live K s) s (set_size f v s')" "frame (live K s) s (set_nxt f v s')"
proof -
  note i = layout_facts(4) [OF assms(1,3)]
  have f8: "uint (f + 8) = uint f + 8"
    using i uint_bounds_64(2) [of "malloc_end s"] uint_plus_small [of f 8] by simp
  show "frame (live K s) s (set_size f v s')" unfolding set_size_def
    by (rule store_frame [OF _ _ assms(5)]) (use free_word [OF assms(1-4), of f] i in auto)
  show "frame (live K s) s (set_nxt f v s')" unfolding set_nxt_def
    by (rule store_frame [OF _ _ assms(5)]) (use free_word [OF assms(1-4), of "f + 8"] i f8 in auto)
qed

lemma link_frame:
  assumes "layout start L bs s" "K \<subseteq> L" "set ps \<subseteq> set bs - K" "frame (live K s) s s'"
  shows "frame (live K s) s (set_link (link_of ps) v s')"
proof (cases "ps = []")
  case True
  then show ?thesis using assms(4) by (simp add: link_of_def frame_def)
next
  case False
  then have "last ps \<in> set bs" "last ps \<notin> K" using assms(3) last_in_set by blast+
  then show ?thesis using free_field_frame(2) [OF assms(1,2) _ _ assms(4)] False by (simp add: link_of_def)
qed

lemma filter_append_split: "filter P bs = ps @ qs \<Longrightarrow> \<exists>us zs. bs = us @ zs \<and> filter P us = ps \<and> filter P zs = qs"
proof (induction bs arbitrary: ps)
  case (Cons b bs)
  show ?case
  proof (cases "P b \<and> ps = []")
    case True
    then show ?thesis using Cons.prems by (intro exI [of _ "[]"] exI [of _ "b # bs"]) auto
  next
    case False
    then obtain ps' where "filter P bs = ps' @ qs" "ps = (if P b then b # ps' else ps')"
      using Cons.prems by (cases ps) (auto split: if_splits)
    then obtain us zs where "bs = us @ zs" "filter P us = ps'" "filter P zs = qs" using Cons.IH by blast
    then show ?thesis using \<open>ps = _\<close> by (intro exI [of _ "b # us"] exI [of _ zs]) auto
  qed
qed simp

text \<open>A free block and its place in the heap and in the list.\<close>

lemma layout_free:
  assumes "layout start L bs s" "filter (\<lambda>b. b \<notin> L) bs = ps @ b # qs"
  obtains xs ys where "bs = xs @ b # ys" "ps = filter (\<lambda>b. b \<notin> L) xs" "qs = filter (\<lambda>b. b \<notin> L) ys" "b \<notin> L"
    "set ps \<subseteq> set bs - L" "b \<notin> set ps" "b \<notin> set qs" "distinct ps" "set ps \<inter> set qs = {}"
    "flseg (blk_next s) (malloc_freelist s) ps b" "flseg (blk_next s) (blk_next s b) qs 0" "get_link s (link_of ps) = b"
    "blk_next s b = first qs"
proof -
  obtain us zs where u: "bs = us @ zs" "filter (\<lambda>b. b \<notin> L) us = ps" "filter (\<lambda>b. b \<notin> L) zs = b # qs"
    using filter_append_split [OF assms(2)] by blast
  obtain vs ys where v: "zs = vs @ b # ys" "filter (\<lambda>b. b \<notin> L) vs = []" "qs = filter (\<lambda>b. b \<notin> L) ys" "b \<notin> L"
    using u(3) by (auto simp: filter_eq_Cons_iff filter_empty_conv)
  have fl: "flseg (blk_next s) (malloc_freelist s) (ps @ b # qs) 0" using assms by (simp add: layout_def)
  have d: "distinct (ps @ b # qs)" using layout_facts(2) [OF assms(1)] by (metis assms(2) distinct_filter)
  note l = flseg_link [OF fl]
  show thesis
    by (rule that [of "us @ vs" ys]) (use u v d l in \<open>auto dest: flseg_first\<close>)
qed

lemma successively_imp: "successively P bs \<Longrightarrow> (\<And>x y. P x y \<Longrightarrow> Q x y) \<Longrightarrow> successively Q bs"
  by (induction bs rule: induct_list012) auto

end
