(* ===== verification/MA_Ops.thy ===== *)
theory MA_Ops
  imports MA_Malloc
begin

text \<open>
  What \<open>malloc\<close>, \<open>free\<close> and \<open>realloc\<close> do to the layout of the heap, path by path: the loops end,
  the result is a layout with one block more or less in use, the bytes of the other blocks in use
  are left alone.
\<close>

section \<open>What malloc does\<close>

definition allocated :: "u64 \<Rightarrow> u64 set \<Rightarrow> u64 \<Rightarrow> u64 \<Rightarrow> heap \<Rightarrow> u64 \<Rightarrow> heap \<Rightarrow> bool" where
  "allocated start L limit real_size s b s' \<longleftrightarrow> b \<notin> L \<and> (\<exists>bs'. layout start (insert b L) bs' s') \<and>
     uint real_size \<le> uint (blk_size s' b) \<and> frame (live L s) s s' \<and> uint (malloc_end s') + 32 \<le> uint limit"

lemma layout_nodes:
  assumes "tiled Z (uint start) bs e" "e < 2 ^ 64" "layout start L bs0 s"
  shows "nodes (set bs)" "distinct bs"
  using assms tiled_nodes [OF assms(1)] tiled_distinct [OF assms(1)] by (simp_all add: layout_def)

text \<open>The block fits.\<close>

lemma take_ok:
  assumes lay: "layout start L bs s" and f: "filter (\<lambda>b. b \<notin> L) bs = ps @ b # qs"
    and "uint real_size \<le> uint (blk_size s b)" "uint (malloc_end s) + 32 \<le> uint limit"
  shows "allocated start L limit real_size s b (set_link (link_of ps) (blk_next s b) s)"
proof -
  obtain xs ys where x: "bs = xs @ b # ys" "ps = filter (\<lambda>b. b \<notin> L) xs" "qs = filter (\<lambda>b. b \<notin> L) ys" "b \<notin> L"
    "set ps \<subseteq> set bs - L" "b \<notin> set ps" "b \<notin> set qs" "distinct ps" "set ps \<inter> set qs = {}"
    "flseg (blk_next s) (malloc_freelist s) ps b" "flseg (blk_next s) (blk_next s b) qs 0" "get_link s (link_of ps) = b"
    "blk_next s b = first qs" using lay f by (rule layout_free)
  note n = layout_facts(1,2) [OF lay]
  have psB: "set ps \<subseteq> set bs" and qsB: "set qs \<subseteq> set bs" using x(1-3,5) by auto
  define s' where "s' = set_link (link_of ps) (blk_next s b) s"
  note u = set_link_upd [OF n(1) psB x(8,10), where v = "blk_next s b", folded s'_def]
  have "filter (\<lambda>c. c \<notin> insert b L) xs = ps" "filter (\<lambda>c. c \<notin> insert b L) ys = qs"
    using x(1-3) n(2) by (auto intro!: filter_cong)
  then have "filter (\<lambda>c. c \<notin> insert b L) bs = ps @ qs" by (simp add: x(1))
  moreover have "flseg (blk_next s') (blk_next s b) qs 0"
    using x(11) by (rule flseg_cong [THEN iffD2, rotated]) (use u(3) qsB x(9) in auto)
  ultimately have "flseg (blk_next s') (malloc_freelist s') (filter (\<lambda>c. c \<notin> insert b L) bs) 0"
    using u(1) by (auto simp: flseg_append)
  moreover have "tiled (blk_size s') (uint start) bs (uint (malloc_end s'))"
    using lay u(2) by (simp add: layout_def s'_def tiled_cong [of bs "blk_size (set_link (link_of ps) (blk_next s b) s)" "blk_size s"])
  ultimately have "layout start (insert b L) bs s'"
    using lay x(1) by (auto simp: layout_def elim!: successively_imp)
  moreover have "frame (live L s) s s'" unfolding s'_def by (rule link_frame [OF lay subset_refl x(5)]) simp
  moreover have "blk_size s' b = blk_size s b" by (rule u(2)) (simp add: x(1))
  ultimately show ?thesis using assms(3,4) x(4) by (auto simp: allocated_def s'_def)
qed

text \<open>The block is split.\<close>

lemma split_ok:
  assumes lay: "layout start L bs s" and f: "filter (\<lambda>b. b \<notin> L) bs = ps @ b # qs"
    and r: "16 \<le> uint real_size" "8 dvd uint real_size" "uint real_size + 16 \<le> uint (blk_size s b)"
    and room: "uint (malloc_end s) + 32 \<le> uint limit"
  shows "allocated start L limit real_size s b
    (set_size b real_size (set_nxt (b + real_size) (blk_next s b)
      (set_size (b + real_size) (blk_size s b - real_size) (set_link (link_of ps) (b + real_size) s))))"
    "get_link (set_link (link_of ps) (b + real_size) s) (link_of ps) = b + real_size"
    "get_link (set_size (b + real_size) v (set_link (link_of ps) (b + real_size) s)) (link_of ps) = b + real_size"
proof -
  obtain xs ys where x: "bs = xs @ b # ys" "ps = filter (\<lambda>b. b \<notin> L) xs" "qs = filter (\<lambda>b. b \<notin> L) ys" "b \<notin> L"
    "set ps \<subseteq> set bs - L" "b \<notin> set ps" "b \<notin> set qs" "distinct ps" "set ps \<inter> set qs = {}"
    "flseg (blk_next s) (malloc_freelist s) ps b" "flseg (blk_next s) (blk_next s b) qs 0" "get_link s (link_of ps) = b"
    "blk_next s b = first qs" using lay f by (rule layout_free)
  define c where "c = b + real_size"
  define bs' where "bs' = xs @ b # c # ys"
  note t = layout_facts(5) [OF lay]
  have t': "tiled ((blk_size s)(b := real_size, c := blk_size s b - real_size)) (uint start) bs' (uint (malloc_end s))"
    unfolding bs'_def c_def using t uint_bounds_64 r by (intro tiled_split) (auto simp: x(1))
  have n: "nodes (set bs')" "distinct bs'"
    using layout_nodes [OF t' _ lay] uint_bounds_64(2) [of "malloc_end s"] by simp_all
  have cb: "c \<notin> set bs" "c \<noteq> b" using n(2) by (auto simp: bs'_def x(1))
  have cu: "uint c = uint b + uint real_size"
    using tiled_mid(2) [of _ _ "xs @ [b]" c ys] t' x(1) cb by (auto simp: bs'_def tiled_append c_def)
  have psB: "set ps \<subseteq> set bs'" and qsB: "set qs \<subseteq> set bs'" and cB: "c \<in> set bs'" "b \<in> set bs'" "set bs \<subseteq> set bs'"
    using x(1-3,5) by (auto simp: bs'_def)
  define s1 where "s1 = set_link (link_of ps) c s"
  define s2 where "s2 = set_size c (blk_size s b - real_size) s1"
  define s3 where "s3 = set_nxt c (blk_next s b) s2"
  define s4 where "s4 = set_size b real_size s3"
  note u = set_link_upd [OF n(1) psB x(8,10), where v = c, folded s1_def]
  have size: "blk_size s4 d = ((blk_size s)(b := real_size, c := blk_size s b - real_size)) d" if "d \<in> set bs'" for d
    using that u(2) cB cb(2) by (simp add: s4_def s3_def s2_def nodes_upd [OF n(1)])
  have nxt: "blk_next s4 d = (if d = c then blk_next s b else blk_next s1 d)" if "d \<in> set bs'" for d
    using that cB by (simp add: s4_def s3_def s2_def nodes_upd [OF n(1)])
  have cps: "c \<notin> set ps" "c \<notin> set qs" "c \<notin> L" using cb x(1,2,3,5) lay by (auto simp: layout_def)
  have "filter (\<lambda>c. c \<notin> insert b L) xs = ps" "filter (\<lambda>c. c \<notin> insert b L) ys = qs"
    using x(1-3) layout_facts(2) [OF lay] by (auto intro!: filter_cong)
  then have "filter (\<lambda>c. c \<notin> insert b L) bs' = ps @ c # qs" using cps(3) cb(2) by (simp add: bs'_def)
  moreover have "blk_next s4 d = blk_next s d" if "d \<in> set qs" for d
  proof -
    have "d \<in> set bs'" "d \<notin> set ps" "d \<noteq> c" using that qsB x(9) cps(2) by auto
    then show ?thesis using nxt u(3) by simp
  qed
  then have "flseg (blk_next s4) (blk_next s b) qs 0" using x(11) by (simp add: flseg_cong [of qs "blk_next s4" "blk_next s"])
  moreover have "flseg (blk_next s4) (malloc_freelist s1) ps c"
    using u(1) by (rule flseg_cong [THEN iffD2, rotated]) (use nxt psB cps(1) in auto)
  moreover have "malloc_freelist s4 = malloc_freelist s1" by (simp add: s4_def s3_def s2_def)
  ultimately have "flseg (blk_next s4) (malloc_freelist s4) (filter (\<lambda>c. c \<notin> insert b L) bs') 0"
    using nxt [OF cB(1)] by (auto simp: flseg_append)
  moreover have "tiled (blk_size s4) (uint start) bs' (uint (malloc_end s4))"
    using t' size by (subst tiled_cong [OF size]) (simp_all add: s4_def s3_def s2_def s1_def)
  moreover have "successively (\<lambda>d e. d \<in> insert b L \<or> e \<in> insert b L) bs'"
    using lay x(4) by (cases ys) (auto simp: layout_def bs'_def x(1) successively_append_iff elim!: successively_imp)
  moreover have "insert b L \<subseteq> set bs'" using lay cB by (auto simp: layout_def)
  ultimately have "layout start (insert b L) bs' s4" using lay by (simp add: layout_def)
  moreover have "frame (live L s) s s4"
  proof -
    have bB: "b \<in> set bs" by (simp add: x(1))
    note i = layout_facts(4) [OF lay bB]
    have e: "uint (malloc_end s) < 2 ^ 64" using uint_bounds_64(2) [of "malloc_end s"] by simp
    then have c8: "uint (c + 8) = uint c + 8" using i cu r(3) uint_plus_small [of c 8] by simp
    have "frame (live L s) s s1" unfolding s1_def by (rule link_frame [OF lay subset_refl x(5)]) simp
    then have "frame (live L s) s s2" unfolding s2_def set_size_def
      by (rule store_frame [rotated 2]) (use free_word [OF lay subset_refl bB x(4), of c] cu r in auto)
    then have "frame (live L s) s s3" unfolding s3_def set_nxt_def
      by (rule store_frame [rotated 2]) (use free_word [OF lay subset_refl bB x(4), of "c + 8"] cu c8 r in auto)
    then show ?thesis unfolding s4_def by (rule free_field_frame(1) [OF lay subset_refl bB x(4)])
  qed
  moreover have "blk_size s4 b = real_size" using size [OF cB(2)] cb(2) by simp
  ultimately show "allocated start L limit real_size s b (set_size b real_size (set_nxt (b + real_size) (blk_next s b)
      (set_size (b + real_size) (blk_size s b - real_size) (set_link (link_of ps) (b + real_size) s))))"
    using x(4) room by (auto simp: allocated_def s4_def s3_def s2_def s1_def c_def)
  show link: "get_link (set_link (link_of ps) (b + real_size) s) (link_of ps) = b + real_size"
    using u(4) by (simp add: s1_def c_def)
  show "get_link (set_size (b + real_size) v (set_link (link_of ps) (b + real_size) s)) (link_of ps) = b + real_size"
  proof (cases "ps = []")
    case False
    then have "last ps \<in> set bs'" using psB by auto
    then show ?thesis using link False nodes_upd(2) [OF n(1) cB(1), of "last ps" v s1] by (simp add: link_of_def s1_def c_def)
  qed (use link in \<open>simp add: link_of_def\<close>)
qed

text \<open>The last block is free and grows.\<close>

lemma can_alloc:
  assumes "uint (malloc_end s) + 32 \<le> uint limit"
  shows "CAN_ALLOC_P limit r s \<longleftrightarrow> uint (malloc_end s) + uint r + 32 \<le> uint limit"
proof -
  have "uint (limit - malloc_end s) = uint limit - uint (malloc_end s)"
    using assms by (simp add: uint_minus_simple_alt [THEN iffD1] word_le_def)
  moreover from this have "uint (limit - malloc_end s - 32) = uint (limit - malloc_end s) - 32"
    using assms by (subst uint_minus_simple_alt [THEN iffD1]) (simp_all add: word_le_def)
  ultimately show ?thesis unfolding CAN_ALLOC_P_def word_le_def by auto
qed

lemma grow_ok:
  assumes lay: "layout start L bs s" and f: "filter (\<lambda>b. b \<notin> L) bs = ps @ b # qs"
    and r: "16 \<le> uint real_size" "8 dvd uint real_size" "uint (blk_size s b) < uint real_size"
    and last: "malloc_end s = b + blk_size s b"
    and room: "uint (malloc_end s) + uint (real_size - blk_size s b) + 32 \<le> uint limit"
  shows "allocated start L limit real_size s b (set_size b real_size (set_link (link_of ps) 0 s\<lparr>malloc_end := b + real_size\<rparr>))"
proof -
  obtain xs ys where x: "bs = xs @ b # ys" "ps = filter (\<lambda>b. b \<notin> L) xs" "qs = filter (\<lambda>b. b \<notin> L) ys" "b \<notin> L"
    "set ps \<subseteq> set bs - L" "b \<notin> set ps" "b \<notin> set qs" "distinct ps" "set ps \<inter> set qs = {}"
    "flseg (blk_next s) (malloc_freelist s) ps b" "flseg (blk_next s) (blk_next s b) qs 0" "get_link s (link_of ps) = b"
    "blk_next s b = first qs" using lay f by (rule layout_free)
  note n = layout_facts(1,2) [OF lay] and t = layout_facts(5) [OF lay]
  have bB: "b \<in> set bs" by (simp add: x(1))
  note i = layout_facts(4) [OF lay bB]
  have e: "uint (malloc_end s) < 2 ^ 64" "uint (malloc_end s) = uint b + uint (blk_size s b)"
  proof -
    show "uint (malloc_end s) < 2 ^ 64" using uint_bounds_64(2) [of "malloc_end s"] by simp
    then have "uint b + uint (blk_size s b) < 2 ^ 64" using i by linarith
    then show "uint (malloc_end s) = uint b + uint (blk_size s b)" unfolding last by (rule uint_plus_small)
  qed
  have ys: "ys = []"
  proof (cases ys)
    case (Cons y ys')
    then have "uint b + uint (blk_size s b) \<le> uint y" "uint y + 16 \<le> uint (malloc_end s)"
      using tiled_mid(4) [of _ _ xs b ys _ y] t x(1) layout_facts(4) [OF lay, of y] by auto
    then show ?thesis using e by simp
  qed simp
  have "uint (real_size - blk_size s b) = uint real_size - uint (blk_size s b)"
    using r(3) by (simp add: uint_minus_simple_alt [THEN iffD1] word_le_def)
  then have end': "uint b + uint real_size + 32 \<le> uint limit" using room e by simp
  then have br: "uint (b + real_size) = uint b + uint real_size" using uint_bounds_64(2) [of limit] by (intro uint_plus_small) simp
  have psB: "set ps \<subseteq> set bs" using x(5) by auto
  define s1 where "s1 = set_link (link_of ps) 0 s"
  define s' where "s' = set_size b real_size (s1\<lparr>malloc_end := b + real_size\<rparr>)"
  note u = set_link_upd [OF n(1) psB x(8,10), where v = 0, folded s1_def]
  have size: "blk_size s' d = ((blk_size s)(b := real_size)) d" if "d \<in> set bs" for d
    using that u(2) bB by (simp add: s'_def nodes_upd [OF n(1)])
  have nxt: "blk_next s' d = blk_next s1 d" if "d \<in> set bs" for d
    using that bB by (simp add: s'_def nodes_upd [OF n(1)])
  have "filter (\<lambda>c. c \<notin> insert b L) bs = ps" using x(1,2) ys n(2) by (auto intro!: filter_cong)
  moreover have "flseg (blk_next s') (malloc_freelist s1) ps 0"
    using u(1) by (rule flseg_cong [THEN iffD2, rotated]) (use nxt psB in auto)
  moreover have "malloc_freelist s' = malloc_freelist s1" by (simp add: s'_def)
  ultimately have "flseg (blk_next s') (malloc_freelist s') (filter (\<lambda>c. c \<notin> insert b L) bs) 0" by simp
  moreover have "tiled (blk_size s') (uint start) bs (uint (malloc_end s'))"
    using tiled_resize_last [of "blk_size s" _ xs b _ real_size] t r(1,2) x(1) ys
    by (subst tiled_cong [OF size]) (simp_all add: s'_def br)
  ultimately have "layout start (insert b L) bs s'"
    using lay x(1) by (auto simp: layout_def elim!: successively_imp)
  moreover have "frame (live L s) s (s1\<lparr>malloc_end := b + real_size\<rparr>)"
    using link_frame [OF lay subset_refl x(5), of s 0] by (simp add: s1_def frame_def)
  then have "frame (live L s) s s'" unfolding s'_def by (rule free_field_frame(1) [OF lay subset_refl bB x(4)])
  moreover have "blk_size s' b = real_size" using size [OF bB] by simp
  moreover have "uint (malloc_end s') = uint b + uint real_size" by (simp add: s'_def br)
  ultimately show ?thesis using x(4) end' by (auto simp: allocated_def s'_def s1_def)
qed

text \<open>A new block at the end.\<close>

lemma new_ok:
  assumes lay: "layout start L bs s" and f: "filter (\<lambda>b. b \<notin> L) bs = ps"
    and r: "16 \<le> uint real_size" "8 dvd uint real_size"
    and room: "uint (malloc_end s) + uint real_size + 32 \<le> uint limit"
  shows "allocated start L limit real_size s (malloc_end s)
    (set_size (malloc_end s) real_size (s\<lparr>malloc_end := malloc_end s + real_size\<rparr>))"
proof -
  define b where "b = malloc_end s"
  define s' where "s' = set_size b real_size (s\<lparr>malloc_end := b + real_size\<rparr>)"
  note t = layout_facts(5) [OF lay, folded b_def]
  have br: "uint (b + real_size) = uint b + uint real_size"
    using room uint_bounds_64(2) [of limit] unfolding b_def by (intro uint_plus_small) simp
  have t': "tiled ((blk_size s)(b := real_size)) (uint start) (bs @ [b]) (uint (b + real_size))"
    unfolding br using t r by (rule tiled_snoc)
  note n = layout_nodes [OF t' _ lay]
  have n: "nodes (set (bs @ [b]))" "distinct (bs @ [b])"
    using layout_nodes [OF t' _ lay] uint_bounds_64(2) [of "b + real_size"] by simp_all
  have L: "L \<subseteq> set bs" using lay by (simp add: layout_def)
  have size: "blk_size s' d = ((blk_size s)(b := real_size)) d" "blk_next s' d = blk_next s d" if "d \<in> set (bs @ [b])" for d
    using that by (simp_all add: s'_def nodes_upd [OF n(1)])
  have "b \<notin> L" using n(2) L by auto
  have "filter (\<lambda>c. c \<notin> insert b L) (bs @ [b]) = filter (\<lambda>c. c \<notin> L) bs" using n(2) by (auto intro!: filter_cong)
  moreover have "flseg (blk_next s') (malloc_freelist s') (filter (\<lambda>c. c \<notin> L) bs) 0"
  proof -
    have "malloc_freelist s' = malloc_freelist s" by (simp add: s'_def)
    then show ?thesis using lay by (subst flseg_cong [of _ _ "blk_next s"]) (auto simp: size layout_def)
  qed
  ultimately have "flseg (blk_next s') (malloc_freelist s') (filter (\<lambda>c. c \<notin> insert b L) (bs @ [b])) 0" by simp
  moreover have "tiled (blk_size s') (uint start) (bs @ [b]) (uint (malloc_end s'))"
    using t' by (subst tiled_cong [OF size(1)]) (simp_all add: s'_def)
  moreover have "successively (\<lambda>c d. c \<in> insert b L \<or> d \<in> insert b L) (bs @ [b])"
    using lay by (auto simp: layout_def successively_append_iff elim!: successively_imp)
  ultimately have "layout start (insert b L) (bs @ [b]) s'" using lay by (auto simp: layout_def)
  moreover have "frame (live L s) s s'"
    unfolding s'_def set_size_def
  proof (rule store_frame)
    show "uint b + 8 \<le> uint c \<or> uint c + uint (blk_size s c) \<le> uint b" if "c \<in> L" for c
      using layout_facts(4) [OF lay, of c] that L by (auto simp: b_def)
    show "uint b \<le> 2 ^ 64 - 8" using room uint_bounds_64(2) [of limit] r(1) unfolding b_def by simp
  qed (simp add: frame_def)
  moreover have "blk_size s' b = real_size" using size(1) [of b] by simp
  moreover have "uint (malloc_end s') = uint b + uint real_size" by (simp add: s'_def br)
  ultimately show ?thesis using \<open>b \<notin> L\<close> room by (auto simp: allocated_def s'_def b_def)
qed

text \<open>The loop.\<close>

definition out_of_room :: "u64 \<Rightarrow> u64 \<Rightarrow> heap \<Rightarrow> bool" where
  "out_of_room limit real_size s \<longleftrightarrow> uint limit < uint (malloc_end s) + uint real_size + 32"

lemma malloc_loop_ok:
  assumes lay: "layout start L bs s" and f: "filter (\<lambda>b. b \<notin> L) bs = ps @ qs"
    and r: "16 \<le> uint real_size" "8 dvd uint real_size" and room: "uint (malloc_end s) + 32 \<le> uint limit"
  shows "malloc_loop limit real_size (link_of ps) s = Some (0, s) \<and> out_of_room limit real_size s \<or>
    (\<exists>b s'. malloc_loop limit real_size (link_of ps) s = Some (b + 8, s') \<and> allocated start L limit real_size s b s')"
  using f
proof (induction qs arbitrary: ps)
  case Nil
  have "flseg (blk_next s) (malloc_freelist s) (ps @ []) 0" using lay Nil by (simp add: layout_def)
  then have "get_link s (link_of ps) = 0" using flseg_link(3) by fastforce
  then have code: "malloc_loop limit real_size (link_of ps) s = Some (malloc_new limit real_size s)"
    by (subst malloc_loop.simps) simp
  show ?case
  proof (cases "out_of_room limit real_size s")
    case True
    then show ?thesis unfolding code by (simp add: malloc_new_def can_alloc [OF room] out_of_room_def)
  next
    case False
    then have "allocated start L limit real_size s (malloc_end s) (set_size (malloc_end s) real_size (s\<lparr>malloc_end := malloc_end s + real_size\<rparr>))"
      using new_ok [OF lay Nil r] by (simp add: out_of_room_def)
    then show ?thesis unfolding code using False
      by (auto simp add: malloc_new_def malloc_done_def Let_def can_alloc [OF room] out_of_room_def)
  qed
next
  case (Cons b qs)
  obtain xs ys where x: "bs = xs @ b # ys" "ps = filter (\<lambda>b. b \<notin> L) xs" "qs = filter (\<lambda>b. b \<notin> L) ys" "b \<notin> L"
    "set ps \<subseteq> set bs - L" "b \<notin> set ps" "b \<notin> set qs" "distinct ps" "set ps \<inter> set qs = {}"
    "flseg (blk_next s) (malloc_freelist s) ps b" "flseg (blk_next s) (blk_next s b) qs 0" "get_link s (link_of ps) = b"
    "blk_next s b = first qs" using lay Cons.prems by (rule layout_free)
  have b0: "b \<noteq> 0" using layout_facts(3) [OF lay, of b] by (simp add: x(1))
  have bB: "b \<in> set bs" by (simp add: x(1))
  note i = layout_facts(4) [OF lay bB]
  note n = layout_facts(1) [OF lay]
  have psB: "set ps \<subseteq> set bs" using x(5) by auto
  note code = malloc_loop.simps [of limit real_size "link_of ps" s, unfolded x(12) Let_def]
  consider (take) "real_size \<le> blk_size s b" "blk_size s b < real_size + 16"
    | (split) "real_size \<le> blk_size s b" "\<not> blk_size s b < real_size + 16"
    | (grow) "\<not> real_size \<le> blk_size s b" "blk_next s b = 0 \<and> malloc_end s = b + blk_size s b"
    | (skip) "\<not> real_size \<le> blk_size s b" "\<not> (blk_next s b = 0 \<and> malloc_end s = b + blk_size s b)" by blast
  then show ?case
  proof cases
    case take
    then show ?thesis unfolding code using b0 take_ok [OF lay Cons.prems _ room, of real_size] by (auto simp add: word_le_def)
  next
    case split
    have "uint (real_size + 16) = uint real_size + 16"
      using uint_plus_small [of real_size 16] split(1) i room uint_bounds_64(2) [of limit] lay by (simp add: word_le_def layout_def)
    then have "uint real_size + 16 \<le> uint (blk_size s b)" using split(2) by (simp add: word_less_def)
    note a = split_ok [OF lay Cons.prems r this room]
    show ?thesis unfolding code using b0 split a by (auto simp add: malloc_done_def)
  next
    case grow
    then have z: "uint (blk_size s b) < uint real_size" by (simp add: word_le_def)
    have m: "uint (real_size - blk_size s b) = uint real_size - uint (blk_size s b)"
      using z by (simp add: uint_minus_simple_alt [THEN iffD1] word_le_def)
    show ?thesis
    proof (cases "CAN_ALLOC_P limit (real_size - blk_size s b) s")
      case True
      then have "uint (malloc_end s) + uint (real_size - blk_size s b) + 32 \<le> uint limit" using can_alloc [OF room] by blast
      note a = grow_ok [OF lay Cons.prems r z conjunct2 [OF grow(2)] this]
      show ?thesis unfolding code using b0 grow True a by (auto simp add: malloc_done_def)
    next
      case False
      then have "out_of_room limit real_size s" using can_alloc [OF room] m i by (simp add: out_of_room_def)
      then show ?thesis unfolding code using b0 grow False by simp
    qed
  next
    case skip
    have "malloc_loop limit real_size (link_of ps) s = malloc_loop limit real_size (link_of (ps @ [b])) s"
    proof -
      have l: "link_of (ps @ [b]) = Next_of b" by (simp add: link_of_def)
      show ?thesis unfolding l code by (simp only: b0 skip if_False)
    qed
    then show ?thesis using Cons.IH [of "ps @ [b]"] Cons.prems by simp
  qed
qed

lemma uint_REAL_SIZE:
  assumes "uint sz \<le> 2 ^ 64 - 16"
  shows "16 \<le> uint (REAL_SIZE sz)" "8 dvd uint (REAL_SIZE sz)" "uint sz + 8 \<le> uint (REAL_SIZE sz)"
proof -
  have m: "uint (M_ALIGN sz 8) = (- uint sz) mod 8"
    using uint_and_mask [of "- sz" 3] by (simp add: M_ALIGN_def uint_minus_mod mask_eq_exp_minus_1 mod_mod_cancel)
  have s: "(uint sz + (- uint sz) mod 8) mod 8 = 0" by (simp add: mod_simps)
  show "16 \<le> uint (REAL_SIZE sz)" "8 dvd uint (REAL_SIZE sz)" "uint sz + 8 \<le> uint (REAL_SIZE sz)"
  proof (atomize (full), cases "sz < 8")
    case True
    then show "16 \<le> uint (REAL_SIZE sz) \<and> 8 dvd uint (REAL_SIZE sz) \<and> uint sz + 8 \<le> uint (REAL_SIZE sz)"
      by (simp add: REAL_SIZE_def word_less_def)
  next
    case False
    then have r: "REAL_SIZE sz = sz + 8 + M_ALIGN sz 8" "8 \<le> uint sz" by (simp_all add: REAL_SIZE_def word_less_def)
    have "uint sz + (- uint sz) mod 8 \<le> 2 ^ 64 - 16" using assms by simp presburger
    then have "uint (REAL_SIZE sz) = uint sz + (- uint sz) mod 8 + 8"
      unfolding r(1) using m uint_plus_small [of sz 8] uint_plus_small [of "sz + 8" "M_ALIGN sz 8"] by simp
    then show "16 \<le> uint (REAL_SIZE sz) \<and> 8 dvd uint (REAL_SIZE sz) \<and> uint sz + 8 \<le> uint (REAL_SIZE sz)"
      using s r(2) by (simp add: dvd_eq_mod_eq_0)
  qed
qed

section \<open>What free does\<close>

definition released :: "u64 \<Rightarrow> u64 set \<Rightarrow> heap \<Rightarrow> u64 \<Rightarrow> heap \<Rightarrow> bool" where
  "released start L s b s' \<longleftrightarrow> (\<exists>bs'. layout start (L - {b}) bs' s') \<and> frame (live (L - {b}) s) s s' \<and> malloc_end s' = malloc_end s"

lemma layout_sum:
  assumes "layout start L bs s" "f \<in> set bs"
  shows "uint (f + blk_size s f) = uint f + uint (blk_size s f)" "f + blk_size s f = c \<longleftrightarrow> uint f + uint (blk_size s f) = uint c"
proof -
  show *: "uint (f + blk_size s f) = uint f + uint (blk_size s f)"
    using layout_facts(4) [OF assms] uint_bounds_64(2) [of "malloc_end s"] by (intro uint_plus_small) simp
  show "f + blk_size s f = c \<longleftrightarrow> uint f + uint (blk_size s f) = uint c" unfolding *[symmetric] by (rule word_uint_eq_iff)
qed

text \<open>Two blocks that touch are neighbours.\<close>

lemma neighbours:
  assumes lay: "layout start L bs s" and f: "f \<in> set bs" "c \<in> set bs" "uint f + uint (blk_size s f) = uint c"
  obtains xs ys where "bs = xs @ f # c # ys"
proof -
  obtain xs zs where x: "bs = xs @ f # zs" using f(1) by (auto simp: in_set_conv_decomp)
  note t = layout_facts(5) [OF lay] and i = layout_facts(4) [OF lay]
  have "c \<in> set zs" using f x i [OF f(1)] tiled_mid(3) [of _ _ xs f zs _ c] t i [OF f(2)] by fastforce
  then obtain us ys where u: "zs = us @ c # ys" by (auto simp: in_set_conv_decomp)
  have "us = []"
  proof (cases us)
    case (Cons z us')
    then have "uint f + uint (blk_size s f) \<le> uint z" "uint z + uint (blk_size s z) \<le> uint c"
      using t tiled_mid(4) [of _ _ xs f zs _ z] tiled_mid(3) [of _ _ "xs @ f # us" c ys _ z] by (simp_all add: x u)
    moreover have "16 \<le> uint (blk_size s z)" using i [of z] x u Cons by simp
    ultimately show ?thesis using f(3) by simp
  qed simp
  then show thesis using that x u by simp
qed

lemma split_unique: "A @ B = C @ D \<Longrightarrow> \<forall>a\<in>set A. P a \<Longrightarrow> \<forall>b\<in>set B. \<not> P b \<Longrightarrow> \<forall>c\<in>set C. P c \<Longrightarrow> \<forall>d\<in>set D. \<not> P d \<Longrightarrow> A = C \<and> B = D"
proof -
  assume a: "A @ B = C @ D" "\<forall>a\<in>set A. P a" "\<forall>b\<in>set B. \<not> P b" "\<forall>c\<in>set C. P c" "\<forall>d\<in>set D. \<not> P d"
  then have "filter P A = A" "filter P B = []" "filter P C = C" "filter P D = []"
    by (simp_all add: filter_id_conv filter_empty_conv)
  then have "A = C" using arg_cong [OF a(1), of "filter P"] by simp
  then show ?thesis using a(1) by simp
qed

text \<open>The block in use, and the free blocks before and behind it.\<close>

lemma layout_used:
  assumes lay: "layout start L bs s" and b: "b \<in> L"
  obtains xs ys where "bs = xs @ b # ys" "\<forall>x\<in>set xs. uint x < uint b" "\<forall>y\<in>set ys. uint b < uint y"
    "b \<notin> set xs" "b \<notin> set ys"
    "filter (\<lambda>c. c \<notin> L) bs = filter (\<lambda>c. c \<notin> L) xs @ filter (\<lambda>c. c \<notin> L) ys"
    "filter (\<lambda>c. c \<notin> L - {b}) xs = filter (\<lambda>c. c \<notin> L) xs" "filter (\<lambda>c. c \<notin> L - {b}) ys = filter (\<lambda>c. c \<notin> L) ys"
proof -
  have "b \<in> set bs" using lay b by (auto simp: layout_def)
  then obtain xs ys where x: "bs = xs @ b # ys" by (auto simp: in_set_conv_decomp)
  note t = layout_facts(5) [OF lay, unfolded x] and i = layout_facts(4) [OF lay, unfolded x]
  have "b \<notin> set xs" "b \<notin> set ys" using layout_facts(2) [OF lay] x by auto
  moreover have "uint c < uint b" if "c \<in> set xs" for c using tiled_mid(3) [OF t that] i [of c] that by auto
  moreover have "uint b < uint c" if "c \<in> set ys" for c using tiled_mid(4) [OF t that] i [of b] by auto
  ultimately show thesis by (intro that [of xs ys]) (use x b in \<open>auto intro!: filter_cong\<close>)
qed

lemma insert_ok:
  assumes lay: "layout start L bs s" and b: "b \<in> L" and f: "filter (\<lambda>b. b \<notin> L) bs = ps @ qs"
    and ps: "\<And>p. p \<in> set ps \<Longrightarrow> uint p < uint b \<and> uint p + uint (blk_size s p) \<noteq> uint b"
    and qs: "\<And>q. q \<in> set qs \<Longrightarrow> uint b < uint q \<and> uint b + uint (blk_size s b) \<noteq> uint q"
  shows "released start L s b (free_insert b (link_of ps) s)"
proof -
  obtain xs ys where x: "bs = xs @ b # ys" "\<forall>x\<in>set xs. uint x < uint b" "\<forall>y\<in>set ys. uint b < uint y"
    "b \<notin> set xs" "b \<notin> set ys"
    "filter (\<lambda>c. c \<notin> L) bs = filter (\<lambda>c. c \<notin> L) xs @ filter (\<lambda>c. c \<notin> L) ys"
    "filter (\<lambda>c. c \<notin> L - {b}) xs = filter (\<lambda>c. c \<notin> L) xs" "filter (\<lambda>c. c \<notin> L - {b}) ys = filter (\<lambda>c. c \<notin> L) ys"
    using lay b by (rule layout_used)
  have "filter (\<lambda>c. c \<notin> L) xs @ filter (\<lambda>c. c \<notin> L) ys = ps @ qs" using f x(6) by simp
  then have pq: "ps = filter (\<lambda>c. c \<notin> L) xs" "qs = filter (\<lambda>c. c \<notin> L) ys"
    using split_unique [of "filter (\<lambda>c. c \<notin> L) xs" "filter (\<lambda>c. c \<notin> L) ys" ps qs "\<lambda>c. uint c < uint b"] x(2,3) ps qs
    by (simp_all add: order_less_imp_not_less)
  note n = layout_facts(1,2) [OF lay] and t = layout_facts(5) [OF lay]
  have bB: "b \<in> set bs" by (simp add: x(1))
  have psB: "set ps \<subseteq> set bs" "set qs \<subseteq> set bs" "set ps \<inter> set qs = {}" "distinct ps" "b \<notin> set ps" "b \<notin> set qs"
    using n(2) x(1) by (auto simp: pq)
  have fl: "flseg (blk_next s) (malloc_freelist s) (ps @ qs) 0" using lay by (simp add: layout_def f)
  note l = flseg_link [OF fl]
  define s1 where "s1 = set_nxt b (first qs) s"
  define s2 where "s2 = set_link (link_of ps) b s1"
  have s1: "blk_size s1 c = blk_size s c" "blk_next s1 c = (if c = b then first qs else blk_next s c)" if "c \<in> set bs" for c
    using that bB by (simp_all add: s1_def nodes_upd [OF n(1)])
  have "malloc_freelist s1 = malloc_freelist s" "malloc_end s1 = malloc_end s" by (simp_all add: s1_def)
  note e = this
  have "flseg (blk_next s1) (malloc_freelist s1) ps (first qs)"
    using l(1) psB by (subst flseg_cong [of _ _ "blk_next s"]) (auto simp: s1(2) e subset_eq)
  note u = set_link_upd [OF n(1) psB(1,4) this, where v = b, folded s2_def]
  have "blk_next s2 c = blk_next s c" if "c \<in> set qs" for c
  proof -
    have "c \<in> set bs" "c \<notin> set ps" "c \<noteq> b" using that psB by auto
    then show ?thesis using u(3) s1(2) by simp
  qed
  then have "flseg (blk_next s2) (first qs) qs 0" using l(2) by (simp add: flseg_cong [of qs "blk_next s2" "blk_next s"])
  moreover have "filter (\<lambda>c. c \<notin> L - {b}) bs = ps @ b # qs" unfolding x(1) filter_append filter.simps x(7,8) pq by simp
  ultimately have "flseg (blk_next s2) (malloc_freelist s2) (filter (\<lambda>c. c \<notin> L - {b}) bs) 0"
    using u(1,3) bB psB(5) s1(2) by (auto simp: flseg_append)
  moreover have "tiled (blk_size s2) (uint start) bs (uint (malloc_end s2))"
    using t by (subst tiled_cong [of _ _ "blk_size s"]) (simp_all add: u(2) s1(1), simp_all add: s2_def e)
  moreover have "successively (\<lambda>c d. c \<in> L - {b} \<or> d \<in> L - {b}) bs"
  proof -
    have "last xs \<in> L" if "xs \<noteq> []"
    proof (rule ccontr)
      assume "last xs \<notin> L"
      then have "last xs \<in> set ps" using that by (simp add: pq)
      moreover have "uint (last xs) + uint (blk_size s (last xs)) = uint b" using t that unfolding x(1) by (rule last_touch)
      ultimately show False using ps by blast
    qed
    moreover have "hd ys \<in> L" if "ys \<noteq> []"
    proof (rule ccontr)
      assume "hd ys \<notin> L"
      then have "hd ys \<in> set qs" using that by (simp add: pq)
      moreover have "tiled (blk_size s) (uint start) (xs @ b # hd ys # tl ys) (uint (malloc_end s))" using t x(1) that by simp
      then have "uint b + uint (blk_size s b) = uint (hd ys)" by (auto simp: tiled_append)
      ultimately show False using qs by blast
    qed
    moreover have "successively (\<lambda>c d. c \<in> L - {b} \<or> d \<in> L - {b}) zs" if "successively (\<lambda>c d. c \<in> L \<or> d \<in> L) zs" "b \<notin> set zs" for zs
      using that by (induction zs rule: induct_list012) auto
    moreover have "xs \<noteq> [] \<Longrightarrow> last xs \<noteq> b" "ys \<noteq> [] \<Longrightarrow> hd ys \<noteq> b" using x(4,5) by auto
    ultimately show ?thesis using lay x(1,4,5)
      by (cases ys) (auto simp: layout_def successively_append_iff)
  qed
  ultimately have "layout start (L - {b}) bs s2" using lay by (auto simp: layout_def)
  moreover have "frame (live (L - {b}) s) s s2"
    unfolding s2_def
  proof (rule link_frame [OF lay])
    show "frame (live (L - {b}) s) s s1" unfolding s1_def by (rule free_field_frame(2) [OF lay]) (use bB in auto)
  qed (use psB(1) pq(1) in auto)
  moreover have "malloc_end s2 = malloc_end s" by (simp add: s2_def s1_def)
  ultimately show ?thesis
    unfolding released_def free_insert_def Let_def l(3) s1_def [symmetric] s2_def [symmetric] by blast
qed

lemma without_block:
  assumes "b \<notin> set zs"
  shows "filter (\<lambda>c. c \<notin> L - {b}) zs = filter (\<lambda>c. c \<notin> L) zs"
    "successively (\<lambda>c d. c \<in> L \<or> d \<in> L) zs \<Longrightarrow> successively (\<lambda>c d. c \<in> L - {b} \<or> d \<in> L - {b}) zs"
proof -
  show "filter (\<lambda>c. c \<notin> L - {b}) zs = filter (\<lambda>c. c \<notin> L) zs" using assms by (auto intro!: filter_cong)
  show "successively (\<lambda>c d. c \<in> L \<or> d \<in> L) zs \<Longrightarrow> successively (\<lambda>c d. c \<in> L - {b} \<or> d \<in> L - {b}) zs"
    using assms by (induction zs rule: induct_list012) auto
qed

definition merge_before :: "u64 \<Rightarrow> u64 \<Rightarrow> heap \<Rightarrow> heap" where
  "merge_before b f s =
     (let s = set_size f (blk_size s f + blk_size s b) s in
      if blk_next s f \<noteq> 0 \<and> b + blk_size s b = blk_next s f
      then let s = set_size f (blk_size s f + blk_size s (blk_next s f)) s
           in set_nxt f (blk_next s (blk_next s f)) s
      else s)"

text \<open>The block behind a free one, first without the one after it.\<close>

lemma merge_ok:
  assumes lay: "layout start L bs s" and b: "b \<in> L" and f: "filter (\<lambda>b. b \<notin> L) bs = ps @ f # qs"
    and touch: "f + blk_size s f = b"
  obtains xs ys where "bs = xs @ f # b # ys" "f \<notin> L" "ps = filter (\<lambda>c. c \<notin> L) xs" "qs = filter (\<lambda>c. c \<notin> L) ys"
    "flseg (blk_next s) (malloc_freelist s) ps f" "flseg (blk_next s) (first qs) qs 0" "blk_next s f = first qs"
    "tiled ((blk_size s)(f := blk_size s f + blk_size s b)) (uint start) (xs @ f # ys) (uint (malloc_end s))"
    "successively (\<lambda>c d. c \<in> L - {b} \<or> d \<in> L - {b}) (xs @ [f])" "successively (\<lambda>c d. c \<in> L - {b} \<or> d \<in> L - {b}) ys"
    "ys = [] \<or> b + blk_size s b = hd ys"
proof -
  obtain us vs where u: "bs = us @ f # vs" "f \<notin> L" "flseg (blk_next s) (malloc_freelist s) ps f"
      "flseg (blk_next s) (blk_next s f) qs 0" "blk_next s f = first qs"
    using lay f by (rule layout_free)
  have fB: "f \<in> set bs" "b \<in> set bs" using u lay b by (auto simp: layout_def)
  have "uint f + uint (blk_size s f) = uint b" using touch layout_sum(2) [OF lay fB(1)] by blast
  from neighbours [OF lay fB this] obtain xs ys where x: "bs = xs @ f # b # ys" by blast
  note d = layout_facts(2) [OF lay, unfolded x] and t = layout_facts(5) [OF lay, unfolded x]
  have n: "b \<notin> set (xs @ [f])" "b \<notin> set ys" using d by auto
  have "filter (\<lambda>c. c \<notin> L) xs @ f # filter (\<lambda>c. c \<notin> L) ys = ps @ f # qs" using f u(2) b by (simp add: x)
  then have pq: "ps = filter (\<lambda>c. c \<notin> L) xs" "qs = filter (\<lambda>c. c \<notin> L) ys"
    using d by (subst (asm) append_Cons_eq_iff; auto)+
  have coal: "successively (\<lambda>c d. c \<in> L \<or> d \<in> L) (xs @ f # b # ys)" using lay by (simp add: layout_def x)
  have co: "successively (\<lambda>c d. c \<in> L \<or> d \<in> L) (xs @ [f])" "successively (\<lambda>c d. c \<in> L \<or> d \<in> L) ys"
    using coal by (cases ys; simp add: successively_append_iff)+
  note c = without_block(2) [OF n(1) co(1)] without_block(2) [OF n(2) co(2)]
  show thesis
  proof (rule that [OF x u(2) pq u(3)])
    show "flseg (blk_next s) (first qs) qs 0" "blk_next s f = first qs" using u(4,5) by simp_all
    show "tiled ((blk_size s)(f := blk_size s f + blk_size s b)) (uint start) (xs @ f # ys) (uint (malloc_end s))"
      using t uint_bounds_64(2) [of "malloc_end s"] by (intro tiled_merge) simp_all
    show "successively (\<lambda>c d. c \<in> L - {b} \<or> d \<in> L - {b}) (xs @ [f])" "successively (\<lambda>c d. c \<in> L - {b} \<or> d \<in> L - {b}) ys"
      using c by blast+
    show "ys = [] \<or> b + blk_size s b = hd ys"
      unfolding layout_sum(2) [OF lay fB(2)] using tiled_mid(2) [of _ _ "xs @ [f]" b ys] t by (cases ys) auto
  qed
qed

lemma merge_before_ok:
  assumes lay: "layout start L bs s" and b: "b \<in> L" and f: "filter (\<lambda>b. b \<notin> L) bs = ps @ f # qs"
    and touch: "f + blk_size s f = b"
  shows "released start L s b (merge_before b f s)"
proof -
  obtain xs ys where x: "bs = xs @ f # b # ys" "f \<notin> L" "ps = filter (\<lambda>c. c \<notin> L) xs" "qs = filter (\<lambda>c. c \<notin> L) ys"
    "flseg (blk_next s) (malloc_freelist s) ps f" "flseg (blk_next s) (first qs) qs 0" "blk_next s f = first qs"
    "tiled ((blk_size s)(f := blk_size s f + blk_size s b)) (uint start) (xs @ f # ys) (uint (malloc_end s))"
    "successively (\<lambda>c d. c \<in> L - {b} \<or> d \<in> L - {b}) (xs @ [f])" "successively (\<lambda>c d. c \<in> L - {b} \<or> d \<in> L - {b}) ys"
    "ys = [] \<or> b + blk_size s b = hd ys" using lay b f touch by (rule merge_ok)
  note n = layout_facts(1,2) [OF lay]
  have B: "f \<in> set bs" "b \<in> set bs" "f \<noteq> b" using n(2) by (auto simp: x(1))
  define s1 where "s1 = set_size f (blk_size s f + blk_size s b) s"
  have s1: "blk_size s1 c = ((blk_size s)(f := blk_size s f + blk_size s b)) c" "blk_next s1 c = blk_next s c" if "c \<in> set bs" for c
    using that B(1) by (simp_all add: s1_def nodes_upd [OF n(1)])
  have e1: "malloc_end s1 = malloc_end s" "malloc_freelist s1 = malloc_freelist s" by (simp_all add: s1_def)
  have fr1: "frame (live (L - {b}) s) s s1" unfolding s1_def by (rule free_field_frame(1) [OF lay]) (use B x(2) in auto)
  have LB: "L - {b} \<subseteq> set (xs @ f # ys)" using lay by (auto simp: layout_def x(1))
  show ?thesis
  proof (cases "ys \<noteq> [] \<and> hd ys \<notin> L")
    case False
    have "\<not> (blk_next s1 f \<noteq> 0 \<and> b + blk_size s1 b = blk_next s1 f)"
    proof
      assume a: "blk_next s1 f \<noteq> 0 \<and> b + blk_size s1 b = blk_next s1 f"
      then have "first qs \<noteq> 0" "b + blk_size s b = first qs" using s1 B x(7) by simp_all
      moreover from this(1) have "qs \<noteq> []" by auto
      then have "first qs \<in> set qs" by (cases qs) auto
      then have "first qs \<in> set ys" "first qs \<notin> L" by (simp_all add: x(4))
      ultimately show False using False x(11) by (auto simp del: first.simps)
    qed
    then have code: "merge_before b f s = s1" unfolding merge_before_def s1_def [symmetric] Let_def by (simp only: if_False)
    have "tiled (blk_size s1) (uint start) (xs @ f # ys) (uint (malloc_end s1))"
      using x(8) by (subst tiled_cong [OF s1(1)]) (auto simp: x(1) e1)
    moreover have nb: "b \<notin> set (xs @ f # ys)" using n(2) by (auto simp: x(1))
    then have "filter (\<lambda>c. c \<notin> L - {b}) (xs @ f # ys) = ps @ f # qs"
      unfolding without_block(1) [OF nb] using x(2-4) by simp
    moreover have "flseg (blk_next s1) (malloc_freelist s1) (ps @ f # qs) 0"
    proof -
      have "set (ps @ f # qs) \<subseteq> set bs" using x(1,3,4) by auto
      then show ?thesis using x(5,6,7) s1(2) by (subst flseg_cong [of _ _ "blk_next s"]) (auto simp: flseg_append e1)
    qed
    moreover have "successively (\<lambda>c d. c \<in> L - {b} \<or> d \<in> L - {b}) (xs @ f # ys)"
    proof -
      have "ys = [] \<or> hd ys \<in> L - {b}" using False n(2) by (cases ys) (auto simp: x(1))
      then show ?thesis using x(9,10) by (cases ys) (auto simp: successively_append_iff)
    qed
    ultimately have "layout start (L - {b}) (xs @ f # ys) s1" using lay LB by (simp add: layout_def)
    then show ?thesis using code fr1 e1 by (auto simp: released_def)
  next
    case True
    then obtain g zs where g: "ys = g # zs" "g \<notin> L" by (cases ys) auto
    then have qs: "qs = g # filter (\<lambda>c. c \<notin> L) zs" by (simp add: x(4))
    have gB: "g \<in> set bs" "g \<noteq> f" "g \<noteq> b" "g \<noteq> 0" using n(2) layout_facts(3) [OF lay, of g] by (auto simp: x(1) g(1))
    have next_f: "blk_next s f = g" using x(7) qs by simp
    define s2 where "s2 = set_size f (blk_size s1 f + blk_size s1 g) s1"
    define s3 where "s3 = set_nxt f (blk_next s g) s2"
    have "blk_next s1 f \<noteq> 0 \<and> b + blk_size s1 b = blk_next s1 f" using s1 B x(11) g next_f gB(4) by simp
    moreover have "blk_next s2 f = g" "blk_next s2 g = blk_next s g" "blk_next s1 f = g"
      using B(1) gB(1) s1 next_f by (simp_all add: s2_def nodes_upd [OF n(1)])
    ultimately have code: "merge_before b f s = s3"
      unfolding merge_before_def s1_def [symmetric] Let_def by (simp add: s3_def s2_def)
    have s3: "blk_size s3 c = ((blk_size s1)(f := blk_size s1 f + blk_size s1 g)) c"
      "blk_next s3 c = (if c = f then blk_next s g else blk_next s c)" if "c \<in> set bs" for c
      using that B(1) s1 by (simp_all add: s3_def s2_def nodes_upd [OF n(1)])
    have e3: "malloc_end s3 = malloc_end s" "malloc_freelist s3 = malloc_freelist s" by (simp_all add: s3_def s2_def e1)
    have "tiled (blk_size s1) (uint start) (xs @ f # g # zs) (uint (malloc_end s))"
      using x(8) by (subst tiled_cong [OF s1(1)]) (auto simp: x(1) g(1))
    then have "tiled ((blk_size s1)(f := blk_size s1 f + blk_size s1 g)) (uint start) (xs @ f # zs) (uint (malloc_end s))"
      using uint_bounds_64(2) [of "malloc_end s"] by (intro tiled_merge) simp_all
    then have "tiled (blk_size s3) (uint start) (xs @ f # zs) (uint (malloc_end s3))"
      by (subst tiled_cong [OF s3(1)]) (auto simp: x(1) g(1) e3)
    moreover have nb: "b \<notin> set (xs @ f # zs)" using n(2) by (auto simp: x(1) g(1))
    then have "filter (\<lambda>c. c \<notin> L - {b}) (xs @ f # zs) = ps @ f # filter (\<lambda>c. c \<notin> L) zs"
      unfolding without_block(1) [OF nb] using x(2,3) by simp
    moreover have "flseg (blk_next s3) (malloc_freelist s3) (ps @ f # filter (\<lambda>c. c \<notin> L) zs) 0"
    proof -
      have sub: "set ps \<subseteq> set bs - {f}" "set (filter (\<lambda>c. c \<notin> L) zs) \<subseteq> set bs - {f}" using n(2) by (auto simp: x(1,3) g(1))
      have nn: "blk_next s3 c = blk_next s c" if "c \<in> set bs - {f}" for c using that s3(2) by simp
      have "flseg (blk_next s3) (malloc_freelist s) ps f"
        using x(5) by (rule flseg_cong [THEN iffD2, rotated]) (use sub(1) nn in blast)
      moreover have "flseg (blk_next s) (blk_next s g) (filter (\<lambda>c. c \<notin> L) zs) 0" using x(6) qs by simp
      then have "flseg (blk_next s3) (blk_next s g) (filter (\<lambda>c. c \<notin> L) zs) 0"
        by (rule flseg_cong [THEN iffD2, rotated]) (use sub(2) nn in blast)
      ultimately show ?thesis using s3(2) [OF B(1)] by (auto simp: flseg_append e3)
    qed
    moreover have "successively (\<lambda>c d. c \<in> L - {b} \<or> d \<in> L - {b}) (xs @ f # zs)"
      using x(9,10) g by (cases zs) (auto simp: successively_append_iff)
    moreover have "L - {b} \<subseteq> set (xs @ f # zs)" using LB g by auto
    ultimately have "layout start (L - {b}) (xs @ f # zs) s3" using lay by (simp add: layout_def)
    moreover have "frame (live (L - {b}) s) s s3" unfolding s3_def s2_def
      by (rule free_field_frame(2) [OF lay _ B(1) _ free_field_frame(1) [OF lay _ B(1) _ fr1]]) (use x(2) in auto)
    ultimately show ?thesis using code e3 by (auto simp: released_def)
  qed
qed

lemma merge_after_ok:
  assumes lay: "layout start L bs s" and b: "b \<in> L" and f: "filter (\<lambda>b. b \<notin> L) bs = ps @ g # qs"
    and ps: "\<And>p. p \<in> set ps \<Longrightarrow> uint p + uint (blk_size s p) \<noteq> uint b"
    and touch: "g = b + blk_size s b"
  shows "released start L s b
    (set_link (link_of ps) b (set_nxt b (blk_next s g) (set_size b (blk_size s b + blk_size s g) s)))"
    "blk_next (set_size b (blk_size s b + blk_size s g) s) g = blk_next s g"
proof -
  obtain us vs where u: "bs = us @ g # vs" "g \<notin> L" "flseg (blk_next s) (malloc_freelist s) ps g"
      "flseg (blk_next s) (blk_next s g) qs 0"
    using lay f by (rule layout_free)
  have B: "b \<in> set bs" "g \<in> set bs" using u(1) lay b by (auto simp: layout_def)
  have "uint b + uint (blk_size s b) = uint g" using touch layout_sum(2) [OF lay B(1), of g] by simp
  from neighbours [OF lay B this] obtain xs ys where x: "bs = xs @ b # g # ys" by blast
  note n = layout_facts(1,2) [OF lay] and t = layout_facts(5) [OF lay, unfolded x]
  have nb: "b \<notin> set xs" "b \<notin> set ys" "b \<noteq> g" "g \<notin> set xs" "g \<notin> set ys" using n(2) by (auto simp: x)
  have "filter (\<lambda>c. c \<notin> L) xs @ g # filter (\<lambda>c. c \<notin> L) ys = ps @ g # qs" using f u(2) b by (simp add: x)
  then have pq: "ps = filter (\<lambda>c. c \<notin> L) xs" "qs = filter (\<lambda>c. c \<notin> L) ys"
    using nb by (subst (asm) append_Cons_eq_iff; auto)+
  have sub: "set ps \<subseteq> set bs - {b}" "set qs \<subseteq> set bs - insert b (set ps)" "distinct ps"
    using n(2) by (auto simp: x pq)
  define s1 where "s1 = set_size b (blk_size s b + blk_size s g) s"
  define s2 where "s2 = set_nxt b (blk_next s g) s1"
  define s3 where "s3 = set_link (link_of ps) b s2"
  have s2: "blk_size s2 c = ((blk_size s)(b := blk_size s b + blk_size s g)) c"
    "blk_next s2 c = (if c = b then blk_next s g else blk_next s c)" if "c \<in> set bs" for c
    using that B(1) by (simp_all add: s2_def s1_def nodes_upd [OF n(1)])
  have e: "malloc_freelist s2 = malloc_freelist s" "malloc_end s2 = malloc_end s" by (simp_all add: s2_def s1_def)
  have nn: "blk_next s2 c = blk_next s c" if "c \<in> set bs - {b}" for c using that s2(2) by simp
  have "flseg (blk_next s2) (malloc_freelist s2) ps g"
    unfolding e using u(3) by (rule flseg_cong [THEN iffD2, rotated]) (use sub(1) nn in blast)
  note v = set_link_upd [OF n(1) _ sub(3) this, where v = b, folded s3_def]
  have ps0: "set ps \<subseteq> set bs" using sub(1) by blast
  have s3: "blk_next s3 c = (if c = b then blk_next s g else blk_next s c)" if "c \<in> set bs - set ps" for c
    using that v(3) [OF ps0] s2(2) by simp
  have "blk_next s3 c = blk_next s c" if "c \<in> set qs" for c
  proof -
    have "c \<in> set bs - set ps" "c \<noteq> b" using that sub(2) by auto
    then show ?thesis using s3 by simp
  qed
  then have "flseg (blk_next s3) (blk_next s g) qs 0" using u(4) by (simp add: flseg_cong [of qs "blk_next s3" "blk_next s"])
  moreover have "blk_next s3 b = blk_next s g" using s3 [of b] B(1) sub(1) by auto
  ultimately have "flseg (blk_next s3) (malloc_freelist s3) (ps @ b # qs) 0"
    using v(1) [OF ps0] by (auto simp: flseg_append)
  moreover have "filter (\<lambda>c. c \<notin> L - {b}) (xs @ b # ys) = ps @ b # qs"
    unfolding filter_append filter.simps without_block(1) [OF nb(1)] without_block(1) [OF nb(2)] pq by simp
  moreover have "tiled (blk_size s3) (uint start) (xs @ b # ys) (uint (malloc_end s3))"
  proof -
    have "tiled ((blk_size s)(b := blk_size s b + blk_size s g)) (uint start) (xs @ b # ys) (uint (malloc_end s))"
      using t uint_bounds_64(2) [of "malloc_end s"] by (intro tiled_merge) simp_all
    moreover have "blk_size s3 c = ((blk_size s)(b := blk_size s b + blk_size s g)) c" if "c \<in> set (xs @ b # ys)" for c
      using that v(2) [OF ps0, of c] s2(1) [of c] by (auto simp: x)
    ultimately show ?thesis by (subst tiled_cong) (auto simp: s3_def e)
  qed
  moreover have "successively (\<lambda>c d. c \<in> L - {b} \<or> d \<in> L - {b}) (xs @ b # ys)"
  proof -
    have coal: "successively (\<lambda>c d. c \<in> L \<or> d \<in> L) (xs @ b # g # ys)" using lay by (simp add: layout_def x)
    have co: "successively (\<lambda>c d. c \<in> L \<or> d \<in> L) xs" "successively (\<lambda>c d. c \<in> L \<or> d \<in> L) ys"
      using coal by (cases ys; simp add: successively_append_iff)+
    have "hd ys \<in> L - {b}" if "ys \<noteq> []" using that coal u(2) nb(2) by (cases ys) (auto simp: successively_append_iff)
    moreover have "last xs \<in> L - {b}" if "xs \<noteq> []"
    proof -
      have "last xs \<in> set xs" using that by simp
      moreover have "last xs \<in> L"
        using last_touch [OF t that] ps [of "last xs"] \<open>last xs \<in> set xs\<close> by (auto simp: pq)
      ultimately show ?thesis using nb(1) by auto
    qed
    ultimately show ?thesis using without_block(2) [OF nb(1) co(1)] without_block(2) [OF nb(2) co(2)]
      by (cases ys) (auto simp: successively_append_iff)
  qed
  moreover have "L - {b} \<subseteq> set (xs @ b # ys)" using lay u(2) by (auto simp: layout_def x)
  ultimately have "layout start (L - {b}) (xs @ b # ys) s3" using lay by (simp add: layout_def)
  moreover have "frame (live (L - {b}) s) s s3"
    unfolding s3_def
  proof (rule link_frame [OF lay])
    show "frame (live (L - {b}) s) s s2" unfolding s2_def s1_def
      by (intro free_field_frame [OF lay _ B(1)] frame_refl) auto
  qed (use sub(1) pq(1) in auto)
  moreover have "malloc_end s3 = malloc_end s" by (simp add: s3_def e)
  ultimately show "released start L s b
      (set_link (link_of ps) b (set_nxt b (blk_next s g) (set_size b (blk_size s b + blk_size s g) s)))"
    by (auto simp: released_def s3_def s2_def s1_def)
  show "blk_next (set_size b (blk_size s b + blk_size s g) s) g = blk_next s g"
    using B by (simp add: nodes_upd [OF n(1)])
qed

lemma free_loop_ok:
  assumes lay: "layout start L bs s" and b: "b \<in> L" and "filter (\<lambda>b. b \<notin> L) bs = ps @ qs"
    and "\<forall>p\<in>set ps. uint p < uint b \<and> uint p + uint (blk_size s p) \<noteq> uint b"
  shows "\<exists>s'. free_loop b (link_of ps) s = Some s' \<and> released start L s b s'"
  using assms(3,4)
proof (induction qs arbitrary: ps)
  case Nil
  have "flseg (blk_next s) (malloc_freelist s) (ps @ []) 0" using lay Nil by (simp add: layout_def)
  then have "get_link s (link_of ps) = 0" using flseg_link(3) by fastforce
  then have "free_loop b (link_of ps) s = Some (free_insert b (link_of ps) s)" by (subst free_loop.simps) simp
  then show ?case using insert_ok [OF lay b Nil(1)] Nil(2) by auto
next
  case (Cons f qs)
  obtain us vs where u: "bs = us @ f # vs" "qs = filter (\<lambda>c. c \<notin> L) vs" "f \<notin> L" "get_link s (link_of ps) = f"
    using lay Cons.prems(1) by (rule layout_free)
  have fB: "f \<in> set bs" "b \<in> set bs" "f \<noteq> b" using lay b u by (auto simp: layout_def)
  note n = layout_facts(1) [OF lay] and t = layout_facts(5) [OF lay]
  have f0: "f \<noteq> 0" using layout_facts(3) [OF lay fB(1)] .
  note code = free_loop.simps [of b "link_of ps" s, unfolded u(4) Let_def]
  consider (before) "f + blk_size s f = b" | (after) "f + blk_size s f \<noteq> b" "f = b + blk_size s b"
    | (insert) "f + blk_size s f \<noteq> b" "f \<noteq> b + blk_size s b" "b < f"
    | (skip) "f + blk_size s f \<noteq> b" "f \<noteq> b + blk_size s b" "\<not> b < f" by blast
  then show ?case
  proof cases
    case before
    have "free_loop b (link_of ps) s = Some (merge_before b f s)"
      unfolding code merge_before_def Let_def using f0 before by simp
    then show ?thesis using merge_before_ok [OF lay b Cons.prems(1) before] by blast
  next
    case after
    note m = merge_after_ok [OF lay b Cons.prems(1) _ after(2)]
    have "free_loop b (link_of ps) s = Some (set_link (link_of ps) b (set_nxt b (blk_next s f) (set_size b (blk_size s b + blk_size s f) s)))"
      unfolding code by (simp only: f0 after(1) if_False) (use after(2) m(2) Cons.prems(2) in simp)
    then show ?thesis using m(1) Cons.prems(2) by blast
  next
    case insert
    have "free_loop b (link_of ps) s = Some (free_insert b (link_of ps) s)"
      unfolding code by (simp only: f0 insert if_False if_True)
    moreover have "released start L s b (free_insert b (link_of ps) s)"
    proof (rule insert_ok [OF lay b Cons.prems(1)])
      show "uint p < uint b \<and> uint p + uint (blk_size s p) \<noteq> uint b" if "p \<in> set ps" for p using that Cons.prems(2) by blast
      have bf: "uint b < uint f" using insert(3) by (simp add: word_less_def)
      then have bz: "uint b + uint (blk_size s b) \<le> uint f" using tiled_apart [OF t fB(1,2,3)] layout_facts(4) [OF lay fB(1)] by linarith
      show "uint b < uint q \<and> uint b + uint (blk_size s b) \<noteq> uint q" if q: "q \<in> set (f # qs)" for q
      proof (cases "q = f")
        case True
        then show ?thesis using bf insert(2) layout_sum(2) [OF lay fB(2), of f] by auto
      next
        case False
        then have "uint f + uint (blk_size s f) \<le> uint q" using q u(2) t tiled_mid(4) [of _ _ us f vs _ q] by (auto simp: u(1))
        then show ?thesis using bf bz layout_facts(4) [OF lay fB(1)] by linarith
      qed
    qed
    ultimately show ?thesis by blast
  next
    case skip
    have "link_of (ps @ [f]) = Next_of f" by (simp add: link_of_def)
    then have "free_loop b (link_of ps) s = free_loop b (link_of (ps @ [f])) s"
      unfolding code by (simp only: f0 skip if_False)
    moreover have "uint f < uint b" using skip(3) fB(3) by (simp add: word_less_def word_uint_eq_iff)
    then have "\<forall>p\<in>set (ps @ [f]). uint p < uint b \<and> uint p + uint (blk_size s p) \<noteq> uint b"
      using Cons.prems(2) skip(1) layout_sum(2) [OF lay fB(1), of b] by auto
    ultimately show ?thesis using Cons.IH [of "ps @ [f]"] Cons.prems(1) by simp
  qed
qed

section \<open>malloc, free, realloc, calloc\<close>

lemma malloc_ok:
  assumes "layout start L bs s" "uint sz \<le> 2 ^ 64 - 16" "uint (malloc_end s) + 32 \<le> uint limit"
  shows "malloc limit sz s = Some (0, s) \<and> out_of_room limit (REAL_SIZE sz) s \<or>
    (\<exists>b s'. malloc limit sz s = Some (b + 8, s') \<and> allocated start L limit (REAL_SIZE sz) s b s')"
  using malloc_loop_ok [OF assms(1) _ uint_REAL_SIZE(1,2) [OF assms(2)] assms(3), of "[]"]
  by (simp add: malloc_def link_of_def)

lemma block_pointer:
  assumes "layout start L bs s" "b \<in> set bs"
  shows "uint (b + 8) = uint b + 8" "b + 8 \<noteq> 0" "i < unat (blk_size s b) \<Longrightarrow> uint (b + of_nat i) = uint b + int i"
proof -
  note i = layout_facts(4) [OF assms] and e = uint_bounds_64(2) [of "malloc_end s"]
  show b8: "uint (b + 8) = uint b + 8" using uint_plus_small [of b 8] i e by simp
  show "b + 8 \<noteq> 0"
  proof
    assume "b + 8 = 0"
    then show False using b8 uint_bounds_64(1) [of b] by simp
  qed
  assume "i < unat (blk_size s b)"
  then have z: "int i < uint (blk_size s b)" by (simp add: unat_eq_nat_uint zless_nat_eq_int_zless del: nat_uint_eq)
  then have "int i < 2 ^ 64" using uint_bounds_64(2) [of "blk_size s b"] by simp
  then have "i < 2 ^ 64" by simp
  then have "uint (of_nat i :: u64) = int i" by (simp only: uint_nat unat_of_nat) simp
  then show "uint (b + of_nat i) = uint b + int i" using uint_plus_small [of b "of_nat i"] z i e by simp
qed

lemma layout_pointer: "layout start L bs s \<Longrightarrow> b \<in> L \<Longrightarrow> b + 8 \<noteq> 0"
  by (rule block_pointer(2)) (auto simp: layout_def)

lemma free_ok:
  assumes "layout start L bs s" "b \<in> L"
  shows "\<exists>s'. free (b + 8) s = Some s' \<and> released start L s b s'"
proof -
  have "b \<in> set bs" using assms by (auto simp: layout_def)
  then show ?thesis
    using free_loop_ok [OF assms, of "[]"] block_pointer(2) [OF assms(1)] by (simp add: free_def link_of_def)
qed

text \<open>What leaves the bytes of the blocks in use alone, leaves their sizes.\<close>

lemma frame_sizes:
  assumes "layout start L bs s" "K \<subseteq> L" "frame (live K s) s s'"
  shows "b \<in> K \<Longrightarrow> blk_size s' b = blk_size s b" "live K s' = live K s"
proof -
  show *: "blk_size s' b = blk_size s b" if "b \<in> K" for b
  proof -
    have bB: "b \<in> set bs" using that assms(1,2) by (auto simp: layout_def)
    note i = layout_facts(4) [OF assms(1) bB]
    show ?thesis unfolding blk_size_def
    proof (rule load64_cong)
      fix k :: nat assume "k < 8"
      moreover have "8 \<le> unat (blk_size s b)" using i unfolding unat_eq_nat_uint by linarith
      ultimately have k: "uint (b + of_nat k) = uint b + int k" using block_pointer(3) [OF assms(1) bB, of k] by simp
      then have "b + of_nat k \<in> live K s" using that i \<open>k < 8\<close> by (auto simp: live_def intro!: bexI [of _ b])
      then show "heap_mem s' (b + of_nat k) = heap_mem s (b + of_nat k)" using assms(3) by (simp add: frame_def)
    qed
  qed
  then show "live K s' = live K s" by (auto simp: live_def)
qed

text \<open>Writing into the data of a block in use keeps the layout.\<close>

lemma payload_layout:
  assumes lay: "layout start L bs s" and b: "b \<in> L"
    and same: "malloc_end s' = malloc_end s" "malloc_freelist s' = malloc_freelist s"
    and mem: "\<And>x. \<not> (uint b + 8 \<le> uint x \<and> uint x < uint b + uint (blk_size s b)) \<Longrightarrow> heap_mem s' x = heap_mem s x"
  shows "layout start L bs s'" "c \<in> set bs \<Longrightarrow> blk_size s' c = blk_size s c" "frame (live (L - {b}) s) s s'"
proof -
  have bB: "b \<in> set bs" using lay b by (auto simp: layout_def)
  note t = layout_facts(5) [OF lay] and i = layout_facts(4) [OF lay]
  have byte: "heap_mem s' (c + of_nat k) = heap_mem s (c + of_nat k)"
    if c: "c \<in> set bs" "k < unat (blk_size s c)" "k < 8 \<or> c \<noteq> b" for c k
  proof -
    have k: "uint (c + of_nat k) = uint c + int k" by (rule block_pointer(3) [OF lay c(1,2)])
    have "int k < uint (blk_size s c)" using c(2) by (simp add: unat_eq_nat_uint zless_nat_eq_int_zless del: nat_uint_eq)
    then have "\<not> (uint b + 8 \<le> uint (c + of_nat k) \<and> uint (c + of_nat k) < uint b + uint (blk_size s b))"
      unfolding k using c tiled_apart [OF t c(1) bB] by (cases "c = b") auto
    then show ?thesis by (rule mem)
  qed
  have z: "16 \<le> unat (blk_size s c)" if "c \<in> set bs" for c using i [OF that] unfolding unat_eq_nat_uint by linarith
  show size: "blk_size s' c = blk_size s c" if "c \<in> set bs" for c
    unfolding blk_size_def by (rule load64_cong) (use byte [OF that] z [OF that] in auto)
  have nxt: "blk_next s' c = blk_next s c" if "c \<in> set bs" "c \<noteq> b" for c
    unfolding blk_next_def
  proof (rule load64_cong)
    fix k :: nat assume "k < 8"
    then show "heap_mem s' (c + 8 + of_nat k) = heap_mem s (c + 8 + of_nat k)"
      using byte [OF that(1), of "8 + k"] z [OF that(1)] that(2) by (simp add: add.assoc)
  qed
  show "layout start L bs s'"
  proof -
    have "flseg (blk_next s') (malloc_freelist s) (filter (\<lambda>b. b \<notin> L) bs) 0 = flseg (blk_next s) (malloc_freelist s) (filter (\<lambda>b. b \<notin> L) bs) 0"
      using b by (intro flseg_cong nxt) auto
    then show ?thesis using lay by (simp add: layout_def same tiled_cong [OF size])
  qed
  show "frame (live (L - {b}) s) s s'"
    unfolding frame_def
  proof (rule ballI, rule mem)
    fix x assume "x \<in> live (L - {b}) s"
    then obtain c where c: "c \<in> L" "c \<noteq> b" "uint c \<le> uint x" "uint x < uint c + uint (blk_size s c)" by (auto simp: live_def)
    moreover have "c \<in> set bs" using c(1) lay by (auto simp: layout_def)
    ultimately show "\<not> (uint b + 8 \<le> uint x \<and> uint x < uint b + uint (blk_size s b))"
      using tiled_apart [OF t _ bB] i [OF bB] by fastforce
  qed
qed

lemma frame_mono: "frame R s s' \<Longrightarrow> Q \<subseteq> R \<Longrightarrow> frame Q s s'" by (auto simp: frame_def)

lemma live_mono: "K \<subseteq> L \<Longrightarrow> live K s \<subseteq> live L s" by (auto simp: live_def)

lemma in_live:
  assumes "layout start L bs s" "b \<in> set bs" "b \<in> K" "i < unat (blk_size s b)"
  shows "b + of_nat i \<in> live K s"
proof -
  have "int i < uint (blk_size s b)" using assms(4) by (simp add: unat_eq_nat_uint zless_nat_eq_int_zless del: nat_uint_eq)
  then show ?thesis using assms(3) block_pointer(3) [OF assms(1,2,4)] by (auto simp: live_def intro!: bexI [of _ b])
qed

text \<open>Copying into the data of a block.\<close>

lemma offset_in:
  fixes x p n :: u64
  assumes "x - p < n" "uint p + uint n \<le> 2 ^ 64"
  shows "uint p \<le> uint x" "uint x < uint p + uint n"
proof -
  have d: "uint (x - p) < uint n" using assms(1) by (simp add: word_less_def)
  then have "uint (p + (x - p)) = uint p + uint (x - p)" using assms(2) by (intro uint_plus_small) linarith
  then have "uint x = uint p + uint (x - p)" by simp
  then show "uint p \<le> uint x" "uint x < uint p + uint n" using d uint_bounds_64(1) [of "x - p"] by linarith+
qed

lemma payload_write:
  assumes lay: "layout start L bs s" and b: "b \<in> L" and n: "uint n + 8 \<le> uint (blk_size s b)"
    and mem: "\<forall>x. \<not> x - (b + 8) < n \<longrightarrow> m x = heap_mem s x"
  defines "s' \<equiv> s\<lparr>heap_mem := m\<rparr>"
  shows "layout start L bs s'" "c \<in> set bs \<Longrightarrow> blk_size s' c = blk_size s c" "frame (live (L - {b}) s) s s'"
proof -
  have bB: "b \<in> set bs" using lay b by (auto simp: layout_def)
  note b8 = block_pointer(1) [OF lay bB]
  have *: "heap_mem s' x = heap_mem s x" if "\<not> (uint b + 8 \<le> uint x \<and> uint x < uint b + uint (blk_size s b))" for x
  proof -
    have "\<not> x - (b + 8) < n"
      using offset_in [of x "b + 8" n] that n layout_facts(4) [OF lay bB] uint_bounds_64(2) [of "malloc_end s"] b8 by auto
    then show ?thesis using mem by (simp add: s'_def)
  qed
  show "layout start L bs s'" "c \<in> set bs \<Longrightarrow> blk_size s' c = blk_size s c" "frame (live (L - {b}) s) s s'"
    by (rule payload_layout [OF lay b _ _ *]; simp add: s'_def)+
qed

lemma unat_less: "i < unat n \<longleftrightarrow> int i < uint n" for n :: u64
  by (simp add: unat_eq_nat_uint zless_nat_eq_int_zless del: nat_uint_eq)

definition reallocated :: "u64 \<Rightarrow> u64 set \<Rightarrow> u64 \<Rightarrow> heap \<Rightarrow> u64 \<Rightarrow> u64 \<Rightarrow> heap \<Rightarrow> bool" where
  "reallocated start L sz s b b' s' \<longleftrightarrow> b' \<notin> L - {b} \<and> (\<exists>bs'. layout start (insert b' (L - {b})) bs' s') \<and>
     uint sz + 8 \<le> uint (blk_size s' b') \<and> frame (live (L - {b}) s) s s' \<and>
     (\<forall>i. 8 + i < unat (blk_size s b) \<longrightarrow> i < unat sz \<longrightarrow> heap_mem s' (b' + of_nat (8 + i)) = heap_mem s (b + of_nat (8 + i)))"

text \<open>A larger block: a new one, to which the data is copied.\<close>

lemma realloc_move_ok:
  assumes lay: "layout start L bs s" and b: "b \<in> L"
    and a: "allocated start L limit real_size s b1 s1" and r: "uint sz + 8 \<le> uint real_size"
    and n: "n = (if blk_size s b - 8 < sz then blk_size s b - 8 else sz)"
  shows "\<exists>s'. free (b + 8) (s1\<lparr>heap_mem := memcpy (b1 + 8) (b + 8) n (heap_mem s1)\<rparr>) = Some s' \<and> reallocated start L sz s b b1 s'"
proof -
  obtain bs1 where l1: "layout start (insert b1 L) bs1 s1" and z1: "uint real_size \<le> uint (blk_size s1 b1)" and b1: "b1 \<notin> L" "b1 \<noteq> b"
    and f1: "frame (live L s) s s1" using a b by (auto simp: allocated_def)
  have bB: "b \<in> set bs" and b1B: "b1 \<in> set bs1" "b \<in> set bs1" using lay l1 b by (auto simp: layout_def)
  have n1: "uint n \<le> uint sz" "uint n + 8 \<le> uint (blk_size s1 b1)"
    using z1 r by (auto simp: n word_less_def)
  define s2 where "s2 = s1\<lparr>heap_mem := memcpy (b1 + 8) (b + 8) n (heap_mem s1)\<rparr>"
  note w = payload_write [OF l1 insertI1 n1(2), of "memcpy (b1 + 8) (b + 8) n (heap_mem s1)", folded s2_def]
  have m: "\<forall>x. \<not> x - (b1 + 8) < n \<longrightarrow> memcpy (b1 + 8) (b + 8) n (heap_mem s1) x = heap_mem s1 x" by (simp add: memcpy_def)
  note l2 = w(1) [OF m] and z2 = w(2) [OF m] and f2 = w(3) [OF m]
  obtain s3 where s3: "free (b + 8) s2 = Some s3" and rel: "released start (insert b1 L) s2 b s3"
    using free_ok [OF l2, of b] b by auto
  have K: "insert b1 L - {b} = insert b1 (L - {b})" "insert b1 L - {b1} = L" using b1 by auto
  obtain bs3 where l3: "layout start (insert b1 (L - {b})) bs3 s3" and f3: "frame (live (insert b1 (L - {b})) s2) s2 s3"
    using rel unfolding released_def K by blast
  have live1: "live L s1 = live L s" "live (L - {b}) s1 = live (L - {b}) s"
    using frame_sizes(2) [OF lay subset_refl f1] frame_sizes(2) [OF lay _ frame_mono [OF f1 live_mono], of "L - {b}"] by auto
  have f2': "frame (live L s) s1 s2" using f2 unfolding K live1 .
  have live2: "live (L - {b}) s2 = live (L - {b}) s"
    using frame_sizes(2) [OF l1, of "L - {b}" s2] f2' live_mono [of "L - {b}" L s] live1 by (auto simp: frame_def)
  have "frame (live (L - {b}) s) s s3"
  proof (rule frame_trans [OF frame_trans])
    show "frame (live (L - {b}) s) s s1" "frame (live (L - {b}) s) s1 s2"
      using f1 f2' live_mono [of "L - {b}" L s] by (auto simp: frame_def)
    show "frame (live (L - {b}) s) s2 s3"
      using f3 live_mono [of "L - {b}" "insert b1 (L - {b})" s2] unfolding live2 by (auto simp: frame_def)
  qed
  moreover have sub: "insert b1 (L - {b}) \<subseteq> insert b1 L" by auto
  have "blk_size s3 b1 = blk_size s1 b1"
    using frame_sizes(1) [OF l2 sub f3 insertI1] z2 [OF b1B(1)] by simp
  then have "uint sz + 8 \<le> uint (blk_size s3 b1)" using z1 r by simp
  moreover have "heap_mem s3 (b1 + of_nat (8 + i)) = heap_mem s (b + of_nat (8 + i))" if i: "8 + i < unat (blk_size s b)" "i < unat sz" for i
  proof -
    have "uint (blk_size s b - 8) = uint (blk_size s b) - 8"
      using layout_facts(4) [OF lay bB] by (subst uint_minus_simple_alt [THEN iffD1]) (simp_all add: word_le_def)
    then have iu: "int i < uint n" using i by (auto simp: n unat_less)
    then have "i < 2 ^ 64" using uint_bounds_64(2) [of n] by simp
    then have "uint (of_nat i :: u64) = int i" by (simp only: uint_nat unat_of_nat) simp
    then have iw: "of_nat i < n" using iu by (simp add: word_less_def)
    have i1: "8 + i < unat (blk_size s1 b1)" using iu n1(2) by (simp add: unat_less)
    have e: "b1 + of_nat (8 + i) = b1 + 8 + of_nat i" "b + of_nat (8 + i) = b + 8 + of_nat i" by simp_all
    have "b1 + of_nat (8 + i) \<in> live (insert b1 (L - {b})) s2"
      using in_live [OF l2 b1B(1), of _ "8 + i"] i1 z2 [OF b1B(1)] by simp
    then have "heap_mem s3 (b1 + of_nat (8 + i)) = heap_mem s2 (b1 + of_nat (8 + i))" using f3 unfolding frame_def by blast
    also have "\<dots> = heap_mem s1 (b + of_nat (8 + i))" unfolding e using iw by (simp add: s2_def memcpy_def)
    also have "b + of_nat (8 + i) \<in> live L s" using in_live [OF lay bB b] i(1) by blast
    then have "heap_mem s1 (b + of_nat (8 + i)) = heap_mem s (b + of_nat (8 + i))" using f1 unfolding frame_def by blast
    finally show ?thesis .
  qed
  ultimately show ?thesis using s3 l3 b1 unfolding s2_def reallocated_def by auto
qed

text \<open>A smaller block: the rest is freed.\<close>

lemma realloc_shrink_ok:
  assumes lay: "layout start L bs s" and b: "b \<in> L"
    and r: "16 \<le> uint r" "8 dvd uint r" "uint r + 16 \<le> uint (blk_size s b)" "uint sz + 8 \<le> uint r"
  shows "\<exists>s'. free (b + r + 8) (set_size (b + r) (blk_size s b - r) (set_size b r s)) = Some s' \<and> reallocated start L sz s b b s'"
proof -
  have bB: "b \<in> set bs" using lay b by (auto simp: layout_def)
  then obtain xs ys where x: "bs = xs @ b # ys" by (auto simp: in_set_conv_decomp)
  note i = layout_facts(4) [OF lay bB]
  define c where "c = b + r"
  define bs' where "bs' = xs @ b # c # ys"
  have t': "tiled ((blk_size s)(b := r, c := blk_size s b - r)) (uint start) bs' (uint (malloc_end s))"
    unfolding bs'_def c_def using layout_facts(5) [OF lay] uint_bounds_64 r by (intro tiled_split) (auto simp: x)
  have n: "nodes (set bs')" "distinct bs'"
    using layout_nodes [OF t' _ lay] uint_bounds_64(2) [of "malloc_end s"] by simp_all
  have cu: "uint c = uint b + uint r" unfolding c_def using i r(3) uint_bounds_64(2) [of "malloc_end s"] by (intro uint_plus_small) simp
  have c: "c \<notin> set bs" "c \<noteq> b" "c \<notin> L" "c \<in> set bs'" "b \<in> set bs'" "set bs \<subseteq> set bs'"
    using n(2) lay by (auto simp: bs'_def x layout_def)
  define s1 where "s1 = set_size b r s"
  define s2 where "s2 = set_size c (blk_size s b - r) s1"
  have s2: "blk_size s2 d = ((blk_size s)(b := r, c := blk_size s b - r)) d" "blk_next s2 d = blk_next s d" if "d \<in> set bs'" for d
    using that c by (simp_all add: s2_def s1_def nodes_upd [OF n(1)])
  have e: "malloc_freelist s2 = malloc_freelist s" "malloc_end s2 = malloc_end s" by (simp_all add: s2_def s1_def)
  have fil: "filter (\<lambda>d. d \<notin> insert c L) bs' = filter (\<lambda>d. d \<notin> L) bs"
  proof -
    have "filter (\<lambda>d. d \<notin> insert c L) zs = filter (\<lambda>d. d \<notin> L) zs" if "c \<notin> set zs" for zs
      using that by (intro filter_cong) auto
    moreover have "c \<notin> set xs" "c \<notin> set ys" using c(1) by (auto simp: x)
    ultimately show ?thesis unfolding bs'_def x filter_append filter.simps using b by simp
  qed
  have "flseg (blk_next s2) (malloc_freelist s) (filter (\<lambda>d. d \<notin> L) bs) 0"
  proof (rule flseg_cong [THEN iffD2])
    show "blk_next s2 d = blk_next s d" if "d \<in> set (filter (\<lambda>d. d \<notin> L) bs)" for d using that c(6) s2(2) by auto
    show "flseg (blk_next s) (malloc_freelist s) (filter (\<lambda>d. d \<notin> L) bs) 0" using lay by (simp add: layout_def)
  qed
  moreover have "tiled (blk_size s2) (uint start) bs' (uint (malloc_end s2))"
    using t' by (subst tiled_cong [OF s2(1)]) (simp_all add: e)
  moreover have "successively (\<lambda>d e. d \<in> insert c L \<or> e \<in> insert c L) bs'"
    using lay b by (cases ys) (auto simp: layout_def bs'_def x successively_append_iff elim!: successively_imp)
  moreover have "insert c L \<subseteq> set bs'" using lay c by (auto simp: layout_def)
  ultimately have l2: "layout start (insert c L) bs' s2" using lay unfolding layout_def fil e by blast
  obtain s3 where s3: "free (c + 8) s2 = Some s3" and rel: "released start (insert c L) s2 c s3"
    using free_ok [OF l2 insertI1] by auto
  have K: "insert c L - {c} = L" "insert b (L - {b}) = L" using c(3) b by auto
  obtain bs3 where l3: "layout start L bs3 s3" and f3: "frame (live L s2) s2 s3" using rel unfolding released_def K by blast
  have f1: "frame (live (L - {b}) s) s s1" unfolding s1_def by (rule free_field_frame(1) [OF lay _ bB]) auto
  have f2: "frame (live (L - {b}) s) s s2" unfolding s2_def set_size_def
    by (rule store_frame [OF _ _ f1]) (use free_word [OF lay _ bB, of "L - {b}" c] cu r in auto)
  have live2: "live (L - {b}) s2 = live (L - {b}) s" by (rule frame_sizes(2) [OF lay _ f2]) auto
  have "frame (live (L - {b}) s) s2 s3" using f3 live_mono [of "L - {b}" L s2] unfolding live2 by (auto simp: frame_def)
  with f2 have "frame (live (L - {b}) s) s s3" by (rule frame_trans)
  moreover have "blk_size s3 b = r"
    using frame_sizes(1) [OF l2 _ f3 b] s2(1) [OF c(5)] c(2) by auto
  moreover have "heap_mem s3 (b + of_nat (8 + i)) = heap_mem s (b + of_nat (8 + i))" if i: "8 + i < unat (blk_size s b)" "i < unat sz" for i
  proof -
    have a: "uint (b + of_nat (8 + i)) = uint b + int (8 + i)" by (rule block_pointer(3) [OF lay bB i(1)])
    have ir: "8 + int i < uint r" using i(2) r(4) by (simp add: unat_less)
    have "b + of_nat (8 + i) \<in> live L s2" using in_live [OF l2 c(5) b, of "8 + i"] ir s2(1) [OF c(5)] c(2) by (simp add: unat_less)
    then have "heap_mem s3 (b + of_nat (8 + i)) = heap_mem s2 (b + of_nat (8 + i))" using f3 unfolding frame_def by blast
    also have "\<dots> = heap_mem s1 (b + of_nat (8 + i))" unfolding s2_def set_size_def heap.select_convs heap.update_convs
      using a cu ir layout_facts(4) [OF l2 c(4)] uint_bounds_64(2) [of "malloc_end s"] e by (simp, intro store64_frame) auto
    also have "\<dots> = heap_mem s (b + of_nat (8 + i))" unfolding s1_def set_size_def
      using a layout_facts(4) [OF lay bB] uint_bounds_64(2) [of "malloc_end s"] by (simp, intro store64_frame) auto
    finally show ?thesis .
  qed
  ultimately show ?thesis using s3 l3 r(4) K(2) unfolding s2_def s1_def c_def reallocated_def by auto
qed

theorem realloc_ok:
  assumes lay: "layout start L bs s" and b: "b \<in> L" and sz: "uint sz \<le> 2 ^ 64 - 16" and room: "uint (malloc_end s) + 32 \<le> uint limit"
  shows "realloc limit (b + 8) sz s = Some (0, s) \<and> out_of_room limit (REAL_SIZE sz) s \<or>
    (\<exists>b' s'. realloc limit (b + 8) sz s = Some (b' + 8, s') \<and> reallocated start L sz s b b' s')"
proof -
  have bB: "b \<in> set bs" using lay b by (auto simp: layout_def)
  note r = uint_REAL_SIZE [OF sz] and p = block_pointer(2) [OF lay bB]
  define r where "r = REAL_SIZE sz"
  note code = realloc_def [of limit "b + 8" sz s, unfolded Let_def, folded r_def]
  consider (move) "blk_size s b < r" | (shrink) "\<not> blk_size s b < r" "16 \<le> blk_size s b - r" | (keep) "\<not> blk_size s b < r" "\<not> 16 \<le> blk_size s b - r" by blast
  then show ?thesis
  proof cases
    case move
    from malloc_ok [OF lay sz room] consider "malloc limit sz s = Some (0, s)" "out_of_room limit (REAL_SIZE sz) s"
      | b1 s1 where "malloc limit sz s = Some (b1 + 8, s1)" "allocated start L limit (REAL_SIZE sz) s b1 s1" by blast
    then show ?thesis
    proof cases
      case 1
      then show ?thesis unfolding code using p move by simp
    next
      case 2
      have "b1 + 8 \<noteq> 0" using 2(2) layout_pointer unfolding allocated_def by blast
      moreover obtain s' where "free (b + 8) (s1\<lparr>heap_mem := memcpy (b1 + 8) (b + 8) (if blk_size s b - 8 < sz then blk_size s b - 8 else sz) (heap_mem s1)\<rparr>) = Some s'"
        "reallocated start L sz s b b1 s'"
        using realloc_move_ok [OF lay b 2(2) r(3) refl] by blast
      ultimately show ?thesis unfolding code using p move 2(1) by auto
    qed
  next
    case shrink
    have "uint (blk_size s b - r) = uint (blk_size s b) - uint r"
      using shrink(1) by (simp add: uint_minus_simple_alt [THEN iffD1] word_le_def word_less_def)
    then have "uint r + 16 \<le> uint (blk_size s b)" using shrink(2) by (simp add: word_le_def)
    from realloc_shrink_ok [OF lay b r(1,2) _ r(3), folded r_def, OF this] show ?thesis
      unfolding code using p shrink by auto
  next
    case keep
    have "insert b (L - {b}) = L" using b by auto
    moreover have "uint sz + 8 \<le> uint (blk_size s b)" using keep(1) r(3) by (simp add: r_def [symmetric] word_less_def)
    ultimately have "reallocated start L sz s b b s" using lay by (auto simp: reallocated_def)
    then show ?thesis unfolding code using p keep by auto
  qed
qed

end
