(* ===== verification/MA_Client.thy ===== *)
theory MA_Client
  imports MA_Ops
begin

text \<open>
  A program that uses the allocator.  What it relies on is the locale \<open>allocator\<close>, whose laws the
  model of \<open>tiny-malloc.c\<close> keeps; the program sees a map from the pointers it holds to the contents
  of its objects.
\<close>

section \<open>The interface\<close>

text \<open>The objects of the program are where the memory has them.\<close>

definition holds :: "(u64 \<Rightarrow> u8) \<Rightarrow> (u64 \<Rightarrow> nat) \<Rightarrow> (u64 \<rightharpoonup> u8 list) \<Rightarrow> bool" where
  "holds mem usable A \<longleftrightarrow> (\<forall>p c. A p = Some c \<longrightarrow> length c \<le> usable p \<and> (\<forall>i<length c. mem (p + of_nat i) = c ! i))"

lemma holdsD: "holds m u A \<Longrightarrow> A p = Some c \<Longrightarrow> i < length c \<Longrightarrow> i < u p \<and> m (p + of_nat i) = c ! i"
  unfolding holds_def by (meson less_le_trans)

definition same_objects :: "u64 set \<Rightarrow> (u64 \<Rightarrow> u8) \<Rightarrow> (u64 \<Rightarrow> nat) \<Rightarrow> (u64 \<Rightarrow> u8) \<Rightarrow> (u64 \<Rightarrow> nat) \<Rightarrow> bool" where
  "same_objects P mem usable mem' usable' \<longleftrightarrow>
     (\<forall>p\<in>P. usable' p = usable p \<and> (\<forall>i<usable p. mem' (p + of_nat i) = mem (p + of_nat i)))"

locale allocator =
  fixes ok :: "u64 set \<Rightarrow> 's \<Rightarrow> bool" and mem :: "'s \<Rightarrow> u64 \<Rightarrow> u8" and usable :: "'s \<Rightarrow> u64 \<Rightarrow> nat"
    and may :: "'a \<Rightarrow> 's \<Rightarrow> bool" and need :: "'a \<Rightarrow> nat" and alloc :: "'a \<Rightarrow> 's \<Rightarrow> (u64 \<times> 's) option"
    and release :: "u64 \<Rightarrow> 's \<Rightarrow> 's option" and put :: "u64 \<Rightarrow> u8 \<Rightarrow> 's \<Rightarrow> 's"
  assumes alloc: "ok P s \<Longrightarrow> may a s \<Longrightarrow> alloc a s = Some (0, s) \<or>
      (\<exists>p s'. alloc a s = Some (p, s') \<and> p \<noteq> 0 \<and> p \<notin> P \<and> ok (insert p P) s' \<and> need a \<le> usable s' p \<and>
        same_objects P (mem s) (usable s) (mem s') (usable s'))"
    and release: "ok P s \<Longrightarrow> p \<in> P \<Longrightarrow>
      \<exists>s'. release p s = Some s' \<and> ok (P - {p}) s' \<and> same_objects (P - {p}) (mem s) (usable s) (mem s') (usable s')"
    and put: "ok P s \<Longrightarrow> p \<in> P \<Longrightarrow> i < usable s p \<Longrightarrow>
      ok P (put (p + of_nat i) c s) \<and> mem (put (p + of_nat i) c s) = (mem s)(p + of_nat i := c) \<and>
      (\<forall>q\<in>P. usable (put (p + of_nat i) c s) q = usable s q)"
    and apart: "ok P s \<Longrightarrow> p \<in> P \<Longrightarrow> q \<in> P \<Longrightarrow> i < usable s p \<Longrightarrow> j < usable s q \<Longrightarrow>
      p + of_nat i = q + of_nat j \<Longrightarrow> p = q \<and> i = j"
begin

lemma holds_same:
  "holds (mem s) (usable s) A \<Longrightarrow> same_objects P (mem s) (usable s) (mem s') (usable s') \<Longrightarrow> dom A \<subseteq> P \<Longrightarrow> holds (mem s') (usable s') A"
  unfolding holds_def same_objects_def by (fastforce simp: dom_def subset_eq)

text \<open>A new object of which \<open>c\<close> is known to be the content.\<close>

lemma alloc_step:
  assumes "ok (dom A) s" "holds (mem s) (usable s) A" "may a s" "alloc a s = Some (p, s')" "p \<noteq> 0"
    and "length c \<le> need a" "\<forall>i<length c. mem s' (p + of_nat i) = c ! i"
  shows "ok (dom (A(p \<mapsto> c))) s' \<and> holds (mem s') (usable s') (A(p \<mapsto> c))"
proof -
  have a: "p \<notin> dom A" "ok (insert p (dom A)) s'" "need a \<le> usable s' p" "same_objects (dom A) (mem s) (usable s) (mem s') (usable s')"
    using alloc [OF assms(1,3)] assms(4,5) by auto
  have "holds (mem s') (usable s') A" using assms(2) a(4) by (rule holds_same) simp
  then show ?thesis using a(2,3) assms(6,7) by (auto simp: holds_def)
qed

lemma release_step:
  assumes "ok (dom A) s" "holds (mem s) (usable s) A" "p \<in> dom A" "release p s = Some s'"
  shows "ok (dom (A(p := None))) s' \<and> holds (mem s') (usable s') (A(p := None))"
proof -
  have r: "ok (dom A - {p}) s'" "same_objects (dom A - {p}) (mem s) (usable s) (mem s') (usable s')"
    using release [OF assms(1,3)] assms(4) by auto
  have "holds (mem s) (usable s) (A(p := None))" using assms(2) by (auto simp: holds_def)
  then show ?thesis using r holds_same [OF _ r(2), of "A(p := None)"] by auto
qed

lemma put_step:
  assumes "ok (dom A) s" "holds (mem s) (usable s) A" "A p = Some c" "i < length c"
  shows "ok (dom (A(p \<mapsto> c[i := x]))) (put (p + of_nat i) x s) \<and>
    holds (mem (put (p + of_nat i) x s)) (usable (put (p + of_nat i) x s)) (A(p \<mapsto> c[i := x]))"
proof -
  have p: "p \<in> dom A" "insert p (dom A) = dom A" "i < usable s p" using holdsD [OF assms(2-4)] assms(3) by auto
  note w = put [OF assms(1) p(1,3), of x]
  define s' where "s' = put (p + of_nat i) x s"
  have m: "mem s' (q + of_nat j) = (if q = p \<and> j = i then x else d ! j)" if "A q = Some d" "j < length d" for q d j
  proof -
    have "q \<in> dom A" "j < usable s q" "mem s (q + of_nat j) = d ! j" using holdsD [OF assms(2) that] that(1) by auto
    then show ?thesis using w apart [OF assms(1) p(1) _ p(3), of q j] by (auto simp: s'_def)
  qed
  have u: "usable s' q = usable s q" if "q \<in> dom A" for q using w that by (simp add: s'_def)
  have "holds (mem s') (usable s') (A(p \<mapsto> c[i := x]))"
    unfolding holds_def
  proof (intro allI impI conjI)
    fix q d assume d: "(A(p \<mapsto> c[i := x])) q = Some d"
    then obtain d' where d': "A q = Some d'" "length d = length d'" "d = (if q = p then d'[i := x] else d')"
      using assms(3) by (auto split: if_splits)
    show "length d \<le> usable s' q" using u [of q] d'(1,2) assms(2) unfolding holds_def by (metis domI)
    fix j assume "j < length d"
    then show "mem s' (q + of_nat j) = d ! j" using m [OF d'(1), of j] d'(2,3) by (auto simp: nth_list_update)
  qed
  moreover have "ok (dom (A(p \<mapsto> c[i := x]))) s'" using w p(2) by (simp add: s'_def)
  ultimately show ?thesis by (simp add: s'_def)
qed

lemma objects_apart:
  assumes "ok (dom A) s" "holds (mem s) (usable s) A" "A p = Some c" "A q = Some d" "i < length c" "j < length d"
    "p + of_nat i = q + of_nat j"
  shows "p = q \<and> i = j"
proof (rule apart [OF assms(1) _ _ _ _ assms(7)])
  show "i < usable s p" "j < usable s q" using holdsD [OF assms(2)] assms(3-6) by blast+
qed (use assms in auto)

end

text \<open>An allocator that can also resize an object.\<close>

locale reallocator = allocator +
  fixes resize :: "'a \<Rightarrow> u64 \<Rightarrow> 'b \<Rightarrow> (u64 \<times> 'b) option"
  assumes resize: "ok P s \<Longrightarrow> p \<in> P \<Longrightarrow> may a s \<Longrightarrow> resize a p s = Some (0, s) \<or>
      (\<exists>q s'. resize a p s = Some (q, s') \<and> q \<noteq> 0 \<and> q \<notin> P - {p} \<and> ok (insert q (P - {p})) s' \<and> need a \<le> usable s' q \<and>
        same_objects (P - {p}) (mem s) (usable s) (mem s') (usable s') \<and>
        (\<forall>i. i < usable s p \<longrightarrow> i < need a \<longrightarrow> mem s' (q + of_nat i) = mem s (p + of_nat i)))"
begin

lemma resize_step:
  assumes "ok (dom A) s" "holds (mem s) (usable s) A" "A p = Some c" "may a s" "resize a p s = Some (q, s')" "q \<noteq> 0"
    and "length d = need a" "\<forall>i<length d. mem s' (q + of_nat i) = d ! i"
  shows "ok (dom ((A(p := None))(q \<mapsto> d))) s' \<and> holds (mem s') (usable s') ((A(p := None))(q \<mapsto> d)) \<and>
    take (length c) d = take (length d) c"
proof -
  have p: "p \<in> dom A" using assms(3) by auto
  have a: "q \<notin> dom A - {p}" "ok (insert q (dom A - {p})) s'" "need a \<le> usable s' q"
      "same_objects (dom A - {p}) (mem s) (usable s) (mem s') (usable s')"
    and copy: "\<And>i. i < usable s p \<Longrightarrow> i < need a \<Longrightarrow> mem s' (q + of_nat i) = mem s (p + of_nat i)"
    using resize [OF assms(1) p assms(4)] assms(5,6) by auto
  have "holds (mem s) (usable s) (A(p := None))" using assms(2) by (auto simp: holds_def)
  then have "holds (mem s') (usable s') (A(p := None))" using holds_same [OF _ a(4)] by auto
  then have "holds (mem s') (usable s') ((A(p := None))(q \<mapsto> d))" using a(3) assms(7,8) by (auto simp: holds_def)
  moreover have "take (length c) d = take (length d) c"
    by (rule nth_equalityI) (use holdsD [OF assms(2,3)] copy assms(7,8) in auto)
  ultimately show ?thesis using a(2) by simp
qed

end

section \<open>The heap keeps the laws\<close>

definition heap_ok :: "u64 \<Rightarrow> u64 set \<Rightarrow> heap \<Rightarrow> bool" where
  "heap_ok start P s \<longleftrightarrow> (\<exists>bs. layout start ((\<lambda>p. p - 8) ` P) bs s)"

definition heap_usable :: "heap \<Rightarrow> u64 \<Rightarrow> nat" where
  "heap_usable s p = unat (blk_size s (p - 8)) - 8"

text \<open>A request: the address of the stack frame and the size.\<close>

definition request_ok :: "u64 \<times> u64 \<Rightarrow> heap \<Rightarrow> bool" where
  "request_ok a s \<longleftrightarrow> uint (snd a) \<le> 2 ^ 64 - 16 \<and> uint (malloc_end s) + 32 \<le> uint (fst a)"

definition heap_put :: "u64 \<Rightarrow> u8 \<Rightarrow> heap \<Rightarrow> heap" where
  "heap_put x c s = s\<lparr>heap_mem := (heap_mem s)(x := c)\<rparr>"

lemma frame_objects:
  assumes lay: "layout start L bs s" and K: "K \<subseteq> L" and f: "frame (live K s) s s'" and P: "\<And>p. p \<in> P \<Longrightarrow> p - 8 \<in> K"
  shows "same_objects P (heap_mem s) (heap_usable s) (heap_mem s') (heap_usable s')"
proof -
  have "heap_usable s' p = heap_usable s p" if "p \<in> P" for p
    using frame_sizes(1) [OF lay K f P [OF that]] by (simp add: heap_usable_def)
  moreover have "heap_mem s' (p + of_nat i) = heap_mem s (p + of_nat i)" if "p \<in> P" "i < heap_usable s p" for p i
  proof -
    have "p - 8 \<in> set bs" using P [OF that(1)] K lay by (auto simp: layout_def)
    then have "p - 8 + of_nat (8 + i) \<in> live K s"
      using that(2) by (intro in_live [OF lay _ P [OF that(1)]]) (simp_all add: heap_usable_def)
    then show ?thesis using f by (simp add: frame_def)
  qed
  ultimately show ?thesis by (simp add: same_objects_def)
qed

lemma minus8_image [simp]: "(\<lambda>p :: u64. p - 8) ` (P - {p}) = (\<lambda>p. p - 8) ` P - {p - 8}" "(p :: u64) - 8 \<in> (\<lambda>p. p - 8) ` P \<longleftrightarrow> p \<in> P"
  by (auto simp: image_iff)

lemma heap_realloc:
  assumes "heap_ok start P s" "p \<in> P" "request_ok a s"
  shows "realloc (fst a) p (snd a) s = Some (0, s) \<or>
      (\<exists>q s'. realloc (fst a) p (snd a) s = Some (q, s') \<and> q \<noteq> 0 \<and> q \<notin> P - {p} \<and> heap_ok start (insert q (P - {p})) s' \<and>
        unat (snd a) \<le> heap_usable s' q \<and> same_objects (P - {p}) (heap_mem s) (heap_usable s) (heap_mem s') (heap_usable s') \<and>
        (\<forall>i. i < heap_usable s p \<longrightarrow> i < unat (snd a) \<longrightarrow> heap_mem s' (q + of_nat i) = heap_mem s (p + of_nat i)))"
proof -
  define L where "L = (\<lambda>p. p - 8) ` P"
  obtain bs where lay: "layout start L bs s" using assms(1) by (auto simp: heap_ok_def L_def)
  have b: "p - 8 \<in> L" using assms(2) by (auto simp: L_def)
  have pb: "p - 8 + 8 = p" by simp
  have a: "uint (snd a) \<le> 2 ^ 64 - 16" "uint (malloc_end s) + 32 \<le> uint (fst a)" using assms(3) by (simp_all add: request_ok_def)
  from realloc_ok [OF lay b a] consider "realloc (fst a) p (snd a) s = Some (0, s)"
    | b' s' where "realloc (fst a) p (snd a) s = Some (b' + 8, s')" "reallocated start L (snd a) s (p - 8) b' s'" unfolding pb by blast
  then show ?thesis
  proof cases
    case 2
    note d = 2(2) [unfolded reallocated_def]
    have L: "L - {p - 8} = (\<lambda>p. p - 8) ` (P - {p})" by (simp add: L_def)
    obtain bs' where l: "layout start (insert b' (L - {p - 8})) bs' s'" using d by blast
    have "heap_ok start (insert (b' + 8) (P - {p})) s'" using l unfolding L heap_ok_def by (intro exI [of _ bs']) simp
    moreover have "b' + 8 \<noteq> 0" using layout_pointer [OF l] by simp
    moreover have "b' + 8 \<notin> P - {p}"
    proof
      assume "b' + 8 \<in> P - {p}"
      then have "b' + 8 - 8 \<in> L - {p - 8}" unfolding L by (rule imageI)
      then show False using d by simp
    qed
    moreover have "uint (snd a) + 8 \<le> uint (blk_size s' b')" using d by blast
    then have "unat (snd a) \<le> heap_usable s' (b' + 8)" by (simp add: heap_usable_def unat_eq_nat_uint del: nat_uint_eq)
    moreover have "same_objects (P - {p}) (heap_mem s) (heap_usable s) (heap_mem s') (heap_usable s')"
    proof (rule frame_objects [OF lay])
      show "frame (live (L - {p - 8}) s) s s'" using d by blast
      show "q - 8 \<in> L - {p - 8}" if "q \<in> P - {p}" for q using that unfolding L by (rule imageI)
    qed auto
    moreover have "heap_mem s' (b' + 8 + of_nat i) = heap_mem s (p + of_nat i)" if "i < heap_usable s p" "i < unat (snd a)" for i
    proof -
      have "8 + i < unat (blk_size s (p - 8))" using that(1) by (simp add: heap_usable_def)
      then have "heap_mem s' (b' + of_nat (8 + i)) = heap_mem s (p - 8 + of_nat (8 + i))" using d that(2) by blast
      then show ?thesis by (simp add: add.assoc)
    qed
    ultimately show ?thesis using 2(1) by blast
  qed blast
qed

interpretation tiny: reallocator "heap_ok start" heap_mem heap_usable request_ok "\<lambda>a. unat (snd a)"
  "\<lambda>a. malloc (fst a) (snd a)" free heap_put "\<lambda>a p. realloc (fst a) p (snd a)"
  for start
proof
  fix P s and a :: "u64 \<times> u64"
  assume "heap_ok start P s" and a: "request_ok a s"
  then obtain bs where lay: "layout start ((\<lambda>p. p - 8) ` P) bs s" by (auto simp: heap_ok_def)
  from malloc_ok [OF lay, of "snd a" "fst a"] a
  consider "malloc (fst a) (snd a) s = Some (0, s)"
    | b s' where "malloc (fst a) (snd a) s = Some (b + 8, s')" "allocated start ((\<lambda>p. p - 8) ` P) (fst a) (REAL_SIZE (snd a)) s b s'"
    unfolding request_ok_def by blast
  then show "malloc (fst a) (snd a) s = Some (0, s) \<or>
      (\<exists>p s'. malloc (fst a) (snd a) s = Some (p, s') \<and> p \<noteq> 0 \<and> p \<notin> P \<and> heap_ok start (insert p P) s' \<and>
        unat (snd a) \<le> heap_usable s' p \<and> same_objects P (heap_mem s) (heap_usable s) (heap_mem s') (heap_usable s'))"
  proof cases
    case 2
    note d = 2(2) [unfolded allocated_def]
    obtain bs' where l: "layout start (insert b ((\<lambda>p. p - 8) ` P)) bs' s'" using d by blast
    have "heap_ok start (insert (b + 8) P) s'" using l by (auto simp: heap_ok_def)
    moreover have "b + 8 \<noteq> 0" using layout_pointer [OF l] by simp
    moreover have "b + 8 \<notin> P" using d minus8_image(2) [of "b + 8" P] by simp
    moreover have "uint (snd a) + 8 \<le> uint (blk_size s' b)" using d uint_REAL_SIZE(3) [of "snd a"] a by (auto simp: request_ok_def)
    then have "unat (snd a) \<le> heap_usable s' (b + 8)" by (simp add: heap_usable_def unat_eq_nat_uint del: nat_uint_eq)
    moreover have "same_objects P (heap_mem s) (heap_usable s) (heap_mem s') (heap_usable s')"
      using d by (intro frame_objects [OF lay subset_refl]) auto
    ultimately show ?thesis using 2(1) by blast
  qed blast
next
  fix P s p
  assume "heap_ok start P s" and p: "p \<in> P"
  then obtain bs where lay: "layout start ((\<lambda>p. p - 8) ` P) bs s" by (auto simp: heap_ok_def)
  from free_ok [OF lay, of "p - 8"] p obtain s' where "free p s = Some s'" "released start ((\<lambda>p. p - 8) ` P) s (p - 8) s'" by auto
  moreover from this have "same_objects (P - {p}) (heap_mem s) (heap_usable s) (heap_mem s') (heap_usable s')"
    by (intro frame_objects [OF lay, of "(\<lambda>p. p - 8) ` P - {p - 8}"]) (auto simp: released_def)
  ultimately show "\<exists>s'. free p s = Some s' \<and> heap_ok start (P - {p}) s' \<and>
      same_objects (P - {p}) (heap_mem s) (heap_usable s) (heap_mem s') (heap_usable s')"
    by (auto simp: released_def heap_ok_def)
next
  fix P s p i and c :: u8
  assume "heap_ok start P s" and p: "p \<in> P" and i: "i < heap_usable s p"
  then obtain bs where lay: "layout start ((\<lambda>p. p - 8) ` P) bs s" by (auto simp: heap_ok_def)
  have b: "p - 8 \<in> (\<lambda>p. p - 8) ` P" "p - 8 \<in> set bs" using p lay by (auto simp: layout_def)
  have x: "uint (p - 8 + of_nat (8 + i)) = uint (p - 8) + int (8 + i)" "8 + int i < uint (blk_size s (p - 8))"
  proof -
    have k: "8 + i < unat (blk_size s (p - 8))" using i by (simp add: heap_usable_def)
    then show "uint (p - 8 + of_nat (8 + i)) = uint (p - 8) + int (8 + i)" by (rule block_pointer(3) [OF lay b(2)])
    show "8 + int i < uint (blk_size s (p - 8))" using k by (simp add: unat_less)
  qed
  define s' where "s' = heap_put (p + of_nat i) c s"
  have m: "heap_mem s' y = heap_mem s y" if "\<not> (uint (p - 8) + 8 \<le> uint y \<and> uint y < uint (p - 8) + uint (blk_size s (p - 8)))" for y
  proof -
    have "y \<noteq> p - 8 + of_nat (8 + i)" using that x by auto
    then show ?thesis by (simp add: s'_def heap_put_def)
  qed
  have e: "malloc_end s' = malloc_end s" "malloc_freelist s' = malloc_freelist s" by (simp_all add: s'_def heap_put_def)
  note w = payload_layout [OF lay b(1) e m]
  have "heap_ok start P s'" using w(1) by (auto simp: heap_ok_def)
  moreover have "heap_usable s' q = heap_usable s q" if "q \<in> P" for q
  proof -
    have "q - 8 \<in> set bs" using that lay by (auto simp: layout_def)
    then show ?thesis using w(2) by (simp add: heap_usable_def)
  qed
  ultimately show "heap_ok start P (heap_put (p + of_nat i) c s) \<and>
      heap_mem (heap_put (p + of_nat i) c s) = (heap_mem s)(p + of_nat i := c) \<and>
      (\<forall>q\<in>P. heap_usable (heap_put (p + of_nat i) c s) q = heap_usable s q)"
    by (simp add: s'_def heap_put_def)
next
  fix P s p q i j
  assume "heap_ok start P s" and pq: "p \<in> P" "q \<in> P" "i < heap_usable s p" "j < heap_usable s q" "p + of_nat i = q + of_nat j"
  then obtain bs where lay: "layout start ((\<lambda>p. p - 8) ` P) bs s" by (auto simp: heap_ok_def)
  have b: "p - 8 \<in> set bs" "q - 8 \<in> set bs" using pq(1,2) lay by (auto simp: layout_def)
  have "uint (p - 8 + of_nat (8 + i)) = uint (p - 8) + int (8 + i)" "8 + int i < uint (blk_size s (p - 8))"
    "uint (q - 8 + of_nat (8 + j)) = uint (q - 8) + int (8 + j)" "8 + int j < uint (blk_size s (q - 8))"
  proof -
    have k: "8 + i < unat (blk_size s (p - 8))" "8 + j < unat (blk_size s (q - 8))" using pq(3,4) by (simp_all add: heap_usable_def)
    show "uint (p - 8 + of_nat (8 + i)) = uint (p - 8) + int (8 + i)" by (rule block_pointer(3) [OF lay b(1) k(1)])
    show "uint (q - 8 + of_nat (8 + j)) = uint (q - 8) + int (8 + j)" by (rule block_pointer(3) [OF lay b(2) k(2)])
    show "8 + int i < uint (blk_size s (p - 8))" "8 + int j < uint (blk_size s (q - 8))" using k by (simp_all add: unat_less)
  qed
  moreover have "p - 8 + of_nat (8 + i) = q - 8 + of_nat (8 + j)" using pq(5) by simp
  moreover have "p - 8 = q - 8 \<or> uint (p - 8) + uint (blk_size s (p - 8)) \<le> uint (q - 8) \<or> uint (q - 8) + uint (blk_size s (q - 8)) \<le> uint (p - 8)"
    using tiled_apart [OF layout_facts(5) [OF lay] b] by blast
  ultimately show "p = q \<and> i = j" by auto
qed (rule heap_realloc)

text \<open>\<open>calloc\<close>: a request is the address of the frame, the number of elements and their size.\<close>

definition calloc_ok :: "u64 \<times> u64 \<times> u64 \<Rightarrow> heap \<Rightarrow> bool" where
  "calloc_ok a s \<longleftrightarrow> request_ok (fst a, fst (snd a) * snd (snd a)) s"

lemma heap_calloc:
  assumes "heap_ok start P s" "request_ok (limit, n * e) s" "calloc limit n e s = Some (p, s')"
  shows "p = 0 \<and> s' = s \<or> p \<noteq> 0 \<and> p \<notin> P \<and> heap_ok start (insert p P) s' \<and> unat (n * e) \<le> heap_usable s' p \<and>
    same_objects P (heap_mem s) (heap_usable s) (heap_mem s') (heap_usable s') \<and>
    (\<forall>i<unat (n * e). heap_mem s' (p + of_nat i) = 0)"
proof -
  define z where "z = n * e"
  from tiny.alloc [OF assms(1,2)] consider "malloc limit z s = Some (0, s)"
    | q s1 where "malloc limit z s = Some (q, s1)" "q \<noteq> 0" "q \<notin> P" "heap_ok start (insert q P) s1" "unat z \<le> heap_usable s1 q"
      "same_objects P (heap_mem s) (heap_usable s) (heap_mem s1) (heap_usable s1)" by (auto simp: z_def)
  then show ?thesis
  proof cases
    case 1
    then show ?thesis using assms(3) by (simp add: calloc_def Let_def z_def)
  next
    case 2
    have s': "p = q" "s' = s1\<lparr>heap_mem := memset q 0 z (heap_mem s1)\<rparr>" using assms(3) 2(1,2) by (auto simp: calloc_def Let_def z_def)
    obtain bs where l: "layout start ((\<lambda>p. p - 8) ` insert q P) bs s1" using 2(4) by (auto simp: heap_ok_def)
    have b: "q - 8 \<in> (\<lambda>p. p - 8) ` insert q P" "q - 8 \<in> set bs" using l by (auto simp: layout_def)
    have "16 \<le> uint (blk_size s1 (q - 8))" using layout_facts(4) [OF l b(2)] by simp
    then have "16 \<le> unat (blk_size s1 (q - 8))" unfolding unat_eq_nat_uint by linarith
    then have "unat z + 8 \<le> unat (blk_size s1 (q - 8))" using 2(5) by (simp add: heap_usable_def)
    then have "int (unat z + 8) \<le> int (unat (blk_size s1 (q - 8)))" by (rule zle_int [THEN iffD2])
    then have n: "uint z + 8 \<le> uint (blk_size s1 (q - 8))" by simp
    have m: "\<forall>x. \<not> x - (q - 8 + 8) < z \<longrightarrow> memset q 0 z (heap_mem s1) x = heap_mem s1 x" by (simp add: memset_def)
    note w = payload_write [OF l b(1) n m, folded s'(2)]
    have "heap_ok start (insert q P) s'" using w(1) by (auto simp: heap_ok_def)
    moreover have u: "heap_usable s' x = heap_usable s1 x" if "x \<in> insert q P" for x
    proof -
      have "x - 8 \<in> (\<lambda>p. p - 8) ` insert q P" using that by (rule imageI)
      then have "x - 8 \<in> set bs" using l by (auto simp: layout_def)
      then show ?thesis using w(2) by (simp add: heap_usable_def)
    qed
    moreover have "same_objects P (heap_mem s1) (heap_usable s1) (heap_mem s') (heap_usable s')"
      by (rule frame_objects [OF l _ w(3)]) (use 2(3) in \<open>auto dest: arg_cong [of _ _ "\<lambda>x. x + 8"]\<close>)
    then have "same_objects P (heap_mem s) (heap_usable s) (heap_mem s') (heap_usable s')"
      using 2(6) unfolding same_objects_def by simp
    moreover have "heap_mem s' (q + of_nat i) = 0" if "i < unat z" for i
    proof -
      have "of_nat i < z"
        using that uint_bounds_64(2) [of z] by (simp add: word_less_nat_alt unat_of_nat unat_less)
      then show ?thesis by (simp add: s'(2) memset_def)
    qed
    ultimately show ?thesis using s'(1) 2 by (auto simp: z_def)
  qed
qed

section \<open>Runs of a program\<close>

definition heap_init :: "u64 \<Rightarrow> memory \<Rightarrow> heap" where
  "heap_init start m = \<lparr>malloc_end = start, malloc_freelist = 0, heap_mem = m\<rparr>"

definition object :: "heap \<Rightarrow> u64 \<Rightarrow> nat \<Rightarrow> u8 list" where
  "object s p n = map (\<lambda>i. heap_mem s (p + of_nat i)) [0..<n]"

text \<open>The heap and the objects of a program that calls the allocator and writes into its objects.\<close>

inductive client :: "u64 \<Rightarrow> memory \<Rightarrow> heap \<Rightarrow> (u64 \<rightharpoonup> u8 list) \<Rightarrow> bool" for start m where
  init: "client start m (heap_init start m) Map.empty"
| no_room: "client start m s A \<Longrightarrow> request_ok (limit, sz) s \<Longrightarrow> malloc limit sz s = Some (0, s') \<Longrightarrow> client start m s' A"
| malloc: "client start m s A \<Longrightarrow> request_ok (limit, sz) s \<Longrightarrow> malloc limit sz s = Some (p, s') \<Longrightarrow> p \<noteq> 0 \<Longrightarrow>
    client start m s' (A(p \<mapsto> object s' p (unat sz)))"
| calloc: "client start m s A \<Longrightarrow> request_ok (limit, n * e) s \<Longrightarrow> calloc limit n e s = Some (p, s') \<Longrightarrow> p \<noteq> 0 \<Longrightarrow>
    client start m s' (A(p \<mapsto> replicate (unat (n * e)) 0))"
| realloc: "client start m s A \<Longrightarrow> A p = Some c \<Longrightarrow> request_ok (limit, sz) s \<Longrightarrow> realloc limit p sz s = Some (q, s') \<Longrightarrow> q \<noteq> 0 \<Longrightarrow>
    client start m s' ((A(p := None))(q \<mapsto> take (unat sz) c @ drop (length c) (object s' q (unat sz))))"
| free: "client start m s A \<Longrightarrow> A p = Some c \<Longrightarrow> free p s = Some s' \<Longrightarrow> client start m s' (A(p := None))"
| assign: "client start m s A \<Longrightarrow> A p = Some c \<Longrightarrow> i < length c \<Longrightarrow>
    client start m (heap_put (p + of_nat i) x s) (A(p \<mapsto> c[i := x]))"

lemma object_nth: "length (object s p n) = n" "i < n \<Longrightarrow> object s p n ! i = heap_mem s (p + of_nat i)"
  by (simp_all add: object_def)

lemma client_ok:
  assumes "client start m s A" "0 < uint start" "8 dvd uint start"
  shows "heap_ok start (dom A) s \<and> holds (heap_mem s) (heap_usable s) A"
  using assms(1)
proof induction
  case init
  have "layout start {} [] (heap_init start m)" using assms(2,3) by (simp add: layout_def heap_init_def)
  then show ?case by (auto simp: heap_ok_def holds_def)
next
  case (no_room s A limit sz s')
  then show ?case using tiny.alloc [of start "dom A" s "(limit, sz)"] by auto
next
  case (malloc s A limit sz p s')
  have "heap_ok start (dom (A(p \<mapsto> object s' p (unat sz)))) s' \<and> holds (heap_mem s') (heap_usable s') (A(p \<mapsto> object s' p (unat sz)))"
    by (rule tiny.alloc_step [of start A s "(limit, sz)"]) (use malloc in \<open>simp_all add: object_nth\<close>)
  then show ?case .
next
  case (calloc s A limit n e p s')
  then have h: "heap_ok start (dom A) s" "holds (heap_mem s) (heap_usable s) A" by simp_all
  note c = heap_calloc [OF h(1) calloc.hyps(2,3)]
  have "holds (heap_mem s') (heap_usable s') A" by (rule tiny.holds_same [OF h(2)]) (use c calloc.hyps(4) in auto)
  then have "holds (heap_mem s') (heap_usable s') (A(p \<mapsto> replicate (unat (n * e)) 0))"
    using c calloc.hyps(4) by (auto simp: holds_def)
  moreover have "heap_ok start (dom (A(p \<mapsto> replicate (unat (n * e)) 0))) s'" using c calloc.hyps(4) by simp
  ultimately show ?case by blast
next
  case (realloc s A p c limit sz q s')
  define d where "d = object s' q (unat sz)"
  have "heap_ok start (dom ((A(p := None))(q \<mapsto> d))) s' \<and> holds (heap_mem s') (heap_usable s') ((A(p := None))(q \<mapsto> d)) \<and>
      take (length c) d = take (length d) c"
    using tiny.resize_step [of start A s p c "(limit, sz)" q s' d] realloc by (simp add: d_def object_nth)
  then have r: "heap_ok start (dom ((A(p := None))(q \<mapsto> d))) s' \<and> holds (heap_mem s') (heap_usable s') ((A(p := None))(q \<mapsto> d))"
      "take (unat sz) c = take (length c) d" by (simp_all add: d_def object_nth)
  have e: "take (unat sz) c @ drop (length c) (object s' q (unat sz)) = d"
    unfolding r(2) by (simp add: d_def)
  show ?case unfolding e by (rule r(1))
next
  case (free s A p c s')
  show ?case by (rule tiny.release_step) (use free in auto)
next
  case (assign s A p c i x)
  show ?case by (rule tiny.put_step) (use assign in auto)
qed

text \<open>The objects keep their contents and lie apart.\<close>

theorem client_objects:
  assumes "client start m s A" "0 < uint start" "8 dvd uint start" "A p = Some c"
  shows "object s p (length c) = c"
    "A q = Some d \<Longrightarrow> i < length c \<Longrightarrow> j < length d \<Longrightarrow> p + of_nat i = q + of_nat j \<Longrightarrow> p = q \<and> i = j"
proof -
  have ok: "heap_ok start (dom A) s" "holds (heap_mem s) (heap_usable s) A" using client_ok [OF assms(1-3)] by simp_all
  show "object s p (length c) = c"
    by (rule nth_equalityI) (use holdsD [OF ok(2) assms(4)] in \<open>auto simp: object_nth\<close>)
  show "A q = Some d \<Longrightarrow> i < length c \<Longrightarrow> j < length d \<Longrightarrow> p + of_nat i = q + of_nat j \<Longrightarrow> p = q \<and> i = j"
    by (rule tiny.objects_apart [OF ok assms(4)])
qed

theorem client_returns:
  assumes "client start m s A" "0 < uint start" "8 dvd uint start"
  shows "request_ok (limit, sz) s \<Longrightarrow> \<exists>q s'. malloc limit sz s = Some (q, s') \<and> (q = 0 \<longrightarrow> s' = s \<and> out_of_room limit (REAL_SIZE sz) s)"
    "p \<in> dom A \<Longrightarrow> \<exists>s'. free p s = Some s'"
    "p \<in> dom A \<Longrightarrow> request_ok (limit, sz) s \<Longrightarrow> \<exists>q s'. realloc limit p sz s = Some (q, s')"
proof -
  have ok: "heap_ok start (dom A) s" using client_ok [OF assms] by simp
  then obtain bs where lay: "layout start ((\<lambda>p. p - 8) ` dom A) bs s" by (auto simp: heap_ok_def)
  show "\<exists>q s'. malloc limit sz s = Some (q, s') \<and> (q = 0 \<longrightarrow> s' = s \<and> out_of_room limit (REAL_SIZE sz) s)" if "request_ok (limit, sz) s"
  proof -
    from malloc_ok [OF lay] that consider "malloc limit sz s = Some (0, s)" "out_of_room limit (REAL_SIZE sz) s"
      | b s' where "malloc limit sz s = Some (b + 8, s')" "allocated start ((\<lambda>p. p - 8) ` dom A) limit (REAL_SIZE sz) s b s'"
      unfolding request_ok_def by fastforce
    then show ?thesis
    proof cases
      case 2
      then have "b + 8 \<noteq> 0" unfolding allocated_def using layout_pointer by blast
      then show ?thesis using 2(1) by blast
    qed blast
  qed
  show "p \<in> dom A \<Longrightarrow> \<exists>s'. free p s = Some s'" using tiny.release [OF ok] by blast
  show "p \<in> dom A \<Longrightarrow> request_ok (limit, sz) s \<Longrightarrow> \<exists>q s'. realloc limit p sz s = Some (q, s')"
    using tiny.resize [OF ok, of p "(limit, sz)"] by fastforce
qed

text \<open>When nothing is in use, the free list is one block, the whole heap.\<close>

theorem all_freed:
  assumes "client start m s Map.empty" "0 < uint start" "8 dvd uint start"
  shows "malloc_freelist s = 0 \<and> malloc_end s = start \<or>
    malloc_freelist s = start \<and> blk_size s start = malloc_end s - start \<and> blk_next s start = 0"
proof -
  obtain bs where lay: "layout start {} bs s" using client_ok [OF assms] by (auto simp: heap_ok_def)
  then have t: "tiled (blk_size s) (uint start) bs (uint (malloc_end s))" "flseg (blk_next s) (malloc_freelist s) bs 0"
    "successively (\<lambda>b c. False) bs" by (simp_all add: layout_def)
  show ?thesis
  proof (cases bs)
    case Nil
    then show ?thesis using t by (simp add: word_uint_eq_iff)
  next
    case (Cons b cs)
    then have "cs = []" using t(3) by (cases cs) simp_all
    then have b: "b = start" "uint start + uint (blk_size s b) = uint (malloc_end s)" "malloc_freelist s = b" "blk_next s b = 0"
      using t(1,2) Cons by (simp_all add: word_uint_eq_iff)
    then have "start + blk_size s start = malloc_end s"
      using layout_sum(2) [OF lay, of start "malloc_end s"] Cons by simp
    then have "blk_size s start = malloc_end s - start" by (metis add_diff_cancel_left')
    then show ?thesis using b by simp
  qed
qed

text \<open>The size computation wraps: the largest request is granted with a block that has no room at all.\<close>

theorem malloc_wraps_around:
  assumes "uint start + 40 \<le> uint limit"
  shows "\<exists>s'. malloc limit 0xFFFFFFFFFFFFFFFF (heap_init start m) = Some (start + 8, s') \<and> malloc_usable_size (start + 8) s' = 0"
proof -
  have r: "REAL_SIZE 0xFFFFFFFFFFFFFFFF = 8" by (simp add: REAL_SIZE_def M_ALIGN_def)
  have "CAN_ALLOC_P limit 8 (heap_init start m)"
    using assms by (subst can_alloc) (simp_all add: heap_init_def)
  then have "malloc limit 0xFFFFFFFFFFFFFFFF (heap_init start m) =
      Some (start + 8, set_size start 8 (heap_init start m\<lparr>malloc_end := start + 8\<rparr>))"
    unfolding malloc_def r by (subst malloc_loop.simps) (simp add: malloc_new_def malloc_done_def heap_init_def)
  moreover have "blk_size (set_size start 8 t) start = 8" for t by (simp add: blk_size_def set_size_def)
  ultimately show ?thesis by (simp add: malloc_usable_size_def)
qed

text \<open>A run: two bytes are allocated, one is written, the object is freed.\<close>

lemma example_run:
  obtains s where "client 0x1000 (\<lambda>_. 7) s [0x1008 \<mapsto> [7, 9]]" "request_ok (0x2000, 100) s"
proof -
  define s0 where "s0 = heap_init 0x1000 (\<lambda>_. 7)"
  define s1 where "s1 = set_size 0x1000 16 (s0\<lparr>malloc_end := 0x1010\<rparr>)"
  have r: "request_ok (0x2000, 2) s0" by (simp add: request_ok_def s0_def heap_init_def)
  have "malloc 0x2000 2 s0 = Some (0x1008, s1)" unfolding malloc_def
    by (subst malloc_loop.simps) (simp add: s0_def s1_def REAL_SIZE_def malloc_new_def malloc_done_def heap_init_def CAN_ALLOC_P_def)
  from client.malloc [OF client.init r [unfolded s0_def] this [unfolded s0_def]]
  have "client 0x1000 (\<lambda>_. 7) s1 [0x1008 \<mapsto> object s1 0x1008 2]" by simp
  moreover have "object s1 0x1008 2 = [7, 7]"
    by (simp add: object_def s1_def s0_def set_size_def heap_init_def store64_def upt_rec)
  ultimately have "client 0x1000 (\<lambda>_. 7) s1 [0x1008 \<mapsto> [7, 7]]" by simp
  from client.assign [OF this, where p = "0x1008" and c = "[7, 7]" and i = 1 and x = 9]
  have "client 0x1000 (\<lambda>_. 7) (heap_put 0x1009 9 s1) [0x1008 \<mapsto> [7, 9]]" by simp
  moreover have "request_ok (0x2000, 100) (heap_put 0x1009 9 s1)"
    by (simp add: request_ok_def heap_put_def s1_def)
  ultimately show thesis by (rule that)
qed

lemma example_freed:
  obtains s where "client 0x1000 (\<lambda>_. 7) s Map.empty"
proof -
  obtain s where s: "client 0x1000 (\<lambda>_. 7) s [0x1008 \<mapsto> [7, 9]]" by (rule example_run)
  then obtain s' where "free 0x1008 s = Some s'" using client_returns(2) [OF s, where p = "0x1008"] by auto
  from client.free [OF s _ this] have "client 0x1000 (\<lambda>_. 7) s' Map.empty" by simp
  then show thesis by (rule that)
qed

end
