(* ===== verification/CM_Util.thy ===== *)
theory CM_Util
  imports Prelude
begin

text \<open>
  CoreMark's checksum (\<open>core_util.c\<close>): the 16-bit CRC that all kernels feed their results
  to.  The register is shifted right once per message bit, with the bits of a byte taken from
  the lowest to the highest.  The theory relates the loop to the remainder of a polynomial
  division over the field of two elements, computed by the schoolbook method on lists of
  coefficients, and shows that the checksum is linear and loses no information about a
  16-bit value.
\<close>

section \<open>The code\<close>

text \<open>One round of the loop of \<open>crcu8\<close>; \<open>x16\<close> and \<open>carry\<close> are its local variables.\<close>

definition crcu8_round :: "u8 \<Rightarrow> u16 \<Rightarrow> u8 \<times> u16" where
  "crcu8_round data crc =
     (let x16 = (data AND 1) XOR (ucast crc AND 1);
          data = drop_bit 1 data;
          (crc, carry) = (if x16 = 1 then (crc XOR 0x4002, True) else (crc, False));
          crc = drop_bit 1 crc;
          crc = (if carry then crc OR 0x8000 else crc AND 0x7FFF)
      in (data, crc))"

fun crcu8_loop :: "nat \<Rightarrow> u8 \<Rightarrow> u16 \<Rightarrow> u16" where
  "crcu8_loop 0 data crc = crc"
| "crcu8_loop (Suc i) data crc = (let (data, crc) = crcu8_round data crc in crcu8_loop i data crc)"

definition crcu8 :: "u8 \<Rightarrow> u16 \<Rightarrow> u16" where
  "crcu8 data crc = crcu8_loop 8 data crc"

definition crcu16 :: "u16 \<Rightarrow> u16 \<Rightarrow> u16" where
  "crcu16 newval crc =
     (let crc = crcu8 (ucast newval) crc
      in crcu8 (ucast (drop_bit 8 newval)) crc)"

definition crc16 :: "u16 \<Rightarrow> u16 \<Rightarrow> u16" where
  "crc16 newval crc = crcu16 newval crc"

definition crcu32 :: "u32 \<Rightarrow> u16 \<Rightarrow> u16" where
  "crcu32 newval crc =
     (let crc = crc16 (ucast newval) crc
      in crc16 (ucast (drop_bit 16 newval)) crc)"

section \<open>Bit-serial form\<close>

text \<open>The bits of a word, lowest first, and the register after a list of message bits.\<close>

definition bits_of :: "'a::len word \<Rightarrow> bool list" where
  "bits_of w = map (bit w) [0..<LENGTH('a)]"

definition crc_bit :: "u16 \<Rightarrow> bool \<Rightarrow> u16" where
  "crc_bit c b = (if bit c 0 \<noteq> b then drop_bit 1 c XOR 0xA001 else drop_bit 1 c)"

definition crc_bits :: "u16 \<Rightarrow> bool list \<Rightarrow> u16" where
  "crc_bits c bs = foldl crc_bit c bs"

lemma crc_bits_simps [simp]:
  "crc_bits c [] = c" "crc_bits c (b # bs) = crc_bits (crc_bit c b) bs"
  "crc_bits c (bs @ cs) = crc_bits (crc_bits c bs) cs"
  by (simp_all add: crc_bits_def)

lemma low_bit_word: "w AND 1 = (of_bool (bit w 0) :: 'a::len word)"
  by (simp add: and_one_eq bit_0 mod2_eq_if)

lemma or_unset_bit: "\<not> bit w n \<Longrightarrow> w OR 2 ^ n = w XOR (2 ^ n :: 'a::len word)"
  by (rule bit_word_eqI) (auto simp: bit_simps)

lemma crcu8_round_bit: "crcu8_round data crc = (drop_bit 1 data, crc_bit crc (bit data 0))"
proof -
  have x: "(data AND 1) XOR (ucast crc AND 1) = (1 :: u8) \<longleftrightarrow> bit crc 0 \<noteq> bit data 0"
    by (simp add: low_bit_word bit_simps)
  have "drop_bit 1 (0x4002 :: u16) = 0x2001" "(0x2001 :: u16) XOR 2 ^ 15 = 0xA001" by simp_all
  moreover have "\<not> bit (drop_bit 1 crc XOR 0x2001 :: u16) 15"
    using bit_imp_le_length [of crc 16] by (auto simp: bit_simps)
  ultimately have set: "drop_bit 1 (crc XOR 0x4002) OR 0x8000 = drop_bit 1 crc XOR 0xA001"
    using or_unset_bit [of "drop_bit 1 crc XOR 0x2001" 15] by (simp add: drop_bit_xor xor.assoc)
  have "take_bit 15 (drop_bit 1 crc) = drop_bit 1 crc"
    by (rule bit_word_eqI) (auto simp: bit_simps dest: bit_imp_le_length)
  then have "drop_bit 1 crc AND 0x7FFF = drop_bit 1 crc"
    by (simp add: take_bit_eq_mask mask_eq_exp_minus_1)
  then show ?thesis using set by (simp add: crcu8_round_def crc_bit_def x Let_def)
qed

lemma crcu8_loop_bits: "crcu8_loop n data crc = crc_bits crc (map (bit data) [0..<n])"
proof (induction n arbitrary: data crc)
  case (Suc n)
  have "map (bit (drop_bit 1 data)) [0..<n] = map (bit data) [Suc 0..<Suc n]"
    by (simp add: bit_drop_bit_eq map_Suc_upt [symmetric] del: upt_Suc)
  moreover have "[0..<Suc n] = 0 # [Suc 0..<Suc n]" by (rule upt_conv_Cons) simp
  ultimately show ?case by (simp add: Suc.IH crcu8_round_bit del: upt_Suc)
qed simp

lemma crcu8_bits: "crcu8 data crc = crc_bits crc (bits_of data)"
  by (simp add: crcu8_def crcu8_loop_bits bits_of_def)

lemma bits_of_halves:
  "bits_of (v :: u16) = bits_of (ucast v :: u8) @ bits_of (ucast (drop_bit 8 v) :: u8)"
  "bits_of (w :: u32) = bits_of (ucast w :: u16) @ bits_of (ucast (drop_bit 16 w) :: u16)"
  by (auto intro!: nth_equalityI simp: bits_of_def nth_append bit_simps split: if_splits)

lemma crcu16_bits: "crcu16 v crc = crc_bits crc (bits_of v)"
  by (simp add: crcu16_def crcu8_bits bits_of_halves(1))

lemma crcu32_bits: "crcu32 v crc = crc_bits crc (bits_of v)"
  by (simp add: crcu32_def crc16_def crcu16_bits bits_of_halves(2))

lemma upto_16: "[0..<16] = [0, 1, 2, 3, 4, 5, 6, 7, 8, 9, 10, 11, 12, 13, 14, 15 :: nat]"
  by (simp add: upt_conv_Cons)

lemma bits16: "bits_of (w :: u16) = map (bit w) [0, 1, 2, 3, 4, 5, 6, 7, 8, 9, 10, 11, 12, 13, 14, 15]"
  by (simp add: bits_of_def upto_16)

section \<open>The checksum is a polynomial remainder\<close>

text \<open>
  A polynomial is a list of coefficients, highest degree first.  \<open>poly_mod\<close> is the
  schoolbook division: as long as the dividend is longer than the remainder may be, a leading
  one is cancelled by subtracting the aligned divisor and the leading coefficient is dropped.
  The divisor is \<open>x^16 + x^15 + x^2 + 1\<close>; its leading one is left out of the list.
\<close>

definition xor_list :: "bool list \<Rightarrow> bool list \<Rightarrow> bool list" where
  "xor_list = map2 (\<noteq>)"

lemma length_xor_list [simp]: "length (xor_list xs ys) = min (length xs) (length ys)"
  by (simp add: xor_list_def)

fun poly_mod :: "bool list \<Rightarrow> bool list \<Rightarrow> bool list" where
  "poly_mod p (b # bs) =
     (if length bs < length p then b # bs
      else poly_mod p (if b then xor_list (take (length p) bs) p @ drop (length p) bs else bs))"
| "poly_mod p [] = []"

definition crc_poly :: "bool list" where
  "crc_poly = [True, False, False, False, False, False, False, False,
               False, False, False, False, False, True, False, True]"

lemma length_bits_of [simp]: "length (bits_of (w :: 'a::len word)) = LENGTH('a)"
  by (simp add: bits_of_def)

lemma bits_of_xor: "bits_of (v XOR w) = xor_list (bits_of v) (bits_of w)"
  by (rule nth_equalityI) (simp_all add: bits_of_def xor_list_def bit_xor_iff)

lemma bits_of_inject: "bits_of v = bits_of w \<longleftrightarrow> v = (w :: 'a::len word)"
  by (auto simp: bits_of_def bit_eq_iff intro!: bit_word_eqI)

lemma bits_of_shift: "bits_of (drop_bit 1 c) = tl (bits_of c) @ [False]" for c :: u16
proof (rule nth_equalityI)
  fix i assume "i < length (bits_of (drop_bit 1 c))"
  then have "i < 15 \<or> i = 15" by (auto simp: less_Suc_eq)
  then show "bits_of (drop_bit 1 c) ! i = (tl (bits_of c) @ [False]) ! i"
    using bit_imp_le_length [of c 16] by (auto simp: bits_of_def bit_drop_bit_eq nth_append nth_tl)
qed simp

lemma bits_of_poly: "bits_of (0xA001 :: u16) = crc_poly"
  by (simp add: bits_of_def crc_poly_def upt_rec)

lemma bits_of_Cons: "bits_of c = bit c 0 # tl (bits_of c)" for c :: u16
  by (simp add: bits_of_def upt_rec)

lemma xor_list_simps [simp]:
  "xor_list (x # xs) (y # ys) = (x \<noteq> y) # xor_list xs ys"
  "xor_list [] ys = []" "xor_list xs [] = []"
  by (simp_all add: xor_list_def)

lemma xor_list_nth: "i < length xs \<Longrightarrow> i < length ys \<Longrightarrow> xor_list xs ys ! i = (xs ! i \<noteq> ys ! i)"
  by (simp add: xor_list_def)

lemma xor_list_head:
  assumes "length v = length p" "length u = length v + length z"
  shows "xor_list (take (length p) (xor_list u (v @ z))) p @ drop (length p) (xor_list u (v @ z)) =
         xor_list u (xor_list v p @ z)"
  using assms by (intro nth_equalityI) (auto simp: nth_append xor_list_nth)

lemma crc_bit_poly:
  "bits_of (crc_bit c b) = (if bit c 0 \<noteq> b then xor_list (tl (bits_of c) @ [False]) crc_poly
                            else tl (bits_of c) @ [False])"
  by (simp add: crc_bit_def bits_of_xor bits_of_shift [unfolded One_nat_def] bits_of_poly)

theorem crc_bits_remainder:
  "bits_of (crc_bits c bs) =
   poly_mod crc_poly (xor_list (bs @ replicate 16 False) (bits_of c @ replicate (length bs) False))"
proof (induction bs arbitrary: c)
  case Nil
  have "xor_list (replicate 16 False) (bits_of c) = bits_of c"
    by (intro nth_equalityI) (auto simp: xor_list_nth)
  moreover have "poly_mod crc_poly (bits_of c) = bits_of c"
    by (subst (1 2) bits_of_Cons) (simp add: crc_poly_def)
  ultimately show ?case by simp
next
  case (Cons b bs)
  let ?u = "bs @ replicate 16 False" and ?z = "replicate (length bs) False"
  let ?v = "tl (bits_of c) @ [False]"
  have len: "length crc_poly = 16" by (simp add: crc_poly_def)
  have rep: "replicate (Suc n) False = [False] @ replicate n False" for n by simp
  have "xor_list ((b # bs) @ replicate 16 False) (bits_of c @ replicate (length (b # bs)) False) =
        (b \<noteq> bit c 0) # xor_list ?u (?v @ ?z)"
    by (subst bits_of_Cons) simp
  moreover have "poly_mod crc_poly ((b \<noteq> bit c 0) # xor_list ?u (?v @ ?z)) =
      poly_mod crc_poly (xor_list ?u (bits_of (crc_bit c b) @ ?z))"
    using xor_list_head [of ?v crc_poly ?u ?z] by (simp add: len crc_bit_poly)
  ultimately show ?case by (simp only: crc_bits_simps Cons.IH)
qed

section \<open>Linearity and loss of information\<close>

lemma xor_twice: "k XOR (k XOR x) = (x :: 'a::len word)"
  by (simp flip: xor.assoc)

lemma crc_bit_xor: "crc_bit (c XOR d) (a \<noteq> b) = crc_bit c a XOR crc_bit d b"
  by (cases "bit c 0 = a"; cases "bit d 0 = b")
    (auto simp: crc_bit_def drop_bit_xor bit_xor_iff xor.assoc xor.left_commute xor.commute xor_twice)

lemma crc_bits_xor:
  "length bs = length cs \<Longrightarrow> crc_bits (c XOR d) (xor_list bs cs) = crc_bits c bs XOR crc_bits d cs"
  by (induction bs cs arbitrary: c d rule: list_induct2) (simp_all add: crc_bit_xor del: not_iff)

text \<open>A round can be undone: the top bit of the register tells what was shifted out.\<close>

lemma crc_bit_top: "bit (crc_bit c b) 15 \<longleftrightarrow> bit c 0 \<noteq> b"
  using bit_imp_le_length [of c 16] by (auto simp: crc_bit_def bit_simps)

lemma xor_right_cancel: "x XOR k = y XOR k \<longleftrightarrow> x = (y :: 'a::len word)"
  by (metis xor.assoc xor.right_neutral xor_self_eq)

lemma crc_bit_inj: "crc_bit c b = crc_bit d b \<Longrightarrow> c = d"
proof -
  assume eq: "crc_bit c b = crc_bit d b"
  then have low: "bit c 0 = bit d 0" using crc_bit_top [of c b] crc_bit_top [of d b] by auto
  have "drop_bit 1 c = drop_bit 1 d"
    using eq low xor_right_cancel by (auto simp: crc_bit_def split: if_splits)
  then have "bit c (Suc n) = bit d (Suc n)" for n
    by (metis bit_drop_bit_eq comp_apply plus_1_eq_Suc)
  then show "c = d" using low by (intro bit_word_eqI) (metis not0_implies_Suc)
qed

lemma crc_bits_inj: "crc_bits c bs = crc_bits d bs \<longleftrightarrow> c = d"
  by (induction bs arbitrary: c d) (auto dest: crc_bit_inj)

text \<open>A value and a register of the same width play the same part.\<close>

lemma xor_list_commute: "xor_list xs ys = xor_list ys xs"
  by (rule nth_equalityI) (auto simp: xor_list_nth)

lemma crcu16_commute: "crcu16 v c = crcu16 c v"
  using crc_bits_remainder [of c "bits_of v"] crc_bits_remainder [of v "bits_of c"]
    xor_list_commute [of "bits_of v @ replicate 16 False"]
  by (simp add: crcu16_bits flip: bits_of_inject)

end
