(* ===== verification/CM_State.thy ===== *)
theory CM_State
  imports CM_Util "HOL-Library.Monad_Syntax"
begin

text \<open>
  CoreMark's state machine kernel (\<open>core_state.c\<close>).  The data block is a list of bytes, a
  pointer into it is an index, and an access outside the block makes the whole computation
  \<open>None\<close>, as does a loop that does not return.  The theory shows which token ends in which
  state and where the scan stops, that scanning a block with a NUL byte stays inside it and returns, that the block
  \<open>core_init_state\<close> writes keeps a NUL byte through the corruption pass, and when the second
  corruption pass undoes the first.
\<close>

section \<open>Bytes of a block\<close>

definition get_byte :: "u8 list \<Rightarrow> nat \<Rightarrow> u8 option" where
  "get_byte mem p = (if p < length mem then Some (mem ! p) else None)"

definition put_byte :: "u8 list \<Rightarrow> nat \<Rightarrow> u8 \<Rightarrow> u8 list option" where
  "put_byte mem p v = (if p < length mem then Some (mem[p := v]) else None)"

definition ascii :: "string \<Rightarrow> u8 list" where
  "ascii s = map of_char s"

section \<open>The state machine\<close>

datatype core_state = CORE_START | CORE_INVALID | CORE_S1 | CORE_S2 | CORE_INT | CORE_FLOAT
  | CORE_EXPONENT | CORE_SCIENTIFIC

type_synonym counts = "core_state \<Rightarrow> u32"

definition count_up :: "core_state \<Rightarrow> counts \<Rightarrow> counts" where
  "count_up s tc = tc(s := tc s + 1)"

definition ee_isdigit :: "u8 \<Rightarrow> bool" where
  "ee_isdigit c \<longleftrightarrow> 0x30 \<le> c \<and> c \<le> 0x39"

definition core_state_switch :: "core_state \<Rightarrow> u8 \<Rightarrow> counts \<Rightarrow> core_state \<times> counts" where
  "core_state_switch state c tc =
     (case state of
        CORE_START \<Rightarrow>
          (let (s, tc) = (if ee_isdigit c then (CORE_INT, tc)
                          else if c = 0x2B \<or> c = 0x2D then (CORE_S1, tc)
                          else if c = 0x2E then (CORE_FLOAT, tc)
                          else (CORE_INVALID, count_up CORE_INVALID tc))
           in (s, count_up CORE_START tc))
      | CORE_S1 \<Rightarrow>
          (if ee_isdigit c then (CORE_INT, count_up CORE_S1 tc)
           else if c = 0x2E then (CORE_FLOAT, count_up CORE_S1 tc)
           else (CORE_INVALID, count_up CORE_S1 tc))
      | CORE_INT \<Rightarrow>
          (if c = 0x2E then (CORE_FLOAT, count_up CORE_INT tc)
           else if \<not> ee_isdigit c then (CORE_INVALID, count_up CORE_INT tc)
           else (state, tc))
      | CORE_FLOAT \<Rightarrow>
          (if c = 0x45 \<or> c = 0x65 then (CORE_S2, count_up CORE_FLOAT tc)
           else if \<not> ee_isdigit c then (CORE_INVALID, count_up CORE_FLOAT tc)
           else (state, tc))
      | CORE_S2 \<Rightarrow>
          (if c = 0x2B \<or> c = 0x2D then (CORE_EXPONENT, count_up CORE_S2 tc)
           else (CORE_INVALID, count_up CORE_S2 tc))
      | CORE_EXPONENT \<Rightarrow>
          (if ee_isdigit c then (CORE_SCIENTIFIC, count_up CORE_EXPONENT tc)
           else (CORE_INVALID, count_up CORE_EXPONENT tc))
      | CORE_SCIENTIFIC \<Rightarrow>
          (if \<not> ee_isdigit c then (CORE_INVALID, count_up CORE_INVALID tc) else (state, tc))
      | CORE_INVALID \<Rightarrow> (state, tc))"

text \<open>The scanning loop: a NUL byte or the state \<open>CORE_INVALID\<close> ends it, a comma is skipped.\<close>

function scan_token :: "u8 list \<Rightarrow> nat \<Rightarrow> core_state \<Rightarrow> counts \<Rightarrow> (nat \<times> core_state \<times> counts) option" where
  "scan_token mem p state tc =
     (if length mem \<le> p then None
      else if mem ! p = 0 \<or> state = CORE_INVALID then Some (p, state, tc)
      else if mem ! p = 0x2C then Some (p + 1, state, tc)
      else let (state, tc) = core_state_switch state (mem ! p) tc
           in scan_token mem (p + 1) state tc)"
  by pat_completeness auto
termination by (relation "measure (\<lambda>(mem, p, _). length mem - p)") auto

declare scan_token.simps [simp del]

definition core_state_transition :: "u8 list \<Rightarrow> nat \<Rightarrow> counts \<Rightarrow> (nat \<times> core_state \<times> counts) option" where
  "core_state_transition mem p tc = scan_token mem p CORE_START tc"

text \<open>\<open>core_bench_state\<close> scans all tokens of the block, counting the final states.\<close>

partial_function (option) scan_all ::
  "u8 list \<Rightarrow> nat \<Rightarrow> counts \<Rightarrow> counts \<Rightarrow> (counts \<times> counts) option" where
  "scan_all mem p fc tc =
     do {
       c \<leftarrow> get_byte mem p;
       if c = 0 then Some (fc, tc)
       else do {
         (p, fstate, tc) \<leftarrow> core_state_transition mem p tc;
         scan_all mem p (count_up fstate fc) tc
       }
     }"

text \<open>The corruption pass moves in steps of \<open>step\<close> bytes; a comma stays a comma.\<close>

partial_function (option) corrupt :: "u8 list \<Rightarrow> int \<Rightarrow> int \<Rightarrow> int \<Rightarrow> u8 \<Rightarrow> u8 list option" where
  "corrupt mem p blksize step seed =
     (if p < blksize
      then if p < 0 then None
           else do {
             c \<leftarrow> get_byte mem (nat p);
             mem \<leftarrow> (if c \<noteq> 0x2C then put_byte mem (nat p) (c XOR seed) else Some mem);
             corrupt mem (p + step) blksize step seed
           }
      else Some mem)"

definition core_states :: "core_state list" where
  "core_states = [CORE_START, CORE_INVALID, CORE_S1, CORE_S2, CORE_INT, CORE_FLOAT,
                  CORE_EXPONENT, CORE_SCIENTIFIC]"

definition core_bench_state ::
  "u32 \<Rightarrow> u8 list \<Rightarrow> u16 \<Rightarrow> u16 \<Rightarrow> u16 \<Rightarrow> u16 \<Rightarrow> (u16 \<times> u8 list) option" where
  "core_bench_state blksize mem seed1 seed2 step crc =
     do {
       (fc, tc) \<leftarrow> scan_all mem 0 (\<lambda>_. 0) (\<lambda>_. 0);
       mem \<leftarrow> corrupt mem 0 (uint blksize) (sint step) (ucast seed1);
       (fc, tc) \<leftarrow> scan_all mem 0 fc tc;
       mem \<leftarrow> corrupt mem 0 (uint blksize) (sint step) (ucast seed2);
       Some (foldl (\<lambda>crc s. crcu32 (tc s) (crcu32 (fc s) crc)) crc core_states, mem)
     }"

section \<open>The initial block\<close>

definition intpat :: "u8 list list" where
  "intpat = [ascii ''5012'', ascii ''1234'', ascii ''-874'', ascii ''+122'']"

definition floatpat :: "u8 list list" where
  "floatpat = [ascii ''35.54400'', ascii ''.1234500'', ascii ''-110.700'', ascii ''+0.64400'']"

definition scipat :: "u8 list list" where
  "scipat = [ascii ''5.500e+3'', ascii ''-.123e-2'', ascii ''-87e+832'', ascii ''+0.6e-12'']"

definition errpat :: "u8 list list" where
  "errpat = [ascii ''T0.3e-1F'', ascii ''-T.T++Tq'', ascii ''1T3.4e4z'', ascii ''34.0e-T^'']"

text \<open>The \<open>switch\<close> that chooses \<open>buf\<close>; its length is \<open>next\<close>.\<close>

definition state_pattern :: "u16 \<Rightarrow> u8 list" where
  "state_pattern seed =
     (let k = uint (seed AND 7); i = unat (drop_bit 3 seed AND 3)
      in if k \<le> 2 then intpat ! i
         else if k \<le> 4 then floatpat ! i
         else if k \<le> 6 then scipat ! i
         else errpat ! i)"

fun put_bytes :: "u8 list \<Rightarrow> nat \<Rightarrow> u8 list \<Rightarrow> u8 list option" where
  "put_bytes mem p [] = Some mem"
| "put_bytes mem p (b # bs) = do { mem \<leftarrow> put_byte mem p b; put_bytes mem (p + 1) bs }"

text \<open>The pattern loop; \<open>sz\<close> is the decremented size, sums are taken modulo 2^32.\<close>

partial_function (option) init_patterns ::
  "nat \<Rightarrow> u16 \<Rightarrow> u8 list \<Rightarrow> u8 list \<Rightarrow> nat \<Rightarrow> (u8 list \<times> nat) option" where
  "init_patterns sz seed buf mem tot =
     (if (tot + length buf + 1) mod 2 ^ 32 < sz
      then do {
        (mem, tot) \<leftarrow>
          (if 0 < length buf
           then do {
             mem \<leftarrow> put_bytes mem tot buf;
             mem \<leftarrow> put_byte mem (tot + length buf) 0x2C;
             Some (mem, (tot + length buf + 1) mod 2 ^ 32)
           }
           else Some (mem, tot));
        init_patterns sz (seed + 1) (state_pattern (seed + 1)) mem tot
      }
      else Some (mem, tot))"

definition core_init_state :: "u32 \<Rightarrow> u16 \<Rightarrow> u8 list \<Rightarrow> u8 list option" where
  "core_init_state sz seed mem =
     do {
       (mem, tot) \<leftarrow> init_patterns (unat (sz - 1)) seed [] mem 0;
       put_bytes mem tot (replicate (unat sz - tot) 0)
     }"

declare scan_all.simps [code] corrupt.simps [code] init_patterns.simps [code]

section \<open>Which token ends in which state\<close>

text \<open>
  The reference is a recursive-descent parser of
  \<open>[sign] digits [. digits [E sign digits]]\<close>; a prefix of a number has the state that waits
  for the rest of it.
\<close>

definition is_sign :: "u8 \<Rightarrow> bool" where
  "is_sign c \<longleftrightarrow> c = 0x2B \<or> c = 0x2D"

definition parse_exponent :: "u8 list \<Rightarrow> core_state" where
  "parse_exponent t =
     (case t of [] \<Rightarrow> CORE_S2
      | c # u \<Rightarrow> if \<not> is_sign c then CORE_INVALID
                 else if u = [] then CORE_EXPONENT
                 else if list_all ee_isdigit u then CORE_SCIENTIFIC else CORE_INVALID)"

definition parse_fraction :: "u8 list \<Rightarrow> core_state" where
  "parse_fraction t =
     (case dropWhile ee_isdigit t of [] \<Rightarrow> CORE_FLOAT
      | c # u \<Rightarrow> if c = 0x45 \<or> c = 0x65 then parse_exponent u else CORE_INVALID)"

definition parse_number :: "u8 list \<Rightarrow> core_state" where
  "parse_number t =
     (case dropWhile ee_isdigit t of [] \<Rightarrow> CORE_INT
      | c # u \<Rightarrow> if c = 0x2E then parse_fraction u else CORE_INVALID)"

definition parse_token :: "u8 list \<Rightarrow> core_state" where
  "parse_token t =
     (case t of [] \<Rightarrow> CORE_START
      | c # u \<Rightarrow> if is_sign c then (if u = [] then CORE_S1 else parse_number u) else parse_number t)"

definition core_state_next :: "core_state \<Rightarrow> u8 \<Rightarrow> core_state" where
  "core_state_next state c = fst (core_state_switch state c (\<lambda>_. 0))"

lemma fst_switch: "fst (core_state_switch state c tc) = core_state_next state c"
  by (cases state) (simp_all add: core_state_next_def core_state_switch_def)

lemma digit_not_special:
  "ee_isdigit c \<Longrightarrow> c \<noteq> 0x2B" "ee_isdigit c \<Longrightarrow> c \<noteq> 0x2D" "ee_isdigit c \<Longrightarrow> c \<noteq> 0x2E"
  "ee_isdigit c \<Longrightarrow> c \<noteq> 0x45" "ee_isdigit c \<Longrightarrow> c \<noteq> 0x65"
  by (auto simp: ee_isdigit_def)

lemma next_simps [simp]:
  "core_state_next CORE_START c = (if ee_isdigit c then CORE_INT else if is_sign c then CORE_S1
     else if c = 0x2E then CORE_FLOAT else CORE_INVALID)"
  "core_state_next CORE_S1 c = (if ee_isdigit c then CORE_INT else if c = 0x2E then CORE_FLOAT
     else CORE_INVALID)"
  "core_state_next CORE_INT c = (if ee_isdigit c then CORE_INT else if c = 0x2E then CORE_FLOAT
     else CORE_INVALID)"
  "core_state_next CORE_FLOAT c = (if ee_isdigit c then CORE_FLOAT
     else if c = 0x45 \<or> c = 0x65 then CORE_S2 else CORE_INVALID)"
  "core_state_next CORE_S2 c = (if is_sign c then CORE_EXPONENT else CORE_INVALID)"
  "core_state_next CORE_EXPONENT c = (if ee_isdigit c then CORE_SCIENTIFIC else CORE_INVALID)"
  "core_state_next CORE_SCIENTIFIC c = (if ee_isdigit c then CORE_SCIENTIFIC else CORE_INVALID)"
  "core_state_next CORE_INVALID c = CORE_INVALID"
  by (auto simp: core_state_next_def core_state_switch_def is_sign_def digit_not_special)

lemma fold_invalid: "foldl core_state_next CORE_INVALID t = CORE_INVALID"
  by (induction t) simp_all

lemma fold_scientific:
  "foldl core_state_next CORE_SCIENTIFIC t = (if list_all ee_isdigit t then CORE_SCIENTIFIC else CORE_INVALID)"
  by (induction t) (simp_all add: fold_invalid)

lemma fold_s2: "foldl core_state_next CORE_S2 t = parse_exponent t"
proof (cases t)
  case (Cons c u)
  then show ?thesis by (cases u) (simp_all add: parse_exponent_def fold_invalid fold_scientific)
qed (simp add: parse_exponent_def)

lemma fold_float: "foldl core_state_next CORE_FLOAT t = parse_fraction t"
  by (induction t) (simp_all add: parse_fraction_def fold_invalid fold_s2)

lemma fold_int: "foldl core_state_next CORE_INT t = parse_number t"
  by (induction t) (simp_all add: parse_number_def fold_invalid fold_float)

theorem fold_start: "foldl core_state_next CORE_START t = parse_token t"
proof (cases t)
  case (Cons c u)
  have sign: "is_sign c \<Longrightarrow> \<not> ee_isdigit c" using digit_not_special by (auto simp: is_sign_def)
  have s1: "foldl core_state_next CORE_S1 (d # v) = parse_number (d # v)" for d v
    by (simp add: parse_number_def fold_invalid fold_float fold_int)
  have "foldl core_state_next CORE_START t = foldl core_state_next (core_state_next CORE_START c) u"
    using Cons by simp
  also have "\<dots> = parse_token t"
    using Cons sign s1 by (cases "is_sign c"; cases u)
      (simp_all add: parse_token_def parse_number_def parse_fraction_def fold_int fold_float fold_invalid
        del: foldl_Cons)
  finally show ?thesis .
qed (simp add: parse_token_def)

section \<open>Scanning stays inside the block\<close>

definition token :: "u8 list \<Rightarrow> nat \<Rightarrow> u8 list" where
  "token mem p = takeWhile (\<lambda>c. c \<noteq> 0 \<and> c \<noteq> 0x2C) (drop p mem)"

text \<open>
  Where the scan stops: after the first byte that makes the text read so far invalid, otherwise
  at the NUL or after the comma that ends the token.
\<close>

lemma scan_token_stop:
  fixes state :: core_state
  assumes "0 \<in> set (drop p mem)"
  shows "\<exists>n tc'. scan_token mem p state tc = Some (p + n, foldl core_state_next state (token mem p), tc') \<and>
    (if foldl core_state_next state (token mem p) = CORE_INVALID
     then n \<le> length (token mem p) \<and> foldl core_state_next state (take n (token mem p)) = CORE_INVALID \<and>
       (\<forall>k < n. foldl core_state_next state (take k (token mem p)) \<noteq> CORE_INVALID)
     else n = length (token mem p) + of_bool (mem ! (p + length (token mem p)) = 0x2C)) \<and>
    0 \<in> set (drop (p + n) mem)"
  using assms
proof (induction "length mem - p" arbitrary: p state tc)
  case 0
  then show ?case by simp
next
  case (Suc n)
  then have p: "p < length mem" by (metis drop_all empty_iff empty_set linorder_not_less)
  then have cons: "drop p mem = mem ! p # drop (Suc p) mem" by (simp add: Cons_nth_drop_Suc)
  consider (nul) "mem ! p = 0" | (invalid) "state = CORE_INVALID" | (comma) "mem ! p = 0x2C" "state \<noteq> CORE_INVALID"
    | (next_char) "mem ! p \<noteq> 0" "mem ! p \<noteq> 0x2C" "state \<noteq> CORE_INVALID" by blast
  then show ?case
  proof cases
    case nul
    then show ?thesis using Suc.prems p cons by (intro exI [of _ 0]) (simp add: scan_token.simps token_def)
  next
    case invalid
    then show ?thesis using Suc.prems p by (intro exI [of _ 0]) (simp add: scan_token.simps fold_invalid)
  next
    case comma
    then show ?thesis using Suc.prems p cons by (intro exI [of _ 1]) (simp add: scan_token.simps token_def)
  next
    case next_char
    obtain st tc1 where sw: "core_state_switch state (mem ! p) tc = (st, tc1)" by fastforce
    then have st: "st = core_state_next state (mem ! p)" using fst_switch [of state "mem ! p" tc] by simp
    have t: "token mem p = mem ! p # token mem (Suc p)" using next_char(1,2) cons by (simp add: token_def)
    have "0 \<in> set (drop (Suc p) mem)" using Suc.prems next_char(1) cons by auto
    moreover have n: "n = length mem - Suc p" using Suc.hyps(2) p by arith
    ultimately obtain k tc' where k:
      "scan_token mem (Suc p) st tc1 = Some (Suc p + k, foldl core_state_next st (token mem (Suc p)), tc')"
      "if foldl core_state_next st (token mem (Suc p)) = CORE_INVALID
       then k \<le> length (token mem (Suc p)) \<and> foldl core_state_next st (take k (token mem (Suc p))) = CORE_INVALID \<and>
         (\<forall>i < k. foldl core_state_next st (take i (token mem (Suc p))) \<noteq> CORE_INVALID)
       else k = length (token mem (Suc p)) + of_bool (mem ! (Suc p + length (token mem (Suc p))) = 0x2C)"
      "0 \<in> set (drop (Suc p + k) mem)"
      using Suc.hyps(1) [of "Suc p" st tc1] by blast
    have "scan_token mem p state tc = scan_token mem (Suc p) st tc1"
      using next_char sw p by (subst scan_token.simps) simp
    moreover have "\<forall>i < Suc k. foldl core_state_next state (take i (token mem p)) \<noteq> CORE_INVALID"
      if "\<forall>i < k. foldl core_state_next st (take i (token mem (Suc p))) \<noteq> CORE_INVALID"
    proof (intro allI impI)
      fix i assume "i < Suc k"
      then show "foldl core_state_next state (take i (token mem p)) \<noteq> CORE_INVALID"
        using that next_char(3) by (cases i) (simp_all add: t st del: next_simps)
    qed
    ultimately show ?thesis
      using k by (intro exI [of _ "Suc k"] exI [of _ tc']) (auto simp: t st simp del: next_simps split: if_splits)
  qed
qed

lemma transition_stop:
  assumes "0 \<in> set (drop p mem)"
  shows "\<exists>n tc'. core_state_transition mem p tc = Some (p + n, parse_token (token mem p), tc') \<and>
    (if parse_token (token mem p) = CORE_INVALID
     then n \<le> length (token mem p) \<and> parse_token (take n (token mem p)) = CORE_INVALID \<and>
       (\<forall>k < n. parse_token (take k (token mem p)) \<noteq> CORE_INVALID)
     else n = length (token mem p) + of_bool (mem ! (p + length (token mem p)) = 0x2C)) \<and>
    0 \<in> set (drop (p + n) mem)"
  using scan_token_stop [OF assms, of CORE_START tc] unfolding fold_start by (simp add: core_state_transition_def)

lemma transition_result:
  assumes "0 \<in> set (drop p mem)"
  obtains p' tc' where "core_state_transition mem p tc = Some (p', parse_token (token mem p), tc')"
    "0 \<in> set (drop p' mem)" "mem ! p \<noteq> 0 \<Longrightarrow> p < p'"
proof -
  obtain n tc' where n: "core_state_transition mem p tc = Some (p + n, parse_token (token mem p), tc')"
    "if parse_token (token mem p) = CORE_INVALID then parse_token (take n (token mem p)) = CORE_INVALID
     else n = length (token mem p) + of_bool (mem ! (p + length (token mem p)) = 0x2C)"
    "0 \<in> set (drop (p + n) mem)" using transition_stop [OF assms, of tc] by (auto split: if_splits)
  have "p < p + n" if "mem ! p \<noteq> 0"
  proof -
    have "p < length mem" using assms by (metis drop_all empty_iff empty_set linorder_not_less)
    then have "drop p mem = mem ! p # drop (Suc p) mem" by (simp add: Cons_nth_drop_Suc)
    then have "token mem p \<noteq> [] \<or> mem ! p = 0x2C" using that by (simp add: token_def)
    then show ?thesis using n(2) by (cases n) (auto simp: parse_token_def split: if_splits)
  qed
  from that [OF n(1,3) this] show thesis .
qed

theorem scan_all_returns:
  assumes "0 \<in> set (drop p mem)"
  shows "\<exists>fc' tc'. scan_all mem p fc tc = Some (fc', tc')"
  using assms
proof (induction "length mem - p" arbitrary: p fc tc rule: less_induct)
  case less
  have p: "p < length mem" using less.prems by (metis drop_all empty_iff empty_set linorder_not_less)
  show ?case
  proof (cases "mem ! p = 0")
    case True
    then show ?thesis using p by (subst scan_all.simps) (simp add: get_byte_def)
  next
    case False
    obtain p' tc' where r: "core_state_transition mem p tc = Some (p', parse_token (token mem p), tc')"
      "0 \<in> set (drop p' mem)" "p < p'"
      using transition_result [OF less.prems, of tc] False by metis
    then show ?thesis
      using less.hyps [of p' "count_up (parse_token (token mem p)) fc" tc'] p False
      by (subst scan_all.simps) (simp add: get_byte_def)
  qed
qed

section \<open>The corruption pass\<close>

text \<open>The bytes the pass visits.\<close>

definition corrupted_at :: "int \<Rightarrow> int \<Rightarrow> int \<Rightarrow> nat \<Rightarrow> bool" where
  "corrupted_at p blksize step i \<longleftrightarrow> p \<le> int i \<and> int i < blksize \<and> step dvd (int i - p)"

theorem corrupt_result:
  assumes "0 < step" "0 \<le> p" "blksize \<le> int (length mem)"
  shows "\<exists>mem'. corrupt mem p blksize step seed = Some mem' \<and> length mem' = length mem \<and>
    (\<forall>i. mem' ! i = (if corrupted_at p blksize step i \<and> mem ! i \<noteq> 0x2C then mem ! i XOR seed else mem ! i))"
  using assms
proof (induction "nat (blksize - p)" arbitrary: p mem rule: less_induct)
  case less
  show ?case
  proof (cases "p < blksize")
    case False
    then show ?thesis by (subst corrupt.simps) (auto simp: corrupted_at_def)
  next
    case True
    then have p: "nat p < length mem" using less.prems by linarith
    define mem1 where "mem1 = (if mem ! nat p \<noteq> 0x2C then mem[nat p := mem ! nat p XOR seed] else mem)"
    have eq: "corrupt mem p blksize step seed = corrupt mem1 (p + step) blksize step seed"
      using True less.prems p by (subst corrupt.simps) (simp add: get_byte_def put_byte_def mem1_def)
    have len: "length mem1 = length mem" by (simp add: mem1_def)
    have "nat (blksize - (p + step)) < nat (blksize - p)" "0 \<le> p + step" "blksize \<le> int (length mem1)"
      using less.prems True len by linarith+
    then obtain mem' where m: "corrupt mem1 (p + step) blksize step seed = Some mem'" "length mem' = length mem"
      "\<And>i. mem' ! i = (if corrupted_at (p + step) blksize step i \<and> mem1 ! i \<noteq> 0x2C then mem1 ! i XOR seed else mem1 ! i)"
      using less.hyps [of "p + step" mem1] less.prems(1) len by metis
    have later: "corrupted_at p blksize step i \<longleftrightarrow> i = nat p \<or> corrupted_at (p + step) blksize step i" for i
    proof -
      have "step dvd (int i - p) \<longleftrightarrow> step dvd (int i - (p + step))"
        using dvd_add_triv_right_iff [of step "int i - (p + step)"] by simp
      moreover have "step dvd (int i - p) \<Longrightarrow> p < int i \<Longrightarrow> p + step \<le> int i"
        using zdvd_imp_le [of step "int i - p"] by linarith
      ultimately show ?thesis using less.prems(1,2) True by (auto simp: corrupted_at_def)
    qed
    have "\<not> corrupted_at (p + step) blksize step (nat p)" using less.prems(1,2) by (simp add: corrupted_at_def)
    then have "mem' ! i = (if corrupted_at p blksize step i \<and> mem ! i \<noteq> 0x2C then mem ! i XOR seed else mem ! i)" for i
      unfolding m(3) later using p by (cases "i = nat p") (auto simp: mem1_def)
    then show ?thesis using eq m(1,2) by metis
  qed
qed

lemma xor_left_cancel: "k XOR x = k XOR y \<longleftrightarrow> x = (y :: 'a::len word)"
  by (metis xor_twice)

text \<open>
  The second pass undoes the first exactly when the first turned no byte into a comma.
\<close>

theorem corrupt_twice:
  assumes "0 < step" "blksize \<le> int (length mem)"
  obtains mem1 mem2 where "corrupt mem 0 blksize step seed = Some mem1"
    "corrupt mem1 0 blksize step seed = Some mem2" "length mem1 = length mem"
    "mem2 = mem \<longleftrightarrow> seed = 0 \<or>
       (\<forall>i. corrupted_at 0 blksize step i \<longrightarrow> mem ! i \<noteq> 0x2C \<longrightarrow> mem ! i XOR seed \<noteq> 0x2C)"
proof -
  obtain mem1 where m1: "corrupt mem 0 blksize step seed = Some mem1" "length mem1 = length mem"
    "\<And>i. mem1 ! i = (if corrupted_at 0 blksize step i \<and> mem ! i \<noteq> 0x2C then mem ! i XOR seed else mem ! i)"
    using corrupt_result [of step 0 blksize mem seed] assms by (metis order_refl)
  then obtain mem2 where m2: "corrupt mem1 0 blksize step seed = Some mem2" "length mem2 = length mem"
    "\<And>i. mem2 ! i = (if corrupted_at 0 blksize step i \<and> mem1 ! i \<noteq> 0x2C then mem1 ! i XOR seed else mem1 ! i)"
    using corrupt_result [of step 0 blksize mem1 seed] assms by (metis order_refl)
  have at: "mem2 ! i = mem ! i \<longleftrightarrow>
      seed = 0 \<or> (corrupted_at 0 blksize step i \<longrightarrow> mem ! i \<noteq> 0x2C \<longrightarrow> mem ! i XOR seed \<noteq> 0x2C)" for i
  proof (cases "corrupted_at 0 blksize step i \<and> mem ! i \<noteq> 0x2C")
    case False
    then show ?thesis by (auto simp: m1(3) m2(3))
  next
    case True
    have twice: "(mem ! i XOR seed) XOR seed = mem ! i" by (simp add: xor.assoc)
    have "mem ! i XOR seed = mem ! i \<longleftrightarrow> seed = 0"
      using xor_left_cancel [of "mem ! i" seed 0] by simp
    then show ?thesis using True twice unfolding m2(3) m1(3) by (cases "mem ! i XOR seed = 0x2C") auto
  qed
  have "mem2 = mem \<longleftrightarrow> (\<forall>i < length mem. mem2 ! i = mem ! i)"
    using m2(2) by (metis nth_equalityI)
  also have "\<dots> \<longleftrightarrow> (\<forall>i. mem2 ! i = mem ! i)"
  proof -
    have "mem2 ! i = mem ! i" if "\<not> i < length mem" for i
      using that assms(2) by (simp add: m1(3) m2(3) corrupted_at_def)
    then show ?thesis by blast
  qed
  finally show thesis using that [OF m1(1) m2(1) m1(2)] by (auto simp: at)
qed

lemma corrupt_returns:
  assumes "0 < step" "blksize \<le> int (length mem)"
  shows "\<exists>mem'. corrupt mem 0 blksize step seed = Some mem'"
  using corrupt_result [of step 0 blksize mem seed] assms by blast

text \<open>A pass in steps of at least two bytes leaves one of two adjacent NUL bytes alone.\<close>

lemma corrupt_keeps_nul:
  assumes "2 \<le> step" "blksize \<le> int (length mem)" "corrupt mem 0 blksize step seed = Some mem'"
    and nul: "Suc i < length mem" "mem ! i = 0" "mem ! Suc i = 0"
  shows "0 \<in> set mem' \<and> length mem' = length mem"
proof -
  have m: "length mem' = length mem"
    "mem' ! j = (if corrupted_at 0 blksize step j \<and> mem ! j \<noteq> 0x2C then mem ! j XOR seed else mem ! j)" for j
    using corrupt_result [of step 0 blksize mem seed] assms(1-3) by auto
  have "\<not> (corrupted_at 0 blksize step i \<and> corrupted_at 0 blksize step (Suc i))"
  proof
    assume "corrupted_at 0 blksize step i \<and> corrupted_at 0 blksize step (Suc i)"
    then have "step dvd (int i + 1 - int i)"
      by (intro dvd_diff) (simp_all add: corrupted_at_def add.commute)
    then show False using assms(1) zdvd_imp_le [of step 1] by simp
  qed
  then have "mem' ! i = 0 \<or> mem' ! Suc i = 0" using nul by (auto simp: m(2))
  then show ?thesis using nul(1) m(1) by (metis Suc_lessD nth_mem)
qed

section \<open>The initial block\<close>

lemma put_bytes_result:
  "p + length bs \<le> length mem \<Longrightarrow>
   put_bytes mem p bs = Some (take p mem @ bs @ drop (p + length bs) mem)"
proof (induction bs arbitrary: mem p)
  case (Cons b bs)
  then have "put_bytes (mem[p := b]) (p + 1) bs =
      Some (take (p + 1) (mem[p := b]) @ bs @ drop (p + 1 + length bs) (mem[p := b]))"
    by (intro Cons.IH) simp
  moreover have "take (p + 1) (mem[p := b]) = take p mem @ [b]"
    using Cons.prems by (simp add: take_Suc_conv_app_nth)
  ultimately show ?case using Cons.prems by (simp add: put_byte_def)
qed simp

text \<open>A filled prefix of the block: tokens that end in a comma, from consecutive seeds.\<close>

definition state_tokens :: "u16 \<Rightarrow> nat \<Rightarrow> u8 list" where
  "state_tokens seed n = concat (map (\<lambda>k. state_pattern (seed + of_nat (Suc k)) @ [0x2C]) [0..<n])"

lemma pattern_lengths: "length (state_pattern s) = 4 \<or> length (state_pattern s) = 8"
proof -
  have "drop_bit 3 s AND 3 = drop_bit 3 s mod 4"
    using take_bit_eq_mask [of 2 "drop_bit 3 s"] by (simp add: take_bit_eq_mod mask_eq_exp_minus_1)
  then have "unat (drop_bit 3 s AND 3) < 4" by (simp add: unat_mod)
  then show ?thesis
    by (auto simp: state_pattern_def Let_def intpat_def floatpat_def scipat_def errpat_def ascii_def
        less_Suc_eq numeral_eq_Suc)
qed

lemma state_tokens_Suc:
  "state_tokens seed (Suc n) = state_tokens seed n @ state_pattern (seed + of_nat (Suc n)) @ [0x2C]"
  by (simp add: state_tokens_def)

lemma init_patterns_result:
  assumes "sz < length mem" "sz < 4294967200" "length (state_tokens seed n) \<le> sz"
    "take (length (state_tokens seed n)) mem = state_tokens seed n"
  shows "\<exists>mem' m. init_patterns sz (seed + of_nat (Suc n)) (state_pattern (seed + of_nat (Suc n))) mem
           (length (state_tokens seed n)) = Some (mem', length (state_tokens seed m)) \<and>
     take (length (state_tokens seed m)) mem' = state_tokens seed m \<and> length mem' = length mem \<and>
     drop sz mem' = drop sz mem \<and>
     (m = n \<or> length (state_tokens seed m) < sz) \<and> sz \<le> length (state_tokens seed m) + 9"
  using assms
proof (induction "sz - length (state_tokens seed n)" arbitrary: n mem rule: less_induct)
  case less
  let ?t = "length (state_tokens seed n)" and ?buf = "state_pattern (seed + of_nat (Suc n))"
  have buf: "0 < length ?buf" "length ?buf \<le> 8" using pattern_lengths [of "seed + of_nat (Suc n)"] by auto
  have nowrap: "(?t + length ?buf + 1) mod 2 ^ 32 = ?t + length ?buf + 1"
    using buf less.prems(2,3) by simp
  have len: "length (state_tokens seed (Suc n)) = ?t + length ?buf + 1" by (simp add: state_tokens_Suc)
  show ?case
  proof (cases "?t + length ?buf + 1 < sz")
    case False
    then show ?thesis
      using less.prems buf by (intro exI [of _ mem] exI [of _ n]) (subst init_patterns.simps, simp only: nowrap, simp)
  next
    case True
    define mem1 where "mem1 = take ?t mem @ (?buf @ [0x2C]) @ drop (?t + length ?buf + 1) mem"
    have put: "put_bytes mem ?t ?buf = Some (take ?t mem @ ?buf @ drop (?t + length ?buf) mem)"
      using True less.prems(1) by (intro put_bytes_result) linarith
    have upd: "put_byte (take ?t mem @ ?buf @ drop (?t + length ?buf) mem) (?t + length ?buf) 0x2C = Some mem1"
      using True less.prems(1) unfolding put_byte_def mem1_def
      by (simp add: list_update_append Cons_nth_drop_Suc [symmetric])
    obtain d where d: "sz = ?t + length ?buf + 1 + d" using True by (metis less_imp_add_positive)
    have "drop sz mem1 = drop sz mem"
      using less.prems(1) by (simp add: mem1_def d ac_simps)
    then have mem1: "length mem1 = length mem" "drop sz mem1 = drop sz mem"
      "take (length (state_tokens seed (Suc n))) mem1 = state_tokens seed (Suc n)"
      using True less.prems(1,4) buf by (simp_all add: mem1_def len state_tokens_Suc)
    have s2: "seed + of_nat (Suc n) + 1 = seed + of_nat (Suc (Suc n))" by simp
    have "init_patterns sz (seed + of_nat (Suc n)) ?buf mem ?t =
        init_patterns sz (seed + of_nat (Suc (Suc n))) (state_pattern (seed + of_nat (Suc (Suc n)))) mem1
          (length (state_tokens seed (Suc n)))"
      using True buf(1) by (subst init_patterns.simps)
        (simp only: nowrap put upd len s2 if_True Option.bind.bind_lunit prod.case)
    moreover have "sz - length (state_tokens seed (Suc n)) < sz - ?t" using True len by linarith
    moreover have "\<exists>mem' m. init_patterns sz (seed + of_nat (Suc (Suc n)))
        (state_pattern (seed + of_nat (Suc (Suc n)))) mem1 (length (state_tokens seed (Suc n))) =
          Some (mem', length (state_tokens seed m)) \<and>
        take (length (state_tokens seed m)) mem' = state_tokens seed m \<and> length mem' = length mem1 \<and>
        drop sz mem' = drop sz mem1 \<and>
        (m = Suc n \<or> length (state_tokens seed m) < sz) \<and> sz \<le> length (state_tokens seed m) + 9"
      using True len less.prems(1,2) mem1 by (intro less.hyps) linarith+
    ultimately show ?thesis using True len mem1(1,2) by metis
  qed
qed

theorem core_init_state_result:
  assumes "1 \<le> unat sz" "unat sz \<le> length mem" "unat sz < 4294967200"
  shows "\<exists>n r. core_init_state sz seed mem =
      Some (state_tokens seed n @ replicate r 0 @ drop (unat sz) mem) \<and>
    length (state_tokens seed n) + r = unat sz \<and> min 2 (unat sz) \<le> r \<and> r \<le> 10"
proof -
  have sz1: "unat (sz - 1) = unat sz - 1" using assms(1) by (subst unat_sub) (simp_all add: word_le_nat_alt)
  have "\<exists>mem' m. init_patterns (unat sz - 1) seed [] mem 0 = Some (mem', length (state_tokens seed m)) \<and>
     take (length (state_tokens seed m)) mem' = state_tokens seed m \<and> length mem' = length mem \<and>
     drop (unat sz - 1) mem' = drop (unat sz - 1) mem \<and>
     (m = 0 \<or> length (state_tokens seed m) < unat sz - 1) \<and> unat sz - 1 \<le> length (state_tokens seed m) + 9"
  proof (cases "1 < unat sz - 1")
    case False
    then show ?thesis
      by (intro exI [of _ mem] exI [of _ 0]) (subst init_patterns.simps, simp add: state_tokens_def)
  next
    case True
    have "init_patterns (unat sz - 1) seed [] mem 0 =
        init_patterns (unat sz - 1) (seed + 1) (state_pattern (seed + 1)) mem 0"
      using True by (subst init_patterns.simps) simp
    then show ?thesis
      using init_patterns_result [of "unat sz - 1" mem seed 0] assms by (simp add: state_tokens_def)
  qed
  then obtain mem' m where m: "init_patterns (unat sz - 1) seed [] mem 0 = Some (mem', length (state_tokens seed m))"
    "take (length (state_tokens seed m)) mem' = state_tokens seed m" "length mem' = length mem"
    "drop (unat sz - 1) mem' = drop (unat sz - 1) mem"
    "m = 0 \<or> length (state_tokens seed m) < unat sz - 1" "unat sz - 1 \<le> length (state_tokens seed m) + 9"
    by blast
  let ?t = "length (state_tokens seed m)"
  have t: "?t < unat sz" using m(5) assms(1) by (auto simp: state_tokens_def)
  have "drop (unat sz) mem' = drop (unat sz) mem"
    using arg_cong [OF m(4), of "drop 1"] assms(1) by simp
  moreover have "put_bytes mem' ?t (replicate (unat sz - ?t) 0) =
      Some (take ?t mem' @ replicate (unat sz - ?t) 0 @ drop (unat sz) mem')"
    using put_bytes_result [of ?t "replicate (unat sz - ?t) 0" mem'] t m(3) assms(2) by simp
  ultimately have "core_init_state sz seed mem =
      Some (state_tokens seed m @ replicate (unat sz - ?t) 0 @ drop (unat sz) mem)"
    by (simp add: core_init_state_def sz1 m(1,2) del: One_nat_def)
  moreover have "min 2 (unat sz) \<le> unat sz - ?t" using m(5) by (auto simp: state_tokens_def)
  ultimately show ?thesis using t m(6)
    by (intro exI [of _ m] exI [of _ "unat sz - ?t"]) auto
qed

text \<open>The kernel on the block that was made for it: every loop returns inside the block.\<close>

theorem core_bench_state_safe:
  assumes init: "core_init_state sz seed block = Some mem"
    and sz: "2 \<le> unat sz" "unat sz \<le> length block" "unat sz < 4294967200" and step: "2 \<le> sint step"
  shows "\<exists>crc' mem'. core_bench_state sz mem seed1 seed2 step crc = Some (crc', mem')"
proof -
  have "1 \<le> unat sz" using sz(1) by simp
  from core_init_state_result [OF this sz(2,3), of seed]
  obtain n r where eq: "core_init_state sz seed block =
      Some (state_tokens seed n @ replicate r 0 @ drop (unat sz) block)"
    and r: "length (state_tokens seed n) + r = unat sz" "2 \<le> r" using sz(1) by auto
  have mem: "mem = state_tokens seed n @ replicate r 0 @ drop (unat sz) block" using init eq by simp
  let ?t = "length (state_tokens seed n)"
  have "unat sz \<le> length mem" using r(1) by (simp add: mem)
  then have len: "uint sz \<le> int (length mem)" by (simp only: uint_nat of_nat_le_iff)
  have nul: "Suc ?t < length mem" "mem ! ?t = 0" "mem ! Suc ?t = 0"
    using r(2) by (simp_all add: mem nth_append)
  then have z: "0 \<in> set (drop 0 mem)" using nth_mem [of ?t mem] by simp
  obtain fc tc where s1: "scan_all mem 0 (\<lambda>_. 0) (\<lambda>_. 0) = Some (fc, tc)"
    using scan_all_returns [OF z] by blast
  obtain mem1 where c1: "corrupt mem 0 (uint sz) (sint step) (ucast seed1) = Some mem1"
    using corrupt_returns [of "sint step" "uint sz" mem "ucast seed1"] step len by auto
  then have m1: "0 \<in> set mem1" "length mem1 = length mem"
    using corrupt_keeps_nul [OF step len c1 nul] by auto
  obtain fc2 tc2 where s2: "scan_all mem1 0 fc tc = Some (fc2, tc2)"
    using scan_all_returns [of 0 mem1 fc tc] m1(1) by auto
  obtain mem2 where "corrupt mem1 0 (uint sz) (sint step) (ucast seed2) = Some mem2"
    using corrupt_returns [of "sint step" "uint sz" mem1 "ucast seed2"] step len m1(2) by auto
  then show ?thesis using s1 c1 s2 by (simp add: core_bench_state_def)
qed

end
