(* ===== verification/CM_Matrix.thy ===== *)
theory CM_Matrix
  imports CM_Util "HOL-Library.Signed_Division" "HOL-Library.Monad_Syntax"
begin

text \<open>
  CoreMark's matrix kernel (\<open>core_matrix.c\<close>).  A matrix is a list of its \<open>N * N\<close> elements in
  row order, 16-bit elements in the operands and 32-bit elements in the result, all read as
  signed numbers; a \<open>for\<close> loop is \<open>for_loop\<close>.  The theory gives the elements every operation
  computes, shows that the kernel leaves its operands as it found them, and bounds the
  matrices \<open>core_init_matrix\<close> lays out in the memory block.
\<close>

section \<open>Loops over indices\<close>

definition for_loop :: "nat \<Rightarrow> (nat \<Rightarrow> 's \<Rightarrow> 's) \<Rightarrow> 's \<Rightarrow> 's" where
  "for_loop n body s = foldl (\<lambda>s i. body i s) s [0..<n]"

lemma for_loop_simps [simp]:
  "for_loop 0 body s = s" "for_loop (Suc n) body s = body n (for_loop n body s)"
  by (simp_all add: for_loop_def)

lemma for_loop_invariant:
  assumes "P 0 s" "\<And>i s. i < n \<Longrightarrow> P i s \<Longrightarrow> P (Suc i) (body i s)"
  shows "P n (for_loop n body s)"
  using assms by (induction n arbitrary: P) (simp_all, metis less_Suc_eq)

section \<open>The code\<close>

type_synonym MATDAT = u16
type_synonym MATRES = u32

record mat_params =
  matN :: nat
  matA :: "MATDAT list"
  matB :: "MATDAT list"
  matC :: "MATRES list"

definition matrix_clip :: "u16 \<Rightarrow> bool \<Rightarrow> u16" where
  "matrix_clip x y = (if y then x AND 0xFF else x AND 0xFFFF)"

definition matrix_big :: "u16 \<Rightarrow> u16" where
  "matrix_big x = 0xF000 OR x"

definition bit_extract :: "u32 \<Rightarrow> nat \<Rightarrow> nat \<Rightarrow> u32" where
  "bit_extract x from to = signed_drop_bit from x AND NOT (push_bit to 0xFFFFFFFF)"

definition matrix_add_const :: "nat \<Rightarrow> MATDAT list \<Rightarrow> MATDAT \<Rightarrow> MATDAT list" where
  "matrix_add_const N A val =
     for_loop N (\<lambda>i. for_loop N (\<lambda>j A. A[i * N + j := A ! (i * N + j) + val])) A"

definition matrix_mul_const :: "nat \<Rightarrow> MATRES list \<Rightarrow> MATDAT list \<Rightarrow> MATDAT \<Rightarrow> MATRES list" where
  "matrix_mul_const N C A val =
     for_loop N (\<lambda>i. for_loop N (\<lambda>j C. C[i * N + j := scast (A ! (i * N + j)) * scast val])) C"

definition matrix_mul_vect :: "nat \<Rightarrow> MATRES list \<Rightarrow> MATDAT list \<Rightarrow> MATDAT list \<Rightarrow> MATRES list" where
  "matrix_mul_vect N C A B =
     for_loop N (\<lambda>i C.
       for_loop N (\<lambda>j C. C[i := C ! i + scast (A ! (i * N + j)) * scast (B ! j)]) (C[i := 0])) C"

definition matrix_mul_matrix :: "nat \<Rightarrow> MATRES list \<Rightarrow> MATDAT list \<Rightarrow> MATDAT list \<Rightarrow> MATRES list" where
  "matrix_mul_matrix N C A B =
     for_loop N (\<lambda>i. for_loop N (\<lambda>j C.
       for_loop N (\<lambda>k C.
         C[i * N + j := C ! (i * N + j) + scast (A ! (i * N + k)) * scast (B ! (k * N + j))])
         (C[i * N + j := 0]))) C"

definition matrix_mul_matrix_bitextract ::
  "nat \<Rightarrow> MATRES list \<Rightarrow> MATDAT list \<Rightarrow> MATDAT list \<Rightarrow> MATRES list" where
  "matrix_mul_matrix_bitextract N C A B =
     for_loop N (\<lambda>i. for_loop N (\<lambda>j C.
       for_loop N (\<lambda>k C.
         let tmp = scast (A ! (i * N + k)) * scast (B ! (k * N + j))
         in C[i * N + j := C ! (i * N + j) + bit_extract tmp 2 4 * bit_extract tmp 5 7])
         (C[i * N + j := 0]))) C"

text \<open>The accumulator, the previous element and the result of \<open>matrix_sum\<close>.\<close>

definition matrix_sum :: "nat \<Rightarrow> MATRES list \<Rightarrow> MATDAT \<Rightarrow> u16" where
  "matrix_sum N C clipval =
     (let (tmp, prev, ret) =
        for_loop N (\<lambda>i. for_loop N (\<lambda>j (tmp, prev, ret).
          let cur = C ! (i * N + j); tmp = tmp + cur
          in if sint clipval < sint tmp then (0, cur, ret + 10)
             else (tmp, cur, ret + (if sint prev < sint cur then 1 else 0)))) (0, 0, 0)
      in ret)"

definition matrix_test ::
  "nat \<Rightarrow> MATRES list \<Rightarrow> MATDAT list \<Rightarrow> MATDAT list \<Rightarrow> MATDAT \<Rightarrow> u16 \<times> MATRES list \<times> MATDAT list" where
  "matrix_test N C A B val =
     (let crc = 0; clipval = matrix_big val;
          A = matrix_add_const N A val;
          C = matrix_mul_const N C A val;
          crc = crc16 (matrix_sum N C clipval) crc;
          C = matrix_mul_vect N C A B;
          crc = crc16 (matrix_sum N C clipval) crc;
          C = matrix_mul_matrix N C A B;
          crc = crc16 (matrix_sum N C clipval) crc;
          C = matrix_mul_matrix_bitextract N C A B;
          crc = crc16 (matrix_sum N C clipval) crc;
          A = matrix_add_const N A (- val)
      in (crc, C, A))"

definition core_bench_matrix :: "mat_params \<Rightarrow> u16 \<Rightarrow> u16 \<Rightarrow> u16 \<times> mat_params" where
  "core_bench_matrix p seed crc =
     (let (t, C, A) = matrix_test (matN p) (matC p) (matA p) (matB p) seed
      in (crc16 t crc, p\<lparr>matC := C, matA := A\<rparr>))"

text \<open>The dimension: the search for the first \<open>i\<close> whose three matrices do not fit.\<close>

partial_function (option) matrix_dim :: "u32 \<Rightarrow> u32 \<Rightarrow> u32 \<Rightarrow> u32 option" where
  "matrix_dim blksize i j =
     (if j < blksize then let i = i + 1; j = i * i * 2 * 4 in matrix_dim blksize i j
      else Some (i - 1))"

declare matrix_dim.simps [code]

text \<open>The element loop of \<open>core_init_matrix\<close>, with the 32-bit variables \<open>seed\<close> and \<open>order\<close>.\<close>

definition matrix_fill ::
  "nat \<Rightarrow> u32 \<Rightarrow> MATDAT list \<Rightarrow> MATDAT list \<Rightarrow> u32 \<times> u32 \<times> MATDAT list \<times> MATDAT list" where
  "matrix_fill N seed A B =
     for_loop N (\<lambda>i. for_loop N (\<lambda>j (seed, order, A, B).
       let seed = word_of_int (sint (order * seed) smod 65536);
           val = matrix_clip (ucast (seed + order)) False;
           B = B[i * N + j := val];
           val = matrix_clip (ucast (scast val + order)) True;
           A = A[i * N + j := val]
       in (seed, order + 1, A, B))) (seed, 1, A, B)"

definition align_mem :: "nat \<Rightarrow> nat" where
  "align_mem x = (x + 4 - 1) div 4 * 4"

text \<open>The addresses of the three matrices in the block at \<open>memblk\<close>, and the end of the last.\<close>

definition matrix_layout :: "nat \<Rightarrow> nat \<Rightarrow> nat \<times> nat \<times> nat \<times> nat" where
  "matrix_layout memblk N =
     (let A = align_mem memblk; B = A + 2 * (N * N); C = align_mem (B + 2 * (N * N))
      in (A, B, C, C + 4 * (N * N)))"

text \<open>The old contents of the block are the first elements of \<open>A\<close>, \<open>B\<close> and \<open>C\<close>.\<close>

definition core_init_matrix ::
  "u32 \<Rightarrow> u32 \<Rightarrow> MATDAT list \<Rightarrow> MATDAT list \<Rightarrow> MATRES list \<Rightarrow> mat_params option" where
  "core_init_matrix blksize seed A B C =
     do {
       let seed = (if seed = 0 then 1 else seed);
       n \<leftarrow> matrix_dim blksize 0 0;
       let N = unat n;
       let (_, _, A, B) = matrix_fill N seed (take (N * N) A) (take (N * N) B);
       Some \<lparr>matN = N, matA = A, matB = B, matC = take (N * N) C\<rparr>
     }"

lemma lessThan_2: "{..<2} = {0, 1 :: nat}" by auto

section \<open>What the operations compute\<close>

text \<open>
  Two nested loops that replace each element by a function of its place and its old value.
\<close>

definition elementwise :: "nat \<Rightarrow> (nat \<Rightarrow> nat \<Rightarrow> 'a \<Rightarrow> 'a) \<Rightarrow> 'a list \<Rightarrow> 'a list \<Rightarrow> bool" where
  "elementwise N f C C' \<longleftrightarrow> length C' = length C \<and>
     (\<forall>p. C' ! p = (if p < N * N then f (p div N) (p mod N) (C ! p) else C ! p))"

lemma elementwise_row:
  assumes i: "i < N" and len: "N * N \<le> length C"
    and body: "\<And>j C. j < N \<Longrightarrow> N * N \<le> length C \<Longrightarrow> body j C = C[i * N + j := f j (C ! (i * N + j))]"
  shows "length (for_loop N body C) = length C \<and>
    (\<forall>p. for_loop N body C ! p = (if i * N \<le> p \<and> p < i * N + N then f (p - i * N) (C ! p) else C ! p))"
proof -
  have row: "i * N + j < length C" if "j < N" for j
    using mult_le_mono1 [of "Suc i" N N] i that len by simp
  have "length (for_loop N body C) = length C \<and>
    (\<forall>p. for_loop N body C ! p = (if i * N \<le> p \<and> p < i * N + N then f (p - i * N) (C ! p) else C ! p))"
    by (rule for_loop_invariant [where P = "\<lambda>j C'. length C' = length C \<and>
          (\<forall>p. C' ! p = (if i * N \<le> p \<and> p < i * N + j then f (p - i * N) (C ! p) else C ! p))"])
      (use body len row in \<open>auto simp: nth_list_update less_Suc_eq dest: order.strict_trans2\<close>)
  then show ?thesis .
qed

lemma elementwise_loop:
  assumes len: "N * N \<le> length C"
    and body: "\<And>i j C. i < N \<Longrightarrow> j < N \<Longrightarrow> N * N \<le> length C \<Longrightarrow>
      body i j C = C[i * N + j := f i j (C ! (i * N + j))]"
  shows "elementwise N f C (for_loop N (\<lambda>i. for_loop N (body i)) C)"
proof -
  define row where "row i = for_loop N (body i)" for i
  define P where "P i C' \<longleftrightarrow> length C' = length C \<and>
    (\<forall>p. C' ! p = (if p < i * N then f (p div N) (p mod N) (C ! p) else C ! p))" for i C'
  have "P N (for_loop N row C)"
  proof (rule for_loop_invariant)
    show "P 0 C" by (simp add: P_def)
    show "P (Suc i) (row i C')" if i: "i < N" and P: "P i C'" for i C'
    proof -
      have r: "length (row i C') = length C'"
        "row i C' ! p = (if i * N \<le> p \<and> p < i * N + N then f i (p - i * N) (C' ! p) else C' ! p)" for p
        using elementwise_row [of i N C' "body i" "f i"] i P body len by (auto simp: row_def P_def)
      have "row i C' ! p = (if p < Suc i * N then f (p div N) (p mod N) (C ! p) else C ! p)" for p
      proof (cases "i * N \<le> p \<and> p < i * N + N")
        case True
        then obtain j where j: "p = i * N + j" "j < N" by (metis add_less_cancel_left le_iff_add)
        then have "p div N = i" "p mod N = j" by simp_all
        then show ?thesis using P j by (simp add: r(2) P_def)
      next
        case False
        then show ?thesis using P by (auto simp: r(2) P_def)
      qed
      then show ?thesis using r(1) P by (simp add: P_def)
    qed
  qed
  moreover have "row = (\<lambda>i. for_loop N (body i))" by (simp add: row_def fun_eq_iff)
  ultimately show ?thesis by (simp add: P_def elementwise_def)
qed

lemma elementwise_nth:
  "elementwise N f C C' \<Longrightarrow> i < N \<Longrightarrow> j < N \<Longrightarrow> C' ! (i * N + j) = f i j (C ! (i * N + j))"
proof -
  assume e: "elementwise N f C C'" and ij: "i < N" "j < N"
  have "i * N + j < N * N" using mult_le_mono1 [of "Suc i" N N] ij by simp
  moreover have "(i * N + j) div N = i" "(i * N + j) mod N = j" using ij by simp_all
  ultimately show ?thesis using e by (simp add: elementwise_def)
qed

lemma elementwise_unique: "elementwise N f C C' \<Longrightarrow> elementwise N f C C'' \<Longrightarrow> C' = C''"
  by (simp add: elementwise_def list_eq_iff_nth_eq)

text \<open>The innermost loop adds up products in one element of the result.\<close>

lemma accumulate:
  "p < length C \<Longrightarrow> for_loop n (\<lambda>k C. C[p := C ! p + g k]) (C[p := 0]) = C[p := (\<Sum>k<n. g k)]"
  for C :: "'a::comm_monoid_add list"
  by (induction n) simp_all

text \<open>Signed reading of an operand element in 32 bits, and the product of two elements.\<close>

definition mat_mult :: "MATDAT \<Rightarrow> MATDAT \<Rightarrow> MATRES" where
  "mat_mult a b = scast a * scast b"

theorem add_const_elements:
  "N * N \<le> length A \<Longrightarrow> elementwise N (\<lambda>i j a. a + val) A (matrix_add_const N A val)"
  unfolding matrix_add_const_def by (rule elementwise_loop) simp_all

theorem mul_const_elements:
  "N * N \<le> length C \<Longrightarrow>
   elementwise N (\<lambda>i j c. mat_mult (A ! (i * N + j)) val) C (matrix_mul_const N C A val)"
  unfolding matrix_mul_const_def by (rule elementwise_loop) (simp_all add: mat_mult_def)

theorem mul_matrix_elements:
  "N * N \<le> length C \<Longrightarrow>
   elementwise N (\<lambda>i j c. \<Sum>k<N. mat_mult (A ! (i * N + k)) (B ! (k * N + j))) C (matrix_mul_matrix N C A B)"
  unfolding matrix_mul_matrix_def mat_mult_def [symmetric]
proof (rule elementwise_loop)
  fix i j and C :: "MATRES list"
  assume "i < N" "j < N" "N * N \<le> length C"
  then have "i * N + j < length C" using mult_le_mono1 [of "Suc i" N N] by simp
  then show "for_loop N (\<lambda>k C. C[i * N + j := C ! (i * N + j) + mat_mult (A ! (i * N + k)) (B ! (k * N + j))])
      (C[i * N + j := 0]) = C[i * N + j := \<Sum>k<N. mat_mult (A ! (i * N + k)) (B ! (k * N + j))]"
    by (rule accumulate)
qed

definition bit_mult :: "MATDAT \<Rightarrow> MATDAT \<Rightarrow> MATRES" where
  "bit_mult a b = bit_extract (mat_mult a b) 2 4 * bit_extract (mat_mult a b) 5 7"

theorem mul_bitextract_elements:
  "N * N \<le> length C \<Longrightarrow>
   elementwise N (\<lambda>i j c. \<Sum>k<N. bit_mult (A ! (i * N + k)) (B ! (k * N + j))) C
     (matrix_mul_matrix_bitextract N C A B)"
  unfolding matrix_mul_matrix_bitextract_def Let_def mat_mult_def [symmetric] bit_mult_def [symmetric]
proof (rule elementwise_loop)
  fix i j and C :: "MATRES list"
  assume "i < N" "j < N" "N * N \<le> length C"
  then have "i * N + j < length C" using mult_le_mono1 [of "Suc i" N N] by simp
  then show "for_loop N (\<lambda>k C. C[i * N + j := C ! (i * N + j) + bit_mult (A ! (i * N + k)) (B ! (k * N + j))])
      (C[i * N + j := 0]) = C[i * N + j := \<Sum>k<N. bit_mult (A ! (i * N + k)) (B ! (k * N + j))]"
    by (rule accumulate)
qed

theorem mul_vect_elements:
  assumes "N \<le> length C"
  shows "length (matrix_mul_vect N C A B) = length C"
    and "matrix_mul_vect N C A B ! p =
      (if p < N then \<Sum>j<N. mat_mult (A ! (p * N + j)) (B ! j) else C ! p)"
proof -
  have "length (matrix_mul_vect N C A B) = length C \<and> (\<forall>p. matrix_mul_vect N C A B ! p =
      (if p < N then \<Sum>j<N. mat_mult (A ! (p * N + j)) (B ! j) else C ! p))"
    unfolding matrix_mul_vect_def mat_mult_def [symmetric]
    by (rule for_loop_invariant [where P = "\<lambda>i C'. length C' = length C \<and> (\<forall>p. C' ! p =
          (if p < i then \<Sum>j<N. mat_mult (A ! (p * N + j)) (B ! j) else C ! p))"])
      (use assms in \<open>auto simp: accumulate nth_list_update less_Suc_eq\<close>)
  then show "length (matrix_mul_vect N C A B) = length C"
    "matrix_mul_vect N C A B ! p =
      (if p < N then \<Sum>j<N. mat_mult (A ! (p * N + j)) (B ! j) else C ! p)" by blast+
qed

section \<open>The kernel\<close>

definition wf_mat :: "mat_params \<Rightarrow> bool" where
  "wf_mat p \<longleftrightarrow> length (matA p) = matN p * matN p \<and> length (matB p) = matN p * matN p \<and>
     length (matC p) = matN p * matN p"

text \<open>Adding a constant and then its negation gives the matrix back.\<close>

theorem add_const_undo:
  assumes "N * N \<le> length A"
  shows "matrix_add_const N (matrix_add_const N A val) (- val) = A"
proof -
  note e = add_const_elements [OF assms, of val]
  then have "length (matrix_add_const N A val) = length A" by (simp add: elementwise_def)
  then have "elementwise N (\<lambda>i j a. a + - val) (matrix_add_const N A val)
      (matrix_add_const N (matrix_add_const N A val) (- val))"
    using assms by (intro add_const_elements) simp
  then show ?thesis using e by (simp add: elementwise_def list_eq_iff_nth_eq)
qed

text \<open>The old result matrix is overwritten before it is read.\<close>

lemma mul_const_overwrites:
  assumes "length C = N * N" "length D = N * N"
  shows "matrix_mul_const N C A val = matrix_mul_const N D A val"
  using mul_const_elements [of N C A val] mul_const_elements [of N D A val] assms
  by (simp add: elementwise_def list_eq_iff_nth_eq)

theorem matrix_test_result:
  assumes "length A = N * N" "length C = N * N"
  obtains crc C' where "matrix_test N C A B val = (crc, C', A)" "length C' = N * N"
    "\<And>D. length D = N * N \<Longrightarrow> matrix_test N D A B val = (crc, C', A)"
proof -
  define A1 where "A1 = matrix_add_const N A val"
  define C1 where "C1 = matrix_mul_const N C A1 val"
  define C2 where "C2 = matrix_mul_vect N C1 A1 B"
  define C3 where "C3 = matrix_mul_matrix N C2 A1 B"
  define C4 where "C4 = matrix_mul_matrix_bitextract N C3 A1 B"
  have "N \<le> N * N" by (cases N) simp_all
  have l1: "length C1 = N * N"
    using mul_const_elements [of N C A1 val] assms by (simp add: C1_def elementwise_def)
  have l2: "length C2 = N * N" using mul_vect_elements(1) [of N C1 A1 B] l1 \<open>N \<le> N * N\<close> by (simp add: C2_def)
  have l3: "length C3 = N * N"
    using mul_matrix_elements [of N C2 A1 B] l2 by (simp add: C3_def elementwise_def)
  have l4: "length C4 = N * N"
    using mul_bitextract_elements [of N C3 A1 B] l3 by (simp add: C4_def elementwise_def)
  have undo: "matrix_add_const N A1 (- val) = A" using add_const_undo [of N A val] assms by (simp add: A1_def)
  define crc where "crc = fst (matrix_test N C A B val)"
  have D: "matrix_test N D A B val = (crc, C4, A)" if "length D = N * N" for D
    using mul_const_overwrites [OF that assms(2), of A1 val] undo
    by (simp add: matrix_test_def crc_def Let_def A1_def [symmetric] C1_def [symmetric] C2_def [symmetric]
        C3_def [symmetric] C4_def [symmetric])
  show thesis using that [OF D [OF assms(2)] l4 D] by blast
qed

section \<open>The initial matrices\<close>

lemma unat_small: "n < 4294967296 \<Longrightarrow> unat (of_nat n :: u32) = n"
  by (simp add: unsigned_of_nat take_bit_nat_eq_self)

lemma matrix_dim_search:
  assumes "1 \<le> k" "k \<le> 16384" "8 * ((k - 1) * (k - 1)) < unat blksize" "unat blksize \<le> 2147483648"
  shows "\<exists>n. matrix_dim blksize (of_nat k) (of_nat (8 * (k * k))) = Some (of_nat n) \<and> n < 16384 \<and>
     8 * (n * n) < unat blksize \<and> unat blksize \<le> 8 * (Suc n * Suc n)"
  using assms
proof (induction "16384 - k" arbitrary: k)
  case (0 k)
  then have k: "k = 16384" by simp
  have "\<not> of_nat (8 * (k * k)) < blksize" using 0 by (simp add: k word_less_nat_alt)
  then show ?case using 0 by (subst matrix_dim.simps) (simp add: k exI [of _ 16383])
next
  case (Suc d)
  have "k * k \<le> 16384 * 16384" using Suc.prems(2) by (intro mult_le_mono) simp_all
  then have u: "unat (of_nat (8 * (k * k)) :: u32) = 8 * (k * k)" by (intro unat_small) simp
  show ?case
  proof (cases "of_nat (8 * (k * k)) < blksize")
    case True
    then have "8 * ((Suc k - 1) * (Suc k - 1)) < unat blksize" using u by (simp add: word_less_nat_alt)
    then have "\<exists>n. matrix_dim blksize (of_nat (Suc k)) (of_nat (8 * (Suc k * Suc k))) = Some (of_nat n) \<and>
        n < 16384 \<and> 8 * (n * n) < unat blksize \<and> unat blksize \<le> 8 * (Suc n * Suc n)"
      using Suc.hyps(2) Suc.prems(4) by (intro Suc.hyps(1)) simp_all
    moreover have "matrix_dim blksize (of_nat k) (of_nat (8 * (k * k))) =
        matrix_dim blksize (of_nat (Suc k)) (of_nat (8 * (Suc k * Suc k)))"
      using True by (subst matrix_dim.simps) (simp add: algebra_simps)
    ultimately show ?thesis by simp
  next
    case False
    then have "unat blksize \<le> 8 * (k * k)" using u by (simp add: word_less_nat_alt)
    moreover have "matrix_dim blksize (of_nat k) (of_nat (8 * (k * k))) = Some (of_nat (k - 1))"
      using False Suc.prems(1) by (subst matrix_dim.simps) (simp add: of_nat_diff)
    ultimately show ?thesis using Suc.prems by (intro exI [of _ "k - 1"]) auto
  qed
qed

theorem matrix_dim_result:
  assumes "1 \<le> unat blksize" "unat blksize \<le> 2147483648"
  obtains n where "matrix_dim blksize 0 0 = Some n" "8 * (unat n * unat n) < unat blksize"
    "unat blksize \<le> 8 * (Suc (unat n) * Suc (unat n))"
proof -
  have "0 < blksize" using assms(1) by (simp add: word_less_nat_alt)
  then have "matrix_dim blksize 0 0 = matrix_dim blksize (of_nat 1) (of_nat (8 * (1 * 1)))"
    by (subst matrix_dim.simps) simp
  moreover obtain n where "matrix_dim blksize (of_nat 1) (of_nat (8 * (1 * 1))) = Some (of_nat n)"
    "n < 16384" "8 * (n * n) < unat blksize" "unat blksize \<le> 8 * (Suc n * Suc n)"
    using matrix_dim_search [of 1 blksize] assms by auto
  ultimately show thesis using that [of "of_nat n"] by (simp add: unat_small)
qed

text \<open>The element loop keeps the lengths and writes bytes to the first matrix.\<close>

lemma matrix_fill_result:
  assumes "length A = N * N" "length B = N * N"
  obtains seed' order' A' B' where "matrix_fill N seed A B = (seed', order', A', B')"
    "length A' = N * N" "length B' = N * N" "\<And>a. a \<in> set A' \<Longrightarrow> uint a < 256"
proof -
  define P where "P n s \<longleftrightarrow> (case s of (_, _, A', B') \<Rightarrow> length A' = N * N \<and> length B' = N * N \<and>
     (\<forall>p < n. p < N * N \<longrightarrow> uint (A' ! p) < 256))" for n :: nat and s :: "u32 \<times> u32 \<times> MATDAT list \<times> MATDAT list"
  have clip: "uint (matrix_clip x True) < 256" for x
    using uint_and_mask [of x 8] by (simp add: matrix_clip_def mask_eq_exp_minus_1)
  have "P (N * N) (matrix_fill N seed A B)"
    unfolding matrix_fill_def
  proof (rule for_loop_invariant [where P = "\<lambda>i. P (i * N)"], goal_cases)
    case 1
    then show ?case using assms by (simp add: P_def)
  next
    case (2 i s)
    have "P (i * N + N) (for_loop N (\<lambda>j (seed, order, A, B).
       let seed = word_of_int (sint (order * seed) smod 65536);
           val = matrix_clip (ucast (seed + order)) False;
           B = B[i * N + j := val];
           val = matrix_clip (ucast (scast val + order)) True;
           A = A[i * N + j := val]
       in (seed, order + 1, A, B)) s)"
    proof (rule for_loop_invariant [where P = "\<lambda>j. P (i * N + j)"], goal_cases)
      case (2 j t)
      then show ?case
        by (auto simp: P_def Let_def nth_list_update clip less_Suc_eq split: prod.splits)
    qed (use 2 in simp)
    then show ?case by (simp add: add.commute)
  qed
  then show thesis using that by (auto simp: P_def in_set_conv_nth split: prod.splits)
qed

theorem core_init_matrix_result:
  assumes "1 \<le> unat blksize" "unat blksize \<le> 2147483648"
    and len: "unat blksize \<le> length A" "unat blksize \<le> length B" "unat blksize \<le> length C"
  obtains p where "core_init_matrix blksize seed A B C = Some p" "wf_mat p"
    "8 * (matN p * matN p) < unat blksize" "unat blksize \<le> 8 * (Suc (matN p) * Suc (matN p))"
    "\<And>a. a \<in> set (matA p) \<Longrightarrow> uint a < 256"
proof -
  obtain n where n: "matrix_dim blksize 0 0 = Some n" "8 * (unat n * unat n) < unat blksize"
    "unat blksize \<le> 8 * (Suc (unat n) * Suc (unat n))"
    using matrix_dim_result [OF assms(1,2)] by blast
  let ?N = "unat n"
  have l: "length (take (?N * ?N) A) = ?N * ?N" "length (take (?N * ?N) B) = ?N * ?N"
    "length (take (?N * ?N) C) = ?N * ?N" using n(2) len by simp_all
  obtain s' o' A' B' where f: "matrix_fill ?N (if seed = 0 then 1 else seed) (take (?N * ?N) A) (take (?N * ?N) B) = (s', o', A', B')"
    "length A' = ?N * ?N" "length B' = ?N * ?N" "\<And>a. a \<in> set A' \<Longrightarrow> uint a < 256"
    using matrix_fill_result [OF l(1,2)] by metis
  show thesis
    by (rule that [of "\<lparr>matN = ?N, matA = A', matB = B', matC = take (?N * ?N) C\<rparr>"])
      (use n f l(3) in \<open>simp_all add: core_init_matrix_def wf_mat_def Let_def\<close>)
qed

text \<open>
  The matrices do not overlap and stay inside a block that starts at a multiple of four;
  the padding in front of \<open>A\<close> is not part of the size estimate.
\<close>

theorem matrix_layout_disjoint:
  assumes "matrix_layout memblk N = (a, b, c, e)"
  shows "memblk \<le> a" "a + 2 * (N * N) = b" "b + 2 * (N * N) = c" "c + 4 * (N * N) = e"
    "a mod 4 = 0" "c mod 4 = 0" "e \<le> memblk + 8 * (N * N) + 3"
    "memblk mod 4 = 0 \<Longrightarrow> e = memblk + 8 * (N * N)"
proof -
  have c: "align_mem (align_mem memblk + 4 * (N * N)) = align_mem memblk + 4 * (N * N)"
    unfolding align_mem_def by presburger
  have a: "memblk \<le> align_mem memblk" "align_mem memblk \<le> memblk + 3" "align_mem memblk mod 4 = 0"
    unfolding align_mem_def by presburger+
  have eq: "a = align_mem memblk" "b = a + 2 * (N * N)" "c = align_mem (b + 2 * (N * N))" "e = c + 4 * (N * N)"
    using assms by (auto simp only: matrix_layout_def Let_def prod.inject)
  have "c = a + 4 * (N * N)" using c by (simp add: eq(1-3) add.commute)
  then show "memblk \<le> a" "a + 2 * (N * N) = b" "b + 2 * (N * N) = c" "c + 4 * (N * N) = e"
    "a mod 4 = 0" "c mod 4 = 0" "e \<le> memblk + 8 * (N * N) + 3"
    using a eq by (simp_all add: mod_add_eq [symmetric])
  show "e = memblk + 8 * (N * N)" if "memblk mod 4 = 0"
  proof -
    have "align_mem memblk = memblk" using that unfolding align_mem_def by presburger
    then show ?thesis using eq \<open>c = a + 4 * (N * N)\<close> by simp
  qed
qed

end
