(* ===== verification/CM_List.thy ===== *)
theory CM_List
  imports Prelude "HOL-Library.Monad_Syntax" "HOL-Library.Multiset"
begin

text \<open>
  CoreMark's linked list (\<open>core_list_join.c\<close>): the list cells live in an array and are linked
  by index, each cell points to a data item in a second array.  \<open>NULL\<close> is \<open>None\<close>; following it,
  an overflow of a signed counter or a loop that does not end makes the computation \<open>None\<close>.
  The theory proves the operations against the sequence of cells a list pointer stands for, and
  the in-place merge sort once and for all for a comparison with the contract
  \<open>list_compare\<close>: such a comparison may compute and store the keys as it goes.
\<close>

section \<open>Lists in memory\<close>

type_synonym ptr = "nat option"

record list_mem =
  nextp :: "nat \<Rightarrow> ptr"
  infop :: "nat \<Rightarrow> nat"
  data16 :: "nat \<Rightarrow> u16"
  idx :: "nat \<Rightarrow> u16"

definition set_next :: "nat \<Rightarrow> ptr \<Rightarrow> list_mem \<Rightarrow> list_mem" where
  "set_next a p m = m\<lparr>nextp := (nextp m)(a := p)\<rparr>"

definition set_info :: "nat \<Rightarrow> nat \<Rightarrow> list_mem \<Rightarrow> list_mem" where
  "set_info a d m = m\<lparr>infop := (infop m)(a := d)\<rparr>"

definition set_data16 :: "nat \<Rightarrow> u16 \<Rightarrow> list_mem \<Rightarrow> list_mem" where
  "set_data16 d v m = m\<lparr>data16 := (data16 m)(d := v)\<rparr>"

definition set_idx :: "nat \<Rightarrow> u16 \<Rightarrow> list_mem \<Rightarrow> list_mem" where
  "set_idx d v m = m\<lparr>idx := (idx m)(d := v)\<rparr>"

section \<open>The operations\<close>

definition copy_info :: "nat \<Rightarrow> u16 \<times> u16 \<Rightarrow> list_mem \<Rightarrow> list_mem" where
  "copy_info to from m = set_idx to (snd from) (set_data16 to (fst from) m)"

text \<open>\<open>core_list_insert_new\<close> takes the next free cell and data item, if both blocks have one left.\<close>

definition core_list_insert_new ::
  "nat \<Rightarrow> u16 \<times> u16 \<Rightarrow> nat \<Rightarrow> nat \<Rightarrow> nat \<Rightarrow> nat \<Rightarrow> list_mem \<Rightarrow> ptr \<times> nat \<times> nat \<times> list_mem" where
  "core_list_insert_new insert_point info memblock datablock memblock_end datablock_end m =
     (if memblock_end \<le> memblock + 1 then (None, memblock, datablock, m)
      else if datablock_end \<le> datablock + 1 then (None, memblock, datablock, m)
      else let newitem = memblock; memblock = memblock + 1;
               m = set_next newitem (nextp m insert_point) m;
               m = set_next insert_point (Some newitem) m;
               m = set_info newitem datablock m;
               datablock = datablock + 1;
               m = copy_info (infop m newitem) info m
           in (Some newitem, memblock, datablock, m))"

definition core_list_remove :: "nat \<Rightarrow> list_mem \<Rightarrow> (nat \<times> list_mem) option" where
  "core_list_remove item m =
     do {
       ret \<leftarrow> nextp m item;
       let tmp = infop m item;
       let m = set_info item (infop m ret) m;
       let m = set_info ret tmp m;
       n \<leftarrow> nextp m item;
       let m = set_next item (nextp m n) m;
       let m = set_next ret None m;
       Some (ret, m)
     }"

definition core_list_undo_remove :: "nat \<Rightarrow> nat \<Rightarrow> list_mem \<Rightarrow> nat \<times> list_mem" where
  "core_list_undo_remove item_removed item_modified m =
     (let tmp = infop m item_removed;
          m = set_info item_removed (infop m item_modified) m;
          m = set_info item_modified tmp m;
          m = set_next item_removed (nextp m item_modified) m;
          m = set_next item_modified (Some item_removed) m
      in (item_removed, m))"

partial_function (option) find_loop :: "(nat \<Rightarrow> bool) \<Rightarrow> ptr \<Rightarrow> list_mem \<Rightarrow> ptr option" where
  "find_loop found list m =
     (case list of None \<Rightarrow> Some None
      | Some a \<Rightarrow> if \<not> found (infop m a) then find_loop found (nextp m a) m else Some list)"

definition core_list_find :: "ptr \<Rightarrow> u16 \<times> u16 \<Rightarrow> list_mem \<Rightarrow> ptr option" where
  "core_list_find list info m =
     (if 0 \<le> sint (snd info) then find_loop (\<lambda>d. idx m d = snd info) list m
      else find_loop (\<lambda>d. data16 m d AND 0xFF = fst info) list m)"

partial_function (option) reverse_loop :: "ptr \<Rightarrow> ptr \<Rightarrow> list_mem \<Rightarrow> (ptr \<times> list_mem) option" where
  "reverse_loop list nxt m =
     (case list of None \<Rightarrow> Some (nxt, m)
      | Some a \<Rightarrow> let tmp = nextp m a in reverse_loop tmp list (set_next a nxt m))"

definition core_list_reverse :: "ptr \<Rightarrow> list_mem \<Rightarrow> (ptr \<times> list_mem) option" where
  "core_list_reverse list m = reverse_loop list None m"

section \<open>Merge sort\<close>

text \<open>A comparison gets the two data items; it may change the memory and the results \<open>res\<close>.\<close>

type_synonym 'r list_cmp = "nat \<Rightarrow> nat \<Rightarrow> list_mem \<Rightarrow> 'r \<Rightarrow> (int \<times> list_mem \<times> 'r) option"

text \<open>Step \<open>insize\<close> places along from \<open>q\<close>, counting the places.\<close>

primrec step_along :: "nat \<Rightarrow> ptr \<Rightarrow> nat \<Rightarrow> list_mem \<Rightarrow> (ptr \<times> nat) option" where
  "step_along 0 q psize m = Some (q, psize)"
| "step_along (Suc n) q psize m =
     do {
       a \<leftarrow> q;
       let q = nextp m a;
       if q = None then Some (q, psize + 1) else step_along n q (psize + 1) m
     }"

partial_function (option) merge_loop ::
  "'r list_cmp \<Rightarrow> ptr \<Rightarrow> ptr \<Rightarrow> nat \<Rightarrow> nat \<Rightarrow> ptr \<Rightarrow> ptr \<Rightarrow> list_mem \<Rightarrow> 'r \<Rightarrow>
   (ptr \<times> ptr \<times> ptr \<times> list_mem \<times> 'r) option" where
  "merge_loop cmp p q psize qsize list tail m res =
     (if 0 < psize \<or> (0 < qsize \<and> q \<noteq> None)
      then do {
        (from_q, m, res) \<leftarrow>
          (if psize = 0 then Some (True, m, res)
           else if qsize = 0 \<or> q = None then Some (False, m, res)
           else do {
             a \<leftarrow> p; b \<leftarrow> q;
             (c, m, res) \<leftarrow> cmp (infop m a) (infop m b) m res;
             Some (\<not> c \<le> 0, m, res)
           });
        e \<leftarrow> (if from_q then q else p);
        let (p, q, psize, qsize) =
          (if from_q then (p, nextp m e, psize, qsize - 1) else (nextp m e, q, psize - 1, qsize));
        let (list, m) = (case tail of Some t \<Rightarrow> (list, set_next t (Some e) m) | None \<Rightarrow> (Some e, m));
        merge_loop cmp p q psize qsize list (Some e) m res
      }
      else Some (q, list, tail, m, res))"

partial_function (option) merge_pass ::
  "'r list_cmp \<Rightarrow> int \<Rightarrow> ptr \<Rightarrow> ptr \<Rightarrow> ptr \<Rightarrow> nat \<Rightarrow> list_mem \<Rightarrow> 'r \<Rightarrow>
   (ptr \<times> ptr \<times> nat \<times> list_mem \<times> 'r) option" where
  "merge_pass cmp insize p list tail nmerges m res =
     (if p \<noteq> None
      then do {
        (q, psize) \<leftarrow> step_along (nat insize) p 0 m;
        (q, list, tail, m, res) \<leftarrow> merge_loop cmp p q psize (nat insize) list tail m res;
        merge_pass cmp insize q list tail (nmerges + 1) m res
      }
      else Some (list, tail, nmerges, m, res))"

partial_function (option) mergesort_loop ::
  "'r list_cmp \<Rightarrow> int \<Rightarrow> ptr \<Rightarrow> list_mem \<Rightarrow> 'r \<Rightarrow> (ptr \<times> list_mem \<times> 'r) option" where
  "mergesort_loop cmp insize list m res =
     do {
       (list, tail, nmerges, m, res) \<leftarrow> merge_pass cmp insize list None None 0 m res;
       t \<leftarrow> tail;
       let m = set_next t None m;
       if nmerges \<le> 1 then Some (list, m, res)
       else if 2 ^ 31 \<le> insize * 2 then None
       else mergesort_loop cmp (insize * 2) list m res
     }"

definition core_list_mergesort :: "ptr \<Rightarrow> 'r list_cmp \<Rightarrow> list_mem \<Rightarrow> 'r \<Rightarrow> (ptr \<times> list_mem \<times> 'r) option" where
  "core_list_mergesort list cmp m res = mergesort_loop cmp 1 list m res"

declare find_loop.simps [code] reverse_loop.simps [code] merge_loop.simps [code]
  merge_pass.simps [code] mergesort_loop.simps [code]

section \<open>The cells a pointer stands for\<close>

text \<open>
  \<open>lseg n p xs q\<close>: starting at \<open>p\<close> the links \<open>n\<close> visit the cells \<open>xs\<close> and arrive at \<open>q\<close>.
  \<open>chain n l zs\<close> is the same for a list under construction, whose last link is not yet set.
\<close>

fun lseg :: "(nat \<Rightarrow> ptr) \<Rightarrow> ptr \<Rightarrow> nat list \<Rightarrow> ptr \<Rightarrow> bool" where
  "lseg n p [] q \<longleftrightarrow> p = q"
| "lseg n p (x # xs) q \<longleftrightarrow> p = Some x \<and> lseg n (n x) xs q"

abbreviation lpath :: "(nat \<Rightarrow> ptr) \<Rightarrow> ptr \<Rightarrow> nat list \<Rightarrow> bool" where
  "lpath n p xs \<equiv> lseg n p xs None"

fun chain :: "(nat \<Rightarrow> ptr) \<Rightarrow> ptr \<Rightarrow> nat list \<Rightarrow> bool" where
  "chain n l [] \<longleftrightarrow> l = None"
| "chain n l (z # zs) \<longleftrightarrow> l = Some z \<and> (zs \<noteq> [] \<longrightarrow> chain n (n z) zs)"

definition last_ptr :: "nat list \<Rightarrow> ptr" where
  "last_ptr zs = (if zs = [] then None else Some (last zs))"

lemma set_field_simps [simp]:
  "nextp (set_next a p m) = (nextp m)(a := p)" "infop (set_next a p m) = infop m"
  "data16 (set_next a p m) = data16 m" "idx (set_next a p m) = idx m"
  "nextp (set_info a d m) = nextp m" "infop (set_info a d m) = (infop m)(a := d)"
  "data16 (set_info a d m) = data16 m" "idx (set_info a d m) = idx m"
  "nextp (set_data16 d v m) = nextp m" "infop (set_data16 d v m) = infop m"
  "data16 (set_data16 d v m) = (data16 m)(d := v)" "idx (set_data16 d v m) = idx m"
  "nextp (set_idx d v m) = nextp m" "infop (set_idx d v m) = infop m"
  "data16 (set_idx d v m) = data16 m" "idx (set_idx d v m) = (idx m)(d := v)"
  by (simp_all add: set_next_def set_info_def set_data16_def set_idx_def)

lemma lseg_append [simp]:
  "lseg n p (xs @ ys) q \<longleftrightarrow> (\<exists>r. lseg n p xs r \<and> lseg n r ys q)"
  by (induction xs arbitrary: p) auto

lemma lseg_frame: "(\<And>x. x \<in> set xs \<Longrightarrow> n' x = n x) \<Longrightarrow> lseg n' p xs q \<longleftrightarrow> lseg n p xs q"
  by (induction xs arbitrary: p) auto

lemma lseg_upd [simp]: "a \<notin> set xs \<Longrightarrow> lseg (n(a := v)) p xs q \<longleftrightarrow> lseg n p xs q"
  by (rule lseg_frame) auto

lemma lpath_unique: "lpath n p xs \<Longrightarrow> lpath n p ys \<Longrightarrow> xs = ys"
proof (induction xs arbitrary: p ys)
  case (Cons x xs)
  then show ?case by (cases ys) auto
next
  case Nil
  then show ?case by (cases ys) auto
qed

lemma lpath_distinct: "lpath n p xs \<Longrightarrow> distinct xs"
proof (induction xs arbitrary: p)
  case (Cons x xs)
  have "x \<notin> set xs"
  proof
    assume "x \<in> set xs"
    then obtain ys zs where xs: "xs = ys @ x # zs" by (meson split_list)
    then have "lpath n (n x) xs" "lpath n (n x) zs" using Cons.prems by auto
    then have "xs = zs" by (rule lpath_unique)
    then have "length xs = length zs" by simp
    then show False using xs by simp
  qed
  then show ?case using Cons by auto
qed simp

lemma last_ptr_simps [simp]: "last_ptr [] = None" "last_ptr (zs @ [z]) = Some z"
  by (simp_all add: last_ptr_def)

lemma chain_frame: "(\<And>x. x \<in> set (butlast zs) \<Longrightarrow> n' x = n x) \<Longrightarrow> chain n' l zs \<longleftrightarrow> chain n l zs"
  by (induction zs arbitrary: l) auto

lemma chain_snoc:
  "chain n l (zs @ [z]) \<longleftrightarrow> (if zs = [] then l = Some z else chain n l zs \<and> n (last zs) = Some z)"
proof (induction zs arbitrary: l)
  case (Cons y zs)
  then show ?case by (cases zs) auto
qed simp

lemma chain_lseg: "chain n l zs \<Longrightarrow> zs \<noteq> [] \<Longrightarrow> distinct zs \<Longrightarrow> lseg (n(last zs := q)) l zs q"
proof (induction zs arbitrary: l)
  case (Cons z zs)
  then show ?case by (cases zs) (auto split: if_splits)
qed simp

lemma chain_extend:
  assumes "chain n l zs" "distinct (zs @ [e])"
  shows "chain (if zs = [] then n else n(last zs := Some e)) (if zs = [] then Some e else l) (zs @ [e])"
proof (cases "zs = []")
  case False
  have "last zs \<notin> set (butlast zs)"
    using assms(2) False by (metis append_butlast_last_id distinct_append not_distinct_conv_prefix)
  then have "chain (n(last zs := Some e)) l zs \<longleftrightarrow> chain n l zs"
    by (intro chain_frame) auto
  then show ?thesis using assms(1) False by (simp add: chain_snoc)
qed simp

lemma lpath_links: "lpath n p xs \<Longrightarrow> lpath n' q xs \<Longrightarrow> p = q \<and> (\<forall>x \<in> set xs. n x = n' x)"
proof (induction xs arbitrary: p q)
  case (Cons x xs)
  then have "lpath n (n x) xs" "lpath n' (n' x) xs" and eq: "p = Some x" "q = Some x" by simp_all
  from Cons.IH [OF this(1,2)] show ?case unfolding eq by (metis set_ConsD)
qed simp

section \<open>Finding and reversing\<close>

theorem find_loop_result:
  "lpath (nextp m) p xs \<Longrightarrow>
   find_loop found p m = Some (List.find (\<lambda>x. found (infop m x)) xs)"
proof (induction xs arbitrary: p)
  case Nil
  then show ?case by (subst find_loop.simps) simp
next
  case (Cons x xs)
  then show ?case by (subst find_loop.simps) auto
qed

lemma reverse_loop_result:
  "lpath (nextp m) p xs \<Longrightarrow> lpath (nextp m) q ys \<Longrightarrow> set xs \<inter> set ys = {} \<Longrightarrow>
   \<exists>r m'. reverse_loop p q m = Some (r, m') \<and> lpath (nextp m') r (rev xs @ ys) \<and>
     (\<forall>x. x \<notin> set xs \<longrightarrow> nextp m' x = nextp m x) \<and>
     infop m' = infop m \<and> data16 m' = data16 m \<and> idx m' = idx m"
proof (induction xs arbitrary: p q ys m)
  case Nil
  then show ?case by (subst reverse_loop.simps) auto
next
  case (Cons x xs)
  have p: "p = Some x" and x: "x \<notin> set xs" "x \<notin> set ys"
    using Cons.prems lpath_distinct by fastforce+
  have "lpath (nextp (set_next x q m)) (nextp m x) xs" "lpath (nextp (set_next x q m)) p (x # ys)"
    "set xs \<inter> set (x # ys) = {}" using Cons.prems x by auto
  from Cons.IH [OF this] obtain r m' where "reverse_loop (nextp m x) p (set_next x q m) = Some (r, m')"
    "lpath (nextp m') r (rev xs @ x # ys)" "\<forall>y. y \<notin> set xs \<longrightarrow> nextp m' y = nextp (set_next x q m) y"
    "infop m' = infop m" "data16 m' = data16 m" "idx m' = idx m" by auto
  then show ?case using p by (subst reverse_loop.simps) auto
qed

theorem core_list_reverse_result:
  assumes "lpath (nextp m) p xs"
  obtains r m' where "core_list_reverse p m = Some (r, m')" "lpath (nextp m') r (rev xs)"
    "\<And>x. x \<notin> set xs \<Longrightarrow> nextp m' x = nextp m x"
    "infop m' = infop m" "data16 m' = data16 m" "idx m' = idx m"
  using reverse_loop_result [OF assms, of None "[]"] by (auto simp: core_list_reverse_def)

text \<open>Removing the cell after \<open>a\<close> takes away the data of \<open>a\<close>; undoing it restores the memory.\<close>

theorem core_list_remove_result:
  assumes "lpath (nextp m) p (xs @ a # r # ys)"
  obtains m' where "core_list_remove a m = Some (r, m')" "lpath (nextp m') p (xs @ a # ys)"
    "nextp m' r = None" "infop m' = (infop m)(a := infop m r, r := infop m a)"
    "data16 m' = data16 m" "idx m' = idx m" "core_list_undo_remove r a m' = (r, m)"
proof -
  have d: "distinct (xs @ a # r # ys)" using lpath_distinct [OF assms] .
  have n: "nextp m a = Some r" using assms by auto
  define m' where "m' = set_next r None (set_next a (nextp m r) (set_info r (infop m a) (set_info a (infop m r) m)))"
  have "core_list_remove a m = Some (r, m')" using n by (simp add: core_list_remove_def m'_def Let_def)
  moreover have "lpath (nextp m') p (xs @ a # ys)" using assms d by (auto simp: m'_def)
  moreover have "core_list_undo_remove r a m' = (r, m)"
    using d n by (auto simp: core_list_undo_remove_def m'_def Let_def fun_eq_iff intro!: list_mem.equality)
  ultimately show thesis using that d by (auto simp: m'_def)
qed

end
