(* ===== verification/CM_Sort.thy ===== *)
theory CM_Sort
  imports CM_List
begin

text \<open>
  Correctness of CoreMark's merge sort for every comparison that keeps the contract
  \<open>list_compare\<close>: it terminates, the result visits the same cells in ascending order of
  their keys, and nothing but the links of these cells and what the comparison itself
  stores has changed.
\<close>

section \<open>The contract of a comparison\<close>

text \<open>
  Comparing two data items makes their keys known; a known key never changes, and the sign
  of the result is the order of the keys.  \<open>ok\<close> is the invariant the comparison needs.
\<close>

locale list_compare =
  fixes cmp :: "'r list_cmp" and known :: "list_mem \<Rightarrow> nat \<Rightarrow> bool" and key :: "list_mem \<Rightarrow> nat \<Rightarrow> int"
    and ok :: "list_mem \<Rightarrow> 'r \<Rightarrow> bool"
  assumes cmp_returns: "ok m r \<Longrightarrow> \<exists>c m' r'. cmp a b m r = Some (c, m', r') \<and> ok m' r' \<and>
      nextp m' = nextp m \<and> infop m' = infop m \<and> known m' a \<and> known m' b \<and>
      (c \<le> 0 \<longleftrightarrow> key m' a \<le> key m' b) \<and> (\<forall>x. known m x \<longrightarrow> known m' x \<and> key m' x = key m x)"
    and links: "ok (set_next x p m) r = ok m r" "known (set_next x p m) = known m"
      "key (set_next x p m) = key m"
begin

definition ext :: "list_mem \<Rightarrow> list_mem \<Rightarrow> bool" where
  "ext m m' \<longleftrightarrow> infop m' = infop m \<and> (\<forall>x. known m x \<longrightarrow> known m' x \<and> key m' x = key m x)"

definition kn :: "list_mem \<Rightarrow> nat list \<Rightarrow> bool" where
  "kn m xs \<longleftrightarrow> (\<forall>x \<in> set xs. known m (infop m x))"

definition kv :: "list_mem \<Rightarrow> nat \<Rightarrow> int" where
  "kv m x = key m (infop m x)"

definition srt :: "list_mem \<Rightarrow> nat list \<Rightarrow> bool" where
  "srt m xs \<longleftrightarrow> kn m xs \<and> sorted (map (kv m) xs)"

text \<open>A run of the sort: one cell, or sorted with all keys known.\<close>

definition run :: "list_mem \<Rightarrow> nat list \<Rightarrow> bool" where
  "run m xs \<longleftrightarrow> length xs \<le> 1 \<or> srt m xs"

lemma ext_refl [simp]: "ext m m" by (simp add: ext_def)

lemma ext_trans: "ext m m' \<Longrightarrow> ext m' m'' \<Longrightarrow> ext m m''" by (simp add: ext_def)

lemma ext_set_next [simp]: "ext m (set_next x p m') \<longleftrightarrow> ext m m'" "ext (set_next x p m) m' \<longleftrightarrow> ext m m'"
  by (simp_all add: ext_def links)

lemma kn_ext: "ext m m' \<Longrightarrow> kn m xs \<Longrightarrow> kn m' xs" by (simp add: ext_def kn_def)

lemma kv_ext: "ext m m' \<Longrightarrow> kn m xs \<Longrightarrow> x \<in> set xs \<Longrightarrow> kv m' x = kv m x"
  by (simp add: ext_def kn_def kv_def)

lemma srt_ext: "ext m m' \<Longrightarrow> srt m xs \<Longrightarrow> srt m' xs"
proof -
  assume "ext m m'" "srt m xs"
  then have eq: "map (kv m') xs = map (kv m) xs" and k: "kn m' xs"
    using kv_ext kn_ext by (auto simp: srt_def)
  show ?thesis using \<open>srt m xs\<close> k unfolding srt_def eq by simp
qed

lemma run_ext: "ext m m' \<Longrightarrow> run m xs \<Longrightarrow> run m' xs"
  using srt_ext by (auto simp: run_def)

lemma set_next_simps [simp]: "kn (set_next x p m) = kn m" "kv (set_next x p m) = kv m"
  "srt (set_next x p m) = srt m" "run (set_next x p m) = run m"
proof -
  show k: "kn (set_next x p m) = kn m" and v: "kv (set_next x p m) = kv m"
    by (simp_all add: fun_eq_iff kn_def kv_def links)
  show s: "srt (set_next x p m) = srt m" by (simp add: fun_eq_iff srt_def k v)
  show "run (set_next x p m) = run m" by (simp add: fun_eq_iff run_def s)
qed

lemma kn_simps [simp]: "kn m []" "kn m (x # xs) \<longleftrightarrow> known m (infop m x) \<and> kn m xs"
  "kn m (xs @ ys) \<longleftrightarrow> kn m xs \<and> kn m ys"
  by (auto simp: kn_def)

lemma srt_simps [simp]: "srt m []"
  "srt m (x # xs) \<longleftrightarrow> known m (infop m x) \<and> (\<forall>y \<in> set xs. kv m x \<le> kv m y) \<and> srt m xs"
  by (auto simp: srt_def)

lemma srt_append: "srt m (xs @ ys) \<longleftrightarrow> srt m xs \<and> srt m ys \<and> (\<forall>x \<in> set xs. \<forall>y \<in> set ys. kv m x \<le> kv m y)"
  by (auto simp: srt_def sorted_append)

section \<open>One merge\<close>

text \<open>
  The state of a merge: \<open>zs\<close> is the list built so far, \<open>xs\<close> and \<open>ys\<close> what is left of the two
  runs, \<open>q'\<close> where the rest of the list starts.
\<close>

definition merging ::
  "list_mem \<Rightarrow> ptr \<Rightarrow> nat list \<Rightarrow> ptr \<Rightarrow> nat list \<Rightarrow> nat \<Rightarrow> ptr \<Rightarrow> nat list \<Rightarrow> nat \<Rightarrow> ptr \<Rightarrow> bool" where
  "merging m list zs p xs psize q ys qsize q' \<longleftrightarrow>
     chain (nextp m) list zs \<and> (\<exists>pe. lseg (nextp m) p xs pe) \<and> psize = length xs \<and>
     lseg (nextp m) q ys q' \<and> (length ys = qsize \<or> length ys \<le> qsize \<and> q' = None) \<and>
     distinct (zs @ xs @ ys)"

text \<open>Appending the next cell of either run keeps this state.\<close>

definition append_cell :: "list_mem \<Rightarrow> nat list \<Rightarrow> nat \<Rightarrow> list_mem" where
  "append_cell m zs e = (case last_ptr zs of Some t \<Rightarrow> set_next t (Some e) m | None \<Rightarrow> m)"

lemma append_cell_simps [simp]:
  "nextp (append_cell m zs e) = (if zs = [] then nextp m else (nextp m)(last zs := Some e))"
  "infop (append_cell m zs e) = infop m" "kn (append_cell m zs e) = kn m"
  "kv (append_cell m zs e) = kv m" "srt (append_cell m zs e) = srt m"
  "run (append_cell m zs e) = run m" "ext m' (append_cell m zs e) = ext m' m"
  "ok (append_cell m zs e) r = ok m r" "ext (append_cell m zs e) m' = ext m m'"
  by (simp_all add: append_cell_def last_ptr_def links)

lemma merging_p:
  assumes "merging m list zs p (x # xs) psize q ys qsize q'"
  shows "merging (append_cell m zs x) (if zs = [] then Some x else list) (zs @ [x])
           (nextp m x) xs (psize - 1) q ys qsize q'"
proof -
  have l: "last zs \<notin> set xs" "last zs \<notin> set ys" "last zs \<noteq> x" if "zs \<noteq> []"
    using assms last_in_set [OF that] by (auto simp: merging_def)
  show ?thesis
    using assms chain_extend [of "nextp m" list zs x] unfolding merging_def
    by (cases "zs = []") (auto simp: l simp del: chain.simps)
qed

lemma merging_q:
  assumes "merging m list zs p xs psize q (y # ys) qsize q'"
  shows "merging (append_cell m zs y) (if zs = [] then Some y else list) (zs @ [y])
           p xs psize (nextp m y) ys (qsize - 1) q'"
proof -
  have l: "last zs \<notin> set xs" "last zs \<notin> set ys" "last zs \<noteq> y" if "zs \<noteq> []"
    using assms last_in_set [OF that] by (auto simp: merging_def)
  show ?thesis
    using assms chain_extend [of "nextp m" list zs y] unfolding merging_def
    by (cases "zs = []") (auto simp: l simp del: chain.simps)
qed

text \<open>The result of a merge: the rest starts at \<open>q'\<close>, the list has grown by \<open>ms\<close>.\<close>

definition merged ::
  "(list_mem \<Rightarrow> nat list \<Rightarrow> bool) \<Rightarrow> list_mem \<Rightarrow> nat list \<Rightarrow> nat list \<Rightarrow> ptr \<Rightarrow>
   (ptr \<times> ptr \<times> ptr \<times> list_mem \<times> 'r) option \<Rightarrow> nat list \<Rightarrow> bool" where
  "merged R m zs cells q' result ms \<longleftrightarrow> mset ms = mset cells \<and>
     (\<exists>l m' r'. result = Some (q', l, last_ptr (zs @ ms), m', r') \<and> chain (nextp m') l (zs @ ms) \<and>
        ext m m' \<and> ok m' r' \<and> R m' ms \<and>
        (\<forall>x. x \<notin> set (zs @ cells) \<longrightarrow> nextp m' x = nextp m x))"

lemma merged_end:
  "chain (nextp m) l zs \<Longrightarrow> ok m r \<Longrightarrow> R m [] \<Longrightarrow> merged R m zs [] q' (Some (q', l, last_ptr zs, m, r)) []"
  by (simp add: merged_def)

lemma merged_step:
  assumes "merged R (append_cell m1 zs e) (zs @ [e]) cells q' result ms"
    and m1: "ext m m1" "nextp m1 = nextp m"
    and R: "\<And>m'. ext m1 m' \<Longrightarrow> R m' ms \<Longrightarrow> R' m' (e # ms)"
    and cells: "mset cells' = add_mset e (mset cells)"
  shows "merged R' m zs cells' q' result (e # ms)"
proof -
  have "set cells' = insert e (set cells)" using cells by (metis set_mset_add_mset_insert set_mset_mset)
  moreover have "zs \<noteq> [] \<Longrightarrow> last zs \<in> set zs" by simp
  ultimately show ?thesis
    using assms(1) m1 cells R ext_trans [OF m1(1)] unfolding merged_def
    by (auto simp del: append_assoc) auto
qed

lemma merge_loop_p:
  assumes "p = Some x" "0 < psize" "qsize = 0 \<or> q = None"
  shows "merge_loop cmp p q psize qsize list (last_ptr zs) m r =
    merge_loop cmp (nextp m x) q (psize - 1) qsize (if zs = [] then Some x else list)
      (last_ptr (zs @ [x])) (append_cell m zs x) r"
  using assms by (subst merge_loop.simps) (auto simp: append_cell_def last_ptr_def)

lemma merge_loop_q:
  assumes "q = Some y" "psize = 0" "0 < qsize"
  shows "merge_loop cmp p q psize qsize list (last_ptr zs) m r =
    merge_loop cmp p (nextp m y) psize (qsize - 1) (if zs = [] then Some y else list)
      (last_ptr (zs @ [y])) (append_cell m zs y) r"
  using assms by (subst merge_loop.simps) (auto simp: append_cell_def last_ptr_def)

lemma merge_loop_cmp:
  assumes "p = Some x" "q = Some y" "0 < psize" "0 < qsize"
    and "cmp (infop m x) (infop m y) m r = Some (c, m1, r1)"
  shows "merge_loop cmp p q psize qsize list (last_ptr zs) m r =
    (if c \<le> 0 then merge_loop cmp (nextp m1 x) q (psize - 1) qsize (if zs = [] then Some x else list)
       (last_ptr (zs @ [x])) (append_cell m1 zs x) r1
     else merge_loop cmp p (nextp m1 y) psize (qsize - 1) (if zs = [] then Some y else list)
       (last_ptr (zs @ [y])) (append_cell m1 zs y) r1)"
  using assms by (subst merge_loop.simps) (auto simp: append_cell_def last_ptr_def)

lemma merge_loop_end:
  "psize = 0 \<Longrightarrow> qsize = 0 \<or> q = None \<Longrightarrow> merge_loop cmp p q psize qsize list tail m r = Some (q, list, tail, m, r)"
  by (subst merge_loop.simps) auto

lemma merged_weaken:
  "merged R m zs cells q' result ms \<Longrightarrow> (\<And>m'. ext m m' \<Longrightarrow> R m' ms \<Longrightarrow> R' m' ms) \<Longrightarrow>
   merged R' m zs cells q' result ms"
  unfolding merged_def by blast

text \<open>When one run is used up, the rest of the other is appended without comparing.\<close>

lemma merge_copy_p:
  "merging m list zs p xs psize q [] qsize q' \<Longrightarrow> ok m r \<Longrightarrow>
   merged (\<lambda>_ _. True) m zs xs q' (merge_loop cmp p q psize qsize list (last_ptr zs) m r) xs"
proof (induction xs arbitrary: m list zs p psize)
  case Nil
  then show ?case
    using merged_end [of m list zs r "\<lambda>_ _. True" q'] by (auto simp: merging_def merge_loop_end)
next
  case (Cons x xs)
  have s: "p = Some x" "0 < psize" "qsize = 0 \<or> q = None" using Cons.prems(1) by (auto simp: merging_def)
  show ?case
    using Cons.IH [OF merging_p [OF Cons.prems(1)]] Cons.prems(2) unfolding merge_loop_p [OF s]
    by (intro merged_step [where ?m1.0 = m]) simp_all
qed

lemma merge_copy_q:
  "merging m list zs p [] psize q ys qsize q' \<Longrightarrow> ok m r \<Longrightarrow>
   merged (\<lambda>_ _. True) m zs ys q' (merge_loop cmp p q psize qsize list (last_ptr zs) m r) ys"
proof (induction ys arbitrary: m list zs q qsize)
  case Nil
  then show ?case
    using merged_end [of m list zs r "\<lambda>_ _. True" q'] by (auto simp: merging_def merge_loop_end)
next
  case (Cons y ys)
  have s: "q = Some y" "psize = 0" "0 < qsize" using Cons.prems(1) by (auto simp: merging_def)
  show ?case
    using Cons.IH [OF merging_q [OF Cons.prems(1)]] Cons.prems(2) unfolding merge_loop_q [OF s]
    by (intro merged_step [where ?m1.0 = m]) simp_all
qed

text \<open>Two runs with known keys are merged into one.\<close>

lemma merging_same_links:
  "nextp m1 = nextp m \<Longrightarrow> merging m1 list zs p xs psize q ys qsize q' \<longleftrightarrow> merging m list zs p xs psize q ys qsize q'"
  by (simp add: merging_def)

lemma merge_step:
  assumes st: "merging m list zs p (x # xs) psize q (y # ys) qsize q'" and ok: "ok m r"
    and IH: "\<And>m1 list zs p xs' psize q ys' qsize r. length xs' + length ys' < length (x # xs) + length (y # ys) \<Longrightarrow>
      merging m1 list zs p xs' psize q ys' qsize q' \<Longrightarrow> ok m1 r \<Longrightarrow> srt m1 xs' \<Longrightarrow> srt m1 ys' \<Longrightarrow>
      \<exists>ms. merged srt m1 zs (xs' @ ys') q' (merge_loop cmp p q psize qsize list (last_ptr zs) m1 r) ms"
    and srt: "xs = [] \<or> srt m (x # xs)" "ys = [] \<or> srt m (y # ys)"
  shows "\<exists>ms. merged srt m zs ((x # xs) @ y # ys) q' (merge_loop cmp p q psize qsize list (last_ptr zs) m r) ms"
proof -
  obtain c m1 r1 where c: "cmp (infop m x) (infop m y) m r = Some (c, m1, r1)" and ok1: "ok m1 r1"
    and m1: "nextp m1 = nextp m" "infop m1 = infop m" "known m1 (infop m x)" "known m1 (infop m y)"
    and le: "c \<le> 0 \<longleftrightarrow> kv m1 x \<le> kv m1 y" and ext: "ext m m1"
    using cmp_returns [OF ok, of "infop m x" "infop m y"] by (auto simp: ext_def kv_def)
  have s: "p = Some x" "q = Some y" "0 < psize" "0 < qsize" using st by (auto simp: merging_def)
  have srt1: "srt m1 (x # xs)" "srt m1 (y # ys)"
    using srt srt_ext [OF ext, of "x # xs"] srt_ext [OF ext, of "y # ys"] m1 by (elim disjE; simp)+
  have st1: "merging m1 list zs p (x # xs) psize q (y # ys) qsize q'"
    using merging_same_links [OF m1(1)] st by blast
  note loop = merge_loop_cmp [OF s c, of list zs]
  show ?thesis
  proof (cases "c \<le> 0")
    case True
    obtain ms where ms: "merged srt (append_cell m1 zs x) (zs @ [x]) (xs @ y # ys) q'
        (merge_loop cmp p q psize qsize list (last_ptr zs) m r) ms"
      using IH [OF _ merging_p [OF st1], of r1] ok1 srt1 True unfolding loop
      by (simp del: last_ptr_simps append_assoc) blast
    have "merged srt m zs ((x # xs) @ y # ys) q' (merge_loop cmp p q psize qsize list (last_ptr zs) m r) (x # ms)"
    proof (rule merged_step [OF ms ext m1(1)])
      fix m' assume e: "ext m1 m'" and r: "srt m' ms"
      have "set ms = set (xs @ y # ys)" using ms unfolding merged_def by (metis set_mset_mset)
      moreover have "kv m' z = kv m1 z" if "z \<in> set (x # xs @ y # ys)" for z
        using kv_ext [OF e, of "x # xs @ y # ys" z] srt1 that by (auto simp: srt_def)
      moreover have "known m' (infop m' x)" using e m1 by (auto simp: ext_def)
      moreover have "kv m1 x \<le> kv m1 z" if "z \<in> set (xs @ y # ys)" for z
        using srt1 that True le by fastforce
      ultimately show "srt m' (x # ms)" using r by auto
    qed simp
    then show ?thesis by blast
  next
    case False
    obtain ms where ms: "merged srt (append_cell m1 zs y) (zs @ [y]) ((x # xs) @ ys) q'
        (merge_loop cmp p q psize qsize list (last_ptr zs) m r) ms"
      using IH [OF _ merging_q [OF st1], of r1] ok1 srt1 False unfolding loop
      by (simp del: last_ptr_simps append_assoc) blast
    have "merged srt m zs ((x # xs) @ y # ys) q' (merge_loop cmp p q psize qsize list (last_ptr zs) m r) (y # ms)"
    proof (rule merged_step [OF ms ext m1(1)])
      fix m' assume e: "ext m1 m'" and r: "srt m' ms"
      have "set ms = set (x # xs @ ys)" using ms unfolding merged_def by (metis append_Cons set_mset_mset)
      moreover have "kv m' z = kv m1 z" if "z \<in> set (x # xs @ y # ys)" for z
        using kv_ext [OF e, of "x # xs @ y # ys" z] srt1 that by (auto simp: srt_def)
      moreover have "known m' (infop m' y)" using e m1 by (auto simp: ext_def)
      moreover have "kv m1 y \<le> kv m1 z" if "z \<in> set (x # xs @ ys)" for z
        using srt1 that False le by fastforce
      ultimately show "srt m' (y # ms)" using r by auto
    qed simp
    then show ?thesis by blast
  qed
qed

lemma merge_sorted:
  assumes "merging m list zs p xs psize q ys qsize q'" "ok m r" "srt m xs" "srt m ys"
  shows "\<exists>ms. merged srt m zs (xs @ ys) q' (merge_loop cmp p q psize qsize list (last_ptr zs) m r) ms"
  using assms
proof (induction "length xs + length ys" arbitrary: m list zs p xs psize q ys qsize r rule: less_induct)
  case less
  show ?case
  proof (cases xs)
    case Nil
    then show ?thesis
      using merged_weaken [OF merge_copy_q, of m list zs p psize q ys qsize q' r srt] less.prems srt_ext by fastforce
  next
    case (Cons x xs')
    show ?thesis
    proof (cases ys)
      case Nil
      then show ?thesis
        using merged_weaken [OF merge_copy_p, of m list zs p xs psize q qsize q' r srt] less.prems srt_ext by fastforce
    next
      case (Cons y ys')
      then show ?thesis
        using merge_step [of m list zs p x xs' psize q y ys' qsize q' r] less \<open>xs = x # xs'\<close> by blast
    qed
  qed
qed

theorem merge_runs:
  assumes "merging m list zs p xs psize q ys qsize q'" "ok m r" "run m xs" "run m ys"
  shows "\<exists>ms. merged run m zs (xs @ ys) q' (merge_loop cmp p q psize qsize list (last_ptr zs) m r) ms"
proof -
  consider "xs = []" | "ys = []" | x xs' y ys' where "xs = x # xs'" "ys = y # ys'"
    by (meson list.exhaust)
  then show ?thesis
  proof cases
    case 1
    then show ?thesis
      using merged_weaken [OF merge_copy_q, of m list zs p psize q ys qsize q' r run] assms run_ext by fastforce
  next
    case 2
    then show ?thesis
      using merged_weaken [OF merge_copy_p, of m list zs p xs psize q qsize q' r run] assms run_ext by fastforce
  next
    case 3
    then have "xs' = [] \<or> srt m (x # xs')" "ys' = [] \<or> srt m (y # ys')"
      using assms(3,4) by (auto simp: run_def)
    note runs = this
    have "\<exists>ms. merged srt m zs ((x # xs') @ y # ys') q' (merge_loop cmp p q psize qsize list (last_ptr zs) m r) ms"
    proof (rule merge_step [OF assms(1,2) [unfolded 3] _ runs])
      show "\<exists>ms. merged srt m1 as (us @ vs) q' (merge_loop cmp p1 q1 n1 n2 l (last_ptr as) m1 r1) ms"
        if "merging m1 l as p1 us n1 q1 vs n2 q'" "ok m1 r1" "srt m1 us" "srt m1 vs"
        for m1 l as p1 us n1 q1 vs n2 r1
        using that by (rule merge_sorted)
    qed
    then obtain ms where "merged srt m zs (xs @ ys) q' (merge_loop cmp p q psize qsize list (last_ptr zs) m r) ms"
      using 3 by blast
    then have "merged run m zs (xs @ ys) q' (merge_loop cmp p q psize qsize list (last_ptr zs) m r) ms"
      by (rule merged_weaken) (simp add: run_def)
    then show ?thesis by blast
  qed
qed

section \<open>One pass\<close>

text \<open>All blocks of \<open>k\<close> cells are runs.\<close>

function runs :: "list_mem \<Rightarrow> nat \<Rightarrow> nat list \<Rightarrow> bool" where
  "runs m k xs = (if xs = [] \<or> k = 0 then True else run m (take k xs) \<and> runs m k (drop k xs))"
  by pat_completeness auto
termination by (relation "measure (\<lambda>(m, k, xs). length xs)") auto

declare runs.simps [simp del]

lemma runs_ext: "ext m m' \<Longrightarrow> runs m k xs \<Longrightarrow> runs m' k xs"
proof (induction m k xs rule: runs.induct)
  case (1 m k xs)
  from 1(3) have "xs = [] \<or> k = 0 \<or> run m (take k xs) \<and> runs m k (drop k xs)"
    by (subst (asm) runs.simps) (auto split: if_splits)
  then show ?case using 1(1) [OF _ 1(2)] run_ext [OF 1(2)] by (subst runs.simps) auto
qed

lemma runs_one: "runs m 1 xs"
proof (induction xs)
  case (Cons x xs)
  then show ?case by (subst runs.simps) (simp add: run_def)
qed (simp add: runs.simps)

lemma runs_short: "length xs \<le> k \<Longrightarrow> 0 < k \<Longrightarrow> runs m k xs \<Longrightarrow> run m xs"
  by (subst (asm) runs.simps) (auto simp: run_def split: if_splits)

lemma step_along_result:
  assumes "lpath (nextp m) p xs" "xs \<noteq> []" "0 < k"
  shows "\<exists>q. step_along k p c m = Some (q, c + length (take k xs)) \<and>
    lseg (nextp m) p (take k xs) q \<and> lpath (nextp m) q (drop k xs)"
  using assms
proof (induction k arbitrary: p xs c)
  case (Suc k)
  then obtain x ys where xs: "xs = x # ys" by (meson list.exhaust)
  then have p: "p = Some x" "lpath (nextp m) (nextp m x) ys" using Suc.prems by auto
  show ?case
  proof (cases "ys = []")
    case True
    then show ?thesis using p xs by simp
  next
    case False
    then have n: "nextp m x \<noteq> None" using p(2) by (cases ys) auto
    show ?thesis
    proof (cases "k = 0")
      case True
      then show ?thesis using p xs n by (auto simp: Let_def)
    next
      case k: False
      then show ?thesis using Suc.IH [OF p(2) False, of "Suc c"] p(1) n xs by (auto simp: Let_def)
    qed
  qed
qed simp

lemma merge_pass_result:
  assumes "lpath (nextp m) p xs" "chain (nextp m) list zs" "distinct (zs @ xs)" "ok m r" "runs m k xs" "0 < k"
  shows "\<exists>l m' r' ws. merge_pass cmp (int k) p list (last_ptr zs) n m r =
      Some (l, last_ptr (zs @ ws), n + (length xs + 2 * k - 1) div (2 * k), m', r') \<and>
    mset ws = mset xs \<and> chain (nextp m') l (zs @ ws) \<and> ext m m' \<and> ok m' r' \<and> runs m' (2 * k) ws \<and>
    (\<forall>x. x \<notin> set (zs @ xs) \<longrightarrow> nextp m' x = nextp m x)"
  using assms
proof (induction "length xs" arbitrary: m p xs list zs n r rule: less_induct)
  case less
  show ?case
  proof (cases "xs = []")
    case True
    then have "(length xs + 2 * k - 1) div (2 * k) = 0" using less.prems(6) by simp
    then show ?thesis using True less.prems by (subst merge_pass.simps) (auto simp: runs.simps)
  next
    case False
    define a b rest where "a = take k xs" and "b = take k (drop k xs)" and "rest = drop (2 * k) xs"
    have "rest = drop k (drop k xs)" by (simp add: rest_def mult_2)
    then have xs: "xs = a @ b @ rest" by (simp only: a_def b_def append_take_drop_id)
    have p: "p \<noteq> None" using less.prems(1) False by (cases xs) auto
    obtain q where q: "step_along k p 0 m = Some (q, length a)" "lseg (nextp m) p a q" "lpath (nextp m) q (b @ rest)"
      using step_along_result [OF less.prems(1) False less.prems(6), of 0] xs
      by (metis a_def add_0 append_take_drop_id same_append_eq)
    then obtain q' where q': "lseg (nextp m) q b q'" "lpath (nextp m) q' rest" by auto
    have "length b = k \<or> length b \<le> k \<and> rest = []" by (auto simp: b_def rest_def)
    then have st: "merging m list zs p a (length a) q b k q'"
      using less.prems(2,3) q q' xs unfolding merging_def by auto
    have ra: "run m a" "runs m k (drop k xs)"
      using less.prems(5) False less.prems(6) by (subst (asm) runs.simps, simp add: a_def)+
    then have "drop k xs = [] \<or> run m b \<and> runs m k rest"
      using less.prems(6) by (subst (asm) runs.simps)
        (auto simp only: b_def \<open>rest = drop k (drop k xs)\<close> split: if_splits)
    moreover have "drop k xs = [] \<Longrightarrow> b = [] \<and> rest = []"
      by (simp only: b_def \<open>rest = drop k (drop k xs)\<close> take_Nil drop_Nil simp_thms)
    moreover have "run m []" "runs m k []" by (simp_all add: run_def runs.simps)
    ultimately have rb: "run m b" and rr: "runs m k rest" by metis+
    obtain ms l m1 r1 where ml: "mset ms = mset (a @ b)"
      "merge_loop cmp p q (length a) k list (last_ptr zs) m r = Some (q', l, last_ptr (zs @ ms), m1, r1)"
      "chain (nextp m1) l (zs @ ms)" "ext m m1" "ok m1 r1" "run m1 ms"
      "\<forall>x. x \<notin> set (zs @ a @ b) \<longrightarrow> nextp m1 x = nextp m x"
      using merge_runs [OF st less.prems(4) ra(1) rb] unfolding merged_def by blast
    have sets: "set ms = set (a @ b)" using ml(1) by (metis set_mset_mset)
    have "distinct (a @ b)" using less.prems(3) xs by auto
    then have dms: "distinct ms" using mset_eq_imp_distinct_iff [OF ml(1)] by blast
    have rest: "lpath (nextp m1) q' rest"
      using q'(2) ml(7) less.prems(3) xs by (subst lseg_frame [where n = "nextp m"]) auto
    have "distinct ((zs @ ms) @ rest)" using less.prems(3) xs sets dms by auto
    moreover have "length rest < length xs" using False less.prems(6) by (cases xs) (simp_all add: rest_def)
    moreover have "runs m1 k rest" using rr ml(4) runs_ext by blast
    ultimately obtain l' m' r' ws where IH:
      "merge_pass cmp (int k) q' l (last_ptr (zs @ ms)) (Suc n) m1 r1 =
        Some (l', last_ptr ((zs @ ms) @ ws), Suc n + (length rest + 2 * k - 1) div (2 * k), m', r')"
      "mset ws = mset rest" "chain (nextp m') l' ((zs @ ms) @ ws)" "ext m1 m'" "ok m' r'" "runs m' (2 * k) ws"
      "\<forall>x. x \<notin> set ((zs @ ms) @ rest) \<longrightarrow> nextp m' x = nextp m1 x"
      using less.hyps [of rest m1 q' l "zs @ ms" r1 "Suc n"] rest ml(3,5) less.prems(6) by blast
    have lens: "length ms = length a + length b" "length ws = length rest"
      using ml(1) IH(2) by (metis length_append size_mset)+
    have runs': "runs m' (2 * k) (ms @ ws)"
    proof -
      have "take (2 * k) (ms @ ws) = ms \<and> drop (2 * k) (ms @ ws) = ws"
      proof (cases "rest = []")
        case True
        then have "length ms \<le> 2 * k" "ws = []" using lens by (auto simp: a_def b_def)
        then show ?thesis by simp
      next
        case False
        then have "length ms = 2 * k" using lens by (simp add: a_def b_def rest_def)
        then show ?thesis by simp
      qed
      then show ?thesis using IH(6) run_ext [OF IH(4) ml(6)] by (subst runs.simps) simp
    qed
    have cnt: "(length xs + 2 * k - 1) div (2 * k) = Suc ((length rest + 2 * k - 1) div (2 * k))"
    proof (cases "rest = []")
      case True
      then have "length xs \<le> 2 * k" "0 < length xs" using False by (simp_all add: rest_def)
      then have "length xs + 2 * k - 1 = 2 * k * 1 + (length xs - 1)" "length xs - 1 < 2 * k" by linarith+
      then have "(length xs + 2 * k - 1) div (2 * k) = 1" using less.prems(6) by (metis add.commute add_0 div_less div_mult_self2 mult_is_0 not_gr_zero zero_neq_numeral)
      then show ?thesis using True less.prems(6) by simp
    next
      case False
      then have "length xs + 2 * k - 1 = (length rest + 2 * k - 1) + 2 * k" by (simp add: rest_def)
      then show ?thesis using less.prems(6) by (metis div_add_self2 mult_is_0 not_gr_zero plus_1_eq_Suc add.commute zero_neq_numeral)
    qed
    have pass: "merge_pass cmp (int k) p list (last_ptr zs) n m r =
        Some (l', last_ptr (zs @ ms @ ws), n + (length xs + 2 * k - 1) div (2 * k), m', r')"
      using p q(1) ml(2) IH(1) by (subst merge_pass.simps) (simp add: cnt del: One_nat_def flip: Suc_eq_plus1)
    have "mset (ms @ ws) = mset xs" using ml(1) IH(2) xs by simp
    moreover have "\<forall>x. x \<notin> set (zs @ xs) \<longrightarrow> nextp m' x = nextp m x"
      using IH(7) ml(7) xs sets by auto
    ultimately show ?thesis
      using pass IH(3,5) runs' ext_trans [OF ml(4) IH(4)] by (metis append_assoc)
  qed
qed

section \<open>The sort\<close>

lemma mergesort_loop_result:
  assumes "lpath (nextp m) p xs" "xs \<noteq> []" "ok m r" "runs m k xs" "0 < k" "length xs < 2 ^ 31"
  shows "\<exists>l m' r' ys. mergesort_loop cmp (int k) p m r = Some (l, m', r') \<and> lpath (nextp m') l ys \<and>
    mset ys = mset xs \<and> run m' ys \<and> ext m m' \<and> ok m' r' \<and> (\<forall>x. x \<notin> set xs \<longrightarrow> nextp m' x = nextp m x)"
  using assms
proof (induction "length xs - k" arbitrary: m p xs r k rule: less_induct)
  case less
  define c where "c = (length xs + 2 * k - 1) div (2 * k)"
  obtain l m1 r1 ws where pass: "merge_pass cmp (int k) p None None 0 m r = Some (l, last_ptr ws, c, m1, r1)"
    "mset ws = mset xs" "chain (nextp m1) l ws" "ext m m1" "ok m1 r1" "runs m1 (2 * k) ws"
    "\<forall>x. x \<notin> set xs \<longrightarrow> nextp m1 x = nextp m x"
    using merge_pass_result [of m p xs None "[]" r k 0] less.prems lpath_distinct [OF less.prems(1)]
    unfolding c_def by auto
  have ws: "ws \<noteq> []" "distinct ws" "set ws = set xs" "length ws = length xs"
    using pass(2) less.prems(2) lpath_distinct [OF less.prems(1)]
    by (metis mset_zero_iff_right mset.simps(1) mset_eq_imp_distinct_iff set_mset_mset size_mset)+
  define m2 where "m2 = set_next (last ws) None m1"
  have m2: "lpath (nextp m2) l ws" "ext m m2" "ok m2 r1" "runs m2 (2 * k) ws" "infop m2 = infop m1"
    "\<forall>x. x \<notin> set xs \<longrightarrow> nextp m2 x = nextp m x"
    using chain_lseg [OF pass(3) ws(1,2)] pass(4-7) ws(3) last_in_set [OF ws(1)]
      runs_ext [of m1 m2 "2 * k" ws]
    by (auto simp: m2_def links)
  have loop: "mergesort_loop cmp (int k) p m r =
      (if c \<le> 1 then Some (l, m2, r1) else if 2 ^ 31 \<le> int k * 2 then None
       else mergesort_loop cmp (int k * 2) l m2 r1)"
    using pass(1) ws(1) by (subst mergesort_loop.simps) (simp add: m2_def last_ptr_def)
  have short: "c \<le> 1 \<longleftrightarrow> length xs \<le> 2 * k"
  proof -
    have "c \<le> 1 \<longleftrightarrow> c < 2" by linarith
    also have "\<dots> \<longleftrightarrow> length xs + 2 * k - 1 < 2 * (2 * k)"
      using less.prems(5) unfolding c_def by (simp add: div_less_iff_less_mult)
    also have "\<dots> \<longleftrightarrow> length xs \<le> 2 * k" using less.prems(2,5) by (cases xs) auto
    finally show ?thesis .
  qed
  show ?case
  proof (cases "c \<le> 1")
    case True
    then have "run m2 ws" using m2(4) short ws(4) less.prems(5) runs_short by simp
    then show ?thesis using loop True m2 pass(2) by auto
  next
    case False
    then have long: "2 * k < length xs" using short by simp
    then have "length ws - 2 * k < length xs - k" "length ws < 2 ^ 31" "0 < 2 * k"
      using less.prems(5,6) ws(4) by linarith+
    then obtain l' m' r' ys where IH: "mergesort_loop cmp (int (2 * k)) l m2 r1 = Some (l', m', r')"
      "lpath (nextp m') l' ys" "mset ys = mset ws" "run m' ys" "ext m2 m'" "ok m' r'"
      "\<forall>x. x \<notin> set ws \<longrightarrow> nextp m' x = nextp m2 x"
      using less.hyps [of ws "2 * k" m2 l r1] m2(1,3,4) ws(1) by blast
    have "\<not> 2 ^ 31 \<le> int k * 2" using long less.prems(6) by simp
    moreover have "int k * 2 = int (2 * k)" by simp
    ultimately have "mergesort_loop cmp (int k) p m r = Some (l', m', r')" using loop False IH(1) by metis
    then show ?thesis using IH ext_trans [OF m2(2)] pass(2) m2(6) ws(3) by metis
  qed
qed

theorem mergesort_result:
  assumes "lpath (nextp m) p xs" "xs \<noteq> []" "ok m r" "length xs < 2 ^ 31"
  obtains l m' r' ys where "core_list_mergesort p cmp m r = Some (l, m', r')" "lpath (nextp m') l ys"
    "mset ys = mset xs" "run m' ys" "ext m m'" "ok m' r'" "\<And>x. x \<notin> set xs \<Longrightarrow> nextp m' x = nextp m x"
  using mergesort_loop_result [OF assms(1-3) runs_one _ assms(4)] by (auto simp: core_list_mergesort_def)

text \<open>The same without the vocabulary of the proof.\<close>

theorem mergesort_sorts:
  assumes "lpath (nextp m) p xs" "2 \<le> length xs" "ok m r" "length xs < 2 ^ 31"
  obtains m' r' ys where "core_list_mergesort p cmp m r = Some (Some (hd ys), m', r')"
    "lpath (nextp m') (Some (hd ys)) ys" "mset ys = mset xs" "infop m' = infop m" "ok m' r'"
    "sorted (map (\<lambda>x. key m' (infop m x)) ys)" "\<And>x. x \<in> set xs \<Longrightarrow> known m' (infop m x)"
    "\<And>x. x \<notin> set xs \<Longrightarrow> nextp m' x = nextp m x"
proof -
  have "xs \<noteq> []" using assms(2) by auto
  then obtain l m' r' ys where s: "core_list_mergesort p cmp m r = Some (l, m', r')" "lpath (nextp m') l ys"
    "mset ys = mset xs" "run m' ys" "ext m m'" "ok m' r'" "\<And>x. x \<notin> set xs \<Longrightarrow> nextp m' x = nextp m x"
    using mergesort_result [OF assms(1) _ assms(3,4)] by metis
  have len: "length ys = length xs" "set ys = set xs" using s(3) by (metis size_mset, metis set_mset_mset)
  then have "l = Some (hd ys)" using s(2) assms(2) by (cases ys) auto
  moreover have "srt m' ys" using s(4) assms(2) len by (simp add: run_def)
  moreover have "infop m' = infop m" using s(5) by (simp add: ext_def)
  ultimately show thesis using that s len by (simp add: srt_def kn_def kv_def [abs_def])
qed

end

end
