(* ===== verification/CM_Bench.thy ===== *)
theory CM_Bench
  imports CM_State CM_Matrix CM_Sort
begin

text \<open>
  The CoreMark benchmark as a whole: the comparison that runs the other two kernels
  (\<open>calc_func\<close>), the list kernel \<open>core_bench_list\<close> with its initialisation, and \<open>iterate\<close>.
  The three parts of the memory block are separate components of the model, as they do not
  overlap: the list cells and data items (\<open>list_mem\<close>), the matrices and the bytes of the state
  machine (both in \<open>core_results\<close>).
\<close>

section \<open>The results structure\<close>

record core_results =
  res_seed1 :: u16
  res_seed2 :: u16
  res_seed3 :: u16
  res_memblock3 :: "u8 list"
  res_size :: u32
  res_iterations :: u32
  res_list :: ptr
  res_mat :: mat_params
  res_crc :: u16
  res_crclist :: u16
  res_crcmatrix :: u16
  res_crcstate :: u16

section \<open>Comparisons\<close>

definition calc_func :: "nat \<Rightarrow> list_mem \<Rightarrow> core_results \<Rightarrow> (u16 \<times> list_mem \<times> core_results) option" where
  "calc_func pdata m res =
     (let data = data16 m pdata; optype = drop_bit 7 data AND 1
      in if optype \<noteq> 0 then Some (data AND 0x7F, m, res)
         else do {
           let flag = data AND 7;
           let dtype = drop_bit 3 data AND 0xF;
           let dtype = dtype OR push_bit 4 dtype;
           (retval, res) \<leftarrow>
             (if flag = 0
              then do {
                let dtype = (if sint dtype < 0x22 then 0x22 else dtype);
                (retval, block) \<leftarrow> core_bench_state (res_size res) (res_memblock3 res)
                   (res_seed1 res) (res_seed2 res) dtype (res_crc res);
                let res = res\<lparr>res_memblock3 := block\<rparr>;
                Some (retval, if res_crcstate res = 0 then res\<lparr>res_crcstate := retval\<rparr> else res)
              }
              else if flag = 1
              then let (retval, p) = core_bench_matrix (res_mat res) dtype (res_crc res);
                       res = res\<lparr>res_mat := p\<rparr>
                   in Some (retval, if res_crcmatrix res = 0 then res\<lparr>res_crcmatrix := retval\<rparr> else res)
              else Some (data, res));
           let res = res\<lparr>res_crc := crcu16 retval (res_crc res)\<rparr>;
           let retval = retval AND 0x7F;
           let m = set_data16 pdata ((data AND 0xFF00) OR 0x80 OR retval) m;
           Some (retval, m, res)
         })"

text \<open>The second argument of the comparisons is a pointer to the results, or \<open>NULL\<close>.\<close>

definition cmp_complex :: "core_results option list_cmp" where
  "cmp_complex a b m res =
     do {
       r \<leftarrow> res;
       (val1, m, r) \<leftarrow> calc_func a m r;
       (val2, m, r) \<leftarrow> calc_func b m r;
       Some (sint val1 - sint val2, m, Some r)
     }"

definition regen :: "u16 \<Rightarrow> u16" where
  "regen v = (v AND 0xFF00) OR (0x00FF AND drop_bit 8 v)"

definition cmp_idx :: "core_results option list_cmp" where
  "cmp_idx a b m res =
     (let m = (if res = None
               then let m = set_data16 a (regen (data16 m a)) m in set_data16 b (regen (data16 m b)) m
               else m)
      in Some (sint (idx m a) - sint (idx m b), m, res))"

section \<open>The initial list\<close>

definition list_item_data :: "u16 \<Rightarrow> u32 \<Rightarrow> u16" where
  "list_item_data seed i =
     (let datpat = (seed XOR ucast i) AND 0xF;
          dat = push_bit 3 datpat OR (ucast i AND 7)
      in push_bit 8 dat OR dat)"

primrec insert_items :: "nat \<Rightarrow> nat \<Rightarrow> nat \<Rightarrow> u16 \<Rightarrow> nat \<Rightarrow> nat \<times> nat \<times> list_mem \<Rightarrow> nat \<times> nat \<times> list_mem" where
  "insert_items memblock_end datablock_end list seed 0 s = s"
| "insert_items memblock_end datablock_end list seed (Suc i) s =
     (let (memblock, datablock, m) = insert_items memblock_end datablock_end list seed i s;
          (_, memblock, datablock, m) =
            core_list_insert_new list (list_item_data seed (of_nat i), 0x7FFF) memblock datablock
              memblock_end datablock_end m
      in (memblock, datablock, m))"

definition list_item_index :: "u32 \<Rightarrow> u16 \<Rightarrow> u32 \<Rightarrow> u16" where
  "list_item_index sz seed i =
     (if i < sz div 5 then ucast i
      else let pat = ucast i XOR seed; i = i + 1
           in 0x3FFF AND (push_bit 8 (ucast i AND 7) OR pat))"

partial_function (option) index_items :: "u32 \<Rightarrow> u16 \<Rightarrow> ptr \<Rightarrow> u32 \<Rightarrow> list_mem \<Rightarrow> list_mem option" where
  "index_items sz seed finder i m =
     do {
       f \<leftarrow> finder;
       if nextp m f \<noteq> None
       then index_items sz seed (nextp m f) (i + 1) (set_idx (infop m f) (list_item_index sz seed i) m)
       else Some m
     }"

definition core_list_init :: "u32 \<Rightarrow> u16 \<Rightarrow> list_mem \<Rightarrow> (ptr \<times> list_mem) option" where
  "core_list_init blksize seed m =
     do {
       let per_item = 16 + 4;
       let sz = blksize div per_item - 2;
       let list = 0;
       let memblock = 0;
       let datablock = 0;
       let m = set_info list datablock (set_next list None m);
       let m = set_data16 (infop m list) 0x8080 (set_idx (infop m list) 0 m);
       let (_, memblock, datablock, m) =
         core_list_insert_new list (0xFFFF, 0x7FFF) (memblock + 1) (datablock + 1) (unat sz) (unat sz) m;
       let (_, _, m) = insert_items (unat sz) (unat sz) list seed (unat sz) (memblock, datablock, m);
       m \<leftarrow> index_items sz seed (nextp m list) 1 m;
       (list, m, _) \<leftarrow> core_list_mergesort (Some list) cmp_idx m None;
       Some (list, m)
     }"

section \<open>The list kernel\<close>

text \<open>
  After the search loop \<open>info.data16\<close> still has the value of its last round; without a round it
  is indeterminate, and reading it makes the computation \<open>None\<close>.
\<close>

primrec for_loop_opt :: "nat \<Rightarrow> (nat \<Rightarrow> 's \<Rightarrow> 's option) \<Rightarrow> 's \<Rightarrow> 's option" where
  "for_loop_opt 0 body s = Some s"
| "for_loop_opt (Suc n) body s = do { s \<leftarrow> for_loop_opt n body s; body n s }"

text \<open>Move the cell after \<open>this_find\<close> behind the head of the list.\<close>

definition cache_next :: "nat \<Rightarrow> ptr \<Rightarrow> list_mem \<Rightarrow> list_mem option" where
  "cache_next this_find list m =
     (case nextp m this_find of None \<Rightarrow> Some m
      | Some finder \<Rightarrow> do {
          let m = set_next this_find (nextp m finder) m;
          l \<leftarrow> list;
          let m = set_next finder (nextp m l) m;
          Some (set_next l (Some finder) m)
        })"

text \<open>One round of the search loop, on \<open>retval\<close>, \<open>found\<close>, \<open>missed\<close>, \<open>list\<close>, \<open>info.idx\<close> and the memory.\<close>

type_synonym find_state = "u16 \<times> u16 \<times> u16 \<times> ptr \<times> u16 \<times> list_mem"

definition find_round :: "nat \<Rightarrow> find_state \<Rightarrow> find_state option" where
  "find_round i = (\<lambda>(retval, found, missed, list, info_idx, m).
     do {
       let info = (of_nat i AND 0xFF, info_idx);
       this_find \<leftarrow> core_list_find list info m;
       (list, m) \<leftarrow> core_list_reverse list m;
       (retval, found, missed, m) \<leftarrow>
         (case this_find of
            None \<Rightarrow> do {
              l \<leftarrow> list; n \<leftarrow> nextp m l;
              Some (retval + (drop_bit 8 (data16 m (infop m n)) AND 1), found, missed + 1, m)
            }
          | Some f \<Rightarrow> do {
              let v = data16 m (infop m f);
              let retval = (if v AND 1 \<noteq> 0 then retval + (drop_bit 9 v AND 1) else retval);
              m \<leftarrow> cache_next f list m;
              Some (retval, found + 1, missed, m)
            });
       let info_idx = (if 0 \<le> sint info_idx then info_idx + 1 else info_idx);
       Some (retval, found, missed, list, info_idx, m)
     })"

text \<open>Both checksum loops walk with \<open>finder\<close> but always add the data of \<open>list\<close>.\<close>

partial_function (option) crc_loop :: "ptr \<Rightarrow> ptr \<Rightarrow> list_mem \<Rightarrow> u16 \<Rightarrow> u16 option" where
  "crc_loop finder list m retval =
     (case finder of None \<Rightarrow> Some retval
      | Some f \<Rightarrow> do {
          l \<leftarrow> list;
          crc_loop (nextp m f) list m (crc16 (data16 m (infop m l)) retval)
        })"

definition core_bench_list ::
  "core_results \<Rightarrow> u16 \<Rightarrow> list_mem \<Rightarrow> (u16 \<times> list_mem \<times> core_results) option" where
  "core_bench_list res finder_idx m =
     do {
       let find_num = res_seed3 res;
       (retval, found, missed, list, info_idx, m) \<leftarrow>
         for_loop_opt (nat (sint find_num)) find_round (0, 0, 0, res_list res, finder_idx, m);
       info_data \<leftarrow>
         (if 0 < sint find_num then Some (of_nat (nat (sint find_num) - 1) AND 0xFF)
          else if 0 \<le> sint info_idx then Some 0 else None);
       let info = (info_data, info_idx);
       let retval = retval + (found * 4 - missed);
       (list, m, res) \<leftarrow>
         (if 0 < sint finder_idx
          then do {
            (list, m, r) \<leftarrow> core_list_mergesort list cmp_complex m (Some res);
            res \<leftarrow> r;
            Some (list, m, res)
          }
          else Some (list, m, res));
       l \<leftarrow> list; n \<leftarrow> nextp m l;
       (remover, m) \<leftarrow> core_list_remove n m;
       finder \<leftarrow> core_list_find list info m;
       finder \<leftarrow> (if finder = None then do { l \<leftarrow> list; Some (nextp m l) } else Some finder);
       retval \<leftarrow> crc_loop finder list m retval;
       l \<leftarrow> list; n \<leftarrow> nextp m l;
       let (remover, m) = core_list_undo_remove remover n m;
       (list, m, _) \<leftarrow> core_list_mergesort list cmp_idx m None;
       l \<leftarrow> list;
       retval \<leftarrow> crc_loop (nextp m l) list m retval;
       Some (retval, m, res)
     }"

section \<open>Iterations\<close>

definition iterate_round ::
  "nat \<Rightarrow> list_mem \<times> core_results \<Rightarrow> (list_mem \<times> core_results) option" where
  "iterate_round i = (\<lambda>(m, res).
     do {
       (crc, m, res) \<leftarrow> core_bench_list res 1 m;
       let res = res\<lparr>res_crc := crcu16 crc (res_crc res)\<rparr>;
       (crc, m, res) \<leftarrow> core_bench_list res (- 1) m;
       let res = res\<lparr>res_crc := crcu16 crc (res_crc res)\<rparr>;
       Some (m, if i = 0 then res\<lparr>res_crclist := res_crc res\<rparr> else res)
     })"

definition iterate :: "core_results \<Rightarrow> list_mem \<Rightarrow> (list_mem \<times> core_results) option" where
  "iterate res m =
     (let res = res\<lparr>res_crc := 0, res_crclist := 0, res_crcmatrix := 0, res_crcstate := 0\<rparr>
      in for_loop_opt (unat (res_iterations res)) iterate_round (m, res))"

declare index_items.simps [code] crc_loop.simps [code]

section \<open>What a comparison changes\<close>

text \<open>Bytes of a data word: the upper byte is the backup, bit 7 says that a value is cached.\<close>

definition upper :: "list_mem \<Rightarrow> nat \<Rightarrow> u16" where
  "upper m d = drop_bit 8 (data16 m d)"

definition cached :: "list_mem \<Rightarrow> nat \<Rightarrow> bool" where
  "cached m d \<longleftrightarrow> bit (data16 m d) 7"

definition cached_value :: "list_mem \<Rightarrow> nat \<Rightarrow> int" where
  "cached_value m d = sint (data16 m d AND 0x7F)"

definition restored :: "list_mem \<Rightarrow> nat \<Rightarrow> bool" where
  "restored m d \<longleftrightarrow> regen (data16 m d) = data16 m d"

definition idx_value :: "list_mem \<Rightarrow> nat \<Rightarrow> int" where
  "idx_value m d = sint (idx m d)"

lemma bit16_masks:
  "bit (0xFF00 :: u16) n \<longleftrightarrow> 8 \<le> n \<and> n < 16" "bit (0x80 :: u16) n \<longleftrightarrow> n = 7"
  "bit (0x7F :: u16) n \<longleftrightarrow> n < 7" "bit (0xFF :: u16) n \<longleftrightarrow> n < 8"
proof -
  have eq: "(0xFF00 :: u16) = push_bit 8 (mask 8)" "(0x80 :: u16) = 2 ^ 7" "(0x7F :: u16) = mask 7"
    "(0xFF :: u16) = mask 8"
    by (simp_all add: mask_eq_exp_minus_1 push_bit_eq_mult)
  show "bit (0xFF00 :: u16) n \<longleftrightarrow> 8 \<le> n \<and> n < 16" "bit (0x80 :: u16) n \<longleftrightarrow> n = 7"
    "bit (0x7F :: u16) n \<longleftrightarrow> n < 7" "bit (0xFF :: u16) n \<longleftrightarrow> n < 8"
    unfolding eq bit_push_bit_iff bit_mask_iff bit_exp_iff possible_bit_word by auto
qed

lemma bit16_bound: "bit (v :: u16) n \<Longrightarrow> n < 16"
  by (auto dest: bit_imp_le_length)

lemma bit16_high: "bit (v :: u16) (8 + n) \<Longrightarrow> n < 8"
  using bit16_bound [of v "8 + n"] by simp

lemmas word_bits = bit_and_iff bit_or_iff bit_drop_bit_eq bit_push_bit_iff

lemma cache_word:
  fixes v w :: u16
  defines "u \<equiv> (v AND 0xFF00) OR 0x80 OR (w AND 0x7F)"
  shows "bit u 7" "u AND 0x7F = w AND 0x7F" "drop_bit 8 u = drop_bit 8 v"
  unfolding u_def by (auto intro!: bit_word_eqI simp: word_bits bit16_masks intro: bit16_high simp del: bit_numeral_word_iff)

lemma regen_word: "regen (regen v) = regen v" "drop_bit 8 (regen v) = drop_bit 8 v"
  "regen v = (if drop_bit 8 v = drop_bit 8 w then regen w else regen v)"
proof -
  show "regen (regen v) = regen v" "drop_bit 8 (regen v) = drop_bit 8 v"
    unfolding regen_def by (auto intro!: bit_word_eqI simp: word_bits bit16_masks intro: bit16_high simp del: bit_numeral_word_iff)
  have "regen v = push_bit 8 (drop_bit 8 v) OR drop_bit 8 v" for v
    unfolding regen_def by (auto intro!: bit_word_eqI simp: word_bits bit16_masks intro: bit16_high simp del: bit_numeral_word_iff)
  then show "regen v = (if drop_bit 8 v = drop_bit 8 w then regen w else regen v)" by simp
qed

text \<open>Both bytes of a regenerated word are the backup byte.\<close>

lemma regen_value: "uint (regen v) = 257 * (uint v div 256)"
proof -
  have h: "regen v = push_bit 8 (drop_bit 8 v) OR drop_bit 8 v"
    unfolding regen_def by (auto intro!: bit_word_eqI simp: word_bits bit16_masks intro: bit16_high simp del: bit_numeral_word_iff)
  have d: "uint (drop_bit 8 v) = uint v div 256" by (simp add: uint_drop_bit_div)
  have "uint v div 256 < 256" using uint_bounds_16 [of v] by (intro int_div_less) simp_all
  then have p: "uint (push_bit 8 (drop_bit 8 v)) = uint v div 256 * 256"
    using d by (subst uint_push_bit_small) simp_all
  have "push_bit 8 (drop_bit 8 v) AND drop_bit 8 v = 0"
  proof (rule bit_word_eqI)
    show "bit (push_bit 8 (drop_bit 8 v) AND drop_bit 8 v) n = bit (0 :: u16) n" for n
      using bit16_high [of v n] by (auto simp: word_bits)
  qed
  then show ?thesis unfolding h by (simp add: uint_or_disjoint d p)
qed

lemma cached_bit: "drop_bit 7 v AND 1 \<noteq> (0 :: u16) \<longleftrightarrow> bit v 7"
  by (simp add: low_bit_word bit_simps)

section \<open>The state machine block during the benchmark\<close>

text \<open>
  The block has two adjacent NUL bytes, and no byte is turned into a comma by the corruption:
  then the kernel returns and leaves the block unchanged.
\<close>

definition state_block_ok :: "core_results \<Rightarrow> bool" where
  "state_block_ok res \<longleftrightarrow>
     (let block = res_memblock3 res; seed = (ucast (res_seed1 res) :: u8)
      in unat (res_size res) \<le> length block \<and>
         (\<exists>i. Suc i < length block \<and> block ! i = 0 \<and> block ! Suc i = 0) \<and>
         ucast (res_seed2 res) = seed \<and> (seed = 0 \<or> (\<forall>c \<in> set block. c \<noteq> 0x2C \<longrightarrow> c XOR seed \<noteq> 0x2C)))"

lemma bench_state_restores:
  assumes ok: "state_block_ok res" and step: "2 \<le> sint step"
  shows "\<exists>crc'. core_bench_state (res_size res) (res_memblock3 res) (res_seed1 res) (res_seed2 res) step crc =
    Some (crc', res_memblock3 res)"
proof -
  let ?mem = "res_memblock3 res" and ?n = "uint (res_size res)"
  obtain i where nul: "Suc i < length ?mem" "?mem ! i = 0" "?mem ! Suc i = 0"
    using ok by (auto simp: state_block_ok_def Let_def)
  have "unat (res_size res) \<le> length ?mem" using ok by (simp add: state_block_ok_def Let_def)
  then have len: "?n \<le> int (length ?mem)" by (simp only: uint_nat of_nat_le_iff)
  have z: "0 \<in> set (drop 0 ?mem)" using nul nth_mem [of i ?mem] by simp
  obtain fc tc where s1: "scan_all ?mem 0 (\<lambda>_. 0) (\<lambda>_. 0) = Some (fc, tc)" using scan_all_returns [OF z] by blast
  have pos: "0 < sint step" using step by simp
  obtain mem1 mem2 where c: "corrupt ?mem 0 ?n (sint step) (ucast (res_seed1 res)) = Some mem1"
    "corrupt mem1 0 ?n (sint step) (ucast (res_seed1 res)) = Some mem2"
    "mem2 = ?mem \<longleftrightarrow> ucast (res_seed1 res) = (0 :: u8) \<or>
       (\<forall>i. corrupted_at 0 ?n (sint step) i \<longrightarrow> ?mem ! i \<noteq> 0x2C \<longrightarrow> ?mem ! i XOR ucast (res_seed1 res) \<noteq> 0x2C)"
    by (rule corrupt_twice [OF pos len, of "ucast (res_seed1 res)"]) (rule that)
  have "?mem ! i \<in> set ?mem" if "corrupted_at 0 ?n (sint step) i" for i
    using that len by (auto simp: corrupted_at_def intro!: nth_mem)
  then have "mem2 = ?mem" using ok by (auto simp: c(3) state_block_ok_def Let_def)
  moreover have "0 \<in> set mem1" using corrupt_keeps_nul [OF step len c(1) nul] by simp
  then obtain fc2 tc2 where s2: "scan_all mem1 0 fc tc = Some (fc2, tc2)"
    using scan_all_returns [of 0 mem1 fc tc] by auto
  moreover have "ucast (res_seed2 res) = (ucast (res_seed1 res) :: u8)"
    using ok by (simp add: state_block_ok_def Let_def)
  ultimately show ?thesis using s1 c(1,2) by (simp add: core_bench_state_def)
qed

section \<open>The contracts of the two comparisons\<close>

definition res_ok :: "core_results \<Rightarrow> bool" where
  "res_ok res \<longleftrightarrow> wf_mat (res_mat res) \<and> state_block_ok res"

text \<open>Everything but the checksums and the result matrix is unchanged.\<close>

definition same_input :: "core_results \<Rightarrow> core_results \<Rightarrow> bool" where
  "same_input r r' \<longleftrightarrow> res_seed1 r' = res_seed1 r \<and> res_seed2 r' = res_seed2 r \<and> res_seed3 r' = res_seed3 r \<and>
     res_memblock3 r' = res_memblock3 r \<and> res_size r' = res_size r \<and> res_iterations r' = res_iterations r \<and>
     res_list r' = res_list r \<and> matN (res_mat r') = matN (res_mat r) \<and> matA (res_mat r') = matA (res_mat r) \<and>
     matB (res_mat r') = matB (res_mat r)"

lemma same_input_refl [simp]: "same_input r r" by (simp add: same_input_def)

lemma same_input_trans: "same_input r r' \<Longrightarrow> same_input r' r'' \<Longrightarrow> same_input r r''"
  by (simp add: same_input_def)

lemma state_block_same: "same_input r r' \<Longrightarrow> state_block_ok r' = state_block_ok r"
  by (simp add: same_input_def state_block_ok_def)

definition calc_change :: "nat \<Rightarrow> list_mem \<Rightarrow> list_mem \<Rightarrow> bool" where
  "calc_change d m m' \<longleftrightarrow> nextp m' = nextp m \<and> infop m' = infop m \<and> idx m' = idx m \<and> upper m' = upper m \<and>
     (\<forall>x. x \<noteq> d \<or> cached m x \<longrightarrow> data16 m' x = data16 m x) \<and> cached m' d"

theorem calc_func_result:
  assumes "res_ok r"
  obtains v m' r' where "calc_func d m r = Some (v, m', r')" "res_ok r'" "same_input r r'"
    "calc_change d m m'" "sint v = cached_value m' d"
proof (cases "cached m d")
  case True
  then have "drop_bit 7 (data16 m d) AND 1 \<noteq> 0" using cached_bit by (simp add: cached_def)
  then show thesis using that [of "data16 m d AND 0x7F" m r] assms True
    by (simp add: calc_func_def calc_change_def cached_value_def del: One_nat_def)
next
  case False
  then have opt: "\<not> drop_bit 7 (data16 m d) AND 1 \<noteq> 0" using cached_bit by (simp add: cached_def)
  define v where "v = data16 m d"
  define dtype where "dtype = (drop_bit 3 v AND 0xF) OR push_bit 4 (drop_bit 3 v AND 0xF)"
  have "\<exists>retval r1. (if v AND 7 = 0
              then do {
                let dtype = (if sint dtype < 0x22 then 0x22 else dtype);
                (retval, block) \<leftarrow> core_bench_state (res_size r) (res_memblock3 r)
                   (res_seed1 r) (res_seed2 r) dtype (res_crc r);
                let res = r\<lparr>res_memblock3 := block\<rparr>;
                Some (retval, if res_crcstate res = 0 then res\<lparr>res_crcstate := retval\<rparr> else res)
              }
              else if v AND 7 = 1
              then let (retval, p) = core_bench_matrix (res_mat r) dtype (res_crc r);
                       res = r\<lparr>res_mat := p\<rparr>
                   in Some (retval, if res_crcmatrix res = 0 then res\<lparr>res_crcmatrix := retval\<rparr> else res)
              else Some (v, r)) = Some (retval, r1) \<and> res_ok r1 \<and> same_input r r1"
  proof -
    consider "v AND 7 = 0" | "v AND 7 \<noteq> 0" "v AND 7 = 1" | "v AND 7 \<noteq> 0" "v AND 7 \<noteq> 1" by blast
    then show ?thesis
    proof cases
      case 1
      have "2 \<le> sint (if sint dtype < 0x22 then 0x22 else dtype)" by simp
      from bench_state_restores [OF _ this, of r "res_crc r"] assms
      show ?thesis using 1 by (auto simp: res_ok_def state_block_ok_def same_input_def Let_def)
    next
      case 2
      obtain crc C where "matrix_test (matN (res_mat r)) (matC (res_mat r)) (matA (res_mat r)) (matB (res_mat r)) dtype =
          (crc, C, matA (res_mat r))" "length C = matN (res_mat r) * matN (res_mat r)"
        using matrix_test_result [of "matA (res_mat r)" "matN (res_mat r)" "matC (res_mat r)"
            "matB (res_mat r)" dtype] assms
        unfolding res_ok_def wf_mat_def by metis
      then show ?thesis using 2 assms
        by (auto simp: core_bench_matrix_def res_ok_def wf_mat_def state_block_ok_def same_input_def Let_def)
    next
      case 3
      then show ?thesis using assms by simp
    qed
  qed
  then obtain w r1 where r1: "res_ok r1" "same_input r r1" and
    eq: "calc_func d m r = Some (w AND 0x7F, set_data16 d ((v AND 0xFF00) OR 0x80 OR (w AND 0x7F)) m,
          r1\<lparr>res_crc := crcu16 w (res_crc r1)\<rparr>)"
    using opt unfolding calc_func_def v_def [symmetric] dtype_def [symmetric] Let_def by auto
  note cw = cache_word [of v w]
  have up: "upper (set_data16 d ((v AND 0xFF00) OR 0x80 OR (w AND 0x7F)) m) = upper m"
    using cw(3) by (auto simp: upper_def v_def fun_eq_iff)
  show thesis
  proof (rule that [OF eq])
    show "res_ok (r1\<lparr>res_crc := crcu16 w (res_crc r1)\<rparr>)" "same_input r (r1\<lparr>res_crc := crcu16 w (res_crc r1)\<rparr>)"
      using r1 by (simp_all add: res_ok_def state_block_ok_def same_input_def)
    show "calc_change d m (set_data16 d ((v AND 0xFF00) OR 0x80 OR (w AND 0x7F)) m)"
      using up cw(1) False by (auto simp: calc_change_def cached_def)
    show "sint (w AND 0x7F) = cached_value (set_data16 d ((v AND 0xFF00) OR 0x80 OR (w AND 0x7F)) m) d"
      using cw(2) by (simp add: cached_value_def)
  qed
qed

definition complex_ok :: "list_mem \<Rightarrow> core_results \<Rightarrow> list_mem \<Rightarrow> core_results option \<Rightarrow> bool" where
  "complex_ok m0 r0 m res \<longleftrightarrow> idx m = idx m0 \<and> upper m = upper m0 \<and>
     (\<exists>r. res = Some r \<and> res_ok r \<and> same_input r0 r)"

definition idx_ok :: "list_mem \<Rightarrow> list_mem \<Rightarrow> core_results option \<Rightarrow> bool" where
  "idx_ok m0 m res \<longleftrightarrow> idx m = idx m0 \<and> upper m = upper m0 \<and> res = None"

lemma set_next_views [simp]: "upper (set_next x p m) = upper m" "cached (set_next x p m) = cached m"
  "cached_value (set_next x p m) = cached_value m" "restored (set_next x p m) = restored m"
  "idx_value (set_next x p m) = idx_value m"
  by (simp_all add: fun_eq_iff upper_def cached_def cached_value_def restored_def idx_value_def)

lemma calc_change_keeps:
  "calc_change d m m' \<Longrightarrow> cached m x \<Longrightarrow> cached m' x \<and> cached_value m' x = cached_value m x"
proof -
  assume "calc_change d m m'" "cached m x"
  then have "data16 m' x = data16 m x" unfolding calc_change_def by blast
  then show ?thesis using \<open>cached m x\<close> by (simp add: cached_def cached_value_def)
qed

interpretation complex: list_compare cmp_complex cached cached_value "complex_ok m0 r0" for m0 r0
proof
  fix m res a b
  assume ok: "complex_ok m0 r0 m res"
  then obtain r where r: "res = Some r" "res_ok r" "same_input r0 r" by (auto simp: complex_ok_def)
  obtain v1 m1 r1 where 1: "calc_func a m r = Some (v1, m1, r1)" "res_ok r1" "same_input r r1"
    "calc_change a m m1" "sint v1 = cached_value m1 a" using calc_func_result [OF r(2)] by metis
  obtain v2 m2 r2 where 2: "calc_func b m1 r1 = Some (v2, m2, r2)" "res_ok r2" "same_input r1 r2"
    "calc_change b m1 m2" "sint v2 = cached_value m2 b" using calc_func_result [OF 1(2)] by metis
  have a: "cached m2 a" "cached_value m2 a = cached_value m1 a"
    using calc_change_keeps [OF 2(4), of a] 1(4) by (auto simp: calc_change_def)
  have "cmp_complex a b m res = Some (sint v1 - sint v2, m2, Some r2)"
    using r(1) 1(1) 2(1) by (simp add: cmp_complex_def)
  moreover have "complex_ok m0 r0 m2 (Some r2)"
    using ok 1(4) 2(2,4) same_input_trans [OF r(3) same_input_trans [OF 1(3) 2(3)]]
    by (simp add: complex_ok_def calc_change_def)
  moreover have "cached m2 x \<and> cached_value m2 x = cached_value m x" if "cached m x" for x
    using calc_change_keeps [OF 1(4) that] calc_change_keeps [OF 2(4)] by metis
  moreover have "nextp m2 = nextp m" "infop m2 = infop m" "cached m2 b"
    using 1(4) 2(4) by (auto simp: calc_change_def)
  moreover have "sint v1 - sint v2 \<le> 0 \<longleftrightarrow> cached_value m2 a \<le> cached_value m2 b" using a 1(5) 2(5) by simp
  ultimately show "\<exists>c m' r'. cmp_complex a b m res = Some (c, m', r') \<and> complex_ok m0 r0 m' r' \<and>
      nextp m' = nextp m \<and> infop m' = infop m \<and> cached m' a \<and> cached m' b \<and>
      (c \<le> 0 \<longleftrightarrow> cached_value m' a \<le> cached_value m' b) \<and>
      (\<forall>x. cached m x \<longrightarrow> cached m' x \<and> cached_value m' x = cached_value m x)"
    using a by blast
qed (simp_all add: complex_ok_def)

definition idx_regen :: "list_mem \<Rightarrow> list_mem \<Rightarrow> core_results option \<Rightarrow> bool" where
  "idx_regen m0 m res \<longleftrightarrow> idx_ok m0 m res \<and> (\<forall>d. data16 m d = data16 m0 d \<or> data16 m d = regen (data16 m0 d))"

text \<open>What the comparison by index does to the data words.\<close>

lemma cmp_idx_result:
  obtains m' where "cmp_idx a b m None = Some (sint (idx m' a) - sint (idx m' b), m', None)"
    "\<And>x. data16 m' x = (if x = a \<or> x = b then regen (data16 m x) else data16 m x)"
    "upper m' = upper m" "nextp m' = nextp m" "infop m' = infop m" "idx m' = idx m"
proof -
  define m' where "m' = set_data16 b (regen (data16 (set_data16 a (regen (data16 m a)) m) b)) (set_data16 a (regen (data16 m a)) m)"
  have d: "data16 m' x = (if x = a \<or> x = b then regen (data16 m x) else data16 m x)" for x
    by (simp add: m'_def regen_word(1))
  moreover have "upper m' = upper m" by (auto simp: upper_def fun_eq_iff d regen_word(2))
  ultimately show thesis by (intro that [of m']) (simp_all add: cmp_idx_def m'_def Let_def)
qed

lemma idx_contract:
  assumes "\<And>m'. infop m' = infop m \<Longrightarrow> idx m' = idx m \<Longrightarrow> upper m' = upper m \<Longrightarrow>
      (\<And>x. data16 m' x = data16 m x \<or> data16 m' x = regen (data16 m x)) \<Longrightarrow> ok m'"
  shows "\<exists>c m' r'. cmp_idx a b m None = Some (c, m', r') \<and> (ok m' \<and> r' = None) \<and>
      nextp m' = nextp m \<and> infop m' = infop m \<and> restored m' a \<and> restored m' b \<and>
      (c \<le> 0 \<longleftrightarrow> idx_value m' a \<le> idx_value m' b) \<and>
      (\<forall>x. restored m x \<longrightarrow> restored m' x \<and> idx_value m' x = idx_value m x)"
proof -
  obtain m' where m': "cmp_idx a b m None = Some (sint (idx m' a) - sint (idx m' b), m', None)"
    "\<And>x. data16 m' x = (if x = a \<or> x = b then regen (data16 m x) else data16 m x)"
    "upper m' = upper m" "nextp m' = nextp m" "infop m' = infop m" "idx m' = idx m" by (rule cmp_idx_result) (rule that)
  have "ok m'" by (rule assms) (use m' in auto)
  then show ?thesis using m' by (auto simp: restored_def idx_value_def regen_word(1))
qed

interpretation index: list_compare cmp_idx restored idx_value "idx_ok m0" for m0
proof
  fix m and res :: "core_results option" and a b
  assume ok: "idx_ok m0 m res"
  then have "res = None" "\<And>m'. idx m' = idx m \<Longrightarrow> upper m' = upper m \<Longrightarrow> idx_ok m0 m' None" by (simp_all add: idx_ok_def)
  then show "\<exists>c m' r'. cmp_idx a b m res = Some (c, m', r') \<and> idx_ok m0 m' r' \<and>
      nextp m' = nextp m \<and> infop m' = infop m \<and> restored m' a \<and> restored m' b \<and>
      (c \<le> 0 \<longleftrightarrow> idx_value m' a \<le> idx_value m' b) \<and>
      (\<forall>x. restored m x \<longrightarrow> restored m' x \<and> idx_value m' x = idx_value m x)"
    using idx_contract [of m "\<lambda>m'. idx_ok m0 m' None" a b] by metis
qed (simp_all add: idx_ok_def)

text \<open>The sort by index changes a data word only to the copy of its backup byte.\<close>

interpretation index_data: list_compare cmp_idx restored idx_value "idx_regen m0" for m0
proof
  fix m and res :: "core_results option" and a b
  assume ok: "idx_regen m0 m res"
  then have "res = None" by (simp add: idx_regen_def idx_ok_def)
  moreover have "idx_regen m0 m' None" if "idx m' = idx m" "upper m' = upper m"
    "\<And>x. data16 m' x = data16 m x \<or> data16 m' x = regen (data16 m x)" for m'
  proof -
    have "data16 m' d = data16 m0 d \<or> data16 m' d = regen (data16 m0 d)" for d
      using ok that(3) [of d] unfolding idx_regen_def by (metis regen_word(1))
    then show ?thesis using ok that(1,2) by (simp add: idx_regen_def idx_ok_def)
  qed
  ultimately show "\<exists>c m' r'. cmp_idx a b m res = Some (c, m', r') \<and> idx_regen m0 m' r' \<and>
      nextp m' = nextp m \<and> infop m' = infop m \<and> restored m' a \<and> restored m' b \<and>
      (c \<le> 0 \<longleftrightarrow> idx_value m' a \<le> idx_value m' b) \<and>
      (\<forall>x. restored m x \<longrightarrow> restored m' x \<and> idx_value m' x = idx_value m x)"
    using idx_contract [of m "\<lambda>m'. idx_regen m0 m' None" a b] by metis
qed (simp_all add: idx_regen_def idx_ok_def)

end
