(* ===== verification/CM_Kernel.thy ===== *)
theory CM_Kernel
  imports CM_Bench
begin

text \<open>
  CoreMark's list kernel returns and puts the list back: \<open>core_bench_list\<close> and \<open>iterate\<close>
  never follow \<open>NULL\<close>, leave a block or loop forever, every call of the kernel leaves the
  list in the order of its indices with the data words restored from their backup, and
  the operands of the two other kernels are unchanged.
\<close>

section \<open>The list operations of the kernel\<close>

text \<open>Two memories with the same data, whose links differ only on the cells \<open>xs\<close>.\<close>

definition relinked :: "nat list \<Rightarrow> list_mem \<Rightarrow> list_mem \<Rightarrow> bool" where
  "relinked xs m m' \<longleftrightarrow> infop m' = infop m \<and> data16 m' = data16 m \<and> idx m' = idx m \<and>
     (\<forall>x. x \<notin> set xs \<longrightarrow> nextp m' x = nextp m x)"

lemma relinked_refl [simp]: "relinked xs m m" by (simp add: relinked_def)

lemma relinked_trans: "relinked xs m m' \<Longrightarrow> relinked ys m' m'' \<Longrightarrow> set ys = set xs \<Longrightarrow> relinked xs m m''"
  by (simp add: relinked_def)

theorem cache_next_result:
  assumes path: "lpath (nextp m) p xs" and f: "f \<in> set xs"
  obtains m' ys where "cache_next f p m = Some m'" "lpath (nextp m') p ys" "mset ys = mset xs" "relinked xs m m'"
proof -
  have d: "distinct xs" using lpath_distinct [OF path] .
  obtain as bs where xs: "xs = as @ f # bs" using f by (meson split_list)
  show thesis
  proof (cases bs)
    case Nil
    then have "nextp m f = None" using path xs by auto
    then show thesis using that [of m xs] path by (simp add: cache_next_def)
  next
    case (Cons g cs)
    then have g: "nextp m f = Some g" "lpath (nextp m) (nextp m g) cs" using path xs by auto
    show thesis
    proof (cases as)
      case Nil
      then have p: "p = Some f" using path xs by simp
      let ?m = "set_next f (Some g) (set_next g (nextp m g) (set_next f (nextp m g) m))"
      have "nextp ?m = nextp m" using g(1) by (auto simp: fun_eq_iff)
      moreover have "cache_next f p m = Some ?m" using g(1) p by (simp add: cache_next_def)
      ultimately show thesis using that [of ?m xs] path by (simp add: relinked_def)
    next
      case as: (Cons l as')
      then have p: "p = Some l" "lpath (nextp m) (nextp m l) (as' @ f # g # cs)" using path xs Cons by auto
      let ?m = "set_next l (Some g) (set_next g (nextp m l) (set_next f (nextp m g) m))"
      have dist: "distinct (l # as' @ f # g # cs)" using d xs as Cons by simp
      have "cache_next f p m = Some ?m" using g(1) p(1) dist by (auto simp: cache_next_def)
      moreover have "lpath (nextp ?m) p (l # g # as' @ f # cs)"
        using p g(2) dist by auto
      moreover have "mset (l # g # as' @ f # cs) = mset xs" using xs as Cons by simp
      moreover have "relinked xs m ?m" using xs as Cons by (auto simp: relinked_def)
      ultimately show thesis by (rule that)
    qed
  qed
qed

lemma core_list_find_result:
  assumes "lpath (nextp m) p xs"
  obtains r where "core_list_find p info m = Some r" "\<And>x. r = Some x \<Longrightarrow> x \<in> set xs"
proof -
  have in_set: "List.find P xs = Some x \<Longrightarrow> x \<in> set xs" for P x
    by (auto simp: find_Some_iff)
  define P where "P = (if 0 \<le> sint (snd info) then (\<lambda>d. idx m d = snd info) else (\<lambda>d. data16 m d AND 0xFF = fst info))"
  have "core_list_find p info m = find_loop P p m" by (simp add: core_list_find_def P_def)
  then have "core_list_find p info m = Some (List.find (\<lambda>x. P (infop m x)) xs)"
    using find_loop_result [OF assms, of P] by simp
  then show thesis using that in_set by blast
qed

theorem find_round_result:
  assumes path: "lpath (nextp m) p xs" and len: "2 \<le> length xs"
  shows "\<exists>retval' found' missed' p' info_idx' m' ys.
    find_round i (retval, found, missed, p, info_idx, m) = Some (retval', found', missed', p', info_idx', m') \<and>
    lpath (nextp m') p' ys \<and> mset ys = mset xs \<and> relinked xs m m'"
proof -
  obtain this_find where find: "core_list_find p (of_nat i AND 0xFF, info_idx) m = Some this_find"
    "\<And>x. this_find = Some x \<Longrightarrow> x \<in> set xs"
    using core_list_find_result [OF path] by metis
  obtain q m1 where rev: "core_list_reverse p m = Some (q, m1)" "lpath (nextp m1) q (rev xs)" "relinked xs m m1"
    using core_list_reverse_result [OF path] unfolding relinked_def by metis
  show ?thesis
  proof (cases this_find)
    case None
    obtain l n zs where "rev xs = l # n # zs" using len
      by (metis One_nat_def Suc_1 Suc_le_length_iff length_rev)
    then have "q = Some l" "nextp m1 l = Some n" using rev(2) by auto
    then show ?thesis using find(1) None rev by (auto simp: find_round_def Let_def)
  next
    case (Some f)
    then have "f \<in> set (rev xs)" using find(2) by auto
    obtain m2 ys where c: "cache_next f q m1 = Some m2" "lpath (nextp m2) q ys" "mset ys = mset (rev xs)" "relinked (rev xs) m1 m2"
      by (rule cache_next_result [OF rev(2) \<open>f \<in> set (rev xs)\<close>]) (rule that)
    have "relinked xs m m2" using relinked_trans [OF rev(3) c(4)] by simp
    then show ?thesis using find(1) Some rev c by (auto simp: find_round_def Let_def)
  qed
qed

lemma find_rounds_result:
  assumes path: "lpath (nextp m) p xs" and len: "2 \<le> length xs"
  shows "\<exists>retval' found' missed' p' info_idx' m' ys.
    for_loop_opt n find_round (retval, found, missed, p, info_idx, m) = Some (retval', found', missed', p', info_idx', m') \<and>
    lpath (nextp m') p' ys \<and> mset ys = mset xs \<and> relinked xs m m'"
proof (induction n)
  case 0
  then show ?case using path by auto
next
  case (Suc n)
  then obtain retval1 found1 missed1 p1 info_idx1 m1 ys where 1:
    "for_loop_opt n find_round (retval, found, missed, p, info_idx, m) = Some (retval1, found1, missed1, p1, info_idx1, m1)"
    "lpath (nextp m1) p1 ys" "mset ys = mset xs" "relinked xs m m1" by blast
  have "length ys = length xs" "set ys = set xs" using 1(3) by (metis size_mset, metis set_mset_mset)
  then have "2 \<le> length ys" using len by simp
  from find_round_result [OF 1(2) this, of n retval1 found1 missed1 info_idx1]
  obtain retval2 found2 missed2 p2 info_idx2 m2 zs where
    "find_round n (retval1, found1, missed1, p1, info_idx1, m1) = Some (retval2, found2, missed2, p2, info_idx2, m2)"
    "lpath (nextp m2) p2 zs" "mset zs = mset ys" "relinked ys m1 m2" by blast
  then show ?case using 1 relinked_trans [OF 1(4)] \<open>set ys = set xs\<close> by auto
qed

lemma crc_loop_returns:
  "lpath (nextp m) q ys \<Longrightarrow> list = Some l \<Longrightarrow> \<exists>retval'. crc_loop q list m retval = Some retval'"
proof (induction ys arbitrary: q retval)
  case Nil
  then show ?case by (subst crc_loop.simps) simp
next
  case (Cons y ys)
  then show ?case by (subst crc_loop.simps) auto
qed

section \<open>The list kernel returns and restores\<close>

lemma lpath_from:
  "lpath n p xs \<Longrightarrow> x \<in> set xs \<Longrightarrow> \<exists>ys. lpath n (Some x) ys"
  by (metis lseg.simps(2) lseg_append split_list)

text \<open>The part between the two sorts: remove the second cell, add up checksums, put it back.\<close>

definition remove_and_undo :: "ptr \<Rightarrow> u16 \<times> u16 \<Rightarrow> list_mem \<Rightarrow> u16 \<Rightarrow> (u16 \<times> list_mem) option" where
  "remove_and_undo list info m retval =
     do {
       l \<leftarrow> list; n \<leftarrow> nextp m l;
       (remover, m) \<leftarrow> core_list_remove n m;
       finder \<leftarrow> core_list_find list info m;
       finder \<leftarrow> (if finder = None then do { l \<leftarrow> list; Some (nextp m l) } else Some finder);
       retval \<leftarrow> crc_loop finder list m retval;
       l \<leftarrow> list; n \<leftarrow> nextp m l;
       Some (retval, snd (core_list_undo_remove remover n m))
     }"

lemma remove_and_undo_result:
  assumes path: "lpath (nextp m) p xs" and len: "3 \<le> length xs"
  shows "\<exists>retval'. remove_and_undo p info m retval = Some (retval', m)"
proof -
  obtain l n r zs where xs: "xs = l # n # r # zs" using len
    by (metis Suc_le_length_iff numeral_3_eq_3)
  have p: "p = Some l" "nextp m l = Some n" using path xs by auto
  obtain m' where rm: "core_list_remove n m = Some (r, m')" "lpath (nextp m') p (l # n # zs)"
    "core_list_undo_remove r n m' = (r, m)"
    using core_list_remove_result [of m p "[l]" n r zs] path xs by auto
  then have n: "nextp m' l = Some n" by auto
  obtain f where f: "core_list_find p info m' = Some f" "\<And>x. f = Some x \<Longrightarrow> x \<in> set (l # n # zs)"
    using core_list_find_result [OF rm(2)] by metis
  have "\<exists>ys. lpath (nextp m') (if f = None then Some n else f) ys"
    using f(2) lpath_from [OF rm(2)] by (cases f) auto
  then obtain retval' where "crc_loop (if f = None then Some n else f) p m' retval = Some retval'"
    using crc_loop_returns p(1) by metis
  then show ?thesis using p n rm f(1) by (auto simp: remove_and_undo_def split: if_splits)
qed

lemma core_bench_list_parts:
  "core_bench_list res finder_idx m =
     do {
       let find_num = res_seed3 res;
       (retval, found, missed, list, info_idx, m) \<leftarrow>
         for_loop_opt (nat (sint find_num)) find_round (0, 0, 0, res_list res, finder_idx, m);
       info_data \<leftarrow>
         (if 0 < sint find_num then Some (of_nat (nat (sint find_num) - 1) AND 0xFF)
          else if 0 \<le> sint info_idx then Some 0 else None);
       (list, m, res) \<leftarrow>
         (if 0 < sint finder_idx
          then do {
            (list, m, r) \<leftarrow> core_list_mergesort list cmp_complex m (Some res);
            res \<leftarrow> r;
            Some (list, m, res)
          }
          else Some (list, m, res));
       (retval, m) \<leftarrow> remove_and_undo list (info_data, info_idx) m (retval + (found * 4 - missed));
       (list, m, _) \<leftarrow> core_list_mergesort list cmp_idx m None;
       l \<leftarrow> list;
       retval \<leftarrow> crc_loop (nextp m l) list m retval;
       Some (retval, m, res)
     }"
  by (simp add: core_bench_list_def remove_and_undo_def Let_def case_prod_unfold
      cong: Option.bind_cong)

lemma second_phase_result:
  assumes path: "lpath (nextp m) p xs" and len: "2 \<le> length xs" "length xs < 2 ^ 31" and ok: "res_ok res"
  shows "\<exists>p' m' res' ys. (if 0 < sint finder_idx
          then do {
            (list, m, r) \<leftarrow> core_list_mergesort p cmp_complex m (Some res);
            res \<leftarrow> r;
            Some (list, m, res)
          }
          else Some (p, m, res)) = Some (p', m', res') \<and> lpath (nextp m') p' ys \<and> mset ys = mset xs \<and>
       infop m' = infop m \<and> idx m' = idx m \<and> upper m' = upper m \<and> res_ok res' \<and> same_input res res'"
proof (cases "0 < sint finder_idx")
  case False
  then show ?thesis using path ok by auto
next
  case True
  have "complex_ok m res m (Some res)" using ok by (simp add: complex_ok_def)
  then obtain m' r' ys where s: "core_list_mergesort p cmp_complex m (Some res) = Some (Some (hd ys), m', r')"
    "lpath (nextp m') (Some (hd ys)) ys" "mset ys = mset xs" "infop m' = infop m" "complex_ok m res m' r'"
    using complex.mergesort_sorts [OF path len(1) _ len(2)] by metis
  then show ?thesis using True by (auto simp: complex_ok_def)
qed

theorem core_bench_list_result:
  assumes ok: "res_ok res" and find_num: "0 < sint (res_seed3 res)"
    and path: "lpath (nextp m) (res_list res) xs" and len: "3 \<le> length xs" "length xs < 2 ^ 31"
  obtains retval m' res' ys where "core_bench_list res finder_idx m = Some (retval, m', res')"
    "res_ok res'" "same_input res res'" "lpath (nextp m') (Some (hd ys)) ys" "mset ys = mset xs"
    "sorted (map (\<lambda>x. idx_value m (infop m x)) ys)" "infop m' = infop m" "idx m' = idx m"
    "upper m' = upper m" "\<And>x. x \<in> set xs \<Longrightarrow> restored m' (infop m x)"
proof -
  have len2: "2 \<le> length xs" using len(1) by simp
  obtain retval1 found missed p1 info_idx m1 ys1 where 1:
    "for_loop_opt (nat (sint (res_seed3 res))) find_round (0, 0, 0, res_list res, finder_idx, m) =
       Some (retval1, found, missed, p1, info_idx, m1)"
    "lpath (nextp m1) p1 ys1" "mset ys1 = mset xs" "relinked xs m m1"
    using find_rounds_result [OF path len2] by blast
  have l1: "length ys1 = length xs" using 1(3) by (metis size_mset)
  obtain p2 m2 res2 ys2 where 2: "(if 0 < sint finder_idx
          then do {
            (list, m, r) \<leftarrow> core_list_mergesort p1 cmp_complex m1 (Some res);
            res \<leftarrow> r;
            Some (list, m, res)
          }
          else Some (p1, m1, res)) = Some (p2, m2, res2)" "lpath (nextp m2) p2 ys2" "mset ys2 = mset ys1"
    "infop m2 = infop m1" "idx m2 = idx m1" "upper m2 = upper m1" "res_ok res2" "same_input res res2"
    using second_phase_result [OF 1(2) _ _ ok] len2 len(2) unfolding l1 by blast
  have l2: "length ys2 = length xs" using 2(3) l1 by (metis size_mset)
  obtain retval2 where 3: "remove_and_undo p2 (of_nat (nat (sint (res_seed3 res)) - 1) AND 0xFF, info_idx) m2
      (retval1 + (found * 4 - missed)) = Some (retval2, m2)"
    using remove_and_undo_result [OF 2(2)] len(1) l2 by metis
  have same: "infop m2 = infop m" "idx m2 = idx m" "upper m2 = upper m"
    using 1(4) 2(4-6) by (simp_all add: relinked_def upper_def fun_eq_iff)
  have "2 \<le> length ys2" "length ys2 < 2 ^ 31" "idx_ok m m2 None" using len2 len(2) l2 same by (simp_all add: idx_ok_def)
  then obtain m3 r3 ys where 4: "core_list_mergesort p2 cmp_idx m2 None = Some (Some (hd ys), m3, r3)"
    "lpath (nextp m3) (Some (hd ys)) ys" "mset ys = mset ys2" "infop m3 = infop m2" "idx_ok m m3 r3"
    "sorted (map (\<lambda>x. idx_value m3 (infop m2 x)) ys)" "\<And>x. x \<in> set ys2 \<Longrightarrow> restored m3 (infop m2 x)"
    using index.mergesort_sorts [OF 2(2)] by metis
  have "ys \<noteq> []" using 4(3) l2 len(1) by auto
  then have "lpath (nextp m3) (nextp m3 (hd ys)) (tl ys)" using 4(2) by (cases ys) auto
  then obtain retval3 where 5: "crc_loop (nextp m3 (hd ys)) (Some (hd ys)) m3 retval2 = Some retval3"
    using crc_loop_returns by metis
  have "core_bench_list res finder_idx m = Some (retval3, m3, res2)"
    unfolding core_bench_list_parts using 1(1) find_num 2(1) 3 4(1) 5 by simp
  moreover have "set ys2 = set xs" using 1(3) 2(3) by (metis set_mset_mset)
  moreover have "idx_value m3 = idx_value m" using 4(5) same by (simp add: idx_ok_def idx_value_def fun_eq_iff)
  ultimately show thesis
    using that [of retval3 m3 res2 ys] 2(7,8) 4 same 1(3) 2(3) by (simp add: idx_ok_def)
qed

section \<open>Iterations\<close>

text \<open>
  What holds between two calls of the list kernel: the operands of the two other kernels are
  in order, and the list is in the order of its indices, which are distinct.
\<close>

definition bench_inv :: "core_results \<Rightarrow> list_mem \<Rightarrow> nat list \<Rightarrow> bool" where
  "bench_inv res m xs \<longleftrightarrow> res_ok res \<and> 0 < sint (res_seed3 res) \<and>
     lpath (nextp m) (res_list res) xs \<and> 3 \<le> length xs \<and> length xs < 2 ^ 31 \<and>
     sorted_wrt (<) (map (\<lambda>x. idx_value m (infop m x)) xs)"

text \<open>The data of the cells \<open>xs\<close> have their backup in both bytes; links and indices are as in \<open>m\<close>.\<close>

definition list_restored :: "nat list \<Rightarrow> list_mem \<Rightarrow> list_mem \<Rightarrow> bool" where
  "list_restored xs m m' \<longleftrightarrow> infop m' = infop m \<and> idx m' = idx m \<and>
     (\<forall>x \<in> set xs. data16 m' (infop m x) = regen (data16 m (infop m x)))"

lemma list_restored_trans: "list_restored xs m m' \<Longrightarrow> list_restored xs m' m'' \<Longrightarrow> list_restored xs m m''"
  by (simp add: list_restored_def regen_word(1))

theorem core_bench_list_restores:
  assumes inv: "bench_inv res m xs"
  obtains retval m' res' where "core_bench_list res finder_idx m = Some (retval, m', res')"
    "bench_inv res' m' xs" "same_input res res'" "list_restored xs m m'"
proof -
  let ?k = "\<lambda>x. idx_value m (infop m x)"
  have path: "lpath (nextp m) (res_list res) xs" and len: "3 \<le> length xs" "length xs < 2 ^ 31"
    and srt: "sorted_wrt (<) (map ?k xs)" and ok: "res_ok res" "0 < sint (res_seed3 res)"
    using inv by (simp_all add: bench_inv_def)
  obtain retval m' res' ys where r: "core_bench_list res finder_idx m = Some (retval, m', res')"
    "res_ok res'" "same_input res res'" "lpath (nextp m') (Some (hd ys)) ys" "mset ys = mset xs"
    "sorted (map ?k ys)" "infop m' = infop m" "idx m' = idx m"
    "upper m' = upper m" "\<And>x. x \<in> set xs \<Longrightarrow> restored m' (infop m x)"
    using core_bench_list_result [OF ok path len] by metis
  have dist: "distinct (map ?k xs)" "sorted (map ?k xs)"
    using srt by (simp_all add: strict_sorted_iff)
  have "set ys = set xs" "mset (map ?k ys) = mset (map ?k xs)" using r(5) by (metis set_mset_mset, simp)
  then have "distinct (map ?k ys)" using dist(1) by (metis mset_eq_imp_distinct_iff)
  moreover have "inj_on ?k (set ys \<union> set xs)" using dist(1) \<open>set ys = set xs\<close> by (simp add: distinct_map)
  ultimately have ys: "ys = xs"
    using r(6) dist \<open>set ys = set xs\<close> by (intro map_sorted_distinct_set_unique)
  have "xs \<noteq> []" using len(1) by auto
  then have head: "res_list res = Some (hd xs)" using path by (cases xs) auto
  have "data16 m' (infop m x) = regen (data16 m (infop m x))" if "x \<in> set xs" for x
  proof -
    have "upper m' (infop m x) = upper m (infop m x)" using r(9) by simp
    then show ?thesis
      using r(10) [OF that] regen_word(3) [of "data16 m' (infop m x)" "data16 m (infop m x)"]
      by (simp add: upper_def restored_def)
  qed
  then have "list_restored xs m m'" using r(7,8) by (simp add: list_restored_def)
  moreover have "bench_inv res' m' xs"
    using r(2-4,7,8) ok(2) len srt head by (simp add: bench_inv_def same_input_def ys idx_value_def)
  ultimately show thesis using that r(1,3) by blast
qed

lemma bench_inv_checksums [simp]:
  "bench_inv (res\<lparr>res_crc := c\<rparr>) m xs = bench_inv res m xs"
  "bench_inv (res\<lparr>res_crclist := c\<rparr>) m xs = bench_inv res m xs"
  "bench_inv (res\<lparr>res_crcmatrix := c\<rparr>) m xs = bench_inv res m xs"
  "bench_inv (res\<lparr>res_crcstate := c\<rparr>) m xs = bench_inv res m xs"
  by (simp_all add: bench_inv_def res_ok_def state_block_ok_def)

lemma same_input_checksums [simp]:
  "same_input r (res\<lparr>res_crc := c\<rparr>) = same_input r res" "same_input r (res\<lparr>res_crclist := c\<rparr>) = same_input r res"
  "same_input (res\<lparr>res_crc := c\<rparr>) r = same_input res r" "same_input (res\<lparr>res_crclist := c\<rparr>) r = same_input res r"
  "same_input (res\<lparr>res_crcmatrix := c\<rparr>) r = same_input res r" "same_input (res\<lparr>res_crcstate := c\<rparr>) r = same_input res r"
  by (simp_all add: same_input_def)

lemma iterate_round_result:
  assumes inv: "bench_inv res m xs"
  shows "\<exists>m' res'. iterate_round i (m, res) = Some (m', res') \<and> bench_inv res' m' xs \<and> same_input res res' \<and>
    list_restored xs m m'"
proof -
  obtain c1 m1 r1 where 1: "core_bench_list res 1 m = Some (c1, m1, r1)" "bench_inv r1 m1 xs"
    "same_input res r1" "list_restored xs m m1"
    using core_bench_list_restores [OF inv] by metis
  let ?r1 = "r1\<lparr>res_crc := crcu16 c1 (res_crc r1)\<rparr>"
  have "bench_inv ?r1 m1 xs" using 1(2) by simp
  then obtain c2 m2 r2 where 2: "core_bench_list ?r1 (- 1) m1 = Some (c2, m2, r2)" "bench_inv r2 m2 xs"
    "same_input ?r1 r2" "list_restored xs m1 m2"
    using core_bench_list_restores by metis
  have "list_restored xs m m2" "same_input res r2"
    using list_restored_trans [OF 1(4) 2(4)] same_input_trans [OF 1(3)] 2(3) by simp_all
  then show ?thesis using 1(1) 2(1,2) by (simp add: iterate_round_def Let_def)
qed

lemma iterate_rounds_result:
  assumes inv: "bench_inv res m xs"
  shows "\<exists>m' res'. for_loop_opt n iterate_round (m, res) = Some (m', res') \<and> bench_inv res' m' xs \<and>
    same_input res res' \<and> (0 < n \<longrightarrow> list_restored xs m m')"
proof (induction n)
  case 0
  then show ?case using inv by simp
next
  case (Suc n)
  then obtain m1 r1 where 1: "for_loop_opt n iterate_round (m, res) = Some (m1, r1)" "bench_inv r1 m1 xs"
    "same_input res r1" "0 < n \<longrightarrow> list_restored xs m m1" by blast
  obtain m2 r2 where 2: "iterate_round n (m1, r1) = Some (m2, r2)" "bench_inv r2 m2 xs" "same_input r1 r2"
    "list_restored xs m1 m2" using iterate_round_result [OF 1(2), of n] by blast
  have "n = 0 \<Longrightarrow> m1 = m" using 1(1) by simp
  then have "list_restored xs m m2" using 1(4) 2(4) list_restored_trans by (cases "n = 0") auto
  then show ?case using 1(1) 2 same_input_trans [OF 1(3) 2(3)] by auto
qed

theorem iterate_result:
  assumes inv: "bench_inv res m xs"
  obtains m' res' where "iterate res m = Some (m', res')" "bench_inv res' m' xs" "same_input res res'"
    "0 < unat (res_iterations res) \<Longrightarrow> list_restored xs m m'"
proof -
  define r0 where "r0 = res\<lparr>res_crc := 0, res_crclist := 0, res_crcmatrix := 0, res_crcstate := 0\<rparr>"
  have r0: "bench_inv r0 m xs" "same_input res r0" using inv by (simp_all add: r0_def) (simp add: same_input_def)
  obtain m' res' where "for_loop_opt (unat (res_iterations res)) iterate_round (m, r0) = Some (m', res')"
    "bench_inv res' m' xs" "same_input r0 res'" "0 < unat (res_iterations res) \<longrightarrow> list_restored xs m m'"
    using iterate_rounds_result [OF r0(1), of "unat (res_iterations res)"]
    by (elim exE conjE) (rule that)
  then show thesis
    using that same_input_trans [OF r0(2)] by (simp add: iterate_def r0_def [symmetric] Let_def) (simp add: r0_def)
qed

end
