(* ===== verification/CM_Init.thy ===== *)
theory CM_Init
  imports CM_Kernel
begin

text \<open>
  The initial list of CoreMark (\<open>core_list_init\<close>): which cells it has and which indices, and
  that the benchmark as a whole, initialisation and iterations together, returns.
\<close>

section \<open>Inserting the items\<close>

text \<open>The list after \<open>k\<close> cells have been used: every new cell goes behind the head.\<close>

definition init_cells :: "nat \<Rightarrow> nat list" where
  "init_cells k = 0 # rev [1..<k]"

definition inserted :: "nat \<Rightarrow> list_mem \<Rightarrow> bool" where
  "inserted k m \<longleftrightarrow> lpath (nextp m) (Some 0) (init_cells k) \<and> (\<forall>x < k. infop m x = x) \<and>
     idx m 0 = 0 \<and> (\<forall>x. 0 < x \<and> x < k \<longrightarrow> idx m x = 0x7FFF)"

lemma insert_new_step:
  assumes "inserted k m" "1 \<le> k"
  shows "\<exists>p m'. core_list_insert_new 0 (v, 0x7FFF) k k n n m =
    (p, if k + 1 < n then k + 1 else k, if k + 1 < n then k + 1 else k, m') \<and>
    inserted (if k + 1 < n then k + 1 else k) m'"
proof (cases "k + 1 < n")
  case False
  then show ?thesis using assms by (auto simp: core_list_insert_new_def)
next
  case True
  define m' where "m' = copy_info k (v, 0x7FFF) (set_info k k (set_next 0 (Some k) (set_next k (nextp m 0) m)))"
  have eq: "core_list_insert_new 0 (v, 0x7FFF) k k n n m = (Some k, k + 1, k + 1, m')"
    using True by (simp add: core_list_insert_new_def m'_def Let_def)
  have "[1..<Suc k] = [1..<k] @ [k]" using assms(2) by simp
  then have cells: "init_cells (k + 1) = 0 # k # rev [1..<k]" by (simp add: init_cells_def)
  have "lpath (nextp m) (nextp m 0) (rev [1..<k])" using assms(1) by (simp add: inserted_def init_cells_def)
  then have "inserted (k + 1) m'"
    using assms unfolding inserted_def cells by (auto simp: m'_def copy_info_def less_Suc_eq)
  then show ?thesis using eq True by auto
qed

lemma insert_items_result:
  assumes "inserted k m" "1 \<le> k" "k \<le> n - 1"
  shows "\<exists>m'. insert_items n n 0 seed i (k, k, m) = (min (k + i) (n - 1), min (k + i) (n - 1), m') \<and>
    inserted (min (k + i) (n - 1)) m'"
proof (induction i)
  case 0
  then show ?case using assms by simp
next
  case (Suc i)
  then obtain m1 where m1: "insert_items n n 0 seed i (k, k, m) = (min (k + i) (n - 1), min (k + i) (n - 1), m1)"
    "inserted (min (k + i) (n - 1)) m1" by blast
  obtain p m2 where "core_list_insert_new 0 (list_item_data seed (of_nat i), 0x7FFF)
      (min (k + i) (n - 1)) (min (k + i) (n - 1)) n n m1 =
        (p, if min (k + i) (n - 1) + 1 < n then min (k + i) (n - 1) + 1 else min (k + i) (n - 1),
         if min (k + i) (n - 1) + 1 < n then min (k + i) (n - 1) + 1 else min (k + i) (n - 1), m2)"
    "inserted (if min (k + i) (n - 1) + 1 < n then min (k + i) (n - 1) + 1 else min (k + i) (n - 1)) m2"
    using insert_new_step [OF m1(2), of "list_item_data seed (of_nat i)" n] assms(2,3) by auto
  moreover have "(if min (k + i) (n - 1) + 1 < n then min (k + i) (n - 1) + 1 else min (k + i) (n - 1)) =
      min (k + Suc i) (n - 1)" using assms(2,3) by auto
  ultimately show ?case using m1(1) by simp
qed

section \<open>Indexing the items\<close>

text \<open>The indices in list order: the head, the items, and the tail that is never re-indexed.\<close>

definition list_indices :: "u32 \<Rightarrow> u16 \<Rightarrow> nat \<Rightarrow> u16 list" where
  "list_indices sz seed n = 0 # map (\<lambda>j. list_item_index sz seed (of_nat j)) [1..<n - 1] @ [0x7FFF]"

lemma index_items_result:
  assumes "lpath (nextp m) p (xs @ [t])" "distinct (map (infop m) (xs @ [t]))"
  shows "\<exists>m'. index_items sz seed p (of_nat i) m = Some m' \<and> nextp m' = nextp m \<and> infop m' = infop m \<and>
    data16 m' = data16 m \<and>
    (\<forall>d. d \<notin> infop m ` set xs \<longrightarrow> idx m' d = idx m d) \<and>
    map (\<lambda>x. idx m' (infop m x)) xs = map (\<lambda>j. list_item_index sz seed (of_nat j)) [i..<i + length xs]"
  using assms
proof (induction xs arbitrary: p i m)
  case Nil
  then show ?case by (subst index_items.simps) simp
next
  case (Cons x xs)
  let ?m = "set_idx (infop m x) (list_item_index sz seed (of_nat i)) m"
  have p: "p = Some x" "lpath (nextp m) (nextp m x) (xs @ [t])" using Cons.prems(1) by auto
  then have "nextp m x \<noteq> None" by (cases xs) auto
  then have step: "index_items sz seed p (of_nat i) m = index_items sz seed (nextp m x) (of_nat (Suc i)) ?m"
    using p(1) by (subst index_items.simps) (simp add: add.commute)
  obtain m' where m': "index_items sz seed (nextp m x) (of_nat (Suc i)) ?m = Some m'" "nextp m' = nextp m"
    "infop m' = infop m" "data16 m' = data16 m" "\<forall>d. d \<notin> infop m ` set xs \<longrightarrow> idx m' d = idx ?m d"
    "map (\<lambda>x. idx m' (infop m x)) xs = map (\<lambda>j. list_item_index sz seed (of_nat j)) [Suc i..<Suc i + length xs]"
    using Cons.IH [of ?m "nextp m x" "Suc i"] p(2) Cons.prems(2) by auto
  have "idx m' (infop m x) = list_item_index sz seed (of_nat i)" using m'(5) Cons.prems(2) by auto
  moreover have "[i..<i + length (x # xs)] = i # [Suc i..<Suc i + length xs]" by (simp add: upt_rec)
  ultimately show ?case using step m' by auto
qed

section \<open>The initial list\<close>

theorem core_list_init_result:
  fixes blksize :: u32
  defines "sz \<equiv> blksize div 20 - 2"
  assumes big: "4 \<le> unat sz" and small: "unat sz < 2 ^ 31"
  obtains l m' ys where "core_list_init blksize seed m = Some (l, m')" "lpath (nextp m') l ys"
    "mset ys = mset [0..<unat sz - 1]" "\<And>x. x < unat sz - 1 \<Longrightarrow> infop m' x = x"
    "sorted (map (\<lambda>x. idx_value m' x) ys)"
    "map (idx m') (init_cells (unat sz - 1)) = list_indices sz seed (unat sz - 1)"
    "\<And>x. x < unat sz - 1 \<Longrightarrow> restored m' x"
proof -
  let ?n = "unat sz"
  define m1 where "m1 = set_data16 0 0x8080 (set_idx 0 0 (set_info 0 0 (set_next 0 None m)))"
  have i1: "inserted 1 m1" by (auto simp: inserted_def init_cells_def m1_def)
  obtain p m2 where m2: "core_list_insert_new 0 (0xFFFF, 0x7FFF) 1 1 ?n ?n m1 = (p, 2, 2, m2)" "inserted 2 m2"
    using insert_new_step [OF i1, of "0xFFFF" ?n] big by (auto simp: numeral_2_eq_2)
  obtain m3 where m3: "insert_items ?n ?n 0 seed ?n (2, 2, m2) = (?n - 1, ?n - 1, m3)" "inserted (?n - 1) m3"
  proof -
    have n: "2 \<le> ?n - 1" "min (2 + ?n) (?n - 1) = ?n - 1" using big by linarith+
    show thesis using insert_items_result [OF m2(2) _ n(1), of seed ?n] that unfolding n(2) by auto
  qed
  have "[1..<?n - 1] = 1 # [2..<?n - 1]"
    using upt_conv_Cons [of 1 "?n - 1"] big by (simp add: numeral_2_eq_2)
  then have cells: "init_cells (?n - 1) = 0 # rev [2..<?n - 1] @ [1]" by (simp add: init_cells_def)
  have path3: "lpath (nextp m3) (Some 0) (init_cells (?n - 1))" and info3: "\<forall>x < ?n - 1. infop m3 x = x"
    using m3(2) by (simp_all add: inserted_def)
  have imap: "map (infop m3) (rev [2..<?n - 1] @ [1]) = rev [2..<?n - 1] @ [1]"
    using info3 big by (intro map_idI) auto
  obtain m4 where m4: "index_items sz seed (nextp m3 0) 1 m3 = Some m4" "nextp m4 = nextp m3" "infop m4 = infop m3"
    "\<forall>d. d \<notin> infop m3 ` set (rev [2..<?n - 1]) \<longrightarrow> idx m4 d = idx m3 d"
    "map (\<lambda>x. idx m4 (infop m3 x)) (rev [2..<?n - 1]) = map (\<lambda>j. list_item_index sz seed (of_nat j)) [1..<1 + length (rev [2..<?n - 1])]"
    using index_items_result [of m3 "nextp m3 0" "rev [2..<?n - 1]" 1 sz seed 1] path3 imap
    unfolding cells by (auto simp del: map_append)
  have image3: "infop m3 ` set (rev [2..<?n - 1]) = {2..<?n - 1}" using info3 by (auto simp: image_def)
  have idx4: "map (idx m4) (init_cells (?n - 1)) = list_indices sz seed (?n - 1)"
  proof -
    have ends: "idx m4 0 = 0" "idx m4 1 = 0x7FFF"
      using m4(4) m3(2) big unfolding image3 by (auto simp: inserted_def)
    have items: "map (idx m4) (rev [2..<?n - 1]) = map (\<lambda>x. idx m4 (infop m3 x)) (rev [2..<?n - 1])"
      using info3 by (intro map_cong) auto
    have num: "1 + length (rev [2..<?n - 1]) = ?n - 1 - 1" using big by simp
    show ?thesis
      unfolding cells list_indices_def list.map map_append items ends m4(5) num ..
  qed
  have path4: "lpath (nextp m4) (Some 0) (init_cells (?n - 1))" using path3 m4(2) by simp
  have len: "length (init_cells (?n - 1)) = ?n - 1" using big by (simp add: init_cells_def)
  then have "2 \<le> length (init_cells (?n - 1))" "length (init_cells (?n - 1)) < 2 ^ 31" "idx_ok m4 m4 None"
    using big small by (simp_all add: idx_ok_def)
  then obtain m5 r ys where m5: "core_list_mergesort (Some 0) cmp_idx m4 None = Some (Some (hd ys), m5, r)"
    "lpath (nextp m5) (Some (hd ys)) ys" "mset ys = mset (init_cells (?n - 1))" "infop m5 = infop m4"
    "idx_ok m4 m5 r" "sorted (map (\<lambda>x. idx_value m5 (infop m4 x)) ys)"
    "\<And>x. x \<in> set (init_cells (?n - 1)) \<Longrightarrow> restored m5 (infop m4 x)"
    using index.mergesort_sorts [OF path4] by metis
  have eq: "mset (init_cells (?n - 1)) = mset (0 # [1..<?n - 1])"
    unfolding init_cells_def mset.simps mset_rev ..
  have cons: "0 # [1..<?n - 1] = [0..<?n - 1]"
    using upt_conv_Cons [of 0 "?n - 1"] big by simp
  have mset: "mset ys = mset [0..<?n - 1]" unfolding m5(3) eq cons ..
  then have set: "set ys = {0..<?n - 1}" by (metis set_mset_mset set_upt)
  have info5: "infop m5 x = x" if "x < ?n - 1" for x using info3 m4(3) m5(4) that by simp
  have init: "core_list_init blksize seed m = Some (Some (hd ys), m5)"
    using m2(1) m3(1) m4(1) m5(1) unfolding core_list_init_def
    by (simp add: sz_def [symmetric] m1_def [symmetric] Let_def)
  have keys: "map (\<lambda>x. idx_value m5 (infop m4 x)) ys = map (\<lambda>x. idx_value m5 x) ys"
    using info5 m5(4) set by (intro map_cong) auto
  have rest: "restored m5 x" if "x < ?n - 1" for x
    using m5(7) [of x] info5 [OF that] m5(3,4) set that by (metis atLeastLessThan_iff set_mset_mset zero_le)
  have "idx m5 = idx m4" using m5(5) by (simp add: idx_ok_def)
  then show thesis
    using that [OF init m5(2) mset info5 m5(6) [unfolded keys] _ rest] idx4 by simp
qed

end
