(* ===== verification/CM_Main.thy ===== *)
theory CM_Main
  imports CM_Init
begin

text \<open>
  CoreMark's \<open>main\<close> (\<open>core_main.c\<close>) without its output: the seeds, the three parts of the data
  area, the initialisations, the iterations and the comparison of the checksums with the known
  ones.  All algorithms are executed (\<open>execs\<close> is \<open>ALL_ALGORITHMS_MASK\<close>) with 800 iterations, as
  in this port; whether the run took ten seconds is a parameter.
\<close>

section \<open>The code\<close>

definition TOTAL_DATA_SIZE :: u32 where "TOTAL_DATA_SIZE = 2000"

definition NUM_ALGORITHMS :: u32 where "NUM_ALGORITHMS = 3"

definition list_known_crc :: "u16 list" where
  "list_known_crc = [0xD4B0, 0x3340, 0x6A79, 0xE714, 0xE3C1]"

definition matrix_known_crc :: "u16 list" where
  "matrix_known_crc = [0xBE52, 0x1199, 0x5608, 0x1FD7, 0x0747]"

definition state_known_crc :: "u16 list" where
  "state_known_crc = [0x5E47, 0x39BF, 0xE5A4, 0x8E3A, 0x8D84]"

text \<open>Default seeds for a validation run and a performance run.\<close>

definition default_seeds :: "u16 \<times> u16 \<times> u16 \<Rightarrow> u16 \<times> u16 \<times> u16" where
  "default_seeds s =
     (let s = (if s = (0, 0, 0) then (0, 0, 0x66) else s)
      in if s = (1, 0, 0) then (0x3415, 0x3415, 0x66) else s)"

text \<open>The old contents of the data area: list memory, matrices and bytes.\<close>

record data_area =
  area_list :: list_mem
  area_A :: "MATDAT list"
  area_B :: "MATDAT list"
  area_C :: "MATRES list"
  area_bytes :: "u8 list"

definition coremark_run :: "u16 \<times> u16 \<times> u16 \<Rightarrow> data_area \<Rightarrow> (list_mem \<times> core_results) option" where
  "coremark_run seeds area =
     do {
       let (seed1, seed2, seed3) = default_seeds seeds;
       let sz = TOTAL_DATA_SIZE div NUM_ALGORITHMS;
       (list, m) \<leftarrow> core_list_init sz seed1 (area_list area);
       p \<leftarrow> core_init_matrix sz (scast seed1 OR push_bit 16 (scast seed2))
              (area_A area) (area_B area) (area_C area);
       block \<leftarrow> core_init_state sz seed1 (area_bytes area);
       iterate \<lparr>res_seed1 = seed1, res_seed2 = seed2, res_seed3 = seed3, res_memblock3 = block,
                res_size = sz, res_iterations = 800, res_list = list, res_mat = p,
                res_crc = 0, res_crclist = 0, res_crcmatrix = 0, res_crcstate = 0\<rparr> m
     }"

definition known_id :: "u16 \<Rightarrow> nat option" where
  "known_id seedcrc =
     (if seedcrc = 0x8A02 then Some 0 else if seedcrc = 0x7B05 then Some 1
      else if seedcrc = 0x4EAF then Some 2 else if seedcrc = 0xE9F5 then Some 3
      else if seedcrc = 0x18F2 then Some 4 else None)"

definition seedcrc :: "core_results \<Rightarrow> u16" where
  "seedcrc res = crc16 (ucast (res_size res)) (crc16 (res_seed3 res) (crc16 (res_seed2 res) (crc16 (res_seed1 res) 0)))"

text \<open>The number of errors \<open>main\<close> counts; it starts below zero when the seeds are not among the known ones.\<close>

definition total_errors :: "bool \<Rightarrow> core_results \<Rightarrow> int" where
  "total_errors ten_secs res =
     (case known_id (seedcrc res) of
        None \<Rightarrow> - 1
      | Some k \<Rightarrow> of_bool (res_crclist res \<noteq> list_known_crc ! k) +
                  of_bool (res_crcmatrix res \<noteq> matrix_known_crc ! k) +
                  of_bool (res_crcstate res \<noteq> state_known_crc ! k)) +
     of_bool (\<not> ten_secs)"

definition coremark_main :: "bool \<Rightarrow> u16 \<times> u16 \<times> u16 \<Rightarrow> data_area \<Rightarrow> (int \<times> list_mem \<times> core_results) option" where
  "coremark_main ten_secs seeds area =
     do { (m, res) \<leftarrow> coremark_run seeds area; Some (total_errors ten_secs res, m, res) }"

section \<open>The benchmark returns\<close>

definition state_alphabet :: "u8 list" where
  "state_alphabet = 0 # concat (intpat @ floatpat @ scipat @ errpat)"

lemma pattern_alphabet: "set (state_pattern s) \<subseteq> set state_alphabet"
proof -
  have "drop_bit 3 s AND 3 = drop_bit 3 s mod 4"
    using take_bit_eq_mask [of 2 "drop_bit 3 s"] by (simp add: take_bit_eq_mod mask_eq_exp_minus_1)
  then have i: "unat (drop_bit 3 s AND 3) < 4" by (simp add: unat_mod)
  have "ps ! k \<in> set ps" if "k < 4" "length ps = 4" for ps :: "u8 list list" and k
    using that by simp
  moreover have "length intpat = 4" "length floatpat = 4" "length scipat = 4" "length errpat = 4"
    by (simp_all add: intpat_def floatpat_def scipat_def errpat_def)
  ultimately have "state_pattern s \<in> set (intpat @ floatpat @ scipat @ errpat)"
    using i by (auto simp: state_pattern_def Let_def)
  then show ?thesis unfolding state_alphabet_def by fastforce
qed

text \<open>Seeds with which the corruption of the bytes does not produce a comma.\<close>

definition seeds_ok :: "u16 \<times> u16 \<times> u16 \<Rightarrow> bool" where
  "seeds_ok s = (case s of (seed1, seed2, seed3) \<Rightarrow>
     0 < sint seed3 \<and> (ucast seed2 :: u8) = ucast seed1 \<and>
     ((ucast seed1 :: u8) = 0 \<or> 0x2C XOR ucast seed1 \<notin> set state_alphabet) \<and>
     distinct (list_indices 31 seed1 30))"

definition area_ok :: "data_area \<Rightarrow> bool" where
  "area_ok area \<longleftrightarrow> 666 \<le> length (area_A area) \<and> 666 \<le> length (area_B area) \<and>
     666 \<le> length (area_C area) \<and> length (area_bytes area) = 666"

lemma state_block_init:
  assumes "core_init_state 666 seed1 bytes = Some block" "length bytes = 666"
    and "(ucast seed1 :: u8) = 0 \<or> 0x2C XOR ucast seed1 \<notin> set state_alphabet"
    and "res_memblock3 r = block" "res_size r = 666" "res_seed1 r = seed1" "ucast (res_seed2 r) = (ucast seed1 :: u8)"
  shows "state_block_ok r"
proof -
  obtain n k where k: "block = state_tokens seed1 n @ replicate k 0 @ drop 666 bytes" "2 \<le> k"
    "length (state_tokens seed1 n) + k = 666"
    using core_init_state_result [of 666 bytes seed1] assms(1,2) by auto
  let ?t = "length (state_tokens seed1 n)"
  have nul: "Suc ?t < length block" "block ! ?t = 0" "block ! Suc ?t = 0"
    using k(2) by (simp_all add: k(1) nth_append)
  have "set block \<subseteq> insert 0x2C (set state_alphabet)"
    using pattern_alphabet assms(2) by (auto simp: k(1) state_tokens_def state_alphabet_def)
  moreover have "c XOR ucast seed1 \<noteq> 0x2C" if "c \<in> set state_alphabet" "(ucast seed1 :: u8) \<noteq> 0" for c
  proof
    assume "c XOR ucast seed1 = 0x2C"
    then have "c = 0x2C XOR ucast seed1" by (metis xor.commute xor_twice)
    then show False using that assms(3) by simp
  qed
  ultimately have "(ucast seed1 :: u8) = 0 \<or> (\<forall>c \<in> set block. c \<noteq> 0x2C \<longrightarrow> c XOR ucast seed1 \<noteq> 0x2C)" by auto
  moreover have "length block = 666" using k(1,3) assms(2) by simp
  ultimately show ?thesis using nul assms(4-7) by (auto simp: state_block_ok_def Let_def)
qed

lemma sint_eqD: "sint v = sint w \<Longrightarrow> v = (w :: 'a::len word)"
  by (metis signed_word_eqI signed_0 id_apply of_int_sint)

theorem coremark_returns:
  assumes seeds: "seeds_ok (default_seeds seeds)" and area: "area_ok area"
  obtains errors m res xs where "coremark_main ten_secs seeds area = Some (errors, m, res)"
    "bench_inv res m xs" "mset xs = mset [0..<30]"
proof -
  obtain seed1 seed2 seed3 where s: "default_seeds seeds = (seed1, seed2, seed3)" by (metis prod_cases3)
  have sz: "TOTAL_DATA_SIZE div NUM_ALGORITHMS = 666" by (simp add: TOTAL_DATA_SIZE_def NUM_ALGORITHMS_def)
  obtain l m xs where init: "core_list_init 666 seed1 (area_list area) = Some (l, m)" "lpath (nextp m) l xs"
    "mset xs = mset [0..<30]" "\<And>x. x < 30 \<Longrightarrow> infop m x = x" "sorted (map (idx_value m) xs)"
    "map (idx m) (init_cells 30) = list_indices 31 seed1 30"
    by (rule core_list_init_result [of 666 seed1 "area_list area"]) (simp, simp, rule that, simp_all)
  obtain p where p: "core_init_matrix 666 (scast seed1 OR push_bit 16 (scast seed2)) (area_A area) (area_B area)
      (area_C area) = Some p" "wf_mat p"
    by (rule core_init_matrix_result [of 666 "area_A area" "area_B area" "area_C area"])
      (simp, simp, use area in \<open>simp add: area_ok_def\<close>, use area in \<open>simp add: area_ok_def\<close>,
        use area in \<open>simp add: area_ok_def\<close>, rule that)
  obtain block where block: "core_init_state 666 seed1 (area_bytes area) = Some block"
    using core_init_state_result [of 666 "area_bytes area" seed1] area by (auto simp: area_ok_def)
  define r where "r = \<lparr>res_seed1 = seed1, res_seed2 = seed2, res_seed3 = seed3, res_memblock3 = block,
      res_size = 666, res_iterations = 800, res_list = l, res_mat = p,
      res_crc = 0, res_crclist = 0, res_crcmatrix = 0, res_crcstate = 0\<rparr>"
  have set: "set xs = {0..<30}" "length xs = 30"
    using arg_cong [OF init(3), of set_mset] arg_cong [OF init(3), of size] by simp_all
  have keys: "map (\<lambda>x. idx_value m (infop m x)) xs = map (idx_value m) xs"
    using init(4) set(1) by (intro map_cong) auto
  have "distinct (map (idx m) (init_cells 30))" using seeds init(6) by (simp add: s seeds_ok_def)
  moreover have "set (init_cells 30) = {0..<30}" by (auto simp: init_cells_def)
  ultimately have inj: "inj_on (idx m) {0..<30}" by (simp add: distinct_map)
  have "inj_on (idx_value m) (set xs)"
    unfolding set(1) by (rule inj_onI) (use inj in \<open>auto simp: idx_value_def dest: sint_eqD inj_onD\<close>)
  moreover have "distinct xs" using lpath_distinct [OF init(2)] .
  ultimately have "sorted_wrt (<) (map (idx_value m) xs)"
    using init(5) by (simp add: strict_sorted_iff distinct_map)
  moreover have "state_block_ok r"
    by (rule state_block_init [OF block]) (use seeds area in \<open>auto simp: s seeds_ok_def area_ok_def r_def\<close>)
  ultimately have inv: "bench_inv r m xs"
    using seeds init(2) set(2) p(2) unfolding bench_inv_def res_ok_def keys
    by (simp add: r_def s seeds_ok_def)
  obtain m' r' where it: "iterate r m = Some (m', r')" "bench_inv r' m' xs"
    using iterate_result [OF inv] by metis
  have "coremark_run seeds area = Some (m', r')"
    unfolding coremark_run_def sz s Let_def prod.case using init(1) p(1) block it(1) by (simp add: r_def)
  then show thesis using that it(2) init(3) by (simp add: coremark_main_def)
qed

section \<open>The seeds of the official runs\<close>

lemma upto_28: "[1..<30 - 1] = [1, 2, 3, 4, 5, 6, 7, 8, 9, 10, 11, 12, 13, 14, 15, 16, 17, 18, 19, 20,
    21, 22, 23, 24, 25, 26, 27, 28 :: nat]"
  by (simp add: upt_conv_Cons)

lemma official_indices:
  "distinct (list_indices 31 0 30)" "distinct (list_indices 31 8 30)" "distinct (list_indices 31 0x3415 30)"
  unfolding list_indices_def upto_28 list.map by (simp_all add: list_item_index_def)

lemma official_seeds:
  "seeds_ok (default_seeds (0, 0, 0))" "seeds_ok (default_seeds (1, 0, 0))" "seeds_ok (default_seeds (8, 8, 8))"
  by (simp_all add: seeds_ok_def official_indices default_seeds_def state_alphabet_def intpat_def
      floatpat_def scipat_def errpat_def ascii_def)

end
