(* ===== verification/Spec2Isabelle.thy ===== *)
theory Spec2Isabelle
  imports SF_Div SF_Compare SF_MulAddF64 SF_RemF64 SF_Sqrt Sim_MulHi VM_Pager MA_Client CM_Main
begin

text \<open>
  Verification of C code of the Hummingbird E200 repository: the SoftFloat library of the
  instruction-set simulator (\<open>riscv-tools/riscv-isa-sim/softfloat\<close>), which gives the RISC-V
  floating-point instructions their meaning; CoreMark
  (\<open>sirv-e-sdk/software/coremark\<close>), the benchmark the SDK runs on the core; the demand-paging
  kernel of the virtual-memory tests (\<open>riscv-tools/riscv-tests/env/v\<close>) and the allocator of the
  debugger tests (\<open>riscv-tools/riscv-tests/debug/programs/tiny-malloc.c\<close>).

  \<^bold>\<open>SoftFloat.\<close>  A float is the word of its bit pattern, as in the C unions; the global variables
  (rounding mode, tininess detection, exception flags) are the record \<open>sf_state\<close>, and a
  function that may raise a flag returns the new state.  Exponents (\<open>int_fast16_t\<close>) are integers,
  significands words of the width of the C variable with its wrap-around, shift counts numbers;
  the \<open>goto\<close>s to the exits of a function are local definitions.

    \<^item> \<open>SF_State\<close>: state, flags, field macros, NaN conventions of \<open>specialize.h\<close>, classification.
    \<^item> \<open>SF_Primitives\<close>: shifts that keep a sticky bit, leading zeros, 128-bit arithmetic and
      approximate reciprocals (\<open>primitives.h\<close> and the \<open>s_*.c\<close> files), with their values as integers.
    \<^item> \<open>Rounding\<close>, \<open>FP_Format\<close>, \<open>SF_Values\<close>: the specification.  A format is given by precision and
      exponent bounds; \<open>f32_round\<close> and \<open>f64_round\<close> round a real number once, in one of the five
      modes, to bits and flags; \<open>f32_val\<close> and \<open>f64_val\<close> read the bits.
    \<^item> \<open>SF_RoundPack\<close>: \<open>softfloat_roundPackToF32/F64\<close> and the normalising variants round the exact
      value that their arguments stand for.  Every operation is reduced to this.
    \<^item> \<open>SF_Mul\<close>, \<open>SF_AddSub\<close>, \<open>SF_Div\<close>, \<open>SF_FConv\<close>, \<open>SF_ToFloat\<close>: the operations \<open>f32_mul\<close> to
      \<open>i64_to_f64\<close> return the rounded exact result.  The double division estimates the quotient
      with \<open>softfloat_approxRecip32_1\<close>, in this build a 64-by-32-bit division, and corrects it.
    \<^item> \<open>SF_MulAddF32\<close>, \<open>SF_MulAddF64\<close>: the fused multiply-add, with a product of twice the width.
    \<^item> \<open>SF_RemF32\<close>, \<open>SF_RemF64\<close>: the remainder; the quotient is produced thirty bits at a time and
      an invariant relates what is left to the operands, so the loops end.
    \<^item> \<open>SF_RecipSqrt\<close>, \<open>SF_Sqrt\<close>: the square roots.  The tables of
      \<open>softfloat_approxRecipSqrt32_1\<close> are evaluated once, its error follows from a power series.
      \<open>f32_sqrt\<close> is correct for all operands, \<open>f64_sqrt\<close> outside the boundary of its correction;
      \<open>f64_sqrt_missed\<close> says exactly which operands are rounded to the next double instead.
    \<^item> \<open>SF_IntPack\<close>, \<open>SF_ToInt\<close>, \<open>SF_Trunc\<close>: conversions to integers in the general form and the
      shift-based truncations; \<open>SF_Compare\<close>: comparisons.

  \<^bold>\<open>CoreMark.\<close>  A pointer is an index (\<open>None\<close> for \<open>NULL\<close>), the three parts of the memory block are
  separate components of the state.  A computation is \<open>None\<close> when the C code would follow
  \<open>NULL\<close>, leave its block, read an indeterminate variable or not end, so that a result \<open>Some\<close>
  is a statement of safety and termination.

    \<^item> \<open>CM_Util\<close> (\<open>core_util.c\<close>): the checksum, shown to be a polynomial remainder.
    \<^item> \<open>CM_State\<close> (\<open>core_state.c\<close>): the token scanner against a recursive-descent parser, where
      it stops, the corruption passes, the initial block.
    \<^item> \<open>CM_Matrix\<close> (\<open>core_matrix.c\<close>): the elements each routine computes, layout and dimension.
    \<^item> \<open>CM_List\<close>, \<open>CM_Sort\<close> (\<open>core_list_join.c\<close>): list operations on a heap of cells; the bottom-up
      merge sort is proved once, inside the locale \<open>list_compare\<close>, for any comparison that
      keeps its contract, although the comparison writes to the memory it sorts.
    \<^item> \<open>CM_Bench\<close>: \<open>calc_func\<close>, which runs the other two kernels, and both comparisons, which are
      interpretations of the locale; \<open>CM_Kernel\<close>: \<open>core_bench_list\<close> and \<open>iterate\<close> keep the
      invariant \<open>bench_inv\<close>; \<open>CM_Init\<close>: the initial list; \<open>CM_Main\<close> (\<open>core_main.c\<close>): the whole run.

  \<^bold>\<open>Simulator and test kernel.\<close>  \<open>Sim_MulHi\<close> (\<open>riscv-isa-sim/riscv/mulhi.h\<close>): the upper halves of
  64-bit products.  \<open>VM_Pager\<close> (\<open>riscv-tests/env/v/vm.c\<close>): page faults and evictions of the test
  kernel, with the leaf step of the simulator's page walk (\<open>mmu.cc\<close>).  A physical page is a value
  of any type, pointers to list nodes are indices into the two arrays, stopping the program and a
  page fault inside the kernel are results of their own.  The invariant \<open>vm_inv\<close> relates page table,
  mappings and what is left of the free list; a user program then cannot tell demand paging from a
  flat memory.

  \<^bold>\<open>Allocator.\<close>  Memory is a function from addresses to bytes, in which block headers, free list and
  data lie; \<open>layout\<close> says that the blocks fill the heap, that the free list holds those not in use in
  the order of their addresses, and that no two free ones touch.
    \<^item> \<open>MA_Malloc\<close>: \<open>malloc\<close>, \<open>free\<close>, \<open>realloc\<close>, \<open>calloc\<close>, words in memory, tilings and list segments.
    \<^item> \<open>MA_Ops\<close>: every path of these functions keeps the layout and the bytes of the other blocks.
    \<^item> \<open>MA_Client\<close>: the locales \<open>allocator\<close> and \<open>reallocator\<close> state what a program relies on, the
      heap interprets them, and in every run of a client its objects keep their contents.

  \<^bold>\<open>Bounds.\<close>  No theorem bounds an operand of SoftFloat.  Loops of CoreMark are structural
  recursions where the C counter is bounded and \<open>partial_function\<close>s otherwise, so no fuel is
  chosen; lists are shorter than 2^31 cells, as the run length of the sort is a signed 32-bit
  counter, and blocks smaller than 2^31 bytes where the C code computes sizes in 32 bits.

  \<^bold>\<open>Not modelled.\<close>  The rest of the simulator and its front end are C++; the headers of encodings are
  tables; output, timing and the C library stubs of the SDK are input and output.  Of the test
  kernel, the upper levels of the page table, control registers, assembly and console output are
  left out; its own data is assumed to lie outside the sixty-two pages of the test.  Of the allocator,
  \<open>memalign\<close>, the statistics and heaps that grow downwards are left out; requests above
  \<open>2^64 - 16\<close> bytes, for which it is wrong, and heaps with less than 32 bytes left below the limit, where its check wraps,
  are excluded from the runs.  The SoftFloat
  operations on 128-bit and extended formats are declared in its headers only.  Of CoreMark, the printed report is left out and so is the search for a number of
  iterations, which this port fixes at 800; overflow of a signed variable, undefined in C, is
  taken to wrap in the element loop of \<open>core_init_matrix\<close>.
\<close>

section \<open>Arithmetic\<close>

text \<open>C1: f32_add and f64_add return, bit for bit and with their flags, the sum of the operands
  rounded once in the current mode, with the IEEE results for NaNs, infinities and exact
  zeros.\<close>

theorem float_add_correct:
  "f32_add a b st = f32_add_spec a b st \<and> f64_add x y st = f64_add_spec x y st"
  by (simp add: f32_add_refines f64_add_refines)

text \<open>C12: f32_sub and f64_sub return the difference of the operands rounded once in the current
  mode, with the flags and the special results of IEEE.\<close>

theorem float_sub_correct:
  "f32_sub a b st = f32_sub_spec a b st \<and> f64_sub x y st = f64_sub_spec x y st"
  by (simp add: f32_sub_refines f64_sub_refines)

text \<open>C2: f32_mul and f64_mul return the product of the operands rounded once in the current mode,
  with the flags and the special results of IEEE.\<close>

theorem float_mul_correct:
  "f32_mul a b st = f32_mul_spec a b st \<and> f64_mul x y st = f64_mul_spec x y st"
  by (simp add: f32_mul_refines f64_mul_refines)

text \<open>C3: f32_div and f64_div, the latter through an approximate reciprocal that it corrects,
  return the exact quotient rounded once in the current mode, with the flags and special
  results for NaNs, infinities and division by zero.\<close>

theorem float_div_correct:
  "f32_div a b st = f32_div_spec a b st \<and> f64_div x y st = f64_div_spec x y st"
  by (simp add: f32_div_refines f64_div_refines)

text \<open>C4: f32_mulAdd and f64_mulAdd return the exact product plus the third operand, rounded once
  in the current mode, with the flags and the IEEE results for NaNs, infinities and exact
  zeros.\<close>

theorem float_mulAdd_correct:
  "f32_mulAdd a b c st = f32_mulAdd_spec a b c st \<and> f64_mulAdd x y z st = f64_mulAdd_spec x y z st"
  by (simp add: f32_mulAdd_refines f64_mulAdd_refines)

text \<open>C5: The loops of f32_rem and f64_rem end for all operands, and the result is the IEEE
  remainder a - b * n, n the integer nearest to a / b with ties to even, with the sign of a
  when it is zero.\<close>

theorem float_rem_correct:
  "f32_rem a b st = Some (f32_rem_spec a b st) \<and> f64_rem x y st = Some (f64_rem_spec x y st)"
  by (simp add: f32_rem_refines f64_rem_refines)

text \<open>C11: f32_sqrt returns the square root rounded once in the current mode for every positive
  operand, the operand for zeros and positive infinity, and invalid for the other negative
  operands.\<close>

theorem f32_sqrt_correct: "f32_sqrt a st = f32_sqrt_spec a st"
  by (rule f32_sqrt_refines)

text \<open>C8: f64_sqrt returns the square root rounded once in the current mode, with the IEEE results
  for zeros, infinity, negative operands and NaNs, whenever the low nine bits of its
  estimate are not exactly 32.\<close>

theorem f64_sqrt_correct:
  assumes "\<not> f64_sqrt_boundary a"
  shows "f64_sqrt a st = f64_sqrt_spec a st"
  using assms by (rule f64_sqrt_refines)

theorem f64_sqrt_correct_witness:
  "f64_sqrt 0x4000000000000000 softfloat_state_init = f64_sqrt_spec 0x4000000000000000 softfloat_state_init"
  by (rule f64_sqrt_correct, rule two_off_boundary)

text \<open>C34: f64_sqrt, in every mode and on every operand, returns the correctly rounded root and
  its flags, except that it returns the next double when the estimate has exactly 32 in its
  low nine bits, the root is below the boundary there, and the boundary is a tie in the
  modes to nearest or a double in the others; such an operand exists, 3FF26D08B93E38A6 to
  nearest.\<close>

theorem f64_sqrt_misrounds:
  "f64_sqrt a st = (let (r, st') = f64_sqrt_spec a st
     in (if f64_sqrt_missed (softfloat_roundingMode st) a then r + 1 else r, st')) \<and>
   f64_sqrt_missed softfloat_round_near_even 0x3FF26D08B93E38A6"
  using f64_sqrt_exact sqrt_example_missed by blast

text \<open>C35: softfloat_approxRecipSqrt32_1 returns less than the scaled reciprocal square root of
  its operand, by at most 2.1, on its whole domain.\<close>

theorem approxRecipSqrt_bound:
  assumes "2 ^ 31 \<le> uint a" "oddExpA < 2"
  shows "of_int (uint (softfloat_approxRecipSqrt32_1 oddExpA a)) < recip_sqrt oddExpA a \<and>
    recip_sqrt oddExpA a < of_int (uint (softfloat_approxRecipSqrt32_1 oddExpA a)) + 21 / 10"
  using approxRecipSqrt32_1_bound [OF assms] by simp

theorem approxRecipSqrt_bound_witness:
  "recip_sqrt 1 0x936845C9 < of_int (uint (softfloat_approxRecipSqrt32_1 1 0x936845C9)) + 21 / 10"
  by (rule approxRecipSqrt_bound [THEN conjunct2]) simp_all

section \<open>Conversions between the formats, rounding to integral values\<close>

text \<open>C13: f64_to_f32 rounds a double to single precision once, f32_to_f64 converts in the other
  direction; NaNs, infinities and zeros keep their class, a signaling NaN raises the invalid
  flag.\<close>

theorem float_convert_correct:
  "f32_to_f64 a st = f32_to_f64_spec a st \<and> f64_to_f32 x st = f64_to_f32_spec x st"
  by (simp add: f32_to_f64_refines f64_to_f32_refines)

text \<open>C14: In each of the five modes the two roundToInt functions return the operand rounded to an
  integral value with its sign kept, and raise inexact exactly when asked to and the value
  changed.\<close>

theorem float_roundToInt_correct:
  assumes "uint rm < 5"
  shows "f32_roundToInt a rm exact st = f32_roundToInt_spec a rm exact st \<and>
    f64_roundToInt x rm exact st = f64_roundToInt_spec x rm exact st"
  using assms by (simp add: f32_roundToInt_refines f64_roundToInt_refines)

theorem float_roundToInt_witness:
  "f32_roundToInt 0x3FC00000 softfloat_round_near_even True softfloat_state_init =
     f32_roundToInt_spec 0x3FC00000 softfloat_round_near_even True softfloat_state_init"
  by (rule float_roundToInt_correct [THEN conjunct1]) (simp add: softfloat_round_near_even_def)

section \<open>Comparisons\<close>

text \<open>C15: The six comparisons of either precision decide equality and order of the real values; a
  NaN makes them false and raises invalid unless the comparison is quiet and the NaN too.\<close>

theorem float_comparisons_correct:
  "f32_eq a b st = f32_compare_spec (=) True a b st \<and>
   f32_eq_signaling a b st = f32_compare_spec (=) False a b st \<and>
   f32_le a b st = f32_compare_spec (\<le>) False a b st \<and>
   f32_le_quiet a b st = f32_compare_spec (\<le>) True a b st \<and>
   f32_lt a b st = f32_compare_spec (<) False a b st \<and>
   f32_lt_quiet a b st = f32_compare_spec (<) True a b st \<and>
   f64_eq x y st = f64_compare_spec (=) True x y st \<and>
   f64_eq_signaling x y st = f64_compare_spec (=) False x y st \<and>
   f64_le x y st = f64_compare_spec (\<le>) False x y st \<and>
   f64_le_quiet x y st = f64_compare_spec (\<le>) True x y st \<and>
   f64_lt x y st = f64_compare_spec (<) False x y st \<and>
   f64_lt_quiet x y st = f64_compare_spec (<) True x y st"
  by (simp add: f32_compare_refines f64_compare_refines)

section \<open>Conversions to integers\<close>

lemmas to_integer_refines =
  f32_to_i32_refines f32_to_ui32_refines f32_to_i64_refines f32_to_ui64_refines
  f64_to_i32_refines f64_to_ui32_refines f64_to_i64_refines f64_to_ui64_refines

lemmas truncation_refines =
  f32_to_i32_r_minMag_refines f32_to_ui32_r_minMag_refines f32_to_i64_r_minMag_refines f32_to_ui64_r_minMag_refines
  f64_to_i32_r_minMag_refines f64_to_ui32_r_minMag_refines f64_to_i64_r_minMag_refines f64_to_ui64_r_minMag_refines

text \<open>C16: The conversions of a float to the four integer types round the value in the given mode,
  raise inexact when asked to, and return the limits of the type with the invalid flag when
  the value does not fit or is a NaN.\<close>

theorem float_to_integer_correct:
  "f32_to_i32 a rm exact st = f32_to_int_spec i32_fromNaN fp_to_i32 a rm exact st \<and>
   f32_to_ui32 a rm exact st = f32_to_int_spec ui32_fromNaN fp_to_ui32 a rm exact st \<and>
   f32_to_i64 a rm exact st = f32_to_int_spec i64_fromNaN fp_to_i64 a rm exact st \<and>
   f32_to_ui64 a rm exact st = f32_to_int_spec ui64_fromNaN fp_to_ui64 a rm exact st \<and>
   f64_to_i32 x rm exact st = f64_to_int_spec i32_fromNaN fp_to_i32 x rm exact st \<and>
   f64_to_ui32 x rm exact st = f64_to_int_spec ui32_fromNaN fp_to_ui32 x rm exact st \<and>
   f64_to_i64 x rm exact st = f64_to_int_spec i64_fromNaN fp_to_i64 x rm exact st \<and>
   f64_to_ui64 x rm exact st = f64_to_int_spec ui64_fromNaN fp_to_ui64 x rm exact st"
  by (simp add: to_integer_refines)

text \<open>C17: The eight shift-based truncating conversions agree with the general conversions in the
  mode towards zero, flags included.\<close>

theorem truncation_equivalent:
  "f32_to_i32_r_minMag a exact st = f32_to_i32 a softfloat_round_minMag exact st \<and>
   f32_to_ui32_r_minMag a exact st = f32_to_ui32 a softfloat_round_minMag exact st \<and>
   f32_to_i64_r_minMag a exact st = f32_to_i64 a softfloat_round_minMag exact st \<and>
   f32_to_ui64_r_minMag a exact st = f32_to_ui64 a softfloat_round_minMag exact st \<and>
   f64_to_i32_r_minMag x exact st = f64_to_i32 x softfloat_round_minMag exact st \<and>
   f64_to_ui32_r_minMag x exact st = f64_to_ui32 x softfloat_round_minMag exact st \<and>
   f64_to_i64_r_minMag x exact st = f64_to_i64 x softfloat_round_minMag exact st \<and>
   f64_to_ui64_r_minMag x exact st = f64_to_ui64 x softfloat_round_minMag exact st"
  by (simp add: to_integer_refines truncation_refines)

section \<open>Conversions from integers\<close>

text \<open>C18: The conversions of signed and unsigned 32- and 64-bit integers to either precision
  round the integer once in the current mode; zero becomes positive zero.\<close>

theorem integer_to_float_correct:
  "i32_to_f32 (a :: u32) st = int_to_f32 (sint a) st \<and> ui32_to_f32 a st = int_to_f32 (uint a) st \<and>
   i64_to_f32 (b :: u64) st = int_to_f32 (sint b) st \<and> ui64_to_f32 b st = int_to_f32 (uint b) st \<and>
   (i32_to_f64 (a :: u32), st) = int_to_f64 (sint a) st \<and> (ui32_to_f64 a, st) = int_to_f64 (uint a) st \<and>
   i64_to_f64 (b :: u64) st = int_to_f64 (sint b) st \<and> ui64_to_f64 b st = int_to_f64 (uint b) st"
  by (simp add: i32_to_f32_refines ui32_to_f32_refines i64_to_f32_refines ui64_to_f32_refines
      i32_to_f64_refines ui32_to_f64_refines i64_to_f64_refines ui64_to_f64_refines)

section \<open>Simulator helpers and the virtual-memory test kernel\<close>

text \<open>C36: Mulhu, mulh and mulhsu, built from 32-bit halves and hand-made negations, return the
  upper half of the exact 128-bit product for the three combinations of signs.\<close>

theorem mulhi_correct:
  "uint (mulhu a b) = uint a * uint b div 2 ^ 64 \<and>
   sint (mulh a b) = sint a * sint b div 2 ^ 64 \<and>
   sint (mulhsu a b) = sint a * uint b div 2 ^ 64"
  by (simp add: uint_mulhu sint_mulh sint_mulhsu)

text \<open>C7: From any boot seed and any image, a user program of accesses to the test pages ends,
  reads what it would read from a flat memory although its pages are mapped on demand and
  their bits set by further faults, and its final system call passes every assertion of the
  evictions and stops with its code.\<close>

theorem paging_transparent:
  assumes "ops_in_range xs"
  shows "\<exists>s. run_user xs (vm_boot entropy mem) = Some (Running (fst (run_flat xs (\<lambda>v. mem (0x80000 + v))), s)) \<and>
    (\<forall>n tf. tf_cause tf = CAUSE_USER_ECALL \<longrightarrow> handle_trap n tf s = Halted (sint (ucast (tf_a0 tf) :: u32)))"
  using assms by (rule paging_refines)

theorem paging_transparent_witness:
  "\<exists>s. run_user [Store 0x1008 (\<lambda>_. 7), Load 0x2000, Load 0x1FFF] (vm_boot 5 uint) = Some (Running ([0x80001, 0x80002, 7], s)) \<and>
    handle_trap 0 \<lparr>tf_a0 = 1, tf_epc = 0, tf_badvaddr = 0, tf_cause = CAUSE_USER_ECALL\<rparr> s = Halted 1"
  using paging_transparent [of "[Store 0x1008 (\<lambda>_. 7), Load 0x2000, Load 0x1FFF]" 5 uint]
  by (auto simp: ops_in_range_def test_range_def PGSIZE_def MAX_TEST_PAGES_def)

text \<open>C37: The first access outside the test pages stops the program with the code of a failed
  assertion, whatever ran before it.\<close>

theorem wild_access_stops:
  assumes "ops_in_range xs" "\<not> test_range (op_addr x)"
  shows "run_user (xs @ x # ys) (vm_boot entropy mem) = Some (Halted 3)"
  using assms by (rule wild_program_halts)

theorem wild_access_stops_witness:
  "run_user [Load 0x1000, Store 0 (\<lambda>_. 7), Load 0x2000] (vm_boot 5 uint) = Some (Halted 3)"
  using wild_access_stops [of "[Load 0x1000]" "Store 0 (\<lambda>_. 7)" "[Load 0x2000]" 5 uint]
  by (simp add: ops_in_range_def test_range_def PGSIZE_def MAX_TEST_PAGES_def)

section \<open>The allocator of the debugger tests\<close>

text \<open>C6: In every run of a program that calls malloc, calloc, realloc and free and writes into
  its objects, each object still has the content the program gave it, through all splitting,
  merging and moving of blocks, and no two objects share a byte; requests are at most 2^64 -
  16 bytes and at least 32 bytes stay between the heap and the limit.\<close>

theorem objects_intact:
  assumes "client start m s A" "0 < uint start" "8 dvd uint start" "A p = Some c"
  shows "object s p (length c) = c \<and>
    (\<forall>q d i j. A q = Some d \<longrightarrow> i < length c \<longrightarrow> j < length d \<longrightarrow> p + of_nat i = q + of_nat j \<longrightarrow> p = q \<and> i = j)"
  using client_objects [OF assms] by blast

theorem objects_intact_witness:
  "\<exists>s. client 0x1000 (\<lambda>_. 7) s [0x1008 \<mapsto> [7, 9]] \<and> object s 0x1008 2 = [7, 9]"
proof -
  obtain s where s: "client 0x1000 (\<lambda>_. 7) s [0x1008 \<mapsto> [7, 9]]" by (rule example_run)
  have "object s 0x1008 (length [7, 9 :: u8]) = [7, 9]" by (rule objects_intact [OF s, THEN conjunct1]) simp_all
  moreover have "length [7, 9 :: u8] = 2" by simp
  ultimately show ?thesis using s by metis
qed

text \<open>C38: In every such run malloc, free and realloc return; malloc gives NULL only when the heap
  cannot grow by the size asked for, and then changes nothing.\<close>

theorem allocator_returns:
  assumes "client start m s A" "0 < uint start" "8 dvd uint start" "request_ok (limit, sz) s"
  shows "(\<exists>q s'. malloc limit sz s = Some (q, s') \<and> (q = 0 \<longrightarrow> s' = s \<and> out_of_room limit (REAL_SIZE sz) s)) \<and>
    (\<forall>p\<in>dom A. (\<exists>s'. free p s = Some s') \<and> (\<exists>q s'. realloc limit p sz s = Some (q, s')))"
proof (intro conjI ballI)
  show "\<exists>q s'. malloc limit sz s = Some (q, s') \<and> (q = 0 \<longrightarrow> s' = s \<and> out_of_room limit (REAL_SIZE sz) s)"
    by (rule client_returns(1) [OF assms])
  fix p assume p: "p \<in> dom A"
  show "\<exists>s'. free p s = Some s'" by (rule client_returns(2) [OF assms(1-3) p])
  show "\<exists>q s'. realloc limit p sz s = Some (q, s')" by (rule client_returns(3) [OF assms(1-3) p assms(4)])
qed

theorem allocator_returns_witness:
  "\<exists>s s'. client 0x1000 (\<lambda>_. 7) s [0x1008 \<mapsto> [7, 9]] \<and> free 0x1008 s = Some s'"
proof -
  obtain s where s: "client 0x1000 (\<lambda>_. 7) s [0x1008 \<mapsto> [7, 9]]" "request_ok (0x2000, 100) s" by (rule example_run)
  show ?thesis using s(1) allocator_returns [OF s(1) _ _ s(2)] by auto
qed

text \<open>C39: Once a program has freed all its objects, the free list is a single block that spans
  the whole heap: no memory is lost and none is left in pieces.\<close>

theorem heap_recovered:
  assumes "client start m s Map.empty" "0 < uint start" "8 dvd uint start"
  shows "malloc_freelist s = 0 \<and> malloc_end s = start \<or>
    malloc_freelist s = start \<and> blk_size s start = malloc_end s - start \<and> blk_next s start = 0"
  using assms by (rule all_freed)

theorem heap_recovered_witness:
  "\<exists>s. client 0x1000 (\<lambda>_. 7) s Map.empty \<and> (malloc_freelist s = 0 \<or> malloc_freelist s = 0x1000)"
proof -
  obtain s where s: "client 0x1000 (\<lambda>_. 7) s Map.empty" by (rule example_freed)
  show ?thesis using s heap_recovered [OF s] by auto
qed

text \<open>C40: The size computation wraps around: a request of 2^64 - 1 bytes on an empty heap is
  granted, with a block whose usable size is zero.\<close>

theorem malloc_wraps:
  assumes "uint start + 40 \<le> uint limit"
  shows "\<exists>s'. malloc limit 0xFFFFFFFFFFFFFFFF (heap_init start m) = Some (start + 8, s') \<and> malloc_usable_size (start + 8) s' = 0"
  using assms by (rule malloc_wraps_around)

theorem malloc_wraps_witness:
  "\<exists>s'. malloc 0x2000 0xFFFFFFFFFFFFFFFF (heap_init 0x1000 (\<lambda>_. 0)) = Some (0x1008, s')"
  using malloc_wraps [of "0x1000" "0x2000" "\<lambda>_. 0"] by auto

section \<open>CoreMark: checksum, state machine and matrices\<close>

text \<open>C19: The checksum routines compute, for every register value, the remainder of the message
  followed by sixteen zeros, the register added to its front, by the polynomial x^16 + x^15
  + x^2 + 1, in the bit order of the wire.\<close>

theorem checksum_is_remainder:
  "bits_of (crcu8 a c) = poly_mod crc_poly (xor_list (bits_of a @ replicate 16 False) (bits_of c @ replicate 8 False)) \<and>
   bits_of (crcu16 v c) = poly_mod crc_poly (xor_list (bits_of v @ replicate 16 False) (bits_of c @ replicate 16 False)) \<and>
   bits_of (crcu32 w c) = poly_mod crc_poly (xor_list (bits_of w @ replicate 16 False) (bits_of c @ replicate 32 False))"
  by (simp add: crcu8_bits crcu16_bits crcu32_bits crc_bits_remainder)

text \<open>C20: Feeding a 16-bit value to the checksum loses nothing, neither of the value nor of the
  register, and the checksum is linear over exclusive or.\<close>

theorem checksum_detects_changes:
  "(crcu16 v c = crcu16 w c \<longleftrightarrow> v = w) \<and> (crcu16 v c = crcu16 v d \<longleftrightarrow> c = d) \<and>
   (crcu32 x c = crcu32 x d \<longleftrightarrow> c = d) \<and>
   crcu32 (x XOR y) (c XOR d) = crcu32 x c XOR crcu32 y d"
proof (intro conjI)
  have swap: "crcu16 u c = crc_bits u (bits_of c)" for u by (metis crcu16_commute crcu16_bits)
  show "crcu16 v c = crcu16 w c \<longleftrightarrow> v = w" unfolding swap by (rule crc_bits_inj)
qed (simp_all add: crcu16_bits crcu32_bits crc_bits_inj bits_of_xor crc_bits_xor)

text \<open>C21: From any position of a block with a NUL behind it, the state machine returns the state
  that a parser of signed decimal numbers gives to the token up to the next comma or NUL; it
  stops after the first byte that makes the text invalid, and after a valid or unfinished
  token at the NUL or behind the comma.\<close>

theorem token_classified:
  assumes "0 \<in> set (drop p mem)"
  shows "let t = token mem p in \<exists>n tc'.
    core_state_transition mem p tc = Some (p + n, parse_token t, tc') \<and>
    (if parse_token t = CORE_INVALID
     then n \<le> length t \<and> parse_token (take n t) = CORE_INVALID \<and> (\<forall>k < n. parse_token (take k t) \<noteq> CORE_INVALID)
     else n = length t + of_bool (mem ! (p + length t) = 0x2C)) \<and>
    0 \<in> set (drop (p + n) mem)"
  using transition_stop [OF assms, of tc] unfolding Let_def .

theorem token_classified_witness:
  "(\<exists>tc'. core_state_transition (ascii ''+0.6e-12,x'' @ [0]) 0 (\<lambda>_. 0) = Some (9, CORE_SCIENTIFIC, tc')) \<and>
   (\<exists>tc'. core_state_transition (ascii ''T0.3'' @ [0]) 0 (\<lambda>_. 0) = Some (1, CORE_INVALID, tc'))"
proof
  note parse = parse_token_def parse_number_def parse_fraction_def parse_exponent_def is_sign_def ee_isdigit_def
  have "token (ascii ''+0.6e-12,x'' @ [0]) 0 = ascii ''+0.6e-12''" "parse_token (ascii ''+0.6e-12'') = CORE_SCIENTIFIC"
    by (simp_all add: token_def ascii_def parse)
  then show "\<exists>tc'. core_state_transition (ascii ''+0.6e-12,x'' @ [0]) 0 (\<lambda>_. 0) = Some (9, CORE_SCIENTIFIC, tc')"
    using token_classified [of 0 "ascii ''+0.6e-12,x'' @ [0]" "\<lambda>_. 0"] by (auto simp: ascii_def Let_def)
  have t: "token (ascii ''T0.3'' @ [0]) 0 = ascii ''T0.3''" "parse_token (ascii ''T0.3'') = CORE_INVALID"
    "parse_token (take 1 (ascii ''T0.3'')) = CORE_INVALID" "parse_token [] \<noteq> CORE_INVALID"
    by (simp_all add: token_def ascii_def parse)
  obtain n tc' where n: "core_state_transition (ascii ''T0.3'' @ [0]) 0 (\<lambda>_. 0) = Some (n, CORE_INVALID, tc')"
    "parse_token (take n (ascii ''T0.3'')) = CORE_INVALID" "\<forall>k < n. parse_token (take k (ascii ''T0.3'')) \<noteq> CORE_INVALID"
    using token_classified [of 0 "ascii ''T0.3'' @ [0]" "\<lambda>_. 0"] t(1,2) by (auto simp: ascii_def Let_def)
  have "n \<noteq> 0" using n(2) t(4) by (cases n) simp_all
  moreover have "\<not> 1 < n" using n(3) t(3) by blast
  ultimately have "n = 1" by simp
  then show "\<exists>tc'. core_state_transition (ascii ''T0.3'' @ [0]) 0 (\<lambda>_. 0) = Some (1, CORE_INVALID, tc')" using n(1) by simp
qed

text \<open>C22: The state machine kernel never leaves the block that core_init_state has filled for it
  and always returns, whatever the seeds are, when the corruption goes in steps of at least
  two.\<close>

theorem state_kernel_safe:
  assumes "2 \<le> unat sz" "unat sz \<le> length block" "unat sz < 4294967200" "2 \<le> sint step"
  shows "\<exists>mem crc' mem'. core_init_state sz seed block = Some mem \<and>
    core_bench_state sz mem seed1 seed2 step crc = Some (crc', mem')"
proof -
  obtain mem where "core_init_state sz seed block = Some mem"
    using core_init_state_result [of sz block seed] assms by auto
  then show ?thesis using core_bench_state_safe assms by blast
qed

theorem state_kernel_safe_witness:
  "\<exists>mem crc' mem'. core_init_state 666 0x3415 (replicate 666 0xFF) = Some mem \<and>
    core_bench_state 666 mem 0x3415 0x3415 0x22 0 = Some (crc', mem')"
  by (rule state_kernel_safe) simp_all

text \<open>C24: The matrix routines compute the products of linear algebra modulo 2^32 on the elements
  read as signed numbers.\<close>

theorem matrix_products:
  assumes "length A = N * N" "length B = N * N" "length C = N * N" "i < N" "j < N"
  shows "matrix_mul_const N C A val ! (i * N + j) = scast (A ! (i * N + j)) * scast val \<and>
    matrix_mul_vect N C A B ! i = (\<Sum>k<N. scast (A ! (i * N + k)) * scast (B ! k)) \<and>
    matrix_mul_matrix N C A B ! (i * N + j) =
      (\<Sum>k<N. scast (A ! (i * N + k)) * scast (B ! (k * N + j)))"
proof -
  have p: "i * N + j < N * N" using assms(4,5) mult_le_mono1 [of "Suc i" N N] by simp
  have d: "(i * N + j) div N = i" "(i * N + j) mod N = j" using assms(5) by simp_all
  have "N \<le> length C" using assms(3,4) by (cases N) simp_all
  then show ?thesis
    using mul_vect_elements(2) [of N C A B i] mul_const_elements [of N C A val]
      mul_matrix_elements [of N C A B] assms(3,4) p d
    by (simp add: elementwise_def mat_mult_def)
qed

theorem matrix_products_witness:
  "matrix_mul_matrix 2 [0, 0, 0, 0] [1, 2, 3, 0xFFFF] [5, 6, 7, 8] ! (1 * 2 + 1) = 10"
  using matrix_products [of "[1, 2, 3, 0xFFFF]" 2 "[5, 6, 7, 8]" "[0, 0, 0, 0]" 1 1 0]
  by (simp add: lessThan_2)

text \<open>C25: The matrix kernel changes the result matrix only, and a second run gives the same
  checksum contribution, whatever the result matrix held before.\<close>

theorem matrix_kernel_restores:
  assumes "wf_mat p"
  shows "\<exists>t C. core_bench_matrix p seed crc = (crc16 t crc, p\<lparr>matC := C\<rparr>) \<and> wf_mat (p\<lparr>matC := C\<rparr>) \<and>
    (\<forall>crc'. core_bench_matrix (p\<lparr>matC := C\<rparr>) seed crc' = (crc16 t crc', p\<lparr>matC := C\<rparr>))"
proof -
  obtain t C where t: "matrix_test (matN p) (matC p) (matA p) (matB p) seed = (t, C, matA p)"
    "length C = matN p * matN p"
    "\<And>D. length D = matN p * matN p \<Longrightarrow> matrix_test (matN p) D (matA p) (matB p) seed = (t, C, matA p)"
    using matrix_test_result [of "matA p" "matN p" "matC p" "matB p" seed] assms unfolding wf_mat_def by metis
  then show ?thesis using assms t(3) [OF t(2)]
    by (intro exI [of _ t] exI [of _ C]) (simp add: core_bench_matrix_def wf_mat_def)
qed

theorem matrix_kernel_restores_witness:
  "\<exists>t C. core_bench_matrix \<lparr>matN = 1, matA = [3], matB = [5], matC = [9]\<rparr> 7 0 =
     (crc16 t 0, \<lparr>matN = 1, matA = [3], matB = [5], matC = C\<rparr>)"
  using matrix_kernel_restores [of "\<lparr>matN = 1, matA = [3], matB = [5], matC = [9]\<rparr>" 7 0]
  by (auto simp: wf_mat_def)

text \<open>C26: core_init_matrix takes the largest dimension whose three matrices need less than the
  block, lays them out one after the other from the next word boundary and fills A with
  values below 256; they end inside the block when it starts at a word boundary or has three
  bytes to spare, and otherwise at most two bytes behind it.\<close>

theorem matrix_initialised:
  assumes "1 \<le> unat blksize" "unat blksize \<le> 2147483648" "unat blksize \<le> length A"
    "unat blksize \<le> length B" "unat blksize \<le> length C"
  shows "\<exists>p. core_init_matrix blksize seed A B C = Some p \<and> wf_mat p \<and> (\<forall>a \<in> set (matA p). uint a < 256) \<and>
    8 * (matN p * matN p) < unat blksize \<and> unat blksize \<le> 8 * (Suc (matN p) * Suc (matN p)) \<and>
    (\<exists>a b c e. matrix_layout memblk (matN p) = (a, b, c, e) \<and> memblk \<le> a \<and> a mod 4 = 0 \<and> c mod 4 = 0 \<and>
       b = a + 2 * (matN p * matN p) \<and> c = b + 2 * (matN p * matN p) \<and> e = c + 4 * (matN p * matN p) \<and>
       e \<le> memblk + unat blksize + 2 \<and>
       (memblk mod 4 = 0 \<or> 8 * (matN p * matN p) + 3 \<le> unat blksize \<longrightarrow> e \<le> memblk + unat blksize))"
proof -
  obtain p where p: "core_init_matrix blksize seed A B C = Some p" "wf_mat p"
    "8 * (matN p * matN p) < unat blksize" "unat blksize \<le> 8 * (Suc (matN p) * Suc (matN p))"
    "\<And>a. a \<in> set (matA p) \<Longrightarrow> uint a < 256"
    by (rule core_init_matrix_result [OF assms, of seed]) (rule that)
  obtain a b c e where l: "matrix_layout memblk (matN p) = (a, b, c, e)" by (metis prod_cases4)
  have "e \<le> memblk + unat blksize + 2"
    "memblk mod 4 = 0 \<or> 8 * (matN p * matN p) + 3 \<le> unat blksize \<longrightarrow> e \<le> memblk + unat blksize"
    using matrix_layout_disjoint(7,8) [OF l] p(3) by auto
  then show ?thesis using p l matrix_layout_disjoint(1-6) [OF l] by (intro exI [of _ p]) auto
qed

theorem matrix_initialised_witness:
  "\<exists>p a b c e. core_init_matrix 666 0 (replicate 666 0) (replicate 666 0) (replicate 666 0) = Some p \<and>
     matN p = 9 \<and> matrix_layout 666 (matN p) = (a, b, c, e) \<and> 666 \<le> a \<and> e \<le> 666 + 666"
proof -
  obtain p a b c e where p: "core_init_matrix 666 0 (replicate 666 0) (replicate 666 0) (replicate 666 0) = Some p"
    "8 * (matN p * matN p) < 666" "666 \<le> 8 * (Suc (matN p) * Suc (matN p))" "matrix_layout 666 (matN p) = (a, b, c, e)" "666 \<le> a"
    "8 * (matN p * matN p) + 3 \<le> 666 \<longrightarrow> e \<le> 666 + 666"
    using matrix_initialised [of 666 "replicate 666 0" "replicate 666 0" "replicate 666 0" 0 666] by auto
  have "matN p \<le> 9"
  proof (rule ccontr)
    assume "\<not> matN p \<le> 9"
    then have "10 * 10 \<le> matN p * matN p" by (intro mult_mono) simp_all
    then show False using p(2) by simp
  qed
  moreover have "9 \<le> matN p"
  proof (rule ccontr)
    assume "\<not> 9 \<le> matN p"
    then have "Suc (matN p) * Suc (matN p) \<le> 9 * 9" by (intro mult_mono) simp_all
    then show False using p(3) by simp
  qed
  ultimately show ?thesis using p by auto
qed

text \<open>The padding that aligns the start is not counted in the size: a block of nine bytes at an odd
  address gets matrices that end two bytes behind it.\<close>

theorem matrix_overrun: "matrix_dim 9 0 0 = Some 1 \<and> matrix_layout 1 1 = (4, 6, 8, 12) \<and> 1 + 9 < (12 :: nat)"
  by (simp add: matrix_dim.simps matrix_layout_def align_mem_def)

text \<open>C23: When both corruption passes use the same byte, the kernel leaves the block unchanged
  exactly when this byte is zero or no corrupted byte became a comma.\<close>

theorem corruption_undone:
  assumes "core_bench_state blksize mem seed1 seed2 step crc = Some (crc', mem')"
    and "0 < sint step" "unat blksize \<le> length mem" "(ucast seed2 :: u8) = ucast seed1"
  shows "mem' = mem \<longleftrightarrow> (ucast seed1 :: u8) = 0 \<or>
    (\<forall>i. corrupted_at 0 (uint blksize) (sint step) i \<longrightarrow> mem ! i \<noteq> 0x2C \<longrightarrow> mem ! i XOR ucast seed1 \<noteq> 0x2C)"
proof -
  have len: "uint blksize \<le> int (length mem)" using assms(3) by (simp only: uint_nat of_nat_le_iff)
  obtain mem1 mem2 where c: "corrupt mem 0 (uint blksize) (sint step) (ucast seed1) = Some mem1"
    "corrupt mem1 0 (uint blksize) (sint step) (ucast seed1) = Some mem2"
    "mem2 = mem \<longleftrightarrow> (ucast seed1 :: u8) = 0 \<or>
       (\<forall>i. corrupted_at 0 (uint blksize) (sint step) i \<longrightarrow> mem ! i \<noteq> 0x2C \<longrightarrow> mem ! i XOR ucast seed1 \<noteq> 0x2C)"
    by (rule corrupt_twice [OF assms(2) len, of "ucast seed1"]) (rule that)
  have "mem' = mem2"
    using assms(1,4) c(1,2) by (auto simp: core_bench_state_def bind_eq_Some_conv)
  then show ?thesis using c(3) by simp
qed

text \<open>With the seed 1 the minus sign becomes a comma, which the second pass does not touch.\<close>

theorem corruption_undone_witness:
  "\<exists>crc' mem'. core_bench_state 3 [0x2D, 0, 0] 1 1 0x22 0 = Some (crc', mem') \<and> mem' \<noteq> [0x2D, 0, 0]"
proof -
  have z: "0 \<in> set (drop 0 m)" if "m = [0x2D, 0, 0] \<or> m = [0x2C, 0, 0]" for m :: "u8 list" using that by auto
  obtain fc tc where s1: "scan_all [0x2D, 0, 0] 0 (\<lambda>_. 0) (\<lambda>_. 0) = Some (fc, tc)"
    using scan_all_returns [OF z] by blast
  obtain fc2 tc2 where s2: "scan_all [0x2C, 0, 0] 0 fc tc = Some (fc2, tc2)"
    using scan_all_returns [OF z] by blast
  have c: "corrupt [0x2D, 0, 0] 0 3 0x22 1 = Some [0x2C, 0, 0]" "corrupt [0x2C, 0, 0] 0 3 0x22 1 = Some [0x2C, 0, 0]"
    by (subst corrupt.simps, subst corrupt.simps, simp add: get_byte_def put_byte_def)+
  have "corrupted_at 0 (uint (3 :: u32)) (sint (0x22 :: u16)) 0" by (simp add: corrupted_at_def)
  obtain r where r: "core_bench_state 3 [0x2D, 0, 0] 1 1 0x22 0 = Some r"
    using s1 s2 c by (simp add: core_bench_state_def)
  then show ?thesis
    using corruption_undone [where mem = "[0x2D, 0, 0]" and blksize = 3 and ?seed1.0 = 1 and ?seed2.0 = 1 and step = "0x22"] \<open>corrupted_at 0 _ _ 0\<close>
    by (cases r) auto
qed

section \<open>CoreMark: lists\<close>

text \<open>C27: core_list_find returns the first cell whose item has the index, or for a negative index
  whose low byte is the data, and NULL when there is none.\<close>

theorem list_found:
  assumes "lpath (nextp m) p xs"
  shows "core_list_find p info m =
    Some (List.find (\<lambda>x. if 0 \<le> sint (snd info) then idx m (infop m x) = snd info
                         else data16 m (infop m x) AND 0xFF = fst info) xs)"
  using assms by (simp add: core_list_find_def find_loop_result)

theorem list_found_witness:
  "core_list_find (Some 4) (0, 7) \<lparr>nextp = (\<lambda>_. None)(4 := Some 2), infop = id, data16 = (\<lambda>_. 0), idx = (\<lambda>_. 0)(2 := 7)\<rparr>
     = Some (Some 2)"
  by (subst list_found [where xs = "[4, 2]"]) simp_all

text \<open>C28: core_list_reverse relinks the cells in the opposite order, and reversing twice restores
  the memory.\<close>

theorem list_reversed:
  assumes "lpath (nextp m) p xs"
  shows "\<exists>r m'. core_list_reverse p m = Some (r, m') \<and> lpath (nextp m') r (rev xs) \<and> core_list_reverse r m' = Some (p, m)"
proof -
  obtain r m' where 1: "core_list_reverse p m = Some (r, m')" "lpath (nextp m') r (rev xs)"
    "\<And>x. x \<notin> set xs \<Longrightarrow> nextp m' x = nextp m x" "infop m' = infop m" "data16 m' = data16 m" "idx m' = idx m"
    by (rule core_list_reverse_result [OF assms]) (rule that)
  obtain q m2 where 2: "core_list_reverse r m' = Some (q, m2)" "lpath (nextp m2) q (rev (rev xs))"
    "\<And>x. x \<notin> set (rev xs) \<Longrightarrow> nextp m2 x = nextp m' x" "infop m2 = infop m'" "data16 m2 = data16 m'" "idx m2 = idx m'"
    by (rule core_list_reverse_result [OF 1(2)]) (rule that)
  have path: "lpath (nextp m2) q xs" using 2(2) by simp
  have "q = p" "\<And>x. x \<in> set xs \<Longrightarrow> nextp m2 x = nextp m x"
    using lpath_links [OF path assms] by auto
  moreover have "nextp m2 = nextp m" using 1(3) 2(3) calculation(2) by (metis ext set_rev)
  ultimately show ?thesis using 1(1,2,4-6) 2(1,4-6) by (intro exI [of _ r] exI [of _ m']) simp
qed

theorem list_reversed_witness:
  "\<exists>r m'. core_list_reverse (Some 4) \<lparr>nextp = (\<lambda>_. None)(4 := Some 2, 2 := Some 9), infop = id,
       data16 = (\<lambda>_. 0), idx = (\<lambda>_. 0)\<rparr> = Some (r, m') \<and> lpath (nextp m') r [9, 2, 4]"
  using list_reversed [of "\<lparr>nextp = (\<lambda>_. None)(4 := Some 2, 2 := Some 9), infop = id,
       data16 = (\<lambda>_. 0), idx = (\<lambda>_. 0)\<rparr>" "Some 4" "[4, 2, 9]"] by auto

text \<open>C29: core_list_remove takes the data of a cell out of the list, and core_list_undo_remove
  brings the memory back to what it was.\<close>

theorem removal_undone:
  assumes "lpath (nextp m) p (xs @ a # r # ys)"
  shows "\<exists>m'. core_list_remove a m = Some (r, m') \<and> lpath (nextp m') p (xs @ a # ys) \<and>
    map (infop m') (xs @ a # ys) = map (infop m) (xs @ r # ys) \<and> core_list_undo_remove r a m' = (r, m)"
proof -
  obtain m' where m': "core_list_remove a m = Some (r, m')" "lpath (nextp m') p (xs @ a # ys)"
    "infop m' = (infop m)(a := infop m r, r := infop m a)" "core_list_undo_remove r a m' = (r, m)"
    by (rule core_list_remove_result [OF assms]) (rule that)
  moreover have "distinct (xs @ a # r # ys)" using lpath_distinct [OF assms] .
  then have "map (infop m') (xs @ a # ys) = map (infop m) (xs @ r # ys)" by (auto simp: m'(3))
  ultimately show ?thesis by blast
qed

text \<open>The cells 5, 6 and 7 in this order, with the data items of the same numbers.\<close>

definition three_cells :: list_mem where
  "three_cells = \<lparr>nextp = (\<lambda>_. None)(5 := Some 6, 6 := Some 7), infop = (\<lambda>x. x),
     data16 = (\<lambda>_. 0x8080)(5 := 0x0400, 7 := 0x0202), idx = (\<lambda>_. 3)(6 := 1, 7 := 0xFFFF)\<rparr>"

lemma three_cells_path: "lpath (nextp three_cells) (Some 5) [5, 6, 7]"
  by (simp add: three_cells_def)

theorem removal_undone_witness:
  "\<exists>m'. core_list_remove 5 three_cells = Some (6, m') \<and> core_list_undo_remove 6 5 m' = (6, three_cells)"
  using removal_undone [of three_cells "Some 5" "[]" 5 6 "[7]"] three_cells_path by auto

text \<open>C30: The merge sort by index ends, relinks the same cells in ascending order of their signed
  indices and leaves in both bytes of their data the backup byte, the upper one, that they
  had before; any other data word is unchanged or restored in the same way.\<close>

theorem sorted_by_index:
  assumes "lpath (nextp m) p xs" "2 \<le> length xs" "length xs < 2 ^ 31"
  shows "\<exists>m' ys. core_list_mergesort p cmp_idx m None = Some (Some (hd ys), m', None) \<and>
    lpath (nextp m') (Some (hd ys)) ys \<and> mset ys = mset xs \<and>
    sorted (map (\<lambda>x. sint (idx m (infop m x))) ys) \<and> infop m' = infop m \<and> idx m' = idx m \<and>
    (\<forall>x \<in> set xs. uint (data16 m' (infop m x)) = 257 * (uint (data16 m (infop m x)) div 256)) \<and>
    (\<forall>d. uint (data16 m' d) = uint (data16 m d) \<or> uint (data16 m' d) = 257 * (uint (data16 m d) div 256)) \<and>
    (\<forall>x. x \<notin> set xs \<longrightarrow> nextp m' x = nextp m x)"
proof -
  have ok: "idx_regen m m None" by (simp add: idx_regen_def idx_ok_def)
  obtain m' r' ys where s: "core_list_mergesort p cmp_idx m None = Some (Some (hd ys), m', r')"
    "lpath (nextp m') (Some (hd ys)) ys" "mset ys = mset xs" "infop m' = infop m" "idx_regen m m' r'"
    "sorted (map (\<lambda>x. idx_value m' (infop m x)) ys)" "\<And>x. x \<in> set xs \<Longrightarrow> restored m' (infop m x)"
    "\<And>x. x \<notin> set xs \<Longrightarrow> nextp m' x = nextp m x"
    by (rule index_data.mergesort_sorts [OF assms(1,2) ok assms(3)]) (rule that)
  have k: "idx m' = idx m" "r' = None" "data16 m' d = data16 m d \<or> data16 m' d = regen (data16 m d)" for d
    using s(5) by (auto simp: idx_regen_def idx_ok_def)
  have "data16 m' (infop m x) = regen (data16 m (infop m x))" if "x \<in> set xs" for x
    using k(3) [of "infop m x"] s(7) [OF that] by (auto simp: restored_def)
  then have "\<forall>x \<in> set xs. uint (data16 m' (infop m x)) = 257 * (uint (data16 m (infop m x)) div 256)"
    by (simp add: regen_value)
  moreover have "\<forall>d. uint (data16 m' d) = uint (data16 m d) \<or> uint (data16 m' d) = 257 * (uint (data16 m d) div 256)"
    using k(3) by (metis regen_value)
  ultimately show ?thesis using s k(1,2)
    by (intro exI [of _ m'] exI [of _ ys]) (simp add: idx_value_def)
qed

theorem sorted_by_index_witness:
  "\<exists>m' ys. core_list_mergesort (Some 5) cmp_idx three_cells None = Some (Some (hd ys), m', None) \<and>
     mset ys = {#5, 6, 7#} \<and> sorted (map (\<lambda>x. sint (idx three_cells (infop three_cells x))) ys) \<and>
     uint (data16 m' 5) = 0x0404 \<and> uint (data16 m' 6) = 0x8080"
proof -
  obtain m' ys where m': "core_list_mergesort (Some 5) cmp_idx three_cells None = Some (Some (hd ys), m', None)"
    "mset ys = {#5, 6, 7#}" "sorted (map (\<lambda>x. sint (idx three_cells (infop three_cells x))) ys)"
    "\<forall>x \<in> set [5, 6, 7]. uint (data16 m' (infop three_cells x)) = 257 * (uint (data16 three_cells (infop three_cells x)) div 256)"
    using sorted_by_index [OF three_cells_path] by auto
  have "uint (data16 m' 5) = 0x0404" "uint (data16 m' 6) = 0x8080" using m'(4) by (simp_all add: three_cells_def)
  then show ?thesis using m'(1-3) by blast
qed

text \<open>C9: The merge sort by value ends, although its comparison runs the other kernels on demand:
  every item has its value cached, the cells are in ascending order of the values, and the
  backup bytes, the indices and the input of the kernels are unchanged.\<close>

theorem sorted_by_value:
  assumes "lpath (nextp m) p xs" "2 \<le> length xs" "length xs < 2 ^ 31"
    and "wf_mat (res_mat res)" "state_block_ok res"
  shows "\<exists>m' res' ys. core_list_mergesort p cmp_complex m (Some res) = Some (Some (hd ys), m', Some res') \<and>
    lpath (nextp m') (Some (hd ys)) ys \<and> mset ys = mset xs \<and>
    (\<forall>x \<in> set xs. bit (data16 m' (infop m x)) 7) \<and>
    sorted (map (\<lambda>x. sint (data16 m' (infop m x) AND 0x7F)) ys) \<and>
    infop m' = infop m \<and> idx m' = idx m \<and> (\<forall>d. drop_bit 8 (data16 m' d) = drop_bit 8 (data16 m d)) \<and>
    same_input res res'"
proof -
  have ok: "complex_ok m res m (Some res)" using assms(4,5) by (simp add: complex_ok_def res_ok_def)
  obtain m' r' ys where s: "core_list_mergesort p cmp_complex m (Some res) = Some (Some (hd ys), m', r')"
    "lpath (nextp m') (Some (hd ys)) ys" "mset ys = mset xs" "infop m' = infop m" "complex_ok m res m' r'"
    "sorted (map (\<lambda>x. cached_value m' (infop m x)) ys)" "\<And>x. x \<in> set xs \<Longrightarrow> cached m' (infop m x)"
    by (rule complex.mergesort_sorts [OF assms(1,2) ok assms(3)]) (rule that)
  obtain res' where r: "r' = Some res'" "same_input res res'" "idx m' = idx m" "upper m' = upper m"
    using s(5) by (auto simp: complex_ok_def)
  have "drop_bit 8 (data16 m' d) = drop_bit 8 (data16 m d)" for d
    using fun_cong [OF r(4), of d] by (simp add: upper_def)
  then show ?thesis using s r
    by (intro exI [of _ m'] exI [of _ res'] exI [of _ ys]) (simp add: cached_value_def cached_def)
qed

definition small_results :: core_results where
  "small_results = \<lparr>res_seed1 = 0, res_seed2 = 0, res_seed3 = 2, res_memblock3 = ascii ''5,'' @ [0, 0],
     res_size = 4, res_iterations = 2, res_list = Some 5,
     res_mat = \<lparr>matN = 1, matA = [3], matB = [5], matC = [0]\<rparr>,
     res_crc = 0, res_crclist = 0, res_crcmatrix = 0, res_crcstate = 0\<rparr>"

lemma small_results_ok: "wf_mat (res_mat small_results)" "state_block_ok small_results"
  by (simp_all add: small_results_def wf_mat_def state_block_ok_def ascii_def exI [of _ 2])

theorem sorted_by_value_witness:
  "\<exists>m' res' ys. core_list_mergesort (Some 5) cmp_complex three_cells (Some small_results) =
     Some (Some (hd ys), m', Some res') \<and> mset ys = {#5, 6, 7#}"
  using sorted_by_value [OF three_cells_path _ _ small_results_ok] by simp blast

text \<open>C31: core_list_init builds a NULL-terminated list of all cells but one of its block, each
  with an item of its own, sorted by the index the initialisation gives, with equal upper
  and lower data bytes.\<close>

theorem list_initialised:
  assumes "6 \<le> unat (blksize div 20)"
  shows "\<exists>l m' ys. core_list_init blksize seed m = Some (l, m') \<and> lpath (nextp m') l ys \<and>
    mset ys = mset [0..<unat (blksize div 20) - 3] \<and> sorted (map (\<lambda>x. sint (idx m' x)) ys) \<and>
    mset (map (idx m') ys) = mset (list_indices (blksize div 20 - 2) seed (unat (blksize div 20) - 3)) \<and>
    (\<forall>x \<in> set ys. infop m' x = x \<and> regen (data16 m' x) = data16 m' x)"
proof -
  let ?n = "unat (blksize div 20)"
  have n: "unat (blksize div 20 - 2) = ?n - 2"
    using assms by (subst unat_sub) (simp_all add: word_le_nat_alt)
  have "?n \<le> unat blksize div 20" by (simp add: unat_div)
  then have big: "4 \<le> unat (blksize div 20 - 2)" "unat (blksize div 20 - 2) < 2 ^ 31"
    using assms unsigned_less [where 'a = nat, of blksize] by (simp_all add: n)
  obtain l m' ys where s: "core_list_init blksize seed m = Some (l, m')" "lpath (nextp m') l ys"
    "mset ys = mset [0..<unat (blksize div 20 - 2) - 1]" "\<And>x. x < unat (blksize div 20 - 2) - 1 \<Longrightarrow> infop m' x = x"
    "sorted (map (\<lambda>x. idx_value m' x) ys)"
    "map (idx m') (init_cells (unat (blksize div 20 - 2) - 1)) =
       list_indices (blksize div 20 - 2) seed (unat (blksize div 20 - 2) - 1)"
    "\<And>x. x < unat (blksize div 20 - 2) - 1 \<Longrightarrow> restored m' x"
    by (rule core_list_init_result [OF big]) (rule that)
  have k: "unat (blksize div 20 - 2) - 1 = ?n - 3" using n by simp
  have cells: "mset (init_cells (?n - 3)) = mset [0..<?n - 3]"
    using assms by (simp add: init_cells_def upt_conv_Cons [of 0] flip: One_nat_def)
  have "mset (map (idx m') ys) = image_mset (idx m') (mset (init_cells (?n - 3)))"
    by (simp only: s(3) cells k mset_map)
  also have "\<dots> = mset (list_indices (blksize div 20 - 2) seed (?n - 3))"
    by (simp only: s(6) [unfolded k] mset_map [symmetric])
  finally have "mset (map (idx m') ys) = mset (list_indices (blksize div 20 - 2) seed (?n - 3))" .
  moreover have "set ys = {0..<?n - 3}" using arg_cong [OF s(3) [unfolded k], of set_mset] by simp
  ultimately show ?thesis using s(1,2,5) s(3,4,7) [unfolded k]
    by (intro exI [of _ l] exI [of _ m'] exI [of _ ys]) (simp add: idx_value_def restored_def)
qed

theorem list_initialised_witness:
  "\<exists>l m' ys. core_list_init 666 0 three_cells = Some (l, m') \<and> lpath (nextp m') l ys \<and> mset ys = mset [0..<30]"
  using list_initialised [of 666 0 three_cells] by auto

section \<open>CoreMark: the benchmark\<close>

text \<open>C32: One run of the list kernel never follows NULL, returns, and leaves the list in its
  order with the data restored and the operands of the other kernels unchanged.\<close>

theorem benchmark_keeps_invariant:
  assumes "bench_inv res m xs"
  shows "\<exists>retval m' res'. core_bench_list res finder_idx m = Some (retval, m', res') \<and> bench_inv res' m' xs \<and>
    same_input res res' \<and> list_restored xs m m'"
  using core_bench_list_restores [OF assms, of finder_idx] by metis

definition three_sorted :: list_mem where
  "three_sorted = three_cells\<lparr>idx := (\<lambda>x. of_nat x)\<rparr>"

lemma three_sorted_inv: "bench_inv small_results three_sorted [5, 6, 7]"
  using small_results_ok
  by (simp add: bench_inv_def res_ok_def) (simp add: small_results_def three_sorted_def three_cells_def idx_value_def)

theorem benchmark_keeps_invariant_witness:
  "\<exists>retval m' res'. core_bench_list small_results (- 1) three_sorted = Some (retval, m', res') \<and>
     lpath (nextp m') (Some 5) [5, 6, 7] \<and> data16 m' 5 = 0x0404 \<and> data16 m' 7 = 0x0202"
proof -
  obtain retval m' res' where r: "core_bench_list small_results (- 1) three_sorted = Some (retval, m', res')"
    "bench_inv res' m' [5, 6, 7]" "same_input small_results res'" "list_restored [5, 6, 7] three_sorted m'"
    using benchmark_keeps_invariant [OF three_sorted_inv] by blast
  have "res_list res' = Some 5" using r(3) by (simp add: same_input_def small_results_def)
  then have "lpath (nextp m') (Some 5) [5, 6, 7]" using r(2) by (simp only: bench_inv_def)
  moreover have "data16 m' d = regen (data16 three_sorted d)" if "d \<in> {5, 6, 7}" for d
    using r(4) that by (auto simp: list_restored_def three_sorted_def three_cells_def)
  then have "data16 m' 5 = 0x0404" "data16 m' 7 = 0x0202"
    by (simp_all add: three_sorted_def three_cells_def regen_def)
  ultimately show ?thesis using r(1) by blast
qed

text \<open>C33: All iterations return and keep the list and the operands as they were.\<close>

theorem iterations_return:
  assumes "bench_inv res m xs" "0 < unat (res_iterations res)"
  shows "\<exists>m' res'. iterate res m = Some (m', res') \<and> bench_inv res' m' xs \<and> same_input res res' \<and>
    list_restored xs m m'"
  using iterate_result [OF assms(1)] assms(2) by metis

theorem iterations_return_witness:
  "\<exists>m' res'. iterate small_results three_sorted = Some (m', res') \<and> same_input small_results res'"
  using iterations_return [OF three_sorted_inv] by (simp add: small_results_def) blast

text \<open>C10: From the official seeds, or any with the properties of seeds_ok, the benchmark runs
  from initialisation to the error count, and its list still has the thirty cells in the
  order of their indices.\<close>

theorem benchmark_returns:
  assumes "seeds_ok (default_seeds seeds)" "area_ok area"
  shows "\<exists>errors m res xs. coremark_main ten_secs seeds area = Some (errors, m, res) \<and>
    bench_inv res m xs \<and> mset xs = mset [0..<30]"
  using coremark_returns [OF assms, of ten_secs] by metis

theorem benchmark_returns_witness:
  "\<exists>errors m res. coremark_main True (1, 0, 0)
     \<lparr>area_list = three_cells, area_A = replicate 666 0, area_B = replicate 666 0, area_C = replicate 666 0,
      area_bytes = replicate 666 0\<rparr> = Some (errors, m, res)"
  using benchmark_returns [OF official_seeds(2), of "\<lparr>area_list = three_cells, area_A = replicate 666 0,
      area_B = replicate 666 0, area_C = replicate 666 0, area_bytes = replicate 666 0\<rparr>" True]
  by (auto simp: area_ok_def)

text \<open>The checksums of the official seed sets and sizes select the known results.\<close>

theorem seeds_recognised:
  "known_id (seedcrc (res\<lparr>res_seed1 := 0, res_seed2 := 0, res_seed3 := 0x66, res_size := 666\<rparr>)) = Some 3 \<and>
   known_id (seedcrc (res\<lparr>res_seed1 := 0x3415, res_seed2 := 0x3415, res_seed3 := 0x66, res_size := 666\<rparr>)) = Some 4 \<and>
   known_id (seedcrc (res\<lparr>res_seed1 := 8, res_seed2 := 8, res_seed3 := 8, res_size := 400\<rparr>)) = Some 2"
  by (simp add: known_id_def seedcrc_def crc16_def crcu16_bits bits16 crc_bit_def)

end
